(* ===== verification/Prelude.thy ===== *)
theory Prelude
  imports Complex_Main "HOL-Library.Word" "HOL-Library.Multiset" "HOL-Library.Product_Lexorder"
begin

text \<open>
  Shared ground of the development: the value of a raised exception, the model of
  \<open>float\<close> arrays and of pointer arithmetic on them, the scalar distance kernels of
  \<open>faiss/utils\<close>, and the list lemmas that several components use.

  \<open>float\<close> is modelled by the rationals: every finite \<open>float\<close> is one, comparisons are the
  same, and sums and products are exact. Rounding, NaN and infinities are not modelled, except that
  \<open>FLT_MAX\<close> is the number it is, because the code uses it as a marker.
  An out-of-range read is never evaluated in a statement: the theorems carry the
  well-formedness of the arrays that the code relies on.
\<close>

section \<open>Exceptions\<close>

text \<open>
  \<open>FaissException\<close> is what the FAISS_THROW macros raise, \<open>AssertFailed\<close> is a failed
  FAISS_ASSERT, and \<open>OutOfBounds\<close> stands for an access outside an array, which C++ leaves
  undefined: the models return it where an index is computed from data. \<open>StdException\<close> is an exception
  of the C++ library. \<open>NotModelled\<close> is no event of the code: a reader of files gives it for the files of
  other index classes, for which the model has no value.
\<close>

datatype fault =
    FaissException string
  | AssertFailed
  | OutOfBounds
  | StdException string
  | NotModelled

type_synonym 'a result = "fault + 'a"

text \<open>The macros FAISS_THROW_IF_NOT and FAISS_THROW_IF_NOT_MSG, with the rest of the function as a
  continuation, and the sequencing of a call that may throw.\<close>

definition throw_unless :: "bool \<Rightarrow> string \<Rightarrow> 'a result \<Rightarrow> 'a result" where
  "throw_unless c msg k = (if c then k else Inl (FaissException msg))"

definition bind_result :: "'a result \<Rightarrow> ('a \<Rightarrow> 'b result) \<Rightarrow> 'b result" where
  "bind_result r k = (case r of Inl e \<Rightarrow> Inl e | Inr v \<Rightarrow> k v)"

lemma throw_unless_True [simp]: "c \<Longrightarrow> throw_unless c m k = k"
  by (simp add: throw_unless_def)

lemma throw_unless_False [simp]: "\<not> c \<Longrightarrow> throw_unless c m k = Inl (FaissException m)"
  by (simp add: throw_unless_def)

lemma throw_unless_Inr: "throw_unless c m k = Inr v \<longleftrightarrow> c \<and> k = Inr v"
  by (simp add: throw_unless_def)

lemma bind_result_Inr [simp]: "bind_result (Inr v) k = k v"
  by (simp add: bind_result_def)

lemma bind_result_Inl [simp]: "bind_result (Inl e) k = Inl e"
  by (simp add: bind_result_def)

lemma bind_result_eq_Inr: "bind_result r k = Inr w \<longleftrightarrow> (\<exists>v. r = Inr v \<and> k v = Inr w)"
  by (cases r) simp_all

text \<open>Loops whose body may throw: over a list with a state, and over rows that are rewritten.\<close>

fun fold_result :: "('a \<Rightarrow> 's \<Rightarrow> 's result) \<Rightarrow> 'a list \<Rightarrow> 's \<Rightarrow> 's result" where
  "fold_result f [] s = Inr s"
| "fold_result f (x # xs) s = bind_result (f x s) (fold_result f xs)"

fun rows_result :: "(nat \<Rightarrow> 'a \<Rightarrow> 'a result) \<Rightarrow> nat list \<Rightarrow> 'a list \<Rightarrow> 'a list result" where
  "rows_result f [] t = Inr t"
| "rows_result f (i # is) t = bind_result (f i (t ! i)) (\<lambda>r. rows_result f is (t[i := r]))"

section \<open>Floats and rows of a flat array\<close>

type_synonym float_t = rat

text \<open>\<open>std::numeric_limits<float>::max()\<close> of IEEE binary32.\<close>

definition FLT_MAX :: float_t where
  "FLT_MAX = (2 ^ 24 - 1) * 2 ^ 104"

text \<open>The block of \<open>n\<close> elements that starts at \<open>x + o\<close>.\<close>

definition slice :: "nat \<Rightarrow> nat \<Rightarrow> 'a list \<Rightarrow> 'a list" where
  "slice ofs n xs = take n (drop ofs xs)"

lemma length_slice [simp]: "ofs + n \<le> length xs \<Longrightarrow> length (slice ofs n xs) = n"
  by (simp add: slice_def)

lemma nth_slice [simp]: "ofs + n \<le> length xs \<Longrightarrow> i < n \<Longrightarrow> slice ofs n xs ! i = xs ! (ofs + i)"
  by (simp add: slice_def)

lemma slice_append1: "ofs + n \<le> length xs \<Longrightarrow> slice ofs n (xs @ ys) = slice ofs n xs"
  by (simp add: slice_def)

text \<open>Row \<open>i\<close> of a row-major matrix with rows of length \<open>d\<close>.\<close>

abbreviation row :: "nat \<Rightarrow> nat \<Rightarrow> 'a list \<Rightarrow> 'a list" where
  "row d i xs \<equiv> slice (i * d) d xs"

lemma row_bound: "i < n \<Longrightarrow> length xs = n * d \<Longrightarrow> i * d + d \<le> length (xs :: 'a list)"
proof -
  assume "i < n" "length xs = n * d"
  then have "Suc i * d \<le> n * d" by (intro mult_le_mono1) simp
  with \<open>length xs = n * d\<close> show ?thesis by simp
qed

text \<open>\<open>memcpy\<close> of \<open>ys\<close> to \<open>xs + o\<close>.\<close>

definition blit :: "nat \<Rightarrow> 'a list \<Rightarrow> 'a list \<Rightarrow> 'a list" where
  "blit ofs ys xs = take ofs xs @ ys @ drop (ofs + length ys) xs"

lemma length_blit [simp]: "ofs + length ys \<le> length xs \<Longrightarrow> length (blit ofs ys xs) = length xs"
  by (simp add: blit_def)

lemma nth_blit:
  "ofs + length ys \<le> length xs \<Longrightarrow> i < length xs \<Longrightarrow>
    blit ofs ys xs ! i = (if ofs \<le> i \<and> i < ofs + length ys then ys ! (i - ofs) else xs ! i)"
  by (auto simp: blit_def nth_append min_def)

text \<open>\<open>v[i].push_back(x)\<close> on a vector of vectors.\<close>

definition push_back_at :: "nat \<Rightarrow> 'a \<Rightarrow> 'a list list \<Rightarrow> 'a list list" where
  "push_back_at i x xss = xss[i := xss ! i @ [x]]"

lemma length_push_back_at [simp]: "length (push_back_at i x xss) = length xss"
  by (simp add: push_back_at_def)

lemma nth_push_back_at:
  "i < length xss \<Longrightarrow> push_back_at i x xss ! j = (if i = j then xss ! j @ [x] else xss ! j)"
  by (simp add: push_back_at_def)

lemma mset_concat_push_back_at:
  "i < length xss \<Longrightarrow> mset (concat (push_back_at i x xss)) = add_mset x (mset (concat xss))"
proof -
  assume "i < length xss"
  then have xss: "xss = take i xss @ xss ! i # drop (Suc i) xss"
    by (simp add: id_take_nth_drop)
  have "push_back_at i x xss = take i xss @ (xss ! i @ [x]) # drop (Suc i) xss"
    using \<open>i < length xss\<close> by (simp add: push_back_at_def upd_conv_take_nth_drop)
  then have "mset (concat (push_back_at i x xss))
      = add_mset x (mset (concat (take i xss @ xss ! i # drop (Suc i) xss)))"
    by simp
  then show ?thesis using xss by simp
qed

text \<open>A loop that rewrites the rows \<open>a..b-1\<close>, each from its own contents.\<close>

definition each_row :: "(nat \<Rightarrow> 'a \<Rightarrow> 'a) \<Rightarrow> nat \<Rightarrow> nat \<Rightarrow> 'a list \<Rightarrow> 'a list" where
  "each_row f a b t = fold (\<lambda>i t. t[i := f i (t ! i)]) [a..<b] t"

lemma length_each_row [simp]: "length (each_row f a b t) = length t"
proof -
  have "length (fold (\<lambda>i t. t[i := f i (t ! i)]) is t) = length t" for "is"
    by (induction "is" arbitrary: t) simp_all
  then show ?thesis by (simp add: each_row_def)
qed

lemma nth_each_row:
  assumes "a \<le> b" "b \<le> length t" "j < length t"
  shows "each_row f a b t ! j = (if a \<le> j \<and> j < b then f j (t ! j) else t ! j)"
  using assms
proof (induction b)
  case (Suc b)
  show ?case
  proof (cases "a \<le> b")
    case True
    then have "each_row f a (Suc b) t = (each_row f a b t)[b := f b (each_row f a b t ! b)]"
      by (simp add: each_row_def)
    with True Suc show ?thesis by (auto simp: nth_list_update less_Suc_eq)
  next
    case False
    with Suc.prems show ?thesis by (auto simp: each_row_def)
  qed
qed (simp add: each_row_def)

section \<open>Scalar distance kernels\<close>

text \<open>\<open>fvec_L2sqr\<close>: the loop over the coordinates, accumulating the squared differences.\<close>

fun fvec_L2sqr :: "float_t list \<Rightarrow> float_t list \<Rightarrow> float_t" where
  "fvec_L2sqr (x # xs) (y # ys) = (x - y) * (x - y) + fvec_L2sqr xs ys"
| "fvec_L2sqr _ _ = 0"

text \<open>\<open>fvec_L2sqr_ny\<close>: distances of one vector to the \<open>ny\<close> rows of a matrix.\<close>

definition fvec_L2sqr_ny :: "float_t list \<Rightarrow> float_t list \<Rightarrow> nat \<Rightarrow> nat \<Rightarrow> float_t list" where
  "fvec_L2sqr_ny x y d ny = map (\<lambda>i. fvec_L2sqr x (row d i y)) [0..<ny]"

lemma fvec_L2sqr_nonneg [simp]: "0 \<le> fvec_L2sqr x y"
  by (induction x y rule: fvec_L2sqr.induct) simp_all

lemma fvec_L2sqr_self [simp]: "fvec_L2sqr x x = 0"
  by (induction x) simp_all

lemma fvec_L2sqr_sym: "fvec_L2sqr x y = fvec_L2sqr y x"
  by (induction x y rule: fvec_L2sqr.induct) (simp_all add: algebra_simps)

lemma length_fvec_L2sqr_ny [simp]: "length (fvec_L2sqr_ny x y d ny) = ny"
  by (simp add: fvec_L2sqr_ny_def)

lemma fvec_L2sqr_append:
  "length xs = length ys \<Longrightarrow>
    fvec_L2sqr (xs @ xs') (ys @ ys') = fvec_L2sqr xs ys + fvec_L2sqr xs' ys'"
  by (induction xs ys rule: list_induct2) simp_all

section \<open>Sorting an index array by key\<close>

text \<open>
  The idiom \<open>std::iota\<close> followed by \<open>std::sort\<close> (or \<open>std::partial_sort\<close>) with a comparator
  on a key array: the indices \<open>0..n-1\<close> in ascending key order. The standard leaves the order of
  equal keys open; the model keeps them in index order.
\<close>

definition sorted_order :: "'k::linorder list \<Rightarrow> nat list" where
  "sorted_order keys = sort_key (\<lambda>i. keys ! i) [0..<length keys]"

lemma length_sorted_order [simp]: "length (sorted_order ks) = length ks"
  by (simp add: sorted_order_def)

lemma set_sorted_order [simp]: "set (sorted_order ks) = {..<length ks}"
  by (auto simp: sorted_order_def)

lemma distinct_sorted_order [simp]: "distinct (sorted_order ks)"
  by (simp add: sorted_order_def)

lemma sorted_sorted_order [simp]: "sorted (map (\<lambda>i. ks ! i) (sorted_order ks))"
  by (simp add: sorted_order_def)

lemma sorted_order_less [simp]: "i < length ks \<Longrightarrow> sorted_order ks ! i < length ks"
  using nth_mem[of i "sorted_order ks"] by simp

lemma mset_sorted_order: "mset (sorted_order ks) = mset [0..<length ks]"
  by (simp add: sorted_order_def)

lemma sorted_order_mono:
  assumes "i \<le> j" "j < length ks"
  shows "ks ! (sorted_order ks ! i) \<le> ks ! (sorted_order ks ! j)"
  using sorted_nth_mono[OF sorted_sorted_order[of ks] assms(1)] assms by simp

end
