(* ===== verification/SuCo.thy ===== *)
theory SuCo
  imports Prelude
begin

text \<open>
  \<open>IndexSuCo\<close> of \<open>faiss/IndexSuCo.h\<close> and \<open>faiss/IndexSuCo.cpp\<close>: the index state, the constructors,
  \<open>reset\<close>, \<open>train\<close>, \<open>assign_to_centroids\<close> and \<open>add\<close>, and the invariant that
  the inverted multi-indexes hold every stored vector exactly once per subspace.
\<close>

section \<open>State\<close>

text \<open>The members of \<open>struct IndexSuCo\<close> and the ones it uses of \<open>struct Index\<close>. Signed C++
  integers are \<open>int\<close>; \<open>nS\<close>, \<open>nC\<close>, \<open>nT\<close>, \<open>dimd\<close>, \<open>subd\<close>, \<open>halfd\<close>
  read them as sizes.\<close>

record suco =
  su_d :: int
  su_ntotal :: int
  su_is_trained :: bool
  nsubspaces :: int
  ncentroids_half :: int
  collision_ratio :: float_t
  candidate_ratio :: float_t
  su_niter :: int
  subspace_dim :: int
  half_dim :: int
  centroids :: "float_t list"
  inv_lists :: "nat list list list"
  su_xb :: "float_t list"

abbreviation nS :: "suco \<Rightarrow> nat" where "nS ix \<equiv> nat (nsubspaces ix)"
abbreviation nC :: "suco \<Rightarrow> nat" where "nC ix \<equiv> nat (ncentroids_half ix)"
abbreviation nT :: "suco \<Rightarrow> nat" where "nT ix \<equiv> nat (su_ntotal ix)"
abbreviation dimd :: "suco \<Rightarrow> nat" where "dimd ix \<equiv> nat (su_d ix)"
abbreviation subd :: "suco \<Rightarrow> nat" where "subd ix \<equiv> nat (subspace_dim ix)"
abbreviation halfd :: "suco \<Rightarrow> nat" where "halfd ix \<equiv> nat (half_dim ix)"

section \<open>Constructors and reset\<close>

definition IndexSuCo ::
  "int \<Rightarrow> int \<Rightarrow> int \<Rightarrow> float_t \<Rightarrow> float_t \<Rightarrow> int \<Rightarrow> suco result" where
  "IndexSuCo d ns nc cr cdr niter =
     throw_unless (d > 0) ''IndexSuCo: d must be > 0''
    (throw_unless (ns > 0) ''IndexSuCo: nsubspaces must be > 0''
    (throw_unless (nc > 0) ''IndexSuCo: ncentroids_half must be > 0''
    (throw_unless (ns \<le> 255) ''IndexSuCo: nsubspaces must be <= 255 (SC-scores are uint8)''
    (throw_unless (d mod ns = 0) ''IndexSuCo: d must be divisible by nsubspaces''
    (throw_unless ((d div ns) mod 2 = 0) ''IndexSuCo: d/nsubspaces must be even (each subspace is split into two halves)''
    (throw_unless (cr > 0 \<and> cr < 1) ''IndexSuCo: collision_ratio must be in (0,1)''
    (throw_unless (cdr > 0 \<and> cdr < 1) ''IndexSuCo: candidate_ratio must be in (0,1)''
      (Inr \<lparr> su_d = d, su_ntotal = 0, su_is_trained = False,
             nsubspaces = ns, ncentroids_half = nc, collision_ratio = cr, candidate_ratio = cdr,
             su_niter = niter, subspace_dim = d div ns, half_dim = (d div ns) div 2,
             centroids = [], inv_lists = [], su_xb = [] \<rparr>))))))))"

definition IndexSuCo_default :: suco where
  "IndexSuCo_default =
     \<lparr> su_d = 0, su_ntotal = 0, su_is_trained = False,
       nsubspaces = 0, ncentroids_half = 0, collision_ratio = 0, candidate_ratio = 0,
       su_niter = 0, subspace_dim = 0, half_dim = 0,
       centroids = [], inv_lists = [], su_xb = [] \<rparr>"

definition suco_reset :: "suco \<Rightarrow> suco" where
  "suco_reset ix =
     ix\<lparr> centroids := [], inv_lists := [], su_xb := [], su_ntotal := 0, su_is_trained := False \<rparr>"

section \<open>Training\<close>

text \<open>The gather loop in front of k-means and of the assignment: columns
  \<open>[col_start, col_start + half_dim)\<close> of the \<open>n\<close> input rows, contiguously.\<close>

definition gather_half :: "suco \<Rightarrow> nat \<Rightarrow> float_t list \<Rightarrow> nat \<Rightarrow> nat \<Rightarrow> float_t list" where
  "gather_half ix n x s half =
     concat (map (\<lambda>i. slice (i * dimd ix + (s * subd ix + half * halfd ix)) (halfd ix) x) [0..<n])"

text \<open>A k-means run (\<open>Clustering::train\<close> with a flat assignment index): dimension, number of
  centroids, iterations, seed and training data to the centroid table, or the exception it throws.\<close>

type_synonym kmeans = "nat \<Rightarrow> nat \<Rightarrow> int \<Rightarrow> int \<Rightarrow> float_t list \<Rightarrow> float_t list result"

text \<open>The two nested loops of \<open>train\<close> over the subspaces and their halves. An exception of the
  clustering leaves the index as it is at that moment.\<close>

fun train_halves ::
  "kmeans \<Rightarrow> nat \<Rightarrow> float_t list \<Rightarrow> (nat \<times> nat) list \<Rightarrow> suco \<Rightarrow> suco \<times> fault option" where
  "train_halves km n x [] ix = (ix, None)"
| "train_halves km n x ((s, half) # rest) ix =
     (case km (halfd ix) (nC ix) (su_niter ix) (int (42 + s * 2 + half)) (gather_half ix n x s half) of
        Inl e \<Rightarrow> (ix, Some e)
      | Inr cs \<Rightarrow>
          train_halves km n x rest
            (ix\<lparr> centroids := blit ((s * 2 + half) * nC ix * halfd ix)
                                   (take (nC ix * halfd ix) cs) (centroids ix) \<rparr>))"

definition suco_train :: "kmeans \<Rightarrow> int \<Rightarrow> float_t list \<Rightarrow> suco \<Rightarrow> suco \<times> fault option" where
  "suco_train km n x ix =
     (if \<not> n > 0 then (ix, Some (FaissException ''IndexSuCo: need at least one training vector''))
      else
        let ix1 = ix\<lparr> centroids := [], inv_lists := [], su_xb := [], su_ntotal := 0,
                      su_is_trained := False \<rparr>;
            ix2 = ix1\<lparr> centroids := replicate (nS ix * 2 * nC ix * halfd ix) 0,
                       inv_lists := replicate (nS ix) (replicate (nC ix * nC ix) []) \<rparr>
        in case train_halves km (nat n) x
                  (List.product [0..<nS ix] [0..<2]) ix2 of
             (ix3, Some e) \<Rightarrow> (ix3, Some e)
           | (ix3, None) \<Rightarrow> (ix3\<lparr> su_is_trained := True \<rparr>, None))"

section \<open>Assignment to the nearest centroid\<close>

text \<open>\<open>knn_L2sqr\<close> with \<open>k = 1\<close>: the loop of \<open>exhaustive_L2sqr_seq\<close> into a
  \<open>Top1BlockResultHandler\<close>, whose threshold starts at \<open>FLT_MAX\<close> and whose label starts at -1. For 20 and more
  vectors the code takes BLAS blocks instead; \<open>SuCoAssign\<close> proves that they give the same labels.\<close>

definition top1_add_result :: "float_t \<times> int \<Rightarrow> float_t \<Rightarrow> int \<Rightarrow> float_t \<times> int" where
  "top1_add_result st dis idx = (if fst st > dis then (dis, idx) else st)"

fun exhaustive_top1 ::
  "float_t list \<Rightarrow> float_t list \<Rightarrow> nat \<Rightarrow> nat list \<Rightarrow> float_t \<times> int \<Rightarrow> float_t \<times> int" where
  "exhaustive_top1 x y d [] st = st"
| "exhaustive_top1 x y d (j # js) st =
     exhaustive_top1 x y d js (top1_add_result st (fvec_L2sqr x (row d j y)) (int j))"

definition assign_to_centroids ::
  "nat \<Rightarrow> nat \<Rightarrow> float_t list \<Rightarrow> nat \<Rightarrow> float_t list \<Rightarrow> int list" where
  "assign_to_centroids n dm vecs nc cents =
     map (\<lambda>i. snd (exhaustive_top1 (row dm i vecs) cents dm [0..<nc] (FLT_MAX, -1))) [0..<n]"

section \<open>Adding vectors\<close>

text \<open>The assignment of the \<open>n\<close> vectors in one half of one subspace.\<close>

definition half_assign :: "suco \<Rightarrow> nat \<Rightarrow> float_t list \<Rightarrow> nat \<Rightarrow> nat \<Rightarrow> int list" where
  "half_assign ix n x s half =
     assign_to_centroids n (halfd ix) (gather_half ix n x s half) (nC ix)
       (drop ((s * 2 + half) * nC ix * halfd ix) (centroids ix))"

text \<open>The push loop of one subspace: the bucket of vector \<open>i\<close> receives the id \<open>base_id + i\<close>.
  A negative label makes the bucket index leave the table.\<close>

fun push_ids ::
  "nat \<Rightarrow> int list \<Rightarrow> int list \<Rightarrow> nat \<Rightarrow> nat list list \<Rightarrow> nat list list result" where
  "push_ids nc (a1 # as1) (a2 # as2) vid ls =
     (let bucket = a1 * int nc + a2 in
      if 0 \<le> a1 \<and> 0 \<le> a2 \<and> bucket < int (length ls)
      then push_ids nc as1 as2 (Suc vid) (push_back_at (nat bucket) vid ls)
      else Inl OutOfBounds)"
| "push_ids nc _ _ vid ls = Inr ls"

fun add_subspaces ::
  "suco \<Rightarrow> nat \<Rightarrow> float_t list \<Rightarrow> nat list \<Rightarrow> nat list list list \<Rightarrow> nat list list list result" where
  "add_subspaces ix n x [] ils = Inr ils"
| "add_subspaces ix n x (s # ss) ils =
     bind_result
       (push_ids (nC ix) (half_assign ix n x s 0) (half_assign ix n x s 1) (nT ix) (ils ! s))
       (\<lambda>l. add_subspaces ix n x ss (ils[s := l]))"

definition suco_add :: "int \<Rightarrow> float_t list \<Rightarrow> suco \<Rightarrow> suco result" where
  "suco_add n x ix =
     throw_unless (su_is_trained ix) ''IndexSuCo: must call train() before add()''
    (throw_unless (n > 0) ''IndexSuCo: n must be > 0''
      (let ils = (if inv_lists ix = [] then replicate (nS ix) (replicate (nC ix * nC ix) [])
                  else inv_lists ix)
       in bind_result (add_subspaces ix (nat n) x [0..<nS ix] ils)
            (\<lambda>ils'. Inr (ix\<lparr> su_xb := su_xb ix @ take (nat n * dimd ix) x,
                             inv_lists := ils',
                             su_ntotal := su_ntotal ix + n \<rparr>))))"


section \<open>The nearest-centroid assignment\<close>

lemma exhaustive_top1_spec:
  assumes "exhaustive_top1 x y d js (t0, l0) = (t, l)"
  shows "t \<le> t0 \<and> (\<forall>j \<in> set js. t \<le> fvec_L2sqr x (row d j y)) \<and>
    (t = t0 \<and> l = l0 \<or> t < t0 \<and> (\<exists>j \<in> set js. l = int j \<and> t = fvec_L2sqr x (row d j y)))"
  using assms
proof (induction js arbitrary: t0 l0)
  case Nil
  then show ?case by simp
next
  case (Cons j js)
  show ?case
  proof (cases "t0 > fvec_L2sqr x (row d j y)")
    case True
    with Cons.prems have *: "exhaustive_top1 x y d js (fvec_L2sqr x (row d j y), int j) = (t, l)"
      by (simp add: top1_add_result_def)
    from Cons.IH[OF *] True show ?thesis by auto
  next
    case False
    with Cons.prems have *: "exhaustive_top1 x y d js (t0, l0) = (t, l)"
      by (simp add: top1_add_result_def)
    from Cons.IH[OF *] False show ?thesis by auto
  qed
qed

text \<open>The label of a vector: the row index of a nearest centroid, or -1 when every centroid is at a
  distance of at least \<open>FLT_MAX\<close>.\<close>

lemma exhaustive_top1_label:
  assumes "\<exists>j < nc. fvec_L2sqr x (row d j y) < FLT_MAX"
  shows "\<exists>j < nc. snd (exhaustive_top1 x y d [0..<nc] (FLT_MAX, -1)) = int j \<and> (\<forall>j' < nc. fvec_L2sqr x (row d j y) \<le> fvec_L2sqr x (row d j' y))"
proof -
  obtain t l where tl: "exhaustive_top1 x y d [0..<nc] (FLT_MAX, -1) = (t, l)"
    by (cases "exhaustive_top1 x y d [0..<nc] (FLT_MAX, -1)")
  from exhaustive_top1_spec[OF tl] assms show ?thesis
    unfolding tl by (fastforce simp: not_le[symmetric])
qed

lemma label_range:
  "snd (exhaustive_top1 x y d [0..<nc] (FLT_MAX, -1)) < int nc \<and>
   -1 \<le> snd (exhaustive_top1 x y d [0..<nc] (FLT_MAX, -1))" if "0 < nc"
proof -
  obtain t l where tl: "exhaustive_top1 x y d [0..<nc] (FLT_MAX, -1) = (t, l)"
    by (cases "exhaustive_top1 x y d [0..<nc] (FLT_MAX, -1)")
  from exhaustive_top1_spec[OF tl] that show ?thesis by (auto simp: tl)
qed

lemma length_assign_to_centroids [simp]: "length (assign_to_centroids n dm v nc c) = n"
  by (simp add: assign_to_centroids_def)

lemma length_half_assign [simp]: "length (half_assign ix n x s h) = n"
  by (simp add: half_assign_def)

section \<open>The push loop\<close>

definition labels_ok :: "nat \<Rightarrow> int list \<Rightarrow> bool" where
  "labels_ok nc as \<longleftrightarrow> (\<forall>a \<in> set as. 0 \<le> a \<and> a < int nc)"

lemma labels_ok_Cons [simp]: "labels_ok nc (a # as) \<longleftrightarrow> 0 \<le> a \<and> a < int nc \<and> labels_ok nc as"
  by (auto simp: labels_ok_def)

lemma bucket_bound:
  "0 \<le> a1 \<Longrightarrow> a1 < int nc \<Longrightarrow> 0 \<le> a2 \<Longrightarrow> a2 < int nc \<Longrightarrow> a1 * int nc + a2 < int (nc * nc)"
proof -
  assume a: "0 \<le> a1" "a1 < int nc" "0 \<le> a2" "a2 < int nc"
  have "a1 * int nc + a2 < a1 * int nc + int nc" using a by simp
  also have "\<dots> = (a1 + 1) * int nc" by (simp add: algebra_simps)
  also have "\<dots> \<le> int nc * int nc" using a by (intro mult_right_mono) auto
  finally show ?thesis by simp
qed

lemma push_ids_ok:
  assumes "length as1 = length as2" "labels_ok nc as1" "labels_ok nc as2" "length ls = nc * nc"
  shows "\<exists>l. push_ids nc as1 as2 vid ls = Inr l"
  using assms
proof (induction as1 as2 arbitrary: vid ls rule: list_induct2)
  case Nil
  then show ?case by simp
next
  case (Cons a1 as1 a2 as2)
  have "a1 * int nc + a2 < int (length ls)"
    using bucket_bound[of a1 nc a2] Cons.prems by (simp del: of_nat_mult)
  with Cons show ?case by (simp add: Let_def)
qed

lemma push_ids_mset:
  assumes "length as1 = length as2" "push_ids nc as1 as2 vid ls = Inr l"
  shows "length l = length ls \<and>
    mset (concat l) = mset (concat ls) + mset [vid..<vid + length as1]"
  using assms
proof (induction as1 as2 arbitrary: vid ls rule: list_induct2)
  case Nil
  then show ?case by simp
next
  case (Cons a1 as1 a2 as2)
  let ?b = "a1 * int nc + a2"
  from Cons.prems have b: "0 \<le> a1" "0 \<le> a2" "?b < int (length ls)"
    and r: "push_ids nc as1 as2 (Suc vid) (push_back_at (nat ?b) vid ls) = Inr l"
    by (auto simp: Let_def split: if_splits)
  from b have "nat ?b < length ls" by (simp add: nat_less_iff)
  moreover have "[vid..<vid + length (a1 # as1)] = vid # [Suc vid..<Suc vid + length as1]"
    by (simp add: upt_conv_Cons del: upt_Suc)
  ultimately show ?case
    using Cons.IH[OF r] by (simp add: mset_concat_push_back_at)
qed

text \<open>The lists after the push loop, cell by cell: the ids whose label pair names the cell are
  appended in order.\<close>

lemma push_ids_cell:
  assumes "length as1 = length as2" "push_ids nc as1 as2 vid ls = Inr l" "c < length ls"
  shows "l ! c = ls ! c @
    map (\<lambda>i. vid + i) (filter (\<lambda>i. as1 ! i * int nc + as2 ! i = int c) [0..<length as1])"
  using assms
proof (induction as1 as2 arbitrary: vid ls rule: list_induct2)
  case Nil
  then show ?case by simp
next
  case (Cons a1 as1 a2 as2)
  let ?b = "a1 * int nc + a2"
  from Cons.prems have b: "0 \<le> a1" "0 \<le> a2" "?b < int (length ls)"
    and r: "push_ids nc as1 as2 (Suc vid) (push_back_at (nat ?b) vid ls) = Inr l"
    by (auto simp: Let_def split: if_splits)
  have upt: "[0..<length (a1 # as1)] = 0 # map Suc [0..<length as1]"
    by (simp add: upt_conv_Cons map_Suc_upt del: upt_Suc)
  have sh: "map (\<lambda>i. vid + i) (filter P (map Suc xs)) = map (\<lambda>i. Suc vid + i) (filter (P \<circ> Suc) xs)"
    for P xs by (simp add: filter_map comp_def)
  have nb: "nat ?b < length ls" using b by (simp add: nat_less_iff)
  have "l ! c = push_back_at (nat ?b) vid ls ! c @
    map (\<lambda>i. Suc vid + i) (filter (\<lambda>i. as1 ! i * int nc + as2 ! i = int c) [0..<length as1])"
    using Cons.IH[OF r] Cons.prems by simp
  then show ?case
    using b nb Cons.prems(2) unfolding upt
    by (auto simp: nth_push_back_at sh comp_def)
qed


section \<open>Invariant\<close>

text \<open>The derived dimensions are consistent, as the constructor and \<open>read_index\<close> check.\<close>

definition suco_shape :: "suco \<Rightarrow> bool" where
  "suco_shape ix \<longleftrightarrow>
     0 < half_dim ix \<and> 0 < nsubspaces ix \<and> nsubspaces ix \<le> 255 \<and> 0 < ncentroids_half ix \<and>
     su_d ix = nsubspaces ix * subspace_dim ix \<and> subspace_dim ix = 2 * half_dim ix \<and>
     0 \<le> su_ntotal ix"

text \<open>The multi-indexes of a trained index: one table of \<open>nC * nC\<close> buckets per subspace, in which
  every id below \<open>ntotal\<close> occurs exactly once.\<close>

definition imi_ok :: "nat \<Rightarrow> nat \<Rightarrow> nat list list \<Rightarrow> bool" where
  "imi_ok nc nt ls \<longleftrightarrow> length ls = nc * nc \<and> mset (concat ls) = mset [0..<nt]"

definition suco_inv :: "suco \<Rightarrow> bool" where
  "suco_inv ix \<longleftrightarrow>
     suco_shape ix \<and> length (su_xb ix) = nT ix * dimd ix \<and>
     (if su_is_trained ix
      then length (centroids ix) = nS ix * 2 * nC ix * halfd ix \<and>
           length (inv_lists ix) = nS ix \<and> (\<forall>ls \<in> set (inv_lists ix). imi_ok (nC ix) (nT ix) ls)
      else su_ntotal ix = 0)"

lemma suco_shape_dims:
  assumes "suco_shape ix"
  shows "dimd ix = nS ix * subd ix" "subd ix = 2 * halfd ix" "0 < nS ix" "0 < nC ix" "0 < halfd ix"
  using assms by (auto simp: suco_shape_def nat_mult_distrib)

lemma imi_ok_empty: "imi_ok nc 0 (replicate (nc * nc) [])"
  by (simp add: imi_ok_def concat_replicate_trivial)

lemma suco_inv_constructor:
  assumes "IndexSuCo d ns nc cr cdr niter = Inr ix"
  shows "suco_inv ix"
proof -
  from assms have a: "d > 0" "ns > 0" "nc > 0" "ns \<le> 255" "d mod ns = 0" "(d div ns) mod 2 = 0"
    and ix: "ix = \<lparr> su_d = d, su_ntotal = 0, su_is_trained = False,
             nsubspaces = ns, ncentroids_half = nc, collision_ratio = cr, candidate_ratio = cdr,
             su_niter = niter, subspace_dim = d div ns, half_dim = (d div ns) div 2,
             centroids = [], inv_lists = [], su_xb = [] \<rparr>"
    by (auto simp: IndexSuCo_def throw_unless_Inr)
  have d: "d = ns * (d div ns)" using a(5) mult_div_mod_eq[of ns d] by simp
  with a(1,2) have "0 < d div ns" by (metis zero_less_mult_pos)
  have h: "0 < q div 2 \<and> q = 2 * (q div 2)" if "q mod 2 = 0" "0 < q" for q :: int
    using that by presburger
  have "0 < (d div ns) div 2 \<and> d div ns = 2 * ((d div ns) div 2)"
    by (rule h[OF a(6) \<open>0 < d div ns\<close>])
  with a d show ?thesis by (simp add: ix suco_inv_def suco_shape_def)
qed

lemma suco_inv_reset: "suco_inv ix \<Longrightarrow> suco_inv (suco_reset ix)"
  by (simp add: suco_inv_def suco_reset_def suco_shape_def)

text \<open>Training writes centroids only.\<close>

lemma train_halves_frame:
  "train_halves km n x ps ix = (ix', e) \<Longrightarrow> ix' = ix\<lparr> centroids := centroids ix' \<rparr>"
  by (induction km n x ps ix rule: train_halves.induct) (auto split: sum.splits)

lemma centroid_block_bound:
  assumes "s < ns" "half < 2"
  shows "(s * 2 + half) * nc * h + nc * h \<le> ns * 2 * nc * (h::nat)"
proof -
  have "Suc (s * 2 + half) * (nc * h) \<le> (ns * 2) * (nc * h)"
    using assms by (intro mult_le_mono1) simp
  then show ?thesis by (simp add: algebra_simps)
qed

lemma train_halves_length:
  assumes "train_halves km n x ps ix = (ix', e)"
    and "\<And>seed data cs. km (halfd ix) (nC ix) (su_niter ix) seed data = Inr cs \<Longrightarrow> length cs = nC ix * halfd ix"
    and "set ps \<subseteq> {..<nS ix} \<times> {..<2}" "length (centroids ix) = nS ix * 2 * nC ix * halfd ix"
  shows "length (centroids ix') = length (centroids ix)"
  using assms
proof (induction km n x ps ix rule: train_halves.induct)
  case (1 km n x ix)
  then show ?case by simp
next
  case (2 km n x s half rest ix)
  show ?case
  proof (cases "km (halfd ix) (nC ix) (su_niter ix) (int (42 + s * 2 + half)) (gather_half ix n x s half)")
    case (Inl e)
    with 2 show ?thesis by simp
  next
    case (Inr cs)
    from "2.prems" have "s < nS ix" "half < 2" by auto
    from centroid_block_bound[OF this, of "nC ix" "halfd ix"]
    have "(s * 2 + half) * nC ix * halfd ix + nC ix * halfd ix \<le> length (centroids ix)"
      using "2.prems" by simp
    moreover have "length cs = nC ix * halfd ix" using "2.prems"(2) Inr by blast
    ultimately show ?thesis using "2.IH"[OF Inr] "2.prems" Inr by simp
  qed
qed

lemma suco_inv_train:
  assumes "suco_inv ix" "suco_train km n x ix = (ix', e)"
    and "\<And>seed data cs. km (halfd ix) (nC ix) (su_niter ix) seed data = Inr cs \<Longrightarrow> length cs = nC ix * halfd ix"
  shows "suco_inv ix'"
proof (cases "n > 0")
  case False
  with assms show ?thesis by (simp add: suco_train_def)
next
  case True
  define ix2 where "ix2 = ix\<lparr> su_xb := [], su_ntotal := 0, su_is_trained := False,
    centroids := replicate (nS ix * 2 * nC ix * halfd ix) 0,
    inv_lists := replicate (nS ix) (replicate (nC ix * nC ix) []) \<rparr>"
  obtain ix3 e3 where t: "train_halves km (nat n) x (List.product [0..<nS ix] [0..<2]) ix2 = (ix3, e3)"
    by fastforce
  have l: "length (centroids ix3) = nS ix * 2 * nC ix * halfd ix"
    using train_halves_length[OF t] assms(3) by (auto simp: ix2_def atLeast0LessThan)
  from True t assms(2) have ix': "ix' = (if e3 = None then ix3\<lparr>su_is_trained := True\<rparr> else ix3)"
    by (auto simp: suco_train_def ix2_def Let_def split: option.splits prod.splits)
  from train_halves_frame[OF t] obtain cs where ix3: "ix3 = ix2\<lparr> centroids := cs \<rparr>" by metis
  with l have "length cs = nS ix * 2 * nC ix * halfd ix" by simp
  then show ?thesis using assms(1) imi_ok_empty[of "nC ix"]
    by (auto simp: suco_inv_def ix' ix3 ix2_def suco_shape_def)
qed


lemma add_subspaces_ok:
  assumes "add_subspaces ix n x ss ils = Inr ils'" "distinct ss" "set ss \<subseteq> {..<length ils}"
  shows "length ils' = length ils \<and>
    (\<forall>s < length ils. if s \<in> set ss
       then push_ids (nC ix) (half_assign ix n x s 0) (half_assign ix n x s 1) (nT ix) (ils ! s) = Inr (ils' ! s)
       else ils' ! s = ils ! s)"
  using assms
proof (induction ss arbitrary: ils)
  case Nil
  then show ?case by simp
next
  case (Cons s ss)
  from Cons.prems obtain l where
    l: "push_ids (nC ix) (half_assign ix n x s 0) (half_assign ix n x s 1) (nT ix) (ils ! s) = Inr l"
    and r: "add_subspaces ix n x ss (ils[s := l]) = Inr ils'"
    by (auto simp: bind_result_eq_Inr)
  from Cons.IH[OF r] Cons.prems l show ?case
    by (auto simp: nth_list_update split: if_splits)
qed

lemma imi_ok_push:
  assumes "imi_ok nc nt ls" "length as1 = length as2" "push_ids nc as1 as2 nt ls = Inr l"
  shows "imi_ok nc (nt + length as1) l"
  using push_ids_mset[OF assms(2,3)] assms(1) upt_add_eq_append[of 0 nt "length as1"]
  by (simp add: imi_ok_def)

text \<open>The parts of a successful \<open>add\<close>.\<close>

lemma suco_add_Inr:
  assumes "suco_add n x ix = Inr ix'"
  obtains ils' where "su_is_trained ix" "0 < n"
    "add_subspaces ix (nat n) x [0..<nS ix]
       (if inv_lists ix = [] then replicate (nS ix) (replicate (nC ix * nC ix) []) else inv_lists ix) = Inr ils'"
    "ix' = ix\<lparr> su_xb := su_xb ix @ take (nat n * dimd ix) x, inv_lists := ils', su_ntotal := su_ntotal ix + n \<rparr>"
  using assms by (auto simp: suco_add_def throw_unless_Inr bind_result_eq_Inr Let_def split: if_splits)

lemma suco_inv_trained:
  assumes "suco_inv ix" "su_is_trained ix"
  shows "suco_shape ix" "length (su_xb ix) = nT ix * dimd ix"
    "length (centroids ix) = nS ix * 2 * nC ix * halfd ix"
    "length (inv_lists ix) = nS ix" "\<And>s. s < nS ix \<Longrightarrow> imi_ok (nC ix) (nT ix) (inv_lists ix ! s)"
    "inv_lists ix \<noteq> []"
  using assms suco_shape_dims[of ix] by (auto simp: suco_inv_def)

lemma suco_add_cells:
  assumes "suco_inv ix" "suco_add n x ix = Inr ix'" "s < nS ix"
  shows "push_ids (nC ix) (half_assign ix (nat n) x s 0) (half_assign ix (nat n) x s 1) (nT ix)
    (inv_lists ix ! s) = Inr (inv_lists ix' ! s)"
proof -
  from assms(2) obtain ils' where t: "su_is_trained ix" and a: "add_subspaces ix (nat n) x [0..<nS ix]
       (if inv_lists ix = [] then replicate (nS ix) (replicate (nC ix * nC ix) []) else inv_lists ix) = Inr ils'"
    and ix': "inv_lists ix' = ils'"
    by (rule suco_add_Inr) auto
  note tr = suco_inv_trained[OF assms(1) t]
  from a tr(6) have "add_subspaces ix (nat n) x [0..<nS ix] (inv_lists ix) = Inr ils'" by simp
  from add_subspaces_ok[OF this] tr(4) assms(3) show ?thesis
    by (auto simp: ix' atLeast0LessThan)
qed

lemma suco_inv_add:
  assumes "suco_inv ix" "suco_add n x ix = Inr ix'" "nat n * dimd ix \<le> length x"
  shows "suco_inv ix'"
proof -
  from assms(2) obtain ils' where t: "su_is_trained ix" and n: "0 < n"
    and a: "add_subspaces ix (nat n) x [0..<nS ix]
       (if inv_lists ix = [] then replicate (nS ix) (replicate (nC ix * nC ix) []) else inv_lists ix) = Inr ils'"
    and ix': "ix' = ix\<lparr> su_xb := su_xb ix @ take (nat n * dimd ix) x, inv_lists := ils', su_ntotal := su_ntotal ix + n \<rparr>"
    by (rule suco_add_Inr)
  note tr = suco_inv_trained[OF assms(1) t]
  have nt: "nat (su_ntotal ix + n) = nT ix + nat n"
    using tr(1) n by (simp add: suco_shape_def nat_add_distrib)
  from a tr(6) have a': "add_subspaces ix (nat n) x [0..<nS ix] (inv_lists ix) = Inr ils'" by simp
  have len: "length ils' = nS ix"
    using add_subspaces_ok[OF a'] tr(4) by (simp add: atLeast0LessThan)
  have "imi_ok (nC ix) (nT ix + nat n) (ils' ! s)" if "s < nS ix" for s
    using imi_ok_push[OF tr(5)[OF that] _ suco_add_cells[OF assms(1,2) that, unfolded ix', simplified]] by simp
  then have "\<forall>l \<in> set ils'. imi_ok (nC ix) (nT ix + nat n) l"
    using len by (auto simp: in_set_conv_nth)
  moreover have "length (su_xb ix @ take (nat n * dimd ix) x) = (nT ix + nat n) * dimd ix"
    using tr(2) assms(3) by (simp add: algebra_simps min_def)
  ultimately show ?thesis
    using tr(1,3) t n len by (auto simp: suco_inv_def ix' nt suco_shape_def)
qed

text \<open>When every half vector has a centroid closer than \<open>FLT_MAX\<close>, the insertion succeeds.\<close>

definition half_dist :: "suco \<Rightarrow> nat \<Rightarrow> float_t list \<Rightarrow> nat \<Rightarrow> nat \<Rightarrow> nat \<Rightarrow> nat \<Rightarrow> float_t" where
  "half_dist ix n x s half i j =
     fvec_L2sqr (row (halfd ix) i (gather_half ix n x s half))
       (row (halfd ix) j (drop ((s * 2 + half) * nC ix * halfd ix) (centroids ix)))"

definition in_float_range :: "suco \<Rightarrow> nat \<Rightarrow> float_t list \<Rightarrow> bool" where
  "in_float_range ix n x \<longleftrightarrow>
     (\<forall>s < nS ix. \<forall>half < 2. \<forall>i < n. \<exists>j < nC ix. half_dist ix n x s half i j < FLT_MAX)"

lemma half_assign_nearest:
  assumes "in_float_range ix n x" "s < nS ix" "half < 2" "i < n"
  shows "\<exists>j < nC ix. half_assign ix n x s half ! i = int j \<and>
    (\<forall>j' < nC ix. half_dist ix n x s half i j \<le> half_dist ix n x s half i j')"
  using exhaustive_top1_label assms
  by (auto simp: half_assign_def assign_to_centroids_def in_float_range_def half_dist_def)

lemma half_assign_labels_ok:
  "in_float_range ix n x \<Longrightarrow> s < nS ix \<Longrightarrow> half < 2 \<Longrightarrow> labels_ok (nC ix) (half_assign ix n x s half)"
  using half_assign_nearest[of ix n x s half] by (fastforce simp: labels_ok_def in_set_conv_nth)

lemma add_subspaces_succeeds:
  assumes "in_float_range ix n x" "set ss \<subseteq> {..<nS ix}" "length ils = nS ix"
    "\<forall>l \<in> set ils. length l = nC ix * nC ix" "distinct ss"
  shows "\<exists>ils'. add_subspaces ix n x ss ils = Inr ils'"
  using assms
proof (induction ss arbitrary: ils)
  case Nil
  then show ?case by simp
next
  case (Cons s ss)
  have "\<exists>l. push_ids (nC ix) (half_assign ix n x s 0) (half_assign ix n x s 1) (nT ix) (ils ! s) = Inr l"
    using Cons.prems by (intro push_ids_ok half_assign_labels_ok) auto
  then obtain l where l: "push_ids (nC ix) (half_assign ix n x s 0) (half_assign ix n x s 1) (nT ix) (ils ! s) = Inr l" ..
  with push_ids_mset[OF _ l] Cons.prems have "length l = nC ix * nC ix" by simp
  then have "\<forall>l' \<in> set (ils[s := l]). length l' = nC ix * nC ix"
    using Cons.prems set_update_subset_insert[of ils s l] by auto
  with Cons.IH[of "ils[s := l]"] Cons.prems l show ?case by (simp add: bind_result_def)
qed

lemma suco_add_succeeds:
  assumes "suco_inv ix" "su_is_trained ix" "0 < n" "in_float_range ix (nat n) x"
  shows "\<exists>ix'. suco_add n x ix = Inr ix'"
proof -
  note tr = suco_inv_trained[OF assms(1,2)]
  have "\<exists>ils'. add_subspaces ix (nat n) x [0..<nS ix] (inv_lists ix) = Inr ils'"
    using tr(4,5) assms(4)
    by (intro add_subspaces_succeeds) (auto simp: in_set_conv_nth imi_ok_def)
  then show ?thesis using assms(2,3) tr(6) by (auto simp: suco_add_def)
qed

end
