(* ===== verification/SuCoActivate.thy ===== *)
theory SuCoActivate
  imports SuCo
begin

text \<open>
  The two traversals of one inverted multi-index: \<open>dynamic_activate\<close> (Algorithm 3 of the SuCo
  paper, a linear scan over the activated rows) and \<open>dynamic_activate_multisequence\<close> (a binary
  heap with a visited bitset). Both are proved equal to one specification: visit all cells in
  ascending order of (combined distance, row, column) until enough points are collected.
\<close>

section \<open>Collision counting\<close>

text \<open>\<open>for (idx_t vid : lst) sc_scores[vid]++\<close>, on \<open>uint8_t\<close> counters.\<close>

definition bump_all :: "nat list \<Rightarrow> 8 word list \<Rightarrow> 8 word list" where
  "bump_all lst sc = fold (\<lambda>vid sc. sc[vid := sc ! vid + 1]) lst sc"

section \<open>Dynamic activation\<close>

text \<open>The linear scan for the activated entry of minimal combined distance.\<close>

fun scan_min :: "float_t list \<Rightarrow> nat \<Rightarrow> nat \<times> float_t \<Rightarrow> nat \<times> float_t" where
  "scan_min [] z pb = pb"
| "scan_min (v # vs) z (pos, best) = scan_min vs (Suc z) (if v < best then (z, v) else (pos, best))"

definition da_pos :: "(float_t \<times> nat) list \<Rightarrow> nat" where
  "da_pos act = fst (scan_min (map fst (tl act)) 1 (0, fst (hd act)))"

text \<open>Lines 12-17 of Algorithm 3: activate the next row, then advance or exhaust row \<open>pos\<close>.\<close>

definition da_activate ::
  "nat \<Rightarrow> float_t list \<Rightarrow> nat list \<Rightarrow> float_t list \<Rightarrow> nat list \<Rightarrow> nat \<Rightarrow>
   (float_t \<times> nat) list \<Rightarrow> (float_t \<times> nat) list" where
  "da_activate nc d1 i1 d2 i2 pos act =
     (if snd (act ! pos) = 0 \<and> pos + 1 < nc \<and> pos + 1 = length act
      then act @ [(d1 ! (i1 ! (pos + 1)) + d2 ! (i2 ! 0), 0)] else act)"

lemma scan_min_bound:
  "pos < z \<Longrightarrow> fst (scan_min vs z (pos, best)) < z + length vs"
proof (induction vs arbitrary: z pos best)
  case (Cons v vs)
  show ?case using Cons.IH[of z "Suc z" v] Cons.IH[of pos "Suc z" best] Cons.prems by simp
qed simp

lemma da_pos_less: "act \<noteq> [] \<Longrightarrow> da_pos act < length act"
  using scan_min_bound[of 0 1 "map fst (tl act)" "fst (hd act)"] by (cases act) (simp_all add: da_pos_def)

text \<open>The loop returns the number of retrieved points with the counters.\<close>

function da_loop ::
  "nat \<Rightarrow> float_t list \<Rightarrow> nat list \<Rightarrow> float_t list \<Rightarrow> nat list \<Rightarrow> nat list list \<Rightarrow> nat \<Rightarrow>
   (float_t \<times> nat) list \<Rightarrow> nat \<Rightarrow> nat \<Rightarrow> 8 word list \<Rightarrow> nat \<times> 8 word list" where
  "da_loop nc d1 i1 d2 i2 ls cnum act ret exh sc =
     (if exh < length act then
        let pos = da_pos act;
            ptr = snd (act ! pos);
            lst = ls ! (i1 ! pos * nc + i2 ! ptr);
            sc' = bump_all lst sc;
            ret' = ret + length lst
        in if ret' \<ge> cnum then (ret', sc')
           else
             let act' = da_activate nc d1 i1 d2 i2 pos act
             in if ptr < nc - 1
                then da_loop nc d1 i1 d2 i2 ls cnum
                       (act'[pos := (d1 ! (i1 ! pos) + d2 ! (i2 ! (ptr + 1)), ptr + 1)]) ret' exh sc'
                else da_loop nc d1 i1 d2 i2 ls cnum
                       (act'[pos := (FLT_MAX, ptr)]) ret' (exh + 1) sc'
      else (ret, sc))"
  by pat_completeness auto

text \<open>Termination: an iteration activates a row, advances a pointer or exhausts a row.\<close>

definition da_measure :: "nat \<Rightarrow> (float_t \<times> nat) list \<Rightarrow> nat \<Rightarrow> nat" where
  "da_measure nc act exh =
     (nc - length act) * (nc + 2) + sum_list (map (\<lambda>e. nc - snd e) act) + (length act - exh)"

lemma sum_list_update_add:
  "i < length xs \<Longrightarrow> sum_list (map f (xs[i := v])) + f (xs ! i) = sum_list (map f xs) + (f v :: nat)"
proof (induction xs arbitrary: i)
  case (Cons x xs)
  show ?case
  proof (cases i)
    case (Suc k)
    then show ?thesis using Cons.IH[of k] Cons.prems by simp
  qed simp
qed simp

lemma da_measure_activate:
  assumes "exh < length act"
  shows "da_measure nc (da_activate nc d1 i1 d2 i2 (da_pos act) act) exh \<le> da_measure nc act exh"
proof -
  have "(nc - Suc (length act)) * (nc + 2) + nc + 1 \<le> (nc - length act) * (nc + 2)" if "length act < nc"
  proof -
    from that have "nc - length act = Suc (nc - Suc (length act))" by simp
    then show ?thesis by simp
  qed
  then show ?thesis using assms by (auto simp: da_measure_def da_activate_def)
qed

lemma da_activate_facts:
  assumes "pos < length act"
  shows "da_activate nc d1 i1 d2 i2 pos act ! pos = act ! pos"
    "pos < length (da_activate nc d1 i1 d2 i2 pos act)"
    "length act \<le> length (da_activate nc d1 i1 d2 i2 pos act)"
  using assms by (auto simp: da_activate_def nth_append)

lemma da_measure_update:
  assumes "pos < length act" "snd (act ! pos) < nc - 1"
  shows "da_measure nc (act[pos := (v, Suc (snd (act ! pos)))]) exh < da_measure nc act exh"
proof -
  let ?f = "\<lambda>e :: float_t \<times> nat. nc - snd e" and ?v = "(v, Suc (snd (act ! pos)))"
  have "sum_list (map ?f (act[pos := ?v])) + ?f (act ! pos) = sum_list (map ?f act) + ?f ?v"
    by (rule sum_list_update_add[OF assms(1)])
  moreover have "?f ?v < ?f (act ! pos)" using assms(2) by simp
  ultimately have "sum_list (map ?f (act[pos := ?v])) < sum_list (map ?f act)" by linarith
  then show ?thesis by (simp add: da_measure_def)
qed

lemma da_measure_exhaust:
  assumes "pos < length act" "exh < length act"
  shows "da_measure nc (act[pos := (v, snd (act ! pos))]) (exh + 1) < da_measure nc act exh"
proof -
  let ?f = "\<lambda>e :: float_t \<times> nat. nc - snd e" and ?v = "(v, snd (act ! pos))"
  have "sum_list (map ?f (act[pos := ?v])) + ?f (act ! pos) = sum_list (map ?f act) + ?f ?v"
    by (rule sum_list_update_add[OF assms(1)])
  then have "sum_list (map ?f (act[pos := ?v])) = sum_list (map ?f act)" by simp
  with assms(2) show ?thesis by (simp add: da_measure_def)
qed

termination da_loop
proof (relation "measure (\<lambda>(nc, d1, i1, d2, i2, ls, cnum, act, ret, exh, sc). da_measure nc act exh)",
    goal_cases)
  case 1
  show ?case by simp
next
  case (2 nc d1 i1 d2 i2 ls cnum act ret exh sc pos ptr lst sc' ret' act')
  have p: "pos < length act" using 2 da_pos_less[of act] by fastforce
  note f = da_activate_facts[OF p, of nc d1 i1 d2 i2]
  have "da_measure nc (act'[pos := (d1 ! (i1 ! pos) + d2 ! (i2 ! (ptr + 1)), Suc (snd (act' ! pos)))]) exh
      < da_measure nc act' exh"
    using f 2 by (intro da_measure_update) simp_all
  with da_measure_activate[of exh act nc d1 i1 d2 i2] 2 f(1) show ?case by simp
next
  case (3 nc d1 i1 d2 i2 ls cnum act ret exh sc pos ptr lst sc' ret' act')
  have p: "pos < length act" using 3 da_pos_less[of act] by fastforce
  note f = da_activate_facts[OF p, of nc d1 i1 d2 i2]
  have "da_measure nc (act'[pos := (FLT_MAX, snd (act' ! pos))]) (exh + 1) < da_measure nc act' exh"
    using f 3 by (intro da_measure_exhaust) simp_all
  with da_measure_activate[of exh act nc d1 i1 d2 i2] 3 f(1) show ?case by simp
qed

declare da_loop.simps [simp del]

definition dynamic_activate ::
  "nat \<Rightarrow> float_t list \<Rightarrow> nat list \<Rightarrow> float_t list \<Rightarrow> nat list \<Rightarrow> nat list list \<Rightarrow> nat \<Rightarrow>
   8 word list \<Rightarrow> 8 word list" where
  "dynamic_activate nc d1 i1 d2 i2 ls cnum sc =
     snd (da_loop nc d1 i1 d2 i2 ls cnum [(d1 ! (i1 ! 0) + d2 ! (i2 ! 0), 0)] 0 0 sc)"

section \<open>Multi-sequence traversal\<close>

text \<open>The two pushes of one iteration: the cell below, then the cell to the right, each once.\<close>

definition ms_push ::
  "nat \<Rightarrow> float_t \<Rightarrow> nat \<Rightarrow> nat \<Rightarrow> bool list \<times> (float_t \<times> nat \<times> nat) list \<Rightarrow>
   bool list \<times> (float_t \<times> nat \<times> nat) list" where
  "ms_push nc dst i j st =
     (case st of (visited, heap) \<Rightarrow>
        if \<not> visited ! (i * nc + j) then (visited[i * nc + j := True], (dst, i, j) # heap)
        else (visited, heap))"

text \<open>\<open>std::priority_queue\<close> with \<open>std::greater\<close> on tuples: \<open>top\<close> is the
  lexicographically least element; \<open>pop\<close> removes it.\<close>

partial_function (option) ms_loop ::
  "nat \<Rightarrow> float_t list \<Rightarrow> nat list \<Rightarrow> float_t list \<Rightarrow> nat list \<Rightarrow> nat list list \<Rightarrow> nat \<Rightarrow>
   bool list \<Rightarrow> (float_t \<times> nat \<times> nat) list \<Rightarrow> nat \<Rightarrow> 8 word list \<Rightarrow> (nat \<times> 8 word list) option" where
  "ms_loop nc d1 i1 d2 i2 ls cnum visited heap ret sc =
     (if heap = [] then Some (ret, sc)
      else
        let e = min_list heap;
            heap1 = remove1 e heap;
            i = fst (snd e); j = snd (snd e);
            lst = ls ! (i1 ! i * nc + i2 ! j);
            sc' = bump_all lst sc;
            ret' = ret + length lst
        in if ret' \<ge> cnum then Some (ret', sc')
           else
             let st1 = (if i + 1 < nc
                        then ms_push nc (d1 ! (i1 ! (i + 1)) + d2 ! (i2 ! j)) (i + 1) j (visited, heap1)
                        else (visited, heap1));
                 st2 = (if j + 1 < nc
                        then ms_push nc (d1 ! (i1 ! i) + d2 ! (i2 ! (j + 1))) i (j + 1) st1
                        else st1)
             in ms_loop nc d1 i1 d2 i2 ls cnum (fst st2) (snd st2) ret' sc')"

definition dynamic_activate_multisequence ::
  "nat \<Rightarrow> float_t list \<Rightarrow> nat list \<Rightarrow> float_t list \<Rightarrow> nat list \<Rightarrow> nat list list \<Rightarrow> nat \<Rightarrow>
   8 word list \<Rightarrow> 8 word list option" where
  "dynamic_activate_multisequence nc d1 i1 d2 i2 ls cnum sc =
     map_option snd
       (ms_loop nc d1 i1 d2 i2 ls cnum ((replicate (nc * nc) False)[0 := True])
          [(d1 ! (i1 ! 0) + d2 ! (i2 ! 0), 0, 0)] 0 sc)"


section \<open>Specification: cells in ascending order\<close>

type_synonym cell = "float_t \<times> nat \<times> nat"

text \<open>All cells of the index, in ascending order of (combined distance, row, column), and the visit
  that stops as soon as \<open>cnum\<close> points are collected.\<close>

definition cell_order :: "nat \<Rightarrow> (nat \<Rightarrow> nat \<Rightarrow> float_t) \<Rightarrow> cell list" where
  "cell_order nc D = sort (concat (map (\<lambda>i. map (\<lambda>j. (D i j, i, j)) [0..<nc]) [0..<nc]))"

fun visit_cells ::
  "nat \<Rightarrow> nat list \<Rightarrow> nat list \<Rightarrow> nat list list \<Rightarrow> nat \<Rightarrow> cell list \<Rightarrow> nat \<Rightarrow> 8 word list \<Rightarrow>
   nat \<times> 8 word list" where
  "visit_cells nc i1 i2 ls cnum [] ret sc = (ret, sc)"
| "visit_cells nc i1 i2 ls cnum ((_, i, j) # cs) ret sc =
     (let lst = ls ! (i1 ! i * nc + i2 ! j);
          sc' = bump_all lst sc;
          ret' = ret + length lst
      in if ret' \<ge> cnum then (ret', sc') else visit_cells nc i1 i2 ls cnum cs ret' sc')"

text \<open>The unvisited cells when row \<open>i\<close> has been visited up to column \<open>ps ! i\<close>.\<close>

definition popped :: "nat list \<Rightarrow> nat \<Rightarrow> nat \<Rightarrow> bool" where
  "popped ps i j \<longleftrightarrow> i < length ps \<and> j < ps ! i"

definition remaining :: "nat \<Rightarrow> (nat \<Rightarrow> nat \<Rightarrow> float_t) \<Rightarrow> nat list \<Rightarrow> cell set" where
  "remaining nc D ps = {(D i j, i, j) | i j. i < nc \<and> j < nc \<and> \<not> popped ps i j}"

text \<open>The shape of the visited region: a staircase whose rows are activated one after the other.\<close>

definition stairs :: "nat \<Rightarrow> nat list \<Rightarrow> bool" where
  "stairs nc ps \<longleftrightarrow>
     ps \<noteq> [] \<and> length ps \<le> nc \<and> (\<forall>i < length ps. ps ! i \<le> nc) \<and>
     (\<forall>i. Suc i < length ps \<longrightarrow> 0 < ps ! i \<and> ps ! Suc i \<le> ps ! i) \<and>
     (length ps < nc \<longrightarrow> ps ! (length ps - 1) = 0)"

definition stairs_next :: "nat \<Rightarrow> nat list \<Rightarrow> nat \<Rightarrow> nat list" where
  "stairs_next nc ps i =
     (if ps ! i = 0 \<and> i + 1 < nc \<and> i + 1 = length ps then ps @ [0] else ps)[i := Suc (ps ! i)]"

definition mono_cells :: "nat \<Rightarrow> (nat \<Rightarrow> nat \<Rightarrow> float_t) \<Rightarrow> bool" where
  "mono_cells nc D \<longleftrightarrow>
     (\<forall>i j k. i \<le> k \<and> k < nc \<and> j < nc \<longrightarrow> D i j \<le> D k j) \<and>
     (\<forall>i j k. j \<le> k \<and> k < nc \<and> i < nc \<longrightarrow> D i j \<le> D i k)"

lemma stairs_init: "0 < nc \<Longrightarrow> stairs nc [0]"
  by (simp add: stairs_def)

text \<open>Every unvisited cell is dominated by the frontier cell of an activated row.\<close>

lemma frontier_dominates:
  assumes st: "stairs nc ps" and mo: "mono_cells nc D"
    and ij: "i < nc" "j < nc" "\<not> popped ps i j"
  shows "\<exists>k < length ps. ps ! k < nc \<and> k \<le> i \<and> (D k (ps ! k), k, ps ! k) \<le> (D i j, i, j)"
proof (cases "i < length ps")
  case True
  with ij have "ps ! i \<le> j" by (simp add: popped_def)
  with mo ij True show ?thesis
    by (intro exI[of _ i]) (auto simp: mono_cells_def less_eq_prod_def)
next
  case False
  let ?k = "length ps - 1"
  from st False ij have l: "length ps < nc" by simp
  with st have "ps ! ?k = 0" "?k < length ps" "?k < nc" "?k \<le> i"
    using False by (auto simp: stairs_def)
  moreover have "D ?k 0 \<le> D ?k j" "D ?k j \<le> D i j"
    using mo ij \<open>?k < nc\<close> \<open>?k \<le> i\<close> by (auto simp: mono_cells_def)
  then have "D ?k 0 \<le> D i j" by simp
  ultimately show ?thesis using ij False
    by (intro exI[of _ ?k]) (auto simp: less_eq_prod_def)
qed

text \<open>So the least unvisited cell is the frontier cell of the first row with the least frontier
  distance, and visiting it keeps the staircase.\<close>

lemma least_cell:
  assumes st: "stairs nc ps" and mo: "mono_cells nc D"
    and mem: "(x, i, j) \<in> remaining nc D ps"
    and least: "\<And>c. c \<in> remaining nc D ps \<Longrightarrow> (x, i, j) \<le> c"
  shows "i < length ps" "j = ps ! i" "j < nc" "x = D i j"
    "\<And>k. k < length ps \<Longrightarrow> ps ! k < nc \<Longrightarrow> D i j \<le> D k (ps ! k)"
    "\<And>k. k < i \<Longrightarrow> ps ! k < nc \<Longrightarrow> D i j < D k (ps ! k)"
proof -
  from mem have ij: "i < nc" "j < nc" "\<not> popped ps i j" and x: "x = D i j"
    by (auto simp: remaining_def)
  show "j < nc" "x = D i j" by fact+
  have rem: "(D k (ps ! k), k, ps ! k) \<in> remaining nc D ps" if "k < length ps" "ps ! k < nc" for k
    using that st by (auto simp: remaining_def stairs_def popped_def)
  from frontier_dominates[OF st mo ij] obtain k where
    k: "k < length ps" "ps ! k < nc" "(D k (ps ! k), k, ps ! k) \<le> (D i j, i, j)" by auto
  have eq: "(D k (ps ! k), k, ps ! k) = (D i j, i, j)"
    by (rule order.antisym[OF k(3) least[OF rem[OF k(1,2)], unfolded x]])
  with k show il: "i < length ps" and "j = ps ! i" by auto
  show "D i j \<le> D k (ps ! k)" if "k < length ps" "ps ! k < nc" for k
    using least[OF rem[OF that]] x by (auto simp: less_eq_prod_def)
  show "D i j < D k (ps ! k)" if "k < i" "ps ! k < nc" for k
  proof -
    have "k < length ps" using that il by simp
    from least[OF rem[OF this that(2)]] x that(1) show ?thesis
      by (auto simp: less_eq_prod_def)
  qed
qed

lemma stairs_next_ok:
  assumes st: "stairs nc ps" and mo: "mono_cells nc D"
    and mem: "(x, i, j) \<in> remaining nc D ps"
    and least: "\<And>c. c \<in> remaining nc D ps \<Longrightarrow> (x, i, j) \<le> c"
  shows "stairs nc (stairs_next nc ps i)"
    "remaining nc D (stairs_next nc ps i) = remaining nc D ps - {(x, i, j)}"
proof -
  note L = least_cell[OF st mo mem least]
  have step: "ps ! i < ps ! (i - 1)" if "0 < i"
  proof (rule ccontr)
    assume "\<not> ?thesis"
    moreover have "ps ! i \<le> ps ! (i - 1)"
      using st that L(1) by (auto simp: stairs_def dest!: spec[of _ "i - 1"])
    ultimately have eq: "ps ! (i - 1) = ps ! i" by simp
    with L(6)[of "i - 1"] L(2,3) that have "D i (ps ! i) < D (i - 1) (ps ! i)" by auto
    moreover have "D (i - 1) (ps ! i) \<le> D i (ps ! i)"
      using mo L(1,2,3) st by (auto simp: mono_cells_def stairs_def)
    ultimately show False by simp
  qed
  have step': "Suc (ps ! Suc k) \<le> ps ! k" if "i = Suc k" for k
    using step that by simp
  show "stairs nc (stairs_next nc ps i)"
    using st L(1,2,3) step'
    by (auto simp: stairs_def stairs_next_def nth_list_update nth_append less_Suc_eq
        split: if_splits dest: gr0_implies_Suc)
  have pop: "popped (stairs_next nc ps i) a b \<longleftrightarrow> popped ps a b \<or> a = i \<and> b = j" for a b
    using L(1,2) by (auto simp: popped_def stairs_next_def nth_list_update nth_append)
  show "remaining nc D (stairs_next nc ps i) = remaining nc D ps - {(x, i, j)}"
    using L(4) by (auto simp: remaining_def pop)
qed


section \<open>Dynamic activation implements the specification\<close>

definition first_min :: "float_t list \<Rightarrow> nat \<Rightarrow> bool" where
  "first_min xs p \<longleftrightarrow> p < length xs \<and> (\<forall>k < length xs. xs ! p \<le> xs ! k) \<and> (\<forall>k < p. xs ! p < xs ! k)"

lemma first_min_unique: "first_min xs p \<Longrightarrow> first_min xs q \<Longrightarrow> p = q"
  unfolding first_min_def by (metis linorder_neqE_nat not_less)

lemma scan_min_first_min:
  "first_min pre pos \<Longrightarrow> first_min (pre @ vs) (fst (scan_min vs (length pre) (pos, pre ! pos)))"
proof (induction vs arbitrary: pre pos)
  case (Cons v vs)
  let ?pos = "if v < pre ! pos then length pre else pos"
  have "first_min (pre @ [v]) ?pos"
    using Cons.prems by (fastforce simp: first_min_def nth_append less_Suc_eq)
  from Cons.IH[OF this] Cons.prems show ?case
    by (auto simp: nth_append first_min_def split: if_splits)
qed simp

lemma da_pos_first_min: "act \<noteq> [] \<Longrightarrow> first_min (map fst act) (da_pos act)"
  using scan_min_first_min[of "[fst (hd act)]" 0 "map fst (tl act)"]
  by (cases act) (simp_all add: da_pos_def first_min_def)

text \<open>The entries of the activated rows and the count of exhausted ones, for visited columns \<open>ps\<close>.\<close>

definition da_abs :: "nat \<Rightarrow> (nat \<Rightarrow> nat \<Rightarrow> float_t) \<Rightarrow> nat list \<Rightarrow> (float_t \<times> nat) list" where
  "da_abs nc D ps =
     map (\<lambda>i. if ps ! i < nc then (D i (ps ! i), ps ! i) else (FLT_MAX, nc - 1)) [0..<length ps]"

definition exh_abs :: "nat \<Rightarrow> nat list \<Rightarrow> nat" where
  "exh_abs nc ps = sum_list (map (\<lambda>p. if p < nc then 0 else 1) ps)"

lemma length_da_abs [simp]: "length (da_abs nc D ps) = length ps"
  by (simp add: da_abs_def)

lemma nth_da_abs [simp]:
  "i < length ps \<Longrightarrow> da_abs nc D ps ! i = (if ps ! i < nc then (D i (ps ! i), ps ! i) else (FLT_MAX, nc - 1))"
  by (simp add: da_abs_def)

lemma exh_abs_le: "exh_abs nc ps \<le> length ps"
  by (induction ps) (auto simp: exh_abs_def)

lemma exh_abs_less: "i < length ps \<Longrightarrow> ps ! i < nc \<Longrightarrow> exh_abs nc ps < length ps"
proof (induction ps arbitrary: i)
  case (Cons p ps)
  show ?case
  proof (cases i)
    case 0
    then show ?thesis using Cons.prems exh_abs_le[of nc ps] by (simp add: exh_abs_def)
  next
    case (Suc k)
    then show ?thesis using Cons.IH[of k] Cons.prems by (simp add: exh_abs_def)
  qed
qed simp

lemma exh_abs_full: "\<forall>p \<in> set ps. nc \<le> p \<Longrightarrow> exh_abs nc ps = length ps"
  by (induction ps) (auto simp: exh_abs_def)

lemma exh_abs_next:
  assumes "i < length ps" "ps ! i < nc"
  shows "exh_abs nc (stairs_next nc ps i) = exh_abs nc ps + (if Suc (ps ! i) < nc then 0 else 1)"
  using sum_list_update_add[of i ps "\<lambda>p. if p < nc then 0 else 1" "Suc (ps ! i)"]
    sum_list_update_add[of i "ps @ [0]" "\<lambda>p. if p < nc then 0 else 1" "Suc (ps ! i)"] assms
  by (auto simp: exh_abs_def stairs_next_def nth_append split: if_splits)

lemma da_abs_next:
  assumes "i < length ps" "ps ! i < nc"
  shows "(da_activate nc d1 i1 d2 i2 i (da_abs nc (\<lambda>i j. d1 ! (i1 ! i) + d2 ! (i2 ! j)) ps))
      [i := if Suc (ps ! i) < nc then (d1 ! (i1 ! i) + d2 ! (i2 ! Suc (ps ! i)), Suc (ps ! i))
            else (FLT_MAX, ps ! i)]
    = da_abs nc (\<lambda>i j. d1 ! (i1 ! i) + d2 ! (i2 ! j)) (stairs_next nc ps i)"
  using assms le_less_Suc_eq[of "nc - 1" "ps ! i"]
  by (intro nth_equalityI)
    (auto simp: da_activate_def stairs_next_def nth_list_update nth_append less_Suc_eq split: if_splits)

lemma remaining_empty:
  assumes "stairs nc ps" "remaining nc D ps = {}"
  shows "\<forall>p \<in> set ps. nc \<le> p"
proof (rule ballI, rule ccontr)
  fix p assume "p \<in> set ps" "\<not> nc \<le> p"
  then obtain i where "i < length ps" "ps ! i = p" "p < nc" by (auto simp: in_set_conv_nth)
  with assms(1) have "(D i p, i, p) \<in> remaining nc D ps"
    by (auto simp: remaining_def popped_def stairs_def)
  with assms(2) show False by simp
qed

lemma da_loop_visit:
  assumes D: "D = (\<lambda>i j. d1 ! (i1 ! i) + d2 ! (i2 ! j))" and mo: "mono_cells nc D"
    and lt: "\<And>i j. i < nc \<Longrightarrow> j < nc \<Longrightarrow> D i j < FLT_MAX"
    and "stairs nc ps" "sorted rem" "distinct rem" "set rem = remaining nc D ps"
  shows "da_loop nc d1 i1 d2 i2 ls cnum (da_abs nc D ps) ret (exh_abs nc ps) sc
    = visit_cells nc i1 i2 ls cnum rem ret sc"
  using assms(4-)
proof (induction rem arbitrary: ps ret sc)
  case Nil
  then have "exh_abs nc ps = length ps"
    using remaining_empty[of nc ps D] by (intro exh_abs_full) auto
  then show ?case by (simp add: da_loop.simps)
next
  case (Cons c cs)
  obtain x i j where c: "c = (x, i, j)" by (cases c)
  have mem: "(x, i, j) \<in> remaining nc D ps" using Cons.prems by (auto simp: c)
  have least: "(x, i, j) \<le> b" if "b \<in> remaining nc D ps" for b
    using that Cons.prems unfolding c by (cases "b = (x, i, j)") (auto simp del: less_eq_prod_simp)
  note L = least_cell[OF Cons.prems(1) mo mem least]
  have nc: "ps ! i < nc" using L by simp
  let ?act = "da_abs nc D ps"
  have pos: "da_pos ?act = i"
  proof (rule first_min_unique[of "map fst ?act"])
    show "first_min (map fst ?act) (da_pos ?act)"
      using L(1) by (intro da_pos_first_min) (auto simp: da_abs_def)
    show "first_min (map fst ?act) i"
      using L lt Cons.prems(1) by (auto simp: first_min_def stairs_def intro: less_imp_le)
  qed
  note nxt = stairs_next_ok[OF Cons.prems(1) mo mem least]
  have IH: "da_loop nc d1 i1 d2 i2 ls cnum (da_abs nc D (stairs_next nc ps i)) ret'
      (exh_abs nc (stairs_next nc ps i)) sc' = visit_cells nc i1 i2 ls cnum cs ret' sc'" for ret' sc'
    using Cons.prems nxt by (intro Cons.IH) (auto simp: c)
  note upd = da_abs_next[OF L(1) nc, of d1 i1 d2 i2, folded D]
  show ?case
    using exh_abs_less[OF L(1) nc] L(1,2) nc IH upd exh_abs_next[OF L(1) nc]
    by (subst da_loop.simps) (auto simp: Let_def pos c split: if_splits)
qed

lemma sorted_cell_order [simp]: "sorted (cell_order nc D)"
  by (simp add: cell_order_def)

lemma set_cell_order: "set (cell_order nc D) = {(D i j, i, j) | i j. i < nc \<and> j < nc}"
  by (auto simp: cell_order_def)

lemma distinct_cell_order: "distinct (cell_order nc D)"
proof -
  have "distinct (concat (map (\<lambda>i. map (\<lambda>j. (D i j, i, j)) [0..<nc]) is))" if "distinct is" for "is"
    using that by (induction "is") (auto simp: distinct_map inj_on_def)
  then show ?thesis by (simp add: cell_order_def)
qed

lemma remaining_init: "remaining nc D [0] = set (cell_order nc D)"
  by (auto simp: remaining_def popped_def set_cell_order)


section \<open>The multi-sequence traversal implements the specification\<close>

text \<open>The cells in the heap: unvisited, and reached from a popped left or upper neighbour.\<close>

definition frontier :: "nat \<Rightarrow> nat list \<Rightarrow> nat \<Rightarrow> nat \<Rightarrow> bool" where
  "frontier nc ps i j \<longleftrightarrow>
     i < nc \<and> j < nc \<and> \<not> popped ps i j \<and>
     (i = 0 \<and> j = 0 \<or> 0 < i \<and> popped ps (i - 1) j \<or> 0 < j \<and> popped ps i (j - 1))"

definition ms_rel ::
  "nat \<Rightarrow> (nat \<Rightarrow> nat \<Rightarrow> float_t) \<Rightarrow> (nat \<Rightarrow> nat \<Rightarrow> bool) \<Rightarrow> (nat \<Rightarrow> nat \<Rightarrow> bool) \<Rightarrow>
   bool list \<times> cell list \<Rightarrow> bool" where
  "ms_rel nc D P F st \<longleftrightarrow>
     (case st of (v, h) \<Rightarrow>
        length v = nc * nc \<and> distinct h \<and> set h = {(D i j, i, j) | i j. F i j} \<and>
        (\<forall>i j. F i j \<longrightarrow> i < nc \<and> j < nc) \<and>
        (\<forall>i < nc. \<forall>j < nc. v ! (i * nc + j) \<longleftrightarrow> P i j \<or> F i j))"

lemma flat_index_less: "i < nc \<Longrightarrow> j < nc \<Longrightarrow> i * nc + j < nc * (nc::nat)"
proof -
  assume "i < nc" "j < nc"
  then have "i * nc + j < Suc i * nc" by simp
  also have "\<dots> \<le> nc * nc" using \<open>i < nc\<close> by (intro mult_le_mono1) simp
  finally show ?thesis .
qed

lemma flat_index_inj: "j < nc \<Longrightarrow> b < nc \<Longrightarrow> i * nc + j = a * nc + b \<longleftrightarrow> i = a \<and> j = (b::nat)"
proof
  assume a: "j < nc" "b < nc" "i * nc + j = a * nc + b"
  then have "(i * nc + j) div nc = (a * nc + b) div nc" "(i * nc + j) mod nc = (a * nc + b) mod nc"
    by simp_all
  with a(1,2) show "i = a \<and> j = b" by simp
qed simp

lemma ms_rel_push:
  assumes "ms_rel nc D P F st" "a < nc" "b < nc" "\<not> P a b"
  shows "ms_rel nc D P (\<lambda>i j. F i j \<or> i = a \<and> j = b) (ms_push nc (D a b) a b st)"
proof -
  obtain v h where st: "st = (v, h)" by (cases st)
  note r = assms(1)[unfolded ms_rel_def st prod.case]
  have il: "a * nc + b < length v" using r flat_index_less[OF assms(2,3)] by simp
  show ?thesis
  proof (cases "F a b")
    case True
    then have "(\<lambda>i j. F i j \<or> i = a \<and> j = b) = F" by (intro ext) auto
    with True r assms show ?thesis by (simp add: ms_push_def st ms_rel_def)
  next
    case False
    with r assms have nv: "\<not> v ! (a * nc + b)" by simp
    have "(D a b, a, b) \<notin> set h" using r False by auto
    moreover have "v[a * nc + b := True] ! (i * nc + j) \<longleftrightarrow> P i j \<or> F i j \<or> i = a \<and> j = b"
      if "i < nc" "j < nc" for i j
      using r that il flat_index_inj[OF that(2) assms(3), of i a]
      by (auto simp: nth_list_update)
    ultimately show ?thesis using r nv assms(2,3)
      by (auto simp: ms_push_def st ms_rel_def)
  qed
qed

lemma frontier_next:
  assumes st: "stairs nc ps" and ij: "i < length ps" "j = ps ! i" "j < nc"
  shows "frontier nc (stairs_next nc ps i) a b \<longleftrightarrow>
    (frontier nc ps a b \<and> (a, b) \<noteq> (i, j)) \<or> a = i + 1 \<and> b = j \<and> i + 1 < nc \<or> a = i \<and> b = j + 1 \<and> j + 1 < nc"
proof -
  have pop: "popped (stairs_next nc ps i) a b \<longleftrightarrow> popped ps a b \<or> a = i \<and> b = j" for a b
    using ij(1,2) by (auto simp: popped_def stairs_next_def nth_list_update nth_append)
  have "\<not> popped ps (i + 1) j" "\<not> popped ps i (j + 1)" "\<not> popped ps i j" "i < nc"
    using st ij by (auto simp: popped_def stairs_def not_less)
  then show ?thesis using ij(3) by (auto simp: frontier_def pop)
qed

lemma ms_loop_visit:
  assumes D: "D = (\<lambda>i j. d1 ! (i1 ! i) + d2 ! (i2 ! j))" and mo: "mono_cells nc D"
    and "stairs nc ps" "sorted rem" "distinct rem" "set rem = remaining nc D ps"
    and "ms_rel nc D (popped ps) (frontier nc ps) (v, h)"
  shows "ms_loop nc d1 i1 d2 i2 ls cnum v h ret sc = Some (visit_cells nc i1 i2 ls cnum rem ret sc)"
  using assms(3-)
proof (induction rem arbitrary: ps v h ret sc)
  case Nil
  then have e: "remaining nc D ps = {}" by simp
  have "h = []"
  proof (rule ccontr)
    assume "h \<noteq> []"
    then obtain i j where "frontier nc ps i j"
      using Nil.prems(5) by (cases h) (auto simp: ms_rel_def)
    with e show False by (auto simp: remaining_def frontier_def)
  qed
  then show ?case by (simp add: ms_loop.simps)
next
  case (Cons c cs)
  obtain x i j where c: "c = (x, i, j)" by (cases c)
  have mem: "(x, i, j) \<in> remaining nc D ps" using Cons.prems by (auto simp: c)
  have least: "(x, i, j) \<le> b" if "b \<in> remaining nc D ps" for b
    using that Cons.prems unfolding c by (cases "b = (x, i, j)") (auto simp del: less_eq_prod_simp)
  note L = least_cell[OF Cons.prems(1) mo mem least]
  note nxt = stairs_next_ok[OF Cons.prems(1) mo mem least]
  note r = Cons.prems(5)[unfolded ms_rel_def prod.case]
  have fr: "frontier nc ps i j"
  proof (cases "j = 0")
    case True
    with L Cons.prems(1) show ?thesis
      by (cases i) (auto simp: frontier_def popped_def stairs_def)
  next
    case False
    with L Cons.prems(1) show ?thesis by (auto simp: frontier_def popped_def stairs_def)
  qed
  then have ch: "c \<in> set h" using r by (auto simp: c L(4))
  then have hne: "h \<noteq> []" by auto
  have min: "min_list h = c"
  proof -
    have "Min (set h) = c"
    proof (rule Min_eqI)
      fix y assume "y \<in> set h"
      moreover have "set h = {(D i j, i, j) | i j. frontier nc ps i j}" using r by blast
      ultimately obtain a b where "y = (D a b, a, b)" "frontier nc ps a b" by auto
      then have "y \<in> remaining nc D ps" by (simp add: remaining_def frontier_def)
      from least[OF this] show "c \<le> y" by (simp add: c)
    qed (use ch in simp_all)
    with hne show ?thesis by (simp add: min_list_Min)
  qed
  define P' where "P' = popped (stairs_next nc ps i)"
  have pop: "P' a b \<longleftrightarrow> popped ps a b \<or> a = i \<and> b = j" for a b
    using L(1,2) by (auto simp: P'_def popped_def stairs_next_def nth_list_update nth_append)
  have r1: "ms_rel nc D P' (\<lambda>a b. frontier nc ps a b \<and> (a, b) \<noteq> (i, j)) (v, remove1 c h)"
    using r fr by (auto simp: ms_rel_def pop set_remove1_eq c L(4))
  let ?st1 = "if i + 1 < nc then ms_push nc (D (i + 1) j) (i + 1) j (v, remove1 c h) else (v, remove1 c h)"
  let ?st2 = "if j + 1 < nc then ms_push nc (D i (j + 1)) i (j + 1) ?st1 else ?st1"
  have np: "\<not> P' (i + 1) j" "\<not> P' i (j + 1)"
    using Cons.prems(1) L(1,2) by (auto simp: pop popped_def stairs_def not_less)
  have inc: "i < nc" using L(1) Cons.prems(1) by (simp add: stairs_def)
  have r2: "ms_rel nc D P' (\<lambda>a b. frontier nc ps a b \<and> (a, b) \<noteq> (i, j) \<or> a = i + 1 \<and> b = j \<and> i + 1 < nc) ?st1"
    using ms_rel_push[OF r1, of "i + 1" j] np L(3) r1 by (auto cong: conj_cong)
  have r3: "ms_rel nc D P' (frontier nc (stairs_next nc ps i)) ?st2"
  proof -
    have "ms_rel nc D P' (\<lambda>a b. (frontier nc ps a b \<and> (a, b) \<noteq> (i, j) \<or> a = i + 1 \<and> b = j \<and> i + 1 < nc)
        \<or> a = i \<and> b = j + 1 \<and> j + 1 < nc) ?st2"
      using ms_rel_push[OF r2, of i "j + 1"] np inc r2 by (auto cong: conj_cong)
    moreover have "(\<lambda>a b. (frontier nc ps a b \<and> (a, b) \<noteq> (i, j) \<or> a = i + 1 \<and> b = j \<and> i + 1 < nc)
        \<or> a = i \<and> b = j + 1 \<and> j + 1 < nc) = frontier nc (stairs_next nc ps i)"
      by (intro ext) (simp add: frontier_next[OF Cons.prems(1) L(1,2,3)])
    ultimately show ?thesis by simp
  qed
  have IH: "ms_loop nc d1 i1 d2 i2 ls cnum (fst ?st2) (snd ?st2) ret' sc'
      = Some (visit_cells nc i1 i2 ls cnum cs ret' sc')" for ret' sc'
    using Cons.prems nxt r3 unfolding P'_def by (intro Cons.IH[of "stairs_next nc ps i"]) (auto simp: c)
  let ?lst = "ls ! (i1 ! i * nc + i2 ! j)"
  have "ms_loop nc d1 i1 d2 i2 ls cnum v h ret sc =
    (if cnum \<le> ret + length ?lst then Some (ret + length ?lst, bump_all ?lst sc)
     else ms_loop nc d1 i1 d2 i2 ls cnum (fst ?st2) (snd ?st2) (ret + length ?lst) (bump_all ?lst sc))"
    using hne by (subst ms_loop.simps) (simp only: Let_def min c D fst_conv snd_conv if_False)
  then show ?case
    by (simp only: IH[unfolded c] c visit_cells.simps Let_def if_distrib[of Some])
qed


section \<open>Both traversals on sorted centroid distances\<close>

text \<open>What \<open>search_one\<close> passes: the distances of one half in \<open>d1\<close>, and in \<open>i1\<close> the
  indices \<open>0..nc-1\<close> in ascending order of them.\<close>

definition ascending_order :: "nat \<Rightarrow> float_t list \<Rightarrow> nat list \<Rightarrow> bool" where
  "ascending_order nc dists idx \<longleftrightarrow>
     length dists = nc \<and> length idx = nc \<and> distinct idx \<and> set idx = {..<nc} \<and>
     sorted (map (\<lambda>i. dists ! i) idx)"

definition combined :: "float_t list \<Rightarrow> nat list \<Rightarrow> float_t list \<Rightarrow> nat list \<Rightarrow> nat \<Rightarrow> nat \<Rightarrow> float_t" where
  "combined d1 i1 d2 i2 i j = d1 ! (i1 ! i) + d2 ! (i2 ! j)"

lemma ascending_order_sorted_order: "length ds = nc \<Longrightarrow> ascending_order nc ds (sorted_order ds)"
  by (simp add: ascending_order_def)

lemma combined_mono:
  assumes "ascending_order nc d1 i1" "ascending_order nc d2 i2"
  shows "mono_cells nc (combined d1 i1 d2 i2)"
proof -
  have "d1 ! (i1 ! i) \<le> d1 ! (i1 ! k)" if "i \<le> k" "k < nc" for i k
    using sorted_nth_mono[of "map (\<lambda>i. d1 ! i) i1" i k] assms(1) that by (simp add: ascending_order_def)
  moreover have "d2 ! (i2 ! i) \<le> d2 ! (i2 ! k)" if "i \<le> k" "k < nc" for i k
    using sorted_nth_mono[of "map (\<lambda>i. d2 ! i) i2" i k] assms(2) that by (simp add: ascending_order_def)
  ultimately show ?thesis by (auto simp: mono_cells_def combined_def)
qed

lemma dynamic_activate_visit:
  assumes "0 < nc" "ascending_order nc d1 i1" "ascending_order nc d2 i2"
    and "\<And>i j. i < nc \<Longrightarrow> j < nc \<Longrightarrow> combined d1 i1 d2 i2 i j < FLT_MAX"
  shows "dynamic_activate nc d1 i1 d2 i2 ls cnum sc
    = snd (visit_cells nc i1 i2 ls cnum (cell_order nc (combined d1 i1 d2 i2)) 0 sc)"
proof -
  let ?D = "combined d1 i1 d2 i2"
  have D: "?D = (\<lambda>i j. d1 ! (i1 ! i) + d2 ! (i2 ! j))" by (intro ext) (simp add: combined_def)
  have "da_loop nc d1 i1 d2 i2 ls cnum (da_abs nc ?D [0]) 0 (exh_abs nc [0]) sc
      = visit_cells nc i1 i2 ls cnum (cell_order nc ?D) 0 sc"
    using assms by (intro da_loop_visit[OF D combined_mono[OF assms(2,3)]])
      (auto simp: stairs_init distinct_cell_order remaining_init)
  then show ?thesis using assms(1)
    by (simp add: dynamic_activate_def da_abs_def exh_abs_def combined_def)
qed

lemma dynamic_activate_multisequence_visit:
  assumes "0 < nc" "ascending_order nc d1 i1" "ascending_order nc d2 i2"
  shows "dynamic_activate_multisequence nc d1 i1 d2 i2 ls cnum sc
    = Some (snd (visit_cells nc i1 i2 ls cnum (cell_order nc (combined d1 i1 d2 i2)) 0 sc))"
proof -
  let ?D = "combined d1 i1 d2 i2"
  have D: "?D = (\<lambda>i j. d1 ! (i1 ! i) + d2 ! (i2 ! j))" by (intro ext) (simp add: combined_def)
  have fr: "frontier nc [0] i j \<longleftrightarrow> i = 0 \<and> j = 0" for i j
    using assms(1) by (auto simp: frontier_def popped_def)
  have "(replicate (nc * nc) False)[0 := True] ! (i * nc + j) \<longleftrightarrow> i = 0 \<and> j = 0"
    if "i < nc" "j < nc" for i j
    using that flat_index_less[OF that] by (auto simp: nth_list_update)
  then have rel: "ms_rel nc ?D (popped [0]) (frontier nc [0])
      ((replicate (nc * nc) False)[0 := True], [(?D 0 0, 0, 0)])"
    using assms(1) by (auto simp: ms_rel_def fr popped_def)
  have "ms_loop nc d1 i1 d2 i2 ls cnum ((replicate (nc * nc) False)[0 := True]) [(?D 0 0, 0, 0)] 0 sc
      = Some (visit_cells nc i1 i2 ls cnum (cell_order nc ?D) 0 sc)"
    using assms by (intro ms_loop_visit[OF D combined_mono[OF assms(2,3)] _ _ _ _ rel])
      (auto simp: stairs_init distinct_cell_order remaining_init)
  then show ?thesis by (simp add: dynamic_activate_multisequence_def combined_def)
qed

section \<open>What a visit counts\<close>

lemma bump_all_Nil [simp]: "bump_all [] sc = sc"
  by (simp add: bump_all_def)

lemma bump_all_Cons [simp]: "bump_all (v # vs) sc = bump_all vs (sc[v := sc ! v + 1])"
  by (simp add: bump_all_def)

lemma bump_all_append: "bump_all (xs @ ys) sc = bump_all ys (bump_all xs sc)"
  by (simp add: bump_all_def)

lemma length_bump_all [simp]: "length (bump_all vs sc) = length sc"
  by (induction vs arbitrary: sc) simp_all

lemma nth_bump_all:
  "set vs \<subseteq> {..<length sc} \<Longrightarrow> v < length sc \<Longrightarrow> bump_all vs sc ! v = sc ! v + of_nat (count_list vs v)"
  by (induction vs arbitrary: sc) (auto simp: nth_list_update algebra_simps)

text \<open>The ids a visit retrieves, in order.\<close>

fun visited_ids :: "nat \<Rightarrow> nat list \<Rightarrow> nat list \<Rightarrow> nat list list \<Rightarrow> nat \<Rightarrow> cell list \<Rightarrow> nat \<Rightarrow> nat list" where
  "visited_ids nc i1 i2 ls cnum [] ret = []"
| "visited_ids nc i1 i2 ls cnum ((_, i, j) # cs) ret =
     (let lst = ls ! (i1 ! i * nc + i2 ! j)
      in if ret + length lst \<ge> cnum then lst
         else lst @ visited_ids nc i1 i2 ls cnum cs (ret + length lst))"

lemma visit_cells_ids:
  "visit_cells nc i1 i2 ls cnum cs ret sc =
    (ret + length (visited_ids nc i1 i2 ls cnum cs ret), bump_all (visited_ids nc i1 i2 ls cnum cs ret) sc)"
  by (induction nc i1 i2 ls cnum cs ret sc rule: visit_cells.induct) (auto simp: Let_def bump_all_append)

lemma visited_ids_prefix:
  "\<exists>n. visited_ids nc i1 i2 ls cnum cs ret
    = concat (map (\<lambda>(_, i, j). ls ! (i1 ! i * nc + i2 ! j)) (take n cs))"
proof (induction nc i1 i2 ls cnum cs ret rule: visited_ids.induct)
  case (1 nc i1 i2 ls cnum ret)
  then show ?case by simp
next
  case (2 nc i1 i2 ls cnum x i j cs ret)
  let ?lst = "ls ! (i1 ! i * nc + i2 ! j)"
  show ?case
  proof (cases "ret + length ?lst \<ge> cnum")
    case True
    then show ?thesis by (intro exI[of _ 1]) simp
  next
    case False
    from "2.IH"[OF refl False] obtain n where
      "visited_ids nc i1 i2 ls cnum cs (ret + length ?lst)
        = concat (map (\<lambda>(_, i, j). ls ! (i1 ! i * nc + i2 ! j)) (take n cs))" ..
    with False show ?thesis by (intro exI[of _ "Suc n"]) simp
  qed
qed

text \<open>The visit stops only when the quota is met or every cell has been visited.\<close>

lemma visited_ids_quota:
  "ret + length (visited_ids nc i1 i2 ls cnum cs ret) \<ge> cnum \<or>
   visited_ids nc i1 i2 ls cnum cs ret = concat (map (\<lambda>(_, i, j). ls ! (i1 ! i * nc + i2 ! j)) cs)"
  by (induction nc i1 i2 ls cnum cs ret rule: visited_ids.induct) (auto simp: Let_def)

end
