(* ===== verification/SuCoSearch.thy ===== *)
theory SuCoSearch
  imports SuCoActivate
begin

text \<open>
  The query side of \<open>IndexSuCo\<close>: \<open>rerank\<close>, \<open>search_one\<close>, \<open>search\<close>, \<open>get_sc_scores\<close>,
  the multi-sequence and the linear variants, and the counters of \<open>SuCoStats\<close>.
  The OpenMP loops over queries take the schedule (which thread runs which query, in which order)
  as an argument.
\<close>

section \<open>Statistics\<close>

record suco_stats =
  n_dis_rerank :: nat
  n_dis_centroid :: nat
  centroid_floats :: nat
  n_queries :: nat

definition suco_stats_reset :: suco_stats where
  "suco_stats_reset = \<lparr> n_dis_rerank = 0, n_dis_centroid = 0, centroid_floats = 0, n_queries = 0 \<rparr>"

definition suco_stats_combine :: "suco_stats \<Rightarrow> suco_stats \<Rightarrow> suco_stats" where
  "suco_stats_combine s t =
     \<lparr> n_dis_rerank = n_dis_rerank s + n_dis_rerank t,
       n_dis_centroid = n_dis_centroid s + n_dis_centroid t,
       centroid_floats = centroid_floats s + centroid_floats t,
       n_queries = n_queries s + n_queries t \<rparr>"

text \<open>\<open>flush_suco_tls\<close>: the thread's counters are added to the global ones and cleared.\<close>

definition flush_suco_tls :: "suco_stats \<Rightarrow> suco_stats \<Rightarrow> suco_stats \<times> suco_stats" where
  "flush_suco_tls tls glob =
     (let tls1 = tls\<lparr> n_queries := n_queries tls + 1 \<rparr>
      in (suco_stats_reset, suco_stats_combine glob tls1))"

section \<open>Candidate selection and exact re-ranking\<close>

definition db_dist :: "suco \<Rightarrow> float_t list \<Rightarrow> nat \<Rightarrow> float_t" where
  "db_dist ix xq j = fvec_L2sqr xq (row (dimd ix) j (su_xb ix))"

text \<open>Sort \<open>nc\<close> candidates by distance, keep \<open>min k nc\<close>, fill up with \<open>(FLT_MAX, -1)\<close>.\<close>

definition emit_topk :: "nat \<Rightarrow> nat list \<Rightarrow> float_t list \<Rightarrow> (float_t \<times> int) list" where
  "emit_topk k cands dists =
     (let result_k = min k (length cands)
      in map (\<lambda>j. (dists ! (sorted_order dists ! j), int (cands ! (sorted_order dists ! j)))) [0..<result_k]
         @ replicate (k - result_k) (FLT_MAX, -1))"

text \<open>The histogram of the scores, clamped to \<open>max_score\<close>.\<close>

definition score_hist :: "nat \<Rightarrow> 8 word list \<Rightarrow> nat \<Rightarrow> nat list" where
  "score_hist max_score sc nt =
     fold (\<lambda>i h. h[min (unat (sc ! i)) max_score := h ! min (unat (sc ! i)) max_score + 1])
       [0..<nt] (replicate (max_score + 1) 0)"

text \<open>The loop from \<open>max_score\<close> down to 0: (\<open>cumul_above\<close>, \<open>threshold_score\<close>).\<close>

fun find_threshold :: "nat list \<Rightarrow> nat \<Rightarrow> nat list \<Rightarrow> nat \<Rightarrow> nat \<times> nat" where
  "find_threshold hist cn [] cumul = (cumul, 0)"
| "find_threshold hist cn (s # ss) cumul =
     (if cumul + hist ! s \<le> cn then find_threshold hist cn ss (cumul + hist ! s) else (cumul, s))"

text \<open>The gathering pass over all ids.\<close>

fun gather_candidates :: "8 word list \<Rightarrow> nat \<Rightarrow> nat \<Rightarrow> nat list \<Rightarrow> nat \<Rightarrow> nat list" where
  "gather_candidates sc thr budget [] at_count = []"
| "gather_candidates sc thr budget (i # ids) at_count =
     (if unat (sc ! i) > thr then i # gather_candidates sc thr budget ids at_count
      else if unat (sc ! i) = thr \<and> at_count < budget
      then i # gather_candidates sc thr budget ids (at_count + 1)
      else gather_candidates sc thr budget ids at_count)"

definition select_candidates :: "nat \<Rightarrow> nat \<Rightarrow> nat \<Rightarrow> 8 word list \<Rightarrow> nat list" where
  "select_candidates max_score nt cn sc =
     (let (cumul_above, threshold) =
            find_threshold (score_hist max_score sc nt) cn (rev [0..<Suc max_score]) 0
      in gather_candidates sc threshold (cn - cumul_above) [0..<nt] 0)"

definition rerank ::
  "suco \<Rightarrow> float_t list \<Rightarrow> nat \<Rightarrow> nat \<Rightarrow> 8 word list \<Rightarrow> suco_stats \<Rightarrow>
   (float_t \<times> int) list \<times> suco_stats" where
  "rerank ix xq k cn sc tls =
     (if cn \<ge> nT ix
      then (emit_topk k [0..<nT ix] (map (db_dist ix xq) [0..<nT ix]),
            tls\<lparr> n_dis_rerank := n_dis_rerank tls + nT ix \<rparr>)
      else let cands = select_candidates (nS ix) (nT ix) cn sc
           in (emit_topk k cands (map (db_dist ix xq) cands),
               tls\<lparr> n_dis_rerank := n_dis_rerank tls + length cands \<rparr>))"

section \<open>Search of one query\<close>

definition collision_num :: "suco \<Rightarrow> float_t \<Rightarrow> nat" where
  "collision_num ix cr = nat \<lfloor>max 1 (cr * of_int (su_ntotal ix))\<rfloor>"

definition candidate_num :: "suco \<Rightarrow> nat \<Rightarrow> float_t \<Rightarrow> nat" where
  "candidate_num ix k cdr = nat \<lfloor>max (of_nat k) (cdr * of_int (su_ntotal ix))\<rfloor>"

text \<open>Distances of the query to the centroids of one half of subspace \<open>s\<close>.\<close>

definition centroid_dists :: "suco \<Rightarrow> float_t list \<Rightarrow> nat \<Rightarrow> nat \<Rightarrow> float_t list" where
  "centroid_dists ix xq s half =
     fvec_L2sqr_ny (slice (s * subd ix + half * halfd ix) (halfd ix) xq)
       (drop ((s * 2 + half) * nC ix * halfd ix) (centroids ix)) (halfd ix) (nC ix)"

definition count_centroid_dists :: "suco \<Rightarrow> suco_stats \<Rightarrow> suco_stats" where
  "count_centroid_dists ix tls =
     tls\<lparr> n_dis_centroid := n_dis_centroid tls + 2 * nC ix,
         centroid_floats := centroid_floats tls + 2 * nC ix * halfd ix \<rparr>"

text \<open>The loop over the subspaces of \<open>search_one\<close>.\<close>

fun collide_subspaces ::
  "suco \<Rightarrow> float_t list \<Rightarrow> nat \<Rightarrow> nat list \<Rightarrow> 8 word list \<Rightarrow> suco_stats \<Rightarrow> 8 word list \<times> suco_stats" where
  "collide_subspaces ix xq cnum [] sc tls = (sc, tls)"
| "collide_subspaces ix xq cnum (s # ss) sc tls =
     (let d1 = centroid_dists ix xq s 0; d2 = centroid_dists ix xq s 1
      in collide_subspaces ix xq cnum ss
           (dynamic_activate (nC ix) d1 (sorted_order d1) d2 (sorted_order d2) (inv_lists ix ! s) cnum sc)
           (count_centroid_dists ix tls))"

definition zero_scores :: "suco \<Rightarrow> 8 word list" where
  "zero_scores ix = replicate (nT ix) 0"

text \<open>\<open>search_one\<close> works in the caller's scratch buffer, whose first \<open>ntotal\<close> bytes it clears.\<close>

definition search_one ::
  "suco \<Rightarrow> float_t list \<Rightarrow> nat \<Rightarrow> float_t \<Rightarrow> float_t \<Rightarrow> 8 word list \<Rightarrow> suco_stats \<Rightarrow>
   ((float_t \<times> int) list \<times> 8 word list \<times> suco_stats) result" where
  "search_one ix xq k cr cdr scratch tls =
     throw_unless (su_ntotal ix > 0) ''IndexSuCo: index is empty''
       (let (sc, tls1) = collide_subspaces ix xq (collision_num ix cr) [0..<nS ix]
                           (blit 0 (zero_scores ix) scratch) tls;
            (out, tls2) = rerank ix xq k (candidate_num ix k cdr) sc tls1
        in Inr (out, sc, tls2))"

fun collide_subspaces_ms ::
  "suco \<Rightarrow> float_t list \<Rightarrow> nat \<Rightarrow> nat list \<Rightarrow> 8 word list \<Rightarrow> 8 word list option" where
  "collide_subspaces_ms ix xq cnum [] sc = Some sc"
| "collide_subspaces_ms ix xq cnum (s # ss) sc =
     (let d1 = centroid_dists ix xq s 0; d2 = centroid_dists ix xq s 1
      in Option.bind
           (dynamic_activate_multisequence (nC ix) d1 (sorted_order d1) d2 (sorted_order d2)
             (inv_lists ix ! s) cnum sc)
           (collide_subspaces_ms ix xq cnum ss))"

text \<open>\<open>search_one_multisequence\<close>: \<open>None\<close> would be a traversal that does not return. It does not
  count the centroid distances.\<close>

definition search_one_multisequence ::
  "suco \<Rightarrow> float_t list \<Rightarrow> nat \<Rightarrow> float_t \<Rightarrow> float_t \<Rightarrow> 8 word list \<Rightarrow> suco_stats \<Rightarrow>
   ((float_t \<times> int) list \<times> 8 word list \<times> suco_stats) result option" where
  "search_one_multisequence ix xq k cr cdr scratch tls =
     (if \<not> su_ntotal ix > 0 then Some (Inl (FaissException ''IndexSuCo: index is empty''))
      else map_option
             (\<lambda>sc. let (out, tls2) = rerank ix xq k (candidate_num ix k cdr) sc tls
                   in Inr (out, sc, tls2))
             (collide_subspaces_ms ix xq (collision_num ix cr) [0..<nS ix]
               (blit 0 (zero_scores ix) scratch)))"

section \<open>SC-scores of one query\<close>

definition get_sc_scores :: "suco \<Rightarrow> float_t list \<Rightarrow> float_t \<Rightarrow> int list result" where
  "get_sc_scores ix xq cr =
     throw_unless (su_is_trained ix \<and> su_ntotal ix > 0)
       ''IndexSuCo::get_sc_scores: index not trained or empty''
       (let eff_cr = (if cr > 0 then cr else collision_ratio ix)
        in throw_unless (eff_cr > 0 \<and> eff_cr < 1)
             ''IndexSuCo::get_sc_scores: collision_ratio must be in (0,1)''
             (Inr (map (\<lambda>b. int (unat b))
                (fst (collide_subspaces ix xq (collision_num ix eff_cr) [0..<nS ix]
                        (zero_scores ix) suco_stats_reset)))))"


section \<open>Batches of queries\<close>

text \<open>The state of the parallel loop: one scratch buffer and one set of counters per thread, the
  output rows of the queries, and the global counters. A schedule lists (query, thread) in the
  order in which the iterations run.\<close>

record batch =
  bufs :: "8 word list list"
  tls :: "suco_stats list"
  rows :: "(float_t \<times> int) list list"
  glob :: suco_stats

type_synonym one_query =
  "nat \<Rightarrow> 8 word list \<Rightarrow> suco_stats \<Rightarrow>
   ((float_t \<times> int) list \<times> 8 word list \<times> suco_stats) result option"

fun run_queries :: "one_query \<Rightarrow> (nat \<times> nat) list \<Rightarrow> batch \<Rightarrow> batch result option" where
  "run_queries f [] b = Some (Inr b)"
| "run_queries f ((i, tid) # sched) b =
     (case f i (bufs b ! tid) (tls b ! tid) of
        None \<Rightarrow> None
      | Some (Inl e) \<Rightarrow> Some (Inl e)
      | Some (Inr (out, buf', t')) \<Rightarrow>
          (let (t'', g') = flush_suco_tls t' (glob b)
           in run_queries f sched
                (b\<lparr> bufs := (bufs b)[tid := buf'], tls := (tls b)[tid := t''],
                    rows := (rows b)[i := out], glob := g' \<rparr>)))"

definition batch_init :: "suco \<Rightarrow> nat \<Rightarrow> nat \<Rightarrow> suco_stats \<Rightarrow> batch" where
  "batch_init ix n nthreads g =
     \<lparr> bufs = replicate nthreads (replicate (nT ix) 0), tls = replicate nthreads suco_stats_reset,
       rows = replicate n [], glob = g \<rparr>"

text \<open>The object behind the \<open>SearchParameters\<close> pointer, as the \<open>dynamic_cast\<close> sees it. A
  \<open>SearchParametersSuCo\<close> inherits the selector \<open>sel\<close>, which the search never reads.\<close>

datatype search_params = NullParams | SuCoParams "(nat \<Rightarrow> bool) option" float_t float_t | ForeignParams

definition search_ratios :: "suco \<Rightarrow> search_params \<Rightarrow> (float_t \<times> float_t) result" where
  "search_ratios ix params =
     (case params of
        NullParams \<Rightarrow> Inr (collision_ratio ix, candidate_ratio ix)
      | ForeignParams \<Rightarrow>
          Inl (FaissException ''IndexSuCo::search: params must be of type SearchParametersSuCo'')
      | SuCoParams sel pcr pcdr \<Rightarrow>
          throw_unless (pcr > 0 \<longrightarrow> pcr < 1)
            ''IndexSuCo::search: collision_ratio override must be in (0,1)''
         (throw_unless (pcdr > 0 \<longrightarrow> pcdr < 1)
            ''IndexSuCo::search: candidate_ratio override must be in (0,1)''
            (Inr (if pcr > 0 then pcr else collision_ratio ix,
                  if pcdr > 0 then pcdr else candidate_ratio ix))))"

definition suco_search ::
  "suco \<Rightarrow> nat \<Rightarrow> float_t list \<Rightarrow> int \<Rightarrow> search_params \<Rightarrow> nat \<Rightarrow> (nat \<times> nat) list \<Rightarrow>
   suco_stats \<Rightarrow> batch result option" where
  "suco_search ix n x k params nthreads sched g =
     (if \<not> su_is_trained ix
      then Some (Inl (FaissException ''IndexSuCo: must call train() before search()''))
      else if \<not> k > 0 then Some (Inl (FaissException ''IndexSuCo: k must be > 0''))
      else if \<not> k \<le> su_ntotal ix
      then Some (Inl (FaissException ''IndexSuCo: k cannot exceed the number of indexed vectors''))
      else case search_ratios ix params of
             Inl e \<Rightarrow> Some (Inl e)
           | Inr (cr, cdr) \<Rightarrow>
               run_queries (\<lambda>i buf t. Some (search_one ix (row (dimd ix) i x) (nat k) cr cdr buf t))
                 sched (batch_init ix n nthreads g))"

text \<open>The ratio overrides of the two analysis entry points.\<close>

definition override_ratio :: "float_t \<Rightarrow> float_t \<Rightarrow> float_t" where
  "override_ratio ovr dflt = (if ovr > 0 then ovr else dflt)"

definition suco_search_multisequence ::
  "suco \<Rightarrow> nat \<Rightarrow> float_t list \<Rightarrow> int \<Rightarrow> float_t \<Rightarrow> float_t \<Rightarrow> nat \<Rightarrow> (nat \<times> nat) list \<Rightarrow>
   suco_stats \<Rightarrow> batch result option" where
  "suco_search_multisequence ix n x k cr_override cdr_override nthreads sched g =
     (if \<not> su_is_trained ix
      then Some (Inl (FaissException ''IndexSuCo: must call train() before search_multisequence()''))
      else if \<not> (k > 0 \<and> k \<le> su_ntotal ix)
      then Some (Inl (FaissException ''IndexSuCo: invalid k''))
      else let cr = override_ratio cr_override (collision_ratio ix);
               cdr = override_ratio cdr_override (candidate_ratio ix)
           in if \<not> (cr > 0 \<and> cr < 1)
              then Some (Inl (FaissException
                ''IndexSuCo::search_multisequence: collision_ratio must be in (0,1)''))
              else if \<not> (cdr > 0 \<and> cdr < 1)
              then Some (Inl (FaissException
                ''IndexSuCo::search_multisequence: candidate_ratio must be in (0,1)''))
              else run_queries
                     (\<lambda>i buf t. search_one_multisequence ix (row (dimd ix) i x) (nat k) cr cdr buf t)
                     sched (batch_init ix n nthreads g))"

section \<open>Linear search\<close>

text \<open>One subspace of Algorithm 1: exact distances of all rows in the subspace, and one count for
  each of the \<open>cnum\<close> closest. The counters are \<open>int32_t\<close>.\<close>

definition sub_dists :: "suco \<Rightarrow> float_t list \<Rightarrow> nat \<Rightarrow> float_t list" where
  "sub_dists ix xq s =
     map (\<lambda>j. fvec_L2sqr (slice (s * subd ix) (subd ix) xq)
                (slice (j * dimd ix + s * subd ix) (subd ix) (su_xb ix))) [0..<nT ix]"

fun linear_scores :: "suco \<Rightarrow> float_t list \<Rightarrow> nat \<Rightarrow> nat list \<Rightarrow> nat list \<Rightarrow> nat list" where
  "linear_scores ix xq cnum [] sc = sc"
| "linear_scores ix xq cnum (s # ss) sc =
     linear_scores ix xq cnum ss
       (fold (\<lambda>v sc. sc[v := sc ! v + 1]) (take cnum (sorted_order (sub_dists ix xq s))) sc)"

definition linear_one ::
  "suco \<Rightarrow> float_t list \<Rightarrow> nat \<Rightarrow> float_t \<Rightarrow> float_t \<Rightarrow> suco_stats \<Rightarrow>
   (float_t \<times> int) list \<times> 8 word list \<times> suco_stats" where
  "linear_one ix xq k cr cdr t =
     (let sc = linear_scores ix xq (collision_num ix cr) [0..<nS ix] (replicate (nT ix) 0);
          sc_u8 = map (\<lambda>v. of_nat (min v (nS ix))) sc;
          (out, t') = rerank ix xq k (candidate_num ix k cdr) sc_u8 t
      in (out, sc_u8, t'))"

definition suco_search_linear ::
  "suco \<Rightarrow> nat \<Rightarrow> float_t list \<Rightarrow> int \<Rightarrow> float_t \<Rightarrow> float_t \<Rightarrow> nat \<Rightarrow> (nat \<times> nat) list \<Rightarrow>
   suco_stats \<Rightarrow> batch result option" where
  "suco_search_linear ix n x k cr_override cdr_override nthreads sched g =
     (if \<not> (su_is_trained ix \<and> su_ntotal ix > 0)
      then Some (Inl (FaissException ''IndexSuCo::search_linear: index not trained or empty''))
      else if \<not> (k > 0 \<and> k \<le> su_ntotal ix)
      then Some (Inl (FaissException ''IndexSuCo::search_linear: invalid k''))
      else let cr = override_ratio cr_override (collision_ratio ix);
               cdr = override_ratio cdr_override (candidate_ratio ix)
           in if \<not> (cr > 0 \<and> cr < 1)
              then Some (Inl (FaissException
                ''IndexSuCo::search_linear: collision_ratio must be in (0,1)''))
              else if \<not> (cdr > 0 \<and> cdr < 1)
              then Some (Inl (FaissException
                ''IndexSuCo::search_linear: candidate_ratio must be in (0,1)''))
              else run_queries
                     (\<lambda>i buf t. Some (Inr (linear_one ix (row (dimd ix) i x) (nat k) cr cdr t)))
                     sched (batch_init ix n nthreads g))"

end
