(* ===== verification/SuCoCorrect.thy ===== *)
theory SuCoCorrect
  imports SuCoSearch
begin

text \<open>
  Correctness of the query side of \<open>IndexSuCo\<close>: the candidate selection takes exactly the requested
  number of best-scored points, the SC-scores count subspaces and never wrap, the two traversals give
  the same answer, and a batch does not depend on the thread schedule.
\<close>

section \<open>Histogram and threshold\<close>

lemma fold_count_nth:
  assumes "\<forall>i \<in> set xs. g i < length h" "s < length h"
  shows "fold (\<lambda>i h. h[g i := h ! g i + 1]) xs h ! s = h ! s + length (filter (\<lambda>i. g i = s) xs)"
  using assms by (induction xs arbitrary: h) (auto simp: nth_list_update)

lemma length_fold_count [simp]: "length (fold (\<lambda>i h. h[g i := h ! g i + 1]) xs h) = length h"
  by (induction xs arbitrary: h) simp_all

lemma score_hist_nth:
  assumes "s \<le> m"
  shows "score_hist m sc nt ! s = length (filter (\<lambda>i. min (unat (sc ! i)) m = s) [0..<nt])"
proof -
  have "replicate (m + 1) 0 ! s = (0::nat)" using assms by (simp del: replicate_Suc add: nth_replicate)
  then show ?thesis
    using assms unfolding score_hist_def by (subst fold_count_nth) (auto simp del: replicate_Suc)
qed

text \<open>The ids whose clamped score is above \<open>s\<close>.\<close>

definition n_above :: "nat \<Rightarrow> 8 word list \<Rightarrow> nat \<Rightarrow> nat \<Rightarrow> nat" where
  "n_above m sc nt s = length (filter (\<lambda>i. min (unat (sc ! i)) m > s) [0..<nt])"

lemma n_above_step:
  "n_above m sc nt s = n_above m sc nt (Suc s) + length (filter (\<lambda>i. min (unat (sc ! i)) m = Suc s) [0..<nt])"
proof -
  have *: "length (filter (\<lambda>i. f i > s) xs) = length (filter (\<lambda>i. f i > Suc s) xs)
      + length (filter (\<lambda>i. f i = Suc s) xs)" for f :: "nat \<Rightarrow> nat" and xs
    by (induction xs) auto
  show ?thesis unfolding n_above_def by (rule *)
qed

lemma n_above_total:
  "nt = n_above m sc nt 0 + length (filter (\<lambda>i. min (unat (sc ! i)) m = 0) [0..<nt])"
proof -
  have *: "length xs = length (filter (\<lambda>i. f i > 0) xs) + length (filter (\<lambda>i. f i = 0) xs)"
    for f :: "nat \<Rightarrow> nat" and xs :: "nat list"
    by (induction xs) auto
  have "length [0..<nt] = n_above m sc nt 0 + length (filter (\<lambda>i. min (unat (sc ! i)) m = 0) [0..<nt])"
    unfolding n_above_def by (rule *)
  then show ?thesis by simp
qed

lemma find_threshold_spec:
  assumes "t \<le> m" "cn < nt" "n_above m sc nt t \<le> cn"
    and "find_threshold (score_hist m sc nt) cn (rev [0..<Suc t]) (n_above m sc nt t) = (cumul, thr)"
  shows "thr \<le> m \<and> cumul = n_above m sc nt thr \<and> cumul \<le> cn \<and>
    cn < cumul + length (filter (\<lambda>i. min (unat (sc ! i)) m = thr) [0..<nt])"
  using assms
proof (induction t)
  case 0
  then show ?case using n_above_total[of nt m sc] score_hist_nth[of 0 m sc nt]
    by (auto split: if_splits)
next
  case (Suc t)
  show ?case
  proof (cases "n_above m sc nt (Suc t) + score_hist m sc nt ! Suc t \<le> cn")
    case True
    moreover have "n_above m sc nt (Suc t) + score_hist m sc nt ! Suc t = n_above m sc nt t"
      using n_above_step[of m sc nt t] score_hist_nth[of "Suc t" m sc nt] Suc.prems(1) by simp
    ultimately show ?thesis using Suc by simp
  next
    case False
    then show ?thesis using Suc.prems score_hist_nth[of "Suc t" m sc nt] by auto
  qed
qed

section \<open>Gathering\<close>

lemma gather_above:
  "filter (\<lambda>i. unat (sc ! i) > thr) (gather_candidates sc thr b ids a)
    = filter (\<lambda>i. unat (sc ! i) > thr) ids"
  by (induction sc thr b ids a rule: gather_candidates.induct) auto

lemma gather_at:
  "filter (\<lambda>i. unat (sc ! i) = thr) (gather_candidates sc thr b ids a)
    = take (b - a) (filter (\<lambda>i. unat (sc ! i) = thr) ids)"
proof (induction sc thr b ids a rule: gather_candidates.induct)
  case (2 sc thr budget i ids a)
  have "budget - a = Suc (budget - Suc a)" if "a < budget" using that by simp
  then show ?case using 2 by auto
qed simp

lemma gather_ge: "i \<in> set (gather_candidates sc thr b ids a) \<Longrightarrow> thr \<le> unat (sc ! i)"
  by (induction sc thr b ids a rule: gather_candidates.induct) (auto split: if_splits)

lemma set_gather: "set (gather_candidates sc thr b ids a) \<subseteq> set ids"
  by (induction sc thr b ids a rule: gather_candidates.induct) auto

lemma sorted_gather: "sorted ids \<Longrightarrow> sorted (gather_candidates sc thr b ids a)"
  by (induction sc thr b ids a rule: gather_candidates.induct)
    (auto dest!: set_gather[THEN subsetD])

lemma distinct_gather: "distinct ids \<Longrightarrow> distinct (gather_candidates sc thr b ids a)"
  by (induction sc thr b ids a rule: gather_candidates.induct)
    (auto dest!: set_gather[THEN subsetD])

lemma length_gather:
  "length (gather_candidates sc thr b ids a) =
    length (filter (\<lambda>i. unat (sc ! i) > thr) ids) + min (b - a) (length (filter (\<lambda>i. unat (sc ! i) = thr) ids))"
proof -
  let ?g = "gather_candidates sc thr b ids a"
  have "length ?g = length (filter (\<lambda>i. unat (sc ! i) > thr) ?g) + length (filter (\<lambda>i. unat (sc ! i) = thr) ?g)"
  proof -
    have *: "length xs = length (filter (\<lambda>i. f i > thr) xs) + length (filter (\<lambda>i. f i = thr) xs)"
      if "\<forall>i \<in> set xs. thr \<le> f i" for f :: "nat \<Rightarrow> nat" and xs
      using that by (induction xs) auto
    show ?thesis by (rule *) (auto dest: gather_ge)
  qed
  then show ?thesis by (simp only: gather_above gather_at length_take min.commute)
qed

lemma take_filter_first:
  assumes "sorted xs" "distinct xs" "i \<in> set (take n xs)" "j \<in> set xs" "j \<notin> set (take n xs)"
  shows "i < (j::nat)"
proof -
  have "j \<in> set (drop n xs)" using assms(4,5) append_take_drop_id[of n xs] by (metis Un_iff set_append)
  moreover have "sorted (take n xs @ drop n xs)" using assms(1) by simp
  ultimately have "i \<le> j" using assms(3) by (simp only: sorted_append)
  moreover have "i \<noteq> j" using assms(3,5) by blast
  ultimately show ?thesis by simp
qed

text \<open>The selection is exact: \<open>cn\<close> ids, in index order, and every id left out has a smaller
  score, or the same score and a larger index.\<close>

lemma select_candidates_exact:
  assumes "cn < nt" "\<forall>i < nt. unat (sc ! i) \<le> m"
  defines "cs \<equiv> select_candidates m nt cn sc"
  shows "length cs = cn" "sorted cs" "distinct cs" "set cs \<subseteq> {..<nt}"
    "\<And>i j. i \<in> set cs \<Longrightarrow> j < nt \<Longrightarrow> j \<notin> set cs \<Longrightarrow>
      unat (sc ! j) < unat (sc ! i) \<or> unat (sc ! j) = unat (sc ! i) \<and> i < j"
proof -
  obtain cumul thr where ft: "find_threshold (score_hist m sc nt) cn (rev [0..<Suc m]) 0 = (cumul, thr)"
    by (cases "find_threshold (score_hist m sc nt) cn (rev [0..<Suc m]) 0")
  have cl: "min (unat (sc ! i)) m = unat (sc ! i)" if "i < nt" for i
    using assms(2) that by (simp add: min_def)
  have "n_above m sc nt m = 0" by (simp add: n_above_def)
  with find_threshold_spec[OF order_refl assms(1), of m sc cumul thr] ft
  have T: "cumul = n_above m sc nt thr" "cumul \<le> cn"
    "cn < cumul + length (filter (\<lambda>i. min (unat (sc ! i)) m = thr) [0..<nt])" by auto
  have ab: "n_above m sc nt thr = length (filter (\<lambda>i. unat (sc ! i) > thr) [0..<nt])"
    unfolding n_above_def by (intro arg_cong[where f = length] filter_cong) (auto simp: cl)
  have eq: "filter (\<lambda>i. min (unat (sc ! i)) m = thr) [0..<nt] = filter (\<lambda>i. unat (sc ! i) = thr) [0..<nt]"
    by (intro filter_cong) (auto simp: cl)
  have cs: "cs = gather_candidates sc thr (cn - cumul) [0..<nt] 0"
    by (simp add: cs_def select_candidates_def ft del: upt_Suc)
  show "length cs = cn" using T ab eq by (simp add: cs length_gather)
  show "sorted cs" "distinct cs" by (simp_all add: cs sorted_gather distinct_gather)
  show "set cs \<subseteq> {..<nt}" unfolding cs by (rule order_trans[OF set_gather]) auto
  fix i j assume ij: "i \<in> set cs" "j < nt" "j \<notin> set cs"
  have i: "thr \<le> unat (sc ! i)" using gather_ge ij(1) by (simp add: cs)
  have "\<not> unat (sc ! j) > thr"
  proof
    assume "unat (sc ! j) > thr"
    with ij(2) have "j \<in> set (filter (\<lambda>i. unat (sc ! i) > thr) [0..<nt])" by simp
    then have "j \<in> set cs"
      unfolding gather_above[where b = "cn - cumul" and a = 0 and ids = "[0..<nt]", symmetric] cs by simp
    with ij(3) show False by simp
  qed
  moreover have "i < j" if "unat (sc ! j) = thr" "unat (sc ! i) = thr"
  proof (rule take_filter_first)
    let ?E = "filter (\<lambda>i. unat (sc ! i) = thr) [0..<nt]"
    show "sorted ?E" "distinct ?E" by (simp_all add: sorted_wrt_filter)
    show "i \<in> set (take (cn - cumul - 0) ?E)" "j \<notin> set (take (cn - cumul - 0) ?E)"
      unfolding gather_at[where b = "cn - cumul" and a = 0 and ids = "[0..<nt]", symmetric] using ij that by (simp_all add: cs)
    show "j \<in> set ?E" using ij that by simp
  qed
  ultimately show "unat (sc ! j) < unat (sc ! i) \<or> unat (sc ! j) = unat (sc ! i) \<and> i < j"
    using i by linarith
qed

section \<open>The output row\<close>

lemma map_insort_key: "map h (insort_key (\<lambda>x. g (h x)) x xs) = insort_key g (h x) (map h xs)"
  by (induction xs) simp_all

lemma map_sort_key: "map h (sort_key (\<lambda>x. g (h x)) xs) = sort_key g (map h xs)"
  by (induction xs) (simp_all add: map_insort_key)

lemma insort_key_cong: "\<forall>y \<in> insert x (set xs). f y = g y \<Longrightarrow> insort_key f x xs = insort_key g x xs"
  by (induction xs) simp_all

lemma sort_key_cong: "\<forall>y \<in> set xs. f y = g y \<Longrightarrow> sort_key f xs = sort_key g xs"
  by (induction xs) (simp_all add: insort_key_cong[where f = f and g = g])

lemma sorted_order_map: "map (\<lambda>i. xs ! i) (sorted_order (map f xs)) = sort_key f xs"
proof -
  have "sorted_order (map f xs) = sort_key (\<lambda>i. f (xs ! i)) [0..<length xs]"
    unfolding sorted_order_def by (simp add: sort_key_cong)
  then show ?thesis by (simp add: map_sort_key map_nth)
qed

lemma emit_topk_map:
  "emit_topk k cs (map f cs) =
    map (\<lambda>c. (f c, int c)) (take k (sort_key f cs)) @ replicate (k - length cs) (FLT_MAX, -1)"
proof -
  let ?o = "sorted_order (map f cs)"
  have lo: "length ?o = length cs" by simp
  have "map (\<lambda>j. (map f cs ! (?o ! j), int (cs ! (?o ! j)))) [0..<min k (length cs)]
      = map (\<lambda>i. (f (cs ! i), int (cs ! i))) (take k ?o)"
    by (intro nth_equalityI) (auto simp: sorted_order_less[of _ "map f cs", simplified])
  also have "\<dots> = map (\<lambda>c. (f c, int c)) (take k (map (\<lambda>i. cs ! i) ?o))"
    by (simp add: take_map)
  finally show ?thesis by (simp add: emit_topk_def sorted_order_map Let_def)
qed

lemma length_emit_topk [simp]: "length (emit_topk k cs ds) = k"
  by (simp add: emit_topk_def Let_def)


section \<open>What a traversal retrieves\<close>

lemma count_list_distinct: "distinct xs \<Longrightarrow> count_list xs v = (if v \<in> set xs then 1 else 0)"
  by (induction xs) auto

lemma mset_concat_map: "distinct ks \<Longrightarrow> mset (concat (map f ks)) = (\<Sum>k \<in> set ks. mset (f k))"
  by (induction ks) simp_all

lemma mset_concat_select:
  assumes "distinct ks" "set ks \<subseteq> {..<length ls}"
  shows "mset (concat (map (\<lambda>k. ls ! k) ks)) \<subseteq># mset (concat ls)"
proof -
  have "mset (concat ls) = mset (concat (map (\<lambda>k. ls ! k) [0..<length ls]))" by (simp add: map_nth)
  also have "\<dots> = (\<Sum>k \<in> {..<length ls}. mset (ls ! k))"
    by (subst mset_concat_map) (simp_all add: atLeast0LessThan)
  also have "\<dots> = (\<Sum>k \<in> set ks. mset (ls ! k)) + (\<Sum>k \<in> {..<length ls} - set ks. mset (ls ! k))"
    using assms(2) by (subst sum.subset_diff[OF assms(2)]) (simp_all add: add.commute)
  finally show ?thesis using assms(1) by (simp add: mset_concat_map)
qed

lemma distinct_mset_mono: "mset xs \<subseteq># mset ys \<Longrightarrow> distinct ys \<Longrightarrow> distinct xs"
  by (metis distinct_append mset_append mset_eq_imp_distinct_iff subset_mset.le_iff_add ex_mset)

text \<open>The buckets of the cells are the \<open>nc * nc\<close> buckets, each once.\<close>

definition cell_bucket :: "nat \<Rightarrow> nat list \<Rightarrow> nat list \<Rightarrow> cell \<Rightarrow> nat" where
  "cell_bucket nc i1 i2 = (\<lambda>(_, i, j). i1 ! i * nc + i2 ! j)"

lemma ascending_nth:
  assumes "ascending_order nc ds ix" "i < nc"
  shows "ix ! i < nc" "j < nc \<Longrightarrow> ix ! i = ix ! j \<longleftrightarrow> i = j"
  using assms nth_mem[of i ix] by (auto simp: ascending_order_def nth_eq_iff_index_eq)

lemma distinct_cell_buckets:
  assumes "ascending_order nc d1 i1" "ascending_order nc d2 i2"
  shows "distinct (map (cell_bucket nc i1 i2) (cell_order nc D))"
    "set (map (cell_bucket nc i1 i2) (cell_order nc D)) \<subseteq> {..<nc * nc}"
proof -
  note a = ascending_nth[OF assms(1)] ascending_nth[OF assms(2)]
  have "inj_on (cell_bucket nc i1 i2) (set (cell_order nc D))"
    by (auto simp: inj_on_def set_cell_order cell_bucket_def a flat_index_inj)
  then show "distinct (map (cell_bucket nc i1 i2) (cell_order nc D))"
    by (simp add: distinct_map distinct_cell_order)
  show "set (map (cell_bucket nc i1 i2) (cell_order nc D)) \<subseteq> {..<nc * nc}"
    using a flat_index_less by (auto simp: set_cell_order cell_bucket_def)
qed

lemma visited_ids_select:
  "\<exists>n. visited_ids nc i1 i2 ls cnum cs ret
    = concat (map (\<lambda>k. ls ! k) (take n (map (cell_bucket nc i1 i2) cs)))"
proof -
  have "map (\<lambda>k. ls ! k) (take n (map (cell_bucket nc i1 i2) cs))
      = map (\<lambda>(_, i, j). ls ! (i1 ! i * nc + i2 ! j)) (take n cs)" for n
    by (auto simp: take_map cell_bucket_def)
  then show ?thesis using visited_ids_prefix[of nc i1 i2 ls cnum cs ret] by simp
qed

lemma visited_ids_distinct:
  fixes cnum :: nat and D :: "nat \<Rightarrow> nat \<Rightarrow> float_t"
  assumes "imi_ok nc nt ls" "ascending_order nc d1 i1" "ascending_order nc d2 i2"
  defines "ids \<equiv> visited_ids nc i1 i2 ls cnum (cell_order nc D) 0"
  shows "distinct ids" "set ids \<subseteq> {..<nt}"
proof -
  obtain n where n: "ids = concat (map (\<lambda>k. ls ! k) (take n (map (cell_bucket nc i1 i2) (cell_order nc D))))"
    using visited_ids_select unfolding ids_def by blast
  have "mset ids \<subseteq># mset (concat ls)"
    using distinct_cell_buckets[OF assms(2,3), of D] assms(1) unfolding n
    by (intro mset_concat_select distinct_take order_trans[OF set_take_subset]) (simp_all add: imi_ok_def)
  then have m: "mset ids \<subseteq># mset [0..<nt]" using assms(1) by (simp add: imi_ok_def)
  from distinct_mset_mono[OF m] show "distinct ids" by simp
  from set_mset_mono[OF m] show "set ids \<subseteq> {..<nt}" by auto
qed


section \<open>Scores of a query\<close>

text \<open>The combined centroid distance of cell (\<open>i\<close>, \<open>j\<close>) (ranks in the two halves) of
  subspace \<open>s\<close>, and the condition that the index arithmetic of the traversal relies on:
  no combined distance reaches \<open>FLT_MAX\<close>.\<close>

definition cell_dist :: "suco \<Rightarrow> float_t list \<Rightarrow> nat \<Rightarrow> nat \<Rightarrow> nat \<Rightarrow> float_t" where
  "cell_dist ix xq s =
     combined (centroid_dists ix xq s 0) (sorted_order (centroid_dists ix xq s 0))
              (centroid_dists ix xq s 1) (sorted_order (centroid_dists ix xq s 1))"

definition query_in_range :: "suco \<Rightarrow> float_t list \<Rightarrow> bool" where
  "query_in_range ix xq \<longleftrightarrow>
     (\<forall>s < nS ix. \<forall>i < nC ix. \<forall>j < nC ix. cell_dist ix xq s i j < FLT_MAX)"

text \<open>The ids that collide with the query in subspace \<open>s\<close>: the buckets of the closest cells, up to
  the collision quota.\<close>

definition colliding :: "suco \<Rightarrow> float_t list \<Rightarrow> nat \<Rightarrow> nat \<Rightarrow> nat list" where
  "colliding ix xq cnum s =
     visited_ids (nC ix) (sorted_order (centroid_dists ix xq s 0)) (sorted_order (centroid_dists ix xq s 1))
       (inv_lists ix ! s) cnum (cell_order (nC ix) (cell_dist ix xq s)) 0"

definition sc_score :: "suco \<Rightarrow> float_t list \<Rightarrow> nat \<Rightarrow> nat \<Rightarrow> nat" where
  "sc_score ix xq cnum v = length (filter (\<lambda>s. v \<in> set (colliding ix xq cnum s)) [0..<nS ix])"

lemma length_centroid_dists [simp]: "length (centroid_dists ix xq s h) = nC ix"
  by (simp add: centroid_dists_def)

lemma ascending_centroids: "ascending_order (nC ix) (centroid_dists ix xq s h) (sorted_order (centroid_dists ix xq s h))"
  by (simp add: ascending_order_sorted_order)

lemma colliding_distinct:
  assumes "suco_inv ix" "su_is_trained ix" "s < nS ix"
  shows "distinct (colliding ix xq cnum s)" "set (colliding ix xq cnum s) \<subseteq> {..<nT ix}"
  using visited_ids_distinct[OF suco_inv_trained(5)[OF assms(1,2,3)] ascending_centroids ascending_centroids]
  unfolding colliding_def by blast+

text \<open>One subspace of the traversal loop.\<close>

lemma activate_colliding:
  assumes "suco_inv ix" "su_is_trained ix" "query_in_range ix xq" "s < nS ix"
  shows "dynamic_activate (nC ix) (centroid_dists ix xq s 0) (sorted_order (centroid_dists ix xq s 0))
      (centroid_dists ix xq s 1) (sorted_order (centroid_dists ix xq s 1)) (inv_lists ix ! s) cnum sc
    = bump_all (colliding ix xq cnum s) sc"
  and "dynamic_activate_multisequence (nC ix) (centroid_dists ix xq s 0) (sorted_order (centroid_dists ix xq s 0))
      (centroid_dists ix xq s 1) (sorted_order (centroid_dists ix xq s 1)) (inv_lists ix ! s) cnum sc
    = Some (bump_all (colliding ix xq cnum s) sc)"
proof -
  have nc: "0 < nC ix" using suco_shape_dims(4)[OF suco_inv_trained(1)[OF assms(1,2)]] .
  show "dynamic_activate (nC ix) (centroid_dists ix xq s 0) (sorted_order (centroid_dists ix xq s 0))
      (centroid_dists ix xq s 1) (sorted_order (centroid_dists ix xq s 1)) (inv_lists ix ! s) cnum sc
    = bump_all (colliding ix xq cnum s) sc"
    using assms(3,4) by (subst dynamic_activate_visit[OF nc ascending_centroids ascending_centroids])
      (auto simp: query_in_range_def cell_dist_def visit_cells_ids colliding_def)
  show "dynamic_activate_multisequence (nC ix) (centroid_dists ix xq s 0) (sorted_order (centroid_dists ix xq s 0))
      (centroid_dists ix xq s 1) (sorted_order (centroid_dists ix xq s 1)) (inv_lists ix ! s) cnum sc
    = Some (bump_all (colliding ix xq cnum s) sc)"
    by (subst dynamic_activate_multisequence_visit[OF nc ascending_centroids ascending_centroids])
      (simp add: cell_dist_def visit_cells_ids colliding_def)
qed

lemma collide_subspaces_bump:
  assumes "suco_inv ix" "su_is_trained ix" "query_in_range ix xq" "set ss \<subseteq> {..<nS ix}"
  shows "fst (collide_subspaces ix xq cnum ss sc t) = bump_all (concat (map (colliding ix xq cnum) ss)) sc"
    and "collide_subspaces_ms ix xq cnum ss sc = Some (bump_all (concat (map (colliding ix xq cnum) ss)) sc)"
  using assms(4)
  by (induction ss arbitrary: sc t)
    (simp_all add: Let_def activate_colliding(1)[OF assms(1-3), of _ cnum, unfolded One_nat_def]
       activate_colliding(2)[OF assms(1-3), of _ cnum, unfolded One_nat_def] bump_all_append)

lemma count_concat_distinct:
  "\<forall>s \<in> set ss. distinct (f s) \<Longrightarrow>
    count_list (concat (map f ss)) v = length (filter (\<lambda>s. v \<in> set (f s)) ss)"
  by (induction ss) (auto simp: count_list_distinct)

lemma sc_score_le: "sc_score ix xq cnum v \<le> nS ix"
  unfolding sc_score_def by (rule order_trans[OF length_filter_le]) simp

lemma unat_sc_score:
  assumes "suco_inv ix"
  shows "unat (of_nat (sc_score ix xq cnum v) :: 8 word) = sc_score ix xq cnum v"
proof -
  have "nsubspaces ix \<le> 255" using assms by (simp add: suco_inv_def suco_shape_def)
  with sc_score_le[of ix xq cnum v] have "sc_score ix xq cnum v < 256" by linarith
  then show ?thesis by (simp add: unat_of_nat take_bit_nat_eq_self)
qed

definition sc_scores :: "suco \<Rightarrow> float_t list \<Rightarrow> nat \<Rightarrow> 8 word list" where
  "sc_scores ix xq cnum = map (\<lambda>v. of_nat (sc_score ix xq cnum v)) [0..<nT ix]"

lemma bump_all_scores:
  assumes "suco_inv ix" "su_is_trained ix"
  shows "bump_all (concat (map (colliding ix xq cnum) [0..<nS ix])) (zero_scores ix) = sc_scores ix xq cnum"
proof (rule nth_equalityI)
  fix v assume "v < length (bump_all (concat (map (colliding ix xq cnum) [0..<nS ix])) (zero_scores ix))"
  then have v: "v < nT ix" by (simp add: zero_scores_def)
  have "set (concat (map (colliding ix xq cnum) [0..<nS ix])) \<subseteq> {..<nT ix}"
    using colliding_distinct(2)[OF assms, THEN subsetD] by fastforce
  then have "bump_all (concat (map (colliding ix xq cnum) [0..<nS ix])) (zero_scores ix) ! v
      = of_nat (count_list (concat (map (colliding ix xq cnum) [0..<nS ix])) v)"
    using v by (subst nth_bump_all) (simp_all add: zero_scores_def)
  also have "count_list (concat (map (colliding ix xq cnum) [0..<nS ix])) v = sc_score ix xq cnum v"
    unfolding sc_score_def using colliding_distinct(1)[OF assms] by (intro count_concat_distinct) auto
  finally show "bump_all (concat (map (colliding ix xq cnum) [0..<nS ix])) (zero_scores ix) ! v
      = sc_scores ix xq cnum ! v" using v by (simp add: sc_scores_def)
qed (simp add: sc_scores_def zero_scores_def)

lemma blit_zero_scores: "length buf = nT ix \<Longrightarrow> blit 0 (zero_scores ix) buf = zero_scores ix"
  by (simp add: blit_def zero_scores_def)


section \<open>One query\<close>

text \<open>The ids that are re-ranked: all of them when the quota covers the base, else the \<open>cn\<close> ids
  with the best (score, smaller id).\<close>

definition candidates :: "suco \<Rightarrow> float_t list \<Rightarrow> nat \<Rightarrow> nat \<Rightarrow> nat list" where
  "candidates ix xq cnum cn =
     (if cn \<ge> nT ix then [0..<nT ix] else select_candidates (nS ix) (nT ix) cn (sc_scores ix xq cnum))"

definition query_stats :: "suco \<Rightarrow> nat \<Rightarrow> suco_stats" where
  "query_stats ix cn =
     \<lparr> n_dis_rerank = min cn (nT ix), n_dis_centroid = nS ix * (2 * nC ix),
       centroid_floats = nS ix * (2 * nC ix * halfd ix), n_queries = 0 \<rparr>"

lemma candidates_best:
  assumes "suco_inv ix"
  shows "length (candidates ix xq cnum cn) = min cn (nT ix)" "distinct (candidates ix xq cnum cn)"
    "sorted (candidates ix xq cnum cn)" "set (candidates ix xq cnum cn) \<subseteq> {..<nT ix}"
    "\<And>i j. i \<in> set (candidates ix xq cnum cn) \<Longrightarrow> j < nT ix \<Longrightarrow> j \<notin> set (candidates ix xq cnum cn) \<Longrightarrow>
       sc_score ix xq cnum j < sc_score ix xq cnum i \<or>
       sc_score ix xq cnum j = sc_score ix xq cnum i \<and> i < j"
proof -
  have sc: "unat (sc_scores ix xq cnum ! i) = sc_score ix xq cnum i" if "i < nT ix" for i
    using that assms by (simp add: sc_scores_def unat_sc_score)
  have le: "\<forall>i < nT ix. unat (sc_scores ix xq cnum ! i) \<le> nS ix" using sc sc_score_le by simp
  have all: "length (candidates ix xq cnum cn) = min cn (nT ix) \<and> distinct (candidates ix xq cnum cn) \<and>
    sorted (candidates ix xq cnum cn) \<and> set (candidates ix xq cnum cn) \<subseteq> {..<nT ix}"
  proof (cases "cn < nT ix")
    case True
    from select_candidates_exact(1-4)[OF this le] True show ?thesis by (simp add: candidates_def)
  qed (auto simp: candidates_def)
  then show "length (candidates ix xq cnum cn) = min cn (nT ix)" "distinct (candidates ix xq cnum cn)"
    "sorted (candidates ix xq cnum cn)" "set (candidates ix xq cnum cn) \<subseteq> {..<nT ix}" by blast+
  fix i j assume ij: "i \<in> set (candidates ix xq cnum cn)" "j < nT ix" "j \<notin> set (candidates ix xq cnum cn)"
  then have cn: "cn < nT ix" by (cases "cn < nT ix") (auto simp: candidates_def)
  from ij(1) all have "i < nT ix" by auto
  with select_candidates_exact(5)[OF cn le, of i j] ij cn
  show "sc_score ix xq cnum j < sc_score ix xq cnum i \<or>
    sc_score ix xq cnum j = sc_score ix xq cnum i \<and> i < j"
    by (simp add: candidates_def sc)
qed

text \<open>The \<open>k\<close> nearest of a list of ids, nearest first, with exact distances.\<close>

definition nearest :: "suco \<Rightarrow> float_t list \<Rightarrow> nat \<Rightarrow> nat list \<Rightarrow> (float_t \<times> int) list" where
  "nearest ix xq k cs = map (\<lambda>c. (db_dist ix xq c, int c)) (take k (sort_key (db_dist ix xq) cs))"

lemma rerank_nearest:
  assumes "suco_inv ix" "k \<le> min cn (nT ix)"
  shows "rerank ix xq k cn (sc_scores ix xq cnum) t =
    (nearest ix xq k (candidates ix xq cnum cn), t\<lparr> n_dis_rerank := n_dis_rerank t + min cn (nT ix) \<rparr>)"
proof -
  have l: "length (candidates ix xq cnum cn) = min cn (nT ix)" by (rule candidates_best(1)[OF assms(1)])
  have "emit_topk k (candidates ix xq cnum cn) (map (db_dist ix xq) (candidates ix xq cnum cn))
      = nearest ix xq k (candidates ix xq cnum cn)"
    unfolding emit_topk_map nearest_def l using assms(2) by simp
  with l show ?thesis by (auto simp: rerank_def candidates_def Let_def)
qed

lemma collide_all:
  assumes "suco_inv ix" "su_is_trained ix" "query_in_range ix xq"
  shows "fst (collide_subspaces ix xq cnum [0..<nS ix] (zero_scores ix) t) = sc_scores ix xq cnum"
    and "collide_subspaces_ms ix xq cnum [0..<nS ix] (zero_scores ix) = Some (sc_scores ix xq cnum)"
  unfolding bump_all_scores[OF assms(1,2), symmetric]
  by (intro collide_subspaces_bump[OF assms], simp add: atLeast0LessThan)+

lemma collide_subspaces_stats:
  "snd (collide_subspaces ix xq cnum ss sc t) =
    t\<lparr> n_dis_centroid := n_dis_centroid t + length ss * (2 * nC ix),
       centroid_floats := centroid_floats t + length ss * (2 * nC ix * halfd ix) \<rparr>"
  by (induction ss arbitrary: sc t) (simp_all add: Let_def count_centroid_dists_def)

lemma candidate_num_ge: "k \<le> candidate_num ix k cdr"
  unfolding candidate_num_def by linarith

definition one_result :: "suco \<Rightarrow> nat \<Rightarrow> float_t \<Rightarrow> float_t \<Rightarrow> float_t list \<Rightarrow> (float_t \<times> int) list" where
  "one_result ix k cr cdr xq =
     nearest ix xq k (candidates ix xq (collision_num ix cr) (candidate_num ix k cdr))"

lemma search_one_result:
  assumes "suco_inv ix" "su_is_trained ix" "query_in_range ix xq" "0 < k" "k \<le> nT ix" "length buf = nT ix"
  shows "search_one ix xq k cr cdr buf t =
    Inr (one_result ix k cr cdr xq, sc_scores ix xq (collision_num ix cr),
         suco_stats_combine t (query_stats ix (candidate_num ix k cdr)))"
proof -
  have k: "k \<le> min (candidate_num ix k cdr) (nT ix)" using assms(5) candidate_num_ge by simp
  have nt: "0 < su_ntotal ix" using assms(4,5) by simp
  show ?thesis
    unfolding search_one_def blit_zero_scores[OF assms(6)]
    using nt by (simp add: case_prod_beta collide_all(1)[OF assms(1-3)] rerank_nearest[OF assms(1) k] collide_subspaces_stats
        one_result_def suco_stats_combine_def query_stats_def)
qed

lemma search_one_multisequence_result:
  assumes "suco_inv ix" "su_is_trained ix" "query_in_range ix xq" "0 < k" "k \<le> nT ix" "length buf = nT ix"
  shows "search_one_multisequence ix xq k cr cdr buf t =
    Some (Inr (one_result ix k cr cdr xq, sc_scores ix xq (collision_num ix cr),
         t\<lparr> n_dis_rerank := n_dis_rerank t + min (candidate_num ix k cdr) (nT ix) \<rparr>))"
proof -
  have k: "k \<le> min (candidate_num ix k cdr) (nT ix)" using assms(5) candidate_num_ge by simp
  have nt: "0 < su_ntotal ix" using assms(4,5) by simp
  show ?thesis
    unfolding search_one_multisequence_def blit_zero_scores[OF assms(6)] collide_all(2)[OF assms(1-3)]
    using nt by (simp add: rerank_nearest[OF assms(1) k] one_result_def)
qed

section \<open>Batches and their schedules\<close>

text \<open>A schedule of the parallel loop: every query once, on threads that exist.\<close>

definition schedule :: "nat \<Rightarrow> nat \<Rightarrow> (nat \<times> nat) list \<Rightarrow> bool" where
  "schedule n nthreads sched \<longleftrightarrow>
     mset (map fst sched) = mset [0..<n] \<and> (\<forall>(i, tid) \<in> set sched. tid < nthreads)"

definition stats_after :: "suco_stats \<Rightarrow> suco_stats \<Rightarrow> nat \<Rightarrow> suco_stats" where
  "stats_after g q m =
     \<lparr> n_dis_rerank = n_dis_rerank g + m * n_dis_rerank q,
       n_dis_centroid = n_dis_centroid g + m * n_dis_centroid q,
       centroid_floats = centroid_floats g + m * centroid_floats q,
       n_queries = n_queries g + m * (n_queries q + 1) \<rparr>"

lemma suco_stats_eqI:
  "n_dis_rerank s = n_dis_rerank t \<Longrightarrow> n_dis_centroid s = n_dis_centroid t \<Longrightarrow>
   centroid_floats s = centroid_floats t \<Longrightarrow> n_queries s = n_queries t \<Longrightarrow> s = (t :: suco_stats)"
  by simp

lemma run_queries_ok:
  assumes "\<And>i buf. i < n \<Longrightarrow> length buf = m \<Longrightarrow>
      \<exists>s. length s = m \<and> f i buf suco_stats_reset = Some (Inr (r i, s, q))"
    and "\<forall>(i, tid) \<in> set sched. i < n \<and> tid < nthreads"
    and "length (bufs b) = nthreads" "\<forall>buf \<in> set (bufs b). length buf = m"
    and "tls b = replicate nthreads suco_stats_reset"
  shows "\<exists>b'. run_queries f sched b = Some (Inr b') \<and>
    rows b' = fold (\<lambda>i rs. rs[i := r i]) (map fst sched) (rows b) \<and>
    glob b' = stats_after (glob b) q (length sched)"
  using assms(2-)
proof (induction sched arbitrary: b)
  case Nil
  then show ?case by (simp add: stats_after_def)
next
  case (Cons p sched)
  obtain i tid where p: "p = (i, tid)" by (cases p)
  with Cons.prems have b: "i < n" "tid < nthreads" "length (bufs b ! tid) = m"
    "tls b ! tid = suco_stats_reset" by auto
  from assms(1)[OF b(1,3)] obtain s where
    s: "length s = m" "f i (bufs b ! tid) suco_stats_reset = Some (Inr (r i, s, q))" by blast
  let ?b = "b\<lparr> bufs := (bufs b)[tid := s], tls := (tls b)[tid := suco_stats_reset],
    rows := (rows b)[i := r i], glob := suco_stats_combine (glob b) (q\<lparr> n_queries := n_queries q + 1 \<rparr>) \<rparr>"
  have step: "run_queries f (p # sched) b = run_queries f sched ?b"
    by (simp add: p b(4) s(2) flush_suco_tls_def)
  have "\<forall>buf \<in> set (bufs ?b). length buf = m"
    using Cons.prems(3) s(1) set_update_subset_insert[of "bufs b" tid s] by auto
  moreover have "tls ?b = replicate nthreads suco_stats_reset"
    using Cons.prems(4) b(2) list_update_id[of "tls b" tid] b(4) by simp
  ultimately obtain b' where "run_queries f sched ?b = Some (Inr b')"
    "rows b' = fold (\<lambda>i rs. rs[i := r i]) (map fst sched) (rows ?b)"
    "glob b' = stats_after (glob ?b) q (length sched)"
    using Cons.IH[of ?b] Cons.prems by auto
  then show ?case unfolding step
    by (auto simp: p stats_after_def suco_stats_combine_def)
qed

lemma fold_update_nth:
  "i < length rs \<Longrightarrow> fold (\<lambda>i rs. rs[i := r i]) is rs ! i = (if i \<in> set is then r i else rs ! i)"
  by (induction "is" arbitrary: rs) (auto simp: nth_list_update)

lemma length_fold_update [simp]: "length (fold (\<lambda>i rs. rs[i := r i]) is rs) = length rs"
  by (induction "is" arbitrary: rs) simp_all

lemma run_queries_batch:
  assumes "\<And>i buf. i < n \<Longrightarrow> length buf = nT ix \<Longrightarrow>
      \<exists>s. length s = nT ix \<and> f i buf suco_stats_reset = Some (Inr (r i, s, q))"
    and "schedule n nthreads sched"
  shows "\<exists>b'. run_queries f sched (batch_init ix n nthreads g) = Some (Inr b') \<and>
    rows b' = map r [0..<n] \<and> glob b' = stats_after g q n"
proof -
  have set_fst: "set (map fst sched) = {..<n}"
    using assms(2) mset_eq_setD[of "map fst sched" "[0..<n]"] by (auto simp: schedule_def)
  have len: "length sched = n"
    using assms(2) mset_eq_length[of "map fst sched" "[0..<n]"] by (simp add: schedule_def)
  have "\<forall>(i, tid) \<in> set sched. i < n \<and> tid < nthreads"
    using assms(2) set_fst by (force simp: schedule_def)
  from run_queries_ok[where f = f and r = r and q = q and m = "nT ix" and b = "batch_init ix n nthreads g",
      OF assms(1) this] obtain b' where
    b': "run_queries f sched (batch_init ix n nthreads g) = Some (Inr b')"
    "rows b' = fold (\<lambda>i rs. rs[i := r i]) (map fst sched) (replicate n [])" "glob b' = stats_after g q n"
    by (auto simp: batch_init_def len)
  have "rows b' = map r [0..<n]"
    unfolding b'(2) by (rule nth_equalityI) (simp_all add: fold_update_nth set_fst[simplified])
  with b' show ?thesis by blast
qed

text \<open>The parameters of a search that the checks accept.\<close>

definition search_ok :: "suco \<Rightarrow> nat \<Rightarrow> float_t list \<Rightarrow> int \<Rightarrow> bool" where
  "search_ok ix n x k \<longleftrightarrow>
     suco_inv ix \<and> su_is_trained ix \<and> 0 < k \<and> k \<le> su_ntotal ix \<and>
     (\<forall>i < n. query_in_range ix (row (dimd ix) i x))"

lemma suco_search_rows:
  assumes "search_ok ix n x k" "search_ratios ix params = Inr (cr, cdr)" "schedule n nthreads sched"
  shows "\<exists>b. suco_search ix n x k params nthreads sched g = Some (Inr b) \<and>
    rows b = map (\<lambda>i. one_result ix (nat k) cr cdr (row (dimd ix) i x)) [0..<n] \<and>
    glob b = stats_after g (query_stats ix (candidate_num ix (nat k) cdr)) n"
proof -
  from assms(1) have a: "suco_inv ix" "su_is_trained ix" "0 < k" "k \<le> su_ntotal ix"
    "\<And>i. i < n \<Longrightarrow> query_in_range ix (row (dimd ix) i x)" by (auto simp: search_ok_def)
  have k: "0 < nat k" "nat k \<le> nT ix" using a(3,4) by (simp_all add: nat_mono)
  have z: "suco_stats_combine suco_stats_reset q = q" for q
    by (simp add: suco_stats_combine_def suco_stats_reset_def)
  have eq: "suco_search ix n x k params nthreads sched g =
    run_queries (\<lambda>i buf t. Some (search_one ix (row (dimd ix) i x) (nat k) cr cdr buf t)) sched
      (batch_init ix n nthreads g)"
    using a assms(2) by (simp add: suco_search_def)
  show ?thesis unfolding eq
    by (rule run_queries_batch[OF _ assms(3)])
      (auto simp: search_one_result[OF a(1,2) a(5) k] sc_scores_def z)
qed


lemma suco_search_multisequence_rows:
  assumes "search_ok ix n x k" "0 < override_ratio cro (collision_ratio ix)"
    "override_ratio cro (collision_ratio ix) < 1" "0 < override_ratio cdro (candidate_ratio ix)"
    "override_ratio cdro (candidate_ratio ix) < 1" "schedule n nthreads sched"
  shows "\<exists>b. suco_search_multisequence ix n x k cro cdro nthreads sched g = Some (Inr b) \<and>
    rows b = map (\<lambda>i. one_result ix (nat k) (override_ratio cro (collision_ratio ix))
      (override_ratio cdro (candidate_ratio ix)) (row (dimd ix) i x)) [0..<n]"
proof -
  let ?cr = "override_ratio cro (collision_ratio ix)" and ?cdr = "override_ratio cdro (candidate_ratio ix)"
  from assms(1) have a: "suco_inv ix" "su_is_trained ix" "0 < k" "k \<le> su_ntotal ix"
    "\<And>i. i < n \<Longrightarrow> query_in_range ix (row (dimd ix) i x)" by (auto simp: search_ok_def)
  have k: "0 < nat k" "nat k \<le> nT ix" using a(3,4) by (simp_all add: nat_mono)
  have eq: "suco_search_multisequence ix n x k cro cdro nthreads sched g =
    run_queries (\<lambda>i buf t. search_one_multisequence ix (row (dimd ix) i x) (nat k) ?cr ?cdr buf t) sched
      (batch_init ix n nthreads g)"
    using a assms(2-5) by (simp add: suco_search_multisequence_def)
  have "\<exists>b. run_queries (\<lambda>i buf t. search_one_multisequence ix (row (dimd ix) i x) (nat k) ?cr ?cdr buf t) sched
      (batch_init ix n nthreads g) = Some (Inr b) \<and>
    rows b = map (\<lambda>i. one_result ix (nat k) ?cr ?cdr (row (dimd ix) i x)) [0..<n] \<and>
    glob b = stats_after g (suco_stats_reset\<lparr> n_dis_rerank := n_dis_rerank suco_stats_reset +
      min (candidate_num ix (nat k) ?cdr) (nT ix) \<rparr>) n"
    by (rule run_queries_batch[OF _ assms(6)])
      (auto simp: search_one_multisequence_result[OF a(1,2) a(5) k] sc_scores_def)
  then show ?thesis unfolding eq by blast
qed

section \<open>Linear search\<close>

text \<open>The specification of Algorithm 1: the points that are among the \<open>cnum\<close> closest of subspace
  \<open>s\<close>.\<close>

definition linear_hits :: "suco \<Rightarrow> float_t list \<Rightarrow> nat \<Rightarrow> nat \<Rightarrow> nat list" where
  "linear_hits ix xq cnum s = take cnum (sorted_order (sub_dists ix xq s))"

lemma fold_incr_nth:
  "v < length sc \<Longrightarrow> fold (\<lambda>v sc. sc[v := Suc (sc ! v)]) vs sc ! v = (sc ! v + count_list vs v :: nat)"
  by (induction vs arbitrary: sc) (auto simp: nth_list_update)

lemma length_fold_incr [simp]: "length (fold (\<lambda>v sc. sc[v := Suc (sc ! v)]) vs sc) = length sc"
  by (induction vs arbitrary: sc) simp_all

lemma linear_scores_nth:
  "length sc = nT ix \<Longrightarrow> v < nT ix \<Longrightarrow>
    length (linear_scores ix xq cnum ss sc) = nT ix \<and>
    linear_scores ix xq cnum ss sc ! v
      = sc ! v + length (filter (\<lambda>s. v \<in> set (linear_hits ix xq cnum s)) ss)"
  by (induction ss arbitrary: sc)
    (simp_all add: fold_incr_nth linear_hits_def count_list_distinct)

lemma linear_scores_sum:
  "v < nT ix \<Longrightarrow> linear_scores ix xq cnum [0..<nS ix] (replicate (nT ix) 0) ! v
    = length (filter (\<lambda>s. v \<in> set (linear_hits ix xq cnum s)) [0..<nS ix])"
  using linear_scores_nth[of "replicate (nT ix) 0" ix v xq cnum "[0..<nS ix]"] by simp

end
