(* ===== verification/SuCoProps.thy ===== *)
theory SuCoProps
  imports SuCoCorrect
begin

text \<open>
  The properties of \<open>IndexSuCo\<close>, each with a concrete index on which its hypotheses hold.
\<close>

section \<open>A concrete index\<close>

text \<open>Three points of the plane in one subspace, two centroids per half.\<close>

definition suco_demo :: suco where
  "suco_demo =
     \<lparr> su_d = 2, su_ntotal = 3, su_is_trained = True,
       nsubspaces = 1, ncentroids_half = 2, collision_ratio = 1/2, candidate_ratio = 3/4,
       su_niter = 25, subspace_dim = 2, half_dim = 1,
       centroids = [0, 1, 0, 1], inv_lists = [[[0], [2], [], [1]]], su_xb = [0, 0, 1, 1, 0, 1] \<rparr>"

lemma suco_demo_inv: "suco_inv suco_demo"
  by (simp add: suco_inv_def suco_demo_def suco_shape_def imi_ok_def numeral_2_eq_2 numeral_3_eq_3)

lemma suco_demo_query: "query_in_range suco_demo [0, 1]"
  by (simp add: query_in_range_def cell_dist_def combined_def centroid_dists_def suco_demo_def slice_def
      fvec_L2sqr_ny_def FLT_MAX_def sorted_order_def numeral_2_eq_2 All_less_Suc)


lemma suco_demo_row: "row (dimd suco_demo) 0 [0, 1] = [0, 1]"
  by (simp add: suco_demo_def slice_def)

lemma suco_demo_search_ok: "search_ok suco_demo 1 [0, 1] 2"
  using suco_demo_query by (simp add: search_ok_def suco_demo_inv suco_demo_row[simplified])
    (simp add: suco_demo_def)

lemma schedule_single: "schedule 1 1 [(0, 0)]"
  by (simp add: schedule_def)

section \<open>Search\<close>

lemma nearest_spec:
  assumes "distinct cs" "k \<le> length cs"
  shows "length (nearest ix xq k cs) = k" "sorted (map fst (nearest ix xq k cs))"
    "distinct (map snd (nearest ix xq k cs))"
    "\<And>p. p \<in> set (nearest ix xq k cs) \<Longrightarrow> \<exists>c \<in> set cs. p = (db_dist ix xq c, int c)"
    "\<And>p c. p \<in> set (nearest ix xq k cs) \<Longrightarrow> c \<in> set cs \<Longrightarrow> int c \<notin> snd ` set (nearest ix xq k cs) \<Longrightarrow>
       fst p \<le> db_dist ix xq c"
proof -
  let ?f = "db_dist ix xq" and ?s = "sort_key (db_dist ix xq) cs"
  have map_fst: "map fst (nearest ix xq k cs) = take k (map ?f ?s)" by (simp add: nearest_def take_map comp_def)
  show "length (nearest ix xq k cs) = k" using assms by (simp add: nearest_def)
  show "sorted (map fst (nearest ix xq k cs))" unfolding map_fst by (simp add: sorted_wrt_take)
  show "distinct (map snd (nearest ix xq k cs))"
    using assms by (simp add: nearest_def comp_def distinct_map inj_on_def)
  show "\<exists>c \<in> set cs. p = (?f c, int c)" if "p \<in> set (nearest ix xq k cs)" for p
    using that by (auto simp: nearest_def dest: in_set_takeD)
  show "fst p \<le> ?f c" if p: "p \<in> set (nearest ix xq k cs)" and c: "c \<in> set cs"
    "int c \<notin> snd ` set (nearest ix xq k cs)" for p c
  proof -
    from c(2) have "c \<notin> set (take k ?s)" by (force simp: nearest_def)
    with c(1) have "c \<in> set (drop k ?s)" using append_take_drop_id[of k ?s]
      by (metis Un_iff set_append set_sort)
    moreover from p obtain a where "a \<in> set (take k ?s)" "fst p = ?f a" by (auto simp: nearest_def)
    moreover have "sorted (map ?f (take k ?s) @ map ?f (drop k ?s))"
      by (simp del: sorted_append add: map_append[symmetric])
    ultimately show ?thesis by (auto simp: sorted_append)
  qed
qed

text \<open>C1. \<open>IndexSuCo::search\<close> on an index in which the invariant holds, with accepted parameters:
  whatever thread runs which query in whatever order, the call returns, and row \<open>i\<close> of the output
  is the list of the \<open>k\<close> nearest of the candidates of query \<open>i\<close> with their exact distances,
  nearest first, all labels distinct; the candidates are the
  \<open>min (max k (candidate_ratio * ntotal)) ntotal\<close> ids of highest SC-score. A selector in the parameters is
  ignored by the code: the candidates are of all stored ids.\<close>

theorem suco_search_correct:
  assumes "search_ok ix n x k" "search_ratios ix params = Inr (cr, cdr)" "schedule n nthreads sched"
  shows "\<exists>b. suco_search ix n x k params nthreads sched g = Some (Inr b) \<and> length (rows b) = n \<and>
    (\<forall>i < n. let xq = row (dimd ix) i x; out = rows b ! i;
                 cs = candidates ix xq (collision_num ix cr) (candidate_num ix (nat k) cdr)
       in length out = nat k \<and> sorted (map fst out) \<and> distinct (map snd out) \<and>
          (\<forall>p \<in> set out. \<exists>c \<in> set cs. p = (db_dist ix xq c, int c)) \<and>
          (\<forall>c \<in> set cs. int c \<in> snd ` set out \<or> (\<forall>p \<in> set out. fst p \<le> db_dist ix xq c)) \<and>
          length cs = min (candidate_num ix (nat k) cdr) (nT ix) \<and> distinct cs \<and> set cs \<subseteq> {..<nT ix} \<and>
          (\<forall>c \<in> set cs. \<forall>j < nT ix. j \<in> set cs \<or>
             sc_score ix xq (collision_num ix cr) j \<le> sc_score ix xq (collision_num ix cr) c))"
proof -
  from assms(1) have inv: "suco_inv ix" and k: "nat k \<le> nT ix" by (auto simp: search_ok_def nat_mono)
  note cb = candidates_best[OF inv]
  have kc: "nat k \<le> length (candidates ix xq cn (candidate_num ix (nat k) cdr))" for xq cn
    using k candidate_num_ge by (simp add: cb(1))
  note near = nearest_spec[OF cb(2) kc]
  obtain b where b: "suco_search ix n x k params nthreads sched g = Some (Inr b)"
    "rows b = map (\<lambda>i. one_result ix (nat k) cr cdr (row (dimd ix) i x)) [0..<n]"
    using suco_search_rows[OF assms] by blast
  have "sc_score ix xq cn j \<le> sc_score ix xq cn c"
    if "c \<in> set (candidates ix xq cn m)" "j < nT ix" "j \<notin> set (candidates ix xq cn m)" for xq cn m c j
    using cb(5)[OF that] by auto
  then show ?thesis using near cb(1,2,4) b by (auto simp: Let_def one_result_def) blast+
qed

theorem suco_search_correct_witness:
  "\<exists>b. suco_search suco_demo 1 [0, 1] 2 NullParams 1 [(0, 0)] suco_stats_reset = Some (Inr b) \<and>
     length (rows b) = 1"
proof -
  have "search_ratios suco_demo NullParams = Inr (1/2, 3/4)"
    by (simp add: search_ratios_def suco_demo_def)
  from suco_search_correct[OF suco_demo_search_ok this schedule_single, of suco_stats_reset]
  show ?thesis by blast
qed


text \<open>C2. The header's claim that the two traversals produce identical results: for every accepted
  pair of ratios, \<open>search_multisequence\<close> (priority queue) returns, and its output rows are those of
  \<open>search\<close> (Dynamic Activation) with the same ratios and any selector (which it ignores), under any two
  schedules, ties included.\<close>

theorem suco_multisequence_equals_search:
  assumes "search_ok ix n x k" "0 < cr" "cr < 1" "0 < cdr" "cdr < 1"
    "schedule n nthreads sched" "schedule n nthreads' sched'"
  shows "\<exists>b b'. suco_search_multisequence ix n x k cr cdr nthreads sched g = Some (Inr b) \<and>
    suco_search ix n x k (SuCoParams sel cr cdr) nthreads' sched' g' = Some (Inr b') \<and> rows b = rows b'"
proof -
  have "search_ratios ix (SuCoParams sel cr cdr) = Inr (cr, cdr)" using assms by (simp add: search_ratios_def)
  from suco_search_rows[OF assms(1) this assms(7), of g'] obtain b' where
    "suco_search ix n x k (SuCoParams sel cr cdr) nthreads' sched' g' = Some (Inr b')"
    "rows b' = map (\<lambda>i. one_result ix (nat k) cr cdr (row (dimd ix) i x)) [0..<n]" by blast
  moreover from suco_search_multisequence_rows[OF assms(1) _ _ _ _ assms(6), of cr cdr g] assms(2-5) obtain b where
    "suco_search_multisequence ix n x k cr cdr nthreads sched g = Some (Inr b)"
    "rows b = map (\<lambda>i. one_result ix (nat k) cr cdr (row (dimd ix) i x)) [0..<n]"
    by (auto simp: override_ratio_def)
  ultimately show ?thesis by metis
qed

theorem suco_multisequence_equals_search_witness:
  "\<exists>b b'. suco_search_multisequence suco_demo 1 [0, 1] 2 (1/3) (1/4) 1 [(0, 0)] suco_stats_reset = Some (Inr b) \<and>
    suco_search suco_demo 1 [0, 1] 2 (SuCoParams None (1/3) (1/4)) 1 [(0, 0)] suco_stats_reset = Some (Inr b') \<and>
    rows b = rows b'"
  by (rule suco_multisequence_equals_search[OF suco_demo_search_ok _ _ _ _ schedule_single schedule_single])
    simp_all

text \<open>C3. \<open>get_sc_scores\<close> returns, for each id, the number of subspaces in which it collides with the
  query: the \<open>uint8_t\<close> counters never wrap, and no score exceeds the number of subspaces.\<close>

theorem suco_sc_scores_exact:
  assumes "suco_inv ix" "su_is_trained ix" "0 < su_ntotal ix" "query_in_range ix xq" "0 < cr" "cr < 1"
  shows "get_sc_scores ix xq cr = Inr (map (\<lambda>v. int (sc_score ix xq (collision_num ix cr) v)) [0..<nT ix]) \<and>
    (\<forall>v < nT ix. sc_score ix xq (collision_num ix cr) v \<le> nS ix) \<and>
    (\<forall>s < nS ix. distinct (colliding ix xq (collision_num ix cr) s))"
proof -
  have "uint (of_nat (sc_score ix xq cn v) :: 8 word) = int (sc_score ix xq cn v)" for cn v
    using arg_cong[OF unat_sc_score[OF assms(1), of xq cn v], of int] by simp
  then show ?thesis using assms colliding_distinct(1)[OF assms(1,2)]
    by (auto simp: get_sc_scores_def collide_all(1) sc_scores_def sc_score_le)
qed

theorem suco_sc_scores_exact_witness:
  "get_sc_scores suco_demo [0, 1] (1/2)
    = Inr (map (\<lambda>v. int (sc_score suco_demo [0, 1] (collision_num suco_demo (1/2)) v)) [0..<nT suco_demo])"
  using suco_sc_scores_exact[OF suco_demo_inv _ _ suco_demo_query, of "1/2"]
  by (simp add: suco_demo_def)

section \<open>Traversal of one inverted multi-index\<close>

text \<open>C4. Dynamic Activation visits the cells of the inverted multi-index in ascending order of the
  combined distance (ties by row, then column), counts every id of a visited bucket once, and stops
  after the first cell at which the collision quota is met; the multi-sequence traversal is the same
  function and always returns. The hypothesis on \<open>FLT_MAX\<close> is what the code's marker of an exhausted
  row relies on.\<close>

theorem dynamic_activate_ascending:
  assumes "0 < nc" "ascending_order nc d1 i1" "ascending_order nc d2 i2"
    and "\<forall>i < nc. \<forall>j < nc. combined d1 i1 d2 i2 i j < FLT_MAX"
  shows "dynamic_activate nc d1 i1 d2 i2 ls cnum sc
      = snd (visit_cells nc i1 i2 ls cnum (cell_order nc (combined d1 i1 d2 i2)) 0 sc) \<and>
    dynamic_activate_multisequence nc d1 i1 d2 i2 ls cnum sc
      = Some (dynamic_activate nc d1 i1 d2 i2 ls cnum sc) \<and>
    sorted (cell_order nc (combined d1 i1 d2 i2)) \<and> distinct (cell_order nc (combined d1 i1 d2 i2))"
  using dynamic_activate_visit[OF assms(1-3)] dynamic_activate_multisequence_visit[OF assms(1-3)] assms(4)
  by (simp add: distinct_cell_order)

theorem dynamic_activate_ascending_witness:
  "dynamic_activate_multisequence 2 [3, 1] [1, 0] [0, 2] [0, 1] [[0], [1], [2], [3]] 2 [0, 0, 0, 0]
    = Some (dynamic_activate 2 [3, 1] [1, 0] [0, 2] [0, 1] [[0], [1], [2], [3]] 2 [0, 0, 0, 0])"
proof -
  have "ascending_order 2 [3, 1] [1, 0]" "ascending_order 2 [0, 2] [0, 1]"
    by (auto simp: ascending_order_def)
  moreover have "\<forall>i < 2. \<forall>j < 2. combined [3, 1] [1, 0] [0, 2] [0, 1] i j < FLT_MAX"
    by (simp add: numeral_2_eq_2 All_less_Suc combined_def FLT_MAX_def)
  ultimately show ?thesis
    using dynamic_activate_ascending[of 2 "[3, 1]" "[1, 0]" "[0, 2]" "[0, 1]"] by simp
qed

section \<open>The index over its lifetime\<close>

text \<open>The indexes that a client can reach: construct, train (also with an exception in the middle),
  add, reset. \<open>km\<close> is the clustering.\<close>

inductive suco_reachable :: "kmeans \<Rightarrow> suco \<Rightarrow> bool" for km where
  construct: "IndexSuCo d ns nc cr cdr niter = Inr ix \<Longrightarrow> suco_reachable km ix"
| reset: "suco_reachable km ix \<Longrightarrow> suco_reachable km (suco_reset ix)"
| train: "suco_reachable km ix \<Longrightarrow> suco_train km n x ix = (ix', e) \<Longrightarrow> suco_reachable km ix'"
| add: "suco_reachable km ix \<Longrightarrow> suco_add n x ix = Inr ix' \<Longrightarrow> nat n * dimd ix \<le> length x \<Longrightarrow>
    suco_reachable km ix'"

definition kmeans_sized :: "kmeans \<Rightarrow> bool" where
  "kmeans_sized km \<longleftrightarrow> (\<forall>dm nc niter seed data cs. km dm nc niter seed data = Inr cs \<longrightarrow> length cs = nc * dm)"

text \<open>C5. In every reachable index the derived dimensions are consistent, the centroid table and the
  vector store have the size the accesses assume, and each subspace's buckets hold every stored id
  exactly once. The clustering is a parameter of which only the size of its result is used.\<close>

theorem suco_reachable_inv:
  assumes "suco_reachable km ix" "kmeans_sized km"
  shows "suco_inv ix"
  using assms
proof (induction rule: suco_reachable.induct)
  case (construct d ns nc cr cdr niter ix)
  then show ?case using suco_inv_constructor by blast
next
  case (reset ix)
  then show ?case using suco_inv_reset by blast
next
  case (train ix n x ix' e)
  then show ?case using suco_inv_train[of ix km n x ix' e] by (auto simp: kmeans_sized_def)
next
  case (add ix n x ix')
  then show ?case using suco_inv_add by blast
qed

definition flat_kmeans :: kmeans where
  "flat_kmeans dm nc niter seed data = Inr (replicate (nc * dm) 0)"

definition suco_demo_small :: suco where
  "suco_demo_small =
     \<lparr> su_d = 2, su_ntotal = 0, su_is_trained = False,
       nsubspaces = 1, ncentroids_half = 2, collision_ratio = 1/2, candidate_ratio = 1/2,
       su_niter = 25, subspace_dim = 2, half_dim = 1, centroids = [], inv_lists = [], su_xb = [] \<rparr>"

theorem suco_reachable_inv_witness:
  "suco_inv (fst (suco_train flat_kmeans 1 [0, 1] suco_demo_small))"
proof -
  have "IndexSuCo 2 1 2 (1/2) (1/2) 25 = Inr suco_demo_small"
    by (simp add: IndexSuCo_def suco_demo_small_def)
  then have "suco_reachable flat_kmeans (fst (suco_train flat_kmeans 1 [0, 1] suco_demo_small))"
    by (metis suco_reachable.construct suco_reachable.train prod.collapse)
  then show ?thesis by (rule suco_reachable_inv) (simp add: kmeans_sized_def flat_kmeans_def)
qed

section \<open>Insertion\<close>

text \<open>C6. A batch whose half vectors all have a centroid closer than \<open>FLT_MAX\<close> is inserted: the ids
  \<open>ntotal..ntotal+n-1\<close> are appended, each in each subspace to the bucket of a nearest centroid of
  either half, no other bucket entry changes, and the raw vectors are appended to the store.\<close>

theorem suco_add_correct:
  assumes "suco_inv ix" "su_is_trained ix" "0 < n" "in_float_range ix (nat n) x"
    "nat n * dimd ix \<le> length x"
  shows "\<exists>ix'. suco_add n x ix = Inr ix' \<and> suco_inv ix' \<and> su_ntotal ix' = su_ntotal ix + n \<and>
    su_xb ix' = su_xb ix @ take (nat n * dimd ix) x \<and>
    (\<forall>s < nS ix. \<exists>a1 a2.
      (\<forall>i < nat n. a1 i < nC ix \<and> a2 i < nC ix \<and>
        (\<forall>j < nC ix. half_dist ix (nat n) x s 0 i (a1 i) \<le> half_dist ix (nat n) x s 0 i j) \<and>
        (\<forall>j < nC ix. half_dist ix (nat n) x s 1 i (a2 i) \<le> half_dist ix (nat n) x s 1 i j)) \<and>
      (\<forall>c < nC ix * nC ix. inv_lists ix' ! s ! c = inv_lists ix ! s ! c @
        map (\<lambda>i. nT ix + i) (filter (\<lambda>i. a1 i * nC ix + a2 i = c) [0..<nat n])))"
proof -
  from suco_add_succeeds[OF assms(1-4)] obtain ix' where a: "suco_add n x ix = Inr ix'" by blast
  from a have fields: "su_ntotal ix' = su_ntotal ix + n" "su_xb ix' = su_xb ix @ take (nat n * dimd ix) x"
    by (auto elim!: suco_add_Inr)
  have cells: "\<exists>a1 a2. (\<forall>i < nat n. a1 i < nC ix \<and> a2 i < nC ix \<and>
        (\<forall>j < nC ix. half_dist ix (nat n) x s 0 i (a1 i) \<le> half_dist ix (nat n) x s 0 i j) \<and>
        (\<forall>j < nC ix. half_dist ix (nat n) x s 1 i (a2 i) \<le> half_dist ix (nat n) x s 1 i j)) \<and>
      (\<forall>c < nC ix * nC ix. inv_lists ix' ! s ! c = inv_lists ix ! s ! c @
        map (\<lambda>i. nT ix + i) (filter (\<lambda>i. a1 i * nC ix + a2 i = c) [0..<nat n]))" if s: "s < nS ix" for s
  proof -
    have pair_eq: "a * int m + b = int c \<longleftrightarrow> p * m + q = c" if "a = int p" "b = int q" for a b m p q c
      using that by (simp flip: of_nat_mult of_nat_add)
    let ?l = "\<lambda>half i. nat (half_assign ix (nat n) x s half ! i)"
    have lab: "half_assign ix (nat n) x s half ! i = int (?l half i) \<and> ?l half i < nC ix \<and>
        (\<forall>j < nC ix. half_dist ix (nat n) x s half i (?l half i) \<le> half_dist ix (nat n) x s half i j)"
      if "half < 2" "i < nat n" for half i
      using half_assign_nearest[OF assms(4) s that] by fastforce
    have "inv_lists ix' ! s ! c = inv_lists ix ! s ! c @
        map (\<lambda>i. nT ix + i) (filter (\<lambda>i. ?l 0 i * nC ix + ?l 1 i = c) [0..<nat n])"
      if c: "c < nC ix * nC ix" for c
    proof -
      have len: "length (half_assign ix (nat n) x s 0) = length (half_assign ix (nat n) x s 1)" by simp
      have "c < length (inv_lists ix ! s)"
        using suco_inv_trained(5)[OF assms(1,2) s] c by (simp add: imi_ok_def)
      note cell = push_ids_cell[OF len suco_add_cells[OF assms(1) a s] this]
      have "half_assign ix (nat n) x s 0 ! i * int (nC ix) + half_assign ix (nat n) x s 1 ! i = int c
          \<longleftrightarrow> ?l 0 i * nC ix + ?l 1 i = c" if "i < nat n" for i
        using lab[OF _ that, of 0] lab[OF _ that, of 1] by (intro pair_eq) simp_all
      then have "filter (\<lambda>i. half_assign ix (nat n) x s 0 ! i * int (nC ix) + half_assign ix (nat n) x s 1 ! i = int c)
          [0..<nat n] = filter (\<lambda>i. ?l 0 i * nC ix + ?l 1 i = c) [0..<nat n]"
        by (intro filter_cong) auto
      with cell show ?thesis by (simp only: length_half_assign)
    qed
    then show ?thesis using lab[of 0] lab[of 1] by (intro exI[of _ "?l 0"] exI[of _ "?l 1"]) auto
  qed
  show ?thesis using a fields cells suco_inv_add[OF assms(1) a assms(5)] by blast
qed


lemma suco_demo_add_range: "in_float_range suco_demo 1 [1, 0]"
  by (simp add: in_float_range_def half_dist_def gather_half_def suco_demo_def slice_def
      FLT_MAX_def numeral_2_eq_2 All_less_Suc Ex_less_Suc)

theorem suco_add_correct_witness: "\<exists>ix'. suco_add 1 [1, 0] suco_demo = Inr ix' \<and> su_ntotal ix' = 4"
proof -
  have "\<exists>ix'. suco_add 1 [1, 0] suco_demo = Inr ix' \<and> suco_inv ix' \<and> su_ntotal ix' = su_ntotal suco_demo + 1"
    using suco_add_correct[OF suco_demo_inv _ _ _ _, of 1 "[1, 0]"] suco_demo_add_range
    by (auto simp: suco_demo_def)
  then show ?thesis by (auto simp: suco_demo_def)
qed

section \<open>Errors\<close>

text \<open>On an index in which the invariant holds, \<open>search\<close> answers exactly when the index is trained,
  \<open>0 < k \<le> ntotal\<close>, and the parameter object is absent or a \<open>SearchParametersSuCo\<close> whose positive
  overrides are below one; every other call ends in a \<open>FaissException\<close> and runs no query.\<close>

theorem suco_search_accepts_iff:
  assumes "suco_inv ix" "\<forall>i < n. query_in_range ix (row (dimd ix) i x)" "schedule n nthreads sched"
  shows "((\<exists>b. suco_search ix n x k params nthreads sched g = Some (Inr b)) \<longleftrightarrow>
      su_is_trained ix \<and> 0 < k \<and> k \<le> su_ntotal ix \<and>
      (case params of NullParams \<Rightarrow> True | ForeignParams \<Rightarrow> False
        | SuCoParams sel cr cdr \<Rightarrow> \<not> 1 \<le> cr \<and> \<not> 1 \<le> cdr)) \<and>
     ((\<exists>b. suco_search ix n x k params nthreads sched g = Some (Inr b)) \<or>
      (\<exists>msg. suco_search ix n x k params nthreads sched g = Some (Inl (FaissException msg))))"
proof -
  have ratios: "(\<exists>p. search_ratios ix params = Inr p) \<longleftrightarrow>
      (case params of NullParams \<Rightarrow> True | ForeignParams \<Rightarrow> False
        | SuCoParams sel cr cdr \<Rightarrow> \<not> 1 \<le> cr \<and> \<not> 1 \<le> cdr)"
    "(\<exists>p. search_ratios ix params = Inr p) \<or> (\<exists>msg. search_ratios ix params = Inl (FaissException msg))"
    by (cases params; auto simp: search_ratios_def throw_unless_def)+
  have run: "\<exists>b. suco_search ix n x k params nthreads sched g = Some (Inr b)"
    if "su_is_trained ix" "0 < k" "k \<le> su_ntotal ix" "search_ratios ix params = Inr p" for p
    using suco_search_rows[of ix n x k params "fst p" "snd p" nthreads sched g] that assms
    by (auto simp: search_ok_def)
  have "(\<exists>b. suco_search ix n x k params nthreads sched g = Some (Inr b)) \<longleftrightarrow>
      su_is_trained ix \<and> 0 < k \<and> k \<le> su_ntotal ix \<and>
      (case params of NullParams \<Rightarrow> True | ForeignParams \<Rightarrow> False
        | SuCoParams sel cr cdr \<Rightarrow> \<not> 1 \<le> cr \<and> \<not> 1 \<le> cdr)"
    unfolding ratios(1)[symmetric] using run
    by (auto simp: suco_search_def split: sum.splits if_splits)
  moreover have "(\<exists>b. suco_search ix n x k params nthreads sched g = Some (Inr b)) \<or>
      (\<exists>msg. suco_search ix n x k params nthreads sched g = Some (Inl (FaissException msg)))"
    using ratios(2) run by (auto simp: suco_search_def)
  ultimately show ?thesis by blast
qed

theorem suco_search_accepts_iff_witness:
  "\<exists>b. suco_search suco_demo 1 [0, 1] 2 (SuCoParams None (1/4) 0) 1 [(0, 0)] suco_stats_reset = Some (Inr b)"
  using suco_search_accepts_iff[OF suco_demo_inv _ schedule_single, of "[0, 1]" 2 "SuCoParams None (1/4) 0" suco_stats_reset]
    suco_demo_query by (simp add: suco_demo_row[simplified]) (simp add: suco_demo_def)

section \<open>The reference algorithm\<close>

text \<open>\<open>search_linear\<close> (Algorithm 1, no inverted index) returns for each query the \<open>k\<close> nearest of
  its candidates; the candidates are the \<open>cn\<close> best by the number of subspaces in which a point is
  among the \<open>collision_ratio * ntotal\<close> closest.\<close>

definition linear_score :: "suco \<Rightarrow> float_t list \<Rightarrow> nat \<Rightarrow> nat \<Rightarrow> nat" where
  "linear_score ix xq cnum v = length (filter (\<lambda>s. v \<in> set (linear_hits ix xq cnum s)) [0..<nS ix])"

definition linear_candidates :: "suco \<Rightarrow> float_t list \<Rightarrow> nat \<Rightarrow> nat \<Rightarrow> nat list" where
  "linear_candidates ix xq cnum cn =
     (if cn \<ge> nT ix then [0..<nT ix]
      else select_candidates (nS ix) (nT ix) cn (map (\<lambda>v. of_nat (linear_score ix xq cnum v)) [0..<nT ix]))"

lemma linear_one_result:
  assumes "suco_inv ix" "k \<le> nT ix"
  shows "\<exists>t'. linear_one ix xq k cr cdr t =
    (nearest ix xq k (linear_candidates ix xq (collision_num ix cr) (candidate_num ix k cdr)),
     map (\<lambda>v. of_nat (linear_score ix xq (collision_num ix cr) v)) [0..<nT ix], t') \<and>
    t' = t\<lparr> n_dis_rerank := n_dis_rerank t + min (candidate_num ix k cdr) (nT ix) \<rparr>"
proof -
  let ?cn = "candidate_num ix k cdr" and ?cnum = "collision_num ix cr"
  let ?sc = "map (\<lambda>v. of_nat (linear_score ix xq ?cnum v)) [0..<nT ix] :: 8 word list"
  have le: "linear_score ix xq ?cnum v \<le> nS ix" for v
    unfolding linear_score_def by (rule order_trans[OF length_filter_le]) simp
  have nS: "nS ix \<le> 255" using assms(1) by (auto simp: suco_inv_def suco_shape_def)
  have len: "length (linear_scores ix xq ?cnum [0..<nS ix] (replicate (nT ix) 0)) = nT ix"
    if "0 < nT ix" using linear_scores_nth[of "replicate (nT ix) 0" ix 0 xq ?cnum "[0..<nS ix]"] that by simp
  have len0: "length (linear_scores ix xq ?cnum ss sc) = length sc" for ss sc
    by (induction ss arbitrary: sc) simp_all
  have eq: "map (\<lambda>v. of_nat (min v (nS ix))) (linear_scores ix xq ?cnum [0..<nS ix] (replicate (nT ix) 0)) = ?sc"
    by (rule nth_equalityI) (simp_all add: len0 linear_scores_sum linear_score_def[symmetric] min_absorb1 le)
  have l: "length (linear_candidates ix xq ?cnum ?cn) = min ?cn (nT ix)"
  proof (cases "?cn < nT ix")
    case True
    have "\<forall>i < nT ix. unat (?sc ! i) \<le> nS ix"
      by (auto simp: unat_of_nat take_bit_eq_mod intro: order_trans[OF mod_less_eq_dividend le])
    from select_candidates_exact(1)[OF True this] True show ?thesis by (simp add: linear_candidates_def)
  qed (simp add: linear_candidates_def)
  have k: "k - length (linear_candidates ix xq ?cnum ?cn) = 0"
    using assms(2) candidate_num_ge[of k ix cdr] by (simp add: l)
  have "emit_topk k (linear_candidates ix xq ?cnum ?cn) (map (db_dist ix xq) (linear_candidates ix xq ?cnum ?cn))
      = nearest ix xq k (linear_candidates ix xq ?cnum ?cn)"
    unfolding emit_topk_map nearest_def k by simp
  with l have "rerank ix xq k ?cn ?sc t = (nearest ix xq k (linear_candidates ix xq ?cnum ?cn),
      t\<lparr> n_dis_rerank := n_dis_rerank t + min ?cn (nT ix) \<rparr>)"
    by (auto simp: rerank_def linear_candidates_def Let_def)
  then show ?thesis by (simp add: linear_one_def Let_def eq)
qed

theorem suco_search_linear_correct:
  assumes "suco_inv ix" "su_is_trained ix" "0 < k" "k \<le> su_ntotal ix" "schedule n nthreads sched"
    "0 < override_ratio cro (collision_ratio ix)" "override_ratio cro (collision_ratio ix) < 1"
    "0 < override_ratio cdro (candidate_ratio ix)" "override_ratio cdro (candidate_ratio ix) < 1"
  shows "\<exists>b. suco_search_linear ix n x k cro cdro nthreads sched g = Some (Inr b) \<and>
    rows b = map (\<lambda>i. nearest ix (row (dimd ix) i x) (nat k)
      (linear_candidates ix (row (dimd ix) i x) (collision_num ix (override_ratio cro (collision_ratio ix)))
        (candidate_num ix (nat k) (override_ratio cdro (candidate_ratio ix))))) [0..<n]"
proof -
  let ?cr = "override_ratio cro (collision_ratio ix)" and ?cdr = "override_ratio cdro (candidate_ratio ix)"
  have k: "nat k \<le> nT ix" using assms(4) by (simp add: nat_mono)
  have eq: "suco_search_linear ix n x k cro cdro nthreads sched g =
    run_queries (\<lambda>i buf t. Some (Inr (linear_one ix (row (dimd ix) i x) (nat k) ?cr ?cdr t))) sched
      (batch_init ix n nthreads g)"
    using assms by (simp add: suco_search_linear_def)
  have "\<exists>b. run_queries (\<lambda>i buf t. Some (Inr (linear_one ix (row (dimd ix) i x) (nat k) ?cr ?cdr t))) sched
      (batch_init ix n nthreads g) = Some (Inr b) \<and>
    rows b = map (\<lambda>i. nearest ix (row (dimd ix) i x) (nat k)
      (linear_candidates ix (row (dimd ix) i x) (collision_num ix ?cr) (candidate_num ix (nat k) ?cdr))) [0..<n] \<and>
    glob b = stats_after g (suco_stats_reset\<lparr> n_dis_rerank := n_dis_rerank suco_stats_reset +
      min (candidate_num ix (nat k) ?cdr) (nT ix) \<rparr>) n"
  proof (rule run_queries_batch[OF _ assms(5)])
    fix i buf
    show "\<exists>s. length s = nT ix \<and> Some (Inr (linear_one ix (row (dimd ix) i x) (nat k) ?cr ?cdr suco_stats_reset))
      = Some (Inr (nearest ix (row (dimd ix) i x) (nat k)
      (linear_candidates ix (row (dimd ix) i x) (collision_num ix ?cr) (candidate_num ix (nat k) ?cdr)), s,
       suco_stats_reset\<lparr> n_dis_rerank := n_dis_rerank suco_stats_reset +
        min (candidate_num ix (nat k) ?cdr) (nT ix) \<rparr>))"
      using linear_one_result[OF assms(1) k, of "row (dimd ix) i x" ?cr ?cdr suco_stats_reset] by auto
  qed
  then show ?thesis unfolding eq by blast
qed

theorem suco_search_linear_correct_witness:
  "\<exists>b. suco_search_linear suco_demo 1 [0, 1] 2 (1/3) 0 1 [(0, 0)] suco_stats_reset = Some (Inr b)"
  using suco_search_linear_correct[OF suco_demo_inv _ _ _ schedule_single, of 2 "1/3" 0 "[0, 1]" suco_stats_reset]
  by (auto simp: suco_demo_def override_ratio_def)

end
