(* ===== verification/Io.thy ===== *)
theory Io
  imports Prelude
begin

text \<open>
  The byte streams behind \<open>IOWriter\<close> and \<open>IOReader\<close>: the in-memory \<open>VectorIOWriter\<close> and
  \<open>VectorIOReader\<close> of \<open>faiss/impl/io.cpp\<close>, and the little-endian two's complement layout in which
  the index writers dump integers (\<open>&x, sizeof(x)\<close> on the supported targets). The layout of
  \<open>float\<close> is a parameter, a pair of an encoder and a decoder of four bytes.
\<close>

section \<open>Bytes of integers\<close>

type_synonym byte = "8 word"

fun le_enc :: "nat \<Rightarrow> int \<Rightarrow> byte list" where
  "le_enc 0 v = []"
| "le_enc (Suc n) v = word_of_int v # le_enc n (v div 256)"

fun le_dec :: "byte list \<Rightarrow> int" where
  "le_dec [] = 0"
| "le_dec (b # bs) = uint b + 256 * le_dec bs"

definition sle_dec :: "byte list \<Rightarrow> int" where
  "sle_dec bs =
     (let u = le_dec bs
      in if 2 * u \<ge> 256 ^ length bs then u - 256 ^ length bs else u)"

lemma length_le_enc [simp]: "length (le_enc n v) = n"
  by (induction n arbitrary: v) simp_all

lemma le_dec_enc: "le_dec (le_enc n v) = v mod 256 ^ n"
proof (induction n arbitrary: v)
  case (Suc n)
  have "uint (word_of_int v :: byte) = v mod 256" by (simp add: uint_word_of_int)
  then have "le_dec (le_enc (Suc n) v) = v mod 256 + 256 * (v div 256 mod 256 ^ n)"
    by (simp add: Suc)
  also have "\<dots> = v mod (256 * 256 ^ n)" by (simp add: zmod_zmult2_eq)
  finally show ?case by simp
qed simp

lemma le_dec_enc_unsigned: "0 \<le> v \<Longrightarrow> v < 256 ^ n \<Longrightarrow> le_dec (le_enc n v) = v"
  by (simp add: le_dec_enc)

lemma sle_dec_enc: "- (256 ^ n) \<le> 2 * v \<Longrightarrow> 2 * v < 256 ^ n \<Longrightarrow> sle_dec (le_enc n v) = v"
proof (cases "0 \<le> v")
  case True
  assume "2 * v < 256 ^ n"
  with True show ?thesis by (simp add: sle_dec_def le_dec_enc)
next
  case False
  assume a: "- (256 ^ n) \<le> 2 * v" "2 * v < 256 ^ n"
  have "v mod 256 ^ n = v + 256 ^ n"
    using False a by (intro int_mod_pos_eq[where q = "-1"]) auto
  with a False show ?thesis by (simp add: sle_dec_def le_dec_enc)
qed

text \<open>The ranges of the field types.\<close>

definition fits_i32 :: "int \<Rightarrow> bool" where "fits_i32 v \<longleftrightarrow> - (2 ^ 31) \<le> v \<and> v < 2 ^ 31"
definition fits_i64 :: "int \<Rightarrow> bool" where "fits_i64 v \<longleftrightarrow> - (2 ^ 63) \<le> v \<and> v < 2 ^ 63"
definition fits_u64 :: "nat \<Rightarrow> bool" where "fits_u64 v \<longleftrightarrow> int v < 2 ^ 64"

lemma sle_dec_i32: "fits_i32 v \<Longrightarrow> sle_dec (le_enc 4 v) = v"
  by (rule sle_dec_enc) (simp_all add: fits_i32_def)

lemma sle_dec_i64: "fits_i64 v \<Longrightarrow> sle_dec (le_enc 8 v) = v"
  by (rule sle_dec_enc) (simp_all add: fits_i64_def)

lemma le_dec_u64: "fits_u64 v \<Longrightarrow> nat (le_dec (le_enc 8 (int v))) = v"
  by (subst le_dec_enc_unsigned) (simp_all add: fits_u64_def)

section \<open>VectorIOWriter and VectorIOReader\<close>

text \<open>\<open>VectorIOWriter::operator()\<close>: the bytes of the items are appended.\<close>

definition vwrite :: "byte list \<Rightarrow> byte list \<Rightarrow> byte list" where
  "vwrite bytes w_data = w_data @ bytes"

record vreader =
  r_data :: "byte list"
  r_rp :: nat

text \<open>\<open>VectorIOReader::operator()\<close>: the item count returned, the bytes copied, the advanced reader.\<close>

definition vread :: "nat \<Rightarrow> nat \<Rightarrow> vreader \<Rightarrow> nat \<times> byte list \<times> vreader" where
  "vread sz nitems r =
     (if r_rp r \<ge> length (r_data r) then (0, [], r)
      else let nremain = (length (r_data r) - r_rp r) div sz;
               nit = (if nremain < nitems then nremain else nitems)
           in (nit, slice (r_rp r) (sz * nit) (r_data r), r\<lparr> r_rp := r_rp r + sz * nit \<rparr>))"

text \<open>The unread part of the stream.\<close>

definition unread :: "vreader \<Rightarrow> byte list" where
  "unread r = drop (r_rp r) (r_data r)"

definition open_reader :: "byte list \<Rightarrow> vreader" where
  "open_reader bs = \<lparr> r_data = bs, r_rp = 0 \<rparr>"

lemma unread_open [simp]: "unread (open_reader bs) = bs"
  by (simp add: unread_def open_reader_def)

lemma vread_exact:
  assumes "unread r = bs @ rest" "length bs = sz * n" "0 < sz"
  obtains r' where "vread sz n r = (n, bs, r')" "unread r' = rest"
proof (cases "r_rp r \<ge> length (r_data r)")
  case True
  with assms(1) have "bs = []" "rest = []" by (auto simp: unread_def)
  with assms(2,3) have "n = 0" by simp
  with True that[of r] \<open>bs = []\<close> \<open>rest = []\<close> show ?thesis by (simp add: vread_def unread_def)
next
  case False
  have l: "length (r_data r) - r_rp r = sz * n + length rest"
    using arg_cong[OF assms(1), of length] assms(2) by (simp add: unread_def)
  have "n \<le> (sz * n + length rest) div sz" using assms(3) by simp
  moreover have "slice (r_rp r) (sz * n) (r_data r) = bs"
    using assms(1,2) by (simp add: slice_def unread_def)
  moreover have "unread (r\<lparr> r_rp := r_rp r + sz * n \<rparr>) = rest"
    using arg_cong[OF assms(1), of "drop (sz * n)"] assms(2) by (simp add: unread_def add.commute)
  ultimately show ?thesis using False that by (simp add: vread_def l)
qed

lemma vread_count: "fst (vread sz n r) \<le> n"
  by (simp add: vread_def Let_def)

text \<open>A reader of a value: a fault, or the value and the advanced reader.\<close>

type_synonym 'a parser = "vreader \<Rightarrow> ('a \<times> vreader) result"

definition bind_parser :: "'a parser \<Rightarrow> ('a \<Rightarrow> 'b parser) \<Rightarrow> 'b parser" where
  "bind_parser p k = (\<lambda>r. bind_result (p r) (\<lambda>(x, r'). k x r'))"

definition check_parser :: "bool \<Rightarrow> string \<Rightarrow> 'a parser \<Rightarrow> 'a parser" where
  "check_parser c msg p = (\<lambda>r. throw_unless c msg (p r))"

definition return_parser :: "'a \<Rightarrow> 'a parser" where
  "return_parser x = (\<lambda>r. Inr (x, r))"

text \<open>\<open>f(&x, sizeof(x), 1)\<close> with the returned count ignored: at the end of the stream the variable
  keeps the value \<open>old\<close> that it had (any value, when it was not initialised).\<close>

definition read1_unchecked :: "nat \<Rightarrow> (byte list \<Rightarrow> 'a) \<Rightarrow> 'a \<Rightarrow> 'a parser" where
  "read1_unchecked sz dec old =
     (\<lambda>r. case vread sz 1 r of (n, bs, r') \<Rightarrow> Inr (if n = 1 then dec bs else old, r'))"

text \<open>The same with the count checked.\<close>

definition read1_checked :: "string \<Rightarrow> nat \<Rightarrow> (byte list \<Rightarrow> 'a) \<Rightarrow> 'a parser" where
  "read1_checked msg sz dec =
     (\<lambda>r. case vread sz 1 r of (n, bs, r') \<Rightarrow> throw_unless (n = 1) msg (Inr (dec bs, r')))"

text \<open>An array of \<open>n\<close> items of \<open>sz\<close> bytes, count checked.\<close>

fun split_items :: "nat \<Rightarrow> nat \<Rightarrow> byte list \<Rightarrow> byte list list" where
  "split_items sz 0 bs = []"
| "split_items sz (Suc n) bs = take sz bs # split_items sz n (drop sz bs)"

definition read_array_checked :: "string \<Rightarrow> nat \<Rightarrow> (byte list \<Rightarrow> 'a) \<Rightarrow> nat \<Rightarrow> 'a list parser" where
  "read_array_checked msg sz dec n =
     (\<lambda>r. case vread sz n r of (m, bs, r') \<Rightarrow>
        throw_unless (m = n) msg (Inr (map dec (split_items sz n bs), r')))"

text \<open>A read into a vector that was resized to \<open>n\<close> items before: above \<open>max_size\<close>, that is \<open>2 ^ 63 - 1\<close> bytes,
  \<open>resize\<close> throws a \<open>std::length_error\<close>. No stream holds so many bytes, so the exception takes the place of the
  one that the read would throw. Memory for smaller vectors is assumed to be there (no \<open>std::bad_alloc\<close>).\<close>

definition exceeds_max_size :: "nat \<Rightarrow> nat \<Rightarrow> bool" where
  "exceeds_max_size sz n \<longleftrightarrow> 2 ^ 63 \<le> n * sz"

definition resized_parser :: "nat \<Rightarrow> nat \<Rightarrow> 'a parser \<Rightarrow> 'a parser" where
  "resized_parser sz n p =
     (\<lambda>r. case p r of Inr v \<Rightarrow> Inr v
      | Inl e \<Rightarrow> Inl (if exceeds_max_size sz n then StdException ''vector::_M_default_append'' else e))"

text \<open>Fields and ids that the model keeps as natural numbers. The code also takes negative ones from a corrupt
  stream, for which the model has no value.\<close>

definition nat_fields :: "int list \<Rightarrow> 'a parser \<Rightarrow> 'a parser" where
  "nat_fields vs p = (if list_all (\<lambda>v. 0 \<le> v) vs then p else (\<lambda>r. Inl NotModelled))"

definition nat_ids :: "int list \<Rightarrow> nat list parser" where
  "nat_ids ids = nat_fields ids (return_parser (map nat ids))"

section \<open>Parsers that read back what was written\<close>

text \<open>Parser \<open>p\<close> reads the bytes \<open>bs\<close> as the value \<open>v\<close> in front of any rest.\<close>

definition reads :: "'a parser \<Rightarrow> byte list \<Rightarrow> 'a \<Rightarrow> bool" where
  "reads p bs v \<longleftrightarrow> (\<forall>r rest. unread r = bs @ rest \<longrightarrow> (\<exists>r'. p r = Inr (v, r') \<and> unread r' = rest))"

named_theorems reads_intros

lemma reads_open: "reads p bs v \<Longrightarrow> \<exists>r'. p (open_reader bs) = Inr (v, r') \<and> unread r' = []"
  by (simp add: reads_def)

lemma reads_return [reads_intros]: "reads (return_parser v) [] v"
  by (auto simp: reads_def return_parser_def)

lemma reads_bind [reads_intros]: "reads p bs v \<Longrightarrow> reads (k v) bs' w \<Longrightarrow> reads (bind_parser p k) (bs @ bs') w"
  unfolding reads_def bind_parser_def by (metis append_assoc bind_result_Inr case_prod_conv)

lemma reads_bind_return [reads_intros]: "reads p bs v \<Longrightarrow> reads (bind_parser p (\<lambda>x. return_parser (f x))) bs (f v)"
  using reads_bind[OF _ reads_return, of p bs v] by fastforce

lemma reads_check [reads_intros]: "c \<Longrightarrow> reads p bs v \<Longrightarrow> reads (check_parser c msg p) bs v"
  by (auto simp: reads_def check_parser_def)

lemma reads_read1_unchecked:
  assumes "length bs = sz" "0 < sz" "dec bs = v"
  shows "reads (read1_unchecked sz dec old) bs v"
  unfolding reads_def
proof (intro allI impI)
  fix r rest assume "unread r = bs @ rest"
  from vread_exact[OF this, of sz 1] assms obtain r' where "vread sz 1 r = (1, bs, r')" "unread r' = rest"
    by auto
  then show "\<exists>r'. read1_unchecked sz dec old r = Inr (v, r') \<and> unread r' = rest"
    using assms(3) by (simp add: read1_unchecked_def)
qed

lemma reads_read1_checked:
  assumes "length bs = sz" "0 < sz" "dec bs = v"
  shows "reads (read1_checked msg sz dec) bs v"
  unfolding reads_def
proof (intro allI impI)
  fix r rest assume "unread r = bs @ rest"
  from vread_exact[OF this, of sz 1] assms obtain r' where "vread sz 1 r = (1, bs, r')" "unread r' = rest"
    by auto
  then show "\<exists>r'. read1_checked msg sz dec r = Inr (v, r') \<and> unread r' = rest"
    using assms(3) by (simp add: read1_checked_def)
qed

lemma split_items_concat:
  "\<forall>x \<in> set xs. length (enc x) = sz \<Longrightarrow> split_items sz (length xs) (concat (map enc xs)) = map enc xs"
  by (induction xs) simp_all

lemma length_concat_items: "\<forall>x \<in> set xs. length (enc x) = sz \<Longrightarrow> length (concat (map enc xs)) = sz * length xs"
  by (induction xs) simp_all

lemma reads_array:
  assumes "\<forall>x \<in> set xs. length (enc x) = sz \<and> dec (enc x) = x" "0 < sz" "n = length xs"
  shows "reads (read_array_checked msg sz dec n) (concat (map enc xs)) xs"
  unfolding reads_def
proof (intro allI impI)
  fix r rest assume u: "unread r = concat (map enc xs) @ rest"
  have len: "length (concat (map enc xs)) = sz * n" using assms length_concat_items[of xs enc sz] by simp
  from vread_exact[OF u len assms(2)] obtain r' where "vread sz n r = (n, concat (map enc xs), r')" "unread r' = rest" .
  moreover have "map dec (split_items sz n (concat (map enc xs))) = xs"
    using assms split_items_concat[of xs enc sz] by (simp add: map_idI)
  ultimately show "\<exists>r'. read_array_checked msg sz dec n r = Inr (xs, r') \<and> unread r' = rest"
    by (simp add: read_array_checked_def)
qed

lemma reads_resized: "reads p bs v \<Longrightarrow> reads (resized_parser sz n p) bs v"
  unfolding reads_def resized_parser_def by fastforce

lemma nat_fields_nonneg [simp]: "list_all (\<lambda>v. 0 \<le> v) vs \<Longrightarrow> nat_fields vs p = p"
  by (simp add: nat_fields_def)

lemma nat_fields_Inr: "nat_fields vs p r = Inr y \<longleftrightarrow> list_all (\<lambda>v. 0 \<le> v) vs \<and> p r = Inr y"
  by (simp add: nat_fields_def)

lemma nat_ids_int [simp]: "nat_ids (map int ids) r = Inr (ids, r)"
  by (simp add: nat_ids_def return_parser_def list_all_iff comp_def)

lemma reads_nat_ids: "reads p bs (map int ids) \<Longrightarrow> reads (bind_parser p nat_ids) bs ids"
  unfolding reads_def bind_parser_def by fastforce

text \<open>A loop of parsers.\<close>

fun parse_list :: "'a parser list \<Rightarrow> 'a list parser" where
  "parse_list [] = return_parser []"
| "parse_list (p # ps) = bind_parser p (\<lambda>x. bind_parser (parse_list ps) (\<lambda>xs. return_parser (x # xs)))"

lemma reads_parse_list:
  "length ps = length vs \<Longrightarrow> \<forall>i < length vs. reads (ps ! i) (enc (vs ! i)) (vs ! i) \<Longrightarrow>
    reads (parse_list ps) (concat (map enc vs)) vs"
proof (induction ps vs rule: list_induct2)
  case (Cons p ps v vs)
  have "reads p (enc v) v" using Cons.prems by force
  moreover have "reads (parse_list ps) (concat (map enc vs)) vs" using Cons by force
  ultimately show ?case
    using reads_bind[OF _ reads_bind[OF _ reads_return], of p "enc v" v] by simp
qed (simp add: reads_return)

section \<open>The layout of float\<close>

type_synonym float_codec = "(float_t \<Rightarrow> byte list) \<times> (byte list \<Rightarrow> float_t)"

text \<open>The values \<open>S\<close> are stored in four bytes without loss.\<close>

definition codec_ok :: "float_codec \<Rightarrow> float_t set \<Rightarrow> bool" where
  "codec_ok fc S \<longleftrightarrow> (\<forall>x \<in> S. length (fst fc x) = 4 \<and> snd fc (fst fc x) = x)"

end
