(* ===== verification/SuCoIO.thy ===== *)
theory SuCoIO
  imports SuCoProps Io
begin

text \<open>
  \<open>IndexSuCo::write_index\<close> and \<open>IndexSuCo::read_index\<close> (version 3 of the binary format) at the
  level of bytes.
\<close>

section \<open>Writing\<close>

definition SUCO_MAGIC :: int where "SUCO_MAGIC = 0x5375436F"

text \<open>One bucket: its size as \<open>uint64_t\<close>, then its ids as \<open>int64_t\<close>.\<close>

definition enc_bucket :: "nat list \<Rightarrow> byte list" where
  "enc_bucket ids = le_enc 8 (int (length ids)) @ concat (map (\<lambda>i. le_enc 8 (int i)) ids)"

definition suco_header :: "float_codec \<Rightarrow> suco \<Rightarrow> byte list" where
  "suco_header fc ix =
     le_enc 4 SUCO_MAGIC @ le_enc 4 3 @ le_enc 8 (su_d ix) @ le_enc 4 (nsubspaces ix) @
     le_enc 4 (ncentroids_half ix) @ fst fc (collision_ratio ix) @ fst fc (candidate_ratio ix) @
     le_enc 4 (su_niter ix) @ le_enc 8 (su_ntotal ix)"

text \<open>The loop over the subspaces, with the check of the bucket count before each table.\<close>

fun write_subspaces :: "nat \<Rightarrow> nat list list option list \<Rightarrow> byte list \<Rightarrow> byte list result" where
  "write_subspaces nbuckets [] w = Inr w"
| "write_subspaces nbuckets (l # ls) w =
     throw_unless (case l of None \<Rightarrow> True | Some t \<Rightarrow> length t = nbuckets)
       ''IndexSuCo::write_index: inv_lists bucket count mismatch''
       (write_subspaces nbuckets ls
         (vwrite (case l of None \<Rightarrow> concat (replicate nbuckets (le_enc 8 0))
                          | Some t \<Rightarrow> concat (map enc_bucket t)) w))"

definition suco_write_index :: "float_codec \<Rightarrow> suco \<Rightarrow> byte list \<Rightarrow> byte list result" where
  "suco_write_index fc ix w =
     throw_unless (su_is_trained ix) ''IndexSuCo: cannot write untrained index''
    (throw_unless (su_ntotal ix = 0 \<or> length (inv_lists ix) = nS ix)
       ''IndexSuCo::write_index: inv_lists size mismatch''
      (let w1 = vwrite (suco_header fc ix) w;
           w2 = vwrite (concat (map (fst fc) (take (nS ix * 2 * nC ix * halfd ix) (centroids ix)))) w1
       in bind_result
            (write_subspaces (nC ix * nC ix)
              (if length (inv_lists ix) = nS ix then map Some (inv_lists ix)
               else replicate (nS ix) None) w2)
            (\<lambda>w3. Inr (vwrite (concat (map (fst fc) (su_xb ix)))
                         (vwrite (le_enc 8 (int (length (su_xb ix)))) w3)))))"

section \<open>Reading\<close>

text \<open>\<open>old\<close> is the index object before the call and \<open>junk\<close> the content of the uninitialised locals:
  the nine header reads do not check for the end of the stream. The state in which an exception
  leaves the object is not modelled, nor a lack of memory. A negative id in a bucket gives \<open>NotModelled\<close>.\<close>

definition read_bucket :: "nat list parser" where
  "read_bucket =
     bind_parser (read1_checked ''IndexSuCo::read_index: unexpected EOF reading bucket size'' 8 (\<lambda>b. nat (le_dec b)))
       (\<lambda>nids. if nids = 0 then return_parser []
               else bind_parser (resized_parser 8 nids
                      (read_array_checked ''IndexSuCo::read_index: unexpected EOF reading bucket'' 8 sle_dec nids)) nat_ids)"

definition suco_read_body :: "float_codec \<Rightarrow> suco \<Rightarrow> suco parser" where
  "suco_read_body fc ix =
    bind_parser (resized_parser 4 (nS ix * 2 * nC ix * halfd ix)
        (read_array_checked ''IndexSuCo::read_index: unexpected EOF reading centroids'' 4 (snd fc)
          (nS ix * 2 * nC ix * halfd ix))) (\<lambda>cents.
    bind_parser (parse_list (replicate (nS ix) (parse_list (replicate (nC ix * nC ix) read_bucket)))) (\<lambda>ils.
    bind_parser (read1_checked ''IndexSuCo::read_index: unexpected EOF reading vector count'' 8 (\<lambda>b. nat (le_dec b))) (\<lambda>nxb.
    bind_parser (if nxb = 0 then return_parser []
                 else resized_parser 4 nxb
                        (read_array_checked ''IndexSuCo::read_index: unexpected EOF reading vectors'' 4 (snd fc) nxb)) (\<lambda>xb.
      return_parser (ix\<lparr> centroids := cents, inv_lists := ils, su_xb := xb, su_is_trained := True \<rparr>)))))"

definition suco_read_checks :: "float_codec \<Rightarrow> suco \<Rightarrow> suco parser" where
  "suco_read_checks fc ix =
    check_parser (su_d ix > 0) ''IndexSuCo::read_index: invalid d''
   (check_parser (nsubspaces ix > 0) ''IndexSuCo::read_index: invalid nsubspaces''
   (check_parser (nsubspaces ix \<le> 255) ''IndexSuCo::read_index: nsubspaces must be <= 255''
   (check_parser (ncentroids_half ix > 0) ''IndexSuCo::read_index: invalid ncentroids_half''
   (check_parser (su_d ix mod nsubspaces ix = 0) ''IndexSuCo::read_index: d must be divisible by nsubspaces''
     (let ix' = ix\<lparr> subspace_dim := su_d ix div nsubspaces ix,
                    half_dim := (su_d ix div nsubspaces ix) div 2 \<rparr>
      in check_parser (subspace_dim ix' mod 2 = 0) ''IndexSuCo::read_index: subspace_dim must be even''
           (suco_read_body fc ix'))))))"

definition suco_read_index :: "float_codec \<Rightarrow> int \<Rightarrow> suco \<Rightarrow> suco parser" where
  "suco_read_index fc junk old =
    bind_parser (read1_unchecked 4 le_dec junk) (\<lambda>magic.
    bind_parser (read1_unchecked 4 le_dec junk) (\<lambda>version.
    check_parser (magic = SUCO_MAGIC) ''IndexSuCo::read_index: bad magic, not a SuCo index stream''
   (check_parser (1 \<le> version \<and> version \<le> 3) ''IndexSuCo::read_index: unsupported version (expected 1..3)''
   (bind_parser (read1_unchecked 8 sle_dec junk) (\<lambda>dd.
    bind_parser (read1_unchecked 4 sle_dec (nsubspaces old)) (\<lambda>ns.
    bind_parser (read1_unchecked 4 sle_dec (ncentroids_half old)) (\<lambda>nc.
    bind_parser (read1_unchecked 4 (snd fc) (collision_ratio old)) (\<lambda>cr.
    bind_parser (read1_unchecked 4 (snd fc) (candidate_ratio old)) (\<lambda>cdr.
    bind_parser (read1_unchecked 4 sle_dec (su_niter old)) (\<lambda>niter.
    bind_parser (read1_unchecked 8 sle_dec junk) (\<lambda>nt.
      suco_read_checks fc (old\<lparr> su_d := dd, nsubspaces := ns, ncentroids_half := nc, collision_ratio := cr,
        candidate_ratio := cdr, su_niter := niter, su_ntotal := nt \<rparr>))))))))))))"

section \<open>Round trip\<close>

text \<open>The fields fit the types in which they are stored.\<close>

definition suco_storable :: "float_codec \<Rightarrow> suco \<Rightarrow> bool" where
  "suco_storable fc ix \<longleftrightarrow>
     fits_i64 (su_d ix) \<and> fits_i32 (nsubspaces ix) \<and> fits_i32 (ncentroids_half ix) \<and>
     fits_i32 (su_niter ix) \<and> fits_i64 (su_ntotal ix) \<and> fits_u64 (length (su_xb ix)) \<and>
     codec_ok fc ({collision_ratio ix, candidate_ratio ix} \<union> set (centroids ix) \<union> set (su_xb ix))"

lemma reads_bucket:
  assumes "fits_u64 (length ids)" "\<forall>i \<in> set ids. fits_i64 (int i)"
  shows "reads read_bucket (enc_bucket ids) ids"
  unfolding read_bucket_def enc_bucket_def
proof (rule reads_bind)
  show "reads (read1_checked ''IndexSuCo::read_index: unexpected EOF reading bucket size'' 8 (\<lambda>b. nat (le_dec b)))
    (le_enc 8 (int (length ids))) (length ids)"
    using assms(1) by (intro reads_read1_checked) (simp_all add: le_dec_u64)
  have "reads (read_array_checked ''IndexSuCo::read_index: unexpected EOF reading bucket'' 8 sle_dec (length ids))
      (concat (map (le_enc 8) (map int ids))) (map int ids)"
    using assms(2) by (intro reads_array) (simp_all add: sle_dec_i64)
  from reads_nat_ids[OF reads_resized[OF this]]
  have "reads (bind_parser (resized_parser 8 (length ids)
      (read_array_checked ''IndexSuCo::read_index: unexpected EOF reading bucket'' 8 sle_dec (length ids))) nat_ids)
      (concat (map (\<lambda>i. le_enc 8 (int i)) ids)) ids" by (simp add: comp_def)
  then show "reads (if length ids = 0 then return_parser []
      else bind_parser (resized_parser 8 (length ids)
        (read_array_checked ''IndexSuCo::read_index: unexpected EOF reading bucket'' 8 sle_dec (length ids))) nat_ids)
      (concat (map (\<lambda>i. le_enc 8 (int i)) ids)) ids"
    by (auto simp: reads_return)
qed

lemma write_subspaces_Some:
  "\<forall>t \<in> set ts. length t = nb \<Longrightarrow>
    write_subspaces nb (map Some ts) w = Inr (w @ concat (map (\<lambda>t. concat (map enc_bucket t)) ts))"
  by (induction ts arbitrary: w) (simp_all add: vwrite_def)

definition suco_bytes :: "float_codec \<Rightarrow> suco \<Rightarrow> byte list" where
  "suco_bytes fc ix = suco_header fc ix @ concat (map (fst fc) (centroids ix)) @
     concat (map (\<lambda>t. concat (map enc_bucket t)) (inv_lists ix)) @
     le_enc 8 (int (length (su_xb ix))) @ concat (map (fst fc) (su_xb ix))"

lemma suco_write_bytes:
  assumes "suco_inv ix" "su_is_trained ix"
  shows "suco_write_index fc ix w = Inr (w @ suco_bytes fc ix)"
proof -
  note tr = suco_inv_trained[OF assms]
  have "\<forall>t \<in> set (inv_lists ix). length t = nC ix * nC ix"
    using tr(4,5) by (auto simp: in_set_conv_nth imi_ok_def)
  then show ?thesis using assms(2) tr(3,4)
    by (simp add: suco_write_index_def write_subspaces_Some suco_bytes_def vwrite_def)
qed

lemma reads_body:
  assumes "suco_inv ix" "su_is_trained ix" "suco_storable fc ix" "nS ix0 = nS ix" "nC ix0 = nC ix"
    "halfd ix0 = halfd ix"
  shows "reads (suco_read_body fc ix0)
    (concat (map (fst fc) (centroids ix)) @ concat (map (\<lambda>t. concat (map enc_bucket t)) (inv_lists ix)) @
     le_enc 8 (int (length (su_xb ix))) @ concat (map (fst fc) (su_xb ix)))
    (ix0\<lparr> centroids := centroids ix, inv_lists := inv_lists ix, su_xb := su_xb ix, su_is_trained := True \<rparr>)"
  unfolding suco_read_body_def assms(4-6)
proof (intro reads_bind)
  note tr = suco_inv_trained[OF assms(1,2)]
  have fits: "fits_i64 (su_ntotal ix)" and xbl: "fits_u64 (length (su_xb ix))"
    and fc: "codec_ok fc (set (centroids ix) \<union> set (su_xb ix))"
    using assms(3) by (auto simp: suco_storable_def codec_ok_def)
  have id: "fits_u64 (length ids)" "\<forall>i \<in> set ids. fits_i64 (int i)"
    if "ids \<in> set t" "t \<in> set (inv_lists ix)" for ids t
  proof -
    have m: "mset (concat t) = mset [0..<nT ix]" using tr(4,5) that(2) by (auto simp: in_set_conv_nth imi_ok_def)
    from that(1) obtain p q where "t = p @ ids # q" by (meson split_list)
    then have "length ids \<le> length (concat t)" by simp
    also have "\<dots> = nT ix" using mset_eq_length[OF m] by simp
    finally show "fits_u64 (length ids)" using fits by (simp add: fits_u64_def fits_i64_def) linarith
    have "set ids \<subseteq> {..<nT ix}" using mset_eq_setD[OF m] that(1) by auto
    then show "\<forall>i \<in> set ids. fits_i64 (int i)" using fits by (fastforce simp: fits_i64_def)
  qed
  show "reads (resized_parser 4 (nS ix * 2 * nC ix * halfd ix)
      (read_array_checked ''IndexSuCo::read_index: unexpected EOF reading centroids'' 4 (snd fc)
        (nS ix * 2 * nC ix * halfd ix))) (concat (map (fst fc) (centroids ix))) (centroids ix)"
    using fc tr(3) by (intro reads_resized reads_array) (auto simp: codec_ok_def)
  have bl: "\<forall>t \<in> set (inv_lists ix). length t = nC ix * nC ix"
    using tr(4,5) by (auto simp: in_set_conv_nth imi_ok_def)
  have table: "reads (parse_list (replicate (nC ix * nC ix) read_bucket)) (concat (map enc_bucket t)) t"
    if t: "t \<in> set (inv_lists ix)" for t
  proof (intro reads_parse_list allI impI)
    fix i assume "i < length t"
    with bl t reads_bucket[OF id[OF nth_mem t]] show "reads (replicate (nC ix * nC ix) read_bucket ! i) (enc_bucket (t ! i)) (t ! i)"
      by simp
  qed (use bl t in simp)
  show "reads (parse_list (replicate (nS ix) (parse_list (replicate (nC ix * nC ix) read_bucket))))
      (concat (map (\<lambda>t. concat (map enc_bucket t)) (inv_lists ix))) (inv_lists ix)"
    using tr(4) table by (intro reads_parse_list allI impI) simp_all
  show "reads (read1_checked ''IndexSuCo::read_index: unexpected EOF reading vector count'' 8 (\<lambda>b. nat (le_dec b)))
      (le_enc 8 (int (length (su_xb ix)))) (length (su_xb ix))"
    using xbl by (intro reads_read1_checked) (simp_all add: le_dec_u64)
  have "reads (read_array_checked ''IndexSuCo::read_index: unexpected EOF reading vectors'' 4 (snd fc)
      (length (su_xb ix))) (concat (map (fst fc) (su_xb ix))) (su_xb ix)"
    using fc by (intro reads_array) (auto simp: codec_ok_def)
  from reads_resized[OF this]
  have "reads (if length (su_xb ix) = 0 then return_parser []
        else resized_parser 4 (length (su_xb ix))
          (read_array_checked ''IndexSuCo::read_index: unexpected EOF reading vectors'' 4 (snd fc) (length (su_xb ix))))
      (concat (map (fst fc) (su_xb ix))) (su_xb ix)"
    by (auto simp: reads_return)
  then show "reads (bind_parser (if length (su_xb ix) = 0 then return_parser []
        else resized_parser 4 (length (su_xb ix))
          (read_array_checked ''IndexSuCo::read_index: unexpected EOF reading vectors'' 4 (snd fc) (length (su_xb ix))))
      (\<lambda>xb. return_parser (ix0\<lparr> centroids := centroids ix, inv_lists := inv_lists ix, su_xb := xb, su_is_trained := True \<rparr>)))
    (concat (map (fst fc) (su_xb ix)))
    (ix0\<lparr> centroids := centroids ix, inv_lists := inv_lists ix, su_xb := su_xb ix, su_is_trained := True \<rparr>)"
    by (rule reads_bind_return)
qed

lemma reads_suco:
  assumes "suco_inv ix" "su_is_trained ix" "suco_storable fc ix"
  shows "reads (suco_read_index fc junk old) (suco_bytes fc ix) ix"
proof -
  from assms(1) have sh: "suco_shape ix" by (simp add: suco_inv_def)
  then have d: "su_d ix mod nsubspaces ix = 0" "su_d ix div nsubspaces ix = subspace_dim ix"
    "subspace_dim ix mod 2 = 0" "subspace_dim ix div 2 = half_dim ix" "0 < su_d ix"
    by (auto simp: suco_shape_def)
  have st: "fits_i64 (su_d ix)" "fits_i32 (nsubspaces ix)" "fits_i32 (ncentroids_half ix)"
    "fits_i32 (su_niter ix)" "fits_i64 (su_ntotal ix)"
    "length (fst fc (collision_ratio ix)) = 4" "snd fc (fst fc (collision_ratio ix)) = collision_ratio ix"
    "length (fst fc (candidate_ratio ix)) = 4" "snd fc (fst fc (candidate_ratio ix)) = candidate_ratio ix"
    using assms(3) by (auto simp: suco_storable_def codec_ok_def)
  let ?ix0 = "old\<lparr> su_d := su_d ix, nsubspaces := nsubspaces ix, ncentroids_half := ncentroids_half ix,
    collision_ratio := collision_ratio ix, candidate_ratio := candidate_ratio ix, su_niter := su_niter ix,
    su_ntotal := su_ntotal ix, subspace_dim := subspace_dim ix, half_dim := half_dim ix \<rparr>"
  have body: "reads (suco_read_body fc ?ix0) (concat (map (fst fc) (centroids ix)) @
     concat (map (\<lambda>t. concat (map enc_bucket t)) (inv_lists ix)) @
     le_enc 8 (int (length (su_xb ix))) @ concat (map (fst fc) (su_xb ix)))
    (?ix0\<lparr> centroids := centroids ix, inv_lists := inv_lists ix, su_xb := su_xb ix, su_is_trained := True \<rparr>)"
    by (rule reads_body[OF assms]) simp_all
  have ix: "?ix0\<lparr> centroids := centroids ix, inv_lists := inv_lists ix, su_xb := su_xb ix, su_is_trained := True \<rparr> = ix"
    using assms(2) by simp
  show ?thesis
    unfolding suco_read_index_def suco_bytes_def suco_header_def append_assoc
    apply (rule reads_bind[OF reads_read1_unchecked[where v = SUCO_MAGIC]])
       apply (simp_all add: le_dec_enc_unsigned SUCO_MAGIC_def)[3]
    apply (rule reads_bind[OF reads_read1_unchecked[where v = 3]])
       apply (simp_all add: le_dec_enc_unsigned)[3]
    apply (rule reads_check, simp)
    apply (rule reads_check, simp)
    apply (rule reads_bind[OF reads_read1_unchecked[where v = "su_d ix"]])
       apply (simp_all add: sle_dec_i64 st)[3]
    apply (rule reads_bind[OF reads_read1_unchecked[where v = "nsubspaces ix"]])
       apply (simp_all add: sle_dec_i32 st)[3]
    apply (rule reads_bind[OF reads_read1_unchecked[where v = "ncentroids_half ix"]])
       apply (simp_all add: sle_dec_i32 st)[3]
    apply (rule reads_bind[OF reads_read1_unchecked[where v = "collision_ratio ix"]])
       apply (simp_all add: st)[3]
    apply (rule reads_bind[OF reads_read1_unchecked[where v = "candidate_ratio ix"]])
       apply (simp_all add: st)[3]
    apply (rule reads_bind[OF reads_read1_unchecked[where v = "su_niter ix"]])
       apply (simp_all add: sle_dec_i32 st)[3]
    apply (rule reads_bind[OF reads_read1_unchecked[where v = "su_ntotal ix"]])
       apply (simp_all add: sle_dec_i64 st)[3]
    using sh body ix d unfolding suco_read_checks_def Let_def
    by (intro reads_check) (simp_all add: suco_shape_def)
qed

text \<open>Save and load: writing a trained index in which the invariant holds succeeds, and reading the
  bytes into any index object gives the same index back, for every field, and consumes the whole
  stream. The \<open>float\<close> layout is any lossless four-byte one.\<close>

theorem suco_io_roundtrip:
  assumes "suco_inv ix" "su_is_trained ix" "suco_storable fc ix"
  shows "\<exists>bytes r'. suco_write_index fc ix [] = Inr bytes \<and>
    suco_read_index fc junk old (open_reader bytes) = Inr (ix, r') \<and> unread r' = []"
  using suco_write_bytes[OF assms(1,2), of fc "[]"] reads_open[OF reads_suco[OF assms]] by simp

text \<open>The codec of the floats of the concrete index: IEEE binary32, little endian.\<close>

definition demo_codec :: float_codec where
  "demo_codec =
     (\<lambda>x. if x = 0 then [0, 0, 0, 0] else if x = 1 then [0, 0, 128, 63]
          else if x = 1/2 then [0, 0, 0, 63] else [0, 0, 64, 63],
      \<lambda>b. if b = [0, 0, 0, 0] then 0 else if b = [0, 0, 128, 63] then 1
          else if b = [0, 0, 0, 63] then 1/2 else 3/4)"

theorem suco_io_roundtrip_witness:
  "\<exists>bytes r'. suco_write_index demo_codec suco_demo [] = Inr bytes \<and>
    suco_read_index demo_codec 7 IndexSuCo_default (open_reader bytes) = Inr (suco_demo, r') \<and> unread r' = []"
proof (rule suco_io_roundtrip[OF suco_demo_inv])
  show "suco_storable demo_codec suco_demo"
    by (auto simp: suco_storable_def suco_demo_def fits_i64_def fits_i32_def fits_u64_def codec_ok_def demo_codec_def)
qed (simp add: suco_demo_def)

end
