(* ===== verification/HeapOps.thy ===== *)
theory HeapOps
  imports Prelude
begin

text \<open>
  The binary heaps of \<open>faiss/utils/Heap.h\<close>, on an array of (value, id) pairs and on two parallel
  arrays, for any comparison that orders the heap. Positions are those of the code: the pointer is
  decremented, so the root is position 1 and the children of \<open>i\<close> are \<open>2i\<close> and \<open>2i+1\<close>.
\<close>

section \<open>Comparators\<close>

text \<open>\<open>cmp2 a b\<close>: \<open>a\<close> belongs strictly above \<open>b\<close> in the heap.\<close>

definition CMin_cmp :: "'d::linorder \<Rightarrow> 'd \<Rightarrow> bool" where "CMin_cmp a b \<longleftrightarrow> a < b"
definition CMax_cmp :: "'d::linorder \<Rightarrow> 'd \<Rightarrow> bool" where "CMax_cmp a b \<longleftrightarrow> a > b"

definition CMin_cmp2 :: "'d::linorder \<times> 'i::linorder \<Rightarrow> 'd \<times> 'i \<Rightarrow> bool" where
  "CMin_cmp2 a b \<longleftrightarrow> fst a < fst b \<or> fst a = fst b \<and> snd a < snd b"

definition CMax_cmp2 :: "'d::linorder \<times> 'i::linorder \<Rightarrow> 'd \<times> 'i \<Rightarrow> bool" where
  "CMax_cmp2 a b \<longleftrightarrow> fst a > fst b \<or> fst a = fst b \<and> snd a > snd b"

section \<open>Operations on an array of pairs\<close>

definition at1 :: "'e list \<Rightarrow> nat \<Rightarrow> 'e" where "at1 bh i = bh ! (i - 1)"
definition put1 :: "'e list \<Rightarrow> nat \<Rightarrow> 'e \<Rightarrow> 'e list" where "put1 bh i v = bh[i - 1 := v]"

text \<open>The descent of \<open>heap_pop\<close> and \<open>heap_replace_top\<close>: the array with a hole, and the hole. The test
  \<open>i = 0\<close> never holds (the loop starts at 1); it makes the recursion total.\<close>

function sift_down :: "('e \<Rightarrow> 'e \<Rightarrow> bool) \<Rightarrow> nat \<Rightarrow> 'e \<Rightarrow> nat \<Rightarrow> 'e list \<Rightarrow> 'e list \<times> nat" where
  "sift_down cmp2 k v i bh =
     (let i1 = 2 * i; i2 = i1 + 1
      in if i1 > k \<or> i = 0 then (bh, i)
         else if i2 = k + 1 \<or> cmp2 (at1 bh i1) (at1 bh i2)
         then if cmp2 v (at1 bh i1) then (bh, i)
              else sift_down cmp2 k v i1 (put1 bh i (at1 bh i1))
         else if cmp2 v (at1 bh i2) then (bh, i)
              else sift_down cmp2 k v i2 (put1 bh i (at1 bh i2)))"
  by pat_completeness auto
termination by (relation "measure (\<lambda>(cmp2, k, v, i, bh). k + 1 - i)") auto

declare sift_down.simps [simp del]

definition heap_pop :: "('e \<Rightarrow> 'e \<Rightarrow> bool) \<Rightarrow> nat \<Rightarrow> 'e list \<Rightarrow> 'e list" where
  "heap_pop cmp2 k bh =
     (let v = at1 bh k; (bh', i) = sift_down cmp2 k v 1 bh
      in put1 bh' i (at1 bh' k))"

definition heap_replace_top :: "('e \<Rightarrow> 'e \<Rightarrow> bool) \<Rightarrow> nat \<Rightarrow> 'e list \<Rightarrow> 'e \<Rightarrow> 'e list" where
  "heap_replace_top cmp2 k bh v =
     (let (bh', i) = sift_down cmp2 k v 1 bh in put1 bh' i v)"

function sift_up :: "('e \<Rightarrow> 'e \<Rightarrow> bool) \<Rightarrow> 'e \<Rightarrow> nat \<Rightarrow> 'e list \<Rightarrow> 'e list \<times> nat" where
  "sift_up cmp2 v i bh =
     (if i > 1
      then let i_father = i div 2
           in if \<not> cmp2 v (at1 bh i_father) then (bh, i)
              else sift_up cmp2 v i_father (put1 bh i (at1 bh i_father))
      else (bh, i))"
  by pat_completeness auto
termination by (relation "measure (\<lambda>(cmp2, v, i, bh). i)") auto

declare sift_up.simps [simp del]

definition heap_push :: "('e \<Rightarrow> 'e \<Rightarrow> bool) \<Rightarrow> nat \<Rightarrow> 'e list \<Rightarrow> 'e \<Rightarrow> 'e list" where
  "heap_push cmp2 k bh v =
     (let (bh', i) = sift_up cmp2 v k bh in put1 bh' i v)"

section \<open>Initialisation, insertion of a series, reordering\<close>

text \<open>\<open>heap_heapify\<close> with the input as pairs (the ids are the given ones or the positions).\<close>

definition input_pairs :: "'d list \<Rightarrow> int list option \<Rightarrow> nat \<Rightarrow> ('d \<times> int) list" where
  "input_pairs x ids n =
     map (\<lambda>i. (x ! i, case ids of None \<Rightarrow> int i | Some l \<Rightarrow> l ! i)) [0..<n]"

definition heap_heapify ::
  "('d \<times> int \<Rightarrow> 'd \<times> int \<Rightarrow> bool) \<Rightarrow> 'd \<Rightarrow> nat \<Rightarrow> ('d \<times> int) list \<Rightarrow> 'd list \<Rightarrow> int list option \<Rightarrow> nat \<Rightarrow>
   ('d \<times> int) list" where
  "heap_heapify cmp2 neutral k bh x ids k0 =
     (let bh1 = fold (\<lambda>i bh. heap_push cmp2 (i + 1) bh (input_pairs x ids k0 ! i)) [0..<k0] bh
      in fold (\<lambda>i bh. bh[i := (neutral, -1)]) [k0..<k] bh1)"

definition heap_addn ::
  "('d \<Rightarrow> 'd \<Rightarrow> bool) \<Rightarrow> ('d \<times> int \<Rightarrow> 'd \<times> int \<Rightarrow> bool) \<Rightarrow> nat \<Rightarrow> ('d \<times> int) list \<Rightarrow> 'd list \<Rightarrow>
   int list option \<Rightarrow> nat \<Rightarrow> ('d \<times> int) list" where
  "heap_addn cmp cmp2 k bh x ids n =
     fold (\<lambda>p bh. if cmp (fst (bh ! 0)) (fst p) then heap_replace_top cmp2 k bh p else bh)
       (input_pairs x ids n) bh"

text \<open>The loop of \<open>heap_reorder\<close> for \<open>i = k - fuel, ..., k - 1\<close>, and the function.\<close>

fun reorder_loop ::
  "('d \<times> int \<Rightarrow> 'd \<times> int \<Rightarrow> bool) \<Rightarrow> nat \<Rightarrow> nat list \<Rightarrow> nat \<Rightarrow> ('d \<times> int) list \<Rightarrow> nat \<times> ('d \<times> int) list" where
  "reorder_loop cmp2 k [] ii bh = (ii, bh)"
| "reorder_loop cmp2 k (i # is) ii bh =
     (let top = bh ! 0;
          bh1 = (heap_pop cmp2 (k - i) bh)[k - ii - 1 := top]
      in reorder_loop cmp2 k is (if snd top \<noteq> -1 then ii + 1 else ii) bh1)"

definition heap_reorder ::
  "('d \<times> int \<Rightarrow> 'd \<times> int \<Rightarrow> bool) \<Rightarrow> 'd \<Rightarrow> nat \<Rightarrow> ('d \<times> int) list \<Rightarrow> nat \<times> ('d \<times> int) list" where
  "heap_reorder cmp2 neutral k bh =
     (let (ii, bh1) = reorder_loop cmp2 k [0..<k] 0 bh;
          bh2 = blit 0 (slice (k - ii) ii bh1) bh1
      in (ii, fold (\<lambda>i bh. bh[i := (neutral, -1)]) [ii..<k] bh2))"

section \<open>The heap property\<close>

text \<open>The first \<open>k\<close> entries form a heap: no entry belongs strictly above its father.\<close>

definition is_heap :: "('e \<Rightarrow> 'e \<Rightarrow> bool) \<Rightarrow> nat \<Rightarrow> 'e list \<Rightarrow> bool" where
  "is_heap cmp2 k bh \<longleftrightarrow> k \<le> length bh \<and> (\<forall>i. 2 \<le> i \<and> i \<le> k \<longrightarrow> \<not> cmp2 (at1 bh i) (at1 bh (i div 2)))"

text \<open>The same, except for the entry at \<open>i\<close> against its children, which respect the father of \<open>i\<close>.\<close>

definition heap_but_down :: "('e \<Rightarrow> 'e \<Rightarrow> bool) \<Rightarrow> nat \<Rightarrow> nat \<Rightarrow> 'e list \<Rightarrow> bool" where
  "heap_but_down cmp2 k i bh \<longleftrightarrow>
     (\<forall>j. 2 \<le> j \<and> j \<le> k \<and> j div 2 \<noteq> i \<longrightarrow> \<not> cmp2 (at1 bh j) (at1 bh (j div 2))) \<and>
     (\<forall>j. 2 \<le> i \<and> j \<le> k \<and> j div 2 = i \<longrightarrow> \<not> cmp2 (at1 bh j) (at1 bh (i div 2)))"

definition heap_but_up :: "('e \<Rightarrow> 'e \<Rightarrow> bool) \<Rightarrow> nat \<Rightarrow> nat \<Rightarrow> 'e list \<Rightarrow> bool" where
  "heap_but_up cmp2 k i bh \<longleftrightarrow>
     (\<forall>j. 2 \<le> j \<and> j \<le> k \<and> j \<noteq> i \<longrightarrow> \<not> cmp2 (at1 bh j) (at1 bh (j div 2))) \<and>
     (\<forall>j. 2 \<le> i \<and> j \<le> k \<and> j div 2 = i \<longrightarrow> \<not> cmp2 (at1 bh j) (at1 bh (i div 2)))"

lemma length_put1 [simp]: "length (put1 bh i v) = length bh"
  by (simp add: put1_def)

lemma at1_put1: "1 \<le> i \<Longrightarrow> i \<le> length bh \<Longrightarrow> 1 \<le> j \<Longrightarrow> at1 (put1 bh i v) j = (if i = j then v else at1 bh j)"
  by (auto simp: at1_def put1_def nth_list_update)

lemma put1_put1 [simp]: "put1 (put1 bh i v) i w = put1 bh i w"
  by (simp add: put1_def)

text \<open>Moving an entry into the hole: the two arrays have the same entries.\<close>

lemma mset_put1_move:
  assumes "1 \<le> i" "i \<le> length bh" "1 \<le> j" "j \<le> length bh" "i \<noteq> j"
  shows "mset (put1 (put1 bh i (at1 bh j)) j v) = mset (put1 bh i v)"
proof -
  let ?c = "put1 bh i v"
  have "put1 (put1 bh i (at1 bh j)) j v = ?c[i - 1 := ?c ! (j - 1), j - 1 := ?c ! (i - 1)]"
    using assms by (auto simp: put1_def at1_def nth_list_update list_update_swap)
  moreover have "mset (?c[i - 1 := ?c ! (j - 1), j - 1 := ?c ! (i - 1)]) = mset ?c"
    using assms by (intro mset_swap) simp_all
  ultimately show ?thesis by simp
qed

section \<open>The interface of a heap order\<close>

text \<open>What the heap algorithms need of the comparison \<open>cmp2\<close> that they call to maintain the heap order
  \<open>ab\<close> (\<open>ab a b\<close>: \<open>a\<close> belongs strictly above \<open>b\<close>): \<open>ab\<close> is a strict weak order that \<open>cmp2\<close>
  refines. For the library's heaps both are the same; the heap of \<open>MinimaxHeap\<close> is ordered by value
  only, although the operations compare ids too.\<close>

locale heap_order =
  fixes cmp2 :: "'e \<Rightarrow> 'e \<Rightarrow> bool" and ab :: "'e \<Rightarrow> 'e \<Rightarrow> bool"
  assumes ab_weak: "\<not> ab a b \<Longrightarrow> \<not> ab b c \<Longrightarrow> \<not> ab a c"
    and cmp2_ab: "cmp2 a b \<Longrightarrow> \<not> ab b a"
    and not_cmp2_ab: "\<not> cmp2 a b \<Longrightarrow> \<not> ab a b"
begin

lemma ab_irrefl: "\<not> ab a a"
  using cmp2_ab not_cmp2_ab by blast

lemma is_heap_root:
  assumes "is_heap ab k bh" "1 \<le> i" "i \<le> k"
  shows "\<not> ab (at1 bh i) (at1 bh 1)"
  using assms(2,3)
proof (induction i rule: less_induct)
  case (less i)
  show ?case
  proof (cases "i = 1")
    case False
    with less.prems have i: "2 \<le> i" "i div 2 < i" "1 \<le> i div 2" "i div 2 \<le> k" by auto
    have "\<not> ab (at1 bh i) (at1 bh (i div 2))" using assms(1) i(1) less.prems by (simp add: is_heap_def)
    from ab_weak[OF this less.IH[OF i(2-4)]] show ?thesis .
  qed (simp add: ab_irrefl)
qed

text \<open>One step of the descent towards the child \<open>c\<close> that belongs above the other one.\<close>

lemma but_down_stop:
  assumes "heap_but_down ab k i (put1 bh i v)" "1 \<le> i" "i \<le> k" "k \<le> length bh"
    and "\<And>j. j \<le> k \<Longrightarrow> j div 2 = i \<Longrightarrow> \<not> ab (at1 bh j) v"
  shows "is_heap ab k (put1 bh i v)"
  unfolding is_heap_def
proof (intro conjI allI impI; (elim conjE)?)
  fix j assume j: "2 \<le> j" "j \<le> k"
  show "\<not> ab (at1 (put1 bh i v) j) (at1 (put1 bh i v) (j div 2))"
  proof (cases "j div 2 = i")
    case True
    then have "j \<noteq> i" using j by auto
    with True assms j show ?thesis by (simp add: at1_put1)
  next
    case False
    with assms(1) j show ?thesis by (simp add: heap_but_down_def)
  qed
qed (use assms in simp)

lemma but_down_step:
  assumes "heap_but_down ab k i (put1 bh i v)" "1 \<le> i" "c \<le> k" "k \<le> length bh" "c div 2 = i"
    and "\<And>j. j \<le> k \<Longrightarrow> j div 2 = i \<Longrightarrow> \<not> ab (at1 bh j) (at1 bh c)" "\<not> ab v (at1 bh c)"
  shows "heap_but_down ab k c (put1 (put1 bh i (at1 bh c)) c v)"
proof -
  have c: "i < c" "1 \<le> c" "c \<le> length bh" "i \<le> length bh" "i \<noteq> c" using assms(2-5) by auto
  have B: "at1 (put1 (put1 bh i (at1 bh c)) c v) j = (if j = c then v else if j = i then at1 bh c else at1 bh j)"
    if "1 \<le> j" for j
    using that c assms(2) by (simp add: at1_put1)
  have A: "at1 (put1 bh i v) j = (if j = i then v else at1 bh j)" if "1 \<le> j" for j
    using that c assms(2) by (simp add: at1_put1)
  show ?thesis unfolding heap_but_down_def
  proof (intro conjI allI impI; elim conjE)
    fix j assume j: "2 \<le> j" "j \<le> k" "j div 2 \<noteq> c"
    have jd: "1 \<le> j div 2" "1 \<le> j" "j div 2 \<noteq> j" using j by auto
    consider "j = i" | "j = c" | "j \<noteq> i" "j \<noteq> c" "j div 2 = i" | "j \<noteq> i" "j \<noteq> c" "j div 2 \<noteq> i" by blast
    then show "\<not> ab (at1 (put1 (put1 bh i (at1 bh c)) c v) j)
        (at1 (put1 (put1 bh i (at1 bh c)) c v) (j div 2))"
    proof cases
      case 1
      with assms(1,3,5) j have "\<not> ab (at1 (put1 bh i v) c) (at1 (put1 bh i v) (i div 2))"
        unfolding heap_but_down_def by blast
      with 1 c jd j(3) show ?thesis unfolding B[OF jd(1)] B[OF jd(2)] by (simp add: A)
    next
      case 2
      with assms(5,7) c show ?thesis unfolding B[OF jd(1)] B[OF jd(2)] by simp
    next
      case 3
      with assms(6) j c show ?thesis unfolding B[OF jd(1)] B[OF jd(2)] by simp
    next
      case 4
      with assms(1) j have "\<not> ab (at1 (put1 bh i v) j) (at1 (put1 bh i v) (j div 2))"
        unfolding heap_but_down_def by blast
      with 4 j(3) jd show ?thesis unfolding B[OF jd(1)] B[OF jd(2)] by (simp add: A)
    qed
  next
    fix j assume j: "2 \<le> c" "j \<le> k" "j div 2 = c"
    then have "2 \<le> j" "j \<noteq> c" "j \<noteq> i" "1 \<le> j" using c by auto
    have "\<not> ab (at1 (put1 bh i v) j) (at1 (put1 bh i v) (j div 2))"
      using assms(1) j \<open>2 \<le> j\<close> c(5) unfolding heap_but_down_def by blast
    with j c \<open>1 \<le> j\<close> \<open>j \<noteq> i\<close> have "\<not> ab (at1 bh j) (at1 bh c)" by (simp add: A)
    then show "\<not> ab (at1 (put1 (put1 bh i (at1 bh c)) c v) j)
        (at1 (put1 (put1 bh i (at1 bh c)) c v) (c div 2))"
      using B[of j] B[of i] \<open>1 \<le> j\<close> \<open>j \<noteq> c\<close> \<open>j \<noteq> i\<close> assms(2,5) c by simp
  qed
qed

definition sifted :: "nat \<Rightarrow> 'e \<Rightarrow> nat \<Rightarrow> 'e list \<Rightarrow> 'e list \<times> nat \<Rightarrow> bool" where
  "sifted k v i bh r \<longleftrightarrow> 1 \<le> snd r \<and> snd r \<le> k \<and> length (fst r) = length bh \<and>
    is_heap ab k (put1 (fst r) (snd r) v) \<and>
    mset (put1 (fst r) (snd r) v) = mset (put1 bh i v) \<and>
    (\<forall>j > k. at1 (fst r) j = at1 bh j) \<and> (at1 bh k = v \<longrightarrow> at1 (fst r) k = v)"

lemma sifted_step:
  assumes "sifted k v c (put1 bh i (at1 bh c)) r" "1 \<le> i" "i < c" "c \<le> k" "k \<le> length bh"
  shows "sifted k v i bh r"
proof -
  have "mset (put1 (put1 bh i (at1 bh c)) c v) = mset (put1 bh i v)"
    using assms by (intro mset_put1_move) auto
  moreover have "at1 (put1 bh i (at1 bh c)) j = at1 bh j" if "i < j" for j
    using that assms by (simp add: at1_put1)
  ultimately show ?thesis using assms by (auto simp: sifted_def)
qed

lemma sift_down_ok:
  assumes "1 \<le> i" "i \<le> k" "k \<le> length bh" "heap_but_down ab k i (put1 bh i v)"
  shows "sifted k v i bh (sift_down cmp2 k v i bh)"
  using assms
proof (induction "k + 1 - i" arbitrary: i bh rule: less_induct)
  case less
  have stop: "sifted k v i bh (bh, i)" if s: "\<And>j. j \<le> k \<Longrightarrow> j div 2 = i \<Longrightarrow> \<not> ab (at1 bh j) v"
  proof -
    have "is_heap ab k (put1 bh i v)"
      by (rule but_down_stop[OF less.prems(4,1-3)]) (rule s)
    then show ?thesis using less.prems(1,2) by (simp add: sifted_def)
  qed
  have descend: "sifted k v i bh (if cmp2 v (at1 bh c) then (bh, i) else sift_down cmp2 k v c (put1 bh i (at1 bh c)))"
    if c: "c div 2 = i" "c \<le> k" "\<And>j. j \<le> k \<Longrightarrow> j div 2 = i \<Longrightarrow> \<not> ab (at1 bh j) (at1 bh c)" for c
  proof (cases "cmp2 v (at1 bh c)")
    case True
    have "sifted k v i bh (bh, i)"
    proof (rule stop)
      fix j assume "j \<le> k" "j div 2 = i"
      from ab_weak[OF c(3)[OF this] cmp2_ab[OF True]] show "\<not> ab (at1 bh j) v" .
    qed
    with True show ?thesis by simp
  next
    case False
    have ic: "i < c" using c(1) less.prems(1) by auto
    have "sifted k v c (put1 bh i (at1 bh c)) (sift_down cmp2 k v c (put1 bh i (at1 bh c)))"
    proof (rule less.hyps)
      show "heap_but_down ab k c (put1 (put1 bh i (at1 bh c)) c v)"
        using but_down_step[OF less.prems(4,1) c(2) less.prems(3) c(1) c(3) not_cmp2_ab[OF False]] .
    qed (use ic c(2) less.prems(1-3) in simp_all)
    from sifted_step[OF this less.prems(1) ic c(2) less.prems(3)] False show ?thesis by simp
  qed
  show ?case
  proof (cases "2 * i > k")
    case True
    then have "sift_down cmp2 k v i bh = (bh, i)" by (subst sift_down.simps) simp
    moreover have "sifted k v i bh (bh, i)" by (rule stop) (use True in auto)
    ultimately show ?thesis by simp
  next
    case False
    have kids: "j = 2 * i \<or> j = 2 * i + 1" if "j div 2 = i" for j using that by auto
    show ?thesis
    proof (cases "2 * i + 1 = k + 1 \<or> cmp2 (at1 bh (2 * i)) (at1 bh (2 * i + 1))")
      case True
      have "sift_down cmp2 k v i bh = (if cmp2 v (at1 bh (2 * i)) then (bh, i)
          else sift_down cmp2 k v (2 * i) (put1 bh i (at1 bh (2 * i))))"
        using False True less.prems(1) by (subst sift_down.simps) (auto simp: Let_def)
      moreover have "sifted k v i bh (if cmp2 v (at1 bh (2 * i)) then (bh, i)
          else sift_down cmp2 k v (2 * i) (put1 bh i (at1 bh (2 * i))))"
      proof (rule descend)
        fix j assume j: "j \<le> k" "j div 2 = i"
        from kids[OF j(2)] show "\<not> ab (at1 bh j) (at1 bh (2 * i))"
        proof
          assume "j = 2 * i + 1"
          with True j show ?thesis by (auto dest: cmp2_ab)
        qed (simp add: ab_irrefl)
      qed (use False in auto)
      ultimately show ?thesis by simp
    next
      case notleft: False
      then have n: "2 * i + 1 \<le> k" "\<not> ab (at1 bh (2 * i)) (at1 bh (2 * i + 1))"
        "\<not> cmp2 (at1 bh (2 * i)) (at1 bh (2 * i + 1))" using False not_cmp2_ab by auto
      have "sift_down cmp2 k v i bh = (if cmp2 v (at1 bh (2 * i + 1)) then (bh, i)
          else sift_down cmp2 k v (2 * i + 1) (put1 bh i (at1 bh (2 * i + 1))))"
        using False n less.prems(1) by (subst sift_down.simps) (auto simp: Let_def)
      moreover have "sifted k v i bh (if cmp2 v (at1 bh (2 * i + 1)) then (bh, i)
          else sift_down cmp2 k v (2 * i + 1) (put1 bh i (at1 bh (2 * i + 1))))"
      proof (rule descend)
        fix j assume j: "j \<le> k" "j div 2 = i"
        from kids[OF j(2)] n show "\<not> ab (at1 bh j) (at1 bh (2 * i + 1))" by (auto simp: ab_irrefl)
      qed (use n in auto)
      ultimately show ?thesis by simp
    qed
  qed
qed


lemma replace_top_sifted:
  assumes "is_heap ab k bh" "1 \<le> k"
  shows "sifted k v 1 bh (sift_down cmp2 k v 1 bh)"
proof (rule sift_down_ok)
  have at: "at1 (put1 bh 1 v) j = at1 bh j" if "2 \<le> j" for j
    using that assms by (subst at1_put1) (auto simp: is_heap_def)
  show "heap_but_down ab k 1 (put1 bh 1 v)"
    unfolding heap_but_down_def
  proof (intro conjI allI impI; (elim conjE)?)
    fix j assume j: "2 \<le> j" "j \<le> k" "j div 2 \<noteq> 1"
    then have "2 \<le> j div 2" by auto
    with assms j at show "\<not> ab (at1 (put1 bh 1 v) j) (at1 (put1 bh 1 v) (j div 2))"
      by (auto simp: is_heap_def)
  qed simp
qed (use assms in \<open>simp_all add: is_heap_def\<close>)

lemma drop_sifted:
  assumes "sifted k v i bh r" "k \<le> length bh"
  shows "drop k (put1 (fst r) (snd r) v) = drop k bh"
proof (rule nth_equalityI)
  fix j assume j: "j < length (drop k (put1 (fst r) (snd r) v))"
  have "at1 (put1 (fst r) (snd r) v) (k + j + 1) = at1 bh (k + j + 1)"
    using assms j by (subst at1_put1) (auto simp: sifted_def)
  then show "drop k (put1 (fst r) (snd r) v) ! j = drop k bh ! j"
    using assms j by (simp add: at1_def sifted_def)
qed (use assms in \<open>simp add: sifted_def\<close>)

text \<open>Replacing the top: the entries are those of before with \<open>v\<close> in place of the top.\<close>

lemma heap_replace_top_ok:
  assumes "is_heap ab k bh" "1 \<le> k"
  shows "is_heap ab k (heap_replace_top cmp2 k bh v)"
    "length (heap_replace_top cmp2 k bh v) = length bh"
    "mset (heap_replace_top cmp2 k bh v) = add_mset v (mset bh - {#bh ! 0#})"
    "drop k (heap_replace_top cmp2 k bh v) = drop k bh"
proof -
  have s: "sifted k v 1 bh (sift_down cmp2 k v 1 bh)" by (rule replace_top_sifted[OF assms])
  have l: "k \<le> length bh" "0 < length bh" using assms by (auto simp: is_heap_def)
  have r: "heap_replace_top cmp2 k bh v
      = put1 (fst (sift_down cmp2 k v 1 bh)) (snd (sift_down cmp2 k v 1 bh)) v"
    by (simp add: heap_replace_top_def case_prod_beta)
  show "is_heap ab k (heap_replace_top cmp2 k bh v)"
    "length (heap_replace_top cmp2 k bh v) = length bh"
    using s by (simp_all add: r sifted_def)
  show "mset (heap_replace_top cmp2 k bh v) = add_mset v (mset bh - {#bh ! 0#})"
    using s l by (simp add: r sifted_def put1_def mset_update)
  show "drop k (heap_replace_top cmp2 k bh v) = drop k bh"
    unfolding r by (rule drop_sifted[OF s l(1)])
qed

lemma mset_take_eq:
  assumes "mset xs = mset ys" "drop k xs = drop k ys"
  shows "mset (take k xs) = mset (take k ys)"
proof -
  have "mset (take k xs) + mset (drop k xs) = mset (take k ys) + mset (drop k ys)"
    using assms(1) by (simp flip: mset_append)
  with assms(2) show ?thesis by simp
qed

text \<open>Popping: the first \<open>k - 1\<close> entries are a heap of the other entries.\<close>

lemma heap_pop_ok:
  assumes "is_heap ab k bh" "1 \<le> k"
  shows "is_heap ab (k - 1) (heap_pop cmp2 k bh)" "length (heap_pop cmp2 k bh) = length bh"
    "mset (take (k - 1) (heap_pop cmp2 k bh)) = mset (take k bh) - {#bh ! 0#}"
    "drop k (heap_pop cmp2 k bh) = drop k bh"
proof -
  let ?v = "at1 bh k" and ?r = "sift_down cmp2 k (at1 bh k) 1 bh"
  have s: "sifted k ?v 1 bh ?r" by (rule replace_top_sifted[OF assms])
  have l: "k \<le> length bh" using assms(1) by (simp add: is_heap_def)
  have "at1 (fst ?r) k = ?v" using s by (simp add: sifted_def)
  then have pop: "heap_pop cmp2 k bh = heap_replace_top cmp2 k bh ?v"
    by (simp add: heap_pop_def heap_replace_top_def case_prod_beta Let_def)
  note rt = heap_replace_top_ok[OF assms, of ?v, folded pop]
  from rt(1) show "is_heap ab (k - 1) (heap_pop cmp2 k bh)" by (auto simp: is_heap_def)
  show "length (heap_pop cmp2 k bh) = length bh" "drop k (heap_pop cmp2 k bh) = drop k bh"
    using rt by simp_all
  have "heap_pop cmp2 k bh = put1 (fst ?r) (snd ?r) ?v"
    by (simp add: pop heap_replace_top_def case_prod_beta)
  then have last: "heap_pop cmp2 k bh ! (k - 1) = ?v"
    using s l assms(2) at1_put1[of "snd ?r" "fst ?r" k ?v] by (simp add: at1_def sifted_def split: if_splits)
  have bh0: "bh ! 0 \<in># mset (take k bh)" using l assms(2) by (auto simp: in_set_conv_nth intro!: exI[of _ 0])
  have "mset (take k (heap_pop cmp2 k bh)) = add_mset ?v (mset (take k bh) - {#bh ! 0#})"
  proof -
    have "mset (heap_pop cmp2 k bh) = mset (bh[0 := ?v])"
      using rt(3) l assms(2) by (subst mset_update) auto
    moreover have "drop k (heap_pop cmp2 k bh) = drop k (bh[0 := ?v])" using rt(4) assms(2) by simp
    ultimately have "mset (take k (heap_pop cmp2 k bh)) = mset (take k (bh[0 := ?v]))" by (rule mset_take_eq)
    also have "take k (bh[0 := ?v]) = (take k bh)[0 := ?v]" by (simp add: take_update_swap)
    also have "mset \<dots> = add_mset ?v (mset (take k bh) - {#bh ! 0#})"
      using l assms(2) by (subst mset_update) simp_all
    finally show ?thesis .
  qed
  moreover have "take k (heap_pop cmp2 k bh) = take (k - 1) (heap_pop cmp2 k bh) @ [?v]"
    using take_Suc_conv_app_nth[of "k - 1" "heap_pop cmp2 k bh"] last l assms(2) rt(2) by simp
  ultimately show "mset (take (k - 1) (heap_pop cmp2 k bh)) = mset (take k bh) - {#bh ! 0#}" by simp
qed


lemma but_up_step:
  assumes "heap_but_up ab k i (put1 bh i v)" "2 \<le> i" "i \<le> k" "k \<le> length bh"
    and "cmp2 v (at1 bh (i div 2))"
  shows "heap_but_up ab k (i div 2) (put1 (put1 bh i (at1 bh (i div 2))) (i div 2) v)"
proof -
  let ?f = "i div 2"
  have f: "1 \<le> ?f" "?f < i" "?f \<le> length bh" "i \<le> length bh" "i \<noteq> ?f" "?f \<noteq> i" using assms by auto
  have B: "at1 (put1 (put1 bh i (at1 bh ?f)) ?f v) j = (if j = ?f then v else if j = i then at1 bh ?f else at1 bh j)"
    if "1 \<le> j" for j
    using that f by (simp add: at1_put1)
  have A: "at1 (put1 bh i v) j = (if j = i then v else at1 bh j)" if "1 \<le> j" for j
    using that f by (simp add: at1_put1)
  have H: "\<not> ab (at1 bh j) (at1 bh (j div 2))" if "2 \<le> j" "j \<le> k" "j \<noteq> i" "j div 2 \<noteq> i" for j
  proof -
    have "\<not> ab (at1 (put1 bh i v) j) (at1 (put1 bh i v) (j div 2))"
      using assms(1) that unfolding heap_but_up_def by blast
    with that show ?thesis by (simp add: A)
  qed
  have H2: "\<not> ab (at1 bh j) (at1 bh ?f)" if "j \<le> k" "j div 2 = i" for j
  proof -
    have "\<not> ab (at1 (put1 bh i v) j) (at1 (put1 bh i v) ?f)"
      using assms(1,2) that unfolding heap_but_up_def by blast
    moreover have "j \<noteq> i" "1 \<le> j" using that assms(2) by auto
    ultimately show ?thesis using f by (simp add: A)
  qed
  show ?thesis unfolding heap_but_up_def
  proof (intro conjI allI impI; elim conjE)
    fix j assume j: "2 \<le> j" "j \<le> k" "j \<noteq> ?f"
    have jd: "1 \<le> j div 2" "1 \<le> j" using j by auto
    consider "j = i" | "j \<noteq> i" "j div 2 = i" | "j \<noteq> i" "j div 2 = ?f" | "j \<noteq> i" "j div 2 \<noteq> i" "j div 2 \<noteq> ?f" by blast
    then show "\<not> ab (at1 (put1 (put1 bh i (at1 bh ?f)) ?f v) j)
        (at1 (put1 (put1 bh i (at1 bh ?f)) ?f v) (j div 2))"
    proof cases
      case 1
      with cmp2_ab[OF assms(5)] j show ?thesis unfolding B[OF jd(1)] B[OF jd(2)] by simp
    next
      case 2
      with H2[of j] j f(5) show ?thesis unfolding B[OF jd(1)] B[OF jd(2)] by simp
    next
      case 3
      have "\<not> ab (at1 bh j) (at1 bh ?f)" using H[of j] j 3 f by simp
      from ab_weak[OF this cmp2_ab[OF assms(5)]] 3 j show ?thesis
        unfolding B[OF jd(1)] B[OF jd(2)] by simp
    next
      case 4
      with H[of j] j show ?thesis unfolding B[OF jd(1)] B[OF jd(2)] by simp
    qed
  next
    fix j assume j: "2 \<le> ?f" "j \<le> k" "j div 2 = ?f"
    have fd: "1 \<le> ?f div 2" "?f div 2 < ?f" "1 \<le> j" "?f div 2 \<noteq> ?f" "?f div 2 \<noteq> i" using j by auto
    have g: "\<not> ab (at1 bh ?f) (at1 bh (?f div 2))" using H[of ?f] j(1) f assms(3) by simp
    show "\<not> ab (at1 (put1 (put1 bh i (at1 bh ?f)) ?f v) j)
        (at1 (put1 (put1 bh i (at1 bh ?f)) ?f v) (?f div 2))"
    proof (cases "j = i")
      case True
      with g fd(4,5) f(5) show ?thesis unfolding B[OF fd(1)] B[OF fd(3)] by simp
    next
      case False
      have "2 \<le> j" "j \<noteq> ?f" using j by auto
      with H[of j] j False f have "\<not> ab (at1 bh j) (at1 bh ?f)" by simp
      from ab_weak[OF this g] False \<open>j \<noteq> ?f\<close> fd(4,5) show ?thesis unfolding B[OF fd(1)] B[OF fd(3)] by simp
    qed
  qed
qed

lemma sift_up_ok:
  assumes "1 \<le> i" "i \<le> k" "k \<le> length bh" "heap_but_up ab k i (put1 bh i v)"
  shows "length (put1 (fst (sift_up cmp2 v i bh)) (snd (sift_up cmp2 v i bh)) v) = length bh \<and>
    is_heap ab k (put1 (fst (sift_up cmp2 v i bh)) (snd (sift_up cmp2 v i bh)) v) \<and>
    mset (put1 (fst (sift_up cmp2 v i bh)) (snd (sift_up cmp2 v i bh)) v) = mset (put1 bh i v) \<and>
    drop k (put1 (fst (sift_up cmp2 v i bh)) (snd (sift_up cmp2 v i bh)) v) = drop k bh"
  using assms
proof (induction i arbitrary: bh rule: less_induct)
  case (less i)
  show ?case
  proof (cases "i > 1 \<and> cmp2 v (at1 bh (i div 2))")
    case False
    then have su: "sift_up cmp2 v i bh = (bh, i)" by (subst sift_up.simps) (auto simp: Let_def)
    have "is_heap ab k (put1 bh i v)"
      unfolding is_heap_def
    proof (intro conjI allI impI; (elim conjE)?)
      fix j assume j: "2 \<le> j" "j \<le> k"
      show "\<not> ab (at1 (put1 bh i v) j) (at1 (put1 bh i v) (j div 2))"
      proof (cases "j = i")
        case True
        with False j not_cmp2_ab have "\<not> ab v (at1 bh (i div 2))" by auto
        with True j less.prems show ?thesis by (auto simp: at1_put1)
      next
        case False
        with less.prems(4) j show ?thesis by (simp add: heap_but_up_def)
      qed
    qed (use less.prems in simp)
    then show ?thesis using less.prems by (simp add: su) (simp add: put1_def)
  next
    case True
    let ?f = "i div 2"
    have f: "1 \<le> ?f" "?f < i" "?f \<le> k" using True less.prems by auto
    have su: "sift_up cmp2 v i bh = sift_up cmp2 v ?f (put1 bh i (at1 bh ?f))"
      using True by (subst sift_up.simps) (simp add: Let_def)
    have hb: "heap_but_up ab k ?f (put1 (put1 bh i (at1 bh ?f)) ?f v)"
      using but_up_step[OF less.prems(4) _ less.prems(2,3)] True by simp
    have "mset (put1 (put1 bh i (at1 bh ?f)) ?f v) = mset (put1 bh i v)"
      using f less.prems by (intro mset_put1_move) auto
    moreover have "drop k (put1 bh i (at1 bh ?f)) = drop k bh" using less.prems by (simp add: put1_def)
    ultimately show ?thesis using less.IH[OF f(2,1,3) _ hb] less.prems by (simp add: su)
  qed
qed

text \<open>Pushing into position \<open>k\<close>.\<close>

lemma heap_push_ok:
  assumes "is_heap ab (k - 1) bh" "1 \<le> k" "k \<le> length bh"
  shows "is_heap ab k (heap_push cmp2 k bh v)" "length (heap_push cmp2 k bh v) = length bh"
    "mset (take k (heap_push cmp2 k bh v)) = add_mset v (mset (take (k - 1) bh))"
    "drop k (heap_push cmp2 k bh v) = drop k bh"
proof -
  have "heap_but_up ab k k (put1 bh k v)"
    unfolding heap_but_up_def
  proof (intro conjI allI impI; elim conjE)
    fix j assume "2 \<le> j" "j \<le> k" "j \<noteq> k"
    moreover from this have "j div 2 < k" "1 \<le> j div 2" by auto
    ultimately show "\<not> ab (at1 (put1 bh k v) j) (at1 (put1 bh k v) (j div 2))"
      using assms by (simp add: is_heap_def at1_put1)
  qed auto
  note su = sift_up_ok[OF assms(2) order_refl assms(3) this]
  have r: "heap_push cmp2 k bh v = put1 (fst (sift_up cmp2 v k bh)) (snd (sift_up cmp2 v k bh)) v"
    by (simp add: heap_push_def case_prod_beta)
  show "is_heap ab k (heap_push cmp2 k bh v)" "length (heap_push cmp2 k bh v) = length bh"
    "drop k (heap_push cmp2 k bh v) = drop k bh" using su unfolding r by blast+
  have "drop k (heap_push cmp2 k bh v) = drop k (put1 bh k v)"
    using su assms(2) unfolding r by (simp add: put1_def)
  with su have "mset (take k (heap_push cmp2 k bh v)) = mset (take k (put1 bh k v))"
    unfolding r by (intro mset_take_eq) auto
  also have "take k (put1 bh k v) = take (k - 1) bh @ [v]"
    using assms take_Suc_conv_app_nth[of "k - 1" "bh[k - 1 := v]"] by (simp add: put1_def)
  finally show "mset (take k (heap_push cmp2 k bh v)) = add_mset v (mset (take (k - 1) bh))" by simp
qed


text \<open>Pushing a series one by one into an empty heap.\<close>

lemma push_series_ok:
  assumes "n \<le> length bh" "n \<le> length ps"
  defines "bh' \<equiv> fold (\<lambda>i bh. heap_push cmp2 (i + 1) bh (ps ! i)) [0..<n] bh"
  shows "is_heap ab n bh' \<and> length bh' = length bh \<and> mset (take n bh') = mset (take n ps) \<and>
    drop n bh' = drop n bh"
  unfolding bh'_def using assms(1,2)
proof (induction n)
  case 0
  then show ?case by (simp add: is_heap_def)
next
  case (Suc n)
  let ?b = "fold (\<lambda>i bh. heap_push cmp2 (i + 1) bh (ps ! i)) [0..<n] bh"
  have h: "is_heap ab (Suc n - 1) ?b" "1 \<le> Suc n" "Suc n \<le> length ?b" using Suc by simp_all
  note p = heap_push_ok[OF h, of "ps ! n"]
  have "drop (Suc n) ?b = drop (Suc n) bh"
  proof -
    have "drop n ?b = drop n bh" using Suc by simp
    then have "drop 1 (drop n ?b) = drop 1 (drop n bh)" by (rule arg_cong)
    then show ?thesis by simp
  qed
  then show ?case using p Suc by (simp add: take_Suc_conv_app_nth)
qed

end

lemma fold_fill:
  "a \<le> b \<Longrightarrow> b \<le> length bh \<Longrightarrow>
    fold (\<lambda>i bh. bh[i := c]) [a..<b] bh = take a bh @ replicate (b - a) c @ drop b bh"
proof (induction b)
  case (Suc b)
  show ?case
  proof (cases "a = Suc b")
    case False
    with Suc.prems have ab: "a \<le> b" "b \<le> length bh" by auto
    from ab Suc.prems have "fold (\<lambda>i bh. bh[i := c]) [a..<Suc b] bh = (take a bh @ replicate (b - a) c @ drop b bh)[b := c]"
      using Suc.IH by simp
    also have "\<dots> = take a bh @ replicate (b - a) c @ (drop b bh)[0 := c]"
      using ab Suc.prems by (simp add: list_update_append)
    also have "(drop b bh)[0 := c] = c # drop (Suc b) bh"
      using Suc.prems by (simp add: Cons_nth_drop_Suc[symmetric])
    also have "replicate (b - a) c @ c # drop (Suc b) bh = replicate (Suc b - a) c @ drop (Suc b) bh"
      using ab by (simp add: Suc_diff_le replicate_app_Cons_same)
    finally show ?thesis .
  qed simp
qed simp

text \<open>A heap that also has a threshold test: \<open>cmp t x\<close> says that the value \<open>x\<close> is to be kept when
  the top of the heap has value \<open>t\<close>.\<close>

locale heap_topk = heap_order cmp2 cmp2 for cmp2 :: "'d \<times> int \<Rightarrow> 'd \<times> int \<Rightarrow> bool" +
  fixes cmp :: "'d \<Rightarrow> 'd \<Rightarrow> bool"
  assumes cmp_weak: "\<not> cmp a b \<Longrightarrow> \<not> cmp b c \<Longrightarrow> \<not> cmp a c"
    and cmp_asym: "cmp a b \<Longrightarrow> \<not> cmp b a"
    and cmp2_cmp: "\<not> cmp2 p q \<Longrightarrow> \<not> cmp (fst p) (fst q)"
begin

lemma heap_top_worst:
  assumes "is_heap cmp2 k bh" "p \<in> set (take k bh)"
  shows "\<not> cmp2 p (bh ! 0)"
proof -
  from assms obtain i where i: "i < k" "i < length bh" "p = bh ! i"
    by (auto simp: in_set_conv_nth)
  with is_heap_root[OF assms(1), of "i + 1"] show ?thesis by (simp add: at1_def)
qed

text \<open>Adding a series to a full heap of size \<open>k\<close>: the entries are split in the kept ones, again a heap
  of size \<open>k\<close>, and rejected ones, none of which is better than a kept one.\<close>

definition addn_step :: "nat \<Rightarrow> 'd \<times> int \<Rightarrow> ('d \<times> int) list \<Rightarrow> ('d \<times> int) list" where
  "addn_step k p bh = (if cmp (fst (bh ! 0)) (fst p) then heap_replace_top cmp2 k bh p else bh)"

definition not_better :: "('d \<times> int) multiset \<Rightarrow> ('d \<times> int) list \<Rightarrow> bool" where
  "not_better R bh \<longleftrightarrow> (\<forall>r \<in># R. \<forall>a \<in> set bh. \<not> cmp (fst a) (fst r))"

lemma addn_step_keeps:
  assumes "is_heap cmp2 k bh" "1 \<le> k" "length bh = k" "not_better R bh"
  shows "is_heap cmp2 k (addn_step k p bh) \<and> length (addn_step k p bh) = k \<and>
    (\<exists>R'. mset bh + {#p#} + R = mset (addn_step k p bh) + R' \<and> not_better R' (addn_step k p bh))"
proof -
  have worst: "\<not> cmp (fst a) (fst (bh ! 0))" if "a \<in> set bh" for a
    using heap_top_worst[OF assms(1), of a] that assms(3) cmp2_cmp[of a "bh ! 0"] by simp
  have bh0: "bh ! 0 \<in># mset bh" using assms(2,3) by simp
  note rt = heap_replace_top_ok[OF assms(1,2), of p]
  show ?thesis
  proof (cases "cmp (fst (bh ! 0)) (fst p)")
    case True
    then have st: "addn_step k p bh = heap_replace_top cmp2 k bh p" by (simp add: addn_step_def)
    have "\<not> cmp (fst a) (fst (bh ! 0)) \<and> (\<forall>r \<in># R. \<not> cmp (fst a) (fst r))" if "a \<in> set (addn_step k p bh)" for a
    proof -
      have "a \<in># mset (addn_step k p bh)" using that by simp
      then have "a \<in># add_mset p (mset bh - {#bh ! 0#})" unfolding st rt(3) .
      then consider "a = p" | "a \<in> set bh" by (auto dest: in_diffD)
      then show ?thesis
      proof cases
        case 1
        have "\<not> cmp (fst p) (fst (bh ! 0))" using True by (rule cmp_asym)
        moreover have "\<not> cmp (fst (bh ! 0)) (fst r)" if "r \<in># R" for r
          using assms(4) that bh0 by (auto simp: not_better_def)
        ultimately show ?thesis using 1 cmp_weak by blast
      next
        case 2
        with worst assms(4) show ?thesis by (auto simp: not_better_def)
      qed
    qed
    then have "not_better (add_mset (bh ! 0) R) (addn_step k p bh)" by (auto simp: not_better_def)
    moreover have "mset bh + {#p#} + R = mset (addn_step k p bh) + add_mset (bh ! 0) R"
      using rt(3) bh0 by (simp add: st)
    ultimately show ?thesis using rt(1,2) assms(3) st by metis
  next
    case False
    then have st: "addn_step k p bh = bh" by (simp add: addn_step_def)
    have "\<not> cmp (fst a) (fst p)" if "a \<in> set bh" for a
      by (rule cmp_weak[OF worst[OF that] False])
    then have "not_better (add_mset p R) bh" using assms(4) by (auto simp: not_better_def)
    then show ?thesis using assms(1,3) by (intro conjI exI[of _ "add_mset p R"]) (simp_all add: st)
  qed
qed

lemma addn_keeps_best:
  assumes "is_heap cmp2 k bh" "1 \<le> k" "length bh = k" "not_better R bh"
  shows "is_heap cmp2 k (fold (addn_step k) ps bh) \<and> length (fold (addn_step k) ps bh) = k \<and>
    (\<exists>R'. mset bh + mset ps + R = mset (fold (addn_step k) ps bh) + R' \<and>
          not_better R' (fold (addn_step k) ps bh))"
  using assms(1,3,4)
proof (induction ps arbitrary: bh R)
  case Nil
  then show ?case by auto
next
  case (Cons p ps)
  from addn_step_keeps[OF Cons.prems(1) assms(2) Cons.prems(2,3), of p] obtain R1 where
    b1: "is_heap cmp2 k (addn_step k p bh)" "length (addn_step k p bh) = k" "not_better R1 (addn_step k p bh)"
    and m: "mset bh + {#p#} + R = mset (addn_step k p bh) + R1" by blast
  from Cons.IH[OF b1] obtain R2 where
    h: "is_heap cmp2 k (fold (addn_step k) ps (addn_step k p bh))"
    "length (fold (addn_step k) ps (addn_step k p bh)) = k"
    "not_better R2 (fold (addn_step k) ps (addn_step k p bh))"
    and m2: "mset (addn_step k p bh) + mset ps + R1 = mset (fold (addn_step k) ps (addn_step k p bh)) + R2"
    by blast
  have "mset bh + mset (p # ps) + R = (mset bh + {#p#} + R) + mset ps" by simp
  also have "\<dots> = mset (addn_step k p bh) + mset ps + R1" unfolding m by simp
  also note m2
  finally show ?case using h by auto
qed

text \<open>Reordering: the slots behind the shrinking heap hold the entries with a proper id, best first.\<close>

lemma reorder_loop_ok:
  assumes "reorder_loop cmp2 k [i..<k] ii bh = (ii', bh')" "i \<le> k" "ii \<le> i" "length bh = k"
    "is_heap cmp2 (k - i) bh" "sorted_wrt (\<lambda>a b. \<not> cmp2 a b) (drop (k - ii) bh)"
    "\<forall>s \<in> set (drop (k - ii) bh). \<forall>h \<in> set (take (k - i) bh). \<not> cmp2 h s"
    "\<forall>s \<in> set (drop (k - ii) bh). snd s \<noteq> -1"
  shows "ii' \<le> k \<and> length bh' = k \<and> sorted_wrt (\<lambda>a b. \<not> cmp2 a b) (drop (k - ii') bh') \<and>
    mset (drop (k - ii') bh') = mset (drop (k - ii) bh) + filter_mset (\<lambda>p. snd p \<noteq> -1) (mset (take (k - i) bh))"
  using assms
proof (induction "k - i" arbitrary: i ii bh)
  case 0
  then show ?case by auto
next
  case (Suc n)
  then have i: "i < k" "1 \<le> k - i" by auto
  let ?top = "bh ! 0" and ?p = "heap_pop cmp2 (k - i) bh"
  let ?b = "?p[k - ii - 1 := ?top]" and ?ii = "if snd (bh ! 0) \<noteq> -1 then ii + 1 else ii"
  note pop = heap_pop_ok[OF Suc.prems(5) i(2)]
  have step: "reorder_loop cmp2 k [i..<k] ii bh = reorder_loop cmp2 k [Suc i..<k] ?ii ?b"
    using i by (subst upt_conv_Cons) (simp_all add: Let_def)
  have len: "length ?b = k" using pop(2) Suc.prems(4) by simp
  have take_b: "take (k - Suc i) ?b = take (k - i - 1) ?p" using Suc.prems(3) by simp
  have drop_p: "drop (k - ii) ?p = drop (k - ii) bh"
  proof -
    have "drop (k - ii) xs = drop (i - ii) (drop (k - i) xs)" for xs :: "('d \<times> int) list"
      using Suc.prems(3) i by simp
    from this[of ?p] this[of bh] show ?thesis unfolding pop(4) by (rule trans[OF _ sym])
  qed
  have drop_b: "drop (k - ii - 1) ?b = ?top # drop (k - ii) bh" "drop (k - ii) ?b = drop (k - ii) bh"
  proof -
    have k: "k - ii - 1 < length ?p" "Suc (k - ii - 1) = k - ii" using pop(2) Suc.prems(3,4) i by auto
    from k drop_p show "drop (k - ii) ?b = drop (k - ii) bh" by (metis drop_update_cancel lessI)
    have "drop (k - ii - 1) ?b = (drop (k - ii - 1) ?p)[0 := ?top]" using k by (simp add: drop_update_swap)
    also have "\<dots> = ?top # drop (k - ii) ?p" using k by (simp add: Cons_nth_drop_Suc[symmetric])
    finally show "drop (k - ii - 1) ?b = ?top # drop (k - ii) bh" by (simp only: drop_p)
  qed
  have top: "?top \<in> set (take (k - i) bh)" using i Suc.prems(4) by (auto simp: in_set_conv_nth intro!: exI[of _ 0])
  have sub: "mset (take (k - Suc i) ?b) = mset (take (k - i) bh) - {#?top#}" using pop(3) take_b by simp
  have in_bh: "h \<in> set (take (k - i) bh)" if "h \<in> set (take (k - Suc i) ?b)" for h
  proof -
    have "h \<in># mset (take (k - Suc i) ?b)" using that by simp
    then have "h \<in># mset (take (k - i) bh)" unfolding sub by (rule in_diffD)
    then show ?thesis by simp
  qed
  have heap_b: "is_heap cmp2 (k - Suc i) ?b"
  proof -
    have "at1 ?b j = at1 ?p j" if "1 \<le> j" "j \<le> k - Suc i" for j
      using that Suc.prems(3) i by (auto simp: at1_def nth_list_update)
    moreover have "1 \<le> j div 2 \<and> j div 2 \<le> k - Suc i" if "2 \<le> j" "j \<le> k - Suc i" for j using that by auto
    ultimately show ?thesis using pop(1) len by (auto simp: is_heap_def)
  qed
  have ii_b: "?ii \<le> Suc i" using Suc.prems(3) by auto
  have sorted_b: "sorted_wrt (\<lambda>a b. \<not> cmp2 a b) (drop (k - ?ii) ?b)"
    using Suc.prems(6,7) drop_b top by auto
  have above_b: "\<forall>s \<in> set (drop (k - ?ii) ?b). \<forall>h \<in> set (take (k - Suc i) ?b). \<not> cmp2 h s"
  proof (intro ballI)
    fix s h assume s: "s \<in> set (drop (k - ?ii) ?b)" and h: "h \<in> set (take (k - Suc i) ?b)"
    from s drop_b have "s = ?top \<or> s \<in> set (drop (k - ii) bh)" by (auto split: if_splits)
    then show "\<not> cmp2 h s"
      using heap_top_worst[OF Suc.prems(5) in_bh[OF h]] Suc.prems(7) in_bh[OF h] by blast
  qed
  have ids_b: "\<forall>s \<in> set (drop (k - ?ii) ?b). snd s \<noteq> -1"
    using Suc.prems(8) drop_b by auto
  have n: "n = k - Suc i" "Suc i \<le> k" using Suc.hyps(2) i by auto
  note IH = Suc.hyps(1)[OF n(1) Suc.prems(1)[unfolded step] n(2) ii_b len heap_b sorted_b above_b ids_b]
  have "mset (take (k - i) bh) = add_mset ?top (mset (take (k - Suc i) ?b))"
    using sub top by simp
  then have "mset (drop (k - ?ii) ?b) + filter_mset (\<lambda>p. snd p \<noteq> -1) (mset (take (k - Suc i) ?b))
      = mset (drop (k - ii) bh) + filter_mset (\<lambda>p. snd p \<noteq> -1) (mset (take (k - i) bh))"
    using drop_b by auto
  with IH show ?case by (simp only:)
qed

text \<open>The whole of \<open>heap_reorder\<close>.\<close>

lemma heap_reorder_ok:
  assumes "is_heap cmp2 k bh" "length bh = k"
  shows "\<exists>S. heap_reorder cmp2 neutral k bh = (length S, S @ replicate (k - length S) (neutral, -1)) \<and>
    sorted_wrt (\<lambda>a b. \<not> cmp2 a b) S \<and> mset S = filter_mset (\<lambda>p. snd p \<noteq> -1) (mset bh)"
proof -
  obtain ii b where r: "reorder_loop cmp2 k [0..<k] 0 bh = (ii, b)" by fastforce
  have l: "ii \<le> k" "length b = k" "sorted_wrt (\<lambda>a b. \<not> cmp2 a b) (drop (k - ii) b)"
    "mset (drop (k - ii) b) = filter_mset (\<lambda>p. snd p \<noteq> -1) (mset bh)"
    using reorder_loop_ok[OF r] assms by simp_all
  let ?S = "drop (k - ii) b"
  have S: "slice (k - ii) ii b = ?S" "length ?S = ii" using l by (simp_all add: slice_def)
  have "blit 0 ?S b = ?S @ drop ii b" using S by (simp add: blit_def)
  moreover have "fold (\<lambda>i bh. bh[i := (neutral, -1)]) [ii..<k] (?S @ drop ii b) = ?S @ replicate (k - ii) (neutral, -1)"
    using l S by (subst fold_fill) simp_all
  ultimately have "heap_reorder cmp2 neutral k bh = (length ?S, ?S @ replicate (k - length ?S) (neutral, -1))"
    using S by (simp add: heap_reorder_def r)
  with l show ?thesis by blast
qed

end

section \<open>The comparators of the library\<close>

interpretation cmax: heap_topk "CMax_cmp2 :: 'd::linorder \<times> int \<Rightarrow> _" CMax_cmp
  by unfold_locales (auto simp: CMax_cmp2_def CMax_cmp_def)

interpretation cmin: heap_topk "CMin_cmp2 :: 'd::linorder \<times> int \<Rightarrow> _" CMin_cmp
  by unfold_locales (auto simp: CMin_cmp2_def CMin_cmp_def)

lemma heap_addn_fold:
  "heap_addn CMax_cmp CMax_cmp2 k bh x ids n = fold (cmax.addn_step k) (input_pairs x ids n) bh"
  "heap_addn CMin_cmp CMin_cmp2 k bh x ids n = fold (cmin.addn_step k) (input_pairs x ids n) bh"
  unfolding heap_addn_def cmax.addn_step_def cmin.addn_step_def by simp_all

lemma is_heap_replicate: "(\<And>a. \<not> cmp2 a a) \<Longrightarrow> is_heap cmp2 k (replicate k c)"
  by (auto simp: is_heap_def at1_def)

lemma heap_heapify_empty: "length bh = k \<Longrightarrow> heap_heapify cmp2 neutral k bh x ids 0 = replicate k (neutral, -1)"
  by (simp add: heap_heapify_def fold_fill)

end
