(* ===== verification/HeapArrays.thy ===== *)
theory HeapArrays
  imports HeapOps
begin

text \<open>
  The variants of \<open>heap_pop\<close>, \<open>heap_push\<close> and \<open>heap_replace_top\<close> on two parallel arrays, which repeat
  the loops of the variants on pairs, and the proof that they compute the same entries. The top-k
  pipeline heapify, addn, reorder on top of them.
\<close>

section \<open>Operations on two arrays\<close>

function sift_down2 ::
  "('d \<times> 'i \<Rightarrow> 'd \<times> 'i \<Rightarrow> bool) \<Rightarrow> nat \<Rightarrow> 'd \<Rightarrow> 'i \<Rightarrow> nat \<Rightarrow> 'd list \<Rightarrow> 'i list \<Rightarrow> 'd list \<times> 'i list \<times> nat" where
  "sift_down2 cmp2 k val idv i vs ids =
     (let i1 = 2 * i; i2 = i1 + 1
      in if i1 > k \<or> i = 0 then (vs, ids, i)
         else if i2 = k + 1 \<or> cmp2 (at1 vs i1, at1 ids i1) (at1 vs i2, at1 ids i2)
         then if cmp2 (val, idv) (at1 vs i1, at1 ids i1) then (vs, ids, i)
              else sift_down2 cmp2 k val idv i1 (put1 vs i (at1 vs i1)) (put1 ids i (at1 ids i1))
         else if cmp2 (val, idv) (at1 vs i2, at1 ids i2) then (vs, ids, i)
              else sift_down2 cmp2 k val idv i2 (put1 vs i (at1 vs i2)) (put1 ids i (at1 ids i2)))"
  by pat_completeness auto
termination by (relation "measure (\<lambda>(cmp2, k, val, idv, i, vs, ids). k + 1 - i)") auto

declare sift_down2.simps [simp del]

definition heap_pop2 ::
  "('d \<times> 'i \<Rightarrow> 'd \<times> 'i \<Rightarrow> bool) \<Rightarrow> nat \<Rightarrow> 'd list \<Rightarrow> 'i list \<Rightarrow> 'd list \<times> 'i list" where
  "heap_pop2 cmp2 k vs ids =
     (let val = at1 vs k; idv = at1 ids k;
          (vs', ids', i) = sift_down2 cmp2 k val idv 1 vs ids
      in (put1 vs' i (at1 vs' k), put1 ids' i (at1 ids' k)))"

definition heap_replace_top2 ::
  "('d \<times> 'i \<Rightarrow> 'd \<times> 'i \<Rightarrow> bool) \<Rightarrow> nat \<Rightarrow> 'd list \<Rightarrow> 'i list \<Rightarrow> 'd \<Rightarrow> 'i \<Rightarrow> 'd list \<times> 'i list" where
  "heap_replace_top2 cmp2 k vs ids val idv =
     (let (vs', ids', i) = sift_down2 cmp2 k val idv 1 vs ids
      in (put1 vs' i val, put1 ids' i idv))"

function sift_up2 ::
  "('d \<times> 'i \<Rightarrow> 'd \<times> 'i \<Rightarrow> bool) \<Rightarrow> 'd \<Rightarrow> 'i \<Rightarrow> nat \<Rightarrow> 'd list \<Rightarrow> 'i list \<Rightarrow> 'd list \<times> 'i list \<times> nat" where
  "sift_up2 cmp2 val idv i vs ids =
     (if i > 1
      then let i_father = i div 2
           in if \<not> cmp2 (val, idv) (at1 vs i_father, at1 ids i_father) then (vs, ids, i)
              else sift_up2 cmp2 val idv i_father (put1 vs i (at1 vs i_father)) (put1 ids i (at1 ids i_father))
      else (vs, ids, i))"
  by pat_completeness auto
termination by (relation "measure (\<lambda>(cmp2, val, idv, i, vs, ids). i)") auto

declare sift_up2.simps [simp del]

definition heap_push2 ::
  "('d \<times> 'i \<Rightarrow> 'd \<times> 'i \<Rightarrow> bool) \<Rightarrow> nat \<Rightarrow> 'd list \<Rightarrow> 'i list \<Rightarrow> 'd \<Rightarrow> 'i \<Rightarrow> 'd list \<times> 'i list" where
  "heap_push2 cmp2 k vs ids val idv =
     (let (vs', ids', i) = sift_up2 cmp2 val idv k vs ids
      in (put1 vs' i val, put1 ids' i idv))"

section \<open>Both layouts agree\<close>

lemma at1_zip: "1 \<le> i \<Longrightarrow> i \<le> length vs \<Longrightarrow> length vs = length ids \<Longrightarrow> at1 (zip vs ids) i = (at1 vs i, at1 ids i)"
  by (simp add: at1_def)

lemma zip_put1: "zip (put1 vs i a) (put1 ids i b) = put1 (zip vs ids) i (a, b)"
  by (simp add: put1_def update_zip)

lemma sift_down2_zip:
  "k \<le> length vs \<Longrightarrow> length vs = length ids \<Longrightarrow> sift_down2 cmp2 k val idv i vs ids = (vs', ids', i') \<Longrightarrow>
    sift_down cmp2 k (val, idv) i (zip vs ids) = (zip vs' ids', i') \<and>
    length vs' = length vs \<and> length ids' = length ids"
proof (induction cmp2 k val idv i vs ids arbitrary: vs' ids' i' rule: sift_down2.induct)
  case (1 cmp2 k val idv i vs ids)
  note sd = "1.prems"(3)[unfolded sift_down2.simps[of cmp2 k val idv i vs ids]]
  show ?case
  proof (cases "2 * i > k \<or> i = 0")
    case True
    with sd show ?thesis by (subst sift_down.simps) (auto simp: Let_def)
  next
    case False
    then have b: "1 \<le> 2 * i" "2 * i \<le> length vs" using "1.prems"(1) by auto
    have z1: "at1 (zip vs ids) (2 * i) = (at1 vs (2 * i), at1 ids (2 * i))"
      by (rule at1_zip[OF b "1.prems"(2)])
    have z2: "at1 (zip vs ids) (2 * i + 1) = (at1 vs (2 * i + 1), at1 ids (2 * i + 1))" if "2 * i + 1 \<noteq> k + 1"
      using that False "1.prems"(1,2) by (intro at1_zip) auto
    show ?thesis
    proof (cases "2 * i + 1 = k + 1 \<or> cmp2 (at1 vs (2 * i), at1 ids (2 * i)) (at1 vs (2 * i + 1), at1 ids (2 * i + 1))")
      case left: True
      then have "2 * i + 1 = k + 1 \<or> cmp2 (at1 (zip vs ids) (2 * i)) (at1 (zip vs ids) (2 * i + 1))"
        using z1 z2 by (cases "2 * i = k") simp_all
      then show ?thesis
        using False left sd z1 "1.prems"(1,2) "1.IH"(1)[OF refl refl False left]
        by (subst sift_down.simps) (auto simp: Let_def zip_put1 split: if_splits)
    next
      case right: False
      then have "\<not> (2 * i + 1 = k + 1 \<or> cmp2 (at1 (zip vs ids) (2 * i)) (at1 (zip vs ids) (2 * i + 1)))"
        using z1 z2 by (cases "2 * i = k") simp_all
      then show ?thesis
        using False right sd z1 z2 "1.prems"(1,2) "1.IH"(2)[OF refl refl False right]
        by (subst sift_down.simps) (auto simp: Let_def zip_put1 split: if_splits)
    qed
  qed
qed

lemma sift_up2_zip:
  "i \<le> length vs \<Longrightarrow> length vs = length ids \<Longrightarrow> sift_up2 cmp2 val idv i vs ids = (vs', ids', i') \<Longrightarrow>
    sift_up cmp2 (val, idv) i (zip vs ids) = (zip vs' ids', i') \<and>
    length vs' = length vs \<and> length ids' = length ids"
proof (induction cmp2 val idv i vs ids arbitrary: vs' ids' i' rule: sift_up2.induct)
  case (1 cmp2 val idv i vs ids)
  note su = "1.prems"(3)[unfolded sift_up2.simps[of cmp2 val idv i vs ids]]
  show ?case
  proof (cases "i > 1")
    case True
    then have z: "at1 (zip vs ids) (i div 2) = (at1 vs (i div 2), at1 ids (i div 2))"
      using "1.prems"(1,2) by (intro at1_zip) auto
    have "i div 2 \<le> length vs" using "1.prems"(1) by auto
    then show ?thesis using True su z "1.prems"(1,2) "1.IH"[OF True refl]
      by (subst sift_up.simps) (auto simp: Let_def zip_put1 split: if_splits)
  next
    case False
    with su show ?thesis by (subst sift_up.simps) auto
  qed
qed


lemma heap2_zip:
  assumes "1 \<le> k" "k \<le> length vs" "length vs = length ids"
  shows "(\<lambda>(vs', ids'). zip vs' ids') (heap_pop2 cmp2 k vs ids) = heap_pop cmp2 k (zip vs ids)"
    "(\<lambda>(vs', ids'). zip vs' ids') (heap_push2 cmp2 k vs ids x xid) = heap_push cmp2 k (zip vs ids) (x, xid)"
    "(\<lambda>(vs', ids'). zip vs' ids') (heap_replace_top2 cmp2 k vs ids x xid)
      = heap_replace_top cmp2 k (zip vs ids) (x, xid)"
proof -
  obtain v1 d1 i1 where sd: "sift_down2 cmp2 k (at1 vs k) (at1 ids k) 1 vs ids = (v1, d1, i1)" by (metis prod_cases3)
  obtain v2 d2 i2 where sr: "sift_down2 cmp2 k x xid 1 vs ids = (v2, d2, i2)" by (metis prod_cases3)
  obtain v3 d3 i3 where su: "sift_up2 cmp2 x xid k vs ids = (v3, d3, i3)" by (metis prod_cases3)
  have k: "at1 (zip vs ids) k = (at1 vs k, at1 ids k)" by (rule at1_zip[OF assms])
  from sift_down2_zip[OF assms(2,3) sd] have
    a: "sift_down cmp2 k (at1 (zip vs ids) k) 1 (zip vs ids) = (zip v1 d1, i1)" "length v1 = length vs" "length d1 = length ids"
    by (simp_all add: k)
  have "at1 (zip v1 d1) k = (at1 v1 k, at1 d1 k)" using a assms by (intro at1_zip) simp_all
  with a show "(\<lambda>(vs', ids'). zip vs' ids') (heap_pop2 cmp2 k vs ids) = heap_pop cmp2 k (zip vs ids)"
    by (simp add: heap_pop2_def heap_pop_def sd[unfolded One_nat_def] Let_def zip_put1)
  from sift_up2_zip[OF assms(2,3) su] show
    "(\<lambda>(vs', ids'). zip vs' ids') (heap_push2 cmp2 k vs ids x xid) = heap_push cmp2 k (zip vs ids) (x, xid)"
    by (simp add: heap_push2_def heap_push_def su zip_put1)
  from sift_down2_zip[OF assms(2,3) sr] show
    "(\<lambda>(vs', ids'). zip vs' ids') (heap_replace_top2 cmp2 k vs ids x xid)
      = heap_replace_top cmp2 k (zip vs ids) (x, xid)"
    by (simp add: heap_replace_top2_def heap_replace_top_def sr[unfolded One_nat_def] zip_put1)
qed

lemma length_heap2:
  assumes "1 \<le> k" "k \<le> length vs" "length vs = length ids"
  shows "length (fst (heap_pop2 cmp2 k vs ids)) = length vs" "length (snd (heap_pop2 cmp2 k vs ids)) = length ids"
    "length (fst (heap_push2 cmp2 k vs ids x xid)) = length vs" "length (snd (heap_push2 cmp2 k vs ids x xid)) = length ids"
proof -
  obtain v1 d1 i1 where sd: "sift_down2 cmp2 k (at1 vs k) (at1 ids k) 1 vs ids = (v1, d1, i1)" by (metis prod_cases3)
  obtain v3 d3 i3 where su: "sift_up2 cmp2 x xid k vs ids = (v3, d3, i3)" by (metis prod_cases3)
  show "length (fst (heap_pop2 cmp2 k vs ids)) = length vs" "length (snd (heap_pop2 cmp2 k vs ids)) = length ids"
    using sift_down2_zip[OF assms(2,3) sd] by (simp_all add: heap_pop2_def sd[unfolded One_nat_def] Let_def)
  show "length (fst (heap_push2 cmp2 k vs ids x xid)) = length vs" "length (snd (heap_push2 cmp2 k vs ids x xid)) = length ids"
    using sift_up2_zip[OF assms(2,3) su] by (simp_all add: heap_push2_def su)
qed

text \<open>The heap operations on two parallel arrays and those on an array of pairs compute the same
  entries, for any comparator.\<close>

theorem heap_layouts_agree:
  assumes "1 \<le> k" "k \<le> length vs" "length vs = length ids"
  shows "(\<lambda>(vs', ids'). zip vs' ids') (heap_pop2 cmp2 k vs ids) = heap_pop cmp2 k (zip vs ids) \<and>
    (\<lambda>(vs', ids'). zip vs' ids') (heap_push2 cmp2 k vs ids x xid) = heap_push cmp2 k (zip vs ids) (x, xid) \<and>
    (\<lambda>(vs', ids'). zip vs' ids') (heap_replace_top2 cmp2 k vs ids x xid)
      = heap_replace_top cmp2 k (zip vs ids) (x, xid)"
  using heap2_zip[OF assms] by blast

theorem heap_layouts_agree_witness:
  "(\<lambda>(vs', ids'). zip vs' ids') (heap_pop2 CMax_cmp2 3 [9, 4, 7] [0, 1, 2 :: int])
    = heap_pop CMax_cmp2 3 (zip [9, 4, 7 :: int] [0, 1, 2])"
  using heap_layouts_agree[of 3 "[9, 4, 7 :: int]" "[0, 1, 2 :: int]" CMax_cmp2 0 0] by simp

section \<open>Selecting the k best\<close>

text \<open>For any heap with a threshold: a heap of size \<open>k\<close> that has kept the best of \<open>k\<close> neutral entries
  and of \<open>A\<close>, and a list of the best \<open>k\<close> entries of \<open>A\<close> (all of them when there are fewer), best
  first.\<close>

context heap_topk begin

definition kept :: "nat \<Rightarrow> 'd \<Rightarrow> ('d \<times> int) multiset \<Rightarrow> ('d \<times> int) list \<Rightarrow> bool" where
  "kept k neutral A bh \<longleftrightarrow> is_heap cmp2 k bh \<and> length bh = k \<and>
     (\<exists>R. replicate_mset k (neutral, -1) + A = mset bh + R \<and> not_better R bh)"

definition best :: "nat \<Rightarrow> ('d \<times> int) multiset \<Rightarrow> ('d \<times> int) list \<Rightarrow> bool" where
  "best k A S \<longleftrightarrow> length S = min k (size A) \<and> sorted_wrt (\<lambda>a b. \<not> cmp2 a b) S \<and>
     (\<exists>R. A = mset S + R \<and> not_better R S)"

lemma kept_empty: "kept k neutral {#} (replicate k (neutral, -1))"
proof -
  have "is_heap cmp2 k (replicate k (neutral, -1))" by (intro is_heap_replicate) (rule ab_irrefl)
  then show ?thesis by (auto simp: kept_def not_better_def)
qed

lemma kept_step:
  assumes "kept k neutral A bh" "1 \<le> k"
  shows "kept k neutral (add_mset p A) (addn_step k p bh)"
proof -
  from assms(1) obtain R where R: "is_heap cmp2 k bh" "length bh = k"
    "replicate_mset k (neutral, -1) + A = mset bh + R" "not_better R bh" by (auto simp: kept_def)
  from addn_step_keeps[OF R(1) assms(2) R(2,4), of p] obtain R' where
    R': "is_heap cmp2 k (addn_step k p bh)" "length (addn_step k p bh) = k"
    "mset bh + {#p#} + R = mset (addn_step k p bh) + R'" "not_better R' (addn_step k p bh)" by blast
  have "replicate_mset k (neutral, -1) + add_mset p A = (replicate_mset k (neutral, -1) + A) + {#p#}" by simp
  also have "\<dots> = mset bh + {#p#} + R" unfolding R(3) by simp
  finally show ?thesis using R' by (auto simp: kept_def)
qed

lemma kept_fold:
  assumes "1 \<le> k" "kept k neutral A bh"
  shows "kept k neutral (mset ps + A) (fold (addn_step k) ps bh)"
  using assms(2)
proof (induction ps arbitrary: A bh)
  case (Cons p ps)
  from Cons.IH[OF kept_step[OF Cons.prems assms(1), of p]] show ?case by simp
qed simp

lemma kept_reorder:
  assumes "kept k neutral A h" "\<forall>p \<in># A. cmp neutral (fst p) \<and> snd p \<noteq> -1"
  shows "\<exists>S. heap_reorder cmp2 neutral k h = (length S, S @ replicate (k - length S) (neutral, -1)) \<and> best k A S"
proof -
  let ?P = "\<lambda>p :: 'd \<times> int. snd p \<noteq> -1"
  from assms(1) obtain R where R: "is_heap cmp2 k h" "length h = k"
    "replicate_mset k (neutral, -1) + A = mset h + R" "not_better R h" by (auto simp: kept_def)
  from heap_reorder_ok[OF R(1,2)] obtain S where
    S: "heap_reorder cmp2 neutral k h = (length S, S @ replicate (k - length S) (neutral, -1))"
    "sorted_wrt (\<lambda>a b. \<not> cmp2 a b) S" "mset S = filter_mset ?P (mset h)" by blast
  have ins: "filter_mset ?P A = A"
    using assms(2) by (auto simp: filter_mset_eq_conv)
  have m: "A = mset S + filter_mset ?P R"
  proof -
    have e: "filter_mset ?P (replicate_mset k (neutral, -1)) = {#}" by (induction k) simp_all
    show ?thesis using arg_cong[OF R(3), of "filter_mset ?P"]
      unfolding filter_union_mset e ins S(3) by (simp only: add_0)
  qed
  moreover have "not_better (filter_mset ?P R) S"
    unfolding not_better_def
  proof (intro ballI)
    fix r a assume r: "r \<in># filter_mset ?P R" and "a \<in> set S"
    then have "a \<in># filter_mset ?P (mset h)" unfolding S(3)[symmetric] by simp
    then have "a \<in> set h" by simp
    with R(4) r show "\<not> cmp (fst a) (fst r)" by (auto simp: not_better_def)
  qed
  moreover have "length S = min k (size A)"
  proof -
    have n: "size A = length S + size (filter_mset ?P R)" using arg_cong[OF m, of size] by simp
    have le: "length S \<le> k" using arg_cong[OF S(3), of size] R(2)
      by (metis size_filter_mset_lesseq size_mset)
    show ?thesis
    proof (cases "length S < k")
      case True
      then have "size (filter_mset ?P (mset h)) < size (mset h)" using S(3) R(2) by (metis size_mset)
      then have "filter_mset ?P (mset h) \<noteq> mset h" by auto
      then obtain p where p: "p \<in># mset h" "snd p = -1" by (auto simp: filter_mset_eq_conv)
      from p(1) have "p \<in># replicate_mset k (neutral, -1) + A" unfolding R(3) by simp
      with p(2) assms(2) have pn: "p = (neutral, -1)" by (auto split: if_splits)
      have "filter_mset ?P R = {#}"
      proof (rule ccontr)
        assume "filter_mset ?P R \<noteq> {#}"
        then obtain r where r: "r \<in># filter_mset ?P R" by auto
        then have "r \<in># A" unfolding m by simp
        then have "cmp neutral (fst r)" using assms(2) by simp
        moreover have "\<not> cmp (fst p) (fst r)" using R(4) r p(1) by (simp add: not_better_def)
        ultimately show False using pn by simp
      qed
      with n True show ?thesis by simp
    qed (use le n in simp)
  qed
  ultimately have "best k A S" using S(2) by (auto simp: best_def)
  with S(1) show ?thesis by blast
qed

end

text \<open>For L2 distances: \<open>S\<close> lists the \<open>k\<close> entries of \<open>A\<close> of smallest value in ascending order.\<close>

definition topk :: "nat \<Rightarrow> ('d::linorder \<times> int) multiset \<Rightarrow> ('d \<times> int) list \<Rightarrow> bool" where
  "topk k A S \<longleftrightarrow> length S = min k (size A) \<and> sorted (map fst S) \<and>
     (\<exists>R. A = mset S + R \<and> (\<forall>r \<in># R. \<forall>a \<in> set S. fst a \<le> fst r))"

lemma best_topk: "cmax.best k A S \<Longrightarrow> topk k A S"
proof -
  assume b: "cmax.best k A S"
  then have "sorted (map fst S)"
    unfolding sorted_map cmax.best_def by (elim conjE) (rule sorted_wrt_mono_rel, auto simp: CMax_cmp2_def)
  with b show ?thesis by (auto simp: topk_def cmax.best_def cmax.not_better_def CMax_cmp_def not_less)
qed

abbreviation kept_best :: "nat \<Rightarrow> 'd::linorder \<Rightarrow> ('d \<times> int) multiset \<Rightarrow> ('d \<times> int) list \<Rightarrow> bool" where
  "kept_best \<equiv> cmax.kept"

lemmas kept_best_def = cmax.kept_def
lemmas kept_best_empty = cmax.kept_empty
lemmas kept_best_step = cmax.kept_step
lemmas kept_best_fold = cmax.kept_fold

lemma kept_best_reorder:
  assumes "kept_best k neutral A h" "\<forall>p \<in># A. fst p < neutral \<and> snd p \<noteq> -1"
  shows "\<exists>S. heap_reorder CMax_cmp2 neutral k h = (length S, S @ replicate (k - length S) (neutral, -1)) \<and> topk k A S"
proof -
  have "\<forall>p \<in># A. CMax_cmp neutral (fst p) \<and> snd p \<noteq> -1" using assms(2) by (simp add: CMax_cmp_def)
  from cmax.kept_reorder[OF assms(1) this] best_topk show ?thesis by blast
qed

lemma kept_best_addn:
  "1 \<le> k \<Longrightarrow> kept_best k neutral (mset (input_pairs x ids n))
    (heap_addn CMax_cmp CMax_cmp2 k (replicate k (neutral, -1)) x ids n)"
  using kept_best_fold[OF _ kept_best_empty, where ps = "input_pairs x ids n" and k = k] by (simp add: heap_addn_fold)

text \<open>C10. The pipeline of the library for L2 distances: \<open>heap_heapify\<close> with no input, \<open>heap_addn\<close> of
  \<open>n\<close> values below the neutral one with ids other than -1, \<open>heap_reorder\<close>. The result holds the
  \<open>min k n\<close> smallest values with their ids, in ascending order, followed by (neutral, -1).\<close>

theorem topk_smallest:
  assumes "1 \<le> k" "length bh = k" "\<forall>p \<in> set (input_pairs x ids n). fst p < neutral \<and> snd p \<noteq> -1"
  shows "\<exists>S R. heap_reorder CMax_cmp2 neutral k
      (heap_addn CMax_cmp CMax_cmp2 k (heap_heapify CMax_cmp2 neutral k bh [] None 0) x ids n)
    = (length S, S @ replicate (k - length S) (neutral, -1)) \<and> length S = min k n \<and>
    sorted (map fst S) \<and> mset (input_pairs x ids n) = mset S + R \<and>
    (\<forall>r \<in># R. \<forall>a \<in> set S. fst a \<le> fst r)"
proof -
  have "\<forall>p \<in># mset (input_pairs x ids n). fst p < neutral \<and> snd p \<noteq> -1" using assms(3) by simp
  from kept_best_reorder[OF kept_best_addn[OF assms(1)] this] show ?thesis
    unfolding heap_heapify_empty[OF assms(2)] by (auto simp: topk_def input_pairs_def)
qed

theorem topk_smallest_witness:
  "\<exists>S. heap_reorder CMax_cmp2 (100 :: int) 2
      (heap_addn CMax_cmp CMax_cmp2 2 (heap_heapify CMax_cmp2 100 2 [(0, 0), (0, 0)] [] None 0) [5, 3, 4] None 3)
    = (length S, S @ replicate (2 - length S) (100, -1)) \<and> length S = 2"
proof -
  have "\<forall>p \<in> set (input_pairs [5, 3, 4] None 3). fst p < (100 :: int) \<and> snd p \<noteq> -1"
    by (auto simp: input_pairs_def numeral_3_eq_3 less_Suc_eq)
  from topk_smallest[OF _ _ this, of 2 "[(0, 0), (0, 0)]"] show ?thesis by auto
qed

text \<open>When \<open>heap_heapify\<close> is given fewer elements than it has room for, the neutral entries are put
  below smaller values: the result is not a max-heap.\<close>

lemma heapify_partial_not_heap:
  "\<not> is_heap CMax_cmp2 2 (heap_heapify CMax_cmp2 (100 :: int) 2 [(0, 0), (0, 0)] [5] None 1)"
proof -
  have "heap_heapify CMax_cmp2 (100 :: int) 2 [(0, 0), (0, 0)] [5] None 1 = [(5, 0), (100, -1)]"
    by (simp add: heap_heapify_def heap_push_def sift_up.simps input_pairs_def put1_def numeral_2_eq_2)
  then show ?thesis by (simp add: is_heap_def at1_def CMax_cmp2_def) (rule exI[of _ 2], simp)
qed

end
