(* ===== verification/Flat.thy ===== *)
theory Flat
  imports Prelude
begin

text \<open>
  \<open>IndexFlat\<close> (\<open>faiss/IndexFlat.cpp\<close>, \<open>faiss/IndexFlatCodes.cpp\<close>) as the storage of the graph indexes: the
  vectors one after the other, and the distance computers on them. A code is the vector itself, so the
  code array is kept as a list of floats, with \<open>d\<close> of them per code.
\<close>

section \<open>The storage\<close>

datatype metric = METRIC_INNER_PRODUCT | METRIC_L2

record flat =
  fl_d :: nat
  fl_metric :: metric
  fl_ntotal :: nat
  fl_codes :: "float_t list"

definition IndexFlat :: "nat \<Rightarrow> metric \<Rightarrow> flat" where
  "IndexFlat dm m = \<lparr> fl_d = dm, fl_metric = m, fl_ntotal = 0, fl_codes = [] \<rparr>"

text \<open>\<open>codes.resize\<close> and the copy of the new vectors to the end.\<close>

definition flat_add :: "flat \<Rightarrow> nat \<Rightarrow> float_t list \<Rightarrow> flat" where
  "flat_add f n x =
     (if n = 0 then f
      else let codes = take ((fl_ntotal f + n) * fl_d f)
                         (fl_codes f @ replicate ((fl_ntotal f + n) * fl_d f - length (fl_codes f)) 0)
           in f\<lparr> fl_codes := blit (fl_ntotal f * fl_d f) (take (n * fl_d f) x) codes, fl_ntotal := fl_ntotal f + n \<rparr>)"

definition flat_reset :: "flat \<Rightarrow> flat" where
  "flat_reset f = f\<lparr> fl_codes := [], fl_ntotal := 0 \<rparr>"

text \<open>\<open>IndexFlat::reconstruct\<close> checks the upper bound of the key only.\<close>

definition flat_reconstruct :: "flat \<Rightarrow> int \<Rightarrow> float_t list result" where
  "flat_reconstruct f key =
     throw_unless (key < int (fl_ntotal f)) ''key < ntotal''
       (if key < 0 then Inl OutOfBounds else Inr (row (fl_d f) (nat key) (fl_codes f)))"

definition flat_reconstruct_n :: "flat \<Rightarrow> int \<Rightarrow> int \<Rightarrow> float_t list result" where
  "flat_reconstruct_n f i0 ni =
     throw_unless (ni = 0 \<or> i0 \<ge> 0 \<and> i0 + ni \<le> int (fl_ntotal f)) ''ni == 0 || (i0 >= 0 && i0 + ni <= ntotal)''
       (Inr (if ni > 0 then slice (nat i0 * fl_d f) (nat ni * fl_d f) (fl_codes f) else []))"

text \<open>Removal of the vectors that the selector names: the others move to the front.\<close>

definition remove_step :: "(nat \<Rightarrow> bool) \<Rightarrow> nat \<Rightarrow> nat \<Rightarrow> nat \<times> float_t list \<Rightarrow> nat \<times> float_t list" where
  "remove_step sel dm i s =
     (let (j, codes) = s
      in if sel i then (j, codes)
         else (j + 1, if i > j then blit (j * dm) (row dm i codes) codes else codes))"

definition flat_remove_ids :: "flat \<Rightarrow> (nat \<Rightarrow> bool) \<Rightarrow> flat \<times> nat" where
  "flat_remove_ids f sel =
     (let (j, codes) = fold (remove_step sel (fl_d f)) [0..<fl_ntotal f] (0, fl_codes f);
          nremove = fl_ntotal f - j
      in (if nremove > 0 then f\<lparr> fl_ntotal := j, fl_codes := take (j * fl_d f) codes \<rparr> else f\<lparr> fl_codes := codes \<rparr>, nremove))"

section \<open>Distances\<close>

fun fvec_inner_product :: "float_t list \<Rightarrow> float_t list \<Rightarrow> float_t" where
  "fvec_inner_product (x # xs) (y # ys) = x * y + fvec_inner_product xs ys"
| "fvec_inner_product _ _ = 0"

text \<open>The distance computer of the storage with a query, on vertices and between two of them; for
  a similarity it is negated by \<open>storage_distance_computer\<close>.\<close>

definition flat_vec :: "flat \<Rightarrow> nat \<Rightarrow> float_t list" where
  "flat_vec f i = row (fl_d f) i (fl_codes f)"

definition flat_dis :: "flat \<Rightarrow> float_t list \<Rightarrow> nat \<Rightarrow> float_t" where
  "flat_dis f q i =
     (case fl_metric f of METRIC_L2 \<Rightarrow> fvec_L2sqr q (flat_vec f i)
      | METRIC_INNER_PRODUCT \<Rightarrow> fvec_inner_product q (flat_vec f i))"

definition flat_symmetric_dis :: "flat \<Rightarrow> nat \<Rightarrow> nat \<Rightarrow> float_t" where
  "flat_symmetric_dis f i j =
     (case fl_metric f of METRIC_L2 \<Rightarrow> fvec_L2sqr (flat_vec f j) (flat_vec f i)
      | METRIC_INNER_PRODUCT \<Rightarrow> fvec_inner_product (flat_vec f j) (flat_vec f i))"

definition is_similarity_metric :: "metric \<Rightarrow> bool" where
  "is_similarity_metric m \<longleftrightarrow> m = METRIC_INNER_PRODUCT"

definition storage_dis :: "flat \<Rightarrow> float_t list \<Rightarrow> nat \<Rightarrow> float_t" where
  "storage_dis f q i = (if is_similarity_metric (fl_metric f) then - flat_dis f q i else flat_dis f q i)"

definition storage_symmetric_dis :: "flat \<Rightarrow> nat \<Rightarrow> nat \<Rightarrow> float_t" where
  "storage_symmetric_dis f i j =
     (if is_similarity_metric (fl_metric f) then - flat_symmetric_dis f i j else flat_symmetric_dis f i j)"

section \<open>The vectors of a storage\<close>

definition flat_ok :: "flat \<Rightarrow> bool" where
  "flat_ok f \<longleftrightarrow> length (fl_codes f) = fl_ntotal f * fl_d f"

definition flat_rows :: "flat \<Rightarrow> float_t list list" where
  "flat_rows f = map (flat_vec f) [0..<fl_ntotal f]"

lemma flat_ok_empty [simp]: "flat_ok (IndexFlat dm m)" "flat_ok (flat_reset f)"
  by (simp_all add: flat_ok_def IndexFlat_def flat_reset_def)

lemma flat_add_codes:
  assumes "flat_ok f" "n * fl_d f \<le> length x"
  shows "flat_add f n x = f\<lparr> fl_codes := fl_codes f @ take (n * fl_d f) x, fl_ntotal := fl_ntotal f + n \<rparr>"
proof (cases "n = 0")
  case False
  let ?o = "fl_ntotal f * fl_d f"
  have e: "(fl_ntotal f + n) * fl_d f = ?o + n * fl_d f" by (simp add: algebra_simps)
  have "blit ?o (take (n * fl_d f) x) (fl_codes f @ replicate (n * fl_d f) 0) = fl_codes f @ take (n * fl_d f) x"
    using assms by (simp add: blit_def flat_ok_def)
  then show ?thesis using False assms(1) by (simp add: flat_add_def e flat_ok_def Let_def)
qed (simp add: flat_add_def)

lemma flat_add_ok:
  assumes "flat_ok f" "n * fl_d f \<le> length x"
  shows "flat_ok (flat_add f n x)" "fl_ntotal (flat_add f n x) = fl_ntotal f + n" "fl_d (flat_add f n x) = fl_d f"
    "fl_metric (flat_add f n x) = fl_metric f"
    "i < fl_ntotal f \<Longrightarrow> flat_vec (flat_add f n x) i = flat_vec f i"
    "i < n \<Longrightarrow> flat_vec (flat_add f n x) (fl_ntotal f + i) = row (fl_d f) i x"
proof -
  note A = flat_add_codes[OF assms]
  show "flat_ok (flat_add f n x)" "fl_ntotal (flat_add f n x) = fl_ntotal f + n" "fl_d (flat_add f n x) = fl_d f"
    "fl_metric (flat_add f n x) = fl_metric f"
    using assms by (simp_all add: A flat_ok_def algebra_simps)
  show "flat_vec (flat_add f n x) i = flat_vec f i" if "i < fl_ntotal f"
    using row_bound[OF that, of "fl_codes f" "fl_d f"] assms(1) by (simp add: A flat_vec_def flat_ok_def slice_append1)
  show "flat_vec (flat_add f n x) (fl_ntotal f + i) = row (fl_d f) i x" if "i < n"
  proof -
    have "i * fl_d f + fl_d f \<le> n * fl_d f" using row_bound[OF that, of "replicate (n * fl_d f) ()" "fl_d f"] by simp
    then have "take (fl_d f) (drop (i * fl_d f) (take (n * fl_d f) x)) = take (fl_d f) (drop (i * fl_d f) x)"
      by (simp add: drop_take min_def)
    then show ?thesis using assms(1) by (simp add: A flat_vec_def slice_def flat_ok_def algebra_simps)
  qed
qed

section \<open>Removal\<close>

lemma row_blit:
  assumes "j * dm + dm \<le> length xs" "length ys = dm" "i * dm + dm \<le> length xs"
  shows "row dm i (blit (j * dm) ys xs) = (if i = j then ys else row dm i xs)"
proof (cases "i = j")
  case True
  then show ?thesis using assms by (intro nth_equalityI) (auto simp: nth_blit)
next
  case False
  then have "i * dm + dm \<le> j * dm \<or> j * dm + dm \<le> i * dm"
    by (metis Suc_leI add.commute linorder_neqE_nat mult_Suc mult_le_mono1)
  then show ?thesis using assms False by (intro nth_equalityI) (auto simp: nth_blit)
qed

lemma remove_loop:
  assumes "m \<le> n" "length xs = n * dm"
  shows "\<exists>codes. fold (remove_step sel dm) [0..<m] (0, xs) = (length (filter (\<lambda>i. \<not> sel i) [0..<m]), codes) \<and>
    length codes = n * dm \<and> (\<forall>i < n. m \<le> i \<longrightarrow> row dm i codes = row dm i xs) \<and>
    map (\<lambda>i. row dm i codes) [0..<length (filter (\<lambda>i. \<not> sel i) [0..<m])] = map (\<lambda>i. row dm i xs) (filter (\<lambda>i. \<not> sel i) [0..<m])"
  using assms(1)
proof (induction m)
  case (Suc m)
  let ?k = "filter (\<lambda>i. \<not> sel i) [0..<m]"
  from Suc obtain codes where IH: "fold (remove_step sel dm) [0..<m] (0, xs) = (length ?k, codes)"
    "length codes = n * dm" "\<forall>i < n. m \<le> i \<longrightarrow> row dm i codes = row dm i xs"
    "map (\<lambda>i. row dm i codes) [0..<length ?k] = map (\<lambda>i. row dm i xs) ?k" by auto
  have st: "fold (remove_step sel dm) [0..<Suc m] (0, xs) = remove_step sel dm m (length ?k, codes)"
    using IH(1) by simp
  show ?case
  proof (cases "sel m")
    case True
    then have "remove_step sel dm m (length ?k, codes) = (length ?k, codes)" by (simp add: remove_step_def)
    with True IH(2-4) show ?thesis unfolding st by (intro exI[of _ codes]) simp
  next
    case False
    let ?c = "if m > length ?k then blit (length ?k * dm) (row dm m codes) codes else codes"
    have km: "length ?k \<le> m" using length_filter_le[of "\<lambda>i. \<not> sel i" "[0..<m]"] by simp
    have b: "i * dm + dm \<le> length codes" if "i < n" for i using row_bound[OF that IH(2)] .
    have rw: "row dm i ?c = (if i = length ?k then row dm m codes else row dm i codes)" if "i < n" for i
      using row_blit[OF b[of "length ?k"] _ b[OF that], of "row dm m codes"] b[of m] km Suc.prems by auto
    have "length ?c = n * dm" using IH(2) b[of "length ?k"] b[of m] km Suc.prems by auto
    moreover have "\<forall>i < n. Suc m \<le> i \<longrightarrow> row dm i ?c = row dm i xs" using rw IH(3) km by auto
    moreover have "map (\<lambda>i. row dm i ?c) [0..<length ?k] = map (\<lambda>i. row dm i codes) [0..<length ?k]"
      using rw km Suc.prems by auto
    moreover have "row dm (length ?k) ?c = row dm m xs" using rw[of "length ?k"] IH(3) km Suc.prems by auto
    moreover have "remove_step sel dm m (length ?k, codes) = (Suc (length ?k), ?c)" using False by (simp add: remove_step_def)
    ultimately show ?thesis unfolding st using IH(4) False by (intro exI[of _ ?c]) simp
  qed
qed (use assms in simp)

lemma row_take: "i < j \<Longrightarrow> row dm i (take (j * dm) xs) = row dm i xs"
proof -
  assume "i < j"
  then have "Suc i * dm \<le> j * dm" by (intro mult_le_mono1) simp
  then show ?thesis by (simp add: slice_def drop_take min_def)
qed

text \<open>C25. \<open>remove_ids\<close> removes exactly the selected vectors: the remaining ones are those not selected, in
  their order, and the number returned is that of the removed ones.\<close>

theorem flat_remove_ids_filter:
  assumes "length (fl_codes f) = fl_ntotal f * fl_d f" "flat_remove_ids f sel = (f', nremove)"
  shows "map (flat_vec f') [0..<fl_ntotal f'] = map (flat_vec f) (filter (\<lambda>i. \<not> sel i) [0..<fl_ntotal f]) \<and>
    length (fl_codes f') = fl_ntotal f' * fl_d f' \<and> fl_d f' = fl_d f \<and> fl_ntotal f' + nremove = fl_ntotal f"
proof -
  let ?k = "filter (\<lambda>i. \<not> sel i) [0..<fl_ntotal f]"
  from remove_loop[OF order_refl assms(1), of sel] obtain codes where
    c: "fold (remove_step sel (fl_d f)) [0..<fl_ntotal f] (0, fl_codes f) = (length ?k, codes)"
    "length codes = fl_ntotal f * fl_d f"
    "map (\<lambda>i. row (fl_d f) i codes) [0..<length ?k] = map (\<lambda>i. row (fl_d f) i (fl_codes f)) ?k" by auto
  have le: "length ?k \<le> fl_ntotal f" using length_filter_le[of "\<lambda>i. \<not> sel i" "[0..<fl_ntotal f]"] by simp
  show ?thesis
  proof (cases "length ?k < fl_ntotal f")
    case True
    then have f': "f' = f\<lparr> fl_ntotal := length ?k, fl_codes := take (length ?k * fl_d f) codes \<rparr>" "nremove = fl_ntotal f - length ?k"
      using assms(2) c(1) by (simp_all add: flat_remove_ids_def)
    have "map (\<lambda>i. row (fl_d f) i (take (length ?k * fl_d f) codes)) [0..<length ?k] = map (\<lambda>i. row (fl_d f) i codes) [0..<length ?k]"
      by (simp add: row_take)
    moreover have "length ?k * fl_d f \<le> length codes" using le c(2) by simp
    ultimately show ?thesis using c(3) le by (simp add: f' flat_vec_def[abs_def])
  next
    case False
    then have "f' = f\<lparr> fl_codes := codes \<rparr>" "nremove = 0" "length ?k = fl_ntotal f"
      using assms(2) c(1) le by (simp_all add: flat_remove_ids_def)
    then show ?thesis using c(2,3) by (simp add: flat_vec_def[abs_def])
  qed
qed

theorem flat_remove_ids_filter_witness:
  "map (flat_vec (fst (flat_remove_ids \<lparr> fl_d = 1, fl_metric = METRIC_L2, fl_ntotal = 3, fl_codes = [5, 6, 7] \<rparr> (\<lambda>i. i = 1)))) [0..<2]
    = [[5], [7]]"
proof -
  let ?f = "\<lparr> fl_d = 1, fl_metric = METRIC_L2, fl_ntotal = 3, fl_codes = [5, 6, 7] \<rparr>"
  obtain f' n where r: "flat_remove_ids ?f (\<lambda>i. i = 1) = (f', n)" by fastforce
  have u: "[0..<3] = [0, 1, 2 :: nat]" by (simp add: upt_rec)
  have "length (fl_codes ?f) = fl_ntotal ?f * fl_d ?f" by simp
  from flat_remove_ids_filter[OF this r] have
    x: "map (flat_vec f') [0..<fl_ntotal f'] = map (flat_vec ?f) [0, 2]" by (simp add: u)
  have "fl_ntotal f' = 2" using arg_cong[OF x, of length] unfolding length_map length_upt by simp
  with x r show ?thesis by (simp add: flat_vec_def slice_def eval_nat_numeral)
qed

end
