(* ===== verification/Partition.thy ===== *)
theory Partition
  imports HeapArrays Flat
begin

text \<open>
  The comparison object \<open>C\<close> of a metric (\<open>faiss/utils/ordered_key_value.h\<close>) and the fuzzy partition of
  an array of results by bisection with medians of three (\<open>faiss/utils/partitioning.cpp\<close>), on which the
  reservoir of large top-k searches is built. The two arrays of values and ids are one array of pairs.
\<close>

section \<open>The comparison object\<close>

text \<open>\<open>CMin\<close> for similarities, \<open>CMax\<close> for distances: \<open>C_cmp m t x\<close> says that \<open>x\<close> is better than \<open>t\<close>.
  \<open>Crev\<close> is the object of the other kind.\<close>

definition C_cmp :: "metric \<Rightarrow> float_t \<Rightarrow> float_t \<Rightarrow> bool" where
  "C_cmp m = (if is_similarity_metric m then CMin_cmp else CMax_cmp)"

definition C_cmp2 :: "metric \<Rightarrow> float_t \<times> int \<Rightarrow> float_t \<times> int \<Rightarrow> bool" where
  "C_cmp2 m = (if is_similarity_metric m then CMin_cmp2 else CMax_cmp2)"

definition C_neutral :: "metric \<Rightarrow> float_t" where
  "C_neutral m = (if is_similarity_metric m then - FLT_MAX else FLT_MAX)"

definition Crev_neutral :: "metric \<Rightarrow> float_t" where
  "Crev_neutral m = (if is_similarity_metric m then FLT_MAX else - FLT_MAX)"

text \<open>\<open>std::nextafterf\<close> upwards and downwards on the numbers of IEEE binary32: the binary exponent of a
  number, not below that of the subnormal numbers, and the distance to the next one.\<close>

definition float_exponent :: "float_t \<Rightarrow> int" where
  "float_exponent x = (case find (\<lambda>e. 2 powi e \<le> \<bar>x\<bar>) (rev [-126..127]) of None \<Rightarrow> -126 | Some e \<Rightarrow> e)"

definition next_away :: "float_t \<Rightarrow> float_t" where
  "next_away y = y + 2 powi (float_exponent y - 23)"

definition next_towards_0 :: "float_t \<Rightarrow> float_t" where
  "next_towards_0 y =
     (let e = float_exponent y
      in if y = 2 powi e \<and> e > -126 then y - 2 powi (e - 24) else y - 2 powi (e - 23))"

definition nextafter_up :: "float_t \<Rightarrow> float_t" where
  "nextafter_up x = (if x \<ge> 0 then next_away x else - next_towards_0 (- x))"

definition Crev_nextafter :: "metric \<Rightarrow> float_t \<Rightarrow> float_t" where
  "Crev_nextafter m x = (if is_similarity_metric m then nextafter_up x else - nextafter_up (- x))"

section \<open>Partition\<close>

definition median3 :: "float_t \<Rightarrow> float_t \<Rightarrow> float_t \<Rightarrow> float_t" where
  "median3 a0 b0 c =
     (let (a, b) = (if a0 > b0 then (b0, a0) else (a0, b0))
      in if c > b then b else if c > a then c else a)"

text \<open>The loop that collects up to three values strictly between the thresholds, visiting the array in
  steps of a large prime.\<close>

definition big_prime :: nat where "big_prime = 6700417"

fun sample_loop :: "metric \<Rightarrow> float_t list \<Rightarrow> nat \<Rightarrow> float_t \<Rightarrow> float_t \<Rightarrow> nat list \<Rightarrow> float_t list \<Rightarrow> float_t list" where
  "sample_loop m vals n thresh_inf thresh_sup [] val3 = val3"
| "sample_loop m vals n thresh_inf thresh_sup (i # is) val3 =
     (let v = vals ! ((i * big_prime) mod n)
      in if C_cmp m v thresh_inf \<and> C_cmp m thresh_sup v
         then let val3' = val3 @ [v]
              in if length val3' = 3 then val3' else sample_loop m vals n thresh_inf thresh_sup is val3'
         else sample_loop m vals n thresh_inf thresh_sup is val3)"

definition sample_threshold_median3 :: "metric \<Rightarrow> float_t list \<Rightarrow> nat \<Rightarrow> float_t \<Rightarrow> float_t \<Rightarrow> float_t" where
  "sample_threshold_median3 m vals n thresh_inf thresh_sup =
     (let val3 = sample_loop m vals n thresh_inf thresh_sup [0..<n] []; vi = length val3
      in if vi = 3 then median3 (val3 ! 0) (val3 ! 1) (val3 ! 2)
         else if vi \<noteq> 0 then val3 ! 0
         else thresh_inf)"

definition count_lt_and_eq :: "metric \<Rightarrow> float_t list \<Rightarrow> float_t \<Rightarrow> nat \<times> nat" where
  "count_lt_and_eq m vals thresh =
     fold (\<lambda>v (n_lt, n_eq).
       if C_cmp m thresh v then (n_lt + 1, n_eq) else if v = thresh then (n_lt, n_eq + 1) else (n_lt, n_eq))
       vals (0, 0)"

definition compress_step ::
  "metric \<Rightarrow> float_t \<Rightarrow> nat \<Rightarrow> (float_t \<times> int) list \<times> nat \<times> nat \<Rightarrow> (float_t \<times> int) list \<times> nat \<times> nat" where
  "compress_step m thresh i s =
     (let (arr, wp, n_eq) = s
      in if C_cmp m thresh (fst (arr ! i)) then (arr[wp := arr ! i], wp + 1, n_eq)
         else if n_eq > 0 \<and> fst (arr ! i) = thresh then (arr[wp := arr ! i], wp + 1, n_eq - 1)
         else s)"

definition compress_array :: "metric \<Rightarrow> (float_t \<times> int) list \<Rightarrow> nat \<Rightarrow> float_t \<Rightarrow> nat \<Rightarrow> (float_t \<times> int) list \<times> nat" where
  "compress_array m arr n thresh n_eq =
     (let (arr', wp, _) = fold (compress_step m thresh) [0..<n] (arr, 0, n_eq) in (arr', wp))"

text \<open>The bisection, of at most \<open>it\<close> rounds: the threshold, the number of better and of equal values
  last counted, and \<open>q\<close>, the number of values to keep (0 when none was found).\<close>

fun fuzzy_loop ::
  "metric \<Rightarrow> float_t list \<Rightarrow> nat \<Rightarrow> nat \<Rightarrow> nat \<Rightarrow> float_t \<Rightarrow> float_t \<Rightarrow> float_t \<Rightarrow> nat \<Rightarrow> nat \<Rightarrow> float_t \<times> nat \<times> nat \<times> nat" where
  "fuzzy_loop m vals q_min q_max 0 thresh_inf thresh_sup thresh n_lt n_eq = (thresh, n_lt, n_eq, 0)"
| "fuzzy_loop m vals q_min q_max (Suc it) thresh_inf thresh_sup thresh n_lt0 n_eq0 =
     (let (n_lt, n_eq) = count_lt_and_eq m vals thresh
      in if n_lt \<le> q_min \<and> n_lt + n_eq \<ge> q_min then (thresh, n_lt, n_eq, q_min)
         else if n_lt > q_min \<and> n_lt \<le> q_max then (thresh, n_lt, n_eq, n_lt)
         else let thresh_inf = (if n_lt \<le> q_min then thresh else thresh_inf);
                  thresh_sup = (if n_lt \<le> q_min then thresh_sup else thresh);
                  new_thresh = sample_threshold_median3 m vals (length vals) thresh_inf thresh_sup
              in if new_thresh = thresh_inf then (thresh, n_lt, n_eq, 0)
                 else fuzzy_loop m vals q_min q_max it thresh_inf thresh_sup new_thresh n_lt n_eq)"

text \<open>\<open>partition_fuzzy_median3\<close> with an output for \<open>q\<close>: the threshold, \<open>*q_out\<close> and the array. For
  \<open>q_min = 0\<close> the code converts the neutral value to \<open>size_t\<close>, out of its range, which C++ leaves
  undefined. The assertions of debug builds are not part of the model.\<close>

definition partition_fuzzy_median3 ::
  "metric \<Rightarrow> (float_t \<times> int) list \<Rightarrow> nat \<Rightarrow> nat \<Rightarrow> nat \<Rightarrow> (float_t \<times> nat \<times> (float_t \<times> int) list) result" where
  "partition_fuzzy_median3 m arr n q_min q_max =
     (if q_min = 0 then Inl OutOfBounds
      else if q_max \<ge> n then Inr (C_neutral m, q_max, arr)
      else throw_unless (n \<ge> 3) ''n >= 3''
        (let vals = map fst (take n arr);
             (thresh, n_lt, n_eq, q) = fuzzy_loop m vals q_min q_max 200 (Crev_neutral m) (C_neutral m)
               (median3 (vals ! 0) (vals ! (n div 2)) (vals ! (n - 1))) 0 0;
             n_eq_1 = int q - int n_lt;
             (q, thresh, n_eq_1) = (if n_eq_1 < 0 then (q_min, Crev_nextafter m thresh, q_min) else (q, thresh, nat n_eq_1));
             (arr', wp) = compress_array m arr n thresh n_eq_1
         in Inr (thresh, q, arr')))"

section \<open>The order of a metric\<close>

lemma C_cmp_irrefl [simp]: "\<not> C_cmp m a a"
  by (simp add: C_cmp_def CMin_cmp_def CMax_cmp_def)

lemma C_cmp_asym: "C_cmp m a b \<Longrightarrow> \<not> C_cmp m b a"
  by (simp add: C_cmp_def CMin_cmp_def CMax_cmp_def split: if_splits)

lemma C_cmp_trans: "C_cmp m a b \<Longrightarrow> C_cmp m b c \<Longrightarrow> C_cmp m a c"
  by (simp add: C_cmp_def CMin_cmp_def CMax_cmp_def split: if_splits)

lemma C_cmp_weak: "\<not> C_cmp m a b \<Longrightarrow> \<not> C_cmp m b c \<Longrightarrow> \<not> C_cmp m a c"
  by (simp add: C_cmp_def CMin_cmp_def CMax_cmp_def split: if_splits)

lemma C_cmp_total: "a = b \<or> C_cmp m a b \<or> C_cmp m b a"
  by (auto simp: C_cmp_def CMin_cmp_def CMax_cmp_def)

interpretation C: heap_topk "C_cmp2 m" "C_cmp m" for m
  by unfold_locales (auto simp: C_cmp2_def C_cmp_def CMin_cmp2_def CMin_cmp_def CMax_cmp2_def CMax_cmp_def)

text \<open>A median of three has two of the three values on either side of it.\<close>

lemma median3_in: "median3 a b c \<in> {a, b, c}"
  by (simp add: median3_def)

lemma median3_sides:
  "2 \<le> size (filter_mset (\<lambda>v. \<not> C_cmp m v (median3 a b c)) {#a, b, c#})"
  "2 \<le> size (filter_mset (\<lambda>v. \<not> C_cmp m (median3 a b c) v) {#a, b, c#})"
  by (auto simp: median3_def C_cmp_def CMin_cmp_def CMax_cmp_def)

end
