(* ===== verification/PartitionOk.thy ===== *)
theory PartitionOk
  imports Partition
begin

text \<open>
  Correctness of the fuzzy partition: the sampling visits every value, each round of the bisection removes
  two values from the interval between the thresholds, so that 200 rounds find a threshold when the slack
  is large enough for the size of the array; what is kept is as good as the threshold, what is dropped is
  not better.
\<close>

section \<open>Counting and sampling\<close>

lemma count_lt_and_eq_filter:
  "count_lt_and_eq m vals thresh
    = (length (filter (C_cmp m thresh) vals), length (filter (\<lambda>v. v = thresh) vals))"
proof -
  have "fold (\<lambda>v (n_lt, n_eq).
       if C_cmp m thresh v then (n_lt + 1, n_eq) else if v = thresh then (n_lt, n_eq + 1) else (n_lt, n_eq))
       vals (a, b) = (a + length (filter (C_cmp m thresh) vals), b + length (filter (\<lambda>v. v = thresh) vals))" for a b
    by (induction vals arbitrary: a b) auto
  then show ?thesis by (simp add: count_lt_and_eq_def)
qed

definition between :: "metric \<Rightarrow> float_t \<Rightarrow> float_t \<Rightarrow> float_t \<Rightarrow> bool" where
  "between m lo hi v \<longleftrightarrow> C_cmp m v lo \<and> C_cmp m hi v"

lemma sample_loop_take:
  "length acc < 3 \<Longrightarrow> sample_loop m vals n lo hi is acc
    = take 3 (acc @ filter (between m lo hi) (map (\<lambda>i. vals ! ((i * big_prime) mod n)) is))"
proof (induction "is" arbitrary: acc)
  case (Cons i "is")
  have "take (3 - length acc) (x # xs) = x # take (2 - length acc) xs" for x :: float_t and xs
    using Cons.prems by (simp add: take_Cons')
  with Cons show ?case by (auto simp: Let_def between_def)
qed simp

lemma mod_mult_inj:
  assumes "coprime p (n :: nat)" "i < n" "j < n" "(i * p) mod n = (j * p) mod n"
  shows "i = j"
proof -
  have "int n dvd int i * int p - int j * int p"
    using assms(4) by (metis mod_eq_dvd_iff of_nat_mod of_nat_mult)
  then have "int n dvd (int i - int j) * int p" by (simp add: left_diff_distrib)
  moreover have "coprime (int n) (int p)" using assms(1) by (simp add: coprime_commute)
  ultimately have "int n dvd int i - int j" by (simp add: coprime_dvd_mult_left_iff)
  then have "int i mod int n = int j mod int n" by (simp add: mod_eq_dvd_iff)
  then show ?thesis using assms(2,3) by simp
qed

text \<open>With a step that is coprime to the length, every value is visited once.\<close>

lemma visit_mset:
  assumes "coprime p (length vals)"
  shows "mset (map (\<lambda>i. vals ! ((i * p) mod length vals)) [0..<length vals]) = mset vals"
proof -
  let ?n = "length vals" and ?f = "\<lambda>i. (i * p) mod length vals"
  have inj: "inj_on ?f {..<?n}" using mod_mult_inj[OF assms] by (auto simp: inj_on_def)
  have "?f ` {..<?n} \<subseteq> {..<?n}" by (auto intro!: mod_less_divisor)
  then have im: "?f ` {..<?n} = {..<?n}" by (intro endo_inj_surj inj) simp_all
  have "mset (map ?f [0..<?n]) = image_mset ?f (mset_set {..<?n})" by (simp add: lessThan_atLeast0)
  also have "\<dots> = mset_set {..<?n}" using image_mset_mset_set[OF inj] im by simp
  finally have "image_mset (\<lambda>i. vals ! i) (mset (map ?f [0..<?n])) = image_mset (\<lambda>i. vals ! i) (mset [0..<?n])"
    by (simp add: lessThan_atLeast0)
  then have "mset (map (\<lambda>i. vals ! ?f i) [0..<?n]) = mset (map (\<lambda>i. vals ! i) [0..<?n])"
    by (simp add: image_mset.compositionality comp_def)
  then show ?thesis by (simp add: map_nth)
qed

lemma list3: "length xs = 3 \<Longrightarrow> xs = [xs ! 0, xs ! 1, xs ! 2]"
  by (auto simp: numeral_3_eq_3 length_Suc_conv)

lemma sample_median:
  assumes "coprime big_prime (length vals)" "3 \<le> length (filter (between m lo hi) vals)"
  shows "\<exists>a b c. {#a, b, c#} \<subseteq># mset (filter (between m lo hi) vals) \<and>
    sample_threshold_median3 m vals (length vals) lo hi = median3 a b c"
proof -
  let ?v = "map (\<lambda>i. vals ! ((i * big_prime) mod length vals)) [0..<length vals]"
  let ?f = "filter (between m lo hi) ?v"
  have ms: "mset ?f = mset (filter (between m lo hi) vals)" using visit_mset[OF assms(1)] by (simp only: mset_filter)
  have s: "sample_loop m vals (length vals) lo hi [0..<length vals] [] = take 3 ?f"
    by (simp add: sample_loop_take)
  have l: "length (take 3 ?f) = 3" using assms(2) arg_cong[OF ms, of size] unfolding size_mset by simp
  from list3[OF l] obtain a b c where t: "take 3 ?f = [a, b, c]" by blast
  have "mset (take 3 ?f) \<subseteq># mset ?f"
    using append_take_drop_id[of 3 ?f] by (metis mset_append mset_subset_eq_add_left)
  then have "{#a, b, c#} \<subseteq># mset (filter (between m lo hi) vals)" unfolding ms t by simp
  moreover have "sample_threshold_median3 m vals (length vals) lo hi = median3 a b c"
    unfolding sample_threshold_median3_def s t by (simp add: Let_def)
  ultimately show ?thesis by blast
qed

section \<open>The bisection\<close>

text \<open>A median of three values of the interval: on either side of it the interval loses two values.\<close>

lemma between_shrinks:
  assumes "{#a, b, c#} \<subseteq># mset (filter (between m lo hi) vals)"
  defines "t \<equiv> median3 a b c"
  shows "between m lo hi t" "t \<in> set vals"
    "length (filter (between m t hi) vals) + 2 \<le> length (filter (between m lo hi) vals)"
    "length (filter (between m lo t) vals) + 2 \<le> length (filter (between m lo hi) vals)"
proof -
  let ?B = "filter (between m lo hi) vals"
  have "t \<in># {#a, b, c#}" using median3_in[of a b c] by (auto simp: t_def)
  with assms(1) have "t \<in># mset ?B" by (rule mset_subset_eqD)
  then show t: "between m lo hi t" "t \<in> set vals" by auto
  have split: "length (filter P ?B) + 2 \<le> length ?B" if "2 \<le> size (filter_mset (\<lambda>v. \<not> P v) {#a, b, c#})" for P
  proof -
    have "size (filter_mset (\<lambda>v. \<not> P v) {#a, b, c#}) \<le> size (filter_mset (\<lambda>v. \<not> P v) (mset ?B))"
      by (intro size_mset_mono multiset_filter_mono assms(1))
    then have "2 \<le> length (filter (\<lambda>v. \<not> P v) ?B)" using that by (metis mset_filter size_mset order_trans)
    then show ?thesis using sum_length_filter_compl[of P ?B] by simp
  qed
  have "filter (between m t hi) vals = filter (\<lambda>v. C_cmp m v t) ?B"
    using t(1) by (auto simp: between_def intro!: filter_cong dest: C_cmp_trans)
  then show "length (filter (between m t hi) vals) + 2 \<le> length ?B"
    using split[OF median3_sides(1)[of m a b c, folded t_def]] by simp
  have "filter (between m lo t) vals = filter (C_cmp m t) ?B"
    using t(1) by (auto simp: between_def intro!: filter_cong dest: C_cmp_trans)
  then show "length (filter (between m lo t) vals) + 2 \<le> length ?B"
    using split[OF median3_sides(2)[of m a b c, folded t_def]] by simp
qed

text \<open>The values better than the upper threshold are those of the interval and those at least as good as
  the lower one.\<close>

lemma between_count:
  "length (filter (C_cmp m hi) vals) \<le> length (filter (between m lo hi) vals) + length (filter (\<lambda>v. \<not> C_cmp m v lo) vals)"
  by (induction vals) (auto simp: between_def)

lemma lt_eq_count:
  "length (filter (C_cmp m t) vals) + length (filter (\<lambda>v. v = t) vals) = length (filter (\<lambda>v. \<not> C_cmp m v t) vals)"
proof (induction vals)
  case (Cons v vals)
  then show ?case using C_cmp_total[of v t m] C_cmp_asym[of m v t] by auto
qed simp

text \<open>What the bisection finds.\<close>

definition threshold_found :: "metric \<Rightarrow> float_t list \<Rightarrow> nat \<Rightarrow> nat \<Rightarrow> float_t \<times> nat \<times> nat \<times> nat \<Rightarrow> bool" where
  "threshold_found m vals q_min q_max r \<longleftrightarrow>
     (case r of (t, n_lt, n_eq, q) \<Rightarrow> t \<in> set vals \<and> n_lt = length (filter (C_cmp m t) vals) \<and>
        n_eq = length (filter (\<lambda>v. v = t) vals) \<and> q_min \<le> q \<and> q \<le> q_max \<and> n_lt \<le> q \<and> q \<le> n_lt + n_eq)"

lemma fuzzy_loop_finds:
  assumes "coprime big_prime (length vals)" "1 \<le> q_min" "q_min < q_max"
    "{#a, b, c#} \<subseteq># mset (filter (between m lo hi) vals)"
    "length (filter (\<lambda>v. \<not> C_cmp m v lo) vals) < q_min" "q_max < length (filter (C_cmp m hi) vals)"
    "length (filter (between m lo hi) vals) \<le> 2 * it + (q_max - q_min) + 1"
  shows "threshold_found m vals q_min q_max (fuzzy_loop m vals q_min q_max it lo hi (median3 a b c) n_lt0 n_eq0)"
  using assms(4-7)
proof (induction it arbitrary: lo hi a b c n_lt0 n_eq0)
  case 0
  then show ?case using between_count[of m hi vals lo] assms(3) by simp
next
  case (Suc it)
  let ?t = "median3 a b c"
  let ?lt = "length (filter (C_cmp m ?t) vals)" and ?eq = "length (filter (\<lambda>v. v = ?t) vals)"
  note sh = between_shrinks[OF Suc.prems(1)]
  have cnt: "count_lt_and_eq m vals ?t = (?lt, ?eq)" by (rule count_lt_and_eq_filter)
  consider "?lt \<le> q_min" "q_min \<le> ?lt + ?eq" | "q_min < ?lt" "?lt \<le> q_max" | "?lt \<le> q_min" "?lt + ?eq < q_min" | "q_max < ?lt"
    by linarith
  then show ?case
  proof cases
    case 1
    then show ?thesis using sh(2) assms(3) by (simp add: cnt threshold_found_def)
  next
    case 2
    then show ?thesis using sh(2) by (simp add: cnt threshold_found_def)
  next
    case 3
    have le: "length (filter (between m ?t hi) vals) \<le> 2 * it + (q_max - q_min) + 1" using sh(3) Suc.prems(4) by simp
    have low: "length (filter (\<lambda>v. \<not> C_cmp m v ?t) vals) < q_min" using 3 by (simp add: lt_eq_count)
    then have "3 \<le> length (filter (between m ?t hi) vals)"
      using between_count[of m hi vals ?t] Suc.prems(3) assms(3) by linarith
    from sample_median[OF assms(1) this] obtain a' b' c' where
      abc: "{#a', b', c'#} \<subseteq># mset (filter (between m ?t hi) vals)"
      "sample_threshold_median3 m vals (length vals) ?t hi = median3 a' b' c'" by blast
    have "median3 a' b' c' \<noteq> ?t" using between_shrinks(1)[OF abc(1)] by (auto simp: between_def)
    then have "fuzzy_loop m vals q_min q_max (Suc it) lo hi ?t n_lt0 n_eq0
        = fuzzy_loop m vals q_min q_max it ?t hi (median3 a' b' c') ?lt ?eq"
      using 3 by (simp add: cnt Let_def abc(2))
    with Suc.IH[OF abc(1) low Suc.prems(3) le] show ?thesis by simp
  next
    case 4
    have le: "length (filter (between m lo ?t) vals) \<le> 2 * it + (q_max - q_min) + 1" using sh(4) Suc.prems(4) by simp
    have "3 \<le> length (filter (between m lo ?t) vals)"
      using between_count[of m ?t vals lo] Suc.prems(2) 4 assms(3) by linarith
    from sample_median[OF assms(1) this] obtain a' b' c' where
      abc: "{#a', b', c'#} \<subseteq># mset (filter (between m lo ?t) vals)"
      "sample_threshold_median3 m vals (length vals) lo ?t = median3 a' b' c'" by blast
    have "median3 a' b' c' \<noteq> lo" using between_shrinks(1)[OF abc(1)] by (auto simp: between_def)
    then have "fuzzy_loop m vals q_min q_max (Suc it) lo hi ?t n_lt0 n_eq0
        = fuzzy_loop m vals q_min q_max it lo ?t (median3 a' b' c') ?lt ?eq"
      using 4 assms(3) by (simp add: cnt Let_def abc(2))
    with Suc.IH[OF abc(1) Suc.prems(2) 4 le] show ?thesis by simp
  qed
qed

section \<open>Compression\<close>

text \<open>The entries that \<open>compress_array\<close> keeps, with the number of equal ones it may still keep.\<close>

fun compress_ref :: "metric \<Rightarrow> float_t \<Rightarrow> nat \<Rightarrow> (float_t \<times> int) list \<Rightarrow> (float_t \<times> int) list" where
  "compress_ref m t n_eq [] = []"
| "compress_ref m t n_eq (p # ps) =
     (if C_cmp m t (fst p) then p # compress_ref m t n_eq ps
      else if n_eq > 0 \<and> fst p = t then p # compress_ref m t (n_eq - 1) ps
      else compress_ref m t n_eq ps)"

lemma length_compress_ref:
  "length (compress_ref m t n_eq ps)
    = length (filter (\<lambda>p. C_cmp m t (fst p)) ps) + min n_eq (length (filter (\<lambda>p. fst p = t) ps))"
proof (induction m t n_eq ps rule: compress_ref.induct)
  case (2 m t n_eq p ps)
  consider "C_cmp m t (fst p)" "fst p \<noteq> t" | "\<not> C_cmp m t (fst p)" "fst p = t" | "\<not> C_cmp m t (fst p)" "fst p \<noteq> t"
    by (cases "fst p = t") auto
  then show ?case by cases (use 2 in \<open>auto simp: min_def\<close>)
qed simp

lemma compress_ref_good: "p \<in> set (compress_ref m t n_eq ps) \<Longrightarrow> \<not> C_cmp m (fst p) t"
  by (induction m t n_eq ps rule: compress_ref.induct) (auto dest: C_cmp_asym split: if_splits)

lemma compress_ref_split:
  "\<exists>R. mset ps = mset (compress_ref m t n_eq ps) + R \<and> (\<forall>r \<in># R. \<not> C_cmp m t (fst r))"
proof (induction m t n_eq ps rule: compress_ref.induct)
  case (2 m t n_eq p ps)
  show ?case
  proof (cases "C_cmp m t (fst p) \<or> n_eq > 0 \<and> fst p = t")
    case True
    with 2 show ?thesis by (cases "C_cmp m t (fst p)") auto
  next
    case False
    with 2(3) obtain R where R: "mset ps = mset (compress_ref m t n_eq ps) + R" "\<forall>r \<in># R. \<not> C_cmp m t (fst r)" by auto
    have "mset (p # ps) = mset (compress_ref m t n_eq (p # ps)) + add_mset p R" using False R(1) by auto
    moreover have "\<forall>r \<in># add_mset p R. \<not> C_cmp m t (fst r)" using False R(2) by simp
    ultimately show ?thesis by blast
  qed
qed simp

text \<open>Compression in place: the write position stays behind the read position.\<close>

lemma compress_fold:
  assumes "i + length (drop i ps) = length ps" "wp \<le> i" "i \<le> n" "n \<le> length ps"
  shows "\<exists>ne. fold (compress_step m t) [i..<n] (ps, wp, n_eq)
    = (take wp ps @ compress_ref m t n_eq (take (n - i) (drop i ps)) @
        drop (wp + length (compress_ref m t n_eq (take (n - i) (drop i ps)))) 
          (fst (fold (compress_step m t) [i..<n] (ps, wp, n_eq))),
       wp + length (compress_ref m t n_eq (take (n - i) (drop i ps))), ne) \<and>
    length (fst (fold (compress_step m t) [i..<n] (ps, wp, n_eq))) = length ps"
  using assms
proof (induction "n - i" arbitrary: i ps wp n_eq)
  case 0
  then show ?case by simp
next
  case (Suc l)
  then have i: "i < n" "i < length ps" by auto
  have l: "l = n - Suc i" using Suc.hyps(2) by simp
  have d: "take (n - i) (drop i ps) = ps ! i # take (n - Suc i) (drop (Suc i) ps)"
    using i by (simp add: Cons_nth_drop_Suc[symmetric] take_Cons' Suc_diff_Suc[symmetric])
  have u: "[i..<n] = i # [Suc i..<n]" using i(1) by (simp add: upt_conv_Cons)
  let ?p = "ps ! i" and ?ps = "ps[wp := ps ! i]"
  have dr: "drop (Suc i) ?ps = drop (Suc i) ps" using Suc.prems(2) by simp
  have tk: "take (Suc wp) ?ps = take wp ps @ [?p]" using Suc.prems(2) i by (simp add: take_Suc_conv_app_nth)
  consider (keep) ne where "compress_step m t i (ps, wp, n_eq) = (?ps, Suc wp, ne)"
      "compress_ref m t n_eq (take (n - i) (drop i ps)) = ?p # compress_ref m t ne (take (n - Suc i) (drop (Suc i) ps))"
    | (drop) "compress_step m t i (ps, wp, n_eq) = (ps, wp, n_eq)"
      "compress_ref m t n_eq (take (n - i) (drop i ps)) = compress_ref m t n_eq (take (n - Suc i) (drop (Suc i) ps))"
    unfolding d by (cases "C_cmp m t (fst ?p)"; cases "n_eq > 0 \<and> fst ?p = t") (simp_all add: compress_step_def)
  then show ?case
  proof cases
    case (keep ne)
    have pr: "Suc i + length (drop (Suc i) ?ps) = length ?ps" "Suc wp \<le> Suc i" "Suc i \<le> n" "n \<le> length ?ps"
      using Suc.prems i by auto
    from Suc.hyps(1)[OF l pr, of ne] show ?thesis unfolding u keep(2) dr tk by (simp add: keep(1))
  next
    case drop
    have pr: "Suc i + length (List.drop (Suc i) ps) = length ps" "wp \<le> Suc i" "Suc i \<le> n" "n \<le> length ps"
      using Suc.prems i by auto
    from Suc.hyps(1)[OF l pr, of n_eq] show ?thesis unfolding u drop(2) by (simp add: drop(1))
  qed
qed

lemma compress_array_ok:
  assumes "n \<le> length arr" "compress_array m arr n t n_eq = (arr', wp)"
  shows "take wp arr' = compress_ref m t n_eq (take n arr)" "wp = length (compress_ref m t n_eq (take n arr))"
    "length arr' = length arr"
proof -
  let ?r = "fold (compress_step m t) [0..<n] (arr, 0, n_eq)" and ?c = "compress_ref m t n_eq (take n arr)"
  from compress_fold[of 0 arr 0 n m t n_eq] assms(1) obtain ne where
    r: "?r = (?c @ drop (length ?c) (fst ?r), length ?c, ne)" "length (fst ?r) = length arr" by auto
  have "arr' = fst ?r" "wp = fst (snd ?r)"
    using assms(2) by (simp_all add: compress_array_def case_prod_beta Let_def)
  with r show "take wp arr' = ?c" "wp = length ?c" "length arr' = length arr"
    by (metis append_eq_conv_conj fst_conv snd_conv)+
qed

section \<open>The partition\<close>

text \<open>\<open>partition_fuzzy\<close> on values strictly between the neutral ones: it keeps between \<open>q_min\<close> and
  \<open>q_max\<close> entries, the threshold is one of the values, what it keeps is at least as good as the
  threshold and what it drops is not better. 200 rounds find the threshold when the array has at most
  \<open>401 + q_max - q_min\<close> entries.\<close>

theorem partition_fuzzy_ok:
  assumes "coprime big_prime n" "3 \<le> n" "1 \<le> q_min" "q_min < q_max" "q_max < n" "n \<le> length arr"
    "n \<le> 401 + (q_max - q_min)"
    "\<forall>p \<in> set (take n arr). C_cmp m (C_neutral m) (fst p) \<and> C_cmp m (fst p) (Crev_neutral m)"
  shows "\<exists>t q arr' R. partition_fuzzy_median3 m arr n q_min q_max = Inr (t, q, arr') \<and> q_min \<le> q \<and> q \<le> q_max \<and>
    length arr' = length arr \<and> t \<in> fst ` set (take n arr) \<and> mset (take n arr) = mset (take q arr') + R \<and>
    (\<forall>p \<in> set (take q arr'). \<not> C_cmp m (fst p) t) \<and> (\<forall>r \<in># R. \<not> C_cmp m t (fst r))"
proof -
  let ?vals = "map fst (take n arr)"
  have len: "length ?vals = n" using assms(6) by simp
  have all: "filter (between m (Crev_neutral m) (C_neutral m)) ?vals = ?vals"
    "filter (C_cmp m (C_neutral m)) ?vals = ?vals"
    using assms(8) by (auto simp: between_def filter_id_conv)
  have none: "filter (\<lambda>v. \<not> C_cmp m v (Crev_neutral m)) ?vals = []"
    using assms(8) by (auto simp: filter_empty_conv)
  have three: "{#?vals ! 0, ?vals ! (n div 2), ?vals ! (n - 1)#} \<subseteq># mset ?vals"
  proof -
    have "{#0, n div 2, n - 1#} = mset_set {0, n div 2, n - 1}" using assms(2) by auto
    also have "\<dots> \<subseteq># mset_set {..<n}" using assms(2) by (intro msubset_mset_set_iff[THEN iffD2]) auto
    finally have "image_mset ((!) ?vals) {#0, n div 2, n - 1#} \<subseteq># image_mset ((!) ?vals) (mset [0..<length ?vals])"
      unfolding len by (intro image_mset_subseteq_mono) (simp add: lessThan_atLeast0)
    then show ?thesis by (simp only: mset_map[symmetric] map_nth image_mset_add_mset image_mset_empty)
  qed
  obtain t n_lt n_eq q where l: "fuzzy_loop m ?vals q_min q_max 200 (Crev_neutral m) (C_neutral m)
      (median3 (?vals ! 0) (?vals ! (n div 2)) (?vals ! (n - 1))) 0 0 = (t, n_lt, n_eq, q)" by (metis prod_cases4)
  have "threshold_found m ?vals q_min q_max (t, n_lt, n_eq, q)"
    unfolding l[symmetric]
  proof (rule fuzzy_loop_finds[OF _ assms(3,4)])
    show "coprime big_prime (length ?vals)" unfolding len by (rule assms(1))
    show "{#?vals ! 0, ?vals ! (n div 2), ?vals ! (n - 1)#}
        \<subseteq># mset (filter (between m (Crev_neutral m) (C_neutral m)) ?vals)"
      unfolding all by (rule three)
    show "length (filter (\<lambda>v. \<not> C_cmp m v (Crev_neutral m)) ?vals) < q_min" unfolding none using assms(3) by simp
    show "q_max < length (filter (C_cmp m (C_neutral m)) ?vals)" unfolding all len by (rule assms(5))
    show "length (filter (between m (Crev_neutral m) (C_neutral m)) ?vals) \<le> 2 * 200 + (q_max - q_min) + 1"
      unfolding all len using assms(7) by simp
  qed
  then have f: "t \<in> set ?vals" "n_lt = length (filter (C_cmp m t) ?vals)" "n_eq = length (filter (\<lambda>v. v = t) ?vals)"
    "q_min \<le> q" "q \<le> q_max" "n_lt \<le> q" "q \<le> n_lt + n_eq" by (auto simp: threshold_found_def)
  obtain arr' wp where c: "compress_array m arr n t (q - n_lt) = (arr', wp)" by fastforce
  let ?c = "compress_ref m t (q - n_lt) (take n arr)"
  have "nat (int q - int n_lt) = q - n_lt" using f(6) by simp
  then have r: "partition_fuzzy_median3 m arr n q_min q_max = Inr (t, q, arr')"
    using assms(2,3,5) f(6) c by (simp add: partition_fuzzy_median3_def l[simplified] Let_def)
  have "length ?c = n_lt + min (q - n_lt) n_eq"
    unfolding length_compress_ref f(2,3) by (simp add: filter_map comp_def)
  then have wp: "wp = q" using compress_array_ok(2)[OF assms(6) c] f(6,7) by simp
  from compress_ref_split[of "take n arr" m t "q - n_lt"] obtain R where
    "mset (take n arr) = mset ?c + R" "\<forall>r \<in># R. \<not> C_cmp m t (fst r)" by blast
  with r f(1,4,5) compress_array_ok(1,3)[OF assms(6) c] compress_ref_good[of _ m t "q - n_lt" "take n arr"] show ?thesis
    unfolding wp by (intro exI[of _ t] exI[of _ q] exI[of _ arr'] exI[of _ R]) (auto simp: image_iff)
qed

end
