(* ===== verification/ResHandler.thy ===== *)
theory ResHandler
  imports HeapArrays
begin

text \<open>
  \<open>HeapResultHandler\<close> and \<open>HeapBlockResultHandler\<close> of \<open>faiss/impl/ResultHandler.h\<close>, for L2 distances:
  the \<open>k\<close> best results of a query in a max-heap, kept in the output arrays of the caller (one array of
  pairs here; for the operations on two arrays see \<open>heap_layouts_agree\<close>).
\<close>

section \<open>One query\<close>

record 'd hres =
  hr_k :: nat
  hr_heap :: "('d \<times> int) list"
  hr_threshold :: 'd

text \<open>\<open>begin\<close> and \<open>end\<close> of \<open>SingleResultHandler\<close>; \<open>out\<close> is the row of the output arrays.\<close>

definition res_begin :: "'d::linorder \<Rightarrow> nat \<Rightarrow> ('d \<times> int) list \<Rightarrow> 'd hres" where
  "res_begin neutral k out =
     (let heap = heap_heapify CMax_cmp2 neutral k out [] None 0
      in \<lparr> hr_k = k, hr_heap = heap, hr_threshold = fst (heap ! 0) \<rparr>)"

definition add_result :: "'d::linorder \<Rightarrow> int \<Rightarrow> 'd hres \<Rightarrow> 'd hres \<times> bool" where
  "add_result dis idx r =
     (if CMax_cmp (hr_threshold r) dis
      then let heap = heap_replace_top CMax_cmp2 (hr_k r) (hr_heap r) (dis, idx)
           in (r\<lparr> hr_heap := heap, hr_threshold := fst (heap ! 0) \<rparr>, True)
      else (r, False))"

definition res_end :: "'d::linorder \<Rightarrow> 'd hres \<Rightarrow> ('d \<times> int) list" where
  "res_end neutral r = snd (heap_reorder CMax_cmp2 neutral (hr_k r) (hr_heap r))"

section \<open>Blocks of queries\<close>

text \<open>\<open>begin_multiple\<close>, \<open>add_results\<close> and \<open>end_multiple\<close>; \<open>tab\<close> is the output, one row per query,
  and \<open>dis_tab\<close> the distances of the queries \<open>i0..i1-1\<close> to the vectors \<open>j0..j1-1\<close>.\<close>

definition begin_multiple :: "'d::linorder \<Rightarrow> nat \<Rightarrow> nat \<Rightarrow> nat \<Rightarrow> ('d \<times> int) list list \<Rightarrow> ('d \<times> int) list list" where
  "begin_multiple neutral k i0 i1 tab =
     each_row (\<lambda>i heap. heap_heapify CMax_cmp2 neutral k heap [] None 0) i0 i1 tab"

definition add_results_row :: "nat \<Rightarrow> nat \<Rightarrow> nat \<Rightarrow> (nat \<Rightarrow> 'd::linorder) \<Rightarrow> ('d \<times> int) list \<Rightarrow> ('d \<times> int) list" where
  "add_results_row k j0 j1 dis_tab_i heap =
     fst (fold (\<lambda>j (heap, thresh).
         let dis = dis_tab_i j
         in if CMax_cmp thresh dis
            then let heap' = heap_replace_top CMax_cmp2 k heap (dis, int j) in (heap', fst (heap' ! 0))
            else (heap, thresh)) [j0..<j1] (heap, fst (heap ! 0)))"

definition add_results :: "nat \<Rightarrow> nat \<Rightarrow> nat \<Rightarrow> nat \<Rightarrow> nat \<Rightarrow> 'd::linorder list \<Rightarrow> ('d \<times> int) list list \<Rightarrow> ('d \<times> int) list list" where
  "add_results k i0 i1 j0 j1 dis_tab tab =
     each_row (\<lambda>i. add_results_row k j0 j1 (\<lambda>j. dis_tab ! ((j1 - j0) * (i - i0) + (j - j0)))) i0 i1 tab"

definition end_multiple :: "'d::linorder \<Rightarrow> nat \<Rightarrow> nat \<Rightarrow> nat \<Rightarrow> ('d \<times> int) list list \<Rightarrow> ('d \<times> int) list list" where
  "end_multiple neutral k i0 i1 tab =
     each_row (\<lambda>i heap. snd (heap_reorder CMax_cmp2 neutral k heap)) i0 i1 tab"

section \<open>Correctness\<close>

text \<open>The handler has kept the best of the results \<open>A\<close> offered so far.\<close>

definition res_ok :: "nat \<Rightarrow> 'd::linorder \<Rightarrow> ('d \<times> int) multiset \<Rightarrow> 'd hres \<Rightarrow> bool" where
  "res_ok k neutral A r \<longleftrightarrow> 1 \<le> k \<and> hr_k r = k \<and> kept_best k neutral A (hr_heap r) \<and>
     hr_threshold r = fst (hr_heap r ! 0)"

lemma res_ok_begin: "1 \<le> k \<Longrightarrow> length out = k \<Longrightarrow> res_ok k neutral {#} (res_begin neutral k out)"
  by (simp add: res_ok_def res_begin_def Let_def heap_heapify_empty kept_best_empty)

lemma res_ok_add: "res_ok k neutral A r \<Longrightarrow> res_ok k neutral (add_mset (d, i) A) (fst (add_result d i r))"
  using kept_best_step[of k neutral A "hr_heap r" "(d, i)"]
  by (auto simp: res_ok_def add_result_def cmax.addn_step_def Let_def)

text \<open>The guard that the searches put before \<open>add_result\<close> changes nothing.\<close>

lemma add_result_guard: "\<not> d < hr_threshold r \<Longrightarrow> add_result d i r = (r, False)"
  by (simp add: add_result_def CMax_cmp_def)

lemma res_ok_end:
  assumes "res_ok k neutral A r" "\<forall>p \<in># A. fst p < neutral \<and> snd p \<noteq> -1"
  shows "\<exists>S. res_end neutral r = S @ replicate (k - length S) (neutral, -1) \<and> topk k A S"
  using kept_best_reorder[of k neutral A "hr_heap r"] assms by (auto simp: res_ok_def res_end_def)

lemma hr_k_add [simp]: "hr_k (fst (add_result d i r)) = hr_k r"
  by (simp add: add_result_def Let_def)

text \<open>A row of a block.\<close>

lemma add_results_row_fold:
  "add_results_row k j0 j1 f heap = fold (cmax.addn_step k) (map (\<lambda>j. (f j, int j)) [j0..<j1]) heap"
proof -
  have "fold (\<lambda>j (heap, thresh).
         let dis = f j
         in if CMax_cmp thresh dis
            then let heap' = heap_replace_top CMax_cmp2 k heap (dis, int j) in (heap', fst (heap' ! 0))
            else (heap, thresh)) js (heap, fst (heap ! 0))
      = (let heap' = fold (cmax.addn_step k) (map (\<lambda>j. (f j, int j)) js) heap in (heap', fst (heap' ! 0)))" for js
    by (induction js arbitrary: heap) (simp_all add: cmax.addn_step_def Let_def)
  then show ?thesis by (simp add: add_results_row_def Let_def)
qed

text \<open>A block of queries: after \<open>begin_multiple\<close>, \<open>add_results\<close> with a matrix of distances below
  the neutral value, and \<open>end_multiple\<close>, the output row of every query of the block holds its \<open>k\<close>
  smallest distances with the indices of the vectors, ascending and padded; all other rows are
  unchanged.\<close>

theorem block_handler_topk:
  assumes "1 \<le> k" "i0 \<le> i1" "i1 \<le> length tab" "\<forall>r \<in> set tab. length r = k" "\<forall>d \<in> set dis_tab. d < neutral"
    "length dis_tab = (i1 - i0) * (j1 - j0)" "i < length tab"
  shows "if i0 \<le> i \<and> i < i1
    then \<exists>S. end_multiple neutral k i0 i1 (add_results k i0 i1 j0 j1 dis_tab (begin_multiple neutral k i0 i1 tab)) ! i
           = S @ replicate (k - length S) (neutral, -1) \<and>
         topk k (mset (map (\<lambda>j. (dis_tab ! ((j1 - j0) * (i - i0) + (j - j0)), int j)) [j0..<j1])) S
    else end_multiple neutral k i0 i1 (add_results k i0 i1 j0 j1 dis_tab (begin_multiple neutral k i0 i1 tab)) ! i = tab ! i"
proof -
  let ?f = "\<lambda>i j. dis_tab ! ((j1 - j0) * (i - i0) + (j - j0))"
  have nth: "end_multiple neutral k i0 i1 (add_results k i0 i1 j0 j1 dis_tab (begin_multiple neutral k i0 i1 tab)) ! i
      = (if i0 \<le> i \<and> i < i1
         then snd (heap_reorder CMax_cmp2 neutral k
           (add_results_row k j0 j1 (?f i) (heap_heapify CMax_cmp2 neutral k (tab ! i) [] None 0)))
         else tab ! i)"
    using assms(2,3,7) by (simp add: end_multiple_def add_results_def begin_multiple_def nth_each_row)
  show ?thesis
  proof (cases "i0 \<le> i \<and> i < i1")
    case True
    let ?A = "map (\<lambda>j. (?f i j, int j)) [j0..<j1]"
    have "heap_heapify CMax_cmp2 neutral k (tab ! i) [] None 0 = replicate k (neutral, -1)"
      using assms(4,7) by (simp add: heap_heapify_empty)
    then have "kept_best k neutral (mset ?A) (add_results_row k j0 j1 (?f i) (heap_heapify CMax_cmp2 neutral k (tab ! i) [] None 0))"
      using kept_best_fold[OF assms(1) kept_best_empty, where ps = ?A] by (simp only: add_results_row_fold add_0_right)
    moreover have "\<forall>p \<in># mset ?A. fst p < neutral \<and> snd p \<noteq> -1"
    proof -
      have "(j1 - j0) * (i - i0) + (j - j0) < length dis_tab" if "j \<in> {j0..<j1}" for j
      proof -
        have "(j1 - j0) * (i - i0) + (j - j0) < (j1 - j0) * Suc (i - i0)" using that by auto
        also have "\<dots> \<le> (j1 - j0) * (i1 - i0)" using True by (intro mult_le_mono2) auto
        finally show ?thesis using assms(6) by (simp add: mult.commute)
      qed
      then show ?thesis using assms(5) by auto
    qed
    ultimately show ?thesis
      using kept_best_reorder[of k neutral "mset ?A"] unfolding nth if_P[OF True] by fastforce
  next
    case False
    show ?thesis unfolding nth if_not_P[OF False] by (rule refl)
  qed
qed

theorem block_handler_topk_witness:
  "\<exists>S. end_multiple (100 :: int) 1 0 1 (add_results 1 0 1 3 5 [7, 4] (begin_multiple 100 1 0 1 [[(0, 0)]])) ! 0
     = S @ replicate (1 - length S) (100, -1) \<and> length S = 1"
  using block_handler_topk[of 1 0 1 "[[(0 :: int, 0)]]" "[7, 4]" 100 5 3 0] by (auto simp: topk_def)

end
