(* ===== verification/KnnHandler.thy ===== *)
theory KnnHandler
  imports PartitionOk ResHandler
begin

text \<open>
  The result handlers of brute-force searches for either metric (\<open>faiss/impl/ResultHandler.h\<close>): the single
  best result, the heap and the reservoir, with the choice between them by the number of results. A row is
  the part of the output arrays of one query, as pairs. A reservoir can fail where the partition throws.
\<close>

section \<open>The single best result\<close>

record top1 =
  t1_threshold :: float_t
  t1_min_idx :: int

definition top1_begin :: "metric \<Rightarrow> top1" where
  "top1_begin m = \<lparr> t1_threshold = C_neutral m, t1_min_idx = -1 \<rparr>"

definition top1_add :: "metric \<Rightarrow> float_t \<Rightarrow> int \<Rightarrow> top1 \<Rightarrow> top1 \<times> bool" where
  "top1_add m dis idx t =
     (if C_cmp m (t1_threshold t) dis then (\<lparr> t1_threshold = dis, t1_min_idx = idx \<rparr>, True) else (t, False))"

definition top1_end :: "top1 \<Rightarrow> (float_t \<times> int) list" where
  "top1_end t = [(t1_threshold t, t1_min_idx t)]"

text \<open>\<open>begin_multiple\<close> writes the neutral value to the row and leaves the id that the caller put there.\<close>

definition top1_begin_multiple :: "metric \<Rightarrow> (float_t \<times> int) list \<Rightarrow> top1" where
  "top1_begin_multiple m out = \<lparr> t1_threshold = C_neutral m, t1_min_idx = snd (out ! 0) \<rparr>"

section \<open>The heap\<close>

definition heap_begin :: "metric \<Rightarrow> nat \<Rightarrow> (float_t \<times> int) list \<Rightarrow> float_t hres" where
  "heap_begin m k out =
     (let heap = heap_heapify (C_cmp2 m) (C_neutral m) k out [] None 0
      in \<lparr> hr_k = k, hr_heap = heap, hr_threshold = fst (heap ! 0) \<rparr>)"

definition heap_add :: "metric \<Rightarrow> float_t \<Rightarrow> int \<Rightarrow> float_t hres \<Rightarrow> float_t hres \<times> bool" where
  "heap_add m dis idx r =
     (if C_cmp m (hr_threshold r) dis
      then let heap = heap_replace_top (C_cmp2 m) (hr_k r) (hr_heap r) (dis, idx)
           in (r\<lparr> hr_heap := heap, hr_threshold := fst (heap ! 0) \<rparr>, True)
      else (r, False))"

definition heap_end :: "metric \<Rightarrow> float_t hres \<Rightarrow> (float_t \<times> int) list" where
  "heap_end m r = snd (heap_reorder (C_cmp2 m) (C_neutral m) (hr_k r) (hr_heap r))"

section \<open>The reservoir\<close>

text \<open>The arrays \<open>vals\<close> and \<open>ids\<close> of \<open>capacity\<close> entries, of which the first \<open>i\<close> are in use.\<close>

record reservoir =
  rv_arr :: "(float_t \<times> int) list"
  rv_i :: nat
  rv_n :: nat
  rv_capacity :: nat
  rv_threshold :: float_t

text \<open>\<open>(2 * k + 15) & ~15\<close>\<close>

definition reservoir_capacity :: "nat \<Rightarrow> nat" where
  "reservoir_capacity k = (2 * k + 15) div 16 * 16"

definition reservoir_begin :: "metric \<Rightarrow> nat \<Rightarrow> reservoir" where
  "reservoir_begin m k =
     \<lparr> rv_arr = replicate (reservoir_capacity k) (0, 0), rv_i = 0, rv_n = k,
       rv_capacity = reservoir_capacity k, rv_threshold = C_neutral m \<rparr>"

definition shrink_fuzzy :: "metric \<Rightarrow> reservoir \<Rightarrow> reservoir result" where
  "shrink_fuzzy m r =
     bind_result (partition_fuzzy_median3 m (rv_arr r) (rv_capacity r) (rv_n r) ((rv_capacity r + rv_n r) div 2))
       (\<lambda>(thresh, q, arr). Inr (r\<lparr> rv_arr := arr, rv_i := q, rv_threshold := thresh \<rparr>))"

definition reservoir_add :: "metric \<Rightarrow> float_t \<Rightarrow> int \<Rightarrow> reservoir \<Rightarrow> (reservoir \<times> bool) result" where
  "reservoir_add m val idv r =
     (if C_cmp m (rv_threshold r) val
      then bind_result (if rv_i r = rv_capacity r then shrink_fuzzy m r else Inr r)
        (\<lambda>r'. Inr (r'\<lparr> rv_arr := (rv_arr r')[rv_i r' := (val, idv)], rv_i := rv_i r' + 1 \<rparr>, rv_i r = rv_capacity r))
      else Inr (r, False))"

text \<open>\<open>to_result\<close>: the first entries are pushed to a heap in the output row, the others offered to it.\<close>

definition to_result :: "metric \<Rightarrow> (float_t \<times> int) list \<Rightarrow> reservoir \<Rightarrow> (float_t \<times> int) list" where
  "to_result m out r =
     (let i = rv_i r; n = rv_n r;
          heap = fold (\<lambda>j heap. heap_push (C_cmp2 m) (j + 1) heap (rv_arr r ! j)) [0..<min i n] out
      in if i < n
         then snd (heap_reorder (C_cmp2 m) (C_neutral m) i (take i heap)) @
              heap_heapify (C_cmp2 m) (C_neutral m) (n - i) (drop i heap) [] None 0
         else let heap = heap_addn (C_cmp m) (C_cmp2 m) n heap (map fst (drop n (rv_arr r)))
                           (Some (map snd (drop n (rv_arr r)))) (i - n)
              in snd (heap_reorder (C_cmp2 m) (C_neutral m) n heap))"

section \<open>The choice of a handler\<close>

datatype handler = Top1Handler top1 | HeapHandler "float_t hres" | ReservoirHandler reservoir

definition distance_compute_min_k_reservoir :: nat where
  "distance_compute_min_k_reservoir = 100"

text \<open>\<open>dispatch_knn_ResultHandler\<close> with \<open>begin\<close> of one query, or \<open>begin_multiple\<close> of a query in a block.\<close>

definition handler_begin :: "metric \<Rightarrow> nat \<Rightarrow> (float_t \<times> int) list \<Rightarrow> handler" where
  "handler_begin m k out =
     (if k = 1 then Top1Handler (top1_begin m)
      else if k < distance_compute_min_k_reservoir then HeapHandler (heap_begin m k out)
      else ReservoirHandler (reservoir_begin m k))"

definition handler_begin_multiple :: "metric \<Rightarrow> nat \<Rightarrow> (float_t \<times> int) list \<Rightarrow> handler" where
  "handler_begin_multiple m k out =
     (if k = 1 then Top1Handler (top1_begin_multiple m out)
      else if k < distance_compute_min_k_reservoir then HeapHandler (heap_begin m k out)
      else ReservoirHandler (reservoir_begin m k))"

fun handler_add :: "metric \<Rightarrow> float_t \<Rightarrow> int \<Rightarrow> handler \<Rightarrow> (handler \<times> bool) result" where
  "handler_add m dis idx (Top1Handler t) = Inr (apfst Top1Handler (top1_add m dis idx t))"
| "handler_add m dis idx (HeapHandler r) = Inr (apfst HeapHandler (heap_add m dis idx r))"
| "handler_add m dis idx (ReservoirHandler r) =
     bind_result (reservoir_add m dis idx r) (\<lambda>(r', b). Inr (ReservoirHandler r', b))"

fun handler_end :: "metric \<Rightarrow> (float_t \<times> int) list \<Rightarrow> handler \<Rightarrow> (float_t \<times> int) list" where
  "handler_end m out (Top1Handler t) = top1_end t"
| "handler_end m out (HeapHandler r) = heap_end m r"
| "handler_end m out (ReservoirHandler r) = to_result m out r"

section \<open>The contract of a handler\<close>

text \<open>A result that a search may offer: better than the neutral value, not the worst of the other
  order, with a proper id.\<close>

definition offerable :: "metric \<Rightarrow> float_t \<times> int \<Rightarrow> bool" where
  "offerable m p \<longleftrightarrow> C_cmp m (C_neutral m) (fst p) \<and> C_cmp m (fst p) (Crev_neutral m) \<and> snd p \<noteq> -1"

text \<open>The row of the best \<open>k\<close> results of \<open>A\<close>, best first, padded.\<close>

definition best_row :: "metric \<Rightarrow> nat \<Rightarrow> (float_t \<times> int) multiset \<Rightarrow> (float_t \<times> int) list \<Rightarrow> bool" where
  "best_row m k A r \<longleftrightarrow> (\<exists>S. r = S @ replicate (k - length S) (C_neutral m, -1) \<and> C.best m k A S)"

text \<open>Results offered one after the other.\<close>

fun add_series :: "(float_t \<Rightarrow> int \<Rightarrow> 'h \<Rightarrow> ('h \<times> bool) result) \<Rightarrow> (float_t \<times> int) list \<Rightarrow> 'h \<Rightarrow> 'h result" where
  "add_series add [] h = Inr h"
| "add_series add (p # ps) h = bind_result (add (fst p) (snd p) h) (\<lambda>(h', _). add_series add ps h')"

text \<open>What a search relies on, for the numbers \<open>k\<close> of results that are \<open>sizes\<close> of the handler. \<open>pads\<close>
  says whether the row of a query without any result is padded.\<close>

locale result_handler =
  fixes m :: metric and sizes :: "nat \<Rightarrow> bool" and pads :: bool
    and start :: "nat \<Rightarrow> (float_t \<times> int) list \<Rightarrow> 'h"
    and add :: "float_t \<Rightarrow> int \<Rightarrow> 'h \<Rightarrow> ('h \<times> bool) result"
    and finish :: "(float_t \<times> int) list \<Rightarrow> 'h \<Rightarrow> (float_t \<times> int) list"
    and inv :: "nat \<Rightarrow> (float_t \<times> int) multiset \<Rightarrow> 'h \<Rightarrow> bool"
  assumes start_inv: "sizes k \<Longrightarrow> length out = k \<Longrightarrow> inv k {#} (start k out)"
    and add_inv: "sizes k \<Longrightarrow> inv k A h \<Longrightarrow> \<forall>p \<in># A. offerable m p \<Longrightarrow> offerable m (d, i) \<Longrightarrow>
      \<exists>h' b. add d i h = Inr (h', b) \<and> inv k (add_mset (d, i) A) h'"
    and finish_best: "sizes k \<Longrightarrow> inv k A h \<Longrightarrow> \<forall>p \<in># A. offerable m p \<Longrightarrow> length out = k \<Longrightarrow>
      pads \<or> A \<noteq> {#} \<Longrightarrow> best_row m k A (finish out h)"
begin

lemma series_inv:
  assumes "sizes k" "inv k A h" "\<forall>p \<in># A. offerable m p" "\<forall>p \<in> set ps. offerable m p"
  shows "\<exists>h'. add_series add ps h = Inr h' \<and> inv k (A + mset ps) h'"
  using assms(2-4)
proof (induction ps arbitrary: A h)
  case (Cons p ps)
  from add_inv[OF assms(1) Cons.prems(1,2), of "fst p" "snd p"] Cons.prems(3) obtain h' b where
    h': "add (fst p) (snd p) h = Inr (h', b)" "inv k (add_mset p A) h'" by auto
  from Cons.IH[OF h'(2)] Cons.prems(2,3) h'(1) show ?case by auto
qed simp

text \<open>The whole of a search: the best of the results offered.\<close>

lemma series_best:
  assumes "sizes k" "length out = k" "length out' = k" "\<forall>p \<in> set ps. offerable m p" "pads \<or> ps \<noteq> []"
  shows "\<exists>h. add_series add ps (start k out) = Inr h \<and> best_row m k (mset ps) (finish out' h)"
proof -
  from series_inv[OF assms(1) start_inv[OF assms(1,2)] _ assms(4)] obtain h where
    "add_series add ps (start k out) = Inr h" "inv k (mset ps) h" by auto
  with finish_best[OF assms(1) _ _ assms(3)] assms(4,5) show ?thesis by auto
qed

end

section \<open>The single best result and the heap keep the contract\<close>

definition top1_inv :: "metric \<Rightarrow> bool \<Rightarrow> (float_t \<times> int) multiset \<Rightarrow> top1 \<Rightarrow> bool" where
  "top1_inv m pads A t \<longleftrightarrow>
     (if A = {#} then t1_threshold t = C_neutral m \<and> (pads \<longrightarrow> t1_min_idx t = -1)
      else (t1_threshold t, t1_min_idx t) \<in># A \<and> (\<forall>p \<in># A. \<not> C_cmp m (t1_threshold t) (fst p)))"

lemma top1_inv_add:
  assumes "top1_inv m pads A t" "offerable m (d, i)"
  shows "top1_inv m pads (add_mset (d, i) A) (fst (top1_add m d i t))"
proof (cases "A = {#}")
  case True
  with assms show ?thesis by (auto simp: top1_inv_def top1_add_def offerable_def)
next
  case False
  then have t: "(t1_threshold t, t1_min_idx t) \<in># A" "\<forall>p \<in># A. \<not> C_cmp m (t1_threshold t) (fst p)"
    using assms(1) by (auto simp: top1_inv_def)
  have "\<not> C_cmp m d (fst p)" if "C_cmp m (t1_threshold t) d" "p \<in># A" for p
    using C_cmp_weak[OF C_cmp_asym[OF that(1)]] t(2) that(2) by blast
  with t show ?thesis by (auto simp: top1_inv_def top1_add_def)
qed

lemma top1_inv_end:
  assumes "top1_inv m pads A t" "pads \<or> A \<noteq> {#}"
  shows "best_row m 1 A (top1_end t)"
proof (cases "A = {#}")
  case True
  have "C.best m 1 A []" by (simp add: C.best_def C.not_better_def True)
  with True assms show ?thesis unfolding best_row_def
    by (intro exI[of _ "[]"]) (simp add: top1_inv_def top1_end_def)
next
  case False
  let ?p = "(t1_threshold t, t1_min_idx t)"
  from False assms(1) have t: "?p \<in># A" "\<forall>p \<in># A. \<not> C_cmp m (t1_threshold t) (fst p)" by (auto simp: top1_inv_def)
  have "A = mset [?p] + (A - {#?p#})" using t(1) by simp
  moreover have "C.not_better m (A - {#?p#}) [?p]"
    using t(2) by (auto simp: C.not_better_def dest: in_diffD)
  moreover have "1 \<le> size A" using False by (metis One_nat_def Suc_leI nonempty_has_size)
  ultimately have "C.best m 1 A [?p]" unfolding C.best_def by (intro conjI exI[of _ "A - {#?p#}"]) simp_all
  then show ?thesis unfolding best_row_def by (intro exI[of _ "[?p]"]) (simp add: top1_end_def)
qed

interpretation top1: result_handler m "\<lambda>k. k = 1" True "\<lambda>_ _. top1_begin m" "\<lambda>d i t. Inr (top1_add m d i t)"
    "\<lambda>_. top1_end" "\<lambda>_. top1_inv m True" for m
proof unfold_locales
  show "top1_inv m True {#} (top1_begin m)" by (simp add: top1_inv_def top1_begin_def)
qed (use top1_inv_add top1_inv_end in \<open>(metis prod.collapse)+\<close>)

interpretation top1_block: result_handler m "\<lambda>k. k = 1" False "\<lambda>_. top1_begin_multiple m" "\<lambda>d i t. Inr (top1_add m d i t)"
    "\<lambda>_. top1_end" "\<lambda>_. top1_inv m False" for m
proof unfold_locales
  show "top1_inv m False {#} (top1_begin_multiple m out)" for out by (simp add: top1_inv_def top1_begin_multiple_def)
qed (use top1_inv_add top1_inv_end in \<open>(metis prod.collapse)+\<close>)

definition heap_inv :: "metric \<Rightarrow> nat \<Rightarrow> (float_t \<times> int) multiset \<Rightarrow> float_t hres \<Rightarrow> bool" where
  "heap_inv m k A r \<longleftrightarrow> hr_k r = k \<and> C.kept m k (C_neutral m) A (hr_heap r) \<and> hr_threshold r = fst (hr_heap r ! 0)"

lemma heap_inv_add:
  assumes "1 \<le> k" "heap_inv m k A r"
  shows "heap_inv m k (add_mset (d, i) A) (fst (heap_add m d i r))"
  using C.kept_step[of m k "C_neutral m" A "hr_heap r" "(d, i)"] assms
  by (auto simp: heap_inv_def heap_add_def C.addn_step_def Let_def)

lemma heap_inv_end:
  assumes "heap_inv m k A r" "\<forall>p \<in># A. offerable m p"
  shows "best_row m k A (heap_end m r)"
proof -
  have "\<forall>p \<in># A. C_cmp m (C_neutral m) (fst p) \<and> snd p \<noteq> -1" using assms(2) by (auto simp: offerable_def)
  from C.kept_reorder[OF _ this, of k "hr_heap r"] assms(1) show ?thesis
    by (auto simp: heap_inv_def best_row_def heap_end_def)
qed

interpretation heap: result_handler m "\<lambda>k. 1 \<le> k" True "heap_begin m" "\<lambda>d i r. Inr (heap_add m d i r)" "\<lambda>_. heap_end m"
    "heap_inv m" for m
proof unfold_locales
  show "heap_inv m k {#} (heap_begin m k out)" if "length out = k" for k out
    using C.kept_empty[of m k "C_neutral m"]
    by (simp only: heap_inv_def heap_begin_def Let_def heap_heapify_empty[OF that]) simp
  show "\<exists>h' b. Inr (heap_add m d i h) = Inr (h', b) \<and> heap_inv m k (add_mset (d, i) A) h'"
    if "1 \<le> k" "heap_inv m k A h" for k A h d i
    using heap_inv_add[OF that, of d i] by (metis prod.collapse)
qed (use heap_inv_end in blast)

end
