(* ===== verification/KnnReservoir.thy ===== *)
theory KnnReservoir
  imports KnnHandler
begin

text \<open>
  The reservoir keeps the contract of a result handler for \<open>100 \<le> k \<le> 256\<close>: for these sizes the 200
  rounds of the partition suffice. All handlers together: the one that is chosen for \<open>k\<close> gives the best
  \<open>k\<close> results of any series.
\<close>

section \<open>The capacity\<close>

definition reservoir_size :: "nat \<Rightarrow> bool" where
  "reservoir_size k \<longleftrightarrow> 100 \<le> k \<and> k \<le> 256"

lemma coprime_capacities:
  assumes "13 \<le> j" "j < 33"
  shows "coprime big_prime (j * 16)"
proof -
  have "\<forall>j \<in> {13, 14, 15, 16, 17, 18, 19, 20, 21, 22, 23, 24, 25, 26, 27, 28, 29, 30, 31, 32}. coprime big_prime (j * 16)"
    by (simp add: big_prime_def coprime_iff_gcd_eq_1 gcd_non_0_nat)
  moreover have "j \<in> {13, 14, 15, 16, 17, 18, 19, 20, 21, 22, 23, 24, 25, 26, 27, 28, 29, 30, 31, 32}"
    using assms by (simp only: insert_iff empty_iff) presburger
  ultimately show ?thesis by blast
qed

lemma capacity_bounds:
  assumes "reservoir_size k"
  shows "coprime big_prime (reservoir_capacity k)" "2 * k \<le> reservoir_capacity k"
    "reservoir_capacity k \<le> 401 + ((reservoir_capacity k + k) div 2 - k)"
proof -
  let ?j = "(2 * k + 15) div 16"
  have k: "100 \<le> k" "k \<le> 256" using assms by (auto simp: reservoir_size_def)
  then have "13 \<le> ?j" "?j < 33" by linarith+
  then show "coprime big_prime (reservoir_capacity k)"
    using coprime_capacities unfolding reservoir_capacity_def by blast
  show "2 * k \<le> reservoir_capacity k" by (simp add: reservoir_capacity_def)
  show "reservoir_capacity k \<le> 401 + ((reservoir_capacity k + k) div 2 - k)"
    using k unfolding reservoir_capacity_def by linarith
qed

section \<open>The invariant\<close>

text \<open>Of the results \<open>A\<close> offered, those that are not stored are not better than the threshold, at least
  \<open>k\<close> stored ones are as good as it, and at most one stored one is worse: the one that made the array
  overflow.\<close>

definition reservoir_inv :: "metric \<Rightarrow> nat \<Rightarrow> (float_t \<times> int) multiset \<Rightarrow> reservoir \<Rightarrow> bool" where
  "reservoir_inv m k A r \<longleftrightarrow> rv_n r = k \<and> rv_capacity r = reservoir_capacity k \<and>
     length (rv_arr r) = reservoir_capacity k \<and> rv_i r \<le> reservoir_capacity k \<and>
     (\<exists>R. A = mset (take (rv_i r) (rv_arr r)) + R \<and>
        (R = {#} \<and> rv_threshold r = C_neutral m \<or>
         k \<le> length (filter (\<lambda>p. \<not> C_cmp m (fst p) (rv_threshold r)) (take (rv_i r) (rv_arr r))) \<and>
         length (filter (\<lambda>p. C_cmp m (fst p) (rv_threshold r)) (take (rv_i r) (rv_arr r))) \<le> 1 \<and>
         (\<forall>p \<in># R. \<not> C_cmp m (rv_threshold r) (fst p))))"

lemma reservoir_inv_begin: "reservoir_inv m k {#} (reservoir_begin m k)"
  by (simp add: reservoir_inv_def reservoir_begin_def)

text \<open>Storing a result.\<close>

lemma store_inv:
  assumes "length arr = c" "i < c" "A = mset (take i arr) + R"
    "R = {#} \<and> t = C_neutral m \<and> C_cmp m t (fst x) \<or>
     k \<le> length (filter (\<lambda>p. \<not> C_cmp m (fst p) t) (take i arr)) \<and>
     length (filter (\<lambda>p. C_cmp m (fst p) t) (take i arr @ [x])) \<le> 1 \<and> (\<forall>p \<in># R. \<not> C_cmp m t (fst p))"
    "c = reservoir_capacity k"
  shows "reservoir_inv m k (add_mset x A)
    \<lparr> rv_arr = arr[i := x], rv_i = i + 1, rv_n = k, rv_capacity = c, rv_threshold = t \<rparr>"
proof -
  have t: "take (i + 1) (arr[i := x]) = take i arr @ [x]"
    using assms(1,2) by (simp add: take_Suc_conv_app_nth)
  have "add_mset x A = mset (take i arr @ [x]) + R" using assms(3) by simp
  with assms(1,2,4,5) show ?thesis
    unfolding reservoir_inv_def by (intro conjI exI[of _ R]) (auto simp: t simp del: One_nat_def)
qed

text \<open>A threshold that keeps few enough entries is not worse than one that almost all of them reach.\<close>

lemma worse_or_better:
  "C_cmp m t t0 \<Longrightarrow>
    length ps \<le> length (filter (\<lambda>p. C_cmp m (fst p) t0) ps) + length (filter (\<lambda>p. C_cmp m t (fst p)) ps)"
proof (induction ps)
  case (Cons p ps)
  have "C_cmp m (fst p) t0 \<or> C_cmp m t (fst p)" using C_cmp_weak Cons.prems by blast
  with Cons show ?case by auto
qed simp

lemma better_kept:
  assumes "mset ps = mset qs + R" "\<forall>r \<in># R. \<not> C_cmp m t (fst r)"
  shows "length (filter (\<lambda>p. C_cmp m t (fst p)) ps) \<le> length qs"
proof -
  have "filter_mset (\<lambda>p. C_cmp m t (fst p)) R = {#}" using assms(2) by (auto simp: multiset_eq_iff not_in_iff[symmetric])
  then have "mset (filter (\<lambda>p. C_cmp m t (fst p)) ps) = mset (filter (\<lambda>p. C_cmp m t (fst p)) qs)"
    using assms(1) by simp
  from arg_cong[OF this, of size] show ?thesis unfolding size_mset by (simp add: length_filter_le)
qed

lemma reservoir_inv_add:
  assumes "reservoir_size k" "reservoir_inv m k A r" "\<forall>p \<in># A. offerable m p" "offerable m (d, i)"
  shows "\<exists>r' b. reservoir_add m d i r = Inr (r', b) \<and> reservoir_inv m k (add_mset (d, i) A) r'"
proof -
  let ?c = "reservoir_capacity k" and ?st = "take (rv_i r) (rv_arr r)" and ?t = "rv_threshold r"
  from assms(2) obtain R where r: "rv_n r = k" "rv_capacity r = ?c" "length (rv_arr r) = ?c" "rv_i r \<le> ?c"
    "A = mset ?st + R" and R: "R = {#} \<and> ?t = C_neutral m \<or>
      k \<le> length (filter (\<lambda>p. \<not> C_cmp m (fst p) ?t) ?st) \<and> length (filter (\<lambda>p. C_cmp m (fst p) ?t) ?st) \<le> 1 \<and>
      (\<forall>p \<in># R. \<not> C_cmp m ?t (fst p))" by (auto simp: reservoir_inv_def)
  have off: "C_cmp m (C_neutral m) d" using assms(4) by (simp add: offerable_def)
  show ?thesis
  proof (cases "C_cmp m ?t d")
    case False
    then have add: "reservoir_add m d i r = Inr (r, False)" by (simp add: reservoir_add_def)
    from False off have "?t \<noteq> C_neutral m" by auto
    with R have "reservoir_inv m k (add_mset (d, i) A) r"
      unfolding reservoir_inv_def using r False by (intro conjI exI[of _ "add_mset (d, i) R"]) auto
    with add show ?thesis by blast
  next
    case better: True
    show ?thesis
    proof (cases "rv_i r = ?c")
      case False
      let ?r' = "r\<lparr> rv_arr := (rv_arr r)[rv_i r := (d, i)], rv_i := rv_i r + 1 \<rparr>"
      have add: "reservoir_add m d i r = Inr (?r', False)" using better False r(2) by (simp add: reservoir_add_def)
      have "?r' = \<lparr> rv_arr = (rv_arr r)[rv_i r := (d, i)], rv_i = rv_i r + 1, rv_n = k, rv_capacity = ?c, rv_threshold = ?t \<rparr>"
        using r(1,2) by simp
      moreover have "reservoir_inv m k (add_mset (d, i) A) \<dots>"
        by (rule store_inv[OF r(3) _ r(5)]) (use False r(4) R better in \<open>auto dest: C_cmp_asym\<close>)
      ultimately show ?thesis using add by (metis (no_types))
    next
      case full: True
      let ?q = "(?c + k) div 2"
      note cap = capacity_bounds[OF assms(1)]
      have k: "100 \<le> k" using assms(1) by (simp add: reservoir_size_def)
      have b: "3 \<le> ?c" "1 \<le> k" "k < ?q" "?q < ?c" "?q + 2 \<le> ?c" using cap(2) k by linarith+
      have st: "?st = take ?c (rv_arr r)" using full by simp
      have good: "\<forall>p \<in> set (take ?c (rv_arr r)). C_cmp m (C_neutral m) (fst p) \<and> C_cmp m (fst p) (Crev_neutral m)"
        using assms(3) unfolding r(5) st by (auto simp: offerable_def)
      have le: "?c \<le> length (rv_arr r)" using r(3) by simp
      from partition_fuzzy_ok[OF cap(1) b(1-4) le cap(3) good] obtain t q arr' R2 where
        p: "partition_fuzzy_median3 m (rv_arr r) ?c k ?q = Inr (t, q, arr')" "k \<le> q" "q \<le> ?q" "length arr' = ?c"
          "mset ?st = mset (take q arr') + R2"
          "\<forall>p \<in> set (take q arr'). \<not> C_cmp m (fst p) t" "\<forall>p \<in># R2. \<not> C_cmp m t (fst p)"
        unfolding r(3) st by blast
      have add: "reservoir_add m d i r = Inr (\<lparr> rv_arr = arr'[q := (d, i)], rv_i = q + 1, rv_n = k, rv_capacity = ?c,
          rv_threshold = t \<rparr>, True)"
        using better full by (simp add: reservoir_add_def shrink_fuzzy_def r(1,2) p(1))
      have old: "\<not> C_cmp m t (fst p)" if "p \<in># R" for p
      proof -
        from that R have w: "length (filter (\<lambda>p. C_cmp m (fst p) ?t) ?st) \<le> 1" "\<not> C_cmp m ?t (fst p)" by auto
        have "\<not> C_cmp m t ?t"
        proof
          assume tt: "C_cmp m t ?t"
          from better_kept[OF p(5,7)] p(3,4) b(4) have "length (filter (\<lambda>p. C_cmp m t (fst p)) ?st) \<le> ?q" by simp
          moreover have "length ?st = ?c" using full r(3) by simp
          ultimately show False using worse_or_better[OF tt, of ?st] w(1) b(5) by linarith
        qed
        then show ?thesis using w(2) C_cmp_weak by blast
      qed
      let ?kept = "take q arr'"
      have kept: "filter (\<lambda>p. \<not> C_cmp m (fst p) t) ?kept = ?kept" "filter (\<lambda>p. C_cmp m (fst p) t) ?kept = []"
        using p(6) by (auto simp: filter_id_conv filter_empty_conv)
      have q: "q < ?c" using p(3) b(4) by linarith
      have "reservoir_inv m k (add_mset (d, i) A)
          \<lparr> rv_arr = arr'[q := (d, i)], rv_i = q + 1, rv_n = k, rv_capacity = ?c, rv_threshold = t \<rparr>"
      proof (rule store_inv[OF p(4) q])
        show "A = mset ?kept + (R2 + R)" unfolding r(5) p(5) by simp
        have "k \<le> length ?kept" using p(2,4) q by simp
        moreover have "length (filter (\<lambda>p. C_cmp m (fst p) t) (?kept @ [(d, i)])) \<le> 1" by (simp add: kept(2))
        moreover have "\<forall>p \<in># R2 + R. \<not> C_cmp m t (fst p)" using p(7) old by auto
        ultimately show "R2 + R = {#} \<and> t = C_neutral m \<and> C_cmp m t (fst (d, i)) \<or>
            k \<le> length (filter (\<lambda>p. \<not> C_cmp m (fst p) t) ?kept) \<and>
            length (filter (\<lambda>p. C_cmp m (fst p) t) (?kept @ [(d, i)])) \<le> 1 \<and> (\<forall>p \<in># R2 + R. \<not> C_cmp m t (fst p))"
          unfolding kept(1) by blast
      qed (rule refl)
      with add show ?thesis by blast
    qed
  qed
qed

section \<open>The result of a reservoir\<close>

text \<open>The best of the stored entries: a heap of the first ones, to which the others are offered.\<close>

lemma heap_of_stored:
  fixes m :: metric
  assumes "n \<le> i" "i \<le> length arr" "length out = n" "1 \<le> n"
  defines "h0 \<equiv> fold (\<lambda>j heap. heap_push (C_cmp2 m) (j + 1) heap (arr ! j)) [0..<n] out"
  defines "h \<equiv> heap_addn (C_cmp m) (C_cmp2 m) n h0 (map fst (drop n arr)) (Some (map snd (drop n arr))) (i - n)"
  shows "is_heap (C_cmp2 m) n h" "length h = n"
    "\<exists>R. mset (take i arr) = mset h + R \<and> C.not_better m R h"
proof -
  have n: "n \<le> length out" "n \<le> length arr" using assms(1-3) by simp_all
  from C.push_series_ok[OF n, of m] have
    h0: "is_heap (C_cmp2 m) n h0" "length h0 = n" "mset h0 = mset (take n arr)"
    unfolding h0_def using assms(3) by auto
  have ps: "input_pairs (map fst (drop n arr)) (Some (map snd (drop n arr))) (i - n) = take (i - n) (drop n arr)"
    using assms(1,2) by (intro nth_equalityI) (simp_all add: input_pairs_def)
  have h: "h = fold (C.addn_step m n) (take (i - n) (drop n arr)) h0"
    unfolding h_def heap_addn_def ps C.addn_step_def[abs_def] by simp
  have "C.not_better m {#} h0" by (simp add: C.not_better_def)
  from C.addn_keeps_best[OF h0(1) assms(4) h0(2) this, of "take (i - n) (drop n arr)"]
  show "is_heap (C_cmp2 m) n h" "length h = n" "\<exists>R. mset (take i arr) = mset h + R \<and> C.not_better m R h"
    unfolding h h0(3) using assms(1,2)
    by (simp_all add: mset_append[symmetric] take_add[symmetric] del: mset_append)
qed

lemma reorder_proper:
  assumes "is_heap (C_cmp2 m) n h" "length h = n" "\<forall>p \<in># mset h. snd p \<noteq> -1"
  shows "sorted_wrt (\<lambda>a b. \<not> C_cmp2 m a b) (snd (heap_reorder (C_cmp2 m) (C_neutral m) n h))"
    "mset (snd (heap_reorder (C_cmp2 m) (C_neutral m) n h)) = mset h"
proof -
  from C.heap_reorder_ok[OF assms(1,2), of "C_neutral m"] obtain S where
    S: "heap_reorder (C_cmp2 m) (C_neutral m) n h = (length S, S @ replicate (n - length S) (C_neutral m, -1))"
    "sorted_wrt (\<lambda>a b. \<not> C_cmp2 m a b) S" "mset S = filter_mset (\<lambda>p. snd p \<noteq> -1) (mset h)" by blast
  have "filter_mset (\<lambda>p. snd p \<noteq> -1) (mset h) = mset h" using assms(3) by (simp add: filter_mset_eq_conv)
  with S(3) have m: "mset S = mset h" by simp
  then have "length S = n" using assms(2) by (metis size_mset)
  with S m show "sorted_wrt (\<lambda>a b. \<not> C_cmp2 m a b) (snd (heap_reorder (C_cmp2 m) (C_neutral m) n h))"
    "mset (snd (heap_reorder (C_cmp2 m) (C_neutral m) n h)) = mset h" by simp_all
qed

text \<open>When \<open>k\<close> of the entries reach a threshold, so do the best \<open>k\<close>.\<close>

lemma good_not_dropped:
  assumes "mset ps = mset h + R" "C.not_better m R h" "k \<le> length (filter (\<lambda>p. \<not> C_cmp m (fst p) t) ps)"
    "length h = k" "a \<in># mset h"
  shows "\<not> C_cmp m (fst a) t"
proof
  let ?good = "\<lambda>p. \<not> C_cmp m (fst p) t"
  assume w: "C_cmp m (fst a) t"
  have "filter_mset ?good (mset h) \<noteq> mset h" using assms(5) w by (auto simp: filter_mset_eq_conv)
  then have "size (filter_mset ?good (mset h)) < k"
    using assms(4) multiset_filter_subset[of ?good "mset h"] mset_subset_size[of "filter_mset ?good (mset h)" "mset h"]
    by (simp add: subset_mset.less_le)
  moreover have "k \<le> size (filter_mset ?good (mset ps))" using assms(3) by (metis mset_filter size_mset)
  ultimately have "0 < size (filter_mset ?good R)" unfolding assms(1) by simp
  then obtain g where "g \<in># filter_mset ?good R" by (metis multiset_nonemptyE nonempty_has_size)
  then have "g \<in># R" "\<not> C_cmp m (fst g) t" by simp_all
  moreover from this(1) assms(2,5) have "\<not> C_cmp m (fst a) (fst g)" by (simp add: C.not_better_def)
  ultimately show False using w C_cmp_weak by blast
qed

lemma reservoir_inv_end:
  assumes "reservoir_size k" "reservoir_inv m k A r" "\<forall>p \<in># A. offerable m p" "length out = k"
  shows "best_row m k A (to_result m out r)"
proof -
  let ?c = "reservoir_capacity k" and ?st = "take (rv_i r) (rv_arr r)" and ?t = "rv_threshold r"
  from assms(2) obtain R where r: "rv_n r = k" "length (rv_arr r) = ?c" "rv_i r \<le> ?c"
    "A = mset ?st + R" and R: "R = {#} \<or>
      k \<le> length (filter (\<lambda>p. \<not> C_cmp m (fst p) ?t) ?st) \<and> (\<forall>p \<in># R. \<not> C_cmp m ?t (fst p))"
    by (auto simp: reservoir_inv_def)
  have k: "1 \<le> k" using assms(1) by (simp add: reservoir_size_def)
  have st: "length ?st = rv_i r" using r(2,3) by simp
  have ids: "\<forall>p \<in># mset ?st. snd p \<noteq> -1" using assms(3) unfolding r(4) by (auto simp: offerable_def)
  show ?thesis
  proof (cases "rv_i r < k")
    case True
    let ?h = "fold (\<lambda>j heap. heap_push (C_cmp2 m) (j + 1) heap (rv_arr r ! j)) [0..<rv_i r] out"
    let ?S = "snd (heap_reorder (C_cmp2 m) (C_neutral m) (rv_i r) (take (rv_i r) ?h))"
    have "length (filter (\<lambda>p. \<not> C_cmp m (fst p) ?t) ?st) \<le> rv_i r"
      using length_filter_le[of "\<lambda>p. \<not> C_cmp m (fst p) ?t" ?st] st by simp
    with R True have A: "A = mset ?st" using r(4) by auto
    have i: "rv_i r \<le> length out" "rv_i r \<le> length (rv_arr r)" using True assms(4) r(2,3) by simp_all
    note push = C.push_series_ok[OF i, of m]
    have tk: "is_heap (C_cmp2 m) (rv_i r) (take (rv_i r) ?h)" "length (take (rv_i r) ?h) = rv_i r"
      using push i by (auto simp: is_heap_def at1_def)
    have "mset (take (rv_i r) ?h) = mset ?st" using push by blast
    note S = reorder_proper[OF tk, unfolded this, OF ids]
    have len: "length ?S = rv_i r" using arg_cong[OF S(2), of size] st by simp
    have tr: "to_result m out r = ?S @ replicate (k - rv_i r) (C_neutral m, -1)"
      using True push assms(4) by (simp add: to_result_def Let_def r(1) min_def heap_heapify_empty)
    have "C.best m k A ?S"
      unfolding C.best_def A using S len st True by (auto simp: C.not_better_def)
    then show ?thesis unfolding best_row_def tr by (intro exI[of _ ?S]) (simp only: len)
  next
    case False
    then have ki: "k \<le> rv_i r" "rv_i r \<le> length (rv_arr r)" using r(2,3) by simp_all
    let ?h0 = "fold (\<lambda>j heap. heap_push (C_cmp2 m) (j + 1) heap (rv_arr r ! j)) [0..<k] out"
    let ?h = "heap_addn (C_cmp m) (C_cmp2 m) k ?h0 (map fst (drop k (rv_arr r))) (Some (map snd (drop k (rv_arr r)))) (rv_i r - k)"
    let ?S = "snd (heap_reorder (C_cmp2 m) (C_neutral m) k ?h)"
    note h = heap_of_stored[OF ki assms(4) k, of m]
    from h(3) obtain R' where R': "mset ?st = mset ?h + R'" "C.not_better m R' ?h" by blast
    have "\<forall>p \<in># mset ?h. snd p \<noteq> -1" using ids unfolding R'(1) by simp
    note S = reorder_proper[OF h(1,2) this]
    have len: "length ?S = k" using arg_cong[OF S(2), of size] h(2) by simp
    have tr: "to_result m out r = ?S"
      using False ki by (simp add: to_result_def Let_def r(1) min_def)
    have nb: "C.not_better m (R' + R) ?S"
      unfolding C.not_better_def
    proof (intro ballI)
      fix p a assume p: "p \<in># R' + R" and "a \<in> set ?S"
      then have a: "a \<in># mset ?h" unfolding S(2)[symmetric] by simp
      show "\<not> C_cmp m (fst a) (fst p)"
      proof (cases "p \<in># R'")
        case True
        with R'(2) a show ?thesis by (simp add: C.not_better_def)
      next
        case False
        then have g: "k \<le> length (filter (\<lambda>p. \<not> C_cmp m (fst p) ?t) ?st)" and w: "\<not> C_cmp m ?t (fst p)"
          using p R by auto
        have "\<not> C_cmp m (fst a) ?t"
          using good_not_dropped[OF R' g _ a] h(2) by simp
        then show ?thesis using w C_cmp_weak by blast
      qed
    qed
    have "A = mset ?S + (R' + R)" unfolding r(4) R'(1) S(2) by simp
    moreover have "k \<le> size A" unfolding r(4) using ki st by simp
    ultimately have "C.best m k A ?S" unfolding C.best_def using S(1) len nb by auto
    then show ?thesis unfolding best_row_def tr by (intro exI[of _ ?S] conjI) (simp_all only: len diff_self_eq_0 replicate_0 append_Nil2)
  qed
qed

interpretation reservoir: result_handler m reservoir_size True "\<lambda>k _. reservoir_begin m k" "reservoir_add m" "to_result m"
    "reservoir_inv m" for m
  by unfold_locales (blast intro: reservoir_inv_begin reservoir_inv_add reservoir_inv_end)+

section \<open>The chosen handler\<close>

text \<open>The contract of the handler that the dispatch chooses, from those of the three.\<close>

definition handler_sizes :: "nat \<Rightarrow> bool" where
  "handler_sizes k \<longleftrightarrow> 1 \<le> k \<and> k \<le> 256"

definition handler_inv :: "metric \<Rightarrow> bool \<Rightarrow> nat \<Rightarrow> (float_t \<times> int) multiset \<Rightarrow> handler \<Rightarrow> bool" where
  "handler_inv m pads k A h \<longleftrightarrow>
     (case h of Top1Handler t \<Rightarrow> k = 1 \<and> top1_inv m pads A t
      | HeapHandler r \<Rightarrow> 1 \<le> k \<and> heap_inv m k A r
      | ReservoirHandler r \<Rightarrow> reservoir_size k \<and> reservoir_inv m k A r)"

lemma handler_sizes_cases:
  "handler_sizes k \<Longrightarrow> k \<noteq> 1 \<Longrightarrow> \<not> k < distance_compute_min_k_reservoir \<Longrightarrow> reservoir_size k"
  by (simp add: handler_sizes_def reservoir_size_def distance_compute_min_k_reservoir_def)

lemma handler_begin_inv:
  assumes "handler_sizes k" "length out = k"
  shows "handler_inv m True k {#} (handler_begin m k out)" "handler_inv m False k {#} (handler_begin_multiple m k out)"
proof -
  have k: "1 \<le> k" using assms(1) by (simp add: handler_sizes_def)
  note starts = top1.start_inv[OF refl, of out m] top1_block.start_inv[OF refl, of out m]
    heap.start_inv[OF k assms(2)] reservoir.start_inv[OF handler_sizes_cases[OF assms(1)] assms(2)]
  show "handler_inv m True k {#} (handler_begin m k out)" "handler_inv m False k {#} (handler_begin_multiple m k out)"
    using k assms starts
    by (auto simp: handler_inv_def handler_begin_def handler_begin_multiple_def intro: handler_sizes_cases)
qed

lemma handler_inv_add:
  assumes "handler_inv m pads k A h" "\<forall>p \<in># A. offerable m p" "offerable m (d, i)"
  shows "\<exists>h' b. handler_add m d i h = Inr (h', b) \<and> handler_inv m pads k (add_mset (d, i) A) h'"
proof (cases h)
  case (Top1Handler t)
  with assms top1_inv_add[OF _ assms(3), of pads A t] show ?thesis
    by (cases "top1_add m d i t") (auto simp: handler_inv_def)
next
  case (HeapHandler r)
  with assms heap_inv_add[of k m A r d i] show ?thesis by (cases "heap_add m d i r") (auto simp: handler_inv_def)
next
  case (ReservoirHandler r)
  with assms reservoir_inv_add[OF _ _ assms(2,3), of k r] show ?thesis by (auto simp: handler_inv_def)
qed

lemma handler_inv_end:
  assumes "handler_inv m pads k A h" "\<forall>p \<in># A. offerable m p" "length out = k" "pads \<or> A \<noteq> {#}"
  shows "best_row m k A (handler_end m out h)"
proof (cases h)
  case (Top1Handler t)
  with assms(1) top1_inv_end[OF _ assms(4), of m t] show ?thesis by (simp add: handler_inv_def)
next
  case (HeapHandler r)
  with assms(1) heap_inv_end[OF _ assms(2), of k r] show ?thesis by (simp add: handler_inv_def)
next
  case (ReservoirHandler r)
  with assms(1) reservoir_inv_end[OF _ _ assms(2,3), of r] show ?thesis by (simp add: handler_inv_def)
qed

interpretation single: result_handler m handler_sizes True "handler_begin m" "handler_add m" "handler_end m"
    "handler_inv m True" for m
  by unfold_locales (blast intro: handler_begin_inv handler_inv_add handler_inv_end)+

interpretation block: result_handler m handler_sizes False "handler_begin_multiple m" "handler_add m" "handler_end m"
    "handler_inv m False" for m
  by unfold_locales (blast intro: handler_begin_inv handler_inv_add handler_inv_end)+

end
