(* ===== verification/Selector.thy ===== *)
theory Selector
  imports Prelude
begin

unbundle bit_operations_syntax

text \<open>
  The selectors of ids that restrict a search or a removal (\<open>faiss/impl/IDSelector.h\<close>,
  \<open>IDSelector.cpp\<close>): ranges, arrays, hash sets behind a Bloom filter, bitmaps and their boolean
  combinations, and the bisection that finds a range of ids in a sorted list. An \<open>idx_t\<close> is an integer in
  the range of \<open>int64_t\<close>.
\<close>

section \<open>Sets with a Bloom filter\<close>

record id_batch =
  bs_set :: "int set"
  bs_bloom :: "8 word list"
  bs_nbits :: nat
  bs_mask :: int

text \<open>The loop that finds the smallest power of two that is not below \<open>n\<close>.\<close>

function batch_nbits :: "nat \<Rightarrow> nat \<Rightarrow> nat" where
  "batch_nbits n nbits = (if n > 2 ^ nbits then batch_nbits n (nbits + 1) else nbits)"
  by pat_completeness auto
termination
proof (relation "measure (\<lambda>(n, nbits). n - 2 ^ nbits)")
  fix n nbits :: nat assume "n > 2 ^ nbits"
  moreover have "(2 :: nat) ^ nbits < 2 ^ (nbits + 1)" by simp
  ultimately show "((n, nbits + 1), (n, nbits)) \<in> measure (\<lambda>(n, nbits). n - 2 ^ nbits)" by (simp add: diff_less_mono2)
qed simp

declare batch_nbits.simps [simp del]

text \<open>One id of the constructor: into the set, and its bit of the filter.\<close>

definition batch_insert :: "int \<Rightarrow> id_batch \<Rightarrow> id_batch" where
  "batch_insert i b =
     (let im = i AND bs_mask b; p = nat (drop_bit 3 im)
      in b\<lparr> bs_set := insert i (bs_set b),
            bs_bloom := (bs_bloom b)[p := bs_bloom b ! p OR push_bit (nat (im AND 7)) 1] \<rparr>)"

definition IDSelectorBatch :: "nat \<Rightarrow> int list \<Rightarrow> id_batch" where
  "IDSelectorBatch n indices =
     (let nbits = batch_nbits n 0 + 5
      in fold (\<lambda>i b. batch_insert (indices ! i) b) [0..<n]
           \<lparr> bs_set = {}, bs_bloom = replicate (2 ^ (nbits - 3)) 0, bs_nbits = nbits, bs_mask = 2 ^ nbits - 1 \<rparr>)"

definition batch_is_member :: "id_batch \<Rightarrow> int \<Rightarrow> bool" where
  "batch_is_member b i =
     (let im = i AND bs_mask b
      in if (bs_bloom b ! nat (drop_bit 3 im)) AND push_bit (nat (im AND 7)) 1 = 0 then False
         else i \<in> bs_set b)"

section \<open>The selectors\<close>

datatype id_selector =
    IDSelectorRange int int bool
  | IDSelectorArray nat "int list"
  | IDSelectorBatchSet id_batch
  | IDSelectorBitmap nat "8 word list"
  | IDSelectorNot id_selector
  | IDSelectorAll
  | IDSelectorAnd id_selector id_selector
  | IDSelectorOr id_selector id_selector
  | IDSelectorXOr id_selector id_selector

fun sel_is_member :: "id_selector \<Rightarrow> int \<Rightarrow> bool" where
  "sel_is_member (IDSelectorRange imin imax _) i = (i \<ge> imin \<and> i < imax)"
| "sel_is_member (IDSelectorArray n ids) i = list_ex (\<lambda>j. ids ! j = i) [0..<n]"
| "sel_is_member (IDSelectorBatchSet b) i = batch_is_member b i"
| "sel_is_member (IDSelectorBitmap n bitmap) ii =
     (let i = nat (ii mod 2 ^ 64)
      in if i div 8 \<ge> n then False else bit (bitmap ! (i div 8)) (i mod 8))"
| "sel_is_member (IDSelectorNot s) i = (\<not> sel_is_member s i)"
| "sel_is_member IDSelectorAll i = True"
| "sel_is_member (IDSelectorAnd l r) i = (sel_is_member l i \<and> sel_is_member r i)"
| "sel_is_member (IDSelectorOr l r) i = (sel_is_member l i \<or> sel_is_member r i)"
| "sel_is_member (IDSelectorXOr l r) i = (sel_is_member l i \<noteq> sel_is_member r i)"

section \<open>A range in a sorted list\<close>

text \<open>The bisection that is written out twice in \<open>find_sorted_ids_bounds\<close>: the first position whose id
  reaches \<open>bound\<close>, when \<open>j0\<close> does not and \<open>j1\<close> does or is the end.\<close>

function bisect :: "int list \<Rightarrow> int \<Rightarrow> nat \<Rightarrow> nat \<Rightarrow> nat" where
  "bisect ids bound j0 j1 =
     (if j1 > j0 + 1
      then let jmed = (j0 + j1) div 2
           in if ids ! jmed \<ge> bound then bisect ids bound j0 jmed else bisect ids bound jmed j1
      else j1)"
  by pat_completeness auto
termination by (relation "measure (\<lambda>(ids, bound, j0, j1). j1 - j0)") auto

declare bisect.simps [simp del]

definition find_sorted_ids_bounds :: "int \<Rightarrow> int \<Rightarrow> bool \<Rightarrow> nat \<Rightarrow> int list \<Rightarrow> (nat \<times> nat) result" where
  "find_sorted_ids_bounds imin imax assume_sorted list_size ids =
     (if \<not> assume_sorted then Inl AssertFailed
      else if list_size = 0 \<or> imax \<le> ids ! 0 \<or> imin > ids ! (list_size - 1) then Inr (0, 0)
      else let jmin = (if ids ! 0 \<ge> imin then 0 else bisect ids imin 0 list_size);
               jmax = (if jmin = list_size \<or> ids ! jmin \<ge> imax then jmin else bisect ids imax jmin list_size)
           in Inr (jmin, jmax))"

section \<open>The Bloom filter\<close>

definition bloom_pos :: "id_batch \<Rightarrow> int \<Rightarrow> nat" where
  "bloom_pos b i = nat (drop_bit 3 (i AND bs_mask b))"

definition bloom_bit :: "id_batch \<Rightarrow> int \<Rightarrow> nat" where
  "bloom_bit b i = nat ((i AND bs_mask b) AND 7)"

definition batch_ok :: "id_batch \<Rightarrow> bool" where
  "batch_ok b \<longleftrightarrow> bs_mask b = 2 ^ bs_nbits b - 1 \<and> 3 \<le> bs_nbits b \<and> length (bs_bloom b) = 2 ^ (bs_nbits b - 3) \<and>
     (\<forall>i \<in> bs_set b. bit (bs_bloom b ! bloom_pos b i) (bloom_bit b i))"

lemma and_7: "(x :: int) AND 7 = x mod 8"
  using take_bit_eq_mask[of 3 x] by (simp add: mask_eq_exp_minus_1 take_bit_eq_mod)

lemma bloom_bounds:
  assumes "batch_ok b"
  shows "bloom_pos b i < length (bs_bloom b)" "bloom_bit b i < 8"
proof -
  let ?n = "bs_nbits b"
  have im: "i AND bs_mask b = i mod 2 ^ ?n"
    using assms take_bit_eq_mask[of ?n i] by (simp add: batch_ok_def mask_eq_exp_minus_1 take_bit_eq_mod)
  have "(2 :: int) ^ ?n = 2 ^ (?n - 3) * 8"
    using assms power_add[of "2 :: int" "?n - 3" 3] by (simp add: batch_ok_def)
  moreover have "i mod 2 ^ ?n < 2 ^ ?n" by simp
  ultimately have "(i mod 2 ^ ?n) div 8 < 2 ^ (?n - 3)" by linarith
  then have "nat ((i mod 2 ^ ?n) div 8) < 2 ^ (?n - 3)" by (simp add: nat_less_iff)
  then show "bloom_pos b i < length (bs_bloom b)"
    using assms unfolding bloom_pos_def im by (simp add: drop_bit_eq_div batch_ok_def)
  show "bloom_bit b i < 8" by (simp add: bloom_bit_def and_7 nat_less_iff)
qed

lemma batch_insert_eq:
  "batch_insert i b = b\<lparr> bs_set := insert i (bs_set b),
     bs_bloom := (bs_bloom b)[bloom_pos b i := bs_bloom b ! bloom_pos b i OR push_bit (bloom_bit b i) 1] \<rparr>"
  by (simp add: batch_insert_def bloom_pos_def bloom_bit_def Let_def)

lemma batch_insert_ok:
  assumes "batch_ok b"
  shows "batch_ok (batch_insert i b)" "bs_set (batch_insert i b) = insert i (bs_set b)"
proof -
  let ?b = "batch_insert i b"
  have same: "bloom_pos ?b j = bloom_pos b j" "bloom_bit ?b j = bloom_bit b j" for j
    by (simp_all add: batch_insert_eq bloom_pos_def bloom_bit_def)
  have "bit (bs_bloom ?b ! bloom_pos b j) (bloom_bit b j)" if "j = i \<or> j \<in> bs_set b" for j
    using that assms bloom_bounds[OF assms]
    by (cases "bloom_pos b j = bloom_pos b i") (auto simp: batch_insert_eq batch_ok_def bit_simps)
  then show "batch_ok ?b" using assms unfolding batch_ok_def same by (auto simp: batch_insert_eq)
  show "bs_set ?b = insert i (bs_set b)" by (simp add: batch_insert_eq)
qed

lemma batch_fold_ok:
  "batch_ok b \<Longrightarrow> batch_ok (fold (\<lambda>j b. batch_insert (ids ! j) b) js b) \<and>
    bs_set (fold (\<lambda>j b. batch_insert (ids ! j) b) js b) = (\<lambda>j. ids ! j) ` set js \<union> bs_set b"
  by (induction js arbitrary: b) (auto simp: batch_insert_ok)

lemma IDSelectorBatch_ok:
  "batch_ok (IDSelectorBatch n ids)" "bs_set (IDSelectorBatch n ids) = (\<lambda>j. ids ! j) ` {..<n}"
proof -
  let ?n = "batch_nbits n 0 + 5"
  let ?b = "\<lparr> bs_set = {}, bs_bloom = replicate (2 ^ (?n - 3)) 0, bs_nbits = ?n, bs_mask = 2 ^ ?n - 1 \<rparr>"
  have "batch_ok ?b" by (simp add: batch_ok_def)
  from batch_fold_ok[OF this, of ids "[0..<n]"] show
    "batch_ok (IDSelectorBatch n ids)" "bs_set (IDSelectorBatch n ids) = (\<lambda>j. ids ! j) ` {..<n}"
    by (simp_all only: IDSelectorBatch_def Let_def) (auto simp: lessThan_atLeast0)
qed

lemma batch_is_member_ok:
  assumes "batch_ok b"
  shows "batch_is_member b i \<longleftrightarrow> i \<in> bs_set b"
proof (cases "i \<in> bs_set b")
  case True
  then have "bit (bs_bloom b ! bloom_pos b i) (bloom_bit b i)" using assms by (simp add: batch_ok_def)
  then have "bit ((bs_bloom b ! bloom_pos b i) AND push_bit (bloom_bit b i) 1) (bloom_bit b i)"
    using bloom_bounds[OF assms, of i] by (simp add: bit_simps)
  then have "(bs_bloom b ! bloom_pos b i) AND push_bit (bloom_bit b i) 1 \<noteq> 0" by auto
  with True show ?thesis by (simp add: batch_is_member_def bloom_pos_def bloom_bit_def Let_def)
qed (simp add: batch_is_member_def Let_def)

text \<open>C28. \<open>IDSelectorBatch\<close> with its Bloom filter selects exactly the ids that \<open>IDSelectorArray\<close> finds by
  comparing all of them: no id is lost to the filter and no other one passes, negative ids included.\<close>

theorem selector_batch_equals_array:
  "sel_is_member (IDSelectorBatchSet (IDSelectorBatch n ids)) i = sel_is_member (IDSelectorArray n ids) i"
  using batch_is_member_ok[OF IDSelectorBatch_ok(1), of n ids i]
  by (auto simp: IDSelectorBatch_ok(2) list_ex_iff)

section \<open>The bisection\<close>

lemma bisect_ok:
  assumes "sorted ids" "j0 < j1" "j1 \<le> length ids" "ids ! j0 < bound" "j1 < length ids \<Longrightarrow> bound \<le> ids ! j1"
  shows "j0 < bisect ids bound j0 j1 \<and> bisect ids bound j0 j1 \<le> j1 \<and>
    (\<forall>j < length ids. j < bisect ids bound j0 j1 \<longleftrightarrow> ids ! j < bound)"
  using assms
proof (induction ids bound j0 j1 rule: bisect.induct)
  case (1 ids bound j0 j1)
  show ?case
  proof (cases "j1 > j0 + 1")
    case True
    let ?m = "(j0 + j1) div 2"
    have m: "j0 < ?m" "?m < j1" using True by auto
    show ?thesis
    proof (cases "ids ! ?m \<ge> bound")
      case left: True
      have "bisect ids bound j0 j1 = bisect ids bound j0 ?m"
        using True left by (subst bisect.simps) (simp add: Let_def)
      with "1.IH"(1)[OF True refl left] "1.prems" m left show ?thesis by auto
    next
      case right: False
      have "bisect ids bound j0 j1 = bisect ids bound ?m j1"
        using True right by (subst bisect.simps) (simp add: Let_def)
      with "1.IH"(2)[OF True refl right] "1.prems" m right show ?thesis by auto
    qed
  next
    case False
    then have b: "bisect ids bound j0 j1 = j1" "j1 = j0 + 1" using "1.prems"(2) by (simp_all add: bisect.simps)
    have lo: "ids ! j < bound" if "j < j1" for j
      using sorted_nth_mono[OF "1.prems"(1), of j j0] that b(2) "1.prems"(3,4) by simp
    have hi: "bound \<le> ids ! j" if "j1 \<le> j" "j < length ids" for j
      using sorted_nth_mono[OF "1.prems"(1) that] "1.prems"(5) that by simp
    show ?thesis unfolding b(1) using lo hi b(2) by (auto simp: not_less[symmetric])
  qed
qed

text \<open>On a sorted list of ids, \<open>find_sorted_ids_bounds\<close> gives the bounds of exactly the positions whose
  id the range selects, for any range, an empty one included.\<close>

theorem find_sorted_ids_bounds_correct:
  assumes "sorted ids"
  shows "\<exists>jmin jmax. find_sorted_ids_bounds imin imax True (length ids) ids = Inr (jmin, jmax) \<and>
    (\<forall>j < length ids. jmin \<le> j \<and> j < jmax \<longleftrightarrow> sel_is_member (IDSelectorRange imin imax True) (ids ! j))"
proof (cases "length ids = 0 \<or> imax \<le> ids ! 0 \<or> imin > ids ! (length ids - 1)")
  case True
  have "\<not> (imin \<le> ids ! j \<and> ids ! j < imax)" if "j < length ids" for j
  proof -
    have "ids ! 0 \<le> ids ! j" "ids ! j \<le> ids ! (length ids - 1)"
      using sorted_nth_mono[OF assms, of 0 j] sorted_nth_mono[OF assms, of j "length ids - 1"] that by simp_all
    with True that show ?thesis by auto
  qed
  with True show ?thesis by (auto simp: find_sorted_ids_bounds_def)
next
  case False
  let ?jmin = "if ids ! 0 \<ge> imin then 0 else bisect ids imin 0 (length ids)"
  let ?jmax = "if ?jmin = length ids \<or> ids ! ?jmin \<ge> imax then ?jmin else bisect ids imax ?jmin (length ids)"
  have lo: "?jmin \<le> j \<longleftrightarrow> imin \<le> ids ! j" if "j < length ids" for j
    using bisect_ok[OF assms, of 0 "length ids" imin] sorted_nth_mono[OF assms, of 0 j] that False
    by (auto simp: not_less[symmetric])
  have hi: "j < ?jmax \<longleftrightarrow> ids ! j < imax" if j: "j < length ids" "imin \<le> ids ! j" for j
  proof (cases "?jmin = length ids \<or> ids ! ?jmin \<ge> imax")
    case True
    then show ?thesis using lo[OF j(1)] j sorted_nth_mono[OF assms, of ?jmin j] by force
  next
    case in_range: False
    have "?jmin \<le> length ids" using bisect_ok[OF assms, of 0 "length ids" imin] False by auto
    with in_range have "?jmin < length ids" "ids ! ?jmin < imax" by auto
    from bisect_ok[OF assms this(1) order_refl this(2)] show ?thesis
      unfolding if_not_P[OF in_range] using j by simp
  qed
  have r: "find_sorted_ids_bounds imin imax True (length ids) ids = Inr (?jmin, ?jmax)"
    using False by (simp add: find_sorted_ids_bounds_def Let_def)
  show ?thesis
    unfolding r using lo hi by (intro exI[of _ ?jmin] exI[of _ ?jmax] conjI refl allI impI) (simp only: sel_is_member.simps, blast)
qed

theorem find_sorted_ids_bounds_correct_witness:
  "find_sorted_ids_bounds 3 8 True 4 [1, 3, 7, 9] = Inr (1, 3)"
proof -
  have m: "sel_is_member (IDSelectorRange 3 8 True) ([1, 3, 7, 9] ! j) = (j = 1 \<or> j = 2)" if "j < 4" for j
  proof -
    from that have "j = 0 \<or> j = 1 \<or> j = 2 \<or> j = 3" by auto
    then show ?thesis by auto
  qed
  have "sorted [1, 3, 7, 9 :: int]" and l: "length [1, 3, 7, 9 :: int] = 4" by simp_all
  from find_sorted_ids_bounds_correct[OF this(1), of 3 8, unfolded l] obtain jmin jmax where
    r: "find_sorted_ids_bounds 3 8 True 4 [1, 3, 7, 9] = Inr (jmin, jmax)"
    "\<forall>j < 4. jmin \<le> j \<and> j < jmax \<longleftrightarrow> sel_is_member (IDSelectorRange 3 8 True) ([1, 3, 7, 9] ! j)" by blast
  have "\<forall>j < 4. (jmin \<le> j \<and> j < jmax) = (j = 1 \<or> j = 2)" using r(2) m by simp
  from this[rule_format, of 0] this[rule_format, of 1] this[rule_format, of 2] this[rule_format, of 3]
  have "jmin = 1" "jmax = 3" by auto
  with r(1) show ?thesis by simp
qed

text \<open>A bitmap selects an id by its bit; an id of the range of \<open>int64_t\<close> that is negative is above every
  bitmap when it is read as unsigned.\<close>

lemma bitmap_is_member:
  assumes "- (2 ^ 63) \<le> i" "i < 2 ^ 63" "n \<le> 2 ^ 59"
  shows "sel_is_member (IDSelectorBitmap n bitmap) i \<longleftrightarrow> 0 \<le> i \<and> i < 8 * int n \<and> bit (bitmap ! (nat i div 8)) (nat i mod 8)"
proof (cases "0 \<le> i")
  case True
  then have m: "i mod 2 ^ 64 = i" using assms(2) by (intro mod_pos_pos_trivial) simp_all
  have "n \<le> nat i div 8 \<longleftrightarrow> \<not> i < 8 * int n" using True by linarith
  with True show ?thesis unfolding sel_is_member.simps Let_def m by (cases "i < 8 * int n") (simp_all only: if_True if_False simp_thms)
next
  case False
  have "i mod 2 ^ 64 = (i + 2 ^ 64) mod 2 ^ 64" by (simp only: mod_add_self2)
  also have "\<dots> = i + 2 ^ 64" using False assms(1) by (intro mod_pos_pos_trivial) simp_all
  finally have m: "i mod 2 ^ 64 = i + 2 ^ 64" .
  have "int n \<le> 2 ^ 59" using assms(3) by (simp add: numeral_power_le_of_nat_cancel_iff)
  then have "8 * int n \<le> i + 2 ^ 64" using assms(1) by simp
  then have "n \<le> nat (i + 2 ^ 64) div 8" by linarith
  then show ?thesis unfolding sel_is_member.simps Let_def m using False by simp
qed

end
