(* ===== verification/FlatSearch.thy ===== *)
theory FlatSearch
  imports KnnReservoir Selector
begin

text \<open>
  Brute-force search: the exhaustive loops and drivers of \<open>faiss/utils/distances.cpp\<close> and
  \<open>IndexFlat::search\<close> (\<open>faiss/IndexFlat.cpp\<close>) for L2 distances and inner products. \<open>tab\<close> is the output,
  one row of \<open>k\<close> pairs per query. The matrix product \<open>sgemm_\<close> of BLAS is a parameter. The model is the
  portable build: a single nearest neighbor is found by the default implementation, not by the kernels for
  AVX2 and SVE, and no interrupt callback is set.
\<close>

section \<open>One vector at a time\<close>

definition vec_dis :: "metric \<Rightarrow> float_t list \<Rightarrow> float_t list \<Rightarrow> float_t" where
  "vec_dis m x y = (case m of METRIC_L2 \<Rightarrow> fvec_L2sqr x y | METRIC_INNER_PRODUCT \<Rightarrow> fvec_inner_product x y)"

definition is_in_selection :: "id_selector option \<Rightarrow> nat \<Rightarrow> bool" where
  "is_in_selection sel j = (case sel of None \<Rightarrow> True | Some s \<Rightarrow> sel_is_member s (int j))"

text \<open>\<open>exhaustive_L2sqr_seq\<close> and \<open>exhaustive_inner_product_seq\<close>: the loop of one query, and of all.\<close>

definition exhaustive_seq_query ::
  "metric \<Rightarrow> nat \<Rightarrow> id_selector option \<Rightarrow> float_t list \<Rightarrow> float_t list \<Rightarrow> nat \<Rightarrow> nat \<Rightarrow> (float_t \<times> int) list \<Rightarrow>
   (float_t \<times> int) list result" where
  "exhaustive_seq_query m k sel x_i y d ny out =
     bind_result
       (add_series (handler_add m) (map (\<lambda>j. (vec_dis m x_i (row d j y), int j)) (filter (is_in_selection sel) [0..<ny]))
         (handler_begin m k out))
       (\<lambda>resi. Inr (handler_end m out resi))"

definition exhaustive_seq ::
  "metric \<Rightarrow> nat \<Rightarrow> id_selector option \<Rightarrow> float_t list \<Rightarrow> float_t list \<Rightarrow> nat \<Rightarrow> nat \<Rightarrow> nat \<Rightarrow>
   (float_t \<times> int) list list \<Rightarrow> (float_t \<times> int) list list result" where
  "exhaustive_seq m k sel x y d nx ny tab =
     rows_result (\<lambda>i. exhaustive_seq_query m k sel (row d i x) y d ny) [0..<nx] tab"

section \<open>Blocks with BLAS\<close>

definition distance_compute_blas_threshold :: nat where "distance_compute_blas_threshold = 20"
definition distance_compute_blas_query_bs :: nat where "distance_compute_blas_query_bs = 4096"
definition distance_compute_blas_database_bs :: nat where "distance_compute_blas_database_bs = 1024"

text \<open>\<open>sgemm nyi nxi di y x\<close>: the product of the \<open>nxi\<close> rows of \<open>x\<close> with the \<open>nyi\<close> rows of \<open>y\<close>.\<close>

type_synonym gemm = "nat \<Rightarrow> nat \<Rightarrow> nat \<Rightarrow> float_t list \<Rightarrow> float_t list \<Rightarrow> float_t list"

fun fvec_norm_L2sqr :: "float_t list \<Rightarrow> float_t" where
  "fvec_norm_L2sqr [] = 0"
| "fvec_norm_L2sqr (x # xs) = x * x + fvec_norm_L2sqr xs"

definition fvec_norms_L2sqr :: "float_t list \<Rightarrow> nat \<Rightarrow> nat \<Rightarrow> float_t list" where
  "fvec_norms_L2sqr x d nx = map (\<lambda>i. fvec_norm_L2sqr (row d i x)) [0..<nx]"

text \<open>The distances of one block from its inner products.\<close>

definition ip_to_dis ::
  "metric \<Rightarrow> float_t list \<Rightarrow> float_t list \<Rightarrow> nat \<Rightarrow> nat \<Rightarrow> nat \<Rightarrow> nat \<Rightarrow> float_t list \<Rightarrow> float_t list" where
  "ip_to_dis m x_norms y_norms i0 i1 j0 j1 ip_block =
     (case m of METRIC_INNER_PRODUCT \<Rightarrow> ip_block
      | METRIC_L2 \<Rightarrow>
          concat (map (\<lambda>i. map (\<lambda>j.
            let ip = ip_block ! ((i - i0) * (j1 - j0) + (j - j0));
                dis = x_norms ! i + y_norms ! j - 2 * ip
            in if dis < 0 then 0 else dis) [j0..<j1]) [i0..<i1]))"

text \<open>\<open>add_results\<close> of a block, on the handlers of the queries \<open>i0..i1-1\<close>.\<close>

definition add_results_block ::
  "metric \<Rightarrow> nat \<Rightarrow> nat \<Rightarrow> nat \<Rightarrow> nat \<Rightarrow> float_t list \<Rightarrow> handler list \<Rightarrow> handler list result" where
  "add_results_block m i0 i1 j0 j1 dis_tab hs =
     rows_result (\<lambda>i. add_series (handler_add m)
       (map (\<lambda>j. (dis_tab ! ((j1 - j0) * i + (j - j0)), int j)) [j0..<j1])) [0..<i1 - i0] hs"

text \<open>The starts of the blocks of \<open>bs\<close> elements of \<open>0..n-1\<close>.\<close>

definition block_starts :: "nat \<Rightarrow> nat \<Rightarrow> nat list" where
  "block_starts n bs = map (\<lambda>b. b * bs) [0..<(n + bs - 1) div bs]"

definition exhaustive_blas_queries ::
  "metric \<Rightarrow> gemm \<Rightarrow> nat \<Rightarrow> float_t list \<Rightarrow> float_t list \<Rightarrow> nat \<Rightarrow> nat \<Rightarrow> float_t list \<Rightarrow> float_t list \<Rightarrow> nat \<Rightarrow> nat \<Rightarrow>
   (float_t \<times> int) list list \<Rightarrow> (float_t \<times> int) list list result" where
  "exhaustive_blas_queries m sgemm k x y d ny x_norms y_norms i0 i1 tab =
     bind_result
       (fold_result (\<lambda>j0 hs.
           let j1 = min (j0 + distance_compute_blas_database_bs) ny;
               ip_block = sgemm (j1 - j0) (i1 - i0) d (drop (j0 * d) y) (drop (i0 * d) x)
           in add_results_block m i0 i1 j0 j1 (ip_to_dis m x_norms y_norms i0 i1 j0 j1 ip_block) hs)
         (block_starts ny distance_compute_blas_database_bs)
         (map (\<lambda>i. handler_begin_multiple m k (tab ! i)) [i0..<i1]))
       (\<lambda>hs. Inr (each_row (\<lambda>i out. handler_end m out (hs ! (i - i0))) i0 i1 tab))"

definition exhaustive_blas ::
  "metric \<Rightarrow> gemm \<Rightarrow> nat \<Rightarrow> float_t list \<Rightarrow> float_t list \<Rightarrow> nat \<Rightarrow> nat \<Rightarrow> nat \<Rightarrow>
   (float_t \<times> int) list list \<Rightarrow> (float_t \<times> int) list list result" where
  "exhaustive_blas m sgemm k x y d nx ny tab =
     (if nx = 0 \<or> ny = 0 then Inr tab
      else let x_norms = fvec_norms_L2sqr x d nx; y_norms = fvec_norms_L2sqr y d ny
           in fold_result (\<lambda>i0 tab.
                let i1 = min (i0 + distance_compute_blas_query_bs) nx
                in exhaustive_blas_queries m sgemm k x y d ny x_norms y_norms i0 i1 tab)
              (block_starts nx distance_compute_blas_query_bs) tab)"

section \<open>The drivers\<close>

definition run_search ::
  "metric \<Rightarrow> gemm \<Rightarrow> nat \<Rightarrow> id_selector option \<Rightarrow> float_t list \<Rightarrow> float_t list \<Rightarrow> nat \<Rightarrow> nat \<Rightarrow> nat \<Rightarrow>
   (float_t \<times> int) list list \<Rightarrow> (float_t \<times> int) list list result" where
  "run_search m sgemm k sel x y d nx ny tab =
     (if sel \<noteq> None \<or> nx < distance_compute_blas_threshold
      then exhaustive_seq m k sel x y d nx ny tab
      else exhaustive_blas m sgemm k x y d nx ny tab)"

text \<open>\<open>knn_L2sqr_by_idx\<close> and \<open>knn_inner_products_by_idx\<close>: the vectors named by a list, up to the first
  number that is none of a vector.\<close>

definition knn_by_idx_query ::
  "metric \<Rightarrow> float_t list \<Rightarrow> float_t list \<Rightarrow> int list \<Rightarrow> nat \<Rightarrow> nat \<Rightarrow> nat \<Rightarrow> nat \<Rightarrow> (float_t \<times> int) list \<Rightarrow>
   (float_t \<times> int) list" where
  "knn_by_idx_query m x_i y idsi d ny nsubset k out =
     (let heap0 = heap_heapify (C_cmp2 m) (C_neutral m) k out [] None 0;
          heap = fold (\<lambda>j heap.
              let dis = vec_dis m x_i (row d (nat j) y)
              in if C_cmp m (fst (heap ! 0)) dis then heap_replace_top (C_cmp2 m) k heap (dis, j) else heap)
            (takeWhile (\<lambda>j. \<not> (j < 0 \<or> j \<ge> int ny)) (take nsubset idsi)) heap0
      in snd (heap_reorder (C_cmp2 m) (C_neutral m) k heap))"

definition knn_by_idx ::
  "metric \<Rightarrow> float_t list \<Rightarrow> float_t list \<Rightarrow> int list \<Rightarrow> nat \<Rightarrow> nat \<Rightarrow> nat \<Rightarrow> nat \<Rightarrow> nat \<Rightarrow> int \<Rightarrow>
   (float_t \<times> int) list list \<Rightarrow> (float_t \<times> int) list list" where
  "knn_by_idx m x y ids d nx ny nsubset k ld_ids0 tab =
     (let ld_ids = (if ld_ids0 < 0 then ny else nat ld_ids0)
      in each_row (\<lambda>i. knn_by_idx_query m (row d i x) y (drop (i * ld_ids) ids) d ny nsubset k) 0 nx tab)"

text \<open>\<open>knn_L2sqr\<close> and \<open>knn_inner_product\<close>. For a range, \<open>ny\<close> is a \<open>size_t\<close> that is set to the difference
  of two \<open>int64_t\<close>; reading vectors beyond the end is undefined in C++.\<close>

definition knn_driver ::
  "metric \<Rightarrow> gemm \<Rightarrow> float_t list \<Rightarrow> float_t list \<Rightarrow> nat \<Rightarrow> nat \<Rightarrow> nat \<Rightarrow> nat \<Rightarrow> id_selector option \<Rightarrow>
   (float_t \<times> int) list list \<Rightarrow> (float_t \<times> int) list list result" where
  "knn_driver m sgemm x y0 d nx ny0 k sel0 tab =
     (let (imin, ny, y, sel) =
        (case sel0 of
           Some (IDSelectorRange lo hi _) \<Rightarrow>
             let imin = max lo 0; imax = min hi (int ny0)
             in (imin, nat ((imax - imin) mod 2 ^ 64), drop (d * nat imin) y0, None)
         | _ \<Rightarrow> (0, ny0, y0, sel0))
      in case sel of
           Some (IDSelectorArray n ids) \<Rightarrow> Inr (knn_by_idx m x y ids d nx ny n k 0 tab)
         | _ \<Rightarrow>
             if 0 < nx \<and> length y < ny * d then Inl OutOfBounds
             else bind_result (run_search m sgemm k sel x y d nx ny tab) (\<lambda>tab'.
               Inr (if imin \<noteq> 0
                    then each_row (\<lambda>_. map (\<lambda>(v, i). (v, if i \<ge> 0 then i + imin else i))) 0 nx tab'
                    else tab')))"

text \<open>\<open>IndexFlat::search\<close>; \<open>sel\<close> is the selector of the parameters.\<close>

definition flat_search ::
  "gemm \<Rightarrow> flat \<Rightarrow> nat \<Rightarrow> float_t list \<Rightarrow> int \<Rightarrow> id_selector option \<Rightarrow> (float_t \<times> int) list list \<Rightarrow>
   (float_t \<times> int) list list result" where
  "flat_search sgemm f n x k sel tab =
     throw_unless (k > 0) ''k > 0''
       (knn_driver (fl_metric f) sgemm x (fl_codes f) (fl_d f) n (fl_ntotal f) (nat k) sel tab)"

end
