(* ===== verification/FlatSearchOk.thy ===== *)
theory FlatSearchOk
  imports FlatSearch
begin

text \<open>
  Brute-force search is exact: both paths, one vector at a time and in blocks with the matrix product, give
  for every query the best \<open>k\<close> of the selected vectors.
\<close>

section \<open>Loops\<close>

lemma fold_result_inv:
  assumes "I [] s" "\<And>done b s. I done s \<Longrightarrow> b \<in> set bs \<Longrightarrow> \<exists>s'. f b s = Inr s' \<and> I (done @ [b]) s'"
  shows "\<exists>s'. fold_result f bs s = Inr s' \<and> I bs s'"
proof -
  have "\<exists>s'. fold_result f cs s = Inr s' \<and> I (ds @ cs) s'" if "I ds s" "set cs \<subseteq> set bs" for cs ds s
    using that
  proof (induction cs arbitrary: ds s)
    case (Cons c cs)
    from assms(2)[OF Cons.prems(1), of c] Cons.prems(2) obtain s' where
      s': "f c s = Inr s'" "I (ds @ [c]) s'" by auto
    from Cons.IH[OF s'(2)] Cons.prems(2) s'(1) show ?case by auto
  qed simp
  from this[OF assms(1) order_refl] show ?thesis by simp
qed

text \<open>Every row that a loop visits once gets its own result, the others keep theirs.\<close>

lemma rows_result_ok:
  assumes "distinct js" "\<forall>i \<in> set js. i < length t \<and> (\<exists>r. f i (t ! i) = Inr r \<and> P i r)"
  shows "\<exists>t'. rows_result f js t = Inr t' \<and> length t' = length t \<and> (\<forall>i \<in> set js. P i (t' ! i)) \<and>
    (\<forall>i. i \<notin> set js \<longrightarrow> t' ! i = t ! i)"
  using assms
proof (induction js arbitrary: t)
  case (Cons i js)
  from Cons.prems(2) obtain r where r: "f i (t ! i) = Inr r" "P i r" "i < length t" by auto
  have "\<forall>j \<in> set js. j < length (t[i := r]) \<and> (\<exists>q. f j (t[i := r] ! j) = Inr q \<and> P j q)"
    using Cons.prems by (metis distinct.simps(2) length_list_update list.set_intros(2) nth_list_update_neq)
  from Cons.IH[OF _ this] Cons.prems(1) obtain t' where
    t': "rows_result f js (t[i := r]) = Inr t'" "length t' = length t" "\<forall>j \<in> set js. P j (t' ! j)"
      "\<forall>j. j \<notin> set js \<longrightarrow> t' ! j = t[i := r] ! j" by auto
  have "t' ! i = r" using t'(4) Cons.prems(1) r(3) by simp
  with r t' show ?case by (auto simp: nth_list_update_neq)
qed simp

section \<open>The block starts\<close>

lemma concat_blocks:
  assumes "1 \<le> bs"
  shows "concat (map (\<lambda>j0. [j0..<min (j0 + bs) n]) (block_starts n bs)) = [0..<n]"
proof -
  have "concat (map (\<lambda>b. [b * bs..<min (b * bs + bs) n]) [0..<c]) = [0..<min (c * bs) n]" for c
  proof (induction c)
    case (Suc c)
    have "[0..<min (c * bs) n] @ [c * bs..<min (c * bs + bs) n] = [0..<min (Suc c * bs) n]"
    proof (cases "c * bs \<le> n")
      case True
      have "[0..<c * bs] @ [c * bs..<min (c * bs + bs) n] = [0..<min (c * bs + bs) n]"
        using upt_add_eq_append[of 0 "c * bs" "min (c * bs + bs) n - c * bs"] True by (simp add: min_def split: if_splits)
      then show ?thesis using True by (simp add: min_def add.commute)
    qed (simp add: min_def)
    with Suc show ?case by simp
  qed simp
  from this[of "(n + bs - 1) div bs"] have
    "concat (map (\<lambda>j0. [j0..<min (j0 + bs) n]) (block_starts n bs)) = [0..<min ((n + bs - 1) div bs * bs) n]"
    by (simp add: block_starts_def comp_def)
  moreover have "n \<le> (n + bs - 1) div bs * bs"
  proof -
    have "(n + bs - 1) div bs * bs + (n + bs - 1) mod bs = n + bs - 1" by (rule div_mult_mod_eq)
    moreover have "(n + bs - 1) mod bs \<le> bs - 1" using assms by (simp add: less_Suc_eq_le[symmetric])
    ultimately show ?thesis using assms by linarith
  qed
  ultimately show ?thesis by (simp add: min_def)
qed

lemma block_starts_less:
  assumes "1 \<le> bs" "j0 \<in> set (block_starts n bs)"
  shows "j0 < n"
proof -
  from assms(2) obtain b where b: "j0 = b * bs" "b < (n + bs - 1) div bs"
    unfolding block_starts_def set_map set_upt image_iff by (metis atLeastLessThan_iff)
  then have "Suc b * bs \<le> (n + bs - 1) div bs * bs" by (intro mult_le_mono1) simp
  also have "\<dots> \<le> n + bs - 1" by (rule div_times_less_eq_dividend)
  finally show ?thesis using b(1) assms(1) by simp
qed

section \<open>Distances from inner products\<close>

lemma L2sqr_from_norms:
  "length x = length y \<Longrightarrow> fvec_L2sqr x y = fvec_norm_L2sqr x + fvec_norm_L2sqr y - 2 * fvec_inner_product x y"
  by (induction x y rule: list_induct2) (simp_all add: algebra_simps)

text \<open>What BLAS documents of the product: entry \<open>(i, j)\<close> is the inner product of row \<open>i\<close> of \<open>x\<close> and row
  \<open>j\<close> of \<open>y\<close>.\<close>

definition gemm_ok :: "gemm \<Rightarrow> bool" where
  "gemm_ok sgemm \<longleftrightarrow>
     (\<forall>nyi nxi di y x. nyi * di \<le> length y \<longrightarrow> nxi * di \<le> length x \<longrightarrow>
        (\<forall>i < nxi. \<forall>j < nyi. sgemm nyi nxi di y x ! (i * nyi + j) = fvec_inner_product (row di i x) (row di j y)))"

definition naive_gemm :: gemm where
  "naive_gemm nyi nxi di y x =
     concat (map (\<lambda>i. map (\<lambda>j. fvec_inner_product (row di i x) (row di j y)) [0..<nyi]) [0..<nxi])"

lemma nth_concat_rows:
  assumes "i < nx" "j < ny"
  shows "concat (map (\<lambda>i. map (f i) [0..<ny]) [0..<nx]) ! (i * ny + j) = f i j"
  using assms(1)
proof (induction nx)
  case (Suc nx)
  have len: "length (concat (map (\<lambda>i. map (f i) [0..<ny]) [0..<nx])) = nx * ny"
    by (simp add: length_concat comp_def sum_list_triv)
  show ?case
  proof (cases "i < nx")
    case True
    then have "Suc i * ny \<le> nx * ny" by (intro mult_le_mono1) simp
    then have "i * ny + j < nx * ny" using assms(2) by simp
    with True Suc.IH len show ?thesis by (simp add: nth_append)
  next
    case False
    then have "i = nx" using Suc.prems by simp
    then show ?thesis using len assms(2) by (simp add: nth_append)
  qed
qed simp

lemma naive_gemm_ok: "gemm_ok naive_gemm"
  by (simp add: gemm_ok_def naive_gemm_def nth_concat_rows)

lemma row_drop: "row d i (drop (j * d) xs) = row d (j + i) xs"
  by (simp add: slice_def algebra_simps)

lemma nth_concat_upt_rows:
  assumes "i0 \<le> i" "i < i1" "j0 \<le> j" "j < j1"
  shows "concat (map (\<lambda>i. map (f i) [j0..<j1]) [i0..<i1]) ! ((i - i0) * (j1 - j0) + (j - j0)) = f i j"
proof -
  have u: "[a..<b] = map (\<lambda>x. a + x) [0..<b - a]" if "a \<le> b" for a b :: nat
    using that by (simp add: map_add_upt add.commute[of a])
  have "concat (map (\<lambda>i. map (f i) [j0..<j1]) [i0..<i1])
      = concat (map (\<lambda>i. map (\<lambda>j. f (i0 + i) (j0 + j)) [0..<j1 - j0]) [0..<i1 - i0])"
    using assms by (subst u[of i0 i1], simp, subst u[of j0 j1], simp, simp add: comp_def)
  with nth_concat_rows[of "i - i0" "i1 - i0" "j - j0" "j1 - j0" "\<lambda>i j. f (i0 + i) (j0 + j)"] assms
  show ?thesis by simp
qed

text \<open>The entries of a block are the distances of the other path.\<close>

lemma block_dis:
  assumes "gemm_ok sgemm" "i0 \<le> i" "i < i1" "i1 \<le> nx" "j0 \<le> j" "j < j1" "j1 \<le> ny"
    "nx * d \<le> length x" "ny * d \<le> length y"
  shows "ip_to_dis m (fvec_norms_L2sqr x d nx) (fvec_norms_L2sqr y d ny) i0 i1 j0 j1
      (sgemm (j1 - j0) (i1 - i0) d (drop (j0 * d) y) (drop (i0 * d) x)) ! ((i - i0) * (j1 - j0) + (j - j0))
    = vec_dis m (row d i x) (row d j y)"
proof -
  let ?s = "sgemm (j1 - j0) (i1 - i0) d (drop (j0 * d) y) (drop (i0 * d) x)"
  have "j1 * d \<le> length y" "i1 * d \<le> length x"
    using mult_le_mono1[OF assms(7), of d] mult_le_mono1[OF assms(4), of d] assms(8,9) by linarith+
  then have "(j1 - j0) * d \<le> length (drop (j0 * d) y)" "(i1 - i0) * d \<le> length (drop (i0 * d) x)"
    unfolding length_drop diff_mult_distrib by (auto intro: diff_le_mono)
  with assms(1) have "\<forall>a < i1 - i0. \<forall>b < j1 - j0. ?s ! (a * (j1 - j0) + b)
      = fvec_inner_product (row d a (drop (i0 * d) x)) (row d b (drop (j0 * d) y))" unfolding gemm_ok_def by blast
  from this[rule_format, of "i - i0" "j - j0"] have
    ip: "?s ! ((i - i0) * (j1 - j0) + (j - j0)) = fvec_inner_product (row d i x) (row d j y)"
    using assms by (simp add: row_drop)
  show ?thesis
  proof (cases m)
    case METRIC_INNER_PRODUCT
    with ip show ?thesis by (simp add: ip_to_dis_def vec_dis_def)
  next
    case METRIC_L2
    have "Suc i * d \<le> nx * d" "Suc j * d \<le> ny * d" using assms by (intro mult_le_mono1; simp)+
    then have "length (row d i x) = length (row d j y)" using assms(8,9) by simp
    note l2 = L2sqr_from_norms[OF this]
    have "fvec_norms_L2sqr x d nx ! i = fvec_norm_L2sqr (row d i x)" "fvec_norms_L2sqr y d ny ! j = fvec_norm_L2sqr (row d j y)"
      using assms by (simp_all add: fvec_norms_L2sqr_def)
    then have "ip_to_dis m (fvec_norms_L2sqr x d nx) (fvec_norms_L2sqr y d ny) i0 i1 j0 j1 ?s ! ((i - i0) * (j1 - j0) + (j - j0))
        = (let dis = fvec_L2sqr (row d i x) (row d j y) in if dis < 0 then 0 else dis)"
      unfolding ip_to_dis_def METRIC_L2 metric.case nth_concat_upt_rows[OF assms(2,3,5,6)] Let_def ip by (simp add: l2)
    then show ?thesis by (simp add: Let_def METRIC_L2 vec_dis_def not_less)
  qed
qed

section \<open>The two paths\<close>

text \<open>The results that a query is offered_results for the vectors \<open>js\<close>, and that all of them can be kept.\<close>

definition offered_results :: "metric \<Rightarrow> float_t list \<Rightarrow> float_t list \<Rightarrow> nat \<Rightarrow> nat list \<Rightarrow> (float_t \<times> int) list" where
  "offered_results m x_i y d js = map (\<lambda>j. (vec_dis m x_i (row d j y), int j)) js"

definition distances_fit :: "metric \<Rightarrow> float_t list \<Rightarrow> float_t list \<Rightarrow> nat \<Rightarrow> nat \<Rightarrow> nat \<Rightarrow> bool" where
  "distances_fit m x y d nx ny \<longleftrightarrow> (\<forall>i < nx. \<forall>j < ny. \<bar>vec_dis m (row d i x) (row d j y)\<bar> < FLT_MAX)"

lemma offered_fit:
  assumes "distances_fit m x y d nx ny" "i < nx" "set js \<subseteq> {..<ny}"
  shows "\<forall>p \<in> set (offered_results m (row d i x) y d js). offerable m p"
proof
  fix p assume "p \<in> set (offered_results m (row d i x) y d js)"
  then obtain j where j: "j < ny" "p = (vec_dis m (row d i x) (row d j y), int j)"
    using assms(3) by (auto simp: offered_results_def)
  have "\<bar>vec_dis m (row d i x) (row d j y)\<bar> < FLT_MAX" using assms(1,2) j(1) by (simp add: distances_fit_def)
  then show "offerable m p"
    by (auto simp: offerable_def j(2) C_cmp_def C_neutral_def Crev_neutral_def CMin_cmp_def CMax_cmp_def)
qed

lemma exhaustive_seq_best:
  assumes "handler_sizes k" "nx \<le> length tab" "\<forall>r \<in> set tab. length r = k" "distances_fit m x y d nx ny"
  shows "\<exists>tab'. exhaustive_seq m k sel x y d nx ny tab = Inr tab' \<and> length tab' = length tab \<and>
    (\<forall>i < nx. best_row m k (mset (offered_results m (row d i x) y d (filter (is_in_selection sel) [0..<ny]))) (tab' ! i))"
proof -
  let ?js = "filter (is_in_selection sel) [0..<ny]"
  have "\<exists>r. exhaustive_seq_query m k sel (row d i x) y d ny (tab ! i) = Inr r \<and> best_row m k (mset (offered_results m (row d i x) y d ?js)) r"
    if "i < nx" for i
  proof -
    have out: "length (tab ! i) = k" using assms(2,3) that by simp
    have "set ?js \<subseteq> {..<ny}" by auto
    from single.series_best[OF assms(1) out out offered_fit[OF assms(4) that this] disjI1[OF TrueI]] obtain h where
      "add_series (handler_add m) (offered_results m (row d i x) y d ?js) (handler_begin m k (tab ! i)) = Inr h"
      "best_row m k (mset (offered_results m (row d i x) y d ?js)) (handler_end m (tab ! i) h)" by blast
    then show ?thesis unfolding exhaustive_seq_query_def offered_results_def[symmetric] by simp
  qed
  with rows_result_ok[of "[0..<nx]" tab "\<lambda>i. exhaustive_seq_query m k sel (row d i x) y d ny"
      "\<lambda>i. best_row m k (mset (offered_results m (row d i x) y d ?js))"] assms(2)
  show ?thesis by (auto simp: exhaustive_seq_def)
qed

text \<open>One block of vectors for a block of queries.\<close>

definition handlers_hold ::
  "metric \<Rightarrow> nat \<Rightarrow> float_t list \<Rightarrow> float_t list \<Rightarrow> nat \<Rightarrow> nat \<Rightarrow> nat \<Rightarrow> nat list \<Rightarrow> handler list \<Rightarrow> bool" where
  "handlers_hold m k x y d i0 i1 js hs \<longleftrightarrow> length hs = i1 - i0 \<and>
     (\<forall>a < i1 - i0. handler_inv m False k (mset (offered_results m (row d (i0 + a) x) y d js)) (hs ! a))"

lemma add_results_block_holds:
  assumes "handler_sizes k" "gemm_ok sgemm" "i1 \<le> nx" "j1 \<le> ny" "nx * d \<le> length x" "ny * d \<le> length y"
    "distances_fit m x y d nx ny" "set js \<subseteq> {..<ny}" "handlers_hold m k x y d i0 i1 js hs"
  shows "\<exists>hs'. add_results_block m i0 i1 j0 j1
      (ip_to_dis m (fvec_norms_L2sqr x d nx) (fvec_norms_L2sqr y d ny) i0 i1 j0 j1
        (sgemm (j1 - j0) (i1 - i0) d (drop (j0 * d) y) (drop (i0 * d) x))) hs = Inr hs' \<and>
    handlers_hold m k x y d i0 i1 (js @ [j0..<j1]) hs'"
proof -
  let ?dis = "ip_to_dis m (fvec_norms_L2sqr x d nx) (fvec_norms_L2sqr y d ny) i0 i1 j0 j1
        (sgemm (j1 - j0) (i1 - i0) d (drop (j0 * d) y) (drop (i0 * d) x))"
  let ?f = "\<lambda>a. add_series (handler_add m) (map (\<lambda>j. (?dis ! ((j1 - j0) * a + (j - j0)), int j)) [j0..<j1])"
  let ?inv = "\<lambda>js a. handler_inv m False k (mset (offered_results m (row d (i0 + a) x) y d js))"
  have hs: "length hs = i1 - i0" "\<And>a. a < i1 - i0 \<Longrightarrow> ?inv js a (hs ! a)"
    using assms(9) by (auto simp: handlers_hold_def)
  have "\<exists>h'. ?f a (hs ! a) = Inr h' \<and> ?inv (js @ [j0..<j1]) a h'" if "a < i1 - i0" for a
  proof -
    have i: "i0 + a < nx" "i0 \<le> i0 + a" "i0 + a < i1" using that assms(3) by auto
    have "map (\<lambda>j. (?dis ! ((j1 - j0) * a + (j - j0)), int j)) [j0..<j1] = offered_results m (row d (i0 + a) x) y d [j0..<j1]"
    proof -
      have "?dis ! ((j1 - j0) * a + (j - j0)) = vec_dis m (row d (i0 + a) x) (row d j y)" if "j0 \<le> j" "j < j1" for j
        using block_dis[OF assms(2) i(2,3) assms(3) that assms(4-6), of m] by (simp add: mult.commute)
      then show ?thesis by (simp add: offered_results_def)
    qed
    moreover have "\<forall>p \<in># mset (offered_results m (row d (i0 + a) x) y d js). offerable m p"
      "\<forall>p \<in> set (offered_results m (row d (i0 + a) x) y d [j0..<j1]). offerable m p"
      using offered_fit[OF assms(7) i(1) assms(8)] offered_fit[OF assms(7) i(1), of "[j0..<j1]"] assms(4)
      by (simp_all add: subset_eq)
    from block.series_inv[OF assms(1) hs(2)[OF that] this] have
      "\<exists>h'. add_series (handler_add m) (offered_results m (row d (i0 + a) x) y d [j0..<j1]) (hs ! a) = Inr h' \<and>
        ?inv (js @ [j0..<j1]) a h'" by (simp add: offered_results_def)
    ultimately show ?thesis by simp
  qed
  with rows_result_ok[of "[0..<i1 - i0]" hs ?f "?inv (js @ [j0..<j1])"] hs(1) show ?thesis
    by (auto simp: add_results_block_def handlers_hold_def)
qed

lemma exhaustive_blas_queries_best:
  assumes "handler_sizes k" "gemm_ok sgemm" "i0 < i1" "i1 \<le> nx" "nx * d \<le> length x" "ny * d \<le> length y" "0 < ny"
    "distances_fit m x y d nx ny" "i1 \<le> length tab" "\<forall>i. i0 \<le> i \<and> i < i1 \<longrightarrow> length (tab ! i) = k"
  shows "\<exists>tab'. exhaustive_blas_queries m sgemm k x y d ny (fvec_norms_L2sqr x d nx) (fvec_norms_L2sqr y d ny) i0 i1 tab
      = Inr tab' \<and> length tab' = length tab \<and>
    (\<forall>i < length tab. if i0 \<le> i \<and> i < i1 then best_row m k (mset (offered_results m (row d i x) y d [0..<ny])) (tab' ! i)
       else tab' ! i = tab ! i)"
proof -
  let ?bs = distance_compute_blas_database_bs
  let ?blk = "\<lambda>j0. [j0..<min (j0 + ?bs) ny]"
  let ?step = "\<lambda>j0. add_results_block m i0 i1 j0 (min (j0 + ?bs) ny)
      (ip_to_dis m (fvec_norms_L2sqr x d nx) (fvec_norms_L2sqr y d ny) i0 i1 j0 (min (j0 + ?bs) ny)
        (sgemm (min (j0 + ?bs) ny - j0) (i1 - i0) d (drop (j0 * d) y) (drop (i0 * d) x)))"
  let ?I = "\<lambda>done. handlers_hold m k x y d i0 i1 (concat (map ?blk done))"
  have bs: "1 \<le> ?bs" by (simp add: distance_compute_blas_database_bs_def)
  have "?I [] (map (\<lambda>i. handler_begin_multiple m k (tab ! i)) [i0..<i1])"
    using assms(10) handler_begin_inv(2)[OF assms(1)] by (simp add: handlers_hold_def offered_results_def)
  moreover have "\<exists>hs'. ?step j0 hs = Inr hs' \<and> ?I (done @ [j0]) hs'" if "?I done hs" for "done" j0 hs
  proof -
    have "set (concat (map ?blk done)) \<subseteq> {..<ny}" by auto
    from add_results_block_holds[OF assms(1,2,4) min.cobounded2 assms(5,6,8) this that] show ?thesis by simp
  qed
  ultimately obtain hs where hs: "fold_result ?step (block_starts ny ?bs) (map (\<lambda>i. handler_begin_multiple m k (tab ! i)) [i0..<i1]) = Inr hs"
    "?I (block_starts ny ?bs) hs"
    using fold_result_inv[of ?I _ "block_starts ny ?bs" ?step] by blast
  then have inv: "handlers_hold m k x y d i0 i1 [0..<ny] hs" by (simp only: concat_blocks[OF bs])
  let ?tab = "each_row (\<lambda>i out. handler_end m out (hs ! (i - i0))) i0 i1 tab"
  have "best_row m k (mset (offered_results m (row d i x) y d [0..<ny])) (?tab ! i)" if "i0 \<le> i" "i < i1" for i
  proof -
    have "handler_inv m False k (mset (offered_results m (row d i x) y d [0..<ny])) (hs ! (i - i0))"
      using inv that by (auto simp: handlers_hold_def dest!: spec[of _ "i - i0"])
    moreover have "\<forall>p \<in># mset (offered_results m (row d i x) y d [0..<ny]). offerable m p"
      using offered_fit[OF assms(8), of i "[0..<ny]"] that assms(4) by (simp add: subset_eq)
    moreover have "mset (offered_results m (row d i x) y d [0..<ny]) \<noteq> {#}"
      unfolding mset_zero_iff offered_results_def using assms(7) by simp
    ultimately have "best_row m k (mset (offered_results m (row d i x) y d [0..<ny])) (handler_end m (tab ! i) (hs ! (i - i0)))"
      using handler_inv_end assms(10) that by blast
    then show ?thesis using that assms(3,9) by (simp add: nth_each_row)
  qed
  with assms(3,9) hs(1) show ?thesis
    by (auto simp: exhaustive_blas_queries_def Let_def nth_each_row intro!: exI[of _ ?tab])
qed

lemma exhaustive_blas_best:
  assumes "handler_sizes k" "gemm_ok sgemm" "nx * d \<le> length x" "ny * d \<le> length y" "0 < ny"
    "nx \<le> length tab" "\<forall>r \<in> set tab. length r = k" "distances_fit m x y d nx ny"
  shows "\<exists>tab'. exhaustive_blas m sgemm k x y d nx ny tab = Inr tab' \<and> length tab' = length tab \<and>
    (\<forall>i < nx. best_row m k (mset (offered_results m (row d i x) y d [0..<ny])) (tab' ! i))"
proof (cases "nx = 0")
  case False
  let ?bs = distance_compute_blas_query_bs
  let ?blk = "\<lambda>i0. [i0..<min (i0 + ?bs) nx]"
  let ?best = "\<lambda>i. best_row m k (mset (offered_results m (row d i x) y d [0..<ny]))"
  let ?step = "\<lambda>i0. exhaustive_blas_queries m sgemm k x y d ny (fvec_norms_L2sqr x d nx) (fvec_norms_L2sqr y d ny)
      i0 (min (i0 + ?bs) nx)"
  let ?I = "\<lambda>done t. length t = length tab \<and>
     (\<forall>i < length tab. if i \<in> set (concat (map ?blk done)) then ?best i (t ! i) else t ! i = tab ! i)"
  have bs: "1 \<le> ?bs" by (simp add: distance_compute_blas_query_bs_def)
  have "\<exists>t'. ?step i0 t = Inr t' \<and> ?I (done @ [i0]) t'"
    if I: "?I done t" and i0: "i0 \<in> set (block_starts nx ?bs)" for "done" i0 t
  proof -
    have lt: "i0 < min (i0 + ?bs) nx" using block_starts_less[OF bs i0] bs by simp
    have len: "length (t ! i) = k" if "i < length tab" for i
      using I that assms(7) by (auto simp: best_row_def C.best_def split: if_splits)
    have "min (i0 + ?bs) nx \<le> length t" "\<forall>i. i0 \<le> i \<and> i < min (i0 + ?bs) nx \<longrightarrow> length (t ! i) = k"
      using I assms(6) len by auto
    from exhaustive_blas_queries_best[OF assms(1,2) lt min.cobounded2 assms(3-5,8) this] obtain t' where
      t': "?step i0 t = Inr t'" "length t' = length t"
        "\<forall>i < length t. if i0 \<le> i \<and> i < min (i0 + ?bs) nx then ?best i (t' ! i) else t' ! i = t ! i" by blast
    have mem: "i \<in> set (concat (map ?blk (done @ [i0]))) \<longleftrightarrow>
        (i0 \<le> i \<and> i < min (i0 + ?bs) nx) \<or> i \<in> set (concat (map ?blk done))" for i by auto
    have "if i \<in> set (concat (map ?blk (done @ [i0]))) then ?best i (t' ! i) else t' ! i = tab ! i" if "i < length tab" for i
    proof (cases "i0 \<le> i \<and> i < min (i0 + ?bs) nx")
      case True
      then show ?thesis using t'(2,3) I that unfolding mem by simp
    next
      case False
      then have "t' ! i = t ! i" using t'(2,3) I that by simp
      then show ?thesis using False I that unfolding mem by auto
    qed
    with t' I show ?thesis by simp
  qed
  with fold_result_inv[of ?I tab "block_starts nx ?bs" ?step] obtain tab' where
    tab': "fold_result ?step (block_starts nx ?bs) tab = Inr tab'" "?I (block_starts nx ?bs) tab'" by auto
  then have "\<forall>i < nx. ?best i (tab' ! i)" using assms(6) unfolding concat_blocks[OF bs] by auto
  with tab' False assms(5) show ?thesis by (auto simp: exhaustive_blas_def Let_def)
qed (simp add: exhaustive_blas_def)

end
