(* ===== verification/SuCoAssign.thy ===== *)
theory SuCoAssign
  imports SuCo FlatSearchOk
begin

text \<open>
  \<open>IndexSuCo::assign_to_centroids\<close> calls \<open>knn_L2sqr\<close> with \<open>k = 1\<close>, which takes one vector at a time for fewer
  than 20 vectors and BLAS blocks for more. \<open>SuCo\<close> models the first path only; here the whole driver, as it
  is modelled for \<open>IndexFlat\<close>, is shown to give the same labels on both paths, ties included.
\<close>

section \<open>The handler of a single result\<close>

definition top1_state :: "float_t list \<Rightarrow> float_t list \<Rightarrow> nat \<Rightarrow> nat list \<Rightarrow> float_t \<times> int \<Rightarrow> handler" where
  "top1_state x y d js s =
     Top1Handler \<lparr> t1_threshold = fst (exhaustive_top1 x y d js s), t1_min_idx = snd (exhaustive_top1 x y d js s) \<rparr>"

lemma top1_series:
  "add_series (handler_add METRIC_L2) (map (\<lambda>j. (fvec_L2sqr x (row d j y), int j)) js) (top1_state x y d is s)
     = Inr (top1_state x y d (is @ js) s)"
proof (induction js arbitrary: "is")
  case (Cons j js)
  have app: "exhaustive_top1 x y d (ks @ ls) t = exhaustive_top1 x y d ls (exhaustive_top1 x y d ks t)" for ks ls t
    by (induction ks arbitrary: t) simp_all
  have "handler_add METRIC_L2 (fvec_L2sqr x (row d j y)) (int j) (top1_state x y d is s)
      = Inr (top1_state x y d (is @ [j]) s, fst (exhaustive_top1 x y d is s) > fvec_L2sqr x (row d j y))"
    by (simp add: top1_state_def top1_add_def top1_add_result_def app C_cmp_def CMax_cmp_def is_similarity_metric_def)
  with Cons[of "is @ [j]"] show ?case by simp
qed simp

lemma top1_state_begin:
  "handler_begin METRIC_L2 1 out = top1_state x y d [] (FLT_MAX, -1)"
  "handler_begin_multiple METRIC_L2 1 out = top1_state x y d [] (FLT_MAX, snd (out ! 0))"
  by (simp_all add: handler_begin_def handler_begin_multiple_def top1_begin_def top1_begin_multiple_def top1_state_def C_neutral_def is_similarity_metric_def)

lemma top1_state_end: "handler_end m out (top1_state x y d js s) = [exhaustive_top1 x y d js s]"
  by (simp add: top1_state_def top1_end_def)

text \<open>The label with which a search starts does not matter when there is a distance in the range.\<close>

lemma exhaustive_top1_start:
  "\<exists>j \<in> set js. fvec_L2sqr x (row d j y) < t \<Longrightarrow> exhaustive_top1 x y d js (t, l) = exhaustive_top1 x y d js (t, l')"
proof (induction js)
  case (Cons j js)
  then show ?case by (cases "fvec_L2sqr x (row d j y) < t") (simp_all add: top1_add_result_def)
qed simp

section \<open>Both paths\<close>

lemma seq_top1:
  assumes "length tab = nx"
  shows "\<exists>tab'. exhaustive_seq METRIC_L2 1 None x y d nx ny tab = Inr tab' \<and> length tab' = nx \<and>
    (\<forall>i < nx. tab' ! i = [exhaustive_top1 (row d i x) y d [0..<ny] (FLT_MAX, -1)])"
proof -
  let ?r = "\<lambda>i. [exhaustive_top1 (row d i x) y d [0..<ny] (FLT_MAX, -1)]"
  have "exhaustive_seq_query METRIC_L2 1 None (row d i x) y d ny out = Inr (?r i)" for i out
    unfolding exhaustive_seq_query_def top1_state_begin(1)[of out "row d i x" y d]
    by (simp add: is_in_selection_def vec_dis_def top1_series top1_state_end)
  with rows_result_ok[of "[0..<nx]" tab "\<lambda>i. exhaustive_seq_query METRIC_L2 1 None (row d i x) y d ny" "\<lambda>i r. r = ?r i"] assms
  show ?thesis by (auto simp: exhaustive_seq_def)
qed

definition top1_hold :: "float_t list \<Rightarrow> float_t list \<Rightarrow> nat \<Rightarrow> nat \<Rightarrow> nat \<Rightarrow> (float_t \<times> int) list list \<Rightarrow> nat list \<Rightarrow> handler list \<Rightarrow> bool" where
  "top1_hold x y d i0 i1 tab js hs \<longleftrightarrow> length hs = i1 - i0 \<and>
     (\<forall>a < i1 - i0. hs ! a = top1_state (row d (i0 + a) x) y d js (FLT_MAX, snd (tab ! (i0 + a) ! 0)))"

lemma block_top1:
  assumes "gemm_ok sgemm" "i1 \<le> nx" "j1 \<le> ny" "nx * d \<le> length x" "ny * d \<le> length y" "top1_hold x y d i0 i1 tab js hs"
  shows "\<exists>hs'. add_results_block METRIC_L2 i0 i1 j0 j1
      (ip_to_dis METRIC_L2 (fvec_norms_L2sqr x d nx) (fvec_norms_L2sqr y d ny) i0 i1 j0 j1
        (sgemm (j1 - j0) (i1 - i0) d (drop (j0 * d) y) (drop (i0 * d) x))) hs = Inr hs' \<and>
    top1_hold x y d i0 i1 tab (js @ [j0..<j1]) hs'"
proof -
  let ?dis = "ip_to_dis METRIC_L2 (fvec_norms_L2sqr x d nx) (fvec_norms_L2sqr y d ny) i0 i1 j0 j1
        (sgemm (j1 - j0) (i1 - i0) d (drop (j0 * d) y) (drop (i0 * d) x))"
  let ?f = "\<lambda>a. add_series (handler_add METRIC_L2) (map (\<lambda>j. (?dis ! ((j1 - j0) * a + (j - j0)), int j)) [j0..<j1])"
  let ?s = "\<lambda>js a. top1_state (row d (i0 + a) x) y d js (FLT_MAX, snd (tab ! (i0 + a) ! 0))"
  have "?f a (hs ! a) = Inr (?s (js @ [j0..<j1]) a)" if "a < i1 - i0" for a
  proof -
    have i: "i0 \<le> i0 + a" "i0 + a < i1" using that by auto
    have "?dis ! ((j1 - j0) * a + (j - j0)) = fvec_L2sqr (row d (i0 + a) x) (row d j y)" if "j0 \<le> j" "j < j1" for j
      using block_dis[OF assms(1) i assms(2) that assms(3-5), of METRIC_L2] by (simp add: mult.commute vec_dis_def)
    then have "map (\<lambda>j. (?dis ! ((j1 - j0) * a + (j - j0)), int j)) [j0..<j1]
        = map (\<lambda>j. (fvec_L2sqr (row d (i0 + a) x) (row d j y), int j)) [j0..<j1]" by simp
    moreover have "hs ! a = ?s js a" using assms(6) that by (simp add: top1_hold_def)
    ultimately show ?thesis by (simp only: top1_series)
  qed
  with rows_result_ok[of "[0..<i1 - i0]" hs ?f "\<lambda>a h. h = ?s (js @ [j0..<j1]) a"] assms(6) show ?thesis
    by (auto simp: add_results_block_def top1_hold_def)
qed

lemma blas_queries_top1:
  assumes "gemm_ok sgemm" "i0 < i1" "i1 \<le> nx" "nx * d \<le> length x" "ny * d \<le> length y" "i1 \<le> length tab"
  shows "\<exists>tab'. exhaustive_blas_queries METRIC_L2 sgemm 1 x y d ny (fvec_norms_L2sqr x d nx) (fvec_norms_L2sqr y d ny) i0 i1 tab
      = Inr tab' \<and> length tab' = length tab \<and>
    (\<forall>i < length tab. tab' ! i = (if i0 \<le> i \<and> i < i1
       then [exhaustive_top1 (row d i x) y d [0..<ny] (FLT_MAX, snd (tab ! i ! 0))] else tab ! i))"
proof -
  let ?bs = distance_compute_blas_database_bs
  let ?blk = "\<lambda>j0. [j0..<min (j0 + ?bs) ny]"
  let ?step = "\<lambda>j0. add_results_block METRIC_L2 i0 i1 j0 (min (j0 + ?bs) ny)
      (ip_to_dis METRIC_L2 (fvec_norms_L2sqr x d nx) (fvec_norms_L2sqr y d ny) i0 i1 j0 (min (j0 + ?bs) ny)
        (sgemm (min (j0 + ?bs) ny - j0) (i1 - i0) d (drop (j0 * d) y) (drop (i0 * d) x)))"
  let ?I = "\<lambda>done. top1_hold x y d i0 i1 tab (concat (map ?blk done))"
  let ?h0 = "map (\<lambda>i. handler_begin_multiple METRIC_L2 1 (tab ! i)) [i0..<i1]"
  have bs: "1 \<le> ?bs" by (simp add: distance_compute_blas_database_bs_def)
  have "?I [] ?h0" using top1_state_begin(2) by (simp add: top1_hold_def)
  moreover have "\<exists>hs'. ?step j0 hs = Inr hs' \<and> ?I (done @ [j0]) hs'" if "?I done hs" for "done" j0 hs
    using block_top1[OF assms(1,3) min.cobounded2 assms(4,5) that] by simp
  ultimately obtain hs where hs: "fold_result ?step (block_starts ny ?bs) ?h0 = Inr hs" "?I (block_starts ny ?bs) hs"
    using fold_result_inv[of ?I ?h0 "block_starts ny ?bs" ?step] by blast
  then have inv: "top1_hold x y d i0 i1 tab [0..<ny] hs" by (simp only: concat_blocks[OF bs])
  let ?tab = "each_row (\<lambda>i out. handler_end METRIC_L2 out (hs ! (i - i0))) i0 i1 tab"
  have "hs ! (i - i0) = top1_state (row d i x) y d [0..<ny] (FLT_MAX, snd (tab ! i ! 0))" if "i0 \<le> i" "i < i1" for i
    using inv that by (auto simp: top1_hold_def dest!: spec[of _ "i - i0"])
  with assms(2,6) hs(1) show ?thesis
    by (auto simp: exhaustive_blas_queries_def Let_def nth_each_row top1_state_end intro!: exI[of _ ?tab])
qed

text \<open>Every vector has a distance below \<open>FLT_MAX\<close> to one of the others.\<close>

definition some_near :: "float_t list \<Rightarrow> float_t list \<Rightarrow> nat \<Rightarrow> nat \<Rightarrow> nat \<Rightarrow> bool" where
  "some_near x y d nx ny \<longleftrightarrow> (\<forall>i < nx. \<exists>j < ny. fvec_L2sqr (row d i x) (row d j y) < FLT_MAX)"

lemma blas_top1:
  assumes "gemm_ok sgemm" "nx * d \<le> length x" "ny * d \<le> length y" "0 < ny" "length tab = nx" "some_near x y d nx ny"
  shows "\<exists>tab'. exhaustive_blas METRIC_L2 sgemm 1 x y d nx ny tab = Inr tab' \<and> length tab' = nx \<and>
    (\<forall>i < nx. tab' ! i = [exhaustive_top1 (row d i x) y d [0..<ny] (FLT_MAX, -1)])"
proof (cases "nx = 0")
  case False
  let ?bs = distance_compute_blas_query_bs
  let ?blk = "\<lambda>i0. [i0..<min (i0 + ?bs) nx]"
  let ?r = "\<lambda>i. [exhaustive_top1 (row d i x) y d [0..<ny] (FLT_MAX, -1)]"
  let ?step = "\<lambda>i0. exhaustive_blas_queries METRIC_L2 sgemm 1 x y d ny (fvec_norms_L2sqr x d nx) (fvec_norms_L2sqr y d ny)
      i0 (min (i0 + ?bs) nx)"
  let ?I = "\<lambda>done t. length t = nx \<and> (\<forall>i \<in> set (concat (map ?blk done)). t ! i = ?r i)"
  have bs: "1 \<le> ?bs" by (simp add: distance_compute_blas_query_bs_def)
  have start: "exhaustive_top1 (row d i x) y d [0..<ny] (FLT_MAX, l) = exhaustive_top1 (row d i x) y d [0..<ny] (FLT_MAX, -1)"
    if "i < nx" for i l
    using assms(6) that by (intro exhaustive_top1_start) (simp add: some_near_def Bex_def)
  have "\<exists>t'. ?step i0 t = Inr t' \<and> ?I (done @ [i0]) t'"
    if I: "?I done t" and i0: "i0 \<in> set (block_starts nx ?bs)" for "done" i0 t
  proof -
    let ?i1 = "min (i0 + ?bs) nx"
    have lt: "i0 < ?i1" "?i1 \<le> length t" using block_starts_less[OF bs i0] bs I by simp_all
    from blas_queries_top1[OF assms(1) lt(1) min.cobounded2 assms(2,3) lt(2)] obtain t' where
      t': "?step i0 t = Inr t'" "length t' = length t"
        "\<forall>i < length t. t' ! i = (if i0 \<le> i \<and> i < ?i1
           then [exhaustive_top1 (row d i x) y d [0..<ny] (FLT_MAX, snd (t ! i ! 0))] else t ! i)" by blast
    have "t' ! i = ?r i" if "i \<in> set (concat (map ?blk (done @ [i0])))" for i
    proof -
      have "i < nx" using that by auto
      then show ?thesis using t'(3) I start[of i] that by auto
    qed
    then show ?thesis using t'(1,2) I by blast
  qed
  with fold_result_inv[of ?I tab "block_starts nx ?bs" ?step] assms(5) obtain tab' where
    "fold_result ?step (block_starts nx ?bs) tab = Inr tab'" "?I (block_starts nx ?bs) tab'" by auto
  then show ?thesis unfolding concat_blocks[OF bs] using False assms(4) by (auto simp: exhaustive_blas_def Let_def)
qed (use assms in \<open>simp add: exhaustive_blas_def\<close>)

section \<open>The assignment\<close>

text \<open>The labels that \<open>knn_L2sqr\<close> writes, whatever the batch size, are those of \<open>assign_to_centroids\<close>, when every
  vector has a distance below \<open>FLT_MAX\<close> to a centroid. Without one the label is -1 on the first path and the
  initial 0 of the array on the second.\<close>

lemma assign_to_centroids_knn:
  assumes "gemm_ok sgemm" "n * dm \<le> length vecs" "nc * dm \<le> length cents" "0 < nc" "length tab = n"
    and "some_near vecs cents dm n nc"
  shows "\<exists>tab'. knn_driver METRIC_L2 sgemm vecs cents dm n nc 1 None tab = Inr tab' \<and>
    map (\<lambda>r. snd (r ! 0)) tab' = assign_to_centroids n dm vecs nc cents"
proof -
  have "\<exists>tab'. run_search METRIC_L2 sgemm 1 None vecs cents dm n nc tab = Inr tab' \<and> length tab' = n \<and>
    (\<forall>i < n. tab' ! i = [exhaustive_top1 (row dm i vecs) cents dm [0..<nc] (FLT_MAX, -1)])"
  proof (cases "n < distance_compute_blas_threshold")
    case True
    then show ?thesis using seq_top1[OF assms(5)] by (simp only: run_search_def simp_thms if_True)
  next
    case False
    then show ?thesis using blas_top1[OF assms] by (simp only: run_search_def simp_thms if_False)
  qed
  then obtain tab' where t: "run_search METRIC_L2 sgemm 1 None vecs cents dm n nc tab = Inr tab'" "length tab' = n"
    "\<forall>i < n. tab' ! i = [exhaustive_top1 (row dm i vecs) cents dm [0..<nc] (FLT_MAX, -1)]" by blast
  have "map (\<lambda>r. snd (r ! 0)) tab' = assign_to_centroids n dm vecs nc cents"
    using t(2,3) by (intro nth_equalityI) (simp_all add: assign_to_centroids_def)
  moreover have "knn_driver METRIC_L2 sgemm vecs cents dm n nc 1 None tab = Inr tab'"
    using t(1) assms(3) by (simp add: knn_driver_def del: One_nat_def)
  ultimately show ?thesis by blast
qed

text \<open>So \<open>add\<close> assigns the vectors of a batch as \<open>knn_L2sqr\<close> does, in every half of every subspace.\<close>

lemma half_assign_knn:
  assumes "gemm_ok sgemm" "suco_inv ix" "su_is_trained ix" "in_float_range ix n x" "s < nS ix" "half < 2"
    and "n * dimd ix \<le> length x" "length tab = n"
  shows "\<exists>tab'. knn_driver METRIC_L2 sgemm (gather_half ix n x s half)
      (drop ((s * 2 + half) * nC ix * halfd ix) (centroids ix)) (halfd ix) n (nC ix) 1 None tab = Inr tab' \<and>
    map (\<lambda>r. snd (r ! 0)) tab' = half_assign ix n x s half"
proof -
  note tr = suco_inv_trained[OF assms(2,3)]
  note sh = suco_shape_dims[OF tr(1)]
  have "s * subd ix + half * halfd ix + halfd ix \<le> dimd ix"
  proof -
    have "s * subd ix + half * halfd ix + halfd ix \<le> Suc s * subd ix" using sh assms(6) by (auto simp: less_2_cases_iff)
    also have "\<dots> \<le> nS ix * subd ix" using assms(5) by (intro mult_le_mono1) simp
    finally show ?thesis using sh by simp
  qed
  then have fit: "length (slice (i * dimd ix + (s * subd ix + half * halfd ix)) (halfd ix) x) = halfd ix" if "i < n" for i
  proof -
    have "Suc i * dimd ix \<le> n * dimd ix" using that by (intro mult_le_mono1) simp
    then have "i * dimd ix + dimd ix \<le> length x" using assms(7) by simp
    with \<open>s * subd ix + half * halfd ix + halfd ix \<le> dimd ix\<close>
    have "halfd ix \<le> length x - (i * dimd ix + (s * subd ix + half * halfd ix))" by linarith
    then show ?thesis by (simp add: slice_def)
  qed
  have len: "map (\<lambda>i. length (slice (i * dimd ix + (s * subd ix + half * halfd ix)) (halfd ix) x)) [0..<n] = map (\<lambda>i. halfd ix) [0..<n]"
    using fit by simp
  have "length (gather_half ix n x s half) = n * halfd ix"
    unfolding gather_half_def length_concat map_map comp_def len by (simp add: sum_list_triv)
  moreover have "nC ix * halfd ix \<le> length (drop ((s * 2 + half) * nC ix * halfd ix) (centroids ix))"
  proof -
    have "Suc (s * 2 + half) * (nC ix * halfd ix) \<le> nS ix * 2 * (nC ix * halfd ix)"
      using assms(5,6) by (intro mult_le_mono1) linarith
    then show ?thesis using tr(3) by (simp add: mult.assoc add_le_imp_le_diff)
  qed
  moreover have "some_near (gather_half ix n x s half) (drop ((s * 2 + half) * nC ix * halfd ix) (centroids ix)) (halfd ix) n (nC ix)"
    using assms(4-6) by (simp add: some_near_def in_float_range_def half_dist_def)
  ultimately show ?thesis using assign_to_centroids_knn[OF assms(1) _ _ sh(4) assms(8)] unfolding half_assign_def by simp
qed

end
