(* ===== verification/VisitedTab.thy ===== *)
theory VisitedTab
  imports Prelude
begin

text \<open>
  \<open>VisitedTable\<close> of \<open>faiss/impl/VisitedTable.h\<close> and \<open>.cpp\<close>: a set of vertices that is cleared in
  constant time by a generation counter of eight bits, or a hash set. The interface that the graph
  searches rely on is the locale \<open>visited_set\<close>.
\<close>

section \<open>The table\<close>

record vtable =
  vt_visited :: "8 word list"
  vt_set :: "nat set"
  vt_visno :: "8 word"

definition visited_table_hashset_threshold :: nat where
  "visited_table_hashset_threshold = 500000"

text \<open>The constructor; \<open>use_hashset\<close> is the \<open>std::optional<bool>\<close>.\<close>

definition VisitedTable :: "nat \<Rightarrow> bool option \<Rightarrow> vtable" where
  "VisitedTable sz use_hashset =
     (let hs = (case use_hashset of None \<Rightarrow> sz \<ge> visited_table_hashset_threshold | Some b \<Rightarrow> b);
          visno = (if hs then 0 else 1)
      in \<lparr> vt_visited = (if visno \<noteq> 0 then replicate sz 0 else []), vt_set = {}, vt_visno = visno \<rparr>)"

definition vt_mark :: "vtable \<Rightarrow> nat \<Rightarrow> vtable \<times> bool" where
  "vt_mark vt v =
     (if vt_visno vt = 0
      then (vt\<lparr> vt_set := insert v (vt_set vt) \<rparr>, v \<notin> vt_set vt)
      else if vt_visited vt ! v = vt_visno vt then (vt, False)
      else (vt\<lparr> vt_visited := (vt_visited vt)[v := vt_visno vt] \<rparr>, True))"

definition vt_get :: "vtable \<Rightarrow> nat \<Rightarrow> bool" where
  "vt_get vt v =
     (if vt_visno vt = 0 then v \<in> vt_set vt else vt_visited vt ! v = vt_visno vt)"

definition vt_advance :: "vtable \<Rightarrow> vtable" where
  "vt_advance vt =
     (if vt_visno vt = 0 then vt\<lparr> vt_set := {} \<rparr>
      else if vt_visno vt < 254 then vt\<lparr> vt_visno := vt_visno vt + 1 \<rparr>
      else vt\<lparr> vt_visited := replicate (length (vt_visited vt)) 0, vt_visno := 1 \<rparr>)"

section \<open>Interface\<close>

text \<open>A set of vertices below a bound that never changes: \<open>mark\<close> adds a vertex and tells whether it
  was new, \<open>advance\<close> removes all.\<close>

locale visited_set =
  fixes mark :: "'v \<Rightarrow> nat \<Rightarrow> 'v \<times> bool" and get :: "'v \<Rightarrow> nat \<Rightarrow> bool"
    and advance :: "'v \<Rightarrow> 'v" and inv :: "nat \<Rightarrow> 'v \<Rightarrow> bool"
  assumes inv_mark: "inv n vt \<Longrightarrow> v < n \<Longrightarrow> inv n (fst (mark vt v))"
    and inv_advance: "inv n vt \<Longrightarrow> inv n (advance vt)"
    and mark_new: "inv n vt \<Longrightarrow> v < n \<Longrightarrow> snd (mark vt v) = (\<not> get vt v)"
    and get_mark: "inv n vt \<Longrightarrow> v < n \<Longrightarrow> w < n \<Longrightarrow> get (fst (mark vt v)) w = (w = v \<or> get vt w)"
    and get_advance: "inv n vt \<Longrightarrow> v < n \<Longrightarrow> \<not> get (advance vt) v"
begin

text \<open>Marking a series of vertices.\<close>

definition mark_all :: "nat list \<Rightarrow> 'v \<Rightarrow> 'v" where
  "mark_all vs vt = fold (\<lambda>v vt. fst (mark vt v)) vs vt"

lemma inv_mark_all: "inv n vt \<Longrightarrow> set vs \<subseteq> {..<n} \<Longrightarrow> inv n (mark_all vs vt)"
  by (induction vs arbitrary: vt) (simp_all add: mark_all_def inv_mark)

lemma get_mark_all:
  "inv n vt \<Longrightarrow> set vs \<subseteq> {..<n} \<Longrightarrow> w < n \<Longrightarrow> get (mark_all vs vt) w = (w \<in> set vs \<or> get vt w)"
  by (induction vs arbitrary: vt) (auto simp: mark_all_def inv_mark get_mark)

text \<open>A use of the table after an \<open>advance\<close> starts from the empty set.\<close>

lemma fresh_use:
  "inv n vt \<Longrightarrow> set vs \<subseteq> {..<n} \<Longrightarrow> w < n \<Longrightarrow> get (mark_all vs (advance vt)) w = (w \<in> set vs)"
  using get_mark_all[OF inv_advance] get_advance by blast

end

section \<open>The invariant of the table\<close>

text \<open>In array mode no entry is from a later generation.\<close>

definition vt_inv :: "nat \<Rightarrow> vtable \<Rightarrow> bool" where
  "vt_inv n vt \<longleftrightarrow>
     (vt_visno vt = 0 \<or>
      vt_visno vt \<le> 254 \<and> n \<le> length (vt_visited vt) \<and> (\<forall>x \<in> set (vt_visited vt). x \<le> vt_visno vt))"

lemma vt_inv_constructor: "vt_inv sz (VisitedTable sz hs)"
  by (simp add: VisitedTable_def vt_inv_def Let_def)

lemma vt_get_constructor: "v < sz \<Longrightarrow> \<not> vt_get (VisitedTable sz hs) v"
  by (simp add: VisitedTable_def vt_get_def Let_def)

lemma vt_inv_advance: "vt_inv n vt \<Longrightarrow> vt_inv n (vt_advance vt)"
proof (cases "vt_visno vt = 0 \<or> \<not> vt_visno vt < 254")
  case True
  then show "vt_inv n vt \<Longrightarrow> ?thesis" by (auto simp: vt_inv_def vt_advance_def)
next
  case False
  assume inv: "vt_inv n vt"
  from False have lt: "vt_visno vt < vt_visno vt + 1" by (simp add: word_less_nat_alt unat_word_ariths)
  from False have "vt_visno vt + 1 \<le> 254" by (rule_tac inc_le) simp
  moreover have "vt_visno vt + 1 \<noteq> 0" using lt by auto
  moreover have "\<forall>x \<in> set (vt_visited vt). x \<le> vt_visno vt + 1"
    using inv False lt by (auto simp: vt_inv_def)
  ultimately show ?thesis using inv False by (auto simp: vt_inv_def vt_advance_def)
qed

lemma vt_get_advance: "vt_inv n vt \<Longrightarrow> v < n \<Longrightarrow> \<not> vt_get (vt_advance vt) v"
proof (cases "vt_visno vt = 0 \<or> \<not> vt_visno vt < 254")
  case True
  then show "vt_inv n vt \<Longrightarrow> v < n \<Longrightarrow> ?thesis" by (auto simp: vt_inv_def vt_advance_def vt_get_def)
next
  case False
  assume inv: "vt_inv n vt" "v < n"
  from False have lt: "vt_visno vt < vt_visno vt + 1" by (simp add: word_less_nat_alt unat_word_ariths)
  have "vt_visited vt ! v \<in> set (vt_visited vt)" using inv False by (auto simp: vt_inv_def)
  then have "vt_visited vt ! v \<le> vt_visno vt" using inv False by (auto simp: vt_inv_def)
  with lt have "vt_visited vt ! v \<noteq> vt_visno vt + 1" by auto
  moreover have "vt_visno vt + 1 \<noteq> 0" using lt by auto
  ultimately show ?thesis using False by (simp add: vt_get_def vt_advance_def)
qed

interpretation vt: visited_set vt_mark vt_get vt_advance vt_inv
proof
  fix n vt v w
  show "vt_inv n vt \<Longrightarrow> v < n \<Longrightarrow> vt_inv n (fst (vt_mark vt v))"
    using set_update_subset_insert[of "vt_visited vt" v "vt_visno vt"]
    by (auto simp: vt_inv_def vt_mark_def)
  show "vt_inv n vt \<Longrightarrow> vt_inv n (vt_advance vt)" by (rule vt_inv_advance)
  show "vt_inv n vt \<Longrightarrow> v < n \<Longrightarrow> snd (vt_mark vt v) = (\<not> vt_get vt v)"
    by (simp add: vt_mark_def vt_get_def)
  show "vt_inv n vt \<Longrightarrow> v < n \<Longrightarrow> w < n \<Longrightarrow> vt_get (fst (vt_mark vt v)) w = (w = v \<or> vt_get vt w)"
    by (auto simp: vt_inv_def vt_mark_def vt_get_def nth_list_update split: if_splits)
  show "vt_inv n vt \<Longrightarrow> v < n \<Longrightarrow> \<not> vt_get (vt_advance vt) v" by (rule vt_get_advance)
qed

text \<open>C13. A visited table behaves as a set through any number of uses: after any sequence of uses,
  each a series of marks ended by \<open>advance\<close>, marking the vertices \<open>vs\<close> makes exactly these
  visited. In particular the wrap of the eight-bit generation counter is never observable.\<close>

theorem visited_table_is_set:
  assumes "\<forall>us \<in> set uses. set us \<subseteq> {..<n}" "set vs \<subseteq> {..<n}" "w < n"
  shows "vt_get (fold (\<lambda>v vt. fst (vt_mark vt v)) vs
      (fold (\<lambda>us vt. vt_advance (fold (\<lambda>v vt. fst (vt_mark vt v)) us vt)) uses (VisitedTable n hs))) w
    \<longleftrightarrow> w \<in> set vs"
proof -
  have "vt_inv n (fold (\<lambda>us vt. vt_advance (fold (\<lambda>v vt. fst (vt_mark vt v)) us vt)) uses vt) \<and>
    (\<forall>w < n. \<not> vt_get (fold (\<lambda>us vt. vt_advance (fold (\<lambda>v vt. fst (vt_mark vt v)) us vt)) uses vt) w)"
    if "vt_inv n vt" "\<forall>w < n. \<not> vt_get vt w" for vt
    using that assms(1)
  proof (induction uses arbitrary: vt)
    case (Cons us uses)
    have "vt_inv n (fold (\<lambda>v vt. fst (vt_mark vt v)) us vt)"
      using vt.inv_mark_all[OF Cons.prems(1)] Cons.prems(3) by (simp add: vt.mark_all_def)
    with Cons show ?case by (simp add: vt_inv_advance vt_get_advance)
  qed simp
  from this[OF vt_inv_constructor, of hs] have
    inv: "vt_inv n (fold (\<lambda>us vt. vt_advance (fold (\<lambda>v vt. fst (vt_mark vt v)) us vt)) uses (VisitedTable n hs))"
    and fresh: "\<forall>w < n. \<not> vt_get (fold (\<lambda>us vt. vt_advance (fold (\<lambda>v vt. fst (vt_mark vt v)) us vt)) uses (VisitedTable n hs)) w"
    by (simp_all add: vt_get_constructor)
  from vt.get_mark_all[OF inv assms(2,3)] fresh assms(3) show ?thesis by (simp add: vt.mark_all_def)
qed

theorem visited_table_is_set_witness:
  "vt_get (fold (\<lambda>v vt. fst (vt_mark vt v)) [2, 0]
      (fold (\<lambda>us vt. vt_advance (fold (\<lambda>v vt. fst (vt_mark vt v)) us vt)) (replicate 300 [1]) (VisitedTable 3 None))) 1
    \<longleftrightarrow> 1 \<in> set [2, 0 :: nat]"
  using visited_table_is_set[of "replicate 300 [1]" 3 "[2, 0]" 1 None] by simp

end
