(* ===== verification/Minimax.thy ===== *)
theory Minimax
  imports HeapArrays
begin

text \<open>
  \<open>HNSW::MinimaxHeap\<close> of \<open>faiss/impl/HNSW.h\<close> and \<open>.cpp\<close>: a bounded max-heap from which the minimum
  can be taken. Taking it overwrites the id by -1 and leaves the distance in place, so the array stays
  a heap by distance but not by (distance, id). The three implementations of \<open>pop_min\<close> (scalar, AVX2,
  AVX-512) are modelled lane by lane and proved equal.
\<close>

section \<open>State and operations\<close>

record 'd minimax =
  mm_n :: nat
  mm_k :: nat
  mm_nvalid :: int
  mm_ids :: "int list"
  mm_dis :: "'d list"

definition MinimaxHeap :: "nat \<Rightarrow> 'd::{linorder, zero} minimax" where
  "MinimaxHeap n = \<lparr> mm_n = n, mm_k = 0, mm_nvalid = 0, mm_ids = replicate n 0, mm_dis = replicate n 0 \<rparr>"

definition mm_push :: "int \<Rightarrow> 'd::linorder \<Rightarrow> 'd minimax \<Rightarrow> 'd minimax" where
  "mm_push i v h =
     (if mm_k h = mm_n h \<and> v \<ge> mm_dis h ! 0 then h
      else
        let h1 = (if mm_k h = mm_n h
                  then let nv = (if mm_ids h ! 0 \<noteq> -1 then mm_nvalid h - 1 else mm_nvalid h);
                           (dis', ids') = heap_pop2 CMax_cmp2 (mm_k h) (mm_dis h) (mm_ids h)
                       in h\<lparr> mm_nvalid := nv, mm_k := mm_k h - 1, mm_dis := dis', mm_ids := ids' \<rparr>
                  else h);
            (dis', ids') = heap_push2 CMax_cmp2 (mm_k h1 + 1) (mm_dis h1) (mm_ids h1) v i
        in h1\<lparr> mm_k := mm_k h1 + 1, mm_dis := dis', mm_ids := ids', mm_nvalid := mm_nvalid h1 + 1 \<rparr>)"

definition mm_max :: "'d minimax \<Rightarrow> 'd" where "mm_max h = mm_dis h ! 0"

definition mm_size :: "'d minimax \<Rightarrow> int" where "mm_size h = mm_nvalid h"

definition mm_clear :: "'d minimax \<Rightarrow> 'd minimax" where
  "mm_clear h = h\<lparr> mm_nvalid := 0, mm_k := 0 \<rparr>"

definition mm_count_below :: "'d::linorder \<Rightarrow> 'd minimax \<Rightarrow> nat" where
  "mm_count_below thresh h =
     fold (\<lambda>i n. if mm_dis h ! i < thresh then n + 1 else n) [0..<mm_k h] 0"

section \<open>Taking the minimum\<close>

text \<open>Scalar version: the last valid position, then the scan downwards.\<close>

fun pm_first :: "int list \<Rightarrow> nat \<Rightarrow> nat option" where
  "pm_first ids 0 = None"
| "pm_first ids (Suc i) = (if ids ! i \<noteq> -1 then Some i else pm_first ids i)"

fun pm_scan :: "int list \<Rightarrow> 'd::linorder list \<Rightarrow> nat \<Rightarrow> nat \<Rightarrow> 'd \<Rightarrow> nat \<times> 'd" where
  "pm_scan ids dis 0 imin vmin = (imin, vmin)"
| "pm_scan ids dis (Suc i) imin vmin =
     (if ids ! i \<noteq> -1 \<and> dis ! i < vmin then pm_scan ids dis i i (dis ! i)
      else pm_scan ids dis i imin vmin)"

text \<open>The common end: the id (-1 when there is none), the distance written to \<open>vmin_out\<close>, the heap.\<close>

definition pm_take :: "int \<Rightarrow> 'd \<Rightarrow> 'd minimax \<Rightarrow> (int \<times> 'd option) \<times> 'd minimax" where
  "pm_take imin vmin h =
     (if imin = -1 then ((-1, None), h)
      else ((mm_ids h ! nat imin, Some vmin),
            h\<lparr> mm_ids := (mm_ids h)[nat imin := -1], mm_nvalid := mm_nvalid h - 1 \<rparr>))"

definition mm_pop_min :: "'d::linorder minimax \<Rightarrow> (int \<times> 'd option) \<times> 'd minimax" where
  "mm_pop_min h =
     (case pm_first (mm_ids h) (mm_k h) of
        None \<Rightarrow> ((-1, None), h)
      | Some i \<Rightarrow>
          (let (imin, vmin) = pm_scan (mm_ids h) (mm_dis h) i i (mm_dis h ! i)
           in pm_take (int imin) vmin h))"

text \<open>AVX2: eight lanes, each a pair of the best position (-1 at the start) and its distance;
  \<open>infty\<close> is the infinity of the type.\<close>

definition lane_step :: "int list \<Rightarrow> 'd::linorder list \<Rightarrow> nat \<Rightarrow> int \<times> 'd \<Rightarrow> int \<times> 'd" where
  "lane_step ids dis p st = (if 0 > ids ! p \<or> snd st < dis ! p then st else (int p, dis ! p))"

definition block_step :: "nat \<Rightarrow> int list \<Rightarrow> 'd::linorder list \<Rightarrow> nat \<Rightarrow> (int \<times> 'd) list \<Rightarrow> (int \<times> 'd) list" where
  "block_step w ids dis iii lanes = map (\<lambda>l. lane_step ids dis (iii + l) (lanes ! l)) [0..<w]"

definition pm_better :: "int \<times> 'd::linorder \<Rightarrow> int \<times> 'd \<Rightarrow> int \<times> 'd" where
  "pm_better lane st =
     (if snd st > snd lane \<or> snd st = snd lane \<and> fst st < fst lane then lane else st)"

definition mm_pop_min_avx2 :: "'d::linorder \<Rightarrow> 'd minimax \<Rightarrow> (int \<times> 'd option) \<times> 'd minimax" where
  "mm_pop_min_avx2 infty h =
     (let k = mm_k h; k8 = (k div 8) * 8; ids = mm_ids h; dis = mm_dis h;
          lanes = fold (\<lambda>b lanes. block_step 8 ids dis (8 * b) lanes) [0..<k div 8] (replicate 8 (-1, infty));
          st = fold pm_better lanes (-1, infty);
          st' = fold (\<lambda>i st. if ids ! i \<noteq> -1 \<and> dis ! i \<le> snd st then (int i, dis ! i) else st) [k8..<k] st
      in pm_take (fst st') (snd st') h)"

text \<open>AVX-512: sixteen lanes; the masked tail loads -1 as id beyond \<open>k\<close>; the minimum over the lanes,
  then the largest position among the lanes that hold it.\<close>

definition tail_step :: "nat \<Rightarrow> int list \<Rightarrow> 'd::linorder list \<Rightarrow> nat \<Rightarrow> nat \<Rightarrow> (int \<times> 'd) list \<Rightarrow> (int \<times> 'd) list" where
  "tail_step w ids dis k16 k lanes =
     map (\<lambda>l. if k16 + l < k then lane_step ids dis (k16 + l) (lanes ! l) else lanes ! l) [0..<w]"

definition mm_pop_min_avx512 :: "'d::linorder \<Rightarrow> 'd minimax \<Rightarrow> (int \<times> 'd option) \<times> 'd minimax" where
  "mm_pop_min_avx512 infty h =
     (let k = mm_k h; k16 = (k div 16) * 16; ids = mm_ids h; dis = mm_dis h;
          lanes = fold (\<lambda>b lanes. block_step 16 ids dis (16 * b) lanes) [0..<k div 16] (replicate 16 (-1, infty));
          lanes' = (if k16 \<noteq> k then tail_step 16 ids dis k16 k lanes else lanes);
          min_dis = Min (set (map snd lanes'));
          min_idx = Max (set (map fst (filter (\<lambda>l. snd l = min_dis) lanes')))
      in pm_take min_idx min_dis h)"

section \<open>What pop_min looks for\<close>

text \<open>\<open>st\<close> is the rightmost position of minimal distance among the valid positions of \<open>S\<close>, or
  (-1, \<open>infty\<close>) when there is none.\<close>

definition valid_in :: "int list \<Rightarrow> nat set \<Rightarrow> nat set" where
  "valid_in ids S = {i \<in> S. ids ! i \<noteq> -1}"

definition rmin :: "'d::linorder \<Rightarrow> int list \<Rightarrow> 'd list \<Rightarrow> nat set \<Rightarrow> int \<times> 'd \<Rightarrow> bool" where
  "rmin infty ids dis S st \<longleftrightarrow>
     (valid_in ids S = {} \<and> st = (-1, infty)) \<or>
     (\<exists>i \<in> valid_in ids S. st = (int i, dis ! i) \<and>
        (\<forall>j \<in> valid_in ids S. dis ! i < dis ! j \<or> dis ! i = dis ! j \<and> j \<le> i))"

lemma rmin_unique: "rmin infty ids dis S a \<Longrightarrow> rmin infty ids dis S b \<Longrightarrow> a = b"
  unfolding rmin_def by (metis empty_iff le_antisym order.asym)

lemma valid_in_Un: "valid_in ids (S \<union> T) = valid_in ids S \<union> valid_in ids T"
  by (auto simp: valid_in_def)

lemma valid_in_insert: "valid_in ids (insert p S) = (if ids ! p \<noteq> -1 then insert p (valid_in ids S) else valid_in ids S)"
  by (auto simp: valid_in_def)

lemma rmin_empty: "rmin infty ids dis {} (-1, infty)"
  by (simp add: rmin_def valid_in_def)

lemma rmin_insert:
  assumes "rmin infty ids dis S st" "\<forall>j \<in> S. j < p" "\<forall>d. d \<le> infty"
  shows "rmin infty ids dis (insert p S) (if ids ! p \<noteq> -1 \<and> dis ! p \<le> snd st then (int p, dis ! p) else st)"
proof (cases "valid_in ids S = {}")
  case True
  with assms(1) have "st = (-1, infty)" by (auto simp: rmin_def)
  with True assms(3) show ?thesis by (auto simp: rmin_def valid_in_insert)
next
  case False
  with assms(1) obtain i where i: "i \<in> valid_in ids S" "st = (int i, dis ! i)"
    "\<forall>j \<in> valid_in ids S. dis ! i < dis ! j \<or> dis ! i = dis ! j \<and> j \<le> i" by (auto simp: rmin_def)
  have lt: "j < p" if "j \<in> valid_in ids S" for j using that assms(2) by (auto simp: valid_in_def)
  show ?thesis
  proof (cases "ids ! p \<noteq> -1 \<and> dis ! p \<le> dis ! i")
    case True
    then have "\<forall>j \<in> insert p (valid_in ids S). dis ! p < dis ! j \<or> dis ! p = dis ! j \<and> j \<le> p"
      using i(3) lt by (force dest: order.strict_implies_order)
    with True i(2) show ?thesis by (auto simp: rmin_def valid_in_insert)
  next
    case False
    with i show ?thesis by (auto simp: rmin_def valid_in_insert)
  qed
qed

lemma rmin_Un:
  assumes "rmin infty ids dis S a" "rmin infty ids dis T b" "\<forall>d. d \<le> infty"
  shows "rmin infty ids dis (S \<union> T) (pm_better a b)"
proof (cases "valid_in ids S = {} \<or> valid_in ids T = {}")
  case True
  have top: "\<not> infty < d" "infty \<le> d \<longleftrightarrow> d = infty" for d
    using assms(3) by (auto simp: not_less intro: antisym)
  from True show ?thesis using assms(1,2)
    by (auto simp: rmin_def pm_better_def valid_in_Un top not_less)
next
  case False
  then obtain i j where i: "i \<in> valid_in ids S" "a = (int i, dis ! i)"
    "\<forall>x \<in> valid_in ids S. dis ! i < dis ! x \<or> dis ! i = dis ! x \<and> x \<le> i"
    and j: "j \<in> valid_in ids T" "b = (int j, dis ! j)"
    "\<forall>x \<in> valid_in ids T. dis ! j < dis ! x \<or> dis ! j = dis ! x \<and> x \<le> j"
    using assms(1,2) by (auto simp: rmin_def)
  show ?thesis
  proof (cases "dis ! j > dis ! i \<or> dis ! j = dis ! i \<and> j < i")
    case True
    then have "\<forall>x \<in> valid_in ids T. dis ! i < dis ! x \<or> dis ! i = dis ! x \<and> x \<le> i"
    proof (intro ballI)
      fix x assume "x \<in> valid_in ids T"
      with j(3) have "dis ! j < dis ! x \<or> dis ! j = dis ! x \<and> x \<le> j" by blast
      with True show "dis ! i < dis ! x \<or> dis ! i = dis ! x \<and> x \<le> i" by auto
    qed
    with True i j show ?thesis by (auto simp: rmin_def pm_better_def valid_in_Un)
  next
    case False
    then have "\<forall>x \<in> valid_in ids S. dis ! j < dis ! x \<or> dis ! j = dis ! x \<and> x \<le> j"
    proof (intro ballI)
      fix x assume "x \<in> valid_in ids S"
      with i(3) have "dis ! i < dis ! x \<or> dis ! i = dis ! x \<and> x \<le> i" by blast
      with False show "dis ! j < dis ! x \<or> dis ! j = dis ! x \<and> x \<le> j" by auto
    qed
    with False i j show ?thesis by (auto simp: rmin_def pm_better_def valid_in_Un)
  qed
qed


lemma rmin_insert_low:
  assumes "rmin infty ids dis S (int imin, vmin)" "\<forall>j \<in> S. p < j"
  shows "rmin infty ids dis (insert p S)
    (if ids ! p \<noteq> -1 \<and> dis ! p < vmin then (int p, dis ! p) else (int imin, vmin))"
proof -
  from assms(1) obtain i where i: "i \<in> valid_in ids S" "imin = i" "vmin = dis ! i"
    "\<forall>j \<in> valid_in ids S. dis ! i < dis ! j \<or> dis ! i = dis ! j \<and> j \<le> i" by (auto simp: rmin_def)
  have lt: "p < i" using assms(2) i(1) by (auto simp: valid_in_def)
  show ?thesis
  proof (cases "ids ! p \<noteq> -1 \<and> dis ! p < dis ! i")
    case True
    then have "\<forall>j \<in> insert p (valid_in ids S). dis ! p < dis ! j \<or> dis ! p = dis ! j \<and> j \<le> p"
      using i(4) by (metis insertE order_less_trans order_refl)
    with True i(3) show ?thesis by (auto simp: rmin_def valid_in_insert)
  next
    case False
    then have "\<forall>j \<in> valid_in ids (insert p S). dis ! i < dis ! j \<or> dis ! i = dis ! j \<and> j \<le> i"
      using i(4) lt by (auto simp: valid_in_insert not_less)
    with False i(1-3) show ?thesis by (auto simp: rmin_def valid_in_insert)
  qed
qed

lemma pm_scan_rmin:
  "rmin infty ids dis {i..<k} (int imin, vmin) \<Longrightarrow> i \<le> k \<Longrightarrow>
    rmin infty ids dis {..<k} (map_prod int (\<lambda>d. d) (pm_scan ids dis i imin vmin))"
proof (induction ids dis i imin vmin rule: pm_scan.induct)
  case (1 ids dis imin vmin)
  then show ?case by (simp add: lessThan_atLeast0)
next
  case (2 ids dis i imin vmin)
  have ins: "insert i {Suc i..<k} = {i..<k}" using 2(4) by auto
  from rmin_insert_low[OF 2(3), of i] ins
  have "rmin infty ids dis {i..<k} (if ids ! i \<noteq> -1 \<and> dis ! i < vmin then (int i, dis ! i) else (int imin, vmin))"
    by simp
  with 2 show ?case by (auto split: if_splits)
qed

lemma pm_first_rmin:
  "k \<le> m \<Longrightarrow> valid_in ids {k..<m} = {} \<Longrightarrow>
    (case pm_first ids k of None \<Rightarrow> valid_in ids {..<m} = {}
      | Some i \<Rightarrow> i < m \<and> rmin infty ids dis {i..<m} (int i, dis ! i))"
proof (induction k)
  case 0
  then show ?case by (simp add: lessThan_atLeast0)
next
  case (Suc k)
  have ins: "{k..<m} = insert k {Suc k..<m}" using Suc.prems(1) by auto
  show ?case
  proof (cases "ids ! k \<noteq> -1")
    case True
    with Suc.prems show ?thesis by (auto simp: rmin_def ins valid_in_insert)
  next
    case False
    with Suc show ?thesis by (auto simp: ins valid_in_insert)
  qed
qed

text \<open>The scalar version.\<close>

lemma pop_min_rmin:
  "\<exists>st. rmin infty (mm_ids h) (mm_dis h) {..<mm_k h} st \<and> mm_pop_min h = pm_take (fst st) (snd st) h"
proof (cases "pm_first (mm_ids h) (mm_k h)")
  case None
  with pm_first_rmin[of "mm_k h" "mm_k h" "mm_ids h" infty "mm_dis h"]
  show ?thesis by (intro exI[of _ "(-1, infty)"]) (auto simp: valid_in_def rmin_def mm_pop_min_def pm_take_def)
next
  case (Some i)
  with pm_first_rmin[of "mm_k h" "mm_k h" "mm_ids h" infty "mm_dis h"]
  have "i \<le> mm_k h" "rmin infty (mm_ids h) (mm_dis h) {i..<mm_k h} (int i, mm_dis h ! i)"
    by (auto simp: valid_in_def)
  note rm = pm_scan_rmin[OF this(2,1)]
  show ?thesis
    by (rule exI, rule conjI, rule rm) (simp add: Some mm_pop_min_def case_prod_beta)
qed

section \<open>The vector versions\<close>

definition lane_set :: "nat \<Rightarrow> nat \<Rightarrow> nat \<Rightarrow> nat set" where
  "lane_set w l m = {i. i < m \<and> i mod w = l}"

lemma lane_step_rmin:
  assumes "rmin infty ids dis S st" "\<forall>j \<in> S. j < p" "\<forall>d. d \<le> infty" "-1 \<le> ids ! p"
  shows "rmin infty ids dis (insert p S) (lane_step ids dis p st)"
proof -
  have "lane_step ids dis p st = (if ids ! p \<noteq> -1 \<and> dis ! p \<le> snd st then (int p, dis ! p) else st)"
    using assms(4) by (auto simp: lane_step_def)
  with rmin_insert[OF assms(1-3)] show ?thesis by simp
qed

lemma lane_set_block: "l < w \<Longrightarrow> lane_set w l (w * Suc b) = insert (w * b + l) (lane_set w l (w * b))"
proof -
  assume l: "l < w"
  have "i = w * b + l" if "i mod w = l" "i < w * Suc b" "\<not> i < w * b" for i
  proof -
    have "i div w = b" using that l by (intro div_nat_eqI) (auto simp: algebra_simps)
    with that(1) show ?thesis using div_mult_mod_eq[of i w] by (simp add: mult.commute)
  qed
  with l show ?thesis by (auto simp: lane_set_def)
qed

lemma blocks_rmin:
  fixes dis :: "'d::linorder list"
  assumes "0 < w" "\<forall>d. d \<le> infty" "\<forall>i < w * nb. -1 \<le> ids ! i"
  defines "lanes \<equiv> fold (\<lambda>b lanes. block_step w ids dis (w * b) lanes) [0..<nb] (replicate w (-1, infty))"
  shows "length lanes = w \<and> (\<forall>l < w. rmin infty ids dis (lane_set w l (w * nb)) (lanes ! l))"
  unfolding lanes_def using assms(3)
proof (induction nb)
  case 0
  then show ?case by (simp add: lane_set_def rmin_empty)
next
  case (Suc nb)
  let ?f = "fold (\<lambda>b lanes. block_step w ids dis (w * b) lanes) [0..<nb] (replicate w (-1, infty))"
  have IH: "length ?f = w" "\<forall>l < w. rmin infty ids dis (lane_set w l (w * nb)) (?f ! l)" using Suc by auto
  have "rmin infty ids dis (lane_set w l (w * Suc nb)) (lane_step ids dis (w * nb + l) (?f ! l))" if l: "l < w" for l
    unfolding lane_set_block[OF l] using IH(2) l Suc.prems assms(2)
    by (intro lane_step_rmin) (auto simp: lane_set_def)
  then show ?case by (simp add: block_step_def)
qed

lemma fold_better_rmin:
  assumes "\<forall>l < length lanes. rmin infty ids dis (Sl l) (lanes ! l)" "rmin infty ids dis S0 st" "\<forall>d. d \<le> infty"
  shows "rmin infty ids dis (S0 \<union> (\<Union>l < length lanes. Sl l)) (fold pm_better lanes st)"
  using assms(1,2)
proof (induction lanes arbitrary: Sl S0 st)
  case (Cons a lanes)
  have "rmin infty ids dis (Sl 0) a" using Cons.prems(1) by auto
  from rmin_Un[OF this Cons.prems(2) assms(3)]
  have "rmin infty ids dis (S0 \<union> Sl 0) (pm_better a st)" by (simp add: Un_commute)
  moreover have "\<forall>l < length lanes. rmin infty ids dis (Sl (Suc l)) (lanes ! l)" using Cons.prems(1) by auto
  ultimately have "rmin infty ids dis (S0 \<union> Sl 0 \<union> (\<Union>l < length lanes. Sl (Suc l))) (fold pm_better lanes (pm_better a st))"
    by (intro Cons.IH)
  moreover have "S0 \<union> Sl 0 \<union> (\<Union>l < length lanes. Sl (Suc l)) = S0 \<union> (\<Union>l < length (a # lanes). Sl l)"
    by (auto simp: less_Suc_eq_0_disj)
  ultimately show ?case by simp
qed simp

lemma lanes_cover: "0 < w \<Longrightarrow> (\<Union>l < w. lane_set w l m) = {..<m}"
  by (auto simp: lane_set_def)

lemma tail_rmin:
  assumes "rmin infty ids dis {..<m} st" "m \<le> k" "\<forall>d. d \<le> infty"
  shows "rmin infty ids dis {..<k}
    (fold (\<lambda>i st. if ids ! i \<noteq> -1 \<and> dis ! i \<le> snd st then (int i, dis ! i) else st) [m..<k] st)"
  using assms(2)
proof (induction k)
  case 0
  with assms(1) show ?case by simp
next
  case (Suc k)
  show ?case
  proof (cases "m = Suc k")
    case True
    with assms(1) show ?thesis by simp
  next
    case False
    with Suc have "rmin infty ids dis (insert k {..<k})
      (let st = fold (\<lambda>i st. if ids ! i \<noteq> -1 \<and> dis ! i \<le> snd st then (int i, dis ! i) else st) [m..<k] st
       in if ids ! k \<noteq> -1 \<and> dis ! k \<le> snd st then (int k, dis ! k) else st)"
      unfolding Let_def by (intro rmin_insert[OF _ _ assms(3)]) auto
    with False Suc.prems show ?thesis by (simp add: lessThan_Suc Let_def)
  qed
qed

lemma pop_min_avx2_rmin:
  assumes "\<forall>d. d \<le> infty" "\<forall>i < mm_k h. -1 \<le> mm_ids h ! i"
  shows "\<exists>st. rmin infty (mm_ids h) (mm_dis h) {..<mm_k h} st \<and> mm_pop_min_avx2 infty h = pm_take (fst st) (snd st) h"
proof -
  let ?k = "mm_k h" and ?ids = "mm_ids h" and ?dis = "mm_dis h"
  let ?lanes = "fold (\<lambda>b lanes. block_step 8 ?ids ?dis (8 * b) lanes) [0..<?k div 8] (replicate 8 (-1, infty))"
  let ?st = "fold pm_better ?lanes (-1, infty)"
  have "\<forall>i < 8 * (?k div 8). -1 \<le> ?ids ! i" using assms(2) by auto
  note bl = blocks_rmin[OF _ assms(1) this, of ?dis]
  have "rmin infty ?ids ?dis ({} \<union> (\<Union>l < length ?lanes. lane_set 8 l (8 * (?k div 8)))) ?st"
    using bl by (intro fold_better_rmin[OF _ rmin_empty assms(1)]) auto
  then have "rmin infty ?ids ?dis {..<8 * (?k div 8)} ?st" using bl by (simp add: lanes_cover)
  from tail_rmin[OF this _ assms(1), of ?k] have
    "rmin infty ?ids ?dis {..<?k}
      (fold (\<lambda>i st. if ?ids ! i \<noteq> -1 \<and> ?dis ! i \<le> snd st then (int i, ?dis ! i) else st) [8 * (?k div 8)..<?k] ?st)"
    by simp
  then show ?thesis
    by (intro exI conjI, assumption) (simp add: mm_pop_min_avx2_def Let_def mult.commute[of _ 8])
qed


text \<open>The reduction over the lanes: the minimal distance, then the maximal position that has it.\<close>

lemma reduce_rmin:
  assumes "\<forall>l < length lanes. rmin infty ids dis (Sl l) (lanes ! l)" "lanes \<noteq> []" "\<forall>d. d \<le> infty"
  defines "m \<equiv> Min (set (map snd lanes))"
  shows "rmin infty ids dis (\<Union>l < length lanes. Sl l) (Max (set (map fst (filter (\<lambda>l. snd l = m) lanes))), m)"
proof -
  let ?U = "\<Union>l < length lanes. Sl l" and ?F = "filter (\<lambda>l. snd l = m) lanes"
  let ?M = "Max (set (map fst ?F))"
  have "m \<in> set (map snd lanes)" unfolding m_def using assms(2) by (intro Min_in) auto
  then obtain a where "a \<in> set lanes" "snd a = m" by auto
  then have "fst a \<in> set (map fst ?F)" by auto
  then have "set (map fst ?F) \<noteq> {}" by (metis empty_iff)
  then have "?M \<in> set (map fst ?F)" by (rule Max_in[OF List.finite_set])
  then obtain q where "q \<in> set ?F" "fst q = ?M" by auto
  then have "q \<in> set lanes" "q = (?M, m)" by (auto simp: prod_eq_iff)
  then obtain l0 where l0: "l0 < length lanes" "lanes ! l0 = (?M, m)"
    by (auto simp: in_set_conv_nth)
  have best: "m < snd (lanes ! l) \<or> m = snd (lanes ! l) \<and> fst (lanes ! l) \<le> ?M" if "l < length lanes" for l
  proof -
    have le: "m \<le> snd (lanes ! l)" unfolding m_def using that by (intro Min_le) auto
    show ?thesis
    proof (cases "snd (lanes ! l) = m")
      case True
      then have "fst (lanes ! l) \<in> set (map fst ?F)" using that by (auto simp: image_iff)
      then have "fst (lanes ! l) \<le> ?M" by (intro Max_ge) auto
      with True show ?thesis by simp
    qed (use le in auto)
  qed
  have U: "x \<in> valid_in ids ?U \<longleftrightarrow> (\<exists>l < length lanes. x \<in> valid_in ids (Sl l))" for x
    by (auto simp: valid_in_def)
  have r0: "rmin infty ids dis (Sl l0) (?M, m)" using assms(1) l0 by metis
  show ?thesis
  proof (cases "valid_in ids (Sl l0) = {}")
    case True
    with r0 have M: "?M = -1" "m = infty" by (auto simp: rmin_def)
    have "valid_in ids (Sl l) = {}" if "l < length lanes" for l
    proof (rule ccontr)
      assume "valid_in ids (Sl l) \<noteq> {}"
      with assms(1) that obtain i where "lanes ! l = (int i, dis ! i)" by (auto simp: rmin_def)
      with best[OF that] M assms(3) show False by (auto simp: not_less[symmetric])
    qed
    then show ?thesis using M by (simp add: rmin_def) (auto simp: valid_in_def)
  next
    case False
    with r0 obtain i where i: "i \<in> valid_in ids (Sl l0)" "?M = int i" "m = dis ! i" by (auto simp: rmin_def)
    have "dis ! i < dis ! j \<or> dis ! i = dis ! j \<and> j \<le> i" if j: "j \<in> valid_in ids ?U" for j
    proof -
      from j obtain l where l: "l < length lanes" "j \<in> valid_in ids (Sl l)" unfolding U by blast
      with assms(1) obtain i' where "lanes ! l = (int i', dis ! i')"
        "dis ! i' < dis ! j \<or> dis ! i' = dis ! j \<and> j \<le> i'" by (fastforce simp: rmin_def)
      with best[OF l(1)] i show ?thesis by auto
    qed
    with i l0(1) show ?thesis by (auto simp: rmin_def U)
  qed
qed


lemma lane_set_tail:
  assumes "l < w" "k < m + w" "m \<le> k" "w dvd m"
  shows "lane_set w l k = (if m + l < k then insert (m + l) (lane_set w l m) else lane_set w l m)"
proof -
  have "x = m + l" if x: "x < k" "m \<le> x" "x mod w = l" for x
  proof -
    obtain r where r: "x = m + r" using x(2) le_Suc_ex by blast
    with x(1) assms(2) have "r < w" by simp
    with x(3) assms(4) r show ?thesis by (auto elim!: dvdE)
  qed
  note last = this
  have ml: "(m + l) mod w = l" using assms(1,4) by (auto elim!: dvdE)
  have "x \<in> lane_set w l k \<longleftrightarrow> x < m \<and> x mod w = l \<or> m + l < k \<and> x = m + l" for x
  proof (cases "x < m")
    case True
    with assms(3) show ?thesis by (simp add: lane_set_def)
  next
    case False
    with last[of x] ml show ?thesis by (auto simp: lane_set_def)
  qed
  then show ?thesis by (auto simp: lane_set_def)
qed

lemma pop_min_avx512_rmin:
  assumes "\<forall>d. d \<le> infty" "\<forall>i < mm_k h. -1 \<le> mm_ids h ! i"
  shows "\<exists>st. rmin infty (mm_ids h) (mm_dis h) {..<mm_k h} st \<and> mm_pop_min_avx512 infty h = pm_take (fst st) (snd st) h"
proof -
  let ?k = "mm_k h" and ?ids = "mm_ids h" and ?dis = "mm_dis h"
  let ?k16 = "16 * (?k div 16)"
  let ?lanes = "fold (\<lambda>b lanes. block_step 16 ?ids ?dis (16 * b) lanes) [0..<?k div 16] (replicate 16 (-1, infty))"
  let ?lanes' = "if ?k16 \<noteq> ?k then tail_step 16 ?ids ?dis ?k16 ?k ?lanes else ?lanes"
  have "\<forall>i < ?k16. -1 \<le> ?ids ! i" using assms(2) by auto
  note bl = blocks_rmin[OF _ assms(1) this, of ?dis]
  have len: "length ?lanes' = 16" using bl by (simp add: tail_step_def)
  have lane: "rmin infty ?ids ?dis (lane_set 16 l ?k) (?lanes' ! l)" if l: "l < 16" for l
  proof -
    have old: "rmin infty ?ids ?dis (lane_set 16 l ?k16) (?lanes ! l)" using bl l by simp
    have tail: "lane_set 16 l ?k = (if ?k16 + l < ?k then insert (?k16 + l) (lane_set 16 l ?k16) else lane_set 16 l ?k16)"
      by (rule lane_set_tail[OF l]) (use div_mult_mod_eq[of ?k 16] mod_less_divisor[of 16 ?k] in linarith, simp, simp)
    show ?thesis
    proof (cases "?k16 + l < ?k")
      case True
      then have ne: "?k16 \<noteq> ?k" by linarith
      have "rmin infty ?ids ?dis (insert (?k16 + l) (lane_set 16 l ?k16)) (lane_step ?ids ?dis (?k16 + l) (?lanes ! l))"
        using True assms(2) by (intro lane_step_rmin[OF old _ assms(1)]) (auto simp: lane_set_def)
      then show ?thesis using True ne l unfolding tail by (simp add: tail_step_def)
    next
      case False
      then show ?thesis using l old unfolding tail by (cases "?k16 = ?k") (simp_all add: tail_step_def)
    qed
  qed
  have "rmin infty ?ids ?dis (\<Union>l < length ?lanes'. lane_set 16 l ?k)
    (Max (set (map fst (filter (\<lambda>l. snd l = Min (set (map snd ?lanes'))) ?lanes'))), Min (set (map snd ?lanes')))"
    using lane len by (intro reduce_rmin[OF _ _ assms(1)]) auto
  then have "rmin infty ?ids ?dis {..<?k}
    (Max (set (map fst (filter (\<lambda>l. snd l = Min (set (map snd ?lanes'))) ?lanes'))), Min (set (map snd ?lanes')))"
    by (simp only: len lanes_cover[of 16])
  then show ?thesis
    by (intro exI conjI, assumption) (simp add: mm_pop_min_avx512_def Let_def mult.commute[of _ 16])
qed

text \<open>C12. The AVX2 and AVX-512 versions of \<open>pop_min\<close> compute what the scalar version computes: the
  same id, the same distance and the same heap, for ids from -1 on and any type of distances with a
  greatest element.\<close>

theorem pop_min_versions_agree:
  assumes "\<forall>d. d \<le> infty" "\<forall>i < mm_k h. -1 \<le> mm_ids h ! i"
  shows "mm_pop_min_avx2 infty h = mm_pop_min h \<and> mm_pop_min_avx512 infty h = mm_pop_min h"
  using pop_min_rmin[of infty h] pop_min_avx2_rmin[OF assms] pop_min_avx512_rmin[OF assms]
  by (metis rmin_unique)

definition demo_heap :: "bool minimax" where
  "demo_heap = \<lparr> mm_n = 4, mm_k = 3, mm_nvalid = 2, mm_ids = [7, -1, 5, 0], mm_dis = [True, True, False, False] \<rparr>"

theorem pop_min_versions_agree_witness:
  "mm_pop_min_avx2 True demo_heap = mm_pop_min demo_heap \<and> fst (mm_pop_min demo_heap) = (5, Some False)"
  using pop_min_versions_agree[of True demo_heap]
  by (simp add: demo_heap_def All_less_Suc numeral_3_eq_3)
    (simp add: mm_pop_min_def pm_take_def)


section \<open>The heap as a bounded priority queue\<close>

interpretation mmh: heap_order "CMax_cmp2 :: 'd::linorder \<times> int \<Rightarrow> _" "\<lambda>p q. fst q < fst p"
  by unfold_locales (auto simp: CMax_cmp2_def)

definition mm_stored :: "'d minimax \<Rightarrow> ('d \<times> int) list" where
  "mm_stored h = take (mm_k h) (zip (mm_dis h) (mm_ids h))"

text \<open>The entries that have not been taken.\<close>

definition mm_elems :: "'d minimax \<Rightarrow> ('d \<times> int) multiset" where
  "mm_elems h = filter_mset (\<lambda>p. snd p \<noteq> -1) (mset (mm_stored h))"

definition mm_inv :: "'d::linorder minimax \<Rightarrow> bool" where
  "mm_inv h \<longleftrightarrow>
     length (mm_ids h) = mm_n h \<and> length (mm_dis h) = mm_n h \<and> mm_k h \<le> mm_n h \<and>
     is_heap (\<lambda>p q. fst q < fst p) (mm_k h) (zip (mm_dis h) (mm_ids h)) \<and>
     mm_nvalid h = int (size (mm_elems h))"

lemma mm_inv_new: "mm_inv (MinimaxHeap n)"
  by (simp add: mm_inv_def MinimaxHeap_def is_heap_def mm_elems_def mm_stored_def)

lemma mm_inv_clear: "mm_inv h \<Longrightarrow> mm_inv (mm_clear h)"
  by (simp add: mm_inv_def mm_clear_def is_heap_def mm_elems_def mm_stored_def)

lemma mm_top_max:
  assumes "mm_inv h" "p \<in> set (mm_stored h)"
  shows "fst p \<le> mm_max h"
proof -
  from assms obtain i where i: "i < mm_k h" "p = zip (mm_dis h) (mm_ids h) ! i"
    by (auto simp: mm_stored_def in_set_conv_nth)
  have "is_heap (\<lambda>p q. fst q < fst p) (mm_k h) (zip (mm_dis h) (mm_ids h))" using assms(1) by (simp add: mm_inv_def)
  from mmh.is_heap_root[OF this, of "i + 1"] i assms(1) show ?thesis
    by (simp add: at1_def mm_max_def mm_inv_def not_less)
qed

text \<open>Pushing into a heap with room.\<close>

lemma mm_push_room:
  fixes v :: "'d::linorder"
  assumes "mm_inv h" "mm_k h < mm_n h" "i \<noteq> -1"
  defines "h' \<equiv> mm_push i v h"
  shows "mm_inv h'" "mset (mm_stored h') = add_mset (v, i) (mset (mm_stored h))"
    "mm_k h' = mm_k h + 1" "mm_n h' = mm_n h"
proof -
  obtain dis' ids' where p: "heap_push2 CMax_cmp2 (mm_k h + 1) (mm_dis h) (mm_ids h) v i = (dis', ids')" by fastforce
  have h': "h' = h\<lparr> mm_k := mm_k h + 1, mm_dis := dis', mm_ids := ids', mm_nvalid := mm_nvalid h + 1 \<rparr>"
    using assms(2) p by (simp add: h'_def mm_push_def)
  have len: "1 \<le> mm_k h + 1" "mm_k h + 1 \<le> length (mm_dis h)" "length (mm_dis h) = length (mm_ids h)"
    using assms(1,2) by (simp_all add: mm_inv_def)
  have z: "zip dis' ids' = heap_push CMax_cmp2 (mm_k h + 1) (zip (mm_dis h) (mm_ids h)) (v, i)"
    using heap2_zip(2)[OF len, of CMax_cmp2 v i] p by simp
  have lens: "length dis' = mm_n h" "length ids' = mm_n h"
    using length_heap2(3,4)[OF len, of CMax_cmp2 v i] p assms(1) by (simp_all add: mm_inv_def)
  have hp: "is_heap (\<lambda>p q. fst q < fst p) (mm_k h + 1 - 1) (zip (mm_dis h) (mm_ids h))"
    "mm_k h + 1 \<le> length (zip (mm_dis h) (mm_ids h))"
    using assms(1,2) by (simp_all add: mm_inv_def)
  note push = mmh.heap_push_ok[OF hp(1) len(1) hp(2), of "(v, i)"]
  show st: "mset (mm_stored h') = add_mset (v, i) (mset (mm_stored h))"
    using push(3) z by (simp add: h' mm_stored_def)
  show "mm_inv h'"
    using assms(1,2,3) lens push(1) st
    by (simp add: mm_inv_def mm_elems_def) (simp add: h' z)
  show "mm_k h' = mm_k h + 1" "mm_n h' = mm_n h" by (simp_all add: h')
qed


text \<open>Popping the top before a push into a full heap.\<close>

definition mm_drop_top :: "'d::linorder minimax \<Rightarrow> 'd minimax" where
  "mm_drop_top h =
     (let nv = (if mm_ids h ! 0 \<noteq> -1 then mm_nvalid h - 1 else mm_nvalid h);
          (dis', ids') = heap_pop2 CMax_cmp2 (mm_k h) (mm_dis h) (mm_ids h)
      in h\<lparr> mm_nvalid := nv, mm_k := mm_k h - 1, mm_dis := dis', mm_ids := ids' \<rparr>)"

lemma mm_drop_top_ok:
  assumes "mm_inv h" "0 < mm_k h"
  shows "mm_inv (mm_drop_top h)" "mset (mm_stored (mm_drop_top h)) = mset (mm_stored h) - {#mm_stored h ! 0#}"
    "mm_k (mm_drop_top h) = mm_k h - 1" "mm_n (mm_drop_top h) = mm_n h"
proof -
  obtain dis' ids' where p: "heap_pop2 CMax_cmp2 (mm_k h) (mm_dis h) (mm_ids h) = (dis', ids')" by fastforce
  have h': "mm_drop_top h = h\<lparr> mm_nvalid := (if mm_ids h ! 0 \<noteq> -1 then mm_nvalid h - 1 else mm_nvalid h),
      mm_k := mm_k h - 1, mm_dis := dis', mm_ids := ids' \<rparr>"
    using p by (simp add: mm_drop_top_def Let_def)
  have len: "1 \<le> mm_k h" "mm_k h \<le> length (mm_dis h)" "length (mm_dis h) = length (mm_ids h)"
    using assms by (simp_all add: mm_inv_def)
  have z: "zip dis' ids' = heap_pop CMax_cmp2 (mm_k h) (zip (mm_dis h) (mm_ids h))"
    using heap2_zip(1)[OF len, of CMax_cmp2] p by simp
  have lens: "length dis' = mm_n h" "length ids' = mm_n h"
    using length_heap2(1,2)[OF len, of CMax_cmp2] p assms(1) by (simp_all add: mm_inv_def)
  have hp: "is_heap (\<lambda>p q. fst q < fst p) (mm_k h) (zip (mm_dis h) (mm_ids h))"
    using assms(1) by (simp add: mm_inv_def)
  note pop = mmh.heap_pop_ok[OF hp len(1)]
  have top: "mm_stored h ! 0 = zip (mm_dis h) (mm_ids h) ! 0" "mm_stored h ! 0 \<in># mset (mm_stored h)"
    using assms by (auto simp: mm_stored_def mm_inv_def in_set_conv_nth intro!: exI[of _ 0])
  have top_id: "snd (mm_stored h ! 0) = mm_ids h ! 0" unfolding top(1) using len assms(2) by (subst nth_zip) auto
  show st: "mset (mm_stored (mm_drop_top h)) = mset (mm_stored h) - {#mm_stored h ! 0#}"
    using pop(3) z top(1) by (simp add: h' mm_stored_def)
  have nv: "mm_nvalid (mm_drop_top h) = int (size (mm_elems (mm_drop_top h)))"
  proof (cases "mm_ids h ! 0 = -1")
    case True
    then have "mm_elems (mm_drop_top h) = mm_elems h"
      unfolding mm_elems_def st by (simp add: top_id)
    with True assms(1) show ?thesis by (simp add: h' mm_inv_def)
  next
    case False
    then have "mm_elems h = add_mset (mm_stored h ! 0) (mm_elems (mm_drop_top h))"
      using top(2) top_id unfolding mm_elems_def st by simp
    then have "int (size (mm_elems h)) = int (size (mm_elems (mm_drop_top h))) + 1" by simp
    with False assms(1) show ?thesis by (simp add: h' mm_inv_def)
  qed
  have "mm_k h - Suc 0 \<le> mm_n h" using assms(1) by (auto simp: mm_inv_def)
  then show "mm_inv (mm_drop_top h)"
    using assms(1) lens pop(1) nv by (simp add: mm_inv_def) (simp add: h' z)
  show "mm_k (mm_drop_top h) = mm_k h - 1" "mm_n (mm_drop_top h) = mm_n h" by (simp_all add: h')
qed


lemma mm_push_full:
  assumes "mm_inv h" "mm_k h = mm_n h" "0 < mm_n h" "v < mm_max h" "i \<noteq> -1"
  shows "mm_inv (mm_push i v h)"
    "mset (mm_stored (mm_push i v h)) = add_mset (v, i) (mset (mm_stored h) - {#mm_stored h ! 0#})"
proof -
  have eq: "mm_push i v h = mm_push i v (mm_drop_top h)"
  proof -
    have "mm_k (mm_drop_top h) \<noteq> mm_n (mm_drop_top h)"
      using mm_drop_top_ok(3,4)[OF assms(1)] assms(2,3) by simp
    then show ?thesis using assms(2,4)
      by (simp add: mm_push_def mm_drop_top_def mm_max_def Let_def case_prod_beta)
  qed
  note d = mm_drop_top_ok[OF assms(1)]
  have "mm_k (mm_drop_top h) < mm_n (mm_drop_top h)" using d(3,4) assms(2,3) by simp
  note p = mm_push_room[OF d(1) this assms(5), of v]
  show "mm_inv (mm_push i v h)" using p(1) assms(2,3) eq by simp
  show "mset (mm_stored (mm_push i v h)) = add_mset (v, i) (mset (mm_stored h) - {#mm_stored h ! 0#})"
    using p(2) d(2) assms(2,3) eq by simp
qed

lemma mm_stored_map:
  "mm_inv h \<Longrightarrow> mm_stored h = map (\<lambda>i. (mm_dis h ! i, mm_ids h ! i)) [0..<mm_k h]"
  by (rule nth_equalityI) (auto simp: mm_stored_def mm_inv_def)

lemma is_heap_value_cong:
  assumes "is_heap (\<lambda>p q. fst q < fst p) k xs" "map fst xs = map fst ys"
  shows "is_heap (\<lambda>p q. fst q < fst p) k ys"
proof -
  have l: "length xs = length ys" using arg_cong[OF assms(2), of length] by simp
  have "fst (at1 ys j) = fst (at1 xs j)" if "1 \<le> j" "j \<le> length xs" for j
    using that l arg_cong[OF assms(2), of "\<lambda>l. l ! (j - 1)"] by (simp add: at1_def)
  moreover have "1 \<le> j div 2 \<and> j div 2 \<le> length xs" if "2 \<le> j" "j \<le> length xs" for j using that by auto
  ultimately show ?thesis using assms(1) l by (auto simp: is_heap_def)
qed

lemma mm_pop_min_none:
  assumes "mm_inv h" "mm_elems h = {#}"
  shows "mm_pop_min h = ((-1, None), h)"
proof -
  have "valid_in (mm_ids h) {..<mm_k h} = {}"
    using assms by (auto simp: mm_elems_def mm_stored_map filter_mset_eq_conv valid_in_def filter_empty_mset[symmetric])
  with pop_min_rmin[of _ h] show ?thesis by (auto simp: rmin_def pm_take_def)
qed

lemma mm_pop_min_some:
  assumes "mm_inv h" "mm_elems h \<noteq> {#}"
  obtains p where "p < mm_k h" "mm_ids h ! p \<noteq> -1" "\<forall>q \<in># mm_elems h. mm_dis h ! p \<le> fst q"
    "mm_pop_min h = ((mm_ids h ! p, Some (mm_dis h ! p)),
       h\<lparr> mm_ids := (mm_ids h)[p := -1], mm_nvalid := mm_nvalid h - 1 \<rparr>)"
proof -
  from assms(2) obtain q where "q \<in># mm_elems h" by auto
  then obtain j where "j < mm_k h" "mm_ids h ! j \<noteq> -1" using assms(1) by (auto simp: mm_elems_def mm_stored_map)
  then have "valid_in (mm_ids h) {..<mm_k h} \<noteq> {}" by (auto simp: valid_in_def)
  with pop_min_rmin[of undefined h] obtain p where
    p: "p \<in> valid_in (mm_ids h) {..<mm_k h}" "mm_pop_min h = pm_take (int p) (mm_dis h ! p) h"
    "\<forall>j \<in> valid_in (mm_ids h) {..<mm_k h}. mm_dis h ! p < mm_dis h ! j \<or> mm_dis h ! p = mm_dis h ! j \<and> j \<le> p"
    by (auto simp: rmin_def)
  show ?thesis
  proof (rule that[of p])
    show "\<forall>q \<in># mm_elems h. mm_dis h ! p \<le> fst q"
      using p(3) assms(1) by (fastforce simp: mm_elems_def mm_stored_map valid_in_def)
  qed (use p in \<open>auto simp: valid_in_def pm_take_def\<close>)
qed

lemma mm_pop_min_ok:
  assumes "mm_inv h" "mm_elems h \<noteq> {#}"
  shows "mm_inv (snd (mm_pop_min h)) \<and>
    (\<exists>j d. fst (mm_pop_min h) = (j, Some d) \<and> (d, j) \<in># mm_elems h \<and> (\<forall>q \<in># mm_elems h. d \<le> fst q) \<and>
      mm_elems (snd (mm_pop_min h)) = mm_elems h - {#(d, j)#})"
proof -
  from mm_pop_min_some[OF assms] obtain p where
    p: "p < mm_k h" "mm_ids h ! p \<noteq> -1" "\<forall>q \<in># mm_elems h. mm_dis h ! p \<le> fst q"
    and pop: "mm_pop_min h = ((mm_ids h ! p, Some (mm_dis h ! p)),
       h\<lparr> mm_ids := (mm_ids h)[p := -1], mm_nvalid := mm_nvalid h - 1 \<rparr>)" .
  let ?h = "h\<lparr> mm_ids := (mm_ids h)[p := -1], mm_nvalid := mm_nvalid h - 1 \<rparr>"
  let ?e = "(mm_dis h ! p, mm_ids h ! p)"
  have l: "length (mm_ids h) = mm_n h" "length (mm_dis h) = mm_n h" "mm_k h \<le> mm_n h"
    using assms(1) by (auto simp: mm_inv_def)
  have z: "zip (mm_dis h) ((mm_ids h)[p := -1]) = (zip (mm_dis h) (mm_ids h))[p := (mm_dis h ! p, -1)]"
    using update_zip[of "mm_dis h" "mm_ids h" p "(mm_dis h ! p, -1)"] by simp
  have st: "mm_stored ?h = (mm_stored h)[p := (mm_dis h ! p, -1)]"
    by (simp add: mm_stored_def z take_update_swap)
  have len: "length (mm_stored h) = mm_k h" "mm_stored h ! p = ?e"
    using l p(1) by (simp_all add: mm_stored_def)
  have mem: "?e \<in># mset (mm_stored h)" using len p(1) by (metis nth_mem set_mset_mset)
  have "mset (mm_stored ?h) = add_mset (mm_dis h ! p, -1) (mset (mm_stored h) - {#?e#})"
    unfolding st using len p(1) by (subst mset_update) simp_all
  then have el: "mm_elems ?h = mm_elems h - {#?e#}" by (simp add: mm_elems_def)
  have in_el: "?e \<in># mm_elems h" using mem p(2) by (simp add: mm_elems_def)
  then have "mm_elems h = add_mset ?e (mm_elems ?h)" unfolding el by simp
  then have "int (size (mm_elems h)) = int (size (mm_elems ?h)) + 1" by simp
  then have nv: "mm_nvalid h - 1 = int (size (mm_elems ?h))" using assms(1) by (simp add: mm_inv_def)
  have "is_heap (\<lambda>p q. fst q < fst p) (mm_k h) (zip (mm_dis h) ((mm_ids h)[p := -1]))"
    by (rule is_heap_value_cong[of _ "zip (mm_dis h) (mm_ids h)"]) (use assms(1) l in \<open>simp_all add: mm_inv_def\<close>)
  with l nv have "mm_inv ?h" by (simp add: mm_inv_def)
  with p(3) el in_el show ?thesis by (simp add: pop)
qed

lemma fold_count:
  fixes v :: "'d::linorder" and m :: nat
  shows "fold (\<lambda>i n. if f i < v then n + 1 else n) xs m = m + length (filter (\<lambda>i. f i < v) xs)"
  by (induction xs arbitrary: m) auto

lemma mm_count_below_filter:
  "mm_inv h \<Longrightarrow> mm_count_below v h = length (filter (\<lambda>p. fst p < v) (mm_stored h))"
  unfolding mm_count_below_def fold_count by (simp add: mm_stored_map filter_map comp_def)

text \<open>C11. The heap of candidates, for distances of any linear order. A push into a heap with room adds
  the pair; into a full one it does nothing when the distance is not below the maximum, and otherwise
  replaces an entry of maximal distance (taken or not). \<open>pop_min\<close> returns -1 exactly when no
  entry is left, else a remaining entry of minimal distance, which it removes. \<open>size\<close> is the number
  of remaining entries, \<open>count_below\<close> counts all stored distances, taken ones included.\<close>

theorem minimax_heap_correct:
  assumes "mm_inv h" "0 < mm_n h" "i \<noteq> -1"
  shows "mm_inv (mm_push i v h) \<and>
    (mm_k h < mm_n h \<longrightarrow> mset (mm_stored (mm_push i v h)) = add_mset (v, i) (mset (mm_stored h))) \<and>
    (mm_k h = mm_n h \<and> mm_max h \<le> v \<longrightarrow> mm_push i v h = h) \<and>
    (mm_k h = mm_n h \<and> v < mm_max h \<longrightarrow>
      (\<exists>p \<in> set (mm_stored h). (\<forall>q \<in> set (mm_stored h). fst q \<le> fst p) \<and>
        mset (mm_stored (mm_push i v h)) = add_mset (v, i) (mset (mm_stored h) - {#p#}))) \<and>
    mm_inv (snd (mm_pop_min h)) \<and>
    (mm_elems h = {#} \<longrightarrow> mm_pop_min h = ((-1, None), h)) \<and>
    (mm_elems h \<noteq> {#} \<longrightarrow>
      (\<exists>j d. fst (mm_pop_min h) = (j, Some d) \<and> (d, j) \<in># mm_elems h \<and> (\<forall>q \<in># mm_elems h. d \<le> fst q) \<and>
        mm_elems (snd (mm_pop_min h)) = mm_elems h - {#(d, j)#})) \<and>
    mm_size h = int (size (mm_elems h)) \<and>
    mm_count_below v h = length (filter (\<lambda>p. fst p < v) (mm_stored h))"
  proof -
  have top: "mm_stored h ! 0 \<in> set (mm_stored h) \<and> fst (mm_stored h ! 0) = mm_max h" if "mm_k h = mm_n h"
    using that assms(1,2) by (auto simp: mm_stored_def mm_inv_def mm_max_def in_set_conv_nth intro!: exI[of _ 0])
  have full: "mm_push i v h = h" if "mm_k h = mm_n h" "mm_max h \<le> v"
    using that by (simp add: mm_push_def mm_max_def)
  have max: "\<forall>q \<in> set (mm_stored h). fst q \<le> mm_max h" using mm_top_max[OF assms(1)] by blast
  have inv: "mm_inv (mm_push i v h)"
  proof (cases "mm_k h < mm_n h")
    case True
    then show ?thesis by (rule mm_push_room(1)[OF assms(1) _ assms(3)])
  next
    case False
    with assms(1) have k: "mm_k h = mm_n h" by (simp add: mm_inv_def)
    then show ?thesis
      using full assms mm_push_full(1)[OF assms(1) k assms(2) _ assms(3), of v] by (cases "mm_max h \<le> v") auto
  qed
  have replace: "\<exists>p \<in> set (mm_stored h). (\<forall>q \<in> set (mm_stored h). fst q \<le> fst p) \<and>
        mset (mm_stored (mm_push i v h)) = add_mset (v, i) (mset (mm_stored h) - {#p#})"
    if "mm_k h = mm_n h" "v < mm_max h"
    using top[OF that(1)] max mm_push_full(2)[OF assms(1) that(1) assms(2) that(2) assms(3)] by metis
  have pop_inv: "mm_inv (snd (mm_pop_min h))"
    using mm_pop_min_none[OF assms(1)] mm_pop_min_ok[OF assms(1)] assms(1) by (cases "mm_elems h = {#}") auto
  show ?thesis
    using inv full replace pop_inv mm_push_room(2)[OF assms(1) _ assms(3)]
      mm_pop_min_none[OF assms(1)] mm_pop_min_ok[OF assms(1)] mm_count_below_filter[OF assms(1)] assms(1)
    by (simp add: mm_size_def mm_inv_def)
qed

theorem minimax_heap_correct_witness:
  "mm_inv (mm_push 4 (2 :: int) (MinimaxHeap 2)) \<and> mm_size (MinimaxHeap 2 :: int minimax) = 0"
  using minimax_heap_correct[OF mm_inv_new, of 2 4 "2 :: int"]
  by (simp add: MinimaxHeap_def mm_elems_def mm_stored_def)

end
