(* ===== verification/Loops.thy ===== *)
theory Loops
  imports VisitedTab
begin

text \<open>
  Control structures that the graph algorithms share: a loop that may break, the priority queues of the
  C++ library, and the loop over a neighbor list that collects unvisited vertices in a buffer of four to
  evaluate their distances in batches.
\<close>

section \<open>Loops that break\<close>

text \<open>\<open>step s\<close> is \<open>Inl r\<close> when the loop is left with the state \<open>r\<close>, else the state of the next
  iteration. A loop that never ends has the value \<open>None\<close>.\<close>

partial_function (option) run_loop :: "('s \<Rightarrow> 'r + 's) \<Rightarrow> 's \<Rightarrow> 'r option" where
  "run_loop step s = (case step s of Inl r \<Rightarrow> Some r | Inr s' \<Rightarrow> run_loop step s')"

text \<open>Total correctness by an invariant and a measure.\<close>

lemma run_loop_total:
  assumes "I s"
    and "\<And>s s'. I s \<Longrightarrow> step s = Inr s' \<Longrightarrow> I s' \<and> m s' < (m s :: nat)"
    and "\<And>s r. I s \<Longrightarrow> step s = Inl r \<Longrightarrow> Q r"
  shows "\<exists>r. run_loop step s = Some r \<and> Q r"
  using assms(1)
proof (induction "m s" arbitrary: s rule: less_induct)
  case less
  show ?case
  proof (cases "step s")
    case (Inl r)
    then show ?thesis using assms(3)[OF less.prems Inl] by (subst run_loop.simps) simp
  next
    case (Inr s')
    from assms(2)[OF less.prems Inr] have "\<exists>r. run_loop step s' = Some r \<and> Q r"
      by (intro less.hyps) auto
    then show ?thesis using Inr by (subst run_loop.simps) simp
  qed
qed

section \<open>Priority queues\<close>

text \<open>A \<open>std::priority_queue\<close> as the list of its entries in the order in which they are popped:
  \<open>top\<close> is the head, \<open>pop\<close> the tail. \<open>before p q\<close>: \<open>p\<close> has strictly higher priority. The standard
  does not fix the order of entries of equal priority; here the first pushed is popped first.\<close>

fun pq_push :: "('e \<Rightarrow> 'e \<Rightarrow> bool) \<Rightarrow> 'e \<Rightarrow> 'e list \<Rightarrow> 'e list" where
  "pq_push before x [] = [x]"
| "pq_push before x (y # q) = (if before x y then x # y # q else y # pq_push before x q)"

definition pq_inv :: "('e \<Rightarrow> 'e \<Rightarrow> bool) \<Rightarrow> 'e list \<Rightarrow> bool" where
  "pq_inv before q \<longleftrightarrow> sorted_wrt (\<lambda>x y. \<not> before y x) q"

text \<open>The orders of \<open>NodeDistFarther\<close> (the nearest entry on top) and \<open>NodeDistCloser\<close> (the farthest
  on top) on pairs of a distance and a vertex.\<close>

definition nearer :: "'d::linorder \<times> nat \<Rightarrow> 'd \<times> nat \<Rightarrow> bool" where
  "nearer p q \<longleftrightarrow> fst p < fst q"

definition farther :: "'d::linorder \<times> nat \<Rightarrow> 'd \<times> nat \<Rightarrow> bool" where
  "farther p q \<longleftrightarrow> fst p > fst q"

lemma mset_pq_push [simp]: "mset (pq_push before x q) = add_mset x (mset q)"
  by (induction q) auto

lemma set_pq_push [simp]: "set (pq_push before x q) = insert x (set q)"
  by (induction q) auto

lemma length_pq_push [simp]: "length (pq_push before x q) = Suc (length q)"
  by (induction q) auto

lemma pq_push_not_Nil [simp]: "pq_push before x q \<noteq> []"
  by (cases q) auto

text \<open>What the searches rely on, for any order of priority.\<close>

locale priority =
  fixes before :: "'e \<Rightarrow> 'e \<Rightarrow> bool"
  assumes asym: "before x y \<Longrightarrow> \<not> before y x"
    and weak: "\<not> before x y \<Longrightarrow> \<not> before y z \<Longrightarrow> \<not> before x z"
begin

lemma irrefl: "\<not> before x x"
  using asym by blast

lemma inv_push: "pq_inv before q \<Longrightarrow> pq_inv before (pq_push before x q)"
proof (induction q)
  case (Cons y q)
  then have q: "pq_inv before q" "\<forall>z \<in> set q. \<not> before z y" by (auto simp: pq_inv_def)
  show ?case
  proof (cases "before x y")
    case True
    have "\<not> before z x" if "z \<in> set (y # q)" for z
      using that q(2) asym[OF True] weak[of z y x] by auto
    with True Cons.prems show ?thesis by (auto simp: pq_inv_def)
  next
    case False
    with q Cons.IH show ?thesis by (auto simp: pq_inv_def)
  qed
qed (simp add: pq_inv_def)

lemma top_first: "pq_inv before q \<Longrightarrow> q \<noteq> [] \<Longrightarrow> x \<in> set q \<Longrightarrow> \<not> before x (hd q)"
  using irrefl by (cases q) (auto simp: pq_inv_def)

lemma inv_pop: "pq_inv before q \<Longrightarrow> pq_inv before (tl q)"
  by (cases q) (auto simp: pq_inv_def)

lemma inv_fold: "pq_inv before q \<Longrightarrow> pq_inv before (fold (pq_push before) xs q)"
  by (induction xs arbitrary: q) (auto simp: inv_push)

end

lemma pq_inv_Nil [simp]: "pq_inv before []"
  by (simp add: pq_inv_def)

lemma mset_fold_pq_push [simp]: "mset (fold (pq_push before) xs q) = mset xs + mset q"
  by (induction xs arbitrary: q) auto

interpretation nearer: priority "nearer :: 'd::linorder \<times> nat \<Rightarrow> _"
  by unfold_locales (auto simp: nearer_def)

interpretation farther: priority "farther :: 'd::linorder \<times> nat \<Rightarrow> _"
  by unfold_locales (auto simp: farther_def)

section \<open>The loop over a neighbor list in batches of four\<close>

text \<open>Every vertex is marked; the new ones are collected in \<open>buf\<close>, and each full buffer is processed
  in order, as is the rest at the end (\<open>distances_batch_4\<close> computes the four distances that the
  distance computer gives for the four vertices). \<open>batch4_ref\<close> is the loop without a buffer.\<close>

fun batch4 ::
  "('v \<Rightarrow> nat \<Rightarrow> 'v \<times> bool) \<Rightarrow> (nat \<Rightarrow> 'r \<Rightarrow> 'r) \<Rightarrow> nat list \<Rightarrow> nat list \<Rightarrow> 'v \<Rightarrow> 'r \<Rightarrow> 'v \<times> 'r" where
  "batch4 mark proc [] buf vt r = (vt, fold proc buf r)"
| "batch4 mark proc (v # vs) buf vt r =
     (let (vt', new) = mark vt v
      in if \<not> new then batch4 mark proc vs buf vt' r
         else let buf' = buf @ [v]
              in if length buf' = 4 then batch4 mark proc vs [] vt' (fold proc buf' r)
                 else batch4 mark proc vs buf' vt' r)"

fun batch4_ref ::
  "('v \<Rightarrow> nat \<Rightarrow> 'v \<times> bool) \<Rightarrow> (nat \<Rightarrow> 'r \<Rightarrow> 'r) \<Rightarrow> nat list \<Rightarrow> 'v \<Rightarrow> 'r \<Rightarrow> 'v \<times> 'r" where
  "batch4_ref mark proc [] vt r = (vt, r)"
| "batch4_ref mark proc (v # vs) vt r =
     (let (vt', new) = mark vt v
      in if \<not> new then batch4_ref mark proc vs vt' r else batch4_ref mark proc vs vt' (proc v r))"

text \<open>The vertices that are found unvisited, in order.\<close>

fun unseen :: "('v \<Rightarrow> nat \<Rightarrow> 'v \<times> bool) \<Rightarrow> nat list \<Rightarrow> 'v \<Rightarrow> nat list" where
  "unseen mark [] vt = []"
| "unseen mark (v # vs) vt =
     (let (vt', new) = mark vt v in if new then v # unseen mark vs vt' else unseen mark vs vt')"

lemma batch4_fold:
  "batch4 mark proc vs buf vt r
    = (fold (\<lambda>v vt. fst (mark vt v)) vs vt, fold proc (buf @ unseen mark vs vt) r)"
  by (induction vs arbitrary: buf vt r) (simp_all add: Let_def case_prod_beta)

lemma batch4_ref_fold:
  "batch4_ref mark proc vs vt r
    = (fold (\<lambda>v vt. fst (mark vt v)) vs vt, fold proc (unseen mark vs vt) r)"
  by (induction vs arbitrary: vt r) (simp_all add: Let_def case_prod_beta)

lemma unseen_all: "(\<And>v. v \<in> set vs \<Longrightarrow> mark vt v = (vt, True)) \<Longrightarrow> unseen mark vs vt = vs"
  by (induction vs) simp_all

context visited_set
begin

text \<open>On a table of the interface, the vertices found unvisited are new, without repetition, and with
  the marked ones they make up the list.\<close>

lemma unseen_spec:
  assumes "inv n vt" "set vs \<subseteq> {..<n}"
  shows "distinct (unseen mark vs vt)" "set (unseen mark vs vt) = {v \<in> set vs. \<not> get vt v}"
proof -
  have "distinct (unseen mark vs vt) \<and> set (unseen mark vs vt) = {v \<in> set vs. \<not> get vt v}"
    using assms
  proof (induction vs arbitrary: vt)
    case (Cons v vs)
    from Cons.prems have v: "v < n" "set vs \<subseteq> {..<n}" by auto
    note IH = Cons.IH[OF inv_mark[OF Cons.prems(1) v(1)] v(2)]
    have "get (fst (mark vt v)) w = (w = v \<or> get vt w)" if "w \<in> set vs" for w
      using get_mark[OF Cons.prems(1) v(1)] v(2) that by blast
    with IH mark_new[OF Cons.prems(1) v(1)] show ?case by (auto simp: case_prod_beta)
  qed simp
  then show "distinct (unseen mark vs vt)" "set (unseen mark vs vt) = {v \<in> set vs. \<not> get vt v}" by auto
qed

lemma marked_spec:
  assumes "inv n vt" "set vs \<subseteq> {..<n}"
  shows "inv n (fold (\<lambda>v vt. fst (mark vt v)) vs vt)"
    "w < n \<Longrightarrow> get (fold (\<lambda>v vt. fst (mark vt v)) vs vt) w = (w \<in> set vs \<or> get vt w)"
  using inv_mark_all[OF assms] get_mark_all[OF assms] by (simp_all add: mark_all_def)

end

end
