(* ===== verification/HnswGraph.thy ===== *)
theory HnswGraph
  imports Loops
begin

text \<open>
  The link structure of \<open>faiss/impl/HNSW.h\<close> and \<open>.cpp\<close>: one flat array of links, in which every
  vertex owns a block with one segment per level. A segment holds the neighbors from its left end and is
  filled with -1. Vertices and positions are natural numbers, links are the signed \<open>storage_idx_t\<close>.
\<close>

section \<open>The structure\<close>

record hnsw =
  hn_assign_probas :: "float_t list"
  hn_cum :: "nat list"
  hn_levels :: "nat list"
  hn_offsets :: "nat list"
  hn_neighbors :: "int list"
  hn_entry_point :: int
  hn_max_level :: int
  hn_efConstruction :: nat
  hn_efSearch :: nat
  hn_check_relative_distance :: bool
  hn_search_bounded_queue :: bool

definition nb_neighbors :: "hnsw \<Rightarrow> nat \<Rightarrow> int result" where
  "nb_neighbors h layer_no =
     throw_unless (layer_no + 1 < length (hn_cum h)) ''layer_no''
       (Inr (int (hn_cum h ! (layer_no + 1)) - int (hn_cum h ! layer_no)))"

definition set_nb_neighbors :: "hnsw \<Rightarrow> nat \<Rightarrow> int \<Rightarrow> hnsw result" where
  "set_nb_neighbors h level_no n =
     throw_unless (length (hn_levels h) = 0) ''levels''
       (bind_result (nb_neighbors h level_no)
         (\<lambda>cur_n. Inr (fold (\<lambda>i h. h\<lparr> hn_cum := (hn_cum h)[i := nat (int (hn_cum h ! i) + (n - cur_n))] \<rparr>)
            [level_no + 1..<length (hn_cum h)] h)))"

definition cum_nb_neighbors :: "hnsw \<Rightarrow> nat \<Rightarrow> nat" where
  "cum_nb_neighbors h layer_no = hn_cum h ! layer_no"

definition neighbor_range :: "hnsw \<Rightarrow> nat \<Rightarrow> nat \<Rightarrow> nat \<times> nat" where
  "neighbor_range h no layer_no =
     (let ofs = hn_offsets h ! no
      in (ofs + cum_nb_neighbors h layer_no, ofs + cum_nb_neighbors h (layer_no + 1)))"

text \<open>The draw of a level: \<open>f\<close> is the number that \<open>rng.rand_float()\<close> returns.\<close>

fun random_level_loop :: "nat \<Rightarrow> float_t list \<Rightarrow> float_t \<Rightarrow> nat option" where
  "random_level_loop level [] f = None"
| "random_level_loop level (p # ps) f = (if f < p then Some level else random_level_loop (level + 1) ps (f - p))"

definition random_level :: "hnsw \<Rightarrow> float_t \<Rightarrow> int" where
  "random_level h f =
     (case random_level_loop 0 (hn_assign_probas h) f of
        Some level \<Rightarrow> int level | None \<Rightarrow> int (length (hn_assign_probas h)) - 1)"

text \<open>The table of the default probabilities. \<open>proba level\<close> is the value of
  \<open>exp(-level / levelMult) * (1 - exp(-1 / levelMult))\<close> as a \<open>float\<close>; the loop ends at the first
  one below 1e-9.\<close>

definition set_default_probas_step ::
  "(nat \<Rightarrow> float_t) \<Rightarrow> nat \<Rightarrow> nat \<times> nat \<times> hnsw \<Rightarrow> hnsw + nat \<times> nat \<times> hnsw" where
  "set_default_probas_step proba M s =
     (case s of (level, nn, h) \<Rightarrow>
        if proba level < 1 / 10 ^ 9 then Inl h
        else let nn' = nn + (if level = 0 then M * 2 else M)
             in Inr (level + 1, nn', h\<lparr> hn_assign_probas := hn_assign_probas h @ [proba level],
                                       hn_cum := hn_cum h @ [nn'] \<rparr>))"

definition set_default_probas :: "(nat \<Rightarrow> float_t) \<Rightarrow> nat \<Rightarrow> hnsw \<Rightarrow> hnsw option" where
  "set_default_probas proba M h =
     run_loop (set_default_probas_step proba M) (0, 0, h\<lparr> hn_cum := hn_cum h @ [0] \<rparr>)"

text \<open>The constructor \<open>HNSW(M)\<close>, with the defaults of the fields.\<close>

definition HNSW_empty :: hnsw where
  "HNSW_empty = \<lparr> hn_assign_probas = [], hn_cum = [], hn_levels = [], hn_offsets = [], hn_neighbors = [],
     hn_entry_point = -1, hn_max_level = -1, hn_efConstruction = 40, hn_efSearch = 16,
     hn_check_relative_distance = True, hn_search_bounded_queue = True \<rparr>"

definition HNSW :: "(nat \<Rightarrow> float_t) \<Rightarrow> nat \<Rightarrow> hnsw option" where
  "HNSW proba M =
     map_option (\<lambda>h. h\<lparr> hn_offsets := hn_offsets h @ [0] \<rparr>) (set_default_probas proba M HNSW_empty)"

definition clear_neighbor_tables :: "hnsw \<Rightarrow> nat \<Rightarrow> hnsw" where
  "clear_neighbor_tables h level =
     fold (\<lambda>i h. let (b, e) = neighbor_range h i level
                 in h\<lparr> hn_neighbors := fold (\<lambda>j ns. ns[j := -1]) [b..<e] (hn_neighbors h) \<rparr>)
       [0..<length (hn_levels h)] h"

definition hnsw_reset :: "hnsw \<Rightarrow> hnsw" where
  "hnsw_reset h = h\<lparr> hn_max_level := -1, hn_entry_point := -1, hn_offsets := [0], hn_levels := [],
     hn_neighbors := [] \<rparr>"

text \<open>\<open>v.resize(n, c)\<close>.\<close>

definition resize :: "nat \<Rightarrow> 'a \<Rightarrow> 'a list \<Rightarrow> 'a list" where
  "resize n c xs = take n xs @ replicate (n - length xs) c"

text \<open>Space for \<open>n\<close> new vertices; \<open>draws\<close> are the random numbers for their levels. The result is
  the structure and the largest level of a new vertex.\<close>

definition level_tab_step :: "nat \<Rightarrow> nat \<Rightarrow> hnsw \<times> int \<Rightarrow> hnsw \<times> int" where
  "level_tab_step n0 i s =
     (let (h, max_level_2) = s;
          pt_level = int (hn_levels h ! (i + n0)) - 1
      in (h\<lparr> hn_offsets := hn_offsets h @ [last (hn_offsets h) + cum_nb_neighbors h (nat (pt_level + 1))] \<rparr>,
          if pt_level > max_level_2 then pt_level else max_level_2))"

definition prepare_level_tab :: "hnsw \<Rightarrow> nat \<Rightarrow> bool \<Rightarrow> float_t list \<Rightarrow> (hnsw \<times> int) result" where
  "prepare_level_tab h n preset_levels draws =
     (let n0 = length (hn_offsets h) - 1
      in if (if preset_levels then n0 + n \<noteq> length (hn_levels h) else n0 \<noteq> length (hn_levels h))
         then Inl AssertFailed
         else
           let h1 = (if preset_levels then h
                     else fold (\<lambda>i h. h\<lparr> hn_levels := hn_levels h @ [nat (random_level h (draws ! i) + 1)] \<rparr>) [0..<n] h);
               (h2, max_level_2) = fold (level_tab_step n0) [0..<n] (h1, 0)
           in Inr (h2\<lparr> hn_neighbors := resize (last (hn_offsets h2)) (-1) (hn_neighbors h2) \<rparr>, max_level_2))"

text \<open>Renumbering: \<open>map\<close> gives the old index of a new one.\<close>

definition inverse_map :: "nat \<Rightarrow> nat list \<Rightarrow> nat list" where
  "inverse_map n mp = fold (\<lambda>i im. im[mp ! i := i]) [0..<n] (replicate n 0)"

definition permute_step ::
  "hnsw \<Rightarrow> nat list \<Rightarrow> nat list \<Rightarrow> nat \<Rightarrow> nat list \<times> nat list \<times> int list \<times> nat \<Rightarrow> nat list \<times> nat list \<times> int list \<times> nat" where
  "permute_step h mp imap i s =
     (let (new_levels, new_offsets, new_neighbors, no) = s;
          old = mp ! i;
          block = map (\<lambda>neigh. if neigh \<ge> 0 then int (imap ! nat neigh) else neigh)
                    (slice (hn_offsets h ! old) (hn_offsets h ! (old + 1) - hn_offsets h ! old) (hn_neighbors h));
          no' = no + length block
      in (new_levels[i := hn_levels h ! old], new_offsets[i + 1 := no'], blit no block new_neighbors, no'))"

definition permute_entries :: "hnsw \<Rightarrow> nat list \<Rightarrow> hnsw" where
  "permute_entries h mp =
     (let n = length (hn_levels h);
          imap = inverse_map n mp;
          ep = (if hn_entry_point h \<noteq> -1 then int (imap ! nat (hn_entry_point h)) else hn_entry_point h);
          (new_levels, new_offsets, new_neighbors, no) =
            fold (permute_step h mp imap) [0..<n]
              (replicate n 0, replicate (n + 1) 0, replicate (length (hn_neighbors h)) 0, 0)
      in h\<lparr> hn_entry_point := ep, hn_levels := new_levels, hn_offsets := new_offsets,
             hn_neighbors := new_neighbors \<rparr>)"

section \<open>Neighbor lists\<close>

text \<open>The segment of a vertex at a level, and the neighbors in it: every loop of the code over a
  segment stops at the first negative entry.\<close>

definition slot :: "hnsw \<Rightarrow> nat \<Rightarrow> nat \<Rightarrow> int list" where
  "slot h no l = (let (b, e) = neighbor_range h no l in slice b (e - b) (hn_neighbors h))"

definition nbrs :: "hnsw \<Rightarrow> nat \<Rightarrow> nat \<Rightarrow> nat list" where
  "nbrs h no l = map nat (takeWhile (\<lambda>v. 0 \<le> v) (slot h no l))"

section \<open>Well-formedness\<close>

definition cum_ok :: "nat list \<Rightarrow> bool" where
  "cum_ok cum \<longleftrightarrow> cum \<noteq> [] \<and> hd cum = 0 \<and> sorted cum"

text \<open>The layout: the block of vertex \<open>i\<close> starts at \<open>offsets i\<close> and has the segments of the levels
  \<open>0..levels i - 1\<close>.\<close>

definition layout_ok :: "hnsw \<Rightarrow> bool" where
  "layout_ok h \<longleftrightarrow> cum_ok (hn_cum h) \<and> length (hn_offsets h) = length (hn_levels h) + 1 \<and>
     hn_offsets h ! 0 = 0 \<and>
     (\<forall>i < length (hn_levels h). hn_offsets h ! (i + 1) = hn_offsets h ! i + hn_cum h ! (hn_levels h ! i)) \<and>
     (\<forall>i < length (hn_levels h). 1 \<le> hn_levels h ! i \<and> hn_levels h ! i < length (hn_cum h)) \<and>
     length (hn_neighbors h) = hn_offsets h ! length (hn_levels h)"

text \<open>A segment of neighbors packed to the left, all of them vertices of that level.\<close>

definition packed :: "int list \<Rightarrow> bool" where
  "packed xs \<longleftrightarrow> (\<exists>vs m. xs = map int vs @ replicate m (-1))"

definition on_level :: "hnsw \<Rightarrow> nat \<Rightarrow> nat \<Rightarrow> bool" where
  "on_level h l v \<longleftrightarrow> v < length (hn_levels h) \<and> l < hn_levels h ! v"

definition links_ok :: "hnsw \<Rightarrow> bool" where
  "links_ok h \<longleftrightarrow> (\<forall>i l. on_level h l i \<longrightarrow> packed (slot h i l) \<and> (\<forall>v \<in> set (nbrs h i l). on_level h l v))"

text \<open>The entry point is a vertex of the highest level, or -1 in a graph in which nothing is linked.\<close>

definition entry_ok :: "hnsw \<Rightarrow> bool" where
  "entry_ok h \<longleftrightarrow> (hn_entry_point h = -1 \<or>
     0 \<le> hn_entry_point h \<and> 0 \<le> hn_max_level h \<and> on_level h (nat (hn_max_level h)) (nat (hn_entry_point h)))"

definition graph_ok :: "hnsw \<Rightarrow> bool" where
  "graph_ok h \<longleftrightarrow> layout_ok h \<and> links_ok h \<and> entry_ok h"

lemma takeWhile_packed:
  "takeWhile (\<lambda>v. 0 \<le> v) (map int vs @ replicate m (-1)) = map int vs"
  by (induction vs) (simp_all add: takeWhile_replicate)

lemma packed_takeWhile: "packed xs \<Longrightarrow>
    xs = takeWhile (\<lambda>v. 0 \<le> v) xs @ replicate (length xs - length (takeWhile (\<lambda>v. 0 \<le> v) xs)) (-1)"
  unfolding packed_def using takeWhile_packed by (metis append_eq_append_conv length_append length_replicate diff_add_inverse)

lemma nbrs_slot: "packed (slot h i l) \<Longrightarrow>
    slot h i l = map int (nbrs h i l) @ replicate (length (slot h i l) - length (nbrs h i l)) (-1)"
proof -
  assume p: "packed (slot h i l)"
  then obtain vs m where s: "slot h i l = map int vs @ replicate m (-1)" by (auto simp: packed_def)
  then have "nbrs h i l = vs" using takeWhile_packed[of vs m] by (simp add: nbrs_def comp_def)
  with s show ?thesis by simp
qed

lemma nbrs_of_slot: "slot h i l = map int vs @ replicate m (-1) \<Longrightarrow> nbrs h i l = vs"
  using takeWhile_packed[of vs m] by (simp add: nbrs_def comp_def)

subsection \<open>Segments do not overlap\<close>

lemma neighbor_range_eq:
  "neighbor_range h i l = (hn_offsets h ! i + hn_cum h ! l, hn_offsets h ! i + hn_cum h ! (l + 1))"
  by (simp add: neighbor_range_def cum_nb_neighbors_def Let_def)

lemma cum_mono: "cum_ok cum \<Longrightarrow> a \<le> b \<Longrightarrow> b < length cum \<Longrightarrow> cum ! a \<le> cum ! b"
  by (auto simp: cum_ok_def intro: sorted_nth_mono)

lemma offsets_mono:
  assumes "layout_ok h" "i \<le> j" "j \<le> length (hn_levels h)"
  shows "hn_offsets h ! i \<le> hn_offsets h ! j"
  using assms(2,3)
proof (induction j)
  case (Suc j)
  with assms(1) show ?case by (cases "i = Suc j") (auto simp: layout_ok_def)
qed simp

lemma range_bounds:
  assumes "layout_ok h" "on_level h l i" "neighbor_range h i l = (b, e)"
  shows "hn_offsets h ! i \<le> b" "b \<le> e" "e \<le> hn_offsets h ! (i + 1)" "hn_offsets h ! (i + 1) \<le> length (hn_neighbors h)"
proof -
  have i: "i < length (hn_levels h)" "l + 1 \<le> hn_levels h ! i" "hn_levels h ! i < length (hn_cum h)"
    "hn_offsets h ! (i + 1) = hn_offsets h ! i + hn_cum h ! (hn_levels h ! i)" "cum_ok (hn_cum h)"
    using assms(1,2) by (auto simp: layout_ok_def on_level_def)
  show "hn_offsets h ! i \<le> b" "b \<le> e" "e \<le> hn_offsets h ! (i + 1)"
    using assms(3) i(4) cum_mono[OF i(5), of l "l + 1"] cum_mono[OF i(5) i(2,3)] i(2,3)
    by (auto simp: neighbor_range_eq)
  show "hn_offsets h ! (i + 1) \<le> length (hn_neighbors h)"
    using offsets_mono[OF assms(1), of "i + 1" "length (hn_levels h)"] i(1) assms(1) by (simp add: layout_ok_def)
qed

lemma ranges_disjoint:
  assumes "layout_ok h" "on_level h l i" "on_level h m j" "(i, l) \<noteq> (j, m)"
    "neighbor_range h i l = (b, e)" "neighbor_range h j m = (b', e')"
  shows "e \<le> b' \<or> e' \<le> b"
proof (cases "i = j")
  case True
  have c: "cum_ok (hn_cum h)" "l + 1 < length (hn_cum h)" "m + 1 < length (hn_cum h)"
    using assms(1,2,3) by (auto simp: layout_ok_def on_level_def)
  from True assms(4) have "l + 1 \<le> m \<or> m + 1 \<le> l" by auto
  then show ?thesis
    using True assms(5,6) cum_mono[OF c(1), of "l + 1" m] cum_mono[OF c(1), of "m + 1" l] c
    by (auto simp: neighbor_range_eq)
next
  case False
  note r1 = range_bounds[OF assms(1,2,5)] and r2 = range_bounds[OF assms(1,3,6)]
  have "i < length (hn_levels h)" "j < length (hn_levels h)" using assms(2,3) by (auto simp: on_level_def)
  moreover from False have "i + 1 \<le> j \<or> j + 1 \<le> i" by auto
  ultimately show ?thesis
    using r1 r2 offsets_mono[OF assms(1), of "i + 1" j] offsets_mono[OF assms(1), of "j + 1" i] by auto
qed

lemma length_slot:
  "layout_ok h \<Longrightarrow> on_level h l i \<Longrightarrow> neighbor_range h i l = (b, e) \<Longrightarrow> length (slot h i l) = e - b"
  using range_bounds[of h l i b e] by (simp add: slot_def)

text \<open>The length of a segment does not depend on the vertex.\<close>

lemma length_slot_cum:
  "layout_ok h \<Longrightarrow> on_level h l i \<Longrightarrow> length (slot h i l) = hn_cum h ! (l + 1) - hn_cum h ! l"
  by (subst length_slot[of h l i "fst (neighbor_range h i l)" "snd (neighbor_range h i l)"])
    (auto simp: neighbor_range_eq)

text \<open>Replacing the contents of one segment.\<close>

definition write_slot :: "hnsw \<Rightarrow> nat \<Rightarrow> nat \<Rightarrow> int list \<Rightarrow> hnsw" where
  "write_slot h i l ys = h\<lparr> hn_neighbors := blit (fst (neighbor_range h i l)) ys (hn_neighbors h) \<rparr>"

lemma write_slot_fields [simp]:
  "hn_levels (write_slot h i l ys) = hn_levels h" "hn_offsets (write_slot h i l ys) = hn_offsets h"
  "hn_cum (write_slot h i l ys) = hn_cum h" "hn_entry_point (write_slot h i l ys) = hn_entry_point h"
  "hn_max_level (write_slot h i l ys) = hn_max_level h"
  "neighbor_range (write_slot h i l ys) = neighbor_range h"
  "on_level (write_slot h i l ys) = on_level h"
  "hn_efConstruction (write_slot h i l ys) = hn_efConstruction h"
  "hn_assign_probas (write_slot h i l ys) = hn_assign_probas h"
  by (simp_all add: write_slot_def neighbor_range_def cum_nb_neighbors_def on_level_def fun_eq_iff)

lemma slot_write_slot:
  assumes "layout_ok h" "on_level h l i" "on_level h m j" "length ys = length (slot h i l)"
  shows "slot (write_slot h i l ys) j m = (if (j, m) = (i, l) then ys else slot h j m)"
proof -
  obtain b e where r: "neighbor_range h i l = (b, e)" by fastforce
  obtain b' e' where r': "neighbor_range h j m = (b', e')" by fastforce
  note B = range_bounds[OF assms(1,2) r] and B' = range_bounds[OF assms(1,3) r']
  have len: "length ys = e - b" using assms(4) length_slot[OF assms(1,2) r] by simp
  have ofs: "b + length ys \<le> length (hn_neighbors h)" using B len by simp
  have s: "slot (write_slot h i l ys) j m = slice b' (e' - b') (blit b ys (hn_neighbors h))"
    by (simp add: slot_def r r') (simp add: write_slot_def r)
  show ?thesis
  proof (cases "(j, m) = (i, l)")
    case True
    then have "slot (write_slot h i l ys) j m = ys"
      unfolding s using r r' len ofs by (intro nth_equalityI) (auto simp: nth_blit)
    with True show ?thesis by simp
  next
    case False
    then have "(i, l) \<noteq> (j, m)" by auto
    from ranges_disjoint[OF assms(1,2,3) this r r'] have
      "slice b' (e' - b') (blit b ys (hn_neighbors h)) = slice b' (e' - b') (hn_neighbors h)"
      using B B' len ofs by (intro nth_equalityI) (auto simp: nth_blit)
    then show ?thesis unfolding s if_not_P[OF False] by (simp add: slot_def r')
  qed
qed

lemma layout_write_slot:
  assumes "layout_ok h" "on_level h l i" "length ys = length (slot h i l)"
  shows "layout_ok (write_slot h i l ys)"
proof -
  obtain b e where r: "neighbor_range h i l = (b, e)" by fastforce
  have "length (hn_neighbors (write_slot h i l ys)) = length (hn_neighbors h)"
    using range_bounds[OF assms(1,2) r] assms(3) length_slot[OF assms(1,2) r] by (simp add: write_slot_def r)
  with assms(1) show ?thesis by (simp add: layout_ok_def)
qed

end
