(* ===== verification/HnswSearch.thy ===== *)
theory HnswSearch
  imports HnswGraph ResHandler Minimax
begin

text \<open>
  The searches of \<open>faiss/impl/HNSW.cpp\<close> on one level of the graph and \<open>HNSW::search\<close>. The
  \<open>DistanceComputer\<close> with its query is a function \<open>qd\<close> from vertices to distances of any linear
  order; distances that are not comparable (NaN) are not modelled. The result handler is that of a heap.
\<close>

section \<open>Statistics and parameters\<close>

record hstats =
  st_n1 :: nat
  st_n2 :: nat
  st_ndis :: nat
  st_nhops :: nat

definition HNSWStats :: hstats where
  "HNSWStats = \<lparr> st_n1 = 0, st_n2 = 0, st_ndis = 0, st_nhops = 0 \<rparr>"

definition stats_combine :: "hstats \<Rightarrow> hstats \<Rightarrow> hstats" where
  "stats_combine s other = \<lparr> st_n1 = st_n1 s + st_n1 other, st_n2 = st_n2 s + st_n2 other,
     st_ndis = st_ndis s + st_ndis other, st_nhops = st_nhops s + st_nhops other \<rparr>"

text \<open>\<open>SearchParametersHNSW\<close>, and the parameters of a search: an optional selector of ids, and the
  HNSW parameters when the object passed is of that class.\<close>

record hnsw_params =
  sp_efSearch :: nat
  sp_check_relative_distance :: bool
  sp_bounded_queue :: bool

datatype params = Params (par_sel: "(nat \<Rightarrow> bool) option") (par_hnsw: "hnsw_params option")

definition extract_search_params :: "hnsw \<Rightarrow> params option \<Rightarrow> bool \<times> nat \<times> (nat \<Rightarrow> bool) option" where
  "extract_search_params h params =
     (case params of
        None \<Rightarrow> (hn_check_relative_distance h, hn_efSearch h, None)
      | Some p \<Rightarrow>
          (case par_hnsw p of
             None \<Rightarrow> (hn_check_relative_distance h, hn_efSearch h, par_sel p)
           | Some hp \<Rightarrow> (sp_check_relative_distance hp, sp_efSearch hp, par_sel p)))"

definition is_member :: "(nat \<Rightarrow> bool) option \<Rightarrow> nat \<Rightarrow> bool" where
  "is_member sel v = (case sel of None \<Rightarrow> True | Some f \<Rightarrow> f v)"

section \<open>Greedy descent\<close>

text \<open>One pass over the neighbors of the nearest vertex so far, and the loop until no neighbor is
  nearer.\<close>

definition greedy_update :: "(nat \<Rightarrow> 'd::linorder) \<Rightarrow> nat \<Rightarrow> nat \<times> 'd \<Rightarrow> nat \<times> 'd" where
  "greedy_update qd v s =
     (let (nearest, d_nearest) = s; dis = qd v
      in if dis < d_nearest then (v, dis) else (nearest, d_nearest))"

definition greedy_pass :: "hnsw \<Rightarrow> (nat \<Rightarrow> 'd::linorder) \<Rightarrow> nat \<Rightarrow> nat \<times> 'd \<Rightarrow> nat \<times> 'd" where
  "greedy_pass h qd level s =
     snd (batch4 (\<lambda>(u :: unit) v. (u, True)) (greedy_update qd) (nbrs h (fst s) level) [] () s)"

lemma greedy_pass_fold: "greedy_pass h qd level s = fold (greedy_update qd) (nbrs h (fst s) level) s"
  by (simp add: greedy_pass_def batch4_fold unseen_all)

lemma greedy_update_pair: "greedy_update qd v (n, d) = (if qd v < d then (v, qd v) else (n, d))"
  by (simp add: greedy_update_def Let_def)

lemma fold_greedy:
  "fold (greedy_update qd) vs (n, d) = (n', d') \<Longrightarrow>
    d' \<le> d \<and> (\<forall>v \<in> set vs. d' \<le> qd v) \<and> (n' = n \<and> d' = d \<or> n' \<in> set vs \<and> d' = qd n' \<and> d' < d)"
proof (induction vs arbitrary: n d)
  case (Cons v vs)
  show ?case
  proof (cases "qd v < d")
    case True
    with Cons.prems have "fold (greedy_update qd) vs (v, qd v) = (n', d')" by (simp add: greedy_update_pair)
    from Cons.IH[OF this] True show ?thesis by auto
  next
    case False
    with Cons.prems have "fold (greedy_update qd) vs (n, d) = (n', d')" by (simp add: greedy_update_pair)
    from Cons.IH[OF this] False show ?thesis by auto
  qed
qed simp

lemma nbrs_in_neighbors: "v \<in> set (nbrs h n l) \<Longrightarrow> v \<in> set (map nat (hn_neighbors h))"
  by (auto simp: nbrs_def slot_def slice_def dest!: set_takeWhileD in_set_takeD in_set_dropD split: prod.splits)

text \<open>The vertices with a smaller distance become fewer with every pass that moves.\<close>

definition nearer_count :: "hnsw \<Rightarrow> (nat \<Rightarrow> 'd::linorder) \<Rightarrow> nat \<times> 'd \<Rightarrow> nat" where
  "nearer_count h qd s = card {v \<in> set (map nat (hn_neighbors h)). qd v < snd s}"

lemma greedy_pass_decreases:
  assumes "fst (greedy_pass h qd level s) \<noteq> fst s"
  shows "nearer_count h qd (greedy_pass h qd level s) < nearer_count h qd s"
proof -
  let ?s' = "greedy_pass h qd level s"
  have "fold (greedy_update qd) (nbrs h (fst s) level) (fst s, snd s) = (fst ?s', snd ?s')"
    by (simp add: greedy_pass_fold)
  from fold_greedy[OF this] assms have
    n: "fst ?s' \<in> set (nbrs h (fst s) level)" "snd ?s' = qd (fst ?s')" "snd ?s' < snd s" by auto
  have "{v \<in> set (map nat (hn_neighbors h)). qd v < snd ?s'} \<subset> {v \<in> set (map nat (hn_neighbors h)). qd v < snd s}"
    using nbrs_in_neighbors[OF n(1)] n(2,3) by (auto intro: psubsetI)
  then show ?thesis by (simp add: nearer_count_def psubset_card_mono)
qed

function greedy_update_nearest ::
  "hnsw \<Rightarrow> (nat \<Rightarrow> 'd::linorder) \<Rightarrow> nat \<Rightarrow> hstats \<Rightarrow> nat \<times> 'd \<Rightarrow> hstats \<times> nat \<times> 'd" where
  "greedy_update_nearest h qd level stats s =
     (let s' = greedy_pass h qd level s;
          stats' = stats\<lparr> st_ndis := st_ndis stats + length (nbrs h (fst s) level), st_nhops := st_nhops stats + 1 \<rparr>
      in if fst s' = fst s then (stats', s') else greedy_update_nearest h qd level stats' s')"
  by pat_completeness auto

termination
  by (relation "measure (\<lambda>(h, qd, level, stats, s). nearer_count h qd s)") (simp_all add: greedy_pass_decreases)

declare greedy_update_nearest.simps [simp del]

section \<open>Best-first search with a bounded queue\<close>

text \<open>The state of \<open>search_from_candidates\<close> inside a neighbor list is (results, candidates, number of
  results, number of distances). The local \<open>threshold\<close> of the code is a copy of that of the result
  handler, refreshed whenever this changes.\<close>

definition add_to_heap ::
  "(nat \<Rightarrow> bool) option \<Rightarrow> (nat \<Rightarrow> 'd::linorder) \<Rightarrow> nat \<Rightarrow>
   'd hres \<times> 'd minimax \<times> nat \<times> nat \<Rightarrow> 'd hres \<times> 'd minimax \<times> nat \<times> nat" where
  "add_to_heap sel qd v s =
     (let (res, cand, nres, ndis) = s;
          dis = qd v;
          (res', added) = (if is_member sel v \<and> dis < hr_threshold res then add_result dis (int v) res else (res, False))
      in (res', mm_push (int v) dis cand, if added then nres + 1 else nres, ndis + 1))"

text \<open>The entries of the queue at the start: results and visited marks.\<close>

definition sfc_init_step ::
  "(nat \<Rightarrow> bool) option \<Rightarrow> 'd::linorder minimax \<Rightarrow> nat \<Rightarrow> 'd hres \<times> vtable \<Rightarrow> 'd hres \<times> vtable" where
  "sfc_init_step sel cand i s =
     (let (res, vt) = s; v1 = nat (mm_ids cand ! i); d = mm_dis cand ! i
      in (if is_member sel v1 \<and> d < hr_threshold res then fst (add_result d (int v1) res) else res,
          fst (vt_mark vt v1)))"

definition sfc_init ::
  "(nat \<Rightarrow> bool) option \<Rightarrow> 'd::linorder hres \<Rightarrow> 'd minimax \<Rightarrow> vtable \<Rightarrow> ('d hres \<times> vtable) result" where
  "sfc_init sel res cand vt =
     (if \<exists>i < nat (mm_size cand). mm_ids cand ! i < 0 then Inl AssertFailed
      else Inr (fold (sfc_init_step sel cand) [0..<nat (mm_size cand)] (res, vt)))"

text \<open>One iteration of the loop; the state is (results, candidates, visited, nres, ndis, nstep).\<close>

definition sfc_step ::
  "hnsw \<Rightarrow> (nat \<Rightarrow> 'd::{linorder, zero}) \<Rightarrow> bool \<Rightarrow> nat \<Rightarrow> (nat \<Rightarrow> bool) option \<Rightarrow> nat \<Rightarrow>
   'd hres \<times> 'd minimax \<times> vtable \<times> nat \<times> nat \<times> nat \<Rightarrow>
   ('d hres \<times> 'd minimax \<times> vtable \<times> nat \<times> nat \<times> nat) + ('d hres \<times> 'd minimax \<times> vtable \<times> nat \<times> nat \<times> nat)" where
  "sfc_step h qd do_dis_check efSearch sel level s =
     (let (res, cand, vt, nres, ndis, nstep) = s
      in if \<not> mm_size cand > 0 then Inl s
         else
           let ((v0, vmin), cand1) = mm_pop_min cand;
               d0 = (case vmin of None \<Rightarrow> 0 | Some d \<Rightarrow> d)
           in if do_dis_check \<and> mm_count_below d0 cand1 \<ge> efSearch
              then Inl (res, cand1, vt, nres, ndis, nstep)
              else
                let (vt', res', cand', nres', ndis') =
                      batch4 vt_mark (add_to_heap sel qd) (nbrs h (nat v0) level) [] vt (res, cand1, nres, ndis);
                    s' = (res', cand', vt', nres', ndis', nstep + 1)
                in if \<not> do_dis_check \<and> nstep + 1 > efSearch then Inl s' else Inr s')"

definition search_from_candidates ::
  "hnsw \<Rightarrow> (nat \<Rightarrow> 'd::{linorder, zero}) \<Rightarrow> 'd hres \<Rightarrow> 'd minimax \<Rightarrow> vtable \<Rightarrow> hstats \<Rightarrow> nat \<Rightarrow> nat \<Rightarrow> params option \<Rightarrow>
   (nat \<times> 'd hres \<times> 'd minimax \<times> vtable \<times> hstats) result option" where
  "search_from_candidates h qd res cand vt stats level nres_in params =
     (let (do_dis_check, efSearch, sel) = extract_search_params h params
      in case sfc_init sel res cand vt of
           Inl e \<Rightarrow> Some (Inl e)
         | Inr (res1, vt1) \<Rightarrow>
             map_option
               (\<lambda>(res', cand', vt', nres', ndis', nstep').
                  Inr (nres', res', cand', vt',
                    if level = 0
                    then stats\<lparr> st_n1 := st_n1 stats + 1,
                           st_n2 := (if mm_size cand' = 0 then st_n2 stats + 1 else st_n2 stats),
                           st_ndis := st_ndis stats + ndis', st_nhops := st_nhops stats + nstep' \<rparr>
                    else stats))
               (run_loop (sfc_step h qd do_dis_check efSearch sel level) (res1, cand, vt1, nres_in, 0, 0)))"

section \<open>Best-first search with unbounded queues\<close>

text \<open>Queues of \<open>HNSW::Node\<close>, pairs ordered lexicographically: \<open>top_candidates\<close> with the largest on
  top, \<open>candidates\<close> with the smallest. The state is (top_candidates, candidates, visited, ndis,
  nhops).\<close>

definition usc_add :: "nat \<Rightarrow> (nat \<Rightarrow> 'd::linorder) \<Rightarrow> nat \<Rightarrow>
    ('d \<times> nat) list \<times> ('d \<times> nat) list \<times> nat \<Rightarrow> ('d \<times> nat) list \<times> ('d \<times> nat) list \<times> nat" where
  "usc_add ef qd v s =
     (let (top, cand, ndis) = s; dis = qd v
      in if fst (hd top) > dis \<or> length top < ef
         then let cand' = pq_push CMin_cmp2 (dis, v) cand;
                  top' = pq_push CMax_cmp2 (dis, v) top
              in (if length top' > ef then tl top' else top', cand', ndis + 1)
         else (top, cand, ndis + 1))"

definition usc_step :: "hnsw \<Rightarrow> (nat \<Rightarrow> 'd::linorder) \<Rightarrow> nat \<Rightarrow>
    ('d \<times> nat) list \<times> ('d \<times> nat) list \<times> vtable \<times> nat \<times> nat \<Rightarrow>
    (('d \<times> nat) list \<times> ('d \<times> nat) list \<times> vtable \<times> nat \<times> nat)
      + (('d \<times> nat) list \<times> ('d \<times> nat) list \<times> vtable \<times> nat \<times> nat)" where
  "usc_step h qd ef s =
     (let (top, cand, vt, ndis, nhops) = s
      in if cand = [] then Inl s
         else let (d0, v0) = hd cand
              in if d0 > fst (hd top) then Inl s
                 else let (vt', top', cand', ndis') =
                            batch4 vt_mark (usc_add ef qd) (nbrs h v0 0) [] vt (top, tl cand, ndis)
                      in Inr (top', cand', vt', ndis', nhops + 1))"

definition search_from_candidate_unbounded ::
  "hnsw \<Rightarrow> 'd::linorder \<times> nat \<Rightarrow> (nat \<Rightarrow> 'd) \<Rightarrow> nat \<Rightarrow> vtable \<Rightarrow> hstats \<Rightarrow> (('d \<times> nat) list \<times> vtable \<times> hstats) option" where
  "search_from_candidate_unbounded h node qd ef vt stats =
     map_option
       (\<lambda>(top, cand, vt', ndis, nhops).
          (top, vt', stats\<lparr> st_n1 := st_n1 stats + 1,
             st_n2 := (if cand = [] then st_n2 stats + 1 else st_n2 stats),
             st_ndis := st_ndis stats + ndis, st_nhops := st_nhops stats + nhops \<rparr>))
       (run_loop (usc_step h qd ef) ([node], [node], fst (vt_mark vt (snd node)), 0, 0))"

section \<open>The search of the index\<close>

text \<open>\<open>HNSW::search\<close> with a heap handler (\<open>k\<close> is the one of the handler).\<close>

definition descend :: "hnsw \<Rightarrow> (nat \<Rightarrow> 'd::linorder) \<Rightarrow> nat list \<Rightarrow> hstats \<times> nat \<times> 'd \<Rightarrow> hstats \<times> nat \<times> 'd" where
  "descend h qd ls s =
     fold (\<lambda>level (stats, s). let (local_stats, s') = greedy_update_nearest h qd level HNSWStats s
             in (stats_combine stats local_stats, s')) ls s"

definition queue_params :: "hnsw \<Rightarrow> params option \<Rightarrow> bool \<times> nat" where
  "queue_params h params =
     (case params of
        None \<Rightarrow> (hn_search_bounded_queue h, hn_efSearch h)
      | Some p \<Rightarrow>
          (case par_hnsw p of
             None \<Rightarrow> (hn_search_bounded_queue h, hn_efSearch h)
           | Some hp \<Rightarrow> (sp_bounded_queue hp, sp_efSearch hp)))"

definition hnsw_search ::
  "hnsw \<Rightarrow> (nat \<Rightarrow> 'd::{linorder, zero}) \<Rightarrow> 'd hres \<Rightarrow> vtable \<Rightarrow> params option \<Rightarrow>
   ('d hres \<times> vtable \<times> hstats) result option" where
  "hnsw_search h qd res vt params =
     (if hn_entry_point h = -1 then Some (Inr (res, vt, HNSWStats))
      else
        let k = hr_k res;
            (bounded_queue, efSearch) = queue_params h params;
            entry = nat (hn_entry_point h);
            (stats, nearest, d_nearest) =
              descend h qd (rev [1..<nat (hn_max_level h + 1)]) (HNSWStats, entry, qd entry);
            ef = max efSearch k
        in if bounded_queue
           then map_option
                  (\<lambda>r. bind_result r (\<lambda>(nres, res', cand', vt', stats'). Inr (res', vt_advance vt', stats')))
                  (search_from_candidates h qd res (mm_push (int nearest) d_nearest (MinimaxHeap ef)) vt stats 0 0 params)
           else map_option
                  (\<lambda>(top, vt', stats').
                     Inr (fold (\<lambda>(d, label) res. fst (add_result d (int label) res)) (drop (length top - k) top) res,
                          vt_advance vt', stats'))
                  (search_from_candidate_unbounded h (d_nearest, nearest) qd ef vt stats))"

text \<open>\<open>HNSW::search_level_0\<close>: from given entry points, one search each or one for all.\<close>

fun level0_each ::
  "hnsw \<Rightarrow> (nat \<Rightarrow> 'd::{linorder, zero}) \<Rightarrow> nat \<Rightarrow> params option \<Rightarrow> (int \<times> 'd) list \<Rightarrow>
   nat \<times> 'd hres \<times> vtable \<times> hstats \<Rightarrow> (nat \<times> 'd hres \<times> vtable \<times> hstats) result option" where
  "level0_each h qd csize params [] s = Some (Inr s)"
| "level0_each h qd csize params ((cj, d) # es) (nres, res, vt, stats) =
     (if cj < 0 then Some (Inr (nres, res, vt, stats))
      else if vt_get vt (nat cj) then level0_each h qd csize params es (nres, res, vt, stats)
      else case search_from_candidates h qd res (mm_push cj d (MinimaxHeap csize)) vt stats 0 nres params of
             None \<Rightarrow> None
           | Some (Inl e) \<Rightarrow> Some (Inl e)
           | Some (Inr (nres', res', cand', vt', stats')) \<Rightarrow>
               level0_each h qd csize params es (min nres' csize, res', vt', stats'))"

definition search_level_0 ::
  "hnsw \<Rightarrow> (nat \<Rightarrow> 'd::{linorder, zero}) \<Rightarrow> 'd hres \<Rightarrow> (int \<times> 'd) list \<Rightarrow> nat \<Rightarrow> hstats \<Rightarrow> vtable \<Rightarrow> params option \<Rightarrow>
   ('d hres \<times> vtable \<times> hstats) result option" where
  "search_level_0 h qd res nearest search_type stats vt params =
     (let efSearch = (case params of None \<Rightarrow> hn_efSearch h
            | Some p \<Rightarrow> (case par_hnsw p of None \<Rightarrow> hn_efSearch h | Some hp \<Rightarrow> sp_efSearch hp));
          csize = max efSearch (hr_k res)
      in if search_type = 1
         then map_option (\<lambda>r. bind_result r (\<lambda>(nres, res', vt', stats'). Inr (res', vt', stats')))
                (level0_each h qd csize params nearest (0, res, vt, stats))
         else if search_type = 2
         then let cand = fold (\<lambda>(cj, d) c. mm_push cj d c) (takeWhile (\<lambda>e. \<not> fst e < 0) nearest)
                           (MinimaxHeap (max csize (length nearest)))
              in map_option (\<lambda>r. bind_result r (\<lambda>(nres, res', cand', vt', stats'). Inr (res', vt', stats')))
                   (search_from_candidates h qd res cand vt stats 0 0 params)
         else Some (Inr (res, vt, stats)))"

end
