(* ===== verification/HnswTab.thy ===== *)
theory HnswTab
  imports HnswGraph
begin

text \<open>
  Growing and renumbering the link structure: the constructor of \<open>HNSW\<close>, the draw of levels,
  \<open>prepare_level_tab\<close>, \<open>reset\<close> and \<open>permute_entries\<close> keep the graph well-formed and the links of
  the vertices.
\<close>

section \<open>Constructor\<close>

lemma set_default_probas_from:
  assumes "\<forall>l < L. 1 / 10 ^ 9 \<le> proba l" "proba L < 1 / 10 ^ 9" "l \<le> L"
  shows "run_loop (set_default_probas_step proba M) (l, (if l = 0 then 0 else M * (l + 1)), h)
    = Some (h\<lparr> hn_assign_probas := hn_assign_probas h @ map proba [l..<L],
               hn_cum := hn_cum h @ map (\<lambda>j. M * (j + 2)) [l..<L] \<rparr>)"
  using assms(3)
proof (induction "L - l" arbitrary: l h)
  case 0
  then have "l = L" by simp
  with assms(2) show ?case by (subst run_loop.simps) (simp add: set_default_probas_step_def)
next
  case (Suc n)
  then have l: "n = L - Suc l" "Suc l \<le> L" "\<not> proba l < 1 / 10 ^ 9" "[l..<L] = l # [Suc l..<L]"
    using assms(1) by (auto simp: not_less upt_conv_Cons)
  have nn: "(if l = 0 then 0 else M * (l + 1)) + (if l = 0 then M * 2 else M) = M * (l + 2)"
    by (simp add: algebra_simps)
  show ?case
    using Suc.hyps(1)[OF l(1,2)] l(3,4) nn
    by (subst run_loop.simps) (simp add: set_default_probas_step_def Let_def)
qed

lemma HNSW_constructed:
  assumes "\<forall>l < L. 1 / 10 ^ 9 \<le> proba l" "proba L < 1 / 10 ^ 9"
  shows "HNSW proba M = Some (HNSW_empty\<lparr> hn_assign_probas := map proba [0..<L],
    hn_cum := 0 # map (\<lambda>j. M * (j + 2)) [0..<L], hn_offsets := [0] \<rparr>)"
  using set_default_probas_from[OF assms, of 0 M "HNSW_empty\<lparr> hn_cum := [0] \<rparr>"]
  by (simp add: HNSW_def set_default_probas_def HNSW_empty_def)

lemma cum_ok_multiples: "cum_ok (0 # map (\<lambda>j. M * (j + 2)) [0..<L])"
  by (auto simp: cum_ok_def sorted_iff_nth_mono nth_Cons' intro!: mult_le_mono2)

text \<open>A structure that \<open>random_level\<close> can serve.\<close>

definition probas_ok :: "hnsw \<Rightarrow> bool" where
  "probas_ok h \<longleftrightarrow> hn_assign_probas h \<noteq> [] \<and> length (hn_cum h) = length (hn_assign_probas h) + 1"

lemma random_level_loop_range:
  "random_level_loop level ps f = Some l \<Longrightarrow> level \<le> l \<and> l < level + length ps"
  by (induction level ps f rule: random_level_loop.induct) (auto split: if_splits)

lemma random_level_range:
  "hn_assign_probas h \<noteq> [] \<Longrightarrow> 0 \<le> random_level h f \<and> random_level h f < int (length (hn_assign_probas h))"
  using random_level_loop_range[of 0 "hn_assign_probas h" f]
  by (auto simp: random_level_def Suc_le_eq split: option.splits)

lemma random_level_upd [simp]: "random_level (h\<lparr> hn_levels := lv \<rparr>) f = random_level h f"
  by (simp add: random_level_def split: option.split)

section \<open>Growing\<close>

lemma fold_levels:
  "fold (\<lambda>i h. h\<lparr> hn_levels := hn_levels h @ [nat (random_level h (draws ! i) + 1)] \<rparr>) [0..<n] h
    = h\<lparr> hn_levels := hn_levels h @ map (\<lambda>i. nat (random_level h (draws ! i) + 1)) [0..<n] \<rparr>"
  by (induction n) simp_all

lemma fold_level_tab:
  assumes "length (hn_offsets h) = n0 + 1"
  shows "\<exists>ofs mx. fold (level_tab_step n0) [0..<m] (h, 0) = (h\<lparr> hn_offsets := hn_offsets h @ ofs \<rparr>, mx) \<and>
    length ofs = m \<and>
    (\<forall>i < m. (hn_offsets h @ ofs) ! (n0 + i + 1)
      = (hn_offsets h @ ofs) ! (n0 + i) + hn_cum h ! (hn_levels h ! (i + n0))) \<and>
    0 \<le> mx \<and> (\<forall>i < m. int (hn_levels h ! (i + n0)) - 1 \<le> mx) \<and>
    (mx = 0 \<or> (\<exists>i < m. mx = int (hn_levels h ! (i + n0)) - 1))"
proof (induction m)
  case (Suc m)
  then obtain ofs mx where
    f: "fold (level_tab_step n0) [0..<m] (h, 0) = (h\<lparr> hn_offsets := hn_offsets h @ ofs \<rparr>, mx)"
    and IH: "length ofs = m" "\<forall>i < m. (hn_offsets h @ ofs) ! (n0 + i + 1)
      = (hn_offsets h @ ofs) ! (n0 + i) + hn_cum h ! (hn_levels h ! (i + n0))"
      "0 \<le> mx" "\<forall>i < m. int (hn_levels h ! (i + n0)) - 1 \<le> mx"
      "mx = 0 \<or> (\<exists>i < m. mx = int (hn_levels h ! (i + n0)) - 1)" by blast
  let ?l = "last (hn_offsets h @ ofs)"
  let ?o = "?l + hn_cum h ! (hn_levels h ! (m + n0))"
  let ?p = "int (hn_levels h ! (m + n0)) - 1"
  have st: "fold (level_tab_step n0) [0..<Suc m] (h, 0)
      = (h\<lparr> hn_offsets := hn_offsets h @ (ofs @ [?o]) \<rparr>, if ?p > mx then ?p else mx)"
    by (simp add: f level_tab_step_def Let_def cum_nb_neighbors_def)
  have last: "?l = (hn_offsets h @ ofs) ! (n0 + m)"
    using assms IH(1) by (subst last_conv_nth) auto
  have "(hn_offsets h @ ofs @ [?o]) ! (n0 + i + 1)
      = (hn_offsets h @ ofs @ [?o]) ! (n0 + i) + hn_cum h ! (hn_levels h ! (i + n0))" if "i < Suc m" for i
  proof (cases "i = m")
    case True
    have "(hn_offsets h @ ofs @ [?o]) ! (n0 + m + 1) = ?o"
      using assms IH(1) by (simp add: nth_append)
    moreover have "(hn_offsets h @ ofs @ [?o]) ! (n0 + m) = ?l"
      unfolding last using assms IH(1) by (subst append_assoc[symmetric], subst nth_append) simp
    ultimately show ?thesis using True by simp
  next
    case False
    with that have "i < m" by simp
    then have "(hn_offsets h @ ofs @ [?o]) ! (n0 + i + 1) = (hn_offsets h @ ofs) ! (n0 + i + 1)"
      "(hn_offsets h @ ofs @ [?o]) ! (n0 + i) = (hn_offsets h @ ofs) ! (n0 + i)"
      using assms IH(1) nth_append_left[of "n0 + i + 1" "hn_offsets h @ ofs" "[?o]"]
        nth_append_left[of "n0 + i" "hn_offsets h @ ofs" "[?o]"] by simp_all
    with IH(2) \<open>i < m\<close> show ?thesis by simp
  qed
  then have "\<forall>i < Suc m. (hn_offsets h @ ofs @ [?o]) ! (n0 + i + 1)
      = (hn_offsets h @ ofs @ [?o]) ! (n0 + i) + hn_cum h ! (hn_levels h ! (i + n0))" by blast
  moreover have "\<forall>i < Suc m. int (hn_levels h ! (i + n0)) - 1 \<le> (if ?p > mx then ?p else mx)"
    using IH(4) by (auto simp: less_Suc_eq)
  moreover have "(if ?p > mx then ?p else mx) = 0 \<or>
      (\<exists>i < Suc m. (if ?p > mx then ?p else mx) = int (hn_levels h ! (i + n0)) - 1)"
    using IH(5) by (auto simp: less_Suc_eq)
  moreover have "0 \<le> (if ?p > mx then ?p else mx)" "length (ofs @ [?o]) = Suc m" using IH(1,3) by auto
  ultimately show ?case using st by blast
qed simp

text \<open>What both uses of \<open>prepare_level_tab\<close> (levels drawn, or given in advance) do to a well-formed
  structure of \<open>n0\<close> vertices.\<close>

lemma prepare_level_tab_ok:
  assumes "length (hn_offsets h) = n0 + 1"
    and old: "layout_ok (h\<lparr> hn_levels := take n0 (hn_levels h) \<rparr>)" "links_ok (h\<lparr> hn_levels := take n0 (hn_levels h) \<rparr>)"
    and "if preset then length (hn_levels h) = n0 + n \<and>
           (\<forall>i < n. 1 \<le> hn_levels h ! (n0 + i) \<and> hn_levels h ! (n0 + i) < length (hn_cum h))
         else length (hn_levels h) = n0 \<and> probas_ok h"
  shows "\<exists>h' mx. prepare_level_tab h n preset draws = Inr (h', mx) \<and>
    hn_levels h' = (if preset then hn_levels h
      else hn_levels h @ map (\<lambda>i. nat (random_level h (draws ! i) + 1)) [0..<n]) \<and>
    layout_ok h' \<and> links_ok h' \<and> length (hn_levels h') = n0 + n \<and>
    (\<forall>i l. i < n0 \<and> on_level h' l i \<longrightarrow> slot h' i l = slot h i l) \<and>
    (\<forall>i l. n0 \<le> i \<and> on_level h' l i \<longrightarrow> nbrs h' i l = []) \<and>
    0 \<le> mx \<and> (\<forall>i < n. int (hn_levels h' ! (n0 + i)) - 1 \<le> mx) \<and>
    (mx = 0 \<or> (\<exists>i < n. mx = int (hn_levels h' ! (n0 + i)) - 1)) \<and>
    (\<exists>lv ofs ns. h' = h\<lparr> hn_levels := lv, hn_offsets := ofs, hn_neighbors := ns \<rparr>)"
proof -
  define lv where "lv = (if preset then hn_levels h
      else hn_levels h @ map (\<lambda>i. nat (random_level h (draws ! i) + 1)) [0..<n])"
  define h1 where "h1 = h\<lparr> hn_levels := lv \<rparr>"
  have lv_len: "length lv = n0 + n" and lv_take: "take n0 lv = take n0 (hn_levels h)"
    using assms(4) by (auto simp: lv_def split: if_splits)
  have lv_new: "1 \<le> lv ! (n0 + i) \<and> lv ! (n0 + i) < length (hn_cum h)" if "i < n" for i
    using assms(4) that random_level_range[of h "draws ! i"]
    by (auto simp: lv_def nth_append probas_ok_def nat_less_iff Suc_le_eq split: if_splits)
  have h1: "(if preset then h
       else fold (\<lambda>i h. h\<lparr> hn_levels := hn_levels h @ [nat (random_level h (draws ! i) + 1)] \<rparr>) [0..<n] h) = h1"
    by (simp add: h1_def lv_def fold_levels)
  from assms(1) fold_level_tab[of h1 n0 n] obtain ofs mx where
    f: "fold (level_tab_step n0) [0..<n] (h1, 0) = (h1\<lparr> hn_offsets := hn_offsets h @ ofs \<rparr>, mx)"
    and ofs: "length ofs = n" "\<forall>i < n. (hn_offsets h @ ofs) ! (n0 + i + 1)
      = (hn_offsets h @ ofs) ! (n0 + i) + hn_cum h ! (lv ! (i + n0))"
    and mx: "0 \<le> mx" "\<forall>i < n. int (lv ! (i + n0)) - 1 \<le> mx" "mx = 0 \<or> (\<exists>i < n. mx = int (lv ! (i + n0)) - 1)"
    by (auto simp: h1_def)
  define h' where "h' = h1\<lparr> hn_offsets := hn_offsets h @ ofs,
    hn_neighbors := resize (last (hn_offsets h @ ofs)) (-1) (hn_neighbors h) \<rparr>"
  have res: "prepare_level_tab h n preset draws = Inr (h', mx)"
    using assms(1,4) h1 f by (simp add: prepare_level_tab_def Let_def h'_def) (simp add: h1_def)
  let ?ofs = "hn_offsets h @ ofs"
  have last: "last ?ofs = ?ofs ! (n0 + n)" using assms(1) ofs(1) by (subst last_conv_nth) auto
  have o: "hn_offsets h ! 0 = 0" "cum_ok (hn_cum h)" "length (hn_neighbors h) = hn_offsets h ! n0"
    "\<forall>i < n0. hn_offsets h ! (i + 1) = hn_offsets h ! i + hn_cum h ! (hn_levels h ! i)"
    "\<forall>i < n0. 1 \<le> hn_levels h ! i \<and> hn_levels h ! i < length (hn_cum h)"
    using old(1) lv_len lv_take assms(1) by (auto simp: layout_ok_def min_def split: if_splits)
  have lv_old: "lv ! i = hn_levels h ! i" if "i < n0" for i
    using that lv_take by (metis nth_take)
  have step: "?ofs ! (i + 1) = ?ofs ! i + hn_cum h ! (lv ! i)" if "i < n0 + n" for i
  proof (cases "i < n0")
    case True
    then have "?ofs ! (i + 1) = hn_offsets h ! (i + 1)" "?ofs ! i = hn_offsets h ! i"
      using assms(1) by (simp_all add: nth_append)
    with o(4) lv_old True show ?thesis by simp
  next
    case False
    with that have "i = n0 + (i - n0)" "i - n0 < n" by auto
    with ofs(2) show ?thesis by (metis add.commute)
  qed
  have lvs: "1 \<le> lv ! i \<and> lv ! i < length (hn_cum h)" if "i < n0 + n" for i
    using that lv_new[of "i - n0"] lv_old[of i] o(5) by (cases "i < n0") auto
  have layout: "layout_ok h'"
  proof -
    have "?ofs ! n0 \<le> ?ofs ! (n0 + m)" if "m \<le> n" for m
      using that by (induction m) (auto simp: step[of "n0 + _", simplified])
    moreover have "?ofs ! n0 = hn_offsets h ! n0" using assms(1) by (simp add: nth_append)
    ultimately have "length (hn_neighbors h) \<le> last ?ofs" using o(3) last by simp
    moreover have "?ofs ! 0 = 0" using assms(1) o(1) by (simp add: nth_append)
    ultimately show ?thesis
      using o(2) step lvs lv_len assms(1) ofs(1) last by (simp add: layout_ok_def h'_def h1_def resize_def)
  qed
  have lev': "on_level h' l i \<longleftrightarrow> i < n0 + n \<and> l < lv ! i" for i l
    by (simp add: on_level_def h'_def h1_def lv_len)
  have rng: "neighbor_range h' i l = (?ofs ! i + hn_cum h ! l, ?ofs ! i + hn_cum h ! (l + 1))" for i l
    by (simp add: neighbor_range_eq h'_def h1_def)
  have nb': "hn_neighbors h' = hn_neighbors h @ replicate (last ?ofs - length (hn_neighbors h)) (-1)"
    if "length (hn_neighbors h) \<le> last ?ofs" using that by (simp add: h'_def h1_def resize_def)
  have le: "length (hn_neighbors h) \<le> last ?ofs"
    using offsets_mono[OF layout, of n0 "n0 + n"] o(3) last assms(1)
    by (simp add: h'_def h1_def lv_len nth_append)
  have old_slot: "slot h' i l = slot h i l" if i: "i < n0" "on_level h' l i" for i l
  proof -
    have r: "neighbor_range h i l = neighbor_range h' i l"
      using i(1) assms(1) unfolding rng by (simp add: neighbor_range_eq nth_append)
    obtain b e where be: "neighbor_range h' i l = (b, e)" by fastforce
    from range_bounds[OF layout i(2) be] have be_le: "e \<le> hn_offsets h' ! (i + 1)" "b \<le> e" by auto
    have "hn_offsets h' ! (i + 1) \<le> hn_offsets h' ! n0"
      using i(1) by (intro offsets_mono[OF layout]) (simp_all add: h'_def h1_def lv_len)
    also have "\<dots> = length (hn_neighbors h)" using o(3) assms(1) by (simp add: h'_def h1_def nth_append)
    finally have "b + (e - b) \<le> length (hn_neighbors h)" using be_le by simp
    then show ?thesis using r be nb'[OF le] by (simp add: slot_def slice_append1)
  qed
  have new_slot: "set (slot h' i l) \<subseteq> {-1}" if i: "n0 \<le> i" "on_level h' l i" for i l
  proof -
    obtain b e where be: "neighbor_range h' i l = (b, e)" by fastforce
    from range_bounds[OF layout i(2) be] have be_le: "e \<le> length (hn_neighbors h')" "b \<le> e" "hn_offsets h' ! i \<le> b" by auto
    have "hn_offsets h' ! n0 \<le> hn_offsets h' ! i"
      using i lev'[of l i] by (intro offsets_mono[OF layout]) (simp_all add: h'_def h1_def lv_len)
    then have "length (hn_neighbors h) \<le> b" using be_le o(3) assms(1) by (simp add: h'_def h1_def nth_append)
    then have "slot h' i l = slice (b - length (hn_neighbors h)) (e - b) (replicate (last ?ofs - length (hn_neighbors h)) (-1))"
      using be nb'[OF le] by (simp add: slot_def slice_def)
    then show ?thesis by (auto simp: slice_def)
  qed
  have new_rep: "slot h' i l = map int [] @ replicate (length (slot h' i l)) (-1)" if "n0 \<le> i" "on_level h' l i" for i l
    using new_slot[OF that] by (auto simp: list_eq_iff_nth_eq dest!: nth_mem)
  have new_nbrs: "nbrs h' i l = []" if "n0 \<le> i" "on_level h' l i" for i l
    by (rule nbrs_of_slot[OF new_rep[OF that]])
  have links: "links_ok h'"
    unfolding links_ok_def
  proof (intro allI impI)
    fix i l assume i: "on_level h' l i"
    show "packed (slot h' i l) \<and> (\<forall>v \<in> set (nbrs h' i l). on_level h' l v)"
    proof (cases "i < n0")
      case True
      let ?h = "h\<lparr> hn_levels := take n0 (hn_levels h) \<rparr>"
      have s: "slot h' i l = slot ?h i l" using old_slot[OF True i] by (simp add: slot_def neighbor_range_eq)
      have "n0 \<le> length (hn_levels h)" using assms(4) by (auto split: if_splits)
      then have lev: "on_level ?h l v \<longleftrightarrow> v < n0 \<and> l < hn_levels h ! v" for v
        by (auto simp: on_level_def min_def)
      have "on_level ?h l i" using True i lv_old by (simp add: lev lev')
      with old(2) have "packed (slot ?h i l) \<and> (\<forall>v \<in> set (nbrs ?h i l). on_level ?h l v)" by (simp add: links_ok_def)
      moreover have "nbrs ?h i l = nbrs h' i l" by (simp add: nbrs_def s)
      moreover have "on_level h' l v" if "on_level ?h l v" for v
        using that lv_old[of v] by (simp add: lev lev')
      ultimately show ?thesis using s by simp
    next
      case False
      then have "packed (slot h' i l)" using new_rep[OF _ i] unfolding packed_def by (metis not_less)
      with new_nbrs[OF _ i] False show ?thesis by simp
    qed
  qed
  have lv': "hn_levels h' = lv" by (simp add: h'_def h1_def)
  have form: "\<exists>lv ofs ns. h' = h\<lparr> hn_levels := lv, hn_offsets := ofs, hn_neighbors := ns \<rparr>"
    unfolding h'_def h1_def by (intro exI) simp
  show ?thesis
    using res layout links lv_len old_slot new_nbrs mx form
    by (intro exI[of _ h'] exI[of _ mx]) (simp add: lv' lv_def[symmetric] add.commute)
qed

section \<open>Renumbering\<close>

definition permutes_to :: "nat list \<Rightarrow> nat \<Rightarrow> bool" where
  "permutes_to mp n \<longleftrightarrow> length mp = n \<and> distinct mp \<and> set mp = {..<n}"

lemma inverse_map_nth:
  assumes "permutes_to mp n" "i < n"
  shows "inverse_map n mp ! (mp ! i) = i"
proof -
  have len: "length (fold (\<lambda>i im. im[mp ! i := i]) [0..<m] (replicate n 0)) = n" for m
    by (induction m) simp_all
  have "\<forall>i < m. fold (\<lambda>i im. im[mp ! i := i]) [0..<m] (replicate n 0) ! (mp ! i) = i" if "m \<le> n" for m
    using that
  proof (induction m)
    case (Suc m)
    let ?im = "fold (\<lambda>i im. im[mp ! i := i]) [0..<m] (replicate n 0)"
    have m: "m < length mp" "set mp = {..<n}" "distinct mp" using assms(1) Suc.prems by (auto simp: permutes_to_def)
    then have "mp ! m < n" using nth_mem[OF m(1)] by simp
    moreover have "mp ! m \<noteq> mp ! i" if "i < m" for i
      using m that by (simp add: nth_eq_iff_index_eq)
    moreover have "\<forall>i < m. ?im ! (mp ! i) = i" using Suc by simp
    ultimately have "?im[mp ! m := m] ! (mp ! i) = i" if "i < Suc m" for i
      using that len[of m] by (cases "i = m") auto
    then show ?case by simp
  qed simp
  with assms(2) show ?thesis by (simp add: inverse_map_def)
qed

lemma inverse_map_image:
  assumes "permutes_to mp n" "v < n"
  obtains j where "j < n" "mp ! j = v" "inverse_map n mp ! v = j"
proof -
  from assms have "v \<in> set mp" "length mp = n" by (simp_all add: permutes_to_def)
  then obtain j where "j < n" "mp ! j = v" by (auto simp: in_set_conv_nth)
  with inverse_map_nth[OF assms(1)] that show ?thesis by auto
qed

text \<open>The block of a vertex after renumbering, and the state of the copy after \<open>m\<close> vertices.\<close>

definition renamed :: "nat list \<Rightarrow> int list \<Rightarrow> int list" where
  "renamed imap xs = map (\<lambda>neigh. if neigh \<ge> 0 then int (imap ! nat neigh) else neigh) xs"

lemma blocks_sum:
  assumes "layout_ok h" "m \<le> length (hn_levels h)"
  shows "hn_offsets h ! m = (\<Sum>i \<leftarrow> [0..<m]. hn_offsets h ! (i + 1) - hn_offsets h ! i)"
  using assms(2)
proof (induction m)
  case (Suc m)
  then show ?case using assms(1) by (simp add: layout_ok_def)
qed (use assms(1) in \<open>simp add: layout_ok_def\<close>)

lemma permuted_sum:
  assumes "layout_ok h" "permutes_to mp (length (hn_levels h))" "m \<le> length (hn_levels h)"
  shows "(\<Sum>i \<leftarrow> take m mp. hn_offsets h ! (i + 1) - hn_offsets h ! i) \<le> length (hn_neighbors h)"
    "(\<Sum>i \<leftarrow> mp. hn_offsets h ! (i + 1) - hn_offsets h ! i) = length (hn_neighbors h)"
proof -
  let ?n = "length (hn_levels h)"
  have "mset mp = mset [0..<?n]"
    using assms(2) set_eq_iff_mset_eq_distinct[of mp "[0..<?n]"]
    by (simp add: permutes_to_def atLeast0LessThan)
  then have "mset (map f mp) = mset (map f [0..<?n])" for f :: "nat \<Rightarrow> nat" by simp
  then have "sum_list (map f mp) = sum_list (map f [0..<?n])" for f :: "nat \<Rightarrow> nat"
    by (metis sum_mset_sum_list)
  then show total: "(\<Sum>i \<leftarrow> mp. hn_offsets h ! (i + 1) - hn_offsets h ! i) = length (hn_neighbors h)"
    using blocks_sum[OF assms(1), of ?n] assms(1) by (simp add: layout_ok_def)
  have "(\<Sum>i \<leftarrow> take m mp. hn_offsets h ! (i + 1) - hn_offsets h ! i)
      \<le> (\<Sum>i \<leftarrow> take m mp @ drop m mp. hn_offsets h ! (i + 1) - hn_offsets h ! i)"
    by (simp del: append_take_drop_id)
  with total show "(\<Sum>i \<leftarrow> take m mp. hn_offsets h ! (i + 1) - hn_offsets h ! i) \<le> length (hn_neighbors h)"
    by simp
qed

lemma permute_fold:
  fixes h :: hnsw and mp imap :: "nat list"
  defines "len \<equiv> (\<lambda>i. hn_offsets h ! (i + 1) - hn_offsets h ! i)"
  assumes "layout_ok h" "permutes_to mp (length (hn_levels h))" "m \<le> length (hn_levels h)"
  shows "\<exists>lv ofs ns. fold (permute_step h mp imap) [0..<m]
      (replicate (length (hn_levels h)) 0, replicate (length (hn_levels h) + 1) 0, replicate (length (hn_neighbors h)) 0, 0)
      = (lv, ofs, ns, sum_list (map len (take m mp))) \<and>
    length lv = length (hn_levels h) \<and> length ofs = length (hn_levels h) + 1 \<and> length ns = length (hn_neighbors h) \<and>
    (\<forall>i < m. lv ! i = hn_levels h ! (mp ! i)) \<and>
    (\<forall>i \<le> m. ofs ! i = sum_list (map len (take i mp))) \<and>
    (\<forall>i < m. slice (ofs ! i) (len (mp ! i)) ns = renamed imap (slice (hn_offsets h ! (mp ! i)) (len (mp ! i)) (hn_neighbors h)))"
  using assms(4)
proof (induction m)
  case 0
  then show ?case by simp
next
  case (Suc m)
  let ?n = "length (hn_levels h)" and ?S = "\<lambda>i. sum_list (map len (take i mp))"
  from Suc obtain lv ofs ns where
    f: "fold (permute_step h mp imap) [0..<m]
      (replicate ?n 0, replicate (?n + 1) 0, replicate (length (hn_neighbors h)) 0, 0) = (lv, ofs, ns, ?S m)"
    and l: "length lv = ?n" "length ofs = ?n + 1" "length ns = length (hn_neighbors h)"
    and IH: "\<forall>i < m. lv ! i = hn_levels h ! (mp ! i)" "\<forall>i \<le> m. ofs ! i = ?S i"
      "\<forall>i < m. slice (ofs ! i) (len (mp ! i)) ns = renamed imap (slice (hn_offsets h ! (mp ! i)) (len (mp ! i)) (hn_neighbors h))"
    by auto
  have m: "m < ?n" "m < length mp" "set mp = {..<?n}" using Suc.prems assms(3) by (auto simp: permutes_to_def)
  then have "mp ! m < ?n" using nth_mem[OF m(2)] by simp
  note m = m(1,2) this
  let ?o = "mp ! m"
  let ?b = "renamed imap (slice (hn_offsets h ! ?o) (len ?o) (hn_neighbors h))"
  have "hn_offsets h ! ?o + len ?o \<le> length (hn_neighbors h)"
    using offsets_mono[OF assms(2), of ?o "?o + 1"] offsets_mono[OF assms(2), of "?o + 1" ?n] m(3) assms(2)
    by (simp add: len_def layout_ok_def)
  then have lb: "length ?b = len ?o" by (simp add: renamed_def)
  have S: "?S (Suc m) = ?S m + len ?o" using m by (simp add: take_Suc_conv_app_nth)
  have fit: "?S m + length ?b \<le> length ns"
    using permuted_sum(1)[OF assms(2,3), of "Suc m"] Suc.prems S lb l(3) by (simp add: len_def)
  have step: "fold (permute_step h mp imap) [0..<Suc m]
      (replicate ?n 0, replicate (?n + 1) 0, replicate (length (hn_neighbors h)) 0, 0)
      = (lv[m := hn_levels h ! ?o], ofs[m + 1 := ?S (Suc m)], blit (?S m) ?b ns, ?S (Suc m))"
    using f lb S by (simp add: permute_step_def Let_def len_def renamed_def)
  have mono: "?S i + len (mp ! i) \<le> ?S m" if "i < m" for i
  proof -
    have "?S (Suc i) = ?S i + len (mp ! i)" using that m by (simp add: take_Suc_conv_app_nth)
    moreover have "?S (Suc i) \<le> ?S m"
    proof -
      have "take m mp = take (Suc i) mp @ take (m - Suc i) (drop (Suc i) mp)"
        using that by (simp add: take_add[symmetric])
      then show ?thesis by simp
    qed
    ultimately show ?thesis by simp
  qed
  have "slice (ofs ! i) (len (mp ! i)) (blit (?S m) ?b ns) = slice (ofs ! i) (len (mp ! i)) ns" if "i < m" for i
    using mono[OF that] IH(2) that fit by (intro nth_equalityI) (auto simp: nth_blit)
  moreover have "slice (?S m) (len ?o) (blit (?S m) ?b ns) = ?b"
    using fit lb by (intro nth_equalityI) (auto simp: nth_blit)
  ultimately have "\<forall>i < Suc m. slice (ofs[m + 1 := ?S (Suc m)] ! i) (len (mp ! i)) (blit (?S m) ?b ns)
      = renamed imap (slice (hn_offsets h ! (mp ! i)) (len (mp ! i)) (hn_neighbors h))"
    using IH(2,3) by (auto simp: less_Suc_eq)
  moreover have "\<forall>i < Suc m. lv[m := hn_levels h ! ?o] ! i = hn_levels h ! (mp ! i)"
    using IH(1) l(1) m(1) by (auto simp: less_Suc_eq)
  moreover have "\<forall>i \<le> Suc m. ofs[m + 1 := ?S (Suc m)] ! i = ?S i"
    using IH(2) l(2) m(1) by (auto simp: le_Suc_eq)
  ultimately show ?case using step l fit by (simp add: lb)
qed

lemma permute_entries_ok:
  fixes h :: hnsw and mp :: "nat list"
  defines "imap \<equiv> inverse_map (length (hn_levels h)) mp" and "h' \<equiv> permute_entries h mp"
  assumes "layout_ok h" "permutes_to mp (length (hn_levels h))"
  shows "layout_ok h'" "length (hn_levels h') = length (hn_levels h)"
    "\<And>i. i < length (hn_levels h) \<Longrightarrow> hn_levels h' ! i = hn_levels h ! (mp ! i)"
    "\<And>i l. on_level h' l i \<Longrightarrow> on_level h l (mp ! i) \<and> slot h' i l = renamed imap (slot h (mp ! i) l)"
    "hn_max_level h' = hn_max_level h"
    "hn_entry_point h' = (if hn_entry_point h \<noteq> -1 then int (imap ! nat (hn_entry_point h)) else -1)"
proof -
  let ?n = "length (hn_levels h)"
  define len where "len = (\<lambda>i. hn_offsets h ! (i + 1) - hn_offsets h ! i)"
  obtain lv ofs ns where
    f: "fold (permute_step h mp imap) [0..<?n]
      (replicate ?n 0, replicate (?n + 1) 0, replicate (length (hn_neighbors h)) 0, 0) = (lv, ofs, ns, sum_list (map len (take ?n mp)))"
    and l: "length lv = ?n" "length ofs = ?n + 1" "length ns = length (hn_neighbors h)"
    and st: "\<forall>i < ?n. lv ! i = hn_levels h ! (mp ! i)" "\<forall>i \<le> ?n. ofs ! i = sum_list (map len (take i mp))"
      "\<forall>i < ?n. slice (ofs ! i) (len (mp ! i)) ns = renamed imap (slice (hn_offsets h ! (mp ! i)) (len (mp ! i)) (hn_neighbors h))"
    using permute_fold[OF assms(3,4) order_refl, of imap] unfolding len_def by blast
  have h': "h' = h\<lparr> hn_entry_point := (if hn_entry_point h \<noteq> -1 then int (imap ! nat (hn_entry_point h)) else hn_entry_point h),
      hn_levels := lv, hn_offsets := ofs, hn_neighbors := ns \<rparr>"
    using f by (simp add: h'_def permute_entries_def Let_def imap_def)
  show "length (hn_levels h') = ?n" "hn_max_level h' = hn_max_level h"
    "hn_entry_point h' = (if hn_entry_point h \<noteq> -1 then int (imap ! nat (hn_entry_point h)) else -1)"
    using l by (simp_all add: h')
  show lev: "hn_levels h' ! i = hn_levels h ! (mp ! i)" if "i < ?n" for i
    using that st(1) by (simp add: h')
  have mp: "mp ! i < ?n" "i < length mp" if "i < ?n" for i
  proof -
    show "i < length mp" using assms(4) that by (simp add: permutes_to_def)
    from nth_mem[OF this] assms(4) show "mp ! i < ?n" by (simp add: permutes_to_def)
  qed
  have ofs_step: "ofs ! (i + 1) = ofs ! i + len (mp ! i)" if "i < ?n" for i
    using st(2) that mp[OF that] by (simp add: take_Suc_conv_app_nth)
  have len_cum: "len i = hn_cum h ! (hn_levels h ! i)" if "i < ?n" for i
    using assms(3) that by (simp add: len_def layout_ok_def)
  have mp_len: "length mp = ?n" using assms(4) by (simp add: permutes_to_def)
  have tot: "ofs ! ?n = length (hn_neighbors h)"
    using st(2) permuted_sum(2)[OF assms(3,4) order_refl] by (simp add: len_def mp_len)
  have "1 \<le> lv ! i \<and> lv ! i < length (hn_cum h)" if "i < ?n" for i
    using assms(3) mp[OF that] st(1) that by (simp add: layout_ok_def)
  then show lay: "layout_ok h'"
    using assms(3) l st(1,2) ofs_step len_cum mp tot by (simp add: layout_ok_def h')
  fix i lv' assume on: "on_level h' lv' i"
  then have i: "i < ?n" "lv' < hn_levels h ! (mp ! i)" using lev l by (auto simp: on_level_def h')
  then have on0: "on_level h lv' (mp ! i)" using mp by (simp add: on_level_def)
  obtain b e where r: "neighbor_range h (mp ! i) lv' = (b, e)" by fastforce
  note B = range_bounds[OF assms(3) on0 r]
  let ?o = "hn_offsets h ! (mp ! i)"
  have r': "neighbor_range h' i lv' = (ofs ! i + (b - ?o), ofs ! i + (e - ?o))"
    using r by (auto simp: neighbor_range_eq h')
  have inside: "slice (s + (b - ?o)) (e - b) xs = take (e - b) (drop (b - ?o) (slice s (len (mp ! i)) xs))"
    for s and xs :: "int list"
  proof -
    have "e - b \<le> len (mp ! i) - (b - ?o)" using B by (simp add: len_def)
    then show ?thesis by (simp add: slice_def drop_take min_def add.commute)
  qed
  have "slot h' i lv' = slice (ofs ! i + (b - ?o)) (e - b) ns"
    using r' B by (simp add: slot_def) (simp add: h')
  also have "\<dots> = take (e - b) (drop (b - ?o) (renamed imap (slice ?o (len (mp ! i)) (hn_neighbors h))))"
    using st(3) i(1) by (simp add: inside)
  also have "\<dots> = renamed imap (slice (?o + (b - ?o)) (e - b) (hn_neighbors h))"
    by (simp add: inside renamed_def take_map drop_map)
  also have "\<dots> = renamed imap (slot h (mp ! i) lv')" using r B by (simp add: slot_def)
  finally show "on_level h lv' (mp ! i) \<and> slot h' i lv' = renamed imap (slot h (mp ! i) lv')" using on0 by simp
qed

lemma permute_graph:
  fixes h :: hnsw and mp :: "nat list"
  defines "imap \<equiv> inverse_map (length (hn_levels h)) mp" and "h' \<equiv> permute_entries h mp"
  assumes "graph_ok h" "permutes_to mp (length (hn_levels h))"
  shows "graph_ok h'"
    "\<And>i l. on_level h' l i \<Longrightarrow> nbrs h' i l = map (\<lambda>v. imap ! v) (nbrs h (mp ! i) l)"
proof -
  let ?n = "length (hn_levels h)"
  have g: "layout_ok h" "links_ok h" "entry_ok h" using assms(3) by (simp_all add: graph_ok_def)
  note P = permute_entries_ok[OF g(1) assms(4), folded imap_def h'_def]
  have lev: "on_level h l v \<longleftrightarrow> on_level h' l (imap ! v)" if "v < ?n" for l v
  proof -
    from inverse_map_image[OF assms(4) that] obtain j where "j < ?n" "mp ! j = v" "imap ! v = j"
      unfolding imap_def by blast
    then show ?thesis using P(2,3) that by (simp add: on_level_def)
  qed
  have seg: "slot h' i l = map int (map (\<lambda>v. imap ! v) (nbrs h (mp ! i) l)) @ replicate (length (slot h (mp ! i) l) - length (nbrs h (mp ! i) l)) (-1)"
    if on: "on_level h' l i" for i l
  proof -
    from P(4)[OF on] g(2) have "packed (slot h (mp ! i) l)" by (simp add: links_ok_def)
    note s = nbrs_slot[OF this]
    have "slot h' i l = renamed imap (map int (nbrs h (mp ! i) l) @ replicate (length (slot h (mp ! i) l) - length (nbrs h (mp ! i) l)) (-1))"
      using P(4)[OF on] s by simp
    then show ?thesis by (simp add: renamed_def)
  qed
  show nb: "nbrs h' i l = map (\<lambda>v. imap ! v) (nbrs h (mp ! i) l)" if "on_level h' l i" for i l
    by (rule nbrs_of_slot[OF seg[OF that]])
  have "links_ok h'"
    unfolding links_ok_def
  proof (intro allI impI conjI ballI)
    fix i l assume on: "on_level h' l i"
    show "packed (slot h' i l)" unfolding packed_def seg[OF on] by blast
    fix v assume "v \<in> set (nbrs h' i l)"
    then obtain w where w: "w \<in> set (nbrs h (mp ! i) l)" "v = imap ! w" using nb[OF on] by auto
    with P(4)[OF on] g(2) have "on_level h l w" by (auto simp: links_ok_def)
    with lev[of w l] w(2) show "on_level h' l v" by (simp add: on_level_def)
  qed
  moreover have "entry_ok h'"
    using g(3) lev[of "nat (hn_entry_point h)" "nat (hn_max_level h)"] P(5,6)
    by (auto simp: entry_ok_def on_level_def)
  ultimately show "graph_ok h'" using P(1) by (simp add: graph_ok_def)
qed

end
