(* ===== verification/HnswSearchOk.thy ===== *)
theory HnswSearchOk
  imports HnswSearch HnswTab
begin

text \<open>
  Correctness of the searches of \<open>HnswSearch\<close>: the greedy descent ends in a local minimum; the searches
  terminate, evaluate each vertex at most once, evaluate only vertices reachable from the entry points,
  and return the best of the evaluated ones; with a large enough queue they evaluate all reachable
  vertices.
\<close>

section \<open>Reachability in a level\<close>

definition edges :: "hnsw \<Rightarrow> nat \<Rightarrow> (nat \<times> nat) set" where
  "edges h l = {(a, b). b \<in> set (nbrs h a l)}"

definition reach :: "hnsw \<Rightarrow> nat \<Rightarrow> nat set \<Rightarrow> nat set" where
  "reach h l E = (edges h l)\<^sup>* `` E"

lemma reach_closed: "v \<in> reach h l E \<Longrightarrow> set (nbrs h v l) \<subseteq> reach h l E"
  by (auto simp: reach_def edges_def intro: rtrancl_into_rtrancl)

lemma reach_refl: "E \<subseteq> reach h l E"
  by (auto simp: reach_def)

lemma reach_least:
  assumes "E \<subseteq> V" "\<And>v. v \<in> V \<Longrightarrow> set (nbrs h v l) \<subseteq> V"
  shows "reach h l E \<subseteq> V"
proof
  fix w assume "w \<in> reach h l E"
  then obtain v where v: "v \<in> E" "(v, w) \<in> (edges h l)\<^sup>*" by (auto simp: reach_def)
  from v(2) show "w \<in> V"
  proof (induction rule: rtrancl_induct)
    case base
    then show ?case using v(1) assms(1) by blast
  next
    case (step y z)
    then show ?case using assms(2) by (auto simp: edges_def)
  qed
qed

lemma reach_on_level:
  assumes "links_ok h" "\<And>v. v \<in> E \<Longrightarrow> on_level h l v"
  shows "w \<in> reach h l E \<Longrightarrow> on_level h l w"
  using reach_least[of E "{v. on_level h l v}" h l] assms by (auto simp: links_ok_def)

section \<open>The greedy descent\<close>

lemma greedy_ok:
  assumes "greedy_update_nearest h qd l st (n, qd n) = (st', v, d)"
  shows "d = qd v \<and> d \<le> qd n \<and> (\<forall>w \<in> set (nbrs h v l). d \<le> qd w) \<and> v \<in> reach h l {n}"
  using assms
proof (induction h qd l st "(n, qd n)" arbitrary: n rule: greedy_update_nearest.induct)
  case (1 h qd l st n)
  obtain n1 d1 where p: "greedy_pass h qd l (n, qd n) = (n1, d1)" by fastforce
  then have "fold (greedy_update qd) (nbrs h n l) (n, qd n) = (n1, d1)" by (simp add: greedy_pass_fold)
  note f = fold_greedy[OF this]
  show ?case
  proof (cases "n1 = n")
    case True
    with f have d1: "d1 = qd n" by auto
    have "(v, d) = (n1, d1)" using "1.prems" p True
      by (subst (asm) greedy_update_nearest.simps) (simp add: Let_def)
    with f True d1 reach_refl[of "{n}" h l] show ?thesis by auto
  next
    case False
    with f have n1: "n1 \<in> set (nbrs h n l)" "d1 = qd n1" "d1 < qd n" by auto
    let ?st = "st\<lparr> st_ndis := st_ndis st + length (nbrs h n l), st_nhops := st_nhops st + 1 \<rparr>"
    have rec: "greedy_update_nearest h qd l ?st (n1, qd n1) = (st', v, d)"
      using "1.prems" p False n1(2) by (subst (asm) greedy_update_nearest.simps) (simp add: Let_def)
    have "d = qd v \<and> d \<le> qd n1 \<and> (\<forall>w \<in> set (nbrs h v l). d \<le> qd w) \<and> v \<in> reach h l {n1}"
      by (rule "1.hyps"[OF _ _ _ rec]) (simp_all add: p n1(2) False)
    moreover have "reach h l {n1} \<subseteq> reach h l {n}"
      using n1(1) by (auto simp: reach_def edges_def intro: converse_rtrancl_into_rtrancl)
    ultimately show ?thesis using n1(2,3) by auto
  qed
qed

text \<open>Through the upper levels: the result is a vertex of the graph, with its distance, not farther than
  the entry point.\<close>

lemma on_level_down: "on_level h l v \<Longrightarrow> m \<le> l \<Longrightarrow> on_level h m v"
  by (simp add: on_level_def)

lemma descend_ok:
  assumes "links_ok h" "on_level h m n" "descend h qd (rev [1..<m + 1]) (st, n, qd n) = (st', v, d)"
  shows "d = qd v \<and> d \<le> qd n \<and> on_level h 0 v"
  using assms(2,3)
proof (induction m arbitrary: n st)
  case 0
  then show ?case by (auto simp: descend_def)
next
  case (Suc m)
  obtain st1 v1 d1 where g: "greedy_update_nearest h qd (Suc m) HNSWStats (n, qd n) = (st1, v1, d1)"
    by (metis prod_cases3)
  note ok = greedy_ok[OF g]
  have on: "on_level h m v1"
    using reach_on_level[OF assms(1), of "{n}" "Suc m" v1] ok Suc.prems(1) on_level_down[of h "Suc m" v1 m] by auto
  have "descend h qd (rev [1..<m + 1]) (stats_combine st st1, v1, qd v1) = (st', v, d)"
    using Suc.prems(2) g ok by (simp add: descend_def)
  from Suc.IH[OF on this] ok show ?case by auto
qed

section \<open>Pushing into the queue of candidates\<close>

lemma mm_n_push [simp]: "mm_n (mm_push i v h) = mm_n h"
  by (simp add: mm_push_def Let_def split: prod.splits)

lemma mm_push_elems:
  assumes "mm_inv h" "0 < mm_n h" "i \<noteq> -1"
  shows "mm_inv (mm_push i v h)" "mm_elems (mm_push i v h) \<subseteq># add_mset (v, i) (mm_elems h)"
    "mm_k h < mm_n h \<Longrightarrow> mm_elems (mm_push i v h) = add_mset (v, i) (mm_elems h) \<and> mm_k (mm_push i v h) = mm_k h + 1"
proof -
  have room: "mm_inv (mm_push i v h) \<and> mm_elems (mm_push i v h) = add_mset (v, i) (mm_elems h) \<and> mm_k (mm_push i v h) = mm_k h + 1"
    if "mm_k h < mm_n h"
    using mm_push_room[OF assms(1) that assms(3), of v] assms(3) by (simp add: mm_elems_def)
  then show "mm_k h < mm_n h \<Longrightarrow> mm_elems (mm_push i v h) = add_mset (v, i) (mm_elems h) \<and> mm_k (mm_push i v h) = mm_k h + 1"
    by blast
  have "mm_inv (mm_push i v h) \<and> mm_elems (mm_push i v h) \<subseteq># add_mset (v, i) (mm_elems h)"
  proof (cases "mm_k h < mm_n h")
    case True
    with room show ?thesis by simp
  next
    case False
    with assms(1) have full: "mm_k h = mm_n h" by (simp add: mm_inv_def)
    show ?thesis
    proof (cases "v < mm_max h")
      case True
      have "mset (mm_stored h) - {#mm_stored h ! 0#} \<subseteq># mset (mm_stored h)" by simp
      then have "filter_mset (\<lambda>p. snd p \<noteq> -1) (add_mset (v, i) (mset (mm_stored h) - {#mm_stored h ! 0#}))
          \<subseteq># filter_mset (\<lambda>p. snd p \<noteq> -1) (add_mset (v, i) (mset (mm_stored h)))"
        by (intro multiset_filter_mono) simp
      with mm_push_full[OF assms(1) full assms(2) True assms(3)] assms(3) show ?thesis
        by (simp add: mm_elems_def)
    next
      case False
      with full have "mm_push i v h = h" by (simp add: mm_push_def mm_max_def)
      with assms(1) show ?thesis by simp
    qed
  qed
  then show "mm_inv (mm_push i v h)" "mm_elems (mm_push i v h) \<subseteq># add_mset (v, i) (mm_elems h)" by blast+
qed

lemma mm_size_elems: "mm_inv h \<Longrightarrow> mm_size h = int (size (mm_elems h))"
  by (simp add: mm_size_def mm_inv_def)

lemma mm_pop_k_n:
  assumes "mm_inv h"
  shows "mm_k (snd (mm_pop_min h)) = mm_k h" "mm_n (snd (mm_pop_min h)) = mm_n h"
    "mm_dis (snd (mm_pop_min h)) = mm_dis h"
proof -
  have "mm_k (snd (mm_pop_min h)) = mm_k h \<and> mm_n (snd (mm_pop_min h)) = mm_n h \<and> mm_dis (snd (mm_pop_min h)) = mm_dis h"
  proof (cases "mm_elems h = {#}")
    case True
    then show ?thesis using mm_pop_min_none[OF assms] by simp
  next
    case False
    from mm_pop_min_some[OF assms False] obtain p where
      "mm_pop_min h = ((mm_ids h ! p, Some (mm_dis h ! p)),
         h\<lparr> mm_ids := (mm_ids h)[p := -1], mm_nvalid := mm_nvalid h - 1 \<rparr>)" .
    then show ?thesis by simp
  qed
  then show "mm_k (snd (mm_pop_min h)) = mm_k h" "mm_n (snd (mm_pop_min h)) = mm_n h"
    "mm_dis (snd (mm_pop_min h)) = mm_dis h" by auto
qed

section \<open>Evaluating the new neighbors\<close>

definition pairs :: "(nat \<Rightarrow> 'd) \<Rightarrow> (nat \<Rightarrow> bool) option \<Rightarrow> nat set \<Rightarrow> ('d \<times> int) multiset" where
  "pairs qd sel V = image_mset (\<lambda>v. (qd v, int v)) (mset_set {v \<in> V. is_member sel v})"

lemma pairs_insert:
  "finite V \<Longrightarrow> v \<notin> V \<Longrightarrow>
    pairs qd sel (insert v V) = (if is_member sel v then add_mset (qd v, int v) (pairs qd sel V) else pairs qd sel V)"
proof -
  assume a: "finite V" "v \<notin> V"
  have "{w \<in> insert v V. is_member sel w} = (if is_member sel v then insert v {w \<in> V. is_member sel w} else {w \<in> V. is_member sel w})"
    by auto
  with a show ?thesis by (simp add: pairs_def)
qed

lemma add_to_heap_ok:
  assumes "res_ok k neutral (pairs qd sel V) res" "finite V" "v \<notin> V" "mm_inv cand" "0 < mm_n cand"
    "add_to_heap sel qd v (res, cand, nres, ndis) = (res', cand', nres', ndis')"
  shows "res_ok k neutral (pairs qd sel (insert v V)) res'" "cand' = mm_push (int v) (qd v) cand" "ndis' = ndis + 1"
proof -
  show "cand' = mm_push (int v) (qd v) cand" "ndis' = ndis + 1"
    using assms(6) by (auto simp: add_to_heap_def Let_def split: prod.splits)
  have "res' = (if is_member sel v then fst (add_result (qd v) (int v) res) else res)"
    using assms(6) add_result_guard[of "qd v" res "int v"]
    by (auto simp: add_to_heap_def Let_def split: prod.splits if_splits)
  then show "res_ok k neutral (pairs qd sel (insert v V)) res'"
    using assms(1) res_ok_add[OF assms(1), of "qd v" "int v"] by (simp add: pairs_insert[OF assms(2,3)])
qed

lemma add_to_heap_fold:
  assumes "res_ok k neutral (pairs qd sel V) res" "finite V" "distinct us" "set us \<inter> V = {}"
    "mm_inv cand" "0 < mm_n cand"
    "fold (add_to_heap sel qd) us (res, cand, nres, ndis) = (res', cand', nres', ndis')"
  shows "res_ok k neutral (pairs qd sel (V \<union> set us)) res' \<and> mm_inv cand' \<and> mm_n cand' = mm_n cand \<and>
    mm_elems cand' \<subseteq># mm_elems cand + mset (map (\<lambda>u. (qd u, int u)) us) \<and> ndis' = ndis + length us \<and>
    (mm_k cand + length us \<le> mm_n cand \<longrightarrow>
      mm_elems cand' = mm_elems cand + mset (map (\<lambda>u. (qd u, int u)) us) \<and> mm_k cand' = mm_k cand + length us)"
  using assms
proof (induction us arbitrary: V res cand nres ndis)
  case (Cons u us)
  obtain res1 cand1 nres1 ndis1 where s: "add_to_heap sel qd u (res, cand, nres, ndis) = (res1, cand1, nres1, ndis1)"
    by (metis prod_cases4)
  have u: "u \<notin> V" using Cons.prems(4) by auto
  note ok = add_to_heap_ok[OF Cons.prems(1,2) u Cons.prems(5,6) s]
  have "int u \<noteq> -1" by simp
  note push = mm_push_elems[OF Cons.prems(5,6) this, of "qd u", folded ok(2)]
  have n: "mm_n cand1 = mm_n cand" by (simp add: ok(2))
  have IH: "res_ok k neutral (pairs qd sel (insert u V \<union> set us)) res' \<and> mm_inv cand' \<and> mm_n cand' = mm_n cand1 \<and>
    mm_elems cand' \<subseteq># mm_elems cand1 + mset (map (\<lambda>u. (qd u, int u)) us) \<and> ndis' = ndis1 + length us \<and>
    (mm_k cand1 + length us \<le> mm_n cand1 \<longrightarrow>
      mm_elems cand' = mm_elems cand1 + mset (map (\<lambda>u. (qd u, int u)) us) \<and> mm_k cand' = mm_k cand1 + length us)"
  proof (rule Cons.IH)
    show "res_ok k neutral (pairs qd sel (insert u V)) res1" by (rule ok(1))
    show "fold (add_to_heap sel qd) us (res1, cand1, nres1, ndis1) = (res', cand', nres', ndis')"
      using Cons.prems(7) s by simp
  qed (use Cons.prems push(1) n in auto)
  have "mm_elems cand1 + mset (map (\<lambda>u. (qd u, int u)) us) \<subseteq># mm_elems cand + mset (map (\<lambda>u. (qd u, int u)) (u # us))"
    using push(2) by (simp add: add.commute)
  with IH push(3) n ok(3) show ?case by (auto intro: subset_mset.order_trans)
qed simp

section \<open>The loop with a bounded queue\<close>

definition visited :: "nat \<Rightarrow> vtable \<Rightarrow> nat set" where
  "visited n vt = {v. v < n \<and> vt_get vt v}"

lemma finite_visited [simp]: "finite (visited n vt)"
  by (simp add: visited_def)

lemma visited_marks:
  assumes "vt_inv n vt" "set vs \<subseteq> {..<n}"
  shows "vt_inv n (fold (\<lambda>v vt. fst (vt_mark vt v)) vs vt)"
    "visited n (fold (\<lambda>v vt. fst (vt_mark vt v)) vs vt) = visited n vt \<union> set vs"
    "distinct (unseen vt_mark vs vt)" "set (unseen vt_mark vs vt) = set vs - visited n vt"
proof -
  show "vt_inv n (fold (\<lambda>v vt. fst (vt_mark vt v)) vs vt)" by (rule vt.marked_spec(1)[OF assms])
  show "visited n (fold (\<lambda>v vt. fst (vt_mark vt v)) vs vt) = visited n vt \<union> set vs"
    using vt.marked_spec(2)[OF assms] assms(2) by (auto simp: visited_def)
  show "distinct (unseen vt_mark vs vt)" by (rule vt.unseen_spec(1)[OF assms])
  show "set (unseen vt_mark vs vt) = set vs - visited n vt"
    using vt.unseen_spec(2)[OF assms] assms(2) by (auto simp: visited_def)
qed

text \<open>The set \<open>R\<close> bounds what can be visited, \<open>V0\<close> is visited at the start; when \<open>exh\<close> holds, the queue
  has room for all of \<open>R\<close> and every visited vertex is waiting or has its neighbors visited.\<close>

definition sfc_inv ::
  "hnsw \<Rightarrow> (nat \<Rightarrow> 'd::{linorder, zero}) \<Rightarrow> (nat \<Rightarrow> bool) option \<Rightarrow> nat \<Rightarrow> nat \<Rightarrow> nat \<Rightarrow> 'd \<Rightarrow> nat \<Rightarrow> bool \<Rightarrow> nat set \<Rightarrow> nat set \<Rightarrow>
   'd hres \<times> 'd minimax \<times> vtable \<times> nat \<times> nat \<times> nat \<Rightarrow> bool" where
  "sfc_inv h qd sel l n k neutral ef exh R V0 s \<longleftrightarrow> (case s of (res, cand, vt, nres, ndis, nstep) \<Rightarrow>
     vt_inv n vt \<and> mm_inv cand \<and> 0 < mm_n cand \<and> V0 \<subseteq> visited n vt \<and> visited n vt \<subseteq> R \<and>
     ndis + card V0 = card (visited n vt) \<and>
     (\<forall>p \<in># mm_elems cand. \<exists>v \<in> visited n vt. p = (qd v, int v)) \<and>
     res_ok k neutral (pairs qd sel (visited n vt)) res \<and>
     (exh \<longrightarrow> mm_k cand \<le> card (visited n vt) \<and> card R \<le> mm_n cand \<and> card R \<le> ef \<and>
       (\<forall>v \<in> visited n vt. (qd v, int v) \<in># mm_elems cand \<or> set (nbrs h v l) \<subseteq> visited n vt)))"

definition sfc_post ::
  "hnsw \<Rightarrow> (nat \<Rightarrow> 'd::{linorder, zero}) \<Rightarrow> (nat \<Rightarrow> bool) option \<Rightarrow> nat \<Rightarrow> nat \<Rightarrow> nat \<Rightarrow> 'd \<Rightarrow> bool \<Rightarrow> nat set \<Rightarrow> nat set \<Rightarrow>
   'd hres \<times> 'd minimax \<times> vtable \<times> nat \<times> nat \<times> nat \<Rightarrow> bool" where
  "sfc_post h qd sel l n k neutral exh R V0 s \<longleftrightarrow> (case s of (res, cand, vt, nres, ndis, nstep) \<Rightarrow>
     vt_inv n vt \<and> V0 \<subseteq> visited n vt \<and> visited n vt \<subseteq> R \<and> ndis + card V0 = card (visited n vt) \<and>
     res_ok k neutral (pairs qd sel (visited n vt)) res \<and>
     (exh \<longrightarrow> (\<forall>v \<in> visited n vt. set (nbrs h v l) \<subseteq> visited n vt)))"

lemma sfc_inv_post:
  "sfc_inv h qd sel l n k neutral ef exh R V0 (res, cand, vt, nres, ndis, nstep) \<Longrightarrow> \<not> exh \<or> mm_elems cand = {#} \<Longrightarrow>
    sfc_post h qd sel l n k neutral exh R V0 (res, cand', vt, nres, ndis, nstep)"
  unfolding sfc_inv_def sfc_post_def by simp

text \<open>Expanding the popped vertex.\<close>

lemma sfc_expand:
  assumes inv: "sfc_inv h qd sel l n k neutral ef exh R V0 (res, cand, vt, nres, ndis, nstep)"
    and R: "R \<subseteq> {..<n}" "\<forall>v \<in> R. set (nbrs h v l) \<subseteq> R"
    and pop: "mm_inv cand1" "mm_k cand1 = mm_k cand" "mm_n cand1 = mm_n cand"
      "(qd v0, int v0) \<in># mm_elems cand" "mm_elems cand1 = mm_elems cand - {#(qd v0, int v0)#}" "v0 \<in> visited n vt"
    and b: "batch4 vt_mark (add_to_heap sel qd) (nbrs h v0 l) [] vt (res, cand1, nres, ndis)
      = (vt', res', cand', nres', ndis')"
  shows "sfc_inv h qd sel l n k neutral ef exh R V0 (res', cand', vt', nres', ndis', nstep') \<and>
    (n - card (visited n vt')) + size (mm_elems cand') < (n - card (visited n vt)) + size (mm_elems cand)"
proof -
  let ?V = "visited n vt" and ?N = "nbrs h v0 l"
  let ?us = "unseen vt_mark ?N vt"
  from inv have I: "vt_inv n vt" "0 < mm_n cand" "V0 \<subseteq> ?V" "?V \<subseteq> R" "ndis + card V0 = card ?V"
    "\<forall>p \<in># mm_elems cand. \<exists>v \<in> ?V. p = (qd v, int v)" "res_ok k neutral (pairs qd sel ?V) res"
    "exh \<Longrightarrow> mm_k cand \<le> card ?V \<and> card R \<le> mm_n cand \<and> card R \<le> ef \<and>
       (\<forall>v \<in> ?V. (qd v, int v) \<in># mm_elems cand \<or> set (nbrs h v l) \<subseteq> ?V)"
    by (simp_all add: sfc_inv_def)
  have N: "set ?N \<subseteq> R" "set ?N \<subseteq> {..<n}" using R I(4) pop(6) by blast+
  note M = visited_marks[OF I(1) N(2)]
  from b have vt': "vt' = fold (\<lambda>v vt. fst (vt_mark vt v)) ?N vt"
    and f: "fold (add_to_heap sel qd) ?us (res, cand1, nres, ndis) = (res', cand', nres', ndis')"
    by (simp_all add: batch4_fold)
  have V': "visited n vt' = ?V \<union> set ?us" using M(2,4) vt' by auto
  have disj: "set ?us \<inter> ?V = {}" using M(4) by auto
  have pos: "0 < mm_n cand1" using I(2) pop(3) by simp
  note F = add_to_heap_fold[OF I(7) finite_visited M(3) disj pop(1) pos f]
  have card: "card (visited n vt') = card ?V + length ?us"
    unfolding V' using disj M(3) by (subst card_Un_disjoint) (auto simp: distinct_card)
  have sub: "visited n vt' \<subseteq> R" using I(4) N(1) M(2) vt' by auto
  have "card (visited n vt') \<le> n" using subset_trans[OF sub R(1)] card_mono[of "{..<n}"] by fastforce
  moreover have "size (mm_elems cand') \<le> size (mm_elems cand) - 1 + length ?us"
    using F size_mset_mono[of "mm_elems cand'" "mm_elems cand1 + mset (map (\<lambda>u. (qd u, int u)) ?us)"] pop(4,5)
    by (simp add: size_Diff_singleton)
  moreover have "0 < size (mm_elems cand)" using pop(4) by (simp add: nonempty_has_size[symmetric]) auto
  ultimately have dec: "(n - card (visited n vt')) + size (mm_elems cand') < (n - card ?V) + size (mm_elems cand)"
    unfolding card by linarith
  have els: "\<exists>v \<in> visited n vt'. p = (qd v, int v)" if "p \<in># mm_elems cand'" for p
  proof -
    from F that have "p \<in># mm_elems cand1 + mset (map (\<lambda>u. (qd u, int u)) ?us)" by (auto dest: mset_subset_eqD)
    then consider "p \<in># mm_elems cand" | "p \<in> set (map (\<lambda>u. (qd u, int u)) ?us)"
      unfolding pop(5) by (auto dest: in_diffD)
    then show ?thesis
    proof cases
      case 1
      with I(6) V' show ?thesis by blast
    next
      case 2
      with V' show ?thesis by auto
    qed
  qed
  have exh: "mm_k cand' \<le> card (visited n vt') \<and> card R \<le> mm_n cand' \<and> card R \<le> ef \<and>
      (\<forall>v \<in> visited n vt'. (qd v, int v) \<in># mm_elems cand' \<or> set (nbrs h v l) \<subseteq> visited n vt')" if exh
  proof -
    note E = I(8)[OF that]
    have "card (visited n vt') \<le> card R" using sub R(1) by (intro card_mono) (auto intro: finite_subset)
    then have room: "mm_k cand1 + length ?us \<le> mm_n cand1" using E card pop(2,3) by simp
    with F have el: "mm_elems cand' = mm_elems cand1 + mset (map (\<lambda>u. (qd u, int u)) ?us)"
      "mm_k cand' = mm_k cand1 + length ?us" by auto
    have "(qd v, int v) \<in># mm_elems cand' \<or> set (nbrs h v l) \<subseteq> visited n vt'" if v: "v \<in> visited n vt'" for v
    proof (cases "v = v0 \<or> v \<in> set ?us")
      case True
      then show ?thesis using el(1) M(2) vt' by auto
    next
      case False
      with v V' have "v \<in> ?V" "(qd v, int v) \<noteq> (qd v0, int v0)" by auto
      moreover have "mm_elems cand = add_mset (qd v0, int v0) (mm_elems cand1)" using pop(4,5) by simp
      ultimately consider "(qd v, int v) \<in># mm_elems cand1" | "set (nbrs h v l) \<subseteq> ?V"
        using E by (metis add_mset_remove_trivial_If insert_noteq_member)
      then show ?thesis using el(1) V' by cases auto
    qed
    then show ?thesis using el(2) E card pop(2,3) F by simp
  qed
  show ?thesis
    using F M(1) vt' I(2,3,5) pop(3) sub card els exh dec V' unfolding sfc_inv_def
    by (auto simp: V')
qed

lemma mm_count_below_cong: "mm_k h = mm_k h' \<Longrightarrow> mm_dis h = mm_dis h' \<Longrightarrow> mm_count_below v h = mm_count_below v h'"
  by (simp add: mm_count_below_def)

lemma mm_count_below_stored:
  assumes "mm_inv h" "(v, i) \<in># mm_elems h"
  shows "mm_count_below v h < mm_k h"
proof -
  have "(v, i) \<in> set (mm_stored h)" using assms(2) by (simp add: mm_elems_def)
  then have "length (filter (\<lambda>p. fst p < v) (mm_stored h)) < length (mm_stored h)"
    by (intro length_filter_less[of "(v, i)"]) simp_all
  moreover have "length (mm_stored h) = mm_k h" using assms(1) by (simp add: mm_stored_def mm_inv_def)
  ultimately show ?thesis by (simp add: mm_count_below_filter[OF assms(1)])
qed

lemma sfc_run:
  fixes qd :: "nat \<Rightarrow> 'd::{linorder, zero}"
  assumes "sfc_inv h qd sel l n k neutral ef exh R V0 s"
    and R: "R \<subseteq> {..<n}" "\<forall>v \<in> R. set (nbrs h v l) \<subseteq> R" and ddc: "exh \<Longrightarrow> ddc"
  shows "\<exists>r. run_loop (sfc_step h qd ddc ef sel l) s = Some r \<and> sfc_post h qd sel l n k neutral exh R V0 r"
proof (rule run_loop_total[where I = "sfc_inv h qd sel l n k neutral ef exh R V0"
      and m = "\<lambda>(res, cand, vt, nres, ndis, nstep). (n - card (visited n vt)) + size (mm_elems cand)"])
  show "sfc_inv h qd sel l n k neutral ef exh R V0 s" by (rule assms(1))
next
  fix s assume inv: "sfc_inv h qd sel l n k neutral ef exh R V0 s"
  obtain res cand vt nres ndis nstep where s: "s = (res, cand, vt, nres, ndis, nstep)" by (metis prod_cases6)
  note inv' = inv[unfolded s]
  have I: "mm_inv cand" "visited n vt \<subseteq> R" "\<forall>p \<in># mm_elems cand. \<exists>v \<in> visited n vt. p = (qd v, int v)"
    using inv' by (simp_all add: sfc_inv_def)
  have sz: "mm_size cand > 0 \<longleftrightarrow> mm_elems cand \<noteq> {#}" by (simp add: mm_size_elems[OF I(1)] nonempty_has_size)
  show "\<And>s'. sfc_step h qd ddc ef sel l s = Inr s' \<Longrightarrow> sfc_inv h qd sel l n k neutral ef exh R V0 s' \<and>
      (case s' of (res, cand, vt, nres, ndis, nstep) \<Rightarrow> (n - card (visited n vt)) + size (mm_elems cand))
      < (case s of (res, cand, vt, nres, ndis, nstep) \<Rightarrow> (n - card (visited n vt)) + size (mm_elems cand))"
    and "\<And>r. sfc_step h qd ddc ef sel l s = Inl r \<Longrightarrow> sfc_post h qd sel l n k neutral exh R V0 r"
  proof (atomize (full), cases "mm_elems cand = {#}")
    case True
    then show "(\<forall>s'. sfc_step h qd ddc ef sel l s = Inr s' \<longrightarrow> sfc_inv h qd sel l n k neutral ef exh R V0 s' \<and>
      (case s' of (res, cand, vt, nres, ndis, nstep) \<Rightarrow> (n - card (visited n vt)) + size (mm_elems cand))
      < (case s of (res, cand, vt, nres, ndis, nstep) \<Rightarrow> (n - card (visited n vt)) + size (mm_elems cand))) \<and>
      (\<forall>r. sfc_step h qd ddc ef sel l s = Inl r \<longrightarrow> sfc_post h qd sel l n k neutral exh R V0 r)"
      using sz sfc_inv_post[OF inv'] by (simp add: sfc_step_def s)
  next
    case False
    from mm_pop_min_ok[OF I(1) False] obtain j d where
      pop: "mm_inv (snd (mm_pop_min cand))" "fst (mm_pop_min cand) = (j, Some d)" "(d, j) \<in># mm_elems cand"
      "mm_elems (snd (mm_pop_min cand)) = mm_elems cand - {#(d, j)#}" by blast
    from I(3) pop(3) obtain v0 where v0: "v0 \<in> visited n vt" "d = qd v0" "j = int v0" by auto
    define cand1 where "cand1 = snd (mm_pop_min cand)"
    have pm: "mm_pop_min cand = ((int v0, Some (qd v0)), cand1)"
      using pop(2) v0 by (simp add: cand1_def prod_eq_iff)
    note kn = mm_pop_k_n[OF I(1), folded cand1_def]
    obtain vt' res' cand' nres' ndis' where
      b: "batch4 vt_mark (add_to_heap sel qd) (nbrs h v0 l) [] vt (res, cand1, nres, ndis) = (vt', res', cand', nres', ndis')"
      by (metis prod_cases5)
    note X = sfc_expand[OF inv' R, of cand1 v0, OF pop(1)[folded cand1_def] kn(1,2) pop(3)[unfolded v0(2,3)]
        pop(4)[folded cand1_def, unfolded v0(2,3)] v0(1) b]
    have cb: "mm_count_below (qd v0) cand1 < ef" if exh
    proof -
      have "mm_count_below (qd v0) cand1 < mm_k cand"
        using mm_count_below_stored[OF I(1) pop(3)] mm_count_below_cong[of cand1 cand] kn v0(2) by simp
      also have "\<dots> \<le> card (visited n vt)" using inv' that by (simp add: sfc_inv_def)
      also have "\<dots> \<le> card R" using I(2) R(1) by (intro card_mono) (auto intro: finite_subset)
      also have "\<dots> \<le> ef" using inv' that by (simp add: sfc_inv_def)
      finally show ?thesis .
    qed
    have step: "sfc_step h qd ddc ef sel l s =
        (if ddc \<and> mm_count_below (qd v0) cand1 \<ge> ef then Inl (res, cand1, vt, nres, ndis, nstep)
         else if \<not> ddc \<and> nstep + 1 > ef then Inl (res', cand', vt', nres', ndis', nstep + 1)
         else Inr (res', cand', vt', nres', ndis', nstep + 1))"
      using False sz pm b by (simp add: sfc_step_def s Let_def)
    have "sfc_post h qd sel l n k neutral exh R V0 (res, cand1, vt, nres, ndis, nstep)"
      if "ddc" "mm_count_below (qd v0) cand1 \<ge> ef"
      using sfc_inv_post[OF inv'] cb that by auto
    moreover have "sfc_post h qd sel l n k neutral exh R V0 (res', cand', vt', nres', ndis', nstep + 1)" if "\<not> ddc"
      using sfc_inv_post X ddc that by blast
    ultimately show "(\<forall>s'. sfc_step h qd ddc ef sel l s = Inr s' \<longrightarrow> sfc_inv h qd sel l n k neutral ef exh R V0 s' \<and>
      (case s' of (res, cand, vt, nres, ndis, nstep) \<Rightarrow> (n - card (visited n vt)) + size (mm_elems cand))
      < (case s of (res, cand, vt, nres, ndis, nstep) \<Rightarrow> (n - card (visited n vt)) + size (mm_elems cand))) \<and>
      (\<forall>r. sfc_step h qd ddc ef sel l s = Inl r \<longrightarrow> sfc_post h qd sel l n k neutral exh R V0 r)"
      using X unfolding step by (auto simp: s)
  qed
qed

text \<open>The queue at the start holds the vertices \<open>E\<close> with their distances, none taken, none visited.\<close>

definition starts_with :: "(nat \<Rightarrow> 'd::linorder) \<Rightarrow> nat set \<Rightarrow> 'd minimax \<Rightarrow> bool" where
  "starts_with qd E cand \<longleftrightarrow> mm_inv cand \<and> 0 < mm_n cand \<and>
     (\<exists>vs. distinct vs \<and> set vs = E \<and> mm_stored cand = map (\<lambda>v. (qd v, int v)) vs)"

lemma starts_with_elems:
  assumes "starts_with qd E cand"
  shows "set_mset (mm_elems cand) = (\<lambda>v. (qd v, int v)) ` E" "mm_k cand = card E" "mm_size cand = int (card E)"
proof -
  from assms obtain vs where vs: "distinct vs" "set vs = E" "mm_stored cand = map (\<lambda>v. (qd v, int v)) vs" "mm_inv cand"
    by (auto simp: starts_with_def)
  then have el: "mm_elems cand = mset (map (\<lambda>v. (qd v, int v)) vs)"
    by (auto simp: mm_elems_def filter_mset_eq_conv)
  then show "set_mset (mm_elems cand) = (\<lambda>v. (qd v, int v)) ` E" using vs(2) by simp
  have "length (mm_stored cand) = mm_k cand" using vs(4) by (simp add: mm_stored_def mm_inv_def)
  moreover have c: "length vs = card E" using distinct_card[OF vs(1)] vs(2) by simp
  ultimately show "mm_k cand = card E" using vs(3) by simp
  show "mm_size cand = int (card E)" using el c by (simp add: mm_size_elems[OF vs(4)])
qed

lemma starts_with_one:
  "0 < ef \<Longrightarrow> starts_with qd {v} (mm_push (int v) (qd v) (MinimaxHeap ef :: 'd::{linorder, zero} minimax))"
  using mm_push_room[OF mm_inv_new[of ef], of "int v" "qd v"]
  by (auto simp: starts_with_def MinimaxHeap_def mm_stored_def intro!: exI[of _ "[v]"])

lemma sfc_init_ok:
  assumes st: "starts_with qd E cand" "E \<subseteq> {..<n}" "E \<inter> visited n vt = {}"
    and "vt_inv n vt" "res_ok k neutral (pairs qd sel (visited n vt)) res"
  shows "\<exists>res' vt'. sfc_init sel res cand vt = Inr (res', vt') \<and> vt_inv n vt' \<and>
    visited n vt' = visited n vt \<union> E \<and> res_ok k neutral (pairs qd sel (visited n vt')) res'"
proof -
  from st(1) obtain vs where
    vs: "distinct vs" "set vs = E" "mm_stored cand = map (\<lambda>v. (qd v, int v)) vs" "mm_inv cand"
    by (auto simp: starts_with_def)
  have len: "length vs = card E" using distinct_card[OF vs(1)] vs(2) by simp
  have at: "mm_ids cand ! i = int (vs ! i) \<and> mm_dis cand ! i = qd (vs ! i)" if "i < length vs" for i
  proof -
    have "i < mm_k cand" using that starts_with_elems(2)[OF st(1)] len by simp
    then have "mm_stored cand ! i = (mm_dis cand ! i, mm_ids cand ! i)"
      using vs(4) by (simp add: mm_stored_def mm_inv_def)
    moreover have "mm_stored cand ! i = (qd (vs ! i), int (vs ! i))" using that by (simp add: vs(3))
    ultimately show ?thesis by simp
  qed
  define step where "step = (\<lambda>v (res, vt).
    (if is_member sel v \<and> qd v < hr_threshold res then fst (add_result (qd v) (int v) res) else res, fst (vt_mark vt v)))"
  have "fold (sfc_init_step sel cand) [0..<length vs] s = fold step (map (\<lambda>i. vs ! i) [0..<length vs]) s" for s
  proof -
    have "fold (sfc_init_step sel cand) js s = fold step (map (\<lambda>i. vs ! i) js) s" if "set js \<subseteq> {..<length vs}" for js
      using that
    proof (induction js arbitrary: s)
      case (Cons j js)
      have "sfc_init_step sel cand j s = step (vs ! j) s"
        using at[of j] Cons.prems by (cases s) (simp add: sfc_init_step_def step_def Let_def)
      with Cons show ?case by simp
    qed simp
    from this[of "[0..<length vs]"] show ?thesis by (simp add: atLeast0LessThan)
  qed
  then have init: "sfc_init sel res cand vt = Inr (fold step vs (res, vt))"
    using at len starts_with_elems(3)[OF st(1)] map_nth[of vs] by (auto simp: sfc_init_def)
  have "\<exists>res' vt'. fold step us (r, t) = (res', vt') \<and> vt_inv n vt' \<and> visited n vt' = visited n t \<union> set us \<and>
      res_ok k neutral (pairs qd sel (visited n vt')) res'"
    if "distinct us" "set us \<subseteq> {..<n}" "set us \<inter> visited n t = {}" "vt_inv n t" "res_ok k neutral (pairs qd sel (visited n t)) r"
    for us r t
    using that
  proof (induction us arbitrary: r t)
    case (Cons u us)
    have u: "u < n" "u \<notin> visited n t" using Cons.prems(2,3) by auto
    let ?t = "fst (vt_mark t u)"
    have t: "vt_inv n ?t" "visited n ?t = insert u (visited n t)"
      using vt.inv_mark[OF Cons.prems(4) u(1)] vt.get_mark[OF Cons.prems(4) u(1)] u by (auto simp: visited_def)
    let ?r = "if is_member sel u \<and> qd u < hr_threshold r then fst (add_result (qd u) (int u) r) else r"
    have "?r = (if is_member sel u then fst (add_result (qd u) (int u) r) else r)"
      using add_result_guard[of "qd u" r "int u"] by auto
    then have r: "res_ok k neutral (pairs qd sel (visited n ?t)) ?r"
      using Cons.prems(5) res_ok_add[OF Cons.prems(5), of "qd u" "int u"]
      unfolding t(2) pairs_insert[OF finite_visited u(2)] by simp
    have "fold step (u # us) (r, t) = fold step us (?r, ?t)" by (simp add: step_def)
    moreover have "\<exists>res' vt'. fold step us (?r, ?t) = (res', vt') \<and> vt_inv n vt' \<and> visited n vt' = visited n ?t \<union> set us \<and>
      res_ok k neutral (pairs qd sel (visited n vt')) res'"
      using Cons.prems t r by (intro Cons.IH) auto
    ultimately show ?case using t(2) by auto
  qed simp
  from this[OF vs(1), of vt res] assms vs(2) show ?thesis unfolding init by auto
qed

text \<open>The search as a whole. It returns; it has visited the entries and only vertices of \<open>R\<close>; the results
  are the best of the visited ones that the selector admits; every vertex was evaluated once. When the
  queue has room for all of \<open>R\<close>, the visited vertices are closed under neighbors.\<close>

lemma search_from_candidates_ok:
  fixes qd :: "nat \<Rightarrow> 'd::{linorder, zero}"
  assumes R: "R \<subseteq> {..<n}" "\<forall>v \<in> R. set (nbrs h v l) \<subseteq> R"
    and st: "starts_with qd E cand" "E \<subseteq> R" "E \<inter> visited n vt = {}" "visited n vt \<subseteq> R"
    and "vt_inv n vt" "res_ok k neutral (pairs qd sel (visited n vt)) res"
    and par: "extract_search_params h params = (ddc, ef, sel)"
    and exh: "exh \<longrightarrow> ddc \<and> card R \<le> ef \<and> card R \<le> mm_n cand \<and>
        (\<forall>v \<in> visited n vt. set (nbrs h v l) \<subseteq> visited n vt)"
  shows "\<exists>nres' res' cand' vt' stats'.
    search_from_candidates h qd res cand vt stats l nres params = Some (Inr (nres', res', cand', vt', stats')) \<and>
    vt_inv n vt' \<and> visited n vt \<union> E \<subseteq> visited n vt' \<and> visited n vt' \<subseteq> R \<and>
    res_ok k neutral (pairs qd sel (visited n vt')) res' \<and>
    (l = 0 \<longrightarrow> st_ndis stats' + card (visited n vt \<union> E) = st_ndis stats + card (visited n vt')) \<and>
    (exh \<longrightarrow> (\<forall>v \<in> visited n vt'. set (nbrs h v l) \<subseteq> visited n vt'))"
proof -
  have "E \<subseteq> {..<n}" using st(2) R(1) by blast
  from sfc_init_ok[OF st(1) this st(3) assms(7,8)] obtain res1 vt1 where
    i: "sfc_init sel res cand vt = Inr (res1, vt1)" "vt_inv n vt1" "visited n vt1 = visited n vt \<union> E"
    "res_ok k neutral (pairs qd sel (visited n vt1)) res1" by blast
  have cand: "mm_inv cand" "0 < mm_n cand" using st(1) by (simp_all add: starts_with_def)
  note el = starts_with_elems[OF st(1)]
  let ?V = "visited n vt \<union> E"
  have "card E \<le> card ?V" by (intro card_mono) (auto intro: finite_subset[OF \<open>E \<subseteq> {..<n}\<close>])
  then have inv: "sfc_inv h qd sel l n k neutral ef exh R ?V (res1, cand, vt1, nres, 0, 0)"
    using i cand st(2,4) exh el unfolding sfc_inv_def by auto
  have "exh \<Longrightarrow> ddc" using exh by blast
  from sfc_run[OF inv R this] obtain res' cand' vt' nres' ndis' nstep' where
    r: "run_loop (sfc_step h qd ddc ef sel l) (res1, cand, vt1, nres, 0, 0) = Some (res', cand', vt', nres', ndis', nstep')"
    and post: "sfc_post h qd sel l n k neutral exh R ?V (res', cand', vt', nres', ndis', nstep')"
    by (metis prod_cases6)
  show ?thesis
    using i r post by (simp add: search_from_candidates_def par sfc_post_def)
qed

end
