(* ===== verification/Beam.thy ===== *)
theory Beam
  imports HnswSearchOk
begin

text \<open>
  Beam search with two queues: \<open>tc\<close> keeps the \<open>ef\<close> nearest vertices seen, the farthest on top, and
  \<open>cand\<close> the vertices to expand, the nearest on top. The unbounded search of a query and the search of
  neighbors for a new vertex are of this form, with queues that break ties differently; the locale
  \<open>beam\<close> states what they need of the two orders.
\<close>

section \<open>The step of both searches\<close>

definition beam_add ::
  "('d \<times> nat \<Rightarrow> 'd \<times> nat \<Rightarrow> bool) \<Rightarrow> ('d \<times> nat \<Rightarrow> 'd \<times> nat \<Rightarrow> bool) \<Rightarrow> nat \<Rightarrow> (nat \<Rightarrow> 'd::linorder) \<Rightarrow> nat \<Rightarrow>
   ('d \<times> nat) list \<times> ('d \<times> nat) list \<Rightarrow> ('d \<times> nat) list \<times> ('d \<times> nat) list" where
  "beam_add far near ef qd v s =
     (let (tc, cand) = s
      in if fst (hd tc) > qd v \<or> length tc < ef
         then let tc' = pq_push far (qd v, v) tc
              in (if length tc' > ef then tl tc' else tc', pq_push near (qd v, v) cand)
         else (tc, cand))"

text \<open>The queue \<open>tc\<close> holds the \<open>ef\<close> nearest entries of \<open>A\<close>.\<close>

definition best_of :: "('d \<times> nat \<Rightarrow> 'd \<times> nat \<Rightarrow> bool) \<Rightarrow> nat \<Rightarrow> ('d::linorder \<times> nat) multiset \<Rightarrow> ('d \<times> nat) list \<Rightarrow> bool" where
  "best_of far ef A tc \<longleftrightarrow> pq_inv far tc \<and> length tc = min ef (size A) \<and>
     (\<exists>R. A = mset tc + R \<and> (\<forall>r \<in># R. \<forall>a \<in> set tc. fst a \<le> fst r))"

definition npairs :: "(nat \<Rightarrow> 'd) \<Rightarrow> nat set \<Rightarrow> ('d \<times> nat) multiset" where
  "npairs qd V = image_mset (\<lambda>v. (qd v, v)) (mset_set V)"

lemma npairs_insert: "finite V \<Longrightarrow> v \<notin> V \<Longrightarrow> npairs qd (insert v V) = add_mset (qd v, v) (npairs qd V)"
  by (simp add: npairs_def)

lemma size_npairs: "size (npairs qd V) = card V"
  by (simp add: npairs_def)

lemma best_ofE:
  assumes "best_of far ef A tc"
  obtains R where "pq_inv far tc" "length tc = min ef (size A)" "A = mset tc + R"
    "\<forall>r \<in># R. \<forall>a \<in> set tc. fst a \<le> fst r"
  using assms unfolding best_of_def by blast

lemma best_of_nonempty: "best_of far ef A tc \<Longrightarrow> 1 \<le> ef \<Longrightarrow> A \<noteq> {#} \<Longrightarrow> tc \<noteq> []"
  unfolding best_of_def nonempty_has_size by (cases tc) auto

lemma best_of_all:
  assumes "best_of far ef A tc" "length tc = size A"
  shows "A = mset tc"
proof -
  from assms(1) obtain R where "A = mset tc + R" by (rule best_ofE)
  moreover from this assms(2) have "R = {#}" by simp
  ultimately show ?thesis by simp
qed

text \<open>The set \<open>R\<close> bounds what can be visited; when \<open>exh\<close> holds, \<open>ef\<close> is not smaller than it and every
  visited vertex is waiting or has its neighbors visited.\<close>

definition beam_inv ::
  "('d \<times> nat \<Rightarrow> 'd \<times> nat \<Rightarrow> bool) \<Rightarrow> ('d \<times> nat \<Rightarrow> 'd \<times> nat \<Rightarrow> bool) \<Rightarrow> (nat \<Rightarrow> nat list) \<Rightarrow> (nat \<Rightarrow> 'd::linorder) \<Rightarrow>
   nat \<Rightarrow> nat \<Rightarrow> bool \<Rightarrow> nat set \<Rightarrow> ('d \<times> nat) list \<times> ('d \<times> nat) list \<times> vtable \<Rightarrow> bool" where
  "beam_inv far near N qd n ef exh R s \<longleftrightarrow> (case s of (tc, cand, vt) \<Rightarrow>
     vt_inv n vt \<and> visited n vt \<noteq> {} \<and> visited n vt \<subseteq> R \<and>
     best_of far ef (npairs qd (visited n vt)) tc \<and> pq_inv near cand \<and>
     (\<forall>p \<in> set cand. \<exists>v \<in> visited n vt. p = (qd v, v)) \<and>
     (exh \<longrightarrow> card R \<le> ef \<and>
       (\<forall>v \<in> visited n vt. (qd v, v) \<in> set cand \<or> set (N v) \<subseteq> visited n vt)))"

definition beam_measure :: "nat \<Rightarrow> ('d \<times> nat) list \<times> ('d \<times> nat) list \<times> vtable \<Rightarrow> nat" where
  "beam_measure n s = (case s of (tc, cand, vt) \<Rightarrow> (n - card (visited n vt)) + length cand)"

section \<open>Orders of the two queues\<close>

locale beam = far: priority far + near: priority near
  for far near :: "'d::linorder \<times> nat \<Rightarrow> 'd \<times> nat \<Rightarrow> bool" +
  assumes far_le: "\<not> far p q \<Longrightarrow> fst p \<le> fst q"
    and near_le: "\<not> near p q \<Longrightarrow> fst q \<le> fst p"
begin

lemma tc_farthest: "best_of far ef A tc \<Longrightarrow> tc \<noteq> [] \<Longrightarrow> a \<in> set tc \<Longrightarrow> fst a \<le> fst (hd tc)"
  using far.top_first[of tc a] far_le by (auto simp: best_of_def)

lemma cand_nearest: "pq_inv near cand \<Longrightarrow> cand \<noteq> [] \<Longrightarrow> a \<in> set cand \<Longrightarrow> fst (hd cand) \<le> fst a"
  using near.top_first[of cand a] near_le by auto

lemma best_of_skip:
  assumes "best_of far ef A tc" "\<not> fst (hd tc) > d" "\<not> length tc < ef" "tc \<noteq> []"
  shows "best_of far ef (add_mset (d, v) A) tc"
proof -
  from assms(1) obtain R where R: "pq_inv far tc" "length tc = min ef (size A)" "A = mset tc + R"
    "\<forall>r \<in># R. \<forall>a \<in> set tc. fst a \<le> fst r" by (rule best_ofE)
  have "fst a \<le> d" if "a \<in> set tc" for a
    using tc_farthest[OF assms(1,4) that] assms(2) by simp
  then have "\<forall>r \<in># add_mset (d, v) R. \<forall>a \<in> set tc. fst a \<le> fst r" using R(4) by auto
  moreover have "add_mset (d, v) A = mset tc + add_mset (d, v) R" using R(3) by simp
  moreover have "length tc = min ef (size (add_mset (d, v) A))" using R(2) assms(3) by auto
  ultimately show ?thesis using R(1) unfolding best_of_def by blast
qed

lemma best_of_push:
  fixes d :: 'd and v :: nat
  assumes "best_of far ef A tc" "fst (hd tc) > d \<or> length tc < ef" "1 \<le> ef" "tc \<noteq> []"
  defines "tc' \<equiv> pq_push far (d, v) tc"
  shows "best_of far ef (add_mset (d, v) A) (if length tc' > ef then tl tc' else tc')"
proof -
  from assms(1) obtain R where R: "pq_inv far tc" "length tc = min ef (size A)" "A = mset tc + R"
    "\<forall>r \<in># R. \<forall>a \<in> set tc. fst a \<le> fst r" by (rule best_ofE)
  have inv': "pq_inv far tc'" unfolding tc'_def by (rule far.inv_push[OF R(1)])
  have m': "mset tc' = add_mset (d, v) (mset tc)" "length tc' = Suc (length tc)" by (simp_all add: tc'_def)
  show ?thesis
  proof (cases "length tc < ef")
    case True
    with R(2) have "size A = length tc" by simp
    with R(3) have "R = {#}" by simp
    then have "add_mset (d, v) A = mset tc' + {#}" using R(3) m' by simp
    moreover have "length tc' = min ef (size (add_mset (d, v) A))" using True R(2) m'(2) by auto
    ultimately show ?thesis using True inv' m'(2) by (auto simp: best_of_def)
  next
    case False
    with R(2) have full: "length tc = ef" "ef \<le> size A" by auto
    have d: "fst (hd tc) > d" using False assms(2) by simp
    obtain w q where t': "tc' = w # q" using m'(2) by (cases tc') auto
    have w: "fst a \<le> fst w" if "a \<in> set tc'" for a
      using far.top_first[OF inv' _ that] t' far_le by simp
    have q: "mset q + {#w#} = add_mset (d, v) (mset tc)" using m'(1) t' by simp
    have "\<forall>r \<in># add_mset w R. \<forall>a \<in> set q. fst a \<le> fst r"
    proof (intro ballI)
      fix r a assume r: "r \<in># add_mset w R" and a: "a \<in> set q"
      then have a': "a \<in> set tc'" using t' by simp
      then have "a = (d, v) \<or> a \<in> set tc" by (auto simp: tc'_def)
      moreover have "hd tc \<in> set tc" using assms(4) by simp
      ultimately have "fst a \<le> fst r" if "r \<in># R" using R(4) that d by fastforce
      then show "fst a \<le> fst r" using r w[OF a'] by auto
    qed
    moreover have "add_mset (d, v) A = mset q + add_mset w R"
    proof -
      have "mset q + add_mset w R = (mset q + {#w#}) + R" by simp
      also have "\<dots> = add_mset (d, v) A" unfolding q R(3) by simp
      finally show ?thesis by (rule sym)
    qed
    moreover have "length q = min ef (size (add_mset (d, v) A))" using full m'(2) t' by simp
    moreover have "pq_inv far q" using far.inv_pop[OF inv'] t' by simp
    ultimately have "best_of far ef (add_mset (d, v) A) q" unfolding best_of_def by blast
    then show ?thesis using full m'(2) t' by simp
  qed
qed

text \<open>Evaluating new vertices: the queue \<open>cand\<close> gets a subset of them, all of them as long as fewer than
  \<open>ef\<close> vertices have been visited.\<close>

lemma beam_add_fold:
  assumes "best_of far ef (npairs qd V) tc" "finite V" "V \<noteq> {}" "distinct us" "set us \<inter> V = {}" "1 \<le> ef"
    "pq_inv near cand" "fold (beam_add far near ef qd) us (tc, cand) = (tc', cand')"
  shows "best_of far ef (npairs qd (V \<union> set us)) tc' \<and> pq_inv near cand' \<and>
    mset cand' \<subseteq># mset cand + mset (map (\<lambda>u. (qd u, u)) us) \<and>
    (card V + length us \<le> ef \<longrightarrow> mset cand' = mset cand + mset (map (\<lambda>u. (qd u, u)) us))"
  using assms
proof (induction us arbitrary: V tc cand)
  case (Cons u us)
  have u: "u \<notin> V" using Cons.prems(5) by auto
  have tc: "tc \<noteq> []"
    using Cons.prems(2,3) by (intro best_of_nonempty[OF Cons.prems(1,6)]) (auto simp: npairs_def mset_set_empty_iff)
  let ?add = "fst (hd tc) > qd u \<or> length tc < ef"
  let ?t = "pq_push far (qd u, u) tc"
  define tc1 where "tc1 = (if ?add then (if length ?t > ef then tl ?t else ?t) else tc)"
  define cand1 where "cand1 = (if ?add then pq_push near (qd u, u) cand else cand)"
  have s: "beam_add far near ef qd u (tc, cand) = (tc1, cand1)"
    by (simp add: beam_add_def Let_def tc1_def cand1_def)
  have b: "best_of far ef (npairs qd (insert u V)) tc1"
  proof (cases ?add)
    case True
    then show ?thesis using best_of_push[OF Cons.prems(1) True Cons.prems(6) tc] npairs_insert[OF Cons.prems(2) u, of qd]
      by (simp add: tc1_def)
  next
    case False
    then show ?thesis using best_of_skip[OF Cons.prems(1), of "qd u" u] tc npairs_insert[OF Cons.prems(2) u, of qd]
      by (simp add: tc1_def)
  qed
  have c: "pq_inv near cand1" using near.inv_push[OF Cons.prems(7)] Cons.prems(7) by (simp add: cand1_def)
  have room: "mset cand1 = add_mset (qd u, u) (mset cand)" if "card V < ef"
    using that Cons.prems(1) by (simp add: cand1_def best_of_def size_npairs)
  have IH: "best_of far ef (npairs qd (insert u V \<union> set us)) tc' \<and> pq_inv near cand' \<and>
    mset cand' \<subseteq># mset cand1 + mset (map (\<lambda>u. (qd u, u)) us) \<and>
    (card (insert u V) + length us \<le> ef \<longrightarrow> mset cand' = mset cand1 + mset (map (\<lambda>u. (qd u, u)) us))"
    by (rule Cons.IH[OF b]) (use Cons.prems c s in auto)
  have "mset cand1 + mset (map (\<lambda>u. (qd u, u)) us) \<subseteq># mset cand + mset (map (\<lambda>u. (qd u, u)) (u # us))"
    by (auto simp: cand1_def)
  with IH room Cons.prems(2) u show ?case by (auto intro: subset_mset.order_trans)
qed simp

text \<open>Expanding the nearest candidate.\<close>

lemma beam_expand:
  assumes inv: "beam_inv far near N qd n ef exh R (tc, cand, vt)" and "1 \<le> ef"
    and R: "R \<subseteq> {..<n}" "\<forall>v \<in> R. set (N v) \<subseteq> R"
    and hd: "cand \<noteq> []" "hd cand = (d0, v0)"
    and f: "fold (beam_add far near ef qd) (unseen vt_mark (N v0) vt) (tc, tl cand) = (tc', cand')"
  defines "vt' \<equiv> fold (\<lambda>v vt. fst (vt_mark vt v)) (N v0) vt"
  shows "beam_inv far near N qd n ef exh R (tc', cand', vt')"
    "beam_measure n (tc', cand', vt') < beam_measure n (tc, cand, vt)"
    "card (visited n vt') = card (visited n vt) + length (unseen vt_mark (N v0) vt)"
    "visited n vt \<subseteq> visited n vt'"
proof -
  let ?V = "visited n vt" and ?us = "unseen vt_mark (N v0) vt"
  from inv have I: "vt_inv n vt" "?V \<noteq> {}" "?V \<subseteq> R"
    "best_of far ef (npairs qd ?V) tc" "pq_inv near cand" "\<forall>p \<in> set cand. \<exists>v \<in> ?V. p = (qd v, v)"
    "exh \<Longrightarrow> card R \<le> ef \<and> (\<forall>v \<in> ?V. (qd v, v) \<in> set cand \<or> set (N v) \<subseteq> ?V)"
    by (simp_all add: beam_inv_def)
  have v0: "v0 \<in> ?V" "hd cand = (qd v0, v0)" using I(6) hd hd_in_set[OF hd(1)] by auto
  have N: "set (N v0) \<subseteq> R" "set (N v0) \<subseteq> {..<n}" using R I(3) v0(1) by blast+
  note M = visited_marks[OF I(1) N(2)]
  have disj: "set ?us \<inter> ?V = {}" using M(4) by auto
  note F = beam_add_fold[OF I(4) finite_visited I(2) M(3) disj assms(2) near.inv_pop[OF I(5)] f]
  have V': "visited n vt' = ?V \<union> set ?us" using M(2,4) by (auto simp: vt'_def)
  then show sub0: "visited n vt \<subseteq> visited n vt'" by blast
  show card: "card (visited n vt') = card ?V + length ?us"
    unfolding V' using disj M(3) by (subst card_Un_disjoint) (auto simp: distinct_card)
  have sub: "visited n vt' \<subseteq> R" using I(3) N(1) M(2) by (auto simp: vt'_def)
  have "card (visited n vt') \<le> n" using subset_trans[OF sub R(1)] card_mono[of "{..<n}"] by fastforce
  moreover have "length cand' \<le> length cand - 1 + length ?us"
    using F size_mset_mono[of "mset cand'" "mset (tl cand) + mset (map (\<lambda>u. (qd u, u)) ?us)"] by simp
  moreover have "0 < length cand" using hd(1) by simp
  ultimately show "beam_measure n (tc', cand', vt') < beam_measure n (tc, cand, vt)"
    unfolding beam_measure_def prod.case card by linarith
  have els: "\<exists>v \<in> visited n vt'. p = (qd v, v)" if "p \<in> set cand'" for p
  proof -
    from F have "mset cand' \<subseteq># mset (tl cand) + mset (map (\<lambda>u. (qd u, u)) ?us)" by blast
    moreover from that have "p \<in># mset cand'" by simp
    ultimately have "p \<in># mset (tl cand) + mset (map (\<lambda>u. (qd u, u)) ?us)" by (rule mset_subset_eqD)
    then have "p \<in> set cand \<or> p \<in> (\<lambda>u. (qd u, u)) ` set ?us" using hd(1) by (auto dest: list.set_sel(2))
    with I(6) V' show ?thesis by blast
  qed
  have exh: "card R \<le> ef \<and> (\<forall>v \<in> visited n vt'. (qd v, v) \<in> set cand' \<or> set (N v) \<subseteq> visited n vt')" if exh
  proof -
    note E = I(7)[OF that]
    have "card (visited n vt') \<le> card R" using sub R(1) by (intro card_mono) (auto intro: finite_subset)
    with E F card have "mset cand' = mset (tl cand) + mset (map (\<lambda>u. (qd u, u)) ?us)" by simp
    then have c': "set cand' = set (tl cand) \<union> (\<lambda>u. (qd u, u)) ` set ?us" by (metis set_mset_mset set_mset_union set_map)
    have "(qd v, v) \<in> set cand' \<or> set (N v) \<subseteq> visited n vt'" if v: "v \<in> visited n vt'" for v
    proof (cases "v = v0 \<or> v \<in> set ?us")
      case True
      then show ?thesis using c' M(2) by (auto simp: vt'_def)
    next
      case False
      with v V' have "v \<in> ?V" by auto
      moreover have "(qd v, v) \<in> set (tl cand)" if "(qd v, v) \<in> set cand"
        using that False v0(2) hd(1) by (cases cand) auto
      ultimately show ?thesis using E c' V' by blast
    qed
    with E show ?thesis by blast
  qed
  show "beam_inv far near N qd n ef exh R (tc', cand', vt')"
    using F M(1) I(2) sub els exh V' by (auto simp: beam_inv_def vt'_def[symmetric])
qed

text \<open>The loop stops early only when the queue is larger than the bound.\<close>

lemma beam_no_early_stop:
  assumes "beam_inv far near N qd n ef exh R (tc, cand, vt)" "1 \<le> ef" "R \<subseteq> {..<n}" "cand \<noteq> []" "fst (hd cand) > fst (hd tc)"
  shows "\<not> exh"
proof
  assume exh
  let ?V = "visited n vt"
  from assms(1) have I: "?V \<noteq> {}" "?V \<subseteq> R" "best_of far ef (npairs qd ?V) tc"
    "\<forall>p \<in> set cand. \<exists>v \<in> ?V. p = (qd v, v)" "card R \<le> ef"
    using \<open>exh\<close> by (simp_all add: beam_inv_def)
  have "card ?V \<le> card R" using I(2) assms(3) by (intro card_mono) (auto intro: finite_subset)
  with I(5,3) have "length tc = card ?V" by (simp add: best_of_def size_npairs)
  then have m: "mset tc = npairs qd ?V" using best_of_all[OF I(3)] by (simp add: size_npairs)
  from I(4) assms(4) obtain v where v: "v \<in> ?V" "hd cand = (qd v, v)" by (metis hd_in_set)
  then have "hd cand \<in># npairs qd ?V" by (simp add: npairs_def)
  then have "hd cand \<in> set tc" unfolding m[symmetric] by simp
  then have "fst (hd cand) \<le> fst (hd tc)" using tc_farthest[OF I(3)] by (metis empty_iff list.set(1))
  with assms(5) show False by simp
qed

end

interpretation lex: beam "CMax_cmp2 :: 'd::linorder \<times> nat \<Rightarrow> _" "CMin_cmp2 :: 'd \<times> nat \<Rightarrow> _"
  by unfold_locales (auto simp: CMax_cmp2_def CMin_cmp2_def)

interpretation bydist: beam "farther :: 'd::linorder \<times> nat \<Rightarrow> _" "nearer :: 'd \<times> nat \<Rightarrow> _"
  by unfold_locales (auto simp: farther_def nearer_def)

end
