(* ===== verification/HnswUnbounded.thy ===== *)
theory HnswUnbounded
  imports Beam
begin

text \<open>
  Correctness of \<open>search_from_candidate_unbounded\<close>: it returns, and its queue holds the \<open>ef\<close> nearest of
  the vertices that it has visited. It is the beam search of \<open>Beam\<close> with lexicographic queues.
\<close>

lemma usc_add_beam:
  "usc_add ef qd v (tc, cand, ndis)
    = (let (tc', cand') = beam_add CMax_cmp2 CMin_cmp2 ef qd v (tc, cand) in (tc', cand', ndis + 1))"
  by (simp add: usc_add_def beam_add_def Let_def)

lemma usc_add_fold:
  "fold (usc_add ef qd) us (tc, cand, ndis)
    = (let (tc', cand') = fold (beam_add CMax_cmp2 CMin_cmp2 ef qd) us (tc, cand) in (tc', cand', ndis + length us))"
  by (induction us arbitrary: tc cand ndis) (simp_all add: usc_add_beam Let_def case_prod_beta)

definition usc_inv ::
  "hnsw \<Rightarrow> (nat \<Rightarrow> 'd::linorder) \<Rightarrow> nat \<Rightarrow> nat \<Rightarrow> bool \<Rightarrow> nat set \<Rightarrow> nat set \<Rightarrow>
   ('d \<times> nat) list \<times> ('d \<times> nat) list \<times> vtable \<times> nat \<times> nat \<Rightarrow> bool" where
  "usc_inv h qd n ef exh R V0 s \<longleftrightarrow> (case s of (tc, cand, vt, ndis, nhops) \<Rightarrow>
     beam_inv CMax_cmp2 CMin_cmp2 (\<lambda>v. nbrs h v 0) qd n ef exh R (tc, cand, vt) \<and>
     V0 \<subseteq> visited n vt \<and> ndis + card V0 = card (visited n vt))"

lemma usc_run:
  fixes qd :: "nat \<Rightarrow> 'd::linorder"
  assumes "usc_inv h qd n ef exh R V0 s" "1 \<le> ef"
    and R: "R \<subseteq> {..<n}" "\<forall>v \<in> R. set (nbrs h v 0) \<subseteq> R"
  shows "\<exists>tc cand vt ndis nhops. run_loop (usc_step h qd ef) s = Some (tc, cand, vt, ndis, nhops) \<and>
    usc_inv h qd n ef False R V0 (tc, cand, vt, ndis, nhops) \<and>
    (exh \<longrightarrow> (\<forall>v \<in> visited n vt. set (nbrs h v 0) \<subseteq> visited n vt))"
proof -
  define Q where "Q = (\<lambda>r. usc_inv h qd n ef False R V0 r \<and> (case r of (tc, cand, vt, ndis, nhops) \<Rightarrow>
    exh \<longrightarrow> (\<forall>v \<in> visited n vt. set (nbrs h v 0) \<subseteq> visited n vt)))"
  have "\<exists>r. run_loop (usc_step h qd ef) s = Some r \<and> Q r"
  proof (rule run_loop_total[where I = "usc_inv h qd n ef exh R V0"
      and m = "\<lambda>(tc, cand, vt, ndis, nhops). beam_measure n (tc, cand, vt)"])
    show "usc_inv h qd n ef exh R V0 s" by (rule assms(1))
  next
    fix s s' assume inv: "usc_inv h qd n ef exh R V0 s" and st: "usc_step h qd ef s = Inr s'"
    obtain tc cand vt ndis nhops where s: "s = (tc, cand, vt, ndis, nhops)" by (metis prod_cases5)
    from inv have b: "beam_inv CMax_cmp2 CMin_cmp2 (\<lambda>v. nbrs h v 0) qd n ef exh R (tc, cand, vt)"
      and V: "V0 \<subseteq> visited n vt" "ndis + card V0 = card (visited n vt)" by (simp_all add: s usc_inv_def)
    obtain d0 v0 where hd: "hd cand = (d0, v0)" by fastforce
    have ne: "cand \<noteq> []" using st by (auto simp: usc_step_def s)
    obtain tc' cand' where
      f: "fold (beam_add CMax_cmp2 CMin_cmp2 ef qd) (unseen vt_mark (nbrs h v0 0) vt) (tc, tl cand) = (tc', cand')"
      by fastforce
    have s': "s' = (tc', cand', fold (\<lambda>v vt. fst (vt_mark vt v)) (nbrs h v0 0) vt, ndis + length (unseen vt_mark (nbrs h v0 0) vt), nhops + 1)"
      using st ne hd f by (auto simp: usc_step_def s Let_def batch4_fold usc_add_fold split: if_splits)
    note X = lex.beam_expand[OF b assms(2) R ne hd f]
    show "usc_inv h qd n ef exh R V0 s' \<and>
      (case s' of (tc, cand, vt, ndis, nhops) \<Rightarrow> beam_measure n (tc, cand, vt))
      < (case s of (tc, cand, vt, ndis, nhops) \<Rightarrow> beam_measure n (tc, cand, vt))"
      using X V by (auto simp: s s' usc_inv_def)
  next
    fix s r assume inv: "usc_inv h qd n ef exh R V0 s" and st: "usc_step h qd ef s = Inl r"
    obtain tc cand vt ndis nhops where s: "s = (tc, cand, vt, ndis, nhops)" by (metis prod_cases5)
    have b: "beam_inv CMax_cmp2 CMin_cmp2 (\<lambda>v. nbrs h v 0) qd n ef exh R (tc, cand, vt)"
      using inv by (simp add: s usc_inv_def)
    have r: "r = s \<and> (cand = [] \<or> fst (hd cand) > fst (hd tc))"
      using st by (auto simp: usc_step_def s Let_def split: prod.splits if_splits)
    then have "cand = [] \<or> \<not> exh" using lex.beam_no_early_stop[OF b assms(2) R(1)] by blast
    then show "Q r" using r inv b by (auto simp: Q_def s usc_inv_def beam_inv_def)
  qed
  then show ?thesis unfolding Q_def by auto
qed

lemma search_from_candidate_unbounded_ok:
  fixes qd :: "nat \<Rightarrow> 'd::linorder"
  assumes R: "R \<subseteq> {..<n}" "\<forall>v \<in> R. set (nbrs h v 0) \<subseteq> R"
    and "v \<in> R" "vt_inv n vt" "visited n vt = {}" "1 \<le> ef"
  shows "\<exists>tc vt' stats'. search_from_candidate_unbounded h (qd v, v) qd ef vt stats = Some (tc, vt', stats') \<and>
    vt_inv n vt' \<and> v \<in> visited n vt' \<and> visited n vt' \<subseteq> R \<and> best_of CMax_cmp2 ef (npairs qd (visited n vt')) tc \<and>
    st_ndis stats' + 1 = st_ndis stats + card (visited n vt') \<and>
    (card R \<le> ef \<longrightarrow> (\<forall>v \<in> visited n vt'. set (nbrs h v 0) \<subseteq> visited n vt'))"
proof -
  have v: "v < n" using assms(3) R(1) by auto
  let ?vt = "fst (vt_mark vt v)"
  have V: "visited n ?vt = {v}"
    using vt.get_mark[OF assms(4) v] v assms(5) by (auto simp: visited_def)
  have "best_of CMax_cmp2 ef (npairs qd {v}) [(qd v, v)]"
    using assms(6) by (simp add: best_of_def npairs_def pq_inv_def)
  then have "usc_inv h qd n ef (card R \<le> ef) R {v} ([(qd v, v)], [(qd v, v)], ?vt, 0, 0)"
    using vt.inv_mark[OF assms(4) v] V assms(3) by (simp add: usc_inv_def beam_inv_def pq_inv_def)
  from usc_run[OF this assms(6) R] obtain tc cand vt' ndis nhops where
    r: "run_loop (usc_step h qd ef) ([(qd v, v)], [(qd v, v)], ?vt, 0, 0) = Some (tc, cand, vt', ndis, nhops)"
    and i: "usc_inv h qd n ef False R {v} (tc, cand, vt', ndis, nhops)"
    and c: "card R \<le> ef \<longrightarrow> (\<forall>v \<in> visited n vt'. set (nbrs h v 0) \<subseteq> visited n vt')" by auto
  show ?thesis
    using r i c by (simp add: search_from_candidate_unbounded_def usc_inv_def beam_inv_def)
qed

end
