(* ===== verification/HnswProps.thy ===== *)
theory HnswProps
  imports HnswUnbounded
begin

text \<open>
  The properties of the HNSW searches, and a small graph on which they are instantiated.
\<close>

section \<open>From a graph to the results\<close>

lemma graph_level0:
  assumes "graph_ok h"
  shows "on_level h 0 v \<longleftrightarrow> v < length (hn_levels h)"
    "\<forall>v \<in> {..<length (hn_levels h)}. set (nbrs h v 0) \<subseteq> {..<length (hn_levels h)}"
proof -
  show lev: "on_level h 0 v \<longleftrightarrow> v < length (hn_levels h)" for v
    using assms by (auto simp: graph_ok_def layout_ok_def on_level_def Suc_le_eq)
  show "\<forall>v \<in> {..<length (hn_levels h)}. set (nbrs h v 0) \<subseteq> {..<length (hn_levels h)}"
    using assms lev by (auto simp: graph_ok_def links_ok_def)
qed

lemma pairs_empty [simp]: "pairs qd sel {} = {#}"
  by (simp add: pairs_def)

lemma pairs_below:
  assumes "\<forall>v < n. qd v < neutral" "V \<subseteq> {..<n}"
  shows "\<forall>p \<in># pairs qd sel V. fst p < neutral \<and> snd p \<noteq> -1"
proof -
  have "finite {v \<in> V. is_member sel v}" using assms(2) by (auto intro: finite_subset[of _ "{..<n}"])
  with assms show ?thesis by (auto simp: pairs_def)
qed

lemma pairs_None: "pairs qd None V = image_mset (\<lambda>(d, v). (d, int v)) (npairs qd V)"
  by (simp add: pairs_def npairs_def is_member_def image_mset.compositionality comp_def)

text \<open>The end of the unbounded search: the \<open>k\<close> nearest of the queue, through the result handler.\<close>

lemma best_of_drop:
  assumes "best_of CMax_cmp2 ef A tc" "k \<le> ef"
  shows "best_of CMax_cmp2 k A (drop (length tc - k) tc)"
proof -
  from assms(1) obtain R where R: "pq_inv CMax_cmp2 tc" "length tc = min ef (size A)" "A = mset tc + R"
    "\<forall>r \<in># R. \<forall>a \<in> set tc. fst a \<le> fst r" by (rule best_ofE)
  let ?t = "take (length tc - k) tc" and ?d = "drop (length tc - k) tc"
  have far: "fst a \<le> fst b" if "a \<in> set ?d" "b \<in> set ?t" for a b
  proof -
    have "sorted_wrt (\<lambda>x y. \<not> CMax_cmp2 y x) (?t @ ?d)" using R(1) by (simp add: pq_inv_def)
    with that have "\<not> CMax_cmp2 a b" unfolding sorted_wrt_append by blast
    then show ?thesis by (auto simp: CMax_cmp2_def)
  qed
  have "mset tc = mset ?d + mset ?t" by (metis append_take_drop_id mset_append union_commute)
  then have "A = mset ?d + (mset ?t + R)" using R(3) by simp
  moreover have "\<forall>r \<in># mset ?t + R. \<forall>a \<in> set ?d. fst a \<le> fst r"
  proof (intro ballI)
    fix r a assume r: "r \<in># mset ?t + R" and a: "a \<in> set ?d"
    from a have "a \<in> set tc" by (rule in_set_dropD)
    from r consider "r \<in> set ?t" | "r \<in># R" by auto
    then show "fst a \<le> fst r"
      using far[OF a, of r] R(4) \<open>a \<in> set tc\<close> by cases auto
  qed
  moreover have "pq_inv CMax_cmp2 ?d" using R(1) by (simp add: pq_inv_def sorted_wrt_drop)
  moreover have "length ?d = min k (size A)" using R(2) assms(2) by auto
  ultimately show ?thesis unfolding best_of_def by blast
qed

lemma add_results_fold:
  "res_ok k neutral A r \<Longrightarrow>
    res_ok k neutral (image_mset (\<lambda>(d, v). (d, int v)) (mset xs) + A) (fold (\<lambda>(d, label) res. fst (add_result d (int label) res)) xs r)"
proof (induction xs arbitrary: A r)
  case (Cons x xs)
  obtain d v where x: "x = (d, v)" by fastforce
  from Cons.IH[OF res_ok_add[OF Cons.prems, of d "int v"]] show ?case by (simp add: x)
qed simp

lemma topk_of_best:
  assumes "best_of CMax_cmp2 k A tc" "topk k (image_mset (\<lambda>(d, v). (d, int v)) (mset tc)) S"
  shows "topk k (image_mset (\<lambda>(d, v). (d, int v)) A) S"
proof -
  let ?f = "\<lambda>(d, v). (d, int v)"
  from assms(1) obtain R where R: "length tc = min k (size A)" "A = mset tc + R"
    "\<forall>r \<in># R. \<forall>a \<in> set tc. fst a \<le> fst r" by (rule best_ofE)
  from assms(2) obtain R' where S: "length S = min k (length tc)" "sorted (map fst S)"
    "image_mset ?f (mset tc) = mset S + R'" by (auto simp: topk_def)
  have "size R' = 0" using arg_cong[OF S(3), of size] S(1) R(1) by simp
  then have m: "image_mset ?f (mset tc) = mset S" using S(3) by simp
  have "\<forall>r \<in># image_mset ?f R. \<forall>a \<in> set S. fst a \<le> fst r"
  proof (intro ballI)
    fix r a assume r: "r \<in># image_mset ?f R" and "a \<in> set S"
    then have "a \<in># image_mset ?f (mset tc)" unfolding m by simp
    with r R(3) show "fst a \<le> fst r" by fastforce
  qed
  moreover have "image_mset ?f A = mset S + image_mset ?f R" using m R(2) by simp
  moreover have "length S = min k (size (image_mset ?f A))" using S(1) R(1) by simp
  ultimately show ?thesis using S(2) unfolding topk_def by blast
qed

section \<open>The whole search\<close>

lemma queue_params_ef: "extract_search_params h params = (ddc, ef, sel) \<Longrightarrow> snd (queue_params h params) = ef"
  by (auto simp: extract_search_params_def queue_params_def split: option.splits)

lemma hnsw_search_visits:
  fixes qd :: "nat \<Rightarrow> 'd::{linorder, zero}"
  assumes g: "graph_ok h" "hn_entry_point h \<noteq> -1"
    and vt: "vt_inv (length (hn_levels h)) vt" "visited (length (hn_levels h)) vt = {}"
    and k: "1 \<le> k" "length out = k"
    and near: "\<forall>v < length (hn_levels h). qd v < neutral"
    and par: "extract_search_params h params = (ddc, ef, sel)" "queue_params h params = (bq, ef)"
    and exh: "exh \<Longrightarrow> length (hn_levels h) \<le> ef \<and> (bq \<longrightarrow> ddc)"
  shows "\<exists>res' vt' stats V S. hnsw_search h qd (res_begin neutral k out) vt params = Some (Inr (res', vt', stats)) \<and>
    res_end neutral res' = S @ replicate (k - length S) (neutral, -1) \<and>
    topk k (pairs qd (if bq then sel else None) V) S \<and>
    V \<subseteq> {..<length (hn_levels h)} \<and> (\<exists>v \<in> V. qd v \<le> qd (nat (hn_entry_point h)) \<and> V \<subseteq> reach h 0 {v}) \<and>
    vt_inv (length (hn_levels h)) vt' \<and> visited (length (hn_levels h)) vt' = {} \<and>
    (exh \<longrightarrow> (\<forall>v \<in> V. set (nbrs h v 0) \<subseteq> V))"
proof -
  let ?n = "length (hn_levels h)"
  let ?entry = "nat (hn_entry_point h)"
  have links: "links_ok h" and en: "0 \<le> hn_max_level h" "on_level h (nat (hn_max_level h)) ?entry"
    using g by (auto simp: graph_ok_def entry_ok_def)
  obtain st v d where dsc: "descend h qd (rev [1..<nat (hn_max_level h) + 1]) (HNSWStats, ?entry, qd ?entry) = (st, v, d)"
    by (metis prod_cases3)
  have ml: "nat (hn_max_level h + 1) = nat (hn_max_level h) + 1" using en(1) by simp
  from descend_ok[OF links en(2) dsc] have v: "d = qd v" "d \<le> qd ?entry" "on_level h 0 v" by auto
  then have vn: "v < ?n" using graph_level0[OF g(1)] by simp
  define R where "R = reach h 0 {v}"
  have R: "R \<subseteq> {..<?n}" "\<forall>w \<in> R. set (nbrs h w 0) \<subseteq> R" "v \<in> R"
    using reach_least[of "{v}" "{..<?n}" h 0] graph_level0(2)[OF g(1)] vn reach_closed reach_refl[of "{v}" h 0]
    by (auto simp: R_def)
  have cR: "card R \<le> ?n" using card_mono[OF _ R(1)] by simp
  let ?ef = "max ef k"
  have ef: "0 < ?ef" "1 \<le> ?ef" using k(1) by auto
  have r0: "res_ok k neutral (pairs qd sel (visited ?n vt)) (res_begin neutral k out)"
    using res_ok_begin[OF k] vt(2) by simp
  have hk: "hr_k (res_begin neutral k out) = k" using res_ok_begin[OF k, of neutral] by (simp add: res_ok_def)
  have adv: "vt_inv ?n t \<Longrightarrow> vt_inv ?n (vt_advance t) \<and> visited ?n (vt_advance t) = {}" for t
    using vt_inv_advance vt_get_advance by (auto simp: visited_def)
  show ?thesis
  proof (cases bq)
    case True
    have ex: "exh \<longrightarrow> ddc \<and> card R \<le> ef \<and> card R \<le> mm_n (mm_push (int v) (qd v) (MinimaxHeap ?ef :: 'd minimax)) \<and>
        (\<forall>v \<in> visited ?n vt. set (nbrs h v 0) \<subseteq> visited ?n vt)"
      using exh True cR vt(2) by (auto simp: MinimaxHeap_def)
    have st0: "{v} \<subseteq> R" "{v} \<inter> visited ?n vt = {}" "visited ?n vt \<subseteq> R" using R(3) vt(2) by auto
    note sfc = search_from_candidates_ok[OF R(1,2) starts_with_one[OF ef(1)] st0 vt(1) r0 par(1) ex, where nres = 0 and stats = st]
    from sfc obtain nres' res' cand' vt' stats' where
      s: "search_from_candidates h qd (res_begin neutral k out) (mm_push (int v) (qd v) (MinimaxHeap ?ef)) vt st 0 0 params
        = Some (Inr (nres', res', cand', vt', stats'))"
      and V: "vt_inv ?n vt'" "visited ?n vt \<union> {v} \<subseteq> visited ?n vt'" "visited ?n vt' \<subseteq> R"
        "res_ok k neutral (pairs qd sel (visited ?n vt')) res'"
        "exh \<longrightarrow> (\<forall>v \<in> visited ?n vt'. set (nbrs h v 0) \<subseteq> visited ?n vt')"
      by (elim exE conjE) (rule that; assumption)
    have sub: "visited ?n vt' \<subseteq> {..<?n}" by (auto simp: visited_def)
    from res_ok_end[OF V(4) pairs_below[OF near sub]] obtain S where
      S: "res_end neutral res' = S @ replicate (k - length S) (neutral, -1)" "topk k (pairs qd sel (visited ?n vt')) S" by blast
    have "hnsw_search h qd (res_begin neutral k out) vt params = Some (Inr (res', vt_advance vt', stats'))"
      using g(2) par(2) True dsc ml s v(1) hk by (simp add: hnsw_search_def Let_def)
    moreover have "\<exists>w \<in> visited ?n vt'. qd w \<le> qd ?entry \<and> visited ?n vt' \<subseteq> reach h 0 {w}"
      using V(2,3) v(1,2) by (intro bexI[of _ v]) (simp_all add: R_def)
    ultimately show ?thesis
      using S V(5) sub True adv[OF V(1)]
      by (intro exI[of _ res'] exI[of _ "vt_advance vt'"] exI[of _ stats'] exI[of _ "visited ?n vt'"] exI[of _ S]) simp
  next
    case False
    from search_from_candidate_unbounded_ok[OF R vt ef(2), where qd = qd and stats = st] obtain tc vt' stats' where
      s: "search_from_candidate_unbounded h (qd v, v) qd ?ef vt st = Some (tc, vt', stats')"
      and V: "vt_inv ?n vt'" "v \<in> visited ?n vt'" "visited ?n vt' \<subseteq> R" "best_of CMax_cmp2 ?ef (npairs qd (visited ?n vt')) tc"
        "card R \<le> ?ef \<longrightarrow> (\<forall>v \<in> visited ?n vt'. set (nbrs h v 0) \<subseteq> visited ?n vt')" by blast
    have sub: "visited ?n vt' \<subseteq> {..<?n}" by (auto simp: visited_def)
    let ?dr = "drop (length tc - k) tc" and ?f = "\<lambda>(d, v). (d, int v)"
    define res' where "res' = fold (\<lambda>(d, label) res. fst (add_result d (int label) res)) ?dr (res_begin neutral k out)"
    have b: "best_of CMax_cmp2 k (npairs qd (visited ?n vt')) ?dr" using best_of_drop[OF V(4)] by simp
    from add_results_fold[OF res_ok_begin[OF k, of neutral], of ?dr] have
      r: "res_ok k neutral (image_mset ?f (mset ?dr)) res'" by (simp add: res'_def)
    have "set_mset (image_mset ?f (mset ?dr)) \<subseteq> set_mset (pairs qd None (visited ?n vt'))"
      unfolding pairs_None using b by (auto simp: best_of_def)
    with pairs_below[OF near sub, of None] have "\<forall>p \<in># image_mset ?f (mset ?dr). fst p < neutral \<and> snd p \<noteq> -1" by blast
    from res_ok_end[OF r this] obtain S where
      S: "res_end neutral res' = S @ replicate (k - length S) (neutral, -1)" "topk k (image_mset ?f (mset ?dr)) S" by blast
    have t: "topk k (pairs qd None (visited ?n vt')) S" unfolding pairs_None by (rule topk_of_best[OF b S(2)])
    have "hnsw_search h qd (res_begin neutral k out) vt params = Some (Inr (res', vt_advance vt', stats'))"
      using g(2) par(2) False dsc ml s v(1) hk by (simp add: hnsw_search_def Let_def res'_def)
    moreover have "exh \<longrightarrow> (\<forall>v \<in> visited ?n vt'. set (nbrs h v 0) \<subseteq> visited ?n vt')" using V(5) exh cR by auto
    moreover have "\<exists>w \<in> visited ?n vt'. qd w \<le> qd ?entry \<and> visited ?n vt' \<subseteq> reach h 0 {w}"
      using V(2,3) v(1,2) by (intro bexI[of _ v]) (simp_all add: R_def)
    ultimately show ?thesis
      using S(1) t sub False adv[OF V(1)]
      by (intro exI[of _ res'] exI[of _ "vt_advance vt'"] exI[of _ stats'] exI[of _ "visited ?n vt'"] exI[of _ S]) simp
  qed
qed

section \<open>A small graph\<close>

text \<open>Three vertices on a path, the middle one also on level 1.\<close>

definition demo_graph :: hnsw where
  "demo_graph = HNSW_empty\<lparr> hn_assign_probas := [3 / 4, 1 / 4], hn_cum := [0, 2, 3], hn_levels := [1, 2, 1],
     hn_offsets := [0, 2, 5, 7], hn_neighbors := [1, -1, 0, 2, -1, 1, -1], hn_entry_point := 1,
     hn_max_level := 1 \<rparr>"

lemmas demo_graph_simps = demo_graph_def HNSW_empty_def slot_def nbrs_def neighbor_range_eq slice_def

lemma demo_on_level: "on_level demo_graph l v \<longleftrightarrow> v < 3 \<and> l < [1, 2, 1] ! v"
  by (simp add: on_level_def demo_graph_def numeral_3_eq_3)

lemma demo_cases: "on_level demo_graph l v \<Longrightarrow> (l, v) \<in> {(0, 0), (0, 1), (1, 1), (0, 2)}"
  by (auto simp: demo_on_level less_Suc_eq numeral_3_eq_3 numeral_2_eq_2)

lemma demo_slots:
  "slot demo_graph 0 0 = map int [1] @ replicate 1 (-1)" "slot demo_graph 1 0 = map int [0, 2] @ replicate 0 (-1)"
  "slot demo_graph (Suc 0) (Suc 0) = map int [] @ replicate 1 (-1)" "slot demo_graph 2 0 = map int [1] @ replicate 1 (-1)"
  by (simp_all add: demo_graph_simps numeral_2_eq_2)

lemma demo_nbrs:
  "nbrs demo_graph 0 0 = [1]" "nbrs demo_graph 1 0 = [0, 2]" "nbrs demo_graph (Suc 0) 0 = [0, 2]"
  "nbrs demo_graph (Suc 0) (Suc 0) = []" "nbrs demo_graph 2 0 = [1]"
  using demo_slots[THEN nbrs_of_slot] by simp_all

lemma demo_packed:
  "packed (slot demo_graph 0 0)" "packed (slot demo_graph 1 0)" "packed (slot demo_graph (Suc 0) 0)"
  "packed (slot demo_graph (Suc 0) (Suc 0))" "packed (slot demo_graph 2 0)"
  using demo_slots unfolding packed_def One_nat_def by blast+

lemma demo_graph_ok: "graph_ok demo_graph"
proof -
  have "layout_ok demo_graph"
    by (auto simp: layout_ok_def cum_ok_def demo_graph_def HNSW_empty_def less_Suc_eq numeral_3_eq_3 numeral_2_eq_2)
  moreover have "links_ok demo_graph"
    unfolding links_ok_def
  proof (intro allI impI)
    fix i l assume "on_level demo_graph l i"
    from demo_cases[OF this] show "packed (slot demo_graph i l) \<and> (\<forall>v \<in> set (nbrs demo_graph i l). on_level demo_graph l v)"
      by (auto simp: demo_packed demo_nbrs demo_on_level)
  qed
  moreover have "entry_ok demo_graph" by (simp add: entry_ok_def demo_on_level) (simp add: demo_graph_def)
  ultimately show ?thesis by (simp add: graph_ok_def)
qed

lemma demo_fresh: "vt_inv 3 (VisitedTable 3 None)" "visited 3 (VisitedTable 3 None) = {}"
  using vt_inv_constructor vt_get_constructor by (auto simp: visited_def)

lemma demo_params:
  "extract_search_params demo_graph None = (True, 16, None)" "queue_params demo_graph None = (True, 16)"
  by (simp_all add: extract_search_params_def queue_params_def demo_graph_def HNSW_empty_def)

lemma demo_levels: "hn_levels demo_graph = [1, 2, 1]"
  by (simp add: demo_graph_def)

lemma demo_len: "length (hn_levels demo_graph) = 3" "hn_entry_point demo_graph = 1"
  by (simp_all add: demo_graph_def)

lemma demo_reach: "v < 3 \<Longrightarrow> reach demo_graph 0 {v} = {..<3}"
proof -
  assume "v < 3"
  have e: "(0, 1) \<in> edges demo_graph 0" "(1, 0) \<in> edges demo_graph 0" "(1, 2) \<in> edges demo_graph 0" "(2, 1) \<in> edges demo_graph 0"
    by (simp_all add: edges_def demo_nbrs)
  have "(1, w) \<in> (edges demo_graph 0)\<^sup>*" if "w < 3" for w
    using that e by (auto simp: numeral_3_eq_3 numeral_2_eq_2 less_Suc_eq)
  moreover have "(v, 1) \<in> (edges demo_graph 0)\<^sup>*"
    using \<open>v < 3\<close> e by (auto simp: numeral_3_eq_3 numeral_2_eq_2 less_Suc_eq)
  ultimately have "{..<3} \<subseteq> reach demo_graph 0 {v}" by (auto simp: reach_def intro: rtrancl_trans)
  moreover have "reach demo_graph 0 {v} \<subseteq> {..<3}"
    using reach_least[of "{v}" "{..<3}" demo_graph 0] graph_level0(2)[OF demo_graph_ok] \<open>v < 3\<close> by (simp add: demo_len)
  ultimately show ?thesis by blast
qed

section \<open>Properties\<close>

text \<open>C16. \<open>greedy_update_nearest\<close> started at a vertex with its distance returns a vertex reachable on
  that level with its own distance, not farther than the start, and no neighbor of it is nearer.\<close>

theorem greedy_local_minimum:
  assumes "greedy_update_nearest h qd l stats (n, qd n) = (stats', v, d)"
  shows "d = qd v \<and> d \<le> qd n \<and> (\<forall>w \<in> set (nbrs h v l). d \<le> qd w) \<and> (n, v) \<in> {(a, b). b \<in> set (nbrs h a l)}\<^sup>*"
  using greedy_ok[OF assms] by (auto simp: reach_def edges_def)

theorem greedy_local_minimum_witness:
  "\<exists>stats' v d. greedy_update_nearest demo_graph (\<lambda>v. [7, 5, 4 :: int] ! v) 0 HNSWStats (0, 7) = (stats', v, d) \<and>
     d \<le> 7 \<and> (\<forall>w \<in> set (nbrs demo_graph v 0). d \<le> [7, 5, 4] ! w)"
proof -
  obtain st v d where g: "greedy_update_nearest demo_graph (\<lambda>v. [7, 5, 4 :: int] ! v) 0 HNSWStats (0, [7, 5, 4] ! 0) = (st, v, d)"
    by (metis prod_cases3)
  from greedy_local_minimum[OF g] g show ?thesis by auto
qed

text \<open>C14. \<open>HNSW::search\<close> on a well-formed graph with a fresh visited table returns, with either queue
  and any parameters. For some set of vertices reachable on level 0 from a vertex that is at least as
  near as the entry point, the rows of the result are the \<open>k\<close> nearest of that set, ascending and
  padded, with exact distances; the bounded queue respects the selector of ids, the unbounded one
  ignores it. The visited table is empty again.\<close>

theorem hnsw_search_correct:
  fixes qd :: "nat \<Rightarrow> 'd::{linorder, zero}"
  assumes "graph_ok h" "hn_entry_point h \<noteq> -1" "length (hn_levels h) = n"
    and "vt_inv n vt" "\<forall>v < n. \<not> vt_get vt v"
    and "1 \<le> k" "length out = k" "\<forall>v < n. qd v < neutral"
    and "extract_search_params h params = (ddc, ef, sel)" "queue_params h params = (bounded_queue, ef)"
  shows "\<exists>res' vt' stats V S. hnsw_search h qd (res_begin neutral k out) vt params = Some (Inr (res', vt', stats)) \<and>
    res_end neutral res' = S @ replicate (k - length S) (neutral, -1) \<and>
    topk k (pairs qd (if bounded_queue then sel else None) V) S \<and> V \<subseteq> {..<n} \<and>
    (\<exists>v \<in> V. qd v \<le> qd (nat (hn_entry_point h)) \<and> V \<subseteq> reach h 0 {v}) \<and>
    vt_inv n vt' \<and> (\<forall>v < n. \<not> vt_get vt' v)"
proof -
  have empty: "visited n t = {} \<longleftrightarrow> (\<forall>v < n. \<not> vt_get t v)" for t by (auto simp: visited_def)
  have "visited n vt = {}" unfolding empty by (rule assms(5))
  note X = hnsw_search_visits[OF assms(1,2), unfolded assms(3), OF assms(4) this assms(6-10), where exh = False, simplified]
  show ?thesis using X unfolding empty by blast
qed

theorem hnsw_search_correct_witness:
  "\<exists>res' vt' stats S. hnsw_search demo_graph (\<lambda>v. [7, 5, 4] ! v) (res_begin (100 :: int) 2 [(0, 0), (0, 0)]) (VisitedTable 3 None) None
      = Some (Inr (res', vt', stats)) \<and>
    res_end 100 res' = S @ replicate (2 - length S) (100, -1)"
proof -
  have near: "\<forall>v < 3. [7, 5, 4] ! v < (100 :: int)" by (auto simp: numeral_3_eq_3 less_Suc_eq)
  have ep: "hn_entry_point demo_graph \<noteq> -1" by (simp add: demo_len)
  have fresh: "\<forall>v < 3. \<not> vt_get (VisitedTable 3 None) v" by (simp add: vt_get_constructor)
  note X = hnsw_search_correct[OF demo_graph_ok ep demo_len(1) demo_fresh(1) fresh _ _ near demo_params, of 2 "[(0, 0), (0, 0)]"]
  then show ?thesis by simp blast
qed

text \<open>C15. On a non-empty graph with a cleared visited table, let the queue have room for all vertices
  (\<open>n \<le> ef\<close>), every vertex be reachable on level 0 from every other and, for the bounded queue, the stopping
  condition \<open>check_relative_distance\<close> be on. Then \<open>HNSW::search\<close> is exact: the rows are the \<open>k\<close> nearest of all
  vertices that the selector admits, of all vertices without a selector. The combination of the unbounded
  queue with a selector is excluded: there the code ignores the selector.\<close>

theorem hnsw_search_exact:
  fixes qd :: "nat \<Rightarrow> 'd::{linorder, zero}"
  assumes "graph_ok h" "hn_entry_point h \<noteq> -1" "length (hn_levels h) = n"
    and "vt_inv n vt" "\<forall>v < n. \<not> vt_get vt v"
    and "1 \<le> k" "length out = k" "\<forall>v < n. qd v < neutral"
    and "extract_search_params h params = (ddc, ef, sel)" "queue_params h params = (bounded_queue, ef)"
    and "n \<le> ef" "bounded_queue \<longrightarrow> ddc" "\<forall>v < n. reach h 0 {v} = {..<n}" "bounded_queue \<or> sel = None"
  shows "\<exists>res' vt' stats S. hnsw_search h qd (res_begin neutral k out) vt params = Some (Inr (res', vt', stats)) \<and>
    res_end neutral res' = S @ replicate (k - length S) (neutral, -1) \<and>
    topk k (pairs qd sel {..<n}) S"
proof -
  have "visited n vt = {}" using assms(5) by (auto simp: visited_def)
  note X = hnsw_search_visits[OF assms(1,2), unfolded assms(3), OF assms(4) this assms(6-10), where exh = True, simplified, OF conjI[OF assms(11,12)]]
  then obtain res' vt' stats V S where
    r: "hnsw_search h qd (res_begin neutral k out) vt params = Some (Inr (res', vt', stats))"
      "res_end neutral res' = S @ replicate (k - length S) (neutral, -1)"
      "topk k (pairs qd (if bounded_queue then sel else None) V) S" "V \<subseteq> {..<n}"
    and c: "\<exists>v \<in> V. qd v \<le> qd (nat (hn_entry_point h)) \<and> V \<subseteq> reach h 0 {v}" "\<forall>v \<in> V. set (nbrs h v 0) \<subseteq> V"
    by blast
  from c(1) obtain v where "v \<in> V" by blast
  with reach_least[of "{v}" V h 0] c(2) have "reach h 0 {v} \<subseteq> V" by blast
  with assms(13) \<open>v \<in> V\<close> r(4) have "V = {..<n}" by blast
  moreover have "(if bounded_queue then sel else None) = sel" using assms(14) by auto
  ultimately show ?thesis using r by auto
qed

theorem hnsw_search_exact_witness:
  "\<exists>res' vt' stats S. hnsw_search demo_graph (\<lambda>v. [7, 5, 4] ! v) (res_begin (100 :: int) 2 [(0, 0), (0, 0)]) (VisitedTable 3 None) None
      = Some (Inr (res', vt', stats)) \<and>
    topk 2 (pairs (\<lambda>v. [7, 5, 4 :: int] ! v) None {..<3}) S"
proof -
  have near: "\<forall>v < 3. [7, 5, 4] ! v < (100 :: int)" by (auto simp: numeral_3_eq_3 less_Suc_eq)
  have ep: "hn_entry_point demo_graph \<noteq> -1" by (simp add: demo_len)
  have fresh: "\<forall>v < 3. \<not> vt_get (VisitedTable 3 None) v" by (simp add: vt_get_constructor)
  note X = hnsw_search_exact[OF demo_graph_ok ep demo_len(1) demo_fresh(1) fresh _ _ near demo_params, of 2 "[(0, 0), (0, 0)]"]
  have "\<forall>v < 3. reach demo_graph 0 {v} = {..<3}" using demo_reach by blast
  with X show ?thesis by simp blast
qed

text \<open>C17. \<open>permute_entries\<close> with a permutation renumbers the graph: well-formedness is kept, the new
  vertex \<open>i\<close> has the levels of the old vertex \<open>mp ! i\<close>, on every level its neighbors are the new
  numbers of the neighbors of that vertex in the same order, and the entry point is renumbered.\<close>

theorem permute_entries_isomorphism:
  assumes "graph_ok h" "length (hn_levels h) = n" "length mp = n" "distinct mp" "set mp = {..<n}"
  shows "graph_ok (permute_entries h mp) \<and> length (hn_levels (permute_entries h mp)) = n \<and>
    (\<forall>i < n. hn_levels (permute_entries h mp) ! i = hn_levels h ! (mp ! i) \<and>
      (\<forall>l < hn_levels h ! (mp ! i). map (\<lambda>v. mp ! v) (nbrs (permute_entries h mp) i l) = nbrs h (mp ! i) l)) \<and>
    (hn_entry_point h \<noteq> -1 \<longrightarrow> mp ! nat (hn_entry_point (permute_entries h mp)) = nat (hn_entry_point h))"
proof -
  let ?h = "permute_entries h mp"
  have p: "permutes_to mp (length (hn_levels h))" and lay: "layout_ok h" and links: "links_ok h"
    using assms by (simp_all add: permutes_to_def graph_ok_def)
  note G = permute_graph[OF assms(1) p] and P = permute_entries_ok[OF lay p]
  have inv: "mp ! (inverse_map n mp ! v) = v" if "v < n" for v
    using inverse_map_image[OF p, of v] that assms(2) by metis
  have "map (\<lambda>v. mp ! v) (nbrs ?h i l) = nbrs h (mp ! i) l" if i: "i < n" "l < hn_levels h ! (mp ! i)" for i l
  proof -
    have on: "on_level ?h l i" using P(2,3) i assms(2) by (simp add: on_level_def)
    have "on_level h l (mp ! i)" using P(4)[OF on] by simp
    with links have "\<forall>v \<in> set (nbrs h (mp ! i) l). on_level h l v" by (simp add: links_ok_def)
    then have "v < n" if "v \<in> set (nbrs h (mp ! i) l)" for v using that by (simp add: on_level_def assms(2))
    then show ?thesis using G(2)[OF on] inv by (simp add: assms(2) map_idI)
  qed
  moreover have "mp ! nat (hn_entry_point ?h) = nat (hn_entry_point h)" if ep: "hn_entry_point h \<noteq> -1"
  proof -
    have "entry_ok h" using assms(1) by (simp add: graph_ok_def)
    with ep have "nat (hn_entry_point h) < n" by (simp add: entry_ok_def on_level_def assms(2))
    from inv[OF this] show ?thesis using P(6) ep by (simp add: assms(2))
  qed
  ultimately show ?thesis using G(1) P(2,3) assms(2) by simp
qed

theorem permute_entries_isomorphism_witness:
  "graph_ok (permute_entries demo_graph [2, 0, 1]) \<and>
    map (\<lambda>v. [2, 0, 1] ! v) (nbrs (permute_entries demo_graph [2, 0, 1]) 2 0) = [0, 2 :: nat]"
proof -
  have "set [2, 0, 1] = {..<3 :: nat}" by (auto simp: numeral_3_eq_3 numeral_2_eq_2 less_Suc_eq)
  note X = permute_entries_isomorphism[OF demo_graph_ok demo_len(1) _ _ this]
  then have "\<forall>i < 3. \<forall>l < hn_levels demo_graph ! ([2, 0, 1] ! i).
      map (\<lambda>v. [2, 0, 1] ! v) (nbrs (permute_entries demo_graph [2, 0, 1]) i l) = nbrs demo_graph ([2, 0, 1] ! i) l"
    by simp
  from this[rule_format, of 2 0] show ?thesis using X by (simp add: demo_levels demo_nbrs)
qed

section \<open>Searching level 0 from given entry points\<close>

text \<open>The entry points that count: those before the first negative one.\<close>

definition entries :: "(int \<times> 'd) list \<Rightarrow> nat list" where
  "entries nearest = map (\<lambda>e. nat (fst e)) (takeWhile (\<lambda>e. \<not> fst e < 0) nearest)"

definition entries_ok :: "nat \<Rightarrow> (nat \<Rightarrow> 'd) \<Rightarrow> (int \<times> 'd) list \<Rightarrow> bool" where
  "entries_ok n qd nearest \<longleftrightarrow> (\<forall>(cj, d) \<in> set (takeWhile (\<lambda>e. \<not> fst e < 0) nearest). nat cj < n \<and> d = qd (nat cj))"

lemma level0_each_ok:
  fixes qd :: "nat \<Rightarrow> 'd::{linorder, zero}"
  assumes N: "\<forall>v \<in> {..<n}. set (nbrs h v 0) \<subseteq> {..<n}" and "0 < csize" "extract_search_params h params = (ddc, ef, sel)"
    and "entries_ok n qd es" "vt_inv n vt" "res_ok k neutral (pairs qd sel (visited n vt)) res"
  shows "\<exists>nres' res' vt' stats'. level0_each h qd csize params es (nres, res, vt, stats) = Some (Inr (nres', res', vt', stats')) \<and>
    vt_inv n vt' \<and> visited n vt \<union> set (entries es) \<subseteq> visited n vt' \<and>
    res_ok k neutral (pairs qd sel (visited n vt')) res'"
  using assms(4-6)
proof (induction es arbitrary: nres res vt stats)
  case Nil
  then show ?case by (simp add: entries_def)
next
  case (Cons e es)
  obtain cj d where e: "e = (cj, d)" by fastforce
  show ?case
  proof (cases "cj < 0")
    case True
    then show ?thesis using Cons.prems by (simp add: e entries_def)
  next
    case False
    then have c: "nat cj < n" "d = qd (nat cj)" "cj = int (nat cj)" and rest: "entries_ok n qd es"
      and en: "entries (e # es) = nat cj # entries es"
      using Cons.prems(1) by (auto simp: e entries_ok_def entries_def)
    show ?thesis
    proof (cases "vt_get vt (nat cj)")
      case True
      then have "nat cj \<in> visited n vt" using c(1) by (simp add: visited_def)
      moreover have "level0_each h qd csize params (e # es) (nres, res, vt, stats) = level0_each h qd csize params es (nres, res, vt, stats)"
        using False True by (simp add: e)
      moreover from Cons.IH[OF rest Cons.prems(2,3), of nres stats] obtain nres' res' vt' stats' where
        "level0_each h qd csize params es (nres, res, vt, stats) = Some (Inr (nres', res', vt', stats'))"
        "vt_inv n vt'" "visited n vt \<union> set (entries es) \<subseteq> visited n vt'"
        "res_ok k neutral (pairs qd sel (visited n vt')) res'" by blast
      ultimately show ?thesis
        by (intro exI[of _ nres'] exI[of _ res'] exI[of _ vt'] exI[of _ stats']) (auto simp: en)
    next
      case unseen: False
      have st: "{nat cj} \<subseteq> {..<n}" "{nat cj} \<inter> visited n vt = {}" "visited n vt \<subseteq> {..<n}"
        using c(1) unseen by (auto simp: visited_def)
      note X = search_from_candidates_ok[OF order_refl N starts_with_one[OF assms(2)] st Cons.prems(2,3) assms(3), of False, simplified, where nres = nres and stats = stats]
      then obtain nres' res' cand' vt' stats' where
        s: "search_from_candidates h qd res (mm_push cj d (MinimaxHeap csize)) vt stats 0 nres params = Some (Inr (nres', res', cand', vt', stats'))"
        and V: "vt_inv n vt'" "visited n vt \<union> {nat cj} \<subseteq> visited n vt'" "res_ok k neutral (pairs qd sel (visited n vt')) res'"
        using c(2,3) by auto
      note Y = Cons.IH[OF rest V(1,3), of "min nres' csize" stats']
      have "level0_each h qd csize params (e # es) (nres, res, vt, stats)
          = level0_each h qd csize params es (min nres' csize, res', vt', stats')"
        using False unseen s by (simp add: e)
      moreover from Y obtain n2 r2 t2 s2 where
        "level0_each h qd csize params es (min nres' csize, res', vt', stats') = Some (Inr (n2, r2, t2, s2))"
        "vt_inv n t2" "visited n vt' \<union> set (entries es) \<subseteq> visited n t2"
        "res_ok k neutral (pairs qd sel (visited n t2)) r2" by blast
      ultimately show ?thesis
        using V(2) by (intro exI[of _ n2] exI[of _ r2] exI[of _ t2] exI[of _ s2]) (simp add: en, blast)
    qed
  qed
qed

lemma starts_with_list:
  assumes "mm_inv cand" "0 < mm_n cand" "distinct ys" "mset (mm_stored cand) = mset (map (\<lambda>v. (qd v, int v)) ys)"
  shows "starts_with qd (set ys) cand"
proof -
  let ?f = "\<lambda>v. (qd v, int v)"
  define vs where "vs = map (nat \<circ> snd) (mm_stored cand)"
  have "mset vs = image_mset (nat \<circ> snd) (mset (mm_stored cand))" by (simp add: vs_def)
  also have "\<dots> = mset ys" unfolding assms(4) by (simp add: image_mset.compositionality comp_def)
  finally have m: "mset vs = mset ys" .
  have "set (mm_stored cand) = ?f ` set ys" using mset_eq_setD[OF assms(4)] by simp
  then have "map ?f vs = mm_stored cand" unfolding vs_def map_map by (intro map_idI) auto
  moreover have "distinct vs" "set vs = set ys" using mset_eq_imp_distinct_iff[OF m] assms(3) mset_eq_setD[OF m] by auto
  ultimately show ?thesis using assms(1,2) by (auto simp: starts_with_def intro!: exI[of _ vs])
qed

lemma push_entries:
  fixes c :: "'d::linorder minimax"
  assumes "mm_inv c" "mm_k c + length vs \<le> mm_n c"
  shows "mm_inv (fold (\<lambda>v. mm_push (int v) (qd v)) vs c) \<and> mm_n (fold (\<lambda>v. mm_push (int v) (qd v)) vs c) = mm_n c \<and>
    mset (mm_stored (fold (\<lambda>v. mm_push (int v) (qd v)) vs c)) = mset (map (\<lambda>v. (qd v, int v)) vs) + mset (mm_stored c)"
  using assms
proof (induction vs arbitrary: c)
  case (Cons v vs)
  have "mm_k c < mm_n c" "int v \<noteq> -1" using Cons.prems(2) by simp_all
  note p = mm_push_room[OF Cons.prems(1) this, of "qd v"]
  have "mm_k (mm_push (int v) (qd v) c) + length vs \<le> mm_n (mm_push (int v) (qd v) c)"
    using p(3) Cons.prems(2) by simp
  from Cons.IH[OF p(1) this] p(2) show ?case by simp
qed simp

text \<open>\<open>search_level_0\<close> returns for both search types: the results are the \<open>k\<close> best of a set of
  vertices that contains all the given entry points (up to the first negative one) and that the selector
  admits. Type 1 accepts repeated entry points, type 2 is stated for distinct ones.\<close>

theorem search_level_0_correct:
  fixes qd :: "nat \<Rightarrow> 'd::{linorder, zero}"
  assumes "graph_ok h" "length (hn_levels h) = n" "vt_inv n vt" "\<forall>v < n. \<not> vt_get vt v"
    and "1 \<le> k" "length out = k" "\<forall>v < n. qd v < neutral"
    and "extract_search_params h params = (ddc, ef, sel)" "entries_ok n qd nearest"
    and "search_type = 1 \<or> search_type = 2 \<and> distinct (entries nearest)"
  shows "\<exists>res' vt' stats' V S.
    search_level_0 h qd (res_begin neutral k out) nearest search_type stats vt params = Some (Inr (res', vt', stats')) \<and>
    res_end neutral res' = S @ replicate (k - length S) (neutral, -1) \<and> topk k (pairs qd sel V) S \<and>
    set (entries nearest) \<subseteq> V \<and> V \<subseteq> {..<n}"
proof -
  have N: "\<forall>v \<in> {..<n}. set (nbrs h v 0) \<subseteq> {..<n}" using graph_level0(2)[OF assms(1)] assms(2) by simp
  have r0: "res_ok k neutral (pairs qd sel (visited n vt)) (res_begin neutral k out)"
  proof -
    have "visited n vt = {}" using assms(4) by (auto simp: visited_def)
    then show ?thesis using res_ok_begin[OF assms(5,6)] by simp
  qed
  have hk: "hr_k (res_begin neutral k out) = k" using r0 by (simp add: res_ok_def)
  define efS where "efS = (case params of None \<Rightarrow> hn_efSearch h
    | Some p \<Rightarrow> (case par_hnsw p of None \<Rightarrow> hn_efSearch h | Some hp \<Rightarrow> sp_efSearch hp))"
  have csize: "0 < max efS k" using assms(5) by simp
  have fin: "\<exists>S. res_end neutral r = S @ replicate (k - length S) (neutral, -1) \<and> topk k (pairs qd sel (visited n t)) S"
    if "res_ok k neutral (pairs qd sel (visited n t)) r" for r t
    by (rule res_ok_end[OF that pairs_below[OF assms(7)]]) (auto simp: visited_def)
  have sub: "visited n t \<subseteq> {..<n}" for t by (auto simp: visited_def)
  show ?thesis
  proof (cases "search_type = 1")
    case True
    from level0_each_ok[OF N csize assms(8,9,3) r0, of 0 stats] obtain nres' res' vt' stats' where
      s: "level0_each h qd (max efS k) params nearest (0, res_begin neutral k out, vt, stats) = Some (Inr (nres', res', vt', stats'))"
      and V: "visited n vt \<union> set (entries nearest) \<subseteq> visited n vt'" "res_ok k neutral (pairs qd sel (visited n vt')) res'"
      by blast
    have "search_level_0 h qd (res_begin neutral k out) nearest search_type stats vt params = Some (Inr (res', vt', stats'))"
      using s True hk by (simp add: search_level_0_def efS_def[symmetric] Let_def)
    with fin[OF V(2)] V(1) sub[of vt'] show ?thesis by blast
  next
    case False
    with assms(10) have t2: "search_type = 2" "distinct (entries nearest)" by auto
    define c0 where "c0 = (MinimaxHeap (max (max efS k) (length nearest)) :: 'd minimax)"
    have c0: "mm_inv c0" "mm_k c0 = 0" "mm_n c0 = max (max efS k) (length nearest)" "mm_stored c0 = []"
      by (simp_all add: c0_def mm_inv_new) (simp_all add: MinimaxHeap_def mm_stored_def)
    have cand: "fold (\<lambda>(cj, d). mm_push cj d) (takeWhile (\<lambda>e. \<not> fst e < 0) nearest) c0
        = fold (\<lambda>v. mm_push (int v) (qd v)) (entries nearest) c0"
    proof -
      have "fold (\<lambda>(cj, d). mm_push cj d) es c = fold (\<lambda>v. mm_push (int v) (qd v)) (map (\<lambda>e. nat (fst e)) es) c"
        if "\<forall>(cj, d) \<in> set es. \<not> cj < 0 \<and> d = qd (nat cj)" for es c
        using that by (induction es arbitrary: c) auto
      moreover have "\<forall>(cj, d) \<in> set (takeWhile (\<lambda>e. \<not> fst e < 0) nearest). \<not> cj < 0 \<and> d = qd (nat cj)"
        using assms(9) by (auto simp: entries_ok_def dest: set_takeWhileD)
      ultimately show ?thesis unfolding entries_def by blast
    qed
    have "length (entries nearest) \<le> length nearest" by (simp add: entries_def length_takeWhile_le)
    then have room: "mm_k c0 + length (entries nearest) \<le> mm_n c0" using c0 by simp
    note P = push_entries[OF c0(1) room, of qd]
    have st: "starts_with qd (set (entries nearest)) (fold (\<lambda>v. mm_push (int v) (qd v)) (entries nearest) c0)"
      using P c0(3,4) csize t2(2) by (intro starts_with_list) auto
    have E: "set (entries nearest) \<subseteq> {..<n}" "set (entries nearest) \<inter> visited n vt = {}"
      using assms(4,9) by (auto simp: visited_def entries_def entries_ok_def)
    note X = search_from_candidates_ok[OF order_refl N st E sub assms(3) r0 assms(8), of False, simplified, where nres = 0 and stats = stats]
    then obtain nres' res' cand' vt' stats' where
      s: "search_from_candidates h qd (res_begin neutral k out) (fold (\<lambda>v. mm_push (int v) (qd v)) (entries nearest) c0) vt stats 0 0 params
          = Some (Inr (nres', res', cand', vt', stats'))"
      and V: "visited n vt \<union> set (entries nearest) \<subseteq> visited n vt'" "res_ok k neutral (pairs qd sel (visited n vt')) res'"
      by auto
    have "search_level_0 h qd (res_begin neutral k out) nearest search_type stats vt params = Some (Inr (res', vt', stats'))"
      using s t2(1) hk cand by (simp add: search_level_0_def efS_def[symmetric] Let_def c0_def[symmetric] case_prod_unfold)
    with fin[OF V(2)] V(1) sub[of vt'] show ?thesis by blast
  qed
qed

theorem search_level_0_correct_witness:
  "\<exists>res' vt' stats'. search_level_0 demo_graph (\<lambda>v. [7, 5, 4] ! v) (res_begin (100 :: int) 2 [(0, 0), (0, 0)])
     [(2, 4), (0, 7), (-1, 0)] 2 HNSWStats (VisitedTable 3 None) None = Some (Inr (res', vt', stats'))"
proof -
  have near: "\<forall>v < 3. [7, 5, 4] ! v < (100 :: int)" by (auto simp: numeral_3_eq_3 less_Suc_eq)
  have fresh: "\<forall>v < 3. \<not> vt_get (VisitedTable 3 None) v" by (simp add: vt_get_constructor)
  have "entries_ok 3 (\<lambda>v. [7, 5, 4] ! v) [(2, 4), (0, 7), (-1, 0 :: int)]" by (simp add: entries_ok_def)
  note X = search_level_0_correct[OF demo_graph_ok demo_len(1) demo_fresh(1) fresh _ _ near demo_params(1) this,
      of 2 "[(0, 0), (0, 0)]" 2 HNSWStats]
  then show ?thesis by (simp add: entries_def) blast
qed

end
