(* ===== verification/HnswBuild.thy ===== *)
theory HnswBuild
  imports HnswProps "HOL-Library.Sublist"
begin

text \<open>
  Insertion into the graph (\<open>faiss/impl/HNSW.cpp\<close>): the selection of diverse neighbors, the links
  between two vertices, the search for the neighbors of a new vertex and \<open>add_with_locks\<close>. The
  distance computer of the new vertex is \<open>qd\<close> with the symmetric distance \<open>sd\<close>. The functions run the
  code of one thread; \<open>link_step\<close> is the relation of the locked steps of several threads.
\<close>

section \<open>Selection of neighbors\<close>

text \<open>The loop over the queue of candidates, nearest first. The flag of the result tells whether the
  function has returned with a full list.\<close>

definition shrink_good :: "(nat \<Rightarrow> nat \<Rightarrow> 'd::linorder) \<Rightarrow> ('d \<times> nat) list \<Rightarrow> 'd \<times> nat \<Rightarrow> bool" where
  "shrink_good sd output v1 \<longleftrightarrow> list_all (\<lambda>v2. \<not> sd (snd v2) (snd v1) < fst v1) output"

fun shrink_loop ::
  "(nat \<Rightarrow> nat \<Rightarrow> 'd::linorder) \<Rightarrow> nat \<Rightarrow> bool \<Rightarrow> ('d \<times> nat) list \<Rightarrow> ('d \<times> nat) list \<Rightarrow> ('d \<times> nat) list \<Rightarrow>
   bool \<times> ('d \<times> nat) list \<times> ('d \<times> nat) list" where
  "shrink_loop sd max_size keep [] output outsiders = (False, output, outsiders)"
| "shrink_loop sd max_size keep (v1 # input) output outsiders =
     (if shrink_good sd output v1
      then let output' = output @ [v1]
           in if length output' \<ge> max_size then (True, output', outsiders)
              else shrink_loop sd max_size keep input output' outsiders
      else shrink_loop sd max_size keep input output (if keep then outsiders @ [v1] else outsiders))"

fun fill_outsiders :: "nat \<Rightarrow> ('d \<times> nat) list \<Rightarrow> ('d \<times> nat) list \<Rightarrow> ('d \<times> nat) list" where
  "fill_outsiders max_size output [] = output"
| "fill_outsiders max_size output (v # outsiders) =
     (if length output < max_size then fill_outsiders max_size (output @ [v]) outsiders else output)"

definition shrink_neighbor_list ::
  "(nat \<Rightarrow> nat \<Rightarrow> 'd::linorder) \<Rightarrow> ('d \<times> nat) list \<Rightarrow> ('d \<times> nat) list \<Rightarrow> nat \<Rightarrow> bool \<Rightarrow> ('d \<times> nat) list" where
  "shrink_neighbor_list sd input output max_size keep_max_size_level0 =
     (let (returned, output', outsiders) = shrink_loop sd max_size keep_max_size_level0 input output []
      in if returned then output'
         else if keep_max_size_level0 then fill_outsiders max_size output' outsiders else output')"

text \<open>The function of the same name in the anonymous namespace, on a queue with the farthest on top.\<close>

definition shrink_result_set ::
  "(nat \<Rightarrow> nat \<Rightarrow> 'd::linorder) \<Rightarrow> ('d \<times> nat) list \<Rightarrow> nat \<Rightarrow> bool \<Rightarrow> ('d \<times> nat) list" where
  "shrink_result_set sd resultSet1 max_size keep =
     (if length resultSet1 < max_size then resultSet1
      else let resultSet = fold (pq_push nearer) resultSet1 [];
               returnlist = shrink_neighbor_list sd resultSet [] max_size keep
           in fold (pq_push farther) returnlist [])"

section \<open>Links\<close>

primrec free_slot :: "int list \<Rightarrow> nat \<Rightarrow> nat \<Rightarrow> nat" where
  "free_slot ns b 0 = 0"
| "free_slot ns b (Suc i) = (if b < Suc i \<and> ns ! i = -1 then free_slot ns b i else Suc i)"

definition add_link ::
  "(nat \<Rightarrow> nat \<Rightarrow> 'd::linorder) \<Rightarrow> nat \<Rightarrow> nat \<Rightarrow> nat \<Rightarrow> bool \<Rightarrow> hnsw \<Rightarrow> hnsw" where
  "add_link sd src dest level keep h =
     (let (b, e) = neighbor_range h src level
      in if hn_neighbors h ! (e - 1) = -1
         then h\<lparr> hn_neighbors := (hn_neighbors h)[free_slot (hn_neighbors h) b e := int dest] \<rparr>
         else
           let resultSet = fold (\<lambda>i q. let neigh = nat (hn_neighbors h ! i) in pq_push farther (sd src neigh, neigh) q)
                             [b..<e] (pq_push farther (sd src dest, dest) []);
               resultSet = shrink_result_set sd resultSet (e - b) keep;
               ns = blit b (map (\<lambda>p. int (snd p)) resultSet) (hn_neighbors h)
           in h\<lparr> hn_neighbors := fold (\<lambda>i ns. ns[i := -1]) [b + length resultSet..<e] ns \<rparr>)"

section \<open>Search for the neighbors of a new vertex\<close>

definition update_with_candidate ::
  "nat \<Rightarrow> (nat \<Rightarrow> 'd::linorder) \<Rightarrow> nat \<Rightarrow> ('d \<times> nat) list \<times> ('d \<times> nat) list \<Rightarrow> ('d \<times> nat) list \<times> ('d \<times> nat) list" where
  "update_with_candidate ef qd idx s =
     (let (results, candidates) = s; dis = qd idx
      in if length results < ef \<or> fst (hd results) > dis
         then let results' = pq_push farther (dis, idx) results
              in (if length results' > ef then tl results' else results', pq_push nearer (dis, idx) candidates)
         else (results, candidates))"

definition neighbors_to_add_step ::
  "hnsw \<Rightarrow> (nat \<Rightarrow> 'd::linorder) \<Rightarrow> nat \<Rightarrow> bool \<Rightarrow> ('d \<times> nat) list \<times> ('d \<times> nat) list \<times> vtable \<Rightarrow>
   ('d \<times> nat) list \<times> ('d \<times> nat) list \<times> vtable + ('d \<times> nat) list \<times> ('d \<times> nat) list \<times> vtable" where
  "neighbors_to_add_step h qd level reference_version s =
     (case s of (results, candidates, vt) \<Rightarrow>
        if candidates = [] \<or> fst (hd candidates) > fst (hd results) then Inl s
        else
          let currNode = snd (hd candidates);
              upd = update_with_candidate (hn_efConstruction h) qd;
              (vt', results', candidates') =
                (if reference_version
                 then batch4_ref vt_mark upd (nbrs h currNode level) vt (results, tl candidates)
                 else batch4 vt_mark upd (nbrs h currNode level) [] vt (results, tl candidates))
          in Inr (results', candidates', vt'))"

definition search_neighbors_to_add ::
  "hnsw \<Rightarrow> (nat \<Rightarrow> 'd::linorder) \<Rightarrow> ('d \<times> nat) list \<Rightarrow> nat \<Rightarrow> 'd \<Rightarrow> nat \<Rightarrow> vtable \<Rightarrow> bool \<Rightarrow>
   (('d \<times> nat) list \<times> vtable) option" where
  "search_neighbors_to_add h qd results entry_point d_entry_point level vt reference_version =
     map_option (\<lambda>(results, candidates, vt). (results, vt_advance vt))
       (run_loop (neighbors_to_add_step h qd level reference_version)
         (pq_push farther (d_entry_point, entry_point) results, [(d_entry_point, entry_point)],
          fst (vt_mark vt entry_point)))"

section \<open>Insertion of a vertex\<close>

text \<open>\<open>add_links_starting_from\<close>, in the order of the code: the links of the new vertex, then the links
  back to it. \<open>None\<close> is a search that does not end.\<close>

definition add_links_starting_from ::
  "(nat \<Rightarrow> 'd::linorder) \<Rightarrow> (nat \<Rightarrow> nat \<Rightarrow> 'd) \<Rightarrow> nat \<Rightarrow> nat \<Rightarrow> 'd \<Rightarrow> nat \<Rightarrow> bool \<Rightarrow> hnsw \<times> vtable \<Rightarrow>
   (hnsw \<times> vtable) option" where
  "add_links_starting_from qd sd pt_id nearest d_nearest level keep s =
     (let (h, vt) = s
      in case search_neighbors_to_add h qd [] nearest d_nearest level vt False of
           None \<Rightarrow> None
         | Some (link_targets, vt) \<Rightarrow>
             let M = hn_cum h ! (level + 1) - hn_cum h ! level;
                 neighbors_to_add = map snd (shrink_result_set sd link_targets M keep);
                 h1 = fold (\<lambda>other_id h. add_link sd pt_id other_id level keep h) neighbors_to_add h;
                 h2 = fold (\<lambda>other_id h. add_link sd other_id pt_id level keep h) neighbors_to_add h1
             in Some (h2, vt))"

definition add_levels ::
  "(nat \<Rightarrow> 'd::linorder) \<Rightarrow> (nat \<Rightarrow> nat \<Rightarrow> 'd) \<Rightarrow> nat \<Rightarrow> nat \<Rightarrow> 'd \<Rightarrow> bool \<Rightarrow> nat list \<Rightarrow> hnsw \<times> vtable \<Rightarrow>
   (hnsw \<times> vtable) option" where
  "add_levels qd sd pt_id nearest d_nearest keep levels s =
     fold (\<lambda>level r. Option.bind r (add_links_starting_from qd sd pt_id nearest d_nearest level keep)) levels (Some s)"

definition add_with_locks ::
  "(nat \<Rightarrow> 'd::linorder) \<Rightarrow> (nat \<Rightarrow> nat \<Rightarrow> 'd) \<Rightarrow> nat \<Rightarrow> nat \<Rightarrow> bool \<Rightarrow> hnsw \<times> vtable \<Rightarrow> (hnsw \<times> vtable) option" where
  "add_with_locks qd sd pt_level pt_id keep s =
     (let (h, vt) = s
      in if hn_entry_point h = -1
         then Some (h\<lparr> hn_max_level := int pt_level, hn_entry_point := int pt_id \<rparr>, vt)
         else if hn_entry_point h < 0 then Some (h, vt)
         else
           let nearest = nat (hn_entry_point h);
               top_level = nat (hn_max_level h);
               (nearest, d_nearest) =
                 fold (\<lambda>level p. snd (greedy_update_nearest h qd level HNSWStats p))
                   (rev [pt_level + 1..<top_level + 1]) (nearest, qd nearest)
           in map_option
                (\<lambda>(h, vt). (if int pt_level > hn_max_level h
                             then h\<lparr> hn_max_level := int pt_level, hn_entry_point := int pt_id \<rparr> else h, vt))
                (add_levels qd sd pt_id nearest d_nearest keep (rev [0..<min top_level pt_level + 1]) (h, vt)))"

end
