(* ===== verification/HnswBuildOk.thy ===== *)
theory HnswBuildOk
  imports HnswBuild
begin

text \<open>
  Correctness of the insertion into the graph: what the selection of neighbors keeps, that a link changes
  one segment, that the search for neighbors ends and finds the nearest reachable vertices, and the
  invariant that the insertion of a vertex preserves.
\<close>

section \<open>Selection of neighbors\<close>

text \<open>No entry is closer to an earlier entry than to the query.\<close>

definition diverse :: "(nat \<Rightarrow> nat \<Rightarrow> 'd::linorder) \<Rightarrow> ('d \<times> nat) list \<Rightarrow> bool" where
  "diverse sd vs \<longleftrightarrow> sorted_wrt (\<lambda>v2 v1. \<not> sd (snd v2) (snd v1) < fst v1) vs"

definition covered :: "(nat \<Rightarrow> nat \<Rightarrow> 'd::linorder) \<Rightarrow> ('d \<times> nat) list \<Rightarrow> 'd \<times> nat \<Rightarrow> bool" where
  "covered sd vs v \<longleftrightarrow> (\<exists>u \<in> set vs. sd (snd u) (snd v) < fst v)"

lemma shrink_good_covered: "shrink_good sd out v \<longleftrightarrow> \<not> covered sd out v"
  by (auto simp: shrink_good_def covered_def list_all_iff)

lemma covered_append: "covered sd vs v \<Longrightarrow> covered sd (vs @ ws) v"
  by (auto simp: covered_def)

lemma shrink_loop_ok:
  assumes "shrink_loop sd m keep input out outs = (ret, out', outs')"
  shows "\<exists>acc rej rest. out' = out @ acc \<and> outs' = outs @ (if keep then rej else []) \<and>
      mset input = mset acc + mset rej + mset rest \<and> (\<not> ret \<longrightarrow> rest = []) \<and> (\<forall>v \<in> set rej. covered sd out' v) \<and>
      subseq acc input"
    "diverse sd out \<Longrightarrow> diverse sd out'"
    "length out < m \<Longrightarrow> length out' \<le> m \<and> (ret \<longleftrightarrow> length out' = m)"
proof -
  have "(\<exists>acc rej rest. out' = out @ acc \<and> outs' = outs @ (if keep then rej else []) \<and>
      mset input = mset acc + mset rej + mset rest \<and> (\<not> ret \<longrightarrow> rest = []) \<and> (\<forall>v \<in> set rej. covered sd out' v) \<and>
      subseq acc input) \<and>
    (diverse sd out \<longrightarrow> diverse sd out') \<and>
    (length out < m \<longrightarrow> length out' \<le> m \<and> (ret \<longleftrightarrow> length out' = m))"
    using assms
  proof (induction sd m keep input out outs rule: shrink_loop.induct)
    case (1 sd m keep out outs)
    then show ?case by auto
  next
    case (2 sd m keep v1 input out outs)
    show ?case
    proof (cases "shrink_good sd out v1")
      case True
      then have d: "diverse sd out \<Longrightarrow> diverse sd (out @ [v1])"
        by (auto simp: diverse_def sorted_wrt_append shrink_good_def list_all_iff)
      show ?thesis
      proof (cases "length (out @ [v1]) \<ge> m")
        case True': True
        then have e: "ret" "out' = out @ [v1]" "outs' = outs" using 2(3) True by (auto simp: Let_def)
        have "out' = out @ [v1] \<and> outs' = outs @ (if keep then [] else []) \<and>
          mset (v1 # input) = mset [v1] + mset [] + mset input \<and> (\<not> ret \<longrightarrow> input = []) \<and>
          (\<forall>v \<in> set []. covered sd out' v) \<and> subseq [v1] (v1 # input)" using e by simp
        then show ?thesis using e True' d by fastforce
      next
        case False
        then have rec: "shrink_loop sd m keep input (out @ [v1]) outs = (ret, out', outs')"
          using 2(3) True by (simp add: Let_def)
        from 2(1)[OF True refl False rec] obtain acc rej rest where
          "out' = (out @ [v1]) @ acc \<and> outs' = outs @ (if keep then rej else []) \<and>
            mset input = mset acc + mset rej + mset rest \<and> (\<not> ret \<longrightarrow> rest = []) \<and>
            (\<forall>v \<in> set rej. covered sd out' v) \<and> subseq acc input"
          and IH: "diverse sd (out @ [v1]) \<longrightarrow> diverse sd out'"
          "length (out @ [v1]) < m \<longrightarrow> length out' \<le> m \<and> (ret \<longleftrightarrow> length out' = m)" by blast
        then have "out' = out @ (v1 # acc) \<and> outs' = outs @ (if keep then rej else []) \<and>
            mset (v1 # input) = mset (v1 # acc) + mset rej + mset rest \<and> (\<not> ret \<longrightarrow> rest = []) \<and>
            (\<forall>v \<in> set rej. covered sd out' v) \<and> subseq (v1 # acc) (v1 # input)" by auto
        then show ?thesis using IH d False by (intro conjI) (blast, simp, simp)
      qed
    next
      case False
      then have rec: "shrink_loop sd m keep input out (if keep then outs @ [v1] else outs) = (ret, out', outs')"
        using 2(3) by simp
      from 2(2)[OF False rec] obtain acc rej rest where
        IH: "out' = out @ acc" "outs' = (if keep then outs @ [v1] else outs) @ (if keep then rej else [])"
          "mset input = mset acc + mset rej + mset rest" "\<not> ret \<longrightarrow> rest = []"
          "\<forall>v \<in> set rej. covered sd out' v" "subseq acc input"
        and rest: "diverse sd out \<longrightarrow> diverse sd out'"
          "length out < m \<longrightarrow> length out' \<le> m \<and> (ret \<longleftrightarrow> length out' = m)" by blast
      have "covered sd out' v1" using False IH(1) by (simp add: shrink_good_covered covered_append)
      then have "out' = out @ acc \<and> outs' = outs @ (if keep then v1 # rej else []) \<and>
          mset (v1 # input) = mset acc + mset (v1 # rej) + mset rest \<and> (\<not> ret \<longrightarrow> rest = []) \<and>
          (\<forall>v \<in> set (v1 # rej). covered sd out' v) \<and> subseq acc (v1 # input)" using IH by auto
      then show ?thesis using rest by blast
    qed
  qed
  then show "\<exists>acc rej rest. out' = out @ acc \<and> outs' = outs @ (if keep then rej else []) \<and>
      mset input = mset acc + mset rej + mset rest \<and> (\<not> ret \<longrightarrow> rest = []) \<and> (\<forall>v \<in> set rej. covered sd out' v) \<and>
      subseq acc input"
    "diverse sd out \<Longrightarrow> diverse sd out'"
    "length out < m \<Longrightarrow> length out' \<le> m \<and> (ret \<longleftrightarrow> length out' = m)" by blast+
qed

lemma fill_outsiders_take: "fill_outsiders m out outs = out @ take (m - length out) outs"
  by (induction m out outs rule: fill_outsiders.induct) (auto simp: take_Cons')

text \<open>The list that is selected from a queue: with the flag it has the full length, without it it is
  diverse, and what is left out for another reason than lack of room is covered.\<close>

lemma shrink_neighbor_list_ok:
  fixes input :: "('d::linorder \<times> nat) list"
  assumes "1 \<le> m" "shrink_neighbor_list sd input [] m keep = out"
  shows "mset out \<subseteq># mset input" "length out \<le> m"
    "keep \<Longrightarrow> length out = min m (length input)"
    "\<not> keep \<Longrightarrow> diverse sd out \<and> subseq out input"
    "\<not> keep \<Longrightarrow> length out < m \<Longrightarrow> v \<in> set input \<Longrightarrow> v \<in> set out \<or> covered sd out v"
    "input \<noteq> [] \<Longrightarrow> out \<noteq> [] \<and> hd out = hd input"
proof -
  obtain ret out1 outs1 where l: "shrink_loop sd m keep input [] [] = (ret, out1, outs1)" by (metis prod_cases3)
  note L = shrink_loop_ok[OF l]
  from L(1) obtain acc rej rest where S: "out1 = acc" "outs1 = (if keep then rej else [])"
    "mset input = mset acc + mset rej + mset rest" "\<not> ret \<longrightarrow> rest = []" "\<forall>v \<in> set rej. covered sd out1 v"
    "subseq acc input" by auto
  have out: "out = (if ret then acc else acc @ take (m - length acc) outs1)"
    using assms(2) l S(1,2) by (auto simp: shrink_neighbor_list_def fill_outsiders_take split: if_splits)
  have len: "length acc \<le> m \<and> (ret \<longleftrightarrow> length acc = m)" using L(3) assms(1) S(1) by simp
  have tk: "mset (take j outs1) \<subseteq># mset rej" for j
  proof -
    have "mset (take j rej) \<subseteq># mset rej"
      by (metis append_take_drop_id mset_append mset_subset_eq_add_left)
    then show ?thesis using S(2) by (cases keep) simp_all
  qed
  show "mset out \<subseteq># mset input"
    unfolding out S(3) using tk S(4) by (cases ret) simp_all
  show "length out \<le> m" using len by (auto simp: out)
  have sz: "length input = length acc + length rej + length rest"
    using arg_cong[OF S(3), of size] by simp
  show "length out = min m (length input)" if keep
    using len sz S(2,4) that by (auto simp: out)
  show "diverse sd out \<and> subseq out input" if "\<not> keep"
    using that S(1,2,6) L(2) by (simp add: out diverse_def)
  show "v \<in> set out \<or> covered sd out v" if "\<not> keep" "length out < m" "v \<in> set input"
  proof -
    have o: "out = acc" using that(1) S(2) by (simp add: out)
    then have "rest = []" using that(2) len S(4) by auto
    then have "set input = set acc \<union> set rej" using S(3) by (metis set_mset_mset set_mset_union add.right_neutral mset.simps(1))
    then show ?thesis using that(3) S(1,5) o by auto
  qed
  show "out \<noteq> [] \<and> hd out = hd input" if ne: "input \<noteq> []"
  proof -
    obtain v i where i: "input = v # i" using ne by (cases input) auto
    have "\<exists>acc'. out1 = v # acc'"
    proof (cases "m = 1")
      case True
      then show ?thesis using l by (auto simp: i shrink_good_def Let_def)
    next
      case False
      then have "shrink_loop sd m keep i [v] [] = (ret, out1, outs1)"
        using l assms(1) by (simp add: i shrink_good_def Let_def)
      from shrink_loop_ok(1)[OF this] show ?thesis by auto
    qed
    then show ?thesis using S(1) i by (auto simp: out)
  qed
qed

text \<open>The same on the queue with the farthest on top.\<close>

lemma shrink_result_set_ok:
  fixes q :: "('d::linorder \<times> nat) list"
  assumes "1 \<le> m"
  shows "mset (shrink_result_set sd q m keep) \<subseteq># mset q" "length (shrink_result_set sd q m keep) \<le> m"
    "q \<noteq> [] \<Longrightarrow> shrink_result_set sd q m keep \<noteq> []"
proof -
  let ?i = "fold (pq_push nearer) q []" and ?r = "shrink_result_set sd q m keep"
  define out where "out = shrink_neighbor_list sd ?i [] m keep"
  have r: "?r = (if length q < m then q else fold (pq_push farther) out [])"
    by (simp add: shrink_result_set_def out_def)
  note S = shrink_neighbor_list_ok[OF assms out_def[symmetric]]
  have m: "mset (fold (pq_push farther) out []) = mset out" by simp
  then have len: "length (fold (pq_push farther) out []) = length out" by (metis size_mset)
  show "mset ?r \<subseteq># mset q" using S(1) by (simp add: r)
  show "length ?r \<le> m" using S(2) len by (simp add: r)
  have "mset ?i = mset q" by simp
  then have "q \<noteq> [] \<Longrightarrow> ?i \<noteq> []" by (metis mset_zero_iff)
  moreover have "out = []" if "fold (pq_push farther) out [] = []" using that len by simp
  ultimately show "q \<noteq> [] \<Longrightarrow> ?r \<noteq> []" using S(6) by (auto simp: r)
qed

section \<open>Links\<close>

text \<open>Every segment has room for a neighbor.\<close>

definition cum_pos :: "hnsw \<Rightarrow> bool" where
  "cum_pos h \<longleftrightarrow> (\<forall>l. l + 1 < length (hn_cum h) \<longrightarrow> hn_cum h ! l < hn_cum h ! (l + 1))"

lemma slot_pos:
  "layout_ok h \<Longrightarrow> cum_pos h \<Longrightarrow> on_level h l i \<Longrightarrow> 0 < length (slot h i l)"
  by (auto simp: length_slot_cum cum_pos_def layout_ok_def on_level_def)

lemma free_slot_spec:
  assumes "b + length vs \<le> e" "\<forall>i < length vs. ns ! (b + i) \<noteq> -1" "\<forall>i. b + length vs \<le> i \<and> i < e \<longrightarrow> ns ! i = -1"
  shows "free_slot ns b e = b + length vs"
  using assms(1,3)
proof (induction e)
  case (Suc e)
  show ?case
  proof (cases "b + length vs = Suc e")
    case True
    then have "b < Suc e \<Longrightarrow> ns ! e \<noteq> -1" using assms(2) by (cases vs) (auto dest: spec[of _ "e - b"])
    with True show ?thesis by auto
  next
    case False
    with Suc show ?thesis by auto
  qed
qed simp

lemma fold_set_range:
  "b \<le> e \<Longrightarrow> e \<le> length ns \<Longrightarrow> fold (\<lambda>i ns. ns[i := c]) [b..<e] ns = blit b (replicate (e - b) c) ns"
proof (induction e)
  case (Suc e)
  show ?case
  proof (cases "b \<le> e")
    case True
    with Suc have "fold (\<lambda>i ns. ns[i := c]) [b..<Suc e] ns = (blit b (replicate (e - b) c) ns)[e := c]" by simp
    also have "\<dots> = blit b (replicate (Suc e - b) c) ns"
      using True Suc.prems by (intro nth_equalityI) (auto simp: nth_list_update nth_blit)
    finally show ?thesis .
  next
    case False
    with Suc.prems have "b = Suc e" by simp
    then show ?thesis by (simp add: blit_def)
  qed
qed (simp add: blit_def)

lemma blit_blit:
  "b + length ys + length zs \<le> length xs \<Longrightarrow> blit (b + length ys) zs (blit b ys xs) = blit b (ys @ zs) xs"
  by (intro nth_equalityI) (auto simp: nth_blit nth_append)

lemma blit_slice_update:
  "b + n \<le> length xs \<Longrightarrow> j < n \<Longrightarrow> xs[b + j := v] = blit b ((slice b n xs)[j := v]) xs"
  by (intro nth_equalityI) (auto simp: nth_blit nth_list_update)

text \<open>The candidates for a full segment, the farthest on top.\<close>

definition link_candidates :: "(nat \<Rightarrow> nat \<Rightarrow> 'd::linorder) \<Rightarrow> nat \<Rightarrow> nat list \<Rightarrow> ('d \<times> nat) list" where
  "link_candidates sd src vs = fold (pq_push farther) (map (\<lambda>v. (sd src v, v)) vs) []"

text \<open>The neighbors of \<open>src\<close> after the link: the new one is appended, or there is a selection.\<close>

definition linked :: "(nat \<Rightarrow> nat \<Rightarrow> 'd::linorder) \<Rightarrow> bool \<Rightarrow> nat \<Rightarrow> nat \<Rightarrow> nat \<Rightarrow> nat list \<Rightarrow> nat list" where
  "linked sd keep len src dest vs =
     (if length vs < len then vs @ [dest]
      else map snd (shrink_result_set sd (link_candidates sd src (dest # vs)) len keep))"

lemma linked_ok:
  assumes "length vs \<le> len" "1 \<le> len"
  shows "mset (linked sd keep len src dest vs) \<subseteq># mset (dest # vs)" "length (linked sd keep len src dest vs) \<le> len"
    "linked sd keep len src dest vs \<noteq> []"
proof -
  let ?q = "link_candidates sd src (dest # vs)"
  have q: "mset ?q = image_mset (\<lambda>v. (sd src v, v)) (mset (dest # vs))" by (simp add: link_candidates_def)
  note S = shrink_result_set_ok[OF assms(2), where sd = sd and q = ?q and keep = keep]
  have "image_mset snd (mset (shrink_result_set sd ?q len keep)) \<subseteq># image_mset snd (mset ?q)"
    by (rule image_mset_subseteq_mono[OF S(1)])
  moreover have "image_mset snd (mset ?q) = mset (dest # vs)"
    by (simp add: q image_mset.compositionality comp_def)
  ultimately show "mset (linked sd keep len src dest vs) \<subseteq># mset (dest # vs)" by (simp add: linked_def)
  show "length (linked sd keep len src dest vs) \<le> len" using S(2) assms(1) by (simp add: linked_def)
  have "?q \<noteq> []" using q by auto
  then show "linked sd keep len src dest vs \<noteq> []" using S(3) by (simp add: linked_def)
qed

lemma add_link_slot:
  fixes sd :: "nat \<Rightarrow> nat \<Rightarrow> 'd::linorder" and dest :: nat and keep :: bool
  assumes "layout_ok h" "cum_pos h" "on_level h level src" "packed (slot h src level)"
  defines "len \<equiv> length (slot h src level)"
  defines "vs \<equiv> linked sd keep len src dest (nbrs h src level)"
  shows "add_link sd src dest level keep h = write_slot h src level (map int vs @ replicate (len - length vs) (-1))"
proof -
  obtain b e where r: "neighbor_range h src level = (b, e)" by fastforce
  note B = range_bounds[OF assms(1,3) r]
  have len: "len = e - b" "0 < len" "e \<le> length (hn_neighbors h)"
    using length_slot[OF assms(1,3) r] slot_pos[OF assms(1,2,3)] B by (simp_all add: len_def)
  define ws where "ws = nbrs h src level"
  have s: "slot h src level = map int ws @ replicate (len - length ws) (-1)"
    unfolding ws_def len_def by (rule nbrs_slot[OF assms(4)])
  have ws: "length ws \<le> len"
    using arg_cong[OF s, of length, folded len_def] unfolding length_append length_replicate length_map by linarith
  have sl: "slot h src level = slice b len (hn_neighbors h)" by (simp add: slot_def r len(1))
  have el: "hn_neighbors h ! (b + i) = (if i < length ws then int (ws ! i) else -1)" if "i < len" for i
  proof -
    have "hn_neighbors h ! (b + i) = slot h src level ! i" unfolding sl using that len by simp
    also have "\<dots> = (if i < length ws then int (ws ! i) else -1)" using that ws by (simp add: s nth_append)
    finally show ?thesis .
  qed
  have e1: "e - 1 = b + (len - 1)" using len by simp
  have last: "hn_neighbors h ! (e - 1) = -1 \<longleftrightarrow> length ws < len"
    unfolding e1 using el[of "len - 1"] len(2) ws by auto
  show ?thesis
  proof (cases "length ws < len")
    case True
    have "\<forall>i. b + length ws \<le> i \<and> i < e \<longrightarrow> hn_neighbors h ! i = -1"
    proof (intro allI impI)
      fix i assume "b + length ws \<le> i \<and> i < e"
      then show "hn_neighbors h ! i = -1" using el[of "i - b"] len by auto
    qed
    moreover have "\<forall>i < length ws. hn_neighbors h ! (b + i) \<noteq> -1" using el ws by auto
    ultimately have f: "free_slot (hn_neighbors h) b e = b + length ws"
      using True len by (intro free_slot_spec) auto
    have "(slot h src level)[length ws := int dest] = map int (ws @ [dest]) @ replicate (len - length (ws @ [dest])) (-1)"
      unfolding s using True by (cases "len - length ws") (auto simp: list_update_append)
    then have "(hn_neighbors h)[b + length ws := int dest]
        = blit b (map int (ws @ [dest]) @ replicate (len - length (ws @ [dest])) (-1)) (hn_neighbors h)"
      using blit_slice_update[of b len "hn_neighbors h" "length ws" "int dest"] True len sl by simp
    then show ?thesis
      using True last f by (simp add: add_link_def r write_slot_def vs_def linked_def ws_def[symmetric])
  next
    case False
    then have full: "length ws = len" using ws by simp
    have "map (\<lambda>i. nat (hn_neighbors h ! i)) [b..<e] = ws"
      using el full len by (intro nth_equalityI) auto
    then have "fold (\<lambda>i q. let neigh = nat (hn_neighbors h ! i) in pq_push farther (sd src neigh, neigh) q) [b..<e] q
        = fold (\<lambda>v. pq_push farther (sd src v, v)) ws q" for q
      by (simp add: fold_map[symmetric, unfolded comp_def, of "\<lambda>v. pq_push farther (sd src v, v)" "\<lambda>i. nat (hn_neighbors h ! i)"] Let_def)
    then have q: "fold (\<lambda>i q. let neigh = nat (hn_neighbors h ! i) in pq_push farther (sd src neigh, neigh) q)
        [b..<e] (pq_push farther (sd src dest, dest) []) = link_candidates sd src (dest # ws)"
      by (simp add: link_candidates_def fold_map comp_def)
    let ?rs = "shrink_result_set sd (link_candidates sd src (dest # ws)) len keep"
    have vs: "vs = map snd ?rs" using False by (simp add: vs_def linked_def ws_def[symmetric])
    have l: "length ?rs \<le> len" by (rule shrink_result_set_ok(2)) (use len in simp)
    have "fold (\<lambda>i ns. ns[i := -1]) [b + length ?rs..<e] (blit b (map (\<lambda>p. int (snd p)) ?rs) (hn_neighbors h))
        = blit (b + length ?rs) (replicate (len - length ?rs) (-1)) (blit b (map (\<lambda>p. int (snd p)) ?rs) (hn_neighbors h))"
      using l len by (subst fold_set_range) auto
    also have "\<dots> = blit b (map int vs @ replicate (len - length vs) (-1)) (hn_neighbors h)"
      using blit_blit[of b "map (\<lambda>p. int (snd p)) ?rs" "replicate (len - length ?rs) (-1)" "hn_neighbors h"] l len
      by (simp add: vs comp_def)
    finally show ?thesis using False last len(1) q
      by (simp add: add_link_def Let_def write_slot_def r)
  qed
qed

text \<open>Links never change the shape of the graph.\<close>

definition same_shape :: "hnsw \<Rightarrow> hnsw \<Rightarrow> bool" where
  "same_shape h h' \<longleftrightarrow> hn_levels h' = hn_levels h \<and> hn_offsets h' = hn_offsets h \<and> hn_cum h' = hn_cum h \<and>
     hn_entry_point h' = hn_entry_point h \<and> hn_max_level h' = hn_max_level h \<and>
     hn_efConstruction h' = hn_efConstruction h \<and> hn_assign_probas h' = hn_assign_probas h"

lemma same_shape_refl [simp]: "same_shape h h"
  by (simp add: same_shape_def)

lemma same_shape_trans: "same_shape h h' \<Longrightarrow> same_shape h' h'' \<Longrightarrow> same_shape h h''"
  by (simp add: same_shape_def)

lemma same_shape_on_level: "same_shape h h' \<Longrightarrow> on_level h' = on_level h"
  by (simp add: same_shape_def on_level_def fun_eq_iff)

definition seglen :: "hnsw \<Rightarrow> nat \<Rightarrow> nat" where
  "seglen h l = hn_cum h ! (l + 1) - hn_cum h ! l"

lemma same_shape_seglen: "same_shape h h' \<Longrightarrow> seglen h' = seglen h"
  by (simp add: same_shape_def seglen_def fun_eq_iff)

definition linkable :: "hnsw \<Rightarrow> bool" where
  "linkable h \<longleftrightarrow> layout_ok h \<and> cum_pos h \<and> links_ok h"

lemma linkable_seglen:
  assumes "linkable h" "on_level h l i"
  shows "length (slot h i l) = seglen h l" "0 < seglen h l" "length (nbrs h i l) \<le> seglen h l"
proof -
  show l: "length (slot h i l) = seglen h l"
    using assms by (simp add: linkable_def seglen_def length_slot_cum)
  show "0 < seglen h l" using slot_pos[of h l i] assms l by (simp add: linkable_def)
  have "length (nbrs h i l) \<le> length (slot h i l)" by (simp add: nbrs_def length_takeWhile_le)
  then show "length (nbrs h i l) \<le> seglen h l" by (simp add: l)
qed

lemma linkable_nbrs: "linkable h \<Longrightarrow> on_level h l i \<Longrightarrow> v \<in> set (nbrs h i l) \<Longrightarrow> on_level h l v"
  by (auto simp: linkable_def links_ok_def)

text \<open>Writing a new list of neighbors into a segment.\<close>

lemma write_nbrs_ok:
  assumes h: "linkable h" "on_level h l i" and vs: "length vs \<le> seglen h l" "\<forall>v \<in> set vs. on_level h l v"
    and w: "h' = write_slot h i l (map int vs @ replicate (seglen h l - length vs) (-1))"
  shows "linkable h'" "same_shape h h'" "on_level h m j \<Longrightarrow> nbrs h' j m = (if (j, m) = (i, l) then vs else nbrs h j m)"
proof -
  define ys where "ys = map int vs @ replicate (seglen h l - length vs) (-1)"
  have L: "layout_ok h" "cum_pos h" "links_ok h" using h(1) by (simp_all add: linkable_def)
  have ly: "length ys = length (slot h i l)" using vs(1) linkable_seglen(1)[OF h] by (simp add: ys_def)
  have sl: "slot h' j m = (if (j, m) = (i, l) then ys else slot h j m)" if "on_level h m j" for j m
    unfolding w ys_def[symmetric] using slot_write_slot[OF L(1) h(2) that ly] .
  have nb: "nbrs h' j m = (if (j, m) = (i, l) then vs else nbrs h j m)" if "on_level h m j" for j m
  proof (cases "(j, m) = (i, l)")
    case True
    then show ?thesis using sl[OF that] nbrs_of_slot[of h' j m vs "seglen h l - length vs"] by (simp add: ys_def)
  next
    case False
    then have "slot h' j m = slot h j m" using sl[OF that] by auto
    then have "nbrs h' j m = nbrs h j m" by (simp add: nbrs_def)
    with False show ?thesis by auto
  qed
  then show "on_level h m j \<Longrightarrow> nbrs h' j m = (if (j, m) = (i, l) then vs else nbrs h j m)" .
  show sh: "same_shape h h'" by (simp add: w same_shape_def)
  have "packed ys" by (auto simp: packed_def ys_def)
  then have "links_ok h'" unfolding links_ok_def same_shape_on_level[OF sh]
    using L(3) sl nb vs(2) h(2) by (auto simp: links_ok_def)
  moreover have "layout_ok h'" unfolding w ys_def[symmetric] by (rule layout_write_slot[OF L(1) h(2) ly])
  moreover have "cum_pos h'" using L(2) by (simp add: w cum_pos_def)
  ultimately show "linkable h'" by (simp add: linkable_def)
qed

lemma add_link_ok:
  fixes sd :: "nat \<Rightarrow> nat \<Rightarrow> 'd::linorder"
  assumes h: "linkable h" and src: "on_level h l src" and dest: "on_level h l dest"
  shows "linkable (add_link sd src dest l keep h)" "same_shape h (add_link sd src dest l keep h)"
    "on_level h m j \<Longrightarrow> nbrs (add_link sd src dest l keep h) j m
      = (if (j, m) = (src, l) then linked sd keep (seglen h l) src dest (nbrs h src l) else nbrs h j m)"
proof -
  define vs where "vs = linked sd keep (seglen h l) src dest (nbrs h src l)"
  note len = linkable_seglen[OF h src]
  have L: "layout_ok h" "cum_pos h" "links_ok h" using h by (simp_all add: linkable_def)
  then have p: "packed (slot h src l)" using src by (simp add: links_ok_def)
  have w: "add_link sd src dest l keep h = write_slot h src l (map int vs @ replicate (seglen h l - length vs) (-1))"
    using add_link_slot[OF L(1,2) src p, of sd dest keep] by (simp add: vs_def len(1))
  have v: "mset vs \<subseteq># mset (dest # nbrs h src l)" "length vs \<le> seglen h l"
    using linked_ok[OF len(3), of sd keep src dest] len(2) by (auto simp: vs_def)
  have "\<forall>v \<in> set vs. on_level h l v" using set_mset_mono[OF v(1)] linkable_nbrs[OF h src] dest by auto
  from write_nbrs_ok[OF h src v(2) this w] show
    "linkable (add_link sd src dest l keep h)" "same_shape h (add_link sd src dest l keep h)"
    "on_level h m j \<Longrightarrow> nbrs (add_link sd src dest l keep h) j m
      = (if (j, m) = (src, l) then linked sd keep (seglen h l) src dest (nbrs h src l) else nbrs h j m)"
    by (auto simp: vs_def)
qed

text \<open>The links of a new vertex, and the links back to it.\<close>

lemma add_links_to:
  fixes sd :: "nat \<Rightarrow> nat \<Rightarrow> 'd::linorder" and keep :: bool
  assumes "linkable h" "on_level h l src" "\<forall>v \<in> set vs. on_level h l v"
    "length (nbrs h src l) + length vs \<le> seglen h l"
  defines "h' \<equiv> fold (\<lambda>v h. add_link sd src v l keep h) vs h"
  shows "linkable h' \<and> same_shape h h' \<and>
    (\<forall>j m. on_level h m j \<longrightarrow> nbrs h' j m = (if (j, m) = (src, l) then nbrs h src l @ vs else nbrs h j m))"
  using assms(1-4) unfolding h'_def
proof (induction vs arbitrary: h)
  case (Cons v vs)
  let ?h = "add_link sd src v l keep h"
  from Cons.prems have v: "on_level h l v" by simp
  note A = add_link_ok[OF Cons.prems(1,2) v, where sd = sd and keep = keep]
  note on = same_shape_on_level[OF A(2)]
  have nb: "nbrs ?h src l = nbrs h src l @ [v]"
    using A(3)[OF Cons.prems(2)] Cons.prems(4) by (simp add: linked_def)
  have "linkable (fold (\<lambda>v h. add_link sd src v l keep h) vs ?h) \<and>
    same_shape ?h (fold (\<lambda>v h. add_link sd src v l keep h) vs ?h) \<and>
    (\<forall>j m. on_level ?h m j \<longrightarrow> nbrs (fold (\<lambda>v h. add_link sd src v l keep h) vs ?h) j m =
       (if (j, m) = (src, l) then nbrs ?h src l @ vs else nbrs ?h j m))"
    by (rule Cons.IH[OF A(1)]) (use Cons.prems in \<open>auto simp: on nb same_shape_seglen[OF A(2)]\<close>)
  then show ?case using same_shape_trans[OF A(2)] A(3) nb on by auto
qed auto

lemma add_links_back:
  fixes sd :: "nat \<Rightarrow> nat \<Rightarrow> 'd::linorder" and keep :: bool
  assumes "linkable h" "on_level h l dest" "\<forall>v \<in> set vs. on_level h l v" "distinct vs"
  defines "h' \<equiv> fold (\<lambda>v h. add_link sd v dest l keep h) vs h"
  shows "linkable h' \<and> same_shape h h' \<and>
    (\<forall>j m. on_level h m j \<longrightarrow>
      nbrs h' j m = (if m = l \<and> j \<in> set vs then linked sd keep (seglen h l) j dest (nbrs h j l) else nbrs h j m))"
  using assms(1-4) unfolding h'_def
proof (induction vs arbitrary: h)
  case (Cons v vs)
  let ?h = "add_link sd v dest l keep h"
  from Cons.prems have v: "on_level h l v" by simp
  note A = add_link_ok[OF Cons.prems(1) v Cons.prems(2), where sd = sd and keep = keep]
  note on = same_shape_on_level[OF A(2)]
  have "linkable (fold (\<lambda>v h. add_link sd v dest l keep h) vs ?h) \<and>
    same_shape ?h (fold (\<lambda>v h. add_link sd v dest l keep h) vs ?h) \<and>
    (\<forall>j m. on_level ?h m j \<longrightarrow> nbrs (fold (\<lambda>v h. add_link sd v dest l keep h) vs ?h) j m =
       (if m = l \<and> j \<in> set vs then linked sd keep (seglen ?h l) j dest (nbrs ?h j l) else nbrs ?h j m))"
    by (rule Cons.IH[OF A(1)]) (use Cons.prems in \<open>auto simp: on\<close>)
  then show ?case using same_shape_trans[OF A(2)] A(3) on Cons.prems(4) same_shape_seglen[OF A(2)] by auto
qed auto

section \<open>The search for neighbors\<close>

lemma update_beam: "update_with_candidate ef qd = beam_add farther nearer ef qd"
  by (auto simp: fun_eq_iff update_with_candidate_def beam_add_def Let_def)

text \<open>The two versions of the loop are equal.\<close>

lemma neighbors_to_add_step_fold:
  "neighbors_to_add_step h qd level ref (results, cand, vt)
    = (if cand = [] \<or> fst (hd cand) > fst (hd results) then Inl (results, cand, vt)
       else let N = nbrs h (snd (hd cand)) level;
                (results', cand') = fold (beam_add farther nearer (hn_efConstruction h) qd) (unseen vt_mark N vt) (results, tl cand)
            in Inr (results', cand', fold (\<lambda>v vt. fst (vt_mark vt v)) N vt))"
  by (simp add: neighbors_to_add_step_def batch4_fold batch4_ref_fold update_beam Let_def case_prod_beta)

lemma neighbors_to_add_run:
  fixes qd :: "nat \<Rightarrow> 'd::linorder" and h :: hnsw and level :: nat
  defines "N \<equiv> (\<lambda>v. nbrs h v level)"
  assumes "beam_inv farther nearer N qd n (hn_efConstruction h) exh R s" "1 \<le> hn_efConstruction h"
    and R: "R \<subseteq> {..<n}" "\<forall>v \<in> R. set (N v) \<subseteq> R"
  shows "\<exists>tc cand vt. run_loop (neighbors_to_add_step h qd level ref) s = Some (tc, cand, vt) \<and>
    beam_inv farther nearer N qd n (hn_efConstruction h) False R (tc, cand, vt) \<and>
    visited n (snd (snd s)) \<subseteq> visited n vt \<and>
    (exh \<longrightarrow> (\<forall>v \<in> visited n vt. set (N v) \<subseteq> visited n vt))"
proof -
  let ?ef = "hn_efConstruction h" and ?V0 = "visited n (snd (snd s))"
  define Q where "Q = (\<lambda>(tc :: ('d \<times> nat) list, cand :: ('d \<times> nat) list, vt).
    beam_inv farther nearer N qd n ?ef False R (tc, cand, vt) \<and> ?V0 \<subseteq> visited n vt \<and>
    (exh \<longrightarrow> (\<forall>v \<in> visited n vt. set (N v) \<subseteq> visited n vt)))"
  have "\<exists>r. run_loop (neighbors_to_add_step h qd level ref) s = Some r \<and> Q r"
  proof (rule run_loop_total[where I = "\<lambda>s. beam_inv farther nearer N qd n ?ef exh R s \<and> ?V0 \<subseteq> visited n (snd (snd s))"
      and m = "beam_measure n"])
    show "beam_inv farther nearer N qd n ?ef exh R s \<and> ?V0 \<subseteq> visited n (snd (snd s))" using assms(2) by simp
  next
    fix t t' assume I: "beam_inv farther nearer N qd n ?ef exh R t \<and> ?V0 \<subseteq> visited n (snd (snd t))"
      and st: "neighbors_to_add_step h qd level ref t = Inr t'"
    obtain tc cand vt where t: "t = (tc, cand, vt)" by (metis prod_cases3)
    have b: "beam_inv farther nearer N qd n ?ef exh R (tc, cand, vt)" using I t by simp
    obtain d0 v0 where hd: "hd cand = (d0, v0)" by fastforce
    have ne: "cand \<noteq> []" using st by (auto simp: t neighbors_to_add_step_fold)
    obtain tc' cand' where f: "fold (beam_add farther nearer ?ef qd) (unseen vt_mark (N v0) vt) (tc, tl cand) = (tc', cand')"
      by fastforce
    have t': "t' = (tc', cand', fold (\<lambda>v vt. fst (vt_mark vt v)) (N v0) vt)"
      using st ne hd f by (auto simp: t neighbors_to_add_step_fold Let_def N_def split: if_splits)
    note X = bydist.beam_expand[OF b assms(3) R ne hd f]
    show "(beam_inv farther nearer N qd n ?ef exh R t' \<and> ?V0 \<subseteq> visited n (snd (snd t'))) \<and> beam_measure n t' < beam_measure n t"
      using X I by (auto simp: t t')
  next
    fix t r assume I: "beam_inv farther nearer N qd n ?ef exh R t \<and> ?V0 \<subseteq> visited n (snd (snd t))"
      and st: "neighbors_to_add_step h qd level ref t = Inl r"
    obtain tc cand vt where t: "t = (tc, cand, vt)" by (metis prod_cases3)
    have b: "beam_inv farther nearer N qd n ?ef exh R (tc, cand, vt)" using I t by simp
    have r: "r = t \<and> (cand = [] \<or> fst (hd cand) > fst (hd tc))"
      using st by (auto simp: t neighbors_to_add_step_fold Let_def split: prod.splits if_splits)
    then have "cand = [] \<or> \<not> exh" using bydist.beam_no_early_stop[OF b assms(3) R(1)] by blast
    then show "Q r" using r I b by (auto simp: Q_def t beam_inv_def)
  qed
  then show ?thesis unfolding Q_def by auto
qed

lemma search_neighbors_to_add_ok:
  fixes qd :: "nat \<Rightarrow> 'd::linorder" and h :: hnsw and level :: nat
  assumes R: "R \<subseteq> {..<n}" "\<forall>v \<in> R. set (nbrs h v level) \<subseteq> R"
    and "v \<in> R" "vt_inv n vt" "visited n vt = {}" "1 \<le> hn_efConstruction h"
  shows "\<exists>tc vt' V. search_neighbors_to_add h qd [] v (qd v) level vt ref = Some (tc, vt') \<and>
    vt_inv n vt' \<and> visited n vt' = {} \<and> v \<in> V \<and> V \<subseteq> R \<and>
    best_of farther (hn_efConstruction h) (npairs qd V) tc \<and>
    (card R \<le> hn_efConstruction h \<longrightarrow> (\<forall>v \<in> V. set (nbrs h v level) \<subseteq> V))"
proof -
  let ?ef = "hn_efConstruction h" and ?vt = "fst (vt_mark vt v)"
  have v: "v < n" using assms(3) R(1) by auto
  have V: "visited n ?vt = {v}"
    using vt.get_mark[OF assms(4) v] v assms(5) by (auto simp: visited_def)
  have "best_of farther ?ef (npairs qd {v}) [(qd v, v)]"
    using assms(6) by (simp add: best_of_def npairs_def pq_inv_def)
  then have b: "beam_inv farther nearer (\<lambda>v. nbrs h v level) qd n ?ef (card R \<le> ?ef) R ([(qd v, v)], [(qd v, v)], ?vt)"
    using vt.inv_mark[OF assms(4) v] V assms(3) by (simp add: beam_inv_def pq_inv_def)
  from neighbors_to_add_run[OF b assms(6) R, of ref] obtain tc cand vt' where
    r: "run_loop (neighbors_to_add_step h qd level ref) ([(qd v, v)], [(qd v, v)], ?vt) = Some (tc, cand, vt')"
    and i: "beam_inv farther nearer (\<lambda>v. nbrs h v level) qd n ?ef False R (tc, cand, vt')"
    and c: "v \<in> visited n vt'" "card R \<le> ?ef \<longrightarrow> (\<forall>v \<in> visited n vt'. set (nbrs h v level) \<subseteq> visited n vt')"
    using V by auto
  have a: "visited n (vt_advance vt') = {}" "vt_inv n (vt_advance vt')"
    using i vt.get_advance[of n vt'] vt.inv_advance[of n vt'] by (auto simp: beam_inv_def visited_def)
  have s: "search_neighbors_to_add h qd [] v (qd v) level vt ref = Some (tc, vt_advance vt')"
    using r by (simp add: search_neighbors_to_add_def)
  have "visited n vt' \<subseteq> R" "best_of farther ?ef (npairs qd (visited n vt')) tc"
    using i by (simp_all add: beam_inv_def)
  with a s c show ?thesis
    by (intro exI[of _ tc] exI[of _ "vt_advance vt'"] exI[of _ "visited n vt'"]) simp
qed

end
