(* ===== verification/HnswInsert.thy ===== *)
theory HnswInsert
  imports HnswBuildOk
begin

text \<open>
  The invariant of a graph under construction and its preservation by \<open>add_with_locks\<close>: the set of the
  vertices that are linked, no vertex its own neighbor, no neighbor twice, the entry point on the highest
  level; and what the insertion of a vertex does on each of its levels.
\<close>

section \<open>One level\<close>

text \<open>The links of \<open>pt\<close> on a level are a diverse selection of the best of the vertices \<open>V\<close> that the search
  from \<open>v\<close> has evaluated; the selected vertices get a link back, and no other list changes.\<close>

definition inserted_at ::
  "(nat \<Rightarrow> 'd::linorder) \<Rightarrow> (nat \<Rightarrow> nat \<Rightarrow> 'd) \<Rightarrow> bool \<Rightarrow> hnsw \<Rightarrow> hnsw \<Rightarrow> nat set \<Rightarrow> nat \<Rightarrow> nat \<Rightarrow> nat \<Rightarrow> bool" where
  "inserted_at qd sd keep h h' I pt v l \<longleftrightarrow>
     (\<exists>V tc. v \<in> V \<and> V \<subseteq> {w \<in> I. on_level h l w} \<and>
        best_of farther (hn_efConstruction h) (npairs qd V) tc \<and>
        (card {w \<in> I. on_level h l w} \<le> hn_efConstruction h \<longrightarrow> (\<forall>w \<in> V. set (nbrs h w l) \<subseteq> V)) \<and>
        (\<forall>j. on_level h l j \<longrightarrow>
           (let new = map snd (shrink_result_set sd tc (seglen h l) keep)
            in nbrs h' j l = (if j = pt then new
                 else if j \<in> set new then linked sd keep (seglen h l) j pt (nbrs h j l) else nbrs h j l))))"

lemma inserted_at_cong:
  assumes "inserted_at qd sd keep h h' I pt v l" "same_shape h0 h"
    "\<forall>j. on_level h l j \<longrightarrow> nbrs h0 j l = nbrs h j l" "\<forall>j. on_level h l j \<longrightarrow> nbrs h1 j l = nbrs h' j l"
  shows "inserted_at qd sd keep h0 h1 I pt v l"
proof -
  have on: "on_level h0 = on_level h" and s: "seglen h0 = seglen h" and ef: "hn_efConstruction h0 = hn_efConstruction h"
    using assms(2) same_shape_on_level[OF assms(2)] same_shape_seglen[OF assms(2)] by (simp_all add: same_shape_def)
  from assms(1) obtain V tc where V: "v \<in> V" "V \<subseteq> {w \<in> I. on_level h l w}"
    "best_of farther (hn_efConstruction h) (npairs qd V) tc"
    "card {w \<in> I. on_level h l w} \<le> hn_efConstruction h \<longrightarrow> (\<forall>w \<in> V. set (nbrs h w l) \<subseteq> V)"
    "\<forall>j. on_level h l j \<longrightarrow>
           (let new = map snd (shrink_result_set sd tc (seglen h l) keep)
            in nbrs h' j l = (if j = pt then new
                 else if j \<in> set new then linked sd keep (seglen h l) j pt (nbrs h j l) else nbrs h j l))"
    unfolding inserted_at_def by blast
  have "card {w \<in> I. on_level h l w} \<le> hn_efConstruction h \<longrightarrow> (\<forall>w \<in> V. set (nbrs h0 w l) \<subseteq> V)"
    using V(2,4) assms(3) by fastforce
  then show ?thesis
    unfolding inserted_at_def on s ef using V assms(3,4)
    by (intro exI[of _ V] exI[of _ tc]) (simp add: Let_def)
qed

lemma distinct_of_mset_set:
  assumes "mset xs \<subseteq># mset_set V"
  shows "distinct xs"
  unfolding distinct_count_atmost_1
proof
  fix a
  have "count (mset xs) a \<le> count (mset_set V) a" using assms by (rule mset_subset_eq_count)
  moreover have "count (mset_set V) a \<le> 1" by (simp add: count_mset_set')
  ultimately have le: "count (mset xs) a \<le> 1" by simp
  show "count (mset xs) a = (if a \<in> set xs then 1 else 0)"
  proof (cases "a \<in> set xs")
    case True
    then have "0 < count (mset xs) a" by simp
    with le have "count (mset xs) a = 1" by linarith
    with True show ?thesis by (simp only: if_True)
  qed simp
qed

text \<open>What is selected from the best of \<open>V\<close>.\<close>

lemma selected_ok:
  fixes keep :: bool and sd :: "nat \<Rightarrow> nat \<Rightarrow> 'd::linorder"
  assumes "best_of farther ef (npairs qd V) tc" "finite V" "V \<noteq> {}" "1 \<le> ef" "1 \<le> m"
  defines "new \<equiv> map snd (shrink_result_set sd tc m keep)"
  shows "new \<noteq> []" "distinct new" "set new \<subseteq> V" "length new \<le> m"
proof -
  note S = shrink_result_set_ok[OF assms(5), where sd = sd and q = tc and keep = keep]
  have "tc \<noteq> []" using assms(2-4) by (intro best_of_nonempty[OF assms(1)]) (auto simp: npairs_def mset_set_empty_iff)
  then show "new \<noteq> []" "length new \<le> m" using S by (simp_all add: new_def)
  from assms(1) obtain R where "npairs qd V = mset tc + R" by (rule best_ofE)
  then have "mset (shrink_result_set sd tc m keep) \<subseteq># npairs qd V" using S(1) by (simp add: subset_mset.add_increasing2)
  then have "image_mset snd (mset (shrink_result_set sd tc m keep)) \<subseteq># image_mset snd (npairs qd V)"
    by (rule image_mset_subseteq_mono)
  then have sub: "mset new \<subseteq># mset_set V" by (simp add: new_def npairs_def image_mset.compositionality comp_def)
  then show "distinct new" by (rule distinct_of_mset_set)
  show "set new \<subseteq> V" using set_mset_mono[OF sub] assms(2) by simp
qed

text \<open>The part of the invariant that concerns one level.\<close>

definition level_ok :: "hnsw \<Rightarrow> nat set \<Rightarrow> nat \<Rightarrow> bool" where
  "level_ok h I l \<longleftrightarrow> (\<forall>i. on_level h l i \<longrightarrow> set (nbrs h i l) \<subseteq> I \<and> distinct (nbrs h i l) \<and> i \<notin> set (nbrs h i l) \<and>
     (i \<notin> I \<longrightarrow> nbrs h i l = []))"

lemma level_ok_cong:
  assumes "level_ok h I l" "same_shape h h'" "\<forall>j. on_level h l j \<longrightarrow> nbrs h' j l = nbrs h j l"
  shows "level_ok h' I l"
  using assms(1,3) unfolding level_ok_def same_shape_on_level[OF assms(2)] by auto

definition vt_clear :: "nat \<Rightarrow> vtable \<Rightarrow> bool" where
  "vt_clear n vt \<longleftrightarrow> vt_inv n vt \<and> visited n vt = {}"

lemma add_links_starting_from_ok:
  fixes qd :: "nat \<Rightarrow> 'd::linorder"
  assumes h: "linkable h" "level_ok h I l" "1 \<le> hn_efConstruction h"
    and pt: "on_level h l pt" "pt \<notin> I" and v: "on_level h l v" "v \<in> I"
    and vt: "vt_clear (length (hn_levels h)) vt"
  shows "\<exists>h' vt'. add_links_starting_from qd sd pt v (qd v) l keep (h, vt) = Some (h', vt') \<and>
    linkable h' \<and> same_shape h h' \<and> vt_clear (length (hn_levels h)) vt' \<and>
    inserted_at qd sd keep h h' I pt v l \<and>
    (\<forall>j m. on_level h m j \<and> m \<noteq> l \<longrightarrow> nbrs h' j m = nbrs h j m)"
proof -
  let ?n = "length (hn_levels h)" and ?R = "{w \<in> I. on_level h l w}"
  have R: "?R \<subseteq> {..<?n}" "v \<in> ?R" using v by (auto simp: on_level_def)
  have cR: "\<forall>w \<in> ?R. set (nbrs h w l) \<subseteq> ?R"
  proof
    fix w assume "w \<in> ?R"
    then have "on_level h l w" by simp
    with h(2) linkable_nbrs[OF h(1), of l w] show "set (nbrs h w l) \<subseteq> ?R" unfolding level_ok_def by blast
  qed
  have vt': "vt_inv ?n vt" "visited ?n vt = {}" using vt by (simp_all add: vt_clear_def)
  from search_neighbors_to_add_ok[OF R(1) cR R(2) vt' h(3), of qd False] obtain tc vt1 V where
    s: "search_neighbors_to_add h qd [] v (qd v) l vt False = Some (tc, vt1)"
    and vt1: "vt_inv ?n vt1 \<and> visited ?n vt1 = {}" and V: "v \<in> V" "V \<subseteq> ?R"
    and best: "best_of farther (hn_efConstruction h) (npairs qd V) tc"
    and cl: "card ?R \<le> hn_efConstruction h \<longrightarrow> (\<forall>w \<in> V. set (nbrs h w l) \<subseteq> V)" by blast
  define new where "new = map snd (shrink_result_set sd tc (seglen h l) keep)"
  have fin: "finite V" "V \<noteq> {}" using V R(1) by (auto intro: finite_subset[OF _ finite_lessThan])
  have pos: "1 \<le> seglen h l" using linkable_seglen(2)[OF h(1) pt(1)] by simp
  note N = selected_ok[OF best fin h(3) pos, of sd keep, folded new_def]
  have on: "\<forall>w \<in> set new. on_level h l w" "pt \<notin> set new" using N(3) V(2) pt(2) by auto
  have e: "nbrs h pt l = []" using h(2) pt by (auto simp: level_ok_def)
  let ?h1 = "fold (\<lambda>w h. add_link sd pt w l keep h) new h"
  let ?h2 = "fold (\<lambda>w h. add_link sd w pt l keep h) new ?h1"
  have A: "linkable ?h1 \<and> same_shape h ?h1 \<and>
    (\<forall>j m. on_level h m j \<longrightarrow> nbrs ?h1 j m = (if (j, m) = (pt, l) then nbrs h pt l @ new else nbrs h j m))"
    by (rule add_links_to[OF h(1) pt(1) on(1)]) (use N(4) e in simp)
  then have sh: "same_shape h ?h1" by blast
  note on1 = same_shape_on_level[OF sh]
  have B: "linkable ?h2 \<and> same_shape ?h1 ?h2 \<and>
    (\<forall>j m. on_level ?h1 m j \<longrightarrow>
      nbrs ?h2 j m = (if m = l \<and> j \<in> set new then linked sd keep (seglen ?h1 l) j pt (nbrs ?h1 j l) else nbrs ?h1 j m))"
    by (rule add_links_back) (use A pt(1) on N(2) in \<open>auto simp: on1\<close>)
  then have sh2: "same_shape ?h1 ?h2" by blast
  have r: "add_links_starting_from qd sd pt v (qd v) l keep (h, vt) = Some (?h2, vt1)"
    by (simp add: add_links_starting_from_def s new_def seglen_def Let_def)
  have nb: "nbrs ?h2 j m = (if m = l \<and> j = pt then new
      else if m = l \<and> j \<in> set new then linked sd keep (seglen h l) j pt (nbrs h j l) else nbrs h j m)"
    if "on_level h m j" for j m
    using A B that on(2) e by (auto simp: on1 same_shape_seglen[OF sh])
  have "inserted_at qd sd keep h ?h2 I pt v l"
    unfolding inserted_at_def using V best cl nb by (intro exI[of _ V] exI[of _ tc]) (auto simp: new_def Let_def)
  then show ?thesis
    using A B r nb vt1 same_shape_trans[OF sh sh2] by (intro exI[of _ ?h2] exI[of _ vt1]) (simp add: vt_clear_def)
qed

text \<open>After the insertion the level is again in order, with the new vertex.\<close>

lemma inserted_at_level_ok:
  assumes ins: "inserted_at qd sd keep h h' I pt v l" and sh: "same_shape h h'"
    and h: "linkable h" "level_ok h I l" "1 \<le> hn_efConstruction h" "finite I" and pt: "on_level h l pt" "pt \<notin> I"
  shows "level_ok h' (insert pt I) l" "nbrs h' pt l \<noteq> []" "set (nbrs h' pt l) \<subseteq> I"
    "on_level h l j \<Longrightarrow> nbrs h j l \<noteq> [] \<Longrightarrow> nbrs h' j l \<noteq> []"
    "I = {j} \<Longrightarrow> on_level h l j \<Longrightarrow> nbrs h' j l \<noteq> []"
proof -
  from ins obtain V tc where V: "v \<in> V" "V \<subseteq> {w \<in> I. on_level h l w}"
    and best: "best_of farther (hn_efConstruction h) (npairs qd V) tc"
    and all: "\<forall>j. on_level h l j \<longrightarrow>
           (let new = map snd (shrink_result_set sd tc (seglen h l) keep)
            in nbrs h' j l = (if j = pt then new
                 else if j \<in> set new then linked sd keep (seglen h l) j pt (nbrs h j l) else nbrs h j l))"
    unfolding inserted_at_def by blast
  define new where "new = map snd (shrink_result_set sd tc (seglen h l) keep)"
  have nb: "nbrs h' j l = (if j = pt then new
      else if j \<in> set new then linked sd keep (seglen h l) j pt (nbrs h j l) else nbrs h j l)" if "on_level h l j" for j
    using all that by (simp add: new_def Let_def)
  have fin: "finite V" "V \<noteq> {}" using V h(4) by (auto intro: finite_subset[OF _ h(4)])
  have pos: "1 \<le> seglen h l" using linkable_seglen(2)[OF h(1) pt(1)] by simp
  note N = selected_ok[OF best fin h(3) pos, of sd keep, folded new_def]
  show "nbrs h' pt l \<noteq> []" "set (nbrs h' pt l) \<subseteq> I" using nb[OF pt(1)] N(1,3) V(2) by auto
  have L: "mset (linked sd keep (seglen h l) j pt (nbrs h j l)) \<subseteq># mset (pt # nbrs h j l)"
    "linked sd keep (seglen h l) j pt (nbrs h j l) \<noteq> []" if "on_level h l j" for j
    using linked_ok[OF linkable_seglen(3)[OF h(1) that] pos, where sd = sd and keep = keep and src = j and dest = pt] by auto
  show "nbrs h' j l \<noteq> []" if "on_level h l j" "nbrs h j l \<noteq> []"
    using nb[OF that(1)] L(2)[OF that(1)] N(1) that(2) by auto
  show "nbrs h' j l \<noteq> []" if "I = {j}" "on_level h l j"
  proof -
    have "set new = {j}" using N(1,3) V(2) that(1) by (cases new) auto
    then show ?thesis using nb[OF that(2)] L(2)[OF that(2)] N(1) by auto
  qed
  show "level_ok h' (insert pt I) l"
    unfolding level_ok_def same_shape_on_level[OF sh]
  proof (intro allI impI)
    fix i assume i: "on_level h l i"
    have old: "set (nbrs h i l) \<subseteq> I" "distinct (nbrs h i l)" "i \<notin> set (nbrs h i l)" "i \<notin> I \<longrightarrow> nbrs h i l = []"
      using h(2) i by (simp_all add: level_ok_def)
    consider "i = pt" | "i \<noteq> pt" "i \<in> set new" | "i \<noteq> pt" "i \<notin> set new" by blast
    then show "set (nbrs h' i l) \<subseteq> insert pt I \<and> distinct (nbrs h' i l) \<and> i \<notin> set (nbrs h' i l) \<and>
        (i \<notin> insert pt I \<longrightarrow> nbrs h' i l = [])"
    proof cases
      case 1
      then show ?thesis using nb[OF i] N V(2) pt(2) by auto
    next
      case 2
      let ?w = "linked sd keep (seglen h l) i pt (nbrs h i l)"
      have "distinct (pt # nbrs h i l)" using old pt(2) by auto
      then have "mset (pt # nbrs h i l) = mset_set (set (pt # nbrs h i l))" by (rule mset_set_set[symmetric])
      with L(1)[OF i] have "distinct ?w" by (intro distinct_of_mset_set[of ?w "set (pt # nbrs h i l)"]) simp
      moreover have "set ?w \<subseteq> insert pt (set (nbrs h i l))" using set_mset_mono[OF L(1)[OF i]] by simp
      moreover have "i \<in> I" using 2(2) N(3) V(2) by auto
      ultimately show ?thesis using nb[OF i] 2 old by auto
    next
      case 3
      then show ?thesis using nb[OF i] old by auto
    qed
  qed
qed

section \<open>All levels\<close>

text \<open>The distances may differ from level to level.\<close>

definition link_levels ::
  "(nat \<Rightarrow> nat \<Rightarrow> 'd::linorder) \<Rightarrow> (nat \<Rightarrow> nat \<Rightarrow> nat \<Rightarrow> 'd) \<Rightarrow> (nat \<Rightarrow> bool) \<Rightarrow> nat \<Rightarrow> nat \<Rightarrow> nat list \<Rightarrow> hnsw \<times> vtable \<Rightarrow>
   (hnsw \<times> vtable) option" where
  "link_levels qd sd keep pt v ls s =
     fold (\<lambda>l r. Option.bind r (add_links_starting_from (qd l) (sd l) pt v (qd l v) l (keep l))) ls (Some s)"

lemma add_levels_link: "add_levels qd sd pt v (qd v) keep ls s = link_levels (\<lambda>_. qd) (\<lambda>_. sd) (\<lambda>_. keep) pt v ls s"
  by (simp add: add_levels_def link_levels_def)

lemma link_levels_ok:
  fixes qd :: "nat \<Rightarrow> nat \<Rightarrow> 'd::linorder"
  assumes "linkable h" "\<forall>l \<in> set ls. level_ok h I l \<and> on_level h l pt \<and> on_level h l v" "1 \<le> hn_efConstruction h"
    "pt \<notin> I" "v \<in> I" "vt_clear (length (hn_levels h)) vt" "distinct ls"
  shows "\<exists>h' vt'. link_levels qd sd keep pt v ls (h, vt) = Some (h', vt') \<and>
    linkable h' \<and> same_shape h h' \<and> vt_clear (length (hn_levels h)) vt' \<and>
    (\<forall>l \<in> set ls. inserted_at (qd l) (sd l) (keep l) h h' I pt v l) \<and>
    (\<forall>j m. on_level h m j \<and> m \<notin> set ls \<longrightarrow> nbrs h' j m = nbrs h j m)"
  using assms
proof (induction ls arbitrary: h vt)
  case Nil
  then show ?case by (simp add: link_levels_def)
next
  case (Cons l ls)
  have l: "level_ok h I l" "on_level h l pt" "on_level h l v" using Cons.prems(2) by auto
  from add_links_starting_from_ok[OF Cons.prems(1) l(1) Cons.prems(3) l(2) Cons.prems(4) l(3) Cons.prems(5,6),
      where qd = "qd l" and sd = "sd l" and keep = "keep l"]
  obtain h1 vt1 where s: "add_links_starting_from (qd l) (sd l) pt v (qd l v) l (keep l) (h, vt) = Some (h1, vt1)"
    and h1: "linkable h1" "same_shape h h1" "vt_clear (length (hn_levels h)) vt1" "inserted_at (qd l) (sd l) (keep l) h h1 I pt v l"
    and un: "\<forall>j m. on_level h m j \<and> m \<noteq> l \<longrightarrow> nbrs h1 j m = nbrs h j m" by blast
  note on = same_shape_on_level[OF h1(2)]
  have shp: "length (hn_levels h1) = length (hn_levels h)" "hn_efConstruction h1 = hn_efConstruction h"
    using h1(2) by (simp_all add: same_shape_def)
  have lev: "\<forall>m \<in> set ls. level_ok h1 I m \<and> on_level h1 m pt \<and> on_level h1 m v"
  proof
    fix m assume m: "m \<in> set ls"
    then have "m \<noteq> l" using Cons.prems(7) by auto
    then have "level_ok h1 I m" using level_ok_cong[OF _ h1(2), of I m] un Cons.prems(2) m by simp
    then show "level_ok h1 I m \<and> on_level h1 m pt \<and> on_level h1 m v" using Cons.prems(2) m by (simp add: on)
  qed
  have "\<exists>h' vt'. link_levels qd sd keep pt v ls (h1, vt1) = Some (h', vt') \<and>
    linkable h' \<and> same_shape h1 h' \<and> vt_clear (length (hn_levels h1)) vt' \<and>
    (\<forall>l \<in> set ls. inserted_at (qd l) (sd l) (keep l) h1 h' I pt v l) \<and>
    (\<forall>j m. on_level h1 m j \<and> m \<notin> set ls \<longrightarrow> nbrs h' j m = nbrs h1 j m)"
    by (rule Cons.IH[OF h1(1) lev]) (use Cons.prems h1 shp in simp_all)
  then obtain h' vt' where r: "link_levels qd sd keep pt v ls (h1, vt1) = Some (h', vt')"
    and h': "linkable h'" "same_shape h1 h'" "vt_clear (length (hn_levels h1)) vt'"
      "\<forall>l \<in> set ls. inserted_at (qd l) (sd l) (keep l) h1 h' I pt v l"
    and un': "\<forall>j m. on_level h1 m j \<and> m \<notin> set ls \<longrightarrow> nbrs h' j m = nbrs h1 j m" by blast
  have "inserted_at (qd m) (sd m) (keep m) h h' I pt v m" if m: "m \<in> set (l # ls)" for m
  proof (cases "m = l")
    case True
    then show ?thesis using un' Cons.prems(7) by (intro inserted_at_cong[OF h1(4)[folded True]]) (auto simp: on)
  next
    case False
    then have "inserted_at (qd m) (sd m) (keep m) h1 h' I pt v m" using h'(4) m by simp
    then show ?thesis by (rule inserted_at_cong[OF _ h1(2)]) (use un False in \<open>auto simp: on\<close>)
  qed
  moreover have "\<forall>j m. on_level h m j \<and> m \<notin> set (l # ls) \<longrightarrow> nbrs h' j m = nbrs h j m" using un un' by (simp add: on)
  moreover have "link_levels qd sd keep pt v (l # ls) (h, vt) = Some (h', vt')"
    using r s by (simp add: link_levels_def)
  ultimately show ?case using h' shp same_shape_trans[OF h1(2) h'(2)]
    by (intro exI[of _ h'] exI[of _ vt']) simp
qed

text \<open>The greedy descent to the levels of the new vertex.\<close>

lemma reach_in_level:
  assumes "linkable h" "level_ok h I l" "on_level h l v" "v \<in> I"
  shows "reach h l {v} \<subseteq> {w \<in> I. on_level h l w}"
proof (rule reach_least)
  fix w assume "w \<in> {w \<in> I. on_level h l w}"
  then have "on_level h l w" by simp
  then show "set (nbrs h w l) \<subseteq> {w \<in> I. on_level h l w}"
    using assms(2) linkable_nbrs[OF assms(1), of l w] unfolding level_ok_def by blast
qed (use assms in simp)

lemma greedy_levels_ok:
  assumes "linkable h" "\<forall>l. level_ok h I l" "on_level h m v" "v \<in> I"
    "fold (\<lambda>level p. snd (greedy_update_nearest h qd level HNSWStats p)) (rev [a..<m + 1]) (v, qd v) = (v', d')"
  shows "d' = qd v' \<and> v' \<in> I \<and> on_level h (min m (a - 1)) v' \<and> d' \<le> qd v"
  using assms(3-5)
proof (induction m arbitrary: v)
  case 0
  show ?case
  proof (cases "a = 0")
    case True
    obtain st where g: "greedy_update_nearest h qd 0 HNSWStats (v, qd v) = (st, v', d')"
      using 0(3) True by (cases "greedy_update_nearest h qd 0 HNSWStats (v, qd v)") simp
    note G = greedy_ok[OF g]
    have "reach h 0 {v} \<subseteq> {w \<in> I. on_level h 0 w}"
      using 0 assms(2) by (intro reach_in_level[OF assms(1)]) simp_all
    then show ?thesis using G by auto
  qed (use 0 in auto)
next
  case (Suc m)
  show ?case
  proof (cases "a \<le> Suc m")
    case True
    obtain st1 v1 d1 where g: "greedy_update_nearest h qd (Suc m) HNSWStats (v, qd v) = (st1, v1, d1)"
      by (metis prod_cases3)
    note G = greedy_ok[OF g]
    have "reach h (Suc m) {v} \<subseteq> {w \<in> I. on_level h (Suc m) w}"
      using Suc.prems assms(2) by (intro reach_in_level[OF assms(1)]) simp_all
    then have v1: "v1 \<in> I" "on_level h (Suc m) v1" using G by auto
    have "fold (\<lambda>level p. snd (greedy_update_nearest h qd level HNSWStats p)) (rev [a..<m + 1]) (v1, qd v1) = (v', d')"
      using Suc.prems(3) True g G by simp
    from Suc.IH[OF on_level_down[OF v1(2)] v1(1) this] show ?thesis
      using True G by (auto simp: min_def elim: on_level_down split: if_splits)
  qed (use Suc.prems in auto)
qed

section \<open>The graph under construction\<close>

text \<open>The vertices \<open>I\<close> have been inserted, the others have space but no links.\<close>

definition built :: "hnsw \<Rightarrow> nat set \<Rightarrow> bool" where
  "built h I \<longleftrightarrow> linkable h \<and> 1 \<le> hn_efConstruction h \<and> I \<subseteq> {..<length (hn_levels h)} \<and> (\<forall>l. level_ok h I l) \<and>
     (if I = {} then hn_entry_point h = -1
      else 0 \<le> hn_entry_point h \<and> 0 \<le> hn_max_level h \<and> nat (hn_entry_point h) \<in> I \<and>
        on_level h (nat (hn_max_level h)) (nat (hn_entry_point h)) \<and>
        (\<forall>v \<in> I. int (hn_levels h ! v) \<le> hn_max_level h + 1)) \<and>
     (2 \<le> card I \<longrightarrow> (\<forall>v \<in> I. nbrs h v 0 \<noteq> []))"

lemma built_graph_ok: "built h I \<Longrightarrow> graph_ok h"
  by (auto simp: built_def graph_ok_def linkable_def entry_ok_def split: if_splits)

text \<open>Changing the entry point.\<close>

lemma entry_fields [simp]:
  "nbrs (h\<lparr> hn_max_level := a, hn_entry_point := b \<rparr>) = nbrs h"
  "on_level (h\<lparr> hn_max_level := a, hn_entry_point := b \<rparr>) = on_level h"
  "linkable (h\<lparr> hn_max_level := a, hn_entry_point := b \<rparr>) = linkable h"
  "level_ok (h\<lparr> hn_max_level := a, hn_entry_point := b \<rparr>) I l = level_ok h I l"
proof -
  let ?h = "h\<lparr> hn_max_level := a, hn_entry_point := b \<rparr>"
  have s: "slot ?h = slot h" by (simp add: fun_eq_iff slot_def neighbor_range_eq)
  then show n: "nbrs ?h = nbrs h" by (simp add: fun_eq_iff nbrs_def)
  show o: "on_level ?h = on_level h" by (simp add: fun_eq_iff on_level_def)
  show "linkable ?h = linkable h" by (simp add: linkable_def layout_ok_def cum_pos_def links_ok_def s n o)
  show "level_ok ?h I l = level_ok h I l" by (simp add: level_ok_def n o)
qed

lemma level_ok_insert:
  "level_ok h I l \<Longrightarrow> level_ok h (insert pt I) l"
  by (auto simp: level_ok_def)

text \<open>After the links on all levels of a new vertex, with the entry point raised when the vertex is on a
  higher level.\<close>

definition raise_entry :: "nat \<Rightarrow> nat \<Rightarrow> hnsw \<Rightarrow> hnsw" where
  "raise_entry pt_level pt h =
     (if int pt_level > hn_max_level h then h\<lparr> hn_max_level := int pt_level, hn_entry_point := int pt \<rparr> else h)"

lemma raise_entry_fields [simp]:
  "nbrs (raise_entry pt_level pt h) = nbrs h" "on_level (raise_entry pt_level pt h) = on_level h"
  "linkable (raise_entry pt_level pt h) = linkable h" "level_ok (raise_entry pt_level pt h) J l = level_ok h J l"
  "hn_levels (raise_entry pt_level pt h) = hn_levels h" "hn_offsets (raise_entry pt_level pt h) = hn_offsets h"
  "hn_cum (raise_entry pt_level pt h) = hn_cum h" "hn_efConstruction (raise_entry pt_level pt h) = hn_efConstruction h"
  "hn_assign_probas (raise_entry pt_level pt h) = hn_assign_probas h"
  by (simp_all add: raise_entry_def)

text \<open>What an insertion has done when it is complete.\<close>

definition inserted ::
  "(nat \<Rightarrow> nat \<Rightarrow> 'd::linorder) \<Rightarrow> (nat \<Rightarrow> nat \<Rightarrow> nat \<Rightarrow> 'd) \<Rightarrow> (nat \<Rightarrow> bool) \<Rightarrow> nat \<Rightarrow> hnsw \<Rightarrow> hnsw \<Rightarrow> nat set \<Rightarrow> nat \<Rightarrow> bool" where
  "inserted qd sd keep pt_level h h' I pt \<longleftrightarrow>
     built h' (insert pt I) \<and> hn_levels h' = hn_levels h \<and> hn_offsets h' = hn_offsets h \<and> hn_cum h' = hn_cum h \<and>
     hn_assign_probas h' = hn_assign_probas h \<and>
     (I \<noteq> {} \<longrightarrow> (\<exists>v \<in> I. \<forall>l \<le> min (nat (hn_max_level h)) pt_level. inserted_at (qd l) (sd l) (keep l) h h' I pt v l)) \<and>
     (\<forall>j m. on_level h m j \<and> pt_level < m \<longrightarrow> nbrs h' j m = nbrs h j m)"

lemma first_inserted:
  assumes "built h {}" "pt < length (hn_levels h)" "hn_levels h ! pt = pt_level + 1"
  shows "hn_entry_point h = -1"
    "inserted qd sd keep pt_level h (h\<lparr> hn_max_level := int pt_level, hn_entry_point := int pt \<rparr>) {} pt"
proof -
  from assms(1) have B: "linkable h" "1 \<le> hn_efConstruction h" "\<forall>l. level_ok h {} l" "hn_entry_point h = -1"
    by (simp_all add: built_def)
  then show "hn_entry_point h = -1" by simp
  have "built (h\<lparr> hn_max_level := int pt_level, hn_entry_point := int pt \<rparr>) (insert pt {})"
    using B assms(2,3) level_ok_insert by (auto simp: built_def on_level_def)
  then show "inserted qd sd keep pt_level h (h\<lparr> hn_max_level := int pt_level, hn_entry_point := int pt \<rparr>) {} pt"
    by (simp add: inserted_def)
qed

lemma linked_inserted:
  fixes qd :: "nat \<Rightarrow> nat \<Rightarrow> 'd::linorder"
  assumes b: "built h I" "I \<noteq> {}" and pt: "pt < length (hn_levels h)" "pt \<notin> I" "hn_levels h ! pt = pt_level + 1"
    and v: "v \<in> I" "on_level h (min (nat (hn_max_level h)) pt_level) v"
    and h1: "linkable h1" "same_shape h h1"
    and ins: "\<forall>l \<le> min (nat (hn_max_level h)) pt_level. inserted_at (qd l) (sd l) (keep l) h h1 I pt v l"
    and un: "\<forall>j m. on_level h m j \<and> \<not> m \<le> min (nat (hn_max_level h)) pt_level \<longrightarrow> nbrs h1 j m = nbrs h j m"
  shows "inserted qd sd keep pt_level h (raise_entry pt_level pt h1) I pt"
proof -
  let ?ml = "nat (hn_max_level h)" and ?e = "nat (hn_entry_point h)" and ?h' = "raise_entry pt_level pt h1"
  from b have B: "linkable h" "1 \<le> hn_efConstruction h" "I \<subseteq> {..<length (hn_levels h)}" "\<forall>l. level_ok h I l"
    "0 \<le> hn_entry_point h" "0 \<le> hn_max_level h" "?e \<in> I" "on_level h ?ml ?e"
    "\<forall>v \<in> I. int (hn_levels h ! v) \<le> hn_max_level h + 1" "2 \<le> card I \<longrightarrow> (\<forall>v \<in> I. nbrs h v 0 \<noteq> [])"
    by (simp_all add: built_def)
  have fin: "finite I" using B(3) by (rule finite_subset) simp
  have on: "on_level h l pt \<longleftrightarrow> l \<le> pt_level" for l using pt by (auto simp: on_level_def)
  note on1 = same_shape_on_level[OF h1(2)]
  have lev: "level_ok h1 (insert pt I) l" for l
  proof (cases "l \<le> min ?ml pt_level")
    case True
    then have "inserted_at (qd l) (sd l) (keep l) h h1 I pt v l" "on_level h l pt" using ins on by auto
    then show ?thesis using inserted_at_level_ok(1)[OF _ h1(2) B(1) _ B(2) fin _ pt(2)] B(4) by blast
  next
    case False
    then have "level_ok h1 I l" using level_ok_cong[OF _ h1(2), of I l] B(4) un by simp
    then show ?thesis by (rule level_ok_insert)
  qed
  have conn: "\<forall>w \<in> insert pt I. nbrs h1 w 0 \<noteq> []"
  proof -
    have "inserted_at (qd 0) (sd 0) (keep 0) h h1 I pt v 0" using ins by simp
    note L0 = inserted_at_level_ok[OF this h1(2) B(1) spec[OF B(4), of 0] B(2) fin _ pt(2)]
    have p0: "on_level h 0 pt" by (simp add: on)
    have "nbrs h1 w 0 \<noteq> []" if w: "w \<in> I" for w
    proof -
      have ow: "on_level h 0 w" using w B(1,3) by (auto simp: on_level_def linkable_def layout_ok_def Suc_le_eq)
      show ?thesis
      proof (cases "2 \<le> card I")
        case True
        then show ?thesis using L0(4)[of w] p0 ow B(10) w by simp
      next
        case False
        moreover have "0 < card I" using fin b(2) by (simp add: card_gt_0_iff)
        ultimately have "card I = 1" by linarith
        then have "I = {w}" using w by (auto simp: card_1_singleton_iff)
        then show ?thesis using L0(5)[of w] p0 ow by simp
      qed
    qed
    moreover have "nbrs h1 pt 0 \<noteq> []" using L0(2) p0 by simp
    ultimately show ?thesis by simp
  qed
  have fl: "hn_levels h1 = hn_levels h \<and> hn_max_level h1 = hn_max_level h \<and> hn_entry_point h1 = hn_entry_point h \<and>
      hn_offsets h1 = hn_offsets h \<and> hn_cum h1 = hn_cum h \<and> hn_efConstruction h1 = hn_efConstruction h \<and>
      hn_assign_probas h1 = hn_assign_probas h"
    using h1(2) by (simp add: same_shape_def)
  have ent: "0 \<le> hn_entry_point ?h' \<and> 0 \<le> hn_max_level ?h' \<and> nat (hn_entry_point ?h') \<in> insert pt I \<and>
        on_level ?h' (nat (hn_max_level ?h')) (nat (hn_entry_point ?h')) \<and>
        (\<forall>v \<in> insert pt I. int (hn_levels ?h' ! v) \<le> hn_max_level ?h' + 1)"
  proof (cases "int pt_level > hn_max_level h")
    case True
    then show ?thesis using fl B(9) pt(3) on by (auto simp: raise_entry_def on1)
  next
    case False
    then show ?thesis using fl B(5-9) pt(3) by (auto simp: raise_entry_def on1)
  qed
  then have "built ?h' (insert pt I)"
    unfolding built_def using fl lev conn h1(1) B(2,3) pt(1) by auto
  moreover have "\<forall>l \<le> min ?ml pt_level. inserted_at (qd l) (sd l) (keep l) h ?h' I pt v l"
  proof (intro allI impI)
    fix l assume "l \<le> min ?ml pt_level"
    then have "inserted_at (qd l) (sd l) (keep l) h h1 I pt v l" using ins by blast
    then show "inserted_at (qd l) (sd l) (keep l) h ?h' I pt v l"
      by (rule inserted_at_cong) (simp_all add: same_shape_def)
  qed
  moreover have "\<forall>j m. on_level h m j \<and> pt_level < m \<longrightarrow> nbrs ?h' j m = nbrs h j m"
    using un by simp
  ultimately show ?thesis using fl v(1) unfolding inserted_def by (intro conjI impI bexI[of _ v]) simp_all
qed

text \<open>The links of a vertex from a nearest one on, for any distances.\<close>

lemma link_levels_inserted:
  fixes qd :: "nat \<Rightarrow> nat \<Rightarrow> 'd::linorder"
  assumes b: "built h I" "I \<noteq> {}" and pt: "pt < length (hn_levels h)" "pt \<notin> I" "hn_levels h ! pt = pt_level + 1"
    and v: "v \<in> I" "on_level h (min (nat (hn_max_level h)) pt_level) v" and vt: "vt_clear (length (hn_levels h)) vt"
  shows "\<exists>h1 vt1. link_levels qd sd keep pt v (rev [0..<min (nat (hn_max_level h)) pt_level + 1]) (h, vt) = Some (h1, vt1) \<and>
    vt_clear (length (hn_levels h)) vt1 \<and> inserted qd sd keep pt_level h (raise_entry pt_level pt h1) I pt"
proof -
  let ?m = "min (nat (hn_max_level h)) pt_level"
  have m: "l \<in> set (rev [0..<?m + 1]) \<longleftrightarrow> l \<le> ?m" for l unfolding set_rev set_upt by auto
  have B: "linkable h" "1 \<le> hn_efConstruction h" "\<forall>l. level_ok h I l" using b(1) by (simp_all add: built_def)
  have on: "on_level h l pt \<longleftrightarrow> l \<le> pt_level" for l using pt by (auto simp: on_level_def)
  have L: "\<forall>l \<in> set (rev [0..<?m + 1]). level_ok h I l \<and> on_level h l pt \<and> on_level h l v"
    using B(3) v(2) unfolding m by (auto simp: on elim: on_level_down)
  have d: "distinct (rev [0..<?m + 1])" by (simp only: distinct_rev distinct_upt)
  from link_levels_ok[OF B(1) L B(2) pt(2) v(1) vt d, of qd sd keep] obtain h1 vt1 where
    r: "link_levels qd sd keep pt v (rev [0..<?m + 1]) (h, vt) = Some (h1, vt1)"
    and h1: "linkable h1" "same_shape h h1" "vt_clear (length (hn_levels h)) vt1"
    and ins: "\<forall>l \<in> set (rev [0..<?m + 1]). inserted_at (qd l) (sd l) (keep l) h h1 I pt v l"
    and un: "\<forall>j k. on_level h k j \<and> k \<notin> set (rev [0..<?m + 1]) \<longrightarrow> nbrs h1 j k = nbrs h j k" by blast
  have "\<forall>l \<le> ?m. inserted_at (qd l) (sd l) (keep l) h h1 I pt v l" using ins m by blast
  moreover have "\<forall>j k. on_level h k j \<and> \<not> k \<le> ?m \<longrightarrow> nbrs h1 j k = nbrs h j k" using un m by blast
  ultimately have "inserted qd sd keep pt_level h (raise_entry pt_level pt h1) I pt" by (rule linked_inserted[OF b pt v h1(1,2)])
  then show ?thesis using r h1(3) by blast
qed

lemma add_with_locks_ok:
  fixes qd :: "nat \<Rightarrow> 'd::linorder"
  assumes b: "built h I" and pt: "pt < length (hn_levels h)" "pt \<notin> I" "hn_levels h ! pt = pt_level + 1"
    and vt: "vt_clear (length (hn_levels h)) vt"
  shows "\<exists>h' vt'. add_with_locks qd sd pt_level pt keep (h, vt) = Some (h', vt') \<and>
    vt_clear (length (hn_levels h)) vt' \<and> inserted (\<lambda>_. qd) (\<lambda>_. sd) (\<lambda>_. keep) pt_level h h' I pt"
proof (cases "I = {}")
  case True
  note F = first_inserted[OF b[unfolded True] pt(1,3)]
  then have "add_with_locks qd sd pt_level pt keep (h, vt)
      = Some (h\<lparr> hn_max_level := int pt_level, hn_entry_point := int pt \<rparr>, vt)" by (simp add: add_with_locks_def)
  then show ?thesis using F(2) vt unfolding True by blast
next
  case False
  let ?ml = "nat (hn_max_level h)" and ?e = "nat (hn_entry_point h)"
  from b False have B: "linkable h" "\<forall>l. level_ok h I l" "0 \<le> hn_entry_point h" "0 \<le> hn_max_level h" "?e \<in> I" "on_level h ?ml ?e"
    by (simp_all add: built_def)
  obtain v d where g: "fold (\<lambda>level p. snd (greedy_update_nearest h qd level HNSWStats p))
      (rev [pt_level + 1..<?ml + 1]) (?e, qd ?e) = (v, d)" by fastforce
  from greedy_levels_ok[OF B(1,2,6,5) g] have v: "d = qd v" "v \<in> I" "on_level h (min ?ml pt_level) v" by auto
  from link_levels_inserted[OF b False pt v(2,3) vt, of "\<lambda>_. qd" "\<lambda>_. sd" "\<lambda>_. keep"] obtain h1 vt1 where
    r: "add_levels qd sd pt v (qd v) keep (rev [0..<min ?ml pt_level + 1]) (h, vt) = Some (h1, vt1)"
    and h1: "vt_clear (length (hn_levels h)) vt1"
      "inserted (\<lambda>_. qd) (\<lambda>_. sd) (\<lambda>_. keep) pt_level h (raise_entry pt_level pt h1) I pt"
    unfolding add_levels_link by blast
  have "add_with_locks qd sd pt_level pt keep (h, vt) = Some (raise_entry pt_level pt h1, vt1)"
    using B(3,4) g v(1) r by (simp add: add_with_locks_def raise_entry_def)
  then show ?thesis using h1 by blast
qed

end
