(* ===== verification/HnswLife.thy ===== *)
theory HnswLife
  imports HnswInsert
begin

text \<open>
  The life of a graph: the constructor gives an empty graph under construction, \<open>prepare_level_tab\<close>
  makes room for new vertices, \<open>add_with_locks\<close> inserts them. The properties of the insertion, the steps of
  several threads that hold locks of different vertices included.
\<close>

section \<open>Construction and room for new vertices\<close>

lemma constructed_built:
  assumes "\<forall>l < L. 1 / 10 ^ 9 \<le> proba l" "proba L < 1 / 10 ^ 9" "1 \<le> L" "1 \<le> M" "HNSW proba M = Some h"
  shows "built h {}" "probas_ok h" "hn_levels h = []" "hn_cum h = 0 # map (\<lambda>j. M * (j + 2)) [0..<L]"
proof -
  have h: "h = HNSW_empty\<lparr> hn_assign_probas := map proba [0..<L],
    hn_cum := 0 # map (\<lambda>j. M * (j + 2)) [0..<L], hn_offsets := [0] \<rparr>"
    using assms(5) HNSW_constructed[OF assms(1,2), of M] by simp
  then show l: "hn_levels h = []" and c: "hn_cum h = 0 # map (\<lambda>j. M * (j + 2)) [0..<L]"
    by (simp_all add: HNSW_empty_def)
  show "probas_ok h" using assms(3) by (simp add: probas_ok_def h HNSW_empty_def)
  have on: "\<not> on_level h l i" for l i by (simp add: on_level_def l)
  have "layout_ok h" using cum_ok_multiples[of M L] by (simp add: layout_ok_def h HNSW_empty_def)
  moreover have "cum_pos h"
    unfolding cum_pos_def c
  proof (intro allI impI)
    fix l assume "l + 1 < length (0 # map (\<lambda>j. M * (j + 2)) [0..<L])"
    then show "(0 # map (\<lambda>j. M * (j + 2)) [0..<L]) ! l < (0 # map (\<lambda>j. M * (j + 2)) [0..<L]) ! (l + 1)"
      using assms(4) by (cases l) auto
  qed
  ultimately show "built h {}"
    using on by (simp add: built_def linkable_def links_ok_def level_ok_def l) (simp add: h HNSW_empty_def)
qed

lemma prepare_built:
  assumes b: "built h I" and "I \<subseteq> {..<n0}" "length (hn_levels h) = n0" "probas_ok h"
  shows "\<exists>h' mx. prepare_level_tab h n False draws = Inr (h', mx) \<and> built h' I \<and> length (hn_levels h') = n0 + n \<and>
    probas_ok h' \<and> (\<forall>i l. i < n0 \<and> on_level h' l i \<longrightarrow> nbrs h' i l = nbrs h i l) \<and>
    hn_levels h' = hn_levels h @ map (\<lambda>i. nat (random_level h (draws ! i) + 1)) [0..<n] \<and>
    (\<forall>i < n. int (hn_levels h' ! (n0 + i)) - 1 \<le> mx) \<and> hn_cum h' = hn_cum h"
proof -
  have B: "linkable h" "1 \<le> hn_efConstruction h" "\<forall>l. level_ok h I l"
    "if I = {} then hn_entry_point h = -1
      else 0 \<le> hn_entry_point h \<and> 0 \<le> hn_max_level h \<and> nat (hn_entry_point h) \<in> I \<and>
        on_level h (nat (hn_max_level h)) (nat (hn_entry_point h)) \<and>
        (\<forall>v \<in> I. int (hn_levels h ! v) \<le> hn_max_level h + 1)"
    "2 \<le> card I \<longrightarrow> (\<forall>v \<in> I. nbrs h v 0 \<noteq> [])" using b by (simp_all add: built_def)
  have L: "layout_ok h" "links_ok h" "cum_pos h" using B(1) by (simp_all add: linkable_def)
  have tk: "h\<lparr> hn_levels := take n0 (hn_levels h) \<rparr> = h" using assms(3) by simp
  have "length (hn_offsets h) = n0 + 1" using L(1) assms(3) by (simp add: layout_ok_def)
  from prepare_level_tab_ok[OF this, unfolded tk, OF L(1,2), of False n draws] assms(3,4) obtain h' mx lv ofs ns where
    r: "prepare_level_tab h n False draws = Inr (h', mx)"
    and lev: "hn_levels h' = hn_levels h @ map (\<lambda>i. nat (random_level h (draws ! i) + 1)) [0..<n]"
    and h': "layout_ok h'" "links_ok h'" "length (hn_levels h') = n0 + n"
      "\<forall>i l. i < n0 \<and> on_level h' l i \<longrightarrow> slot h' i l = slot h i l"
      "\<forall>i l. n0 \<le> i \<and> on_level h' l i \<longrightarrow> nbrs h' i l = []"
      "\<forall>i < n. int (hn_levels h' ! (n0 + i)) - 1 \<le> mx"
    and e: "h' = h\<lparr> hn_levels := lv, hn_offsets := ofs, hn_neighbors := ns \<rparr>" by auto
  have nb: "\<forall>i l. i < n0 \<and> on_level h' l i \<longrightarrow> nbrs h' i l = nbrs h i l" using h'(4) by (simp add: nbrs_def)
  have old: "on_level h' l i \<longleftrightarrow> on_level h l i" "hn_levels h' ! i = hn_levels h ! i" if "i < n0" for i l
    using that assms(3) lev by (auto simp: on_level_def nth_append)
  have f: "hn_efConstruction h' = hn_efConstruction h" "hn_entry_point h' = hn_entry_point h" "hn_max_level h' = hn_max_level h"
    "hn_cum h' = hn_cum h" "hn_assign_probas h' = hn_assign_probas h" by (simp_all add: e)
  have lv: "level_ok h' I l" for l
    unfolding level_ok_def
  proof (intro allI impI)
    fix i assume i: "on_level h' l i"
    show "set (nbrs h' i l) \<subseteq> I \<and> distinct (nbrs h' i l) \<and> i \<notin> set (nbrs h' i l) \<and> (i \<notin> I \<longrightarrow> nbrs h' i l = [])"
    proof (cases "i < n0")
      case True
      then show ?thesis using nb i old(1)[OF True] B(3) by (simp add: level_ok_def)
    next
      case False
      then show ?thesis using h'(5) i by simp
    qed
  qed
  have I: "v < n0" if "v \<in> I" for v using that assms(2) by auto
  have "linkable h'" using h'(1,2) L(3) f(4) by (simp add: linkable_def cum_pos_def)
  moreover have "if I = {} then hn_entry_point h' = -1
      else 0 \<le> hn_entry_point h' \<and> 0 \<le> hn_max_level h' \<and> nat (hn_entry_point h') \<in> I \<and>
        on_level h' (nat (hn_max_level h')) (nat (hn_entry_point h')) \<and>
        (\<forall>v \<in> I. int (hn_levels h' ! v) \<le> hn_max_level h' + 1)"
    using B(4) old I by (simp add: f)
  moreover have "nbrs h' v 0 \<noteq> []" if "2 \<le> card I" "v \<in> I" for v
  proof -
    have "on_level h' 0 v" using I[OF that(2)] h'(1,3) by (auto simp: layout_ok_def on_level_def Suc_le_eq)
    then show ?thesis using nb B(5) that I by simp
  qed
  ultimately have "built h' I" using lv B(2) assms(2) h'(3) f(1) by (auto simp: built_def)
  then show ?thesis using r nb h'(3,6) lev assms(4) f by (simp add: probas_ok_def)
qed

section \<open>Locked steps of several threads\<close>

text \<open>What a thread does while it holds the lock of a vertex \<open>src\<close> is to link it to one vertex. The
  relation has the steps of all threads in any order, on a shared metric.\<close>

inductive link_step :: "(nat \<Rightarrow> nat \<Rightarrow> 'd::linorder) \<Rightarrow> hnsw \<Rightarrow> hnsw \<Rightarrow> bool" for sd where
  link: "on_level h l src \<Longrightarrow> on_level h l dest \<Longrightarrow> src \<noteq> dest \<Longrightarrow> link_step sd h (add_link sd src dest l keep h)"

inductive_cases link_stepE: "link_step sd h h'"

lemma linked_subset: "length vs \<le> len \<Longrightarrow> 1 \<le> len \<Longrightarrow> set (linked sd keep len src dest vs) \<subseteq> insert dest (set vs)"
  using set_mset_mono[OF linked_ok(1)[of vs len sd keep src dest]] by simp

lemma link_step_ok:
  assumes "link_step sd h h'" "linkable h"
  shows "linkable h' \<and> same_shape h h' \<and>
    (\<forall>i l. on_level h l i \<longrightarrow> (nbrs h i l \<noteq> [] \<longrightarrow> nbrs h' i l \<noteq> []) \<and> (i \<notin> set (nbrs h i l) \<longrightarrow> i \<notin> set (nbrs h' i l)))"
  using assms(1)
proof (rule link_stepE)
  fix l src dest keep
  assume h': "h' = add_link sd src dest l keep h" and s: "on_level h l src" "on_level h l dest" "src \<noteq> dest"
  note A = add_link_ok[OF assms(2) s(1,2), where sd = sd and keep = keep, folded h']
  have len: "length (nbrs h src l) \<le> seglen h l" "1 \<le> seglen h l"
    using linkable_seglen[OF assms(2) s(1)] by simp_all
  show ?thesis
    using A(1,2) A(3) linked_ok(3)[OF len, of sd keep src dest] linked_subset[OF len, of sd keep src dest] s(3) by auto
qed

lemma link_steps_ok:
  assumes "(link_step sd)\<^sup>*\<^sup>* h h'" "linkable h"
  shows "linkable h' \<and> same_shape h h' \<and>
    (\<forall>i l. on_level h l i \<longrightarrow> (nbrs h i l \<noteq> [] \<longrightarrow> nbrs h' i l \<noteq> []) \<and> (i \<notin> set (nbrs h i l) \<longrightarrow> i \<notin> set (nbrs h' i l)))"
  using assms(1)
proof (induction rule: rtranclp_induct)
  case base
  then show ?case using assms(2) by simp
next
  case (step h1 h2)
  then have "linkable h1" "same_shape h h1" by simp_all
  with link_step_ok[OF step(2)] step(3) same_shape_trans[of h h1 h2] same_shape_on_level[of h h1] show ?case by auto
qed

end
