(* ===== verification/HnswBuildProps.thy ===== *)
theory HnswBuildProps
  imports HnswLife
begin

text \<open>
  The properties of the insertion into an HNSW graph.
\<close>

section \<open>Selection and search\<close>

text \<open>C20. \<open>shrink_neighbor_list\<close> with room for at least one entry returns a part of its non-empty input with
  the first entry of the input (the nearest one, in a sorted input) first and at most \<open>max_size\<close> entries. Without the flag no entry is closer to an earlier one
  than to the query, the order of the input is kept, and if there is room left every entry of the input
  that was dropped is closer to a kept one than to the query; with the flag the list is as long as possible.\<close>

theorem shrink_neighbor_list_diverse:
  fixes input :: "('d::linorder \<times> nat) list"
  assumes "1 \<le> max_size" "input \<noteq> []" "shrink_neighbor_list sd input [] max_size keep = out"
  shows "mset out \<subseteq># mset input \<and> length out \<le> max_size \<and> out \<noteq> [] \<and> hd out = hd input \<and>
    (keep \<longrightarrow> length out = min max_size (length input)) \<and>
    (\<not> keep \<longrightarrow> subseq out input \<and> sorted_wrt (\<lambda>u v. \<not> sd (snd u) (snd v) < fst v) out \<and>
      (length out < max_size \<longrightarrow> (\<forall>v \<in> set input. v \<in> set out \<or> (\<exists>u \<in> set out. sd (snd u) (snd v) < fst v))))"
  using shrink_neighbor_list_ok[OF assms(1,3)] assms(2) unfolding diverse_def covered_def by auto

theorem shrink_neighbor_list_diverse_witness:
  "shrink_neighbor_list (\<lambda>a b. \<bar>int a - int b\<bar>) [(1, 4), (2, 3), (3, 8)] [] 3 False = [(1, 4), (3, 8)] \<and>
    sorted_wrt (\<lambda>u v. \<not> \<bar>int (snd u) - int (snd v)\<bar> < fst v) [(1, 4), (3, 8 :: nat)]"
proof -
  have r: "shrink_neighbor_list (\<lambda>a b. \<bar>int a - int b\<bar>) [(1, 4), (2, 3), (3, 8)] [] 3 False = [(1, 4), (3, 8)]"
    by (simp add: shrink_neighbor_list_def shrink_good_def Let_def)
  show ?thesis using shrink_neighbor_list_diverse[OF _ _ r] r by simp
qed

text \<open>C22. The version of \<open>search_neighbors_to_add\<close> that evaluates the neighbors in batches of four
  gives the same queue and the same visited table as the reference version, on any graph and for any
  arguments, and ends exactly when it does.\<close>

theorem search_neighbors_versions_agree:
  "search_neighbors_to_add h qd results entry_point d_entry_point level vt False
    = search_neighbors_to_add h qd results entry_point d_entry_point level vt True"
proof -
  have "neighbors_to_add_step h qd level False = neighbors_to_add_step h qd level True"
    by (simp add: fun_eq_iff neighbors_to_add_step_fold split_paired_all)
  then show ?thesis by (simp add: search_neighbors_to_add_def)
qed

text \<open>C21. \<open>search_neighbors_to_add\<close> on a well-formed graph ends, for either version: its queue is
  ordered and holds the \<open>efConstruction\<close> nearest of a set \<open>V\<close> of vertices that contains the entry point
  and that is reachable from it on the level; when \<open>efConstruction\<close> is not below the number of vertices
  \<open>V\<close> is all that is reachable. The visited table is cleared.\<close>

theorem search_neighbors_to_add_correct:
  fixes qd :: "nat \<Rightarrow> 'd::linorder"
  assumes "graph_ok h" "on_level h level ep" "vt_inv (length (hn_levels h)) vt"
    "\<forall>v < length (hn_levels h). \<not> vt_get vt v" "1 \<le> hn_efConstruction h"
  shows "\<exists>results vt' V. search_neighbors_to_add h qd [] ep (qd ep) level vt reference_version = Some (results, vt') \<and>
    ep \<in> V \<and> V \<subseteq> reach h level {ep} \<and> best_of farther (hn_efConstruction h) (npairs qd V) results \<and>
    (length (hn_levels h) \<le> hn_efConstruction h \<longrightarrow> V = reach h level {ep}) \<and>
    vt_inv (length (hn_levels h)) vt' \<and> (\<forall>v < length (hn_levels h). \<not> vt_get vt' v)"
proof -
  let ?n = "length (hn_levels h)" and ?R = "reach h level {ep}"
  have empty: "visited ?n t = {} \<longleftrightarrow> (\<forall>v < ?n. \<not> vt_get t v)" for t by (auto simp: visited_def)
  have "links_ok h" using assms(1) by (simp add: graph_ok_def)
  then have "on_level h level w" if "w \<in> ?R" for w using reach_on_level[of h "{ep}" level w] that assms(2) by simp
  then have R: "?R \<subseteq> {..<?n}" "\<forall>v \<in> ?R. set (nbrs h v level) \<subseteq> ?R" "ep \<in> ?R"
    using reach_closed[of _ h level "{ep}"] reach_refl[of "{ep}" h level] by (auto simp: on_level_def)
  have "card ?R \<le> ?n" using card_mono[OF finite_lessThan R(1)] by simp
  moreover from search_neighbors_to_add_ok[OF R assms(3) _ assms(5), of qd reference_version] assms(4)
  obtain tc vt' V where s: "search_neighbors_to_add h qd [] ep (qd ep) level vt reference_version = Some (tc, vt')"
    and V: "vt_inv ?n vt'" "visited ?n vt' = {}" "ep \<in> V" "V \<subseteq> ?R" "best_of farther (hn_efConstruction h) (npairs qd V) tc"
    and c: "card ?R \<le> hn_efConstruction h \<longrightarrow> (\<forall>v \<in> V. set (nbrs h v level) \<subseteq> V)" unfolding empty by auto
  moreover have "?R \<subseteq> V" if "\<forall>v \<in> V. set (nbrs h v level) \<subseteq> V"
    using that V(3) by (intro reach_least) auto
  ultimately show ?thesis unfolding empty by (intro exI[of _ tc] exI[of _ vt'] exI[of _ V]) auto
qed

theorem search_neighbors_to_add_correct_witness:
  "\<exists>results vt'. search_neighbors_to_add demo_graph (\<lambda>v. [7, 5, 4 :: int] ! v) [] 1 5 0 (VisitedTable 3 None) False = Some (results, vt') \<and>
     best_of farther 40 (npairs (\<lambda>v. [7, 5, 4 :: int] ! v) {..<3}) results"
proof -
  have f: "\<forall>v < length (hn_levels demo_graph). \<not> vt_get (VisitedTable 3 None) v" by (simp add: vt_get_constructor demo_levels)
  have e: "hn_efConstruction demo_graph = 40" by (simp add: demo_graph_def HNSW_empty_def)
  have i: "vt_inv (length (hn_levels demo_graph)) (VisitedTable 3 None)"
    unfolding demo_len by (rule demo_fresh)
  have on: "on_level demo_graph 0 1" by (simp add: demo_on_level)
  from search_neighbors_to_add_correct[OF demo_graph_ok on i f, of "\<lambda>v. [7, 5, 4 :: int] ! v" False] demo_reach[of 1]
  show ?thesis by (auto simp: e demo_levels)
qed

section \<open>Links\<close>

text \<open>C19. Steps of any number of threads, each linking a vertex to another while it holds the lock of
  the first, in any order, on any metric: they keep a well-formed graph well-formed (segments packed to the
  left, links between vertices of the level, the layout and the entry point as they are), never make a vertex its
  own neighbor and never leave a vertex without neighbors that had one.\<close>

theorem concurrent_links_safe:
  assumes "(link_step sd)\<^sup>*\<^sup>* h h'" "graph_ok h" "cum_pos h"
  shows "graph_ok h' \<and> hn_offsets h' = hn_offsets h \<and> hn_levels h' = hn_levels h \<and>
    (\<forall>i l. on_level h l i \<longrightarrow> (nbrs h i l \<noteq> [] \<longrightarrow> nbrs h' i l \<noteq> []) \<and> (i \<notin> set (nbrs h i l) \<longrightarrow> i \<notin> set (nbrs h' i l)))"
proof -
  have "linkable h" using assms(2,3) by (simp add: graph_ok_def linkable_def)
  from link_steps_ok[OF assms(1) this] assms(2) show ?thesis
    by (auto simp: graph_ok_def linkable_def same_shape_def entry_ok_def on_level_def)
qed

lemma demo_cum_pos: "cum_pos demo_graph"
  by (auto simp: cum_pos_def demo_graph_def less_Suc_eq numeral_3_eq_3)

theorem concurrent_links_safe_witness:
  "graph_ok (add_link (\<lambda>a b. \<bar>int a - int b\<bar>) 1 2 0 True (add_link (\<lambda>a b. \<bar>int a - int b\<bar>) 2 0 0 False demo_graph))"
proof -
  let ?sd = "\<lambda>a b. \<bar>int a - int b\<bar>"
  let ?h = "add_link ?sd 2 0 0 False demo_graph"
  have on: "on_level demo_graph 0 2" "on_level demo_graph 0 0" "on_level demo_graph 0 1" by (simp_all add: demo_on_level)
  have "linkable demo_graph" using demo_graph_ok demo_cum_pos by (simp add: graph_ok_def linkable_def)
  note A = add_link_ok[OF this on(1,2), where sd = ?sd and keep = False]
  have "link_step ?sd demo_graph ?h" using on by (intro link_step.intros) simp_all
  moreover have "link_step ?sd ?h (add_link ?sd 1 2 0 True ?h)"
    using on same_shape_on_level[OF A(2)] by (intro link_step.intros) simp_all
  ultimately have "(link_step ?sd)\<^sup>*\<^sup>* demo_graph (add_link ?sd 1 2 0 True ?h)" by simp
  from concurrent_links_safe[OF this demo_graph_ok demo_cum_pos] show ?thesis by simp
qed

section \<open>Insertion\<close>

text \<open>C18. \<open>add_with_locks\<close> inserts a vertex into a graph under construction (no vertex its own neighbor,
  none twice in a list, all links between inserted vertices, the entry point on the highest level, from two
  vertices on no vertex isolated): it ends, and the graph is again one, with the new vertex. On each level
  up to its own its links are the selection from the nearest vertices that the search found, they are
  linked back, and no other list changes; nothing changes on higher levels.\<close>

theorem add_with_locks_correct:
  fixes qd :: "nat \<Rightarrow> 'd::linorder"
  assumes "built h I" "pt < length (hn_levels h)" "pt \<notin> I" "hn_levels h ! pt = pt_level + 1"
    and "vt_clear (length (hn_levels h)) vt"
  shows "\<exists>h' vt'. add_with_locks qd sd pt_level pt keep (h, vt) = Some (h', vt') \<and>
    built h' (insert pt I) \<and> graph_ok h' \<and> hn_levels h' = hn_levels h \<and> vt_clear (length (hn_levels h)) vt' \<and>
    (I \<noteq> {} \<longrightarrow> (\<exists>v \<in> I. \<forall>l \<le> min (nat (hn_max_level h)) pt_level. inserted_at qd sd keep h h' I pt v l)) \<and>
    (\<forall>j m. on_level h m j \<and> pt_level < m \<longrightarrow> nbrs h' j m = nbrs h j m)"
  using add_with_locks_ok[OF assms, of qd sd keep] built_graph_ok unfolding inserted_def by blast

text \<open>Two vertices with the levels 0 and 1, drawn by \<open>random_level\<close>.\<close>

lemma two_vertices:
  "\<exists>h. built h {} \<and> hn_levels h = [1, 2]"
proof -
  let ?p = "\<lambda>l :: nat. if l = 0 then 3 / 4 else if l = 1 then 1 / 4 else (0 :: float_t)"
  have p: "\<forall>l < 2. 1 / 10 ^ 9 \<le> ?p l" "?p 2 < 1 / 10 ^ 9" by (auto simp: less_Suc_eq numeral_2_eq_2)
  obtain h where h: "HNSW ?p 1 = Some h" using HNSW_constructed[OF p] by blast
  note C = constructed_built[OF p _ _ h]
  have d: "hn_assign_probas h = [3 / 4, 1 / 4]" using h HNSW_constructed[OF p, of 1] by (auto simp: numeral_2_eq_2)
  have rl: "random_level h 0 = 0" "random_level h (7 / 8) = 1" by (simp_all add: random_level_def d)
  from prepare_built[OF C(1), of 0 2 "[0, 7 / 8]"] C(2,3) obtain h' where
    "built h' {}" "hn_levels h' = map (\<lambda>i. nat (random_level h ([0, 7 / 8] ! i) + 1)) [0..<2]" by auto
  moreover have "map (\<lambda>i. nat (random_level h ([0, 7 / 8] ! i) + 1)) [0..<2] = [1, 2]"
    by (simp add: rl numeral_2_eq_2)
  ultimately show ?thesis by auto
qed

theorem add_with_locks_correct_witness:
  "\<exists>h h1 h2 vt1 vt2. hn_levels h = [1, 2] \<and>
     add_with_locks (\<lambda>v. \<bar>int v - 0\<bar>) (\<lambda>a b. \<bar>int a - int b\<bar>) 0 0 False (h, VisitedTable 2 None) = Some (h1, vt1) \<and>
     add_with_locks (\<lambda>v. \<bar>int v - 1\<bar>) (\<lambda>a b. \<bar>int a - int b\<bar>) 1 1 False (h1, vt1) = Some (h2, vt2) \<and>
     graph_ok h2 \<and> built h2 {0, 1}"
proof -
  obtain h where h: "built h {}" "hn_levels h = [1, 2]" using two_vertices by blast
  have v: "vt_clear (length (hn_levels h)) (VisitedTable 2 None)"
    using vt_inv_constructor vt_get_constructor by (auto simp: vt_clear_def visited_def h(2) numeral_2_eq_2)
  from add_with_locks_correct[OF h(1) _ _ _ v, of 0 0 "\<lambda>v. \<bar>int v - 0\<bar>" "\<lambda>a b. \<bar>int a - int b\<bar>" False] obtain h1 vt1 where
    s1: "add_with_locks (\<lambda>v. \<bar>int v - 0\<bar>) (\<lambda>a b. \<bar>int a - int b\<bar>) 0 0 False (h, VisitedTable 2 None) = Some (h1, vt1)"
    and h1: "built h1 {0}" "hn_levels h1 = [1, 2]" "vt_clear (length (hn_levels h1)) vt1" by (auto simp: h(2))
  from add_with_locks_correct[OF h1(1) _ _ _ h1(3), of 1 1 "\<lambda>v. \<bar>int v - 1\<bar>" "\<lambda>a b. \<bar>int a - int b\<bar>" False] obtain h2 vt2 where
    "add_with_locks (\<lambda>v. \<bar>int v - 1\<bar>) (\<lambda>a b. \<bar>int a - int b\<bar>) 1 1 False (h1, vt1) = Some (h2, vt2)"
    "built h2 {1, 0}" "graph_ok h2" by (auto simp: h1(2))
  moreover have "{1, 0} = {0, 1 :: nat}" by blast
  ultimately show ?thesis using s1 h(2) by auto
qed

end
