(* ===== verification/IndexHnsw.thy ===== *)
theory IndexHnsw
  imports HnswLife Flat
begin

text \<open>
  \<open>IndexHNSWFlat\<close> (\<open>faiss/IndexHNSW.cpp\<close>): a flat storage with a graph on top. New vectors get their
  levels, are sorted into buckets of equal level, and are inserted from the highest level down in random order.
  A search runs \<open>HNSW::search\<close> for each query.
\<close>

section \<open>Loops over functions that may throw or not end\<close>

fun for_each :: "('a \<Rightarrow> 's \<Rightarrow> 's result option) \<Rightarrow> 'a list \<Rightarrow> 's \<Rightarrow> 's result option" where
  "for_each f [] s = Some (Inr s)"
| "for_each f (x # xs) s =
     (case f x s of None \<Rightarrow> None | Some (Inl e) \<Rightarrow> Some (Inl e) | Some (Inr s') \<Rightarrow> for_each f xs s')"

lemma for_each_from:
  assumes "P ys s" "\<And>zs x s. P zs s \<Longrightarrow> \<exists>us. zs @ x # us = ys @ xs \<Longrightarrow> \<exists>s'. f x s = Some (Inr s') \<and> P (zs @ [x]) s'"
  shows "\<exists>s'. for_each f xs s = Some (Inr s') \<and> P (ys @ xs) s'"
  using assms
proof (induction xs arbitrary: ys s)
  case (Cons x xs)
  have "\<exists>us. ys @ x # us = ys @ x # xs" by blast
  from Cons.prems(2)[OF Cons.prems(1) this] obtain s' where
    s': "f x s = Some (Inr s')" "P (ys @ [x]) s'" by blast
  have "\<exists>t. for_each f xs s' = Some (Inr t) \<and> P ((ys @ [x]) @ xs) t"
    by (rule Cons.IH[of "ys @ [x]", OF s'(2)]) (use Cons.prems(2) in simp)
  then show ?case using s'(1) by simp
qed simp

lemma for_each_ok:
  assumes "P [] s" "\<And>zs x s. P zs s \<Longrightarrow> \<exists>us. zs @ x # us = xs \<Longrightarrow> \<exists>s'. f x s = Some (Inr s') \<and> P (zs @ [x]) s'"
  shows "\<exists>s'. for_each f xs s = Some (Inr s') \<and> P xs s'"
  using for_each_from[of P "[]" s xs f] assms by simp

text \<open>Loops that fill the rows of an output, with a state \<open>v\<close> that a thread keeps and statistics: row \<open>i\<close>
  is written once, by a step that finds it as it was at the start.\<close>

lemma for_each_rows:
  fixes st :: 'c
  assumes "distinct qs" "\<forall>i \<in> set qs. i < length rows" "V v"
    and step: "\<And>i rows1 v st. i \<in> set qs \<Longrightarrow> length rows1 = length rows \<Longrightarrow> rows1 ! i = rows ! i \<Longrightarrow> V v \<Longrightarrow>
      \<exists>r v' st'. f i (rows1, v, st) = Some (Inr (rows1[i := r], v', st')) \<and> OK i r \<and> V v'"
  shows "\<exists>rows' v' st'. for_each f qs (rows, v, st) = Some (Inr (rows', v', st')) \<and> length rows' = length rows \<and>
    (\<forall>i < length rows. i \<notin> set qs \<longrightarrow> rows' ! i = rows ! i) \<and> (\<forall>i \<in> set qs. OK i (rows' ! i))"
proof -
  define P where "P = (\<lambda>zs (rows', v, st :: 'c). length rows' = length rows \<and> V v \<and>
    (\<forall>i < length rows. i \<notin> set zs \<longrightarrow> rows' ! i = rows ! i) \<and> (\<forall>i \<in> set zs. OK i (rows' ! i)))"
  have "\<exists>s. for_each f qs (rows, v, st) = Some (Inr s) \<and> P qs s"
  proof (rule for_each_ok)
    show "P [] (rows, v, st)" using assms(3) by (simp add: P_def)
  next
    fix zs i s assume P: "P zs s" and us: "\<exists>us. zs @ i # us = qs"
    obtain rows1 v1 st1 where s: "s = (rows1, v1, st1)" by (metis prod_cases3)
    from us assms(1) have i: "i \<in> set qs" "i \<notin> set zs" by auto
    have R: "length rows1 = length rows" "V v1" "\<forall>i < length rows. i \<notin> set zs \<longrightarrow> rows1 ! i = rows ! i"
      "\<forall>i \<in> set zs. OK i (rows1 ! i)" using P by (simp_all add: P_def s)
    have l: "i < length rows" using assms(2) i(1) by simp
    then have "rows1 ! i = rows ! i" using R(3) i(2) by simp
    from step[OF i(1) R(1) this R(2), of st1] obtain r v' st' where
      "f i (rows1, v1, st1) = Some (Inr (rows1[i := r], v', st'))" "OK i r" "V v'" by blast
    then show "\<exists>s'. f i s = Some (Inr s') \<and> P (zs @ [i]) s'"
      using R i(2) l by (intro exI[of _ "(rows1[i := r], v', st')"]) (auto simp: s P_def nth_list_update)
  qed
  then show ?thesis by (auto simp: P_def)
qed

lemma for_each_blocks:
  fixes st :: 'd
  assumes "distinct (concat sched)" "\<forall>i \<in> set (concat sched). i < length rows"
    and block: "\<And>q rows1 st. q \<in> set sched \<Longrightarrow> distinct q \<Longrightarrow> length rows1 = length rows \<Longrightarrow> \<forall>i \<in> set q. rows1 ! i = rows ! i \<Longrightarrow>
      \<exists>rows' st'. f q (rows1, st) = Some (Inr (rows', st')) \<and> length rows' = length rows1 \<and>
        (\<forall>i < length rows1. i \<notin> set q \<longrightarrow> rows' ! i = rows1 ! i) \<and> (\<forall>i \<in> set q. OK i (rows' ! i))"
  shows "\<exists>rows' st'. for_each f sched (rows, st) = Some (Inr (rows', st')) \<and> length rows' = length rows \<and>
    (\<forall>i \<in> set (concat sched). OK i (rows' ! i))"
proof -
  define P where "P = (\<lambda>zs (rows', st :: 'd). length rows' = length rows \<and>
    (\<forall>i < length rows. i \<notin> set (concat zs) \<longrightarrow> rows' ! i = rows ! i) \<and> (\<forall>i \<in> set (concat zs). OK i (rows' ! i)))"
  have "\<exists>s. for_each f sched (rows, st) = Some (Inr s) \<and> P sched s"
  proof (rule for_each_ok)
    show "P [] (rows, st)" by (simp add: P_def)
  next
    fix zs q s assume P: "P zs s" and us: "\<exists>us. zs @ q # us = sched"
    obtain rows1 st1 where s: "s = (rows1, st1)" by fastforce
    from us obtain us where sc: "sched = zs @ q # us" by blast
    with assms(1) have d: "distinct q" "set q \<inter> set (concat zs) = {}" "q \<in> set sched" by auto
    have bound: "\<forall>i \<in> set q. i < length rows" using assms(2) d(3) by auto
    have R: "length rows1 = length rows" "\<forall>i < length rows. i \<notin> set (concat zs) \<longrightarrow> rows1 ! i = rows ! i"
      "\<forall>i \<in> set (concat zs). OK i (rows1 ! i)" using P by (simp_all add: P_def s)
    have "\<forall>i \<in> set q. rows1 ! i = rows ! i"
    proof
      fix i assume "i \<in> set q"
      then have "i < length rows" "i \<notin> set (concat zs)" using bound d(2) by auto
      then show "rows1 ! i = rows ! i" using R(2) by (simp del: set_concat)
    qed
    from block[OF d(3,1) R(1) this, of st1] obtain rows2 st2 where
      t: "f q (rows1, st1) = Some (Inr (rows2, st2))" "length rows2 = length rows1"
      "\<forall>i < length rows1. i \<notin> set q \<longrightarrow> rows2 ! i = rows1 ! i" "\<forall>i \<in> set q. OK i (rows2 ! i)" by blast
    have old: "\<forall>i \<in> set (concat zs). OK i (rows2 ! i)"
    proof
      fix i assume i: "i \<in> set (concat zs)"
      have "i \<in> set (concat sched)" using i sc by auto
      then have "i < length rows1" using assms(2) R(1) by (simp del: set_concat)
      moreover have "i \<notin> set q" using i d(2) by blast
      ultimately have "rows2 ! i = rows1 ! i" using t(3) by blast
      then show "OK i (rows2 ! i)" using R(3) i by (simp only:)
    qed
    have "rows2 ! i = rows ! i" if "i < length rows" "i \<notin> set (concat (zs @ [q]))" for i
    proof -
      have "i \<notin> set q" "i \<notin> set (concat zs)" using that(2) by auto
      then show ?thesis using that(1) t(3) R(1,2) by (simp del: set_concat)
    qed
    moreover have "\<forall>i \<in> set (concat (zs @ [q])). OK i (rows2 ! i)"
      using old t(4) unfolding concat_append set_append by auto
    ultimately have "P (zs @ [q]) (rows2, st2)" using t(2) R(1) by (auto simp: P_def)
    then show "\<exists>s'. f q s = Some (Inr s') \<and> P (zs @ [q]) s'" using t(1) s by blast
  qed
  then show ?thesis by (auto simp: P_def)
qed

section \<open>The index\<close>

text \<open>\<open>ih_use_visited_hashset\<close> is the field of that name in the graph structure.\<close>

record index_hnsw =
  ih_d :: nat
  ih_ntotal :: nat
  ih_metric :: metric
  ih_is_trained :: bool
  ih_hnsw :: hnsw
  ih_storage :: "flat option"
  ih_init_level0 :: bool
  ih_keep_max_size_level0 :: bool
  ih_use_visited_hashset :: "bool option"

definition IndexHNSWFlat :: "(nat \<Rightarrow> float_t) \<Rightarrow> nat \<Rightarrow> nat \<Rightarrow> metric \<Rightarrow> index_hnsw option" where
  "IndexHNSWFlat proba dm M m =
     map_option (\<lambda>h. \<lparr> ih_d = dm, ih_ntotal = 0, ih_metric = m, ih_is_trained = True, ih_hnsw = h,
         ih_storage = Some (IndexFlat dm m), ih_init_level0 = True, ih_keep_max_size_level0 = False,
         ih_use_visited_hashset = None \<rparr>)
       (HNSW proba M)"

definition index_hnsw_reset :: "index_hnsw \<Rightarrow> index_hnsw" where
  "index_hnsw_reset ix =
     ix\<lparr> ih_hnsw := hnsw_reset (ih_hnsw ix), ih_storage := map_option flat_reset (ih_storage ix), ih_ntotal := 0 \<rparr>"

definition index_hnsw_reconstruct :: "index_hnsw \<Rightarrow> int \<Rightarrow> float_t list result" where
  "index_hnsw_reconstruct ix key =
     (case ih_storage ix of None \<Rightarrow> Inl OutOfBounds | Some f \<Rightarrow> flat_reconstruct f key)"

section \<open>Insertion of vectors\<close>

text \<open>The level of a vertex, and the histogram of the levels of the new ones.\<close>

definition pt_level_of :: "hnsw \<Rightarrow> nat \<Rightarrow> nat" where
  "pt_level_of h pt_id = hn_levels h ! pt_id - 1"

definition level_hist :: "(nat \<Rightarrow> nat) \<Rightarrow> nat \<Rightarrow> nat \<Rightarrow> nat list" where
  "level_hist lev n0 n =
     fold (\<lambda>i hist. let pt_level = lev (i + n0);
                        hist = hist @ replicate (pt_level + 1 - length hist) 0
                    in hist[pt_level := hist ! pt_level + 1]) [0..<n] []"

definition level_offsets :: "nat list \<Rightarrow> nat list" where
  "level_offsets hist =
     fold (\<lambda>i ofs. ofs[i + 1 := ofs ! i + hist ! i]) [0..<length hist - 1] (replicate (length hist + 1) 0)"

definition bucket_step :: "(nat \<Rightarrow> nat) \<Rightarrow> nat \<Rightarrow> nat \<Rightarrow> nat list \<times> nat list \<Rightarrow> nat list \<times> nat list" where
  "bucket_step lev n0 i s =
     (let (order, ofs) = s; pt_id = i + n0; pt_level = lev pt_id
      in (order[ofs ! pt_level := pt_id], ofs[pt_level := ofs ! pt_level + 1]))"

definition bucket_sort :: "(nat \<Rightarrow> nat) \<Rightarrow> nat \<Rightarrow> nat \<Rightarrow> nat list \<Rightarrow> nat list" where
  "bucket_sort lev n0 n hist =
     fst (fold (bucket_step lev n0) [0..<n] (replicate n 0, level_offsets hist))"

text \<open>The random permutation of a bucket: \<open>rnd c\<close> is the \<open>c\<close>-th number that the generator gives,
  \<open>rand_int(m)\<close> is its remainder.\<close>

definition swap_at :: "nat \<Rightarrow> nat \<Rightarrow> 'a list \<Rightarrow> 'a list" where
  "swap_at i j xs = xs[i := xs ! j, j := xs ! i]"

definition shuffle_bucket :: "(nat \<Rightarrow> nat) \<Rightarrow> nat \<Rightarrow> nat \<Rightarrow> nat list \<times> nat \<Rightarrow> nat list \<times> nat" where
  "shuffle_bucket rnd i0 i1 s =
     fold (\<lambda>j s. let (order, c) = s in (swap_at j (j + rnd c mod (i1 - j)) order, c + 1)) [i0..<i1] s"

text \<open>The insertions, as one thread runs them; \<open>qdis\<close> gives the distance computer with the query of a
  vertex. A bucket has one visited table; \<open>insert_point\<close> is the insertion of a vertex of a level.\<close>

definition add_point ::
  "(nat \<Rightarrow> nat \<Rightarrow> 'd::linorder) \<Rightarrow> (nat \<Rightarrow> nat \<Rightarrow> 'd) \<Rightarrow> nat \<Rightarrow> bool \<Rightarrow> nat \<Rightarrow> hnsw \<times> vtable \<Rightarrow> (hnsw \<times> vtable) result option" where
  "add_point qdis sd pt_level keep pt_id s =
     map_option Inr (add_with_locks (qdis pt_id) sd pt_level pt_id keep s)"

definition add_bucket ::
  "(nat \<Rightarrow> nat \<Rightarrow> hnsw \<times> vtable \<Rightarrow> (hnsw \<times> vtable) result option) \<Rightarrow> bool option \<Rightarrow> nat \<Rightarrow> (nat \<Rightarrow> nat) \<Rightarrow> nat list \<Rightarrow> nat \<Rightarrow>
   hnsw \<times> nat list \<times> nat \<times> nat \<Rightarrow> (hnsw \<times> nat list \<times> nat \<times> nat) result option" where
  "add_bucket insert_point use_hashset ntotal rnd hist pt_level s =
     (let (h, order, c, i1) = s;
          i0 = i1 - hist ! pt_level;
          (order, c) = shuffle_bucket rnd i0 i1 (order, c)
      in map_option (\<lambda>r. bind_result r (\<lambda>(h, vt). Inr (h, order, c, i0)))
           (for_each (insert_point pt_level) (slice i0 (i1 - i0) order)
             (h, VisitedTable ntotal use_hashset)))"

definition hnsw_add_vertices ::
  "(nat \<Rightarrow> nat \<Rightarrow> 'd::linorder) \<Rightarrow> (nat \<Rightarrow> nat \<Rightarrow> 'd) \<Rightarrow> index_hnsw \<Rightarrow> nat \<Rightarrow> nat \<Rightarrow> bool \<Rightarrow> float_t list \<Rightarrow> (nat \<Rightarrow> nat) \<Rightarrow>
   hnsw result option" where
  "hnsw_add_vertices qdis sd ix n0 n preset_levels draws rnd =
     (if n = 0 then Some (Inr (ih_hnsw ix))
      else case prepare_level_tab (ih_hnsw ix) n preset_levels draws of
        Inl e \<Rightarrow> Some (Inl e)
      | Inr (h, max_level) \<Rightarrow>
          let lev = pt_level_of h;
              hist = level_hist lev n0 n;
              order = bucket_sort lev n0 n hist
          in map_option
               (\<lambda>r. bind_result r (\<lambda>(h, order, c, i1).
                  if (if ih_init_level0 ix then int i1 = 0 else int i1 - int (hist ! 0) = 0) then Inr h else Inl AssertFailed))
               (for_each (add_bucket (\<lambda>pt_level. add_point qdis sd pt_level (ih_keep_max_size_level0 ix \<and> pt_level = 0))
                   (ih_use_visited_hashset ix) (n0 + n) rnd hist)
                 (rev [(if ih_init_level0 ix then 0 else 1)..<length hist]) (h, order, 0, n)))"

definition index_hnsw_add ::
  "index_hnsw \<Rightarrow> nat \<Rightarrow> float_t list \<Rightarrow> float_t list \<Rightarrow> (nat \<Rightarrow> nat) \<Rightarrow> index_hnsw result option" where
  "index_hnsw_add ix n x draws rnd =
     (case ih_storage ix of
        None \<Rightarrow> Some (Inl (FaissException ''Please use IndexHNSWFlat (or variants) instead of IndexHNSW directly''))
      | Some f \<Rightarrow>
          if \<not> ih_is_trained ix then Some (Inl (FaissException ''is_trained''))
          else
            let n0 = ih_ntotal ix;
                f = flat_add f n x;
                ix = ix\<lparr> ih_storage := Some f, ih_ntotal := fl_ntotal f \<rparr>
            in map_option (\<lambda>r. bind_result r (\<lambda>h. Inr (ix\<lparr> ih_hnsw := h \<rparr>)))
                 (hnsw_add_vertices (\<lambda>pt_id. storage_dis f (row (ih_d ix) (pt_id - n0) x)) (storage_symmetric_dis f)
                   ix n0 n (length (hn_levels (ih_hnsw ix)) = ih_ntotal ix) draws rnd))"

section \<open>Search\<close>

text \<open>One query, on the row of the output that belongs to it.\<close>

definition search_query ::
  "index_hnsw \<Rightarrow> flat \<Rightarrow> float_t list \<Rightarrow> nat \<Rightarrow> params option \<Rightarrow> nat \<Rightarrow> (float_t \<times> int) list list \<times> vtable \<times> hstats \<Rightarrow>
   ((float_t \<times> int) list list \<times> vtable \<times> hstats) result option" where
  "search_query ix f x k params i s =
     (let (rows, vt, stats) = s
      in map_option (\<lambda>r. bind_result r (\<lambda>(res, vt, st). Inr (rows[i := res_end FLT_MAX res], vt, stats_combine stats st)))
           (hnsw_search (ih_hnsw ix) (storage_dis f (row (ih_d ix) i x)) (res_begin FLT_MAX k (rows ! i)) vt params))"

text \<open>The queries that a thread runs in a block share a visited table; \<open>sched\<close> lists them for every
  block and thread.\<close>

definition search_thread ::
  "index_hnsw \<Rightarrow> flat \<Rightarrow> float_t list \<Rightarrow> nat \<Rightarrow> params option \<Rightarrow> nat list \<Rightarrow> (float_t \<times> int) list list \<times> hstats \<Rightarrow>
   ((float_t \<times> int) list list \<times> hstats) result option" where
  "search_thread ix f x k params qs s =
     (let (rows, stats) = s
      in map_option (\<lambda>r. bind_result r (\<lambda>(rows, vt, stats). Inr (rows, stats)))
           (for_each (search_query ix f x k params) qs
             (rows, VisitedTable (ih_ntotal ix) (ih_use_visited_hashset ix), stats)))"

definition hnsw_search_block ::
  "index_hnsw \<Rightarrow> float_t list \<Rightarrow> nat \<Rightarrow> params option \<Rightarrow> nat list list \<Rightarrow> (float_t \<times> int) list list \<Rightarrow>
   ((float_t \<times> int) list list \<times> hstats) result option" where
  "hnsw_search_block ix x k params sched rows =
     (case ih_storage ix of
        None \<Rightarrow> Some (Inl (FaissException ''No storage index, please use IndexHNSWFlat (or variants) instead of IndexHNSW directly''))
      | Some f \<Rightarrow> for_each (search_thread ix f x k params) sched (rows, HNSWStats))"

definition index_hnsw_search ::
  "index_hnsw \<Rightarrow> float_t list \<Rightarrow> int \<Rightarrow> params option \<Rightarrow> nat list list \<Rightarrow> (float_t \<times> int) list list \<Rightarrow>
   ((float_t \<times> int) list list \<times> hstats) result option" where
  "index_hnsw_search ix x k params sched rows =
     (if \<not> k > 0 then Some (Inl (FaissException ''k > 0''))
      else map_option (\<lambda>r. bind_result r (\<lambda>(rows, stats).
               Inr (if is_similarity_metric (ih_metric ix) then map (map (\<lambda>(dis, label). (- dis, label))) rows else rows, stats)))
             (hnsw_search_block ix x (nat k) params sched rows))"

text \<open>\<open>shrink_level_0_neighbors\<close>: every list of level 0 anew, from its own entries.\<close>

definition level_0_list :: "(nat \<Rightarrow> nat \<Rightarrow> 'd::linorder) \<Rightarrow> nat \<Rightarrow> nat \<Rightarrow> int list \<Rightarrow> int list" where
  "level_0_list sd new_size i seg =
     (let initial_list = fold (\<lambda>v. pq_push nearer (sd i v, v)) (map nat (takeWhile (\<lambda>v. \<not> v < 0) seg)) [];
          shrunk_list = shrink_neighbor_list sd initial_list [] new_size False
      in map (\<lambda>j. if j < length shrunk_list then int (snd (shrunk_list ! j)) else -1) [0..<length seg])"

definition shrink_level_0_neighbors :: "index_hnsw \<Rightarrow> nat \<Rightarrow> index_hnsw" where
  "shrink_level_0_neighbors ix new_size =
     (case ih_storage ix of None \<Rightarrow> ix
      | Some f \<Rightarrow>
          ix\<lparr> ih_hnsw := fold (\<lambda>i h. write_slot h i 0 (level_0_list (storage_symmetric_dis f) new_size i (slot h i 0)))
                [0..<ih_ntotal ix] (ih_hnsw ix) \<rparr>)"

end
