(* ===== verification/IndexHnswOk.thy ===== *)
theory IndexHnswOk
  imports IndexHnsw
begin

text \<open>
  Correctness of \<open>IndexHNSWFlat\<close>: the bucket sort of the new vertices by level, the invariant that
  adding vectors preserves, and the results of a search.
\<close>

section \<open>The buckets\<close>

text \<open>The new vertices of a level among the first \<open>m\<close>, and the start of its bucket.\<close>

definition at_level :: "(nat \<Rightarrow> nat) \<Rightarrow> nat \<Rightarrow> nat \<Rightarrow> nat \<Rightarrow> nat list" where
  "at_level lev n0 l m = map (\<lambda>i. i + n0) (filter (\<lambda>i. lev (i + n0) = l) [0..<m])"

definition bucket_start :: "nat list \<Rightarrow> nat \<Rightarrow> nat" where
  "bucket_start hist l = sum_list (take l hist)"

lemma at_level_Suc: "at_level lev n0 l (Suc m) = at_level lev n0 l m @ (if lev (m + n0) = l then [m + n0] else [])"
  by (simp add: at_level_def)

lemma at_level_mono: "m \<le> n \<Longrightarrow> length (at_level lev n0 l m) \<le> length (at_level lev n0 l n)"
proof (induction n)
  case (Suc n)
  then show ?case by (cases "m = Suc n") (auto simp: at_level_Suc)
qed (simp add: at_level_def)

lemma set_at_level: "set (at_level lev n0 l n) = {p \<in> {n0..<n0 + n}. lev p = l}"
proof -
  have "p \<in> set (at_level lev n0 l n)" if "n0 \<le> p" "p < n0 + n" "lev p = l" for p
    using that by (auto simp: at_level_def intro!: image_eqI[of _ _ "p - n0"])
  then show ?thesis by (auto simp: at_level_def)
qed

lemma distinct_at_level: "distinct (at_level lev n0 l n)"
  by (simp add: at_level_def distinct_map inj_on_def)

lemma level_hist_ok:
  "(\<forall>i < n. lev (i + n0) < length (level_hist lev n0 n)) \<and> sum_list (level_hist lev n0 n) = n \<and>
   (\<forall>l < length (level_hist lev n0 n). level_hist lev n0 n ! l = length (at_level lev n0 l n))"
proof (induction n)
  case 0
  then show ?case by (simp add: level_hist_def)
next
  case (Suc n)
  let ?h = "level_hist lev n0 n" and ?l = "lev (n + n0)"
  define h1 where "h1 = ?h @ replicate (?l + 1 - length ?h) 0"
  have s: "level_hist lev n0 (Suc n) = h1[?l := h1 ! ?l + 1]"
    by (simp add: level_hist_def h1_def Let_def)
  have l: "?l < length h1" "length ?h \<le> length h1" by (auto simp: h1_def)
  have z: "at_level lev n0 l n = []" if "length ?h \<le> l" for l
    using Suc.IH that by (auto simp: at_level_def filter_empty_conv)
  have h1: "h1 ! l = length (at_level lev n0 l n)" if "l < length h1" for l
  proof (cases "l < length ?h")
    case True
    then show ?thesis using Suc.IH by (simp add: h1_def nth_append)
  next
    case False
    then show ?thesis using that z[of l] by (simp add: h1_def nth_append)
  qed
  have "sum_list h1 = n" using Suc.IH by (simp add: h1_def sum_list_replicate)
  then have "sum_list (h1[?l := h1 ! ?l + 1]) = Suc n"
    using l(1) member_le_sum_list[of "h1 ! ?l" h1] nth_mem[OF l(1)] by (simp add: sum_list_update)
  moreover have "\<forall>i < Suc n. lev (i + n0) < length h1" using Suc.IH l by (auto simp: less_Suc_eq)
  ultimately show ?case
    unfolding s using l(1) h1 by (auto simp: nth_list_update at_level_Suc)
qed

lemma level_offsets_ok:
  "length (level_offsets hist) = length hist + 1 \<and>
   (\<forall>l < length hist. level_offsets hist ! l = bucket_start hist l)"
proof -
  let ?f = "\<lambda>i ofs. ofs[i + 1 := ofs ! i + hist ! i]"
  have "length (fold ?f [0..<m] (replicate (length hist + 1) 0)) = length hist + 1 \<and>
      (\<forall>l \<le> m. fold ?f [0..<m] (replicate (length hist + 1) 0) ! l = bucket_start hist l)" if "m \<le> length hist - 1" for m
    using that
  proof (induction m)
    case (Suc m)
    let ?o = "fold ?f [0..<m] (replicate (length hist + 1) 0)"
    have IH: "length ?o = length hist + 1" "\<forall>l \<le> m. ?o ! l = bucket_start hist l" using Suc by auto
    have "bucket_start hist (Suc m) = bucket_start hist m + hist ! m"
      using Suc.prems by (simp add: bucket_start_def take_Suc_conv_app_nth)
    then show ?case using IH Suc.prems by (auto simp: nth_list_update le_Suc_eq)
  qed (simp add: bucket_start_def)
  from this[OF order_refl] show ?thesis unfolding level_offsets_def by (cases hist) auto
qed

lemma bucket_start_Suc: "l < length hist \<Longrightarrow> bucket_start hist (Suc l) = bucket_start hist l + hist ! l"
  by (simp add: bucket_start_def take_Suc_conv_app_nth)

lemma bucket_start_mono: "l \<le> m \<Longrightarrow> bucket_start hist l \<le> bucket_start hist m"
proof -
  assume "l \<le> m"
  then have "take m hist = take l hist @ take (m - l) (drop l hist)"
    by (metis le_add_diff_inverse take_add)
  then show ?thesis by (simp add: bucket_start_def)
qed

lemma bucket_loop:
  fixes lev :: "nat \<Rightarrow> nat" and n0 n :: nat
  defines "hist \<equiv> level_hist lev n0 n"
  assumes "m \<le> n" "fold (bucket_step lev n0) [0..<m] (replicate n 0, level_offsets hist) = (order, ofs)"
  shows "length order = n \<and> length ofs = length hist + 1 \<and>
    (\<forall>l < length hist. ofs ! l = bucket_start hist l + length (at_level lev n0 l m) \<and>
      (\<forall>k < length (at_level lev n0 l m). order ! (bucket_start hist l + k) = at_level lev n0 l m ! k))"
  using assms(2,3)
proof (induction m arbitrary: order ofs)
  case 0
  then show ?case using level_offsets_ok[of hist] by (auto simp: at_level_def)
next
  case (Suc m)
  obtain order1 ofs1 where f: "fold (bucket_step lev n0) [0..<m] (replicate n 0, level_offsets hist) = (order1, ofs1)"
    by fastforce
  let ?l = "lev (m + n0)"
  let ?p = "bucket_start hist ?l + length (at_level lev n0 ?l m)"
  from Suc.IH[OF _ f] Suc.prems(1) have IH: "length order1 = n" "length ofs1 = length hist + 1"
    "\<forall>l < length hist. ofs1 ! l = bucket_start hist l + length (at_level lev n0 l m)"
    "\<forall>l < length hist. \<forall>k < length (at_level lev n0 l m). order1 ! (bucket_start hist l + k) = at_level lev n0 l m ! k" by auto
  have H: "?l < length hist" "sum_list hist = n" "\<And>l. l < length hist \<Longrightarrow> hist ! l = length (at_level lev n0 l n)"
    using level_hist_ok[of n lev n0] Suc.prems(1) by (auto simp: hist_def)
  have cnt: "length (at_level lev n0 l m) \<le> hist ! l" if "l < length hist" for l
    using H(3)[OF that] at_level_mono[of m n lev n0 l] Suc.prems(1) by simp
  have lt: "length (at_level lev n0 ?l m) < hist ! ?l"
    using H(3)[OF H(1)] at_level_mono[of "Suc m" n lev n0 ?l] Suc.prems(1) by (simp add: at_level_Suc)
  have "?p < bucket_start hist (Suc ?l)" using lt bucket_start_Suc[OF H(1)] by simp
  also have "\<dots> \<le> bucket_start hist (length hist)" using H(1) by (intro bucket_start_mono) simp
  also have "\<dots> = n" using H(2) by (simp add: bucket_start_def)
  finally have p: "?p < n" .
  have o: "order = order1[?p := m + n0]" "ofs = ofs1[?l := ofs1 ! ?l + 1]"
  proof -
    have "bucket_step lev n0 m (order1, ofs1) = (order, ofs)" using Suc.prems(2) f by simp
    then show "order = order1[?p := m + n0]" "ofs = ofs1[?l := ofs1 ! ?l + 1]"
      using IH(3) H(1) by (simp_all add: bucket_step_def Let_def)
  qed
  have ne: "bucket_start hist l + k \<noteq> ?p" if "l < length hist" "k < length (at_level lev n0 l m)" for l k
  proof -
    consider "l < ?l" | "l = ?l" | "?l < l" by linarith
    then show ?thesis
    proof cases
      case 1
      have "bucket_start hist l + k < bucket_start hist (Suc l)" using that cnt[OF that(1)] bucket_start_Suc[OF that(1)] by simp
      also have "\<dots> \<le> bucket_start hist ?l" using 1 by (intro bucket_start_mono) simp
      finally show ?thesis by simp
    next
      case 2
      then show ?thesis using that by simp
    next
      case 3
      have "?p < bucket_start hist (Suc ?l)" using lt bucket_start_Suc[OF H(1)] by simp
      also have "\<dots> \<le> bucket_start hist l" using 3 by (intro bucket_start_mono) simp
      finally show ?thesis by simp
    qed
  qed
  show ?case
  proof (intro conjI allI impI)
    show "length order = n" "length ofs = length hist + 1" using IH(1,2) by (simp_all add: o)
    fix l assume l: "l < length hist"
    then show "ofs ! l = bucket_start hist l + length (at_level lev n0 l (Suc m))"
      using IH(2,3) by (auto simp: o nth_list_update at_level_Suc)
    fix k assume k: "k < length (at_level lev n0 l (Suc m))"
    show "order ! (bucket_start hist l + k) = at_level lev n0 l (Suc m) ! k"
    proof (cases "k < length (at_level lev n0 l m)")
      case True
      then show ?thesis using IH(4) l ne[OF l True] by (simp add: o at_level_Suc nth_append)
    next
      case False
      then have "l = ?l" "k = length (at_level lev n0 ?l m)" using k by (auto simp: at_level_Suc split: if_splits)
      then show ?thesis using p IH(1) by (simp add: o at_level_Suc)
    qed
  qed
qed

lemma bucket_sort_ok:
  fixes lev :: "nat \<Rightarrow> nat" and n0 n :: nat
  defines "hist \<equiv> level_hist lev n0 n"
  shows "length (bucket_sort lev n0 n hist) = n"
    "l < length hist \<Longrightarrow> slice (bucket_start hist l) (hist ! l) (bucket_sort lev n0 n hist) = at_level lev n0 l n"
    "l < length hist \<Longrightarrow> bucket_start hist l + hist ! l \<le> n"
proof -
  obtain order ofs where f: "fold (bucket_step lev n0) [0..<n] (replicate n 0, level_offsets hist) = (order, ofs)" by fastforce
  from bucket_loop[OF order_refl f[unfolded hist_def], folded hist_def] have B: "length order = n"
    "\<And>l k. l < length hist \<Longrightarrow> k < length (at_level lev n0 l n) \<Longrightarrow> order ! (bucket_start hist l + k) = at_level lev n0 l n ! k" by auto
  have H: "sum_list hist = n" "\<And>l. l < length hist \<Longrightarrow> hist ! l = length (at_level lev n0 l n)"
    using level_hist_ok[of n lev n0] by (auto simp: hist_def)
  have o: "bucket_sort lev n0 n hist = order" by (simp add: bucket_sort_def f)
  show "length (bucket_sort lev n0 n hist) = n" by (simp add: o B(1))
  show b: "bucket_start hist l + hist ! l \<le> n" if "l < length hist" for l
  proof -
    have "bucket_start hist l + hist ! l = bucket_start hist (Suc l)" using bucket_start_Suc[OF that] by simp
    also have "\<dots> \<le> bucket_start hist (length hist)" using that by (intro bucket_start_mono) simp
    finally show ?thesis using H(1) by (simp add: bucket_start_def)
  qed
  show "slice (bucket_start hist l) (hist ! l) (bucket_sort lev n0 n hist) = at_level lev n0 l n" if "l < length hist"
    unfolding o using b[OF that] B H(2)[OF that] that by (intro nth_equalityI) auto
qed

text \<open>The random permutation of a bucket.\<close>

lemma shuffle_bucket_ok:
  assumes "shuffle_bucket rnd i0 i1 (order, c) = (order', c')" "i1 \<le> length order" "i0 \<le> i1"
  shows "length order' = length order \<and> mset order' = mset order \<and> take i0 order' = take i0 order \<and> drop i1 order' = drop i1 order"
proof -
  define f where "f = (\<lambda>j (s :: nat list \<times> nat). let (order, c) = s in (swap_at j (j + rnd c mod (i1 - j)) order, c + 1))"
  have "length order' = length order \<and> mset order' = mset order \<and> take i0 order' = take i0 order \<and> drop i1 order' = drop i1 order"
    if "fold f js (order, c) = (order', c')" "set js \<subseteq> {i0..<i1}" "i1 \<le> length order" for js order c
    using that
  proof (induction js arbitrary: order c)
    case (Cons j js)
    have j: "i0 \<le> j" "j < i1" using Cons.prems(2) by auto
    let ?k = "j + rnd c mod (i1 - j)"
    let ?o = "swap_at j ?k order"
    have "rnd c mod (i1 - j) < i1 - j" using j by (intro mod_less_divisor) simp
    then have k: "i0 \<le> ?k" "?k < i1" using j by linarith+
    have s: "f j (order, c) = (?o, c + 1)" by (simp add: f_def)
    have "fold f js (?o, c + 1) = (order', c')" using Cons.prems(1) s by simp
    from Cons.IH[OF this] Cons.prems have
      "length order' = length ?o \<and> mset order' = mset ?o \<and> take i0 order' = take i0 ?o \<and> drop i1 order' = drop i1 ?o"
      by (simp add: swap_at_def)
    moreover have "mset ?o = mset order" using mset_swap[of ?k order j] j k Cons.prems(3) by (simp add: swap_at_def)
    moreover have "take i0 ?o = take i0 order" "drop i1 ?o = drop i1 order" "length ?o = length order"
      using j k by (simp_all add: swap_at_def)
    ultimately show ?case by simp
  qed simp
  from this[of "[i0..<i1]" order c] assms show ?thesis by (simp add: shuffle_bucket_def f_def)
qed

lemma split_slice: "a \<le> b \<Longrightarrow> b \<le> length xs \<Longrightarrow> xs = take a xs @ slice a (b - a) xs @ drop b xs"
  by (simp add: slice_def) (metis append_take_drop_id drop_drop le_add_diff_inverse2)

lemma shuffle_bucket_slice:
  assumes "shuffle_bucket rnd i0 i1 (order, c) = (order', c')" "i1 \<le> length order" "i0 \<le> i1"
  shows "mset (slice i0 (i1 - i0) order') = mset (slice i0 (i1 - i0) order)"
    "b \<le> i0 \<Longrightarrow> a \<le> b \<Longrightarrow> slice a (b - a) order' = slice a (b - a) order"
proof -
  note S = shuffle_bucket_ok[OF assms]
  have l: "i1 \<le> length order'" using S assms(2) by simp
  have "mset (take i0 order @ slice i0 (i1 - i0) order @ drop i1 order) = mset order"
    using split_slice[OF assms(3,2)] by simp
  moreover have "mset (take i0 order' @ slice i0 (i1 - i0) order' @ drop i1 order') = mset order'"
    using split_slice[OF assms(3) l] by simp
  ultimately have "mset (take i0 order @ slice i0 (i1 - i0) order @ drop i1 order)
      = mset (take i0 order @ slice i0 (i1 - i0) order' @ drop i1 order)" using S by metis
  then show "mset (slice i0 (i1 - i0) order') = mset (slice i0 (i1 - i0) order)" by simp
  show "slice a (b - a) order' = slice a (b - a) order" if "b \<le> i0" "a \<le> b"
  proof -
    have "slice a (b - a) ys = drop a (take b ys)" for ys :: "nat list" using that by (simp add: slice_def drop_take)
    moreover have "take b order' = take b order" using S that(1) by (metis min.absorb1 take_take)
    ultimately show ?thesis by simp
  qed
qed

section \<open>Insertion of the buckets\<close>

lemma vt_clear_new: "vt_clear n (VisitedTable n hs)"
  using vt_inv_constructor vt_get_constructor by (auto simp: vt_clear_def visited_def)

definition same_levels :: "hnsw \<Rightarrow> hnsw \<Rightarrow> bool" where
  "same_levels h h' \<longleftrightarrow> hn_levels h' = hn_levels h \<and> hn_assign_probas h' = hn_assign_probas h \<and> hn_cum h' = hn_cum h"

lemma same_levels_trans: "same_levels h h' \<Longrightarrow> same_levels h' h'' \<Longrightarrow> same_levels h h''"
  by (simp add: same_levels_def)

lemma rev_upt_prefix:
  assumes "zs @ x # us = rev [0..<L]"
  shows "x + length zs + 1 = L" "set zs = {x<..<L}"
proof -
  have len: "length zs < L" using arg_cong[OF assms, of length] by simp
  have "x = rev [0..<L] ! length zs" using arg_cong[OF assms, of "\<lambda>xs. xs ! length zs"] by simp
  also have "\<dots> = L - 1 - length zs" using len by (simp add: rev_nth)
  finally show x: "x + length zs + 1 = L" using len by simp
  have "zs = take (length zs) (rev [0..<L])" using arg_cong[OF assms, of "take (length zs)"] by simp
  also have "\<dots> = rev (drop (L - length zs) [0..<L])" by (simp add: take_rev)
  finally have "set zs = set (rev (drop (L - length zs) [0..<L]))" by (rule arg_cong)
  then have "set zs = {L - length zs..<L}" unfolding set_rev drop_upt set_upt add_0 .
  moreover have "L - length zs = Suc x" using x by simp
  ultimately show "set zs = {x<..<L}" by (simp add: atLeastSucLessThan_greaterThanLessThan)
qed

text \<open>What an index relies on when it inserts its new vertices: a step that inserts one vertex keeps the
  graph under construction and the visited table clear.\<close>

locale vertex_insertion =
  fixes insert_point :: "nat \<Rightarrow> nat \<Rightarrow> hnsw \<times> vtable \<Rightarrow> (hnsw \<times> vtable) result option"
  assumes insert_point_ok:
    "built h I \<Longrightarrow> pt < length (hn_levels h) \<Longrightarrow> pt \<notin> I \<Longrightarrow> hn_levels h ! pt = l + 1 \<Longrightarrow> vt_clear (length (hn_levels h)) vt \<Longrightarrow>
      \<exists>h' vt'. insert_point l pt (h, vt) = Some (Inr (h', vt')) \<and> built h' (insert pt I) \<and> same_levels h h' \<and>
        vt_clear (length (hn_levels h)) vt'"
begin

lemma add_points_ok:
  assumes "built h I" "\<forall>p \<in> set ps. p < length (hn_levels h) \<and> p \<notin> I \<and> hn_levels h ! p = l + 1" "distinct ps"
    "vt_clear (length (hn_levels h)) vt"
  shows "\<exists>h' vt'. for_each (insert_point l) ps (h, vt) = Some (Inr (h', vt')) \<and>
    built h' (I \<union> set ps) \<and> same_levels h h'"
proof -
  define P where "P = (\<lambda>zs (h', vt'). built h' (I \<union> set zs) \<and> same_levels h h' \<and> vt_clear (length (hn_levels h)) vt')"
  have "\<exists>s. for_each (insert_point l) ps (h, vt) = Some (Inr s) \<and> P ps s"
  proof (rule for_each_ok)
    show "P [] (h, vt)" using assms(1,4) by (simp add: P_def same_levels_def)
  next
    fix zs p s assume P: "P zs s" and us: "\<exists>us. zs @ p # us = ps"
    obtain h1 vt1 where s: "s = (h1, vt1)" by fastforce
    from P have h1: "built h1 (I \<union> set zs)" "same_levels h h1" "vt_clear (length (hn_levels h1)) vt1"
      by (simp_all add: P_def s same_levels_def)
    from us assms(3) have "p \<in> set ps" "p \<notin> set zs" by auto
    then have p: "p < length (hn_levels h1)" "p \<notin> I \<union> set zs" "hn_levels h1 ! p = l + 1"
      using assms(2) h1(2) by (auto simp: same_levels_def)
    from insert_point_ok[OF h1(1) p h1(3)] obtain h2 vt2 where
      "insert_point l p (h1, vt1) = Some (Inr (h2, vt2))"
      "built h2 (insert p (I \<union> set zs))" "same_levels h1 h2" "vt_clear (length (hn_levels h1)) vt2" by blast
    then show "\<exists>s'. insert_point l p s = Some (Inr s') \<and> P (zs @ [p]) s'"
      using same_levels_trans[OF h1(2)] h1(2)
      by (intro exI[of _ "(h2, vt2)"]) (auto simp: s P_def same_levels_def)
  qed
  then show ?thesis by (auto simp: P_def)
qed

lemma add_bucket_ok:
  assumes "built h I" "length (hn_levels h) = nt" "i1 \<le> length order" "hist ! l \<le> i1"
    and ps: "mset (slice (i1 - hist ! l) (hist ! l) order) = mset ps" "distinct ps"
      "\<forall>p \<in> set ps. p < nt \<and> p \<notin> I \<and> hn_levels h ! p = l + 1"
  shows "\<exists>h' order' c'. add_bucket insert_point hs nt rnd hist l (h, order, c, i1) = Some (Inr (h', order', c', i1 - hist ! l)) \<and>
    built h' (I \<union> set ps) \<and> same_levels h h' \<and> length order' = length order \<and>
    (\<forall>a b. a \<le> b \<and> b \<le> i1 - hist ! l \<longrightarrow> slice a (b - a) order' = slice a (b - a) order)"
proof -
  let ?i0 = "i1 - hist ! l"
  obtain order' c' where s: "shuffle_bucket rnd ?i0 i1 (order, c) = (order', c')" by fastforce
  note S = shuffle_bucket_slice[OF s assms(3)] and S0 = shuffle_bucket_ok[OF s assms(3)]
  define qs where "qs = slice ?i0 (i1 - ?i0) order'"
  have e: "i1 - ?i0 = hist ! l" using assms(4) by simp
  have qs: "mset qs = mset ps" using S(1) ps(1) e by (simp add: qs_def)
  then have "set qs = set ps" "distinct qs" using mset_eq_setD[OF qs] ps(2) mset_eq_imp_distinct_iff[OF qs] by auto
  with add_points_ok[OF assms(1), of qs l "VisitedTable nt hs"] ps(3) vt_clear_new[of nt hs] assms(2)
  obtain h' vt' where "for_each (insert_point l) qs (h, VisitedTable nt hs) = Some (Inr (h', vt'))"
    "built h' (I \<union> set ps)" "same_levels h h'" by auto
  then show ?thesis using s S(2) S0 by (simp add: add_bucket_def qs_def)
qed

lemma bucket_loop_ok:
  fixes lev :: "nat \<Rightarrow> nat"
  assumes "built h {..<n0}" "length (hn_levels h) = n0 + n" "\<forall>p < n0 + n. hn_levels h ! p = lev p + 1"
  defines "hist \<equiv> level_hist lev n0 n"
  shows "\<exists>h' order' c'. for_each (add_bucket insert_point hs (n0 + n) rnd hist) (rev [0..<length hist])
      (h, bucket_sort lev n0 n hist, 0, n) = Some (Inr (h', order', c', 0)) \<and>
    built h' {..<n0 + n} \<and> same_levels h h'"
proof -
  let ?L = "length hist" and ?S = "bucket_start hist"
  define P where "P = (\<lambda>zs (h', order, c :: nat, i1).
    built h' ({..<n0} \<union> {p \<in> {n0..<n0 + n}. lev p \<in> set zs}) \<and> same_levels h h' \<and> length order = n \<and>
    i1 = ?S (?L - length zs) \<and>
    (\<forall>l < ?L - length zs. slice (?S l) (hist ! l) order = at_level lev n0 l n))"
  note B = bucket_sort_ok[where lev = lev and ?n0.0 = n0 and n = n, folded hist_def]
  have H: "\<forall>i < n. lev (i + n0) < ?L" "sum_list hist = n" using level_hist_ok[of n lev n0] by (auto simp: hist_def)
  have end_eq: "?S ?L = n" using H(2) by (simp add: bucket_start_def)
  have "\<exists>s. for_each (add_bucket insert_point hs (n0 + n) rnd hist) (rev [0..<?L])
      (h, bucket_sort lev n0 n hist, 0, n) = Some (Inr s) \<and> P (rev [0..<?L]) s"
  proof (rule for_each_ok)
    show "P [] (h, bucket_sort lev n0 n hist, 0, n)"
      using assms(1) B(1,2) end_eq by (simp add: P_def same_levels_def)
  next
    fix zs l s assume P: "P zs s" and us: "\<exists>us. zs @ l # us = rev [0..<?L]"
    obtain h1 order c i1 where s: "s = (h1, order, c, i1)" by (metis prod_cases4)
    from us obtain us where "zs @ l # us = rev [0..<?L]" by blast
    note pre = rev_upt_prefix[OF this]
    have lL: "l < ?L" "?L - length zs = Suc l" using pre(1) by auto
    let ?I = "{..<n0} \<union> {p \<in> {n0..<n0 + n}. lev p \<in> set zs}"
    from P lL have h1: "built h1 ?I" "same_levels h h1" "length order = n" "i1 = ?S l + hist ! l"
      "\<forall>m < Suc l. slice (?S m) (hist ! m) order = at_level lev n0 m n"
      by (simp_all add: P_def s bucket_start_Suc)
    have i1: "i1 \<le> length order" using B(3)[OF lL(1)] h1(3,4) by simp
    have ps: "\<forall>p \<in> set (at_level lev n0 l n). p < n0 + n \<and> p \<notin> ?I \<and> hn_levels h1 ! p = l + 1"
      using assms(3) h1(2) pre(2) by (auto simp: set_at_level same_levels_def)
    have e: "i1 - hist ! l = ?S l" using h1(4) by simp
    from add_bucket_ok[OF h1(1) _ i1 _ _ distinct_at_level ps, where hist = hist, unfolded e, where hs = hs and rnd = rnd and c = c]
    obtain h2 order2 c2 where
      r: "add_bucket insert_point hs (n0 + n) rnd hist l (h1, order, c, i1) = Some (Inr (h2, order2, c2, ?S l))"
      and h2: "built h2 (?I \<union> set (at_level lev n0 l n))" "same_levels h1 h2" "length order2 = length order"
      "\<forall>a b. a \<le> b \<and> b \<le> ?S l \<longrightarrow> slice a (b - a) order2 = slice a (b - a) order"
      using assms(2) h1(2,4,5) by (auto simp: same_levels_def)
    have "?I \<union> set (at_level lev n0 l n) = {..<n0} \<union> {p \<in> {n0..<n0 + n}. lev p \<in> set (zs @ [l])}"
      by (auto simp: set_at_level)
    moreover have "slice (?S m) (hist ! m) order2 = at_level lev n0 m n" if "m < l" for m
    proof -
      have "?S (Suc m) \<le> ?S l" using that by (intro bucket_start_mono) simp
      then have "slice (?S m) (?S (Suc m) - ?S m) order2 = slice (?S m) (?S (Suc m) - ?S m) order"
        using h2(4) bucket_start_mono[of m "Suc m" hist] by simp
      then show ?thesis using h1(5) that lL(1) by (simp add: bucket_start_Suc)
    qed
    moreover have "?L - length (zs @ [l]) = l" using lL by simp
    ultimately show "\<exists>s'. add_bucket insert_point hs (n0 + n) rnd hist l s = Some (Inr s') \<and> P (zs @ [l]) s'"
      using r h2(1-3) h1(2,3) same_levels_trans[OF h1(2) h2(2)]
      unfolding P_def s by (intro exI[of _ "(h2, order2, c2, ?S l)"]) simp
  qed
  then obtain h' order' c' i1 where
    r: "for_each (add_bucket insert_point hs (n0 + n) rnd hist) (rev [0..<?L]) (h, bucket_sort lev n0 n hist, 0, n)
      = Some (Inr (h', order', c', i1))" and P': "P (rev [0..<?L]) (h', order', c', i1)" by (metis prod_cases4)
  have "{..<n0} \<union> {p \<in> {n0..<n0 + n}. lev p \<in> set (rev [0..<?L])} = {..<n0 + n}"
  proof -
    have "lev p < ?L" if "n0 \<le> p" "p < n0 + n" for p using H(1)[rule_format, of "p - n0"] that by simp
    then show ?thesis by auto
  qed
  then show ?thesis using r P' by (simp add: P_def bucket_start_def)
qed

end

lemma inserted_built: "inserted qd sd keep l h h' I pt \<Longrightarrow> built h' (insert pt I) \<and> same_levels h h'"
  by (simp add: inserted_def same_levels_def)

interpretation hnsw_insertion: vertex_insertion "\<lambda>pt_level. add_point qdis sd pt_level (keep \<and> pt_level = 0)"
  for qdis :: "nat \<Rightarrow> nat \<Rightarrow> 'd::linorder" and sd keep
proof unfold_locales
  fix h I pt l vt
  assume "built h I" "pt < length (hn_levels h)" "pt \<notin> I" "hn_levels h ! pt = l + 1" "vt_clear (length (hn_levels h)) vt"
  from add_with_locks_ok[OF this, of "qdis pt" sd "keep \<and> l = 0"] show
    "\<exists>h' vt'. add_point qdis sd l (keep \<and> l = 0) pt (h, vt) = Some (Inr (h', vt')) \<and> built h' (insert pt I) \<and>
      same_levels h h' \<and> vt_clear (length (hn_levels h)) vt'"
    using inserted_built by (fastforce simp: add_point_def)
qed

section \<open>The invariant of the index\<close>

definition index_hnsw_ok :: "index_hnsw \<Rightarrow> bool" where
  "index_hnsw_ok ix \<longleftrightarrow> (case ih_storage ix of None \<Rightarrow> False
     | Some f \<Rightarrow> flat_ok f \<and> fl_d f = ih_d ix \<and> fl_metric f = ih_metric ix \<and> fl_ntotal f = ih_ntotal ix) \<and>
     built (ih_hnsw ix) {..<ih_ntotal ix} \<and> length (hn_levels (ih_hnsw ix)) = ih_ntotal ix \<and> probas_ok (ih_hnsw ix) \<and>
     ih_is_trained ix \<and> ih_init_level0 ix"

lemma hnsw_add_vertices_ok:
  assumes "built (ih_hnsw ix) {..<n0}" "length (hn_levels (ih_hnsw ix)) = n0" "probas_ok (ih_hnsw ix)" "ih_init_level0 ix"
  shows "\<exists>h'. hnsw_add_vertices qdis sd ix n0 n (n = 0 \<and> b) draws rnd = Some (Inr h') \<and> built h' {..<n0 + n} \<and>
    length (hn_levels h') = n0 + n \<and> probas_ok h' \<and> hn_cum h' = hn_cum (ih_hnsw ix) \<and>
    hn_levels h' = hn_levels (ih_hnsw ix) @ map (\<lambda>i. nat (random_level (ih_hnsw ix) (draws ! i) + 1)) [0..<n]"
proof (cases "n = 0")
  case True
  then show ?thesis using assms by (simp add: hnsw_add_vertices_def)
next
  case False
  from prepare_built[OF assms(1) order_refl assms(2,3), of n draws] obtain h mx where
    p: "prepare_level_tab (ih_hnsw ix) n False draws = Inr (h, mx)" "built h {..<n0}" "length (hn_levels h) = n0 + n" "probas_ok h"
    "hn_levels h = hn_levels (ih_hnsw ix) @ map (\<lambda>i. nat (random_level (ih_hnsw ix) (draws ! i) + 1)) [0..<n]"
    "hn_cum h = hn_cum (ih_hnsw ix)" by blast
  have "layout_ok h" using p(2) by (simp add: built_def linkable_def)
  then have lev: "\<forall>i < n0 + n. hn_levels h ! i = pt_level_of h i + 1" using p(3) by (auto simp: layout_ok_def pt_level_of_def)
  let ?hist = "level_hist (pt_level_of h) n0 n"
  from hnsw_insertion.bucket_loop_ok[OF p(2,3) lev, of qdis sd "ih_keep_max_size_level0 ix" "ih_use_visited_hashset ix" rnd]
  obtain h' order' c' where
    r: "for_each (add_bucket (\<lambda>l. add_point qdis sd l (ih_keep_max_size_level0 ix \<and> l = 0)) (ih_use_visited_hashset ix) (n0 + n) rnd ?hist)
        (rev [0..<length ?hist]) (h, bucket_sort (pt_level_of h) n0 n ?hist, 0, n) = Some (Inr (h', order', c', 0))"
    and h': "built h' {..<n0 + n}" "same_levels h h'" by blast
  have "hnsw_add_vertices qdis sd ix n0 n (n = 0 \<and> b) draws rnd = Some (Inr h')"
    using False p(1) r assms(4) by (simp add: hnsw_add_vertices_def Let_def)
  then show ?thesis using h' p(3-6) by (simp add: same_levels_def probas_ok_def)
qed

lemma index_hnsw_add_ok:
  assumes ok: "index_hnsw_ok ix" and x: "n * ih_d ix \<le> length x"
  shows "\<exists>ix' f f'. index_hnsw_add ix n x draws rnd = Some (Inr ix') \<and> index_hnsw_ok ix' \<and> ih_ntotal ix' = ih_ntotal ix + n \<and>
    ih_storage ix = Some f \<and> ih_storage ix' = Some f' \<and> ih_d ix' = ih_d ix \<and> ih_metric ix' = ih_metric ix \<and> hn_cum (ih_hnsw ix') = hn_cum (ih_hnsw ix) \<and>
    (\<forall>i < ih_ntotal ix. flat_vec f' i = flat_vec f i) \<and> (\<forall>i < n. flat_vec f' (ih_ntotal ix + i) = row (ih_d ix) i x) \<and>
    hn_levels (ih_hnsw ix') = hn_levels (ih_hnsw ix) @ map (\<lambda>i. nat (random_level (ih_hnsw ix) (draws ! i) + 1)) [0..<n]"
proof -
  from ok obtain f where f: "ih_storage ix = Some f" "flat_ok f" "fl_d f = ih_d ix" "fl_metric f = ih_metric ix" "fl_ntotal f = ih_ntotal ix"
    and h: "built (ih_hnsw ix) {..<ih_ntotal ix}" "length (hn_levels (ih_hnsw ix)) = ih_ntotal ix" "probas_ok (ih_hnsw ix)"
      "ih_is_trained ix" "ih_init_level0 ix" by (auto simp: index_hnsw_ok_def split: option.splits)
  let ?n0 = "ih_ntotal ix"
  define f' where "f' = flat_add f n x"
  have x': "n * fl_d f \<le> length x" using x f(3) by simp
  note F = flat_add_ok[OF f(2) x', folded f'_def]
  define ix1 where "ix1 = ix\<lparr> ih_storage := Some f', ih_ntotal := fl_ntotal f' \<rparr>"
  have i1: "ih_hnsw ix1 = ih_hnsw ix" "ih_init_level0 ix1" using h(5) by (simp_all add: ix1_def)
  have i2: "ih_d ix1 = ih_d ix" "ih_ntotal ix1 = fl_ntotal f'" by (simp_all add: ix1_def)
  have pre: "(length (hn_levels (ih_hnsw ix1)) = ih_ntotal ix1) = (n = 0 \<and> True)"
    using h(2) F(2) f(5) by (simp add: ix1_def)
  from hnsw_add_vertices_ok[of ix1 ?n0 "\<lambda>pt_id. storage_dis f' (row (ih_d ix1) (pt_id - ?n0) x)" "storage_symmetric_dis f'" n True draws rnd, folded pre]
    h i1 obtain h' where r: "hnsw_add_vertices (\<lambda>pt_id. storage_dis f' (row (ih_d ix1) (pt_id - ?n0) x)) (storage_symmetric_dis f')
      ix1 ?n0 n (length (hn_levels (ih_hnsw ix1)) = ih_ntotal ix1) draws rnd = Some (Inr h')"
    and h': "built h' {..<?n0 + n}" "length (hn_levels h') = ?n0 + n" "probas_ok h'" "hn_cum h' = hn_cum (ih_hnsw ix)"
      "hn_levels h' = hn_levels (ih_hnsw ix) @ map (\<lambda>i. nat (random_level (ih_hnsw ix) (draws ! i) + 1)) [0..<n]" by auto
  have a: "index_hnsw_add ix n x draws rnd = Some (Inr (ix1\<lparr> ih_hnsw := h' \<rparr>))"
    using f(1) h(4) r[unfolded i1(1) i2] unfolding index_hnsw_add_def by (simp add: Let_def f'_def[symmetric] ix1_def[symmetric])
  have "index_hnsw_ok (ix1\<lparr> ih_hnsw := h' \<rparr>)"
    using F(1-4) f(3-5) h' h(4,5) by (simp add: index_hnsw_ok_def ix1_def)
  then show ?thesis using a f(1,3,5) F(2,5,6) h'(4,5) by (simp add: ix1_def)
qed

end
