(* ===== verification/IndexHnswProps.thy ===== *)
theory IndexHnswProps
  imports IndexHnswOk HnswProps
begin

text \<open>
  The properties of \<open>IndexHNSWFlat\<close>: adding vectors, searching for several queries, and the shrinking of
  the lists of level 0.
\<close>

section \<open>Search\<close>

text \<open>What a row of the output holds: the nearest of a set of vertices, with the distances of the
  distance computer, padded.\<close>

definition row_ok :: "nat \<Rightarrow> (nat \<Rightarrow> float_t) \<Rightarrow> (nat \<Rightarrow> bool) option \<Rightarrow> nat \<Rightarrow> (float_t \<times> int) list \<Rightarrow> bool" where
  "row_ok k qd sel n r \<longleftrightarrow>
     (\<exists>V S. V \<noteq> {} \<and> V \<subseteq> {..<n} \<and> topk k (pairs qd sel V) S \<and> r = S @ replicate (k - length S) (FLT_MAX, -1))"

lemma row_okE:
  assumes "row_ok k qd sel n r"
  obtains V S where "V \<noteq> {}" "V \<subseteq> {..<n}" "topk k (pairs qd sel V) S" "r = S @ replicate (k - length S) (FLT_MAX, -1)"
  using assms unfolding row_ok_def by blast

lemma search_query_ok:
  assumes ok: "index_hnsw_ok ix" "ih_storage ix = Some f" "0 < ih_ntotal ix" and k: "1 \<le> k" "length (rows ! i) = k"
    and near: "\<forall>v < ih_ntotal ix. storage_dis f (row (ih_d ix) i x) v < FLT_MAX"
    and par: "extract_search_params (ih_hnsw ix) params = (ddc, ef, sel)" "queue_params (ih_hnsw ix) params = (bq, ef)"
    and vt: "vt_clear (ih_ntotal ix) vt" and i: "i < length rows"
  shows "\<exists>r vt' stats'. search_query ix f x k params i (rows, vt, stats) = Some (Inr (rows[i := r], vt', stats')) \<and>
    row_ok k (storage_dis f (row (ih_d ix) i x)) (if bq then sel else None) (ih_ntotal ix) r \<and> vt_clear (ih_ntotal ix) vt'"
proof -
  let ?h = "ih_hnsw ix" and ?qd = "storage_dis f (row (ih_d ix) i x)"
  have h: "built ?h {..<ih_ntotal ix}" "length (hn_levels ?h) = ih_ntotal ix" using ok(1) by (simp_all add: index_hnsw_ok_def)
  have "{..<ih_ntotal ix} \<noteq> {}" using ok(3) by (simp add: lessThan_empty_iff)
  then have ep: "hn_entry_point ?h \<noteq> -1" using h(1) by (auto simp: built_def)
  have vt': "vt_inv (ih_ntotal ix) vt" "visited (ih_ntotal ix) vt = {}" using vt by (simp_all add: vt_clear_def)
  note X = hnsw_search_visits[OF built_graph_ok[OF h(1)] ep, unfolded h(2), OF vt' k near par, where exh = False, simplified]
  then obtain res' vt'' stats2 V S where
    s: "hnsw_search ?h ?qd (res_begin FLT_MAX k (rows ! i)) vt params = Some (Inr (res', vt'', stats2))"
    and r: "res_end FLT_MAX res' = S @ replicate (k - length S) (FLT_MAX, -1)"
      "topk k (pairs ?qd (if bq then sel else None) V) S" "V \<subseteq> {..<ih_ntotal ix}" "V \<noteq> {}"
    and v: "vt_inv (ih_ntotal ix) vt''" "visited (ih_ntotal ix) vt'' = {}" by blast
  have "row_ok k ?qd (if bq then sel else None) (ih_ntotal ix) (res_end FLT_MAX res')"
    using r unfolding row_ok_def by blast
  then show ?thesis using s v by (auto simp: search_query_def vt_clear_def)
qed

lemma search_thread_ok:
  assumes ok: "index_hnsw_ok ix" "ih_storage ix = Some f" "0 < ih_ntotal ix" "1 \<le> k"
    and near: "\<forall>i \<in> set qs. \<forall>v < ih_ntotal ix. storage_dis f (row (ih_d ix) i x) v < FLT_MAX"
    and par: "extract_search_params (ih_hnsw ix) params = (ddc, ef, sel)" "queue_params (ih_hnsw ix) params = (bq, ef)"
    and qs: "distinct qs" "\<forall>i \<in> set qs. i < length rows \<and> length (rows ! i) = k"
  shows "\<exists>rows' stats'. search_thread ix f x k params qs (rows, stats) = Some (Inr (rows', stats')) \<and>
    length rows' = length rows \<and> (\<forall>i < length rows. i \<notin> set qs \<longrightarrow> rows' ! i = rows ! i) \<and>
    (\<forall>i \<in> set qs. row_ok k (storage_dis f (row (ih_d ix) i x)) (if bq then sel else None) (ih_ntotal ix) (rows' ! i))"
proof -
  let ?n = "ih_ntotal ix" and ?OK = "\<lambda>i r. row_ok k (storage_dis f (row (ih_d ix) i x)) (if bq then sel else None) (ih_ntotal ix) r"
  have "\<exists>rows' v' st'. for_each (search_query ix f x k params) qs (rows, VisitedTable ?n (ih_use_visited_hashset ix), stats)
      = Some (Inr (rows', v', st')) \<and> length rows' = length rows \<and>
    (\<forall>i < length rows. i \<notin> set qs \<longrightarrow> rows' ! i = rows ! i) \<and> (\<forall>i \<in> set qs. ?OK i (rows' ! i))"
  proof (rule for_each_rows[where V = "vt_clear ?n"])
    show "vt_clear ?n (VisitedTable ?n (ih_use_visited_hashset ix))" by (rule vt_clear_new)
    fix i rows1 v st
    assume i: "i \<in> set qs" "length rows1 = length rows" "rows1 ! i = rows ! i" "vt_clear ?n v"
    then have r: "length (rows1 ! i) = k" "i < length rows1" "\<forall>v < ?n. storage_dis f (row (ih_d ix) i x) v < FLT_MAX"
      using qs(2) near by simp_all
    from search_query_ok[OF ok r(1,3) par i(4) r(2), of st]
    show "\<exists>r v' st'. search_query ix f x k params i (rows1, v, st) = Some (Inr (rows1[i := r], v', st')) \<and> ?OK i r \<and> vt_clear ?n v'"
      by blast
  qed (use qs in simp_all)
  then show ?thesis by (auto simp: search_thread_def)
qed

lemma search_block_ok:
  assumes ok: "index_hnsw_ok ix" "ih_storage ix = Some f" "0 < ih_ntotal ix" "1 \<le> k"
    and near: "\<forall>i \<in> set (concat sched). \<forall>v < ih_ntotal ix. storage_dis f (row (ih_d ix) i x) v < FLT_MAX"
    and par: "extract_search_params (ih_hnsw ix) params = (ddc, ef, sel)" "queue_params (ih_hnsw ix) params = (bq, ef)"
    and qs: "distinct (concat sched)" "\<forall>i \<in> set (concat sched). i < length rows \<and> length (rows ! i) = k"
  shows "\<exists>rows' stats'. hnsw_search_block ix x k params sched rows = Some (Inr (rows', stats')) \<and>
    length rows' = length rows \<and>
    (\<forall>i \<in> set (concat sched). row_ok k (storage_dis f (row (ih_d ix) i x)) (if bq then sel else None) (ih_ntotal ix) (rows' ! i))"
proof -
  define OK where "OK = (\<lambda>i r. row_ok k (storage_dis f (row (ih_d ix) i x)) (if bq then sel else None) (ih_ntotal ix) r)"
  have "\<exists>rows' st'. for_each (search_thread ix f x k params) sched (rows, HNSWStats) = Some (Inr (rows', st')) \<and>
    length rows' = length rows \<and> (\<forall>i \<in> set (concat sched). OK i (rows' ! i))"
  proof (rule for_each_blocks[OF qs(1)])
    show "\<forall>i \<in> set (concat sched). i < length rows" using qs(2) by blast
    fix q rows1 st
    assume q: "q \<in> set sched" "distinct q" "length rows1 = length rows" "\<forall>i \<in> set q. rows1 ! i = rows ! i"
    have sub: "set q \<subseteq> set (concat sched)" using q(1) by auto
    have n: "\<forall>i \<in> set q. \<forall>v < ih_ntotal ix. storage_dis f (row (ih_d ix) i x) v < FLT_MAX" using near sub by blast
    have l: "\<forall>i \<in> set q. i < length rows1 \<and> length (rows1 ! i) = k" using qs(2) sub q(3,4) by (metis subsetD)
    from search_thread_ok[OF ok n par q(2) l, of st, folded OK_def[THEN fun_cong, THEN fun_cong]]
    show "\<exists>rows' st'. search_thread ix f x k params q (rows1, st) = Some (Inr (rows', st')) \<and> length rows' = length rows1 \<and>
        (\<forall>i < length rows1. i \<notin> set q \<longrightarrow> rows' ! i = rows1 ! i) \<and> (\<forall>i \<in> set q. OK i (rows' ! i))" by blast
  qed
  then show ?thesis using ok(2) unfolding OK_def hnsw_search_block_def by auto
qed

text \<open>C24. \<open>IndexHNSWFlat::search\<close> on a non-empty index gives for every query and every schedule of the
  queries on threads a row with the \<open>k\<close> nearest of a non-empty set of the stored vectors, in ascending
  order of the distance computer, with their true distances (negated back for the inner product) and
  padded with the label -1.\<close>

theorem index_hnsw_search_correct:
  assumes "index_hnsw_ok ix" "ih_storage ix = Some f" "0 < ih_ntotal ix" "1 \<le> k"
    and "\<forall>i < n. \<forall>v < ih_ntotal ix. storage_dis f (row (ih_d ix) i x) v < FLT_MAX"
    and "extract_search_params (ih_hnsw ix) params = (ddc, ef, sel)" "queue_params (ih_hnsw ix) params = (bounded_queue, ef)"
    and "distinct (concat sched)" "set (concat sched) = {..<n}" "length rows = n" "\<forall>i < n. length (rows ! i) = k"
  shows "\<exists>rows' stats. index_hnsw_search ix x (int k) params sched rows = Some (Inr (rows', stats)) \<and> length rows' = n \<and>
    (\<forall>i < n. \<exists>V S. V \<noteq> {} \<and> V \<subseteq> {..<ih_ntotal ix} \<and>
       topk k (pairs (storage_dis f (row (ih_d ix) i x)) (if bounded_queue then sel else None) V) S \<and>
       rows' ! i = (if ih_metric ix = METRIC_INNER_PRODUCT
         then map (\<lambda>(dis, label). (- dis, label)) (S @ replicate (k - length S) (FLT_MAX, -1))
         else S @ replicate (k - length S) (FLT_MAX, -1)))"
proof -
  have "\<forall>i \<in> set (concat sched). \<forall>v < ih_ntotal ix. storage_dis f (row (ih_d ix) i x) v < FLT_MAX"
    "\<forall>i \<in> set (concat sched). i < length rows \<and> length (rows ! i) = k" using assms(5,9-11) by auto
  from search_block_ok[OF assms(1-4) this(1) assms(6-8) this(2)] obtain rows' stats where
    r: "hnsw_search_block ix x k params sched rows = Some (Inr (rows', stats))" "length rows' = n"
    and "\<forall>i \<in> set (concat sched). row_ok k (storage_dis f (row (ih_d ix) i x)) (if bounded_queue then sel else None) (ih_ntotal ix) (rows' ! i)"
    unfolding assms(10) by blast
  then have ok: "\<forall>i < n. row_ok k (storage_dis f (row (ih_d ix) i x)) (if bounded_queue then sel else None) (ih_ntotal ix) (rows' ! i)"
    unfolding assms(9) by blast
  let ?neg = "map (\<lambda>(dis, label). (- dis, label)) :: (float_t \<times> int) list \<Rightarrow> _"
  let ?out = "if ih_metric ix = METRIC_INNER_PRODUCT then map ?neg rows' else rows'"
  have "index_hnsw_search ix x (int k) params sched rows = Some (Inr (?out, stats))"
    using assms(4) r(1) by (simp add: index_hnsw_search_def is_similarity_metric_def)
  moreover have "\<exists>V S. V \<noteq> {} \<and> V \<subseteq> {..<ih_ntotal ix} \<and>
       topk k (pairs (storage_dis f (row (ih_d ix) i x)) (if bounded_queue then sel else None) V) S \<and>
       ?out ! i = (if ih_metric ix = METRIC_INNER_PRODUCT
         then ?neg (S @ replicate (k - length S) (FLT_MAX, -1)) else S @ replicate (k - length S) (FLT_MAX, -1))"
    if "i < n" for i
  proof -
    from ok[rule_format, OF that] obtain V S where V: "V \<noteq> {}" "V \<subseteq> {..<ih_ntotal ix}"
      "topk k (pairs (storage_dis f (row (ih_d ix) i x)) (if bounded_queue then sel else None) V) S"
      and S: "rows' ! i = S @ replicate (k - length S) (FLT_MAX, -1)" by (rule row_okE)
    have "?out ! i = (if ih_metric ix = METRIC_INNER_PRODUCT then ?neg (rows' ! i) else rows' ! i)"
      using that r(2) by simp
    with V show ?thesis unfolding S by (intro exI conjI)
  qed
  moreover have "length ?out = n" using r(2) by simp
  ultimately show ?thesis by blast
qed

section \<open>Adding vectors\<close>

text \<open>C23. \<open>IndexHNSWFlat::add\<close> on a well-formed index, for any numbers of the generators: it ends
  without an exception, the storage gets the new vectors behind the old ones, every new vertex has the level
  that was drawn for it, and the graph is well-formed with all vertices inserted: in particular from two
  vectors on no vertex is without neighbors on level 0.\<close>

theorem index_hnsw_add_correct:
  assumes "index_hnsw_ok ix" "n * ih_d ix \<le> length x"
  shows "\<exists>ix' f f'. index_hnsw_add ix n x draws rnd = Some (Inr ix') \<and> index_hnsw_ok ix' \<and> ih_ntotal ix' = ih_ntotal ix + n \<and>
    ih_storage ix = Some f \<and> ih_storage ix' = Some f' \<and>
    (\<forall>i < ih_ntotal ix. flat_vec f' i = flat_vec f i) \<and> (\<forall>i < n. flat_vec f' (ih_ntotal ix + i) = row (ih_d ix) i x) \<and>
    hn_levels (ih_hnsw ix') = hn_levels (ih_hnsw ix) @ map (\<lambda>i. nat (random_level (ih_hnsw ix) (draws ! i) + 1)) [0..<n] \<and>
    graph_ok (ih_hnsw ix') \<and> (2 \<le> ih_ntotal ix' \<longrightarrow> (\<forall>v < ih_ntotal ix'. nbrs (ih_hnsw ix') v 0 \<noteq> []))"
proof -
  from index_hnsw_add_ok[OF assms, of draws rnd] obtain ix' f f' where
    a: "index_hnsw_add ix n x draws rnd = Some (Inr ix')" "index_hnsw_ok ix'" "ih_ntotal ix' = ih_ntotal ix + n"
      "ih_storage ix = Some f" "ih_storage ix' = Some f'"
      "\<forall>i < ih_ntotal ix. flat_vec f' i = flat_vec f i" "\<forall>i < n. flat_vec f' (ih_ntotal ix + i) = row (ih_d ix) i x"
      "hn_levels (ih_hnsw ix') = hn_levels (ih_hnsw ix) @ map (\<lambda>i. nat (random_level (ih_hnsw ix) (draws ! i) + 1)) [0..<n]"
    by blast
  have b: "built (ih_hnsw ix') {..<ih_ntotal ix'}" using a(2) by (simp add: index_hnsw_ok_def)
  then have "\<forall>v < ih_ntotal ix'. nbrs (ih_hnsw ix') v 0 \<noteq> []" if "2 \<le> ih_ntotal ix'" using that by (simp add: built_def)
  with a built_graph_ok[OF b] show ?thesis by blast
qed

section \<open>Shrinking level 0\<close>

definition shrunk_nbrs :: "(nat \<Rightarrow> nat \<Rightarrow> float_t) \<Rightarrow> nat \<Rightarrow> nat \<Rightarrow> nat list \<Rightarrow> nat list" where
  "shrunk_nbrs sd new_size i vs =
     map snd (shrink_neighbor_list sd (fold (\<lambda>v. pq_push nearer (sd i v, v)) vs []) [] new_size False)"

lemma shrunk_nbrs_ok:
  assumes "1 \<le> m"
  shows "mset (shrunk_nbrs sd m i vs) \<subseteq># mset vs" "length (shrunk_nbrs sd m i vs) \<le> m" "vs \<noteq> [] \<Longrightarrow> shrunk_nbrs sd m i vs \<noteq> []"
proof -
  let ?q = "fold (\<lambda>v. pq_push nearer (sd i v, v)) vs []"
  have "mset (fold (\<lambda>v. pq_push nearer (sd i v, v)) vs q) = image_mset (\<lambda>v. (sd i v, v)) (mset vs) + mset q" for q
    by (induction vs arbitrary: q) auto
  from this[of "[]"] have q: "mset ?q = image_mset (\<lambda>v. (sd i v, v)) (mset vs)" by simp
  note S = shrink_neighbor_list_ok[OF assms refl, where input = ?q and sd = sd and keep = False]
  have "image_mset snd (mset (shrink_neighbor_list sd ?q [] m False)) \<subseteq># image_mset snd (mset ?q)"
    by (rule image_mset_subseteq_mono[OF S(1)])
  then show "mset (shrunk_nbrs sd m i vs) \<subseteq># mset vs" by (simp add: shrunk_nbrs_def q image_mset.compositionality comp_def)
  show "length (shrunk_nbrs sd m i vs) \<le> m" using S(2) by (simp add: shrunk_nbrs_def)
  have "vs \<noteq> [] \<Longrightarrow> ?q \<noteq> []" using q by auto
  then show "vs \<noteq> [] \<Longrightarrow> shrunk_nbrs sd m i vs \<noteq> []" using S(6) by (simp add: shrunk_nbrs_def)
qed

lemma level_0_list_eq:
  assumes "length (shrunk_nbrs sd m i (nbrs h i 0)) \<le> length (slot h i 0)"
  shows "level_0_list sd m i (slot h i 0)
    = map int (shrunk_nbrs sd m i (nbrs h i 0)) @ replicate (length (slot h i 0) - length (shrunk_nbrs sd m i (nbrs h i 0))) (-1)"
proof -
  have "map nat (takeWhile (\<lambda>v. \<not> v < 0) (slot h i 0)) = nbrs h i 0" by (simp add: nbrs_def not_less)
  then show ?thesis using assms unfolding level_0_list_def shrunk_nbrs_def
    by (intro nth_equalityI) (auto simp: Let_def nth_append)
qed

lemma shrink_loop_0:
  assumes "linkable h" "\<forall>i < n. on_level h 0 i" "1 \<le> m"
  shows "linkable (fold (\<lambda>i h. write_slot h i 0 (level_0_list sd m i (slot h i 0))) [0..<n] h) \<and>
    same_shape h (fold (\<lambda>i h. write_slot h i 0 (level_0_list sd m i (slot h i 0))) [0..<n] h) \<and>
    (\<forall>j l. on_level h l j \<longrightarrow> nbrs (fold (\<lambda>i h. write_slot h i 0 (level_0_list sd m i (slot h i 0))) [0..<n] h) j l
      = (if l = 0 \<and> j < n then shrunk_nbrs sd m j (nbrs h j 0) else nbrs h j l))"
  using assms(2)
proof (induction n)
  case (Suc n)
  let ?h = "fold (\<lambda>i h. write_slot h i 0 (level_0_list sd m i (slot h i 0))) [0..<n] h"
  let ?vs = "shrunk_nbrs sd m n (nbrs h n 0)"
  from Suc have h: "linkable ?h" "same_shape h ?h" "\<forall>j l. on_level h l j \<longrightarrow> nbrs ?h j l
      = (if l = 0 \<and> j < n then shrunk_nbrs sd m j (nbrs h j 0) else nbrs h j l)" by auto
  note on = same_shape_on_level[OF h(2)]
  have n: "on_level h 0 n" "on_level ?h 0 n" using Suc.prems by (simp_all add: on)
  have nb: "nbrs ?h n 0 = nbrs h n 0" using h(3) n(1) by simp
  note V = shrunk_nbrs_ok[OF assms(3), where sd = sd and i = n and vs = "nbrs h n 0"]
  note L = linkable_seglen[OF h(1) n(2)]
  have len: "length ?vs \<le> seglen ?h 0" using size_mset_mono[OF V(1)] L(3) nb by simp
  have "\<forall>v \<in> set ?vs. on_level ?h 0 v" using set_mset_mono[OF V(1)] linkable_nbrs[OF assms(1) n(1)] by (auto simp: on)
  note W = write_nbrs_ok[OF h(1) n(2) len this refl]
  have "write_slot ?h n 0 (level_0_list sd m n (slot ?h n 0))
      = write_slot ?h n 0 (map int ?vs @ replicate (seglen ?h 0 - length ?vs) (-1))"
    using level_0_list_eq[of sd m n ?h] len L(1) nb by simp
  then have e: "fold (\<lambda>i h. write_slot h i 0 (level_0_list sd m i (slot h i 0))) [0..<Suc n] h
      = write_slot ?h n 0 (map int ?vs @ replicate (seglen ?h 0 - length ?vs) (-1))" by simp
  show ?case unfolding e using W(1,2) W(3)[unfolded on] h(3) same_shape_trans[OF h(2) W(2)] by auto
qed (use assms in simp)

text \<open>\<open>shrink_level_0_neighbors\<close> keeps the graph well-formed: every list of level 0 becomes a
  selection of at most \<open>new_size\<close> of its entries, not empty if it was not, and the lists of the higher
  levels stay.\<close>

theorem shrink_level_0_correct:
  assumes "index_hnsw_ok ix" "1 \<le> new_size"
  shows "graph_ok (ih_hnsw (shrink_level_0_neighbors ix new_size)) \<and>
    (\<forall>v < ih_ntotal ix. mset (nbrs (ih_hnsw (shrink_level_0_neighbors ix new_size)) v 0) \<subseteq># mset (nbrs (ih_hnsw ix) v 0) \<and>
      length (nbrs (ih_hnsw (shrink_level_0_neighbors ix new_size)) v 0) \<le> new_size \<and>
      (nbrs (ih_hnsw ix) v 0 \<noteq> [] \<longrightarrow> nbrs (ih_hnsw (shrink_level_0_neighbors ix new_size)) v 0 \<noteq> [])) \<and>
    (\<forall>v l. on_level (ih_hnsw ix) l v \<and> 0 < l \<longrightarrow>
      nbrs (ih_hnsw (shrink_level_0_neighbors ix new_size)) v l = nbrs (ih_hnsw ix) v l)"
proof -
  let ?h = "ih_hnsw ix"
  from assms(1) obtain f where f: "ih_storage ix = Some f" by (auto simp: index_hnsw_ok_def split: option.splits)
  have b: "built ?h {..<ih_ntotal ix}" "length (hn_levels ?h) = ih_ntotal ix" using assms(1) by (simp_all add: index_hnsw_ok_def)
  have lk: "linkable ?h" using b(1) by (simp add: built_def)
  have on: "\<forall>i < ih_ntotal ix. on_level ?h 0 i" using graph_level0(1)[OF built_graph_ok[OF b(1)]] b(2) by simp
  let ?sd = "storage_symmetric_dis f"
  define h' where "h' = fold (\<lambda>i h. write_slot h i 0 (level_0_list ?sd new_size i (slot h i 0))) [0..<ih_ntotal ix] ?h"
  have e: "ih_hnsw (shrink_level_0_neighbors ix new_size) = h'" by (simp add: shrink_level_0_neighbors_def f h'_def)
  note W = shrink_loop_0[OF lk on assms(2), of ?sd, folded h'_def]
  have "entry_ok h'" using W built_graph_ok[OF b(1)]
    by (auto simp: graph_ok_def entry_ok_def same_shape_def on_level_def)
  then have "graph_ok h'" using W by (simp add: graph_ok_def linkable_def)
  then show ?thesis unfolding e using W on shrunk_nbrs_ok[OF assms(2), where sd = ?sd] by simp
qed

section \<open>An example\<close>

definition demo_proba :: "nat \<Rightarrow> float_t" where
  "demo_proba l = (if l = 0 then 3 / 4 else if l = 1 then 1 / 4 else 0)"

lemma demo_proba: "\<forall>l < 2. 1 / 10 ^ 9 \<le> demo_proba l" "demo_proba 2 < 1 / 10 ^ 9"
  by (auto simp: demo_proba_def less_Suc_eq numeral_2_eq_2)

lemma new_index_ok:
  assumes "\<forall>l < L. 1 / 10 ^ 9 \<le> proba l" "proba L < 1 / 10 ^ 9" "1 \<le> L" "1 \<le> M"
  shows "\<exists>ix. IndexHNSWFlat proba dm M m = Some ix \<and> index_hnsw_ok ix \<and> ih_ntotal ix = 0 \<and> ih_d ix = dm \<and> ih_metric ix = m \<and>
    hn_search_bounded_queue (ih_hnsw ix) \<and> hn_efSearch (ih_hnsw ix) = 16 \<and> hn_check_relative_distance (ih_hnsw ix)"
proof -
  obtain h where h: "HNSW proba M = Some h" using HNSW_constructed[OF assms(1,2)] by blast
  then have d: "hn_search_bounded_queue h" "hn_efSearch h = 16" "hn_check_relative_distance h"
    using HNSW_constructed[OF assms(1,2), of M] by (auto simp: HNSW_empty_def)
  from constructed_built[OF assms h] show ?thesis
    using h d by (simp add: IndexHNSWFlat_def index_hnsw_ok_def) (simp add: IndexFlat_def)
qed

theorem index_hnsw_add_correct_witness:
  "\<exists>ix ix'. IndexHNSWFlat demo_proba 1 1 METRIC_L2 = Some ix \<and>
     index_hnsw_add ix 2 [5, 9] [0, 7 / 8] (\<lambda>c. 3) = Some (Inr ix') \<and> hn_levels (ih_hnsw ix') = [1, 2] \<and>
     nbrs (ih_hnsw ix') 0 0 \<noteq> [] \<and> nbrs (ih_hnsw ix') 1 0 \<noteq> []"
proof -
  from new_index_ok[OF demo_proba, of 1 1 METRIC_L2] obtain ix where
    ix: "IndexHNSWFlat demo_proba 1 1 METRIC_L2 = Some ix" "index_hnsw_ok ix" "ih_ntotal ix = 0" "ih_d ix = 1" by auto
  have "2 * ih_d ix \<le> length [5, 9 :: float_t]" using ix(4) by simp
  from index_hnsw_add_correct[OF ix(2) this, of "[0, 7 / 8]" "\<lambda>c. 3"] ix(3) obtain ix' where
    a: "index_hnsw_add ix 2 [5, 9] [0, 7 / 8] (\<lambda>c. 3) = Some (Inr ix')"
      "hn_levels (ih_hnsw ix') = hn_levels (ih_hnsw ix) @ map (\<lambda>i. nat (random_level (ih_hnsw ix) ([0, 7 / 8] ! i) + 1)) [0..<2]"
      "\<forall>v < 2. nbrs (ih_hnsw ix') v 0 \<noteq> []" by auto
  obtain h where h: "HNSW demo_proba 1 = Some h" "ih_hnsw ix = h" using ix(1) by (auto simp: IndexHNSWFlat_def)
  have d: "hn_assign_probas h = [3 / 4, 1 / 4]" "hn_levels h = []"
  proof -
    have "h = HNSW_empty\<lparr> hn_assign_probas := map demo_proba [0..<2], hn_cum := 0 # map (\<lambda>j. 1 * (j + 2)) [0..<2], hn_offsets := [0] \<rparr>"
      using h(1) HNSW_constructed[OF demo_proba, of 1] by simp
    then show "hn_assign_probas h = [3 / 4, 1 / 4]" "hn_levels h = []"
      by (simp_all add: HNSW_empty_def numeral_2_eq_2 demo_proba_def)
  qed
  have "random_level h 0 = 0" "random_level h (7 / 8) = 1" by (simp_all add: random_level_def d)
  then have "hn_levels (ih_hnsw ix') = [1, 2]" using a(2) h(2) d(2) by (simp add: numeral_2_eq_2)
  with ix(1) a show ?thesis by auto
qed

text \<open>An index with the two vectors 5 and 9 of dimension 1.\<close>

lemma demo_index:
  "\<exists>ix f. index_hnsw_ok ix \<and> ih_ntotal ix = 2 \<and> ih_storage ix = Some f \<and> ih_d ix = 1 \<and> ih_metric ix = METRIC_L2 \<and>
     flat_vec f 0 = [5] \<and> flat_vec f 1 = [9] \<and> fl_metric f = METRIC_L2"
proof -
  from new_index_ok[OF demo_proba, of 1 1 METRIC_L2] obtain ix where
    ix: "index_hnsw_ok ix" "ih_ntotal ix = 0" "ih_d ix = 1" "ih_metric ix = METRIC_L2" by auto
  have "2 * ih_d ix \<le> length [5, 9 :: float_t]" using ix(3) by simp
  from index_hnsw_add_ok[OF ix(1) this, of "[0, 7 / 8]" "\<lambda>c. 3"] ix(2-4) obtain ix' f f' where
    a: "index_hnsw_ok ix'" "ih_ntotal ix' = 2" "ih_storage ix' = Some f'" "ih_d ix' = 1" "ih_metric ix' = METRIC_L2"
      "\<forall>i < 2. flat_vec f' i = row 1 i [5, 9]" by auto
  then have "fl_metric f' = METRIC_L2" by (simp add: index_hnsw_ok_def)
  moreover have "flat_vec f' 0 = [5]" "flat_vec f' 1 = [9]" using a(6) by (simp_all add: slice_def)
  ultimately show ?thesis using a by blast
qed

theorem index_hnsw_search_correct_witness:
  "\<exists>ix f rows' stats. index_hnsw_ok ix \<and> flat_vec f 0 = [5] \<and> flat_vec f 1 = [9] \<and>
     index_hnsw_search ix [6] 1 (Some (Params None (Some \<lparr> sp_efSearch = 4, sp_check_relative_distance = True, sp_bounded_queue = True \<rparr>)))
       [[0]] [[(0, 0)]] = Some (Inr (rows', stats)) \<and> length rows' = 1"
proof -
  from demo_index obtain ix f where ix: "index_hnsw_ok ix" "ih_ntotal ix = 2" "ih_storage ix = Some f" "ih_d ix = 1"
    "ih_metric ix = METRIC_L2" "flat_vec f 0 = [5]" "flat_vec f 1 = [9]" "fl_metric f = METRIC_L2" by blast
  let ?p = "Some (Params None (Some \<lparr> sp_efSearch = 4, sp_check_relative_distance = True, sp_bounded_queue = True \<rparr>))"
  have near: "\<forall>i < 1. \<forall>v < ih_ntotal ix. storage_dis f (row (ih_d ix) i [6]) v < FLT_MAX"
    using ix by (simp add: less_Suc_eq numeral_2_eq_2 storage_dis_def is_similarity_metric_def flat_dis_def slice_def FLT_MAX_def)
  have par: "extract_search_params (ih_hnsw ix) ?p = (True, 4, None)" "queue_params (ih_hnsw ix) ?p = (True, 4)"
    by (simp_all add: extract_search_params_def queue_params_def)
  have pos: "0 < ih_ntotal ix" using ix(2) by simp
  from index_hnsw_search_correct[OF ix(1,3) pos _ near par, of 1 "[[0]]" "[[(0, 0)]]"] ix show ?thesis
    by (simp add: lessThan_Suc) blast
qed

theorem shrink_level_0_correct_witness:
  "\<exists>ix. index_hnsw_ok ix \<and> ih_ntotal ix = 2 \<and> graph_ok (ih_hnsw (shrink_level_0_neighbors ix 1)) \<and>
     length (nbrs (ih_hnsw (shrink_level_0_neighbors ix 1)) 0 0) = 1"
proof -
  from demo_index obtain ix where ix: "index_hnsw_ok ix" "ih_ntotal ix = 2" by blast
  then have "nbrs (ih_hnsw ix) 0 0 \<noteq> []" by (simp add: index_hnsw_ok_def built_def)
  with shrink_level_0_correct[OF ix(1), of 1] ix(2) have
    "graph_ok (ih_hnsw (shrink_level_0_neighbors ix 1))" "length (nbrs (ih_hnsw (shrink_level_0_neighbors ix 1)) 0 0) \<le> 1"
    "nbrs (ih_hnsw (shrink_level_0_neighbors ix 1)) 0 0 \<noteq> []" by auto
  then have "length (nbrs (ih_hnsw (shrink_level_0_neighbors ix 1)) 0 0) = 1"
    by (cases "nbrs (ih_hnsw (shrink_level_0_neighbors ix 1)) 0 0") auto
  with ix \<open>graph_ok _\<close> show ?thesis by blast
qed

end
