(* ===== verification/Cspg.thy ===== *)
theory Cspg
  imports IndexHnswOk
begin

text \<open>
  \<open>IndexCSPG\<close> (\<open>faiss/IndexCSPG.h\<close>, \<open>faiss/IndexCSPG.cpp\<close>): the vectors are split at random into partitions
  that share a set of routing vectors, with a graph for each partition. A vertex of a partition has a local
  id; \<open>cs_refunction\<close> gives its global id. Random numbers and the result of \<open>std::shuffle\<close> are parameters.
\<close>

section \<open>The index\<close>

record cspg =
  cs_d :: nat
  cs_ntotal :: nat
  cs_is_trained :: bool
  cs_metric :: metric
  cs_M :: nat
  cs_efConstruction :: nat
  cs_num_partitions :: nat
  cs_lambda :: float_t
  cs_ef1 :: int
  cs_efSearch :: int
  cs_shared_flat :: "flat option"
  cs_partitions :: "index_hnsw list"
  cs_refunction :: "nat list list"
  cs_global_to_local :: "(int \<times> int) list"
  cs_num_routing :: nat

definition IndexCSPG :: "nat \<Rightarrow> nat \<Rightarrow> int \<Rightarrow> float_t \<Rightarrow> metric \<Rightarrow> cspg result" where
  "IndexCSPG dm M num_partitions lam m =
     throw_unless (m = METRIC_L2) ''IndexCSPG only supports L2 distance''
    (throw_unless (num_partitions \<ge> 1) ''num_partitions must be >= 1''
    (throw_unless (lam > 0 \<and> lam < 1) ''lambda must be in (0, 1)''
      (Inr \<lparr> cs_d = dm, cs_ntotal = 0, cs_is_trained = True, cs_metric = m, cs_M = M, cs_efConstruction = 40,
             cs_num_partitions = nat num_partitions, cs_lambda = lam, cs_ef1 = 1, cs_efSearch = 128,
             cs_shared_flat = None, cs_partitions = [], cs_refunction = [], cs_global_to_local = [],
             cs_num_routing = 0 \<rparr>)))"

definition cspg_train :: "cspg \<Rightarrow> cspg" where
  "cspg_train cs = cs\<lparr> cs_is_trained := True \<rparr>"

definition cspg_reset :: "cspg \<Rightarrow> cspg" where
  "cspg_reset cs = cs\<lparr> cs_partitions := [], cs_shared_flat := None, cs_refunction := [], cs_global_to_local := [],
     cs_num_routing := 0, cs_ntotal := 0 \<rparr>"

definition cspg_reconstruct :: "cspg \<Rightarrow> int \<Rightarrow> float_t list result" where
  "cspg_reconstruct cs key =
     throw_unless (key \<ge> 0 \<and> key < int (cs_ntotal cs)) ''key >= 0 && key < ntotal''
       (case cs_shared_flat cs of None \<Rightarrow> Inl OutOfBounds | Some f \<Rightarrow> Inr (slice (nat key * cs_d cs) (cs_d cs) (fl_codes f)))"

text \<open>\<open>get_vec(pid, local_id)\<close>, as the vector behind the pointer.\<close>

definition get_vec :: "cspg \<Rightarrow> nat \<Rightarrow> nat \<Rightarrow> float_t list result" where
  "get_vec cs pid local_id =
     (case cs_shared_flat cs of None \<Rightarrow> Inl OutOfBounds
      | Some f \<Rightarrow> let flat_pos = cs_refunction cs ! pid ! local_id in Inr (slice (flat_pos * cs_d cs) (cs_d cs) (fl_codes f)))"

section \<open>Adding the vectors\<close>

text \<open>The product \<open>n * lambda\<close> is exact here; the two clamps make the result independent of its
  rounding at the ends.\<close>

definition compute_num_routing :: "nat \<Rightarrow> float_t \<Rightarrow> nat" where
  "compute_num_routing n lam =
     (let r = nat \<lfloor>of_nat n * lam\<rfloor>;
          r = (if r < 1 then 1 else r)
      in if r \<ge> n then n - 1 else r)"

text \<open>The routing vectors head every partition, each other vector goes to one partition. \<open>rnd c\<close> is
  the \<open>c\<close>-th number the generator gives after the shuffle.\<close>

definition mark_routing :: "nat \<Rightarrow> nat list \<Rightarrow> bool list" where
  "mark_routing n routing_ids = fold (\<lambda>i fl. fl[i := True]) routing_ids (replicate n False)"

definition assign_step :: "(nat \<Rightarrow> nat) \<Rightarrow> nat \<Rightarrow> bool list \<Rightarrow> nat \<Rightarrow> nat list list \<times> nat \<Rightarrow> nat list list \<times> nat" where
  "assign_step rnd m is_routing i s =
     (let (ref, c) = s
      in if is_routing ! i then (ref, c) else (push_back_at (rnd c mod m) i ref, c + 1))"

definition build_refunction :: "(nat \<Rightarrow> nat) \<Rightarrow> nat list \<Rightarrow> nat \<Rightarrow> nat \<Rightarrow> nat \<Rightarrow> nat list list" where
  "build_refunction rnd shuffled n m num_routing =
     (let routing_ids = sort (take num_routing shuffled);
          ref = replicate m routing_ids;
          is_routing = mark_routing n routing_ids
      in fst (fold (assign_step rnd m is_routing) [0..<n] (ref, 0)))"

definition g2l_step :: "nat list list \<Rightarrow> nat \<Rightarrow> nat \<Rightarrow> (int \<times> int) list \<Rightarrow> (int \<times> int) list" where
  "g2l_step ref p lid g2l =
     (let gid = ref ! p ! lid in if fst (g2l ! gid) < 0 then g2l[gid := (int p, int lid)] else g2l)"

definition build_global_to_local :: "nat list list \<Rightarrow> nat \<Rightarrow> nat \<Rightarrow> (int \<times> int) list \<Rightarrow> (int \<times> int) list" where
  "build_global_to_local ref n m g2l =
     fold (\<lambda>p g2l. fold (g2l_step ref p) [0..<length (ref ! p)] g2l) [0..<m] (resize n (-1, -1) g2l)"

text \<open>The graph of one partition, on a copy of its vectors that is dropped afterwards.\<close>

definition build_partition ::
  "(nat \<Rightarrow> float_t) \<Rightarrow> float_t list \<Rightarrow> (nat \<Rightarrow> nat) \<Rightarrow> nat \<Rightarrow> nat \<Rightarrow> nat \<Rightarrow> float_t list \<Rightarrow> nat list \<Rightarrow>
   index_hnsw result option" where
  "build_partition proba draws rnd2 dm M efc x ids =
     (let part_data = concat (map (\<lambda>gid. row dm gid x) ids)
      in case IndexHNSWFlat proba dm M METRIC_L2 of
           None \<Rightarrow> None
         | Some part \<Rightarrow>
             let part = part\<lparr> ih_hnsw := (ih_hnsw part)\<lparr> hn_efConstruction := efc \<rparr> \<rparr>
             in map_option (\<lambda>r. bind_result r (\<lambda>part. Inr (part\<lparr> ih_storage := map_option flat_reset (ih_storage part) \<rparr>)))
                  (index_hnsw_add part (length ids) part_data draws rnd2))"

text \<open>\<open>draws\<close> and \<open>rnd2\<close> are the numbers of the generators of the graphs, which start anew in each.\<close>

definition cspg_add ::
  "(nat \<Rightarrow> float_t) \<Rightarrow> float_t list \<Rightarrow> (nat \<Rightarrow> nat) \<Rightarrow> (nat list \<Rightarrow> nat list) \<Rightarrow> (nat \<Rightarrow> nat) \<Rightarrow> cspg \<Rightarrow> int \<Rightarrow> float_t list \<Rightarrow>
   cspg result option" where
  "cspg_add proba draws rnd2 shuffle rnd cs ni x =
     (if cs_ntotal cs \<noteq> 0
      then Some (Inl (FaissException ''IndexCSPG: must add all vectors in a single call (incremental add is not supported)''))
      else if \<not> ni > 0 then Some (Inl (FaissException ''n > 0''))
      else
        let n = nat ni;
            m = cs_num_partitions cs;
            nr = compute_num_routing n (cs_lambda cs);
            ref = build_refunction rnd (shuffle [0..<n]) n m nr;
            g2l = build_global_to_local ref n m (cs_global_to_local cs);
            f = flat_add (IndexFlat (cs_d cs) METRIC_L2) n x
        in map_option (\<lambda>r. bind_result r (\<lambda>parts. Inr (cs\<lparr> cs_ntotal := n, cs_num_routing := nr, cs_refunction := ref,
               cs_global_to_local := g2l, cs_shared_flat := Some f, cs_partitions := parts \<rparr>)))
             (for_each (\<lambda>p parts. map_option (\<lambda>r. bind_result r (\<lambda>part. Inr (parts @ [part])))
                 (build_partition proba draws rnd2 (cs_d cs) (cs_M cs) (cs_efConstruction cs) x (ref ! p)))
               [0..<m] []))"

end
