(* ===== verification/CspgSearch.thy ===== *)
theory CspgSearch
  imports Cspg
begin

text \<open>
  \<open>IndexCSPG::search\<close>: a descent through the graph of partition 0, then a best-first search over all
  graphs at once. A pair of a partition and a local id is one number, the partition times the stride plus
  the local id. When a routing vector is accepted its copies in all partitions become candidates.
\<close>

section \<open>Parameters and statistics\<close>

record cspg_stats =
  cg_search_seq_len :: nat
  cg_n_backtracks :: nat
  cg_n_queries :: nat
  cg_n_dis :: nat
  cg_n_dis_stage1 :: nat

definition CSPGStats :: cspg_stats where
  "CSPGStats = \<lparr> cg_search_seq_len = 0, cg_n_backtracks = 0, cg_n_queries = 0, cg_n_dis = 0, cg_n_dis_stage1 = 0 \<rparr>"

definition cspg_stats_combine :: "cspg_stats \<Rightarrow> cspg_stats \<Rightarrow> cspg_stats" where
  "cspg_stats_combine s other =
     \<lparr> cg_search_seq_len = cg_search_seq_len s + cg_search_seq_len other,
       cg_n_backtracks = cg_n_backtracks s + cg_n_backtracks other,
       cg_n_queries = cg_n_queries s + cg_n_queries other,
       cg_n_dis = cg_n_dis s + cg_n_dis other,
       cg_n_dis_stage1 = cg_n_dis_stage1 s + cg_n_dis_stage1 other \<rparr>"

text \<open>The object behind the \<open>SearchParameters\<close> pointer: its selector \<open>sel\<close>, and \<open>efSearch\<close> and \<open>ef1\<close> when
  it is of the class \<open>SearchParametersCSPG\<close>.\<close>

record cspg_params =
  cp_sel :: "(nat \<Rightarrow> bool) option"
  cp_cspg :: "(int \<times> int) option"

text \<open>The field \<open>sel\<close> of the parameters.\<close>

definition cspg_sel :: "cspg_params option \<Rightarrow> (nat \<Rightarrow> bool) option" where
  "cspg_sel params = (case params of None \<Rightarrow> None | Some p \<Rightarrow> cp_sel p)"

text \<open>The values for a search, \<open>efSearch\<close> at least \<open>k\<close>. The search reads nothing else of the parameters: it
  ignores the selector.\<close>

definition cspg_efs :: "cspg \<Rightarrow> int \<Rightarrow> cspg_params option \<Rightarrow> int \<times> int" where
  "cspg_efs cs k params =
     (let (ef1, ef2) =
        (case params of
           None \<Rightarrow> (cs_ef1 cs, cs_efSearch cs)
         | Some p \<Rightarrow> (case cp_cspg p of Some (efSearch, ef1) \<Rightarrow> (ef1, efSearch) | None \<Rightarrow> (cs_ef1 cs, cs_efSearch cs)))
      in (ef1, if ef2 < k then k else ef2))"

definition cspg_stride :: "cspg \<Rightarrow> int" where
  "cspg_stride cs = fold (\<lambda>p stride. max stride (int (ih_ntotal (cs_partitions cs ! p)))) [0..<cs_num_partitions cs] 0"

section \<open>Distances\<close>

text \<open>The distance of the query to a vector of the shared storage, and \<open>RemappedDistanceComputer\<close>.\<close>

definition global_dis :: "flat \<Rightarrow> float_t list \<Rightarrow> nat \<Rightarrow> float_t" where
  "global_dis f q gid = fvec_L2sqr q (row (fl_d f) gid (fl_codes f))"

definition remapped_dis :: "(nat \<Rightarrow> 'd) \<Rightarrow> nat list \<Rightarrow> nat \<Rightarrow> 'd" where
  "remapped_dis base mapping i = base (mapping ! i)"

section \<open>Stage 1\<close>

text \<open>The result is the nearest vertex of partition 0 that was found, its distance, the visited table of
  the partition and the number of distances.\<close>

definition cspg_stage1 ::
  "hnsw \<Rightarrow> (nat \<Rightarrow> 'd::linorder) \<Rightarrow> int \<Rightarrow> vtable \<Rightarrow> (nat \<times> 'd \<times> vtable \<times> nat) option" where
  "cspg_stage1 hnsw0 rdc ef1 vt0 =
     (let nearest = nat (hn_entry_point hnsw0);
          (stats, nearest, d_nearest) =
            descend hnsw0 rdc (rev [1..<nat (hn_max_level hnsw0 + 1)]) (HNSWStats, nearest, rdc nearest);
          ndis = 1 + st_ndis stats
      in if ef1 > 1
         then map_option
                (\<lambda>(top_cands, vt, stats_s1).
                   let top_cands = drop (length top_cands - 1) top_cands;
                       (d_nearest, nearest) = (if top_cands \<noteq> [] then hd top_cands else (d_nearest, nearest))
                   in (nearest, d_nearest, vt, ndis + st_ndis stats_s1))
                (search_from_candidate_unbounded hnsw0 (d_nearest, nearest) rdc (nat ef1) (vt_advance vt0) HNSWStats)
         else Some (nearest, d_nearest, vt0, ndis))"

section \<open>Stage 2\<close>

text \<open>\<open>TopResult\<close> as a pair of the distance and the pair of partition and local id; the vector with
  \<open>push_heap\<close> and \<open>pop_heap\<close> is a priority queue with the farthest on top.\<close>

definition worse :: "'d::linorder \<times> 'e \<Rightarrow> 'd \<times> 'e \<Rightarrow> bool" where
  "worse p q \<longleftrightarrow> fst p > fst q"

definition try_add_result ::
  "nat \<Rightarrow> 'd::linorder \<Rightarrow> nat \<Rightarrow> nat \<Rightarrow> ('d \<times> nat \<times> nat) list \<Rightarrow> ('d \<times> nat \<times> nat) list" where
  "try_add_result ef2 dst gid lid top_results =
     (if length top_results < ef2 then pq_push worse (dst, gid, lid) top_results
      else if dst < fst (hd top_results) then pq_push worse (dst, gid, lid) (tl top_results)
      else top_results)"

definition cspg_enc :: "int \<Rightarrow> nat \<Rightarrow> nat \<Rightarrow> int" where
  "cspg_enc stride p lid = int p * stride + int lid"

text \<open>The copies of a vertex in the other partitions: marked, and candidates.\<close>

definition cross_expand ::
  "int \<Rightarrow> nat \<Rightarrow> 'd::linorder \<Rightarrow> nat list \<Rightarrow> 'd minimax \<times> vtable list \<Rightarrow> 'd minimax \<times> vtable list" where
  "cross_expand stride nid dn ps s =
     fold (\<lambda>p (cand, vis). (mm_push (cspg_enc stride p nid) dn cand, vis[p := fst (vt_mark (vis ! p) nid)])) ps s"

definition process_neighbor ::
  "int \<Rightarrow> nat \<Rightarrow> nat \<Rightarrow> nat \<Rightarrow> nat \<Rightarrow> (nat \<Rightarrow> 'd::linorder) \<Rightarrow> nat \<Rightarrow>
   ('d \<times> nat \<times> nat) list \<times> 'd minimax \<times> vtable list \<Rightarrow> ('d \<times> nat \<times> nat) list \<times> 'd minimax \<times> vtable list" where
  "process_neighbor stride m nr ef2 cur dis nid s =
     (let (top_results, cand, vis) = s; dn = dis nid
      in if length top_results \<ge> ef2 \<and> dn \<ge> fst (hd top_results) then s
         else
           let top_results = try_add_result ef2 dn cur nid top_results;
               cand = mm_push (cspg_enc stride cur nid) dn cand;
               (cand, vis) =
                 (if nid < nr then cross_expand stride nid dn (filter (\<lambda>p. p \<noteq> cur) [0..<m]) (cand, vis) else (cand, vis))
           in (top_results, cand, vis))"

text \<open>One iteration; the state is (results, candidates, visited, pops, backtracks, previous distance, number
  of distances), the result of the loop may be a fault.\<close>

definition stage2_step ::
  "cspg \<Rightarrow> int \<Rightarrow> nat \<Rightarrow> (nat \<Rightarrow> 'd::linorder) \<Rightarrow>
   ('d \<times> nat \<times> nat) list \<times> 'd minimax \<times> vtable list \<times> nat \<times> nat \<times> 'd option \<times> nat \<Rightarrow>
   (('d \<times> nat \<times> nat) list \<times> 'd minimax \<times> vtable list \<times> nat \<times> nat \<times> 'd option \<times> nat) result
     + (('d \<times> nat \<times> nat) list \<times> 'd minimax \<times> vtable list \<times> nat \<times> nat \<times> 'd option \<times> nat)" where
  "stage2_step cs stride ef2 gdis s =
     (case s of (top_results, cand, vis, seq_len, backtracks, prev_pop_d, ndis) \<Rightarrow>
        if \<not> mm_size cand > 0 then Inl (Inr s)
        else case mm_pop_min cand of
          ((enc, None), cand) \<Rightarrow> Inl (Inr (top_results, cand, vis, seq_len, backtracks, prev_pop_d, ndis))
        | ((enc, Some cur_d), cand) \<Rightarrow>
            if enc < 0 then Inl (Inr (top_results, cand, vis, seq_len, backtracks, prev_pop_d, ndis))
            else
              let seq_len = seq_len + 1;
                  backtracks = (if (case prev_pop_d of None \<Rightarrow> False | Some d \<Rightarrow> cur_d > d) then backtracks + 1 else backtracks)
              in if length top_results \<ge> ef2 \<and> cur_d > fst (hd top_results)
                 then Inl (Inr (top_results, cand, vis, seq_len, backtracks, Some cur_d, ndis))
                 else
                   let cur = nat (enc div stride);
                       vid = nat (enc mod stride);
                       nb = nbrs (ih_hnsw (cs_partitions cs ! cur)) vid 0;
                       unvis = unseen vt_mark nb (vis ! cur);
                       vis = vis[cur := fold (\<lambda>v vt. fst (vt_mark vt v)) nb (vis ! cur)]
                   in if length unvis > 128 then Inl (Inl OutOfBounds)
                      else
                        let (top_results, cand, vis) =
                              fold (process_neighbor stride (cs_num_partitions cs) (cs_num_routing cs) ef2 cur
                                  (remapped_dis gdis (cs_refunction cs ! cur))) unvis (top_results, cand, vis)
                        in Inr (top_results, cand, vis, seq_len, backtracks, Some cur_d, ndis + length unvis))"

text \<open>The seed, and its copies when it is a routing vector.\<close>

definition stage2_seed ::
  "cspg \<Rightarrow> int \<Rightarrow> nat \<Rightarrow> nat \<Rightarrow> 'd::{linorder, zero} \<Rightarrow> vtable list \<Rightarrow> ('d \<times> nat \<times> nat) list \<times> 'd minimax \<times> vtable list" where
  "stage2_seed cs stride ef2 nearest d_nearest vis =
     (let vis = map vt_advance vis;
          vis = vis[0 := fst (vt_mark (vis ! 0) nearest)];
          m = cs_num_partitions cs;
          top_results = try_add_result ef2 d_nearest 0 nearest [];
          cand = mm_push (cspg_enc stride 0 nearest) d_nearest (MinimaxHeap (ef2 * m));
          (cand, vis) =
            (if nearest < cs_num_routing cs then cross_expand stride nearest d_nearest [1..<m] (cand, vis) else (cand, vis))
      in (top_results, cand, vis))"

section \<open>The search\<close>

definition cspg_result_row :: "cspg \<Rightarrow> nat \<Rightarrow> (float_t \<times> nat \<times> nat) list \<Rightarrow> (float_t \<times> int) list" where
  "cspg_result_row cs k top_results =
     (let srt = sort_key fst top_results;
          nres = min (length srt) k
      in map (\<lambda>(dst, p, lid). (dst, int (cs_refunction cs ! p ! lid))) (take nres srt) @ replicate (k - nres) (FLT_MAX, -1))"

definition cspg_search_one ::
  "cspg \<Rightarrow> flat \<Rightarrow> int \<Rightarrow> nat \<Rightarrow> float_t list \<Rightarrow> nat \<Rightarrow> vtable list \<Rightarrow>
   ((float_t \<times> int) list \<times> vtable list \<times> cspg_stats) result option" where
  "cspg_search_one cs f ef1 ef2 query k vis =
     (let hnsw0 = ih_hnsw (cs_partitions cs ! 0);
          gdis = global_dis f query;
          stride = cspg_stride cs
      in if hn_entry_point hnsw0 < 0 then Some (Inr (replicate k (FLT_MAX, -1), vis, CSPGStats))
         else case cspg_stage1 hnsw0 (remapped_dis gdis (cs_refunction cs ! 0)) ef1 (vis ! 0) of
           None \<Rightarrow> None
         | Some (nearest, d_nearest, vt0, ndis1) \<Rightarrow>
             let (top_results, cand, vis) = stage2_seed cs stride ef2 nearest d_nearest (vis[0 := vt0])
             in map_option
                  (\<lambda>r. bind_result r (\<lambda>(top_results, cand, vis, seq_len, backtracks, prev_pop_d, ndis).
                     Inr (cspg_result_row cs k top_results, vis,
                       \<lparr> cg_search_seq_len = seq_len, cg_n_backtracks = backtracks, cg_n_queries = 1,
                         cg_n_dis = ndis + ndis1, cg_n_dis_stage1 = ndis1 \<rparr>)))
                  (run_loop (stage2_step cs stride ef2 gdis) (top_results, cand, vis, 0, 0, None, 0)))"

text \<open>The queries of a thread share the visited tables; \<open>sched\<close> lists the queries of each thread.\<close>

definition cspg_search_query ::
  "cspg \<Rightarrow> flat \<Rightarrow> int \<Rightarrow> nat \<Rightarrow> float_t list \<Rightarrow> nat \<Rightarrow> nat \<Rightarrow> (float_t \<times> int) list list \<times> vtable list \<times> cspg_stats \<Rightarrow>
   ((float_t \<times> int) list list \<times> vtable list \<times> cspg_stats) result option" where
  "cspg_search_query cs f ef1 ef2 x k q s =
     (let (rows, vis, stats) = s
      in map_option (\<lambda>r. bind_result r (\<lambda>(out, vis, st). Inr (rows[q := out], vis, cspg_stats_combine stats st)))
           (cspg_search_one cs f ef1 ef2 (row (cs_d cs) q x) k vis))"

definition cspg_search_thread ::
  "cspg \<Rightarrow> flat \<Rightarrow> int \<Rightarrow> nat \<Rightarrow> float_t list \<Rightarrow> nat \<Rightarrow> nat list \<Rightarrow> (float_t \<times> int) list list \<times> cspg_stats \<Rightarrow>
   ((float_t \<times> int) list list \<times> cspg_stats) result option" where
  "cspg_search_thread cs f ef1 ef2 x k qs s =
     (let (rows, stats) = s;
          vis = map (\<lambda>p. VisitedTable (ih_ntotal (cs_partitions cs ! p)) None) [0..<cs_num_partitions cs]
      in map_option (\<lambda>r. bind_result r (\<lambda>(rows, vis, stats). Inr (rows, stats)))
           (for_each (cspg_search_query cs f ef1 ef2 x k) qs (rows, vis, stats)))"

definition cspg_search ::
  "cspg \<Rightarrow> float_t list \<Rightarrow> int \<Rightarrow> cspg_params option \<Rightarrow> nat list list \<Rightarrow> (float_t \<times> int) list list \<Rightarrow>
   ((float_t \<times> int) list list \<times> cspg_stats) result option" where
  "cspg_search cs x k params sched rows =
     (if \<not> cs_ntotal cs > 0 then Some (Inl (FaissException ''IndexCSPG::search on empty index''))
      else if \<not> k > 0 then Some (Inl (FaissException ''k > 0''))
      else case cs_shared_flat cs of
        None \<Rightarrow> Some (Inl OutOfBounds)
      | Some f \<Rightarrow>
          let (ef1, ef2) = cspg_efs cs k params
          in for_each (cspg_search_thread cs f ef1 (nat ef2) x (nat k)) sched (rows, CSPGStats))"

end
