(* ===== verification/CspgOk.thy ===== *)
theory CspgOk
  imports Cspg IndexHnswProps
begin

text \<open>
  The construction of \<open>IndexCSPG\<close>: the partitions share the routing vectors and split the others, the
  reverse mapping inverts the mapping, every partition gets a well-formed graph of its vectors.
\<close>

section \<open>Partitions\<close>

lemma distinct_concat_nth:
  assumes "distinct (concat ts)" "p < length ts" "q < length ts" "a < length (ts ! p)" "b < length (ts ! q)"
    "ts ! p ! a = ts ! q ! b"
  shows "p = q \<and> a = b"
  using assms
proof (induction ts arbitrary: p q)
  case (Cons t ts)
  have dis: "set t \<inter> set (concat ts) = {}" and d: "distinct t" "distinct (concat ts)" using Cons.prems(1) by auto
  have sub: "x ! c \<in> set (concat ts)" if "x \<in> set ts" "c < length x" for x c
    using that by (auto intro!: bexI[of _ x])
  show ?case
  proof (cases p)
    case 0
    show ?thesis
    proof (cases q)
      case 0
      then show ?thesis using Cons.prems \<open>p = 0\<close> d(1) by (simp add: nth_eq_iff_index_eq)
    next
      case (Suc q')
      have "t ! a \<in> set t" using Cons.prems(4) 0 by simp
      moreover have "ts ! q' ! b \<in> set (concat ts)" by (rule sub) (use Cons.prems(3,5) Suc in simp_all)
      moreover have "t ! a = ts ! q' ! b" using Cons.prems(6) 0 Suc by simp
      ultimately have "t ! a \<in> set t \<inter> set (concat ts)" by simp
      then show ?thesis using dis by blast
    qed
  next
    case (Suc p')
    show ?thesis
    proof (cases q)
      case 0
      have "t ! b \<in> set t" using Cons.prems(5) 0 by simp
      moreover have "ts ! p' ! a \<in> set (concat ts)" by (rule sub) (use Cons.prems(2,4) Suc in simp_all)
      moreover have "ts ! p' ! a = t ! b" using Cons.prems(6) 0 Suc by simp
      ultimately have "t ! b \<in> set t \<inter> set (concat ts)" by simp
      then show ?thesis using dis by blast
    next
      case (Suc q')
      then show ?thesis using Cons.IH[OF d(2), of p' q'] Cons.prems \<open>p = Suc p'\<close> by simp
    qed
  qed
qed simp

text \<open>\<open>r\<close> are the routing ids, \<open>ts\<close> the other ids of the partitions.\<close>

definition partition_of :: "nat \<Rightarrow> nat \<Rightarrow> nat \<Rightarrow> nat list list \<Rightarrow> bool" where
  "partition_of n m nr ref \<longleftrightarrow> (\<exists>r ts. length r = nr \<and> sorted r \<and> length ts = m \<and> ref = map (\<lambda>t. r @ t) ts \<and>
     mset (r @ concat ts) = mset [0..<n])"

lemma partition_of_facts:
  assumes "partition_of n m nr ref"
  shows "length ref = m"
    "p < m \<Longrightarrow> nr \<le> length (ref ! p)"
    "p < m \<Longrightarrow> a < length (ref ! p) \<Longrightarrow> ref ! p ! a < n"
    "p < m \<Longrightarrow> q < m \<Longrightarrow> a < nr \<Longrightarrow> ref ! p ! a = ref ! q ! a"
    "p < m \<Longrightarrow> q < m \<Longrightarrow> a < length (ref ! p) \<Longrightarrow> b < length (ref ! q) \<Longrightarrow> ref ! p ! a = ref ! q ! b \<Longrightarrow>
      a = b \<and> (p = q \<or> a < nr)"
    "g < n \<Longrightarrow> 0 < m \<Longrightarrow> \<exists>p < m. \<exists>a < length (ref ! p). ref ! p ! a = g"
proof -
  from assms obtain r ts where r: "length r = nr" "length ts = m" "ref = map (\<lambda>t. r @ t) ts"
    "mset (r @ concat ts) = mset [0..<n]" unfolding partition_of_def by blast
  have S: "set (r @ concat ts) = {..<n}" using mset_eq_setD[OF r(4)] by auto
  have D: "distinct (r @ concat ts)" using mset_eq_imp_distinct_iff[OF r(4)] by simp
  show "length ref = m" "p < m \<Longrightarrow> nr \<le> length (ref ! p)" using r by auto
  have dis: "set r \<inter> set (concat ts) = {}" using D by (simp only: distinct_append)
  have el: "ref ! p ! a = (if a < nr then r ! a else ts ! p ! (a - nr))" if "p < m" for p a
    using that r(1-3) by (simp add: nth_append)
  have len: "length (ref ! p) = nr + length (ts ! p)" if "p < m" for p using that r(1-3) by simp
  have in_ts: "ts ! p ! (a - nr) \<in> set (concat ts)" if "p < m" "\<not> a < nr" "a < length (ref ! p)" for p a
  proof -
    have "ts ! p \<in> set ts" "ts ! p ! (a - nr) \<in> set (ts ! p)" using that len[OF that(1)] r(2) by auto
    then show ?thesis by auto
  qed
  show "ref ! p ! a < n" if "p < m" "a < length (ref ! p)"
  proof -
    have "ref ! p ! a \<in> set (r @ concat ts)"
      using in_ts[OF that(1) _ that(2)] that el[OF that(1), of a] r(1) by auto
    then show ?thesis unfolding S by simp
  qed
  show "p < m \<Longrightarrow> q < m \<Longrightarrow> a < nr \<Longrightarrow> ref ! p ! a = ref ! q ! a" using el by simp
  show "a = b \<and> (p = q \<or> a < nr)"
    if h: "p < m" "q < m" "a < length (ref ! p)" "b < length (ref ! q)" "ref ! p ! a = ref ! q ! b"
  proof -
    consider "a < nr" "b < nr" | "a < nr" "\<not> b < nr" | "\<not> a < nr" "b < nr" | "\<not> a < nr" "\<not> b < nr" by blast
    then show ?thesis
    proof cases
      case 1
      then show ?thesis using h el D r(1) by (auto simp: nth_eq_iff_index_eq)
    next
      case 2
      have "r ! a \<in> set r" using 2(1) r(1) by simp
      moreover have "ts ! q ! (b - nr) = r ! a" using h(5) el[OF h(1), of a] el[OF h(2), of b] 2 by simp
      ultimately have "r ! a \<in> set r \<inter> set (concat ts)" using in_ts[OF h(2) 2(2) h(4)] by simp
      then show ?thesis using dis by blast
    next
      case 3
      have "r ! b \<in> set r" using 3(2) r(1) by simp
      moreover have "ts ! p ! (a - nr) = r ! b" using h(5) el[OF h(1), of a] el[OF h(2), of b] 3 by simp
      ultimately have "r ! b \<in> set r \<inter> set (concat ts)" using in_ts[OF h(1) 3(1) h(3)] by simp
      then show ?thesis using dis by blast
    next
      case 4
      have "distinct (concat ts)" using D by simp
      from distinct_concat_nth[OF this, of p q "a - nr" "b - nr"] h 4 el len r(2) have "p = q \<and> a - nr = b - nr" by simp
      then show ?thesis using 4 by auto
    qed
  qed
  show "\<exists>p < m. \<exists>a < length (ref ! p). ref ! p ! a = g" if "g < n" "0 < m"
  proof -
    have "g \<in> set r \<or> g \<in> set (concat ts)" using S that(1) by auto
    then show ?thesis
    proof
      assume "g \<in> set r"
      then obtain a where "a < nr" "r ! a = g" using r(1) by (auto simp: in_set_conv_nth)
      then show ?thesis using el[OF that(2), of a] len[OF that(2)] that(2) by (intro exI[of _ 0] conjI exI[of _ a]) auto
    next
      assume "g \<in> set (concat ts)"
      then obtain t where t: "t \<in> set ts" "g \<in> set t" by auto
      from t(1) obtain p where p: "p < m" "ts ! p = t" using r(2) by (auto simp: in_set_conv_nth)
      from t(2) obtain a where "a < length t" "t ! a = g" by (auto simp: in_set_conv_nth)
      then show ?thesis using el[OF p(1), of "nr + a"] len[OF p(1)] p
        by (intro exI[of _ p] conjI exI[of _ "nr + a"]) auto
    qed
  qed
qed

lemma mark_routing_nth:
  assumes "set r \<subseteq> {..<n}" "i < n"
  shows "mark_routing n r ! i \<longleftrightarrow> i \<in> set r"
proof -
  have "length (fold (\<lambda>i fl. fl[i := True]) r fl) = length fl \<and>
      (i < length fl \<longrightarrow> fold (\<lambda>i fl. fl[i := True]) r fl ! i = (i \<in> set r \<or> fl ! i))"
    if "set r \<subseteq> {..<length fl}" for fl :: "bool list"
    using that
  proof (induction r arbitrary: fl)
    case (Cons a r)
    from Cons.IH[of "fl[a := True]"] Cons.prems show ?case by (auto simp: nth_list_update)
  qed simp
  from this[of "replicate n False"] assms show ?thesis by (simp add: mark_routing_def)
qed

lemma build_refunction_ok:
  assumes "mset sh = mset [0..<n]" "nr \<le> n" "1 \<le> m"
  shows "partition_of n m nr (build_refunction rnd sh n m nr)"
proof -
  define r where "r = sort (take nr sh)"
  let ?fl = "mark_routing n r"
  have sh: "length sh = n" "set sh = {0..<n}" "distinct sh"
    using mset_eq_length[OF assms(1)] mset_eq_setD[OF assms(1)] mset_eq_imp_distinct_iff[OF assms(1)] by simp_all
  have "set r \<subseteq> set sh" using set_take_subset[of nr sh] by (simp add: r_def)
  then have r: "length r = nr" "set r \<subseteq> {..<n}" "distinct r" "sorted r"
    using sh assms(2) by (simp_all add: r_def atLeast0LessThan)
  have "\<exists>ts c. fold (assign_step rnd m ?fl) [0..<j] (replicate m r, 0) = (map (\<lambda>t. r @ t) ts, c) \<and> length ts = m \<and>
      mset (concat ts) = mset (filter (\<lambda>i. i \<notin> set r) [0..<j])" if "j \<le> n" for j
    using that
  proof (induction j)
    case 0
    have "replicate m r = map (\<lambda>t. r @ t) (replicate m [])" by simp
    moreover have "concat (replicate m []) = ([] :: nat list)" by simp
    ultimately show ?case by (intro exI[of _ "replicate m []"] exI[of _ 0]) simp
  next
    case (Suc j)
    then obtain ts c where IH: "fold (assign_step rnd m ?fl) [0..<j] (replicate m r, 0) = (map (\<lambda>t. r @ t) ts, c)"
      "length ts = m" "mset (concat ts) = mset (filter (\<lambda>i. i \<notin> set r) [0..<j])" by auto
    have fl: "?fl ! j \<longleftrightarrow> j \<in> set r" using mark_routing_nth[OF r(2), of j] Suc.prems by simp
    have st: "fold (assign_step rnd m ?fl) [0..<Suc j] (replicate m r, 0) = assign_step rnd m ?fl j (map (\<lambda>t. r @ t) ts, c)"
      using IH(1) by simp
    show ?case
    proof (cases "j \<in> set r")
      case True
      then have "assign_step rnd m ?fl j (map (\<lambda>t. r @ t) ts, c) = (map (\<lambda>t. r @ t) ts, c)" by (simp add: assign_step_def fl)
      then show ?thesis unfolding st using IH(2,3) True by (intro exI[of _ ts] exI[of _ c]) simp
    next
      case False
      let ?p = "rnd c mod m"
      have p: "?p < length ts" using assms(3) IH(2) by simp
      have "push_back_at ?p j (map (\<lambda>t. r @ t) ts) = map (\<lambda>t. r @ t) (push_back_at ?p j ts)"
        using p by (simp add: push_back_at_def map_update)
      then have "assign_step rnd m ?fl j (map (\<lambda>t. r @ t) ts, c) = (map (\<lambda>t. r @ t) (push_back_at ?p j ts), c + 1)"
        using False by (simp add: assign_step_def fl)
      moreover have "mset (concat (push_back_at ?p j ts)) = mset (filter (\<lambda>i. i \<notin> set r) [0..<Suc j])"
        using mset_concat_push_back_at[OF p, of j] IH(3) False by simp
      ultimately show ?thesis unfolding st using IH(2)
        by (intro exI[of _ "push_back_at ?p j ts"] exI[of _ "c + 1"]) simp
    qed
  qed
  from this[OF order_refl] obtain ts c where
    f: "fold (assign_step rnd m ?fl) [0..<n] (replicate m r, 0) = (map (\<lambda>t. r @ t) ts, c)" "length ts = m"
      "mset (concat ts) = mset (filter (\<lambda>i. i \<notin> set r) [0..<n])" by blast
  have "set (filter (\<lambda>i. i \<in> set r) [0..<n]) = set r" using r(2) by auto
  then have "mset r = mset (filter (\<lambda>i. i \<in> set r) [0..<n])"
    using set_eq_iff_mset_eq_distinct[OF r(3), of "filter (\<lambda>i. i \<in> set r) [0..<n]"] by simp
  then have "mset (r @ concat ts) = filter_mset (\<lambda>i. i \<in> set r) (mset [0..<n]) + filter_mset (\<lambda>i. i \<notin> set r) (mset [0..<n])"
    using f(3) by (simp only: mset_append mset_filter)
  also have "\<dots> = mset [0..<n]" by (rule multiset_partition[symmetric])
  finally have "mset (r @ concat ts) = mset [0..<n]" .
  moreover have "build_refunction rnd sh n m nr = map (\<lambda>t. r @ t) ts"
    using f(1) by (simp add: build_refunction_def r_def Let_def)
  ultimately show ?thesis unfolding partition_of_def using r f(2) by (intro exI[of _ r] exI[of _ ts] conjI)
qed

section \<open>The reverse mapping\<close>

text \<open>Every global id that occurs is mapped to its first partition and its local id there.\<close>

definition g2l_entry :: "nat list list \<Rightarrow> nat \<Rightarrow> int \<times> int \<Rightarrow> bool" where
  "g2l_entry ref gid e \<longleftrightarrow> (\<exists>p lid. e = (int p, int lid) \<and> p < length ref \<and> lid < length (ref ! p) \<and> ref ! p ! lid = gid \<and>
     (\<forall>q < p. gid \<notin> set (ref ! q)))"

definition g2l_inv :: "nat list list \<Rightarrow> nat \<Rightarrow> nat set \<Rightarrow> (int \<times> int) list \<Rightarrow> bool" where
  "g2l_inv ref n S g2l \<longleftrightarrow> length g2l = n \<and>
     (\<forall>gid < n. if gid \<in> S then g2l_entry ref gid (g2l ! gid) else g2l ! gid = (-1, -1))"

lemma g2l_step_ok:
  assumes "g2l_inv ref n (\<Union> (set ` set (take p ref)) \<union> set (take l (ref ! p))) g2l" "p < length ref" "l < length (ref ! p)"
    "ref ! p ! l < n"
  shows "g2l_inv ref n (\<Union> (set ` set (take p ref)) \<union> set (take (Suc l) (ref ! p))) (g2l_step ref p l g2l)"
proof -
  let ?S = "\<Union> (set ` set (take p ref)) \<union> set (take l (ref ! p))" and ?g = "ref ! p ! l"
  have S': "\<Union> (set ` set (take p ref)) \<union> set (take (Suc l) (ref ! p)) = insert ?g ?S"
    using assms(3) by (simp add: take_Suc_conv_app_nth)
  have len: "length g2l = n" and inv: "\<And>gid. gid < n \<Longrightarrow> if gid \<in> ?S then g2l_entry ref gid (g2l ! gid) else g2l ! gid = (-1, -1)"
    using assms(1) by (simp_all add: g2l_inv_def)
  show ?thesis
  proof (cases "?g \<in> ?S")
    case True
    then have "0 \<le> fst (g2l ! ?g)" using inv[OF assms(4)] by (auto simp: g2l_entry_def)
    then have "g2l_step ref p l g2l = g2l" by (simp add: g2l_step_def Let_def)
    moreover have "insert ?g ?S = ?S" using True by blast
    ultimately show ?thesis using assms(1) unfolding S' by simp
  next
    case False
    then have st: "g2l_step ref p l g2l = g2l[?g := (int p, int l)]" using inv[OF assms(4)] by (simp add: g2l_step_def)
    have "?g \<notin> set (ref ! q)" if "q < p" for q
    proof -
      have "ref ! q \<in> set (take p ref)" using that assms(2) by (auto simp: in_set_conv_nth)
      then show ?thesis using False by blast
    qed
    then have e: "g2l_entry ref ?g (int p, int l)" using assms(2,3) by (auto simp: g2l_entry_def)
    show ?thesis unfolding S' g2l_inv_def st
    proof (intro conjI allI impI)
      fix gid assume "gid < n"
      then show "if gid \<in> insert ?g ?S then g2l_entry ref gid (g2l[?g := (int p, int l)] ! gid)
          else g2l[?g := (int p, int l)] ! gid = (-1, -1)"
        using inv[of gid] e len by (cases "gid = ?g") auto
    qed (simp add: len)
  qed
qed

lemma build_global_to_local_ok:
  assumes "\<forall>p < length ref. \<forall>l < length (ref ! p). ref ! p ! l < n"
  shows "g2l_inv ref n (\<Union> (set ` set ref)) (build_global_to_local ref n (length ref) [])"
proof -
  have inner: "g2l_inv ref n (\<Union> (set ` set (take p ref)) \<union> set (take l (ref ! p))) (fold (g2l_step ref p) [0..<l] g2l)"
    if "g2l_inv ref n (\<Union> (set ` set (take p ref))) g2l" "p < length ref" "l \<le> length (ref ! p)" for p l g2l
    using that(3)
  proof (induction l)
    case (Suc l)
    then show ?case using g2l_step_ok[of ref n p l "fold (g2l_step ref p) [0..<l] g2l"] that(2) assms by simp
  qed (use that in simp)
  have "g2l_inv ref n (\<Union> (set ` set (take j ref)))
      (fold (\<lambda>p g2l. fold (g2l_step ref p) [0..<length (ref ! p)] g2l) [0..<j] (resize n (-1, -1) []))" if "j \<le> length ref" for j
    using that
  proof (induction j)
    case 0
    then show ?case by (simp add: g2l_inv_def resize_def)
  next
    case (Suc j)
    then have "\<Union> (set ` set (take (Suc j) ref)) = \<Union> (set ` set (take j ref)) \<union> set (take (length (ref ! j)) (ref ! j))"
      by (auto simp: take_Suc_conv_app_nth)
    then show ?case using inner[of j _ "length (ref ! j)"] Suc by simp
  qed
  from this[OF order_refl] show ?thesis by (simp add: build_global_to_local_def)
qed

section \<open>The graphs\<close>

text \<open>A partition of \<open>np\<close> vertices, as the search needs it.\<close>

definition part_ok :: "nat \<Rightarrow> nat \<Rightarrow> index_hnsw \<Rightarrow> bool" where
  "part_ok M np part \<longleftrightarrow> built (ih_hnsw part) {..<np} \<and> length (hn_levels (ih_hnsw part)) = np \<and> ih_ntotal part = np \<and>
     seglen (ih_hnsw part) 0 = 2 * M"

lemma build_partition_ok:
  assumes proba: "\<forall>l < L. 1 / 10 ^ 9 \<le> proba l" "proba L < 1 / 10 ^ 9" "1 \<le> L" and "1 \<le> M" "1 \<le> efc"
    and x: "length x = n * dm" "\<forall>gid \<in> set ids. gid < n"
  shows "\<exists>part. build_partition proba draws rnd2 dm M efc x ids = Some (Inr part) \<and> part_ok M (length ids) part"
proof -
  from new_index_ok[OF proba assms(4), of dm METRIC_L2] obtain ix where
    ix: "IndexHNSWFlat proba dm M METRIC_L2 = Some ix" "index_hnsw_ok ix" "ih_ntotal ix = 0" "ih_d ix = dm" by blast
  obtain h where h: "HNSW proba M = Some h" "ih_hnsw ix = h" using ix(1) by (auto simp: IndexHNSWFlat_def)
  have cum: "hn_cum h = 0 # map (\<lambda>j. M * (j + 2)) [0..<L]" by (rule constructed_built(4)[OF proba assms(4) h(1)])
  define ix1 where "ix1 = ix\<lparr> ih_hnsw := h\<lparr> hn_efConstruction := efc \<rparr> \<rparr>"
  have b: "built h {}" "probas_ok h" "hn_levels h = []" using constructed_built[OF proba assms(4) h(1)] by simp_all
  have on: "\<not> on_level (h\<lparr> hn_efConstruction := efc \<rparr>) l v" for l v by (simp add: on_level_def b(3))
  have "linkable (h\<lparr> hn_efConstruction := efc \<rparr>)"
    using b(1) on by (simp add: built_def linkable_def layout_ok_def cum_pos_def links_ok_def)
  then have "built (h\<lparr> hn_efConstruction := efc \<rparr>) {}"
    using b(1) on assms(5) by (simp add: built_def level_ok_def)
  then have ok1: "index_hnsw_ok ix1"
    using ix(2,3) h(2) b(2,3) by (simp add: index_hnsw_ok_def ix1_def probas_ok_def split: option.splits)
  let ?data = "concat (map (\<lambda>gid. row dm gid x) ids)"
  have "length (row dm gid x) = dm" if "gid \<in> set ids" for gid
    using row_bound[of gid n x dm] x that by simp
  then have "length ?data = sum_list (map (\<lambda>gid. dm) ids)"
    by (simp add: length_concat comp_def cong: map_cong)
  then have "length ids * ih_d ix1 \<le> length ?data" using ix(4) by (simp add: ix1_def sum_list_triv)
  from index_hnsw_add_ok[OF ok1 this, of draws rnd2] obtain ix2 where
    a: "index_hnsw_add ix1 (length ids) ?data draws rnd2 = Some (Inr ix2)" "index_hnsw_ok ix2"
      "ih_ntotal ix2 = length ids" "hn_cum (ih_hnsw ix2) = hn_cum h" using ix(3) by (auto simp: ix1_def)
  let ?part = "ix2\<lparr> ih_storage := map_option flat_reset (ih_storage ix2) \<rparr>"
  have "build_partition proba draws rnd2 dm M efc x ids = Some (Inr ?part)"
    using ix(1) h(2) a(1) by (simp add: build_partition_def ix1_def)
  moreover have "part_ok M (length ids) ?part"
  proof -
    have "seglen (ih_hnsw ix2) 0 = 2 * M" using assms(3) by (simp add: seglen_def a(4) cum)
    then show ?thesis using a(2,3) by (simp add: part_ok_def index_hnsw_ok_def)
  qed
  ultimately show ?thesis by blast
qed

section \<open>The index\<close>

definition cspg_ok :: "cspg \<Rightarrow> bool" where
  "cspg_ok cs \<longleftrightarrow> 1 \<le> cs_num_partitions cs \<and>
     partition_of (cs_ntotal cs) (cs_num_partitions cs) (cs_num_routing cs) (cs_refunction cs) \<and>
     (\<exists>f. cs_shared_flat cs = Some f \<and> flat_ok f \<and> fl_d f = cs_d cs \<and> fl_ntotal f = cs_ntotal cs \<and> fl_metric f = METRIC_L2) \<and>
     length (cs_partitions cs) = cs_num_partitions cs \<and>
     (\<forall>p < cs_num_partitions cs. part_ok (cs_M cs) (length (cs_refunction cs ! p)) (cs_partitions cs ! p)) \<and>
     g2l_inv (cs_refunction cs) (cs_ntotal cs) {..<cs_ntotal cs} (cs_global_to_local cs)"

lemma clamp_range:
  fixes r n :: nat
  shows "0 < n \<Longrightarrow> (if n \<le> (if r < 1 then 1 else r) then n - 1 else if r < 1 then 1 else r) < n"
    "2 \<le> n \<Longrightarrow> 1 \<le> (if n \<le> (if r < 1 then 1 else r) then n - 1 else if r < 1 then 1 else r)"
  by auto

lemma compute_num_routing_range:
  "0 < n \<Longrightarrow> compute_num_routing n lam < n" "2 \<le> n \<Longrightarrow> 1 \<le> compute_num_routing n lam"
  unfolding compute_num_routing_def Let_def by (rule clamp_range, assumption)+

lemma cspg_add_ok:
  assumes "cs_ntotal cs = 0" "cs_global_to_local cs = []" "1 \<le> cs_num_partitions cs" "1 \<le> cs_M cs" "1 \<le> cs_efConstruction cs"
    and proba: "\<forall>l < L. 1 / 10 ^ 9 \<le> proba l" "proba L < 1 / 10 ^ 9" "1 \<le> L"
    and "0 < n" "length x = n * cs_d cs" "mset (shuffle [0..<n]) = mset [0..<n]"
  shows "\<exists>cs' f. cspg_add proba draws rnd2 shuffle rnd cs (int n) x = Some (Inr cs') \<and> cspg_ok cs' \<and>
    cs_ntotal cs' = n \<and> cs_num_routing cs' = compute_num_routing n (cs_lambda cs) \<and> cs_shared_flat cs' = Some f \<and>
    (\<forall>g < n. flat_vec f g = row (cs_d cs) g x) \<and> cs_num_partitions cs' = cs_num_partitions cs \<and> cs_d cs' = cs_d cs \<and>
    cs_refunction cs' = build_refunction rnd (shuffle [0..<n]) n (cs_num_partitions cs) (compute_num_routing n (cs_lambda cs)) \<and>
    cs_M cs' = cs_M cs"
proof -
  let ?m = "cs_num_partitions cs"
  define nr where "nr = compute_num_routing n (cs_lambda cs)"
  define ref where "ref = build_refunction rnd (shuffle [0..<n]) n ?m nr"
  define f where "f = flat_add (IndexFlat (cs_d cs) METRIC_L2) n x"
  define build where "build = (\<lambda>p parts. map_option (\<lambda>r. bind_result r (\<lambda>part. Inr (parts @ [part])))
      (build_partition proba draws rnd2 (cs_d cs) (cs_M cs) (cs_efConstruction cs) x (ref ! p)))"
  have "nr \<le> n" using compute_num_routing_range(1)[OF assms(9), of "cs_lambda cs"] by (simp add: nr_def)
  from build_refunction_ok[OF assms(11) this assms(3), of rnd] have P: "partition_of n ?m nr ref" by (simp add: ref_def)
  note PF = partition_of_facts[OF P]
  have ids: "\<forall>gid \<in> set (ref ! p). gid < n" if "p < ?m" for p using PF(3)[OF that] by (auto simp: in_set_conv_nth)
  define Q where "Q = (\<lambda>(zs :: nat list) parts. length parts = length zs \<and> (\<forall>p < length parts. part_ok (cs_M cs) (length (ref ! p)) (parts ! p)))"
  have "\<exists>parts. for_each build [0..<?m] [] = Some (Inr parts) \<and> Q [0..<?m] parts"
  proof (rule for_each_ok)
    show "Q [] []" by (simp add: Q_def)
  next
    fix zs p parts assume Q: "Q zs parts" and us: "\<exists>us. zs @ p # us = [0..<?m]"
    from us obtain us where u: "zs @ p # us = [0..<?m]" by blast
    have "length zs < ?m" using arg_cong[OF u, of length] by simp
    moreover have "p = [0..<?m] ! length zs" using arg_cong[OF u, of "\<lambda>xs. xs ! length zs"] by simp
    ultimately have p: "p = length zs" "p < ?m" by simp_all
    from build_partition_ok[OF proba assms(4,5,10) ids[OF p(2)], of draws rnd2] obtain part where
      "build_partition proba draws rnd2 (cs_d cs) (cs_M cs) (cs_efConstruction cs) x (ref ! p) = Some (Inr part)"
      "part_ok (cs_M cs) (length (ref ! p)) part" by blast
    then show "\<exists>s'. build p parts = Some (Inr s') \<and> Q (zs @ [p]) s'"
      using Q p(1) by (intro exI[of _ "parts @ [part]"]) (auto simp: build_def Q_def nth_append less_Suc_eq)
  qed
  then obtain parts where parts: "for_each build [0..<?m] [] = Some (Inr parts)" "length parts = ?m"
    "\<forall>p < ?m. part_ok (cs_M cs) (length (ref ! p)) (parts ! p)" by (auto simp: Q_def)
  define cs' where "cs' = cs\<lparr> cs_ntotal := n, cs_num_routing := nr, cs_refunction := ref,
    cs_global_to_local := build_global_to_local ref n ?m [], cs_shared_flat := Some f, cs_partitions := parts \<rparr>"
  have add: "cspg_add proba draws rnd2 shuffle rnd cs (int n) x = Some (Inr cs')"
    using assms(1,2,9) parts(1) unfolding cspg_add_def build_def by (simp add: Let_def cs'_def nr_def ref_def f_def)
  have "n * fl_d (IndexFlat (cs_d cs) METRIC_L2) \<le> length x" using assms(10) by (simp add: IndexFlat_def)
  note F = flat_add_ok[OF flat_ok_empty(1) this, folded f_def]
  have vec: "\<forall>g < n. flat_vec f g = row (cs_d cs) g x" using F(6) by (simp add: IndexFlat_def)
  have "\<Union> (set ` set ref) = {..<n}"
  proof
    show "\<Union> (set ` set ref) \<subseteq> {..<n}" using PF(1,3) by (auto simp: in_set_conv_nth)
    show "{..<n} \<subseteq> \<Union> (set ` set ref)"
    proof
      fix g assume "g \<in> {..<n}"
      then obtain p a where "p < ?m" "a < length (ref ! p)" "ref ! p ! a = g" using PF(6)[of g] assms(3) by auto
      then show "g \<in> \<Union> (set ` set ref)" using PF(1) by (auto intro!: bexI[of _ "ref ! p"])
    qed
  qed
  then have "g2l_inv ref n {..<n} (build_global_to_local ref n ?m [])"
    using build_global_to_local_ok[of ref n] PF(1,3) by simp
  then have "cspg_ok cs'"
    using assms(3) P parts F(1-4) by (simp add: cspg_ok_def cs'_def) (simp add: IndexFlat_def)
  then show ?thesis using add vec by (intro exI[of _ cs'] exI[of _ f]) (simp add: cs'_def nr_def ref_def)
qed

end
