(* ===== verification/CspgSearchOk.thy ===== *)
theory CspgSearchOk
  imports CspgSearch CspgOk HnswUnbounded
begin

text \<open>
  Correctness of the second stage of \<open>IndexCSPG::search\<close>: it ends; its results are the nearest of the
  vectors that were evaluated, each at most once although routing vectors occur in every partition; with room
  for all vectors it evaluates everything that can be reached through the graphs and their crossings.
\<close>

section \<open>Encoding\<close>

lemma enc_div_mod:
  assumes "int lid < stride"
  shows "cspg_enc stride p lid div stride = int p" "cspg_enc stride p lid mod stride = int lid"
    "0 \<le> cspg_enc stride p lid"
proof -
  have s: "0 < stride" using assms by linarith
  have e: "cspg_enc stride p lid = int lid + int p * stride" by (simp add: cspg_enc_def)
  show "cspg_enc stride p lid div stride = int p"
    unfolding e using s assms by (simp add: div_mult_self1)
  show "cspg_enc stride p lid mod stride = int lid" unfolding e using s assms by simp
  show "0 \<le> cspg_enc stride p lid" unfolding e using s by simp
qed

lemma stride_bound:
  "p < cs_num_partitions cs \<Longrightarrow> int (ih_ntotal (cs_partitions cs ! p)) \<le> cspg_stride cs"
proof -
  have "\<forall>p < m. int (ih_ntotal (cs_partitions cs ! p)) \<le> fold (\<lambda>p stride. max stride (int (ih_ntotal (cs_partitions cs ! p)))) [0..<m] 0" for m
    by (induction m) (auto simp: less_Suc_eq max.coboundedI1)
  then show "p < cs_num_partitions cs \<Longrightarrow> int (ih_ntotal (cs_partitions cs ! p)) \<le> cspg_stride cs"
    by (simp add: cspg_stride_def)
qed

section \<open>Queues\<close>

interpretation worse: priority "worse :: 'd::linorder \<times> 'e \<Rightarrow> _"
  by unfold_locales (auto simp: worse_def)

text \<open>The results with global ids.\<close>

definition top_gids :: "nat list list \<Rightarrow> ('d \<times> nat \<times> nat) list \<Rightarrow> ('d \<times> nat) list" where
  "top_gids ref top_results = map (\<lambda>(d, p, lid). (d, ref ! p ! lid)) top_results"

lemma top_gids_simps [simp]:
  "length (top_gids ref t) = length t" "top_gids ref t = [] \<longleftrightarrow> t = []"
  "t \<noteq> [] \<Longrightarrow> fst (hd (top_gids ref t)) = fst (hd t)"
  by (auto simp: top_gids_def hd_map case_prod_beta)

lemma top_gids_push:
  "top_gids ref (pq_push worse (d, p, lid) t) = pq_push farther (d, ref ! p ! lid) (top_gids ref t)"
  by (induction t) (auto simp: top_gids_def worse_def farther_def)

lemma try_add_beam:
  assumes "length t \<le> ef" "t \<noteq> []" "length t < ef \<or> d < fst (hd t)"
  shows "top_gids ref (try_add_result ef d p lid t)
    = (let t' = pq_push farther (d, ref ! p ! lid) (top_gids ref t) in if length t' > ef then tl t' else t')"
proof (cases "length t < ef")
  case True
  then show ?thesis by (simp add: try_add_result_def top_gids_push)
next
  case False
  then have full: "length t = ef" "d < fst (hd t)" using assms by auto
  obtain x q where t: "t = x # q" using assms(2) by (cases t) auto
  obtain dx px ax where x: "x = (dx, px, ax)" by (metis prod_cases3)
  have "try_add_result ef d p lid t = pq_push worse (d, p, lid) q"
    using full t by (simp add: try_add_result_def)
  moreover have "pq_push farther (d, ref ! p ! lid) (top_gids ref t) = (dx, ref ! px ! ax) # pq_push farther (d, ref ! p ! lid) (top_gids ref q)"
  proof -
    have "\<not> dx < d" using full(2) by (simp add: t x)
    then show ?thesis by (simp add: t x top_gids_def farther_def)
  qed
  ultimately show ?thesis using full(1) by (simp add: t top_gids_push)
qed

lemma set_try_add: "set (try_add_result ef d p lid t) \<subseteq> insert (d, p, lid) (set t)"
  by (cases t) (auto simp: try_add_result_def)

lemma length_try_add: "t \<noteq> [] \<Longrightarrow> length t \<le> length (try_add_result ef d p lid t)"
  by (cases t) (auto simp: try_add_result_def)

text \<open>A series of pushes into the candidates.\<close>

lemma mm_push_list:
  assumes "mm_inv c" "0 < mm_n c" "\<forall>p \<in> set ps. e p \<noteq> -1"
  shows "mm_inv (fold (\<lambda>p. mm_push (e p) d) ps c) \<and> mm_n (fold (\<lambda>p. mm_push (e p) d) ps c) = mm_n c \<and>
    mm_elems (fold (\<lambda>p. mm_push (e p) d) ps c) \<subseteq># mm_elems c + mset (map (\<lambda>p. (d, e p)) ps) \<and>
    (mm_k c + length ps \<le> mm_n c \<longrightarrow>
      mm_elems (fold (\<lambda>p. mm_push (e p) d) ps c) = mm_elems c + mset (map (\<lambda>p. (d, e p)) ps) \<and>
      mm_k (fold (\<lambda>p. mm_push (e p) d) ps c) = mm_k c + length ps)"
  using assms
proof (induction ps arbitrary: c)
  case (Cons p ps)
  let ?c = "mm_push (e p) d c"
  have p: "e p \<noteq> -1" using Cons.prems(3) by simp
  note P = mm_push_elems[OF Cons.prems(1,2) p, of d]
  have IH: "mm_inv (fold (\<lambda>p. mm_push (e p) d) ps ?c) \<and> mm_n (fold (\<lambda>p. mm_push (e p) d) ps ?c) = mm_n ?c \<and>
    mm_elems (fold (\<lambda>p. mm_push (e p) d) ps ?c) \<subseteq># mm_elems ?c + mset (map (\<lambda>p. (d, e p)) ps) \<and>
    (mm_k ?c + length ps \<le> mm_n ?c \<longrightarrow>
      mm_elems (fold (\<lambda>p. mm_push (e p) d) ps ?c) = mm_elems ?c + mset (map (\<lambda>p. (d, e p)) ps) \<and>
      mm_k (fold (\<lambda>p. mm_push (e p) d) ps ?c) = mm_k ?c + length ps)"
    by (rule Cons.IH[OF P(1)]) (use Cons.prems in simp_all)
  have "mm_elems ?c + mset (map (\<lambda>p. (d, e p)) ps) \<subseteq># mm_elems c + mset (map (\<lambda>p. (d, e p)) (p # ps))"
    using P(2) by (simp add: subset_mset.add_right_mono[of "mm_elems ?c" "add_mset (d, e p) (mm_elems c)"])
  with IH P(3) show ?case by (auto intro: subset_mset.order_trans)
qed simp

text \<open>Marking a vertex in several tables.\<close>

definition marks :: "nat list list \<Rightarrow> vtable list \<Rightarrow> nat \<Rightarrow> nat set" where
  "marks ref vis p = (if p < length vis then visited (length (ref ! p)) (vis ! p) else {})"

definition tables_ok :: "nat list list \<Rightarrow> nat \<Rightarrow> vtable list \<Rightarrow> bool" where
  "tables_ok ref m vis \<longleftrightarrow> length vis = m \<and> (\<forall>p < m. vt_inv (length (ref ! p)) (vis ! p))"

lemma visited_mark:
  "vt_inv n vt \<Longrightarrow> v < n \<Longrightarrow> visited n (fst (vt_mark vt v)) = insert v (visited n vt)"
  using vt.get_mark[of n vt v] by (auto simp: visited_def)

lemma cross_expand_split:
  "cross_expand stride nid dn ps (cand, vis)
    = (fold (\<lambda>p. mm_push (cspg_enc stride p nid) dn) ps cand, fold (\<lambda>p vis. vis[p := fst (vt_mark (vis ! p) nid)]) ps vis)"
  by (induction ps arbitrary: cand vis) (simp_all add: cross_expand_def)

lemma mark_list:
  assumes "tables_ok ref m vis" "set ps \<subseteq> {..<m}" "\<forall>p \<in> set ps. nid < length (ref ! p)"
  shows "tables_ok ref m (fold (\<lambda>p vis. vis[p := fst (vt_mark (vis ! p) nid)]) ps vis) \<and>
    marks ref (fold (\<lambda>p vis. vis[p := fst (vt_mark (vis ! p) nid)]) ps vis)
      = (\<lambda>q. if q \<in> set ps then insert nid (marks ref vis q) else marks ref vis q)"
  using assms
proof (induction ps arbitrary: vis)
  case (Cons p ps)
  let ?v = "vis[p := fst (vt_mark (vis ! p) nid)]"
  have p: "p < m" "p < length vis" "nid < length (ref ! p)" "vt_inv (length (ref ! p)) (vis ! p)"
    using Cons.prems by (auto simp: tables_ok_def)
  have t: "tables_ok ref m ?v"
    using Cons.prems(1) vt.inv_mark[OF p(4,3)] p(1,2) by (auto simp: tables_ok_def nth_list_update)
  have "marks ref ?v = (\<lambda>q. if q = p then insert nid (marks ref vis q) else marks ref vis q)"
    using p visited_mark[OF p(4,3)] by (auto simp: marks_def nth_list_update fun_eq_iff)
  with Cons.IH[OF t] Cons.prems(2,3) show ?case by (auto simp: fun_eq_iff)
qed simp

text \<open>Marking a list of neighbors in one table.\<close>

lemma mark_neighbors:
  assumes "tables_ok ref m vis" "cur < m" "set vs \<subseteq> {..<length (ref ! cur)}"
  defines "vis' \<equiv> vis[cur := fold (\<lambda>v vt. fst (vt_mark vt v)) vs (vis ! cur)]"
  shows "tables_ok ref m vis'" "marks ref vis' = (\<lambda>q. if q = cur then marks ref vis q \<union> set vs else marks ref vis q)"
    "distinct (unseen vt_mark vs (vis ! cur))" "set (unseen vt_mark vs (vis ! cur)) = set vs - marks ref vis cur"
proof -
  have c: "cur < length vis" "vt_inv (length (ref ! cur)) (vis ! cur)" using assms(1,2) by (auto simp: tables_ok_def)
  note V = visited_marks[OF c(2) assms(3)]
  show "tables_ok ref m vis'" using assms(1) V(1) c by (auto simp: tables_ok_def vis'_def nth_list_update)
  show "marks ref vis' = (\<lambda>q. if q = cur then marks ref vis q \<union> set vs else marks ref vis q)"
    using V(2) c by (auto simp: marks_def vis'_def nth_list_update fun_eq_iff)
  show "distinct (unseen vt_mark vs (vis ! cur))" by (rule V(3))
  show "set (unseen vt_mark vs (vis ! cur)) = set vs - marks ref vis cur" using V(4) c by (simp add: marks_def)
qed

lemma marks_bound: "marks ref vis p \<subseteq> {..<length (ref ! p)}"
  by (auto simp: marks_def visited_def)

lemma finite_marks [simp]: "finite (marks ref vis p)"
  by (simp add: marks_def)

end
