(* ===== verification/CspgStage2.thy ===== *)
theory CspgStage2
  imports CspgSearchOk
begin

text \<open>
  The invariant of the second stage of the search, without the visited tables: \<open>D p\<close> are the local ids of
  partition \<open>p\<close> that have been evaluated or have got the distance of a copy, \<open>Mk p\<close> the marked ones.
\<close>

section \<open>The invariant\<close>

definition gids :: "nat list list \<Rightarrow> nat \<Rightarrow> (nat \<Rightarrow> nat set) \<Rightarrow> nat set" where
  "gids ref m D = (\<Union>p < m. (\<lambda>a. ref ! p ! a) ` D p)"

text \<open>A pair of partition and local id with its distance, as an entry of the candidates.\<close>

definition cand_of :: "nat list list \<Rightarrow> int \<Rightarrow> (nat \<Rightarrow> 'd) \<Rightarrow> nat \<Rightarrow> nat \<Rightarrow> 'd \<times> int" where
  "cand_of ref stride gd p a = (gd (ref ! p ! a), cspg_enc stride p a)"

text \<open>The results are the \<open>ef\<close> nearest of the evaluated vectors; a routing vector of which only some copies
  are in \<open>D\<close> has been rejected.\<close>

definition xres :: "nat list list \<Rightarrow> nat \<Rightarrow> nat \<Rightarrow> nat \<Rightarrow> (nat \<Rightarrow> 'd::linorder) \<Rightarrow> (nat \<Rightarrow> nat set) \<Rightarrow> ('d \<times> nat \<times> nat) list \<Rightarrow> bool" where
  "xres ref m nr ef gd D t \<longleftrightarrow> gids ref m D \<noteq> {} \<and> best_of farther ef (npairs gd (gids ref m D)) (top_gids ref t) \<and>
     (\<forall>(d, p, a) \<in> set t. p < m \<and> a < length (ref ! p) \<and> d = gd (ref ! p ! a)) \<and>
     (\<forall>p < m. \<forall>q < m. \<forall>a < nr. a \<in> D p \<longrightarrow> a \<notin> D q \<longrightarrow> ef \<le> length t \<and> fst (hd t) \<le> gd (ref ! p ! a))"

definition xcand :: "nat list list \<Rightarrow> nat \<Rightarrow> nat \<Rightarrow> int \<Rightarrow> (nat \<Rightarrow> 'd::linorder) \<Rightarrow> (nat \<Rightarrow> nat set) \<Rightarrow> 'd minimax \<Rightarrow> bool" where
  "xcand ref m ef stride gd D cand \<longleftrightarrow> mm_inv cand \<and> mm_n cand = ef * m \<and>
     (\<forall>e \<in># mm_elems cand. \<exists>p < m. \<exists>a \<in> D p. e = cand_of ref stride gd p a)"

text \<open>With room for all vectors nothing is rejected, and what has been evaluated is waiting or has its
  neighbors marked.\<close>

definition xall ::
  "(nat \<Rightarrow> nat \<Rightarrow> nat list) \<Rightarrow> nat list list \<Rightarrow> nat \<Rightarrow> nat \<Rightarrow> int \<Rightarrow> (nat \<Rightarrow> 'd::linorder) \<Rightarrow> (nat \<Rightarrow> nat set) \<Rightarrow>
   (nat \<Rightarrow> nat set) \<Rightarrow> 'd minimax \<Rightarrow> bool" where
  "xall N ref m nr stride gd D Mk cand \<longleftrightarrow> mm_k cand \<le> m * card (gids ref m D) \<and>
     (\<forall>p < m. \<forall>a \<in> D p. a < nr \<longrightarrow> (\<forall>q < m. a \<in> D q)) \<and>
     (\<forall>p < m. \<forall>a \<in> D p. set (N p a) \<subseteq> Mk p \<or> cand_of ref stride gd p a \<in># mm_elems cand)"

section \<open>Evaluated vectors\<close>

text \<open>\<open>D\<close> is within the partitions.\<close>

definition in_parts :: "nat list list \<Rightarrow> nat \<Rightarrow> (nat \<Rightarrow> nat set) \<Rightarrow> bool" where
  "in_parts ref m D \<longleftrightarrow> (\<forall>p < m. D p \<subseteq> {..<length (ref ! p)})"

lemma gids_bound:
  assumes "partition_of n m nr ref" "in_parts ref m D"
  shows "gids ref m D \<subseteq> {..<n}" "finite (gids ref m D)" "card (gids ref m D) \<le> n"
proof -
  show s: "gids ref m D \<subseteq> {..<n}"
    using partition_of_facts(3)[OF assms(1)] assms(2) by (fastforce simp: gids_def in_parts_def)
  then show "finite (gids ref m D)" by (rule finite_subset) simp
  show "card (gids ref m D) \<le> n" using card_mono[OF _ s] by simp
qed

text \<open>The global id of a new vertex is new unless it is a routing vector with a copy in \<open>D\<close>.\<close>

lemma gid_old:
  assumes "partition_of n m nr ref" "in_parts ref m D" "cur < m" "u < length (ref ! cur)" "u \<notin> D cur"
    "ref ! cur ! u \<in> gids ref m D"
  shows "u < nr \<and> (\<exists>q < m. u \<in> D q)"
proof -
  from assms(6) obtain q b where q: "q < m" "b \<in> D q" "ref ! cur ! u = ref ! q ! b" by (auto simp: gids_def)
  then have "b < length (ref ! q)" using assms(2) by (auto simp: in_parts_def)
  with partition_of_facts(5)[OF assms(1,3) q(1) assms(4) _ q(3)] have "u = b \<and> (cur = q \<or> u < nr)" by blast
  then show ?thesis using q assms(5) by auto
qed

lemma gids_add:
  assumes "partition_of n m nr ref" "cur < m" "S \<subseteq> {..<m}" "cur \<in> S" "S = {cur} \<or> u < nr"
  shows "gids ref m (\<lambda>q. if q \<in> S then insert u (D q) else D q) = insert (ref ! cur ! u) (gids ref m D)"
proof -
  have eq: "ref ! q ! u = ref ! cur ! u" if "q \<in> S" for q
    using that assms(5) partition_of_facts(4)[OF assms(1) _ assms(2), of q u] assms(3) by (cases "q = cur") auto
  show ?thesis
  proof
    show "gids ref m (\<lambda>q. if q \<in> S then insert u (D q) else D q) \<subseteq> insert (ref ! cur ! u) (gids ref m D)"
    proof
      fix g assume "g \<in> gids ref m (\<lambda>q. if q \<in> S then insert u (D q) else D q)"
      then obtain q a where q: "q < m" "g = ref ! q ! a" "a \<in> (if q \<in> S then insert u (D q) else D q)" by (auto simp: gids_def)
      show "g \<in> insert (ref ! cur ! u) (gids ref m D)"
      proof (cases "a \<in> D q")
        case False
        then have "a = u" "q \<in> S" using q(3) by (auto split: if_splits)
        then show ?thesis using eq q(2) by simp
      qed (use q in \<open>auto simp: gids_def\<close>)
    qed
    show "insert (ref ! cur ! u) (gids ref m D) \<subseteq> gids ref m (\<lambda>q. if q \<in> S then insert u (D q) else D q)"
      using assms(2,4) by (auto simp: gids_def)
  qed
qed

section \<open>Processing a neighbor\<close>

lemma top_max:
  assumes "best_of farther ef A (top_gids ref t)" "e \<in> set t"
  shows "fst e \<le> fst (hd t)"
proof -
  have ne: "t \<noteq> []" using assms(2) by auto
  then have "top_gids ref t \<noteq> []" by simp
  moreover obtain d p a where e: "e = (d, p, a)" by (metis prod_cases3)
  then have "(d, ref ! p ! a) \<in> set (top_gids ref t)" using assms(2) by (force simp: top_gids_def)
  ultimately have "d \<le> fst (hd (top_gids ref t))" using bydist.tc_farthest[OF assms(1)] by fastforce
  then show ?thesis using ne e by simp
qed

text \<open>A neighbor that is too far.\<close>

lemma xres_reject:
  assumes P: "partition_of n m nr ref" and W: "in_parts ref m D" and u: "cur < m" "u < length (ref ! cur)" "u \<notin> D cur"
    and X: "xres ref m nr ef gd D t" and ef: "1 \<le> ef" and rej: "ef \<le> length t" "fst (hd t) \<le> gd (ref ! cur ! u)"
  shows "xres ref m nr ef gd (D(cur := insert u (D cur))) t"
proof -
  let ?D = "\<lambda>q. if q \<in> {cur} then insert u (D q) else D q" and ?g = "ref ! cur ! u" and ?E = "gids ref m D"
  have D': "D(cur := insert u (D cur)) = ?D" by (auto simp: fun_eq_iff)
  have E': "gids ref m ?D = insert ?g ?E" by (rule gids_add[OF P u(1)]) (use u(1) in auto)
  from X have I: "?E \<noteq> {}" "best_of farther ef (npairs gd ?E) (top_gids ref t)"
    "\<forall>(d, p, a) \<in> set t. p < m \<and> a < length (ref ! p) \<and> d = gd (ref ! p ! a)"
    "\<forall>p < m. \<forall>q < m. \<forall>a < nr. a \<in> D p \<longrightarrow> a \<notin> D q \<longrightarrow> ef \<le> length t \<and> fst (hd t) \<le> gd (ref ! p ! a)"
    by (simp_all add: xres_def)
  have ne: "t \<noteq> []" using rej(1) ef by auto
  have "best_of farther ef (npairs gd (insert ?g ?E)) (top_gids ref t)"
  proof (cases "?g \<in> ?E")
    case False
    have "best_of farther ef (add_mset (gd ?g, ?g) (npairs gd ?E)) (top_gids ref t)"
      by (rule bydist.best_of_skip[OF I(2)]) (use rej ne in \<open>simp_all add: not_less\<close>)
    then show ?thesis using npairs_insert[OF gids_bound(2)[OF P W] False, of gd] by simp
  qed (use I(2) in \<open>simp add: insert_absorb\<close>)
  moreover have "ef \<le> length t \<and> fst (hd t) \<le> gd (ref ! p ! a)"
    if "p < m" "q < m" "a < nr" "a \<in> ?D p" "a \<notin> ?D q" for p q a
  proof (cases "a = u \<and> p = cur")
    case False
    then show ?thesis using I(4) that by (auto split: if_splits)
  qed (use rej in simp)
  ultimately show ?thesis unfolding D' xres_def E' using I(3) by blast
qed

lemma no_reject:
  assumes P: "partition_of n m nr ref" and W: "in_parts ref m D" and u: "cur < m" "u < length (ref ! cur)" "u \<notin> D cur"
    and X: "xres ref m nr ef gd D t" and A: "xall N ref m nr stride gd D Mk cand" "n \<le> ef"
  shows "length t < ef"
proof -
  let ?g = "ref ! cur ! u" and ?E = "gids ref m D"
  have "?g \<notin> ?E"
  proof
    assume "?g \<in> ?E"
    from gid_old[OF P W u this] obtain q where q: "u < nr" "q < m" "u \<in> D q" by blast
    have "\<forall>p < m. \<forall>a \<in> D p. a < nr \<longrightarrow> (\<forall>q < m. a \<in> D q)" using A(1) unfolding xall_def by blast
    then show False using q u by blast
  qed
  moreover have "?g < n" using partition_of_facts(3)[OF P u(1,2)] .
  ultimately have "?E \<subset> {..<n}" using gids_bound(1)[OF P W] by auto
  then have "card ?E < n" using psubset_card_mono[of "{..<n}" ?E] by simp
  moreover have "length t = min ef (card ?E)" using X by (simp add: xres_def best_of_def size_npairs)
  ultimately show ?thesis using A(2) by simp
qed

text \<open>A neighbor that is taken into the results, with its copies \<open>S\<close>.\<close>

lemma xres_accept:
  assumes P: "partition_of n m nr ref" and W: "in_parts ref m D" and u: "cur < m" "u < length (ref ! cur)" "u \<notin> D cur"
    and X: "xres ref m nr ef gd D t" and ef: "1 \<le> ef"
    and acc: "\<not> (ef \<le> length t \<and> fst (hd t) \<le> gd (ref ! cur ! u))"
    and S: "S = (if u < nr then {..<m} else {cur})"
  shows "xres ref m nr ef gd (\<lambda>q. if q \<in> S then insert u (D q) else D q) (try_add_result ef (gd (ref ! cur ! u)) cur u t)"
    "ref ! cur ! u \<notin> gids ref m D"
proof -
  let ?D = "\<lambda>q. if q \<in> S then insert u (D q) else D q" and ?g = "ref ! cur ! u" and ?E = "gids ref m D"
  let ?t = "try_add_result ef (gd ?g) cur u t"
  have S': "S \<subseteq> {..<m}" "cur \<in> S" "S = {cur} \<or> u < nr" using S u(1) by auto
  have E': "gids ref m ?D = insert ?g ?E" by (rule gids_add[OF P u(1) S'])
  from X have I: "?E \<noteq> {}" "best_of farther ef (npairs gd ?E) (top_gids ref t)"
    "\<forall>(d, p, a) \<in> set t. p < m \<and> a < length (ref ! p) \<and> d = gd (ref ! p ! a)"
    "\<forall>p < m. \<forall>q < m. \<forall>a < nr. a \<in> D p \<longrightarrow> a \<notin> D q \<longrightarrow> ef \<le> length t \<and> fst (hd t) \<le> gd (ref ! p ! a)"
    by (simp_all add: xres_def)
  show new: "?g \<notin> ?E"
  proof
    assume "?g \<in> ?E"
    from gid_old[OF P W u this] obtain q where q: "u < nr" "q < m" "u \<in> D q" by blast
    moreover have "ref ! q ! u = ?g" using partition_of_facts(4)[OF P q(2) u(1) q(1)] .
    moreover have "ef \<le> length t \<and> fst (hd t) \<le> gd (ref ! q ! u)" using I(4) q u by blast
    ultimately show False using acc by simp
  qed
  have ne: "top_gids ref t \<noteq> []"
    by (rule best_of_nonempty[OF I(2) ef]) (use I(1) gids_bound(2)[OF P W] in \<open>simp add: npairs_def mset_set_empty_iff\<close>)
  then have ne': "t \<noteq> []" by auto
  have len: "length t \<le> ef" using I(2) by (simp add: best_of_def)
  have acc': "length t < ef \<or> gd ?g < fst (hd t)" using acc by auto
  have acc2: "fst (hd (top_gids ref t)) > gd ?g \<or> length (top_gids ref t) < ef" using acc' ne' by auto
  have "top_gids ref ?t = (let t' = pq_push farther (gd ?g, ?g) (top_gids ref t) in if length t' > ef then tl t' else t')"
    by (rule try_add_beam[OF len ne' acc'])
  then have b: "best_of farther ef (npairs gd (insert ?g ?E)) (top_gids ref ?t)"
    using bydist.best_of_push[OF I(2) acc2 ef ne, of ?g] npairs_insert[OF gids_bound(2)[OF P W] new, of gd]
    by (simp add: Let_def)
  have sub: "set ?t \<subseteq> insert (gd ?g, cur, u) (set t)" by (rule set_try_add)
  then have els: "\<forall>(d, p, a) \<in> set ?t. p < m \<and> a < length (ref ! p) \<and> d = gd (ref ! p ! a)" using I(3) u by fastforce
  have mono: "ef \<le> length ?t \<and> fst (hd ?t) \<le> x" if "ef \<le> length t" "fst (hd t) \<le> x" for x
  proof -
    have l: "ef \<le> length ?t" using length_try_add[OF ne'] that(1) by (rule order_trans[rotated])
    then have "?t \<noteq> []" using ef by auto
    then have "hd ?t \<in> insert (gd ?g, cur, u) (set t)" using sub hd_in_set by blast
    moreover have "gd ?g \<le> fst (hd t)" using acc' that(1) by auto
    ultimately have "fst (hd ?t) \<le> fst (hd t)" using top_max[OF I(2), of "hd ?t"] by (elim insertE) simp_all
    then show ?thesis using l that(2) by simp
  qed
  have "ef \<le> length ?t \<and> fst (hd ?t) \<le> gd (ref ! p ! a)"
    if "p < m" "q < m" "a < nr" "a \<in> ?D p" "a \<notin> ?D q" for p q a
  proof -
    have "a \<noteq> u" using that S by auto
    then have "a \<in> D p" "a \<notin> D q" using that(4,5) by (auto split: if_splits)
    then show ?thesis using I(4) that(1-3) mono by blast
  qed
  then show "xres ref m nr ef gd ?D ?t" unfolding xres_def E' using b els by blast
qed

lemma cand_of_copy:
  assumes "partition_of n m nr ref" "cur < m" "q < m" "q = cur \<or> u < nr"
  shows "cand_of ref stride gd q u = (gd (ref ! cur ! u), cspg_enc stride q u)"
  using partition_of_facts(4)[OF assms(1,3,2), of u] assms(4) by (auto simp: cand_of_def)

lemma xcand_accept:
  assumes P: "partition_of n m nr ref" and u: "cur < m" "0 < m" "1 \<le> ef" "0 \<le> stride"
    and C: "xcand ref m ef stride gd D cand" and ps: "distinct ps" "set ps = S" "S \<subseteq> {..<m}" "S = {cur} \<or> u < nr"
  defines "cand' \<equiv> fold (\<lambda>p. mm_push (cspg_enc stride p u) (gd (ref ! cur ! u))) ps cand"
  shows "xcand ref m ef stride gd (\<lambda>q. if q \<in> S then insert u (D q) else D q) cand'"
    "size (mm_elems cand') \<le> size (mm_elems cand) + length ps"
    "mm_k cand + length ps \<le> ef * m \<Longrightarrow> mm_k cand' = mm_k cand + length ps \<and>
      mm_elems cand' = mm_elems cand + mset (map (\<lambda>p. cand_of ref stride gd p u) ps)"
proof -
  let ?d = "gd (ref ! cur ! u)"
  from C have I: "mm_inv cand" "mm_n cand = ef * m" "\<forall>e \<in># mm_elems cand. \<exists>p < m. \<exists>a \<in> D p. e = cand_of ref stride gd p a"
    by (simp_all add: xcand_def)
  have copy: "cand_of ref stride gd q u = (?d, cspg_enc stride q u)" if "q \<in> S" for q
    by (rule cand_of_copy[OF P u(1)]) (use that ps in auto)
  then have new: "map (\<lambda>p. (?d, cspg_enc stride p u)) ps = map (\<lambda>p. cand_of ref stride gd p u) ps" using ps(2) by simp
  have pos: "0 < mm_n cand" using I(2) u by simp
  have "cspg_enc stride p u \<noteq> -1" for p
  proof -
    have "0 \<le> cspg_enc stride p u" using u(4) by (simp add: cspg_enc_def)
    then show ?thesis by simp
  qed
  then have "\<forall>p \<in> set ps. cspg_enc stride p u \<noteq> -1" by blast
  from mm_push_list[OF I(1) pos this, of ?d] have M: "mm_inv cand'" "mm_n cand' = mm_n cand"
    "mm_elems cand' \<subseteq># mm_elems cand + mset (map (\<lambda>p. cand_of ref stride gd p u) ps)"
    "mm_k cand + length ps \<le> mm_n cand \<longrightarrow>
      mm_elems cand' = mm_elems cand + mset (map (\<lambda>p. cand_of ref stride gd p u) ps) \<and> mm_k cand' = mm_k cand + length ps"
    unfolding new cand'_def by blast+
  show "mm_k cand + length ps \<le> ef * m \<Longrightarrow> mm_k cand' = mm_k cand + length ps \<and>
      mm_elems cand' = mm_elems cand + mset (map (\<lambda>p. cand_of ref stride gd p u) ps)" using M(4) I(2) by simp
  show "size (mm_elems cand') \<le> size (mm_elems cand) + length ps" using size_mset_mono[OF M(3)] by simp
  have "\<exists>p < m. \<exists>a \<in> (if p \<in> S then insert u (D p) else D p). e = cand_of ref stride gd p a" if "e \<in># mm_elems cand'" for e
  proof -
    from mset_subset_eqD[OF M(3) that] have "e \<in># mm_elems cand \<or> (\<exists>p \<in> S. e = cand_of ref stride gd p u)"
      using ps(2) by auto
    then show ?thesis
    proof
      assume "e \<in># mm_elems cand"
      then obtain p a where "p < m" "a \<in> D p" "e = cand_of ref stride gd p a" using I(3) by blast
      then show ?thesis by (intro exI[of _ p] conjI bexI[of _ a]) auto
    next
      assume "\<exists>p \<in> S. e = cand_of ref stride gd p u"
      then obtain p where "p \<in> S" "e = cand_of ref stride gd p u" by blast
      then show ?thesis using ps(3) by (intro exI[of _ p] conjI bexI[of _ u]) auto
    qed
  qed
  then show "xcand ref m ef stride gd (\<lambda>q. if q \<in> S then insert u (D q) else D q) cand'"
    using M(1,2) I(2) by (simp add: xcand_def)
qed

lemma xall_accept:
  assumes P: "partition_of n m nr ref" and W: "in_parts ref m D" and u: "cur < m" "u < length (ref ! cur)"
    "ref ! cur ! u \<notin> gids ref m D" "1 \<le> ef" "0 \<le> stride"
    and C: "xcand ref m ef stride gd D cand" and A: "xall N ref m nr stride gd D Mk cand" "n \<le> ef"
    and ps: "distinct ps" "set ps = S" "S = (if u < nr then {..<m} else {cur})" and Mk: "\<forall>p < m. Mk p \<subseteq> Mk' p"
  shows "xall N ref m nr stride gd (\<lambda>q. if q \<in> S then insert u (D q) else D q) Mk'
    (fold (\<lambda>p. mm_push (cspg_enc stride p u) (gd (ref ! cur ! u))) ps cand)"
proof -
  let ?D = "\<lambda>q. if q \<in> S then insert u (D q) else D q" and ?g = "ref ! cur ! u" and ?E = "gids ref m D"
  let ?c = "fold (\<lambda>p. mm_push (cspg_enc stride p u) (gd ?g)) ps cand"
  have S: "S \<subseteq> {..<m}" "cur \<in> S" "S = {cur} \<or> u < nr" using ps(3) u(1) by auto
  have E': "gids ref m ?D = insert ?g ?E" by (rule gids_add[OF P u(1) S])
  then have card: "card (gids ref m ?D) = card ?E + 1" using u(3) gids_bound(2)[OF P W] by simp
  from A have I: "mm_k cand \<le> m * card ?E" "\<forall>p < m. \<forall>a \<in> D p. a < nr \<longrightarrow> (\<forall>q < m. a \<in> D q)"
    "\<forall>p < m. \<forall>a \<in> D p. set (N p a) \<subseteq> Mk p \<or> cand_of ref stride gd p a \<in># mm_elems cand" by (simp_all add: xall_def)
  have "?g < n" using partition_of_facts(3)[OF P u(1,2)] .
  then have "card (insert ?g ?E) \<le> n"
    using card_mono[of "{..<n}" "insert ?g ?E"] gids_bound(1)[OF P W] by simp
  then have ef: "card ?E + 1 \<le> ef" using card E' A(2) by simp
  have len: "length ps \<le> m" using distinct_card[OF ps(1)] card_mono[OF _ S(1)] ps(2) by simp
  have "mm_k cand + length ps \<le> m * (card ?E + 1)" using I(1) len by simp
  also have "\<dots> \<le> m * ef" using ef by (rule mult_le_mono2)
  also have "\<dots> = ef * m" by (rule mult.commute)
  finally have room: "mm_k cand + length ps \<le> ef * m" .
  have "0 < m" using u(1) by simp
  from xcand_accept(3)[OF P u(1) this u(4,5) C ps(1,2) S(1,3) room] have
    K: "mm_k ?c = mm_k cand + length ps" "mm_elems ?c = mm_elems cand + mset (map (\<lambda>p. cand_of ref stride gd p u) ps)" by auto
  have "mm_k ?c \<le> m * card (gids ref m ?D)" using K(1) I(1) len unfolding card by simp
  moreover have "\<forall>q < m. a \<in> ?D q" if "p < m" "a \<in> ?D p" "a < nr" for p a
  proof (cases "a = u")
    case True
    then show ?thesis using that(3) ps(3) by simp
  next
    case False
    then have "a \<in> D p" using that(2) by (auto split: if_splits)
    then have "\<forall>q < m. a \<in> D q" using I(2) that by blast
    then show ?thesis by simp
  qed
  moreover have "set (N p a) \<subseteq> Mk' p \<or> cand_of ref stride gd p a \<in># mm_elems ?c" if "p < m" "a \<in> ?D p" for p a
  proof (cases "a \<in> D p")
    case True
    then have "set (N p a) \<subseteq> Mk p \<or> cand_of ref stride gd p a \<in># mm_elems cand" using I(3) that(1) by blast
    then show ?thesis using Mk that(1) K(2) by auto
  next
    case False
    then have "a = u" "p \<in> S" using that(2) by (auto split: if_splits)
    then show ?thesis using K(2) ps(2) by simp
  qed
  ultimately show ?thesis unfolding xall_def by blast
qed

end
