(* ===== verification/CspgSearchRun.thy ===== *)
theory CspgSearchRun
  imports CspgStage2
begin

text \<open>
  The second stage of the search on its visited tables: processing a neighbor, one iteration, the loop.
\<close>

section \<open>The invariant\<close>

text \<open>The marked vertices, without the pending ones \<open>us\<close> of partition \<open>cur\<close>.\<close>

definition evald :: "nat list list \<Rightarrow> nat \<Rightarrow> nat list \<Rightarrow> vtable list \<Rightarrow> nat \<Rightarrow> nat set" where
  "evald ref cur us vis p = marks ref vis p - (if p = cur then set us else {})"

lemma evald_in_parts: "in_parts ref m (evald ref cur us vis)"
  using marks_bound by (fastforce simp: in_parts_def evald_def)

lemma evald_Nil [simp]: "evald ref cur [] vis = marks ref vis"
  by (auto simp: evald_def fun_eq_iff)

definition xinv ::
  "(nat \<Rightarrow> nat \<Rightarrow> nat list) \<Rightarrow> nat list list \<Rightarrow> nat \<Rightarrow> nat \<Rightarrow> nat \<Rightarrow> nat \<Rightarrow> int \<Rightarrow> (nat \<Rightarrow> 'd::linorder) \<Rightarrow> bool \<Rightarrow> nat \<Rightarrow>
   nat \<Rightarrow> nat list \<Rightarrow> ('d \<times> nat \<times> nat) list \<times> 'd minimax \<times> vtable list \<Rightarrow> bool" where
  "xinv N ref n m nr ef stride gd exh s0 cur us s \<longleftrightarrow> (case s of (t, cand, vis) \<Rightarrow>
     tables_ok ref m vis \<and> s0 \<in> evald ref cur us vis 0 \<and> xres ref m nr ef gd (evald ref cur us vis) t \<and>
     xcand ref m ef stride gd (evald ref cur us vis) cand \<and>
     (exh \<longrightarrow> n \<le> ef \<and> xall N ref m nr stride gd (evald ref cur us vis) (marks ref vis) cand))"

section \<open>A neighbor\<close>

lemma evald_pop:
  assumes "u \<in> marks ref vis cur" "u \<notin> set us"
  shows "evald ref cur us vis = (evald ref cur (u # us) vis)(cur := insert u (evald ref cur (u # us) vis cur))"
  using assms by (auto simp: evald_def fun_eq_iff)

lemma process_ok:
  fixes gd :: "nat \<Rightarrow> 'd::linorder"
  assumes P: "partition_of n m nr ref" and ef: "1 \<le> ef" "0 \<le> stride" and cur: "cur < m"
    and us: "distinct (u # us)" "set (u # us) \<subseteq> marks ref vis cur"
    and inv: "xinv N ref n m nr ef stride gd exh s0 cur (u # us) (t, cand, vis)"
    and p: "process_neighbor stride m nr ef cur (remapped_dis gd (ref ! cur)) u (t, cand, vis) = (t', cand', vis')"
  shows "xinv N ref n m nr ef stride gd exh s0 cur us (t', cand', vis')"
    "size (mm_elems cand') \<le> size (mm_elems cand) + m" "\<forall>q. marks ref vis q \<subseteq> marks ref vis' q"
proof -
  let ?D = "evald ref cur (u # us) vis" and ?g = "ref ! cur ! u"
  note W = evald_in_parts[of ref m cur "u # us" vis]
  have u: "u \<in> marks ref vis cur" "u \<notin> set us" using us by auto
  have ul: "u < length (ref ! cur)" using u(1) marks_bound by blast
  have uD: "u \<notin> ?D cur" by (simp add: evald_def)
  from inv have I: "tables_ok ref m vis" "s0 \<in> ?D 0" "xres ref m nr ef gd ?D t" "xcand ref m ef stride gd ?D cand"
    "exh \<longrightarrow> n \<le> ef \<and> xall N ref m nr stride gd ?D (marks ref vis) cand" by (simp_all add: xinv_def)
  have dis: "remapped_dis gd (ref ! cur) u = gd ?g" by (simp add: remapped_dis_def)
  have "xinv N ref n m nr ef stride gd exh s0 cur us (t', cand', vis') \<and>
    size (mm_elems cand') \<le> size (mm_elems cand) + m \<and> (\<forall>q. marks ref vis q \<subseteq> marks ref vis' q)"
  proof (cases "ef \<le> length t \<and> fst (hd t) \<le> gd ?g")
    case True
    then have s: "t' = t" "cand' = cand" "vis' = vis" using p by (simp_all add: process_neighbor_def dis)
    have ne: "\<not> exh" using no_reject[OF P W cur ul uD I(3), of N stride "marks ref vis" cand] I(5) True by auto
    have D': "evald ref cur us vis = ?D(cur := insert u (?D cur))" by (rule evald_pop[OF u])
    have r: "xres ref m nr ef gd (evald ref cur us vis) t"
      unfolding D' by (rule xres_reject[OF P W cur ul uD I(3) ef(1)]) (use True in simp_all)
    have sub: "?D q \<subseteq> evald ref cur us vis q" for q by (auto simp: evald_def)
    then have "xcand ref m ef stride gd (evald ref cur us vis) cand" using I(4) unfolding xcand_def by blast
    then show ?thesis using I(1,2) r ne sub[of 0] by (auto simp: xinv_def s)
  next
    case False
    define S where "S = (if u < nr then {..<m} else {cur})"
    define ps where "ps = (if u < nr then filter (\<lambda>p. p \<noteq> cur) [0..<m] else [])"
    let ?ps = "cur # ps" and ?D' = "\<lambda>q. if q \<in> S then insert u (?D q) else ?D q"
    have ps: "distinct ?ps" "set ?ps = S" "cur \<notin> set ps" "length ?ps \<le> m"
    proof -
      show d: "distinct ?ps" and S: "set ?ps = S" "cur \<notin> set ps" using cur by (auto simp: ps_def S_def)
      have "card (set ?ps) \<le> card {..<m}" unfolding S by (intro card_mono) (use cur in \<open>auto simp: S_def\<close>)
      then show "length ?ps \<le> m" using distinct_card[OF d] by simp
    qed
    have p': "t' = try_add_result ef (gd ?g) cur u t"
      "cand' = fold (\<lambda>p. mm_push (cspg_enc stride p u) (gd ?g)) ?ps cand"
      "vis' = fold (\<lambda>p vis. vis[p := fst (vt_mark (vis ! p) u)]) ps vis"
      using p False unfolding process_neighbor_def Let_def dis
      by (auto simp: ps_def cross_expand_split split: if_splits)
    have bound: "set ps \<subseteq> {..<m}" "\<forall>p \<in> set ps. u < length (ref ! p)"
      using partition_of_facts(2)[OF P] by (fastforce simp: ps_def)+
    note V = mark_list[OF I(1) bound, folded p'(3)]
    have D': "evald ref cur us vis' = ?D'"
      using V ps(2,3) u by (auto simp: evald_def fun_eq_iff)
    note R = xres_accept[OF P W cur ul uD I(3) ef(1) False S_def]
    have S: "S \<subseteq> {..<m}" "S = {cur} \<or> u < nr" "0 < m" using cur by (auto simp: S_def)
    note C = xcand_accept[OF P cur S(3) ef I(4) ps(1,2) S(1,2), folded p'(2)]
    have mono: "marks ref vis q \<subseteq> marks ref vis' q" for q using V by auto
    have "xall N ref m nr stride gd ?D' (marks ref vis') cand'" if exh
      unfolding p'(2) by (rule xall_accept[OF P W cur ul R(2) ef I(4) _ _ ps(1,2) S_def]) (use I(5) that mono in blast)+
    then have "xinv N ref n m nr ef stride gd exh s0 cur us (t', cand', vis')"
      using V I(2,5) R(1) C(1) unfolding xinv_def prod.case D' p'(1) by auto
    then show ?thesis using C(2) ps(4) mono by auto
  qed
  then show "xinv N ref n m nr ef stride gd exh s0 cur us (t', cand', vis')"
    "size (mm_elems cand') \<le> size (mm_elems cand) + m" "\<forall>q. marks ref vis q \<subseteq> marks ref vis' q" by blast+
qed

lemma process_fold:
  fixes gd :: "nat \<Rightarrow> 'd::linorder"
  assumes P: "partition_of n m nr ref" and ef: "1 \<le> ef" "0 \<le> stride" and cur: "cur < m"
    and "distinct us" "set us \<subseteq> marks ref vis cur" "xinv N ref n m nr ef stride gd exh s0 cur us (t, cand, vis)"
      "fold (process_neighbor stride m nr ef cur (remapped_dis gd (ref ! cur))) us (t, cand, vis) = (t', cand', vis')"
  shows "xinv N ref n m nr ef stride gd exh s0 cur [] (t', cand', vis') \<and>
    size (mm_elems cand') \<le> size (mm_elems cand) + m * length us \<and> (\<forall>q. marks ref vis q \<subseteq> marks ref vis' q)"
  using assms(5-)
proof (induction us arbitrary: t cand vis)
  case (Cons u us)
  obtain t1 cand1 vis1 where
    s: "process_neighbor stride m nr ef cur (remapped_dis gd (ref ! cur)) u (t, cand, vis) = (t1, cand1, vis1)"
    by (metis prod_cases3)
  note X = process_ok[OF P ef cur Cons.prems(1-3) s]
  have "xinv N ref n m nr ef stride gd exh s0 cur [] (t', cand', vis') \<and>
    size (mm_elems cand') \<le> size (mm_elems cand1) + m * length us \<and> (\<forall>q. marks ref vis1 q \<subseteq> marks ref vis' q)"
    by (rule Cons.IH[OF _ _ X(1)]) (use Cons.prems s X(3) in auto)
  then show ?case using X(2,3) by fastforce
qed simp

section \<open>The index during a search\<close>

definition cnbrs :: "cspg \<Rightarrow> nat \<Rightarrow> nat \<Rightarrow> nat list" where
  "cnbrs cs p v = nbrs (ih_hnsw (cs_partitions cs ! p)) v 0"

lemma cspg_okE:
  assumes "cspg_ok cs"
  shows "partition_of (cs_ntotal cs) (cs_num_partitions cs) (cs_num_routing cs) (cs_refunction cs)"
    "1 \<le> cs_num_partitions cs"
    "p < cs_num_partitions cs \<Longrightarrow> part_ok (cs_M cs) (length (cs_refunction cs ! p)) (cs_partitions cs ! p)"
  using assms by (simp_all add: cspg_ok_def)

lemma part_on_level:
  assumes "part_ok M np part" "v < np"
  shows "on_level (ih_hnsw part) 0 v"
proof -
  have "layout_ok (ih_hnsw part)" "v < length (hn_levels (ih_hnsw part))"
    using assms by (simp_all add: part_ok_def built_def linkable_def)
  then show ?thesis by (auto simp: layout_ok_def on_level_def)
qed

lemma cnbrs_ok:
  assumes "cspg_ok cs" "p < cs_num_partitions cs" "v < length (cs_refunction cs ! p)"
  shows "set (cnbrs cs p v) \<subseteq> {..<length (cs_refunction cs ! p)}" "length (cnbrs cs p v) \<le> 2 * cs_M cs"
proof -
  let ?np = "length (cs_refunction cs ! p)" and ?h = "ih_hnsw (cs_partitions cs ! p)"
  note part = cspg_okE(3)[OF assms(1,2)]
  have b: "linkable ?h" "\<forall>l. level_ok ?h {..<?np} l" "seglen ?h 0 = 2 * cs_M cs"
    using part by (simp_all add: part_ok_def built_def)
  note on = part_on_level[OF part assms(3)]
  show "set (cnbrs cs p v) \<subseteq> {..<?np}" using b(2) on by (simp add: level_ok_def cnbrs_def)
  show "length (cnbrs cs p v) \<le> 2 * cs_M cs" using linkable_seglen(3)[OF b(1) on] b(3) by (simp add: cnbrs_def)
qed

lemma stride_ok:
  assumes "cspg_ok cs" "p < cs_num_partitions cs" "a < length (cs_refunction cs ! p)"
  shows "int a < cspg_stride cs"
  using stride_bound[OF assms(2)] cspg_okE(3)[OF assms(1,2)] assms(3) by (simp add: part_ok_def)

abbreviation cinv ::
  "cspg \<Rightarrow> nat \<Rightarrow> (nat \<Rightarrow> 'd::linorder) \<Rightarrow> bool \<Rightarrow> nat \<Rightarrow> nat \<Rightarrow> nat list \<Rightarrow>
   ('d \<times> nat \<times> nat) list \<times> 'd minimax \<times> vtable list \<Rightarrow> bool" where
  "cinv cs ef gd \<equiv> xinv (cnbrs cs) (cs_refunction cs) (cs_ntotal cs) (cs_num_partitions cs) (cs_num_routing cs) ef (cspg_stride cs) gd"

section \<open>One iteration\<close>

definition unmarked :: "cspg \<Rightarrow> vtable list \<Rightarrow> nat" where
  "unmarked cs vis = (\<Sum>p < cs_num_partitions cs. length (cs_refunction cs ! p) - card (marks (cs_refunction cs) vis p))"

lemma unmarked_drop:
  assumes "cur < cs_num_partitions cs" "\<forall>q. marks (cs_refunction cs) vis q \<subseteq> marks (cs_refunction cs) vis' q"
    "card (marks (cs_refunction cs) vis cur) + c \<le> card (marks (cs_refunction cs) vis' cur)"
  shows "unmarked cs vis' + c \<le> unmarked cs vis"
proof -
  let ?ref = "cs_refunction cs" and ?m = "cs_num_partitions cs"
  let ?f = "\<lambda>vis p. length (?ref ! p) - card (marks ?ref vis p)"
  have b: "card (marks ?ref v q) \<le> length (?ref ! q)" for v q
    using card_mono[OF _ marks_bound[of ?ref v q]] by simp
  have le: "?f vis' q \<le> ?f vis q" for q
    using card_mono[of "marks ?ref vis' q" "marks ?ref vis q"] assms(2) by (simp add: diff_le_mono2)
  have "?f vis' cur + c \<le> ?f vis cur" using assms(3) b[of vis' cur] by linarith
  moreover have "(\<Sum>p \<in> {..<?m} - {cur}. ?f vis' p) \<le> (\<Sum>p \<in> {..<?m} - {cur}. ?f vis p)" by (rule sum_mono) (rule le)
  ultimately show ?thesis using assms(1) by (simp add: unmarked_def sum.remove[of "{..<?m}" cur])
qed

lemma in_diff_other: "x \<noteq> y \<Longrightarrow> x \<in># A \<Longrightarrow> x \<in># A - {#y#}"
  by (simp add: in_diff_count)

lemma pop_ok:
  assumes ok: "cspg_ok cs" and cur: "cur < cs_num_partitions cs" "a \<in> marks (cs_refunction cs) vis cur"
    and inv: "cinv cs ef gd exh s0 c [] (t, cand, vis)"
    and pop: "mm_inv cand1" "mm_n cand1 = mm_n cand" "mm_k cand1 = mm_k cand"
      "mm_elems cand1 = mm_elems cand - {#cand_of (cs_refunction cs) (cspg_stride cs) gd cur a#}"
  defines "us \<equiv> unseen vt_mark (cnbrs cs cur a) (vis ! cur)"
  defines "vis' \<equiv> vis[cur := fold (\<lambda>v vt. fst (vt_mark vt v)) (cnbrs cs cur a) (vis ! cur)]"
  shows "cinv cs ef gd exh s0 cur us (t, cand1, vis')" "distinct us" "set us \<subseteq> marks (cs_refunction cs) vis' cur"
    "\<forall>q. marks (cs_refunction cs) vis q \<subseteq> marks (cs_refunction cs) vis' q"
    "card (marks (cs_refunction cs) vis' cur) = card (marks (cs_refunction cs) vis cur) + length us"
proof -
  let ?ref = "cs_refunction cs" and ?m = "cs_num_partitions cs" and ?nr = "cs_num_routing cs" and ?s = "cspg_stride cs"
  from inv have I: "tables_ok ?ref ?m vis" "s0 \<in> marks ?ref vis 0" "xres ?ref ?m ?nr ef gd (marks ?ref vis) t"
    "xcand ?ref ?m ef ?s gd (marks ?ref vis) cand"
    "exh \<longrightarrow> cs_ntotal cs \<le> ef \<and> xall (cnbrs cs) ?ref ?m ?nr ?s gd (marks ?ref vis) (marks ?ref vis) cand"
    by (simp_all add: xinv_def)
  have al: "a < length (?ref ! cur)" using cur(2) marks_bound by blast
  note V = mark_neighbors[OF I(1) cur(1) cnbrs_ok(1)[OF ok cur(1) al], folded us_def vis'_def]
  show "distinct us" by (rule V(3))
  show "set us \<subseteq> marks ?ref vis' cur" using V(2,4) by auto
  show mono: "\<forall>q. marks ?ref vis q \<subseteq> marks ?ref vis' q" using V(2) by auto
  have "marks ?ref vis' cur = marks ?ref vis cur \<union> set us" "marks ?ref vis cur \<inter> set us = {}" using V(2,4) by auto
  then show "card (marks ?ref vis' cur) = card (marks ?ref vis cur) + length us"
    using distinct_card[OF V(3)] by (simp add: card_Un_disjoint)
  have D: "evald ?ref cur us vis' = marks ?ref vis"
    using V(2,4) by (auto simp: evald_def fun_eq_iff)
  have "xcand ?ref ?m ef ?s gd (marks ?ref vis) cand1"
    using I(4) pop in_diffD[of _ "mm_elems cand"] unfolding xcand_def by auto
  moreover have "xall (cnbrs cs) ?ref ?m ?nr ?s gd (marks ?ref vis) (marks ?ref vis') cand1" if exh
  proof -
    have A: "mm_k cand \<le> ?m * card (gids ?ref ?m (marks ?ref vis))"
      "\<forall>p < ?m. \<forall>a \<in> marks ?ref vis p. a < ?nr \<longrightarrow> (\<forall>q < ?m. a \<in> marks ?ref vis q)"
      "\<forall>p < ?m. \<forall>a \<in> marks ?ref vis p. set (cnbrs cs p a) \<subseteq> marks ?ref vis p \<or> cand_of ?ref ?s gd p a \<in># mm_elems cand"
      using I(5) that by (simp_all add: xall_def)
    have "set (cnbrs cs p b) \<subseteq> marks ?ref vis' p \<or> cand_of ?ref ?s gd p b \<in># mm_elems cand1"
      if p: "p < ?m" "b \<in> marks ?ref vis p" for p b
    proof (cases "p = cur \<and> b = a")
      case True
      then show ?thesis using V(2) by auto
    next
      case False
      have bl: "b < length (?ref ! p)" using p(2) marks_bound by blast
      note e1 = enc_div_mod[OF stride_ok[OF ok cur(1) al], of cur] and e2 = enc_div_mod[OF stride_ok[OF ok p(1) bl], of p]
      have "cspg_enc ?s p b \<noteq> cspg_enc ?s cur a"
      proof
        assume "cspg_enc ?s p b = cspg_enc ?s cur a"
        then have "int p = int cur" "int b = int a" using e1 e2 by simp_all
        then show False using False by simp
      qed
      then have ne: "cand_of ?ref ?s gd p b \<noteq> cand_of ?ref ?s gd cur a" by (simp add: cand_of_def)
      have "cand_of ?ref ?s gd p b \<in># mm_elems cand1" if "cand_of ?ref ?s gd p b \<in># mm_elems cand"
        unfolding pop(4) by (rule in_diff_other[OF ne that])
      moreover have "marks ?ref vis p \<subseteq> marks ?ref vis' p" using mono by simp
      moreover have "set (cnbrs cs p b) \<subseteq> marks ?ref vis p \<or> cand_of ?ref ?s gd p b \<in># mm_elems cand" using A(3) p by simp
      ultimately show ?thesis by blast
    qed
    then show ?thesis using A(1,2) pop(3) unfolding xall_def by simp
  qed
  ultimately show "cinv cs ef gd exh s0 cur us (t, cand1, vis')"
    using V(1) I(2,3,5) unfolding xinv_def prod.case D by blast
qed

text \<open>With room for all vectors the candidates never lie behind the results.\<close>

lemma no_early_stop:
  assumes ok: "cspg_ok cs" and inv: "cinv cs ef gd True s0 c [] (t, cand, vis)" and e: "(d, j) \<in># mm_elems cand"
  shows "d \<le> fst (hd t)"
proof -
  let ?ref = "cs_refunction cs" and ?m = "cs_num_partitions cs"
  let ?E = "gids ?ref ?m (marks ?ref vis)"
  have W: "in_parts ?ref ?m (marks ?ref vis)" using evald_in_parts[of ?ref ?m c "[]" vis] by simp
  from inv have I: "xres ?ref ?m (cs_num_routing cs) ef gd (marks ?ref vis) t"
    "xcand ?ref ?m ef (cspg_stride cs) gd (marks ?ref vis) cand" "cs_ntotal cs \<le> ef" by (simp_all add: xinv_def)
  from I(2) e obtain p a where p: "p < ?m" "a \<in> marks ?ref vis p" "d = gd (?ref ! p ! a)"
    unfolding xcand_def cand_of_def by fastforce
  then have g: "?ref ! p ! a \<in> ?E" by (auto simp: gids_def)
  have b: "best_of farther ef (npairs gd ?E) (top_gids ?ref t)" using I(1) by (simp add: xres_def)
  have "card ?E \<le> ef" using gids_bound(3)[OF cspg_okE(1)[OF ok] W] I(3) by simp
  then have "length (top_gids ?ref t) = size (npairs gd ?E)" using b by (simp add: best_of_def size_npairs)
  from best_of_all[OF b this] have m: "npairs gd ?E = mset (top_gids ?ref t)" .
  have "(gd (?ref ! p ! a), ?ref ! p ! a) \<in># npairs gd ?E"
    using g gids_bound(2)[OF cspg_okE(1)[OF ok] W] by (simp add: npairs_def)
  then have "(d, ?ref ! p ! a) \<in> set (top_gids ?ref t)" unfolding m p(3) by simp
  then obtain e' where "e' \<in> set t" "fst e' = d" by (auto simp: top_gids_def)
  then show ?thesis using top_max[OF b] by blast
qed

definition spent :: "cspg \<Rightarrow> 'd minimax \<Rightarrow> vtable list \<Rightarrow> nat" where
  "spent cs cand vis = unmarked cs vis * (cs_num_partitions cs + 1) + size (mm_elems cand)"

lemma step_ok:
  fixes gd :: "nat \<Rightarrow> 'd::linorder"
  assumes ok: "cspg_ok cs" "cs_M cs \<le> 64" and ef: "1 \<le> ef"
    and inv: "cinv cs ef gd exh s0 c [] (t, cand, vis)"
  shows "(\<exists>cand' sl bt pv nd. stage2_step cs (cspg_stride cs) ef gd (t, cand, vis, seq, back, prev, ndis)
        = Inl (Inr (t, cand', vis, sl, bt, pv, nd)) \<and> (exh \<longrightarrow> mm_elems cand = {#})) \<or>
    (\<exists>t' cand' vis' sl bt pv nd c'. stage2_step cs (cspg_stride cs) ef gd (t, cand, vis, seq, back, prev, ndis)
        = Inr (t', cand', vis', sl, bt, pv, nd) \<and> cinv cs ef gd exh s0 c' [] (t', cand', vis') \<and>
        spent cs cand' vis' < spent cs cand vis)"
proof -
  let ?ref = "cs_refunction cs" and ?m = "cs_num_partitions cs" and ?nr = "cs_num_routing cs" and ?s = "cspg_stride cs"
  let ?step = "stage2_step cs ?s ef gd (t, cand, vis, seq, back, prev, ndis)"
  from inv have C: "xcand ?ref ?m ef ?s gd (marks ?ref vis) cand" by (simp add: xinv_def)
  then have mm: "mm_inv cand" "mm_n cand = ef * ?m" by (simp_all add: xcand_def)
  have sz: "mm_size cand > 0 \<longleftrightarrow> mm_elems cand \<noteq> {#}" by (simp add: mm_size_elems[OF mm(1)] nonempty_has_size)
  show ?thesis
  proof (cases "mm_elems cand = {#}")
    case True
    then have "?step = Inl (Inr (t, cand, vis, seq, back, prev, ndis))" using sz by (simp add: stage2_step_def)
    then show ?thesis using True by blast
  next
    case False
    from mm_pop_min_ok[OF mm(1) False] obtain j d where
      pop: "mm_inv (snd (mm_pop_min cand))" "fst (mm_pop_min cand) = (j, Some d)" "(d, j) \<in># mm_elems cand"
      "mm_elems (snd (mm_pop_min cand)) = mm_elems cand - {#(d, j)#}" by blast
    define cand1 where "cand1 = snd (mm_pop_min cand)"
    have pm: "mm_pop_min cand = ((j, Some d), cand1)" using pop(2) by (simp add: cand1_def prod_eq_iff)
    note kn = mm_pop_k_n[OF mm(1), folded cand1_def]
    from C pop(3) obtain p a where p: "p < ?m" "a \<in> marks ?ref vis p" and e: "(d, j) = cand_of ?ref ?s gd p a"
      unfolding xcand_def by blast
    have al: "a < length (?ref ! p)" using p(2) marks_bound by blast
    have j: "j = cspg_enc ?s p a" using e by (simp add: cand_of_def)
    note enc = enc_div_mod[OF stride_ok[OF ok(1) p(1) al], of p, folded j]
    show ?thesis
    proof (cases "ef \<le> length t \<and> d > fst (hd t)")
      case True
      then have "\<exists>bt. ?step = Inl (Inr (t, cand1, vis, seq + 1, bt, Some d, ndis))"
        using False sz pm enc(3) by (simp add: stage2_step_def Let_def)
      moreover have "\<not> exh" using no_early_stop[OF ok(1) _ pop(3), of ef gd s0 c t vis] inv True by (cases exh) auto
      ultimately show ?thesis by blast
    next
      case stay: False
      define us where "us = unseen vt_mark (cnbrs cs p a) (vis ! p)"
      define vis1 where "vis1 = vis[p := fold (\<lambda>v vt. fst (vt_mark vt v)) (cnbrs cs p a) (vis ! p)]"
      note X = pop_ok[OF ok(1) p inv pop(1)[folded cand1_def] kn(2,1) pop(4)[folded cand1_def, unfolded e], folded us_def vis1_def]
      have "length us \<le> length (cnbrs cs p a)"
      proof -
        have "set us \<subseteq> set (cnbrs cs p a)"
          using mark_neighbors(4)[OF _ p(1) cnbrs_ok(1)[OF ok(1) p(1) al], of vis] inv by (auto simp: xinv_def us_def)
        then show ?thesis using distinct_card[OF X(2)] card_mono[of "set (cnbrs cs p a)" "set us"] card_length[of "cnbrs cs p a"] by simp
      qed
      then have len: "length us \<le> 128" using cnbrs_ok(2)[OF ok(1) p(1) al] ok(2) by simp
      obtain t' cand' vis' where
        f: "fold (process_neighbor ?s ?m ?nr ef p (remapped_dis gd (?ref ! p))) us (t, cand1, vis1) = (t', cand', vis')"
        by (metis prod_cases3)
      have st: "\<exists>bt. ?step = Inr (t', cand', vis', seq + 1, bt, Some d, ndis + length us)"
        using False sz pm enc stay len f by (simp add: stage2_step_def Let_def us_def vis1_def cnbrs_def)
      have "0 \<le> ?s" using stride_ok[OF ok(1) p(1) al] by simp
      note F = process_fold[OF cspg_okE(1)[OF ok(1)] ef this p(1) X(2,3,1) f]
      have "unmarked cs vis' + length us \<le> unmarked cs vis"
      proof (rule unmarked_drop[OF p(1)])
        show "\<forall>q. marks ?ref vis q \<subseteq> marks ?ref vis' q" using F X(4) by blast
        have "card (marks ?ref vis1 p) \<le> card (marks ?ref vis' p)" by (rule card_mono) (use F in auto)
        then show "card (marks ?ref vis p) + length us \<le> card (marks ?ref vis' p)" using X(5) by simp
      qed
      then have "(unmarked cs vis' + length us) * (?m + 1) \<le> unmarked cs vis * (?m + 1)" by (rule mult_le_mono1)
      moreover have "size (mm_elems cand') \<le> size (mm_elems cand1) + ?m * length us" using F by blast
      moreover have "size (mm_elems cand) = size (mm_elems cand1) + 1"
      proof -
        have "mm_elems cand = add_mset (d, j) (mm_elems cand1)" using pop(3,4) by (simp add: cand1_def)
        then show ?thesis by simp
      qed
      ultimately have "spent cs cand' vis' < spent cs cand vis"
        unfolding spent_def by (simp add: algebra_simps)
      then show ?thesis using st F by blast
    qed
  qed
qed

section \<open>The loop\<close>

text \<open>The results are the nearest of the evaluated vectors \<open>D\<close>; with room for all of them \<open>D\<close> is closed
  under neighbors and copies.\<close>

definition xpost :: "cspg \<Rightarrow> nat \<Rightarrow> (nat \<Rightarrow> 'd::linorder) \<Rightarrow> bool \<Rightarrow> nat \<Rightarrow> ('d \<times> nat \<times> nat) list \<Rightarrow> (nat \<Rightarrow> nat set) \<Rightarrow> bool" where
  "xpost cs ef gd exh s0 t D \<longleftrightarrow> in_parts (cs_refunction cs) (cs_num_partitions cs) D \<and> s0 \<in> D 0 \<and>
     xres (cs_refunction cs) (cs_num_partitions cs) (cs_num_routing cs) ef gd D t \<and>
     (exh \<longrightarrow> (\<forall>p < cs_num_partitions cs. \<forall>a \<in> D p.
        set (cnbrs cs p a) \<subseteq> D p \<and> (a < cs_num_routing cs \<longrightarrow> (\<forall>q < cs_num_partitions cs. a \<in> D q))))"

lemma stage2_run:
  fixes gd :: "nat \<Rightarrow> 'd::linorder"
  assumes ok: "cspg_ok cs" "cs_M cs \<le> 64" and ef: "1 \<le> ef" and inv: "cinv cs ef gd exh s0 c [] (t, cand, vis)"
  shows "\<exists>t' cand' vis' sl bt pv nd D. run_loop (stage2_step cs (cspg_stride cs) ef gd) (t, cand, vis, sl0, bt0, pv0, nd0)
      = Some (Inr (t', cand', vis', sl, bt, pv, nd)) \<and>
    tables_ok (cs_refunction cs) (cs_num_partitions cs) vis' \<and> xpost cs ef gd exh s0 t' D"
proof -
  let ?ref = "cs_refunction cs" and ?m = "cs_num_partitions cs"
  define I where "I = (\<lambda>(t, cand, vis, sl :: nat, bt :: nat, pv :: 'd option, nd :: nat). \<exists>c. cinv cs ef gd exh s0 c [] (t, cand, vis))"
  define Q where "Q = (\<lambda>r. \<exists>t' cand' vis' sl bt pv nd. r = (Inr (t', cand', vis', sl, bt, pv, nd) ::
      (('d \<times> nat \<times> nat) list \<times> 'd minimax \<times> vtable list \<times> nat \<times> nat \<times> 'd option \<times> nat) result) \<and>
    tables_ok ?ref ?m vis' \<and> (\<exists>D. xpost cs ef gd exh s0 t' D))"
  have "\<exists>r. run_loop (stage2_step cs (cspg_stride cs) ef gd) (t, cand, vis, sl0, bt0, pv0, nd0) = Some r \<and> Q r"
  proof (rule run_loop_total[where I = I and m = "\<lambda>(t, cand, vis, sl, bt, pv, nd). spent cs cand vis"])
    show "I (t, cand, vis, sl0, bt0, pv0, nd0)" using inv by (auto simp: I_def)
  next
    fix s s' assume i: "I s" and st: "stage2_step cs (cspg_stride cs) ef gd s = Inr s'"
    obtain t cand vis sl bt pv nd where s: "s = (t, cand, vis, sl, bt, pv, nd)" by (metis prod_cases7)
    from i obtain c where "cinv cs ef gd exh s0 c [] (t, cand, vis)" by (auto simp: I_def s)
    from step_ok[OF ok ef this, of sl bt pv nd] st show "I s' \<and>
      (case s' of (t, cand, vis, sl, bt, pv, nd) \<Rightarrow> spent cs cand vis) < (case s of (t, cand, vis, sl, bt, pv, nd) \<Rightarrow> spent cs cand vis)"
      unfolding s I_def by auto
  next
    fix s r assume i: "I s" and st: "stage2_step cs (cspg_stride cs) ef gd s = Inl r"
    obtain t cand vis sl bt pv nd where s: "s = (t, cand, vis, sl, bt, pv, nd)" by (metis prod_cases7)
    from i obtain c where c: "cinv cs ef gd exh s0 c [] (t, cand, vis)" by (auto simp: I_def s)
    from step_ok[OF ok ef this, of sl bt pv nd] st obtain cand' sl' bt' pv' nd' where
      r: "r = Inr (t, cand', vis, sl', bt', pv', nd')" and e: "exh \<longrightarrow> mm_elems cand = {#}" unfolding s by auto
    have "xpost cs ef gd exh s0 t (marks ?ref vis)"
      using c e evald_in_parts[of ?ref ?m c "[]" vis] unfolding xpost_def xinv_def xall_def by auto
    then show "Q r" using r c unfolding Q_def xinv_def by auto
  qed
  then show ?thesis unfolding Q_def by blast
qed

end
