(* ===== verification/CspgSearchAll.thy ===== *)
theory CspgSearchAll
  imports CspgSearchRun
begin

text \<open>
  \<open>IndexCSPG::search\<close> for one query: the first stage, the seed of the second, and the row of results.
\<close>

section \<open>Stage 1\<close>

lemma stage1_ok:
  fixes rdc :: "nat \<Rightarrow> 'd::linorder"
  assumes part: "part_ok M np part" and "0 < np" and vt: "vt_inv np vt0"
  shows "\<exists>v vt nd. cspg_stage1 (ih_hnsw part) rdc ef1 vt0 = Some (v, rdc v, vt, nd) \<and> v < np \<and> vt_inv np vt"
proof -
  let ?h = "ih_hnsw part"
  have b: "built ?h {..<np}" "length (hn_levels ?h) = np" using part by (simp_all add: part_ok_def)
  have "{..<np} \<noteq> {}" using assms(2) by (simp add: lessThan_empty_iff)
  then have ep: "0 \<le> hn_max_level ?h" "on_level ?h (nat (hn_max_level ?h)) (nat (hn_entry_point ?h))"
    using b(1) by (simp_all add: built_def)
  have h: "links_ok ?h" "\<forall>l. level_ok ?h {..<np} l" using b(1) by (simp_all add: built_def linkable_def)
  have lv: "nat (hn_max_level ?h + 1) = nat (hn_max_level ?h) + 1" using ep(1) by simp
  obtain st v d where
    ds: "descend ?h rdc (rev [1..<nat (hn_max_level ?h) + 1]) (HNSWStats, nat (hn_entry_point ?h), rdc (nat (hn_entry_point ?h))) = (st, v, d)"
    by (metis prod_cases3)
  note D = descend_ok[OF h(1) ep(2) ds]
  have v: "v < np" "d = rdc v" using D b(2) by (simp_all add: on_level_def)
  show ?thesis
  proof (cases "ef1 > 1")
    case False
    then show ?thesis using ds v vt by (simp add: cspg_stage1_def Let_def lv)
  next
    case True
    have R: "\<forall>w \<in> {..<np}. set (nbrs ?h w 0) \<subseteq> {..<np}"
      using h(2) part_on_level[OF part] by (simp add: level_ok_def)
    have fresh: "vt_inv np (vt_advance vt0)" "visited np (vt_advance vt0) = {}"
      using vt_inv_advance[OF vt] vt_get_advance[OF vt] by (auto simp: visited_def)
    have "v \<in> {..<np}" "1 \<le> nat ef1" using v True by simp_all
    from search_from_candidate_unbounded_ok[OF order_refl R this(1) fresh this(2), of rdc HNSWStats] obtain tc vt' st' where
      s: "search_from_candidate_unbounded ?h (rdc v, v) rdc (nat ef1) (vt_advance vt0) HNSWStats = Some (tc, vt', st')"
        "vt_inv np vt'" "v \<in> visited np vt'" "best_of CMax_cmp2 (nat ef1) (npairs rdc (visited np vt')) tc" by blast
    have ne: "tc \<noteq> []"
      by (rule best_of_nonempty[OF s(4) \<open>1 \<le> nat ef1\<close>]) (use s(3) in \<open>auto simp: npairs_def mset_set_empty_iff\<close>)
    then have dr: "drop (length tc - 1) tc = [last tc]" by (cases tc rule: rev_cases) simp_all
    obtain R' where "npairs rdc (visited np vt') = mset tc + R'" using s(4) by (rule best_ofE)
    moreover have "last tc \<in># mset tc" using ne by simp
    ultimately have "last tc \<in># npairs rdc (visited np vt')" by simp
    then obtain w where w: "last tc = (rdc w, w)" "w < np" by (auto simp: npairs_def visited_def)
    have "cspg_stage1 ?h rdc ef1 vt0 = Some (w, rdc w, vt', 1 + st_ndis st + st_ndis st')"
    proof -
      have "drop (length tc - Suc 0) tc = [(rdc w, w)]" using dr w(1) by simp
      then show ?thesis unfolding cspg_stage1_def Let_def lv ds by (simp add: s(1) v(2) True del: drop_eq_Nil)
    qed
    then show ?thesis using w(2) s(2) by blast
  qed
qed

section \<open>The seed\<close>

lemma seed_ok:
  fixes gd :: "nat \<Rightarrow> 'd::{linorder, zero}"
  assumes ok: "cspg_ok cs" and ef: "1 \<le> ef" and v: "v < length (cs_refunction cs ! 0)"
    and vis: "tables_ok (cs_refunction cs) (cs_num_partitions cs) vis"
  shows "cinv cs ef gd (cs_ntotal cs \<le> ef) v 0 [] (stage2_seed cs (cspg_stride cs) ef v (gd (cs_refunction cs ! 0 ! v)) vis)"
proof -
  let ?ref = "cs_refunction cs" and ?m = "cs_num_partitions cs" and ?nr = "cs_num_routing cs" and ?s = "cspg_stride cs"
  let ?g = "?ref ! 0 ! v"
  note P = cspg_okE(1)[OF ok]
  have m: "0 < ?m" using cspg_okE(2)[OF ok] by simp
  define vis1 where "vis1 = map vt_advance vis"
  have t1: "tables_ok ?ref ?m vis1" using vis vt_inv_advance by (auto simp: tables_ok_def vis1_def)
  have m1: "marks ?ref vis1 = (\<lambda>q. {})"
    using vis vt_get_advance by (auto simp: tables_ok_def vis1_def marks_def visited_def fun_eq_iff)
  define S where "S = (if v < ?nr then {..<?m} else {0})"
  define ps where "ps = 0 # (if v < ?nr then [1..<?m] else [])"
  have ps: "distinct ps" "set ps = S" "S \<subseteq> {..<?m}" "S = {0} \<or> v < ?nr" "length ps \<le> ?m"
    using m by (auto simp: ps_def S_def)
  have bound: "\<forall>p \<in> set ps. v < length (?ref ! p)"
  proof
    fix p assume "p \<in> set ps"
    then have "p < ?m" "p = 0 \<or> v < ?nr" using ps(2-4) by auto
    then show "v < length (?ref ! p)" using partition_of_facts(2)[OF P] v by fastforce
  qed
  let ?vis = "fold (\<lambda>p vis. vis[p := fst (vt_mark (vis ! p) v)]) ps vis1"
  let ?c = "fold (\<lambda>p. mm_push (cspg_enc ?s p v) (gd ?g)) ps (MinimaxHeap (ef * ?m))"
  have seed: "stage2_seed cs ?s ef v (gd ?g) vis = ([(gd ?g, 0, v)], ?c, ?vis)"
    using ef by (simp add: stage2_seed_def Let_def try_add_result_def cross_expand_split ps_def vis1_def)
  have "set ps \<subseteq> {..<?m}" using ps by simp
  note V = mark_list[OF t1 this bound, unfolded m1 ps(2)]
  have D: "marks ?ref ?vis = (\<lambda>q. if q \<in> S then {v} else {})" using V by (simp add: fun_eq_iff)
  have zero: "0 \<in> S" using m by (simp add: S_def)
  have "gids ref k (\<lambda>q. {}) = {}" for ref k by (simp add: gids_def)
  then have E: "gids ?ref ?m (marks ?ref ?vis) = {?g}"
    unfolding D using gids_add[OF P m ps(3) zero ps(4), of "\<lambda>q. {}"] by (simp only:)
  have "best_of farther ef (npairs gd {?g}) [(gd ?g, ?g)]"
    using ef by (simp add: best_of_def npairs_def pq_inv_def)
  then have r: "xres ?ref ?m ?nr ef gd (marks ?ref ?vis) [(gd ?g, 0, v)]"
    unfolding xres_def E using m v by (auto simp: top_gids_def D S_def split: if_splits)
  have e: "mm_inv (MinimaxHeap (ef * ?m) :: 'd minimax)" "mm_n (MinimaxHeap (ef * ?m) :: 'd minimax) = ef * ?m"
    "mm_k (MinimaxHeap (ef * ?m) :: 'd minimax) = 0" "mm_elems (MinimaxHeap (ef * ?m) :: 'd minimax) = {#}"
    using mm_inv_new by (simp_all add: MinimaxHeap_def mm_elems_def mm_stored_def)
  then have "xcand ?ref ?m ef ?s gd (\<lambda>q. {}) (MinimaxHeap (ef * ?m))" by (simp add: xcand_def)
  moreover have "0 \<le> ?s" using stride_ok[OF ok m v] by simp
  ultimately have C: "xcand ?ref ?m ef ?s gd (marks ?ref ?vis) ?c"
    "mm_k ?c = length ps \<and> mm_elems ?c = mset (map (\<lambda>p. cand_of ?ref ?s gd p v) ps)"
  proof -
    assume a: "xcand ?ref ?m ef ?s gd (\<lambda>q. {}) (MinimaxHeap (ef * ?m) :: 'd minimax)" and s: "0 \<le> ?s"
    note X = xcand_accept[OF P m m ef s a ps(1-4)]
    show "xcand ?ref ?m ef ?s gd (marks ?ref ?vis) ?c" unfolding D by (rule X(1))
    have "?m \<le> ef * ?m" using ef by simp
    then have "length ps \<le> ef * ?m" using ps(5) by (rule order_trans[rotated])
    then show "mm_k ?c = length ps \<and> mm_elems ?c = mset (map (\<lambda>p. cand_of ?ref ?s gd p v) ps)" using X(3) e by simp
  qed
  have "xall (cnbrs cs) ?ref ?m ?nr ?s gd (marks ?ref ?vis) (marks ?ref ?vis) ?c"
    unfolding xall_def E using C(2) ps(2,5) by (auto simp: D S_def split: if_splits)
  then show ?thesis
    using V r C(1) m unfolding seed xinv_def prod.case evald_Nil by (simp add: D S_def)
qed

section \<open>The row of results\<close>

lemma topk_take:
  fixes ts :: "('d::linorder \<times> int) list"
  assumes "A = mset ts + R" "sorted (map fst ts)" "length ts = min ef (size A)" "k \<le> ef"
    "\<forall>r \<in># R. \<forall>a \<in> set ts. fst a \<le> fst r"
  shows "topk k A (take k ts)"
proof -
  have "A = mset (take k ts) + (mset (drop k ts) + R)"
    using assms(1) mset_append[of "take k ts" "drop k ts"] by (simp add: add.assoc)
  moreover have "fst a \<le> fst r" if "r \<in># mset (drop k ts) + R" "a \<in> set (take k ts)" for a r
  proof (cases "r \<in># R")
    case True
    then show ?thesis using assms(5) in_set_takeD[OF that(2)] by blast
  next
    case False
    then have "r \<in> set (drop k ts)" using that(1) by simp
    moreover have "sorted (map fst (take k ts) @ map fst (drop k ts))"
      using assms(2) by (simp flip: map_append)
    ultimately show ?thesis using that(2) by (auto simp: sorted_append)
  qed
  moreover have "length (take k ts) = min k (size A)" using assms(3,4) by auto
  moreover have "sorted (map fst (take k ts))" using sorted_wrt_take[OF assms(2), of k] by (simp add: take_map)
  ultimately show ?thesis unfolding topk_def by blast
qed

lemma result_row_ok:
  fixes gd :: "nat \<Rightarrow> float_t"
  assumes "best_of farther ef (npairs gd E) (top_gids (cs_refunction cs) t)" "k \<le> ef"
  shows "\<exists>S. topk k (pairs gd None E) S \<and> cspg_result_row cs k t = S @ replicate (k - length S) (FLT_MAX, -1)"
proof -
  let ?f = "\<lambda>(d, v :: nat). (d :: float_t, int v)"
  let ?ts = "map (\<lambda>(d, p, lid). (d, int (cs_refunction cs ! p ! lid))) (sort_key fst t)"
  from assms(1) obtain R where R: "length (top_gids (cs_refunction cs) t) = min ef (size (npairs gd E))"
    "npairs gd E = mset (top_gids (cs_refunction cs) t) + R"
    "\<forall>r \<in># R. \<forall>a \<in> set (top_gids (cs_refunction cs) t). fst a \<le> fst r" by (rule best_ofE)
  have pr: "pairs gd None E = image_mset ?f (npairs gd E)"
    by (simp add: pairs_def npairs_def is_member_def image_mset.compositionality comp_def)
  have "?ts = map ?f (top_gids (cs_refunction cs) (sort_key fst t))"
    by (auto simp: top_gids_def)
  moreover have "mset (top_gids (cs_refunction cs) (sort_key fst t)) = mset (top_gids (cs_refunction cs) t)"
    by (simp add: top_gids_def)
  ultimately have "mset ?ts = image_mset ?f (mset (top_gids (cs_refunction cs) t))" by simp
  then have A: "pairs gd None E = mset ?ts + image_mset ?f R" unfolding pr R(2) by simp
  have s: "sorted (map fst ?ts)" by (simp add: comp_def case_prod_beta)
  have len: "length ?ts = min ef (size (pairs gd None E))" using R(1) by (simp add: pr)
  have "\<forall>r \<in># image_mset ?f R. \<forall>a \<in> set ?ts. fst a \<le> fst r"
    using R(3) by (fastforce simp: top_gids_def)
  from topk_take[OF A s len assms(2) this] have "topk k (pairs gd None E) (take k ?ts)" .
  moreover have "cspg_result_row cs k t = take k ?ts @ replicate (k - length (take k ?ts)) (FLT_MAX, -1)"
    by (auto simp: cspg_result_row_def Let_def take_map min_def)
  ultimately show ?thesis by blast
qed

section \<open>One query\<close>

text \<open>From a vertex to its neighbors in the same partition, and between the copies of a routing vector.\<close>

definition crossing :: "cspg \<Rightarrow> ((nat \<times> nat) \<times> nat \<times> nat) set" where
  "crossing cs = {((p, a), (q, b)). p < cs_num_partitions cs \<and> q < cs_num_partitions cs \<and>
     (q = p \<and> b \<in> set (cnbrs cs p a) \<or> b = a \<and> a < cs_num_routing cs)}"

text \<open>Partition 0, where a search starts, has a vertex, and every vector has a copy that can be reached from
  every vertex of partition 0.\<close>

definition crossing_connected :: "cspg \<Rightarrow> bool" where
  "crossing_connected cs \<longleftrightarrow> cs_refunction cs ! 0 \<noteq> [] \<and> (\<forall>v < length (cs_refunction cs ! 0). \<forall>g < cs_ntotal cs.
     \<exists>p a. ((0, v), (p, a)) \<in> (crossing cs)\<^sup>* \<and> p < cs_num_partitions cs \<and> cs_refunction cs ! p ! a = g)"

lemma xpost_connected:
  assumes ok: "cspg_ok cs" and post: "xpost cs ef gd True v t D" and "crossing_connected cs" "v < length (cs_refunction cs ! 0)"
  shows "gids (cs_refunction cs) (cs_num_partitions cs) D = {..<cs_ntotal cs}"
proof
  let ?ref = "cs_refunction cs" and ?m = "cs_num_partitions cs"
  show "gids ?ref ?m D \<subseteq> {..<cs_ntotal cs}"
    using gids_bound(1)[OF cspg_okE(1)[OF ok]] post by (simp add: xpost_def)
  have reached: "a \<in> D p" if "((0, v), (p, a)) \<in> (crossing cs)\<^sup>*" for p a
    using that
  proof (induction rule: rtrancl_induct2)
    case refl
    then show ?case using post by (simp add: xpost_def)
  next
    case (step p a q b)
    then have "p < ?m" "q < ?m" "q = p \<and> b \<in> set (cnbrs cs p a) \<or> b = a \<and> a < cs_num_routing cs"
      by (auto simp: crossing_def)
    then show ?case using step.IH post unfolding xpost_def by blast
  qed
  show "{..<cs_ntotal cs} \<subseteq> gids ?ref ?m D"
  proof
    fix g assume "g \<in> {..<cs_ntotal cs}"
    then have "g < cs_ntotal cs" by simp
    then obtain p a where p: "((0, v), (p, a)) \<in> (crossing cs)\<^sup>*" "p < ?m" "?ref ! p ! a = g"
      using assms(3,4) unfolding crossing_connected_def by blast
    from reached[OF p(1)] p(2,3) show "g \<in> gids ?ref ?m D" by (auto simp: gids_def)
  qed
qed

text \<open>A row with the nearest of \<open>V\<close>, all vectors if there is room for them and they are connected.\<close>

definition cspg_row_ok :: "cspg \<Rightarrow> (nat \<Rightarrow> float_t) \<Rightarrow> nat \<Rightarrow> nat \<Rightarrow> (float_t \<times> int) list \<Rightarrow> bool" where
  "cspg_row_ok cs gd ef k r \<longleftrightarrow> (\<exists>V S. V \<noteq> {} \<and> V \<subseteq> {..<cs_ntotal cs} \<and> topk k (pairs gd None V) S \<and>
     r = S @ replicate (k - length S) (FLT_MAX, -1) \<and> (cs_ntotal cs \<le> ef \<and> crossing_connected cs \<longrightarrow> V = {..<cs_ntotal cs}))"

lemma search_one_ok:
  assumes ok: "cspg_ok cs" "cs_M cs \<le> 64" and k: "1 \<le> k" "k \<le> ef2" and ne: "0 < length (cs_refunction cs ! 0)"
    and vis: "tables_ok (cs_refunction cs) (cs_num_partitions cs) vis"
  shows "\<exists>r vis' st. cspg_search_one cs f ef1 ef2 q k vis = Some (Inr (r, vis', st)) \<and>
    tables_ok (cs_refunction cs) (cs_num_partitions cs) vis' \<and> cspg_row_ok cs (global_dis f q) ef2 k r"
proof -
  let ?ref = "cs_refunction cs" and ?m = "cs_num_partitions cs" and ?gd = "global_dis f q"
  have m: "0 < ?m" using cspg_okE(2)[OF ok(1)] by simp
  note part = cspg_okE(3)[OF ok(1) m]
  have "{..<length (?ref ! 0)} \<noteq> {}" using ne by (simp add: lessThan_empty_iff)
  then have ep: "\<not> hn_entry_point (ih_hnsw (cs_partitions cs ! 0)) < 0" using part by (simp add: part_ok_def built_def)
  have v0: "vt_inv (length (?ref ! 0)) (vis ! 0)" "0 < length vis" using vis m by (simp_all add: tables_ok_def)
  from stage1_ok[OF part ne v0(1), of "remapped_dis ?gd (?ref ! 0)" ef1] obtain v vt nd where
    s1: "cspg_stage1 (ih_hnsw (cs_partitions cs ! 0)) (remapped_dis ?gd (?ref ! 0)) ef1 (vis ! 0)
      = Some (v, remapped_dis ?gd (?ref ! 0) v, vt, nd)" "v < length (?ref ! 0)" "vt_inv (length (?ref ! 0)) vt" by blast
  have rd: "remapped_dis ?gd (?ref ! 0) v = ?gd (?ref ! 0 ! v)" by (simp add: remapped_dis_def)
  have t: "tables_ok ?ref ?m (vis[0 := vt])" using vis s1(3) v0(2) by (auto simp: tables_ok_def nth_list_update)
  have ef: "1 \<le> ef2" using k by simp
  obtain top0 cand0 vis0 where
    sd: "stage2_seed cs (cspg_stride cs) ef2 v (?gd (?ref ! 0 ! v)) (vis[0 := vt]) = (top0, cand0, vis0)" by (metis prod_cases3)
  have "cinv cs ef2 ?gd (cs_ntotal cs \<le> ef2) v 0 [] (top0, cand0, vis0)"
    using seed_ok[OF ok(1) ef s1(2) t, of ?gd] unfolding sd .
  from stage2_run[OF ok ef this, of 0 0 None 0] obtain top1 cand1 vis1 sl bt pv nd1 D where
    r: "run_loop (stage2_step cs (cspg_stride cs) ef2 ?gd) (top0, cand0, vis0, 0, 0, None, 0)
      = Some (Inr (top1, cand1, vis1, sl, bt, pv, nd1))" "tables_ok ?ref ?m vis1"
    and post: "xpost cs ef2 ?gd (cs_ntotal cs \<le> ef2) v top1 D" by blast
  let ?E = "gids ?ref ?m D"
  have X: "?E \<noteq> {}" "best_of farther ef2 (npairs ?gd ?E) (top_gids ?ref top1)" using post by (simp_all add: xpost_def xres_def)
  have E: "?E \<subseteq> {..<cs_ntotal cs}" using gids_bound(1)[OF cspg_okE(1)[OF ok(1)]] post by (simp add: xpost_def)
  from result_row_ok[OF X(2) k(2)] obtain S where
    S: "topk k (pairs ?gd None ?E) S" "cspg_result_row cs k top1 = S @ replicate (k - length S) (FLT_MAX, -1)" by blast
  have "?E = {..<cs_ntotal cs}" if "cs_ntotal cs \<le> ef2" "crossing_connected cs"
    using xpost_connected[OF ok(1) _ that(2) s1(2)] post that(1) by simp
  then have "cspg_row_ok cs ?gd ef2 k (cspg_result_row cs k top1)" using X(1) E S unfolding cspg_row_ok_def by blast
  moreover have "\<exists>st. cspg_search_one cs f ef1 ef2 q k vis = Some (Inr (cspg_result_row cs k top1, vis1, st))"
    using ep s1(1) sd r(1) by (simp add: cspg_search_one_def Let_def rd)
  ultimately show ?thesis using r(2) by blast
qed

end
