(* ===== verification/CspgProps.thy ===== *)
theory CspgProps
  imports CspgSearchAll
begin

text \<open>
  The properties of \<open>IndexCSPG\<close>: what \<open>add\<close> builds, what \<open>search\<close> returns, its errors, and the vector
  that an index of one vector never finds.
\<close>

section \<open>Several queries\<close>

lemma new_tables_ok:
  assumes "cspg_ok cs"
  shows "tables_ok (cs_refunction cs) (cs_num_partitions cs)
    (map (\<lambda>p. VisitedTable (ih_ntotal (cs_partitions cs ! p)) None) [0..<cs_num_partitions cs])"
  using cspg_okE(3)[OF assms] vt_inv_constructor by (auto simp: tables_ok_def part_ok_def)

lemma cspg_search_rows:
  fixes rows :: "(float_t \<times> int) list list"
  assumes ok: "cspg_ok cs" "cs_shared_flat cs = Some f" "0 < cs_ntotal cs" and k: "1 \<le> k"
    and efs: "cspg_efs cs (int k) params = (ef1, ef2)"
    and sched: "distinct (concat sched)" "set (concat sched) = {..<n}" "length rows = n"
    and one: "\<And>q vis. q < n \<Longrightarrow> tables_ok (cs_refunction cs) (cs_num_partitions cs) vis \<Longrightarrow>
      \<exists>r vis' st. cspg_search_one cs f ef1 (nat ef2) (row (cs_d cs) q x) k vis = Some (Inr (r, vis', st)) \<and>
        tables_ok (cs_refunction cs) (cs_num_partitions cs) vis' \<and> OK q r"
  shows "\<exists>rows' stats. cspg_search cs x (int k) params sched rows = Some (Inr (rows', stats)) \<and> length rows' = n \<and>
    (\<forall>q < n. OK q (rows' ! q))"
proof -
  let ?T = "tables_ok (cs_refunction cs) (cs_num_partitions cs)"
  let ?new = "map (\<lambda>p. VisitedTable (ih_ntotal (cs_partitions cs ! p)) None) [0..<cs_num_partitions cs]"
  have "\<exists>rows' st'. for_each (cspg_search_thread cs f ef1 (nat ef2) x k) sched (rows, CSPGStats) = Some (Inr (rows', st')) \<and>
    length rows' = length rows \<and> (\<forall>q \<in> set (concat sched). OK q (rows' ! q))"
  proof (rule for_each_blocks[OF sched(1)])
    show "\<forall>i \<in> set (concat sched). i < length rows" unfolding sched(2,3) by simp
    fix qs and rows1 :: "(float_t \<times> int) list list" and st
    assume q: "qs \<in> set sched" "distinct qs" "length rows1 = length rows"
    have "set qs \<subseteq> {..<n}" using q(1) sched(2) by auto
    then have qn: "\<forall>i \<in> set qs. i < length rows1" "\<forall>i \<in> set qs. i < n" using q(3) sched(3) by auto
    have "\<exists>rows' v' st'. for_each (cspg_search_query cs f ef1 (nat ef2) x k) qs (rows1, ?new, st) = Some (Inr (rows', v', st')) \<and>
      length rows' = length rows1 \<and> (\<forall>i < length rows1. i \<notin> set qs \<longrightarrow> rows' ! i = rows1 ! i) \<and> (\<forall>i \<in> set qs. OK i (rows' ! i))"
    proof (rule for_each_rows[OF q(2) qn(1), where V = ?T])
      show "?T ?new" by (rule new_tables_ok[OF ok(1)])
      fix i rows2 v st2 assume i: "i \<in> set qs" "?T v"
      from one[OF _ i(2)] i(1) qn(2) obtain r vis' st' where
        "cspg_search_one cs f ef1 (nat ef2) (row (cs_d cs) i x) k v = Some (Inr (r, vis', st'))" "?T vis'" "OK i r" by blast
      then show "\<exists>r v' st'. cspg_search_query cs f ef1 (nat ef2) x k i (rows2, v, st2) = Some (Inr (rows2[i := r], v', st')) \<and> OK i r \<and> ?T v'"
        by (auto simp: cspg_search_query_def)
    qed
    then show "\<exists>rows' st'. cspg_search_thread cs f ef1 (nat ef2) x k qs (rows1, st) = Some (Inr (rows', st')) \<and> length rows' = length rows1 \<and>
        (\<forall>i < length rows1. i \<notin> set qs \<longrightarrow> rows' ! i = rows1 ! i) \<and> (\<forall>i \<in> set qs. OK i (rows' ! i))"
      by (auto simp: cspg_search_thread_def)
  qed
  then show ?thesis using ok(2,3) k efs sched(3) unfolding sched(2) by (auto simp: cspg_search_def)
qed

lemma cspg_efs_ge: "cspg_efs cs k params = (ef1, ef2) \<Longrightarrow> k \<le> ef2"
  by (auto simp: cspg_efs_def Let_def split: option.splits if_splits)

section \<open>Search\<close>

lemma cspg_row_okE:
  assumes "cspg_row_ok cs gd ef k r"
  obtains V S where "V \<noteq> {}" "V \<subseteq> {..<cs_ntotal cs}" "topk k (pairs gd None V) S"
    "r = S @ replicate (k - length S) (FLT_MAX, -1)" "cs_ntotal cs \<le> ef \<and> crossing_connected cs \<longrightarrow> V = {..<cs_ntotal cs}"
proof -
  from assms obtain V S where "V \<noteq> {} \<and> V \<subseteq> {..<cs_ntotal cs} \<and> topk k (pairs gd None V) S \<and>
     r = S @ replicate (k - length S) (FLT_MAX, -1) \<and> (cs_ntotal cs \<le> ef \<and> crossing_connected cs \<longrightarrow> V = {..<cs_ntotal cs})"
    unfolding cspg_row_ok_def by (elim exE)
  then show thesis by (intro that[of V S]) simp_all
qed

lemma topk_pairs_distinct:
  assumes "topk k (pairs qd sel V) S"
  shows "distinct (map snd S)"
proof -
  let ?W = "{v \<in> V. is_member sel v}"
  obtain R where "pairs qd sel V = mset S + R" using assms by (auto simp: topk_def)
  then have "image_mset snd (pairs qd sel V) = mset (map snd S) + image_mset snd R" by simp
  moreover have "image_mset snd (pairs qd sel V) = mset_set (int ` ?W)"
    by (simp add: pairs_def image_mset.compositionality comp_def image_mset_mset_set inj_on_def image_image)
  ultimately have sub: "mset (map snd S) \<subseteq># mset_set (int ` ?W)" by simp
  have one: "count (mset (map snd S)) a \<le> 1" for a
  proof -
    have "count (mset (map snd S)) a \<le> count (mset_set (int ` ?W)) a" using sub by (rule mset_subset_eq_count)
    also have "\<dots> \<le> 1" by (simp add: count_mset_set')
    finally show ?thesis .
  qed
  show ?thesis unfolding distinct_count_atmost_1
  proof
    fix a
    have "count (mset (map snd S)) a = 1" if "a \<in> set (map snd S)"
    proof -
      have "a \<in># mset (map snd S)" using that by simp
      then have "0 < count (mset (map snd S)) a" by (simp only: count_greater_zero_iff)
      then show ?thesis using one[of a] by linarith
    qed
    moreover have "count (mset (map snd S)) a = 0" if "a \<notin> set (map snd S)"
      using that by (simp only: count_eq_zero_iff set_mset_mset not_False_eq_True)
    ultimately show "count (mset (map snd S)) a = (if a \<in> set (map snd S) then 1 else 0)"
      by (cases "a \<in> set (map snd S)") auto
  qed
qed

lemma global_dis_vec: "global_dis f q = (\<lambda>g. fvec_L2sqr q (flat_vec f g))"
  by (simp add: global_dis_def flat_vec_def fun_eq_iff)

lemma cspg_search_ok:
  assumes ok: "cspg_ok cs" "cs_shared_flat cs = Some f" "cs_M cs \<le> 64" "cs_refunction cs ! 0 \<noteq> []" and k: "1 \<le> k"
    and efs: "cspg_efs cs (int k) params = (ef1, ef2)"
    and sched: "distinct (concat sched)" "set (concat sched) = {..<n}" "length rows = n"
  shows "\<exists>rows' stats. cspg_search cs x (int k) params sched rows = Some (Inr (rows', stats)) \<and> length rows' = n \<and>
    (\<forall>q < n. cspg_row_ok cs (\<lambda>g. fvec_L2sqr (row (cs_d cs) q x) (flat_vec f g)) (nat ef2) k (rows' ! q))"
proof -
  have ne: "0 < length (cs_refunction cs ! 0)" using ok(4) by simp
  have "0 < cs_num_partitions cs" using cspg_okE(2)[OF ok(1)] by simp
  from partition_of_facts(3)[OF cspg_okE(1)[OF ok(1)] this ne] have "0 < cs_ntotal cs" by simp
  moreover have "k \<le> nat ef2" using cspg_efs_ge[OF efs] by simp
  ultimately show ?thesis
    using search_one_ok[OF ok(1,3) k _ ne, of "nat ef2" _ f ef1]
    unfolding global_dis_vec by (intro cspg_search_rows[OF ok(1,2) _ k efs sched]) blast+
qed

text \<open>C30. \<open>IndexCSPG::search\<close> ends without an exception on every well-formed index whose partition 0 is
  not empty and whose lists of neighbors have at most 128 entries, for every schedule of the queries on
  threads. The row of a query lists the \<open>k\<close> nearest of a non-empty set of the stored vectors with their
  true distances in ascending order: no vector occurs twice, although routing vectors are in every
  partition. This holds for any parameters; a selector in them is ignored by the code, so the set is one of
  stored vectors, selected or not.\<close>

theorem cspg_search_correct:
  assumes "cspg_ok cs" "cs_shared_flat cs = Some f" "cs_M cs \<le> 64" "cs_refunction cs ! 0 \<noteq> []" "1 \<le> k"
    and "distinct (concat sched)" "set (concat sched) = {..<n}" "length rows = n"
  shows "\<exists>rows' stats. cspg_search cs x (int k) params sched rows = Some (Inr (rows', stats)) \<and> length rows' = n \<and>
    (\<forall>q < n. \<exists>V S. V \<noteq> {} \<and> V \<subseteq> {..<cs_ntotal cs} \<and> topk k (pairs (\<lambda>g. fvec_L2sqr (row (cs_d cs) q x) (flat_vec f g)) None V) S \<and>
       distinct (map snd S) \<and> rows' ! q = S @ replicate (k - length S) (FLT_MAX, -1))"
proof -
  obtain ef1 ef2 where efs: "cspg_efs cs (int k) params = (ef1, ef2)" by fastforce
  from cspg_search_ok[OF assms(1-5) efs assms(6-8), of x] obtain rows' stats where
    r: "cspg_search cs x (int k) params sched rows = Some (Inr (rows', stats))" "length rows' = n"
      "\<forall>q < n. cspg_row_ok cs (\<lambda>g. fvec_L2sqr (row (cs_d cs) q x) (flat_vec f g)) (nat ef2) k (rows' ! q)" by blast
  have "\<exists>V S. V \<noteq> {} \<and> V \<subseteq> {..<cs_ntotal cs} \<and> topk k (pairs (\<lambda>g. fvec_L2sqr (row (cs_d cs) q x) (flat_vec f g)) None V) S \<and>
       distinct (map snd S) \<and> rows' ! q = S @ replicate (k - length S) (FLT_MAX, -1)" if "q < n" for q
  proof -
    let ?gd = "\<lambda>g. fvec_L2sqr (row (cs_d cs) q x) (flat_vec f g)"
    have "cspg_row_ok cs ?gd (nat ef2) k (rows' ! q)" using r(3) that by blast
    then obtain V S where V: "V \<noteq> {}" "V \<subseteq> {..<cs_ntotal cs}" "topk k (pairs ?gd None V) S"
      "rows' ! q = S @ replicate (k - length S) (FLT_MAX, -1)" by (rule cspg_row_okE)
    show ?thesis by (intro exI[of _ V] exI[of _ S] conjI V topk_pairs_distinct[OF V(3)])
  qed
  then show ?thesis using r(1,2) by blast
qed

text \<open>C31. Let the index be well-formed with \<open>M \<le> 64\<close>, so that the buffer of neighbors does not overflow, let
  partition 0 be non-empty and every vector reachable from each of its vertices through the graphs and
  their crossings, let \<open>k \<ge> 1\<close>, \<open>efSearch\<close> be at least the number of vectors and the parameters have no selector.
  Then the search is exact: every row lists the \<open>k\<close> nearest of all stored vectors. So the split into
  partitions loses no vector: those outside partition 0 are reached through the copies of routing vectors.
  Without the condition on partition 0 this fails: \<open>cspg_single_vector_lost\<close> is an index of one vector that
  a search does not find.\<close>

theorem cspg_search_exact:
  assumes "cspg_ok cs" "cs_shared_flat cs = Some f" "cs_M cs \<le> 64" "cs_refunction cs ! 0 \<noteq> []" "1 \<le> k"
    and "distinct (concat sched)" "set (concat sched) = {..<n}" "length rows = n"
    and "crossing_connected cs" "int (cs_ntotal cs) \<le> snd (cspg_efs cs (int k) params)" "cspg_sel params = None"
  shows "\<exists>rows' stats. cspg_search cs x (int k) params sched rows = Some (Inr (rows', stats)) \<and> length rows' = n \<and>
    (\<forall>q < n. \<exists>S. topk k (pairs (\<lambda>g. fvec_L2sqr (row (cs_d cs) q x) (flat_vec f g)) None {..<cs_ntotal cs}) S \<and>
       rows' ! q = S @ replicate (k - length S) (FLT_MAX, -1))"
proof -
  obtain ef1 ef2 where efs: "cspg_efs cs (int k) params = (ef1, ef2)" by fastforce
  from cspg_search_ok[OF assms(1-5) efs assms(6-8), of x] obtain rows' stats where
    r: "cspg_search cs x (int k) params sched rows = Some (Inr (rows', stats))" "length rows' = n"
      "\<forall>q < n. cspg_row_ok cs (\<lambda>g. fvec_L2sqr (row (cs_d cs) q x) (flat_vec f g)) (nat ef2) k (rows' ! q)" by blast
  have ef: "cs_ntotal cs \<le> nat ef2" using assms(10) efs by simp
  have "\<exists>S. topk k (pairs (\<lambda>g. fvec_L2sqr (row (cs_d cs) q x) (flat_vec f g)) None {..<cs_ntotal cs}) S \<and>
       rows' ! q = S @ replicate (k - length S) (FLT_MAX, -1)" if "q < n" for q
  proof -
    let ?gd = "\<lambda>g. fvec_L2sqr (row (cs_d cs) q x) (flat_vec f g)"
    have "cspg_row_ok cs ?gd (nat ef2) k (rows' ! q)" using r(3) that by blast
    then obtain V S where "V \<noteq> {}" "V \<subseteq> {..<cs_ntotal cs}" "topk k (pairs ?gd None V) S" "rows' ! q = S @ replicate (k - length S) (FLT_MAX, -1)"
      "cs_ntotal cs \<le> nat ef2 \<and> crossing_connected cs \<longrightarrow> V = {..<cs_ntotal cs}" by (rule cspg_row_okE)
    then show ?thesis using ef assms(9) by (intro exI[of _ S]) simp
  qed
  then show ?thesis using r(1,2) by blast
qed

section \<open>Construction\<close>

lemma new_cspg:
  assumes "IndexCSPG dm M np lam met = Inr cs"
  shows "cs_ntotal cs = 0" "cs_global_to_local cs = []" "cs_num_partitions cs = nat np" "1 \<le> cs_num_partitions cs"
    "cs_M cs = M" "cs_efConstruction cs = 40" "cs_lambda cs = lam" "cs_d cs = dm" "cspg_reset cs = cs" "cs_efSearch cs = 128"
  using assms by (auto simp: IndexCSPG_def throw_unless_def cspg_reset_def split: if_splits)

text \<open>C32. \<open>IndexCSPG::add\<close> on a new index, for any result of the shuffle, any random numbers and any
  draws of levels: it ends without an exception. Every stored vector is in some partition and the reverse
  mapping names one of its places; two places hold the same vector only if they have the same local id below
  \<open>num_routing\<close>, so exactly the routing vectors are shared, by all partitions, and at least one vector is
  shared from two on. Every partition has a well-formed graph over its local ids, without isolated vertices
  from two on, and every vector can be reconstructed.\<close>

theorem cspg_add_correct:
  assumes "IndexCSPG dm M np lam METRIC_L2 = Inr cs" "1 \<le> M"
    and "\<forall>l < L. 1 / 10 ^ 9 \<le> proba l" "proba L < 1 / 10 ^ 9" "1 \<le> L"
    and "0 < n" "length x = n * dm" "mset (shuffle [0..<n]) = mset [0..<n]"
  shows "\<exists>cs'. cspg_add proba draws rnd2 shuffle rnd cs (int n) x = Some (Inr cs') \<and> cspg_ok cs' \<and>
    cs_ntotal cs' = n \<and> length (cs_refunction cs') = nat np \<and> cs_num_routing cs' < n \<and> (2 \<le> n \<longrightarrow> 1 \<le> cs_num_routing cs') \<and>
    (\<forall>g < n. \<exists>p < nat np. \<exists>a < length (cs_refunction cs' ! p).
       cs_refunction cs' ! p ! a = g \<and> cs_global_to_local cs' ! g = (int p, int a)) \<and>
    (\<forall>p < nat np. \<forall>q < nat np. \<forall>a < length (cs_refunction cs' ! p). \<forall>b < length (cs_refunction cs' ! q).
       cs_refunction cs' ! p ! a = cs_refunction cs' ! q ! b \<longleftrightarrow> a = b \<and> (p = q \<or> a < cs_num_routing cs')) \<and>
    (\<forall>p < nat np. graph_ok (ih_hnsw (cs_partitions cs' ! p)) \<and>
       length (hn_levels (ih_hnsw (cs_partitions cs' ! p))) = length (cs_refunction cs' ! p) \<and>
       (2 \<le> length (cs_refunction cs' ! p) \<longrightarrow>
         (\<forall>v < length (cs_refunction cs' ! p). nbrs (ih_hnsw (cs_partitions cs' ! p)) v 0 \<noteq> []))) \<and>
    (\<forall>g < n. cspg_reconstruct cs' (int g) = Inr (row dm g x))"
proof -
  note N = new_cspg[OF assms(1)]
  have "length x = n * cs_d cs" using assms(7) N(8) by simp
  moreover have "1 \<le> cs_M cs" "1 \<le> cs_efConstruction cs" using N assms(2) by simp_all
  ultimately obtain cs' f where
    a: "cspg_add proba draws rnd2 shuffle rnd cs (int n) x = Some (Inr cs')" "cspg_ok cs'" "cs_ntotal cs' = n"
      "cs_num_routing cs' = compute_num_routing n lam" "cs_shared_flat cs' = Some f" "\<forall>g < n. flat_vec f g = row dm g x"
      "cs_num_partitions cs' = nat np" "cs_d cs' = dm"
    using cspg_add_ok[where cs = cs and proba = proba and L = L and n = n and x = x and shuffle = shuffle and draws = draws and ?rnd2.0 = rnd2 and rnd = rnd]
      N assms(3-6,8) by auto
  let ?ref = "cs_refunction cs'" and ?nr = "cs_num_routing cs'"
  have P: "partition_of n (nat np) ?nr ?ref" using cspg_okE(1)[OF a(2)] a(3,7) by simp
  have parts: "part_ok (cs_M cs') (length (?ref ! p)) (cs_partitions cs' ! p)" if "p < nat np" for p
    using cspg_okE(3)[OF a(2)] a(7) that by simp
  have fd: "fl_d f = dm" using a(2,5,8) by (simp add: cspg_ok_def)
  have g2l: "g2l_inv ?ref n {..<n} (cs_global_to_local cs')" using a(2,3) by (simp add: cspg_ok_def)
  have "\<exists>p < nat np. \<exists>a < length (?ref ! p). ?ref ! p ! a = g \<and> cs_global_to_local cs' ! g = (int p, int a)" if "g < n" for g
    using g2l that partition_of_facts(1)[OF P] by (auto simp: g2l_inv_def g2l_entry_def)
  moreover have "?ref ! p ! a = ?ref ! q ! b \<longleftrightarrow> a = b \<and> (p = q \<or> a < ?nr)"
    if "p < nat np" "q < nat np" "a < length (?ref ! p)" "b < length (?ref ! q)" for p q a b
    using partition_of_facts(5)[OF P that] partition_of_facts(4)[OF P that(1,2), of a] by metis
  moreover have "graph_ok (ih_hnsw (cs_partitions cs' ! p))"
    "length (hn_levels (ih_hnsw (cs_partitions cs' ! p))) = length (?ref ! p)"
    "2 \<le> length (?ref ! p) \<longrightarrow> (\<forall>v < length (?ref ! p). nbrs (ih_hnsw (cs_partitions cs' ! p)) v 0 \<noteq> [])" if "p < nat np" for p
  proof -
    have b: "built (ih_hnsw (cs_partitions cs' ! p)) {..<length (?ref ! p)}" "length (hn_levels (ih_hnsw (cs_partitions cs' ! p))) = length (?ref ! p)"
      using parts[OF that] by (simp_all add: part_ok_def)
    show "graph_ok (ih_hnsw (cs_partitions cs' ! p))" by (rule built_graph_ok[OF b(1)])
    show "length (hn_levels (ih_hnsw (cs_partitions cs' ! p))) = length (?ref ! p)" by (rule b(2))
    show "2 \<le> length (?ref ! p) \<longrightarrow> (\<forall>v < length (?ref ! p). nbrs (ih_hnsw (cs_partitions cs' ! p)) v 0 \<noteq> [])"
      using b(1) by (simp add: built_def)
  qed
  moreover have "cspg_reconstruct cs' (int g) = Inr (row dm g x)" if "g < n" for g
  proof -
    have "flat_vec f g = row dm g x" using a(6) that by simp
    then show ?thesis using that a(3,5,8) fd by (simp add: cspg_reconstruct_def throw_unless_def flat_vec_def slice_def)
  qed
  moreover have "?nr < n" "2 \<le> n \<longrightarrow> 1 \<le> ?nr"
    using compute_num_routing_range[of n lam] assms(6) a(4) by simp_all
  ultimately show ?thesis
    using a(1-3) partition_of_facts(1)[OF P] by (intro exI[of _ cs'] conjI allI impI) simp_all
qed

lemma bind_result_Inr_iff: "bind_result z (\<lambda>v. Inr (g v)) = Inr y \<longleftrightarrow> (\<exists>v. z = Inr v \<and> y = g v)"
  by (cases z) auto

text \<open>C33. The errors and the life of an \<open>IndexCSPG\<close>: the constructor throws for a metric other than L2, for
  fewer than one partition and for a \<open>lambda\<close> outside (0, 1); a search before the vectors are added throws, as does
  one for no neighbors after that; \<open>add\<close> succeeds only with a vector and only once: a second \<open>add\<close> throws
  whatever its arguments, until \<open>reset\<close>, which gives the new index back.\<close>

theorem cspg_lifecycle:
  assumes "IndexCSPG dm M np lam met = Inr cs" "cspg_add proba draws rnd2 shuffle rnd cs ni x = Some (Inr cs')"
  shows "met = METRIC_L2 \<and> 1 \<le> np \<and> 0 < lam \<and> lam < 1 \<and> 0 < ni \<and>
    cspg_search cs q k params sched rows = Some (Inl (FaissException ''IndexCSPG::search on empty index'')) \<and>
    (k \<le> 0 \<longrightarrow> cspg_search cs' q k params sched rows = Some (Inl (FaissException ''k > 0''))) \<and>
    (\<exists>e. cspg_add proba' draws' rnd2' shuffle' rnd' cs' ni' x' = Some (Inl (FaissException e))) \<and> cspg_reset cs' = cs"
proof -
  note N = new_cspg[OF assms(1)]
  have c: "met = METRIC_L2 \<and> 1 \<le> np \<and> 0 < lam \<and> lam < 1"
    using assms(1) by (auto simp: IndexCSPG_def throw_unless_def split: if_splits)
  have n: "0 < ni" using assms(2) by (auto simp: cspg_add_def split: if_splits)
  from assms(2) N(1) n obtain f parts nr ref g2l where cs': "cs' = cs\<lparr> cs_ntotal := nat ni, cs_num_routing := nr, cs_refunction := ref,
      cs_global_to_local := g2l, cs_shared_flat := Some f, cs_partitions := parts \<rparr>"
    unfolding cspg_add_def Let_def by (simp add: bind_result_Inr_iff) blast
  have "cspg_reset cs' = cspg_reset cs" by (simp add: cs' cspg_reset_def)
  then show ?thesis
    using n c N(1,9) by (simp add: cspg_add_def cspg_search_def cs')
qed

text \<open>An index of one vector in several partitions does not find it unless the generator puts it
  into partition 0: \<open>add\<close> succeeds with no routing vector, the search starts in the empty partition 0
  and every row is padding, whatever the query.\<close>

theorem cspg_single_vector_lost:
  assumes "IndexCSPG dm M np lam METRIC_L2 = Inr cs" "1 \<le> M"
    and "\<forall>l < L. 1 / 10 ^ 9 \<le> proba l" "proba L < 1 / 10 ^ 9" "1 \<le> L"
    and "length x = dm" "shuffle [0] = [0]" "rnd 0 mod nat np \<noteq> 0"
    and "1 \<le> k" "distinct (concat sched)" "set (concat sched) = {..<n}" "length rows = n"
  shows "\<exists>cs' rows' stats. cspg_add proba draws rnd2 shuffle rnd cs 1 x = Some (Inr cs') \<and> cs_ntotal cs' = 1 \<and>
    cspg_search cs' q (int k) params sched rows = Some (Inr (rows', stats)) \<and> length rows' = n \<and>
    (\<forall>i < n. rows' ! i = replicate k (FLT_MAX, -1))"
proof -
  note N = new_cspg[OF assms(1)]
  have "length x = 1 * cs_d cs" using assms(6) N(8) by simp
  moreover have "1 \<le> cs_M cs" "1 \<le> cs_efConstruction cs" using N assms(2) by simp_all
  moreover have "mset (shuffle [0..<1]) = mset [0..<1]" using assms(7) by simp
  ultimately obtain cs' f where
    a: "cspg_add proba draws rnd2 shuffle rnd cs 1 x = Some (Inr cs')" "cspg_ok cs'" "cs_ntotal cs' = 1"
      "cs_shared_flat cs' = Some f" "cs_num_partitions cs' = nat np"
      "cs_refunction cs' = build_refunction rnd (shuffle [0..<1]) 1 (nat np) (compute_num_routing 1 lam)"
    using cspg_add_ok[where cs = cs and proba = proba and L = L and n = 1 and x = x and shuffle = shuffle and draws = draws and ?rnd2.0 = rnd2 and rnd = rnd]
      N assms(3-5) by auto
  have "compute_num_routing 1 lam = 0" using compute_num_routing_range(1)[of 1 lam] by simp
  then have "cs_refunction cs' ! 0 = []"
    using assms(8) N(3,4) unfolding a(6)
    by (simp add: build_refunction_def assign_step_def mark_routing_def push_back_at_def)
  moreover have "0 < cs_num_partitions cs'" using N(3,4) a(5) by simp
  ultimately have "part_ok (cs_M cs') 0 (cs_partitions cs' ! 0)" using cspg_okE(3)[OF a(2), of 0] by simp
  then have ep: "hn_entry_point (ih_hnsw (cs_partitions cs' ! 0)) < 0" by (simp add: part_ok_def built_def)
  obtain ef1 ef2 where efs: "cspg_efs cs' (int k) params = (ef1, ef2)" by fastforce
  have "0 < cs_ntotal cs'" using a(3) by simp
  from cspg_search_rows[OF a(2,4) this assms(9) efs assms(10-12), of q "\<lambda>i r. r = replicate k (FLT_MAX, -1)"]
  obtain rows' stats where "cspg_search cs' q (int k) params sched rows = Some (Inr (rows', stats))" "length rows' = n"
    "\<forall>i < n. rows' ! i = replicate k (FLT_MAX, -1)" using ep by (auto simp: cspg_search_one_def)
  with a(1,3) show ?thesis by blast
qed

section \<open>Witnesses\<close>

text \<open>Two vectors in two partitions, the first one a routing vector.\<close>

lemma demo_new: "\<exists>cs. IndexCSPG 1 1 2 (1 / 2) METRIC_L2 = Inr cs"
  by (simp add: IndexCSPG_def throw_unless_def)

theorem cspg_add_correct_witness:
  "\<exists>cs cs'. IndexCSPG 1 1 2 (1 / 2) METRIC_L2 = Inr cs \<and>
     cspg_add demo_proba [0, 7 / 8] (\<lambda>c. 3) (\<lambda>xs. xs) (\<lambda>c. 0) cs (int 2) [5, 9] = Some (Inr cs') \<and>
     cs_num_routing cs' = 1 \<and> cspg_reconstruct cs' 1 = Inr [9]"
proof -
  obtain cs where new: "IndexCSPG 1 1 2 (1 / 2) METRIC_L2 = Inr cs" using demo_new by blast
  have "(0 :: nat) < 2" "length [5, 9 :: float_t] = 2 * 1" "mset [0..<2] = mset [0..<2]" "(1 :: nat) \<le> 1" "(1 :: nat) \<le> 2" by simp_all
  from cspg_add_correct[OF new this(4) demo_proba this(5,1,2), of "\<lambda>xs. xs" "[0, 7 / 8]" "\<lambda>c. 3" "\<lambda>c. 0"] obtain cs' where
    a: "cspg_add demo_proba [0, 7 / 8] (\<lambda>c. 3) (\<lambda>xs. xs) (\<lambda>c. 0) cs (int 2) [5, 9] = Some (Inr cs')"
      "cs_num_routing cs' < 2" "1 \<le> cs_num_routing cs'" "\<forall>g < 2. cspg_reconstruct cs' (int g) = Inr (row 1 g [5, 9])" by auto
  have "cspg_reconstruct cs' (int 1) = Inr (row 1 1 [5, 9])" using a(4)[rule_format, of 1] by simp
  then have "cspg_reconstruct cs' 1 = Inr [9]" by (simp add: slice_def)
  then show ?thesis using new a by (intro exI[of _ cs] exI[of _ cs']) auto
qed

lemma demo_cspg:
  "\<exists>cs f. cspg_ok cs \<and> cs_shared_flat cs = Some f \<and> cs_M cs = 1 \<and> cs_d cs = 1 \<and> cs_ntotal cs = 2 \<and> cs_num_partitions cs = 2 \<and>
     cs_refunction cs = [[0, 1], [0]] \<and> flat_vec f 0 = [5] \<and> flat_vec f 1 = [9]"
proof -
  obtain cs where new: "IndexCSPG 1 1 2 (1 / 2) METRIC_L2 = Inr cs" using demo_new by blast
  note N = new_cspg[OF new]
  obtain cs' f where a: "cspg_ok cs'" "cs_shared_flat cs' = Some f" "cs_M cs' = 1" "cs_d cs' = 1" "cs_ntotal cs' = 2"
      "cs_num_partitions cs' = 2" "cs_refunction cs' = build_refunction (\<lambda>c. 0) [0..<2] 2 2 (compute_num_routing 2 (1 / 2))"
      "\<forall>g < 2. flat_vec f g = row 1 g [5, 9]"
    using cspg_add_ok[where cs = cs and proba = demo_proba and L = 2 and n = 2 and x = "[5, 9]" and shuffle = "\<lambda>xs. xs"
      and draws = "[0, 7 / 8]" and ?rnd2.0 = "\<lambda>c. 3" and rnd = "\<lambda>c. 0"] N demo_proba by auto
  have "compute_num_routing 2 (1 / 2) = 1" by (simp add: compute_num_routing_def)
  then have "cs_refunction cs' = [[0, 1], [0]]"
    unfolding a(7) by (simp add: build_refunction_def assign_step_def mark_routing_def push_back_at_def numeral_2_eq_2)
  moreover have "flat_vec f 0 = [5]" "flat_vec f 1 = [9]" using a(8) by (simp_all add: slice_def)
  ultimately show ?thesis using a by blast
qed

lemma demo_crossing_connected:
  assumes "cspg_ok cs" "cs_ntotal cs = 2" "cs_num_partitions cs = 2" "cs_refunction cs = [[0, 1], [0]]"
  shows "crossing_connected cs"
proof -
  let ?h = "ih_hnsw (cs_partitions cs ! 0)"
  have p: "part_ok (cs_M cs) 2 (cs_partitions cs ! 0)" using cspg_okE(3)[OF assms(1), of 0] assms(3,4) by (simp add: numeral_2_eq_2)
  then have b: "\<forall>l. level_ok ?h {..<2} l" "\<forall>v < 2. nbrs ?h v 0 \<noteq> []" by (auto simp: part_ok_def built_def)
  have step: "((0, v), (0, 1 - v)) \<in> crossing cs" if "v < 2" for v
  proof -
    have l: "set (nbrs ?h v 0) \<subseteq> {..<2}" "v \<notin> set (nbrs ?h v 0)"
      using b(1) part_on_level[OF p that] by (auto simp: level_ok_def)
    define w where "w = hd (nbrs ?h v 0)"
    have w: "w \<in> set (nbrs ?h v 0)" using b(2) that by (simp add: w_def)
    then have "w \<in> {..<2}" "w \<noteq> v" using l by blast+
    then have "w = 1 - v" using that by auto
    with w show ?thesis using assms(3) by (simp add: crossing_def cnbrs_def)
  qed
  show ?thesis unfolding crossing_connected_def
  proof (intro conjI allI impI)
    show "cs_refunction cs ! 0 \<noteq> []" using assms(4) by simp
  next
    fix v g assume v: "v < length (cs_refunction cs ! 0)" and g: "g < cs_ntotal cs"
    have vg: "v < 2" "g < 2" using v g assms(2,4) by simp_all
    have "((0, v), (0, g)) \<in> (crossing cs)\<^sup>*"
    proof (cases "g = v")
      case False
      then have "g = 1 - v" using vg by auto
      then show ?thesis using step[OF vg(1)] by blast
    qed simp
    moreover have "cs_refunction cs ! 0 ! g = g" using vg assms(4) by (auto simp: less_Suc_eq numeral_2_eq_2)
    ultimately show "\<exists>p a. ((0, v), (p, a)) \<in> (crossing cs)\<^sup>* \<and> p < cs_num_partitions cs \<and> cs_refunction cs ! p ! a = g"
      using assms(3) by (intro exI[of _ 0] exI[of _ g]) simp
  qed
qed

theorem cspg_search_correct_witness:
  "\<exists>cs f rows' stats. cs_shared_flat cs = Some f \<and>
     cspg_search cs [6] (int 1) None [[0]] [[(0, 0)]] = Some (Inr (rows', stats)) \<and>
     (\<exists>V S. V \<noteq> {} \<and> V \<subseteq> {..<2} \<and> topk 1 (pairs (\<lambda>g. fvec_L2sqr (row 1 0 [6]) (flat_vec f g)) None V) S \<and>
       distinct (map snd S) \<and> rows' ! 0 = S @ replicate (1 - length S) (FLT_MAX, -1))"
proof -
  obtain cs f where d: "cspg_ok cs" "cs_shared_flat cs = Some f" "cs_M cs = 1" "cs_d cs = 1" "cs_ntotal cs = 2"
    "cs_refunction cs = [[0, 1], [0]]" using demo_cspg by blast
  have "cs_M cs \<le> 64" "cs_refunction cs ! 0 \<noteq> []" using d by simp_all
  from cspg_search_correct[OF d(1,2) this, of 1 "[[0]]" 1 "[[(0, 0)]]" "[6]" None, unfolded d(4,5)] show ?thesis
    using d(2) by (simp only: less_one lessThan_Suc) (simp, blast)
qed

theorem cspg_search_exact_witness:
  "\<exists>cs f rows' stats. cs_shared_flat cs = Some f \<and>
     cspg_search cs [6] (int 1) (Some \<lparr> cp_sel = None, cp_cspg = Some (2, 1) \<rparr>) [[0]] [[(0, 0)]] = Some (Inr (rows', stats)) \<and>
     (\<exists>S. topk 1 (pairs (\<lambda>g. fvec_L2sqr (row 1 0 [6]) (flat_vec f g)) None {..<2}) S \<and>
       rows' ! 0 = S @ replicate (1 - length S) (FLT_MAX, -1))"
proof -
  obtain cs f where d: "cspg_ok cs" "cs_shared_flat cs = Some f" "cs_M cs = 1" "cs_d cs = 1" "cs_ntotal cs = 2"
    "cs_num_partitions cs = 2" "cs_refunction cs = [[0, 1], [0]]" using demo_cspg by blast
  have c: "cs_M cs \<le> 64" "cs_refunction cs ! 0 \<noteq> []" using d by simp_all
  let ?p = "Some \<lparr> cp_sel = None, cp_cspg = Some (2, 1) \<rparr>"
  have ef: "int (cs_ntotal cs) \<le> snd (cspg_efs cs (int 1) ?p)" using d(5) by (simp add: cspg_efs_def)
  have sel: "cspg_sel ?p = None" by (simp add: cspg_sel_def)
  from cspg_search_exact[OF d(1,2) c _ _ _ _ demo_crossing_connected[OF d(1,5,6,7)] ef sel, of "[[0]]" 1 "[[(0, 0)]]" "[6]", unfolded d(4,5)]
  show ?thesis using d(2) by (simp only: less_one lessThan_Suc) (simp, blast)
qed

theorem cspg_lifecycle_witness:
  "\<exists>cs cs' e. IndexCSPG 1 1 2 (1 / 2) METRIC_L2 = Inr cs \<and>
     cspg_add demo_proba [0, 7 / 8] (\<lambda>c. 3) (\<lambda>xs. xs) (\<lambda>c. 0) cs 2 [5, 9] = Some (Inr cs') \<and>
     cspg_add demo_proba [0] (\<lambda>c. 3) (\<lambda>xs. xs) (\<lambda>c. 0) cs' 1 [7] = Some (Inl (FaissException e)) \<and> cspg_reset cs' = cs"
proof -
  obtain cs where new: "IndexCSPG 1 1 2 (1 / 2) METRIC_L2 = Inr cs" using demo_new by blast
  note N = new_cspg[OF new]
  obtain cs' where a: "cspg_add demo_proba [0, 7 / 8] (\<lambda>c. 3) (\<lambda>xs. xs) (\<lambda>c. 0) cs 2 [5, 9] = Some (Inr cs')"
    using cspg_add_ok[where cs = cs and proba = demo_proba and L = 2 and n = 2 and x = "[5, 9]" and shuffle = "\<lambda>xs. xs"
      and draws = "[0, 7 / 8]" and ?rnd2.0 = "\<lambda>c. 3" and rnd = "\<lambda>c. 0"] N demo_proba by auto
  from cspg_lifecycle[OF new a] have
    "\<exists>e. cspg_add demo_proba [0] (\<lambda>c. 3) (\<lambda>xs. xs) (\<lambda>c. 0) cs' 1 [7] = Some (Inl (FaissException e))" "cspg_reset cs' = cs"
    by blast+
  then show ?thesis using new a by blast
qed

theorem cspg_single_vector_lost_witness:
  "\<exists>cs cs' rows' stats. IndexCSPG 1 1 2 (1 / 2) METRIC_L2 = Inr cs \<and>
     cspg_add demo_proba [0] (\<lambda>c. 3) (\<lambda>xs. xs) (\<lambda>c. 822569775) cs 1 [5] = Some (Inr cs') \<and> cs_ntotal cs' = 1 \<and>
     cspg_search cs' [5] (int 1) None [[0]] [[(0, 0)]] = Some (Inr (rows', stats)) \<and> rows' ! 0 = [(FLT_MAX, -1)]"
proof -
  obtain cs where new: "IndexCSPG 1 1 2 (1 / 2) METRIC_L2 = Inr cs" using demo_new by blast
  have "\<exists>cs' rows' stats. cspg_add demo_proba [0] (\<lambda>c. 3) (\<lambda>xs. xs) (\<lambda>c. 822569775) cs 1 [5] = Some (Inr cs') \<and> cs_ntotal cs' = 1 \<and>
    cspg_search cs' [5] (int 1) None [[0]] [[(0, 0)]] = Some (Inr (rows', stats)) \<and> length rows' = 1 \<and>
    (\<forall>i < 1. rows' ! i = replicate 1 (FLT_MAX, -1))"
    by (rule cspg_single_vector_lost[OF new _ demo_proba]) (auto simp: lessThan_Suc)
  then obtain cs' rows' stats where
    "cspg_add demo_proba [0] (\<lambda>c. 3) (\<lambda>xs. xs) (\<lambda>c. 822569775) cs 1 [5] = Some (Inr cs')" "cs_ntotal cs' = 1"
    "cspg_search cs' [5] (int 1) None [[0]] [[(0, 0)]] = Some (Inr (rows', stats))"
    "\<forall>i < 1. rows' ! i = replicate 1 (FLT_MAX, -1)" by blast
  then show ?thesis using new by (intro exI conjI) auto
qed

end
