(* ===== verification/Pgm.thy ===== *)
theory Pgm
  imports Loops
begin

text \<open>
  The learned index under \<open>ShortcutMap\<close> (\<open>faiss/impl/pgm/piecewise_linear_model.hpp\<close>,
  \<open>faiss/impl/pgm/pgm_index.hpp\<close>): the streaming algorithm that fits segments within a given error, the
  levels of segments, and the search for a window of positions. Keys are \<open>float\<close>, so the branch of
  \<open>get_floating_point_segment\<close> for floating keys and the linear scan of \<open>segment_for_key\<close> are the ones
  compiled (\<open>EpsilonRecursive\<close> is 4, the threshold 42). \<open>float\<close> and \<open>long double\<close> are exact, positions
  are integers, and the conversion of a product to \<open>int64_t\<close> is taken to be in range.
\<close>

section \<open>Points and slopes\<close>

text \<open>A \<open>Point\<close> (x, y) and a \<open>Slope\<close> (dx, dy).\<close>

type_synonym plm_point = "float_t \<times> int"
type_synonym plm_slope = "float_t \<times> int"

definition slope_less :: "plm_slope \<Rightarrow> plm_slope \<Rightarrow> bool" where
  "slope_less s p \<longleftrightarrow> of_int (snd s) * fst p < fst s * of_int (snd p)"

definition slope_greater :: "plm_slope \<Rightarrow> plm_slope \<Rightarrow> bool" where
  "slope_greater s p \<longleftrightarrow> of_int (snd s) * fst p > fst s * of_int (snd p)"

definition slope_equal :: "plm_slope \<Rightarrow> plm_slope \<Rightarrow> bool" where
  "slope_equal s p \<longleftrightarrow> of_int (snd s) * fst p = fst s * of_int (snd p)"

definition slope_value :: "plm_slope \<Rightarrow> float_t" where
  "slope_value s = of_int (snd s) / fst s"

definition point_minus :: "plm_point \<Rightarrow> plm_point \<Rightarrow> plm_slope" where
  "point_minus q p = (fst q - fst p, snd q - snd p)"

definition cross :: "plm_point \<Rightarrow> plm_point \<Rightarrow> plm_point \<Rightarrow> float_t" where
  "cross O' A B =
     (let OA = point_minus A O'; OB = point_minus B O'
      in fst OA * of_int (snd OB) - of_int (snd OA) * fst OB)"

section \<open>OptimalPiecewiseLinearModel\<close>

record plm =
  plm_epsilon :: int
  plm_lower :: "plm_point list"
  plm_upper :: "plm_point list"
  plm_first_x :: float_t
  plm_last_x :: float_t
  plm_lower_start :: nat
  plm_upper_start :: nat
  plm_points_in_hull :: nat
  plm_rect0 :: plm_point
  plm_rect1 :: plm_point
  plm_rect2 :: plm_point
  plm_rect3 :: plm_point

text \<open>The constructor; \<open>Y\<close> is \<open>size_t\<close>, so \<open>epsilon\<close> is never negative.\<close>

definition OptimalPiecewiseLinearModel :: "nat \<Rightarrow> plm" where
  "OptimalPiecewiseLinearModel eps =
     \<lparr> plm_epsilon = int eps, plm_lower = [], plm_upper = [], plm_first_x = 0, plm_last_x = 0,
       plm_lower_start = 0, plm_upper_start = 0, plm_points_in_hull = 0,
       plm_rect0 = (0, 0), plm_rect1 = (0, 0), plm_rect2 = (0, 0), plm_rect3 = (0, 0) \<rparr>"

text \<open>The greatest value of \<open>size_t\<close>, and the bounds \<open>y + epsilon\<close>, \<open>y - epsilon\<close> cut off at its range.\<close>

definition size_max :: int where
  "size_max = 2 ^ 64 - 1"

definition upper_y :: "int \<Rightarrow> int \<Rightarrow> int" where
  "upper_y eps y = (if y \<ge> size_max - eps then size_max else y + eps)"

definition lower_y :: "int \<Rightarrow> int \<Rightarrow> int" where
  "lower_y eps y = (if y \<le> 0 + eps then 0 else y - eps)"

text \<open>The loop that looks for the extreme slope from a hull to the new point \<open>p\<close>: \<open>i\<close> is the position of
  the head of the list, and the loop is left when the slope gets worse than the best one so far.\<close>

fun extreme_slope ::
  "(plm_slope \<Rightarrow> plm_slope \<Rightarrow> bool) \<Rightarrow> plm_point \<Rightarrow> plm_point list \<Rightarrow> nat \<Rightarrow> plm_slope \<times> nat \<Rightarrow> nat" where
  "extreme_slope worse p [] i best = snd best"
| "extreme_slope worse p (h # hs) i best =
     (let val = point_minus h p
      in if worse val (fst best) then snd best else extreme_slope worse p hs (i + 1) (val, i))"

text \<open>The loop that drops the points of a hull from its end.\<close>

fun hull_end :: "(float_t \<Rightarrow> bool) \<Rightarrow> nat \<Rightarrow> plm_point list \<Rightarrow> plm_point \<Rightarrow> nat \<Rightarrow> nat" where
  "hull_end dropped start pts p e =
     (if e \<ge> start + 2 \<and> dropped (cross (pts ! (e - 2)) (pts ! (e - 1)) p)
      then hull_end dropped start pts p (e - 1) else e)"

declare hull_end.simps [simp del]

text \<open>The two blocks of \<open>add_point\<close> that narrow the range of slopes and update a hull.\<close>

definition narrow_max :: "plm_point \<Rightarrow> plm \<Rightarrow> plm" where
  "narrow_max p1 s =
     (let ls = plm_lower_start s;
          min_i = extreme_slope slope_greater p1 (drop (ls + 1) (plm_lower s)) (ls + 1)
                    (point_minus (plm_lower s ! ls) p1, ls);
          e = hull_end (\<lambda>c. c \<le> 0) (plm_upper_start s) (plm_upper s) p1 (length (plm_upper s))
      in s\<lparr> plm_rect1 := plm_lower s ! min_i, plm_rect3 := p1, plm_lower_start := min_i,
            plm_upper := take e (plm_upper s) @ [p1] \<rparr>)"

definition narrow_min :: "plm_point \<Rightarrow> plm \<Rightarrow> plm" where
  "narrow_min p2 s =
     (let us = plm_upper_start s;
          max_i = extreme_slope slope_less p2 (drop (us + 1) (plm_upper s)) (us + 1)
                    (point_minus (plm_upper s ! us) p2, us);
          e = hull_end (\<lambda>c. c \<ge> 0) (plm_lower_start s) (plm_lower s) p2 (length (plm_lower s))
      in s\<lparr> plm_rect0 := plm_upper s ! max_i, plm_rect2 := p2, plm_upper_start := max_i,
            plm_lower := take e (plm_lower s) @ [p2] \<rparr>)"

definition plm_add_point :: "float_t \<Rightarrow> int \<Rightarrow> plm \<Rightarrow> (bool \<times> plm) result" where
  "plm_add_point x y s0 =
     (if plm_points_in_hull s0 > 0 \<and> x \<le> plm_last_x s0
      then Inl (StdException ''Points must be increasing by x.'')
      else
        let s = s0\<lparr> plm_last_x := x \<rparr>;
            p1 = (x, upper_y (plm_epsilon s) y); p2 = (x, lower_y (plm_epsilon s) y)
        in if plm_points_in_hull s = 0 then
             Inr (True, s\<lparr> plm_first_x := x, plm_rect0 := p1, plm_rect1 := p2, plm_upper := [p1], plm_lower := [p2],
                           plm_upper_start := 0, plm_lower_start := 0, plm_points_in_hull := 1 \<rparr>)
           else if plm_points_in_hull s = 1 then
             Inr (True, s\<lparr> plm_rect2 := p2, plm_rect3 := p1, plm_upper := plm_upper s @ [p1],
                           plm_lower := plm_lower s @ [p2], plm_points_in_hull := 2 \<rparr>)
           else
             let slope1 = point_minus (plm_rect2 s) (plm_rect0 s);
                 slope2 = point_minus (plm_rect3 s) (plm_rect1 s);
                 outside_line1 = slope_less (point_minus p1 (plm_rect2 s)) slope1;
                 outside_line2 = slope_greater (point_minus p2 (plm_rect3 s)) slope2
             in if outside_line1 \<or> outside_line2 then Inr (False, s\<lparr> plm_points_in_hull := 0 \<rparr>)
                else
                  let s1 = (if slope_less (point_minus p1 (plm_rect1 s)) slope2 then narrow_max p1 s else s);
                      s2 = (if slope_greater (point_minus p2 (plm_rect0 s1)) slope1 then narrow_min p2 s1 else s1)
                  in Inr (True, s2\<lparr> plm_points_in_hull := plm_points_in_hull s2 + 1 \<rparr>))"

section \<open>CanonicalSegment\<close>

record canonical_segment =
  cs_rect0 :: plm_point
  cs_rect1 :: plm_point
  cs_rect2 :: plm_point
  cs_rect3 :: plm_point
  cs_first :: float_t

definition get_segment :: "plm \<Rightarrow> canonical_segment" where
  "get_segment s =
     (if plm_points_in_hull s = 1
      then \<lparr> cs_rect0 = plm_rect0 s, cs_rect1 = plm_rect1 s, cs_rect2 = plm_rect0 s, cs_rect3 = plm_rect1 s,
             cs_first = plm_first_x s \<rparr>
      else \<lparr> cs_rect0 = plm_rect0 s, cs_rect1 = plm_rect1 s, cs_rect2 = plm_rect2 s, cs_rect3 = plm_rect3 s,
             cs_first = plm_first_x s \<rparr>)"

definition one_point :: "canonical_segment \<Rightarrow> bool" where
  "one_point cs \<longleftrightarrow> cs_rect0 cs = cs_rect2 cs \<and> cs_rect1 cs = cs_rect3 cs"

definition get_intersection :: "canonical_segment \<Rightarrow> float_t \<times> float_t" where
  "get_intersection cs =
     (let p0 = cs_rect0 cs; p1 = cs_rect1 cs; p2 = cs_rect2 cs; p3 = cs_rect3 cs;
          slope1 = point_minus p2 p0; slope2 = point_minus p3 p1
      in if one_point cs \<or> slope_equal slope1 slope2 then (fst p0, of_int (snd p0))
         else let p0p1 = point_minus p1 p0;
                  a = fst slope1 * of_int (snd slope2) - of_int (snd slope1) * fst slope2;
                  b = (fst p0p1 * of_int (snd slope2) - of_int (snd p0p1) * fst slope2) / a
              in (fst p0 + b * fst slope1, of_int (snd p0) + b * of_int (snd slope1)))"

definition get_slope_range :: "canonical_segment \<Rightarrow> float_t \<times> float_t" where
  "get_slope_range cs =
     (if one_point cs then (0, 1)
      else (slope_value (point_minus (cs_rect2 cs) (cs_rect0 cs)), slope_value (point_minus (cs_rect3 cs) (cs_rect1 cs))))"

text \<open>The conversion of a floating number to an integer type.\<close>

definition trunc_int :: "float_t \<Rightarrow> int" where
  "trunc_int x = (if x \<ge> 0 then \<lfloor>x\<rfloor> else \<lceil>x\<rceil>)"

definition get_floating_point_segment :: "canonical_segment \<Rightarrow> float_t \<Rightarrow> float_t \<times> int" where
  "get_floating_point_segment cs origin =
     (if one_point cs then (0, (snd (cs_rect0 cs) + snd (cs_rect1 cs)) div 2)
      else let (i_x, i_y) = get_intersection cs;
               (min_slope, max_slope) = get_slope_range cs;
               slope = (min_slope + max_slope) / 2;
               intercept = i_y - (i_x - origin) * slope
           in (slope, trunc_int intercept))"

section \<open>make_segmentation\<close>

type_synonym key_input = "nat \<Rightarrow> float_t \<times> nat"

text \<open>One iteration: the state is the model, the last point, the segments put out and their number.\<close>

definition segmentation_step ::
  "key_input \<Rightarrow> nat \<Rightarrow> plm \<times> (float_t \<times> nat) \<times> canonical_segment list \<times> nat \<Rightarrow>
    (plm \<times> (float_t \<times> nat) \<times> canonical_segment list \<times> nat) result" where
  "segmentation_step inp i s =
     (let (opt, p, outs, c) = s; next_p = inp i
      in if fst next_p = fst p then Inr s
         else bind_result (plm_add_point (fst next_p) (int (snd next_p)) opt)
           (\<lambda>(ok, opt'). if \<not> ok
              then bind_result (plm_add_point (fst next_p) (int (snd next_p)) opt')
                     (\<lambda>(_, opt''). Inr (opt'', next_p, outs @ [get_segment opt'], c + 1))
              else Inr (opt', next_p, outs, c)))"

fun segmentation_loop ::
  "key_input \<Rightarrow> nat list \<Rightarrow> plm \<times> (float_t \<times> nat) \<times> canonical_segment list \<times> nat \<Rightarrow>
    (plm \<times> (float_t \<times> nat) \<times> canonical_segment list \<times> nat) result" where
  "segmentation_loop inp [] s = Inr s"
| "segmentation_loop inp (i # is) s = bind_result (segmentation_step inp i s) (segmentation_loop inp is)"

definition make_segmentation :: "nat \<Rightarrow> nat \<Rightarrow> key_input \<Rightarrow> (canonical_segment list \<times> nat) result" where
  "make_segmentation n eps inp =
     (if n = 0 then Inr ([], 0)
      else let p = inp 0
           in bind_result (plm_add_point (fst p) (int (snd p)) (OptimalPiecewiseLinearModel eps))
                (\<lambda>(_, opt). bind_result (segmentation_loop inp [1..<n] (opt, p, [], 0))
                  (\<lambda>(opt', _, outs, c). Inr (outs @ [get_segment opt'], c + 1))))"

text \<open>The parallel version. \<open>parallelism\<close> is the smallest of the number of processors, of threads and 20; a
  chunk starts at the first key that differs from the one before.\<close>

definition chunk_start :: "key_input \<Rightarrow> nat \<Rightarrow> nat \<Rightarrow> nat" where
  "chunk_start inp first stop =
     (if first > 0 then first + length (takeWhile (\<lambda>j. fst (inp j) = fst (inp (j - 1))) [first..<stop]) else first)"

fun segmentation_chunks ::
  "key_input \<Rightarrow> nat \<Rightarrow> nat \<Rightarrow> nat \<Rightarrow> nat \<Rightarrow> nat list \<Rightarrow> (canonical_segment list \<times> nat) result" where
  "segmentation_chunks inp n eps parallelism chunk_size [] = Inr ([], 0)"
| "segmentation_chunks inp n eps parallelism chunk_size (i # is) =
     (let stop = (if i = parallelism - 1 then n else i * chunk_size + chunk_size);
          first = chunk_start inp (i * chunk_size) stop
      in bind_result (if i * chunk_size > 0 \<and> first = stop then Inr ([], 0)
                      else make_segmentation (stop - first) eps (\<lambda>j. inp (first + j)))
           (\<lambda>(v, c). bind_result (segmentation_chunks inp n eps parallelism chunk_size is)
             (\<lambda>(vs, cs). Inr (v @ vs, c + cs))))"

definition make_segmentation_par :: "nat \<Rightarrow> nat \<Rightarrow> nat \<Rightarrow> key_input \<Rightarrow> (canonical_segment list \<times> nat) result" where
  "make_segmentation_par parallelism n eps inp =
     (if parallelism = 1 \<or> n < 2 ^ 15 then make_segmentation n eps inp
      else segmentation_chunks inp n eps parallelism (n div parallelism) [0..<parallelism])"

section \<open>PGMIndex\<close>

record pgm_segment =
  seg_key :: float_t
  seg_slope :: float_t
  seg_intercept :: int

definition Segment_sentinel :: "nat \<Rightarrow> pgm_segment" where
  "Segment_sentinel n = \<lparr> seg_key = FLT_MAX, seg_slope = 0, seg_intercept = int n \<rparr>"

definition Segment_of :: "canonical_segment \<Rightarrow> pgm_segment result" where
  "Segment_of cs =
     (let key = cs_first cs; (cs_slope, cs_intercept) = get_floating_point_segment cs key
      in if cs_intercept > 2 ^ 31 - 1 then Inl (StdException ''Change the type of Segment::intercept to int64'')
         else Inr \<lparr> seg_key = key, seg_slope = cs_slope, seg_intercept = cs_intercept \<rparr>)"

fun segments_of :: "canonical_segment list \<Rightarrow> pgm_segment list result" where
  "segments_of [] = Inr []"
| "segments_of (c # cs) = bind_result (Segment_of c) (\<lambda>s. bind_result (segments_of cs) (\<lambda>ss. Inr (s # ss)))"

text \<open>\<open>operator()\<close>: the approximate position of a key.\<close>

definition segment_pos :: "pgm_segment \<Rightarrow> float_t \<Rightarrow> int" where
  "segment_pos sg k = (let pos = trunc_int (seg_slope sg * (k - seg_key sg)) + seg_intercept sg in if pos > 0 then pos else 0)"

record pgm_index =
  pgm_n :: nat
  pgm_first_key :: float_t
  pgm_segments :: "pgm_segment list"
  pgm_levels_offsets :: "nat list"

text \<open>\<open>build_level\<close>: \<open>last_key\<close> is the key before \<open>last\<close>.\<close>

definition build_level ::
  "nat \<Rightarrow> float_t \<Rightarrow> nat \<Rightarrow> nat \<Rightarrow> key_input \<Rightarrow> pgm_segment list \<Rightarrow> (pgm_segment list \<times> nat) result" where
  "build_level parallelism last_key last_n eps inp segments =
     bind_result (make_segmentation_par parallelism last_n eps inp)
       (\<lambda>(css, n_segments). bind_result (segments_of css)
         (\<lambda>new.
            let segs = segments @ new
            in if segs = [] then Inl OutOfBounds
               else let (segs', n_segments') =
                          (if seg_slope (last segs) = 0 \<and> last_n > 1
                           then (segs @ [\<lparr> seg_key = last_key + 1, seg_slope = 0, seg_intercept = int last_n \<rparr>], n_segments + 1)
                           else (segs, n_segments))
                    in Inr (segs' @ [Segment_sentinel last_n], n_segments')))"

text \<open>\<open>in_fun\<close> of the first level.\<close>

definition data_input :: "float_t list \<Rightarrow> key_input" where
  "data_input data i =
     (let x = data ! i; n = length data;
          flag = i > 0 \<and> i + 1 < n \<and> x = data ! (i - 1) \<and> x \<noteq> data ! (i + 1) \<and> x + 1 \<noteq> data ! (i + 1)
      in (x + (if flag then 1 else 0), i))"

text \<open>One iteration of the loop over the upper levels.\<close>

definition upper_level_step ::
  "nat \<Rightarrow> float_t \<Rightarrow> nat \<Rightarrow> pgm_segment list \<times> nat list \<times> nat \<Rightarrow>
    (pgm_segment list \<times> nat list) result + pgm_segment list \<times> nat list \<times> nat" where
  "upper_level_step parallelism last_key eps_rec s =
     (let (segments, offsets, last_n) = s
      in if eps_rec \<noteq> 0 \<and> last_n > 1
         then let ofs = offsets ! (length offsets - 2)
              in case build_level parallelism last_key last_n eps_rec (\<lambda>i. (seg_key (segments ! (ofs + i)), i)) segments of
                   Inl e \<Rightarrow> Inl (Inl e)
                 | Inr (segments', last_n') \<Rightarrow> Inr (segments', offsets @ [last offsets + last_n' + 1], last_n')
         else Inl (Inr (segments, offsets)))"

definition pgm_build :: "nat \<Rightarrow> nat \<Rightarrow> nat \<Rightarrow> float_t list \<Rightarrow> (pgm_segment list \<times> nat list) result option" where
  "pgm_build parallelism eps eps_rec data =
     (let n = length data
      in if n = 0 then Some (Inr ([], []))
         else let ignore_last = (last data = FLT_MAX); last_n = n - (if ignore_last then 1 else 0);
                  last_key = data ! (last_n - 1)
              in case build_level parallelism last_key last_n eps (data_input data) [] of
                   Inl e \<Rightarrow> Some (Inl e)
                 | Inr (segments, last_n') \<Rightarrow>
                     run_loop (upper_level_step parallelism last_key eps_rec) (segments, [0, last_n' + 1], last_n'))"

definition PGMIndex :: "nat \<Rightarrow> nat \<Rightarrow> nat \<Rightarrow> float_t list \<Rightarrow> pgm_index result option" where
  "PGMIndex parallelism eps eps_rec data =
     map_option (\<lambda>r. bind_result r (\<lambda>(segments, offsets).
       Inr \<lparr> pgm_n = length data, pgm_first_key = (if data \<noteq> [] then hd data else 0),
             pgm_segments = segments, pgm_levels_offsets = offsets \<rparr>))
       (pgm_build parallelism eps eps_rec data)"

text \<open>\<open>std::min<size_t>\<close> of a position and the intercept of the next segment, converted to \<open>size_t\<close>.\<close>

definition capped_pos :: "pgm_segment list \<Rightarrow> nat \<Rightarrow> float_t \<Rightarrow> nat" where
  "capped_pos segments it k = nat (min (segment_pos (segments ! it) k) (seg_intercept (segments ! (it + 1)) mod 2 ^ 64))"

definition PGM_SUB_EPS :: "nat \<Rightarrow> nat \<Rightarrow> nat" where
  "PGM_SUB_EPS x eps = (if x \<le> eps then 0 else x - eps)"

definition PGM_ADD_EPS :: "nat \<Rightarrow> nat \<Rightarrow> nat \<Rightarrow> nat" where
  "PGM_ADD_EPS x eps size' = (if x + eps + 2 \<ge> size' then size' else x + eps + 2)"

text \<open>The linear scan from position \<open>lo\<close>, whose segments are the list; it must not leave the array.\<close>

fun scan_segments :: "float_t \<Rightarrow> pgm_segment list \<Rightarrow> nat \<Rightarrow> nat result" where
  "scan_segments key (s # s' # ss) lo = (if seg_key s' \<le> key then scan_segments key (s' # ss) (lo + 1) else Inr lo)"
| "scan_segments key _ lo = Inl OutOfBounds"

fun descend_levels :: "nat \<Rightarrow> pgm_segment list \<Rightarrow> nat list \<Rightarrow> float_t \<Rightarrow> nat \<Rightarrow> nat \<Rightarrow> nat result" where
  "descend_levels eps_rec segments offsets key 0 it = Inr it"
| "descend_levels eps_rec segments offsets key (Suc l) it =
     (let pos = capped_pos segments it key; lo = offsets ! l + PGM_SUB_EPS pos (eps_rec + 1)
      in bind_result (scan_segments key (drop lo segments) lo) (descend_levels eps_rec segments offsets key l))"

definition pgm_height :: "pgm_index \<Rightarrow> nat" where
  "pgm_height ix = length (pgm_levels_offsets ix) - 1"

definition segment_for_key :: "nat \<Rightarrow> pgm_index \<Rightarrow> float_t \<Rightarrow> nat result" where
  "segment_for_key eps_rec ix key =
     descend_levels eps_rec (pgm_segments ix) (pgm_levels_offsets ix) key (pgm_height ix - 1)
       (pgm_levels_offsets ix ! (length (pgm_levels_offsets ix) - 2))"

text \<open>\<open>search\<close>: the position and the window lo, hi.\<close>

definition pgm_search_pos :: "nat \<Rightarrow> nat \<Rightarrow> pgm_index \<Rightarrow> float_t \<Rightarrow> (nat \<times> nat \<times> nat) result" where
  "pgm_search_pos eps eps_rec ix key =
     (let k = max (pgm_first_key ix) key
      in bind_result (segment_for_key eps_rec ix k)
           (\<lambda>it. let pos = capped_pos (pgm_segments ix) it k
                 in Inr (pos, PGM_SUB_EPS pos eps, PGM_ADD_EPS pos eps (pgm_n ix))))"

definition segments_count :: "pgm_index \<Rightarrow> nat" where
  "segments_count ix = (if pgm_segments ix = [] then 0 else pgm_levels_offsets ix ! 1 - 1)"

end
