(* ===== verification/PgmHull.thy ===== *)
theory PgmHull
  imports Pgm
begin

text \<open>
  Lines against points, concave chains of points, and the two loops of \<open>add_point\<close> on them. The facts on
  upper hulls are those on lower hulls with the ordinates negated.
\<close>

section \<open>Lines\<close>

type_synonym line = "float_t \<times> float_t"

definition line_at :: "line \<Rightarrow> float_t \<Rightarrow> float_t" where
  "line_at l x = fst l * x + snd l"

definition above :: "line \<Rightarrow> plm_point \<Rightarrow> bool" where
  "above l p \<longleftrightarrow> of_int (snd p) \<le> line_at l (fst p)"

definition below :: "line \<Rightarrow> plm_point \<Rightarrow> bool" where
  "below l p \<longleftrightarrow> line_at l (fst p) \<le> of_int (snd p)"

definition line_thru :: "plm_point \<Rightarrow> plm_point \<Rightarrow> line" where
  "line_thru p q =
     (let m = (of_int (snd q) - of_int (snd p)) / (fst q - fst p) in (m, of_int (snd p) - m * fst p))"

definition neg_point :: "plm_point \<Rightarrow> plm_point" where
  "neg_point p = (fst p, - snd p)"

definition neg_line :: "line \<Rightarrow> line" where
  "neg_line l = (- fst l, - snd l)"

lemma neg_point_simps [simp]:
  "fst (neg_point p) = fst p" "snd (neg_point p) = - snd p" "neg_point (neg_point p) = p"
  by (simp_all add: neg_point_def)

lemma neg_line_simps [simp]: "line_at (neg_line l) x = - line_at l x" "neg_line (neg_line l) = l"
  by (simp_all add: neg_line_def line_at_def)

lemma above_neg [simp]: "above (neg_line l) (neg_point p) = below l p" "above (neg_line l) p = below l (neg_point p)"
  "below (neg_line l) (neg_point p) = above l p"
  by (auto simp: above_def below_def)

lemma neg_line_thru: "line_thru (neg_point p) (neg_point q) = neg_line (line_thru p q)"
proof -
  have "(of_int (- snd q) - of_int (- snd p)) / (fst q - fst p) = - ((of_int (snd q) - of_int (snd p)) / (fst q - fst p) :: float_t)"
    by (simp add: minus_divide_left)
  then show ?thesis by (simp add: line_thru_def neg_line_def Let_def)
qed

lemma line_thru_at':
  "line_at (line_thru p q) x = of_int (snd p) + (of_int (snd q) - of_int (snd p)) / (fst q - fst p) * (x - fst p)"
  unfolding line_thru_def line_at_def Let_def fst_conv snd_conv right_diff_distrib by simp

lemma line_thru_at:
  assumes "fst p \<noteq> fst q"
  shows "line_at (line_thru p q) (fst p) = of_int (snd p)" "line_at (line_thru p q) (fst q) = of_int (snd q)"
  using assms by (simp_all add: line_thru_at')

text \<open>Two lines compared at two abscissas.\<close>

lemma lines_between:
  assumes "line_at l x1 \<le> line_at k x1" "line_at l x2 \<le> line_at k x2" "x1 \<le> x" "x \<le> x2"
  shows "line_at l x \<le> line_at k x"
proof (cases "fst l \<le> fst k")
  case True
  then have "(fst k - fst l) * x1 \<le> (fst k - fst l) * x" using assms(3) by (intro mult_left_mono) auto
  with assms(1) show ?thesis by (simp add: line_at_def algebra_simps)
next
  case False
  then have "(fst l - fst k) * x \<le> (fst l - fst k) * x2" using assms(4) by (intro mult_left_mono) auto
  with assms(2) show ?thesis by (simp add: line_at_def algebra_simps)
qed

lemma lines_cross_slope:
  assumes "line_at l x1 \<le> line_at k x1" "line_at k x2 \<le> line_at l x2" "x1 < x2"
  shows "fst k \<le> fst l"
proof -
  have "0 \<le> (fst l - fst k) * (x2 - x1)" using assms(1,2) by (simp add: line_at_def algebra_simps)
  then show ?thesis using assms(3) by (simp add: zero_le_mult_iff)
qed

lemma lines_left:
  assumes "line_at l x1 \<le> line_at k x1" "line_at k x2 \<le> line_at l x2" "x1 < x2" "x \<le> x1"
  shows "line_at l x \<le> line_at k x"
proof -
  have "(fst l - fst k) * x \<le> (fst l - fst k) * x1"
    using lines_cross_slope[OF assms(1-3)] assms(4) by (intro mult_left_mono) auto
  with assms(1) show ?thesis by (simp add: line_at_def algebra_simps)
qed

lemma lines_right:
  assumes "line_at l x1 \<le> line_at k x1" "line_at k x2 \<le> line_at l x2" "x1 < x2" "x2 \<le> x"
  shows "line_at k x \<le> line_at l x"
proof -
  have "(fst l - fst k) * x2 \<le> (fst l - fst k) * x"
    using lines_cross_slope[OF assms(1-3)] assms(4) by (intro mult_left_mono) auto
  with assms(2) show ?thesis by (simp add: line_at_def algebra_simps)
qed

section \<open>Comparisons of slopes\<close>

lemma slope_less_from_start:
  assumes "fst r < fst q" "fst r < fst p"
  shows "slope_less (point_minus p r) (point_minus q r) \<longleftrightarrow> of_int (snd p) < line_at (line_thru r q) (fst p)"
  using assms by (simp add: slope_less_def point_minus_def line_thru_at' field_simps)

lemma slope_less_continued:
  assumes "fst r < fst q" "fst q < fst p"
  shows "slope_less (point_minus p q) (point_minus q r) \<longleftrightarrow> of_int (snd p) < line_at (line_thru r q) (fst p)"
  using assms by (simp add: slope_less_def point_minus_def line_thru_at' field_simps)

lemma slope_greater_neg: "slope_greater (point_minus p q) (point_minus r s)
    = slope_less (point_minus (neg_point p) (neg_point q)) (point_minus (neg_point r) (neg_point s))"
  by (auto simp: slope_greater_def slope_less_def point_minus_def algebra_simps)

lemma slope_less_neg: "slope_less (point_minus p q) (point_minus r s)
    = slope_greater (point_minus (neg_point p) (neg_point q)) (point_minus (neg_point r) (neg_point s))"
  by (auto simp: slope_greater_def slope_less_def point_minus_def algebra_simps)

lemma slope_greater_from_start:
  assumes "fst r < fst q" "fst r < fst p"
  shows "slope_greater (point_minus p r) (point_minus q r) \<longleftrightarrow> line_at (line_thru r q) (fst p) < of_int (snd p)"
  using slope_less_from_start[of "neg_point r" "neg_point q" "neg_point p"] assms
  by (simp add: slope_greater_neg neg_line_thru)

lemma slope_greater_continued:
  assumes "fst r < fst q" "fst q < fst p"
  shows "slope_greater (point_minus p q) (point_minus q r) \<longleftrightarrow> line_at (line_thru r q) (fst p) < of_int (snd p)"
  using slope_less_continued[of "neg_point r" "neg_point q" "neg_point p"] assms
  by (simp add: slope_greater_neg neg_line_thru)

lemma slope_greater_back:
  assumes "fst b < fst p" "fst h < fst p"
  shows "slope_greater (point_minus h p) (point_minus b p) \<longleftrightarrow> of_int (snd h) < line_at (line_thru b p) (fst h)"
proof -
  have "slope_greater (point_minus h p) (point_minus b p) \<longleftrightarrow>
    of_int (snd p - snd h) * (fst p - fst b) > (fst p - fst h) * of_int (snd p - snd b)"
    by (auto simp: slope_greater_def point_minus_def algebra_simps)
  also have "\<dots> \<longleftrightarrow> of_int (snd h) < line_at (line_thru b p) (fst h)"
    using assms by (simp add: line_thru_at' field_simps)
  finally show ?thesis .
qed

lemma cross_neg: "cross (neg_point a) (neg_point b) (neg_point c) = - cross a b c"
  by (simp add: cross_def point_minus_def Let_def algebra_simps)

lemma cross_line:
  assumes "fst a < fst b"
  shows "cross a b c < 0 \<longleftrightarrow> of_int (snd c) < line_at (line_thru a b) (fst c)"
  using assms by (simp add: cross_def point_minus_def Let_def line_thru_at' field_simps)

section \<open>Concave chains\<close>

fun concave :: "plm_point list \<Rightarrow> bool" where
  "concave (a # b # c # r) \<longleftrightarrow> cross a b c < 0 \<and> concave (b # c # r)"
| "concave _ \<longleftrightarrow> True"

definition ascending :: "plm_point list \<Rightarrow> bool" where
  "ascending ps \<longleftrightarrow> sorted_wrt (\<lambda>p q. fst p < fst q) ps"

lemma ascending_simps [simp]:
  "ascending []" "ascending (p # ps) \<longleftrightarrow> (\<forall>q \<in> set ps. fst p < fst q) \<and> ascending ps"
  by (auto simp: ascending_def)

lemma ascending_append [simp]:
  "ascending (ps @ qs) \<longleftrightarrow> ascending ps \<and> ascending qs \<and> (\<forall>p \<in> set ps. \<forall>q \<in> set qs. fst p < fst q)"
  by (simp add: ascending_def sorted_wrt_append)

lemma concave_tl: "concave (a # r) \<Longrightarrow> concave r"
  by (cases "a # r" rule: concave.cases) auto

lemma concave_drop: "concave ps \<Longrightarrow> concave (drop n ps)"
proof (induction n arbitrary: ps)
  case (Suc n)
  then show ?case by (cases ps) (auto dest: concave_tl)
qed simp

lemma ascending_drop: "ascending ps \<Longrightarrow> ascending (drop n ps)"
  by (simp add: ascending_def sorted_wrt_drop)

lemma concave_append1: "concave (ps @ qs) \<Longrightarrow> concave ps"
  by (induction ps rule: concave.induct) auto

lemma concave_snoc: "concave (ps @ [a, b]) \<Longrightarrow> cross a b c < 0 \<Longrightarrow> concave (ps @ [a, b, c])"
  by (induction ps rule: concave.induct) auto

text \<open>A chain stays below the line of its first two points.\<close>

lemma concave_below:
  "concave (a # b # r) \<Longrightarrow> ascending (a # b # r) \<Longrightarrow> c \<in> set r \<Longrightarrow> of_int (snd c) \<le> line_at (line_thru a b) (fst c)"
proof (induction r arbitrary: a b)
  case (Cons d r)
  then have d: "of_int (snd d) < line_at (line_thru a b) (fst d)" by (simp add: cross_line)
  show ?case
  proof (cases "c = d")
    case False
    with Cons have c: "of_int (snd c) \<le> line_at (line_thru b d) (fst c)" "fst d < fst c" by auto
    have x: "fst a < fst b" "fst b < fst d" using Cons.prems(2) by simp_all
    have "line_at (line_thru b d) (fst c) \<le> line_at (line_thru a b) (fst c)"
    proof (rule lines_right)
      show "line_at (line_thru a b) (fst b) \<le> line_at (line_thru b d) (fst b)" using x by (simp add: line_thru_at)
      show "line_at (line_thru b d) (fst d) \<le> line_at (line_thru a b) (fst d)" using x d by (simp add: line_thru_at)
    qed (use x c(2) in simp_all)
    with c(1) show ?thesis by simp
  qed (use d in simp)
qed simp

section \<open>The loop for the extreme slope\<close>

lemma extreme_slope_lower:
  assumes "concave (b # hs)" "ascending (b # hs)" "\<forall>h \<in> set (b # hs). fst h < fst p"
  shows "\<exists>m c. extreme_slope slope_greater p hs (Suc i) (point_minus b p, i) = i + m \<and> m < length (b # hs) \<and>
    c = (b # hs) ! m \<and> (\<forall>h \<in> set (b # hs). above (line_thru c p) h)"
  using assms
proof (induction hs arbitrary: b i)
  case Nil
  then show ?case by (auto simp: above_def line_thru_at)
next
  case (Cons h hs)
  then have x: "fst b < fst h" "fst h < fst p" "fst b < fst p" by auto
  show ?case
  proof (cases "slope_greater (point_minus h p) (point_minus b p)")
    case True
    with x have h: "of_int (snd h) < line_at (line_thru b p) (fst h)" by (simp add: slope_greater_back)
    have "above (line_thru b p) g" if "g \<in> set hs" for g
    proof -
      have "of_int (snd g) \<le> line_at (line_thru b h) (fst g)" using concave_below[OF Cons.prems(1,2) that] .
      also have "\<dots> \<le> line_at (line_thru b p) (fst g)"
      proof (rule lines_right)
        show "line_at (line_thru b p) (fst b) \<le> line_at (line_thru b h) (fst b)" using x by (simp add: line_thru_at)
        show "line_at (line_thru b h) (fst h) \<le> line_at (line_thru b p) (fst h)" using x h by (simp add: line_thru_at)
      qed (use x that Cons.prems(2) in auto)
      finally show ?thesis by (simp add: above_def)
    qed
    with True h x show ?thesis
      by (intro exI[of _ 0] exI[of _ b]) (auto simp: Let_def above_def line_thru_at)
  next
    case False
    with x have h: "line_at (line_thru b p) (fst h) \<le> of_int (snd h)" by (simp add: slope_greater_back)
    have "concave (h # hs)" "ascending (h # hs)" "\<forall>g \<in> set (h # hs). fst g < fst p"
      using Cons.prems by (auto dest: concave_tl)
    from Cons.IH[OF this, of "Suc i"] obtain m c where
      m: "extreme_slope slope_greater p hs (Suc (Suc i)) (point_minus h p, Suc i) = Suc i + m" "m < length (h # hs)"
        "c = (h # hs) ! m" "\<forall>g \<in> set (h # hs). above (line_thru c p) g" by blast
    have c: "fst c < fst p" using Cons.prems(3) nth_mem[OF m(2)] m(3) by auto
    have "line_at (line_thru b p) (fst b) \<le> line_at (line_thru c p) (fst b)"
    proof (rule lines_left)
      show "line_at (line_thru b p) (fst h) \<le> line_at (line_thru c p) (fst h)" using h m(4) by (simp add: above_def)
      show "line_at (line_thru c p) (fst p) \<le> line_at (line_thru b p) (fst p)" using c x by (simp add: line_thru_at)
    qed (use x in simp_all)
    then have "above (line_thru c p) b" using x by (simp add: above_def line_thru_at)
    with m False show ?thesis by (intro exI[of _ "Suc m"] exI[of _ c]) (auto simp: Let_def)
  qed
qed

lemma extreme_slope_neg:
  "extreme_slope slope_less p hs i (point_minus b p, j)
    = extreme_slope slope_greater (neg_point p) (map neg_point hs) i (point_minus (neg_point b) (neg_point p), j)"
  by (induction hs arbitrary: i b j) (simp_all add: Let_def slope_less_neg[symmetric])

text \<open>A point straight above the sought one ends the loop.\<close>

lemma extreme_slope_vertical:
  assumes "\<forall>h \<in> set (b # hs). fst h < fst p" "fst q = fst p" "snd q > snd p"
  shows "extreme_slope slope_less p (hs @ [q]) i (point_minus b p, j) = extreme_slope slope_less p hs i (point_minus b p, j)"
  using assms(1)
proof (induction hs arbitrary: i b j)
  case Nil
  then have "slope_less (point_minus q p) (point_minus b p)"
    using assms(2,3) by (simp add: slope_less_def point_minus_def mult_pos_neg)
  then show ?case by simp
qed (simp add: Let_def)

section \<open>The loop that trims a hull\<close>

lemma hull_end_bounds: "start < e \<Longrightarrow> start < hull_end P start pts p e \<and> hull_end P start pts p e \<le> e"
proof (induction e)
  case (Suc e)
  then show ?case by (subst (1 2) hull_end.simps) auto
qed simp

lemma hull_end_drop:
  assumes "start < e" "P (cross (pts ! (e - 1)) (pts ! e) p)"
  shows "hull_end P start pts p (Suc e) = hull_end P start pts p e"
  using assms by (subst hull_end.simps) simp

lemma hull_end_keep:
  assumes "\<not> (start < e \<and> P (cross (pts ! (e - 1)) (pts ! e) p))"
  shows "hull_end P start pts p (Suc e) = Suc e"
  using assms by (subst hull_end.simps) auto

lemma drop_take_two:
  assumes "start + 2 \<le> e" "e \<le> length pts"
  shows "drop start (take e pts) = drop start (take (e - 2) pts) @ [pts ! (e - 2), pts ! (e - 1)]"
proof -
  obtain k where e: "e = Suc (Suc k)" using assms(1) by (metis add_2_eq_Suc' le_Suc_ex add_Suc)
  then show ?thesis using assms by (simp add: take_Suc_conv_app_nth)
qed

lemma drop_take_one:
  assumes "start < e" "e \<le> length pts"
  shows "drop start (take e pts) = drop start (take (e - 1) pts) @ [pts ! (e - 1)]"
proof -
  obtain k where "e = Suc k" using assms(1) by (cases e) auto
  then show ?thesis using assms by (simp add: take_Suc_conv_app_nth)
qed

lemma hull_end_lower:
  assumes "start < e" "e \<le> length pts" "concave (drop start (take e pts))" "ascending (drop start (take e pts))"
    "\<forall>h \<in> set (drop start (take e pts)). fst h < fst p"
  defines "e' \<equiv> hull_end (\<lambda>c. c \<ge> 0) start pts p e"
  shows "concave (drop start (take e' pts) @ [p]) \<and>
    (\<forall>l. (\<forall>h \<in> set (drop start (take e' pts) @ [p]). above l h) \<longrightarrow> (\<forall>h \<in> set (drop start (take e pts)). above l h))"
  using assms(1-5) unfolding e'_def
proof (induction e)
  case (Suc e)
  let ?b = "pts ! (e - 1)" and ?c = "pts ! e" and ?C = "\<lambda>e. drop start (take e pts)"
  have dt: "?C (Suc e) = ?C e @ [?c]" using Suc.prems drop_take_one[of start "Suc e" pts] by simp
  show ?case
  proof (cases "start < e \<and> 0 \<le> cross ?b ?c p")
    case True
    then have dt2: "?C e = ?C (e - 1) @ [?b]" using Suc.prems(2) drop_take_one[of start e pts] by simp
    have end_e: "hull_end (\<lambda>c. c \<ge> 0) start pts p (Suc e) = hull_end (\<lambda>c. c \<ge> 0) start pts p e"
      using True by (intro hull_end_drop) auto
    have IH: "concave (?C (hull_end (\<lambda>c. c \<ge> 0) start pts p e) @ [p]) \<and>
      (\<forall>l. (\<forall>h \<in> set (?C (hull_end (\<lambda>c. c \<ge> 0) start pts p e) @ [p]). above l h) \<longrightarrow> (\<forall>h \<in> set (?C e). above l h))"
      using True Suc.prems dt by (intro Suc.IH) (auto dest: concave_append1)
    have x: "fst ?b < fst ?c" "fst ?c < fst p" using Suc.prems(4,5) dt dt2 by auto
    from True x have p: "line_at (line_thru ?b ?c) (fst p) \<le> of_int (snd p)" using cross_line[of ?b ?c p] by auto
    have c_below: "above l ?c" if l: "above l ?b" "above l p" for l
    proof -
      have "line_at (line_thru ?b ?c) (fst ?c) \<le> line_at l (fst ?c)"
      proof (rule lines_between)
        show "line_at (line_thru ?b ?c) (fst ?b) \<le> line_at l (fst ?b)" using x l(1) by (simp add: line_thru_at above_def)
        show "line_at (line_thru ?b ?c) (fst p) \<le> line_at l (fst p)" using p l(2) by (simp add: above_def)
      qed (use x in simp_all)
      then show ?thesis using x by (simp add: line_thru_at above_def)
    qed
    have "\<forall>h \<in> set (?C (Suc e)). above l h"
      if l: "\<forall>h \<in> set (?C (hull_end (\<lambda>c. c \<ge> 0) start pts p e) @ [p]). above l h" for l
    proof -
      have old: "\<forall>h \<in> set (?C e). above l h" using IH l by blast
      then have "above l ?b" using dt2 by simp
      then have "above l ?c" using c_below l by simp
      with old dt show ?thesis by simp
    qed
    with IH show ?thesis unfolding end_e by blast
  next
    case False
    then have end_e: "hull_end (\<lambda>c. c \<ge> 0) start pts p (Suc e) = Suc e" by (intro hull_end_keep) auto
    have "concave (?C (Suc e) @ [p])"
    proof (cases "start < e")
      case True
      with False have "cross ?b ?c p < 0" by auto
      with True Suc.prems drop_take_two[of start "Suc e" pts] show ?thesis by (simp add: concave_snoc)
    next
      case False
      with Suc.prems(1) have "e = start" by simp
      then show ?thesis using dt by simp
    qed
    then show ?thesis unfolding end_e by auto
  qed
qed simp

lemma hull_end_neg:
  assumes "e \<le> length pts"
  shows "hull_end (\<lambda>c. c \<le> 0) start pts p e = hull_end (\<lambda>c. c \<ge> 0) start (map neg_point pts) (neg_point p) e"
  using assms
proof (induction e)
  case (Suc e)
  have "cross (map neg_point pts ! (e - 1)) (map neg_point pts ! e) (neg_point p) = - cross (pts ! (e - 1)) (pts ! e) p"
    using Suc.prems by (simp add: cross_neg)
  then show ?case using Suc
    by (cases "start < e \<and> cross (pts ! (e - 1)) (pts ! e) p \<le> 0") (simp_all add: hull_end_drop hull_end_keep)
next
  case 0
  then show ?case by (subst (1 2) hull_end.simps) simp
qed

end
