(* ===== verification/PgmFit.thy ===== *)
theory PgmFit
  imports PgmHull
begin

text \<open>
  \<open>OptimalPiecewiseLinearModel\<close> decides exactly whether one line fits all points added so far: the
  invariant of its hulls and its rectangle, \<open>add_point\<close>, and the segment that it hands out.
\<close>

section \<open>Chains inside an array\<close>

definition chain_ok :: "plm_point list \<Rightarrow> nat \<Rightarrow> plm_point set \<Rightarrow> bool" where
  "chain_ok ps start seen \<longleftrightarrow> start < length ps \<and> set (drop start ps) \<subseteq> seen \<and>
     ascending (drop start ps) \<and> concave (drop start ps)"

lemma chain_ok_mono: "chain_ok ps start seen \<Longrightarrow> seen \<subseteq> seen' \<Longrightarrow> chain_ok ps start seen'"
  by (auto simp: chain_ok_def)

lemma chain_ok_later: "chain_ok ps start seen \<Longrightarrow> start \<le> m \<Longrightarrow> m < length ps \<Longrightarrow> chain_ok ps m seen"
  using ascending_drop[of "drop start ps" "m - start"] concave_drop[of "drop start ps" "m - start"]
    set_drop_subset[of "m - start" "drop start ps"]
  by (auto simp: chain_ok_def)

lemma drop_start: "start < length ps \<Longrightarrow> drop start ps = ps ! start # drop (Suc start) ps"
  by (rule Cons_nth_drop_Suc[symmetric])

lemma start_in_drop: "start < length ps \<Longrightarrow> ps ! start \<in> set (drop start ps)"
  by (simp add: drop_start)

lemma last_in_drop: "start < length ps \<Longrightarrow> last ps \<in> set (drop start ps)"
  by (metis drop_eq_Nil2 last_drop last_in_set not_less)

text \<open>The line of the extreme slope lies above the chain, and the points before the new start are implied.\<close>

lemma tangent_lower:
  assumes "chain_ok ps start seen" "\<forall>h \<in> set (drop start ps). fst h < fst p"
  defines "m \<equiv> extreme_slope slope_greater p (drop (start + 1) ps) (start + 1) (point_minus (ps ! start) p, start)"
  shows "start \<le> m" "m < length ps" "fst (ps ! m) < fst p" "\<forall>h \<in> set (drop start ps). above (line_thru (ps ! m) p) h"
    "\<forall>h \<in> set (drop m ps). above l h \<Longrightarrow> below l p \<Longrightarrow> \<forall>h \<in> set (drop start ps). above l h"
proof -
  have st: "start < length ps" using assms(1) by (simp add: chain_ok_def)
  obtain k where k: "m = start + k" "k < length (drop start ps)"
    "\<forall>h \<in> set (drop start ps). above (line_thru (drop start ps ! k) p) h"
    using extreme_slope_lower[of "ps ! start" "drop (start + 1) ps" p start] assms(1,2)
    unfolding chain_ok_def m_def by (auto simp: drop_start[OF st])
  have c: "drop start ps ! k = ps ! m" using k(1,2) by simp
  show m: "start \<le> m" "m < length ps" using k by simp_all
  have in_drop: "ps ! m \<in> set (drop start ps)" using c nth_mem[OF k(2)] by simp
  then show x: "fst (ps ! m) < fst p" using assms(2) by blast
  show tan: "\<forall>h \<in> set (drop start ps). above (line_thru (ps ! m) p) h" using k(3) c by simp
  assume l: "\<forall>h \<in> set (drop m ps). above l h" "below l p"
  show "\<forall>h \<in> set (drop start ps). above l h"
  proof
    fix h assume h: "h \<in> set (drop start ps)"
    then obtain j where j: "h = ps ! (start + j)" "start + j < length ps" by (auto simp: in_set_conv_nth)
    show "above l h"
    proof (cases "m \<le> start + j")
      case True
      then have "h \<in> set (drop m ps)" using j by (auto simp: in_set_conv_nth intro!: exI[of _ "start + j - m"])
      with l(1) show ?thesis by blast
    next
      case False
      have "fst h < fst (ps ! m)"
        using sorted_wrt_nth_less[of "\<lambda>p q. fst p < fst q" "drop start ps" j k] assms(1) False j k c
        by (auto simp: chain_ok_def ascending_def)
      have "line_at (line_thru (ps ! m) p) (fst h) \<le> line_at l (fst h)"
      proof (rule lines_left)
        show "line_at (line_thru (ps ! m) p) (fst (ps ! m)) \<le> line_at l (fst (ps ! m))"
          using l(1) start_in_drop[OF m(2)] x by (auto simp: above_def line_thru_at)
        show "line_at l (fst p) \<le> line_at (line_thru (ps ! m) p) (fst p)" using l(2) x by (simp add: below_def line_thru_at)
        show "fst h \<le> fst (ps ! m)" "fst (ps ! m) < fst p" using \<open>fst h < fst (ps ! m)\<close> x by simp_all
      qed
      with tan h show ?thesis by (auto simp: above_def)
    qed
  qed
qed

text \<open>The same for an upper hull, which may end in a point straight above the new one.\<close>

lemma tangent_upper:
  assumes "chain_ok (map neg_point (ps @ vs)) start seen" "start < length ps" "\<forall>h \<in> set (drop start ps). fst h < fst p"
    "vs = [] \<or> (\<exists>q. vs = [q] \<and> fst q = fst p \<and> snd q > snd p)"
  defines "m \<equiv> extreme_slope slope_less p (drop (start + 1) (ps @ vs)) (start + 1) (point_minus ((ps @ vs) ! start) p, start)"
  shows "start \<le> m" "m < length ps" "fst ((ps @ vs) ! m) < fst p"
    "\<forall>h \<in> set (drop start (ps @ vs)). below (line_thru ((ps @ vs) ! m) p) h"
    "\<forall>h \<in> set (drop m (ps @ vs)). below l h \<Longrightarrow> above l p \<Longrightarrow> \<forall>h \<in> set (drop start (ps @ vs)). below l h"
proof -
  have b: "(ps @ vs) ! start = ps ! start" using assms(2) by (simp add: nth_append)
  have "set (drop start ps) = insert (ps ! start) (set (drop (Suc start) ps))" using drop_start[OF assms(2)] by simp
  then have v: "extreme_slope slope_less p (drop (start + 1) (ps @ vs)) (start + 1) (point_minus (ps ! start) p, start)
      = extreme_slope slope_less p (drop (start + 1) ps) (start + 1) (point_minus (ps ! start) p, start)"
    using assms(2-4) extreme_slope_vertical[of "ps ! start" "drop (start + 1) ps" p] by auto
  have "m = extreme_slope slope_less p (drop (start + 1) ps) (start + 1) (point_minus (ps ! start) p, start)"
    unfolding m_def b v ..
  then have m: "m = extreme_slope slope_greater (neg_point p) (drop (start + 1) (map neg_point ps)) (start + 1)
      (point_minus (map neg_point ps ! start) (neg_point p), start)"
    using assms(2) by (simp add: extreme_slope_neg drop_map)
  have ch: "chain_ok (map neg_point ps) start seen"
    using assms(1,2) concave_append1[of "drop start (map neg_point ps)" "map neg_point vs"]
    by (auto simp: chain_ok_def)
  have lt: "\<forall>h \<in> set (drop start (map neg_point ps)). fst h < fst (neg_point p)"
    using assms(3) by (auto simp: drop_map)
  note t = tangent_lower[OF ch lt, folded m]
  from t(1,2) show a: "start \<le> m" "m < length ps" by auto
  have c: "(ps @ vs) ! m = ps ! m" "map neg_point ps ! m = neg_point (ps ! m)" using a(2) by (simp_all add: nth_append)
  show x: "fst ((ps @ vs) ! m) < fst p" using t(3) c by simp
  have tan: "below (line_thru (ps ! m) p) h" if "h \<in> set (drop start ps)" for h
    using t(4) that c by (simp add: drop_map neg_line_thru)
  have "below (line_thru (ps ! m) p) q" if "q \<in> set vs" for q
    using assms(4) that x c by (auto simp: below_def line_thru_at)
  with tan c(1) show "\<forall>h \<in> set (drop start (ps @ vs)). below (line_thru ((ps @ vs) ! m) p) h"
    using assms(2) by auto
  assume l: "\<forall>h \<in> set (drop m (ps @ vs)). below l h" "above l p"
  have "\<forall>h \<in> set (drop m (map neg_point ps)). above (neg_line l) h" using l(1) a(2) by (auto simp: drop_map)
  with t(5)[of "neg_line l"] l(2) have "\<forall>h \<in> set (drop start ps). below l h"
    by (simp add: drop_map)
  with l(1) a(2) assms(2) show "\<forall>h \<in> set (drop start (ps @ vs)). below l h" by auto
qed

text \<open>Trimming a hull and adding the new point.\<close>

lemma trim_lower:
  assumes "chain_ok ps start seen" "\<forall>h \<in> set (drop start ps). fst h < fst p"
  defines "e \<equiv> hull_end (\<lambda>c. c \<ge> 0) start ps p (length ps)"
  shows "start < e" "e \<le> length ps" "chain_ok (take e ps @ [p]) start (insert p seen)"
    "\<forall>h \<in> set (drop start (take e ps @ [p])). above l h \<Longrightarrow> \<forall>h \<in> set (drop start ps). above l h"
proof -
  have st: "start < length ps" using assms(1) by (simp add: chain_ok_def)
  from hull_end_bounds[OF st] show e: "start < e" "e \<le> length ps" by (simp_all add: e_def)
  have d: "drop start (take e ps @ [p]) = drop start (take e ps) @ [p]" using e by simp
  have sub: "set (drop start (take e ps)) \<subseteq> set (drop start ps)"
    by (metis drop_take set_take_subset)
  have asc: "ascending (drop start (take e ps))"
    using assms(1) by (simp add: chain_ok_def ascending_def drop_take sorted_wrt_take)
  have h: "concave (drop start (take e ps) @ [p]) \<and>
    (\<forall>l. (\<forall>h \<in> set (drop start (take e ps) @ [p]). above l h) \<longrightarrow> (\<forall>h \<in> set (drop start ps). above l h))"
  proof -
    have all: "take (length ps) ps = ps" by simp
    have "concave (drop start ps)" "ascending (drop start ps)" using assms(1) by (simp_all add: chain_ok_def)
    from hull_end_lower[OF st order.refl, unfolded all, OF this assms(2), folded e_def] show ?thesis .
  qed
  show "chain_ok (take e ps @ [p]) start (insert p seen)"
    unfolding chain_ok_def d
  proof (intro conjI)
    show "start < length (take e ps @ [p])" using e by simp
    show "set (drop start (take e ps) @ [p]) \<subseteq> insert p seen" using sub assms(1) by (auto simp: chain_ok_def)
    have "\<forall>q \<in> set (drop start (take e ps)). fst q < fst p" using sub assms(2) by blast
    with asc show "ascending (drop start (take e ps) @ [p])" by simp
    show "concave (drop start (take e ps) @ [p])" using h by blast
  qed
  show "\<forall>h \<in> set (drop start (take e ps @ [p])). above l h \<Longrightarrow> \<forall>h \<in> set (drop start ps). above l h"
    using h unfolding d by blast
qed

lemma trim_upper:
  assumes "chain_ok (map neg_point ps) start seen" "\<forall>h \<in> set (drop start ps). fst h < fst p"
  defines "e \<equiv> hull_end (\<lambda>c. c \<le> 0) start ps p (length ps)"
  shows "start < e" "e \<le> length ps" "chain_ok (map neg_point (take e ps @ [p])) start (insert (neg_point p) seen)"
    "\<forall>h \<in> set (drop start (take e ps @ [p])). below l h \<Longrightarrow> \<forall>h \<in> set (drop start ps). below l h"
proof -
  have e: "e = hull_end (\<lambda>c. c \<ge> 0) start (map neg_point ps) (neg_point p) (length (map neg_point ps))"
    unfolding e_def using hull_end_neg by simp
  have x: "\<forall>h \<in> set (drop start (map neg_point ps)). fst h < fst (neg_point p)" using assms(2) by (auto simp: drop_map)
  note t = trim_lower[OF assms(1) x, folded e]
  show "start < e" "e \<le> length ps" "chain_ok (map neg_point (take e ps @ [p])) start (insert (neg_point p) seen)"
    using t(1-3) by (simp_all add: take_map)
  assume l: "\<forall>h \<in> set (drop start (take e ps @ [p])). below l h"
  have eq: "drop start (take e (map neg_point ps) @ [neg_point p]) = map neg_point (drop start (take e ps @ [p]))"
    using t(1,2) by (simp add: drop_map take_map min_def)
  have "above (neg_line l) h" if "h \<in> set (drop start (take e (map neg_point ps) @ [neg_point p]))" for h
  proof -
    from that obtain g where "h = neg_point g" "g \<in> set (drop start (take e ps @ [p]))" unfolding eq by auto
    with l show ?thesis by simp
  qed
  with t(4)[of "neg_line l"] show "\<forall>h \<in> set (drop start ps). below l h" by (simp add: drop_map)
qed

section \<open>The new line against the points seen before\<close>

lemma new_line_below:
  assumes "above lmin c" "above lmax c" "fst c < fst p" "below lmin p" "above lmax p"
    "fst q < fst p" "below lmin q" "below lmax q"
  shows "below (line_thru c p) q"
proof -
  have at: "line_at (line_thru c p) (fst c) = of_int (snd c)" "line_at (line_thru c p) (fst p) = of_int (snd p)"
    using assms(3) by (simp_all add: line_thru_at)
  show ?thesis
  proof (cases "fst c \<le> fst q")
    case True
    have "line_at (line_thru c p) (fst q) \<le> line_at lmax (fst q)"
      using lines_between[of "line_thru c p" "fst c" lmax "fst p" "fst q"] assms(2,5,6) True at by (simp add: above_def)
    with assms(8) show ?thesis by (simp add: below_def)
  next
    case False
    have "line_at (line_thru c p) (fst q) \<le> line_at lmin (fst q)"
      using lines_left[of "line_thru c p" "fst c" lmin "fst p" "fst q"] assms(1,3,4) False at
      by (simp add: above_def below_def)
    with assms(7) show ?thesis by (simp add: below_def)
  qed
qed

lemma new_line_above:
  assumes "below lmax c" "below lmin c" "fst c < fst p" "above lmax p" "below lmin p"
    "fst q < fst p" "above lmax q" "above lmin q"
  shows "above (line_thru c p) q"
  using new_line_below[of "neg_line lmax" "neg_point c" "neg_line lmin" "neg_point p" "neg_point q"] assms
  by (simp add: neg_line_thru)

end
