(* ===== verification/PgmModel.thy ===== *)
theory PgmModel
  imports PgmFit
begin

text \<open>
  The invariant of \<open>OptimalPiecewiseLinearModel\<close>: the two lines of the rectangle fit all points added so
  far, and the parts of the hulls that are kept stand for all of them.
\<close>

section \<open>The invariant\<close>

definition lo_pt :: "int \<Rightarrow> plm_point \<Rightarrow> plm_point" where
  "lo_pt eps p = (fst p, lower_y eps (snd p))"

definition up_pt :: "int \<Rightarrow> plm_point \<Rightarrow> plm_point" where
  "up_pt eps p = (fst p, upper_y eps (snd p))"

text \<open>The line passes every point within the error.\<close>

definition fits :: "int \<Rightarrow> line \<Rightarrow> plm_point list \<Rightarrow> bool" where
  "fits eps l ps \<longleftrightarrow> (\<forall>p \<in> set ps. above l (lo_pt eps p) \<and> below l (up_pt eps p))"

lemma fst_lo_pt [simp]: "fst (lo_pt eps p) = fst p" and fst_up_pt [simp]: "fst (up_pt eps p) = fst p"
  by (simp_all add: lo_pt_def up_pt_def)

lemma fits_snoc [simp]: "fits eps l (ps @ [p]) \<longleftrightarrow> fits eps l ps \<and> above l (lo_pt eps p) \<and> below l (up_pt eps p)"
  by (auto simp: fits_def)

definition in_range :: "int \<Rightarrow> bool" where
  "in_range y \<longleftrightarrow> 0 \<le> y \<and> y \<le> size_max"

lemma lower_less_upper: "0 < eps \<Longrightarrow> in_range y \<Longrightarrow> lower_y eps y < upper_y eps y"
  by (auto simp: lower_y_def upper_y_def in_range_def size_max_def)

abbreviation line_max :: "plm \<Rightarrow> line" where
  "line_max s \<equiv> line_thru (plm_rect1 s) (plm_rect3 s)"

abbreviation line_min :: "plm \<Rightarrow> line" where
  "line_min s \<equiv> line_thru (plm_rect0 s) (plm_rect2 s)"

abbreviation kept_lower :: "plm \<Rightarrow> plm_point list" where
  "kept_lower s \<equiv> drop (plm_lower_start s) (plm_lower s)"

abbreviation kept_upper :: "plm \<Rightarrow> plm_point list" where
  "kept_upper s \<equiv> drop (plm_upper_start s) (plm_upper s)"

definition rect_ok :: "plm \<Rightarrow> bool" where
  "rect_ok s \<longleftrightarrow> plm_rect1 s = plm_lower s ! plm_lower_start s \<and> plm_rect2 s = last (plm_lower s) \<and>
     plm_rect0 s = plm_upper s ! plm_upper_start s \<and> plm_rect3 s = last (plm_upper s) \<and>
     fst (plm_rect1 s) < fst (plm_rect3 s) \<and> fst (plm_rect0 s) < fst (plm_rect2 s)"

definition hull_inv :: "plm \<Rightarrow> plm_point list \<Rightarrow> bool" where
  "hull_inv s ps \<longleftrightarrow> ascending ps \<and> rect_ok s \<and>
     chain_ok (plm_lower s) (plm_lower_start s) (lo_pt (plm_epsilon s) ` set ps) \<and>
     chain_ok (map neg_point (plm_upper s)) (plm_upper_start s) (neg_point ` up_pt (plm_epsilon s) ` set ps) \<and>
     fits (plm_epsilon s) (line_max s) ps \<and> fits (plm_epsilon s) (line_min s) ps \<and>
     (\<forall>l. (\<forall>h \<in> set (kept_lower s). above l h) \<and> (\<forall>h \<in> set (kept_upper s). below l h) \<longrightarrow> fits (plm_epsilon s) l ps)"

lemma hull_inv_fields [simp]:
  "hull_inv (s\<lparr> plm_last_x := x \<rparr>) ps = hull_inv s ps" "hull_inv (s\<lparr> plm_points_in_hull := n \<rparr>) ps = hull_inv s ps"
  by (simp_all add: hull_inv_def rect_ok_def)

lemma hull_lower_seen:
  assumes "hull_inv s ps" "h \<in> set (kept_lower s)"
  shows "\<exists>p \<in> set ps. h = lo_pt (plm_epsilon s) p"
  using assms by (auto simp: hull_inv_def chain_ok_def)

lemma hull_upper_seen:
  assumes "hull_inv s ps" "h \<in> set (kept_upper s)"
  shows "\<exists>p \<in> set ps. h = up_pt (plm_epsilon s) p"
proof -
  have "neg_point h \<in> set (drop (plm_upper_start s) (map neg_point (plm_upper s)))"
    using assms(2) by (simp add: drop_map)
  then have "neg_point h \<in> neg_point ` up_pt (plm_epsilon s) ` set ps" using assms(1) by (auto simp: hull_inv_def chain_ok_def)
  then obtain p where "p \<in> set ps" "neg_point h = neg_point (up_pt (plm_epsilon s) p)" by auto
  then show ?thesis by (metis neg_point_simps(3))
qed

lemma hull_starts:
  assumes "hull_inv s ps"
  shows "plm_lower_start s < length (plm_lower s)" "plm_upper_start s < length (plm_upper s)"
  using assms by (auto simp: hull_inv_def chain_ok_def)

text \<open>A line through both hulls as the rectangle sees it stays between the extreme lines to the right.\<close>

lemma right_of_rect:
  assumes "rect_ok s" "above l (plm_rect1 s)" "below l (plm_rect3 s)" "fst (plm_rect3 s) \<le> x"
  shows "line_at l x \<le> line_at (line_max s) x"
proof -
  have "fst (plm_rect1 s) < fst (plm_rect3 s)" using assms(1) unfolding rect_ok_def by blast
  then show ?thesis using assms(2-4) lines_right[of "line_max s" "fst (plm_rect1 s)" l "fst (plm_rect3 s)" x]
    by (simp add: above_def below_def line_thru_at)
qed

lemma right_of_rect':
  assumes "rect_ok s" "below l (plm_rect0 s)" "above l (plm_rect2 s)" "fst (plm_rect2 s) \<le> x"
  shows "line_at (line_min s) x \<le> line_at l x"
proof -
  have "fst (plm_rect0 s) < fst (plm_rect2 s)" using assms(1) unfolding rect_ok_def by blast
  then show ?thesis using assms(2-4) lines_right[of l "fst (plm_rect0 s)" "line_min s" "fst (plm_rect2 s)" x]
    by (simp add: above_def below_def line_thru_at)
qed

section \<open>The two blocks that narrow the range\<close>

text \<open>A new point (p1 above p2) to the right that the extreme lines do not rule out.\<close>

definition new_point :: "plm \<Rightarrow> plm_point list \<Rightarrow> plm_point \<Rightarrow> plm_point \<Rightarrow> bool" where
  "new_point s ps p1 p2 \<longleftrightarrow> fst p1 = fst p2 \<and> snd p2 < snd p1 \<and> (\<forall>p \<in> set ps. fst p < fst p1) \<and>
     below (line_min s) p1 \<and> above (line_max s) p2"

definition same_low :: "plm \<Rightarrow> plm \<Rightarrow> bool" where
  "same_low s s1 \<longleftrightarrow> plm_lower s1 = plm_lower s \<and> plm_upper_start s1 = plm_upper_start s \<and> plm_rect0 s1 = plm_rect0 s \<and>
     plm_rect2 s1 = plm_rect2 s"

lemma kept_left:
  assumes "hull_inv s ps" "new_point s ps p1 p2"
  shows "\<forall>h \<in> set (kept_lower s). fst h < fst p1" "\<forall>h \<in> set (kept_upper s). fst h < fst p1"
  using assms hull_lower_seen[OF assms(1)] hull_upper_seen[OF assms(1)] by (fastforce simp: new_point_def)+

text \<open>What holds between the two blocks.\<close>

definition mid_ok :: "plm \<Rightarrow> plm_point list \<Rightarrow> plm_point \<Rightarrow> plm_point \<Rightarrow> plm \<Rightarrow> bool" where
  "mid_ok s ps p1 p2 s1 \<longleftrightarrow> same_low s s1 \<and> rect_ok s1 \<and>
     chain_ok (plm_lower s1) (plm_lower_start s1) (lo_pt (plm_epsilon s) ` set ps) \<and>
     chain_ok (map neg_point (plm_upper s1)) (plm_upper_start s1) (neg_point ` insert p1 (up_pt (plm_epsilon s) ` set ps)) \<and>
     (\<exists>U vs. plm_upper s1 = U @ vs \<and> plm_upper_start s1 < length U \<and> (vs = [] \<or> vs = [p1]) \<and>
        (\<forall>h \<in> set (drop (plm_upper_start s1) U). fst h < fst p1)) \<and>
     fits (plm_epsilon s) (line_max s1) ps \<and> below (line_max s1) p1 \<and> above (line_max s1) p2 \<and>
     (\<forall>l. (\<forall>h \<in> set (kept_lower s1). above l h) \<and> below l p1 \<longrightarrow> (\<forall>h \<in> set (kept_lower s). above l h)) \<and>
     (\<forall>l. (\<forall>h \<in> set (kept_upper s1). below l h) \<longrightarrow> (\<forall>h \<in> set (kept_upper s). below l h)) \<and>
     (\<forall>l. above l (plm_rect1 s1) \<and> below l (last (plm_upper s1)) \<longrightarrow> below l p1)"

lemma narrow_max_ok:
  assumes inv: "hull_inv s ps" and np: "new_point s ps p1 p2" and A: "\<not> below (line_max s) p1"
  shows "mid_ok s ps p1 p2 (narrow_max p1 s)"
proof -
  let ?eps = "plm_epsilon s" and ?ls = "plm_lower_start s" and ?us = "plm_upper_start s"
  define m where "m = extreme_slope slope_greater p1 (drop (?ls + 1) (plm_lower s)) (?ls + 1)
    (point_minus (plm_lower s ! ?ls) p1, ?ls)"
  define e where "e = hull_end (\<lambda>c. c \<le> 0) ?us (plm_upper s) p1 (length (plm_upper s))"
  define s1 where "s1 = narrow_max p1 s"
  have f: "plm_lower s1 = plm_lower s" "plm_upper_start s1 = ?us" "plm_rect0 s1 = plm_rect0 s" "plm_rect2 s1 = plm_rect2 s"
    "plm_lower_start s1 = m" "plm_upper s1 = take e (plm_upper s) @ [p1]" "plm_rect1 s1 = plm_lower s ! m" "plm_rect3 s1 = p1"
    by (simp_all add: s1_def narrow_max_def Let_def m_def e_def)
  have ch: "chain_ok (plm_lower s) ?ls (lo_pt ?eps ` set ps)" "chain_ok (map neg_point (plm_upper s)) ?us (neg_point ` up_pt ?eps ` set ps)"
    and r: "rect_ok s" using inv by (simp_all add: hull_inv_def)
  note x = kept_left[OF inv np]
  note t = tangent_lower[OF ch(1) x(1), folded m_def]
  note u = trim_upper[OF ch(2) x(2), folded e_def]
  have c: "plm_lower s ! m \<in> set (kept_lower s)"
    using t(1,2) by (auto simp: in_set_conv_nth intro!: exI[of _ "m - ?ls"])
  then obtain pc where pc: "pc \<in> set ps" "plm_lower s ! m = lo_pt ?eps pc" using hull_lower_seen[OF inv] by blast
  have lines: "fits ?eps (line_max s) ps" "fits ?eps (line_min s) ps"
    and impl: "\<And>l. (\<forall>h \<in> set (kept_lower s). above l h) \<Longrightarrow> (\<forall>h \<in> set (kept_upper s). below l h) \<Longrightarrow> fits ?eps l ps"
    using inv by (auto simp: hull_inv_def)
  have bel: "below (line_max s1) (up_pt ?eps q)" if "q \<in> set ps" for q
    unfolding f
  proof (rule new_line_below)
    show "above (line_min s) (plm_lower s ! m)" "above (line_max s) (plm_lower s ! m)" using lines pc by (auto simp: fits_def)
    show "fst (plm_lower s ! m) < fst p1" by (rule t(3))
    show "below (line_min s) p1" "above (line_max s) p1" using np A by (auto simp: new_point_def above_def below_def)
    show "fst (up_pt ?eps q) < fst p1" using np that by (auto simp: new_point_def)
    show "below (line_min s) (up_pt ?eps q)" "below (line_max s) (up_pt ?eps q)" using lines that by (auto simp: fits_def)
  qed
  have fit: "fits ?eps (line_max s1) ps"
  proof (rule impl)
    show "\<forall>h \<in> set (kept_lower s). above (line_max s1) h" using t(4) unfolding f .
    show "\<forall>h \<in> set (kept_upper s). below (line_max s1) h" using bel hull_upper_seen[OF inv] by metis
  qed
  have at: "line_at (line_max s1) (fst p1) = of_int (snd p1)" unfolding f using t(3) by (simp add: line_thru_at)
  have us: "?us < e" "take e (plm_upper s) ! ?us = plm_upper s ! ?us" using u(1) by simp_all
  have r1: "rect_ok s1"
    unfolding rect_ok_def f
  proof (intro conjI)
    show "plm_rect2 s = last (plm_lower s)" "fst (plm_rect0 s) < fst (plm_rect2 s)" using r unfolding rect_ok_def by blast+
    have "plm_rect0 s = plm_upper s ! ?us" using r unfolding rect_ok_def by blast
    then show "plm_rect0 s = (take e (plm_upper s) @ [p1]) ! ?us" using us u(2) by (simp add: nth_append)
  qed (use t(3) in simp_all)
  have low: "chain_ok (plm_lower s1) (plm_lower_start s1) (lo_pt ?eps ` set ps)"
    unfolding f using chain_ok_later[OF ch(1) t(1,2)] .
  have upp: "chain_ok (map neg_point (plm_upper s1)) (plm_upper_start s1) (neg_point ` insert p1 (up_pt ?eps ` set ps))"
    unfolding f using u(3) by simp
  have form: "\<exists>U vs. plm_upper s1 = U @ vs \<and> plm_upper_start s1 < length U \<and> (vs = [] \<or> vs = [p1]) \<and>
      (\<forall>h \<in> set (drop (plm_upper_start s1) U). fst h < fst p1)"
  proof (intro exI conjI)
    show "plm_upper s1 = take e (plm_upper s) @ [p1]" by (rule f(6))
    show "plm_upper_start s1 < length (take e (plm_upper s))" unfolding f using u(1,2) by simp
    show "\<forall>h \<in> set (drop (plm_upper_start s1) (take e (plm_upper s))). fst h < fst p1"
      using x(2) set_take_subset[of "e - ?us" "kept_upper s"] unfolding f drop_take by auto
  qed simp
  have "same_low s s1" unfolding same_low_def f by simp
  moreover have "below (line_max s1) p1" "above (line_max s1) p2"
    using at np by (simp_all add: below_def above_def new_point_def)
  moreover have "\<forall>l. (\<forall>h \<in> set (kept_lower s1). above l h) \<and> below l p1 \<longrightarrow> (\<forall>h \<in> set (kept_lower s). above l h)"
    unfolding f using t(5) by blast
  moreover have "\<forall>l. (\<forall>h \<in> set (kept_upper s1). below l h) \<longrightarrow> (\<forall>h \<in> set (kept_upper s). below l h)"
    unfolding f using u(4) by blast
  moreover have "\<forall>l. above l (plm_rect1 s1) \<and> below l (last (plm_upper s1)) \<longrightarrow> below l p1" unfolding f by simp
  ultimately show ?thesis using r1 low upp form fit unfolding mid_ok_def s1_def by blast
qed

lemma keep_max_ok:
  assumes inv: "hull_inv s ps" and np: "new_point s ps p1 p2" and A: "below (line_max s) p1"
  shows "mid_ok s ps p1 p2 s"
proof -
  have r: "rect_ok s" using inv by (simp add: hull_inv_def)
  have p1: "fst (plm_rect3 s) \<le> fst p1"
    using kept_left(2)[OF inv np] last_in_drop[OF hull_starts(2)[OF inv]] r by (auto simp: rect_ok_def intro: less_imp_le)
  have "below l p1" if "above l (plm_rect1 s)" "below l (last (plm_upper s))" for l
    using right_of_rect[OF r that(1) _ p1] that(2) r A by (auto simp: below_def rect_ok_def)
  moreover have "chain_ok (map neg_point (plm_upper s)) (plm_upper_start s) (neg_point ` insert p1 (up_pt (plm_epsilon s) ` set ps))"
    using inv by (auto simp: hull_inv_def intro: chain_ok_mono)
  moreover have "\<exists>U vs. plm_upper s = U @ vs \<and> plm_upper_start s < length U \<and> (vs = [] \<or> vs = [p1]) \<and>
      (\<forall>h \<in> set (drop (plm_upper_start s) U). fst h < fst p1)"
    using kept_left(2)[OF inv np] hull_starts(2)[OF inv] by (intro exI[of _ "plm_upper s"] exI[of _ "[]"]) simp
  ultimately show ?thesis using inv np A by (simp add: mid_ok_def same_low_def hull_inv_def new_point_def)
qed

text \<open>The second block, and both together.\<close>

lemma mid_max_line:
  assumes "hull_inv s ps" "new_point s ps p1 p2" "mid_ok s ps p1 p2 s1"
  shows "kept_lower s1 \<noteq> []" "last (plm_lower s1) = plm_rect2 s1" "plm_rect1 s1 = hd (kept_lower s1)"
proof -
  have "plm_lower_start s1 < length (plm_lower s1)" using assms(3) by (auto simp: mid_ok_def chain_ok_def)
  then show "kept_lower s1 \<noteq> []" "plm_rect1 s1 = hd (kept_lower s1)"
    using assms(3) by (simp_all add: mid_ok_def rect_ok_def hd_drop_conv_nth)
  show "last (plm_lower s1) = plm_rect2 s1" using assms(3) by (simp add: mid_ok_def rect_ok_def)
qed

definition after_ok :: "plm \<Rightarrow> plm_point list \<Rightarrow> plm_point \<Rightarrow> plm_point \<Rightarrow> plm \<Rightarrow> bool" where
  "after_ok s ps p1 p2 s2 \<longleftrightarrow> rect_ok s2 \<and>
     chain_ok (plm_lower s2) (plm_lower_start s2) (insert p2 (lo_pt (plm_epsilon s) ` set ps)) \<and>
     chain_ok (map neg_point (plm_upper s2)) (plm_upper_start s2) (neg_point ` insert p1 (up_pt (plm_epsilon s) ` set ps)) \<and>
     fits (plm_epsilon s) (line_max s2) ps \<and> below (line_max s2) p1 \<and> above (line_max s2) p2 \<and>
     fits (plm_epsilon s) (line_min s2) ps \<and> below (line_min s2) p1 \<and> above (line_min s2) p2 \<and>
     (\<forall>l. (\<forall>h \<in> set (kept_lower s2). above l h) \<and> (\<forall>h \<in> set (kept_upper s2). below l h) \<longrightarrow>
        fits (plm_epsilon s) l ps \<and> below l p1 \<and> above l p2)"

lemma narrow_min_ok:
  assumes inv: "hull_inv s ps" and np: "new_point s ps p1 p2" and mid: "mid_ok s ps p1 p2 s1"
    and B: "\<not> above (line_min s) p2"
  shows "after_ok s ps p1 p2 (narrow_min p2 s1)"
proof -
  let ?eps = "plm_epsilon s" and ?ls = "plm_lower_start s1" and ?us = "plm_upper_start s1"
  define m where "m = extreme_slope slope_less p2 (drop (?us + 1) (plm_upper s1)) (?us + 1)
    (point_minus (plm_upper s1 ! ?us) p2, ?us)"
  define e where "e = hull_end (\<lambda>c. c \<ge> 0) ?ls (plm_lower s1) p2 (length (plm_lower s1))"
  define s2 where "s2 = narrow_min p2 s1"
  have f: "plm_upper s2 = plm_upper s1" "plm_lower_start s2 = ?ls" "plm_rect1 s2 = plm_rect1 s1" "plm_rect3 s2 = plm_rect3 s1"
    "plm_upper_start s2 = m" "plm_lower s2 = take e (plm_lower s1) @ [p2]" "plm_rect0 s2 = plm_upper s1 ! m" "plm_rect2 s2 = p2"
    by (simp_all add: s2_def narrow_min_def Let_def m_def e_def)
  have p12: "fst p1 = fst p2" "snd p2 < snd p1" using np by (simp_all add: new_point_def)
  have ch: "chain_ok (plm_lower s1) ?ls (lo_pt ?eps ` set ps)"
    "chain_ok (map neg_point (plm_upper s1)) ?us (neg_point ` insert p1 (up_pt ?eps ` set ps))"
    and r: "rect_ok s1" and mid_lower: "\<And>l. (\<forall>h \<in> set (kept_lower s1). above l h) \<Longrightarrow> below l p1 \<Longrightarrow> \<forall>h \<in> set (kept_lower s). above l h"
    and mid_upper: "\<And>l. (\<forall>h \<in> set (kept_upper s1). below l h) \<Longrightarrow> \<forall>h \<in> set (kept_upper s). below l h"
    and mid_new: "\<And>l. above l (plm_rect1 s1) \<Longrightarrow> below l (last (plm_upper s1)) \<Longrightarrow> below l p1"
    and mid_fit: "fits ?eps (line_max s1) ps" "below (line_max s1) p1" "above (line_max s1) p2"
    using mid unfolding mid_ok_def by blast+
  obtain U vs where U: "plm_upper s1 = U @ vs" "?us < length U" "vs = [] \<or> vs = [p1]"
    "\<forall>h \<in> set (drop ?us U). fst h < fst p2" using mid p12 by (auto simp: mid_ok_def)
  have vs: "vs = [] \<or> (\<exists>q. vs = [q] \<and> fst q = fst p2 \<and> snd q > snd p2)" using U(3) p12 by blast
  have low_x: "\<forall>h \<in> set (kept_lower s1). fst h < fst p2"
  proof
    fix h assume "h \<in> set (kept_lower s1)"
    then obtain p where "p \<in> set ps" "h = lo_pt ?eps p" using ch(1) by (auto simp: chain_ok_def)
    with np show "fst h < fst p2" by (auto simp: new_point_def)
  qed
  note t = tangent_upper[OF ch(2)[unfolded U(1)] U(2,4) vs, folded U(1), folded m_def]
  note u = trim_lower[OF ch(1) low_x, folded e_def]
  have lines: "fits ?eps (line_max s) ps" "fits ?eps (line_min s) ps"
    and impl: "\<And>l. (\<forall>h \<in> set (kept_lower s). above l h) \<Longrightarrow> (\<forall>h \<in> set (kept_upper s). below l h) \<Longrightarrow> fits ?eps l ps"
    using inv by (auto simp: hull_inv_def)
  have m_upper: "m < length (plm_upper s1)" using t(2) U(1) by simp
  have "drop ?us U ! (m - ?us) = plm_upper s1 ! m" "m - ?us < length (drop ?us U)"
    using t(1,2) U(1) by (simp_all add: nth_append)
  then have c: "plm_upper s1 ! m \<in> set (drop ?us U)" by (metis nth_mem)
  then have cx: "fst (plm_upper s1 ! m) < fst p1" using U(4) p12 by auto
  have "neg_point (plm_upper s1 ! m) \<in> set (drop ?us (map neg_point (plm_upper s1)))" using c U(1) by (simp add: drop_map)
  then have "neg_point (plm_upper s1 ! m) \<in> neg_point ` insert p1 (up_pt ?eps ` set ps)"
    using ch(2) unfolding chain_ok_def by blast
  then obtain g where g: "g \<in> insert p1 (up_pt ?eps ` set ps)" "neg_point (plm_upper s1 ! m) = neg_point g"
    by (elim imageE)
  then have "plm_upper s1 ! m = g" by (metis neg_point_simps(3))
  with g cx obtain pc where pc: "pc \<in> set ps" "plm_upper s1 ! m = up_pt ?eps pc" by auto
  have abv: "above (line_min s2) (lo_pt ?eps q)" if "q \<in> set ps" for q
    unfolding f
  proof (rule new_line_above)
    show "below (line_max s) (plm_upper s1 ! m)" "below (line_min s) (plm_upper s1 ! m)" using lines pc by (auto simp: fits_def)
    show "fst (plm_upper s1 ! m) < fst p2" by (rule t(3))
    show "above (line_max s) p2" "below (line_min s) p2" using np B by (auto simp: new_point_def above_def below_def)
    show "fst (lo_pt ?eps q) < fst p2" using np that by (auto simp: new_point_def)
    show "above (line_max s) (lo_pt ?eps q)" "above (line_min s) (lo_pt ?eps q)" using lines that by (auto simp: fits_def)
  qed
  have fit: "fits ?eps (line_min s2) ps"
  proof (rule impl)
    show "\<forall>h \<in> set (kept_lower s). above (line_min s2) h" using abv hull_lower_seen[OF inv] by metis
    show "\<forall>h \<in> set (kept_upper s). below (line_min s2) h" 
      using mid_upper[of "line_min s2"] t(4) unfolding f by blast
  qed
  have at: "line_at (line_min s2) (fst p2) = of_int (snd p2)" unfolding f using t(3) by (simp add: line_thru_at)
  have ls: "?ls < e" "take e (plm_lower s1) ! ?ls = plm_lower s1 ! ?ls" using u(1) by simp_all
  have r2: "rect_ok s2"
    unfolding rect_ok_def f
  proof (intro conjI)
    show "plm_rect3 s1 = last (plm_upper s1)" "fst (plm_rect1 s1) < fst (plm_rect3 s1)" using r unfolding rect_ok_def by blast+
    have "plm_rect1 s1 = plm_lower s1 ! ?ls" using r unfolding rect_ok_def by blast
    then show "plm_rect1 s1 = (take e (plm_lower s1) @ [p2]) ! ?ls" using ls u(2) by (simp add: nth_append)
  qed (use t(3) in simp_all)
  have low: "chain_ok (plm_lower s2) (plm_lower_start s2) (insert p2 (lo_pt ?eps ` set ps))" unfolding f using u(3) .
  have upp: "chain_ok (map neg_point (plm_upper s2)) (plm_upper_start s2) (neg_point ` insert p1 (up_pt ?eps ` set ps))"
    unfolding f using chain_ok_later[OF ch(2) t(1)] m_upper by simp
  have "fits ?eps l ps \<and> below l p1 \<and> above l p2"
    if l: "\<forall>h \<in> set (kept_lower s2). above l h" "\<forall>h \<in> set (kept_upper s2). below l h" for l
  proof -
    have lower_s1: "\<forall>h \<in> set (kept_lower s1). above l h" using u(4) l(1) unfolding f by blast
    have p2: "above l p2" using l(1) unfolding f using u(1,2) by auto
    have upper_s1: "\<forall>h \<in> set (kept_upper s1). below l h" using t(5) l(2) p2 unfolding f by blast
    have "plm_rect1 s1 \<in> set (kept_lower s1)" "last (plm_upper s1) \<in> set (kept_upper s1)"
      using mid_max_line[OF inv np mid] last_in_drop[of ?us "plm_upper s1"] U(1,2) by (auto intro: hd_in_set)
    then have p1: "below l p1" using mid_new lower_s1 upper_s1 by blast
    show ?thesis using impl[OF mid_lower[OF lower_s1 p1] mid_upper[OF upper_s1]] p1 p2 by blast
  qed
  moreover have "below (line_min s2) p1" "above (line_min s2) p2"
    using at p12 by (simp_all add: below_def above_def)
  moreover have "line_max s2 = line_max s1" unfolding f ..
  ultimately show ?thesis using r2 low upp fit mid_fit unfolding after_ok_def s2_def[symmetric] by simp
qed

lemma keep_min_ok:
  assumes inv: "hull_inv s ps" and np: "new_point s ps p1 p2" and mid: "mid_ok s ps p1 p2 s1"
    and B: "above (line_min s) p2"
  shows "after_ok s ps p1 p2 s1"
proof -
  let ?eps = "plm_epsilon s"
  have ch: "chain_ok (plm_lower s1) (plm_lower_start s1) (lo_pt ?eps ` set ps)"
    "chain_ok (map neg_point (plm_upper s1)) (plm_upper_start s1) (neg_point ` insert p1 (up_pt ?eps ` set ps))"
    and r: "rect_ok s1" and same: "same_low s s1"
    and mid_lower: "\<And>l. (\<forall>h \<in> set (kept_lower s1). above l h) \<Longrightarrow> below l p1 \<Longrightarrow> \<forall>h \<in> set (kept_lower s). above l h"
    and mid_upper: "\<And>l. (\<forall>h \<in> set (kept_upper s1). below l h) \<Longrightarrow> \<forall>h \<in> set (kept_upper s). below l h"
    and mid_new: "\<And>l. above l (plm_rect1 s1) \<Longrightarrow> below l (last (plm_upper s1)) \<Longrightarrow> below l p1"
    and mid_fit: "fits ?eps (line_max s1) ps" "below (line_max s1) p1" "above (line_max s1) p2"
    using mid unfolding mid_ok_def by blast+
  have lines: "fits ?eps (line_min s) ps"
    and impl: "\<And>l. (\<forall>h \<in> set (kept_lower s). above l h) \<Longrightarrow> (\<forall>h \<in> set (kept_upper s). below l h) \<Longrightarrow> fits ?eps l ps"
    using inv by (auto simp: hull_inv_def)
  have lm: "line_min s1 = line_min s" using same by (simp add: same_low_def)
  have us: "plm_upper_start s1 < length (plm_upper s1)" using ch(2) by (simp add: chain_ok_def)
  have low: "chain_ok (plm_lower s1) (plm_lower_start s1) (insert p2 (lo_pt ?eps ` set ps))"
    using chain_ok_mono[OF ch(1)] by blast
  have "rect_ok s" using inv by (simp add: hull_inv_def)
  have r2_x: "fst (plm_rect2 s) \<le> fst p2"
    using kept_left(1)[OF inv np] last_in_drop[OF hull_starts(1)[OF inv]] \<open>rect_ok s\<close> np
    by (auto simp: rect_ok_def new_point_def intro: less_imp_le)
  have "fits ?eps l ps \<and> below l p1 \<and> above l p2"
    if l: "\<forall>h \<in> set (kept_lower s1). above l h" "\<forall>h \<in> set (kept_upper s1). below l h" for l
  proof -
    have "plm_rect1 s1 \<in> set (kept_lower s1)" "last (plm_upper s1) \<in> set (kept_upper s1)"
      "plm_rect2 s1 \<in> set (kept_lower s1)" "plm_upper s1 ! plm_upper_start s1 \<in> set (kept_upper s1)"
      using mid_max_line[OF inv np mid] last_in_drop[OF us] start_in_drop[OF us]
        last_in_drop[of "plm_lower_start s1" "plm_lower s1"] by (auto intro: hd_in_set)
    then have a: "above l (plm_rect1 s1)" "below l (last (plm_upper s1))" "above l (plm_rect2 s)" "below l (plm_rect0 s)"
      using l r same by (auto simp: rect_ok_def same_low_def)
    have p1: "below l p1" by (rule mid_new[OF a(1,2)])
    have "line_at (line_min s) (fst p2) \<le> line_at l (fst p2)" by (rule right_of_rect'[OF \<open>rect_ok s\<close> a(4,3) r2_x])
    with B have "above l p2" by (simp add: above_def)
    then show ?thesis using impl[OF mid_lower[OF l(1) p1] mid_upper[OF l(2)]] p1 by blast
  qed
  then show ?thesis
    using r low ch(2) mid_fit lines lm B np unfolding after_ok_def new_point_def by simp
qed

end
