(* ===== verification/PgmSegment.thy ===== *)
theory PgmSegment
  imports PgmModel
begin

text \<open>
  \<open>add_point\<close> accepts a point exactly when some line fits it together with the points before, and
  \<open>get_segment\<close> hands out such a line, rising when the positions do.
\<close>

section \<open>add_point\<close>

definition model_inv :: "plm \<Rightarrow> plm_point list \<Rightarrow> bool" where
  "model_inv s ps \<longleftrightarrow> ps \<noteq> [] \<and> 0 < plm_epsilon s \<and> plm_points_in_hull s = length ps \<and> plm_first_x s = fst (hd ps) \<and>
     plm_last_x s = fst (last ps) \<and> (\<forall>p \<in> set ps. in_range (snd p)) \<and>
     (if length ps = 1
      then plm_rect0 s = up_pt (plm_epsilon s) (hd ps) \<and> plm_rect1 s = lo_pt (plm_epsilon s) (hd ps) \<and>
        plm_upper s = [up_pt (plm_epsilon s) (hd ps)] \<and> plm_lower s = [lo_pt (plm_epsilon s) (hd ps)] \<and>
        plm_upper_start s = 0 \<and> plm_lower_start s = 0
      else hull_inv s ps)"

lemma add_first_point:
  assumes "plm_points_in_hull s = 0" "0 < plm_epsilon s" "in_range y"
  shows "\<exists>s'. plm_add_point x y s = Inr (True, s') \<and> model_inv s' [(x, y)] \<and> plm_epsilon s' = plm_epsilon s"
  using assms by (simp add: plm_add_point_def Let_def model_inv_def lo_pt_def up_pt_def)

lemma add_second_point:
  assumes "model_inv s [p]" "fst p < x" "in_range y"
  shows "\<exists>s'. plm_add_point x y s = Inr (True, s') \<and> model_inv s' [p, (x, y)] \<and> plm_epsilon s' = plm_epsilon s"
proof -
  let ?eps = "plm_epsilon s"
  define p1 p2 where "p1 = (x, upper_y ?eps y)" and "p2 = (x, lower_y ?eps y)"
  define s' where "s' = s\<lparr> plm_last_x := x, plm_rect2 := p2, plm_rect3 := p1, plm_upper := plm_upper s @ [p1],
    plm_lower := plm_lower s @ [p2], plm_points_in_hull := 2 \<rparr>"
  have f: "plm_rect0 s' = up_pt ?eps p" "plm_rect1 s' = lo_pt ?eps p" "plm_rect2 s' = p2" "plm_rect3 s' = p1"
    "plm_upper s' = [up_pt ?eps p, p1]" "plm_lower s' = [lo_pt ?eps p, p2]" "plm_upper_start s' = 0" "plm_lower_start s' = 0"
    "plm_epsilon s' = ?eps" "plm_points_in_hull s' = 2" "plm_first_x s' = fst p" "plm_last_x s' = x"
    using assms(1) by (simp_all add: s'_def model_inv_def)
  have np: "p1 = up_pt ?eps (x, y)" "p2 = lo_pt ?eps (x, y)" by (simp_all add: p1_def p2_def up_pt_def lo_pt_def)
  have lt: "snd (lo_pt ?eps p) < snd (up_pt ?eps p)" "snd p2 < snd p1"
    using assms(1,3) lower_less_upper[of ?eps] by (auto simp: lo_pt_def up_pt_def model_inv_def p1_def p2_def)
  have fx: "fst p1 = x" "fst p2 = x" by (simp_all add: p1_def p2_def)
  have "fits ?eps (line_thru (lo_pt ?eps p) p1) [p, (x, y)]" "fits ?eps (line_thru (up_pt ?eps p) p2) [p, (x, y)]"
  proof -
    have a: "line_at (line_thru (lo_pt ?eps p) p1) (fst p) = of_int (snd (lo_pt ?eps p))"
        "line_at (line_thru (lo_pt ?eps p) p1) x = of_int (snd p1)"
      using line_thru_at[of "lo_pt ?eps p" p1] assms(2) fx by simp_all
    have b: "line_at (line_thru (up_pt ?eps p) p2) (fst p) = of_int (snd (up_pt ?eps p))"
        "line_at (line_thru (up_pt ?eps p) p2) x = of_int (snd p2)"
      using line_thru_at[of "up_pt ?eps p" p2] assms(2) fx by simp_all
    show "fits ?eps (line_thru (lo_pt ?eps p) p1) [p, (x, y)]" "fits ?eps (line_thru (up_pt ?eps p) p2) [p, (x, y)]"
      using a b lt by (auto simp: fits_def above_def below_def np[symmetric])
  qed
  then have "hull_inv s' [p, (x, y)]"
    using assms(2) fx unfolding hull_inv_def rect_ok_def chain_ok_def f
    by (auto simp: np fits_def)
  then have "model_inv s' [p, (x, y)]" using assms unfolding model_inv_def f by (simp add: model_inv_def)
  moreover have "plm_add_point x y s = Inr (True, s')"
    using assms(1,2) by (simp add: plm_add_point_def Let_def model_inv_def s'_def p1_def p2_def)
  ultimately show ?thesis using f(9) by blast
qed

lemma add_later_point:
  assumes inv: "model_inv s ps" and len: "2 \<le> length ps" and x: "fst (last ps) < x" and y: "in_range y"
  shows "if \<exists>l. fits (plm_epsilon s) l (ps @ [(x, y)])
    then \<exists>s'. plm_add_point x y s = Inr (True, s') \<and> model_inv s' (ps @ [(x, y)]) \<and> plm_epsilon s' = plm_epsilon s
    else plm_add_point x y s = Inr (False, s\<lparr> plm_last_x := x, plm_points_in_hull := 0 \<rparr>)"
proof -
  let ?eps = "plm_epsilon s"
  define p1 p2 where "p1 = (x, upper_y ?eps y)" and "p2 = (x, lower_y ?eps y)"
  define s0 where "s0 = s\<lparr> plm_last_x := x \<rparr>"
  have f0: "plm_rect0 s0 = plm_rect0 s" "plm_rect1 s0 = plm_rect1 s" "plm_rect2 s0 = plm_rect2 s" "plm_rect3 s0 = plm_rect3 s"
    "plm_epsilon s0 = ?eps" "plm_points_in_hull s0 = length ps" "plm_first_x s0 = fst (hd ps)" "plm_last_x s0 = x"
    using inv by (simp_all add: s0_def model_inv_def)
  have hi: "hull_inv s ps" using inv len by (auto simp: model_inv_def split: if_splits)
  then have hi0: "hull_inv s0 ps" by (simp add: s0_def)
  have np: "p1 = up_pt ?eps (x, y)" "p2 = lo_pt ?eps (x, y)" by (simp_all add: p1_def p2_def up_pt_def lo_pt_def)
  have fx: "fst p1 = x" "fst p2 = x" by (simp_all add: p1_def p2_def)
  have lt: "snd p2 < snd p1"
    using inv y lower_less_upper[of ?eps] by (simp add: model_inv_def p1_def p2_def)
  have ne: "ps \<noteq> []" using len by auto
  have all_x: "\<forall>p \<in> set ps. fst p < x"
  proof -
    have "ascending (butlast ps @ [last ps])" using hi ne by (simp add: hull_inv_def)
    then have "\<forall>p \<in> set (butlast ps). fst p < fst (last ps)" by (simp only: ascending_append) simp
    then show ?thesis using x ne by (metis append_butlast_last_id in_set_conv_decomp less_trans set_ConsD set_append Un_iff empty_iff list.set(1))
  qed
  have r: "rect_ok s0" using hi0 by (simp add: hull_inv_def)
  then have r': "fst (plm_rect1 s) < fst (plm_rect3 s)" "fst (plm_rect0 s) < fst (plm_rect2 s)"
    unfolding rect_ok_def f0 by blast+
  obtain q3 where q3: "q3 \<in> set ps" "plm_rect3 s0 = up_pt ?eps q3"
    using hull_upper_seen[OF hi0 last_in_drop[OF hull_starts(2)[OF hi0]]] r by (auto simp: rect_ok_def f0(5))
  obtain q2 where q2: "q2 \<in> set ps" "plm_rect2 s0 = lo_pt ?eps q2"
    using hull_lower_seen[OF hi0 last_in_drop[OF hull_starts(1)[OF hi0]]] r by (auto simp: rect_ok_def f0(5))
  obtain q1 where q1: "q1 \<in> set ps" "plm_rect1 s0 = lo_pt ?eps q1"
    using hull_lower_seen[OF hi0 start_in_drop[OF hull_starts(1)[OF hi0]]] r by (auto simp: rect_ok_def f0(5))
  obtain q0 where q0: "q0 \<in> set ps" "plm_rect0 s0 = up_pt ?eps q0"
    using hull_upper_seen[OF hi0 start_in_drop[OF hull_starts(2)[OF hi0]]] r by (auto simp: rect_ok_def f0(5))
  have r23: "fst (plm_rect2 s) < x" "fst (plm_rect3 s) < x" using q2 q3 all_x f0 by auto
  have o1: "slope_less (point_minus p1 (plm_rect2 s)) (point_minus (plm_rect2 s) (plm_rect0 s)) \<longleftrightarrow> \<not> below (line_min s0) p1"
    using slope_less_continued[of "plm_rect0 s" "plm_rect2 s" p1] r' r23 fx by (simp add: below_def f0 not_le)
  have o2: "slope_greater (point_minus p2 (plm_rect3 s)) (point_minus (plm_rect3 s) (plm_rect1 s)) \<longleftrightarrow> \<not> above (line_max s0) p2"
    using slope_greater_continued[of "plm_rect1 s" "plm_rect3 s" p2] r' r23 fx by (simp add: above_def f0 not_le)
  have a: "slope_less (point_minus p1 (plm_rect1 s)) (point_minus (plm_rect3 s) (plm_rect1 s)) \<longleftrightarrow> \<not> below (line_max s0) p1"
    using slope_less_from_start[of "plm_rect1 s" "plm_rect3 s" p1] r' r23 fx by (simp add: below_def f0 not_le)
  have b: "slope_greater (point_minus p2 (plm_rect0 s)) (point_minus (plm_rect2 s) (plm_rect0 s)) \<longleftrightarrow> \<not> above (line_min s0) p2"
    using slope_greater_from_start[of "plm_rect0 s" "plm_rect2 s" p2] r' r23 fx by (simp add: above_def f0 not_le)
  have guard: "\<not> (plm_points_in_hull s > 0 \<and> x \<le> plm_last_x s)" "plm_points_in_hull s0 \<noteq> 0" "plm_points_in_hull s0 \<noteq> 1"
    using inv x len f0 by (simp_all add: model_inv_def)
  show ?thesis
  proof (cases "below (line_min s0) p1 \<and> above (line_max s0) p2")
    case True
    then have newp: "new_point s0 ps p1 p2" using fx lt all_x by (simp add: new_point_def)
    define s1 where "s1 = (if \<not> below (line_max s0) p1 then narrow_max p1 s0 else s0)"
    define s2 where "s2 = (if \<not> above (line_min s0) p2 then narrow_min p2 s1 else s1)"
    have mid: "mid_ok s0 ps p1 p2 s1"
      using narrow_max_ok[OF hi0 newp] keep_max_ok[OF hi0 newp] by (simp add: s1_def)
    then have same: "plm_rect0 s1 = plm_rect0 s" "plm_rect2 s1 = plm_rect2 s"
      using f0 by (simp_all add: mid_ok_def same_low_def)
    have after: "after_ok s0 ps p1 p2 s2"
      using narrow_min_ok[OF hi0 newp mid] keep_min_ok[OF hi0 newp mid] by (simp add: s2_def)
    have f2: "plm_epsilon s2 = ?eps" "plm_points_in_hull s2 = length ps" "plm_first_x s2 = fst (hd ps)" "plm_last_x s2 = x"
      using f0 by (simp_all add: s2_def s1_def narrow_min_def narrow_max_def Let_def)
    have s1': "(if \<not> below (line_max s0) p1 then narrow_max p1 s0 else s0) = s1"
      and s2': "(if \<not> above (line_min s0) p2 then narrow_min p2 s1 else s1) = s2"
      by (simp_all only: s1_def s2_def)
    define s3 where "s3 = s2\<lparr> plm_points_in_hull := plm_points_in_hull s2 + 1 \<rparr>"
    have "plm_add_point x y s = Inr (True, s3)"
      unfolding plm_add_point_def if_not_P[OF guard(1)] Let_def s0_def[symmetric]
      unfolding f0 p1_def[symmetric] p2_def[symmetric] if_not_P[OF guard(2)[unfolded f0]] if_not_P[OF guard(3)[unfolded f0]]
        o1 o2 a s1'[unfolded f0] same b s2'[unfolded f0]
      using True f0 by (simp add: s3_def)
    moreover have "hull_inv s3 (ps @ [(x, y)])"
    proof -
      have "ascending (ps @ [(x, y)])" using hi all_x by (simp add: hull_inv_def)
      moreover have "lo_pt ?eps ` set (ps @ [(x, y)]) = insert p2 (lo_pt ?eps ` set ps)"
        "up_pt ?eps ` set (ps @ [(x, y)]) = insert p1 (up_pt ?eps ` set ps)" by (simp_all add: np)
      ultimately have "hull_inv s2 (ps @ [(x, y)])"
        using after unfolding hull_inv_def after_ok_def f0 f2 fits_snoc np by metis
      then show ?thesis by (simp add: s3_def)
    qed
    moreover have "model_inv s3 (ps @ [(x, y)])"
      using calculation(2) inv f2 len y ne by (simp add: model_inv_def s3_def)
    moreover have "\<exists>l. fits ?eps l (ps @ [(x, y)])"
      by (rule exI[of _ "line_max s2"]) (use after in \<open>simp add: after_ok_def np f0\<close>)
    ultimately show ?thesis using f2 by (auto simp: s3_def)
  next
    case False
    have "\<not> fits ?eps l (ps @ [(x, y)])" for l
    proof
      assume "fits ?eps l (ps @ [(x, y)])"
      then have l: "fits ?eps l ps" "above l p2" "below l p1" by (simp_all add: np)
      have rl: "above l (plm_rect1 s0)" "below l (plm_rect3 s0)" "below l (plm_rect0 s0)" "above l (plm_rect2 s0)"
        using l(1) q0 q1 q2 q3 by (auto simp: fits_def)
      have "line_at l x \<le> line_at (line_max s0) x" using right_of_rect[OF r rl(1,2)] r23 f0 by simp
      moreover have "line_at (line_min s0) x \<le> line_at l x" using right_of_rect'[OF r rl(3,4)] r23 f0 by simp
      ultimately show False using False l(2,3) fx by (auto simp: above_def below_def)
    qed
    moreover have "plm_add_point x y s = Inr (False, s0\<lparr> plm_points_in_hull := 0 \<rparr>)"
      unfolding plm_add_point_def if_not_P[OF guard(1)] Let_def s0_def[symmetric]
      unfolding f0 p1_def[symmetric] p2_def[symmetric] if_not_P[OF guard(2)[unfolded f0]] if_not_P[OF guard(3)[unfolded f0]]
        o1 o2 using False[unfolded f0] by simp
    ultimately show ?thesis by (simp add: s0_def)
  qed
qed

section \<open>The segment\<close>

text \<open>A segment fits points: the line before its intercept is cut to an integer passes all of them.\<close>

definition seg_fits :: "nat \<Rightarrow> canonical_segment \<Rightarrow> plm_point list \<Rightarrow> bool" where
  "seg_fits eps cs ps \<longleftrightarrow> cs_first cs = fst (hd ps) \<and>
     (case get_floating_point_segment cs (cs_first cs) of (slope, icpt) \<Rightarrow>
        0 \<le> slope \<and> (slope = 0 \<longrightarrow> length ps \<noteq> 2) \<and>
        (\<exists>c. icpt = trunc_int c \<and>
           (\<forall>p \<in> set ps. of_int (lower_y (int eps) (snd p)) \<le> slope * (fst p - cs_first cs) + c \<and>
                        slope * (fst p - cs_first cs) + c \<le> of_int (upper_y (int eps) (snd p)))))"

lemma upper_y_mono: "y \<le> z \<Longrightarrow> z \<le> size_max \<Longrightarrow> 0 \<le> eps \<Longrightarrow> upper_y eps y \<le> upper_y eps z"
  and lower_y_mono: "y \<le> z \<Longrightarrow> lower_y eps y \<le> lower_y eps z"
  by (auto simp: upper_y_def lower_y_def)

lemma line_from_slope: "line_at l x = line_at l x0 + fst l * (x - x0)"
  by (simp add: line_at_def algebra_simps)

lemma ascending_hd_last:
  assumes "ascending ps" "p \<in> set ps"
  shows "fst (hd ps) \<le> fst p" "fst p \<le> fst (last ps)"
proof -
  show "fst (hd ps) \<le> fst p" using assms by (cases ps) (auto intro: less_imp_le)
  show "fst p \<le> fst (last ps)" using assms by (induction ps) (auto intro: less_imp_le)
qed

text \<open>The line of greatest slope rises at least as much as the line of least slope falls.\<close>

lemma slope_line_max:
  assumes "hull_inv s ps" "fits (plm_epsilon s) l ps"
  shows "fst l \<le> fst (line_max s)"
proof -
  have r: "rect_ok s" using assms(1) by (simp add: hull_inv_def)
  obtain q3 where q3: "q3 \<in> set ps" "plm_rect3 s = up_pt (plm_epsilon s) q3"
    using hull_upper_seen[OF assms(1) last_in_drop[OF hull_starts(2)[OF assms(1)]]] r unfolding rect_ok_def by metis
  obtain q1 where q1: "q1 \<in> set ps" "plm_rect1 s = lo_pt (plm_epsilon s) q1"
    using hull_lower_seen[OF assms(1) start_in_drop[OF hull_starts(1)[OF assms(1)]]] r unfolding rect_ok_def by metis
  have lt: "fst (plm_rect1 s) < fst (plm_rect3 s)" using r unfolding rect_ok_def by blast
  have "above l (plm_rect1 s)" "below l (plm_rect3 s)" using assms(2) q1 q3 by (simp_all add: fits_def)
  then show ?thesis
    using lt lines_cross_slope[of "line_max s" "fst (plm_rect1 s)" l "fst (plm_rect3 s)"]
    by (simp add: above_def below_def line_thru_at)
qed

lemma mean_slope_nonneg:
  assumes inv: "hull_inv s ps" and eps: "0 < plm_epsilon s" and ne: "ps \<noteq> []"
    and ys: "sorted (map snd ps)" and rng: "\<forall>p \<in> set ps. in_range (snd p)"
  shows "0 \<le> fst (line_min s) + fst (line_max s)"
proof (cases "0 \<le> fst (line_min s)")
  case True
  have "fst (line_min s) \<le> fst (line_max s)" using slope_line_max[OF inv] inv by (simp add: hull_inv_def)
  with True show ?thesis by simp
next
  case False
  let ?l = "line_min s" and ?eps = "plm_epsilon s"
  have fit: "fits ?eps ?l ps" and asc: "ascending ps" using inv by (simp_all add: hull_inv_def)
  define k where "k = (- fst ?l, line_at ?l (fst (hd ps)) + line_at ?l (fst (last ps)) - snd ?l)"
  have k: "line_at k x = line_at ?l (fst (hd ps)) + line_at ?l (fst (last ps)) - line_at ?l x" for x
    by (simp add: k_def line_at_def algebra_simps)
  have dec: "line_at ?l x' \<le> line_at ?l x" if "x \<le> x'" for x x'
    using False that mult_left_mono_neg[of x x' "fst ?l"] by (simp add: line_at_def)
  have "above k (lo_pt ?eps p) \<and> below k (up_pt ?eps p)" if p: "p \<in> set ps" for p
  proof -
    obtain i where i: "i < length ps" "p = ps ! i" using p by (auto simp: in_set_conv_nth)
    have y: "snd (hd ps) \<le> snd p" "snd p \<le> snd (last ps)"
      using sorted_nth_mono[OF ys, of 0 i] sorted_nth_mono[OF ys, of i "length ps - 1"] i ne
      by (simp_all add: hd_conv_nth last_conv_nth)
    have "of_int (lower_y ?eps (snd p)) \<le> (of_int (lower_y ?eps (snd (last ps))) :: float_t)"
      using lower_y_mono[OF y(2)] by simp
    also have "\<dots> \<le> line_at ?l (fst (last ps))" using fit ne by (simp add: fits_def above_def lo_pt_def)
    also have "\<dots> \<le> line_at k (fst p)" using dec[OF ascending_hd_last(1)[OF asc p]] by (simp add: k)
    finally have a: "above k (lo_pt ?eps p)" by (simp add: above_def lo_pt_def)
    have "line_at k (fst p) \<le> line_at ?l (fst (hd ps))" using dec[OF ascending_hd_last(2)[OF asc p]] by (simp add: k)
    also have "\<dots> \<le> of_int (upper_y ?eps (snd (hd ps)))" using fit ne by (simp add: fits_def below_def up_pt_def)
    also have "\<dots> \<le> (of_int (upper_y ?eps (snd p)) :: float_t)"
      using upper_y_mono[OF y(1)] rng p eps by (simp add: in_range_def)
    finally show ?thesis using a by (simp add: below_def up_pt_def)
  qed
  then have "fits ?eps k ps" by (simp add: fits_def)
  from slope_line_max[OF inv this] show ?thesis by (simp add: k_def)
qed

lemma mean_slope_two:
  assumes inv: "hull_inv s [p, q]" and eps: "0 < plm_epsilon s" and y: "snd p < snd q"
    and rng: "in_range (snd p)" "snd q + plm_epsilon s < size_max"
  shows "0 < fst (line_min s) + fst (line_max s)"
proof -
  let ?eps = "plm_epsilon s"
  have r: "rect_ok s" and x: "fst p < fst q" using inv by (simp_all add: hull_inv_def)
  have lt: "fst (plm_rect1 s) < fst (plm_rect3 s)" "fst (plm_rect0 s) < fst (plm_rect2 s)" using r unfolding rect_ok_def by blast+
  have "plm_rect3 s \<in> set (kept_upper s)" "plm_rect0 s \<in> set (kept_upper s)" "plm_rect1 s \<in> set (kept_lower s)" "plm_rect2 s \<in> set (kept_lower s)"
    using r last_in_drop[OF hull_starts(2)[OF inv]] start_in_drop[OF hull_starts(2)[OF inv]]
      last_in_drop[OF hull_starts(1)[OF inv]] start_in_drop[OF hull_starts(1)[OF inv]] unfolding rect_ok_def by metis+
  then have "plm_rect3 s \<in> {up_pt ?eps p, up_pt ?eps q}" "plm_rect0 s \<in> {up_pt ?eps p, up_pt ?eps q}"
    "plm_rect1 s \<in> {lo_pt ?eps p, lo_pt ?eps q}" "plm_rect2 s \<in> {lo_pt ?eps p, lo_pt ?eps q}"
    using hull_upper_seen[OF inv] hull_lower_seen[OF inv] by fastforce+
  with lt x have "plm_rect3 s = up_pt ?eps q" "plm_rect0 s = up_pt ?eps p" "plm_rect1 s = lo_pt ?eps p" "plm_rect2 s = lo_pt ?eps q"
    by auto
  then have "fst (line_min s) + fst (line_max s)
      = of_int ((lower_y ?eps (snd q) - upper_y ?eps (snd p)) + (upper_y ?eps (snd q) - lower_y ?eps (snd p))) / (fst q - fst p)"
    by (simp add: line_thru_def Let_def lo_pt_def up_pt_def add_divide_distrib[symmetric])
  moreover have "lower_y ?eps (snd p) + upper_y ?eps (snd p) < lower_y ?eps (snd q) + upper_y ?eps (snd q)"
    using eps y rng by (auto simp: lower_y_def upper_y_def in_range_def)
  ultimately show ?thesis using x by (simp add: zero_less_divide_iff)
qed

text \<open>The line of \<open>get_floating_point_segment\<close> is the mean of the two extreme lines.\<close>

lemma mean_line:
  fixes l k :: line
  assumes "line_at l x0 = line_at k x0"
  shows "line_at l x0 + (x - x0) * ((fst l + fst k) / 2) = (line_at l x + line_at k x) / 2"
  using line_from_slope[of l x x0] line_from_slope[of k x x0] assms by (simp add: field_simps)

lemma slope_value_line: "slope_value (point_minus q p) = fst (line_thru p q)"
  by (simp add: slope_value_def point_minus_def line_thru_def Let_def)

lemma intersection_on_lines:
  assumes "fst p0 < fst p2" "fst p1 < fst p3"
    "cs = \<lparr> cs_rect0 = p0, cs_rect1 = p1, cs_rect2 = p2, cs_rect3 = p3, cs_first = x \<rparr>"
    "get_intersection cs = (i_x, i_y)"
  shows "line_at (line_thru p0 p2) i_x = i_y \<and>
    (line_at (line_thru p1 p3) i_x = i_y \<or> fst (line_thru p0 p2) = fst (line_thru p1 p3))"
proof -
  let ?s1 = "point_minus p2 p0" and ?s2 = "point_minus p3 p1"
  let ?m = "fst (line_thru p0 p2)" and ?M = "fst (line_thru p1 p3)"
  have one: "\<not> one_point cs" using assms(1,3) by (auto simp: one_point_def)
  have m: "of_int (snd ?s1) = ?m * fst ?s1" "of_int (snd ?s2) = ?M * fst ?s2"
    using assms(1,2) by (simp_all add: point_minus_def line_thru_def Let_def)
  have dx: "fst ?s1 > 0" "fst ?s2 > 0" using assms(1,2) by (simp_all add: point_minus_def)
  have eq: "slope_equal ?s1 ?s2 \<longleftrightarrow> ?m = ?M"
    using dx by (auto simp: slope_equal_def m)
  show ?thesis
  proof (cases "?m = ?M")
    case True
    then have "i_x = fst p0" "i_y = of_int (snd p0)"
      using assms(3,4) eq by (simp_all add: get_intersection_def Let_def)
    with True assms(1) show ?thesis by (simp add: line_thru_at)
  next
    case False
    define b where "b = (fst (point_minus p1 p0) * of_int (snd ?s2) - of_int (snd (point_minus p1 p0)) * fst ?s2)
      / (fst ?s1 * of_int (snd ?s2) - of_int (snd ?s1) * fst ?s2)"
    have i: "i_x = fst p0 + b * fst ?s1" "i_y = of_int (snd p0) + b * of_int (snd ?s1)"
      using assms(3,4) eq False one by (simp_all add: get_intersection_def Let_def b_def)
    have l0: "line_at (line_thru p0 p2) i_x = i_y"
      using line_from_slope[of "line_thru p0 p2" i_x "fst p0"] assms(1) by (simp add: line_thru_at i m)
    have "fst ?s1 * of_int (snd ?s2) - of_int (snd ?s1) * fst ?s2 = (?M - ?m) * (fst ?s1 * fst ?s2)"
      by (simp add: m algebra_simps)
    then have b: "b * ((?M - ?m) * fst ?s1) = (fst p1 - fst p0) * ?M - of_int (snd p1 - snd p0)"
    proof -
      have "b * ((?M - ?m) * (fst ?s1 * fst ?s2)) = fst (point_minus p1 p0) * of_int (snd ?s2) - of_int (snd (point_minus p1 p0)) * fst ?s2"
        using False dx \<open>fst ?s1 * of_int (snd ?s2) - _ = _\<close> by (simp add: b_def)
      also have "\<dots> = ((fst p1 - fst p0) * ?M - of_int (snd p1 - snd p0)) * fst ?s2"
        by (simp add: m point_minus_def[of p1 p0] algebra_simps)
      finally have "(b * ((?M - ?m) * fst ?s1)) * fst ?s2 = ((fst p1 - fst p0) * ?M - of_int (snd p1 - snd p0)) * fst ?s2"
        by (simp add: algebra_simps)
      then show ?thesis using dx(2) by simp
    qed
    have "line_at (line_thru p1 p3) i_x = of_int (snd p1) + ?M * (i_x - fst p1)"
      using line_from_slope[of "line_thru p1 p3" i_x "fst p1"] assms(2) by (simp add: line_thru_at)
    also have "\<dots> = of_int (snd p1) + ?M * (fst p0 - fst p1) + b * (?M * fst ?s1)" by (simp add: i algebra_simps)
    also have "\<dots> = i_y" using b by (simp add: i m algebra_simps)
    finally show ?thesis using l0 by simp
  qed
qed

lemma get_segment_fits:
  assumes inv: "model_inv s ps" and eps: "plm_epsilon s = int eps" and ys: "sorted_wrt (<) (map snd ps)"
    and rng: "\<forall>p \<in> set ps. snd p + int eps < size_max"
    and n: "n = (if length ps = 1 then 1 else n)" "n = 1 \<longrightarrow> length ps = 1"
  shows "seg_fits eps (get_segment (s\<lparr> plm_last_x := x, plm_points_in_hull := n \<rparr>)) ps"
proof (cases "length ps = 1")
  case True
  then obtain p where p: "ps = [p]" by (cases ps) auto
  let ?l = "lower_y (int eps) (snd p)" and ?u = "upper_y (int eps) (snd p)"
  have r: "?l \<le> ?u" using inv eps lower_less_upper[of "int eps" "snd p"] p by (auto simp: model_inv_def)
  then have mid: "?l \<le> (?u + ?l) div 2" "(?u + ?l) div 2 \<le> ?u" by auto
  have "get_segment (s\<lparr> plm_last_x := x, plm_points_in_hull := n \<rparr>)
      = \<lparr> cs_rect0 = up_pt (int eps) p, cs_rect1 = lo_pt (int eps) p, cs_rect2 = up_pt (int eps) p, cs_rect3 = lo_pt (int eps) p, cs_first = fst p \<rparr>"
    using inv p eps n by (simp add: get_segment_def model_inv_def)
  then show ?thesis using mid p
    by (auto simp: seg_fits_def get_floating_point_segment_def one_point_def trunc_int_def up_pt_def lo_pt_def
        intro!: exI[of _ "of_int ((?u + ?l) div 2)"])
next
  case False
  then have inv': "hull_inv s ps" and ne: "ps \<noteq> []" and pos: "0 < plm_epsilon s" and r_y: "\<forall>p \<in> set ps. in_range (snd p)"
    using inv by (auto simp: model_inv_def)
  define cs where "cs = get_segment (s\<lparr> plm_last_x := x, plm_points_in_hull := n \<rparr>)"
  have "n \<noteq> 1" using n False by blast
  then have cs: "cs = \<lparr> cs_rect0 = plm_rect0 s, cs_rect1 = plm_rect1 s, cs_rect2 = plm_rect2 s, cs_rect3 = plm_rect3 s, cs_first = fst (hd ps) \<rparr>"
    using inv by (simp add: cs_def get_segment_def model_inv_def)
  have "rect_ok s" using inv' by (simp add: hull_inv_def)
  then have lt: "fst (plm_rect0 s) < fst (plm_rect2 s)" "fst (plm_rect1 s) < fst (plm_rect3 s)" unfolding rect_ok_def by blast+
  then have one: "\<not> one_point cs" by (auto simp: one_point_def cs)
  obtain i_x i_y where i: "get_intersection cs = (i_x, i_y)" by fastforce
  let ?m = "fst (line_min s)" and ?M = "fst (line_max s)" and ?o = "fst (hd ps)"
  define c where "c = i_y - (i_x - ?o) * ((?m + ?M) / 2)"
  have g: "get_floating_point_segment cs ?o = ((?m + ?M) / 2, trunc_int c)"
    using one i by (simp add: get_floating_point_segment_def get_slope_range_def slope_value_line c_def Let_def cs)
  note on = intersection_on_lines[OF lt cs i]
  have shift: "r * (z - ?o) + (i_y - (i_x - ?o) * r) = i_y + (z - i_x) * r" for r z by (simp add: algebra_simps)
  have at_o: "(?m + ?M) / 2 * (z - ?o) + c = i_y + (z - i_x) * ((?m + ?M) / 2)" for z
    unfolding c_def by (rule shift)
  have mean: "\<exists>a b. 0 \<le> a \<and> 0 \<le> b \<and> a + b = 1 \<and> (?m + ?M) / 2 * (z - ?o) + c = a * line_at (line_min s) z + b * line_at (line_max s) z" for z
  proof (cases "line_at (line_max s) i_x = i_y")
    case True
    with on have "(?m + ?M) / 2 * (z - ?o) + c = (line_at (line_min s) z + line_at (line_max s) z) / 2"
      using mean_line[of "line_min s" i_x "line_max s" z] by (simp only: at_o)
    then show ?thesis by (intro exI[of _ "1 / 2"]) (simp add: field_simps)
  next
    case False
    with on have "?m = ?M" "line_at (line_min s) i_x = i_y" by auto
    then have "(?m + ?M) / 2 * (z - ?o) + c = line_at (line_min s) z"
      using line_from_slope[of "line_min s" z i_x] by (simp add: c_def algebra_simps)
    then show ?thesis by (intro exI[of _ 1] exI[of _ 0]) simp
  qed
  have fit: "fits (int eps) (line_max s) ps" "fits (int eps) (line_min s) ps" using inv' eps by (simp_all add: hull_inv_def)
  have "of_int (lower_y (int eps) (snd p)) \<le> (?m + ?M) / 2 * (fst p - ?o) + c \<and>
      (?m + ?M) / 2 * (fst p - ?o) + c \<le> of_int (upper_y (int eps) (snd p))" if p: "p \<in> set ps" for p
  proof -
    obtain a b where ab: "0 \<le> a" "0 \<le> b" "a + b = 1"
      "(?m + ?M) / 2 * (fst p - ?o) + c = a * line_at (line_min s) (fst p) + b * line_at (line_max s) (fst p)"
      using mean[of "fst p"] by blast
    have f: "of_int (lower_y (int eps) (snd p)) \<le> line_at (line_min s) (fst p)" "of_int (lower_y (int eps) (snd p)) \<le> line_at (line_max s) (fst p)"
      "line_at (line_min s) (fst p) \<le> of_int (upper_y (int eps) (snd p))" "line_at (line_max s) (fst p) \<le> of_int (upper_y (int eps) (snd p))"
      using fit p by (auto simp: fits_def above_def below_def lo_pt_def up_pt_def)
    show ?thesis unfolding ab(4) using convex_bound_le[OF f(3,4) ab(1-3)] ab(1-3) f(1,2)
      convex_bound_le[of "- line_at (line_min s) (fst p)" "- of_int (lower_y (int eps) (snd p))" "- line_at (line_max s) (fst p)" a b]
      by simp
  qed
  moreover have srt: "sorted (map snd ps)" using ys by (rule strict_sorted_imp_sorted)
  have "0 \<le> (?m + ?M) / 2" using mean_slope_nonneg[OF inv' pos ne srt r_y] by simp
  moreover have "(?m + ?M) / 2 \<noteq> 0" if two: "length ps = 2"
  proof -
    from two obtain p q where pq: "ps = [p, q]" by (auto simp: length_Suc_conv numeral_2_eq_2)
    then show ?thesis using mean_slope_two[of s p q] inv' pos ys r_y rng eps by simp
  qed
  ultimately show ?thesis using g unfolding seg_fits_def cs_def[symmetric] by (auto simp: cs)
qed

end
