(* ===== verification/PgmSegmentation.thy ===== *)
theory PgmSegmentation
  imports PgmSegment
begin

text \<open>
  \<open>make_segmentation\<close> cuts the points into greedy blocks: each block fits its segment, and a block with the
  next point fits no line. The parallel version does the same in chunks.
\<close>

section \<open>Points without repeated keys\<close>

definition to_point :: "float_t \<times> nat \<Rightarrow> plm_point" where
  "to_point q = (fst q, int (snd q))"

lemma to_point_simps [simp]: "fst (to_point q) = fst q" "snd (to_point q) = int (snd q)"
  by (simp_all add: to_point_def)

text \<open>The points after \<open>p\<close>, one for each key.\<close>

fun new_keys :: "float_t \<Rightarrow> (float_t \<times> nat) list \<Rightarrow> (float_t \<times> nat) list" where
  "new_keys x [] = []"
| "new_keys x (q # qs) = (if fst q = x then new_keys x qs else q # new_keys (fst q) qs)"

fun distinct_keys :: "(float_t \<times> nat) list \<Rightarrow> (float_t \<times> nat) list" where
  "distinct_keys [] = []"
| "distinct_keys (p # qs) = p # new_keys (fst p) qs"

lemma new_keys_append: "new_keys x (ps @ qs) = new_keys x ps @ new_keys (last (x # map fst ps)) qs"
  by (induction x ps rule: new_keys.induct) auto

lemma new_keys_dropWhile: "new_keys x qs = distinct_keys (dropWhile (\<lambda>q. fst q = x) qs)"
  by (induction qs) auto

lemma distinct_keys_append:
  "ps \<noteq> [] \<Longrightarrow> distinct_keys (ps @ qs) = distinct_keys ps @ distinct_keys (dropWhile (\<lambda>q. fst q = fst (last ps)) qs)"
proof (cases ps)
  case (Cons p rs)
  have "last (fst p # map fst rs) = fst (last ps)" using Cons by (simp add: last_map)
  then have "distinct_keys (ps @ qs) = (p # new_keys (fst p) rs) @ new_keys (fst (last ps)) qs"
    using Cons by (simp add: new_keys_append)
  also have "new_keys (fst (last ps)) qs = distinct_keys (dropWhile (\<lambda>q. fst q = fst (last ps)) qs)"
    by (rule new_keys_dropWhile)
  finally show ?thesis using Cons by simp
qed simp

lemma set_new_keys: "set (new_keys x qs) \<subseteq> set qs"
  by (induction x qs rule: new_keys.induct) auto

lemma set_distinct_keys: "set (distinct_keys qs) \<subseteq> set qs"
  using set_new_keys by (cases qs) auto

lemma new_keys_above:
  assumes "sorted (x # map fst qs)" "q \<in> set (new_keys x qs)"
  shows "x < fst q"
  using assms by (induction x qs rule: new_keys.induct) (auto split: if_splits)

section \<open>Greedy blocks\<close>

definition greedy_blocks :: "nat \<Rightarrow> plm_point list list \<Rightarrow> bool" where
  "greedy_blocks eps Bs \<longleftrightarrow> [] \<notin> set Bs \<and>
     (\<forall>i. Suc i < length Bs \<longrightarrow> \<not> (\<exists>l. fits (int eps) l (Bs ! i @ [hd (Bs ! Suc i)])))"

lemma greedy_blocks_start: "B \<noteq> [] \<Longrightarrow> greedy_blocks eps [B]"
  by (simp add: greedy_blocks_def)

lemma greedy_blocks_grow: "greedy_blocks eps (Bs @ [B]) \<Longrightarrow> greedy_blocks eps (Bs @ [B @ [q]])"
  by (auto simp: greedy_blocks_def nth_append hd_append less_Suc_eq split: if_splits)

lemma greedy_blocks_cut:
  assumes "greedy_blocks eps (Bs @ [B])" "\<not> (\<exists>l. fits (int eps) l (B @ [q]))"
  shows "greedy_blocks eps (Bs @ [B, [q]])"
  unfolding greedy_blocks_def
proof (intro conjI allI impI)
  show "[] \<notin> set (Bs @ [B, [q]])" using assms(1) by (auto simp: greedy_blocks_def)
  fix i assume i: "Suc i < length (Bs @ [B, [q]])"
  show "\<not> (\<exists>l. fits (int eps) l ((Bs @ [B, [q]]) ! i @ [hd ((Bs @ [B, [q]]) ! Suc i)]))"
  proof (cases "i = length Bs")
    case True
    then show ?thesis using assms(2) by (simp add: nth_append)
  next
    case False
    with i have "Suc i < length (Bs @ [B])" by simp
    moreover from this have "(Bs @ [B, [q]]) ! i = (Bs @ [B]) ! i" "(Bs @ [B, [q]]) ! Suc i = (Bs @ [B]) ! Suc i"
      by (auto simp: nth_append)
    ultimately show ?thesis using assms(1) by (simp add: greedy_blocks_def)
  qed
qed

definition points_ok :: "nat \<Rightarrow> (float_t \<times> nat) list \<Rightarrow> bool" where
  "points_ok eps qs \<longleftrightarrow> sorted (map fst qs) \<and> sorted_wrt (<) (map snd qs) \<and> (\<forall>q \<in> set qs. int (snd q) + int eps < size_max)"

section \<open>The loop\<close>

definition loop_inv :: "nat \<Rightarrow> (float_t \<times> nat) list \<Rightarrow> plm \<times> (float_t \<times> nat) \<times> canonical_segment list \<times> nat \<Rightarrow> bool" where
  "loop_inv eps D st \<longleftrightarrow> (case st of (opt, p, outs, c) \<Rightarrow>
     D \<noteq> [] \<and> last D = p \<and> sorted_wrt (<) (map snd D) \<and> (\<forall>q \<in> set D. int (snd q) + int eps < size_max) \<and>
     (\<exists>Bs B. map to_point D = concat Bs @ B \<and> model_inv opt B \<and> plm_epsilon opt = int eps \<and>
        list_all2 (seg_fits eps) outs Bs \<and> c = length outs \<and> greedy_blocks eps (Bs @ [B])))"

lemma block_ok:
  assumes "map to_point D = concat Bs @ B" "sorted_wrt (<) (map snd D)" "\<forall>q \<in> set D. int (snd q) + int eps < size_max"
  shows "sorted_wrt (<) (map snd B)" "\<forall>p \<in> set B. snd p + int eps < size_max"
proof -
  have "map snd (concat Bs @ B) = map int (map snd D)" unfolding assms(1)[symmetric] by simp
  moreover have "sorted_wrt (<) (map int (map snd D))"
    unfolding sorted_wrt_map by (rule sorted_wrt_mono_rel[OF _ assms(2)[unfolded sorted_wrt_map]]) simp
  ultimately have "sorted_wrt (<) (map snd (concat Bs) @ map snd B)" by simp
  then show "sorted_wrt (<) (map snd B)" by (simp only: sorted_wrt_append)
  show "\<forall>p \<in> set B. snd p + int eps < size_max"
  proof
    fix p assume "p \<in> set B"
    then have "p \<in> set (map to_point D)" using assms(1) by simp
    with assms(3) show "snd p + int eps < size_max" by auto
  qed
qed

lemma segmentation_step_ok:
  assumes inv: "loop_inv eps D (opt, p, outs, c)" and q: "inp i = q" "fst p \<le> fst q" "snd p < snd q"
    "int (snd q) + int eps < size_max"
  shows "\<exists>st'. segmentation_step inp i (opt, p, outs, c) = Inr st' \<and>
    (if fst q = fst p then st' = (opt, p, outs, c) else loop_inv eps (D @ [q]) st' \<and> fst (snd st') = q)"
proof (cases "fst q = fst p")
  case True
  then show ?thesis using q by (simp add: segmentation_step_def)
next
  case False
  with q have x: "fst p < fst q" by simp
  from inv obtain Bs B where B: "map to_point D = concat Bs @ B" "model_inv opt B" "plm_epsilon opt = int eps"
    "list_all2 (seg_fits eps) outs Bs" "c = length outs" "greedy_blocks eps (Bs @ [B])"
    and D: "D \<noteq> []" "last D = p" "sorted_wrt (<) (map snd D)" "\<forall>q \<in> set D. int (snd q) + int eps < size_max"
    by (auto simp: loop_inv_def)
  have ne: "B \<noteq> []" using B(2) by (simp add: model_inv_def)
  have lst: "last B = to_point p"
    using arg_cong[OF B(1), of last] D(1,2) ne by (simp add: last_map)
  note blk = block_ok[OF B(1) D(3,4)]
  have y: "in_range (int (snd q))" using q(4) by (simp add: in_range_def)
  have pos: "0 < plm_epsilon opt" using B(2) by (simp add: model_inv_def)
  have Dq: "sorted_wrt (<) (map snd (D @ [q]))" "\<forall>q \<in> set (D @ [q]). int (snd q) + int eps < size_max"
  proof -
    have "snd r < snd q" if r: "r \<in> set D" for r
    proof -
      obtain k where k: "k < length D" "r = D ! k" using r by (auto simp: in_set_conv_nth)
      have "snd r \<le> snd (last D)"
        using sorted_nth_mono[OF strict_sorted_imp_sorted[OF D(3)], of k "length D - 1"] k D(1) by (simp add: last_conv_nth)
      with D(2) q(3) show ?thesis by simp
    qed
    then show "sorted_wrt (<) (map snd (D @ [q]))" using D(3) by (auto simp: sorted_wrt_append)
    show "\<forall>q \<in> set (D @ [q]). int (snd q) + int eps < size_max" using D(4) q(4) by auto
  qed
  have grow: "?thesis" if "plm_add_point (fst q) (int (snd q)) opt = Inr (True, opt')" "model_inv opt' (B @ [to_point q])"
    "plm_epsilon opt' = plm_epsilon opt" for opt'
  proof -
    have "map to_point (D @ [q]) = concat Bs @ (B @ [to_point q])" using B(1) by simp
    then have "loop_inv eps (D @ [q]) (opt', q, outs, c)"
      using that(2,3) B(3-5) greedy_blocks_grow[OF B(6), of "to_point q"] Dq unfolding loop_inv_def
      by (auto intro!: exI[of _ Bs] exI[of _ "B @ [to_point q]"])
    then show ?thesis using that(1) False q(1) by (simp add: segmentation_step_def)
  qed
  show ?thesis
  proof (cases "length B = 1")
    case True
    then have "B = [to_point p]" using lst by (cases B) auto
    with add_second_point[of opt "to_point p" "fst q" "int (snd q)"] B(2) x y obtain opt' where
      "plm_add_point (fst q) (int (snd q)) opt = Inr (True, opt')" "model_inv opt' (B @ [to_point q])" "plm_epsilon opt' = plm_epsilon opt"
      by (auto simp: to_point_def)
    then show ?thesis by (rule grow)
  next
    case False
    with ne have len: "2 \<le> length B" by (cases B) (auto simp: Suc_le_eq)
    note step = add_later_point[OF B(2) len, of "fst q" "int (snd q)"]
    show ?thesis
    proof (cases "\<exists>l. fits (plm_epsilon opt) l (B @ [(fst q, int (snd q))])")
      case True
      with step lst x y obtain opt' where
        "plm_add_point (fst q) (int (snd q)) opt = Inr (True, opt')" "model_inv opt' (B @ [to_point q])" "plm_epsilon opt' = plm_epsilon opt"
        by (auto simp: to_point_def)
      then show ?thesis by (rule grow)
    next
      case noline: False
      define opt' where "opt' = opt\<lparr> plm_last_x := fst q, plm_points_in_hull := 0 \<rparr>"
      have "\<not> fits (plm_epsilon opt) l (B @ [(fst q, int (snd q))])" for l using noline by blast
      then have rej: "plm_add_point (fst q) (int (snd q)) opt = Inr (False, opt')"
        using step lst x y by (auto simp: opt'_def split: if_splits)
      have o': "plm_points_in_hull opt' = 0" "plm_epsilon opt' = plm_epsilon opt" by (simp_all add: opt'_def)
      with add_first_point[of opt' "int (snd q)" "fst q"] pos y obtain opt'' where
        o'': "plm_add_point (fst q) (int (snd q)) opt' = Inr (True, opt'')" "model_inv opt'' [to_point q]" "plm_epsilon opt'' = int eps"
        using B(3) by (auto simp: to_point_def)
      have sf: "seg_fits eps (get_segment opt') B"
        unfolding opt'_def using B(2,3) blk len by (intro get_segment_fits) auto
      have "map to_point (D @ [q]) = concat (Bs @ [B]) @ [to_point q]" using B(1) by simp
      moreover have "greedy_blocks eps ((Bs @ [B]) @ [[to_point q]])"
        using greedy_blocks_cut[OF B(6)] noline B(3) by (simp add: to_point_def)
      ultimately have "loop_inv eps (D @ [q]) (opt'', q, outs @ [get_segment opt'], c + 1)"
        using o''(2,3) B(4,5) sf Dq unfolding loop_inv_def
        by (auto intro!: exI[of _ "Bs @ [B]"] exI[of _ "[to_point q]"] simp: list_all2_appendI)
      then show ?thesis using \<open>fst q \<noteq> fst p\<close> q(1) rej o''(1) by (simp add: segmentation_step_def)
    qed
  qed
qed

lemma segmentation_loop_ok:
  assumes "loop_inv eps D (opt, p, outs, c)" "points_ok eps (p # map inp is)"
  shows "\<exists>st'. segmentation_loop inp is (opt, p, outs, c) = Inr st' \<and> loop_inv eps (D @ new_keys (fst p) (map inp is)) st'"
  using assms
proof (induction "is" arbitrary: D opt p outs c)
  case (Cons i "is")
  let ?q = "inp i"
  have q: "fst p \<le> fst ?q" "snd p < snd ?q" "int (snd ?q) + int eps < size_max"
    using Cons.prems(2) by (auto simp: points_ok_def)
  from segmentation_step_ok[OF Cons.prems(1), of inp i ?q, OF refl q] obtain st' where
    st': "segmentation_step inp i (opt, p, outs, c) = Inr st'"
    "if fst ?q = fst p then st' = (opt, p, outs, c) else loop_inv eps (D @ [?q]) st' \<and> fst (snd st') = ?q" by blast
  show ?case
  proof (cases "fst ?q = fst p")
    case True
    have "points_ok eps (p # map inp is)" using Cons.prems(2) by (auto simp: points_ok_def)
    with Cons.IH[OF Cons.prems(1)] st' True show ?thesis by auto
  next
    case False
    then obtain opt' outs' c' where s: "st' = (opt', ?q, outs', c')" "loop_inv eps (D @ [?q]) (opt', ?q, outs', c')"
      using st'(2) by (cases st') auto
    have "points_ok eps (?q # map inp is)" using Cons.prems(2) by (auto simp: points_ok_def)
    with Cons.IH[OF s(2)] st'(1) s(1) False show ?thesis by auto
  qed
qed simp

text \<open>A run of \<open>make_segmentation\<close> over a list of points.\<close>

definition segmentation_of :: "nat \<Rightarrow> (float_t \<times> nat) list \<Rightarrow> canonical_segment list \<Rightarrow> plm_point list list \<Rightarrow> bool" where
  "segmentation_of eps qs css Bs \<longleftrightarrow> concat Bs = map to_point (distinct_keys qs) \<and> [] \<notin> set Bs \<and> list_all2 (seg_fits eps) css Bs"

lemma make_segmentation_ok:
  assumes "points_ok eps (map inp [0..<n])" "0 < eps"
  shows "\<exists>css Bs. make_segmentation n eps inp = Inr (css, length css) \<and>
    segmentation_of eps (map inp [0..<n]) css Bs \<and> greedy_blocks eps Bs"
proof (cases "n = 0")
  case True
  then show ?thesis
    by (intro exI[of _ "[]"]) (auto simp: make_segmentation_def segmentation_of_def greedy_blocks_def)
next
  case False
  then have idx: "[0..<n] = 0 # [1..<n]" by (simp add: upt_rec)
  let ?p = "inp 0"
  have ok: "points_ok eps (?p # map inp [1..<n])" using assms(1) idx by simp
  have y: "in_range (int (snd ?p))" "int (snd ?p) + int eps < size_max"
    using ok by (auto simp: points_ok_def in_range_def)
  from add_first_point[of "OptimalPiecewiseLinearModel eps" "int (snd ?p)" "fst ?p"] y(1) assms(2) obtain opt where
    opt: "plm_add_point (fst ?p) (int (snd ?p)) (OptimalPiecewiseLinearModel eps) = Inr (True, opt)"
    "model_inv opt [to_point ?p]" "plm_epsilon opt = int eps"
    by (auto simp: OptimalPiecewiseLinearModel_def to_point_def)
  have "loop_inv eps [?p] (opt, ?p, [], 0)"
    using opt y(2) by (auto simp: loop_inv_def greedy_blocks_start intro!: exI[of _ "[]"] exI[of _ "[to_point ?p]"])
  from segmentation_loop_ok[OF this ok] obtain opt' p' outs c where
    l: "segmentation_loop inp [1..<n] (opt, ?p, [], 0) = Inr (opt', p', outs, c)"
    "loop_inv eps ([?p] @ new_keys (fst ?p) (map inp [1..<n])) (opt', p', outs, c)" by (metis prod_cases4)
  let ?D = "[?p] @ new_keys (fst ?p) (map inp [1..<n])"
  have D: "?D = distinct_keys (map inp [0..<n])" unfolding idx by simp
  from l(2) obtain Bs B where B: "map to_point ?D = concat Bs @ B" "model_inv opt' B" "plm_epsilon opt' = int eps"
    "list_all2 (seg_fits eps) outs Bs" "c = length outs" "greedy_blocks eps (Bs @ [B])"
    and s: "sorted_wrt (<) (map snd ?D)" "\<forall>q \<in> set ?D. int (snd q) + int eps < size_max"
    unfolding loop_inv_def by auto
  have "seg_fits eps (get_segment (opt'\<lparr> plm_last_x := plm_last_x opt', plm_points_in_hull := plm_points_in_hull opt' \<rparr>)) B"
    using B(2,3) block_ok[OF B(1) s] by (intro get_segment_fits) (auto simp: model_inv_def)
  then have sf: "seg_fits eps (get_segment opt') B" by simp
  have "segmentation_of eps (map inp [0..<n]) (outs @ [get_segment opt']) (Bs @ [B])"
    unfolding segmentation_of_def
  proof (intro conjI)
    show "concat (Bs @ [B]) = map to_point (distinct_keys (map inp [0..<n]))" using B(1) unfolding D by simp
    show "[] \<notin> set (Bs @ [B])" using B(6) by (simp add: greedy_blocks_def)
    show "list_all2 (seg_fits eps) (outs @ [get_segment opt']) (Bs @ [B])" using B(4) sf by (simp add: list_all2_appendI)
  qed
  moreover have "make_segmentation n eps inp = Inr (outs @ [get_segment opt'], length (outs @ [get_segment opt']))"
    using False opt(1) l(1) B(5) by (simp add: make_segmentation_def Let_def)
  ultimately show ?thesis using B(6) by blast
qed

section \<open>The parallel version\<close>

text \<open>A chunk starts where the keys of the chunk before have ended.\<close>

lemma chunk_start_dropWhile:
  assumes "0 < a" "a \<le> b"
  shows "chunk_start inp a b \<le> b"
    "map inp [chunk_start inp a b..<b] = dropWhile (\<lambda>q. fst q = fst (inp (a - 1))) (map inp [a..<b])"
proof -
  have "chunk_start inp a b \<le> b \<and>
      map inp [chunk_start inp a b..<b] = dropWhile (\<lambda>q. fst q = fst (inp (a - 1))) (map inp [a..<b])"
    using assms
  proof (induction "b - a" arbitrary: a)
    case 0
    then show ?case by (simp add: chunk_start_def)
  next
    case (Suc k)
    then have upt: "[a..<b] = a # [Suc a..<b]" by (simp add: upt_rec)
    show ?case
    proof (cases "fst (inp a) = fst (inp (a - 1))")
      case True
      have "chunk_start inp a b = chunk_start inp (Suc a) b"
        using True Suc.prems(1) unfolding chunk_start_def upt by simp
      moreover have "chunk_start inp (Suc a) b \<le> b \<and>
        map inp [chunk_start inp (Suc a) b..<b] = dropWhile (\<lambda>q. fst q = fst (inp (Suc a - 1))) (map inp [Suc a..<b])"
        using Suc by (intro Suc.hyps(1)) auto
      ultimately show ?thesis using True unfolding upt by simp
    next
      case False
      then have "chunk_start inp a b = a" using Suc.prems(1) unfolding chunk_start_def upt by simp
      with False Suc.prems show ?thesis by (simp add: upt)
    qed
  qed
  then show "chunk_start inp a b \<le> b"
    "map inp [chunk_start inp a b..<b] = dropWhile (\<lambda>q. fst q = fst (inp (a - 1))) (map inp [a..<b])" by blast+
qed

lemma points_ok_sub:
  assumes "points_ok eps (map inp [0..<n])" "a \<le> b" "b \<le> n"
  shows "points_ok eps (map (\<lambda>j. inp (a + j)) [0..<b - a])"
proof -
  have m: "map (\<lambda>j. inp (a + j)) [0..<b - a] = map inp [a..<b]"
    by (rule nth_equalityI) simp_all
  have "[0..<n] = [0..<a] @ [a..<b] @ [b..<n]" 
    using upt_add_eq_append[of 0 a "n - a"] upt_add_eq_append[of a b "n - b"] assms(2,3) by simp
  with assms(1) show ?thesis unfolding m points_ok_def by (auto simp: sorted_append sorted_wrt_append)
qed

lemma segmentation_of_append:
  assumes "segmentation_of eps ps css Bs" "segmentation_of eps qs css' Bs'"
    "distinct_keys rs = distinct_keys ps @ distinct_keys qs"
  shows "segmentation_of eps rs (css @ css') (Bs @ Bs')"
  using assms by (simp add: segmentation_of_def list_all2_appendI)

text \<open>How many blocks there may be: all but the last of each chunk hold at least three points.\<close>

lemma three_points_fit:
  assumes "0 < eps" "length ps \<le> 3" "\<forall>p \<in> set ps. y \<le> snd p \<and> snd p \<le> y + 2" "0 \<le> y" "y + 1 \<le> size_max"
  shows "fits (int eps) (0, of_int (y + 1)) ps"
proof -
  have "lower_y (int eps) (snd p) \<le> y + 1 \<and> y + 1 \<le> upper_y (int eps) (snd p)" if "p \<in> set ps" for p
    using assms that by (auto simp: lower_y_def upper_y_def)
  then show ?thesis unfolding fits_def above_def below_def lo_pt_def up_pt_def line_at_def fst_conv snd_conv
    by (metis add.left_neutral mult_zero_left of_int_le_iff)
qed

lemma greedy_blocks_tl: "greedy_blocks eps (B # Bs) \<Longrightarrow> greedy_blocks eps Bs"
  by (force simp: greedy_blocks_def)

lemma greedy_count:
  assumes "greedy_blocks eps Bs" "map snd (concat Bs) = map int [s..<s + m]" "int (s + m) \<le> size_max" "0 < eps"
  shows "3 * length Bs \<le> m + 2"
  using assms(1-3)
proof (induction Bs arbitrary: s m)
  case (Cons B Bs)
  have B: "B \<noteq> []" using Cons.prems(1) by (auto simp: greedy_blocks_def)
  have len: "length B + length (concat Bs) = m" using arg_cong[OF Cons.prems(2), of length] by simp
  show ?case
  proof (cases Bs)
    case Nil
    then show ?thesis using B len by (cases B) auto
  next
    case (Cons C Cs)
    have C: "C \<noteq> []" using Cons.prems(1) Cons by (auto simp: greedy_blocks_def)
    have "map snd B @ map snd (concat Bs) = map int [s..<s + length B] @ map int [s + length B..<s + m]"
      using Cons.prems(2) len upt_add_eq_append[of s "s + length B" "m - length B"] by simp
    then have parts: "map snd B = map int [s..<s + length B]" "map snd (concat Bs) = map int [s + length B..<s + m]"
      by (simp_all add: append_eq_append_conv)
    have "3 \<le> length B"
    proof (rule ccontr)
      assume short: "\<not> ?thesis"
      have "snd (hd C) = int (s + length B)"
        using arg_cong[OF parts(2), of hd] Cons C len by (auto simp: hd_map hd_append upt_rec)
      moreover have Bb: "int s \<le> snd p \<and> snd p \<le> int s + 1" if "p \<in> set B" for p
      proof -
        have "snd p \<in> set (map snd B)" using that by simp
        then have "snd p \<in> int ` {s..<s + length B}" unfolding parts(1) by simp
        with short show ?thesis by auto
      qed
      ultimately have "int s \<le> snd p \<and> snd p \<le> int s + 2" if "p \<in> set (B @ [hd C])" for p
        using that short by (cases "p \<in> set B") (force dest: Bb)+
      moreover have "0 < length C" using C by simp
      then have "int s + 1 \<le> size_max" using Cons.prems(3) len Cons B by (cases B) auto
      ultimately have "fits (int eps) (0, of_int (int s + 1)) (B @ [hd C])"
        using short assms(4) by (intro three_points_fit) auto
      then show False using Cons.prems(1) Cons unfolding greedy_blocks_def by fastforce
    qed
    moreover have "3 * length Bs \<le> (m - length B) + 2"
      using Cons.prems(3) parts(2) len by (intro Cons.IH[of "s + length B"] greedy_blocks_tl[OF Cons.prems(1)]) auto
    ultimately show ?thesis using len by simp
  qed
qed simp

text \<open>The chunks.\<close>

definition rest_keys :: "key_input \<Rightarrow> nat \<Rightarrow> nat \<Rightarrow> (float_t \<times> nat) list" where
  "rest_keys inp a n =
     (if a = 0 then distinct_keys (map inp [0..<n])
      else distinct_keys (dropWhile (\<lambda>q. fst q = fst (inp (a - 1))) (map inp [a..<n])))"

lemma rest_keys_split:
  assumes "a < b" "b \<le> n"
  shows "rest_keys inp a n = rest_keys inp a b @ rest_keys inp b n"
proof -
  have split: "map inp [a..<n] = map inp [a..<b] @ map inp [b..<n]"
    using upt_add_eq_append[of a b "n - b"] assms by simp
  have lst: "fst (last (map inp [a..<b])) = fst (inp (b - 1))" "map inp [a..<b] \<noteq> []" using assms(1) by (simp_all add: last_map)
  show ?thesis
  proof (cases "a = 0")
    case True
    then show ?thesis using distinct_keys_append[OF lst(2), of "map inp [b..<n]"] lst(1) split assms(1)
      by (simp add: rest_keys_def)
  next
    case False
    let ?P = "\<lambda>q. fst q = fst (inp (a - 1))" and ?X = "map inp [a..<b]"
    show ?thesis
    proof (cases "\<forall>q \<in> set ?X. ?P q")
      case True
      then have "dropWhile ?P ?X = []" "dropWhile ?P (?X @ map inp [b..<n]) = dropWhile ?P (map inp [b..<n])" by (auto simp: dropWhile_append)
      moreover have "fst (inp (b - 1)) = fst (inp (a - 1))" using True lst by (metis last_in_set)
      ultimately show ?thesis using False assms(1) split by (simp only: rest_keys_def if_False distinct_keys.simps append_Nil) simp
    next
      case some: False
      then have "dropWhile ?P ?X \<noteq> []" "dropWhile ?P (?X @ map inp [b..<n]) = dropWhile ?P ?X @ map inp [b..<n]"
        by (auto simp: dropWhile_append dropWhile_eq_Nil_conv)
      moreover have "last (dropWhile ?P ?X) = last ?X" using calculation(1) by (metis last_appendR takeWhile_dropWhile_id)
      ultimately show ?thesis
        using False assms(1) split lst(1) distinct_keys_append[of "dropWhile ?P ?X" "map inp [b..<n]"] by (simp add: rest_keys_def)
    qed
  qed
qed

lemma chunk_ok:
  assumes "points_ok eps (map inp [0..<n])" "0 < eps" "a < b" "b \<le> n"
    "map snd (rest_keys inp a b) = [s..<s + m]"
  defines "first \<equiv> chunk_start inp a b"
  shows "\<exists>css Bs. (if a > 0 \<and> first = b then Inr ([], 0) else make_segmentation (b - first) eps (\<lambda>j. inp (first + j)))
      = Inr (css, length css) \<and>
    concat Bs = map to_point (rest_keys inp a b) \<and> [] \<notin> set Bs \<and> list_all2 (seg_fits eps) css Bs \<and> 3 * length Bs \<le> m + 2"
proof -
  have f: "first \<le> b" "distinct_keys (map inp [first..<b]) = rest_keys inp a b"
  proof -
    show "first \<le> b" using chunk_start_dropWhile(1)[of a b] assms(3) by (cases "a = 0") (auto simp: first_def chunk_start_def)
    show "distinct_keys (map inp [first..<b]) = rest_keys inp a b"
      using chunk_start_dropWhile(2)[of a b inp] assms(3)
      by (cases "a = 0") (auto simp: first_def rest_keys_def chunk_start_def)
  qed
  show ?thesis
  proof (cases "a > 0 \<and> first = b")
    case True
    then have "rest_keys inp a b = []" using f(2) by simp
    with True show ?thesis by (intro exI[of _ "[]"]) simp
  next
    case False
    have eq: "map (\<lambda>j. inp (first + j)) [0..<b - first] = map inp [first..<b]" by (rule nth_equalityI) simp_all
    from make_segmentation_ok[OF points_ok_sub[OF assms(1) f(1) assms(4)] assms(2)] obtain css Bs where
      m: "make_segmentation (b - first) eps (\<lambda>j. inp (first + j)) = Inr (css, length css)"
      "segmentation_of eps (map inp [first..<b]) css Bs" "greedy_blocks eps Bs" unfolding eq by blast
    have c: "concat Bs = map to_point (rest_keys inp a b)" using m(2) f(2) by (simp add: segmentation_of_def)
    have ms: "map snd (concat Bs) = map int [s..<s + m]" using assms(5)[symmetric] unfolding c by (simp add: comp_def)
    have "3 * length Bs \<le> m + 2"
    proof (cases "m = 0")
      case True
      then have "concat Bs = []" using ms by simp
      moreover have "[] \<notin> set Bs" using m(2) by (simp add: segmentation_of_def)
      ultimately show ?thesis by (cases Bs) auto
    next
      case False
      have "s + m - 1 \<in> set (map snd (rest_keys inp a b))" using False unfolding assms(5) by simp
      then obtain q where "q \<in> set (rest_keys inp a b)" "snd q = s + m - 1" by (auto simp only: set_map image_iff)
      moreover from this have "q \<in> set (map inp [first..<b])" using set_distinct_keys[of "map inp [first..<b]"] unfolding f(2) by blast
      then have "q \<in> set (map inp [0..<n])" using assms(4) by auto
      ultimately have "int (s + m - 1) + int eps < size_max" using assms(1) by (metis points_ok_def)
      then show ?thesis using greedy_count[OF m(3) ms _ assms(2)] assms(2) False by simp
    qed
    then show ?thesis using m c False by (auto simp: segmentation_of_def)
  qed
qed

lemma segmentation_chunks_ok:
  assumes pts: "points_ok eps (map inp [0..<n])" and eps: "0 < eps" and size: "0 < chunk_size" "parallelism * chunk_size \<le> n"
    and k: "k < parallelism" and D: "map snd (rest_keys inp (k * chunk_size) n) = [s..<s + m]"
  shows "\<exists>css Bs. segmentation_chunks inp n eps parallelism chunk_size [k..<parallelism] = Inr (css, length css) \<and>
    concat Bs = map to_point (rest_keys inp (k * chunk_size) n) \<and> [] \<notin> set Bs \<and> list_all2 (seg_fits eps) css Bs \<and>
    3 * length Bs \<le> m + 2 * (parallelism - k)"
  using k D
proof (induction "parallelism - Suc k" arbitrary: k s m)
  case 0
  then have k: "k = parallelism - 1" "[k..<parallelism] = [k]" by (auto simp: upt_rec)
  have "k * chunk_size + chunk_size \<le> parallelism * chunk_size" using 0 mult_le_mono1[of "Suc k" parallelism chunk_size] by simp
  then have lt: "k * chunk_size < n" using size by simp
  from chunk_ok[OF pts eps lt order.refl 0(3)] obtain css Bs where
    c: "(if k * chunk_size > 0 \<and> chunk_start inp (k * chunk_size) n = n then Inr ([], 0)
       else make_segmentation (n - chunk_start inp (k * chunk_size) n) eps (\<lambda>j. inp (chunk_start inp (k * chunk_size) n + j))) = Inr (css, length css)"
    "concat Bs = map to_point (rest_keys inp (k * chunk_size) n)" "[] \<notin> set Bs" "list_all2 (seg_fits eps) css Bs" "3 * length Bs \<le> m + 2"
    by blast
  have "segmentation_chunks inp n eps parallelism chunk_size [k..<parallelism] = Inr (css, length css)"
    unfolding k(2) segmentation_chunks.simps Let_def if_P[OF k(1)] c(1) by simp
  moreover have "parallelism - k = 1" using k(1) 0(2) by simp
  ultimately show ?case using c by (intro exI[of _ css] exI[of _ Bs]) simp
next
  case (Suc j)
  then have k: "Suc k < parallelism" "[k..<parallelism] = k # [Suc k..<parallelism]" "k \<noteq> parallelism - 1" by (auto simp: upt_rec)
  let ?a = "k * chunk_size" and ?b = "k * chunk_size + chunk_size"
  have "Suc k * chunk_size + chunk_size \<le> parallelism * chunk_size" using k(1) mult_le_mono1[of "Suc (Suc k)" parallelism chunk_size] by simp
  then have b: "?a < ?b" "?b \<le> n" using size by auto
  have Dsplit: "rest_keys inp ?a n = rest_keys inp ?a ?b @ rest_keys inp ?b n" by (rule rest_keys_split[OF b])
  define m1 where "m1 = length (rest_keys inp ?a ?b)"
  have m1: "m1 \<le> m" using arg_cong[OF Suc(4), of length] Dsplit by (simp add: m1_def)
  have "map snd (rest_keys inp ?a ?b) @ map snd (rest_keys inp ?b n) = [s..<s + m1] @ [s + m1..<s + m]"
    using Suc(4) Dsplit m1 upt_add_eq_append[of s "s + m1" "m - m1"] by simp
  then have parts: "map snd (rest_keys inp ?a ?b) = [s..<s + m1]" "map snd (rest_keys inp ?b n) = [s + m1..<s + m1 + (m - m1)]"
    using m1 by (simp_all add: append_eq_append_conv m1_def)
  from chunk_ok[OF pts eps b parts(1)] obtain css Bs where
    c: "(if ?a > 0 \<and> chunk_start inp ?a ?b = ?b then Inr ([], 0)
       else make_segmentation (?b - chunk_start inp ?a ?b) eps (\<lambda>j. inp (chunk_start inp ?a ?b + j))) = Inr (css, length css)"
    "concat Bs = map to_point (rest_keys inp ?a ?b)" "[] \<notin> set Bs" "list_all2 (seg_fits eps) css Bs" "3 * length Bs \<le> m1 + 2"
    by blast
  have next_k: "Suc k * chunk_size = ?b" "j = parallelism - Suc (Suc k)" using Suc(2) by simp_all
  from Suc(1)[OF next_k(2) k(1), unfolded next_k(1), OF parts(2)] obtain css' Bs' where
    r: "segmentation_chunks inp n eps parallelism chunk_size [Suc k..<parallelism] = Inr (css', length css')"
    "concat Bs' = map to_point (rest_keys inp ?b n)" "[] \<notin> set Bs'" "list_all2 (seg_fits eps) css' Bs'"
    "3 * length Bs' \<le> (m - m1) + 2 * (parallelism - Suc k)" by blast
  have "segmentation_chunks inp n eps parallelism chunk_size [k..<parallelism] = Inr (css @ css', length (css @ css'))"
    using c(1) r(1) k(3) unfolding k(2) by (simp add: Let_def)
  moreover have "concat (Bs @ Bs') = map to_point (rest_keys inp ?a n)" using c(2) r(2) Dsplit by simp
  moreover have "3 * length (Bs @ Bs') \<le> m + 2 * (parallelism - k)" using c(5) r(5) m1 k(1) by simp
  ultimately show ?case using c(3,4) r(3,4)
    by (intro exI[of _ "css @ css'"] exI[of _ "Bs @ Bs'"]) (simp add: list_all2_appendI)
qed

text \<open>Whatever the number of threads, the result is a cut into fitting blocks, and there are few of them.\<close>

lemma make_segmentation_par_ok:
  assumes pts: "points_ok eps (map inp [0..<n])" and eps: "0 < eps" and par: "1 \<le> parallelism" "parallelism \<le> 20"
    and D: "map snd (distinct_keys (map inp [0..<n])) = [0..<m]"
  shows "\<exists>css Bs. make_segmentation_par parallelism n eps inp = Inr (css, length css) \<and>
    segmentation_of eps (map inp [0..<n]) css Bs \<and> 3 * length Bs \<le> m + (if n < 2 ^ 15 then 2 else 40)"
proof (cases "parallelism = 1 \<or> n < 2 ^ 15")
  case True
  have "0 < n \<or> n = 0" by blast
  then have "\<exists>css Bs. make_segmentation n eps inp = Inr (css, length css) \<and>
    segmentation_of eps (map inp [0..<n]) css Bs \<and> 3 * length Bs \<le> m + 2"
  proof
    assume n: "0 < n"
    have "rest_keys inp 0 n = distinct_keys (map inp [0..<n])" by (simp add: rest_keys_def)
    with chunk_ok[OF pts eps n order.refl, of 0 m] D show ?thesis by (simp add: segmentation_of_def chunk_start_def)
  next
    assume "n = 0"
    then show ?thesis by (auto simp: make_segmentation_def segmentation_of_def)
  qed
  moreover have "make_segmentation_par parallelism n eps inp = make_segmentation n eps inp"
    using True by (simp add: make_segmentation_par_def)
  ultimately obtain css Bs where "make_segmentation_par parallelism n eps inp = Inr (css, length css)"
    "segmentation_of eps (map inp [0..<n]) css Bs" "3 * length Bs \<le> m + 2" by auto
  then show ?thesis by (intro exI[of _ css] exI[of _ Bs]) auto
next
  case False
  have size: "0 < n div parallelism" "parallelism * (n div parallelism) \<le> n"
    using False par by (auto simp: div_greater_zero_iff)
  have "map snd (rest_keys inp (0 * (n div parallelism)) n) = [0..<0 + m]" using D by (simp add: rest_keys_def)
  from segmentation_chunks_ok[OF pts eps size _ this] par obtain css Bs where
    c: "segmentation_chunks inp n eps parallelism (n div parallelism) [0..<parallelism] = Inr (css, length css)"
    "concat Bs = map to_point (rest_keys inp 0 n)" "[] \<notin> set Bs" "list_all2 (seg_fits eps) css Bs" "3 * length Bs \<le> m + 2 * parallelism"
    by auto
  then show ?thesis using False par
    by (intro exI[of _ css] exI[of _ Bs]) (simp add: make_segmentation_par_def segmentation_of_def rest_keys_def)
qed

end
