(* ===== verification/PgmLevel.thy ===== *)
theory PgmLevel
  imports PgmSegmentation
begin

text \<open>
  One level of the index over an ascending list of keys: its segments give for every key a position
  that is off by at most the error.
\<close>

section \<open>Counting keys\<close>

definition count_less :: "float_t list \<Rightarrow> float_t \<Rightarrow> nat" where
  "count_less xs k = length (takeWhile (\<lambda>x. x < k) xs)"

definition count_le :: "float_t list \<Rightarrow> float_t \<Rightarrow> nat" where
  "count_le xs k = length (takeWhile (\<lambda>x. x \<le> k) xs)"

lemma length_takeWhile_eqI:
  "m \<le> length xs \<Longrightarrow> \<forall>i<m. P (xs ! i) \<Longrightarrow> m < length xs \<longrightarrow> \<not> P (xs ! m) \<Longrightarrow> length (takeWhile P xs) = m"
proof (induction xs arbitrary: m)
  case (Cons x xs)
  show ?case
  proof (cases m)
    case (Suc m')
    have "P x" using Cons.prems(2) Suc by (auto dest: spec[of _ 0])
    moreover have "length (takeWhile P xs) = m'"
      using Cons.prems Suc by (intro Cons.IH) (auto dest: spec[of _ "Suc i" for i])
    ultimately show ?thesis using Suc by simp
  qed (use Cons.prems in auto)
qed simp

lemma count_lessI: "m \<le> length xs \<Longrightarrow> \<forall>i<m. xs ! i < k \<Longrightarrow> m < length xs \<longrightarrow> k \<le> xs ! m \<Longrightarrow> count_less xs k = m"
  unfolding count_less_def by (rule length_takeWhile_eqI) auto

lemma count_leI: "m \<le> length xs \<Longrightarrow> \<forall>i<m. xs ! i \<le> k \<Longrightarrow> m < length xs \<longrightarrow> k < xs ! m \<Longrightarrow> count_le xs k = m"
  unfolding count_le_def by (rule length_takeWhile_eqI) auto

lemma count_bounds: "count_less xs k \<le> length xs" "count_le xs k \<le> length xs"
  by (simp_all add: count_less_def count_le_def length_takeWhile_le)

section \<open>The points of a list of keys\<close>

definition key_points :: "float_t list \<Rightarrow> (float_t \<times> nat) list" where
  "key_points xs = map (\<lambda>i. (xs ! i, i)) [0..<length xs]"

lemma new_keys_spec:
  assumes "sorted (x # map fst qs)"
  shows "sorted_wrt (\<lambda>p q. fst p < fst q) (new_keys x qs)"
    "q \<in> set qs \<Longrightarrow> fst q = x \<or> (\<exists>p \<in> set (new_keys x qs). fst p = fst q)"
proof -
  have "sorted_wrt (\<lambda>p q. fst p < fst q) (new_keys x qs) \<and>
      (\<forall>q \<in> set qs. fst q = x \<or> (\<exists>p \<in> set (new_keys x qs). fst p = fst q))"
    using assms
  proof (induction x qs rule: new_keys.induct)
    case (2 x q qs)
    then have "sorted (fst q # map fst qs)" by simp
    from new_keys_above[OF this] 2 show ?case by (cases "fst q = x") auto
  qed simp
  then show "sorted_wrt (\<lambda>p q. fst p < fst q) (new_keys x qs)"
    "q \<in> set qs \<Longrightarrow> fst q = x \<or> (\<exists>p \<in> set (new_keys x qs). fst p = fst q)" by blast+
qed

text \<open>The first of equal keys is the one kept.\<close>

lemma new_keys_first:
  assumes "sorted (x # map fst qs)" "p \<in> set (new_keys x qs)"
  shows "\<exists>us vs. qs = us @ p # vs \<and> (\<forall>u \<in> set us. fst u < fst p)"
  using assms
proof (induction x qs rule: new_keys.induct)
  case (2 x q qs)
  show ?case
  proof (cases "fst q = x")
    case True
    then have p: "p \<in> set (new_keys x qs)" "sorted (x # map fst qs)" using 2(4,3) by auto
    from 2(1)[OF True p(2,1)] obtain us vs where "qs = us @ p # vs" "\<forall>u \<in> set us. fst u < fst p" by blast
    moreover have "x < fst p" using new_keys_above[OF p(2,1)] .
    ultimately show ?thesis using True by (intro exI[of _ "q # us"] exI[of _ vs]) simp
  next
    case False
    show ?thesis
    proof (cases "p = q")
      case True
      then show ?thesis by (intro exI[of _ "[]"] exI[of _ qs]) simp
    next
      case neq: False
      then have p: "p \<in> set (new_keys (fst q) qs)" "sorted (fst q # map fst qs)" using False 2(4,3) by auto
      from 2(2)[OF False p(2,1)] obtain us vs where "qs = us @ p # vs" "\<forall>u \<in> set us. fst u < fst p" by blast
      moreover have "fst q < fst p" using new_keys_above[OF p(2,1)] .
      ultimately show ?thesis by (intro exI[of _ "q # us"] exI[of _ vs]) simp
    qed
  qed
qed simp

lemma distinct_keys_spec:
  assumes "sorted (map fst qs)" "qs \<noteq> []"
  shows "sorted_wrt (\<lambda>p q. fst p < fst q) (distinct_keys qs)" "hd (distinct_keys qs) = hd qs"
    "q \<in> set qs \<Longrightarrow> \<exists>p \<in> set (distinct_keys qs). fst p = fst q"
    "p \<in> set (distinct_keys qs) \<Longrightarrow> \<exists>us vs. qs = us @ p # vs \<and> (\<forall>u \<in> set us. fst u < fst p)"
proof -
  obtain p0 ps where qs: "qs = p0 # ps" using assms(2) by (cases qs) auto
  then have s: "sorted (fst p0 # map fst ps)" using assms(1) by simp
  show "sorted_wrt (\<lambda>p q. fst p < fst q) (distinct_keys qs)"
    using new_keys_spec(1)[OF s] new_keys_above[OF s] qs by auto
  show "hd (distinct_keys qs) = hd qs" using qs by simp
  show "q \<in> set qs \<Longrightarrow> \<exists>p \<in> set (distinct_keys qs). fst p = fst q"
    using new_keys_spec(2)[OF s, of q] qs by auto
  assume p: "p \<in> set (distinct_keys qs)"
  show "\<exists>us vs. qs = us @ p # vs \<and> (\<forall>u \<in> set us. fst u < fst p)"
  proof (cases "p = p0")
    case True
    then show ?thesis using qs by (intro exI[of _ "[]"] exI[of _ ps]) simp
  next
    case False
    then have "p \<in> set (new_keys (fst p0) ps)" using p qs by simp
    from new_keys_first[OF s this] new_keys_above[OF s this] obtain us vs where
      "ps = us @ p # vs" "\<forall>u \<in> set us. fst u < fst p" "fst p0 < fst p" by blast
    then show ?thesis using qs by (intro exI[of _ "p0 # us"] exI[of _ vs]) simp
  qed
qed

lemma key_points_ok:
  assumes "sorted xs" "int (length xs) + int eps < size_max"
  shows "points_ok eps (key_points xs)"
proof -
  have "map fst (key_points xs) = xs" "map snd (key_points xs) = [0..<length xs]"
    by (simp_all add: key_points_def comp_def map_nth)
  then show ?thesis using assms by (auto simp: points_ok_def key_points_def)
qed

text \<open>The kept points of the keys \<open>xs\<close>: strictly ascending, each with the number of smaller keys.\<close>

lemma kept_points:
  assumes "sorted xs" "xs \<noteq> []"
  defines "D \<equiv> distinct_keys (key_points xs)"
  shows "D \<noteq> []" "hd D = (hd xs, 0)" "sorted_wrt (\<lambda>p q. fst p < fst q) D"
    "p \<in> set D \<Longrightarrow> snd p < length xs \<and> fst p = xs ! snd p \<and> (\<forall>i < snd p. xs ! i < fst p)"
    "i < length xs \<Longrightarrow> \<exists>p \<in> set D. fst p = xs ! i"
proof -
  have m: "map fst (key_points xs) = xs" by (simp add: key_points_def comp_def map_nth)
  have s: "sorted (map fst (key_points xs))" "key_points xs \<noteq> []" using assms(1,2) m by (auto simp: key_points_def)
  note spec = distinct_keys_spec[OF s, folded D_def]
  show "D \<noteq> []" unfolding D_def using s(2) by (cases "key_points xs") auto
  show "hd D = (hd xs, 0)" using spec(2) assms(2) by (simp add: key_points_def hd_map hd_conv_nth)
  show "sorted_wrt (\<lambda>p q. fst p < fst q) D" by (rule spec(1))
  show "i < length xs \<Longrightarrow> \<exists>p \<in> set D. fst p = xs ! i" using spec(3)[of "(xs ! i, i)"] by (auto simp: key_points_def)
  assume "p \<in> set D"
  from spec(4)[OF this] obtain us vs where u: "key_points xs = us @ p # vs" "\<forall>u \<in> set us. fst u < fst p" by blast
  define j where "j = length us"
  have len: "j < length xs" using arg_cong[OF u(1), of length] by (simp add: key_points_def j_def)
  have "key_points xs ! j = p" using u(1) by (simp add: j_def)
  then have p: "p = (xs ! j, j)" using len by (simp add: key_points_def)
  have "xs ! i < fst p" if "i < j" for i
  proof -
    have "us ! i = key_points xs ! i" using u(1) that by (simp add: j_def nth_append)
    then have "us ! i = (xs ! i, i)" using that len by (simp add: key_points_def)
    moreover have "us ! i \<in> set us" using that by (simp add: j_def)
    ultimately show ?thesis using u(2) by fastforce
  qed
  with p len show "snd p < length xs \<and> fst p = xs ! snd p \<and> (\<forall>i < snd p. xs ! i < fst p)" by simp
qed

text \<open>The number of keys up to \<open>k\<close>, when \<open>D ! a\<close> is the last kept point up to \<open>k\<close>.\<close>

lemma count_from_kept:
  assumes xs: "sorted xs" "xs \<noteq> []"
  defines "D \<equiv> distinct_keys (key_points xs)"
  assumes a: "a < length D" "fst (D ! a) \<le> k" "Suc a < length D \<longrightarrow> k < fst (D ! Suc a)"
  shows "count_le xs k = (if Suc a < length D then snd (D ! Suc a) else length xs)"
    "fst (D ! a) < k \<Longrightarrow> count_less xs k = count_le xs k"
    "k = fst (D ! a) \<Longrightarrow> count_less xs k = snd (D ! a)"
    "sorted_wrt (<) xs \<Longrightarrow> count_le xs k = Suc (snd (D ! a))"
proof -
  note K = kept_points[OF xs, folded D_def]
  let ?j = "if Suc a < length D then snd (D ! Suc a) else length xs"
  have le: "xs ! i \<le> fst (D ! a)" if i: "i < ?j" for i
  proof -
    have "?j \<le> length xs" using K(4)[of "D ! Suc a"] by auto
    then have "i < length xs" using i by simp
    from K(5)[OF this] obtain b where b: "b < length D" "fst (D ! b) = xs ! i" by (auto simp: in_set_conv_nth)
    have "b \<le> a"
    proof (rule ccontr)
      assume "\<not> b \<le> a"
      then have sa: "Suc a < length D" "Suc a \<le> b" using b(1) by auto
      then have "fst (D ! Suc a) \<le> fst (D ! b)"
        using sorted_wrt_nth_less[OF K(3), of "Suc a" b] b(1) by (cases "b = Suc a") (auto intro: less_imp_le)
      moreover have "xs ! i < fst (D ! Suc a)" using K(4)[OF nth_mem[OF sa(1)]] sa i by auto
      ultimately show False using b(2) by simp
    qed
    then show ?thesis using sorted_wrt_nth_less[OF K(3), of b a] a(1) b(2) by (cases "b = a") (auto intro: less_imp_le)
  qed
  have jle: "?j \<le> length xs" using K(4)[of "D ! Suc a"] by auto
  have nxt: "k < xs ! ?j" if "?j < length xs"
    using that a(3) K(4)[of "D ! Suc a"] by (auto split: if_splits)
  show j: "count_le xs k = ?j"
  proof (rule count_leI[OF jle])
    show "\<forall>i<?j. xs ! i \<le> k" using order.trans[OF le a(2)] by blast
  qed (use nxt in blast)
  show "fst (D ! a) < k \<Longrightarrow> count_less xs k = count_le xs k"
    unfolding j
  proof (rule count_lessI[OF jle])
    assume "fst (D ! a) < k"
    then show "\<forall>i<?j. xs ! i < k" using le_less_trans[OF le] by blast
  qed (use nxt less_imp_le in blast)
  have Da: "snd (D ! a) < length xs" "fst (D ! a) = xs ! snd (D ! a)" "\<forall>i < snd (D ! a). xs ! i < fst (D ! a)"
    using K(4)[OF nth_mem[OF a(1)]] by blast+
  show "k = fst (D ! a) \<Longrightarrow> count_less xs k = snd (D ! a)"
    using Da by (intro count_lessI) auto
  assume str: "sorted_wrt (<) xs"
  show "count_le xs k = Suc (snd (D ! a))"
  proof -
    have "?j = Suc (snd (D ! a))"
    proof (rule antisym)
      show "?j \<le> Suc (snd (D ! a))"
      proof (rule ccontr)
        assume "\<not> ?thesis"
        then have lt: "Suc (snd (D ! a)) < ?j" by simp
        then have "xs ! Suc (snd (D ! a)) \<le> fst (D ! a)" by (rule le)
        moreover have "xs ! snd (D ! a) < xs ! Suc (snd (D ! a))"
          using sorted_wrt_nth_less[OF str, of "snd (D ! a)" "Suc (snd (D ! a))"] lt jle by simp
        ultimately show False using Da(2) by simp
      qed
      show "Suc (snd (D ! a)) \<le> ?j"
      proof (rule ccontr)
        assume "\<not> ?thesis"
        then have "?j \<le> snd (D ! a)" by simp
        then have "xs ! ?j \<le> xs ! snd (D ! a)" "?j < length xs" using sorted_nth_mono[OF xs(1)] Da(1) by auto
        with nxt Da(2) a(2) show False by simp
      qed
    qed
    then show ?thesis unfolding j .
  qed
qed

section \<open>Segments of a level\<close>

text \<open>\<open>sg\<close> is the segment of the block \<open>B\<close> of points.\<close>

definition seg_block :: "nat \<Rightarrow> pgm_segment \<Rightarrow> plm_point list \<Rightarrow> bool" where
  "seg_block eps sg B \<longleftrightarrow> seg_key sg = fst (hd B) \<and> 0 \<le> seg_slope sg \<and> (seg_slope sg = 0 \<longrightarrow> length B \<noteq> 2) \<and>
     (\<exists>c. 0 \<le> c \<and> seg_intercept sg = \<lfloor>c\<rfloor> \<and>
        (\<forall>p \<in> set B. of_int (snd p) - of_nat eps \<le> seg_slope sg * (fst p - seg_key sg) + c \<and>
                     seg_slope sg * (fst p - seg_key sg) + c \<le> of_int (snd p) + of_nat eps))"

lemma lower_upper_bounds:
  assumes "0 \<le> y"
  shows "0 \<le> lower_y (int eps) y" "y - int eps \<le> lower_y (int eps) y" "upper_y (int eps) y \<le> y + int eps"
  using assms by (auto simp: lower_y_def upper_y_def)

lemma Segment_of_ok:
  assumes "seg_fits eps cs B" "B \<noteq> []" "\<forall>p \<in> set B. 0 \<le> snd p \<and> snd p + int eps < 2 ^ 31"
  shows "\<exists>sg. Segment_of cs = Inr sg \<and> seg_block eps sg B"
proof -
  obtain slope icpt where g: "get_floating_point_segment cs (cs_first cs) = (slope, icpt)" by fastforce
  with assms(1) obtain c where c: "cs_first cs = fst (hd B)" "0 \<le> slope" "slope = 0 \<longrightarrow> length B \<noteq> 2" "icpt = trunc_int c"
    "\<forall>p \<in> set B. of_int (lower_y (int eps) (snd p)) \<le> slope * (fst p - cs_first cs) + c \<and>
       slope * (fst p - cs_first cs) + c \<le> of_int (upper_y (int eps) (snd p))"
    by (auto simp: seg_fits_def)
  have h: "hd B \<in> set B" using assms(2) by simp
  then have "of_int (lower_y (int eps) (snd (hd B))) \<le> c" "c \<le> of_int (upper_y (int eps) (snd (hd B)))" using c(1,5) by force+
  moreover have "0 \<le> lower_y (int eps) (snd (hd B))" "upper_y (int eps) (snd (hd B)) \<le> 2 ^ 31 - 1"
    using lower_upper_bounds[of "snd (hd B)" eps] h assms(3) by auto
  ultimately have c0: "0 \<le> c" "c \<le> of_int (2 ^ 31 - 1)" by (meson of_int_0_le_iff of_int_le_iff order.trans)+
  then have icpt: "icpt = \<lfloor>c\<rfloor>" "\<not> icpt > 2 ^ 31 - 1" using c(4) by (simp_all add: trunc_int_def floor_le_iff not_less)
  have "of_int (snd p) - of_nat eps \<le> slope * (fst p - fst (hd B)) + c \<and>
      slope * (fst p - fst (hd B)) + c \<le> of_int (snd p) + of_nat eps" if p: "p \<in> set B" for p
  proof -
    have "of_int (snd p - int eps) \<le> (of_int (lower_y (int eps) (snd p)) :: float_t)"
      "of_int (upper_y (int eps) (snd p)) \<le> (of_int (snd p + int eps) :: float_t)"
      using lower_upper_bounds[of "snd p" eps] assms(3) p by (simp_all del: of_int_add of_int_diff)
    then show ?thesis using c(1,5) p by fastforce
  qed
  then have "seg_block eps \<lparr> seg_key = cs_first cs, seg_slope = slope, seg_intercept = icpt \<rparr> B"
    using c c0(1) icpt(1) by (auto simp: seg_block_def)
  then show ?thesis using g icpt(2) by (simp add: Segment_of_def Let_def)
qed

lemma segments_of_ok:
  assumes "list_all2 (seg_fits eps) css Bs" "[] \<notin> set Bs" "\<forall>p \<in> set (concat Bs). 0 \<le> snd p \<and> snd p + int eps < 2 ^ 31"
  shows "\<exists>S. segments_of css = Inr S \<and> list_all2 (seg_block eps) S Bs"
  using assms
proof (induction css Bs rule: list_all2_induct)
  case (Cons cs css B Bs)
  from Segment_of_ok[OF Cons(1)] Cons.prems obtain sg where "Segment_of cs = Inr sg" "seg_block eps sg B" by fastforce
  moreover from Cons obtain S where "segments_of css = Inr S" "list_all2 (seg_block eps) S Bs" by fastforce
  ultimately show ?case by simp
qed simp

text \<open>The position computed inside a block against the positions of its points.\<close>

lemma segment_pos_bounds:
  assumes "seg_block eps sg B" "seg_key sg \<le> k" "p \<in> set B"
  shows "k \<le> fst p \<Longrightarrow> segment_pos sg k \<le> snd p + int eps"
    "fst p \<le> k \<Longrightarrow> snd p \<le> segment_pos sg k + int eps + 1"
proof -
  from assms obtain c where c: "0 \<le> seg_slope sg" "0 \<le> c" "seg_intercept sg = \<lfloor>c\<rfloor>"
    "of_int (snd p) - of_nat eps \<le> seg_slope sg * (fst p - seg_key sg) + c"
    "seg_slope sg * (fst p - seg_key sg) + c \<le> of_int (snd p) + of_nat eps" by (auto simp: seg_block_def)
  define v where "v = seg_slope sg * (k - seg_key sg)"
  have v: "0 \<le> v" using c(1) assms(2) by (simp add: v_def)
  define w where "w = \<lfloor>v\<rfloor> + \<lfloor>c\<rfloor>"
  have "0 \<le> w" unfolding w_def using v c(2) by (intro add_nonneg_nonneg) simp_all
  moreover have "segment_pos sg k = (if w > 0 then w else 0)"
    using v c(3) unfolding segment_pos_def v_def[symmetric] w_def by (simp add: trunc_int_def Let_def)
  ultimately have pos: "segment_pos sg k = \<lfloor>v\<rfloor> + \<lfloor>c\<rfloor>" unfolding w_def[symmetric] by simp
  { assume "k \<le> fst p"
    then have "v \<le> seg_slope sg * (fst p - seg_key sg)" using c(1) unfolding v_def by (intro mult_left_mono) auto
    then have "v + c \<le> of_int (snd p + int eps)" using c(5) by simp
    moreover have "of_int (\<lfloor>v\<rfloor> + \<lfloor>c\<rfloor>) \<le> v + c"
      unfolding of_int_add by (intro add_mono of_int_floor_le)
    ultimately have "of_int (\<lfloor>v\<rfloor> + \<lfloor>c\<rfloor>) \<le> (of_int (snd p + int eps) :: float_t)" by linarith
    then show "segment_pos sg k \<le> snd p + int eps" unfolding pos of_int_le_iff . }
  { assume "fst p \<le> k"
    then have "seg_slope sg * (fst p - seg_key sg) \<le> v" using c(1) unfolding v_def by (intro mult_left_mono) auto
    then have "of_int (snd p - int eps) \<le> v + c" using c(4) by simp
    moreover have "v + c < of_int (\<lfloor>v\<rfloor> + \<lfloor>c\<rfloor> + 2)" using floor_correct[of v] floor_correct[of c] by simp
    ultimately have "of_int (snd p - int eps) < (of_int (\<lfloor>v\<rfloor> + \<lfloor>c\<rfloor> + 2) :: float_t)" by linarith
    then show "snd p \<le> segment_pos sg k + int eps + 1" unfolding pos of_int_less_iff by simp }
qed

lemma segment_intercept_bounds:
  assumes "seg_block eps sg B" "B \<noteq> []"
  shows "0 \<le> seg_intercept sg" "seg_intercept sg \<le> snd (hd B) + int eps" "snd (hd B) \<le> seg_intercept sg + int eps + 1"
proof -
  from assms(1) obtain c where c0: "0 \<le> c" "seg_intercept sg = \<lfloor>c\<rfloor>" and key: "seg_key sg = fst (hd B)" and
    all: "\<forall>p \<in> set B. of_int (snd p) - of_nat eps \<le> seg_slope sg * (fst p - seg_key sg) + c \<and>
                     seg_slope sg * (fst p - seg_key sg) + c \<le> of_int (snd p) + of_nat eps" unfolding seg_block_def by blast
  have c: "0 \<le> c" "seg_intercept sg = \<lfloor>c\<rfloor>" "of_int (snd (hd B)) - of_nat eps \<le> c" "c \<le> of_int (snd (hd B)) + of_nat eps"
    using c0 bspec[OF all hd_in_set[OF assms(2)]] key by simp_all
  show "0 \<le> seg_intercept sg" using c by simp
  have "\<lfloor>c\<rfloor> \<le> \<lfloor>of_int (snd (hd B) + int eps) :: float_t\<rfloor>" using c(4) by (intro floor_mono) simp
  then show "seg_intercept sg \<le> snd (hd B) + int eps" using c(2) by simp
  have "of_int (snd (hd B) - int eps) \<le> c" using c(3) by simp
  then have "snd (hd B) - int eps \<le> \<lfloor>c\<rfloor>" by (simp only: le_floor_iff)
  then show "snd (hd B) \<le> seg_intercept sg + int eps + 1" using c(2) by simp
qed

end
