(* ===== verification/PgmIndexOk.thy ===== *)
theory PgmIndexOk
  imports PgmLevel
begin

text \<open>
  The levels of \<open>PGMIndex\<close>: \<open>build_level\<close>, the loop over the upper levels and its end, the descent of
  \<open>segment_for_key\<close>, and the window of \<open>search\<close>.
\<close>

section \<open>Positions on a level\<close>

definition extra_segment :: "float_t \<Rightarrow> nat \<Rightarrow> pgm_segment" where
  "extra_segment last_key n = \<lparr> seg_key = last_key + 1, seg_slope = 0, seg_intercept = int n \<rparr>"

text \<open>\<open>t\<close> is the last of the \<open>N\<close> segments with a key up to \<open>k\<close>.\<close>

definition responsible :: "pgm_segment list \<Rightarrow> nat \<Rightarrow> float_t \<Rightarrow> nat \<Rightarrow> bool" where
  "responsible segs N k t \<longleftrightarrow> t < N \<and> seg_key (segs ! t) \<le> k \<and> (Suc t < N \<longrightarrow> k < seg_key (segs ! Suc t))"

definition pgm_level_ok :: "nat \<Rightarrow> float_t list \<Rightarrow> float_t \<Rightarrow> pgm_segment list \<Rightarrow> nat \<Rightarrow> bool" where
  "pgm_level_ok eps xs last_key segs N \<longleftrightarrow> length segs = Suc N \<and> 0 < N \<and> seg_key (hd segs) = hd xs \<and> seg_key (segs ! N) = FLT_MAX \<and>
     sorted (map seg_key (take N segs)) \<and> (\<forall>s \<in> set (take N segs). seg_key s \<le> last_key + 1) \<and>
     (\<forall>k t. hd xs \<le> k \<and> responsible segs N k t \<longrightarrow>
        capped_pos segs t k \<le> count_le xs k + eps \<and>
        (sorted_wrt (<) xs \<and> last xs \<le> last_key \<longrightarrow>
           capped_pos segs t k \<le> count_less xs k + eps \<and> count_less xs k \<le> capped_pos segs t k + eps + 2))"

lemma count_le_le: "m < length xs \<Longrightarrow> k < xs ! m \<Longrightarrow> count_le xs k \<le> m"
  unfolding count_le_def by (metis leI length_takeWhile_le less_le_not_le nth_mem set_takeWhileD takeWhile_nth)

lemma count_less_le: "count_less xs k \<le> count_le xs k"
proof -
  have "length (takeWhile (\<lambda>x. x < k) xs) \<le> length (takeWhile (\<lambda>x. x \<le> k) xs)" by (induction xs) auto
  then show ?thesis by (simp add: count_less_def count_le_def)
qed

lemma concat_block:
  assumes "t < length Bs" "i < length (Bs ! t)"
  shows "concat Bs ! (length (concat (take t Bs)) + i) = Bs ! t ! i"
    "length (concat (take t Bs)) + i < length (concat Bs)"
    "length (concat (take (Suc t) Bs)) = length (concat (take t Bs)) + length (Bs ! t)"
proof -
  have c: "concat Bs = concat (take t Bs) @ Bs ! t @ concat (drop (Suc t) Bs)"
    by (metis assms(1) concat.simps(2) concat_append id_take_nth_drop)
  show "concat Bs ! (length (concat (take t Bs)) + i) = Bs ! t ! i" "length (concat (take t Bs)) + i < length (concat Bs)"
    unfolding c using assms(2) by (simp_all add: nth_append)
  show "length (concat (take (Suc t) Bs)) = length (concat (take t Bs)) + length (Bs ! t)"
    using assms(1) by (simp add: take_Suc_conv_app_nth)
qed

text \<open>The last point of a block up to \<open>k\<close>, as a position among the kept points.\<close>

lemma block_position:
  assumes D: "concat Bs = map to_point D" "[] \<notin> set Bs" and t: "t < length Bs" "fst (hd (Bs ! t)) \<le> k"
    "Suc t < length Bs \<longrightarrow> k < fst (hd (Bs ! Suc t))"
  shows "\<exists>a p. a < length D \<and> p \<in> set (Bs ! t) \<and> to_point (D ! a) = p \<and> fst p \<le> k \<and>
    (if Suc a < length D
     then k < fst (D ! Suc a) \<and> (to_point (D ! Suc a) \<in> set (Bs ! t) \<or> Suc t < length Bs \<and> to_point (D ! Suc a) = hd (Bs ! Suc t))
     else Suc t = length Bs)"
proof -
  let ?B = "Bs ! t" and ?o = "length (concat (take t Bs))"
  define w where "w = length (takeWhile (\<lambda>p. fst p \<le> k) ?B)"
  have B: "?B \<noteq> []" using D(2) t(1) by (metis nth_mem)
  have w: "0 < w" "w \<le> length ?B" using B t(2) by (cases "?B"; auto simp: w_def length_takeWhile_le)+
  define a where "a = ?o + (w - 1)"
  have wl: "w - 1 < length ?B" using w by simp
  have at: "to_point (D ! (?o + i)) = ?B ! i" "?o + i < length D" if "i < length ?B" for i
    using concat_block(1,2)[OF t(1) that] unfolding D(1) by (simp_all add: nth_map)
  have p: "to_point (D ! a) = ?B ! (w - 1)" "a < length D" unfolding a_def by (rule at[OF wl])+
  have le: "fst (?B ! (w - 1)) \<le> k"
  proof -
    have "?B ! (w - 1) = takeWhile (\<lambda>p. fst p \<le> k) ?B ! (w - 1)" using w by (intro takeWhile_nth[symmetric]) (simp add: w_def)
    also have "\<dots> \<in> set (takeWhile (\<lambda>p. fst p \<le> k) ?B)" using w by (intro nth_mem) (simp add: w_def)
    finally show ?thesis by (auto dest: set_takeWhileD)
  qed
  have Sa: "Suc a = ?o + w" using w by (simp add: a_def)
  have "if Suc a < length D
     then k < fst (D ! Suc a) \<and> (to_point (D ! Suc a) \<in> set ?B \<or> Suc t < length Bs \<and> to_point (D ! Suc a) = hd (Bs ! Suc t))
     else Suc t = length Bs"
  proof (cases "w < length ?B")
    case True
    have "\<not> fst (?B ! w) \<le> k" using nth_length_takeWhile[of "\<lambda>p. fst p \<le> k" ?B] True by (simp add: w_def)
    then show ?thesis using at[OF True] True Sa to_point_simps(1)[of "D ! Suc a"] by auto
  next
    case False
    then have oa: "Suc a = length (concat (take (Suc t) Bs))" using concat_block(3)[OF t(1) wl] Sa w(2) by simp
    show ?thesis
    proof (cases "Suc t < length Bs")
      case True
      then have "Bs ! Suc t \<noteq> []" using D(2) by (metis nth_mem)
      then have "concat Bs ! Suc a = hd (Bs ! Suc t)" "Suc a < length (concat Bs)"
        using concat_block(1,2)[OF True, of 0] oa by (simp_all add: hd_conv_nth)
      then have "to_point (D ! Suc a) = hd (Bs ! Suc t)" "Suc a < length D" unfolding D(1) by (simp_all add: nth_map)
      moreover from this have "fst (D ! Suc a) = fst (hd (Bs ! Suc t))" by (metis to_point_simps(1))
      ultimately show ?thesis using True t(3) by simp
    next
      case False
      then have "Suc t = length Bs" using t(1) by simp
      moreover have "Suc a = length (concat Bs)" using oa calculation by simp
      then have "Suc a = length D" unfolding D(1) by simp
      ultimately show ?thesis by simp
    qed
  qed
  then show ?thesis using p le wl by (intro exI[of _ a] exI[of _ "?B ! (w - 1)"]) simp
qed

lemma capped_pos_eq:
  assumes "0 \<le> seg_intercept (segs ! Suc t)" "seg_intercept (segs ! Suc t) < 2 ^ 64" "0 \<le> segment_pos (segs ! t) k"
  shows "int (capped_pos segs t k) = min (segment_pos (segs ! t) k) (seg_intercept (segs ! Suc t))"
  using assms by (simp add: capped_pos_def)

lemma segment_pos_nonneg: "0 \<le> segment_pos sg k"
  by (simp add: segment_pos_def Let_def)

lemma positions_on_blocks:
  assumes xs: "sorted xs" "xs \<noteq> []" "int (length xs) + int eps < 2 ^ 31"
    and Bs: "concat Bs = map to_point (distinct_keys (key_points xs))" "[] \<notin> set Bs"
    and S: "list_all2 (seg_block eps) S Bs"
    and segs: "\<forall>i<length S. segs ! i = S ! i" "seg_intercept (segs ! length S) = int (length xs)"
    and t: "t < length S" "seg_key (S ! t) \<le> k" "Suc t < length S \<longrightarrow> k < seg_key (S ! Suc t)"
  shows "capped_pos segs t k \<le> count_le xs k + eps"
    "sorted_wrt (<) xs \<Longrightarrow> capped_pos segs t k \<le> count_less xs k + eps"
    "sorted_wrt (<) xs \<Longrightarrow> count_less xs k \<le> capped_pos segs t k + eps + 2"
proof -
  define D where "D = distinct_keys (key_points xs)"
  note K = kept_points[OF xs(1,2), folded D_def]
  have len: "length S = length Bs" using S by (rule list_all2_lengthD)
  have blk: "seg_block eps (S ! i) (Bs ! i)" if "i < length S" for i using S that by (simp add: list_all2_conv_all_nth)
  have key: "seg_key (S ! i) = fst (hd (Bs ! i))" if "i < length S" for i using blk[OF that] by (simp add: seg_block_def)
  have nonempty: "Bs ! i \<noteq> []" if "i < length S" for i using Bs(2) that len by (metis nth_mem)
  have in_D: "\<exists>q \<in> set D. p = to_point q" if "p \<in> set (Bs ! i)" "i < length S" for p i
  proof -
    have "p \<in> set (concat Bs)" using that len by auto
    then show ?thesis unfolding Bs(1) D_def by auto
  qed
  obtain a p where a: "a < length D" "p \<in> set (Bs ! t)" "to_point (D ! a) = p" "fst p \<le> k"
    "if Suc a < length D
     then k < fst (D ! Suc a) \<and> (to_point (D ! Suc a) \<in> set (Bs ! t) \<or> Suc t < length Bs \<and> to_point (D ! Suc a) = hd (Bs ! Suc t))
     else Suc t = length Bs"
    using block_position[OF Bs(1)[folded D_def] Bs(2), of t k] t key len by fastforce
  have Da: "fst (D ! a) = fst p" "int (snd (D ! a)) = snd p" using a(3) by (metis to_point_simps)+
  have nxt: "Suc a < length D \<longrightarrow> k < fst (D ! Suc a)" using a(5) by (auto split: if_splits)
  note C = count_from_kept[OF xs(1,2), folded D_def, OF a(1) a(4)[folded Da(1)] nxt]
  let ?pos = "segment_pos (segs ! t) k" and ?icpt = "seg_intercept (segs ! Suc t)"
  have st: "segs ! t = S ! t" using segs(1) t(1) by simp
  note pb = segment_pos_bounds[OF blk[OF t(1)] t(2), folded st]
  have snd_D: "snd q < length xs \<and> fst q = xs ! snd q" if "q \<in> set D" for q using K(4)[OF that] by blast
  have icpt: "0 \<le> ?icpt" "?icpt < 2 ^ 64" "int (count_le xs k) \<le> ?icpt + int eps + 1"
    and icpt_end: "Suc t = length Bs \<Longrightarrow> ?icpt = int (length xs)"
    and icpt_next: "Suc t < length Bs \<Longrightarrow> ?icpt \<le> snd (hd (Bs ! Suc t)) + int eps"
  proof -
    have "0 \<le> ?icpt \<and> ?icpt < 2 ^ 64 \<and> int (count_le xs k) \<le> ?icpt + int eps + 1 \<and>
      (Suc t = length Bs \<longrightarrow> ?icpt = int (length xs)) \<and> (Suc t < length Bs \<longrightarrow> ?icpt \<le> snd (hd (Bs ! Suc t)) + int eps)"
    proof (cases "Suc t < length S")
      case True
      note b = segment_intercept_bounds[OF blk[OF True] nonempty[OF True]]
      from in_D[OF hd_in_set[OF nonempty[OF True]] True] obtain q where q: "q \<in> set D" "hd (Bs ! Suc t) = to_point q" by blast
      have "k < xs ! snd q" "snd q < length xs" using t(3) True key[OF True] q snd_D[OF q(1)] by auto
      then have "count_le xs k \<le> snd q" by (intro count_le_le)
      then show ?thesis using b q(2) snd_D[OF q(1)] xs(3) True len segs(1) by auto
    next
      case False
      then have "Suc t = length S" using t(1) by simp
      then show ?thesis using segs(2) count_bounds(2)[of xs k] xs(3) len by auto
    qed
    then show "0 \<le> ?icpt" "?icpt < 2 ^ 64" "int (count_le xs k) \<le> ?icpt + int eps + 1"
      "Suc t = length Bs \<Longrightarrow> ?icpt = int (length xs)" "Suc t < length Bs \<Longrightarrow> ?icpt \<le> snd (hd (Bs ! Suc t)) + int eps" by blast+
  qed
  have cap: "int (capped_pos segs t k) = min ?pos ?icpt"
    by (rule capped_pos_eq[OF icpt(1,2) segment_pos_nonneg])
  have upper: "min ?pos ?icpt \<le> int (count_le xs k) + int eps"
  proof (cases "Suc a < length D")
    case True
    then have j: "int (count_le xs k) = snd (to_point (D ! Suc a))" using C(1) by simp
    have k: "k \<le> fst (to_point (D ! Suc a))" using nxt True by simp
    from a(5) True have "to_point (D ! Suc a) \<in> set (Bs ! t) \<or> Suc t < length Bs \<and> to_point (D ! Suc a) = hd (Bs ! Suc t)" by simp
    then show ?thesis
    proof
      assume "to_point (D ! Suc a) \<in> set (Bs ! t)"
      from pb(1)[OF this k] j show ?thesis by simp
    next
      assume "Suc t < length Bs \<and> to_point (D ! Suc a) = hd (Bs ! Suc t)"
      with icpt_next j show ?thesis by (auto simp: min_le_iff_disj)
    qed
  next
    case False
    then show ?thesis using icpt_end a(5) C(1) by simp
  qed
  with cap show "capped_pos segs t k \<le> count_le xs k + eps" by linarith
  assume str: "sorted_wrt (<) xs"
  show "capped_pos segs t k \<le> count_less xs k + eps"
  proof (cases "fst (D ! a) < k")
    case True
    with C(2) upper cap show ?thesis by simp
  next
    case False
    then have eq: "k = fst (D ! a)" using a(4) Da(1) by simp
    have "?pos \<le> snd p + int eps" using pb(1)[OF a(2)] eq Da(1) by simp
    then show ?thesis using cap C(3)[OF eq] Da(2) by linarith
  qed
  have "snd p \<le> ?pos + int eps + 1" using pb(2)[OF a(2,4)] .
  then have "int (count_le xs k) \<le> ?pos + int eps + 2" using C(4)[OF str] Da(2) by simp
  then have "int (count_le xs k) \<le> min ?pos ?icpt + int eps + 2" using icpt(3) by simp
  then show "count_less xs k \<le> capped_pos segs t k + eps + 2" using cap count_less_le[of xs k] by linarith
qed

text \<open>A level with the segments of the blocks, maybe the extra segment, and the sentinel.\<close>

lemma level_okI:
  assumes xs: "sorted xs" "xs \<noteq> []" "int (length xs) + int eps < 2 ^ 31" "\<forall>x \<in> set xs. x \<le> last_key + 1"
    and Bs: "concat Bs = map to_point (distinct_keys (key_points xs))" "[] \<notin> set Bs"
    and S: "list_all2 (seg_block eps) S Bs"
    and ext: "ext = [] \<or> ext = [extra_segment last_key (length xs)]"
    and keys: "sorted (map seg_key S)" "\<forall>s \<in> set S. seg_key s \<le> last_key + 1"
  shows "pgm_level_ok eps xs last_key (S @ ext @ [Segment_sentinel (length xs)]) (length (S @ ext))"
proof -
  define segs where "segs = S @ ext @ [Segment_sentinel (length xs)]"
  let ?N = "length (S @ ext)" and ?n = "length xs"
  note K = kept_points[OF xs(1,2)]
  have Bs_ne: "Bs \<noteq> []" using Bs(1) K(1) by auto
  then have S_ne: "S \<noteq> []" using S by auto
  have len: "length S = length Bs" using S by (rule list_all2_lengthD)
  have "hd (hd Bs) = hd (concat Bs)" using Bs_ne Bs(2) by (cases Bs) auto
  also have "\<dots> = to_point (hd xs, 0)" unfolding Bs(1) using K(1,2) by (simp add: hd_map)
  finally have "fst (hd (hd Bs)) = hd xs" by simp
  moreover have "seg_block eps (hd S) (hd Bs)" using S S_ne Bs_ne by (cases S; cases Bs) auto
  ultimately have hd_key: "seg_key (hd S) = hd xs" by (simp add: seg_block_def)
  have nth_S: "\<forall>i<length S. segs ! i = S ! i" by (simp add: segs_def nth_append)
  have icpt: "seg_intercept (segs ! length S) = int ?n"
    using ext by (auto simp: segs_def nth_append extra_segment_def Segment_sentinel_def)
  have "capped_pos segs t k \<le> count_le xs k + eps \<and>
      (sorted_wrt (<) xs \<and> last xs \<le> last_key \<longrightarrow>
         capped_pos segs t k \<le> count_less xs k + eps \<and> count_less xs k \<le> capped_pos segs t k + eps + 2)"
    if t: "responsible segs ?N k t" for k t
  proof (cases "t < length S")
    case True
    have "seg_key (S ! t) \<le> k" "Suc t < length S \<longrightarrow> k < seg_key (S ! Suc t)"
      using t True nth_S by (auto simp: responsible_def)
    from positions_on_blocks[OF xs(1-3) Bs S nth_S icpt True this] show ?thesis by blast
  next
    case False
    then have e: "ext = [extra_segment last_key ?n]" "t = length S" using t ext by (auto simp: responsible_def)
    then have st: "segs ! t = extra_segment last_key ?n" "segs ! Suc t = Segment_sentinel ?n"
      by (simp_all add: segs_def nth_append)
    have k: "last_key + 1 \<le> k" using t st(1) by (simp add: responsible_def extra_segment_def)
    have "count_le xs k = ?n" using xs(4) k by (intro count_leI) (auto intro: order.trans)
    moreover have "capped_pos segs t k = ?n"
      using st xs(3) by (simp add: capped_pos_def segment_pos_def extra_segment_def Segment_sentinel_def trunc_int_def Let_def)
    moreover have "count_less xs k = ?n" if "last xs \<le> last_key"
    proof (rule count_lessI)
      show "\<forall>i<?n. xs ! i < k"
      proof (intro allI impI)
        fix i assume "i < ?n"
        then have "xs ! i \<le> last xs" using sorted_nth_mono[OF xs(1), of i "?n - 1"] xs(2) by (simp add: last_conv_nth)
        with that k show "xs ! i < k" by simp
      qed
    qed simp_all
    ultimately show ?thesis by auto
  qed
  moreover have "sorted (map seg_key (S @ ext))"
    using keys ext by (auto simp: sorted_append extra_segment_def)
  moreover have "\<forall>s \<in> set (S @ ext). seg_key s \<le> last_key + 1" using keys(2) ext by (auto simp: extra_segment_def)
  moreover have "take ?N segs = S @ ext" "segs ! ?N = Segment_sentinel ?n" "length segs = Suc ?N" "hd segs = hd S"
    using S_ne by (simp_all add: segs_def nth_append)
  ultimately show ?thesis
    using hd_key S_ne unfolding pgm_level_ok_def segs_def[symmetric] by (simp add: Segment_sentinel_def)
qed

section \<open>build_level\<close>

text \<open>The keys of a level: ascending, only the last two may be equal, none beyond the extra key.\<close>

definition keys_ok :: "float_t \<Rightarrow> float_t list \<Rightarrow> bool" where
  "keys_ok last_key xs \<longleftrightarrow> xs \<noteq> [] \<and> sorted xs \<and> distinct (butlast xs) \<and> hd xs \<le> last_key \<and>
     (\<forall>x \<in> set xs. x \<le> last_key + 1) \<and> (2 \<le> length xs \<longrightarrow> hd xs < last xs)"

lemma new_keys_id: "sorted_wrt (<) (x # map fst qs) \<Longrightarrow> new_keys x qs = qs"
  by (induction qs arbitrary: x) auto

lemma distinct_keys_id: "sorted_wrt (<) (map fst qs) \<Longrightarrow> distinct_keys qs = qs"
  by (cases qs) (simp_all add: new_keys_id)

lemma key_points_snoc: "key_points (ys @ [z]) = key_points ys @ [(z, length ys)]"
  by (auto simp: key_points_def nth_append intro!: nth_equalityI)

lemma map_key_points [simp]: "map fst (key_points xs) = xs" "map snd (key_points xs) = [0..<length xs]"
  by (simp_all add: key_points_def comp_def map_nth)

lemma kept_positions:
  assumes "keys_ok last_key xs"
  shows "\<exists>m. map snd (distinct_keys (key_points xs)) = [0..<m] \<and> m \<le> length xs \<and> (length xs \<le> 2 \<longrightarrow> m = length xs)"
proof -
  obtain ys z where xs: "xs = ys @ [z]" using assms by (metis keys_ok_def rev_exhaust)
  have ys: "sorted_wrt (<) ys" "\<forall>y \<in> set ys. y \<le> z"
    using assms xs by (auto simp: keys_ok_def sorted_append strict_sorted_iff)
  show ?thesis
  proof (cases "\<forall>y \<in> set ys. y < z")
    case True
    then have "sorted_wrt (<) xs" using ys(1) xs by (simp add: sorted_wrt_append)
    then have "distinct_keys (key_points xs) = key_points xs" by (intro distinct_keys_id) simp
    then show ?thesis by auto
  next
    case False
    then obtain y where y: "y \<in> set ys" "y = z" using ys(2) by (metis le_less)
    then have ne: "ys \<noteq> []" by auto
    have "last ys = z"
    proof -
      obtain i where i: "i < length ys" "ys ! i = z" using y by (auto simp: in_set_conv_nth)
      have "ys ! i \<le> last ys" using sorted_nth_mono[OF strict_sorted_imp_sorted[OF ys(1)], of i "length ys - 1"] i ne by (simp add: last_conv_nth)
      moreover have "last ys \<le> z" using ys(2) ne by simp
      ultimately show ?thesis using i(2) by simp
    qed
    moreover have kp: "key_points ys \<noteq> []" using ne by (simp add: key_points_def)
    moreover have "fst (last (key_points ys)) = last (map fst (key_points ys))" by (simp only: last_map[OF kp])
    ultimately have "fst (last (key_points ys)) = z" by simp
    then have "distinct_keys (key_points xs) = key_points ys"
      using distinct_keys_append[OF kp, of "[(z, length ys)]"] distinct_keys_id[of "key_points ys"] ys(1)
      unfolding xs key_points_snoc by simp
    moreover have "length xs \<noteq> 2"
    proof
      assume "length xs = 2"
      then obtain v where "ys = [v]" using xs by (cases ys) auto
      with assms y xs show False by (simp add: keys_ok_def)
    qed
    ultimately show ?thesis using xs ne by (intro exI[of _ "length ys"]) (cases ys rule: list.exhaust; force simp: Suc_le_eq)
  qed
qed

lemma block_heads_sorted:
  "sorted_wrt (\<lambda>p q. fst p < fst q) (concat Bs) \<Longrightarrow> [] \<notin> set Bs \<Longrightarrow> sorted_wrt (<) (map (\<lambda>B. fst (hd B)) Bs)"
proof (induction Bs)
  case (Cons B Bs)
  have "fst (hd B) < fst (hd C)" if C: "C \<in> set Bs" for C
  proof -
    have "hd B \<in> set B" "hd C \<in> set C" using Cons.prems(2) C by (auto intro!: hd_in_set)
    then show ?thesis using Cons.prems(1) C by (auto simp: sorted_wrt_append)
  qed
  with Cons show ?case by (simp add: sorted_wrt_append)
qed simp

lemma strict_imp_distinct_butlast: "sorted_wrt (<) (xs :: float_t list) \<Longrightarrow> distinct (butlast xs)"
  by (simp add: distinct_butlast strict_sorted_iff)

lemma build_level_ok:
  assumes xs: "keys_ok last_key xs" and small: "int (length xs) + int eps < 2 ^ 31" and eps: "0 < eps"
    and par: "1 \<le> parallelism" "parallelism \<le> 20" and inp: "map inp [0..<length xs] = key_points xs"
  shows "\<exists>L N. build_level parallelism last_key (length xs) eps inp segments = Inr (segments @ L, N) \<and>
    pgm_level_ok eps xs last_key L N \<and> keys_ok last_key (map seg_key (take N L)) \<and> hd (map seg_key (take N L)) = hd xs \<and>
    (if 2 \<le> length xs then N < length xs else N = 1)"
proof -
  let ?n = "length xs"
  have k: "xs \<noteq> []" "sorted xs" "hd xs \<le> last_key" "\<forall>x \<in> set xs. x \<le> last_key + 1" using xs by (simp_all add: keys_ok_def)
  from kept_positions[OF xs] obtain m where m: "map snd (distinct_keys (key_points xs)) = [0..<m]" "m \<le> ?n" "?n \<le> 2 \<longrightarrow> m = ?n" by blast
  have "int ?n + int eps < size_max" using small by (simp add: size_max_def)
  from make_segmentation_par_ok[of eps inp ?n parallelism m, unfolded inp, OF key_points_ok[OF k(2) this] eps par m(1)]
  obtain css Bs where seg: "make_segmentation_par parallelism ?n eps inp = Inr (css, length css)"
    "concat Bs = map to_point (distinct_keys (key_points xs))" "[] \<notin> set Bs" "list_all2 (seg_fits eps) css Bs"
    "3 * length Bs \<le> m + (if ?n < 2 ^ 15 then 2 else 40)" unfolding segmentation_of_def by blast
  note K = kept_points[OF k(2,1)]
  have "\<forall>p \<in> set (concat Bs). 0 \<le> snd p \<and> snd p + int eps < 2 ^ 31"
    unfolding seg(2)
  proof
    fix p assume "p \<in> set (map to_point (distinct_keys (key_points xs)))"
    then obtain q where "q \<in> set (distinct_keys (key_points xs))" "p = to_point q" by auto
    with K(4)[of q] small show "0 \<le> snd p \<and> snd p + int eps < 2 ^ 31" by simp
  qed
  from segments_of_ok[OF seg(4,3) this] obtain S where S: "segments_of css = Inr S" "list_all2 (seg_block eps) S Bs" by blast
  have len: "length S = length Bs" "length css = length S" using list_all2_lengthD[OF S(2)] list_all2_lengthD[OF seg(4)] by simp_all
  have Bs_ne: "Bs \<noteq> []" using seg(2) K(1) by auto
  then have S_ne: "S \<noteq> []" using len by auto
  have keyS: "map seg_key S = map (\<lambda>B. fst (hd B)) Bs"
    using S(2) by (auto simp: list_all2_conv_all_nth seg_block_def intro!: nth_equalityI)
  have "sorted_wrt (\<lambda>p q. fst p < fst q) (concat Bs)"
    unfolding seg(2) sorted_wrt_map using K(3) by simp
  then have strict: "sorted_wrt (<) (map seg_key S)" unfolding keyS by (intro block_heads_sorted seg(3))
  have key_le: "\<forall>s \<in> set S. seg_key s \<le> last_key + 1"
  proof
    fix s assume "s \<in> set S"
    then have "seg_key s \<in> set (map (\<lambda>B. fst (hd B)) Bs)" using keyS by (metis image_eqI set_map)
    then obtain B where B: "B \<in> set Bs" "seg_key s = fst (hd B)" by auto
    then have "hd B \<in> set (concat Bs)" using seg(3) by (auto intro!: bexI[of _ B] hd_in_set)
    then obtain q where "q \<in> set (distinct_keys (key_points xs))" "hd B = to_point q" unfolding seg(2) by auto
    then have "fst (hd B) \<in> set xs" using K(4)[of q] by auto
    with k(4) B(2) show "seg_key s \<le> last_key + 1" by simp
  qed
  define ext where "ext = (if seg_slope (last S) = 0 \<and> ?n > 1 then [extra_segment last_key ?n] else [])"
  define L where "L = S @ ext @ [Segment_sentinel ?n]"
  define N where "N = length (S @ ext)"
  have build: "build_level parallelism last_key ?n eps inp segments = Inr (segments @ L, N)"
    using S_ne len seg(1) S(1) unfolding build_level_def by (simp add: ext_def L_def N_def extra_segment_def Let_def)
  have lev: "pgm_level_ok eps xs last_key L N"
    unfolding L_def N_def
    by (rule level_okI[OF k(2,1) small k(4) seg(2,3) S(2)]) (use strict key_le in \<open>auto simp: ext_def strict_sorted_imp_sorted\<close>)
  have keys: "map seg_key (take N L) = map seg_key S @ map seg_key ext" by (simp add: N_def L_def)
  have hd_S: "seg_key (hd S) = hd xs"
    using lev S_ne by (simp add: pgm_level_ok_def L_def)
  have "keys_ok last_key (map seg_key (take N L))"
    unfolding keys keys_ok_def
  proof (intro conjI impI)
    show "sorted (map seg_key S @ map seg_key ext)"
      using strict key_le by (auto simp: ext_def extra_segment_def sorted_append strict_sorted_imp_sorted)
    show "distinct (butlast (map seg_key S @ map seg_key ext))"
      using strict by (auto simp: ext_def butlast_append strict_imp_distinct_butlast strict_sorted_iff)
    show "hd (map seg_key S @ map seg_key ext) \<le> last_key" using S_ne hd_S k(3) by (simp add: hd_map)
    show "\<forall>x \<in> set (map seg_key S @ map seg_key ext). x \<le> last_key + 1" using key_le by (auto simp: ext_def extra_segment_def)
    assume two: "2 \<le> length (map seg_key S @ map seg_key ext)"
    show "hd (map seg_key S @ map seg_key ext) < last (map seg_key S @ map seg_key ext)"
    proof (cases "ext = []")
      case True
      then have "map seg_key S ! 0 < map seg_key S ! (length S - 1)"
        using sorted_wrt_nth_less[OF strict, of 0 "length S - 1"] two by simp
      then show ?thesis using True S_ne by (simp add: hd_conv_nth last_conv_nth)
    next
      case False
      then show ?thesis using S_ne hd_S k(3) by (auto simp: ext_def extra_segment_def hd_map split: if_splits)
    qed
  qed (use S_ne in simp)
  moreover have "hd (map seg_key (take N L)) = hd xs" unfolding keys using S_ne hd_S by (simp add: hd_map)
  moreover have "if 2 \<le> ?n then N < ?n else N = 1"
  proof (cases "?n \<le> 2")
    case True
    then have "3 * length Bs \<le> ?n + 2" using seg(5) m(3) by simp
    moreover have "length Bs \<noteq> 0" using Bs_ne by simp
    ultimately have one: "length Bs = 1" using True by linarith
    then obtain B s where B: "Bs = [B]" "S = [s]" using len by (auto simp: length_Suc_conv)
    then have "length B = ?n" using arg_cong[OF seg(2), of length] arg_cong[OF m(1), of length] m(3) True by simp
    moreover have "seg_block eps s B" using S(2) B by simp
    ultimately have "ext = []" using True B by (auto simp: ext_def seg_block_def)
    then show ?thesis using B by (auto simp: N_def)
  next
    case False
    then have "length Bs + 1 < ?n" using seg(5) m(2) by (auto split: if_splits)
    then show ?thesis using False len by (simp add: N_def ext_def)
  qed
  ultimately show ?thesis using build lev by blast
qed

section \<open>The levels of an index\<close>

text \<open>A level of the proof: the keys it is built on, its segments with the sentinel, and their number without it.\<close>

type_synonym level = "float_t list \<times> pgm_segment list \<times> nat"

definition level_keys :: "level \<Rightarrow> float_t list" where
  "level_keys lv = map seg_key (take (snd (snd lv)) (fst (snd lv)))"

definition level_start :: "level list \<Rightarrow> nat \<Rightarrow> nat" where
  "level_start lvs i = length (concat (map (fst \<circ> snd) (take i lvs)))"

text \<open>The levels of \<open>segments\<close> and \<open>offsets\<close>, lowest first.\<close>

definition levels_ok :: "nat \<Rightarrow> nat \<Rightarrow> float_t list \<Rightarrow> level list \<Rightarrow> pgm_segment list \<times> nat list \<times> nat \<Rightarrow> bool" where
  "levels_ok eps eps_rec data lvs st \<longleftrightarrow> (case st of (segments, offsets, last_n) \<Rightarrow>
     lvs \<noteq> [] \<and> segments = concat (map (fst \<circ> snd) lvs) \<and> offsets = map (level_start lvs) [0..<Suc (length lvs)] \<and>
     last_n = snd (snd (last lvs)) \<and> fst (hd lvs) = data \<and>
     (\<forall>i < length lvs. pgm_level_ok (if i = 0 then eps else eps_rec) (fst (lvs ! i)) (last data) (fst (snd (lvs ! i))) (snd (snd (lvs ! i))) \<and>
        keys_ok (last data) (level_keys (lvs ! i)) \<and> hd (level_keys (lvs ! i)) = hd data \<and> length (level_keys (lvs ! i)) \<le> length data \<and>
        (Suc i < length lvs \<longrightarrow> fst (lvs ! Suc i) = level_keys (lvs ! i))))"

lemma level_start_Suc: "i < length lvs \<Longrightarrow> level_start lvs (Suc i) = level_start lvs i + length (fst (snd (lvs ! i)))"
  by (simp add: level_start_def take_Suc_conv_app_nth)

lemma level_start_append: "i \<le> length lvs \<Longrightarrow> level_start (lvs @ ms) i = level_start lvs i"
  by (simp add: level_start_def)

lemma level_segments:
  assumes "i < length lvs" "j < length (fst (snd (lvs ! i)))"
  shows "concat (map (fst \<circ> snd) lvs) ! (level_start lvs i + j) = fst (snd (lvs ! i)) ! j"
    "level_start lvs i + j < length (concat (map (fst \<circ> snd) lvs))"
  using concat_block(1,2)[of i "map (fst \<circ> snd) lvs" j] assms by (simp_all add: level_start_def take_map)

lemma length_level_keys: "pgm_level_ok eps xs lk L N \<Longrightarrow> length (level_keys (xs, L, N)) = N"
  by (simp add: level_keys_def pgm_level_ok_def)

lemma last_offsets: "last (map f [0..<Suc n]) = f n" "map f [0..<Suc (Suc n)] ! n = f n"
  by (simp_all add: nth_append)

lemma upper_level_step_ok:
  assumes inv: "levels_ok eps eps_rec data lvs (segments, offsets, last_n)"
    and small: "int (length data) + int eps_rec < 2 ^ 31" and eps: "0 < eps_rec" and par: "1 \<le> parallelism" "parallelism \<le> 20"
  shows "if last_n > 1
    then \<exists>lv st'. upper_level_step parallelism (last data) eps_rec (segments, offsets, last_n) = Inr st' \<and>
      levels_ok eps eps_rec data (lvs @ [lv]) st' \<and> snd (snd st') < last_n
    else upper_level_step parallelism (last data) eps_rec (segments, offsets, last_n) = Inl (Inr (segments, offsets))"
proof (cases "last_n > 1")
  case True
  define h where "h = length lvs - 1"
  have ne: "lvs \<noteq> []" and f: "segments = concat (map (fst \<circ> snd) lvs)" "offsets = map (level_start lvs) [0..<Suc (length lvs)]"
    "last_n = snd (snd (last lvs))" "fst (hd lvs) = data" using inv by (simp_all add: levels_ok_def)
  have h: "h < length lvs" "last lvs = lvs ! h" "Suc h = length lvs" using ne by (simp_all add: h_def last_conv_nth)
  define xs where "xs = level_keys (lvs ! h)"
  have top: "pgm_level_ok (if h = 0 then eps else eps_rec) (fst (lvs ! h)) (last data) (fst (snd (lvs ! h))) last_n"
    "keys_ok (last data) xs" "hd xs = hd data" "length xs \<le> length data"
    using inv h f(3) by (auto simp: levels_ok_def xs_def)
  have lenL: "length (fst (snd (lvs ! h))) = Suc last_n" using top(1) by (simp add: pgm_level_ok_def)
  have len: "length xs = last_n"
    using lenL f(3) h(2) by (simp add: xs_def level_keys_def)
  have ofs: "offsets ! (length offsets - 2) = level_start lvs h" "last offsets = level_start lvs (length lvs)"
    unfolding f(2) h(3)[symmetric] by (simp_all add: nth_append)
  have inp: "map (\<lambda>i. (seg_key (segments ! (level_start lvs h + i)), i)) [0..<length xs] = key_points xs"
    unfolding key_points_def
  proof (rule map_cong[OF refl])
    fix i assume "i \<in> set [0..<length xs]"
    then have i: "i < last_n" using len by simp
    then have "segments ! (level_start lvs h + i) = fst (snd (lvs ! h)) ! i"
      unfolding f(1) using level_segments(1)[OF h(1)] lenL by simp
    moreover have "xs ! i = seg_key (fst (snd (lvs ! h)) ! i)" using i lenL f(3) h(2) by (simp add: xs_def level_keys_def)
    ultimately show "(seg_key (segments ! (level_start lvs h + i)), i) = (xs ! i, i)" by simp
  qed
  have "int (length xs) + int eps_rec < 2 ^ 31" using small top(4) by simp
  from build_level_ok[OF top(2) this eps par inp, of segments] obtain L N where
    b: "build_level parallelism (last data) (length xs) eps_rec (\<lambda>i. (seg_key (segments ! (level_start lvs h + i)), i)) segments = Inr (segments @ L, N)"
    "pgm_level_ok eps_rec xs (last data) L N" "keys_ok (last data) (map seg_key (take N L))" "hd (map seg_key (take N L)) = hd xs"
    "if 2 \<le> length xs then N < length xs else N = 1" by blast
  define lv where "lv = (xs, L, N)"
  define st' where "st' = (segments @ L, offsets @ [last offsets + N + 1], N)"
  have "upper_level_step parallelism (last data) eps_rec (segments, offsets, last_n) = Inr st'"
    using True eps b(1) len by (simp add: upper_level_step_def ofs Let_def st'_def)
  moreover have "levels_ok eps eps_rec data (lvs @ [lv]) st'"
  proof -
    have lL: "length L = Suc N" using b(2) by (simp add: pgm_level_ok_def)
    have offs: "offsets @ [last offsets + N + 1] = map (level_start (lvs @ [lv])) [0..<Suc (length (lvs @ [lv]))]"
    proof -
      have "level_start (lvs @ [lv]) (Suc (length lvs)) = last offsets + N + 1"
        using level_start_Suc[of "length lvs" "lvs @ [lv]"] level_start_append[of "length lvs" lvs "[lv]"] ofs(2) lL
        by (simp add: lv_def)
      moreover have "map (level_start (lvs @ [lv])) [0..<Suc (length lvs)] = offsets"
        unfolding f(2) by (rule map_cong[OF refl]) (auto intro: level_start_append)
      ultimately show ?thesis by simp
    qed
    have lk: "level_keys lv = map seg_key (take N L)" by (simp add: level_keys_def lv_def)
    have len_lk: "length (level_keys lv) \<le> length data" using lk lL b(5) True len top(4) by simp
    have "pgm_level_ok (if i = 0 then eps else eps_rec) (fst ((lvs @ [lv]) ! i)) (last data) (fst (snd ((lvs @ [lv]) ! i))) (snd (snd ((lvs @ [lv]) ! i))) \<and>
        keys_ok (last data) (level_keys ((lvs @ [lv]) ! i)) \<and> hd (level_keys ((lvs @ [lv]) ! i)) = hd data \<and>
        length (level_keys ((lvs @ [lv]) ! i)) \<le> length data \<and>
        (Suc i < length (lvs @ [lv]) \<longrightarrow> fst ((lvs @ [lv]) ! Suc i) = level_keys ((lvs @ [lv]) ! i))" if i: "i < length (lvs @ [lv])" for i
    proof (cases "i < length lvs")
      case True
      have "fst ((lvs @ [lv]) ! Suc i) = level_keys (lvs ! i)"
      proof (cases "Suc i < length lvs")
        case True
        then show ?thesis using inv by (simp add: levels_ok_def nth_append)
      next
        case False
        with True h(3) have "i = h" "Suc i = length lvs" by simp_all
        then show ?thesis by (simp add: nth_append lv_def xs_def)
      qed
      moreover have "(lvs @ [lv]) ! i = lvs ! i" using True by (simp add: nth_append)
      ultimately show ?thesis using inv True by (simp add: levels_ok_def)
    next
      case False
      then have "i = length lvs" using i by simp
      then have "(lvs @ [lv]) ! i = lv" "i \<noteq> 0" "\<not> Suc i < length (lvs @ [lv])" using ne by simp_all
      then show ?thesis using b(2-4) lk top(3) len_lk by (simp add: lv_def)
    qed
    note all_levels = this
    show ?thesis
      unfolding levels_ok_def st'_def prod.case
    proof (intro conjI allI impI)
      show "segments @ L = concat (map (fst \<circ> snd) (lvs @ [lv]))" "N = snd (snd (last (lvs @ [lv])))" "fst (hd (lvs @ [lv])) = data"
        using f ne by (simp_all add: lv_def)
      show "offsets @ [last offsets + N + 1] = map (level_start (lvs @ [lv])) [0..<Suc (length (lvs @ [lv]))]" by (rule offs)
    qed (use all_levels in blast)+
  qed
  moreover have "snd (snd st') < last_n" using b(5) True len by (simp add: st'_def)
  ultimately have "\<exists>lv st'. upper_level_step parallelism (last data) eps_rec (segments, offsets, last_n) = Inr st' \<and>
      levels_ok eps eps_rec data (lvs @ [lv]) st' \<and> snd (snd st') < last_n" by blast
  then show ?thesis using True by presburger
next
  case False
  then show ?thesis by (simp add: upper_level_step_def)
qed

section \<open>Building the index\<close>

definition pgm_data :: "nat \<Rightarrow> nat \<Rightarrow> float_t list \<Rightarrow> bool" where
  "pgm_data eps eps_rec data \<longleftrightarrow> data \<noteq> [] \<and> sorted_wrt (<) data \<and> last data + 1 < FLT_MAX \<and>
     0 < eps \<and> 0 < eps_rec \<and> length data + eps < 2 ^ 31 \<and> length data + eps_rec < 2 ^ 31"

lemma pgm_data_keys:
  assumes "pgm_data eps eps_rec data"
  shows "keys_ok (last data) data"
proof -
  have s: "sorted data" "data \<noteq> []" using assms by (simp_all add: pgm_data_def strict_sorted_imp_sorted)
  have le: "x \<le> last data" if "x \<in> set data" for x
  proof -
    obtain i where "i < length data" "x = data ! i" using \<open>x \<in> set data\<close> by (metis in_set_conv_nth)
    then show ?thesis using sorted_nth_mono[OF s(1), of i "length data - 1"] s(2) by (simp add: last_conv_nth)
  qed
  have "hd data < last data" if "2 \<le> length data"
    using sorted_wrt_nth_less[of "(<)" data 0 "length data - 1"] assms that s(2)
    by (simp add: pgm_data_def hd_conv_nth last_conv_nth)
  moreover have "\<forall>x \<in> set data. x \<le> last data + 1"
  proof
    fix x assume "x \<in> set data"
    from le[OF this] show "x \<le> last data + 1" by simp
  qed
  ultimately show ?thesis using assms s le
    by (auto simp: keys_ok_def pgm_data_def strict_imp_distinct_butlast)
qed

lemma data_input_strict: "sorted_wrt (<) data \<Longrightarrow> map (data_input data) [0..<length data] = key_points data"
  unfolding key_points_def
proof (rule map_cong[OF refl])
  fix i assume "sorted_wrt (<) data" "i \<in> set [0..<length data]"
  then have "i > 0 \<Longrightarrow> data ! (i - 1) < data ! i" by (intro sorted_wrt_nth_less[of "(<)" data]) auto
  then show "data_input data i = (data ! i, i)" by (auto simp: data_input_def Let_def)
qed

lemma pgm_build_ok:
  assumes d: "pgm_data eps eps_rec data" and par: "1 \<le> parallelism" "parallelism \<le> 20"
  shows "\<exists>segments offsets lvs n. pgm_build parallelism eps eps_rec data = Some (Inr (segments, offsets)) \<and>
    levels_ok eps eps_rec data lvs (segments, offsets, n) \<and> n \<le> 1"
proof -
  have p: "data \<noteq> []" "sorted_wrt (<) data" "last data \<noteq> FLT_MAX" "0 < eps" "0 < eps_rec"
    "int (length data) + int eps < 2 ^ 31" "int (length data) + int eps_rec < 2 ^ 31"
    using d by (auto simp: pgm_data_def)
  from build_level_ok[OF pgm_data_keys[OF d] p(6,4) par data_input_strict[OF p(2)], of "[]"] obtain L N where
    b: "build_level parallelism (last data) (length data) eps (data_input data) [] = Inr (L, N)"
    "pgm_level_ok eps data (last data) L N" "keys_ok (last data) (map seg_key (take N L))" "hd (map seg_key (take N L)) = hd data"
    "if 2 \<le> length data then N < length data else N = 1" by auto
  have lL: "length L = Suc N" using b(2) by (simp add: pgm_level_ok_def)
  have len: "N \<le> length data" using b(5) p(1) by (cases data) (auto split: if_splits)
  have start: "levels_ok eps eps_rec data [(data, L, N)] (L, [0, N + 1], N)"
    using b(2-4) lL len by (simp add: levels_ok_def level_keys_def level_start_def)
  let ?I = "\<lambda>st. \<exists>lvs. levels_ok eps eps_rec data lvs st"
  let ?Q = "\<lambda>r. \<exists>segments offsets lvs n. r = Inr (segments, offsets) \<and> levels_ok eps eps_rec data lvs (segments, offsets, n) \<and> n \<le> 1"
  have "\<exists>r. run_loop (upper_level_step parallelism (last data) eps_rec) (L, [0, N + 1], N) = Some r \<and> ?Q r"
  proof (rule run_loop_total[where I = ?I and m = "\<lambda>st. snd (snd st)"])
    show "?I (L, [0, N + 1], N)" using start by blast
    fix st assume "?I st"
    then obtain lvs segments offsets n where st: "st = (segments, offsets, n)" "levels_ok eps eps_rec data lvs (segments, offsets, n)"
      by (cases st) auto
    note step = upper_level_step_ok[OF st(2) p(7,5) par]
    show "?I st' \<and> snd (snd st') < snd (snd st)" if "upper_level_step parallelism (last data) eps_rec st = Inr st'" for st'
      using step that st(1) by (auto split: if_splits)
    show "?Q r" if "upper_level_step parallelism (last data) eps_rec st = Inl r" for r
    proof -
      have "r = Inr (segments, offsets)" "n \<le> 1" using step that st(1) by (auto split: if_splits)
      then show ?thesis using st(2) by blast
    qed
  qed
  moreover have "pgm_build parallelism eps eps_rec data = run_loop (upper_level_step parallelism (last data) eps_rec) (L, [0, N + 1], N)"
    using p(1,3) b(1) last_conv_nth[OF p(1), symmetric] by (simp add: pgm_build_def Let_def)
  ultimately show ?thesis by auto
qed

section \<open>The descent\<close>

lemma scan_segments_ok:
  assumes "lo \<le> T" "Suc T < length segments" "\<forall>i. lo < i \<and> i \<le> T \<longrightarrow> seg_key (segments ! i) \<le> key" "key < seg_key (segments ! Suc T)"
  shows "scan_segments key (drop lo segments) lo = Inr T"
  using assms
proof (induction "T - lo" arbitrary: lo)
  case 0
  then have lo: "lo = T" by simp
  have "drop T segments = segments ! T # segments ! Suc T # drop (Suc (Suc T)) segments"
    using 0(3) by (simp add: Cons_nth_drop_Suc)
  then show ?case using 0 lo by simp
next
  case (Suc m)
  then have lt: "lo < T" by simp
  have d: "drop lo segments = segments ! lo # segments ! Suc lo # drop (Suc (Suc lo)) segments" "drop (Suc lo) segments = segments ! Suc lo # drop (Suc (Suc lo)) segments"
    using Suc(4) lt by (simp_all add: Cons_nth_drop_Suc)
  have "seg_key (segments ! Suc lo) \<le> key" using Suc(5) lt by simp
  moreover have "scan_segments key (drop (Suc lo) segments) (Suc lo) = Inr T" using Suc lt by (intro Suc(1)) auto
  ultimately show ?case using d by simp
qed

text \<open>The segment for a key, by the number of keys of the level up to it.\<close>

lemma responsible_count:
  assumes lev: "pgm_level_ok eps xs lk L N" and ks: "sorted (map seg_key (take N L))" and k: "hd xs \<le> k"
  shows "responsible L N k (count_le (map seg_key (take N L)) k - 1)" "0 < count_le (map seg_key (take N L)) k"
    "i < count_le (map seg_key (take N L)) k \<Longrightarrow> seg_key (L ! i) \<le> k" "count_le (map seg_key (take N L)) k \<le> N"
proof -
  let ?ks = "map seg_key (take N L)" and ?c = "count_le (map seg_key (take N L)) k"
  have L: "length L = Suc N" "0 < N" "seg_key (hd L) = hd xs" using lev by (simp_all add: pgm_level_ok_def)
  have nth: "?ks ! i = seg_key (L ! i)" if "i < N" for i using that L by simp
  show c: "?c \<le> N" using count_bounds(2)[of ?ks k] L by simp
  have low: "seg_key (L ! i) \<le> k" if "i < ?c" for i
  proof -
    have "takeWhile (\<lambda>x. x \<le> k) ?ks ! i \<in> set (takeWhile (\<lambda>x. x \<le> k) ?ks)" using that by (simp add: count_le_def)
    then have "?ks ! i \<le> k" using that by (simp add: count_le_def takeWhile_nth) (metis set_takeWhileD)
    then show ?thesis using nth that c by simp
  qed
  then show "i < ?c \<Longrightarrow> seg_key (L ! i) \<le> k" by blast
  have "?ks \<noteq> []" "hd ?ks \<le> k" using L k by (cases L; simp add: hd_map)+
  then show pos: "0 < ?c" by (cases ?ks) (auto simp: count_le_def)
  have "k < seg_key (L ! ?c)" if "?c < N"
  proof -
    have "length (takeWhile (\<lambda>x. x \<le> k) ?ks) < length ?ks" using that L by (simp add: count_le_def)
    from nth_length_takeWhile[OF this] have "\<not> ?ks ! ?c \<le> k" unfolding count_le_def .
    then show ?thesis using nth[OF that] by simp
  qed
  then show "responsible L N k (?c - 1)" using low[of "?c - 1"] pos c by (auto simp: responsible_def)
qed

lemma descend_levels_ok:
  assumes inv: "levels_ok eps eps_rec data lvs (segments, offsets, n)" and k: "hd data \<le> k" "k < FLT_MAX"
    and l: "l < length lvs" "responsible (fst (snd (lvs ! l))) (snd (snd (lvs ! l))) k t"
  shows "\<exists>t0. descend_levels eps_rec segments offsets k l (offsets ! l + t) = Inr (offsets ! 0 + t0) \<and>
    responsible (fst (snd (lvs ! 0))) (snd (snd (lvs ! 0))) k t0"
  using l
proof (induction l arbitrary: t)
  case (Suc l)
  let ?L = "fst (snd (lvs ! l))" and ?N = "snd (snd (lvs ! l))" and ?L' = "fst (snd (lvs ! Suc l))" and ?N' = "snd (snd (lvs ! Suc l))"
  have l: "l < length lvs" using Suc.prems(1) by simp
  have f: "segments = concat (map (fst \<circ> snd) lvs)" "offsets = map (level_start lvs) [0..<Suc (length lvs)]"
    and all: "\<And>i. i < length lvs \<Longrightarrow> pgm_level_ok (if i = 0 then eps else eps_rec) (fst (lvs ! i)) (last data) (fst (snd (lvs ! i))) (snd (snd (lvs ! i))) \<and>
        keys_ok (last data) (level_keys (lvs ! i)) \<and> hd (level_keys (lvs ! i)) = hd data \<and>
        (Suc i < length lvs \<longrightarrow> fst (lvs ! Suc i) = level_keys (lvs ! i))"
    using inv unfolding levels_ok_def prod.case by blast+
  have lev: "pgm_level_ok (if l = 0 then eps else eps_rec) (fst (lvs ! l)) (last data) ?L ?N"
      "pgm_level_ok eps_rec (level_keys (lvs ! l)) (last data) ?L' ?N'"
    and hd_keys: "hd (level_keys (lvs ! l)) = hd data" and ks: "keys_ok (last data) (level_keys (lvs ! l))"
    using all[OF l] all[OF Suc.prems(1)] Suc.prems(1) by simp_all
  have hd_l: "hd (fst (lvs ! l)) = hd data"
    using inv l by (cases l) (auto simp: levels_ok_def hd_conv_nth)
  have ofs: "offsets ! i = level_start lvs i" if "i \<le> length lvs" for i
    using that unfolding f(2) by (simp add: nth_append del: upt_Suc)
  have len: "length ?L = Suc ?N" "length ?L' = Suc ?N'" using lev by (simp_all add: pgm_level_ok_def)
  have t: "t < ?N'" using Suc.prems(2) by (simp add: responsible_def)
  have seg': "segments ! (level_start lvs (Suc l) + j) = ?L' ! j" if "j \<le> ?N'" for j
    using level_segments(1)[OF Suc.prems(1), of j] that len f(1) by simp
  have seg: "segments ! (level_start lvs l + j) = ?L ! j" "level_start lvs l + j < length segments" if "j \<le> ?N" for j
    using level_segments[OF l, of j] that len f(1) by simp_all
  define pos where "pos = capped_pos segments (offsets ! Suc l + t) k"
  have pos: "pos = capped_pos ?L' t k"
    using seg'[of t] seg'[of "Suc t"] t ofs[of "Suc l"] Suc.prems(1) by (simp add: pos_def capped_pos_def)
  let ?ks = "level_keys (lvs ! l)"
  define c where "c = count_le ?ks k"
  have "pos \<le> c + eps_rec"
    using lev(2) Suc.prems(2) k(1) hd_keys unfolding pos c_def pgm_level_ok_def by auto
  have keq: "?ks = map seg_key (take ?N ?L)" by (simp add: level_keys_def)
  have srt: "sorted (map seg_key (take ?N ?L))" using ks unfolding keq keys_ok_def by blast
  note R = responsible_count[OF lev(1) srt, of k, folded keq, folded c_def]
  have k': "hd (fst (lvs ! l)) \<le> k" using hd_l k(1) by simp
  note R = R[OF k']
  define m where "m = PGM_SUB_EPS pos (eps_rec + 1)"
  have m: "m \<le> c - 1" using \<open>pos \<le> c + eps_rec\<close> R(2) unfolding m_def PGM_SUB_EPS_def by auto
  have "scan_segments k (drop (offsets ! l + m) segments) (offsets ! l + m) = Inr (offsets ! l + (c - 1))"
  proof (rule scan_segments_ok)
    show "offsets ! l + m \<le> offsets ! l + (c - 1)" using m by simp
    have o: "offsets ! l = level_start lvs l" using ofs l by simp
    show "Suc (offsets ! l + (c - 1)) < length segments" using seg(2)[of c] R(2,4) o by simp
    show "\<forall>i. offsets ! l + m < i \<and> i \<le> offsets ! l + (c - 1) \<longrightarrow> seg_key (segments ! i) \<le> k"
    proof (intro allI impI)
      fix i assume i: "offsets ! l + m < i \<and> i \<le> offsets ! l + (c - 1)"
      obtain j where j: "i = offsets ! l + j" using i by (metis le_add_diff_inverse less_imp_le trans_less_add1 add_lessD1)
      with i R(2,4) have "j < c" "j \<le> ?N" by auto
      then have "segments ! i = ?L ! (i - offsets ! l)" using seg(1)[of j] o j by simp
      then show "seg_key (segments ! i) \<le> k" using R(3)[OF \<open>j < c\<close>] j by simp
    qed
    have "segments ! Suc (offsets ! l + (c - 1)) = ?L ! c" using seg(1)[of c] R(2,4) o by simp
    moreover have "k < seg_key (?L ! c)"
    proof (cases "c < ?N")
      case True
      then show ?thesis using R(1,2) by (simp add: responsible_def)
    next
      case False
      then have "c = ?N" using R(4) by simp
      then show ?thesis using lev(1) k(2) by (simp add: pgm_level_ok_def)
    qed
    ultimately show "k < seg_key (segments ! Suc (offsets ! l + (c - 1)))" by simp
  qed
  then have "descend_levels eps_rec segments offsets k (Suc l) (offsets ! Suc l + t)
      = descend_levels eps_rec segments offsets k l (offsets ! l + (c - 1))"
    by (simp add: Let_def pos_def m_def)
  then show ?case using Suc.IH[OF l R(1)] by simp
qed auto

text \<open>The window holds the position of the first key not below the sought one.\<close>

lemma pgm_search_ok:
  assumes d: "pgm_data eps eps_rec data" and par: "1 \<le> parallelism" "parallelism \<le> 20"
  shows "\<exists>ix. PGMIndex parallelism eps eps_rec data = Some (Inr ix) \<and>
    (\<forall>key < FLT_MAX. \<exists>pos lo hi. pgm_search_pos eps eps_rec ix key = Inr (pos, lo, hi) \<and>
       lo \<le> count_less data key \<and> count_less data key \<le> hi \<and> hi \<le> length data \<and> hi \<le> lo + 2 * eps + 2)"
proof -
  from pgm_build_ok[OF assms] obtain segments offsets lvs n where
    b: "pgm_build parallelism eps eps_rec data = Some (Inr (segments, offsets))"
    and inv: "levels_ok eps eps_rec data lvs (segments, offsets, n)" and n: "n \<le> 1" by blast
  define ix where "ix = \<lparr> pgm_n = length data, pgm_first_key = hd data, pgm_segments = segments, pgm_levels_offsets = offsets \<rparr>"
  have dat: "data \<noteq> []" "sorted_wrt (<) data" "last data + 1 < FLT_MAX" using d by (simp_all add: pgm_data_def)
  have made: "PGMIndex parallelism eps eps_rec data = Some (Inr ix)" using b dat(1) by (simp add: PGMIndex_def ix_def)
  have f: "lvs \<noteq> []" "segments = concat (map (fst \<circ> snd) lvs)" "offsets = map (level_start lvs) [0..<Suc (length lvs)]"
    "n = snd (snd (last lvs))" "fst (hd lvs) = data" using inv by (simp_all add: levels_ok_def)
  define h where "h = length lvs - 1"
  have h: "h < length lvs" "last lvs = lvs ! h" "Suc h = length lvs" using f(1) by (simp_all add: h_def last_conv_nth)
  have lev: "pgm_level_ok (if i = 0 then eps else eps_rec) (fst (lvs ! i)) (last data) (fst (snd (lvs ! i))) (snd (snd (lvs ! i)))"
    "hd (level_keys (lvs ! i)) = hd data" "keys_ok (last data) (level_keys (lvs ! i))" if "i < length lvs" for i
    using inv that by (auto simp: levels_ok_def)
  have lv0: "fst (lvs ! 0) = data" using f(1,5) by (simp add: hd_conv_nth)
  have off0: "offsets ! 0 = 0" unfolding f(3) by (simp add: level_start_def nth_append del: upt_Suc)
  have "\<exists>pos lo hi. pgm_search_pos eps eps_rec ix key = Inr (pos, lo, hi) \<and>
       lo \<le> count_less data key \<and> count_less data key \<le> hi \<and> hi \<le> length data \<and> hi \<le> lo + 2 * eps + 2" if key: "key < FLT_MAX" for key
  proof -
    define k where "k = max (hd data) key"
    have hd_lt: "hd data < FLT_MAX" using pgm_data_keys[OF d] dat(3) by (simp add: keys_ok_def)
    have k: "hd data \<le> k" "k < FLT_MAX" using key hd_lt by (simp_all add: k_def)
    have cnt: "count_less data k = count_less data key"
    proof (cases "hd data \<le> key")
      case False
      then have "count_less data key = 0" "count_less data (hd data) = 0" using dat(1) by (cases data; simp add: count_less_def)+
      then show ?thesis using False by (simp add: k_def)
    qed (simp add: k_def)
    have top: "responsible (fst (snd (lvs ! h))) (snd (snd (lvs ! h))) k 0"
    proof -
      have N: "snd (snd (lvs ! h)) = 1" "length (fst (snd (lvs ! h))) = 2" using lev(1)[OF h(1)] n f(4) h(2) by (auto simp: pgm_level_ok_def)
      have "seg_key (fst (snd (lvs ! h)) ! 0) = hd data"
        using lev(2)[OF h(1)] N by (cases "fst (snd (lvs ! h))") (auto simp: level_keys_def)
      then show ?thesis using k(1) N(1) by (simp add: responsible_def)
    qed
    from descend_levels_ok[OF inv k h(1) top] obtain t0 where
      t0: "descend_levels eps_rec segments offsets k h (offsets ! h + 0) = Inr t0"
      "responsible (fst (snd (lvs ! 0))) (snd (snd (lvs ! 0))) k t0" unfolding off0 by auto
    have "segment_for_key eps_rec ix k = Inr t0"
      using t0(1) h(3) unfolding segment_for_key_def pgm_height_def ix_def f(3) by (simp add: h_def)
    let ?L = "fst (snd (lvs ! 0))" and ?N = "snd (snd (lvs ! 0))"
    have l0: "0 < length lvs" using f(1) by simp
    have len0: "length ?L = Suc ?N" using lev(1)[OF l0] by (simp add: pgm_level_ok_def)
    have t: "t0 < ?N" using t0(2) by (simp add: responsible_def)
    have "capped_pos segments t0 k = capped_pos ?L t0 k"
      using level_segments(1)[OF l0, of t0] level_segments(1)[OF l0, of "Suc t0"] t len0 f(2)
      by (simp add: capped_pos_def level_start_def)
    moreover define pos where "pos = capped_pos ?L t0 k"
    ultimately have search: "pgm_search_pos eps eps_rec ix key = Inr (pos, PGM_SUB_EPS pos eps, PGM_ADD_EPS pos eps (length data))"
      using \<open>segment_for_key eps_rec ix k = Inr t0\<close> by (simp add: pgm_search_pos_def ix_def k_def[symmetric] Let_def)
    have "pos \<le> count_less data k + eps \<and> count_less data k \<le> pos + eps + 2"
      using lev(1)[OF l0] t0(2) k(1) dat(2) unfolding pgm_level_ok_def lv0 pos_def by auto
    then show ?thesis
      using search count_bounds(1)[of data k] unfolding cnt
      by (auto simp: PGM_SUB_EPS_def PGM_ADD_EPS_def)
  qed
  then show ?thesis using made by blast
qed

end
