(* ===== verification/Shg.thy ===== *)
theory Shg
  imports IndexHnsw
begin

text \<open>
  The data of \<open>IndexSHG\<close> (\<open>faiss/IndexSHG.h\<close>, \<open>faiss/IndexSHG.cpp\<close>): the learned shortcut, the statistics,
  the distance cache, the parameters of the compression hierarchy, the compressed vectors and the
  distances on a level. The search of the PGM index is an argument of the functions here: a function of the
  keys that it was fitted on and of the sought key, which gives a window of positions. The PGM index itself is
  in \<open>Pgm\<close>, and \<open>ShgShortcut\<close> puts the two together.
\<close>

section \<open>ShortcutMap\<close>

type_synonym pgm_search = "float_t list \<Rightarrow> float_t \<Rightarrow> nat \<times> nat"

text \<open>\<open>sm_pgm\<close> is the list of the keys that the model was fitted on, empty for \<open>pgm_index_t()\<close>.\<close>

record shortcut_map =
  sm_keys :: "float_t list"
  sm_values :: "int list"
  sm_pgm :: "float_t list"
  sm_trained :: bool

definition ShortcutMap :: shortcut_map where
  "ShortcutMap = \<lparr> sm_keys = [], sm_values = [], sm_pgm = [], sm_trained = False \<rparr>"

definition insert_or_assign :: "float_t \<Rightarrow> int \<Rightarrow> shortcut_map \<Rightarrow> shortcut_map" where
  "insert_or_assign dis skip m =
     m\<lparr> sm_keys := sm_keys m @ [dis], sm_values := sm_values m @ [skip], sm_trained := False \<rparr>"

definition build_model :: "shortcut_map \<Rightarrow> shortcut_map" where
  "build_model m = m\<lparr> sm_pgm := sm_keys m, sm_trained := sm_keys m \<noteq> [] \<rparr>"

definition finalize_step :: "float_t list \<Rightarrow> int list \<Rightarrow> nat \<Rightarrow> float_t list \<times> int list \<Rightarrow> float_t list \<times> int list" where
  "finalize_step keys values i s =
     (let (sorted_keys, sorted_values) = s; k = keys ! i; v = values ! i
      in if sorted_keys \<noteq> [] \<and> last sorted_keys = k
         then (sorted_keys, sorted_values[length sorted_values - 1 := v])
         else (sorted_keys @ [k], sorted_values @ [v]))"

definition finalize :: "shortcut_map \<Rightarrow> shortcut_map" where
  "finalize m =
     build_model
       (if length (sm_keys m) > 0
        then let (ks, vs) = fold (finalize_step (sm_keys m) (sm_values m)) (sorted_order (sm_keys m)) ([], [])
             in m\<lparr> sm_keys := ks, sm_values := vs \<rparr>
        else m)"

text \<open>\<open>std::lower_bound\<close> on the part \<open>lo..hi-1\<close> of an ascending list.\<close>

definition lower_bound_pos :: "float_t list \<Rightarrow> nat \<Rightarrow> nat \<Rightarrow> float_t \<Rightarrow> nat" where
  "lower_bound_pos xs lo hi x = lo + length (takeWhile (\<lambda>k. k < x) (slice lo (hi - lo) xs))"

definition predict :: "pgm_search \<Rightarrow> shortcut_map \<Rightarrow> float_t \<Rightarrow> int" where
  "predict pgm m dis =
     (if \<not> sm_trained m then 1
      else let (lo, range_hi) = pgm (sm_pgm m) dis;
               hi = min range_hi (length (sm_keys m));
               pos = lower_bound_pos (sm_keys m) lo hi dis
           in if pos \<ge> length (sm_keys m) then 1 else sm_values m ! pos)"

definition shortcut_clear :: "shortcut_map \<Rightarrow> shortcut_map" where
  "shortcut_clear m = m\<lparr> sm_keys := [], sm_values := [], sm_pgm := [], sm_trained := False \<rparr>"

section \<open>Statistics and the distance cache\<close>

record shg_stats =
  n_dis_full :: nat
  n_dis_compressed :: nat
  compressed_floats :: nat
  n_lb_pruned :: nat
  n_queries :: nat

definition SHGStats :: shg_stats where
  "SHGStats = \<lparr> n_dis_full = 0, n_dis_compressed = 0, compressed_floats = 0, n_lb_pruned = 0, n_queries = 0 \<rparr>"

definition shg_stats_reset :: "shg_stats \<Rightarrow> shg_stats" where
  "shg_stats_reset s =
     s\<lparr> n_dis_full := 0, n_dis_compressed := 0, compressed_floats := 0, n_lb_pruned := 0, n_queries := 0 \<rparr>"

definition shg_stats_combine :: "shg_stats \<Rightarrow> shg_stats \<Rightarrow> shg_stats" where
  "shg_stats_combine s o' =
     s\<lparr> n_dis_full := n_dis_full s + n_dis_full o', n_dis_compressed := n_dis_compressed s + n_dis_compressed o',
        compressed_floats := compressed_floats s + compressed_floats o', n_lb_pruned := n_lb_pruned s + n_lb_pruned o',
        n_queries := n_queries s + n_queries o' \<rparr>"

text \<open>A distance on \<open>cdim\<close> compressed coordinates for each of \<open>m\<close> vertices.\<close>

definition count_compressed :: "nat \<Rightarrow> nat \<Rightarrow> shg_stats \<Rightarrow> shg_stats" where
  "count_compressed m cdim s =
     s\<lparr> n_dis_compressed := n_dis_compressed s + m, compressed_floats := compressed_floats s + m * cdim \<rparr>"

record dis_cache =
  dc_values :: "float_t list"
  dc_stamps :: "32 word list"
  dc_cur_stamp :: "32 word"

definition DisCache :: dis_cache where
  "DisCache = \<lparr> dc_values = [], dc_stamps = [], dc_cur_stamp = 0 \<rparr>"

definition dc_resize :: "nat \<Rightarrow> dis_cache \<Rightarrow> dis_cache" where
  "dc_resize n c = c\<lparr> dc_values := resize n 0 (dc_values c), dc_stamps := resize n 0 (dc_stamps c) \<rparr>"

definition dc_new_query :: "dis_cache \<Rightarrow> dis_cache" where
  "dc_new_query c =
     (let stamp = dc_cur_stamp c + 1
      in if stamp = 0 then c\<lparr> dc_stamps := replicate (length (dc_stamps c)) 0, dc_cur_stamp := 1 \<rparr>
         else c\<lparr> dc_cur_stamp := stamp \<rparr>)"

definition dc_get :: "dis_cache \<Rightarrow> nat \<Rightarrow> float_t" where
  "dc_get c idx = (if dc_stamps c ! idx = dc_cur_stamp c then dc_values c ! idx else -1)"

definition dc_set :: "nat \<Rightarrow> float_t \<Rightarrow> dis_cache \<Rightarrow> dis_cache" where
  "dc_set idx val c =
     c\<lparr> dc_values := (dc_values c)[idx := val], dc_stamps := (dc_stamps c)[idx := dc_cur_stamp c] \<rparr>"

section \<open>The index\<close>

record shg =
  sg_base :: index_hnsw
  sg_eta :: nat
  sg_maxFixLevel :: nat
  sg_compressed_vecs :: "float_t list"
  sg_data_rep_size :: nat
  sg_dim_at_level :: "nat list"
  sg_offset_at_level :: "nat list"
  sg_shortcut :: shortcut_map

text \<open>\<open>(int)std::ceil((float)dim / (float)eta)\<close>; exact for the dimensions that \<open>float\<close> represents.\<close>

definition ceil_div :: "nat \<Rightarrow> nat \<Rightarrow> nat" where
  "ceil_div a b = nat \<lceil>(of_nat a :: rat) / of_nat b\<rceil>"

text \<open>The loop over the dimensions may not end (\<open>eta\<close> is 1); its state is (maxFixLevel, data_rep_size, dim).\<close>

definition fix_level_step :: "nat \<Rightarrow> nat \<times> nat \<times> nat \<Rightarrow> nat \<times> nat + nat \<times> nat \<times> nat" where
  "fix_level_step eta s =
     (let (mfl, rep, dim) = s
      in if dim div eta \<ge> eta then let dim' = ceil_div dim eta in Inr (mfl + 1, rep + dim', dim') else Inl (mfl, rep))"

definition dim_table :: "nat \<Rightarrow> nat \<Rightarrow> nat \<Rightarrow> nat list \<Rightarrow> nat list" where
  "dim_table eta d mfl tab =
     fst (fold (\<lambda>l (tab, cur). let cur' = ceil_div cur eta in (tab[l := cur'], cur')) [1..<mfl + 1]
            ((resize (mfl + 1) 0 tab)[0 := d], d))"

definition offset_table :: "nat list \<Rightarrow> nat \<Rightarrow> nat list \<Rightarrow> nat list" where
  "offset_table dims mfl tab =
     fst (fold (\<lambda>l (tab, ofs). (tab[l := ofs], ofs + dims ! l)) [1..<mfl + 1] (resize (mfl + 1) 0 tab, 0))"

definition compute_compression_params :: "shg \<Rightarrow> shg option" where
  "compute_compression_params sg =
     map_option
       (\<lambda>(mfl, rep).
          let dims = dim_table (sg_eta sg) (ih_d (sg_base sg)) mfl (sg_dim_at_level sg)
          in sg\<lparr> sg_maxFixLevel := mfl, sg_data_rep_size := rep, sg_dim_at_level := dims,
                 sg_offset_at_level := offset_table dims mfl (sg_offset_at_level sg) \<rparr>)
       (run_loop (fix_level_step (sg_eta sg)) (0, 0, ih_d (sg_base sg)))"

definition IndexSHG :: "(nat \<Rightarrow> float_t) \<Rightarrow> nat \<Rightarrow> nat \<Rightarrow> metric \<Rightarrow> shg option" where
  "IndexSHG proba d M m =
     Option.bind (IndexHNSWFlat proba d M m) (\<lambda>ix.
       let sg = \<lparr> sg_base = ix, sg_eta = 2, sg_maxFixLevel = 0, sg_compressed_vecs = [], sg_data_rep_size = 0,
                  sg_dim_at_level = [], sg_offset_at_level = [], sg_shortcut = ShortcutMap \<rparr>
       in if d > 0 then compute_compression_params sg else Some sg)"

definition get_dim_at_level :: "shg \<Rightarrow> int \<Rightarrow> nat" where
  "get_dim_at_level sg l =
     (if l \<le> 0 then ih_d (sg_base sg)
      else if l \<le> int (sg_maxFixLevel sg) then sg_dim_at_level sg ! nat l
      else fold (\<lambda>i cur. ceil_div cur (sg_eta sg)) [sg_maxFixLevel sg + 1..<nat l + 1] (sg_dim_at_level sg ! sg_maxFixLevel sg))"

section \<open>Compression\<close>

text \<open>The indices \<open>0, eta, 2 eta, ...\<close> below \<open>n\<close>, and the mean of the coordinates \<open>j..e-1\<close>.\<close>

definition strides :: "nat \<Rightarrow> nat \<Rightarrow> nat list" where
  "strides eta n = filter (\<lambda>j. eta dvd j) [0..<n]"

definition mean_of :: "nat \<Rightarrow> nat \<Rightarrow> float_t list \<Rightarrow> float_t" where
  "mean_of j e xs = sum_list (slice j (e - j) xs) / of_nat (e - j)"

definition compress_pass :: "nat \<Rightarrow> float_t list \<times> nat \<Rightarrow> float_t list \<times> nat" where
  "compress_pass eta s =
     (let (buf, cur_d) = s; new_d = ceil_div cur_d eta;
          tmp = fold (\<lambda>j tmp. let e = min (j + eta) cur_d in tmp[j div eta := mean_of j e buf])
                  (strides eta cur_d) (replicate new_d 0)
      in (tmp, new_d))"

definition compress_vector :: "float_t list \<Rightarrow> nat \<Rightarrow> nat \<Rightarrow> nat \<Rightarrow> float_t list" where
  "compress_vector vec d l eta =
     (if l = 0 then take d vec else fst (fold (\<lambda>_. compress_pass eta) [0..<l] (take d vec, d)))"

definition compressed_l2sqr :: "float_t list \<Rightarrow> float_t list \<Rightarrow> nat \<Rightarrow> float_t" where
  "compressed_l2sqr a b cdim = fvec_L2sqr (take cdim a) (take cdim b)"

text \<open>\<open>compress_node\<close>: each level is appended to the full vector, computed from the part before it.\<close>

definition node_level :: "shg \<Rightarrow> nat \<Rightarrow> float_t list \<times> nat \<Rightarrow> float_t list \<times> nat" where
  "node_level sg cur_lev s =
     (let (full_rep, pos) = s; prev_size = sg_dim_at_level sg ! (cur_lev - 1); eta = sg_eta sg
      in (fold (\<lambda>i full_rep. full_rep @
                  [if i + eta > prev_size
                   then sum_list (slice (pos + i) (prev_size - i) full_rep) / of_nat (prev_size - i)
                   else sum_list (slice (pos + i) eta full_rep) / of_nat eta])
            (strides eta prev_size) full_rep,
          pos + prev_size))"

definition compress_node :: "flat \<Rightarrow> nat \<Rightarrow> shg \<Rightarrow> shg" where
  "compress_node f node_id sg =
     (let d = ih_d (sg_base sg);
          full_rep = fst (fold (node_level sg) [1..<sg_maxFixLevel sg + 1] (row d node_id (fl_codes f), 0))
      in sg\<lparr> sg_compressed_vecs := blit (node_id * sg_data_rep_size sg) (drop d full_rep) (sg_compressed_vecs sg) \<rparr>)"

definition build_all_compressed :: "flat \<Rightarrow> shg \<Rightarrow> shg" where
  "build_all_compressed f sg =
     fold (compress_node f) [0..<ih_ntotal (sg_base sg)]
       (sg\<lparr> sg_compressed_vecs := resize (ih_ntotal (sg_base sg) * sg_data_rep_size sg) 0 (sg_compressed_vecs sg) \<rparr>)"

text \<open>\<open>build_compressed_query_rep\<close>, and the same loop in \<open>SHGDistanceComputer::set_query\<close>; \<open>query_rep\<close> is
  the buffer that is overwritten.\<close>

definition query_level :: "shg \<Rightarrow> nat \<Rightarrow> float_t list \<times> nat \<Rightarrow> float_t list \<times> nat" where
  "query_level sg lev s =
     (let (full_rep, pos) = s; prev_dim = sg_dim_at_level sg ! (lev - 1)
      in (fold (\<lambda>j full_rep. let e = min (j + sg_eta sg) prev_dim
                 in full_rep @ [sum_list (slice (pos + j) (e - j) full_rep) / of_nat (e - j)])
            (strides (sg_eta sg) prev_dim) full_rep,
          pos + prev_dim))"

definition build_compressed_query_rep :: "shg \<Rightarrow> float_t list \<Rightarrow> float_t list \<Rightarrow> float_t list" where
  "build_compressed_query_rep sg query query_rep =
     (let d = ih_d (sg_base sg);
          full_rep = fst (fold (query_level sg) [1..<sg_maxFixLevel sg + 1] (take d query, 0))
      in blit 0 (drop d full_rep) query_rep)"

definition dc_set_query :: "shg \<Rightarrow> float_t list \<Rightarrow> float_t list \<Rightarrow> float_t list" where
  "dc_set_query sg x query_rep =
     (if sg_maxFixLevel sg = 0 then query_rep else build_compressed_query_rep sg x query_rep)"

section \<open>Distances on a level\<close>

text \<open>Pointers into \<open>compressed_vecs\<close>; \<open>None\<close> is \<open>nullptr\<close>.\<close>

definition get_compressed_data :: "shg \<Rightarrow> nat \<Rightarrow> nat \<Rightarrow> nat option" where
  "get_compressed_data sg node_id comp_level =
     (if comp_level = 0 then None
      else Some (node_id * sg_data_rep_size sg + sg_offset_at_level sg ! min comp_level (sg_maxFixLevel sg)))"

definition read_floats :: "shg \<Rightarrow> nat option \<Rightarrow> nat \<Rightarrow> float_t list result" where
  "read_floats sg p cdim =
     (case p of None \<Rightarrow> Inl OutOfBounds | Some ofs \<Rightarrow> Inr (slice ofs cdim (sg_compressed_vecs sg)))"

text \<open>\<open>compressed_dis_at_level\<close> on what the pointers give.\<close>

definition compressed_dis_at_level :: "shg \<Rightarrow> (nat \<Rightarrow> float_t list result) \<Rightarrow> (nat \<Rightarrow> float_t list result) \<Rightarrow> nat \<Rightarrow> float_t result" where
  "compressed_dis_at_level sg a_data b_data hnsw_level =
     (let dim = sg_dim_at_level sg ! min hnsw_level (sg_maxFixLevel sg)
      in bind_result (a_data dim) (\<lambda>a. bind_result (b_data dim) (\<lambda>b. Inr (compressed_l2sqr a b dim))))"

definition get_dis_by_level :: "shg \<Rightarrow> flat \<Rightarrow> nat \<Rightarrow> nat \<Rightarrow> nat \<Rightarrow> float_t result" where
  "get_dis_by_level sg f id1 id2 hnsw_level =
     (if hnsw_level = 0
      then let d = ih_d (sg_base sg) in Inr (fvec_L2sqr (row d id1 (fl_codes f)) (row d id2 (fl_codes f)))
      else let cl = min hnsw_level (sg_maxFixLevel sg)
           in compressed_dis_at_level sg (read_floats sg (get_compressed_data sg id1 cl))
                (read_floats sg (get_compressed_data sg id2 cl)) hnsw_level)"

definition get_dis_by_level_q :: "shg \<Rightarrow> float_t list \<Rightarrow> nat \<Rightarrow> nat \<Rightarrow> float_t result" where
  "get_dis_by_level_q sg query_rep node_id hnsw_level =
     throw_unless (hnsw_level > 0) ''get_dis_by_level_q: level 0 requires full query vector, use DistanceComputer instead''
       (let cl = min hnsw_level (sg_maxFixLevel sg)
        in compressed_dis_at_level sg (\<lambda>dim. Inr (slice (sg_offset_at_level sg ! cl) dim query_rep))
             (read_floats sg (get_compressed_data sg node_id cl)) hnsw_level)"

text \<open>The inline distance of the navigation: \<open>fvec_L2sqr\<close> of the query and a vertex on level \<open>cl\<close> of the
  compression. The callers have \<open>cl > 0\<close>.\<close>

definition inline_dis :: "shg \<Rightarrow> float_t list \<Rightarrow> nat \<Rightarrow> nat \<Rightarrow> float_t" where
  "inline_dis sg query_rep cl v =
     (let cdim = sg_dim_at_level sg ! cl
      in case get_compressed_data sg v cl of
           None \<Rightarrow> 0
         | Some ofs \<Rightarrow> fvec_L2sqr (slice (sg_offset_at_level sg ! cl) cdim query_rep) (slice ofs cdim (sg_compressed_vecs sg)))"

text \<open>\<open>SHGDistanceComputer\<close>: \<open>operator()\<close>, the four distances of \<open>distances_batch_4\<close> and
  \<open>symmetric_dis\<close>, on the level \<open>current_level\<close>. The distances of level 0 are those of the storage, which
  are not negated for a similarity.\<close>

definition sdc_dis :: "shg \<Rightarrow> flat \<Rightarrow> float_t list \<Rightarrow> float_t list \<Rightarrow> nat \<Rightarrow> nat \<Rightarrow> float_t result" where
  "sdc_dis sg f x query_rep current_level i =
     (if current_level = 0 \<or> sg_maxFixLevel sg = 0 then Inr (flat_dis f x i)
      else get_dis_by_level_q sg query_rep i current_level)"

definition sdc_batch_4 :: "shg \<Rightarrow> flat \<Rightarrow> float_t list \<Rightarrow> float_t list \<Rightarrow> nat \<Rightarrow> nat list \<Rightarrow> float_t list" where
  "sdc_batch_4 sg f x query_rep current_level is' =
     (if current_level = 0 \<or> sg_maxFixLevel sg = 0 then map (flat_dis f x) is'
      else map (inline_dis sg query_rep (min current_level (sg_maxFixLevel sg))) is')"

definition sdc_symmetric_dis :: "shg \<Rightarrow> flat \<Rightarrow> nat \<Rightarrow> nat \<Rightarrow> nat \<Rightarrow> float_t result" where
  "sdc_symmetric_dis sg f current_level i j =
     (if current_level = 0 \<or> sg_maxFixLevel sg = 0 then Inr (flat_symmetric_dis f i j)
      else get_dis_by_level sg f i j current_level)"

end
