(* ===== verification/ShgOk.thy ===== *)
theory ShgOk
  imports Shg
begin

text \<open>
  Correctness of the data of \<open>IndexSHG\<close>: the parameters of the compression, the
  compressed vectors of nodes and queries against \<open>compress_vector\<close>, and the distances read from them.
\<close>

section \<open>Means of blocks\<close>

lemma ceil_div_eq: "0 < b \<Longrightarrow> ceil_div a b = (a + b - 1) div b"
proof -
  assume b: "0 < b"
  define q where "q = (a + b - 1) div b"
  have m: "q * b + (a + b - 1) mod b = a + b - 1" "(a + b - 1) mod b < b"
    using b by (simp_all add: q_def)
  have le: "a \<le> q * b" using m by linarith
  have lt: "q * b < a + b" using m b by linarith
  have 1: "(of_nat a :: rat) \<le> of_nat q * of_nat b" using le unfolding of_nat_mult[symmetric] of_nat_le_iff .
  have "(of_nat q :: rat) * of_nat b < of_nat a + of_nat b"
    using lt unfolding of_nat_mult[symmetric] of_nat_add[symmetric] of_nat_less_iff .
  then have 2: "((of_nat q :: rat) - 1) * of_nat b < of_nat a" by (simp add: algebra_simps)
  have "(0 :: rat) < of_nat b" using b by simp
  then have "\<lceil>(of_nat a :: rat) / of_nat b\<rceil> = int q"
    using 1 2 by (intro ceiling_unique) (simp_all add: pos_divide_le_eq pos_less_divide_eq)
  then show ?thesis by (simp add: ceil_div_def q_def)
qed

lemma ceil_div_Suc: "0 < b \<Longrightarrow> ceil_div (Suc a) b = ceil_div a b + (if b dvd a then 1 else 0)"
proof -
  assume b: "0 < b"
  have "Suc (a + b - 1) = a + b" using b by simp
  moreover have "(a + b) mod b = 0 \<longleftrightarrow> b dvd a" by (simp add: dvd_eq_mod_eq_0)
  ultimately have "(a + b) div b = (a + b - 1) div b + (if b dvd a then 1 else 0)"
    using div_Suc[of "a + b - 1" b] by simp
  then show ?thesis using b by (simp add: ceil_div_eq)
qed

lemma ceil_div_0 [simp]: "ceil_div 0 b = 0"
  by (simp add: ceil_div_def)

lemma ceil_div_exact: "0 < b \<Longrightarrow> ceil_div (k * b) b = k"
  by (simp add: ceil_div_def)

lemma ceil_div_dvd: "0 < b \<Longrightarrow> b dvd a \<Longrightarrow> a = b * ceil_div a b"
  by (auto simp: dvd_def ceil_div_def)

lemma strides_eq: "0 < eta \<Longrightarrow> strides eta n = map (\<lambda>i. i * eta) [0..<ceil_div n eta]"
proof (induction n)
  case (Suc n)
  show ?case
  proof (cases "eta dvd n")
    case True
    then have "ceil_div n eta * eta = n" using ceil_div_dvd[OF Suc.prems True] by (simp add: mult.commute)
    then show ?thesis using Suc True by (simp add: strides_def ceil_div_Suc)
  qed (use Suc in \<open>simp add: strides_def ceil_div_Suc\<close>)
qed (simp add: strides_def)

lemma strides_below: "j \<in> set (strides eta n) \<Longrightarrow> j < n"
  by (simp add: strides_def)

text \<open>One step of the compression.\<close>

definition means :: "nat \<Rightarrow> float_t list \<Rightarrow> float_t list" where
  "means eta xs = map (\<lambda>j. mean_of j (min (j + eta) (length xs)) xs) (strides eta (length xs))"

lemma length_means [simp]: "0 < eta \<Longrightarrow> length (means eta xs) = ceil_div (length xs) eta"
  by (simp add: means_def strides_eq)

definition levels :: "nat \<Rightarrow> float_t list \<Rightarrow> nat \<Rightarrow> float_t list" where
  "levels eta v l = (means eta ^^ l) v"

lemma levels_simps [simp]: "levels eta v 0 = v" "levels eta v (Suc l) = means eta (levels eta v l)"
  by (simp_all add: levels_def)

definition dims :: "nat \<Rightarrow> nat \<Rightarrow> nat \<Rightarrow> nat" where
  "dims eta d l = ((\<lambda>c. ceil_div c eta) ^^ l) d"

lemma dims_simps [simp]: "dims eta d 0 = d" "dims eta d (Suc l) = ceil_div (dims eta d l) eta"
  by (simp_all add: dims_def)

lemma length_levels [simp]: "0 < eta \<Longrightarrow> length (levels eta v l) = dims eta (length v) l"
  by (induction l) simp_all

lemma fold_set_upt:
  assumes "length t = m"
  shows "fold (\<lambda>i t. t[i := g i]) [0..<m] t = map g [0..<m]"
proof -
  have "fold (\<lambda>i t. t[i := g i]) [0..<k] t = map g [0..<k] @ drop k t" if "k \<le> m" for k
    using that
  proof (induction k)
    case (Suc k)
    then have "drop k t = t ! k # drop (Suc k) t" using assms by (intro Cons_nth_drop_Suc[symmetric]) simp
    then show ?case using Suc by (simp add: list_update_append)
  qed simp
  from this[OF order_refl] assms show ?thesis by simp
qed

lemma compress_pass_eq:
  assumes "0 < eta"
  shows "compress_pass eta (buf, length buf) = (means eta buf, length (means eta buf))"
proof -
  let ?m = "ceil_div (length buf) eta" and ?g = "\<lambda>i. mean_of (i * eta) (min (i * eta + eta) (length buf)) buf"
  have "fold (\<lambda>j tmp. let e = min (j + eta) (length buf) in tmp[j div eta := mean_of j e buf])
      (strides eta (length buf)) (replicate ?m 0)
    = fold (\<lambda>i t. t[i := ?g i]) [0..<?m] (replicate ?m 0)"
    using assms by (simp add: strides_eq fold_map comp_def Let_def)
  also have "\<dots> = means eta buf"
    using assms by (subst fold_set_upt) (simp_all add: means_def strides_eq comp_def)
  finally show ?thesis using assms by (simp add: compress_pass_def Let_def)
qed

lemma compress_vector_levels:
  assumes "0 < eta" "d \<le> length v"
  shows "compress_vector v d l eta = levels eta (take d v) l"
proof -
  have "fold (\<lambda>_. compress_pass eta) [0..<m] (xs, length xs) = (levels eta xs m, length (levels eta xs m))" for m xs
    by (induction m) (simp_all add: compress_pass_eq[OF assms(1)] del: length_levels length_means)
  from this[of l "take d v"] show ?thesis using assms(2) by (simp add: compress_vector_def)
qed

section \<open>The compressed representation of a vector\<close>

lemma fold_append_map:
  assumes "\<And>i ys. i \<in> set js \<Longrightarrow> g i (full @ ys) = g i full"
  shows "fold (\<lambda>i full. full @ [g i full]) js full = full @ map (\<lambda>i. g i full) js"
proof -
  have "fold (\<lambda>i full. full @ [g i full]) js (full @ ys) = full @ ys @ map (\<lambda>i. g i full) js"
    if "\<forall>i \<in> set js. \<forall>ys. g i (full @ ys) = g i full" for js ys
    using that by (induction js arbitrary: ys) simp_all
  from this[of js "[]"] assms show ?thesis by simp
qed

lemma slice_mid: "i + n \<le> length xs \<Longrightarrow> slice (length pre + i) n (pre @ xs @ ys) = slice i n xs"
  by (simp add: slice_def)

lemma node_level_eq:
  assumes "sg_dim_at_level sg ! (cl - 1) = length xs" "0 < sg_eta sg"
  shows "node_level sg cl (pre @ xs, length pre) = (pre @ xs @ means (sg_eta sg) xs, length pre + length xs)"
    and "query_level sg cl (pre @ xs, length pre) = (pre @ xs @ means (sg_eta sg) xs, length pre + length xs)"
proof -
  let ?eta = "sg_eta sg" and ?n = "length xs"
  let ?g = "\<lambda>i full. if i + ?eta > ?n then sum_list (slice (length pre + i) (?n - i) full) / of_nat (?n - i)
      else sum_list (slice (length pre + i) ?eta full) / of_nat ?eta"
  let ?q = "\<lambda>j full. sum_list (slice (length pre + j) (min (j + ?eta) ?n - j) full) / of_nat (min (j + ?eta) ?n - j)"
  have g: "?g i ((pre @ xs) @ ys) = mean_of i (min (i + ?eta) ?n) xs"
    and q: "?q i ((pre @ xs) @ ys) = mean_of i (min (i + ?eta) ?n) xs" if "i \<in> set (strides ?eta ?n)" for i ys
    using strides_below[OF that] by (auto simp: mean_of_def slice_mid min_def)
  have g0: "?g i (pre @ xs) = mean_of i (min (i + ?eta) ?n) xs" and q0: "?q i (pre @ xs) = mean_of i (min (i + ?eta) ?n) xs"
    if "i \<in> set (strides ?eta ?n)" for i
    using g[OF that, of "[]"] q[OF that, of "[]"] unfolding append_Nil2 .
  have "fold (\<lambda>i full. full @ [?g i full]) (strides ?eta ?n) (pre @ xs) = (pre @ xs) @ map (\<lambda>i. ?g i (pre @ xs)) (strides ?eta ?n)"
    by (rule fold_append_map) (simp only: g g0)
  also have "map (\<lambda>i. ?g i (pre @ xs)) (strides ?eta ?n) = means ?eta xs"
    unfolding means_def by (rule map_cong[OF refl g0])
  finally show "node_level sg cl (pre @ xs, length pre) = (pre @ xs @ means (sg_eta sg) xs, length pre + length xs)"
    using assms(1) by (simp add: node_level_def Let_def)
  have "fold (\<lambda>i full. full @ [?q i full]) (strides ?eta ?n) (pre @ xs) = (pre @ xs) @ map (\<lambda>i. ?q i (pre @ xs)) (strides ?eta ?n)"
    by (rule fold_append_map) (simp only: q q0)
  also have "map (\<lambda>i. ?q i (pre @ xs)) (strides ?eta ?n) = means ?eta xs"
    unfolding means_def by (rule map_cong[OF refl q0])
  finally show "query_level sg cl (pre @ xs, length pre) = (pre @ xs @ means (sg_eta sg) xs, length pre + length xs)"
    using assms(1) by (simp add: query_level_def Let_def)
qed

text \<open>The fields that \<open>compute_compression_params\<close> sets.\<close>

definition params_ok :: "shg \<Rightarrow> bool" where
  "params_ok sg \<longleftrightarrow> 0 < sg_eta sg \<and>
     sg_dim_at_level sg = map (dims (sg_eta sg) (ih_d (sg_base sg))) [0..<sg_maxFixLevel sg + 1] \<and>
     (\<forall>l. 1 \<le> l \<and> l \<le> sg_maxFixLevel sg \<longrightarrow>
       sg_offset_at_level sg ! l = (\<Sum>i \<leftarrow> [1..<l]. dims (sg_eta sg) (ih_d (sg_base sg)) i)) \<and>
     sg_data_rep_size sg = (\<Sum>i \<leftarrow> [1..<sg_maxFixLevel sg + 1]. dims (sg_eta sg) (ih_d (sg_base sg)) i)"

definition rep_of :: "nat \<Rightarrow> float_t list \<Rightarrow> nat \<Rightarrow> float_t list" where
  "rep_of eta v mfl = concat (map (levels eta v) [1..<mfl + 1])"

lemma full_rep_eq:
  assumes "params_ok sg" "length v = ih_d (sg_base sg)" "m \<le> sg_maxFixLevel sg"
  shows "fst (fold (node_level sg) [1..<m + 1] (v, 0)) = v @ rep_of (sg_eta sg) v m"
    and "fst (fold (query_level sg) [1..<m + 1] (v, 0)) = v @ rep_of (sg_eta sg) v m"
proof -
  let ?eta = "sg_eta sg"
  have eta: "0 < ?eta" using assms(1) by (simp add: params_ok_def)
  have dm: "sg_dim_at_level sg ! l = length (levels ?eta v l)" if "l \<le> sg_maxFixLevel sg" for l
    using assms(1,2) that eta by (simp add: params_ok_def del: upt_Suc)
  have "\<exists>pre. v @ rep_of ?eta v m = pre @ levels ?eta v m \<and>
      fold (node_level sg) [1..<m + 1] (v, 0) = (pre @ levels ?eta v m, length pre) \<and>
      fold (query_level sg) [1..<m + 1] (v, 0) = (pre @ levels ?eta v m, length pre)"
    using assms(3)
  proof (induction m)
    case (Suc m)
    then obtain pre where IH: "v @ rep_of ?eta v m = pre @ levels ?eta v m"
      "fold (node_level sg) [1..<m + 1] (v, 0) = (pre @ levels ?eta v m, length pre)"
      "fold (query_level sg) [1..<m + 1] (v, 0) = (pre @ levels ?eta v m, length pre)" by auto
    have d: "sg_dim_at_level sg ! (Suc m - 1) = length (levels ?eta v m)" using dm[of m] Suc.prems by simp
    show ?case
      using IH node_level_eq[OF d eta, of pre]
      by (intro exI[of _ "pre @ levels ?eta v m"]) (simp add: rep_of_def del: length_levels)
  qed (simp add: rep_of_def)
  then show "fst (fold (node_level sg) [1..<m + 1] (v, 0)) = v @ rep_of ?eta v m"
    and "fst (fold (query_level sg) [1..<m + 1] (v, 0)) = v @ rep_of ?eta v m" by auto
qed

lemma length_rep_of: "0 < eta \<Longrightarrow> length (rep_of eta v m) = (\<Sum>i \<leftarrow> [1..<m + 1]. dims eta (length v) i)"
  by (simp add: rep_of_def length_concat comp_def)

lemma slice_rep_of:
  assumes "0 < eta" "1 \<le> l" "l \<le> m"
  shows "slice (\<Sum>i \<leftarrow> [1..<l]. dims eta (length v) i) (dims eta (length v) l) (rep_of eta v m) = levels eta v l"
proof -
  have "[1..<m + 1] = [1..<l] @ l # [l + 1..<m + 1]" using assms(2,3) upt_add_eq_append[of 1 l "m + 1 - l"] by (simp add: upt_conv_Cons)
  then have "rep_of eta v m = concat (map (levels eta v) [1..<l]) @ levels eta v l @ concat (map (levels eta v) [l + 1..<m + 1])"
    by (simp add: rep_of_def)
  moreover have "length (concat (map (levels eta v) [1..<l])) = (\<Sum>i \<leftarrow> [1..<l]. dims eta (length v) i)"
    using assms(1) by (simp add: length_concat comp_def)
  ultimately show ?thesis using slice_mid[of 0 "dims eta (length v) l" "levels eta v l"] assms(1) by (simp add: slice_def)
qed

section \<open>The parameters\<close>

lemma ceil_div_less: "2 \<le> b \<Longrightarrow> 2 \<le> a \<Longrightarrow> ceil_div a b < a"
proof -
  assume b: "2 \<le> b" "2 \<le> a"
  obtain c where c: "b = Suc (Suc c)" using b(1) by (metis add_2_eq_Suc le_Suc_ex)
  have "Suc c < a + a * c" using b(2) mult_le_mono1[of 1 a c] by linarith
  then have "a + b - 1 < a * b" using b(2) by (simp add: c)
  then show ?thesis using b(1) by (simp add: ceil_div_eq less_mult_imp_div_less)
qed

text \<open>Where the hierarchy ends: the first level whose dimension is below \<open>eta * eta\<close>.\<close>

definition last_level :: "nat \<Rightarrow> nat \<Rightarrow> nat \<Rightarrow> bool" where
  "last_level eta d mfl \<longleftrightarrow> dims eta d mfl div eta < eta \<and> (\<forall>l < mfl. eta \<le> dims eta d l div eta)"

lemma fix_level_ok:
  assumes "2 \<le> eta"
  shows "\<exists>mfl. run_loop (fix_level_step eta) (0, 0, d) = Some (mfl, \<Sum>i \<leftarrow> [1..<mfl + 1]. dims eta d i) \<and> last_level eta d mfl"
proof -
  define I where "I = (\<lambda>(mfl, rep, c). c = dims eta d mfl \<and> rep = (\<Sum>i \<leftarrow> [1..<mfl + 1]. dims eta d i) \<and>
    (\<forall>l < mfl. eta \<le> dims eta d l div eta))"
  have "\<exists>r. run_loop (fix_level_step eta) (0, 0, d) = Some r \<and>
    (case r of (mfl, rep) \<Rightarrow> rep = (\<Sum>i \<leftarrow> [1..<mfl + 1]. dims eta d i) \<and> last_level eta d mfl)"
  proof (rule run_loop_total[where I = I and m = "\<lambda>(mfl, rep, c). c"])
    show "I (0, 0, d)" by (simp add: I_def)
  next
    fix s s' assume I: "I s" and st: "fix_level_step eta s = Inr s'"
    obtain mfl rep c where s: "s = (mfl, rep, c)" by (metis prod_cases3)
    from st have c: "eta \<le> c div eta" and s': "s' = (mfl + 1, rep + ceil_div c eta, ceil_div c eta)"
      by (auto simp: fix_level_step_def s Let_def split: if_splits)
    have "2 \<le> c div eta" using assms c by (rule order_trans)
    then have "2 \<le> c" using div_le_dividend[of c eta] by linarith
    then have "ceil_div c eta < c" by (rule ceil_div_less[OF assms])
    then show "I s' \<and> (case s' of (mfl, rep, c) \<Rightarrow> c) < (case s of (mfl, rep, c) \<Rightarrow> c)"
      using I c by (auto simp: I_def s s' less_Suc_eq)
  next
    fix s r assume "I s" "fix_level_step eta s = Inl r"
    then show "case r of (mfl, rep) \<Rightarrow> rep = (\<Sum>i \<leftarrow> [1..<mfl + 1]. dims eta d i) \<and> last_level eta d mfl"
      by (auto simp: I_def fix_level_step_def last_level_def Let_def split: if_splits)
  qed
  then show ?thesis by auto
qed

text \<open>With \<open>eta\<close> 1 the loop never ends.\<close>

lemma run_loop_diverges:
  fixes step :: "'s \<Rightarrow> 'r + 's"
  assumes "run_loop step s = Some r" "I s" "\<And>s. I s \<Longrightarrow> \<exists>s'. step s = Inr s' \<and> I s'"
  shows False
proof -
  define P where "P = (\<lambda>(step :: 's \<Rightarrow> 'r + 's) s (r :: 'r).
    \<forall>I. I s \<longrightarrow> (\<forall>s. I s \<longrightarrow> (\<exists>s'. step s = Inr s' \<and> I s')) \<longrightarrow> False)"
  have "P step s r"
  proof (rule run_loop.raw_induct[OF _ assms(1), of P])
    fix rl :: "('s \<Rightarrow> 'r + 's) \<Rightarrow> 's \<Rightarrow> 'r option" and st s r
    assume IH: "\<And>st s r. rl st s = Some r \<Longrightarrow> P st s r"
      and r: "(case st s of Inl r \<Rightarrow> Some r | Inr s' \<Rightarrow> rl st s') = Some r"
    show "P st s r"
      unfolding P_def
    proof (intro allI impI)
      fix I assume I: "I s" "\<forall>s. I s \<longrightarrow> (\<exists>s'. st s = Inr s' \<and> I s')"
      then obtain s' where s': "st s = Inr s'" "I s'" by blast
      with r have "rl st s' = Some r" by simp
      from IH[OF this] s'(2) I(2) show False unfolding P_def by blast
    qed
  qed
  with assms(2,3) show False unfolding P_def by blast
qed

lemma fix_level_diverges: "1 \<le> d \<Longrightarrow> run_loop (fix_level_step 1) (a, b, d) = None"
proof (rule ccontr)
  assume d: "1 \<le> d" and "run_loop (fix_level_step 1) (a, b, d) \<noteq> None"
  then obtain r where "run_loop (fix_level_step 1) (a, b, d) = Some r" by blast
  then show False
    by (rule run_loop_diverges[where I = "\<lambda>(a, b, c). 1 \<le> c"]) (use d in \<open>auto simp: fix_level_step_def ceil_div_eq Let_def\<close>)
qed

lemma fold_table:
  assumes "length tab = m + 1"
  shows "fold (\<lambda>l (tab, acc). (tab[l := f l acc], g l acc)) [1..<m + 1] (tab, a)
    = (tab ! 0 # map (\<lambda>l. f l (fold g [1..<l] a)) [1..<m + 1], fold g [1..<m + 1] a)"
proof -
  have "fold (\<lambda>l (tab, acc). (tab[l := f l acc], g l acc)) [1..<k + 1] (tab, a)
    = (tab ! 0 # map (\<lambda>l. f l (fold g [1..<l] a)) [1..<k + 1] @ drop (k + 1) tab, fold g [1..<k + 1] a)" if "k \<le> m" for k
    using that
  proof (induction k)
    case 0
    then show ?case using assms Cons_nth_drop_Suc[of 0 tab] by simp
  next
    case (Suc k)
    then have "drop (k + 1) tab = tab ! (k + 1) # drop (k + 2) tab"
      using assms Cons_nth_drop_Suc[of "k + 1" tab] by simp
    then show ?case using Suc by (simp add: list_update_append)
  qed
  from this[OF order_refl] assms show ?thesis by simp
qed

lemma dims_fold: "fold (\<lambda>i c. ceil_div c eta) [m + 1..<l + 1] (dims eta d m) = dims eta d (max l m)"
proof (induction l)
  case (Suc l)
  show ?case
  proof (cases "m \<le> l")
    case True
    then show ?thesis using Suc by (simp add: max_def)
  qed (simp add: max_def)
qed simp

lemma dim_table_eq: "dim_table eta d mfl tab = map (dims eta d) [0..<mfl + 1]"
proof -
  have l: "length ((resize (mfl + 1) 0 tab)[0 := d]) = mfl + 1" by (simp add: resize_def)
  have f: "fold (\<lambda>l c. ceil_div c eta) [1..<l] d = dims eta d (l - 1)" if "1 \<le> l" for l
    using dims_fold[of eta 0 "l - 1" d] that by simp
  have "dim_table eta d mfl tab = (resize (mfl + 1) 0 tab)[0 := d] ! 0 # map (\<lambda>l. ceil_div (fold (\<lambda>l c. ceil_div c eta) [1..<l] d) eta) [1..<mfl + 1]"
    using fold_table[OF l, of "\<lambda>l c. ceil_div c eta" "\<lambda>l c. ceil_div c eta" d] by (simp add: dim_table_def Let_def)
  also have "\<dots> = d # map (dims eta d) [1..<mfl + 1]"
  proof -
    have "map (\<lambda>l. ceil_div (fold (\<lambda>l c. ceil_div c eta) [1..<l] d) eta) [1..<mfl + 1] = map (dims eta d) [1..<mfl + 1]"
    proof (rule map_cong[OF refl])
      fix l assume "l \<in> set [1..<mfl + 1]"
      then have "1 \<le> l" by (simp del: upt_Suc)
      then show "ceil_div (fold (\<lambda>l c. ceil_div c eta) [1..<l] d) eta = dims eta d l"
        using f[OF \<open>1 \<le> l\<close>] dims_simps(2)[of eta d "l - 1"] by simp
    qed
    then show ?thesis by (simp add: resize_def nth_append)
  qed
  also have "\<dots> = map (dims eta d) [0..<mfl + 1]" by (simp add: upt_conv_Cons del: upt_Suc)
  finally show ?thesis .
qed

lemma offset_table_eq:
  assumes "1 \<le> l" "l \<le> mfl"
  shows "offset_table dm mfl tab ! l = (\<Sum>i \<leftarrow> [1..<l]. dm ! i)"
proof -
  have len: "length (resize (mfl + 1) 0 tab) = mfl + 1" by (simp add: resize_def)
  have f: "fold (\<lambda>l a. a + dm ! l) ls a = a + (\<Sum>i \<leftarrow> ls. dm ! i)" for ls and a :: nat
    by (induction ls arbitrary: a) simp_all
  have "offset_table dm mfl tab = resize (mfl + 1) 0 tab ! 0 # map (\<lambda>l. fold (\<lambda>l a. a + dm ! l) [1..<l] 0) [1..<mfl + 1]"
    using fold_table[OF len, of "\<lambda>l a. a" "\<lambda>l a. a + dm ! l" 0] by (simp add: offset_table_def)
  moreover have "[1..<mfl + 1] ! (l - 1) = l" "l - 1 < length [1..<mfl + 1]" using assms by (simp_all del: upt_Suc)
  ultimately show ?thesis using assms(1) by (simp add: f nth_Cons' del: upt_Suc)
qed

lemma compute_compression_params_at:
  assumes "0 < sg_eta sg" and r: "run_loop (fix_level_step (sg_eta sg)) (0, 0, ih_d (sg_base sg))
      = Some (mfl, \<Sum>i \<leftarrow> [1..<mfl + 1]. dims (sg_eta sg) (ih_d (sg_base sg)) i)"
  shows "\<exists>sg'. compute_compression_params sg = Some sg' \<and> params_ok sg' \<and> sg_maxFixLevel sg' = mfl \<and>
    sg_base sg' = sg_base sg \<and> sg_eta sg' = sg_eta sg \<and> sg_compressed_vecs sg' = sg_compressed_vecs sg \<and>
    sg_shortcut sg' = sg_shortcut sg"
proof -
  let ?eta = "sg_eta sg" and ?d = "ih_d (sg_base sg)"
  have o: "(\<Sum>i \<leftarrow> [1..<l]. map (dims ?eta ?d) [0..<mfl + 1] ! i) = (\<Sum>i \<leftarrow> [1..<l]. dims ?eta ?d i)" if "l \<le> mfl" for l
  proof -
    have "map (\<lambda>i. map (dims ?eta ?d) [0..<mfl + 1] ! i) [1..<l] = map (dims ?eta ?d) [1..<l]"
      using that by (auto simp del: upt_Suc)
    then show ?thesis by (rule arg_cong)
  qed
  let ?sg = "sg\<lparr> sg_maxFixLevel := mfl, sg_data_rep_size := \<Sum>i \<leftarrow> [1..<mfl + 1]. dims ?eta ?d i,
    sg_dim_at_level := dim_table ?eta ?d mfl (sg_dim_at_level sg),
    sg_offset_at_level := offset_table (dim_table ?eta ?d mfl (sg_dim_at_level sg)) mfl (sg_offset_at_level sg) \<rparr>"
  have "params_ok ?sg"
    using assms(1) o unfolding params_ok_def by (auto simp: dim_table_eq offset_table_eq simp del: upt_Suc)
  moreover have "compute_compression_params sg = Some ?sg" using r by (simp add: compute_compression_params_def Let_def)
  ultimately show ?thesis by (intro exI[of _ ?sg]) simp
qed

lemma compute_compression_params_ok:
  assumes "2 \<le> sg_eta sg"
  shows "\<exists>mfl sg'. compute_compression_params sg = Some sg' \<and> params_ok sg' \<and>
    sg_maxFixLevel sg' = mfl \<and> last_level (sg_eta sg) (ih_d (sg_base sg)) mfl \<and>
    sg_base sg' = sg_base sg \<and> sg_eta sg' = sg_eta sg \<and> sg_compressed_vecs sg' = sg_compressed_vecs sg \<and>
    sg_shortcut sg' = sg_shortcut sg"
proof -
  from fix_level_ok[OF assms, of "ih_d (sg_base sg)"] obtain mfl where
    r: "run_loop (fix_level_step (sg_eta sg)) (0, 0, ih_d (sg_base sg))
        = Some (mfl, \<Sum>i \<leftarrow> [1..<mfl + 1]. dims (sg_eta sg) (ih_d (sg_base sg)) i)"
      "last_level (sg_eta sg) (ih_d (sg_base sg)) mfl" by blast
  have "0 < sg_eta sg" using assms by simp
  from compute_compression_params_at[OF this r(1)] r(2) show ?thesis by blast
qed

lemma get_dim_at_level_eq: "params_ok sg \<Longrightarrow> get_dim_at_level sg l = dims (sg_eta sg) (ih_d (sg_base sg)) (nat l)"
proof -
  assume p: "params_ok sg"
  show ?thesis
  proof (cases "l \<le> int (sg_maxFixLevel sg)")
    case True
    then show ?thesis using p by (auto simp: get_dim_at_level_def params_ok_def simp del: upt_Suc)
  next
    case False
    then have "\<not> l \<le> 0" "\<not> nat l \<le> sg_maxFixLevel sg" by linarith+
    then show ?thesis using False p dims_fold[of "sg_eta sg" "sg_maxFixLevel sg" "nat l" "ih_d (sg_base sg)"]
      by (simp add: get_dim_at_level_def params_ok_def max_def del: upt_Suc)
  qed
qed

section \<open>The compressed vectors of the nodes and of a query\<close>

lemma params_rep_size:
  "params_ok sg \<Longrightarrow> length v = ih_d (sg_base sg) \<Longrightarrow> length (rep_of (sg_eta sg) v (sg_maxFixLevel sg)) = sg_data_rep_size sg"
  by (simp add: params_ok_def length_rep_of)

lemma compress_node_ok:
  assumes p: "params_ok sg" and c: "length (sg_compressed_vecs sg) = n * sg_data_rep_size sg" and i: "i < n"
    and f: "length (row (ih_d (sg_base sg)) i (fl_codes f)) = ih_d (sg_base sg)"
  shows "\<exists>cs. compress_node f i sg = sg\<lparr> sg_compressed_vecs := cs \<rparr> \<and> length cs = n * sg_data_rep_size sg \<and>
    (\<forall>j < n. row (sg_data_rep_size sg) j cs =
      (if j = i then rep_of (sg_eta sg) (row (ih_d (sg_base sg)) i (fl_codes f)) (sg_maxFixLevel sg)
       else row (sg_data_rep_size sg) j (sg_compressed_vecs sg)))"
proof -
  let ?v = "row (ih_d (sg_base sg)) i (fl_codes f)" and ?rs = "sg_data_rep_size sg"
  let ?rep = "rep_of (sg_eta sg) ?v (sg_maxFixLevel sg)"
  let ?cs = "blit (i * ?rs) ?rep (sg_compressed_vecs sg)"
  have len: "length ?rep = ?rs" by (rule params_rep_size[OF p f])
  have b: "j * ?rs + ?rs \<le> length (sg_compressed_vecs sg)" if "j < n" for j using row_bound[OF that c] .
  have "compress_node f i sg = sg\<lparr> sg_compressed_vecs := ?cs \<rparr>"
    using full_rep_eq(1)[OF p f order_refl] f by (simp add: compress_node_def Let_def)
  moreover have "length ?cs = n * ?rs" using c b[OF i] len by simp
  moreover have "row ?rs j ?cs = (if j = i then ?rep else row ?rs j (sg_compressed_vecs sg))" if "j < n" for j
    using row_blit[OF b[OF i] len b[OF that]] by auto
  ultimately show ?thesis by blast
qed

text \<open>The vectors of the first \<open>n\<close> nodes are compressed.\<close>

definition compressed_ok :: "shg \<Rightarrow> flat \<Rightarrow> nat \<Rightarrow> bool" where
  "compressed_ok sg f n \<longleftrightarrow> n * sg_data_rep_size sg \<le> length (sg_compressed_vecs sg) \<and>
     (\<forall>i < n. row (sg_data_rep_size sg) i (sg_compressed_vecs sg)
       = rep_of (sg_eta sg) (row (ih_d (sg_base sg)) i (fl_codes f)) (sg_maxFixLevel sg))"

lemma compress_nodes_ok:
  assumes "params_ok sg" "length (sg_compressed_vecs sg) = n * sg_data_rep_size sg" "set is' \<subseteq> {..<n}"
    and "length (fl_codes f) = n * ih_d (sg_base sg)"
  shows "\<exists>cs. fold (compress_node f) is' sg = sg\<lparr> sg_compressed_vecs := cs \<rparr> \<and> length cs = n * sg_data_rep_size sg \<and>
    (\<forall>j < n. row (sg_data_rep_size sg) j cs =
      (if j \<in> set is' then rep_of (sg_eta sg) (row (ih_d (sg_base sg)) j (fl_codes f)) (sg_maxFixLevel sg)
       else row (sg_data_rep_size sg) j (sg_compressed_vecs sg)))"
  using assms
proof (induction is' arbitrary: sg)
  case Nil
  then show ?case by (intro exI[of _ "sg_compressed_vecs sg"]) simp
next
  case (Cons i is')
  have i: "i < n" using Cons.prems(3) by simp
  then have "length (row (ih_d (sg_base sg)) i (fl_codes f)) = ih_d (sg_base sg)"
    using row_bound[OF i Cons.prems(4)] by simp
  from compress_node_ok[OF Cons.prems(1,2) i this] obtain cs where
    c: "compress_node f i sg = sg\<lparr> sg_compressed_vecs := cs \<rparr>" "length cs = n * sg_data_rep_size sg"
    "\<forall>j < n. row (sg_data_rep_size sg) j cs =
      (if j = i then rep_of (sg_eta sg) (row (ih_d (sg_base sg)) i (fl_codes f)) (sg_maxFixLevel sg)
       else row (sg_data_rep_size sg) j (sg_compressed_vecs sg))" by blast
  let ?sg = "sg\<lparr> sg_compressed_vecs := cs \<rparr>"
  have "params_ok ?sg" using Cons.prems(1) by (simp add: params_ok_def)
  from Cons.IH[OF this] c(2) Cons.prems(3,4) obtain cs' where
    d: "fold (compress_node f) is' ?sg = ?sg\<lparr> sg_compressed_vecs := cs' \<rparr>" "length cs' = n * sg_data_rep_size sg"
    "\<forall>j < n. row (sg_data_rep_size sg) j cs' =
      (if j \<in> set is' then rep_of (sg_eta sg) (row (ih_d (sg_base sg)) j (fl_codes f)) (sg_maxFixLevel sg)
       else row (sg_data_rep_size sg) j cs)" by auto
  show ?case using c d by (intro exI[of _ cs']) auto
qed

lemma build_all_compressed_ok:
  assumes "params_ok sg" "length (fl_codes f) = ih_ntotal (sg_base sg) * ih_d (sg_base sg)"
  shows "\<exists>cs. build_all_compressed f sg = sg\<lparr> sg_compressed_vecs := cs \<rparr> \<and>
    compressed_ok (sg\<lparr> sg_compressed_vecs := cs \<rparr>) f (ih_ntotal (sg_base sg))"
proof -
  let ?n = "ih_ntotal (sg_base sg)"
  let ?sg = "sg\<lparr> sg_compressed_vecs := resize (?n * sg_data_rep_size sg) 0 (sg_compressed_vecs sg) \<rparr>"
  have "params_ok ?sg" "length (sg_compressed_vecs ?sg) = ?n * sg_data_rep_size ?sg"
    using assms(1) by (simp_all add: params_ok_def resize_def)
  have sub: "set [0..<?n] \<subseteq> {..<?n}" by auto
  have len: "length (fl_codes f) = ?n * ih_d (sg_base ?sg)" using assms(2) by simp
  from compress_nodes_ok[OF \<open>params_ok ?sg\<close> \<open>length (sg_compressed_vecs ?sg) = ?n * sg_data_rep_size ?sg\<close> sub len] obtain cs where
    "fold (compress_node f) [0..<?n] ?sg = ?sg\<lparr> sg_compressed_vecs := cs \<rparr>" "length cs = ?n * sg_data_rep_size sg"
    "\<forall>j < ?n. row (sg_data_rep_size sg) j cs = rep_of (sg_eta sg) (row (ih_d (sg_base sg)) j (fl_codes f)) (sg_maxFixLevel sg)"
    by auto
  then show ?thesis by (intro exI[of _ cs]) (simp add: build_all_compressed_def compressed_ok_def)
qed

lemma query_rep_eq:
  assumes "params_ok sg" "length q = ih_d (sg_base sg)" "length query_rep = sg_data_rep_size sg"
  shows "build_compressed_query_rep sg q query_rep = rep_of (sg_eta sg) q (sg_maxFixLevel sg)"
  using full_rep_eq(2)[OF assms(1,2) order_refl] assms(2,3) params_rep_size[OF assms(1,2)]
  by (simp add: build_compressed_query_rep_def blit_def)

lemma rep_segment:
  assumes "params_ok sg" "length v = ih_d (sg_base sg)" "1 \<le> l" "l \<le> sg_maxFixLevel sg"
  shows "slice (sg_offset_at_level sg ! l) (sg_dim_at_level sg ! l) (rep_of (sg_eta sg) v (sg_maxFixLevel sg)) = levels (sg_eta sg) v l"
  using slice_rep_of[of "sg_eta sg" l "sg_maxFixLevel sg" v] assms by (simp add: params_ok_def del: upt_Suc)

lemma slice_slice: "a + m \<le> n \<Longrightarrow> slice a m (slice ofs n xs) = slice (ofs + a) m xs"
  by (simp add: slice_def drop_take add.commute)

lemma segment_bound:
  assumes "params_ok sg" "1 \<le> l" "l \<le> sg_maxFixLevel sg"
  shows "sg_offset_at_level sg ! l + sg_dim_at_level sg ! l \<le> sg_data_rep_size sg"
proof -
  let ?D = "dims (sg_eta sg) (ih_d (sg_base sg))"
  have "[1..<sg_maxFixLevel sg + 1] = [1..<l] @ l # [l + 1..<sg_maxFixLevel sg + 1]"
    using assms(2,3) upt_add_eq_append[of 1 l "sg_maxFixLevel sg + 1 - l"] by (simp add: upt_conv_Cons)
  then have "(\<Sum>i \<leftarrow> [1..<sg_maxFixLevel sg + 1]. ?D i) = (\<Sum>i \<leftarrow> [1..<l]. ?D i) + ?D l + (\<Sum>i \<leftarrow> [l + 1..<sg_maxFixLevel sg + 1]. ?D i)"
    by simp
  then show ?thesis using assms by (simp add: params_ok_def del: upt_Suc)
qed

text \<open>What the pointer of a node gives.\<close>

lemma node_segment:
  assumes "params_ok sg" "compressed_ok sg f n" "i < n" "length (fl_codes f) = n * ih_d (sg_base sg)"
    "1 \<le> l" "l \<le> sg_maxFixLevel sg"
  shows "slice (i * sg_data_rep_size sg + sg_offset_at_level sg ! l) (sg_dim_at_level sg ! l) (sg_compressed_vecs sg)
    = levels (sg_eta sg) (row (ih_d (sg_base sg)) i (fl_codes f)) l"
proof -
  have r: "row (sg_data_rep_size sg) i (sg_compressed_vecs sg) = rep_of (sg_eta sg) (row (ih_d (sg_base sg)) i (fl_codes f)) (sg_maxFixLevel sg)"
    using assms(2,3) by (simp add: compressed_ok_def)
  have "length (row (ih_d (sg_base sg)) i (fl_codes f)) = ih_d (sg_base sg)" using row_bound[OF assms(3,4)] by simp
  from rep_segment[OF assms(1) this assms(5,6), folded r] show ?thesis
    by (simp only: slice_slice[OF segment_bound[OF assms(1,5,6)]])
qed

text \<open>The distances on a level of the compression.\<close>

definition level_dis :: "shg \<Rightarrow> flat \<Rightarrow> float_t list \<Rightarrow> nat \<Rightarrow> nat \<Rightarrow> float_t" where
  "level_dis sg f q cl v = fvec_L2sqr (levels (sg_eta sg) q cl) (levels (sg_eta sg) (row (ih_d (sg_base sg)) v (fl_codes f)) cl)"

lemma params_dim: "params_ok sg \<Longrightarrow> l \<le> sg_maxFixLevel sg \<Longrightarrow> sg_dim_at_level sg ! l = dims (sg_eta sg) (ih_d (sg_base sg)) l"
  by (simp add: params_ok_def del: upt_Suc)

lemma inline_dis_eq:
  assumes "params_ok sg" "compressed_ok sg f n" "length (fl_codes f) = n * ih_d (sg_base sg)" "v < n"
    "1 \<le> cl" "cl \<le> sg_maxFixLevel sg" "length q = ih_d (sg_base sg)"
  shows "inline_dis sg (rep_of (sg_eta sg) q (sg_maxFixLevel sg)) cl v = level_dis sg f q cl v"
  using assms node_segment[OF assms(1,2,4,3,5,6)] rep_segment[OF assms(1,7,5,6)]
  by (simp add: inline_dis_def get_compressed_data_def level_dis_def min_absorb1)

lemma get_dis_by_level_q_eq:
  assumes "params_ok sg" "compressed_ok sg f n" "length (fl_codes f) = n * ih_d (sg_base sg)" "v < n"
    "1 \<le> l" "1 \<le> sg_maxFixLevel sg" "length q = ih_d (sg_base sg)"
  shows "get_dis_by_level_q sg (rep_of (sg_eta sg) q (sg_maxFixLevel sg)) v l = Inr (level_dis sg f q (min l (sg_maxFixLevel sg)) v)"
proof -
  let ?cl = "min l (sg_maxFixLevel sg)"
  have cl: "1 \<le> ?cl" "?cl \<le> sg_maxFixLevel sg" using assms(5,6) by auto
  have "length (levels (sg_eta sg) q ?cl) = sg_dim_at_level sg ! ?cl"
    "length (levels (sg_eta sg) (row (ih_d (sg_base sg)) v (fl_codes f)) ?cl) = sg_dim_at_level sg ! ?cl"
    using assms(1,7) row_bound[OF assms(4,3)] params_dim[OF assms(1) cl(2)] by (simp_all add: params_ok_def)
  then show ?thesis
    using cl assms(5) node_segment[OF assms(1,2,4,3) cl] rep_segment[OF assms(1,7) cl]
    by (simp add: get_dis_by_level_q_def compressed_dis_at_level_def get_compressed_data_def read_floats_def Let_def
        compressed_l2sqr_def level_dis_def min_absorb1)
qed

lemma get_dis_by_level_eq:
  assumes "params_ok sg" "compressed_ok sg f n" "length (fl_codes f) = n * ih_d (sg_base sg)" "u < n" "v < n"
    "1 \<le> sg_maxFixLevel sg \<or> l = 0"
  shows "get_dis_by_level sg f u v l
    = Inr (level_dis sg f (row (ih_d (sg_base sg)) u (fl_codes f)) (min l (sg_maxFixLevel sg)) v)"
proof (cases "l = 0")
  case False
  let ?cl = "min l (sg_maxFixLevel sg)"
  have cl: "1 \<le> ?cl" "?cl \<le> sg_maxFixLevel sg" using assms(6) False by auto
  have "length (levels (sg_eta sg) (row (ih_d (sg_base sg)) w (fl_codes f)) ?cl) = sg_dim_at_level sg ! ?cl" if "w < n" for w
    using assms(1) row_bound[OF that assms(3)] params_dim[OF assms(1) cl(2)] by (simp add: params_ok_def)
  then show ?thesis
    using False cl assms(4,5) node_segment[OF assms(1,2,4,3) cl] node_segment[OF assms(1,2,5,3) cl]
    by (simp add: get_dis_by_level_def compressed_dis_at_level_def get_compressed_data_def read_floats_def Let_def
        compressed_l2sqr_def level_dis_def min_absorb1)
qed (simp add: get_dis_by_level_def level_dis_def Let_def)

end
