(* ===== verification/ShgShortcut.thy ===== *)
theory ShgShortcut
  imports PgmIndexOk ShgOk
begin

text \<open>
  What the learned shortcut predicts, against the map from distances to values that it replaces, and the
  lower bound that the search compares with its threshold.
\<close>

section \<open>The finalized samples\<close>

lemma map_of_rev_filter:
  "map_of (rev ps) k = (let qs = filter (\<lambda>p. fst p = k) ps in if qs = [] then None else Some (snd (last qs)))"
  by (induction ps rule: rev_induct) (auto simp: Let_def)

definition distinct_pairs :: "(float_t \<times> int) list \<Rightarrow> float_t list \<times> int list \<Rightarrow> bool" where
  "distinct_pairs ps s \<longleftrightarrow> (case s of (ks, vs) \<Rightarrow> length vs = length ks \<and> sorted_wrt (<) ks \<and> set ks = fst ` set ps \<and>
     (\<forall>j < length ks. map_of (rev ps) (ks ! j) = Some (vs ! j)))"

lemma finalize_fold:
  assumes "\<forall>i \<in> set js. i < length keys" "sorted (map (\<lambda>i. keys ! i) js)" "length values = length keys"
  shows "distinct_pairs (map (\<lambda>i. (keys ! i, values ! i)) js) (fold (finalize_step keys values) js ([], []))"
  using assms(1,2)
proof (induction js rule: rev_induct)
  case Nil
  then show ?case by (simp add: distinct_pairs_def)
next
  case (snoc i js)
  obtain ks vs where f: "fold (finalize_step keys values) js ([], []) = (ks, vs)" by fastforce
  let ?ps = "map (\<lambda>i. (keys ! i, values ! i)) js" and ?k = "keys ! i" and ?v = "values ! i"
  from snoc f have IH: "length vs = length ks" "sorted_wrt (<) ks" "set ks = fst ` set ?ps"
    "\<forall>j < length ks. map_of (rev ?ps) (ks ! j) = Some (vs ! j)"
    by (auto simp: distinct_pairs_def sorted_append)
  have below: "\<forall>k \<in> set ks. k \<le> ?k" using snoc.prems(2) IH(3) by (auto simp: sorted_append)
  show ?case
  proof (cases "ks \<noteq> [] \<and> last ks = ?k")
    case True
    let ?m = "length ks - 1"
    have m: "?m < length ks" "ks ! ?m = ?k" "?k \<in> fst ` set ?ps" using True IH(3) last_in_set[of ks] by (auto simp: last_conv_nth)
    have "ks ! j \<noteq> ?k" if "j < length ks" "j \<noteq> ?m" for j
      using sorted_wrt_nth_less[OF IH(2), of j ?m] that m by force
    then have "distinct_pairs (?ps @ [(?k, ?v)]) (ks, vs[length vs - 1 := ?v])"
      using IH m by (auto simp: distinct_pairs_def nth_list_update)
    moreover have "finalize_step keys values i (ks, vs) = (ks, vs[length vs - 1 := ?v])"
      using True by (simp add: finalize_step_def)
    ultimately show ?thesis using f by simp
  next
    case False
    have lt: "k < ?k" if "k \<in> set ks" for k
    proof -
      from that have "k \<le> last ks" using IH(2) by (cases ks rule: rev_cases) (auto simp: sorted_wrt_append)
      moreover have "last ks \<le> ?k" "last ks \<noteq> ?k" using that False below by (cases ks rule: rev_cases; auto)+
      ultimately show ?thesis by simp
    qed
    have "map_of (rev (?ps @ [(?k, ?v)])) ((ks @ [?k]) ! j) = Some ((vs @ [?v]) ! j)" if "j < length (ks @ [?k])" for j
    proof (cases "j < length ks")
      case True
      then have "ks ! j \<noteq> ?k" using lt[of "ks ! j"] by auto
      then show ?thesis using True IH(1,4) by (simp add: nth_append)
    next
      case False
      then have "j = length ks" using that by simp
      then show ?thesis using IH(1) by (simp add: nth_append)
    qed
    moreover have "sorted_wrt (<) (ks @ [?k])" using IH(2) lt by (simp add: sorted_wrt_append)
    moreover have "set (ks @ [?k]) = fst ` set (?ps @ [(?k, ?v)])" using IH(3) by simp
    ultimately have "distinct_pairs (?ps @ [(?k, ?v)]) (ks @ [?k], vs @ [?v])"
      using IH(1) by (simp only: distinct_pairs_def case_prod_conv length_append) simp
    moreover have "finalize_step keys values i (ks, vs) = (ks @ [?k], vs @ [?v])"
      using False by (auto simp: finalize_step_def)
    ultimately show ?thesis using f by simp
  qed
qed

lemma finalize_ok:
  assumes "length (sm_values m) = length (sm_keys m)"
  shows "distinct_pairs (zip (sm_keys m) (sm_values m)) (sm_keys (finalize m), sm_values (finalize m)) \<and>
    sm_pgm (finalize m) = sm_keys (finalize m) \<and> (sm_trained (finalize m) \<longleftrightarrow> sm_keys m \<noteq> [])"
proof (cases "sm_keys m = []")
  case True
  then show ?thesis using assms by (simp add: finalize_def build_model_def distinct_pairs_def)
next
  case False
  let ?ks = "sm_keys m" and ?vs = "sm_values m"
  let ?js = "sorted_order ?ks" and ?p = "\<lambda>i. (?ks ! i, ?vs ! i)"
  obtain ks vs where f: "fold (finalize_step ?ks ?vs) ?js ([], []) = (ks, vs)" by fastforce
  have D: "distinct_pairs (map ?p ?js) (ks, vs)"
    using finalize_fold[of ?js ?ks ?vs] f assms by simp
  have z: "zip ?ks ?vs = map ?p [0..<length ?ks]"
    using assms by (intro nth_equalityI) simp_all
  have st: "filter (\<lambda>i. ?ks ! i = k) ?js = filter (\<lambda>i. ?ks ! i = k) [0..<length ?ks]" for k
    unfolding sorted_order_def by (rule sort_key_stable)
  have "filter (\<lambda>p. fst p = k) (map ?p ?js) = filter (\<lambda>p. fst p = k) (zip ?ks ?vs)" for k
    unfolding z filter_map comp_def fst_conv st ..
  then have "map_of (rev (map ?p ?js)) k = map_of (rev (zip ?ks ?vs)) k" for k
    unfolding map_of_rev_filter by simp
  moreover have "fst ` set (map ?p ?js) = fst ` set (zip ?ks ?vs)" unfolding z set_map by (simp add: image_image atLeast0LessThan)
  ultimately have "distinct_pairs (zip ?ks ?vs) (ks, vs)" using D by (simp add: distinct_pairs_def)
  moreover have "ks \<noteq> []"
  proof -
    have "fst ` set (zip ?ks ?vs) = set ?ks" using assms by (metis map_fst_zip set_map)
    then show ?thesis using \<open>distinct_pairs (zip ?ks ?vs) (ks, vs)\<close> False by (auto simp: distinct_pairs_def)
  qed
  ultimately show ?thesis using False f by (simp add: finalize_def build_model_def)
qed

lemma inserted_samples:
  "fold (\<lambda>(dis, skip). insert_or_assign dis skip) samples m
    = m\<lparr> sm_keys := sm_keys m @ map fst samples, sm_values := sm_values m @ map snd samples,
         sm_trained := (samples = [] \<and> sm_trained m) \<rparr>"
  by (induction samples arbitrary: m) (auto simp: insert_or_assign_def)

section \<open>Prediction\<close>

text \<open>The window brackets the position of the first key that is not below the sought one.\<close>

definition pgm_brackets :: "pgm_search \<Rightarrow> float_t list \<Rightarrow> float_t \<Rightarrow> bool" where
  "pgm_brackets pgm keys x \<longleftrightarrow>
     (case pgm keys x of (lo, hi) \<Rightarrow>
        lo \<le> length (takeWhile (\<lambda>k. k < x) keys) \<and> length (takeWhile (\<lambda>k. k < x) keys) \<le> hi \<and> hi \<le> length keys)"

text \<open>The window of \<open>pgm_index_t\<close>, with the errors 16 and 4 of its levels.\<close>

definition pgm_epsilon :: nat where
  "pgm_epsilon = 16"

definition pgm_epsilon_recursive :: nat where
  "pgm_epsilon_recursive = 4"

definition pgm_window :: "nat \<Rightarrow> pgm_search" where
  "pgm_window parallelism keys x =
     (case PGMIndex parallelism pgm_epsilon pgm_epsilon_recursive keys of
        Some (Inr ix) \<Rightarrow> (case pgm_search_pos pgm_epsilon pgm_epsilon_recursive ix x of Inr (pos, lo, hi) \<Rightarrow> (lo, hi) | Inl _ \<Rightarrow> (0, 0))
      | _ \<Rightarrow> (0, 0))"

lemma pgm_window_brackets:
  assumes "keys \<noteq> []" "sorted_wrt (<) keys" "\<forall>k \<in> set keys. k + 1 < FLT_MAX" "length keys + 16 < 2 ^ 31" "x < FLT_MAX"
    "1 \<le> parallelism" "parallelism \<le> 20"
  shows "pgm_brackets (pgm_window parallelism) keys x"
proof -
  have "pgm_data pgm_epsilon pgm_epsilon_recursive keys"
    using assms(1-4) by (simp add: pgm_data_def pgm_epsilon_def pgm_epsilon_recursive_def)
  from pgm_search_ok[OF this assms(6,7)] assms(5) obtain ix pos lo hi where
    "PGMIndex parallelism pgm_epsilon pgm_epsilon_recursive keys = Some (Inr ix)"
    "pgm_search_pos pgm_epsilon pgm_epsilon_recursive ix x = Inr (pos, lo, hi)"
    "lo \<le> count_less keys x" "count_less keys x \<le> hi" "hi \<le> length keys" by blast
  then show ?thesis by (simp add: pgm_brackets_def pgm_window_def count_less_def)
qed

lemma below_prefix:
  fixes ks :: "'k::linorder list"
  assumes "sorted_wrt (<) ks" "i < length ks"
  shows "ks ! i < x \<longleftrightarrow> i < length (takeWhile (\<lambda>k. k < x) ks)"
proof
  assume "i < length (takeWhile (\<lambda>k. k < x) ks)"
  then show "ks ! i < x" using nth_mem[of i "takeWhile (\<lambda>k. k < x) ks"] set_takeWhileD takeWhile_nth by fastforce
next
  assume x: "ks ! i < x"
  show "i < length (takeWhile (\<lambda>k. k < x) ks)"
  proof (rule ccontr)
    let ?m = "length (takeWhile (\<lambda>k. k < x) ks)"
    assume "\<not> i < ?m"
    then have "?m < length ks" "?m \<le> i" using assms(2) by simp_all
    then have "\<not> ks ! ?m < x" "ks ! ?m \<le> ks ! i"
      using nth_length_takeWhile[of "\<lambda>k. k < x" ks] sorted_wrt_nth_less[OF assms(1), of ?m i] assms(2)
      by (auto simp: le_less)
    then show False using x by simp
  qed
qed

lemma lower_bound_pos_eq:
  assumes "sorted_wrt (<) ks" "lo \<le> length (takeWhile (\<lambda>k. k < x) ks)" "length (takeWhile (\<lambda>k. k < x) ks) \<le> hi" "hi \<le> length ks"
  shows "lower_bound_pos ks lo hi x = length (takeWhile (\<lambda>k. k < x) ks)"
proof -
  let ?m = "length (takeWhile (\<lambda>k. k < x) ks)"
  let ?s = "slice lo (hi - lo) ks"
  have len: "length ?s = hi - lo" using assms by simp
  have at: "?s ! i < x \<longleftrightarrow> lo + i < ?m" if "i < hi - lo" for i
    using below_prefix[OF assms(1), of "lo + i" x] that assms by simp
  have "length (takeWhile (\<lambda>k. k < x) ?s) = ?m - lo"
  proof (rule antisym)
    show "length (takeWhile (\<lambda>k. k < x) ?s) \<le> ?m - lo"
    proof (rule ccontr)
      assume "\<not> ?thesis"
      then have l: "?m - lo < length (takeWhile (\<lambda>k. k < x) ?s)" by simp
      then have "?m - lo < hi - lo" using length_takeWhile_le[of "\<lambda>k. k < x" ?s] len by linarith
      moreover have "?s ! (?m - lo) < x"
        using nth_mem[OF l] set_takeWhileD[of _ "\<lambda>k. k < x" ?s] takeWhile_nth[OF l] by auto
      ultimately show False using at assms(2) by simp
    qed
    show "?m - lo \<le> length (takeWhile (\<lambda>k. k < x) ?s)"
    proof (rule ccontr)
      assume "\<not> ?thesis"
      then have l: "length (takeWhile (\<lambda>k. k < x) ?s) < ?m - lo" by simp
      then have "length (takeWhile (\<lambda>k. k < x) ?s) < length ?s" using len assms(3) by linarith
      from nth_length_takeWhile[OF this] at l assms(3) show False by simp
    qed
  qed
  then show ?thesis using assms(2) by (simp add: lower_bound_pos_def)
qed

text \<open>The value of the smallest key that is not below the sought one, of the last sample with this key.\<close>

definition first_at_least :: "(float_t \<times> int) list \<Rightarrow> float_t \<Rightarrow> int" where
  "first_at_least samples x =
     (if \<exists>k \<in> fst ` set samples. x \<le> k then the (map_of (rev samples) (Min {k \<in> fst ` set samples. x \<le> k})) else 1)"

lemma predict_ok:
  assumes "ps \<noteq> [] \<Longrightarrow> pgm_brackets pgm (sm_keys m) x" "distinct_pairs ps (sm_keys m, sm_values m)" "sm_pgm m = sm_keys m" "sm_trained m \<longleftrightarrow> ps \<noteq> []"
  shows "predict pgm m x = first_at_least ps x"
proof (cases "ps = []")
  case True
  then show ?thesis using assms(4) by (simp add: predict_def first_at_least_def)
next
  case False
  let ?ks = "sm_keys m" and ?vs = "sm_values m"
  let ?p = "length (takeWhile (\<lambda>k. k < x) ?ks)"
  have D: "length ?vs = length ?ks" "sorted_wrt (<) ?ks" "set ?ks = fst ` set ps"
    "\<forall>j < length ?ks. map_of (rev ps) (?ks ! j) = Some (?vs ! j)" using assms(2) by (simp_all add: distinct_pairs_def)
  have ne: "?ks \<noteq> []" using D(3) False by auto
  obtain lo hi where w: "pgm ?ks x = (lo, hi)" by fastforce
  have "case pgm ?ks x of (lo, hi) \<Rightarrow> lo \<le> ?p \<and> ?p \<le> hi \<and> hi \<le> length ?ks"
    using assms(1)[OF False] by (simp add: pgm_brackets_def)
  then have b: "lo \<le> ?p" "?p \<le> hi" "hi \<le> length ?ks" unfolding w by simp_all
  have pred: "predict pgm m x = (if ?p \<ge> length ?ks then 1 else ?vs ! ?p)"
    using assms(3,4) False w b lower_bound_pos_eq[OF D(2) b] by (simp add: predict_def min_absorb1)
  show ?thesis
  proof (cases "?p < length ?ks")
    case True
    have at: "x \<le> ?ks ! ?p" using nth_length_takeWhile[OF True] by simp
    have "Min {k \<in> fst ` set ps. x \<le> k} = ?ks ! ?p"
    proof (rule Min_eqI)
      show "?ks ! ?p \<in> {k \<in> fst ` set ps. x \<le> k}" using at True D(3) nth_mem by fastforce
      fix k assume "k \<in> {k \<in> fst ` set ps. x \<le> k}"
      then obtain i where i: "i < length ?ks" "k = ?ks ! i" "x \<le> k" using D(3) by (metis (no_types, lifting) in_set_conv_nth mem_Collect_eq)
      then have "?p \<le> i" using below_prefix[OF D(2) i(1), of x] by simp
      then show "?ks ! ?p \<le> k" using i sorted_wrt_nth_less[OF D(2), of ?p i] by (cases "?p = i") auto
    qed simp
    moreover have "\<exists>k \<in> fst ` set ps. x \<le> k" using at True D(3) nth_mem by metis
    ultimately show ?thesis using True D(4) unfolding pred first_at_least_def by simp
  next
    case False
    have "\<not> x \<le> k" if k: "k \<in> fst ` set ps" for k
    proof -
      from k obtain i where i: "i < length ?ks" "k = ?ks ! i" using D(3) by (metis in_set_conv_nth)
      then show ?thesis using below_prefix[OF D(2) i(1), of x] False by simp
    qed
    then show ?thesis using False unfolding pred first_at_least_def by auto
  qed
qed

section \<open>The lower bound\<close>

lemma sum_square_le:
  fixes xs :: "float_t list"
  shows "sum_list xs * sum_list xs \<le> of_nat (length xs) * (\<Sum>x \<leftarrow> xs. x * x)"
proof (induction xs)
  case (Cons x xs)
  let ?n = "of_nat (length xs) :: rat" and ?S = "sum_list xs" and ?Q = "\<Sum>x \<leftarrow> xs. x * x"
  show ?case
  proof (cases "xs = []")
    case False
    then have n: "0 < ?n" by simp
    have "0 \<le> (?n * x - ?S) * (?n * x - ?S)" by simp
    then have "?n * (2 * x * ?S) \<le> ?n * (?n * (x * x)) + ?S * ?S" by (simp add: algebra_simps)
    also have "\<dots> \<le> ?n * (?n * (x * x) + ?Q)" using Cons.IH by (simp add: algebra_simps)
    finally have "2 * x * ?S \<le> ?n * (x * x) + ?Q" using n by (simp add: mult_le_cancel_left_pos)
    then show ?thesis using Cons.IH by (simp add: algebra_simps)
  qed simp
qed simp

lemma L2_block:
  fixes a b :: "float_t list"
  assumes "length a = length b"
  shows "(sum_list a - sum_list b) * (sum_list a - sum_list b) \<le> of_nat (length a) * fvec_L2sqr a b"
proof -
  have "sum_list a - sum_list b = sum_list (map2 (-) a b)"
    using assms by (induction a b rule: list_induct2) simp_all
  moreover have "fvec_L2sqr a b = (\<Sum>x \<leftarrow> map2 (-) a b. x * x)"
    using assms by (induction a b rule: list_induct2) simp_all
  ultimately show ?thesis using sum_square_le[of "map2 (-) a b"] assms by simp
qed

lemma strides_Suc:
  assumes "0 < eta" "eta \<le> n"
  shows "strides eta n = 0 # map (\<lambda>j. j + eta) (strides eta (n - eta))"
proof -
  define m where "m = n - eta + eta - 1"
  have e: "n + eta - 1 = m + eta" using assms by (simp add: m_def)
  have "(m + eta) div eta = m div eta + 1" by (rule div_add_self2) (use assms(1) in simp)
  then have "ceil_div n eta = ceil_div (n - eta) eta + 1" unfolding ceil_div_eq[OF assms(1)] e m_def[symmetric] .
  then have "[0..<ceil_div n eta] = 0 # map Suc [0..<ceil_div (n - eta) eta]"
    by (simp add: upt_conv_Cons map_Suc_upt del: upt_Suc)
  then show ?thesis using assms(1) by (simp add: strides_eq add.commute)
qed

lemma means_unfold:
  assumes "0 < eta" "eta \<le> length xs"
  shows "means eta xs = sum_list (take eta xs) / of_nat eta # means eta (drop eta xs)"
proof -
  have "mean_of (j + eta) (min (j + eta + eta) (length xs)) xs = mean_of j (min (j + eta) (length xs - eta)) (drop eta xs)" for j
  proof -
    have "min (j + eta + eta) (length xs) - (j + eta) = min (j + eta) (length xs - eta) - j" by linarith
    moreover have "slice (j + eta) k xs = slice j k (drop eta xs)" for k by (simp add: slice_def)
    ultimately show ?thesis by (simp add: mean_of_def)
  qed
  moreover have "mean_of 0 (min (0 + eta) (length xs)) xs = sum_list (take eta xs) / of_nat eta"
    using assms(2) by (simp add: mean_of_def slice_def min_absorb1)
  ultimately show ?thesis unfolding means_def strides_Suc[OF assms] by simp
qed

lemma means_bound:
  assumes "0 < eta" "length a = k * eta" "length b = length a"
  shows "of_nat eta * fvec_L2sqr (means eta a) (means eta b) \<le> fvec_L2sqr a b"
  using assms(2,3)
proof (induction k arbitrary: a b)
  case (Suc k)
  let ?e = "of_nat eta :: rat"
  have e: "0 < ?e" using assms(1) by simp
  have len: "eta \<le> length a" "eta \<le> length b" using Suc.prems by simp_all
  let ?s = "sum_list (take eta a) - sum_list (take eta b)"
  have "?e * ((sum_list (take eta a) / ?e - sum_list (take eta b) / ?e) * (sum_list (take eta a) / ?e - sum_list (take eta b) / ?e))
      = ?s * ?s / ?e" using e by (simp add: diff_divide_distrib[symmetric])
  also have "\<dots> \<le> fvec_L2sqr (take eta a) (take eta b)"
    using L2_block[of "take eta a" "take eta b"] len e by (simp add: pos_divide_le_eq mult.commute)
  finally have 1: "?e * ((sum_list (take eta a) / ?e - sum_list (take eta b) / ?e) * (sum_list (take eta a) / ?e - sum_list (take eta b) / ?e))
      \<le> fvec_L2sqr (take eta a) (take eta b)" .
  have 2: "?e * fvec_L2sqr (means eta (drop eta a)) (means eta (drop eta b)) \<le> fvec_L2sqr (drop eta a) (drop eta b)"
    using Suc.prems by (intro Suc.IH) simp_all
  have "fvec_L2sqr a b = fvec_L2sqr (take eta a) (take eta b) + fvec_L2sqr (drop eta a) (drop eta b)"
    using fvec_L2sqr_append[of "take eta a" "take eta b" "drop eta a" "drop eta b"] len by simp
  then show ?case using 1 2 assms(1) len by (simp add: means_unfold ring_distribs)
qed (simp add: means_def strides_def)

lemma levels_bound:
  assumes "0 < eta" "eta ^ l dvd length a" "length b = length a"
  shows "of_nat (eta ^ l) * fvec_L2sqr (levels eta a l) (levels eta b l) \<le> fvec_L2sqr a b \<and> dims eta (length a) l * eta ^ l = length a"
  using assms(2)
proof (induction l)
  case (Suc l)
  have "eta ^ l dvd length a" using Suc.prems dvd_mult_right by auto
  with Suc.IH have IH: "of_nat (eta ^ l) * fvec_L2sqr (levels eta a l) (levels eta b l) \<le> fvec_L2sqr a b"
    "dims eta (length a) l * eta ^ l = length a" by auto
  have "eta ^ l * eta dvd eta ^ l * dims eta (length a) l" using Suc.prems IH(2) by (simp add: mult.commute)
  then have dv: "eta dvd dims eta (length a) l" using assms(1) by simp
  then obtain k where k: "dims eta (length a) l = k * eta" by (metis dvdE mult.commute)
  have "of_nat eta * fvec_L2sqr (means eta (levels eta a l)) (means eta (levels eta b l)) \<le> fvec_L2sqr (levels eta a l) (levels eta b l)"
    by (rule means_bound[OF assms(1), of _ k]) (use k assms in simp_all)
  then have "of_nat (eta ^ l) * (of_nat eta * fvec_L2sqr (means eta (levels eta a l)) (means eta (levels eta b l)))
      \<le> of_nat (eta ^ l) * fvec_L2sqr (levels eta a l) (levels eta b l)" by (intro mult_left_mono) simp_all
  with IH(1) have "of_nat (eta ^ Suc l) * fvec_L2sqr (levels eta a (Suc l)) (levels eta b (Suc l)) \<le> fvec_L2sqr a b"
    by (simp add: mult.assoc mult.left_commute)
  moreover have "dims eta (length a) (Suc l) * eta ^ Suc l = length a"
    using IH(2) k assms(1) by (simp add: ceil_div_exact mult.assoc mult.left_commute)
  ultimately show ?case by blast
qed simp

end
