(* ===== verification/ShgBuild.thy ===== *)
theory ShgBuild
  imports ShgShortcut IndexHnswOk
begin

text \<open>
  Adding vectors to an \<open>IndexSHG\<close> (\<open>IndexSHG::add\<close>): the vectors are stored and compressed, and inserted
  into the graph from the highest level down, with the compressed distances on the upper levels. The
  insertion of one vertex is another instance of the interface of \<open>IndexHNSWFlat\<close>.
\<close>

section \<open>The code\<close>

text \<open>The body of the loop, with the distances \<open>qd l\<close>, \<open>sd l\<close> of level \<open>l\<close>: the descent computes the
  distance of the nearest vertex anew on every level.\<close>

definition shg_descend :: "hnsw \<Rightarrow> (nat \<Rightarrow> nat \<Rightarrow> 'd::linorder) \<Rightarrow> nat list \<Rightarrow> nat \<Rightarrow> nat" where
  "shg_descend h qd ls nearest =
     fold (\<lambda>level nearest. fst (snd (greedy_update_nearest h (qd level) level HNSWStats (nearest, qd level nearest)))) ls nearest"

definition shg_add_point ::
  "(nat \<Rightarrow> nat \<Rightarrow> nat \<Rightarrow> 'd::linorder) \<Rightarrow> (nat \<Rightarrow> nat \<Rightarrow> nat \<Rightarrow> 'd) \<Rightarrow> bool \<Rightarrow> nat \<Rightarrow> nat \<Rightarrow> hnsw \<times> vtable \<Rightarrow>
   (hnsw \<times> vtable) result option" where
  "shg_add_point qdis sd keep_max_size_level0 pt_level pt_id s =
     (let (h, vt) = s; qd = qdis pt_id
      in if hn_entry_point h = -1
         then Some (Inr (h\<lparr> hn_max_level := int pt_level, hn_entry_point := int pt_id \<rparr>, vt))
         else if hn_entry_point h < 0 then Some (Inr (h, vt))
         else
           let top_level = nat (hn_max_level h);
               nearest = shg_descend h qd (rev [pt_level + 1..<top_level + 1]) (nat (hn_entry_point h))
           in map_option
                (\<lambda>(h, vt). Inr (if int pt_level > hn_max_level h
                    then h\<lparr> hn_max_level := int pt_level, hn_entry_point := int pt_id \<rparr> else h, vt))
                (fold (\<lambda>level r. Option.bind r
                         (add_links_starting_from (qd level) (sd level) pt_id nearest (qd level nearest) level
                           (keep_max_size_level0 \<and> level = 0)))
                   (rev [0..<min top_level pt_level + 1]) (Some (h, vt))))"

text \<open>The distances of the distance computer, which never throws in the calls of \<open>add\<close>.\<close>

definition value_of :: "float_t result \<Rightarrow> float_t" where
  "value_of r = (case r of Inl e \<Rightarrow> 0 | Inr v \<Rightarrow> v)"

definition sdc_query :: "shg \<Rightarrow> flat \<Rightarrow> float_t list \<Rightarrow> nat \<Rightarrow> nat \<Rightarrow> float_t" where
  "sdc_query sg f x level i =
     (let query_rep = dc_set_query sg x (replicate (sg_data_rep_size sg) 0)
      in value_of (sdc_dis sg f x query_rep level i))"

text \<open>Steps 1 and 2: the vectors are stored and the new nodes compressed.\<close>

definition shg_store :: "shg \<Rightarrow> flat \<Rightarrow> nat \<Rightarrow> float_t list \<Rightarrow> shg" where
  "shg_store sg f n x =
     (let n0 = ih_ntotal (sg_base sg);
          f = flat_add f n x;
          ntotal = fl_ntotal f;
          sg = sg\<lparr> sg_base := (sg_base sg)\<lparr> ih_storage := Some f, ih_ntotal := ntotal \<rparr> \<rparr>
      in if sg_maxFixLevel sg > 0 \<and> sg_data_rep_size sg > 0
         then fold (compress_node f) [n0..<ntotal]
                (sg\<lparr> sg_compressed_vecs := resize (ntotal * sg_data_rep_size sg) 0 (sg_compressed_vecs sg) \<rparr>)
         else sg)"

text \<open>Step 3: the new vertices are inserted into the graph, in buckets of equal level.\<close>

definition shg_add_vertices ::
  "shg \<Rightarrow> flat \<Rightarrow> nat \<Rightarrow> nat \<Rightarrow> float_t list \<Rightarrow> float_t list \<Rightarrow> (nat \<Rightarrow> nat) \<Rightarrow> hnsw result option" where
  "shg_add_vertices sg f n0 n x draws rnd =
     (let ix = sg_base sg; ntot = n0 + n
      in case prepare_level_tab (ih_hnsw ix) n (length (hn_levels (ih_hnsw ix)) = ntot) draws of
           Inl e \<Rightarrow> Some (Inl e)
         | Inr (h, max_level) \<Rightarrow>
             if n = 0 then Some (Inr h)
             else
               let lev = pt_level_of h;
                   hist = level_hist lev n0 n;
                   order = bucket_sort lev n0 n hist;
                   qdis = (\<lambda>pt_id. sdc_query sg f (row (ih_d ix) (pt_id - n0) x));
                   sd = (\<lambda>level i j. value_of (sdc_symmetric_dis sg f level i j))
               in map_option (\<lambda>r. bind_result r (\<lambda>(h, order, c, i1). Inr h))
                    (for_each (add_bucket (shg_add_point qdis sd (ih_keep_max_size_level0 ix))
                         (ih_use_visited_hashset ix) ntot rnd hist)
                      (rev [0..<length hist]) (h, order, 0, n)))"

definition shg_add :: "shg \<Rightarrow> nat \<Rightarrow> float_t list \<Rightarrow> float_t list \<Rightarrow> (nat \<Rightarrow> nat) \<Rightarrow> shg result option" where
  "shg_add sg n x draws rnd =
     (case ih_storage (sg_base sg) of
        None \<Rightarrow> Some (Inl (FaissException ''IndexSHG requires flat storage''))
      | Some f \<Rightarrow>
          if \<not> ih_is_trained (sg_base sg) then Some (Inl (FaissException ''is_trained''))
          else
            Option.bind
              (if sg_dim_at_level sg = [] \<and> ih_d (sg_base sg) > 0 then compute_compression_params sg else Some sg)
              (\<lambda>sg.
                let n0 = ih_ntotal (sg_base sg); sg' = shg_store sg f n x
                in map_option (\<lambda>r. bind_result r (\<lambda>h. Inr (sg'\<lparr> sg_base := (sg_base sg')\<lparr> ih_hnsw := h \<rparr> \<rparr>)))
                     (shg_add_vertices sg' (flat_add f n x) n0 n x draws rnd)))"

text \<open>\<open>reset\<close> is inherited: the compressed vectors and the shortcut stay.\<close>

definition shg_reset :: "shg \<Rightarrow> shg" where
  "shg_reset sg = sg\<lparr> sg_base := index_hnsw_reset (sg_base sg) \<rparr>"

section \<open>The insertion of a vertex\<close>

lemma shg_descend_ok:
  assumes "linkable h" "\<forall>l. level_ok h I l" "on_level h m v" "v \<in> I"
  shows "shg_descend h qd (rev [a..<m + 1]) v \<in> I \<and> on_level h (min m (a - 1)) (shg_descend h qd (rev [a..<m + 1]) v)"
  using assms(3,4)
proof (induction m arbitrary: v)
  case 0
  show ?case
  proof (cases "a = 0")
    case True
    obtain st v1 d1 where g: "greedy_update_nearest h (qd 0) 0 HNSWStats (v, qd 0 v) = (st, v1, d1)" by (metis prod_cases3)
    have "reach h 0 {v} \<subseteq> {w \<in> I. on_level h 0 w}"
      using 0 assms(2) by (intro reach_in_level[OF assms(1)]) simp_all
    then show ?thesis using greedy_ok[OF g] g True by (auto simp: shg_descend_def)
  qed (use 0 in \<open>simp add: shg_descend_def\<close>)
next
  case (Suc m)
  show ?case
  proof (cases "a \<le> Suc m")
    case True
    obtain st1 v1 d1 where g: "greedy_update_nearest h (qd (Suc m)) (Suc m) HNSWStats (v, qd (Suc m) v) = (st1, v1, d1)"
      by (metis prod_cases3)
    have "reach h (Suc m) {v} \<subseteq> {w \<in> I. on_level h (Suc m) w}"
      using Suc.prems assms(2) by (intro reach_in_level[OF assms(1)]) simp_all
    then have v1: "v1 \<in> I" "on_level h (Suc m) v1" using greedy_ok[OF g] by auto
    have "shg_descend h qd (rev [a..<Suc m + 1]) v = shg_descend h qd (rev [a..<m + 1]) v1"
      using True g by (simp add: shg_descend_def)
    then show ?thesis using Suc.IH[OF on_level_down[OF v1(2)] v1(1)] True
      by (auto simp: min_def elim: on_level_down split: if_splits)
  qed (use Suc.prems in \<open>simp add: shg_descend_def\<close>)
qed

lemma shg_add_point_ok:
  assumes b: "built h I" and pt: "pt < length (hn_levels h)" "pt \<notin> I" "hn_levels h ! pt = pt_level + 1"
    and vt: "vt_clear (length (hn_levels h)) vt"
  shows "\<exists>h' vt'. shg_add_point qdis sd keep pt_level pt (h, vt) = Some (Inr (h', vt')) \<and>
    vt_clear (length (hn_levels h)) vt' \<and> inserted (qdis pt) sd (\<lambda>l. keep \<and> l = 0) pt_level h h' I pt"
proof (cases "I = {}")
  case True
  note F = first_inserted[OF b[unfolded True] pt(1,3)]
  then have "shg_add_point qdis sd keep pt_level pt (h, vt)
      = Some (Inr (h\<lparr> hn_max_level := int pt_level, hn_entry_point := int pt \<rparr>, vt))" by (simp add: shg_add_point_def)
  then show ?thesis using F(2) vt unfolding True by blast
next
  case False
  let ?ml = "nat (hn_max_level h)" and ?e = "nat (hn_entry_point h)"
  from b False have B: "linkable h" "\<forall>l. level_ok h I l" "0 \<le> hn_entry_point h" "0 \<le> hn_max_level h" "?e \<in> I" "on_level h ?ml ?e"
    by (simp_all add: built_def)
  define v where "v = shg_descend h (qdis pt) (rev [pt_level + 1..<?ml + 1]) ?e"
  have v: "v \<in> I" "on_level h (min ?ml pt_level) v"
    using shg_descend_ok[OF B(1,2,6,5), of "qdis pt" "pt_level + 1"] by (simp_all add: v_def)
  from link_levels_inserted[OF b False pt v vt, of "qdis pt" sd "\<lambda>l. keep \<and> l = 0"] obtain h1 vt1 where
    r: "link_levels (qdis pt) sd (\<lambda>l. keep \<and> l = 0) pt v (rev [0..<min ?ml pt_level + 1]) (h, vt) = Some (h1, vt1)"
    and h1: "vt_clear (length (hn_levels h)) vt1"
      "inserted (qdis pt) sd (\<lambda>l. keep \<and> l = 0) pt_level h (raise_entry pt_level pt h1) I pt" by blast
  have "shg_add_point qdis sd keep pt_level pt (h, vt) = Some (Inr (raise_entry pt_level pt h1, vt1))"
    using B(3,4) r unfolding shg_add_point_def link_levels_def v_def by (simp add: raise_entry_def Let_def)
  then show ?thesis using h1 by blast
qed

interpretation shg_insertion: vertex_insertion "shg_add_point qdis sd keep"
  for qdis :: "nat \<Rightarrow> nat \<Rightarrow> nat \<Rightarrow> 'd::linorder" and sd keep
proof unfold_locales
  fix h I pt l vt
  assume "built h I" "pt < length (hn_levels h)" "pt \<notin> I" "hn_levels h ! pt = l + 1" "vt_clear (length (hn_levels h)) vt"
  from shg_add_point_ok[OF this, of qdis sd keep] show
    "\<exists>h' vt'. shg_add_point qdis sd keep l pt (h, vt) = Some (Inr (h', vt')) \<and> built h' (insert pt I) \<and>
      same_levels h h' \<and> vt_clear (length (hn_levels h)) vt'"
    using inserted_built by blast
qed

section \<open>The invariant of the index\<close>

text \<open>The predictions that \<open>build_shortcut\<close> trains are at least one level.\<close>

definition shortcut_ok :: "shortcut_map \<Rightarrow> bool" where
  "shortcut_ok m \<longleftrightarrow> length (sm_values m) = length (sm_keys m) \<and> (\<forall>v \<in> set (sm_values m). 1 \<le> v) \<and>
     (sm_trained m \<longrightarrow> sorted_wrt (<) (sm_keys m) \<and> sm_pgm m = sm_keys m)"

definition shg_ok :: "shg \<Rightarrow> bool" where
  "shg_ok sg \<longleftrightarrow> index_hnsw_ok (sg_base sg) \<and> params_ok sg \<and> 2 \<le> sg_eta sg \<and>
     last_level (sg_eta sg) (ih_d (sg_base sg)) (sg_maxFixLevel sg) \<and>
     compressed_ok sg (the (ih_storage (sg_base sg))) (ih_ntotal (sg_base sg)) \<and> shortcut_ok (sg_shortcut sg)"

lemma shg_storage:
  assumes "index_hnsw_ok ix"
  obtains f where "ih_storage ix = Some f" "flat_ok f" "fl_d f = ih_d ix" "fl_metric f = ih_metric ix" "fl_ntotal f = ih_ntotal ix"
    "length (fl_codes f) = ih_ntotal ix * ih_d ix"
  using assms by (auto simp: index_hnsw_ok_def flat_ok_def split: option.splits)

lemma row_resize:
  assumes "n0 * m \<le> length xs" "n0 \<le> N" "i < n0"
  shows "row m i (resize (N * m) c xs) = row m i xs"
proof -
  have "Suc i * m \<le> n0 * m" using assms(3) by (intro mult_le_mono1) simp
  then have i: "i * m + m \<le> length xs" using assms(1) by simp
  have "i < N" using assms(2,3) by simp
  then have "row m i (take (N * m) xs) = row m i xs" by (rule row_take)
  moreover have "i * m + m \<le> length (take (N * m) xs)"
    using i row_bound[OF \<open>i < N\<close>, of "replicate (N * m) ()" m] by simp
  ultimately show ?thesis unfolding resize_def by (simp add: slice_append1)
qed

text \<open>The vectors of the new nodes are compressed, the others stay.\<close>

lemma compress_new_ok:
  assumes p: "params_ok sg" and d: "ih_d (sg_base sg) = dd" and n0: "compressed_ok sg f n0"
    and f: "length (fl_codes f') = N * dd" "\<forall>i < n0. row dd i (fl_codes f') = row dd i (fl_codes f)" "n0 \<le> N"
  defines "sg' \<equiv> (if sg_maxFixLevel sg > 0 \<and> sg_data_rep_size sg > 0
    then fold (compress_node f') [n0..<N]
           (sg\<lparr> sg_compressed_vecs := resize (N * sg_data_rep_size sg) 0 (sg_compressed_vecs sg) \<rparr>)
    else sg)"
  shows "\<exists>cs. sg' = sg\<lparr> sg_compressed_vecs := cs \<rparr> \<and> compressed_ok (sg\<lparr> sg_compressed_vecs := cs \<rparr>) f' N"
proof (cases "sg_maxFixLevel sg > 0 \<and> sg_data_rep_size sg > 0")
  case True
  let ?sg = "sg\<lparr> sg_compressed_vecs := resize (N * sg_data_rep_size sg) 0 (sg_compressed_vecs sg) \<rparr>"
  have "params_ok ?sg" "length (sg_compressed_vecs ?sg) = N * sg_data_rep_size ?sg" "set [n0..<N] \<subseteq> {..<N}"
    "length (fl_codes f') = N * ih_d (sg_base ?sg)"
    using p d f(1) by (auto simp: params_ok_def resize_def)
  from compress_nodes_ok[OF this] obtain cs where
    c: "fold (compress_node f') [n0..<N] ?sg = ?sg\<lparr> sg_compressed_vecs := cs \<rparr>" "length cs = N * sg_data_rep_size sg"
    "\<forall>j < N. row (sg_data_rep_size sg) j cs =
      (if j \<in> set [n0..<N] then rep_of (sg_eta sg) (row dd j (fl_codes f')) (sg_maxFixLevel sg)
       else row (sg_data_rep_size sg) j (resize (N * sg_data_rep_size sg) 0 (sg_compressed_vecs sg)))"
    using d by auto
  have "row (sg_data_rep_size sg) j cs = rep_of (sg_eta sg) (row dd j (fl_codes f')) (sg_maxFixLevel sg)" if "j < N" for j
  proof (cases "j < n0")
    case True
    then show ?thesis using c(3) that n0 f(2,3) row_resize[of n0 "sg_data_rep_size sg" "sg_compressed_vecs sg" N j] d
      by (simp add: compressed_ok_def)
  qed (use c(3) that in simp)
  then have "compressed_ok (sg\<lparr> sg_compressed_vecs := cs \<rparr>) f' N" using c(2) d by (simp add: compressed_ok_def)
  then show ?thesis using True c(1) by (intro exI[of _ cs]) (simp add: sg'_def)
next
  case False
  have rs: "sg_data_rep_size sg = 0" using False p by (auto simp: params_ok_def)
  have "rep_of (sg_eta sg) (row dd j (fl_codes f')) (sg_maxFixLevel sg) = []" if "j < N" for j
  proof -
    have "length (row dd j (fl_codes f')) = dd" using row_bound[OF that f(1)] by simp
    with params_rep_size[OF p] d rs show ?thesis by simp
  qed
  then have "compressed_ok (sg\<lparr> sg_compressed_vecs := sg_compressed_vecs sg \<rparr>) f' N" using rs d by (simp add: compressed_ok_def slice_def)
  moreover have "sg' = sg\<lparr> sg_compressed_vecs := sg_compressed_vecs sg \<rparr>" unfolding sg'_def if_not_P[OF False] by simp
  ultimately show ?thesis by blast
qed

lemma shg_store_ok:
  assumes ok: "shg_ok sg" and x: "n * ih_d (sg_base sg) \<le> length x" and f: "ih_storage (sg_base sg) = Some f"
  defines "f' \<equiv> flat_add f n x"
  shows "\<exists>cs. shg_store sg f n x = sg\<lparr> sg_base := (sg_base sg)\<lparr> ih_storage := Some f', ih_ntotal := ih_ntotal (sg_base sg) + n \<rparr>,
      sg_compressed_vecs := cs \<rparr> \<and>
    compressed_ok (sg\<lparr> sg_compressed_vecs := cs \<rparr>) f' (ih_ntotal (sg_base sg) + n) \<and>
    flat_ok f' \<and> fl_d f' = ih_d (sg_base sg) \<and> fl_metric f' = ih_metric (sg_base sg) \<and>
    fl_ntotal f' = ih_ntotal (sg_base sg) + n \<and>
    (\<forall>i < ih_ntotal (sg_base sg). flat_vec f' i = flat_vec f i) \<and>
    (\<forall>i < n. flat_vec f' (ih_ntotal (sg_base sg) + i) = row (ih_d (sg_base sg)) i x)"
proof -
  let ?ix = "sg_base sg" and ?n0 = "ih_ntotal (sg_base sg)" and ?d = "ih_d (sg_base sg)"
  from ok have S: "index_hnsw_ok ?ix" "params_ok sg" "compressed_ok sg f ?n0" using f by (simp_all add: shg_ok_def)
  have g: "flat_ok f" "fl_d f = ?d" "fl_metric f = ih_metric ?ix" "fl_ntotal f = ?n0"
    using shg_storage[OF S(1)] f by (metis option.inject)+
  have x': "n * fl_d f \<le> length x" using x g(2) by simp
  note F = flat_add_ok[OF g(1) x', folded f'_def]
  define sg1 where "sg1 = sg\<lparr> sg_base := ?ix\<lparr> ih_storage := Some f', ih_ntotal := ?n0 + n \<rparr> \<rparr>"
  have N: "fl_ntotal f' = ?n0 + n" using F(2) g(4) by simp
  have s1: "params_ok sg1" "ih_d (sg_base sg1) = ?d" "compressed_ok sg1 f ?n0"
    using S(2,3) by (simp_all add: sg1_def params_ok_def compressed_ok_def)
  have codes: "length (fl_codes f') = (?n0 + n) * ?d" using F(1,3) N g(2) by (simp add: flat_ok_def)
  have rows: "\<forall>i < ?n0. row ?d i (fl_codes f') = row ?d i (fl_codes f)"
    using F(3,5) g(2,4) by (simp add: flat_vec_def)
  from compress_new_ok[OF s1 codes rows le_add1] obtain cs where
    c: "(if sg_maxFixLevel sg1 > 0 \<and> sg_data_rep_size sg1 > 0
        then fold (compress_node f') [?n0..<?n0 + n]
           (sg1\<lparr> sg_compressed_vecs := resize ((?n0 + n) * sg_data_rep_size sg1) 0 (sg_compressed_vecs sg1) \<rparr>)
        else sg1) = sg1\<lparr> sg_compressed_vecs := cs \<rparr>"
    "compressed_ok (sg1\<lparr> sg_compressed_vecs := cs \<rparr>) f' (?n0 + n)" by blast
  have "shg_store sg f n x = sg1\<lparr> sg_compressed_vecs := cs \<rparr>"
    unfolding shg_store_def Let_def f'_def[symmetric] N sg1_def[symmetric] by (rule c(1))
  moreover have "compressed_ok (sg\<lparr> sg_compressed_vecs := cs \<rparr>) f' (?n0 + n)" using c(2) by (simp add: compressed_ok_def sg1_def)
  ultimately show ?thesis using F g N by (intro exI[of _ cs]) (simp add: sg1_def)
qed

lemma shg_add_vertices_ok:
  assumes h: "built (ih_hnsw (sg_base sg)) {..<n0}" "length (hn_levels (ih_hnsw (sg_base sg))) = n0" "probas_ok (ih_hnsw (sg_base sg))"
  shows "\<exists>h'. shg_add_vertices sg f n0 n x draws rnd = Some (Inr h') \<and> built h' {..<n0 + n} \<and>
    length (hn_levels h') = n0 + n \<and> probas_ok h' \<and>
    hn_levels h' = hn_levels (ih_hnsw (sg_base sg)) @ map (\<lambda>i. nat (random_level (ih_hnsw (sg_base sg)) (draws ! i) + 1)) [0..<n]"
proof -
  let ?h = "ih_hnsw (sg_base sg)"
  have lo: "layout_ok ?h" using h(1) by (simp add: built_def linkable_def)
  show ?thesis
  proof (cases "n = 0")
    case True
    have "hn_offsets ?h \<noteq> []" using lo by (auto simp: layout_ok_def)
    from last_conv_nth[OF this] have "last (hn_offsets ?h) = length (hn_neighbors ?h)" using lo by (simp add: layout_ok_def)
    then have "?h\<lparr> hn_neighbors := resize (last (hn_offsets ?h)) (-1) (hn_neighbors ?h) \<rparr> = ?h" by (simp add: resize_def)
    then have "prepare_level_tab ?h n (length (hn_levels ?h) = n0 + n) draws = Inr (?h, 0)"
      using True h(2) lo by (auto simp: prepare_level_tab_def layout_ok_def Let_def)
    then show ?thesis using h True by (simp add: shg_add_vertices_def)
  next
    case False
    from prepare_built[OF h(1) order_refl h(2,3), of n draws] obtain h0 mx where
      p: "prepare_level_tab ?h n False draws = Inr (h0, mx)" "built h0 {..<n0}" "length (hn_levels h0) = n0 + n" "probas_ok h0"
      "hn_levels h0 = hn_levels ?h @ map (\<lambda>i. nat (random_level ?h (draws ! i) + 1)) [0..<n]" by blast
    have "layout_ok h0" using p(2) by (simp add: built_def linkable_def)
    then have lev: "\<forall>i < n0 + n. hn_levels h0 ! i = pt_level_of h0 i + 1" using p(3) by (auto simp: layout_ok_def pt_level_of_def)
    let ?qd = "\<lambda>pt_id. sdc_query sg f (row (ih_d (sg_base sg)) (pt_id - n0) x)"
    let ?sd = "\<lambda>level i j. value_of (sdc_symmetric_dis sg f level i j)"
    let ?hist = "level_hist (pt_level_of h0) n0 n"
    from shg_insertion.bucket_loop_ok[OF p(2,3) lev, of ?qd ?sd "ih_keep_max_size_level0 (sg_base sg)"
        "ih_use_visited_hashset (sg_base sg)" rnd]
    obtain h' order' c' where
      r: "for_each (add_bucket (shg_add_point ?qd ?sd (ih_keep_max_size_level0 (sg_base sg)))
               (ih_use_visited_hashset (sg_base sg)) (n0 + n) rnd ?hist)
             (rev [0..<length ?hist]) (h0, bucket_sort (pt_level_of h0) n0 n ?hist, 0, n) = Some (Inr (h', order', c', 0))"
      and h': "built h' {..<n0 + n}" "same_levels h0 h'" by blast
    have "prepare_level_tab ?h n (length (hn_levels ?h) = n0 + n) draws = Inr (h0, mx)" using p(1) h(2) False by simp
    then have "shg_add_vertices sg f n0 n x draws rnd = Some (Inr h')"
      using False r by (simp add: shg_add_vertices_def Let_def)
    then show ?thesis using h' p(3-5) by (simp add: same_levels_def probas_ok_def)
  qed
qed

lemma shg_add_ok:
  assumes ok: "shg_ok sg" and x: "n * ih_d (sg_base sg) \<le> length x"
  shows "\<exists>sg' f f'. shg_add sg n x draws rnd = Some (Inr sg') \<and> shg_ok sg' \<and>
    ih_ntotal (sg_base sg') = ih_ntotal (sg_base sg) + n \<and> ih_d (sg_base sg') = ih_d (sg_base sg) \<and>
    ih_metric (sg_base sg') = ih_metric (sg_base sg) \<and>
    ih_storage (sg_base sg) = Some f \<and> ih_storage (sg_base sg') = Some f' \<and>
    (\<forall>i < ih_ntotal (sg_base sg). flat_vec f' i = flat_vec f i) \<and>
    (\<forall>i < n. flat_vec f' (ih_ntotal (sg_base sg) + i) = row (ih_d (sg_base sg)) i x) \<and>
    hn_levels (ih_hnsw (sg_base sg')) = hn_levels (ih_hnsw (sg_base sg))
      @ map (\<lambda>i. nat (random_level (ih_hnsw (sg_base sg)) (draws ! i) + 1)) [0..<n] \<and>
    sg_shortcut sg' = sg_shortcut sg \<and> sg_eta sg' = sg_eta sg \<and> sg_maxFixLevel sg' = sg_maxFixLevel sg"
proof -
  let ?ix = "sg_base sg" and ?n0 = "ih_ntotal (sg_base sg)"
  from ok have S: "index_hnsw_ok ?ix" "params_ok sg" by (simp_all add: shg_ok_def)
  obtain f where f: "ih_storage ?ix = Some f" using shg_storage[OF S(1)] .
  have h: "built (ih_hnsw ?ix) {..<?n0}" "length (hn_levels (ih_hnsw ?ix)) = ?n0" "probas_ok (ih_hnsw ?ix)" "ih_is_trained ?ix" "ih_init_level0 ?ix"
    using S(1) by (simp_all add: index_hnsw_ok_def)
  define f' where "f' = flat_add f n x"
  from shg_store_ok[OF ok x f, folded f'_def] obtain cs where
    st: "shg_store sg f n x = sg\<lparr> sg_base := ?ix\<lparr> ih_storage := Some f', ih_ntotal := ?n0 + n \<rparr>, sg_compressed_vecs := cs \<rparr>"
    and c: "compressed_ok (sg\<lparr> sg_compressed_vecs := cs \<rparr>) f' (?n0 + n)"
    and F: "flat_ok f'" "fl_d f' = ih_d ?ix" "fl_metric f' = ih_metric ?ix" "fl_ntotal f' = ?n0 + n"
      "\<forall>i < ?n0. flat_vec f' i = flat_vec f i" "\<forall>i < n. flat_vec f' (?n0 + i) = row (ih_d ?ix) i x" by blast
  define sg1 where "sg1 = sg\<lparr> sg_base := ?ix\<lparr> ih_storage := Some f', ih_ntotal := ?n0 + n \<rparr>, sg_compressed_vecs := cs \<rparr>"
  have b: "ih_hnsw (sg_base sg1) = ih_hnsw ?ix" by (simp add: sg1_def)
  from shg_add_vertices_ok[of sg1 ?n0 f' n x draws rnd, unfolded b] h obtain h' where
    r: "shg_add_vertices sg1 f' ?n0 n x draws rnd = Some (Inr h')"
    and h': "built h' {..<?n0 + n}" "length (hn_levels h') = ?n0 + n" "probas_ok h'"
      "hn_levels h' = hn_levels (ih_hnsw ?ix) @ map (\<lambda>i. nat (random_level (ih_hnsw ?ix) (draws ! i) + 1)) [0..<n]" by blast
  have dne: "sg_dim_at_level sg \<noteq> []" using S(2) by (simp add: params_ok_def)
  let ?sg' = "sg1\<lparr> sg_base := (sg_base sg1)\<lparr> ih_hnsw := h' \<rparr> \<rparr>"
  have "shg_add sg n x draws rnd = Some (Inr ?sg')"
    using f h(4) dne r unfolding shg_add_def by (simp add: st f'_def[symmetric] sg1_def[symmetric] Let_def)
  moreover have "index_hnsw_ok (sg_base ?sg')"
    using h' F h(4,5) by (simp add: index_hnsw_ok_def sg1_def)
  then have "shg_ok ?sg'" using ok c unfolding shg_ok_def
    by (simp add: params_ok_def compressed_ok_def sg1_def del: upt_Suc)
  ultimately show ?thesis using f F h'(4) by (intro exI[of _ ?sg'] exI[of _ f] exI[of _ f']) (simp add: sg1_def)
qed

end
