(* ===== verification/ShgSearch.thy ===== *)
theory ShgSearch
  imports ShgBuild IndexHnswProps
begin

text \<open>
  The search of an \<open>IndexSHG\<close>: the navigation of the upper levels with compressed distances and the learned
  shortcut, the best-first search on level 0 that prunes by a lower bound, and the loop over the queries.
  The statistics of a thread are passed as a value.
\<close>

section \<open>Navigation of the upper levels\<close>

function greedy_update_nearest_shg ::
  "hnsw \<Rightarrow> (nat \<Rightarrow> float_t) \<Rightarrow> nat \<Rightarrow> nat \<Rightarrow> shg_stats \<Rightarrow> nat \<times> float_t \<Rightarrow> shg_stats \<times> nat \<times> float_t" where
  "greedy_update_nearest_shg h qd cdim level stats s =
     (let s' = greedy_pass h qd level s;
          stats' = count_compressed (length (nbrs h (fst s) level)) cdim stats
      in if fst s' = fst s then (stats', s') else greedy_update_nearest_shg h qd cdim level stats' s')"
  by pat_completeness auto

termination
  by (relation "measure (\<lambda>(h, qd, cdim, level, stats, s). nearer_count h qd s)") (simp_all add: greedy_pass_decreases)

declare greedy_update_nearest_shg.simps [simp del]

text \<open>A level: the distance of the current vertex on it, then the greedy search.\<close>

definition nav_level :: "shg \<Rightarrow> float_t list \<Rightarrow> nat \<Rightarrow> shg_stats \<times> nat \<Rightarrow> shg_stats \<times> nat \<times> float_t" where
  "nav_level sg query_rep level s =
     (let (stats, currObj) = s;
          cl = min level (sg_maxFixLevel sg);
          cdim = sg_dim_at_level sg ! cl;
          curdist = inline_dis sg query_rep cl currObj
      in greedy_update_nearest_shg (ih_hnsw (sg_base sg)) (inline_dis sg query_rep cl) cdim level
           (count_compressed 1 cdim stats) (currObj, curdist))"

text \<open>The loop with the shortcut. A new level 0 would read the compressed data of level 0, a null pointer;
  this needs a prediction below one.\<close>

function nav_shortcut ::
  "pgm_search \<Rightarrow> shg \<Rightarrow> float_t list \<Rightarrow> nat \<Rightarrow> shg_stats \<times> nat \<times> float_t \<Rightarrow> (shg_stats \<times> nat) result" where
  "nav_shortcut pgm sg query_rep level s =
     (let (stats, currObj, curdist) = s
      in if level = 0 then Inr (stats, currObj)
         else
           let new_level = int level - predict pgm (sg_shortcut sg) curdist
           in if new_level < 1 then Inr (stats, currObj)
              else
                let level' = (if new_level \<ge> int level then level - 1 else nat new_level)
                in if level' = 0 then Inl OutOfBounds
                   else let s' = nav_level sg query_rep level' (stats, currObj)
                        in if level' \<le> 1 then Inr (fst s', fst (snd s')) else nav_shortcut pgm sg query_rep level' s')"
  by pat_completeness auto

termination
  by (relation "measure (\<lambda>(pgm, sg, query_rep, level, s). level)") auto

declare nav_shortcut.simps [simp del]

definition navigate_upper_levels ::
  "pgm_search \<Rightarrow> shg \<Rightarrow> float_t list \<Rightarrow> bool \<Rightarrow> shg_stats \<Rightarrow> (shg_stats \<times> nat) result" where
  "navigate_upper_levels pgm sg query_rep use_shortcut_flag stats =
     (let h = ih_hnsw (sg_base sg); max_l = nat (hn_max_level h); entry = nat (hn_entry_point h)
      in if max_l = 0 \<or> sg_maxFixLevel sg = 0 then Inr (stats, entry)
         else
           let cl = min max_l (sg_maxFixLevel sg);
               curdist = inline_dis sg query_rep cl entry;
               stats = count_compressed 1 (sg_dim_at_level sg ! cl) stats
           in if use_shortcut_flag \<and> sm_trained (sg_shortcut sg)
              then nav_shortcut pgm sg query_rep max_l (stats, entry, curdist)
              else Inr (fold (\<lambda>level s. let (stats, currObj, curdist) = nav_level sg query_rep level s in (stats, currObj))
                          (rev [1..<max_l + 1]) (stats, entry)))"

section \<open>The base level\<close>

text \<open>The neighbor list with a filter: a new vertex that \<open>prune\<close> rejects in the present state is marked and
  dropped; the others are collected in batches of four as before.\<close>

fun batch4_prune ::
  "('v \<Rightarrow> nat \<Rightarrow> 'v \<times> bool) \<Rightarrow> (nat \<Rightarrow> 'r \<Rightarrow> bool \<times> 'r) \<Rightarrow> (nat \<Rightarrow> 'r \<Rightarrow> 'r) \<Rightarrow> nat list \<Rightarrow> nat list \<Rightarrow> 'v \<Rightarrow> 'r \<Rightarrow> 'v \<times> 'r" where
  "batch4_prune mark prune proc [] buf vt r = (vt, fold proc buf r)"
| "batch4_prune mark prune proc (v # vs) buf vt r =
     (let (vt', new) = mark vt v
      in if \<not> new then batch4_prune mark prune proc vs buf vt' r
         else let (pruned, r') = prune v r
              in if pruned then batch4_prune mark prune proc vs buf vt' r'
                 else let buf' = buf @ [v]
                      in if length buf' = 4 then batch4_prune mark prune proc vs [] vt' (fold proc buf' r')
                         else batch4_prune mark prune proc vs buf' vt' r')"

text \<open>The state is (results, candidates, statistics); an exact distance is counted when it is used.\<close>

definition shg_add_to_heap ::
  "(nat \<Rightarrow> float_t) \<Rightarrow> nat \<Rightarrow> float_t hres \<times> float_t minimax \<times> shg_stats \<Rightarrow> float_t hres \<times> float_t minimax \<times> shg_stats" where
  "shg_add_to_heap qd v s =
     (let (res, cand, stats) = s; dis = qd v
      in (if dis < hr_threshold res then fst (add_result dis (int v) res) else res,
          mm_push (int v) dis cand, stats\<lparr> n_dis_full := n_dis_full stats + 1 \<rparr>))"

text \<open>The lower bound on the most compressed level \<open>L\<close>, scaled by \<open>eta ^ L\<close>; no pruning when \<open>L\<close> is 0.\<close>

definition lower_bound_of :: "shg \<Rightarrow> float_t list \<Rightarrow> nat \<Rightarrow> float_t" where
  "lower_bound_of sg query_rep v =
     (let L = sg_maxFixLevel sg in inline_dis sg query_rep L v * of_nat (sg_eta sg) ^ L)"

definition prune_by_lb ::
  "shg \<Rightarrow> float_t list \<Rightarrow> bool \<Rightarrow> nat \<Rightarrow> float_t hres \<times> float_t minimax \<times> shg_stats \<Rightarrow>
   bool \<times> float_t hres \<times> float_t minimax \<times> shg_stats" where
  "prune_by_lb sg query_rep use_lb_pruning v s =
     (let (res, cand, stats) = s; L = sg_maxFixLevel sg
      in if use_lb_pruning \<and> L > 0
         then let stats = count_compressed 1 (sg_dim_at_level sg ! L) stats
              in if lower_bound_of sg query_rep v > hr_threshold res
                 then (True, res, cand, stats\<lparr> n_lb_pruned := n_lb_pruned stats + 1 \<rparr>)
                 else (False, res, cand, stats)
         else (False, s))"

text \<open>The state of the loop is (results, candidates, visited, statistics, nstep).\<close>

definition shg_sfc_step ::
  "shg \<Rightarrow> (nat \<Rightarrow> float_t) \<Rightarrow> float_t list \<Rightarrow> bool \<Rightarrow> bool \<Rightarrow> nat \<Rightarrow>
   float_t hres \<times> float_t minimax \<times> vtable \<times> shg_stats \<times> nat \<Rightarrow>
   float_t hres \<times> float_t minimax \<times> vtable \<times> shg_stats \<times> nat + float_t hres \<times> float_t minimax \<times> vtable \<times> shg_stats \<times> nat" where
  "shg_sfc_step sg qd query_rep use_lb_pruning do_dis_check efSearch s =
     (let (res, cand, vt, stats, nstep) = s
      in if \<not> mm_size cand > 0 then Inl s
         else
           let ((v0, vmin), cand1) = mm_pop_min cand;
               d0 = (case vmin of None \<Rightarrow> 0 | Some d \<Rightarrow> d)
           in if do_dis_check \<and> mm_count_below d0 cand1 \<ge> efSearch
              then Inl (res, cand1, vt, stats, nstep)
              else
                let (vt', res', cand', stats') =
                      batch4_prune vt_mark (prune_by_lb sg query_rep use_lb_pruning) (shg_add_to_heap qd)
                        (nbrs (ih_hnsw (sg_base sg)) (nat v0) 0) [] vt (res, cand1, stats);
                    s' = (res', cand', vt', stats', nstep + 1)
                in if \<not> do_dis_check \<and> nstep + 1 > efSearch then Inl s' else Inr s')"

definition search_from_candidates_shg ::
  "shg \<Rightarrow> (nat \<Rightarrow> float_t) \<Rightarrow> float_t hres \<Rightarrow> float_t minimax \<Rightarrow> vtable \<Rightarrow> float_t list \<Rightarrow> bool \<Rightarrow> bool \<Rightarrow> nat \<Rightarrow> shg_stats \<Rightarrow>
   (float_t hres \<times> vtable \<times> shg_stats) result option" where
  "search_from_candidates_shg sg qd res cand vt query_rep use_lb_pruning do_dis_check efSearch stats =
     (case sfc_init None res cand vt of
        Inl e \<Rightarrow> Some (Inl e)
      | Inr (res1, vt1) \<Rightarrow>
          map_option (\<lambda>(res, cand, vt, stats, nstep). Inr (res, vt, stats))
            (run_loop (shg_sfc_step sg qd query_rep use_lb_pruning do_dis_check efSearch) (res1, cand, vt1, stats, 0)))"

section \<open>The search\<close>

text \<open>\<open>gp_shg\<close> holds \<open>use_shortcut\<close> and \<open>use_lb_pruning\<close> when the parameters are of the class
  \<open>SearchParametersSHG\<close>, which extends that of HNSW.\<close>

record shg_params =
  gp_params :: params
  gp_shg :: "(bool \<times> bool) option"

text \<open>The field \<open>sel\<close> of the parameters, which this search hands on to the fallback only.\<close>

definition shg_sel :: "shg_params option \<Rightarrow> (nat \<Rightarrow> bool) option" where
  "shg_sel params = (case params of None \<Rightarrow> None | Some p \<Rightarrow> par_sel (gp_params p))"

text \<open>(use_shortcut, use_lb_pruning, do_dis_check, efSearch). Other classes of parameters are ignored.\<close>

definition shg_extract_params :: "nat \<Rightarrow> shg_params option \<Rightarrow> bool \<times> bool \<times> bool \<times> nat" where
  "shg_extract_params k params =
     (case params of
        None \<Rightarrow> (True, True, True, k)
      | Some p \<Rightarrow>
          (case (gp_shg p, par_hnsw (gp_params p)) of
             (Some (use_shortcut, use_lb), Some sp) \<Rightarrow>
               (use_shortcut, use_lb, sp_check_relative_distance sp, if sp_efSearch sp > k then sp_efSearch sp else k)
           | _ \<Rightarrow> (True, True, True, k)))"

text \<open>One query; a thread keeps the buffer \<open>query_rep\<close> and the visited table.\<close>

definition shg_search_query ::
  "pgm_search \<Rightarrow> shg \<Rightarrow> flat \<Rightarrow> float_t list \<Rightarrow> nat \<Rightarrow> bool \<times> bool \<times> bool \<times> nat \<Rightarrow> nat \<Rightarrow>
   (float_t \<times> int) list list \<times> (float_t list \<times> vtable) \<times> shg_stats \<Rightarrow>
   ((float_t \<times> int) list list \<times> (float_t list \<times> vtable) \<times> shg_stats) result option" where
  "shg_search_query pgm sg f x k ps i s =
     (let (rows, (query_rep, vt), stats) = s;
          (use_shortcut, use_lb, do_dis_check, ef) = ps;
          query = row (ih_d (sg_base sg)) i x;
          qd = flat_dis f query;
          query_rep = build_compressed_query_rep sg query query_rep
      in case navigate_upper_levels pgm sg query_rep use_shortcut stats of
           Inl e \<Rightarrow> Some (Inl e)
         | Inr (stats, ep) \<Rightarrow>
             let stats = stats\<lparr> n_dis_full := n_dis_full stats + 1, n_queries := n_queries stats + 1 \<rparr>
             in map_option (\<lambda>r. bind_result r (\<lambda>(res, vt, stats).
                    Inr (rows[i := res_end FLT_MAX res], (query_rep, vt_advance vt), stats)))
                  (search_from_candidates_shg sg qd (res_begin FLT_MAX k (rows ! i))
                    (mm_push (int ep) (qd ep) (MinimaxHeap ef)) vt query_rep use_lb do_dis_check ef stats))"

definition shg_search_thread ::
  "pgm_search \<Rightarrow> shg \<Rightarrow> flat \<Rightarrow> float_t list \<Rightarrow> nat \<Rightarrow> bool \<times> bool \<times> bool \<times> nat \<Rightarrow> nat list \<Rightarrow>
   (float_t \<times> int) list list \<times> shg_stats \<Rightarrow> ((float_t \<times> int) list list \<times> shg_stats) result option" where
  "shg_search_thread pgm sg f x k ps qs s =
     (let (rows, shg_stats) = s
      in map_option (\<lambda>r. bind_result r (\<lambda>(rows, v, tls). Inr (rows, shg_stats_combine shg_stats tls)))
           (for_each (shg_search_query pgm sg f x k ps) qs
             (rows, (replicate (sg_data_rep_size sg) 0,
                VisitedTable (ih_ntotal (sg_base sg)) (ih_use_visited_hashset (sg_base sg))), SHGStats)))"

text \<open>The result of the fallback to \<open>IndexHNSWFlat::search\<close> leaves the statistics of this index.\<close>

definition shg_search ::
  "pgm_search \<Rightarrow> shg \<Rightarrow> float_t list \<Rightarrow> int \<Rightarrow> shg_params option \<Rightarrow> nat list list \<Rightarrow> (float_t \<times> int) list list \<Rightarrow> shg_stats \<Rightarrow>
   ((float_t \<times> int) list list \<times> shg_stats) result option" where
  "shg_search pgm sg x k params sched rows stats =
     (if \<not> ih_ntotal (sg_base sg) > 0 then Some (Inl (FaissException ''IndexSHG: search called on empty index''))
      else if \<not> k > 0 then Some (Inl (FaissException ''k > 0''))
      else if sg_maxFixLevel sg = 0
      then map_option (\<lambda>r. bind_result r (\<lambda>(rows, hstats). Inr (rows, stats)))
             (index_hnsw_search (sg_base sg) x k (map_option gp_params params) sched rows)
      else if \<not> (sg_compressed_vecs sg \<noteq> [] \<or> hn_max_level (ih_hnsw (sg_base sg)) = 0)
      then Some (Inl (FaissException ''IndexSHG: build_shortcut() must be called before search()''))
      else case ih_storage (sg_base sg) of
        None \<Rightarrow> Some (Inl OutOfBounds)
      | Some f \<Rightarrow>
          let (use_shortcut, use_lb, do_dis_check, ef) = shg_extract_params (nat k) params;
              use_shortcut = (use_shortcut \<and> sm_trained (sg_shortcut sg))
          in for_each (shg_search_thread pgm sg f x (nat k) (use_shortcut, use_lb, do_dis_check, ef)) sched (rows, stats))"

section \<open>Loops in step\<close>

text \<open>When the first loop ends and the second one simulates it, the second one ends too.\<close>

lemma run_loop_sim:
  fixes step1 :: "'s \<Rightarrow> 'r + 's" and step2 :: "'t \<Rightarrow> 'q + 't"
  assumes "run_loop step1 s1 = Some r1" "S s1 s2"
    and "\<And>s t r. S s t \<Longrightarrow> step1 s = Inl r \<Longrightarrow> \<exists>q. step2 t = Inl q \<and> Q r q"
    and "\<And>s t s'. S s t \<Longrightarrow> step1 s = Inr s' \<Longrightarrow> \<exists>t'. step2 t = Inr t' \<and> S s' t'"
  shows "\<exists>r2. run_loop step2 s2 = Some r2 \<and> Q r1 r2"
proof -
  define P where "P = (\<lambda>(step :: 's \<Rightarrow> 'r + 's) s r. step = step1 \<longrightarrow> (\<forall>t. S s t \<longrightarrow> (\<exists>q. run_loop step2 t = Some q \<and> Q r q)))"
  have "P step1 s1 r1"
  proof (rule run_loop.raw_induct[OF _ assms(1), of P])
    fix rl :: "('s \<Rightarrow> 'r + 's) \<Rightarrow> 's \<Rightarrow> 'r option" and st s r
    assume IH: "\<And>st s r. rl st s = Some r \<Longrightarrow> P st s r"
      and r: "(case st s of Inl r \<Rightarrow> Some r | Inr s' \<Rightarrow> rl st s') = Some r"
    show "P st s r"
      unfolding P_def
    proof (intro impI allI)
      fix t assume st: "st = step1" and t: "S s t"
      show "\<exists>q. run_loop step2 t = Some q \<and> Q r q"
      proof (cases "step1 s")
        case (Inl r')
        with r st have "r' = r" by simp
        with assms(3)[OF t Inl] show ?thesis by (subst run_loop.simps) auto
      next
        case (Inr s')
        with r st have "rl st s' = Some r" by simp
        from IH[OF this] st have "\<forall>t. S s' t \<longrightarrow> (\<exists>q. run_loop step2 t = Some q \<and> Q r q)" by (simp add: P_def)
        with assms(4)[OF t Inr] show ?thesis by (subst run_loop.simps) auto
      qed
    qed
  qed
  with assms(2) show ?thesis by (simp add: P_def)
qed

end
