(* ===== verification/ShgSearchOk.thy ===== *)
theory ShgSearchOk
  imports ShgSearch
begin

text \<open>
  Correctness of the search of an \<open>IndexSHG\<close>: the navigation ends on level 0, the search of level 0 returns
  the best of the vertices that it evaluates, which are all that it visits when the lower bound is one, and
  without pruning it is the search of HNSW.
\<close>

section \<open>Navigation\<close>

lemma greedy_shg_eq: "snd (greedy_update_nearest_shg h qd cdim l stats s) = snd (greedy_update_nearest h qd l st s)"
proof (induction h qd cdim l stats s arbitrary: st rule: greedy_update_nearest_shg.induct)
  case (1 h qd cdim l stats s)
  show ?case
    by (subst greedy_update_nearest_shg.simps, subst greedy_update_nearest.simps) (simp add: Let_def "1.IH"[OF refl refl])
qed

lemma nav_level_ok:
  assumes "links_ok (ih_hnsw (sg_base sg))" "on_level (ih_hnsw (sg_base sg)) l v"
  shows "\<exists>stats' w d. nav_level sg qrep l (stats, v) = (stats', w, d) \<and> on_level (ih_hnsw (sg_base sg)) l w"
proof -
  let ?h = "ih_hnsw (sg_base sg)" and ?qd = "inline_dis sg qrep (min l (sg_maxFixLevel sg))"
  obtain st w d where g: "greedy_update_nearest ?h ?qd l HNSWStats (v, ?qd v) = (st, w, d)" by (metis prod_cases3)
  then have "w \<in> reach ?h l {v}" using greedy_ok by blast
  then have "on_level ?h l w" using assms by (auto intro: reach_on_level)
  moreover have "snd (nav_level sg qrep l (stats, v)) = (w, d)"
    using greedy_shg_eq[of ?h ?qd _ l _ "(v, ?qd v)" HNSWStats] g by (simp add: nav_level_def Let_def)
  ultimately show ?thesis by (metis prod.collapse)
qed

lemma nav_levels_ok:
  assumes "links_ok (ih_hnsw (sg_base sg))" "on_level (ih_hnsw (sg_base sg)) m v"
  shows "\<exists>stats' w. fold (\<lambda>level s. let (stats, currObj, curdist) = nav_level sg qrep level s in (stats, currObj))
      (rev [1..<m + 1]) (stats, v) = (stats', w) \<and> on_level (ih_hnsw (sg_base sg)) 0 w"
  using assms(2)
proof (induction m arbitrary: stats v)
  case (Suc m)
  from nav_level_ok[OF assms(1) Suc.prems] obtain stats1 w d where
    w: "nav_level sg qrep (Suc m) (stats, v) = (stats1, w, d)" "on_level (ih_hnsw (sg_base sg)) (Suc m) w" by blast
  from Suc.IH[OF on_level_down[OF w(2)], of stats1] w(1) show ?case by simp
qed simp

lemma nav_shortcut_ok:
  assumes "links_ok (ih_hnsw (sg_base sg))" "\<And>x. 1 \<le> predict pgm (sg_shortcut sg) x"
    and "on_level (ih_hnsw (sg_base sg)) m v"
  shows "\<exists>stats' w. nav_shortcut pgm sg qrep m (stats, v, cd) = Inr (stats', w) \<and> on_level (ih_hnsw (sg_base sg)) 0 w"
  using assms(3)
proof (induction m arbitrary: stats v cd rule: less_induct)
  case (less m)
  let ?new = "int m - predict pgm (sg_shortcut sg) cd"
  have low: "?new < int m" using assms(2)[of cd] by simp
  have z: "on_level (ih_hnsw (sg_base sg)) 0 v" using less.prems by (rule on_level_down) simp
  show ?case
  proof (cases "m = 0 \<or> ?new < 1")
    case True
    then show ?thesis using z by (subst nav_shortcut.simps) auto
  next
    case False
    let ?l = "nat ?new"
    have l: "?l < m" "1 \<le> ?l" using False low by linarith+
    from nav_level_ok[OF assms(1) on_level_down[OF less.prems, of ?l]] l obtain stats1 w d where
      w: "nav_level sg qrep ?l (stats, v) = (stats1, w, d)" "on_level (ih_hnsw (sg_base sg)) ?l w" by fastforce
    have eq: "nav_shortcut pgm sg qrep m (stats, v, cd) = (if ?l \<le> 1 then Inr (stats1, w) else nav_shortcut pgm sg qrep ?l (stats1, w, d))"
      using False low l w(1) by (subst nav_shortcut.simps) (simp add: Let_def)
    show ?thesis using less.IH[OF l(1) w(2), of stats1 d] on_level_down[OF w(2), of 0] unfolding eq by simp
  qed
qed

lemma predict_ge_1: "shortcut_ok m \<Longrightarrow> 1 \<le> predict pgm m x"
  by (auto simp: shortcut_ok_def predict_def Let_def not_le split: prod.splits)

lemma navigate_ok:
  assumes ok: "shg_ok sg" and n: "0 < ih_ntotal (sg_base sg)"
  shows "\<exists>stats' w. navigate_upper_levels pgm sg qrep b stats = Inr (stats', w) \<and> w < ih_ntotal (sg_base sg)"
proof -
  let ?h = "ih_hnsw (sg_base sg)" and ?m = "nat (hn_max_level (ih_hnsw (sg_base sg)))" and ?e = "nat (hn_entry_point (ih_hnsw (sg_base sg)))"
  from ok have b: "built ?h {..<ih_ntotal (sg_base sg)}" "length (hn_levels ?h) = ih_ntotal (sg_base sg)" "shortcut_ok (sg_shortcut sg)"
    by (simp_all add: shg_ok_def index_hnsw_ok_def)
  have "{..<ih_ntotal (sg_base sg)} \<noteq> {}" using n by (simp add: lessThan_empty_iff)
  then have e: "links_ok ?h" "on_level ?h ?m ?e" using b(1) by (simp_all add: built_def linkable_def)
  have z: "on_level ?h 0 w \<Longrightarrow> w < ih_ntotal (sg_base sg)" for w using b(2) by (simp add: on_level_def)
  have "on_level ?h 0 ?e" using e(2) by (rule on_level_down) simp
  moreover have "\<exists>stats' w. nav_shortcut pgm sg qrep ?m (st, ?e, cd) = Inr (stats', w) \<and> on_level ?h 0 w" for st cd
    by (rule nav_shortcut_ok[OF e(1) predict_ge_1[OF b(3)] e(2)])
  moreover have "\<exists>stats' w. fold (\<lambda>level s. let (stats, currObj, curdist) = nav_level sg qrep level s in (stats, currObj))
      (rev [1..<?m + 1]) (st, ?e) = (stats', w) \<and> on_level ?h 0 w" for st
    by (rule nav_levels_ok[OF e])
  ultimately show ?thesis
    unfolding navigate_upper_levels_def Let_def using z by (fastforce simp del: upt_Suc)
qed

section \<open>The base level with pruning\<close>

text \<open>\<open>V\<close> is visited, \<open>buf\<close> waits in the buffer, a set of the others was evaluated from the start \<open>V0\<close> on,
  when \<open>n0\<close> distances and \<open>p0\<close> prunings were counted. With a sound bound a pruned vertex may count as
  offered to the results.\<close>

definition offered ::
  "(nat \<Rightarrow> float_t) \<Rightarrow> nat \<Rightarrow> float_t \<Rightarrow> bool \<Rightarrow> nat set \<Rightarrow> nat \<Rightarrow> nat \<Rightarrow> nat set \<Rightarrow> nat list \<Rightarrow> float_t hres \<Rightarrow> shg_stats \<Rightarrow> bool" where
  "offered qd k neutral sound V0 n0 p0 V buf res stats \<longleftrightarrow> distinct buf \<and>
     (\<exists>E. V0 \<subseteq> E \<and> E \<union> set buf \<subseteq> V \<and> E \<inter> set buf = {} \<and> res_ok k neutral (pairs qd None E) res \<and>
        n_dis_full stats + card V0 = n0 + card E \<and> n_lb_pruned stats + card E + length buf = p0 + card V) \<and>
     (sound \<longrightarrow> res_ok k neutral (pairs qd None (V - set buf)) res)"

lemma offered_stats:
  "n_dis_full st = n_dis_full st' \<Longrightarrow> n_lb_pruned st = n_lb_pruned st' \<Longrightarrow>
    offered qd k neutral sound V0 n0 p0 V buf res st = offered qd k neutral sound V0 n0 p0 V buf res st'"
  by (simp add: offered_def)

lemma offered_push:
  assumes "offered qd k neutral sound V0 n0 p0 V buf res st" "v \<notin> V" "finite V"
  shows "offered qd k neutral sound V0 n0 p0 (insert v V) (buf @ [v]) res st"
proof -
  from assms(1) obtain E where E: "V0 \<subseteq> E" "E \<union> set buf \<subseteq> V" "E \<inter> set buf = {}" "res_ok k neutral (pairs qd None E) res"
    "n_dis_full st + card V0 = n0 + card E" "n_lb_pruned st + card E + length buf = p0 + card V" unfolding offered_def by blast
  have "insert v V - set (buf @ [v]) = V - set buf" using assms(2) by auto
  then show ?thesis using assms E unfolding offered_def by (intro conjI exI[of _ E]) auto
qed

lemma offered_prune:
  assumes "offered qd k neutral sound V0 n0 p0 V buf res st" "v \<notin> V" "finite V"
    and "sound \<Longrightarrow> \<not> qd v < hr_threshold res"
  shows "offered qd k neutral sound V0 n0 p0 (insert v V) buf res (st\<lparr> n_lb_pruned := n_lb_pruned st + 1 \<rparr>)"
proof -
  from assms(1) obtain E where E: "V0 \<subseteq> E" "E \<union> set buf \<subseteq> V" "E \<inter> set buf = {}" "res_ok k neutral (pairs qd None E) res"
    "n_dis_full st + card V0 = n0 + card E" "n_lb_pruned st + card E + length buf = p0 + card V" unfolding offered_def by blast
  have "res_ok k neutral (pairs qd None (insert v V - set buf)) res" if sound
  proof -
    have v: "v \<notin> set buf" using E(2) assms(2) by auto
    then have "insert v V - set buf = insert v (V - set buf)" by auto
    moreover have "res_ok k neutral (add_mset (qd v, int v) (pairs qd None (V - set buf))) res"
      using res_ok_add[of k neutral "pairs qd None (V - set buf)" res "qd v" "int v"] add_result_guard[OF assms(4)[OF that], of "int v"]
        assms(1) that by (simp add: offered_def)
    ultimately show ?thesis using assms(2,3) by (simp add: pairs_insert is_member_def)
  qed
  then show ?thesis using assms E unfolding offered_def by (intro conjI exI[of _ E]) auto
qed

text \<open>Working off the buffer is that of HNSW without a selector.\<close>

lemma shg_add_fold:
  "fold (add_to_heap None qd) us (res, cand, nres, ndis) = (res', cand', nres', ndis') \<Longrightarrow>
    fold (shg_add_to_heap qd) us (res, cand, st) = (res', cand', st\<lparr> n_dis_full := n_dis_full st + length us \<rparr>)"
proof (induction us arbitrary: res cand nres ndis st)
  case (Cons u us)
  obtain res1 cand1 nres1 ndis1 where s: "add_to_heap None qd u (res, cand, nres, ndis) = (res1, cand1, nres1, ndis1)"
    by (metis prod_cases4)
  then have "shg_add_to_heap qd u (res, cand, st) = (res1, cand1, st\<lparr> n_dis_full := n_dis_full st + 1 \<rparr>)"
    by (auto simp: shg_add_to_heap_def add_to_heap_def is_member_def Let_def split: prod.splits if_splits)
  then show ?case using Cons.IH[of res1 cand1 nres1 ndis1 "st\<lparr> n_dis_full := n_dis_full st + 1 \<rparr>"] Cons.prems s by simp
qed simp

lemma offered_flush:
  assumes off: "offered qd k neutral sound V0 n0 p0 V buf res st" and V: "finite V" and cand: "mm_inv cand" "0 < mm_n cand"
  shows "\<exists>res' cand' st'. fold (shg_add_to_heap qd) buf (res, cand, st) = (res', cand', st') \<and>
    offered qd k neutral sound V0 n0 p0 V [] res' st' \<and> mm_inv cand' \<and> mm_n cand' = mm_n cand \<and>
    mm_elems cand' \<subseteq># mm_elems cand + mset (map (\<lambda>u. (qd u, int u)) buf)"
proof -
  from off obtain E where E: "V0 \<subseteq> E" "E \<union> set buf \<subseteq> V" "E \<inter> set buf = {}" "res_ok k neutral (pairs qd None E) res"
    "n_dis_full st + card V0 = n0 + card E" "n_lb_pruned st + card E + length buf = p0 + card V" "distinct buf" unfolding offered_def by blast
  have fin: "finite E" "finite (V - set buf)" "set buf \<inter> E = {}" "set buf \<inter> (V - set buf) = {}"
    using V E(2,3) by (auto intro: finite_subset)
  obtain res' cand' nres' ndis' where f: "fold (add_to_heap None qd) buf (res, cand, 0, 0) = (res', cand', nres', ndis')"
    by (metis prod_cases4)
  note A = add_to_heap_fold[OF E(4) fin(1) E(7) fin(3) cand f]
  have c: "card (E \<union> set buf) = card E + length buf"
    using E(3,7) fin(1) by (subst card_Un_disjoint) (auto simp: distinct_card)
  have "res_ok k neutral (pairs qd None V) res'" if sound
  proof -
    have "res_ok k neutral (pairs qd None (V - set buf)) res" using off that by (simp add: offered_def)
    from add_to_heap_fold[OF this fin(2) E(7) fin(4) cand f] have "res_ok k neutral (pairs qd None (V - set buf \<union> set buf)) res'" by blast
    moreover have "V - set buf \<union> set buf = V" using E(2) by auto
    ultimately show ?thesis by simp
  qed
  then have "offered qd k neutral sound V0 n0 p0 V [] res' (st\<lparr> n_dis_full := n_dis_full st + length buf \<rparr>)"
    using A c E unfolding offered_def by (intro conjI exI[of _ "E \<union> set buf"]) auto
  then show ?thesis using A shg_add_fold[OF f, of st] by blast
qed

text \<open>What the loop keeps, with a buffer; the measure counts the vertices not visited and the queue.\<close>

definition level0_ok ::
  "(nat \<Rightarrow> float_t) \<Rightarrow> nat \<Rightarrow> nat \<Rightarrow> float_t \<Rightarrow> bool \<Rightarrow> nat set \<Rightarrow> nat \<Rightarrow> nat \<Rightarrow> nat list \<Rightarrow>
   float_t hres \<Rightarrow> float_t minimax \<Rightarrow> vtable \<Rightarrow> shg_stats \<Rightarrow> bool" where
  "level0_ok qd n k neutral sound V0 n0 p0 buf res cand vt st \<longleftrightarrow>
     vt_inv n vt \<and> mm_inv cand \<and> 0 < mm_n cand \<and> (\<forall>p \<in># mm_elems cand. \<exists>v \<in> visited n vt. p = (qd v, int v)) \<and>
     offered qd k neutral sound V0 n0 p0 (visited n vt) buf res st"

lemma level0_flush:
  assumes "level0_ok qd n k neutral sound V0 n0 p0 buf res cand vt st"
  shows "\<exists>res' cand' st'. fold (shg_add_to_heap qd) buf (res, cand, st) = (res', cand', st') \<and>
    level0_ok qd n k neutral sound V0 n0 p0 [] res' cand' vt st' \<and> size (mm_elems cand') \<le> size (mm_elems cand) + length buf"
proof -
  from assms have L: "vt_inv n vt" "mm_inv cand" "0 < mm_n cand" "\<forall>p \<in># mm_elems cand. \<exists>v \<in> visited n vt. p = (qd v, int v)"
    "offered qd k neutral sound V0 n0 p0 (visited n vt) buf res st" by (simp_all add: level0_ok_def)
  from offered_flush[OF L(5) finite_visited L(2,3)] obtain res' cand' st' where
    f: "fold (shg_add_to_heap qd) buf (res, cand, st) = (res', cand', st')" "offered qd k neutral sound V0 n0 p0 (visited n vt) [] res' st'"
      "mm_inv cand'" "mm_n cand' = mm_n cand" "mm_elems cand' \<subseteq># mm_elems cand + mset (map (\<lambda>u. (qd u, int u)) buf)" by blast
  have buf: "set buf \<subseteq> visited n vt" using L(5) by (auto simp: offered_def)
  have "\<exists>v \<in> visited n vt. p = (qd v, int v)" if "p \<in># mm_elems cand'" for p
  proof -
    from mset_subset_eqD[OF f(5) that] have "p \<in># mm_elems cand \<or> p \<in> (\<lambda>u. (qd u, int u)) ` set buf" by simp
    with L(4) buf show ?thesis by blast
  qed
  moreover have "size (mm_elems cand') \<le> size (mm_elems cand) + length buf" using size_mset_mono[OF f(5)] by simp
  ultimately show ?thesis using f L by (intro exI conjI) (simp_all add: level0_ok_def)
qed

lemma visited_new:
  assumes "vt_inv n vt" "v < n"
  shows "vt_inv n (fst (vt_mark vt v))" "visited n (fst (vt_mark vt v)) = insert v (visited n vt)"
    "snd (vt_mark vt v) \<longleftrightarrow> v \<notin> visited n vt"
  using vt.inv_mark[OF assms] vt.get_mark[OF assms] vt.mark_new[OF assms] assms(2) by (auto simp: visited_def)

text \<open>The filter gives up a vertex only when its bound is above the threshold.\<close>

lemma prune_cases:
  obtains (pruned) st1 where "prune_by_lb sg qrep b v (res, cand, st) = (True, res, cand, st1\<lparr> n_lb_pruned := n_lb_pruned st1 + 1 \<rparr>)"
      "n_dis_full st1 = n_dis_full st" "n_lb_pruned st1 = n_lb_pruned st" "b" "lower_bound_of sg qrep v > hr_threshold res"
    | (kept) st1 where "prune_by_lb sg qrep b v (res, cand, st) = (False, res, cand, st1)"
      "n_dis_full st1 = n_dis_full st" "n_lb_pruned st1 = n_lb_pruned st"
proof (cases "b \<and> sg_maxFixLevel sg > 0")
  case True
  define st1 where "st1 = count_compressed 1 (sg_dim_at_level sg ! sg_maxFixLevel sg) st"
  have st1: "n_dis_full st1 = n_dis_full st" "n_lb_pruned st1 = n_lb_pruned st" by (simp_all add: st1_def count_compressed_def)
  show ?thesis
  proof (cases "lower_bound_of sg qrep v > hr_threshold res")
    case below: True
    show ?thesis by (rule pruned[of st1]) (use True st1 below in \<open>simp_all add: prune_by_lb_def st1_def Let_def\<close>)
  next
    case False
    show ?thesis by (rule kept[of st1]) (use True st1 False in \<open>simp_all add: prune_by_lb_def st1_def Let_def\<close>)
  qed
next
  case False
  show ?thesis by (rule kept[of st]) (use False in \<open>auto simp: prune_by_lb_def Let_def\<close>)
qed

definition bound_sound :: "shg \<Rightarrow> (nat \<Rightarrow> float_t) \<Rightarrow> float_t list \<Rightarrow> nat \<Rightarrow> bool \<Rightarrow> bool" where
  "bound_sound sg qd qrep n b \<longleftrightarrow> (b \<longrightarrow> (\<forall>v < n. lower_bound_of sg qrep v \<le> qd v))"

lemma batch4_prune_ok:
  assumes "level0_ok qd n k neutral sound V0 n0 p0 buf res cand vt st" "set vs \<subseteq> {..<n}"
    and sound: "sound \<Longrightarrow> bound_sound sg qd qrep n b"
  shows "\<exists>vt' res' cand' st'. batch4_prune vt_mark (prune_by_lb sg qrep b) (shg_add_to_heap qd) vs buf vt (res, cand, st)
      = (vt', res', cand', st') \<and>
    level0_ok qd n k neutral sound V0 n0 p0 [] res' cand' vt' st' \<and> visited n vt' = visited n vt \<union> set vs \<and>
    size (mm_elems cand') + card (visited n vt) \<le> size (mm_elems cand) + length buf + card (visited n vt')"
  using assms(1,2)
proof (induction vs arbitrary: buf res cand vt st)
  case Nil
  from level0_flush[OF Nil.prems(1)] show ?case by auto
next
  case (Cons v vs)
  let ?P = "prune_by_lb sg qrep b" and ?A = "shg_add_to_heap qd"
  let ?vt = "fst (vt_mark vt v)"
  from Cons.prems have L: "vt_inv n vt" "mm_inv cand" "0 < mm_n cand" "\<forall>p \<in># mm_elems cand. \<exists>v \<in> visited n vt. p = (qd v, int v)"
    "offered qd k neutral sound V0 n0 p0 (visited n vt) buf res st" and v: "v < n" "set vs \<subseteq> {..<n}" by (auto simp: level0_ok_def)
  note M = visited_new[OF L(1) v(1)]
  define next_ok where "next_ok = (\<lambda>buf' res' cand' st'.
    level0_ok qd n k neutral sound V0 n0 p0 buf' res' cand' ?vt st' \<and>
    size (mm_elems cand') + length buf' \<le> size (mm_elems cand) + length buf + (if v \<in> visited n vt then 0 else 1) \<and>
    batch4_prune vt_mark ?P ?A (v # vs) buf vt (res, cand, st) = batch4_prune vt_mark ?P ?A vs buf' ?vt (res', cand', st'))"
  have "\<exists>buf' res' cand' st'. next_ok buf' res' cand' st'"
  proof (cases "v \<in> visited n vt")
    case True
    have "next_ok buf res cand st"
      using L M True unfolding next_ok_def by (simp add: level0_ok_def insert_absorb case_prod_beta)
    then show ?thesis by blast
  next
    case new: False
    have els: "\<forall>p \<in># mm_elems cand. \<exists>w \<in> insert v (visited n vt). p = (qd w, int w)" using L(4) by blast
    show ?thesis
    proof (cases rule: prune_cases[of sg qrep b v res cand st])
      case (pruned st1)
      have "sound \<Longrightarrow> \<not> qd v < hr_threshold res" using sound pruned(4,5) v(1) by (force simp: bound_sound_def)
      from offered_prune[OF L(5)[folded offered_stats[OF pruned(2,3)]] new finite_visited this]
      have "next_ok buf res cand (st1\<lparr> n_lb_pruned := n_lb_pruned st1 + 1 \<rparr>)"
        using L(2,3) M els new pruned(1) unfolding next_ok_def by (simp add: level0_ok_def case_prod_beta)
      then show ?thesis by blast
    next
      case (kept st1)
      from offered_push[OF L(5)[folded offered_stats[OF kept(2,3)]] new finite_visited]
      have ok: "level0_ok qd n k neutral sound V0 n0 p0 (buf @ [v]) res cand ?vt st1"
        using L(2,3) M els by (simp add: level0_ok_def)
      show ?thesis
      proof (cases "length (buf @ [v]) = 4")
        case True
        from level0_flush[OF ok] obtain res' cand' st' where
          "fold ?A (buf @ [v]) (res, cand, st1) = (res', cand', st')" "level0_ok qd n k neutral sound V0 n0 p0 [] res' cand' ?vt st'"
            "size (mm_elems cand') \<le> size (mm_elems cand) + length (buf @ [v])" by blast
        then have "next_ok [] res' cand' st'" using M(3) new kept(1) True unfolding next_ok_def by (simp add: case_prod_beta)
        then show ?thesis by blast
      next
        case False
        then have "next_ok (buf @ [v]) res cand st1" using M(3) new kept(1) ok unfolding next_ok_def by (simp add: case_prod_beta)
        then show ?thesis by blast
      qed
    qed
  qed
  then obtain buf' res1 cand1 st1 where nx: "level0_ok qd n k neutral sound V0 n0 p0 buf' res1 cand1 ?vt st1"
    "size (mm_elems cand1) + length buf' \<le> size (mm_elems cand) + length buf + (if v \<in> visited n vt then 0 else 1)"
    "batch4_prune vt_mark ?P ?A (v # vs) buf vt (res, cand, st) = batch4_prune vt_mark ?P ?A vs buf' ?vt (res1, cand1, st1)"
    unfolding next_ok_def by blast
  have "card (visited n ?vt) = card (visited n vt) + (if v \<in> visited n vt then 0 else 1)" by (simp add: M(2) insert_absorb)
  with Cons.IH[OF nx(1) v(2)] nx(2) M(2) show ?case unfolding nx(3) by fastforce
qed

section \<open>The loop\<close>

lemma shg_sfc_run:
  assumes inv: "level0_ok qd n k neutral sound V0 n0 p0 [] res cand vt st"
    and R: "\<forall>v < n. set (nbrs (ih_hnsw (sg_base sg)) v 0) \<subseteq> {..<n}"
    and sound: "sound \<Longrightarrow> bound_sound sg qd qrep n b"
  shows "\<exists>res' cand' vt' st' nstep'. run_loop (shg_sfc_step sg qd qrep b ddc ef) (res, cand, vt, st, nstep)
      = Some (res', cand', vt', st', nstep') \<and> vt_inv n vt' \<and> offered qd k neutral sound V0 n0 p0 (visited n vt') [] res' st'"
proof -
  define I where "I = (\<lambda>(res, cand, vt, st, nstep :: nat). level0_ok qd n k neutral sound V0 n0 p0 [] res cand vt st)"
  define Q where "Q = (\<lambda>(res, cand :: float_t minimax, vt, st, nstep :: nat).
    vt_inv n vt \<and> offered qd k neutral sound V0 n0 p0 (visited n vt) [] res st)"
  define m where "m = (\<lambda>(res :: float_t hres, cand :: float_t minimax, vt, st :: shg_stats, nstep :: nat). (n - card (visited n vt)) + size (mm_elems cand))"
  let ?step = "shg_sfc_step sg qd qrep b ddc ef"
  have "\<exists>r. run_loop ?step (res, cand, vt, st, nstep) = Some r \<and> Q r"
  proof (rule run_loop_total[where I = I and m = m])
    show "I (res, cand, vt, st, nstep)" using inv by (simp add: I_def)
  next
    fix s assume "I s"
    obtain res cand vt st nstep where s: "s = (res, cand, vt, st, nstep)" by (metis prod_cases5)
    with \<open>I s\<close> have ok: "level0_ok qd n k neutral sound V0 n0 p0 [] res cand vt st" by (simp add: I_def)
    then have L: "vt_inv n vt" "mm_inv cand" "0 < mm_n cand" "\<forall>p \<in># mm_elems cand. \<exists>v \<in> visited n vt. p = (qd v, int v)"
      "offered qd k neutral sound V0 n0 p0 (visited n vt) [] res st" by (simp_all add: level0_ok_def)
    have stop: "Q (res, cand', vt, st, nstep')" for cand' nstep' using L(1,5) by (simp add: Q_def)
    have sz: "mm_size cand > 0 \<longleftrightarrow> mm_elems cand \<noteq> {#}" by (simp add: mm_size_elems[OF L(2)] nonempty_has_size)
    show "\<And>s'. ?step s = Inr s' \<Longrightarrow> I s' \<and> m s' < m s" and "\<And>r. ?step s = Inl r \<Longrightarrow> Q r"
    proof (atomize (full), cases "mm_elems cand = {#}")
      case True
      then have "?step s = Inl s" using sz by (simp add: shg_sfc_step_def s)
      then show "(\<forall>s'. ?step s = Inr s' \<longrightarrow> I s' \<and> m s' < m s) \<and> (\<forall>r. ?step s = Inl r \<longrightarrow> Q r)" using stop by (auto simp: s)
    next
      case False
      from mm_pop_min_ok[OF L(2) False] obtain j d where
        pop: "mm_inv (snd (mm_pop_min cand))" "fst (mm_pop_min cand) = (j, Some d)" "(d, j) \<in># mm_elems cand"
        "mm_elems (snd (mm_pop_min cand)) = mm_elems cand - {#(d, j)#}" by blast
      define cand1 where "cand1 = snd (mm_pop_min cand)"
      have pm: "mm_pop_min cand = ((j, Some d), cand1)" using pop(2) by (simp add: cand1_def prod_eq_iff)
      have n1: "mm_n cand1 = mm_n cand" using mm_pop_k_n[OF L(2)] by (simp add: cand1_def)
      have el1: "Suc (size (mm_elems cand1)) = size (mm_elems cand)"
        using pop(3,4) by (simp add: cand1_def size_Suc_Diff1)
      have ok1: "level0_ok qd n k neutral sound V0 n0 p0 [] res cand1 vt st"
        using L n1 pop(1,4) by (auto simp: level0_ok_def cand1_def dest: in_diffD)
      have "nat j < n" using L(4) pop(3) by (auto simp: visited_def)
      with R have N: "set (nbrs (ih_hnsw (sg_base sg)) (nat j) 0) \<subseteq> {..<n}" by blast
      from batch4_prune_ok[OF ok1 N sound] obtain vt' res' cand' st' where
        b: "batch4_prune vt_mark (prune_by_lb sg qrep b) (shg_add_to_heap qd) (nbrs (ih_hnsw (sg_base sg)) (nat j) 0) [] vt (res, cand1, st)
          = (vt', res', cand', st')" and ok': "level0_ok qd n k neutral sound V0 n0 p0 [] res' cand' vt' st'"
        and less: "size (mm_elems cand') + card (visited n vt) \<le> size (mm_elems cand1) + card (visited n vt')" by auto
      have "card (visited n vt') \<le> n" using card_mono[of "{..<n}" "visited n vt'"] by (auto simp: visited_def)
      then have dec: "m (res', cand', vt', st', nstep + 1) < m s" using less el1 by (simp add: m_def s)
      have Q': "Q (res', cand', vt', st', nstep + 1)" using ok' by (simp add: Q_def level0_ok_def)
      have "?step s =
        (if ddc \<and> mm_count_below d cand1 \<ge> ef then Inl (res, cand1, vt, st, nstep)
         else if \<not> ddc \<and> nstep + 1 > ef then Inl (res', cand', vt', st', nstep + 1)
         else Inr (res', cand', vt', st', nstep + 1))"
        using False sz pm b by (simp add: shg_sfc_step_def s Let_def)
      then show "(\<forall>s'. ?step s = Inr s' \<longrightarrow> I s' \<and> m s' < m s) \<and> (\<forall>r. ?step s = Inl r \<longrightarrow> Q r)"
        using stop dec Q' ok' by (auto simp: I_def)
    qed
  qed
  then show ?thesis unfolding Q_def by (simp only: split_paired_Ex prod.case)
qed

lemma search_from_candidates_shg_ok:
  assumes v: "v < n" and ef: "0 < ef" and vt: "vt_clear n vt" and res: "res_ok k neutral {#} res"
    and R: "\<forall>v < n. set (nbrs (ih_hnsw (sg_base sg)) v 0) \<subseteq> {..<n}"
    and sound: "sound \<Longrightarrow> bound_sound sg qd qrep n b"
  shows "\<exists>res' vt' st'. search_from_candidates_shg sg qd res (mm_push (int v) (qd v) (MinimaxHeap ef)) vt qrep b ddc ef st
      = Some (Inr (res', vt', st')) \<and> vt_inv n vt' \<and>
    offered qd k neutral sound {v} (n_dis_full st) (n_lb_pruned st) (visited n vt') [] res' st'"
proof -
  let ?c = "mm_push (int v) (qd v) (MinimaxHeap ef) :: float_t minimax"
  have st: "starts_with qd {v} ?c" by (rule starts_with_one[OF ef])
  have vt': "vt_inv n vt" "visited n vt = {}" using vt by (simp_all add: vt_clear_def)
  from sfc_init_ok[OF st, of n vt k neutral None res] v vt' res obtain res1 vt1 where
    i: "sfc_init None res ?c vt = Inr (res1, vt1)" "vt_inv n vt1" "visited n vt1 = {v}" "res_ok k neutral (pairs qd None {v}) res1" by auto
  have "offered qd k neutral sound {v} (n_dis_full st) (n_lb_pruned st) {v} [] res1 st"
    using i(4) unfolding offered_def by (intro conjI exI[of _ "{v}"]) auto
  moreover have "mm_inv ?c" "0 < mm_n ?c" "set_mset (mm_elems ?c) = {(qd v, int v)}"
    using st starts_with_elems(1)[OF st] by (simp_all add: starts_with_def)
  ultimately have "level0_ok qd n k neutral sound {v} (n_dis_full st) (n_lb_pruned st) [] res1 ?c vt1 st"
    using i(2,3) by (simp add: level0_ok_def)
  from shg_sfc_run[OF this R sound, of ddc ef 0] i(1) show ?thesis by (auto simp: search_from_candidates_shg_def)
qed

section \<open>Without pruning\<close>

lemma batch4_no_prune: "batch4_prune mark (\<lambda>v r. (False, r)) proc vs buf vt r = batch4 mark proc vs buf vt r"
  by (induction vs arbitrary: buf vt r) (simp_all add: Let_def case_prod_beta)

lemma no_prune: "\<not> (b \<and> 0 < sg_maxFixLevel sg) \<Longrightarrow> prune_by_lb sg qrep b = (\<lambda>v r. (False, r))"
  by (auto simp: prune_by_lb_def fun_eq_iff Let_def)

text \<open>The same results and marks as those of HNSW with the same parameters and no selector.\<close>

lemma search_from_candidates_shg_hnsw:
  assumes np: "\<not> (b \<and> 0 < sg_maxFixLevel sg)" and par: "extract_search_params (ih_hnsw (sg_base sg)) params = (ddc, ef, None)"
    and h: "search_from_candidates (ih_hnsw (sg_base sg)) qd res cand vt hst 0 nres params = Some (Inr (nres', res', cand', vt', hst'))"
  shows "\<exists>st'. search_from_candidates_shg sg qd res cand vt qrep b ddc ef st = Some (Inr (res', vt', st'))"
proof -
  let ?h = "ih_hnsw (sg_base sg)"
  from h par obtain res1 vt1 r where i: "sfc_init None res cand vt = Inr (res1, vt1)"
    and r: "run_loop (sfc_step ?h qd ddc ef None 0) (res1, cand, vt1, nres, 0, 0) = Some r" "fst r = res'" "fst (snd (snd r)) = vt'"
    by (auto simp: search_from_candidates_def split: sum.splits)
  define S where "S = (\<lambda>(res, cand, vt, nres :: nat, ndis :: nat, nstep) (res2, cand2, vt2, st :: shg_stats, nstep2).
    res2 = (res :: float_t hres) \<and> cand2 = (cand :: float_t minimax) \<and> vt2 = (vt :: vtable) \<and> nstep2 = (nstep :: nat))"
  have batch: "batch4_prune vt_mark (prune_by_lb sg qrep b) (shg_add_to_heap qd) vs [] vt (res, cand, st)
      = (case batch4 vt_mark (add_to_heap None qd) vs [] vt (res, cand, nres, ndis) of (vt', res', cand', nres', ndis') \<Rightarrow>
          (vt', res', cand', st\<lparr> n_dis_full := n_dis_full st + length (unseen vt_mark vs vt) \<rparr>))" for vs vt res cand st nres ndis
  proof -
    obtain res' cand' nres' ndis' where
      f: "fold (add_to_heap None qd) (unseen vt_mark vs vt) (res, cand, nres, ndis) = (res', cand', nres', ndis')" by (metis prod_cases4)
    from shg_add_fold[OF f, of st] f show ?thesis by (simp add: no_prune[OF np] batch4_no_prune batch4_fold)
  qed
  have "\<exists>r2. run_loop (shg_sfc_step sg qd qrep b ddc ef) (res1, cand, vt1, st, 0) = Some r2 \<and> S r r2"
  proof (rule run_loop_sim[OF r(1)])
    show "S (res1, cand, vt1, nres, 0, 0) (res1, cand, vt1, st, 0)" by (simp add: S_def)
    show "\<exists>q. shg_sfc_step sg qd qrep b ddc ef t = Inl q \<and> S r q" if "S s t" "sfc_step ?h qd ddc ef None 0 s = Inl r" for s t r
    proof -
      obtain re ca v nr nd ns where s: "s = (re, ca, v, nr, nd, ns)" by (metis prod_cases6)
      with that(1) obtain st where t: "t = (re, ca, v, st, ns)" by (cases t) (auto simp: S_def)
      show ?thesis using that(2) batch[of _ v re _ st nr nd]
        by (auto simp: s t S_def sfc_step_def shg_sfc_step_def Let_def split: prod.splits if_splits option.splits)
    qed
    show "\<exists>t'. shg_sfc_step sg qd qrep b ddc ef t = Inr t' \<and> S s' t'" if "S s t" "sfc_step ?h qd ddc ef None 0 s = Inr s'" for s t s'
    proof -
      obtain re ca v nr nd ns where s: "s = (re, ca, v, nr, nd, ns)" by (metis prod_cases6)
      with that(1) obtain st where t: "t = (re, ca, v, st, ns)" by (cases t) (auto simp: S_def)
      show ?thesis using that(2) batch[of _ v re _ st nr nd]
        by (auto simp: s t S_def sfc_step_def shg_sfc_step_def Let_def split: prod.splits if_splits option.splits)
    qed
  qed
  then obtain r2 where r2: "run_loop (shg_sfc_step sg qd qrep b ddc ef) (res1, cand, vt1, st, 0) = Some r2" "S r r2" by blast
  then show ?thesis using i r(2,3) by (cases r2) (auto simp: search_from_candidates_shg_def S_def)
qed

section \<open>The lower bound\<close>

text \<open>The bound of the code is one when the dimension is a multiple of \<open>eta ^ L\<close>.\<close>

lemma lower_bound_sound:
  assumes ok: "shg_ok sg" and f: "ih_storage (sg_base sg) = Some f" "ih_metric (sg_base sg) = METRIC_L2"
    and q: "length q = ih_d (sg_base sg)" and L: "1 \<le> sg_maxFixLevel sg" "sg_eta sg ^ sg_maxFixLevel sg dvd ih_d (sg_base sg)"
  shows "bound_sound sg (flat_dis f q) (rep_of (sg_eta sg) q (sg_maxFixLevel sg)) (ih_ntotal (sg_base sg)) b"
proof -
  let ?L = "sg_maxFixLevel sg" and ?eta = "sg_eta sg" and ?d = "ih_d (sg_base sg)" and ?n = "ih_ntotal (sg_base sg)"
  from ok have S: "index_hnsw_ok (sg_base sg)" "params_ok sg" "compressed_ok sg f ?n" "0 < ?eta" using f by (simp_all add: shg_ok_def)
  have g: "fl_d f = ?d" "fl_metric f = METRIC_L2" "length (fl_codes f) = ?n * ?d"
    using shg_storage[OF S(1)] f by (metis option.inject)+
  have "lower_bound_of sg (rep_of ?eta q ?L) v \<le> flat_dis f q v" if v: "v < ?n" for v
  proof -
    have len: "length (row ?d v (fl_codes f)) = ?d" using row_bound[OF v g(3)] by simp
    have "lower_bound_of sg (rep_of ?eta q ?L) v = of_nat (?eta ^ ?L) * fvec_L2sqr (levels ?eta q ?L) (levels ?eta (row ?d v (fl_codes f)) ?L)"
      using inline_dis_eq[OF S(2,3) g(3) v L(1) order_refl q] by (simp add: lower_bound_of_def Let_def level_dis_def)
    also have "\<dots> \<le> fvec_L2sqr q (row ?d v (fl_codes f))"
      using levels_bound[OF S(4), of ?L q "row ?d v (fl_codes f)"] q len L(2) by simp
    also have "\<dots> = flat_dis f q v" using g by (simp add: flat_dis_def flat_vec_def)
    finally show ?thesis .
  qed
  then show ?thesis by (simp add: bound_sound_def)
qed

section \<open>Queries\<close>

text \<open>The search is exact without pruning when the queue has room for all vertices, which can all be
  reached on level 0.\<close>

definition shg_exact :: "shg \<Rightarrow> bool \<times> bool \<times> bool \<times> nat \<Rightarrow> bool" where
  "shg_exact sg ps \<longleftrightarrow> (case ps of (use_shortcut, use_lb, ddc, ef) \<Rightarrow>
     \<not> use_lb \<and> ddc \<and> ih_ntotal (sg_base sg) \<le> ef \<and>
     (\<forall>v < ih_ntotal (sg_base sg). reach (ih_hnsw (sg_base sg)) 0 {v} = {..<ih_ntotal (sg_base sg)}))"

definition shg_row_ok :: "shg \<Rightarrow> nat \<Rightarrow> (nat \<Rightarrow> float_t) \<Rightarrow> bool \<times> bool \<times> bool \<times> nat \<Rightarrow> (float_t \<times> int) list \<Rightarrow> bool" where
  "shg_row_ok sg k qd ps r \<longleftrightarrow>
     (\<exists>V S. V \<noteq> {} \<and> V \<subseteq> {..<ih_ntotal (sg_base sg)} \<and> (shg_exact sg ps \<longrightarrow> V = {..<ih_ntotal (sg_base sg)}) \<and>
       topk k (pairs qd None V) S \<and> r = S @ replicate (k - length S) (FLT_MAX, -1))"

lemma level0_search_ok:
  fixes sg :: shg
  defines "h \<equiv> ih_hnsw (sg_base sg)" and "n \<equiv> ih_ntotal (sg_base sg)"
  assumes b: "built h {..<n}" "length (hn_levels h) = n" and v: "v < n" and ef: "0 < ef"
    and vt: "vt_clear n vt" and k: "1 \<le> k" "length out = k" and near: "\<forall>v < n. qd v < FLT_MAX"
  shows "\<exists>res' vt' st'. search_from_candidates_shg sg qd (res_begin FLT_MAX k out) (mm_push (int v) (qd v) (MinimaxHeap ef)) vt qrep
      use_lb ddc ef st = Some (Inr (res', vt', st')) \<and> vt_clear n (vt_advance vt') \<and>
    shg_row_ok sg k qd (us, use_lb, ddc, ef) (res_end FLT_MAX res')"
proof -
  let ?res = "res_begin FLT_MAX k out" and ?c = "mm_push (int v) (qd v) (MinimaxHeap ef) :: float_t minimax"
  let ?ex = "shg_exact sg (us, use_lb, ddc, ef)"
  have R: "\<forall>v < n. set (nbrs h v 0) \<subseteq> {..<n}"
    using graph_level0[OF built_graph_ok[OF b(1)]] b(2) by simp
  have res: "res_ok k FLT_MAX {#} ?res" by (rule res_ok_begin[OF k])
  from search_from_candidates_shg_ok[OF v ef vt res R[unfolded h_def], of False qd qrep use_lb ddc st] obtain res' vt' st' where
    r: "search_from_candidates_shg sg qd ?res ?c vt qrep use_lb ddc ef st = Some (Inr (res', vt', st'))" "vt_inv n vt'"
    and off: "offered qd k FLT_MAX False {v} (n_dis_full st) (n_lb_pruned st) (visited n vt') [] res' st'" by blast
  have adv: "vt_clear n (vt_advance vt')" using vt.inv_advance[OF r(2)] vt.get_advance[OF r(2)] by (auto simp: vt_clear_def visited_def)
  have "\<exists>V. V \<noteq> {} \<and> V \<subseteq> {..<n} \<and> (?ex \<longrightarrow> V = {..<n}) \<and> res_ok k FLT_MAX (pairs qd None V) res'"
  proof (cases ?ex)
    case False
    from off obtain E where "{v} \<subseteq> E" "E \<subseteq> visited n vt'" "res_ok k FLT_MAX (pairs qd None E) res'" by (auto simp: offered_def)
    then show ?thesis using False by (intro exI[of _ E]) (auto simp: visited_def)
  next
    case True
    then have X: "\<not> use_lb" "ddc" "n \<le> ef" "\<forall>v < n. reach h 0 {v} = {..<n}" by (simp_all add: shg_exact_def h_def n_def)
    let ?p = "Some (Params None (Some \<lparr> sp_efSearch = ef, sp_check_relative_distance = ddc, sp_bounded_queue = True \<rparr>))"
    have par: "extract_search_params h ?p = (ddc, ef, None)" by (simp add: extract_search_params_def)
    have vt0: "vt_inv n vt" "visited n vt = {}" using vt by (simp_all add: vt_clear_def)
    have c: "mm_n ?c = ef" by (simp add: MinimaxHeap_def)
    have pre: "\<forall>v \<in> {..<n}. set (nbrs h v 0) \<subseteq> {..<n}" "{v} \<subseteq> {..<n}" "{v} \<inter> visited n vt = {}" "visited n vt \<subseteq> {..<n}"
      "res_ok k FLT_MAX (pairs qd None (visited n vt)) ?res"
      "True \<longrightarrow> ddc \<and> card {..<n} \<le> ef \<and> card {..<n} \<le> mm_n ?c \<and> (\<forall>v \<in> visited n vt. set (nbrs h v 0) \<subseteq> visited n vt)"
      using R v vt0(2) res X c by auto
    from search_from_candidates_ok[OF order_refl pre(1) starts_with_one[OF ef] pre(2-4) vt0(1) pre(5) par pre(6), of HNSWStats 0]
    obtain nres2 res2 cand2 vt2 hst2 where
      s: "search_from_candidates h qd ?res ?c vt HNSWStats 0 0 ?p = Some (Inr (nres2, res2, cand2, vt2, hst2))"
      and V2: "v \<in> visited n vt2" "visited n vt2 \<subseteq> {..<n}" "res_ok k FLT_MAX (pairs qd None (visited n vt2)) res2"
        "\<forall>v \<in> visited n vt2. set (nbrs h v 0) \<subseteq> visited n vt2"
      using pre(2) by auto
    have "res2 = res'" using search_from_candidates_shg_hnsw[of use_lb sg ?p ddc ef qd ?res ?c vt HNSWStats 0 nres2 res2 cand2 vt2 hst2 qrep st]
      X(1) par s r(1) by (simp add: h_def)
    moreover have "reach h 0 {v} \<subseteq> visited n vt2" using V2(1,4) by (intro reach_least) auto
    then have "visited n vt2 = {..<n}" using X(4) v V2(2) by auto
    ultimately have all: "res_ok k FLT_MAX (pairs qd None {..<n}) res'" using V2(3) by simp
    have ne: "{..<n} \<noteq> {}" using v by (simp add: lessThan_empty_iff)
    show ?thesis by (rule exI[of _ "{..<n}"], rule conjI[OF ne], rule conjI[OF order_refl], rule conjI[OF impI[OF refl] all])
  qed
  then obtain V where "V \<noteq> {} \<and> V \<subseteq> {..<n} \<and> (?ex \<longrightarrow> V = {..<n}) \<and> res_ok k FLT_MAX (pairs qd None V) res'" ..
  note V = this[THEN conjunct1] this[THEN conjunct2, THEN conjunct1] this[THEN conjunct2, THEN conjunct2, THEN conjunct1]
    this[THEN conjunct2, THEN conjunct2, THEN conjunct2]
  from res_ok_end[OF V(4) pairs_below[OF near V(2)]] obtain S where
    S: "res_end FLT_MAX res' = S @ replicate (k - length S) (FLT_MAX, -1)" "topk k (pairs qd None V) S" by blast
  have "shg_row_ok sg k qd (us, use_lb, ddc, ef) (res_end FLT_MAX res')"
    unfolding shg_row_ok_def n_def[symmetric]
    by (rule exI[of _ V], rule exI[of _ S], rule conjI[OF V(1)], rule conjI[OF V(2)], rule conjI[OF V(3)], rule conjI[OF S(2) S(1)])
  with r(1) adv show ?thesis by blast
qed

lemma shg_search_query_ok:
  assumes ok: "shg_ok sg" "ih_storage (sg_base sg) = Some f" "0 < ih_ntotal (sg_base sg)" and ef: "0 < ef"
    and k: "1 \<le> k" "length (rows ! i) = k" and x: "Suc i * ih_d (sg_base sg) \<le> length x"
    and near: "\<forall>v < ih_ntotal (sg_base sg). flat_dis f (row (ih_d (sg_base sg)) i x) v < FLT_MAX"
    and V: "length qrep = sg_data_rep_size sg" "vt_clear (ih_ntotal (sg_base sg)) vt"
  shows "\<exists>r qrep' vt' st'. shg_search_query pgm sg f x k (us, use_lb, ddc, ef) i (rows, (qrep, vt), st)
      = Some (Inr (rows[i := r], (qrep', vt'), st')) \<and>
    shg_row_ok sg k (flat_dis f (row (ih_d (sg_base sg)) i x)) (us, use_lb, ddc, ef) r \<and>
    length qrep' = sg_data_rep_size sg \<and> vt_clear (ih_ntotal (sg_base sg)) vt'"
proof -
  let ?q = "row (ih_d (sg_base sg)) i x"
  let ?rep = "build_compressed_query_rep sg ?q qrep"
  from ok(1) have S: "index_hnsw_ok (sg_base sg)" "params_ok sg" by (simp_all add: shg_ok_def)
  have q: "length ?q = ih_d (sg_base sg)" using x by (simp add: slice_def)
  have rep: "length ?rep = sg_data_rep_size sg"
    using query_rep_eq[OF S(2) q V(1)] params_rep_size[OF S(2) q] by simp
  from navigate_ok[OF ok(1,3)] obtain st1 ep where
    nav: "navigate_upper_levels pgm sg ?rep us st = Inr (st1, ep)" "ep < ih_ntotal (sg_base sg)" by blast
  define st2 where "st2 = st1\<lparr> n_dis_full := n_dis_full st1 + 1, n_queries := n_queries st1 + 1 \<rparr>"
  have b: "built (ih_hnsw (sg_base sg)) {..<ih_ntotal (sg_base sg)}" "length (hn_levels (ih_hnsw (sg_base sg))) = ih_ntotal (sg_base sg)"
    using S(1) by (simp_all add: index_hnsw_ok_def)
  from level0_search_ok[OF b nav(2) ef V(2) k near, of ?rep use_lb ddc st2 us] obtain res' vt' st' where
    r: "search_from_candidates_shg sg (flat_dis f ?q) (res_begin FLT_MAX k (rows ! i)) (mm_push (int ep) (flat_dis f ?q ep) (MinimaxHeap ef)) vt
      ?rep use_lb ddc ef st2 = Some (Inr (res', vt', st'))" and vt': "vt_clear (ih_ntotal (sg_base sg)) (vt_advance vt')"
    "shg_row_ok sg k (flat_dis f ?q) (us, use_lb, ddc, ef) (res_end FLT_MAX res')" by blast
  have "shg_search_query pgm sg f x k (us, use_lb, ddc, ef) i (rows, (qrep, vt), st)
      = Some (Inr (rows[i := res_end FLT_MAX res'], (?rep, vt_advance vt'), st'))"
    using nav(1) r by (simp add: shg_search_query_def Let_def st2_def)
  with vt' rep show ?thesis by blast
qed

lemma shg_search_thread_ok:
  assumes ok: "shg_ok sg" "ih_storage (sg_base sg) = Some f" "0 < ih_ntotal (sg_base sg)" "0 < ef" "1 \<le> k"
    and x: "\<forall>i \<in> set qs. Suc i * ih_d (sg_base sg) \<le> length x"
    and near: "\<forall>i \<in> set qs. \<forall>v < ih_ntotal (sg_base sg). flat_dis f (row (ih_d (sg_base sg)) i x) v < FLT_MAX"
    and qs: "distinct qs" "\<forall>i \<in> set qs. i < length rows \<and> length (rows ! i) = k"
  shows "\<exists>rows' st'. shg_search_thread pgm sg f x k (us, use_lb, ddc, ef) qs (rows, st) = Some (Inr (rows', st')) \<and>
    length rows' = length rows \<and> (\<forall>i < length rows. i \<notin> set qs \<longrightarrow> rows' ! i = rows ! i) \<and>
    (\<forall>i \<in> set qs. shg_row_ok sg k (flat_dis f (row (ih_d (sg_base sg)) i x)) (us, use_lb, ddc, ef) (rows' ! i))"
proof -
  let ?n = "ih_ntotal (sg_base sg)" and ?rs = "sg_data_rep_size sg"
  define OK where "OK = (\<lambda>i. shg_row_ok sg k (flat_dis f (row (ih_d (sg_base sg)) i x)) (us, use_lb, ddc, ef))"
  define V where "V = (\<lambda>(qrep :: float_t list, vt). length qrep = ?rs \<and> vt_clear ?n vt)"
  have "\<exists>rows' v' st'. for_each (shg_search_query pgm sg f x k (us, use_lb, ddc, ef)) qs
      (rows, (replicate ?rs 0, VisitedTable ?n (ih_use_visited_hashset (sg_base sg))), SHGStats)
      = Some (Inr (rows', v', st')) \<and> length rows' = length rows \<and>
    (\<forall>i < length rows. i \<notin> set qs \<longrightarrow> rows' ! i = rows ! i) \<and> (\<forall>i \<in> set qs. OK i (rows' ! i))"
  proof (rule for_each_rows[where V = V])
    show "V (replicate ?rs 0, VisitedTable ?n (ih_use_visited_hashset (sg_base sg)))" using vt_clear_new by (simp add: V_def)
    fix i rows1 v st
    assume i: "i \<in> set qs" "length rows1 = length rows" "rows1 ! i = rows ! i" "V v"
    obtain qrep vt where v: "v = (qrep, vt)" by fastforce
    from i qs(2) x near have r: "length (rows1 ! i) = k" "Suc i * ih_d (sg_base sg) \<le> length x"
      "\<forall>v < ?n. flat_dis f (row (ih_d (sg_base sg)) i x) v < FLT_MAX" by simp_all
    from i(4) have V: "length qrep = ?rs" "vt_clear ?n vt" by (simp_all add: V_def v)
    from shg_search_query_ok[OF ok(1-5) r V, of pgm us use_lb ddc st] obtain r qrep' vt' st' where
      "shg_search_query pgm sg f x k (us, use_lb, ddc, ef) i (rows1, v, st) = Some (Inr (rows1[i := r], (qrep', vt'), st'))"
      "OK i r" "V (qrep', vt')" by (auto simp: OK_def V_def v)
    then show "\<exists>r v' st'. shg_search_query pgm sg f x k (us, use_lb, ddc, ef) i (rows1, v, st) = Some (Inr (rows1[i := r], v', st')) \<and>
      OK i r \<and> V v'" by blast
  qed (use qs in simp_all)
  then show ?thesis by (auto simp: shg_search_thread_def OK_def)
qed

text \<open>The search when there are compressed levels.\<close>

lemma shg_search_ok:
  assumes ok: "shg_ok sg" "ih_storage (sg_base sg) = Some f" "0 < ih_ntotal (sg_base sg)" "1 \<le> k" "1 \<le> sg_maxFixLevel sg"
    and ready: "sg_compressed_vecs sg \<noteq> [] \<or> hn_max_level (ih_hnsw (sg_base sg)) = 0"
    and par: "shg_extract_params k params = (us, use_lb, ddc, ef)"
    and x: "\<forall>i \<in> set (concat sched). Suc i * ih_d (sg_base sg) \<le> length x"
    and near: "\<forall>i \<in> set (concat sched). \<forall>v < ih_ntotal (sg_base sg). flat_dis f (row (ih_d (sg_base sg)) i x) v < FLT_MAX"
    and qs: "distinct (concat sched)" "\<forall>i \<in> set (concat sched). i < length rows \<and> length (rows ! i) = k"
  shows "\<exists>rows' st'. shg_search pgm sg x (int k) params sched rows st = Some (Inr (rows', st')) \<and> length rows' = length rows \<and>
    (\<forall>i \<in> set (concat sched). shg_row_ok sg k (flat_dis f (row (ih_d (sg_base sg)) i x)) (us, use_lb, ddc, ef) (rows' ! i))"
proof -
  have ef: "0 < ef" using par ok(4) by (auto simp: shg_extract_params_def split: option.splits if_splits)
  define us' where "us' = (us \<and> sm_trained (sg_shortcut sg))"
  define OK where "OK = (\<lambda>i. shg_row_ok sg k (flat_dis f (row (ih_d (sg_base sg)) i x)) (us', use_lb, ddc, ef))"
  have us: "OK i = shg_row_ok sg k (flat_dis f (row (ih_d (sg_base sg)) i x)) (us, use_lb, ddc, ef)" for i
    by (simp add: OK_def shg_row_ok_def shg_exact_def fun_eq_iff)
  have "\<exists>rows' st'. for_each (shg_search_thread pgm sg f x k (us', use_lb, ddc, ef)) sched (rows, st) = Some (Inr (rows', st')) \<and>
    length rows' = length rows \<and> (\<forall>i \<in> set (concat sched). OK i (rows' ! i))"
  proof (rule for_each_blocks[OF qs(1)])
    show "\<forall>i \<in> set (concat sched). i < length rows" using qs(2) by blast
    fix q rows1 st
    assume q: "q \<in> set sched" "distinct q" "length rows1 = length rows" "\<forall>i \<in> set q. rows1 ! i = rows ! i"
    have sub: "set q \<subseteq> set (concat sched)" using q(1) by auto
    have n: "\<forall>i \<in> set q. Suc i * ih_d (sg_base sg) \<le> length x"
      "\<forall>i \<in> set q. \<forall>v < ih_ntotal (sg_base sg). flat_dis f (row (ih_d (sg_base sg)) i x) v < FLT_MAX" using x near sub by blast+
    have l: "\<forall>i \<in> set q. i < length rows1 \<and> length (rows1 ! i) = k" using qs(2) sub q(3,4) by (metis subsetD)
    from shg_search_thread_ok[OF ok(1-3) ef ok(4) n q(2) l, of pgm us' use_lb ddc st, folded OK_def[THEN fun_cong]]
    show "\<exists>rows' st'. shg_search_thread pgm sg f x k (us', use_lb, ddc, ef) q (rows1, st) = Some (Inr (rows', st')) \<and>
        length rows' = length rows1 \<and> (\<forall>i < length rows1. i \<notin> set q \<longrightarrow> rows' ! i = rows1 ! i) \<and> (\<forall>i \<in> set q. OK i (rows' ! i))"
      by blast
  qed
  then show ?thesis using ok(2-5) ready par unfolding us by (simp add: shg_search_def us'_def)
qed

end
