(* ===== verification/ShgTrain.thy ===== *)
theory ShgTrain
  imports ShgBuild HnswUnbounded
begin

text \<open>
  Training of the shortcut (\<open>IndexSHG::build_shortcut\<close>): the nearest neighbor of every node of the upper
  levels on each of its levels, found by a beam search in the graph, and the number of levels that can
  be skipped by the density criterion. The comparison of the two logarithms of the criterion is an argument
  \<open>dense disx disy d_x d_y n_x n_y\<close> of the training: the code computes it with \<open>log\<close> and \<open>lgamma\<close> on floats,
  \<open>lemma_2\<close> is its value over the real numbers.
\<close>

section \<open>The nearest neighbor on a level\<close>

text \<open>One neighbor; the state is (top_candidates, candidateSet, visited, lowerBound). The first queue has the
  largest pair on top, the second the smallest.\<close>

definition gnl_neighbor ::
  "(nat \<Rightarrow> float_t result) \<Rightarrow> nat \<Rightarrow> nat \<Rightarrow> (float_t \<times> nat) list \<times> (float_t \<times> nat) list \<times> vtable \<times> float_t \<Rightarrow>
   ((float_t \<times> nat) list \<times> (float_t \<times> nat) list \<times> vtable \<times> float_t) result" where
  "gnl_neighbor dis ef_c v s =
     (let (tc, cand, vt, lowerBound) = s
      in if vt_get vt v then Inr s
         else let vt = fst (vt_mark vt v)
              in bind_result (dis v) (\<lambda>dist1.
                   if length tc < ef_c \<or> lowerBound > dist1
                   then let cand = pq_push CMin_cmp2 (dist1, v) cand;
                            tc = pq_push CMax_cmp2 (dist1, v) tc;
                            tc = (if length tc > ef_c then tl tc else tc)
                        in Inr (tc, cand, vt, if tc \<noteq> [] then fst (hd tc) else lowerBound)
                   else Inr (tc, cand, vt, lowerBound)))"

definition gnl_step ::
  "hnsw \<Rightarrow> (nat \<Rightarrow> float_t result) \<Rightarrow> nat \<Rightarrow> (float_t \<times> nat) list \<times> (float_t \<times> nat) list \<times> vtable \<times> float_t \<Rightarrow>
   ((float_t \<times> nat) list \<times> (float_t \<times> nat) list \<times> vtable \<times> float_t) result
     + (float_t \<times> nat) list \<times> (float_t \<times> nat) list \<times> vtable \<times> float_t" where
  "gnl_step h dis hnsw_level s =
     (let (tc, cand, vt, lowerBound) = s
      in if cand = [] then Inl (Inr s)
         else let (d0, curNode) = hd cand
              in if d0 > lowerBound \<and> length tc = hn_efConstruction h then Inl (Inr s)
                 else case fold_result (gnl_neighbor dis (hn_efConstruction h)) (nbrs h curNode hnsw_level)
                             (tc, tl cand, vt, lowerBound) of
                        Inl e \<Rightarrow> Inl (Inl e)
                      | Inr s' \<Rightarrow> Inr s')"

definition get_nearest_by_level :: "shg \<Rightarrow> flat \<Rightarrow> nat \<Rightarrow> nat \<Rightarrow> (float_t \<times> int) result option" where
  "get_nearest_by_level sg f node_id hnsw_level =
     (case get_dis_by_level sg f node_id node_id 0 of
        Inl e \<Rightarrow> Some (Inl e)
      | Inr dist_ep \<Rightarrow>
          map_option (\<lambda>r. bind_result r (\<lambda>(tc, cand, vt, lowerBound).
              let tc = drop (length tc - 2) tc
              in Inr (case tc of [] \<Rightarrow> (-1, -1) | p # _ \<Rightarrow> (fst p, int (snd p)))))
            (run_loop (gnl_step (ih_hnsw (sg_base sg)) (\<lambda>v. get_dis_by_level sg f node_id v hnsw_level) hnsw_level)
              ([(dist_ep, node_id)], [(dist_ep, node_id)],
                fst (vt_mark (VisitedTable (ih_ntotal (sg_base sg)) None) node_id), dist_ep)))"

section \<open>The samples\<close>

definition level_counts :: "hnsw \<Rightarrow> nat \<Rightarrow> nat \<Rightarrow> nat list" where
  "level_counts h ntotal max_l =
     fold (\<lambda>i counts. fold (\<lambda>l counts. counts[l := counts ! l + 1]) [0..<min (hn_levels h ! i) (max_l + 1)] counts)
       [0..<ntotal] (replicate (max_l + 1) 0)"

definition nn_cache :: "shg \<Rightarrow> flat \<Rightarrow> nat \<Rightarrow> nat \<Rightarrow> (float_t \<times> int) list result option" where
  "nn_cache sg f i point_level =
     for_each (\<lambda>l cache. map_option (\<lambda>r. bind_result r (\<lambda>p. Inr (cache @ [p]))) (get_nearest_by_level sg f i l))
       [0..<point_level + 1] []"

type_synonym density = "float_t \<Rightarrow> float_t \<Rightarrow> nat \<Rightarrow> nat \<Rightarrow> nat \<Rightarrow> nat \<Rightarrow> bool"

text \<open>The Gamma function at \<open>d / 2 + 1\<close>, whose logarithm \<open>lgamma\<close> gives, and the criterion.\<close>

fun gamma_half :: "nat \<Rightarrow> real" where
  "gamma_half 0 = 1"
| "gamma_half (Suc 0) = sqrt pi / 2"
| "gamma_half (Suc (Suc d)) = (real d / 2 + 1) * gamma_half d"

definition lemma_2 :: density where
  "lemma_2 disx disy d_x d_y n_x n_y \<longleftrightarrow>
     (let log_lhs = real d_x / 2 * ln (real_of_rat (max disx (1 / 10 ^ 30)));
          log_n_ratio = ln (max (real n_y) 1) - ln (max (real n_x) 1);
          log_vol_ratio = (real d_y - real d_x) / 2 * ln pi + ln (gamma_half d_x) - ln (gamma_half d_y);
          log_rhs = log_n_ratio + log_vol_ratio + real d_y / 2 * ln (real_of_rat (max disy (1 / 10 ^ 30)))
      in log_lhs \<le> log_rhs)"

text \<open>The lowest level \<open>y\<close> that satisfies the criterion gives the largest skip; 0 is none.\<close>

definition best_skip :: "density \<Rightarrow> shg \<Rightarrow> nat list \<Rightarrow> (float_t \<times> int) list \<Rightarrow> nat \<Rightarrow> int" where
  "best_skip dense sg counts cache cur_level =
     (case find (\<lambda>y. let (disy, nearest_y) = cache ! y
              in \<not> (nearest_y < 0 \<or> disy < 0) \<and>
                 dense (fst (cache ! cur_level)) disy
                   (sg_dim_at_level sg ! min cur_level (sg_maxFixLevel sg)) (sg_dim_at_level sg ! min y (sg_maxFixLevel sg))
                   (counts ! cur_level) (counts ! y))
            [0..<cur_level] of
        None \<Rightarrow> 0
      | Some y \<Rightarrow> int cur_level - int y)"

text \<open>The queue of the samples has the largest negated distance on top.\<close>

definition sample_before :: "float_t \<times> int \<Rightarrow> float_t \<times> int \<Rightarrow> bool" where
  "sample_before p q \<longleftrightarrow> fst p > fst q"

definition density_level ::
  "density \<Rightarrow> shg \<Rightarrow> nat list \<Rightarrow> (float_t \<times> int) list \<Rightarrow> nat \<Rightarrow> (float_t \<times> int) list \<Rightarrow> (float_t \<times> int) list" where
  "density_level dense sg counts cache cur_level queue =
     (let (disx, nearest) = cache ! cur_level
      in if nearest < 0 \<or> disx < 0 then queue
         else let skip = best_skip dense sg counts cache cur_level
              in if skip > 0 then pq_push sample_before (- disx, skip) queue else queue)"

definition density_point ::
  "density \<Rightarrow> shg \<Rightarrow> flat \<Rightarrow> nat list \<Rightarrow> nat \<Rightarrow> (float_t \<times> int) list \<Rightarrow> (float_t \<times> int) list result option" where
  "density_point dense sg f counts i queue =
     (let point_level = int (hn_levels (ih_hnsw (sg_base sg)) ! i) - 1
      in if point_level < 2 then Some (Inr queue)
         else map_option (\<lambda>r. bind_result r (\<lambda>cache.
                  Inr (fold (density_level dense sg counts cache) (rev [2..<nat point_level + 1]) queue)))
                (nn_cache sg f i (nat point_level)))"

definition build_shortcuts_density :: "density \<Rightarrow> shg \<Rightarrow> flat \<Rightarrow> shg result option" where
  "build_shortcuts_density dense sg f =
     (let h = ih_hnsw (sg_base sg);
          counts = level_counts h (ih_ntotal (sg_base sg)) (nat (hn_max_level h))
      in map_option (\<lambda>r. bind_result r (\<lambda>queue.
             Inr (sg\<lparr> sg_shortcut :=
               finalize (fold (\<lambda>(d, skip). insert_or_assign (- d) skip) queue (shortcut_clear (sg_shortcut sg))) \<rparr>)))
           (for_each (density_point dense sg f counts) [0..<ih_ntotal (sg_base sg)] []))"

definition build_shortcut :: "density \<Rightarrow> shg \<Rightarrow> shg result option" where
  "build_shortcut dense sg =
     (if \<not> ih_ntotal (sg_base sg) > 0 then Some (Inl (FaissException ''IndexSHG: build_shortcut() called on empty index''))
      else case ih_storage (sg_base sg) of
        None \<Rightarrow> Some (Inl OutOfBounds)
      | Some f \<Rightarrow>
          Option.bind (if sg_dim_at_level sg = [] then compute_compression_params sg else Some sg)
            (\<lambda>sg. build_shortcuts_density dense (if sg_compressed_vecs sg = [] then build_all_compressed f sg else sg) f))"

section \<open>The density criterion\<close>

text \<open>The comparison of logarithms is the inequality of the paper, with the volume of the unit ball and the
  roots of the squared distances.\<close>

definition unit_ball :: "nat \<Rightarrow> real" where
  "unit_ball d = sqrt pi ^ d / gamma_half d"

lemma gamma_half_pos: "0 < gamma_half d"
  by (induction d rule: gamma_half.induct) simp_all

lemma ln_root_power: "0 < x \<Longrightarrow> ln (sqrt x ^ d) = real d / 2 * ln x"
  by (simp add: ln_realpow ln_sqrt)

lemma lemma_2_inequality:
  defines "r x \<equiv> sqrt (real_of_rat (max x (1 / 10 ^ 30)))"
  shows "lemma_2 disx disy d_x d_y n_x n_y \<longleftrightarrow>
    r disx ^ d_x \<le> max (real n_y) 1 / max (real n_x) 1 * (unit_ball d_y / unit_ball d_x) * r disy ^ d_y"
proof -
  have pos: "0 < real_of_rat (max x (1 / 10 ^ 30))" for x :: rat
    unfolding zero_less_of_rat_iff by (rule less_max_iff_disj[THEN iffD2]) simp
  then have r: "0 < r x" "ln (r x ^ d) = real d / 2 * ln (real_of_rat (max x (1 / 10 ^ 30)))" for x d
    using ln_root_power[OF pos] by (simp_all add: r_def)
  have ball: "0 < unit_ball d" "ln (unit_ball d) = real d / 2 * ln pi - ln (gamma_half d)" for d
    using gamma_half_pos[of d] ln_root_power[OF pi_gt_zero] by (simp_all add: unit_ball_def ln_div)
  let ?N = "max (real n_y) 1 / max (real n_x) 1" and ?B = "unit_ball d_y / unit_ball d_x"
  have n: "0 < max (real n) 1" for n by simp
  have N: "0 < ?N" "ln ?N = ln (max (real n_y) 1) - ln (max (real n_x) 1)"
    using divide_pos_pos[OF n n] ln_divide_pos[OF n n] by blast+
  have B: "0 < ?B" "ln ?B = ln (unit_ball d_y) - ln (unit_ball d_x)"
    using divide_pos_pos[OF ball(1) ball(1)] ln_divide_pos[OF ball(1) ball(1)] by blast+
  have y: "0 < r disy ^ d_y" "0 < r disx ^ d_x" using r(1) by simp_all
  have NB: "0 < ?N * ?B" by (rule mult_pos_pos[OF N(1) B(1)])
  have "ln (?N * ?B * r disy ^ d_y) = ln ?N + ln ?B + ln (r disy ^ d_y)"
    unfolding ln_mult_pos[OF NB y(1)] ln_mult_pos[OF N(1) B(1)] ..
  then have L: "ln (?N * ?B * r disy ^ d_y) = (ln (max (real n_y) 1) - ln (max (real n_x) 1))
      + ((real d_y - real d_x) / 2 * ln pi + ln (gamma_half d_x) - ln (gamma_half d_y))
      + real d_y / 2 * ln (real_of_rat (max disy (1 / 10 ^ 30)))"
    unfolding N(2) B(2) ball(2) r(2) by (simp add: diff_divide_distrib left_diff_distrib)
  have "r disx ^ d_x \<le> ?N * ?B * r disy ^ d_y \<longleftrightarrow> ln (r disx ^ d_x) \<le> ln (?N * ?B * r disy ^ d_y)"
    by (rule ln_le_cancel_iff[OF y(2) mult_pos_pos[OF NB y(1)], symmetric])
  then show ?thesis unfolding L r(2) lemma_2_def Let_def by blast
qed

section \<open>The search ends\<close>

lemma vt_mark_visited: "vt_get vt v \<Longrightarrow> fst (vt_mark vt v) = vt"
  by (auto simp: vt_get_def vt_mark_def insert_absorb)

lemma gnl_fold:
  assumes "\<forall>v \<in> set vs. dis v = Inr (qd v)" "1 \<le> ef" "tc \<noteq> []"
  shows "\<exists>tc' cand'. fold_result (gnl_neighbor dis ef) vs (tc, cand, vt, fst (hd tc))
      = Inr (tc', cand', fold (\<lambda>v vt. fst (vt_mark vt v)) vs vt, fst (hd tc')) \<and> tc' \<noteq> [] \<and>
    fold (beam_add CMax_cmp2 CMin_cmp2 ef qd) (unseen vt_mark vs vt) (tc, cand) = (tc', cand')"
  using assms
proof (induction vs arbitrary: tc cand vt)
  case (Cons v vs)
  have new: "snd (vt_mark vt v) \<longleftrightarrow> \<not> vt_get vt v" by (simp add: vt_mark_def vt_get_def)
  show ?case
  proof (cases "vt_get vt v")
    case True
    have "gnl_neighbor dis ef v (tc, cand, vt, fst (hd tc)) = Inr (tc, cand, vt, fst (hd tc))"
      using True by (simp add: gnl_neighbor_def)
    moreover have "unseen vt_mark (v # vs) vt = unseen vt_mark vs vt"
      using True new vt_mark_visited[OF True] by (simp add: case_prod_beta)
    ultimately show ?thesis using Cons.IH[of tc cand vt] Cons.prems vt_mark_visited[OF True] by auto
  next
    case False
    let ?t = "pq_push CMax_cmp2 (qd v, v) tc"
    obtain tc1 cand1 where b: "beam_add CMax_cmp2 CMin_cmp2 ef qd v (tc, cand) = (tc1, cand1)" by fastforce
    have ne: "tc1 \<noteq> []"
    proof -
      have "(if length ?t > ef then tl ?t else ?t) \<noteq> []"
        using Cons.prems(2,3) by (cases ?t) (auto dest: arg_cong[where f = length])
      then show ?thesis using b Cons.prems(3) by (auto simp: beam_add_def Let_def split: if_splits)
    qed
    have "gnl_neighbor dis ef v (tc, cand, vt, fst (hd tc)) = Inr (tc1, cand1, fst (vt_mark vt v), fst (hd tc1))"
      using False Cons.prems(1) b ne by (auto simp: gnl_neighbor_def beam_add_def Let_def split: if_splits)
    moreover have "unseen vt_mark (v # vs) vt = v # unseen vt_mark vs (fst (vt_mark vt v))"
      using False new by (simp add: case_prod_beta)
    ultimately show ?thesis using Cons.IH[OF _ Cons.prems(2) ne, of cand1 "fst (vt_mark vt v)"] Cons.prems(1) b by auto
  qed
qed simp

lemma gnl_run:
  assumes R: "R \<subseteq> {..<n}" "\<forall>v \<in> R. set (nbrs h v l) \<subseteq> R" and ef: "1 \<le> hn_efConstruction h"
    and dis: "\<forall>v \<in> R. dis v = Inr (qd v)"
    and b: "beam_inv CMax_cmp2 CMin_cmp2 (\<lambda>v. nbrs h v l) qd n (hn_efConstruction h) False R (tc, cand, vt)" and ne: "tc \<noteq> []"
  shows "\<exists>tc' cand' vt' lb. run_loop (gnl_step h dis l) (tc, cand, vt, fst (hd tc)) = Some (Inr (tc', cand', vt', lb)) \<and>
    beam_inv CMax_cmp2 CMin_cmp2 (\<lambda>v. nbrs h v l) qd n (hn_efConstruction h) False R (tc', cand', vt') \<and>
    visited n vt \<subseteq> visited n vt'"
proof -
  let ?ef = "hn_efConstruction h"
  define I where "I = (\<lambda>(tc, cand, vt', lb).
    beam_inv CMax_cmp2 CMin_cmp2 (\<lambda>v. nbrs h v l) qd n ?ef False R (tc, cand, vt') \<and> tc \<noteq> [] \<and> lb = fst (hd tc) \<and>
    visited n vt \<subseteq> visited n vt')"
  have "\<exists>r. run_loop (gnl_step h dis l) (tc, cand, vt, fst (hd tc)) = Some r \<and> (\<exists>s. r = Inr s \<and> I s)"
  proof (rule run_loop_total[where I = I and m = "\<lambda>(tc, cand, vt, lb). beam_measure n (tc, cand, vt)"])
    show "I (tc, cand, vt, fst (hd tc))" using b ne by (simp add: I_def)
  next
    fix s assume I: "I s"
    obtain tc1 cand1 vt1 lb where s: "s = (tc1, cand1, vt1, lb)" by (metis prod_cases4)
    from I have J: "beam_inv CMax_cmp2 CMin_cmp2 (\<lambda>v. nbrs h v l) qd n ?ef False R (tc1, cand1, vt1)" "tc1 \<noteq> []" "lb = fst (hd tc1)"
      "visited n vt \<subseteq> visited n vt1" by (simp_all add: I_def s)
    show "\<And>s'. gnl_step h dis l s = Inr s' \<Longrightarrow> I s' \<and>
        (case s' of (tc, cand, vt, lb) \<Rightarrow> beam_measure n (tc, cand, vt)) < (case s of (tc, cand, vt, lb) \<Rightarrow> beam_measure n (tc, cand, vt))"
      and "\<And>r. gnl_step h dis l s = Inl r \<Longrightarrow> \<exists>s. r = Inr s \<and> I s"
    proof (atomize (full), cases "cand1 = [] \<or> fst (hd cand1) > lb \<and> length tc1 = ?ef")
      case True
      then have "gnl_step h dis l s = Inl (Inr s)" by (auto simp: gnl_step_def s split: prod.splits)
      then show "(\<forall>s'. gnl_step h dis l s = Inr s' \<longrightarrow> I s' \<and>
        (case s' of (tc, cand, vt, lb) \<Rightarrow> beam_measure n (tc, cand, vt)) < (case s of (tc, cand, vt, lb) \<Rightarrow> beam_measure n (tc, cand, vt))) \<and>
        (\<forall>r. gnl_step h dis l s = Inl r \<longrightarrow> (\<exists>s. r = Inr s \<and> I s))" using I by (simp del: split_paired_Ex)
    next
      case False
      then have ne1: "cand1 \<noteq> []" by simp
      obtain d0 v0 where hd: "hd cand1 = (d0, v0)" by fastforce
      have "v0 \<in> visited n vt1"
        using J(1) ne1 hd hd_in_set[OF ne1] unfolding beam_inv_def prod.case by (metis prod.inject)
      then have "v0 \<in> R" using J(1) by (auto simp: beam_inv_def)
      then have nb: "set (nbrs h v0 l) \<subseteq> R" using R(2) by blast
      then have "\<forall>v \<in> set (nbrs h v0 l). dis v = Inr (qd v)" using dis by blast
      from gnl_fold[OF this ef J(2), of "tl cand1" vt1] obtain tc' cand' where
        f: "fold_result (gnl_neighbor dis ?ef) (nbrs h v0 l) (tc1, tl cand1, vt1, fst (hd tc1))
          = Inr (tc', cand', fold (\<lambda>v vt. fst (vt_mark vt v)) (nbrs h v0 l) vt1, fst (hd tc'))" "tc' \<noteq> []"
        "fold (beam_add CMax_cmp2 CMin_cmp2 ?ef qd) (unseen vt_mark (nbrs h v0 l) vt1) (tc1, tl cand1) = (tc', cand')" by blast
      note X = lex.beam_expand[OF J(1) ef R ne1 hd f(3)]
      have "gnl_step h dis l s = Inr (tc', cand', fold (\<lambda>v vt. fst (vt_mark vt v)) (nbrs h v0 l) vt1, fst (hd tc'))"
        using False hd f(1) by (simp add: gnl_step_def s J(3))
      then show "(\<forall>s'. gnl_step h dis l s = Inr s' \<longrightarrow> I s' \<and>
        (case s' of (tc, cand, vt, lb) \<Rightarrow> beam_measure n (tc, cand, vt)) < (case s of (tc, cand, vt, lb) \<Rightarrow> beam_measure n (tc, cand, vt))) \<and>
        (\<forall>r. gnl_step h dis l s = Inl r \<longrightarrow> (\<exists>s. r = Inr s \<and> I s))"
        using X f(2) J(4) by (auto simp: I_def s)
    qed
  qed
  then show ?thesis by (auto simp: I_def)
qed

text \<open>The result is the second best of a set of vertices that the search has evaluated, the node
  included; at most one of them is strictly nearer.\<close>

lemma second_best:
  assumes "best_of CMax_cmp2 ef (npairs qd V) tc" "finite V" "2 \<le> ef" "2 \<le> card V"
  shows "\<exists>v \<in> V. hd (drop (length tc - 2) tc) = (qd v, v) \<and> drop (length tc - 2) tc \<noteq> [] \<and> card {w \<in> V. qd w < qd v} \<le> 1"
proof -
  from assms(1) obtain B where B: "pq_inv CMax_cmp2 tc" "length tc = min ef (size (npairs qd V))" "npairs qd V = mset tc + B"
    "\<forall>r \<in># B. \<forall>a \<in> set tc. fst a \<le> fst r" by (rule best_ofE)
  have len: "2 \<le> length tc" using B(2) assms(3,4) by (simp add: size_npairs)
  then have "length (drop (length tc - 2) tc) = Suc (Suc 0)" by simp
  then obtain p q where pq: "drop (length tc - 2) tc = [p, q]" by (simp only: length_Suc_conv length_0_conv) blast
  define us where "us = take (length tc - 2) tc"
  have tc: "tc = us @ [p, q]" unfolding us_def pq[symmetric] by simp
  have "p \<in># npairs qd V" using B(3) tc by simp
  then obtain v where v: "v \<in> V" "p = (qd v, v)" using assms(2) by (auto simp: npairs_def)
  have ge: "\<not> fst a < qd v" if "a \<in># mset us + B" for a
  proof -
    have "\<forall>a \<in> set us. \<not> CMax_cmp2 p a" using B(1) tc by (auto simp: pq_inv_def sorted_wrt_append)
    moreover have "\<forall>a \<in># B. fst p \<le> fst a" using B(4) tc by auto
    ultimately show ?thesis using that v(2) by (auto simp: CMax_cmp2_def not_less)
  qed
  have "npairs qd V = add_mset p (add_mset q (mset us + B))" using B(3) tc by simp
  then have "filter_mset (\<lambda>a. fst a < qd v) (npairs qd V) = filter_mset (\<lambda>a. fst a < qd v) (add_mset q (mset us + B))"
    using v(2) by simp
  also have "\<dots> \<subseteq># {#q#}"
  proof -
    have "filter_mset (\<lambda>a. fst a < qd v) (mset us + B) = {#}" using ge by (simp add: filter_mset_eq_conv)
    moreover have "filter_mset (\<lambda>a. fst a < qd v) (add_mset q X) \<subseteq># {#q#}"
      if "filter_mset (\<lambda>a. fst a < qd v) X = {#}" for X
      using that by (cases "fst q < qd v") (simp_all only: filter_mset_add_mset if_True if_False subset_mset.order_refl subset_mset.bot_least)
    ultimately show ?thesis by blast
  qed
  finally have "size (filter_mset (\<lambda>a. fst a < qd v) (npairs qd V)) \<le> 1" using size_mset_mono by fastforce
  moreover have "filter_mset (\<lambda>a. fst a < qd v) (npairs qd V) = image_mset (\<lambda>v. (qd v, v)) (mset_set {w \<in> V. qd w < qd v})"
    using assms(2) by (simp add: npairs_def filter_mset_image_mset comp_def)
  ultimately have "card {w \<in> V. qd w < qd v} \<le> 1" by simp
  then show ?thesis using v pq by auto
qed

lemma built_level_closed:
  assumes "built h {..<n}" "length (hn_levels h) = n" "on_level h l i"
  shows "reach h l {i} \<subseteq> {..<n}" "\<forall>w \<in> reach h l {i}. set (nbrs h w l) \<subseteq> reach h l {i}"
proof -
  have "links_ok h" using assms(1) by (simp add: built_def linkable_def)
  then have "on_level h l w" if "w \<in> reach h l {i}" for w using reach_on_level[of h "{i}" l w] that assms(3) by simp
  then show "reach h l {i} \<subseteq> {..<n}" using assms(2) by (auto simp: on_level_def)
  show "\<forall>w \<in> reach h l {i}. set (nbrs h w l) \<subseteq> reach h l {i}" using reach_closed by blast
qed

definition node_dis :: "shg \<Rightarrow> flat \<Rightarrow> nat \<Rightarrow> nat \<Rightarrow> nat \<Rightarrow> float_t" where
  "node_dis sg f i l = level_dis sg f (row (ih_d (sg_base sg)) i (fl_codes f)) (min l (sg_maxFixLevel sg))"

lemma node_dis_self [simp]: "node_dis sg f i l i = 0" "0 \<le> node_dis sg f i l j"
  by (simp_all add: node_dis_def level_dis_def)

text \<open>The well-formedness that training relies on.\<close>

definition trainable :: "shg \<Rightarrow> flat \<Rightarrow> bool" where
  "trainable sg f \<longleftrightarrow> params_ok sg \<and> compressed_ok sg f (ih_ntotal (sg_base sg)) \<and>
     length (fl_codes f) = ih_ntotal (sg_base sg) * ih_d (sg_base sg) \<and>
     built (ih_hnsw (sg_base sg)) {..<ih_ntotal (sg_base sg)} \<and>
     length (hn_levels (ih_hnsw (sg_base sg))) = ih_ntotal (sg_base sg)"

lemma get_nearest_by_level_ok:
  assumes t: "trainable sg f" and i: "on_level (ih_hnsw (sg_base sg)) l i" and l: "1 \<le> sg_maxFixLevel sg \<or> l = 0"
  shows "\<exists>V tc. get_nearest_by_level sg f i l
      = Some (Inr (case drop (length tc - 2) tc of [] \<Rightarrow> (-1, -1) | p # _ \<Rightarrow> (fst p, int (snd p)))) \<and>
    i \<in> V \<and> V \<subseteq> reach (ih_hnsw (sg_base sg)) l {i} \<and>
    best_of CMax_cmp2 (hn_efConstruction (ih_hnsw (sg_base sg))) (npairs (node_dis sg f i l) V) tc"
proof -
  let ?n = "ih_ntotal (sg_base sg)" and ?h = "ih_hnsw (sg_base sg)" and ?qd = "node_dis sg f i l"
  let ?R = "reach ?h l {i}" and ?vt = "fst (vt_mark (VisitedTable ?n None) i)"
  have T: "params_ok sg" "compressed_ok sg f ?n" "length (fl_codes f) = ?n * ih_d (sg_base sg)"
    "built ?h {..<?n}" "length (hn_levels ?h) = ?n" using t by (simp_all add: trainable_def)
  note R = built_level_closed[OF T(4,5) i]
  have iR: "i \<in> ?R" using reach_refl[of "{i}" ?h l] by simp
  then have "i < ?n" using R(1) by auto
  have dis: "\<forall>v \<in> ?R. get_dis_by_level sg f i v l = Inr (?qd v)"
    using get_dis_by_level_eq[OF T(1-3) \<open>i < ?n\<close>] R(1) l by (auto simp: node_dis_def)
  have ep: "get_dis_by_level sg f i i 0 = Inr 0" by (simp add: get_dis_by_level_def Let_def)
  have ef: "1 \<le> hn_efConstruction ?h" using T(4) by (simp add: built_def)
  have vt: "vt_inv ?n ?vt" "visited ?n ?vt = {i}"
    using vt.inv_mark[OF vt_inv_constructor \<open>i < ?n\<close>] vt.get_mark[OF vt_inv_constructor \<open>i < ?n\<close>] vt_get_constructor \<open>i < ?n\<close>
    by (auto simp: visited_def)
  have "best_of CMax_cmp2 (hn_efConstruction ?h) (npairs ?qd {i}) [(?qd i, i)]"
    using ef by (simp add: best_of_def npairs_def pq_inv_def)
  then have b: "beam_inv CMax_cmp2 CMin_cmp2 (\<lambda>v. nbrs ?h v l) ?qd ?n (hn_efConstruction ?h) False ?R ([(0, i)], [(0, i)], ?vt)"
    using vt iR by (simp add: beam_inv_def pq_inv_def)
  from gnl_run[OF R ef dis b] obtain tc cand vt' lb where
    r: "run_loop (gnl_step ?h (\<lambda>v. get_dis_by_level sg f i v l) l) ([(0, i)], [(0, i)], ?vt, 0) = Some (Inr (tc, cand, vt', lb))"
    and b': "beam_inv CMax_cmp2 CMin_cmp2 (\<lambda>v. nbrs ?h v l) ?qd ?n (hn_efConstruction ?h) False ?R (tc, cand, vt')"
    and sub: "visited ?n ?vt \<subseteq> visited ?n vt'" by auto
  have "get_nearest_by_level sg f i l = Some (Inr (case drop (length tc - 2) tc of [] \<Rightarrow> (-1, -1) | p # _ \<Rightarrow> (fst p, int (snd p))))"
    by (simp add: get_nearest_by_level_def ep r Let_def)
  moreover have "i \<in> visited ?n vt'" "visited ?n vt' \<subseteq> ?R"
    "best_of CMax_cmp2 (hn_efConstruction ?h) (npairs ?qd (visited ?n vt')) tc"
    using sub vt(2) b' by (auto simp: beam_inv_def)
  ultimately show ?thesis by blast
qed

lemma nn_cache_ok:
  assumes "trainable sg f" "\<forall>l \<le> pl. on_level (ih_hnsw (sg_base sg)) l i" "1 \<le> sg_maxFixLevel sg"
  shows "\<exists>cache. nn_cache sg f i pl = Some (Inr cache)"
proof -
  have "\<exists>s. nn_cache sg f i pl = Some (Inr s) \<and> True"
    unfolding nn_cache_def
  proof (rule for_each_ok[where P = "\<lambda>_ _. True"])
    fix zs l s assume "\<exists>us. zs @ l # us = [0..<pl + 1]"
    then have "l \<in> set [0..<pl + 1]" by (metis in_set_conv_decomp)
    then have "on_level (ih_hnsw (sg_base sg)) l i" using assms(2) by (simp del: upt_Suc)
    from get_nearest_by_level_ok[OF assms(1) this] assms(3) obtain p where "get_nearest_by_level sg f i l = Some (Inr p)" by blast
    then show "\<exists>s'. map_option (\<lambda>r. bind_result r (\<lambda>p. Inr (s @ [p]))) (get_nearest_by_level sg f i l) = Some (Inr s') \<and> True" by simp
  qed simp
  then show ?thesis by blast
qed

lemma best_skip_range: "0 \<le> best_skip dense sg counts cache cl \<and> best_skip dense sg counts cache cl \<le> int cl"
proof (cases "find (\<lambda>y. let (disy, nearest_y) = cache ! y
              in \<not> (nearest_y < 0 \<or> disy < 0) \<and>
                 dense (fst (cache ! cl)) disy
                   (sg_dim_at_level sg ! min cl (sg_maxFixLevel sg)) (sg_dim_at_level sg ! min y (sg_maxFixLevel sg))
                   (counts ! cl) (counts ! y))
            [0..<cl]")
  case (Some y)
  then have "y < cl" by (auto simp: find_Some_iff)
  then show ?thesis using Some by (simp add: best_skip_def)
qed (simp add: best_skip_def)

text \<open>The samples: skips between one and the level.\<close>

definition samples_ok :: "int \<Rightarrow> (float_t \<times> int) list \<Rightarrow> bool" where
  "samples_ok m q \<longleftrightarrow> (\<forall>p \<in> set q. 1 \<le> snd p \<and> snd p \<le> m)"

lemma density_level_ok: "samples_ok m q \<Longrightarrow> int cl \<le> m \<Longrightarrow> samples_ok m (density_level dense sg counts cache cl q)"
  using best_skip_range[of dense sg counts cache cl] by (auto simp: density_level_def samples_ok_def Let_def split: prod.splits)

lemma density_levels_ok:
  "samples_ok m q \<Longrightarrow> \<forall>cl \<in> set cls. int cl \<le> m \<Longrightarrow> samples_ok m (fold (density_level dense sg counts cache) cls q)"
  by (induction cls arbitrary: q) (simp_all add: density_level_ok)

lemma density_point_ok:
  assumes t: "trainable sg f" and i: "i < ih_ntotal (sg_base sg)" and q: "samples_ok (hn_max_level (ih_hnsw (sg_base sg))) q"
    and m: "1 \<le> sg_maxFixLevel sg \<or> (\<forall>i < ih_ntotal (sg_base sg). hn_levels (ih_hnsw (sg_base sg)) ! i \<le> 2)"
  shows "\<exists>q'. density_point dense sg f counts i q = Some (Inr q') \<and> samples_ok (hn_max_level (ih_hnsw (sg_base sg))) q'"
proof -
  let ?h = "ih_hnsw (sg_base sg)" and ?pl = "int (hn_levels (ih_hnsw (sg_base sg)) ! i) - 1"
  have b: "built ?h {..<ih_ntotal (sg_base sg)}" "length (hn_levels ?h) = ih_ntotal (sg_base sg)" using t by (simp_all add: trainable_def)
  show ?thesis
  proof (cases "?pl < 2")
    case True
    then show ?thesis using q by (simp add: density_point_def)
  next
    case False
    then have mfl: "1 \<le> sg_maxFixLevel sg" using m i by force
    have "\<forall>l \<le> nat ?pl. on_level ?h l i" using False i b(2) by (auto simp: on_level_def)
    from nn_cache_ok[OF t this mfl] obtain cache where c: "nn_cache sg f i (nat ?pl) = Some (Inr cache)" by blast
    have "i \<in> {..<ih_ntotal (sg_base sg)}" using i by simp
    then have "int (hn_levels ?h ! i) \<le> hn_max_level ?h + 1"
      using b(1) unfolding built_def by (metis empty_iff)
    then have "\<forall>cl \<in> set (rev [2..<nat ?pl + 1]). int cl \<le> hn_max_level ?h" using False by auto
    from density_levels_ok[OF q this] c False show ?thesis by (simp add: density_point_def Let_def)
  qed
qed

lemma finalized_ok:
  assumes "samples_ok m q"
  shows "shortcut_ok (finalize (fold (\<lambda>(d, skip). insert_or_assign (- d) skip) q (shortcut_clear s))) \<and>
    (\<forall>v \<in> set (sm_values (finalize (fold (\<lambda>(d, skip). insert_or_assign (- d) skip) q (shortcut_clear s)))). v \<le> m)"
proof -
  define ps where "ps = map (\<lambda>(d, skip). (- d, skip)) q"
  let ?m = "fold (\<lambda>(d, skip). insert_or_assign (- d) skip) q (shortcut_clear s)"
  have "fold (\<lambda>(d, skip). insert_or_assign (- d) skip) q r = fold (\<lambda>(d, skip). insert_or_assign d skip) ps r" for r
    unfolding ps_def by (induction q arbitrary: r) (simp_all add: case_prod_beta)
  then have "?m = (shortcut_clear s)\<lparr> sm_keys := map fst ps, sm_values := map snd ps, sm_trained := False \<rparr>"
    unfolding inserted_samples by (simp add: shortcut_clear_def)
  then have len: "length (sm_values ?m) = length (sm_keys ?m)" and z: "zip (sm_keys ?m) (sm_values ?m) = ps"
    by (simp_all add: zip_map_fst_snd)
  note F = finalize_ok[OF len]
  have D: "distinct_pairs ps (sm_keys (finalize ?m), sm_values (finalize ?m))" using F z by simp
  have v: "v \<in> snd ` set ps" if "v \<in> set (sm_values (finalize ?m))" for v
  proof -
    from that obtain j where j: "j < length (sm_values (finalize ?m))" "v = sm_values (finalize ?m) ! j" by (metis in_set_conv_nth)
    then have "map_of (rev ps) (sm_keys (finalize ?m) ! j) = Some v" using D by (simp add: distinct_pairs_def)
    then have "(sm_keys (finalize ?m) ! j, v) \<in> set (rev ps)" by (rule map_of_SomeD)
    then show ?thesis by force
  qed
  have "1 \<le> v \<and> v \<le> m" if "v \<in> set (sm_values (finalize ?m))" for v
    using v[OF that] assms by (auto simp: samples_ok_def ps_def)
  then show ?thesis using D F by (auto simp: shortcut_ok_def distinct_pairs_def)
qed

lemma build_shortcuts_density_ok:
  assumes t: "trainable sg f"
    and m: "1 \<le> sg_maxFixLevel sg \<or> (\<forall>i < ih_ntotal (sg_base sg). hn_levels (ih_hnsw (sg_base sg)) ! i \<le> 2)"
  shows "\<exists>sc. build_shortcuts_density dense sg f = Some (Inr (sg\<lparr> sg_shortcut := sc \<rparr>)) \<and> shortcut_ok sc \<and>
    (\<forall>v \<in> set (sm_values sc). v \<le> hn_max_level (ih_hnsw (sg_base sg)))"
proof -
  let ?h = "ih_hnsw (sg_base sg)" and ?n = "ih_ntotal (sg_base sg)"
  let ?counts = "level_counts ?h ?n (nat (hn_max_level ?h))"
  have "\<exists>q. for_each (density_point dense sg f ?counts) [0..<?n] [] = Some (Inr q) \<and> samples_ok (hn_max_level ?h) q"
  proof (rule for_each_ok[where P = "\<lambda>_. samples_ok (hn_max_level ?h)"])
    fix zs i q assume q: "samples_ok (hn_max_level ?h) q" and "\<exists>us. zs @ i # us = [0..<?n]"
    then have "i \<in> set [0..<?n]" by (metis in_set_conv_decomp)
    then have "i < ?n" by simp
    from density_point_ok[OF t this q m] show "\<exists>s'. density_point dense sg f ?counts i q = Some (Inr s') \<and> samples_ok (hn_max_level ?h) s'" .
  qed (simp add: samples_ok_def)
  then obtain q where q: "for_each (density_point dense sg f ?counts) [0..<?n] [] = Some (Inr q)" "samples_ok (hn_max_level ?h) q" by blast
  from finalized_ok[OF q(2), of "sg_shortcut sg"] q(1) show ?thesis
    by (intro exI[of _ "finalize (fold (\<lambda>(d, skip). insert_or_assign (- d) skip) q (shortcut_clear (sg_shortcut sg)))"])
      (simp add: build_shortcuts_density_def Let_def)
qed

lemma build_shortcut_ok:
  assumes ok: "shg_ok sg" and n: "0 < ih_ntotal (sg_base sg)"
    and m: "1 \<le> sg_maxFixLevel sg \<or> (\<forall>i < ih_ntotal (sg_base sg). hn_levels (ih_hnsw (sg_base sg)) ! i \<le> 2)"
  shows "\<exists>sg'. build_shortcut dense sg = Some (Inr sg') \<and> shg_ok sg' \<and> sg_base sg' = sg_base sg \<and>
    sg_eta sg' = sg_eta sg \<and> sg_maxFixLevel sg' = sg_maxFixLevel sg \<and>
    (\<forall>v \<in> set (sm_values (sg_shortcut sg')). 1 \<le> v \<and> v \<le> hn_max_level (ih_hnsw (sg_base sg)))"
proof -
  let ?n = "ih_ntotal (sg_base sg)"
  have S: "index_hnsw_ok (sg_base sg)" "params_ok sg" "compressed_ok sg (the (ih_storage (sg_base sg))) ?n"
    using ok by (simp_all add: shg_ok_def)
  obtain f where f: "ih_storage (sg_base sg) = Some f" "length (fl_codes f) = ?n * ih_d (sg_base sg)"
    using shg_storage[OF S(1)] .
  have b: "built (ih_hnsw (sg_base sg)) {..<?n}" "length (hn_levels (ih_hnsw (sg_base sg))) = ?n"
    using S(1) by (simp_all add: index_hnsw_ok_def)
  define sg1 where "sg1 = (if sg_compressed_vecs sg = [] then build_all_compressed f sg else sg)"
  have "\<exists>cs. sg1 = sg\<lparr> sg_compressed_vecs := cs \<rparr> \<and> compressed_ok (sg\<lparr> sg_compressed_vecs := cs \<rparr>) f ?n"
  proof (cases "sg_compressed_vecs sg = []")
    case True
    then show ?thesis using build_all_compressed_ok[OF S(2) f(2)] by (simp add: sg1_def)
  next
    case False
    then show ?thesis using S(3) f(1) by (intro exI[of _ "sg_compressed_vecs sg"]) (simp add: sg1_def)
  qed
  then obtain cs where c: "sg1 = sg\<lparr> sg_compressed_vecs := cs \<rparr>" "compressed_ok (sg\<lparr> sg_compressed_vecs := cs \<rparr>) f ?n" by blast
  have p1: "params_ok sg1" using S(2) by (simp add: c(1) params_ok_def)
  then have t: "trainable sg1 f" using c f(2) b by (simp add: trainable_def)
  from build_shortcuts_density_ok[OF t, of dense] m obtain sc where
    d: "build_shortcuts_density dense sg1 f = Some (Inr (sg1\<lparr> sg_shortcut := sc \<rparr>))" "shortcut_ok sc"
    "\<forall>v \<in> set (sm_values sc). v \<le> hn_max_level (ih_hnsw (sg_base sg))" by (auto simp: c(1))
  have "sg_dim_at_level sg \<noteq> []" using S(2) by (simp add: params_ok_def)
  then have "build_shortcut dense sg = Some (Inr (sg1\<lparr> sg_shortcut := sc \<rparr>))"
    using n f(1) d(1) by (simp add: build_shortcut_def sg1_def[symmetric])
  moreover have "shg_ok (sg1\<lparr> sg_shortcut := sc \<rparr>)"
    using ok c d(2) f(1) p1 by (simp add: shg_ok_def params_ok_def compressed_ok_def del: upt_Suc)
  moreover have "\<forall>v \<in> set (sm_values sc). 1 \<le> v" using d(2) by (simp add: shortcut_ok_def)
  ultimately show ?thesis using d(3) by (intro exI[of _ "sg1\<lparr> sg_shortcut := sc \<rparr>"]) (simp add: c(1))
qed

end
