(* ===== verification/IoMacros.thy ===== *)
theory IoMacros
  imports Io
begin

text \<open>
  The macros of \<open>faiss/impl/io_macros.h\<close> with which the generic index files are read and written:
  \<open>READ1\<close>, \<open>READVECTOR\<close>, the writers of fixed-width integers, and what they read back. A field that the
  model keeps as a natural number cannot hold the negative number of a corrupt stream; the readers give
  \<open>NotModelled\<close> for it.
\<close>

section \<open>Writing\<close>

definition enc_i32 :: "nat \<Rightarrow> byte list" where "enc_i32 n = le_enc 4 (int n)"
definition enc_u64 :: "nat \<Rightarrow> byte list" where "enc_u64 n = le_enc 8 (int n)"

section \<open>Reading\<close>

text \<open>\<open>READ1\<close>.\<close>

definition read1_macro :: "nat \<Rightarrow> (byte list \<Rightarrow> 'a) \<Rightarrow> 'a parser" where
  "read1_macro sz dec = read1_checked ''read error in %s: %zd != %zd (%s)'' sz dec"

definition read_i32 :: "int parser" where "read_i32 = read1_macro 4 sle_dec"
definition read_u64 :: "nat parser" where "read_u64 = read1_macro 8 (\<lambda>b. nat (le_dec b))"

text \<open>\<open>READVECTOR\<close>.\<close>

definition read_vector :: "nat \<Rightarrow> (byte list \<Rightarrow> 'a) \<Rightarrow> 'a list parser" where
  "read_vector sz dec =
     bind_parser read_u64 (\<lambda>n.
       check_parser (n < 2 ^ 40) ''Error: 'size >= 0 && size < (uint64_t{1} << 40)' failed''
         (read_array_checked ''read error in %s: %zd != %zd (%s)'' sz dec n))"

text \<open>\<open>std::vector::resize\<close> with a negative \<open>int\<close>, which is converted to a huge size.\<close>

definition resize_parser :: "int \<Rightarrow> 'a parser \<Rightarrow> 'a parser" where
  "resize_parser n p = (\<lambda>r. if n < 0 then Inl (StdException ''vector::_M_default_append'') else p r)"

section \<open>What they read back\<close>

lemma reads_i32: "fits_i32 v \<Longrightarrow> reads read_i32 (le_enc 4 v) v"
  unfolding read_i32_def read1_macro_def by (rule reads_read1_checked) (simp_all add: sle_dec_i32)

lemma reads_u64: "fits_u64 n \<Longrightarrow> reads read_u64 (enc_u64 n) n"
  unfolding read_u64_def read1_macro_def enc_u64_def by (rule reads_read1_checked) (simp_all add: le_dec_u64)

lemma reads_vector:
  assumes "\<forall>x \<in> set xs. length (enc x) = sz \<and> dec (enc x) = x" "0 < sz" "length xs < 2 ^ 40"
  shows "reads (read_vector sz dec) (enc_u64 (length xs) @ concat (map enc xs)) xs"
  unfolding read_vector_def
proof (rule reads_bind[OF reads_u64])
  show "fits_u64 (length xs)" using assms(3) by (simp add: fits_u64_def)
  show "reads (check_parser (length xs < 2 ^ 40) ''Error: 'size >= 0 && size < (uint64_t{1} << 40)' failed''
      (read_array_checked ''read error in %s: %zd != %zd (%s)'' sz dec (length xs))) (concat (map enc xs)) xs"
    using assms by (intro reads_check reads_array) simp_all
qed

lemma reads_resize: "0 \<le> n \<Longrightarrow> reads p bs v \<Longrightarrow> reads (resize_parser n p) bs v"
  by (simp add: reads_def resize_parser_def)

lemma reads_enc_i32: "fits_i32 (int n) \<Longrightarrow> reads read_i32 (enc_i32 n) (int n)"
  unfolding enc_i32_def by (rule reads_i32)

lemma vwrite_fold: "fold (\<lambda>i. vwrite (g i)) is' w = w @ concat (map g is')"
  by (induction is' arbitrary: w) (simp_all add: vwrite_def)

end
