(* ===== verification/ShgIO.thy ===== *)
theory ShgIO
  imports ShgTrain IoMacros
begin

text \<open>
  \<open>write_index_shg_extra\<close> and \<open>read_index_shg_extra\<close> of \<open>faiss/IndexSHG_io.h\<close>: the data of an
  \<open>IndexSHG\<close> beside its base index, at the level of bytes. Every field is written and read with the macros
  of \<open>impl/io_macros.h\<close>, except the compressed vectors, which are read without a check.
\<close>

section \<open>Writing\<close>

definition write_index_shg_extra :: "float_codec \<Rightarrow> shg \<Rightarrow> byte list \<Rightarrow> byte list" where
  "write_index_shg_extra fc sg w =
     (let dims = sg_dim_at_level sg; offsets = sg_offset_at_level sg; cvs = sg_compressed_vecs sg;
          keys = sm_keys (sg_shortcut sg); values = sm_values (sg_shortcut sg);
          w = vwrite (enc_i32 (sg_maxFixLevel sg)) (vwrite (enc_i32 (sg_eta sg)) w);
          w = vwrite (enc_i32 (length dims)) w;
          w = (if length dims > 0 then vwrite (concat (map enc_i32 dims)) (vwrite (enc_u64 (length dims)) w) else w);
          w = vwrite (enc_i32 (length offsets)) w;
          w = fold (\<lambda>i. vwrite (enc_u64 (offsets ! i))) [0..<length offsets] w;
          w = vwrite (enc_u64 (length cvs)) (vwrite (enc_u64 (sg_data_rep_size sg)) w);
          w = (if length cvs > 0 then vwrite (concat (map (fst fc) cvs)) w else w);
          w = vwrite (enc_i32 (length keys)) w
      in fold (\<lambda>i w. vwrite (le_enc 4 (values ! i)) (vwrite (fst fc (keys ! i)) w)) [0..<length keys] w)"

section \<open>Reading\<close>

text \<open>The compressed vectors: the items that the stream still has replace the first ones of the resized
  vector.\<close>

definition read_floats_unchecked :: "float_codec \<Rightarrow> nat \<Rightarrow> float_t list \<Rightarrow> float_t list parser" where
  "read_floats_unchecked fc n old =
     (\<lambda>r. case vread 4 n r of (m, bs, r') \<Rightarrow>
        Inr (blit 0 (map (snd fc) (split_items 4 m bs)) (resize n 0 old), r'))"

definition read_sample :: "float_codec \<Rightarrow> (float_t \<times> int) parser" where
  "read_sample fc = bind_parser (read1_macro 4 (snd fc)) (\<lambda>k. bind_parser read_i32 (\<lambda>v. return_parser (k, v)))"

definition read_shortcut :: "float_codec \<Rightarrow> shg \<Rightarrow> shg parser" where
  "read_shortcut fc idx =
    bind_parser read_i32 (\<lambda>sc_size.
    check_parser (sc_size \<ge> 0) ''IndexSHG: corrupt shortcut size''
   (bind_parser (parse_list (replicate (nat sc_size) (read_sample fc))) (\<lambda>samples.
      return_parser (idx\<lparr> sg_shortcut := build_model
        ((shortcut_clear (sg_shortcut idx))\<lparr> sm_keys := map fst samples, sm_values := map snd samples \<rparr>) \<rparr>))))"

definition read_index_shg_extra :: "float_codec \<Rightarrow> shg \<Rightarrow> shg parser" where
  "read_index_shg_extra fc idx =
    bind_parser read_i32 (\<lambda>eta.
    bind_parser read_i32 (\<lambda>mfl.
    bind_parser read_i32 (\<lambda>n_levels.
    bind_parser (resize_parser n_levels (if n_levels > 0 then bind_parser (read_vector 4 sle_dec) nat_ids else return_parser [])) (\<lambda>dims.
    bind_parser read_i32 (\<lambda>n_offsets.
    bind_parser (resize_parser n_offsets (parse_list (replicate (nat n_offsets) read_u64))) (\<lambda>offsets.
    bind_parser read_u64 (\<lambda>rep_size.
    bind_parser read_u64 (\<lambda>cv_size.
    bind_parser (if cv_size > 0 then read_floats_unchecked fc cv_size (sg_compressed_vecs idx) else return_parser []) (\<lambda>cvs.
      nat_fields [eta, mfl] (read_shortcut fc (idx\<lparr> sg_eta := nat eta, sg_maxFixLevel := nat mfl, sg_dim_at_level := dims,
        sg_offset_at_level := offsets, sg_data_rep_size := rep_size, sg_compressed_vecs := cvs \<rparr>)))))))))))"

section \<open>Round trip\<close>

definition shg_storable :: "float_codec \<Rightarrow> shg \<Rightarrow> bool" where
  "shg_storable fc sg \<longleftrightarrow>
     fits_i32 (int (sg_eta sg)) \<and> fits_i32 (int (sg_maxFixLevel sg)) \<and>
     fits_i32 (int (length (sg_dim_at_level sg))) \<and> (\<forall>x \<in> set (sg_dim_at_level sg). fits_i32 (int x)) \<and>
     fits_i32 (int (length (sg_offset_at_level sg))) \<and> (\<forall>x \<in> set (sg_offset_at_level sg). fits_u64 x) \<and>
     fits_u64 (sg_data_rep_size sg) \<and> fits_u64 (length (sg_compressed_vecs sg)) \<and>
     fits_i32 (int (length (sm_keys (sg_shortcut sg)))) \<and> (\<forall>v \<in> set (sm_values (sg_shortcut sg)). fits_i32 v) \<and>
     codec_ok fc (set (sg_compressed_vecs sg) \<union> set (sm_keys (sg_shortcut sg)))"

lemma reads_floats_unchecked:
  assumes "codec_ok fc (set xs)" "length xs = n"
  shows "reads (read_floats_unchecked fc n old) (concat (map (fst fc) xs)) xs"
  unfolding reads_def
proof (intro allI impI)
  fix r rest assume u: "unread r = concat (map (fst fc) xs) @ rest"
  have c: "\<forall>x \<in> set xs. length (fst fc x) = 4" "\<forall>x \<in> set xs. snd fc (fst fc x) = x" using assms(1) by (auto simp: codec_ok_def)
  have "length (concat (map (fst fc) xs)) = 4 * n" using length_concat_items[OF c(1)] assms(2) by simp
  from vread_exact[OF u this] obtain r' where "vread 4 n r = (n, concat (map (fst fc) xs), r')" "unread r' = rest" by auto
  moreover have "map (snd fc) (split_items 4 n (concat (map (fst fc) xs))) = xs"
    using split_items_concat[OF c(1)] c(2) assms(2) by (simp add: map_idI)
  moreover have "blit 0 xs (resize n 0 old) = xs" using assms(2) by (simp add: blit_def resize_def)
  ultimately show "\<exists>r'. read_floats_unchecked fc n old r = Inr (xs, r') \<and> unread r' = rest"
    by (simp add: read_floats_unchecked_def)
qed

definition shg_sample_bytes :: "float_codec \<Rightarrow> float_t \<times> int \<Rightarrow> byte list" where
  "shg_sample_bytes fc s = fst fc (fst s) @ le_enc 4 (snd s)"

lemma vwrite_samples:
  assumes "length values = length keys"
  shows "fold (\<lambda>i w. vwrite (le_enc 4 (values ! i)) (vwrite (fst fc (keys ! i)) w)) [0..<length keys] w
    = w @ concat (map (shg_sample_bytes fc) (zip keys values))"
proof -
  have "fold (\<lambda>i w. vwrite (le_enc 4 (values ! i)) (vwrite (fst fc (keys ! i)) w)) is' w
      = w @ concat (map (\<lambda>i. fst fc (keys ! i) @ le_enc 4 (values ! i)) is')" for is'
    by (induction is' arbitrary: w) (simp_all add: vwrite_def)
  moreover have "map (\<lambda>i. fst fc (keys ! i) @ le_enc 4 (values ! i)) [0..<length keys] = map (shg_sample_bytes fc) (zip keys values)"
    using assms by (intro nth_equalityI) (simp_all add: shg_sample_bytes_def)
  ultimately show ?thesis by simp
qed

lemma reads_sample:
  assumes "length (fst fc k) = 4" "snd fc (fst fc k) = k" "fits_i32 v"
  shows "reads (read_sample fc) (shg_sample_bytes fc (k, v)) (k, v)"
  unfolding read_sample_def shg_sample_bytes_def fst_conv snd_conv
proof (rule reads_bind)
  show "reads (read1_macro 4 (snd fc)) (fst fc k) k"
    unfolding read1_macro_def using assms by (intro reads_read1_checked) simp_all
  show "reads (bind_parser read_i32 (\<lambda>v. return_parser (k, v))) (le_enc 4 v) (k, v)"
    by (rule reads_bind_return[OF reads_i32[OF assms(3)]])
qed

definition shg_extra_bytes :: "float_codec \<Rightarrow> shg \<Rightarrow> byte list" where
  "shg_extra_bytes fc sg =
     enc_i32 (sg_eta sg) @ enc_i32 (sg_maxFixLevel sg) @ enc_i32 (length (sg_dim_at_level sg)) @
     (if 0 < length (sg_dim_at_level sg) then enc_u64 (length (sg_dim_at_level sg)) @ concat (map enc_i32 (sg_dim_at_level sg)) else []) @
     enc_i32 (length (sg_offset_at_level sg)) @ concat (map enc_u64 (sg_offset_at_level sg)) @
     enc_u64 (sg_data_rep_size sg) @ enc_u64 (length (sg_compressed_vecs sg)) @
     concat (map (fst fc) (sg_compressed_vecs sg)) @ enc_i32 (length (sm_keys (sg_shortcut sg))) @
     concat (map (shg_sample_bytes fc) (zip (sm_keys (sg_shortcut sg)) (sm_values (sg_shortcut sg))))"

lemma write_extra_bytes:
  assumes "length (sm_values (sg_shortcut sg)) = length (sm_keys (sg_shortcut sg))"
  shows "write_index_shg_extra fc sg w = w @ shg_extra_bytes fc sg"
proof -
  have "map (\<lambda>i. enc_u64 (xs ! i)) [0..<length xs] = map enc_u64 xs" for xs :: "nat list"
    by (intro nth_equalityI) simp_all
  then show ?thesis
    unfolding write_index_shg_extra_def shg_extra_bytes_def Let_def vwrite_samples[OF assms] vwrite_fold
    by (simp add: vwrite_def del: upt_Suc)
qed

lemma reads_shortcut:
  assumes "length (sm_values m) = length (sm_keys m)" "fits_i32 (int (length (sm_keys m)))"
    "\<forall>v \<in> set (sm_values m). fits_i32 v" "codec_ok fc (set (sm_keys m))"
  shows "reads (read_shortcut fc idx)
    (enc_i32 (length (sm_keys m)) @ concat (map (shg_sample_bytes fc) (zip (sm_keys m) (sm_values m))))
    (idx\<lparr> sg_shortcut := \<lparr> sm_keys = sm_keys m, sm_values = sm_values m, sm_pgm = sm_keys m, sm_trained = (sm_keys m \<noteq> []) \<rparr> \<rparr>)"
proof -
  let ?ps = "zip (sm_keys m) (sm_values m)"
  have len: "length ?ps = length (sm_keys m)" using assms(1) by simp
  have "reads (parse_list (replicate (length ?ps) (read_sample fc))) (concat (map (shg_sample_bytes fc) ?ps)) ?ps"
  proof (intro reads_parse_list allI impI)
    fix i assume i: "i < length ?ps"
    then have "fst (?ps ! i) \<in> set (sm_keys m)" "snd (?ps ! i) \<in> set (sm_values m)" using assms(1) by simp_all
    then have "reads (read_sample fc) (shg_sample_bytes fc (fst (?ps ! i), snd (?ps ! i))) (fst (?ps ! i), snd (?ps ! i))"
      using assms(3,4) by (intro reads_sample) (simp_all add: codec_ok_def)
    then show "reads (replicate (length ?ps) (read_sample fc) ! i) (shg_sample_bytes fc (?ps ! i)) (?ps ! i)"
      using i by simp
  qed simp
  then have "reads (parse_list (replicate (nat (int (length (sm_keys m)))) (read_sample fc))) (concat (map (shg_sample_bytes fc) ?ps)) ?ps"
    unfolding nat_int len .
  note R = reads_bind_return[OF this, of "\<lambda>samples. idx\<lparr> sg_shortcut := build_model
        ((shortcut_clear (sg_shortcut idx))\<lparr> sm_keys := map fst samples, sm_values := map snd samples \<rparr>) \<rparr>"]
  have eq: "build_model ((shortcut_clear (sg_shortcut idx))\<lparr> sm_keys := map fst ?ps, sm_values := map snd ?ps \<rparr>)
      = \<lparr> sm_keys = sm_keys m, sm_values = sm_values m, sm_pgm = sm_keys m, sm_trained = (sm_keys m \<noteq> []) \<rparr>"
    using assms(1) by (cases "sg_shortcut idx") (simp add: build_model_def shortcut_clear_def)
  show ?thesis unfolding read_shortcut_def
    by (rule reads_bind[OF reads_enc_i32[OF assms(2)]], rule reads_check) (simp, rule R[unfolded eq])
qed

lemma reads_extra:
  assumes st: "shg_storable fc sg" and d: "length (sg_dim_at_level sg) < 2 ^ 40"
    and m: "length (sm_values (sg_shortcut sg)) = length (sm_keys (sg_shortcut sg))"
  shows "reads (read_index_shg_extra fc idx) (shg_extra_bytes fc sg)
    (idx\<lparr> sg_eta := sg_eta sg, sg_maxFixLevel := sg_maxFixLevel sg, sg_dim_at_level := sg_dim_at_level sg,
      sg_offset_at_level := sg_offset_at_level sg, sg_data_rep_size := sg_data_rep_size sg,
      sg_compressed_vecs := sg_compressed_vecs sg, sg_shortcut := \<lparr> sm_keys = sm_keys (sg_shortcut sg),
        sm_values = sm_values (sg_shortcut sg), sm_pgm = sm_keys (sg_shortcut sg), sm_trained = (sm_keys (sg_shortcut sg) \<noteq> []) \<rparr> \<rparr>)"
proof -
  let ?dims = "sg_dim_at_level sg" and ?ofs = "sg_offset_at_level sg" and ?cvs = "sg_compressed_vecs sg"
  from st have F: "fits_i32 (int (sg_eta sg))" "fits_i32 (int (sg_maxFixLevel sg))" "fits_i32 (int (length ?dims))"
    "\<forall>x \<in> set ?dims. fits_i32 (int x)" "fits_i32 (int (length ?ofs))" "\<forall>x \<in> set ?ofs. fits_u64 x"
    "fits_u64 (sg_data_rep_size sg)" "fits_u64 (length ?cvs)" "fits_i32 (int (length (sm_keys (sg_shortcut sg))))"
    "\<forall>v \<in> set (sm_values (sg_shortcut sg)). fits_i32 v" "codec_ok fc (set ?cvs)" "codec_ok fc (set (sm_keys (sg_shortcut sg)))"
    by (simp_all add: shg_storable_def codec_ok_def)
  have dims: "reads (resize_parser (int (length ?dims))
        (if int (length ?dims) > 0 then bind_parser (read_vector 4 sle_dec) nat_ids else return_parser []))
      (if 0 < length ?dims then enc_u64 (length ?dims) @ concat (map enc_i32 ?dims) else []) ?dims"
  proof (rule reads_resize)
    have "reads (read_vector 4 sle_dec) (enc_u64 (length (map int ?dims)) @ concat (map (le_enc 4) (map int ?dims))) (map int ?dims)"
      using F(4) d by (intro reads_vector) (simp_all add: sle_dec_i32)
    from reads_nat_ids[OF this]
    have "reads (bind_parser (read_vector 4 sle_dec) nat_ids) (enc_u64 (length ?dims) @ concat (map enc_i32 ?dims)) ?dims"
      by (simp add: enc_i32_def[abs_def] comp_def)
    then show "reads (if int (length ?dims) > 0 then bind_parser (read_vector 4 sle_dec) nat_ids else return_parser [])
        (if 0 < length ?dims then enc_u64 (length ?dims) @ concat (map enc_i32 ?dims) else []) ?dims"
      by (auto simp: reads_return)
  qed simp
  have offs: "reads (resize_parser (int (length ?ofs)) (parse_list (replicate (nat (int (length ?ofs))) read_u64)))
      (concat (map enc_u64 ?ofs)) ?ofs"
    using F(6) by (intro reads_resize reads_parse_list) (simp_all add: reads_u64)
  have cvs: "reads (if length ?cvs > 0 then read_floats_unchecked fc (length ?cvs) (sg_compressed_vecs idx) else return_parser [])
      (concat (map (fst fc) ?cvs)) ?cvs"
    using reads_floats_unchecked[OF F(11) refl] by (auto simp: reads_return)
  note sc = reads_shortcut[OF m F(9,10,12)]
  show ?thesis
    unfolding read_index_shg_extra_def shg_extra_bytes_def
    by (rule reads_bind[OF reads_enc_i32[OF F(1)]], rule reads_bind[OF reads_enc_i32[OF F(2)]],
        rule reads_bind[OF reads_enc_i32[OF F(3)]], rule reads_bind[OF dims], rule reads_bind[OF reads_enc_i32[OF F(5)]],
        rule reads_bind[OF offs], rule reads_bind[OF reads_u64[OF F(7)]], rule reads_bind[OF reads_u64[OF F(8)]],
        rule reads_bind[OF cvs]) (use sc in simp)
qed

end
