(* ===== verification/ShgProps.thy ===== *)
theory ShgProps
  imports ShgSearchOk ShgIO SuCoIO
begin

text \<open>
  The properties of \<open>IndexSHG\<close>: the compression, the learned shortcut, adding vectors, training, and the
  round trip of its data through a stream.
\<close>

section \<open>A concrete index\<close>

lemma new_shg_ok:
  assumes "\<forall>l < L. 1 / 10 ^ 9 \<le> proba l" "proba L < 1 / 10 ^ 9" "1 \<le> L" "1 \<le> M" "1 \<le> dm"
  shows "\<exists>sg. IndexSHG proba dm M m = Some sg \<and> shg_ok sg \<and> ih_ntotal (sg_base sg) = 0 \<and> ih_d (sg_base sg) = dm \<and>
    ih_metric (sg_base sg) = m \<and> sg_eta sg = 2"
proof -
  from new_index_ok[OF assms(1-4), of dm m] obtain ix where
    ix: "IndexHNSWFlat proba dm M m = Some ix" "index_hnsw_ok ix" "ih_ntotal ix = 0" "ih_d ix = dm" "ih_metric ix = m" by blast
  let ?sg = "\<lparr> sg_base = ix, sg_eta = 2, sg_maxFixLevel = 0, sg_compressed_vecs = [], sg_data_rep_size = 0,
    sg_dim_at_level = [], sg_offset_at_level = [], sg_shortcut = ShortcutMap \<rparr>"
  from compute_compression_params_ok[of ?sg] obtain sg where
    c: "compute_compression_params ?sg = Some sg" "params_ok sg" "last_level 2 dm (sg_maxFixLevel sg)" "sg_base sg = ix"
      "sg_eta sg = 2" "sg_shortcut sg = ShortcutMap" using ix(4) by auto
  have "shortcut_ok ShortcutMap" by (simp add: shortcut_ok_def ShortcutMap_def)
  then have "shg_ok sg" using c ix by (simp add: shg_ok_def compressed_ok_def)
  then show ?thesis using c ix assms(5) by (simp add: IndexSHG_def Let_def)
qed

text \<open>Two vectors of dimension 4: one level of compression, of dimension 2.\<close>

definition demo_vectors :: "float_t list" where
  "demo_vectors = [1, 3, 5, 7, 2, 2, 4, 4]"

lemma demo_last_level: "last_level 2 4 m \<Longrightarrow> m = 1"
proof -
  assume l: "last_level 2 4 m"
  have d: "dims 2 4 0 = 4" "dims 2 4 1 = 2" by (simp_all add: ceil_div_eq)
  have "m \<noteq> 0"
  proof
    assume "m = 0"
    with l d(1) show False by (simp add: last_level_def)
  qed
  moreover from l have "\<not> 1 < m" using d(2) by (auto simp: last_level_def)
  ultimately show "m = 1" by simp
qed

lemma demo_new_shg:
  "\<exists>sg. IndexSHG demo_proba 4 1 METRIC_L2 = Some sg \<and> shg_ok sg \<and> ih_ntotal (sg_base sg) = 0 \<and> ih_d (sg_base sg) = 4 \<and>
    ih_metric (sg_base sg) = METRIC_L2 \<and> sg_eta sg = 2 \<and> sg_maxFixLevel sg = 1 \<and> hn_levels (ih_hnsw (sg_base sg)) = []"
proof -
  from new_shg_ok[OF demo_proba, of 1 4 METRIC_L2] obtain sg where
    sg: "IndexSHG demo_proba 4 1 METRIC_L2 = Some sg" "shg_ok sg" "ih_ntotal (sg_base sg) = 0" "ih_d (sg_base sg) = 4"
      "ih_metric (sg_base sg) = METRIC_L2" "sg_eta sg = 2" by auto
  then have "sg_maxFixLevel sg = 1" using demo_last_level by (simp add: shg_ok_def)
  moreover have "hn_levels (ih_hnsw (sg_base sg)) = []" using sg(2,3) by (simp add: shg_ok_def index_hnsw_ok_def)
  ultimately show ?thesis using sg by blast
qed

lemma demo_shg:
  "\<exists>sg f. shg_ok sg \<and> ih_ntotal (sg_base sg) = 2 \<and> ih_storage (sg_base sg) = Some f \<and> ih_d (sg_base sg) = 4 \<and>
    ih_metric (sg_base sg) = METRIC_L2 \<and> sg_eta sg = 2 \<and> sg_maxFixLevel sg = 1 \<and>
    flat_vec f 0 = [1, 3, 5, 7] \<and> flat_vec f 1 = [2, 2, 4, 4] \<and> fl_metric f = METRIC_L2"
proof -
  from demo_new_shg obtain sg where
    sg: "shg_ok sg" "ih_ntotal (sg_base sg) = 0" "ih_d (sg_base sg) = 4" "ih_metric (sg_base sg) = METRIC_L2" "sg_eta sg = 2"
      "sg_maxFixLevel sg = 1" by blast
  have "2 * ih_d (sg_base sg) \<le> length demo_vectors" using sg(3) by (simp add: demo_vectors_def)
  from shg_add_ok[OF sg(1) this, of "[0, 7 / 8]" "\<lambda>c. 3"] sg obtain sg' f where
    a: "shg_ok sg'" "ih_ntotal (sg_base sg') = 2" "ih_d (sg_base sg') = 4" "ih_metric (sg_base sg') = METRIC_L2"
      "ih_storage (sg_base sg') = Some f" "\<forall>i < 2. flat_vec f i = row 4 i demo_vectors" "sg_eta sg' = 2" "sg_maxFixLevel sg' = 1"
    by auto
  have "flat_vec f 0 = [1, 3, 5, 7]" "flat_vec f 1 = [2, 2, 4, 4]" using a(6) by (simp_all add: slice_def demo_vectors_def)
  moreover have "fl_metric f = METRIC_L2" using a(1,4,5) by (simp add: shg_ok_def index_hnsw_ok_def)
  ultimately show ?thesis using a by blast
qed

section \<open>Compression\<close>

text \<open>C37. \<open>compute_compression_params\<close>, for any state of the tables and \<open>eta\<close> at least 1: it ends
  exactly when \<open>eta\<close> is not 1 or the dimension is 0. Then level \<open>l\<close> of the hierarchy has the ceiling of the
  dimension of level \<open>l - 1\<close> divided by \<open>eta\<close>, the offsets are the sums of the dimensions of the levels
  before, and the last level is the first one whose dimension divided by \<open>eta\<close> is below \<open>eta\<close>.\<close>

theorem compression_params_terminate:
  assumes "1 \<le> sg_eta sg"
  shows "if 2 \<le> sg_eta sg \<or> ih_d (sg_base sg) = 0
    then \<exists>sg'. compute_compression_params sg = Some sg' \<and>
      length (sg_dim_at_level sg') = sg_maxFixLevel sg' + 1 \<and> sg_dim_at_level sg' ! 0 = ih_d (sg_base sg) \<and>
      (\<forall>l < sg_maxFixLevel sg'. sg_dim_at_level sg' ! Suc l = ceil_div (sg_dim_at_level sg' ! l) (sg_eta sg)) \<and>
      (\<forall>l. 1 \<le> l \<and> l \<le> sg_maxFixLevel sg' \<longrightarrow> sg_offset_at_level sg' ! l = (\<Sum>i \<leftarrow> [1..<l]. sg_dim_at_level sg' ! i)) \<and>
      (\<forall>l \<le> sg_maxFixLevel sg'. sg_dim_at_level sg' ! l div sg_eta sg < sg_eta sg \<longleftrightarrow> l = sg_maxFixLevel sg')
    else compute_compression_params sg = None"
proof (cases "2 \<le> sg_eta sg \<or> ih_d (sg_base sg) = 0")
  case True
  let ?eta = "sg_eta sg" and ?d = "ih_d (sg_base sg)"
  have "\<exists>mfl. run_loop (fix_level_step ?eta) (0, 0, ?d) = Some (mfl, \<Sum>i \<leftarrow> [1..<mfl + 1]. dims ?eta ?d i) \<and> last_level ?eta ?d mfl"
  proof (cases "2 \<le> ?eta")
    case False
    then have "?eta = 1" "?d = 0" using True assms by simp_all
    then show ?thesis by (intro exI[of _ 0], subst run_loop.simps) (simp add: fix_level_step_def last_level_def)
  qed (rule fix_level_ok)
  then obtain mfl where r: "run_loop (fix_level_step ?eta) (0, 0, ?d) = Some (mfl, \<Sum>i \<leftarrow> [1..<mfl + 1]. dims ?eta ?d i)"
    and last: "last_level ?eta ?d mfl" by blast
  have "0 < ?eta" using assms by simp
  from compute_compression_params_at[OF this r] obtain sg' where
    c: "compute_compression_params sg = Some sg'" "params_ok sg'" "sg_maxFixLevel sg' = mfl" "sg_base sg' = sg_base sg" "sg_eta sg' = ?eta"
    by blast
  have dim: "sg_dim_at_level sg' ! l = dims ?eta ?d l" if "l \<le> mfl" for l using params_dim[OF c(2)] c(3-5) that by simp
  have "\<forall>l. 1 \<le> l \<and> l \<le> mfl \<longrightarrow> sg_offset_at_level sg' ! l = (\<Sum>i \<leftarrow> [1..<l]. sg_dim_at_level sg' ! i)"
  proof (intro allI impI)
    fix l assume l: "1 \<le> l \<and> l \<le> mfl"
    have "map (\<lambda>i. sg_dim_at_level sg' ! i) [1..<l] = map (dims ?eta ?d) [1..<l]" using l dim by simp
    moreover have "sg_offset_at_level sg' ! l = sum_list (map (dims ?eta ?d) [1..<l])"
      using c(2)[unfolded params_ok_def] l unfolding c(3-5) by blast
    ultimately show "sg_offset_at_level sg' ! l = (\<Sum>i \<leftarrow> [1..<l]. sg_dim_at_level sg' ! i)" by (simp only:)
  qed
  moreover have "length (sg_dim_at_level sg') = mfl + 1" using c(2,3) by (simp add: params_ok_def)
  moreover have "\<forall>l \<le> mfl. sg_dim_at_level sg' ! l div ?eta < ?eta \<longleftrightarrow> l = mfl"
    using last dim by (auto simp: last_level_def not_less le_less)
  ultimately show ?thesis unfolding if_P[OF True] using c(1,3) dim
    by (intro exI[of _ sg']) (simp add: Suc_le_eq)
next
  case False
  then have "sg_eta sg = 1" "1 \<le> ih_d (sg_base sg)" using assms by simp_all
  then show ?thesis using fix_level_diverges False by (simp add: compute_compression_params_def)
qed

theorem compression_params_terminate_witness:
  "\<exists>sg sg'. sg_eta sg = 2 \<and> ih_d (sg_base sg) = 4 \<and> compute_compression_params sg = Some sg' \<and>
     sg_dim_at_level sg' ! Suc 0 = ceil_div 4 2 \<and> sg_maxFixLevel sg' = 1"
proof -
  from demo_new_shg obtain sg :: shg where sg: "sg_eta sg = 2" "ih_d (sg_base sg) = 4" by blast
  from compression_params_terminate[of sg] sg obtain sg' where
    c: "compute_compression_params sg = Some sg'" "sg_dim_at_level sg' ! 0 = 4"
      "\<forall>l < sg_maxFixLevel sg'. sg_dim_at_level sg' ! Suc l = ceil_div (sg_dim_at_level sg' ! l) 2"
      "\<forall>l \<le> sg_maxFixLevel sg'. sg_dim_at_level sg' ! l div 2 < 2 \<longleftrightarrow> l = sg_maxFixLevel sg'" by auto
  have "sg_maxFixLevel sg' \<noteq> 0" using c(2,4) by auto
  then have d1: "sg_dim_at_level sg' ! 1 = ceil_div 4 2" using c(2,3) by simp
  moreover have "\<not> 1 < sg_maxFixLevel sg'" using c(4)[rule_format, of 1] d1 by (auto simp: ceil_div_eq)
  ultimately show ?thesis using sg c(1) \<open>sg_maxFixLevel sg' \<noteq> 0\<close> by (intro exI[of _ sg] exI[of _ sg']) simp
qed

text \<open>The three routines of the compression agree. On a well-formed index, for a level \<open>l\<close> between 1 and
  \<open>maxFixLevel_\<close>: the segment of the vertex \<open>i\<close> that \<open>compress_node\<close> stored is what \<open>compress_vector\<close> gives for
  its vector, the segment of the representation of a query is what \<open>compress_vector\<close> gives for the query, and
  the distance of both, which \<open>get_dis_by_level_q\<close> reads through its pointers, is that of the compressed
  vectors. In particular no distance reads outside the array.\<close>

theorem shg_compression_agrees:
  assumes "shg_ok sg" "ih_storage (sg_base sg) = Some f" "i < ih_ntotal (sg_base sg)"
    and "1 \<le> l" "l \<le> sg_maxFixLevel sg" "length q = ih_d (sg_base sg)" "length query_rep = sg_data_rep_size sg"
  shows "read_floats sg (get_compressed_data sg i l) (sg_dim_at_level sg ! l) = Inr (compress_vector (flat_vec f i) (ih_d (sg_base sg)) l (sg_eta sg)) \<and>
    slice (sg_offset_at_level sg ! l) (sg_dim_at_level sg ! l) (build_compressed_query_rep sg q query_rep)
      = compress_vector q (ih_d (sg_base sg)) l (sg_eta sg) \<and>
    length (compress_vector q (ih_d (sg_base sg)) l (sg_eta sg)) = get_dim_at_level sg (int l) \<and>
    get_dis_by_level_q sg (build_compressed_query_rep sg q query_rep) i l
      = Inr (fvec_L2sqr (compress_vector q (ih_d (sg_base sg)) l (sg_eta sg)) (compress_vector (flat_vec f i) (ih_d (sg_base sg)) l (sg_eta sg))) \<and>
    (i + 1) * sg_data_rep_size sg \<le> length (sg_compressed_vecs sg) \<and>
    sg_offset_at_level sg ! l + sg_dim_at_level sg ! l \<le> sg_data_rep_size sg"
proof -
  let ?d = "ih_d (sg_base sg)" and ?eta = "sg_eta sg" and ?n = "ih_ntotal (sg_base sg)"
  from assms(1,2) have S: "index_hnsw_ok (sg_base sg)" "params_ok sg" "compressed_ok sg f ?n" "0 < ?eta" by (simp_all add: shg_ok_def)
  have g: "fl_d f = ?d" "length (fl_codes f) = ?n * ?d" using shg_storage[OF S(1)] assms(2) by (metis option.inject)+
  have v: "flat_vec f i = row ?d i (fl_codes f)" "length (row ?d i (fl_codes f)) = ?d"
    using g row_bound[OF assms(3) g(2)] by (simp_all add: flat_vec_def)
  have c: "compress_vector (flat_vec f i) ?d l ?eta = levels ?eta (row ?d i (fl_codes f)) l" "compress_vector q ?d l ?eta = levels ?eta q l"
    using compress_vector_levels[OF S(4)] v assms(6) by simp_all
  note rep = query_rep_eq[OF S(2) assms(6,7)]
  have "read_floats sg (get_compressed_data sg i l) (sg_dim_at_level sg ! l) = Inr (levels ?eta (row ?d i (fl_codes f)) l)"
    using node_segment[OF S(2,3) assms(3) g(2) assms(4,5)] assms(4,5) by (simp add: read_floats_def get_compressed_data_def min_absorb1)
  moreover have "get_dis_by_level_q sg (rep_of ?eta q (sg_maxFixLevel sg)) i l = Inr (level_dis sg f q l i)"
    using get_dis_by_level_q_eq[OF S(2,3) g(2) assms(3,4) order_trans[OF assms(4,5)] assms(6)] assms(5) by (simp add: min_absorb1)
  moreover have "(i + 1) * sg_data_rep_size sg \<le> ?n * sg_data_rep_size sg" using assms(3) by (intro mult_le_mono1) simp
  then have "(i + 1) * sg_data_rep_size sg \<le> length (sg_compressed_vecs sg)" using S(3) by (simp add: compressed_ok_def)
  ultimately show ?thesis
    using rep_segment[OF S(2) assms(6,4,5)] segment_bound[OF S(2) assms(4,5)] get_dim_at_level_eq[OF S(2)] S(4) assms(6)
    unfolding c rep by (simp add: level_dis_def)
qed

theorem shg_compression_agrees_witness:
  "\<exists>sg f. shg_ok sg \<and> flat_vec f 0 = [1, 3, 5, 7] \<and>
     read_floats sg (get_compressed_data sg 0 1) (sg_dim_at_level sg ! 1) = Inr [2, 6] \<and>
     get_dis_by_level_q sg (build_compressed_query_rep sg [2, 2, 4, 4] (replicate (sg_data_rep_size sg) 0)) 0 1 = Inr 4"
proof -
  from demo_shg obtain sg f where sg: "shg_ok sg" "ih_ntotal (sg_base sg) = 2" "ih_storage (sg_base sg) = Some f" "ih_d (sg_base sg) = 4"
    "sg_eta sg = 2" "sg_maxFixLevel sg = 1" "flat_vec f 0 = [1, 3, 5, 7]" by blast
  have "strides 2 (Suc (Suc (Suc (Suc 0)))) = [0, 2]" by (simp add: strides_def)
  then have "means 2 [a, b, c, d] = [(a + b) / 2, (c + d) / 2]" for a b c d
    by (simp add: means_def mean_of_def slice_def numeral_2_eq_2)
  then have c: "compress_vector [1, 3, 5, 7] 4 1 2 = [2, 6]" "compress_vector [2, 2, 4, 4] 4 1 2 = [2, 4]"
    by (simp_all add: compress_vector_levels levels_def)
  have "0 < ih_ntotal (sg_base sg)" "1 \<le> sg_maxFixLevel sg" "length [2, 2, 4, 4 :: float_t] = ih_d (sg_base sg)" using sg by simp_all
  from shg_compression_agrees[OF sg(1,3) this(1) order_refl this(2,3) length_replicate]
  have "read_floats sg (get_compressed_data sg 0 1) (sg_dim_at_level sg ! 1) = Inr (compress_vector (flat_vec f 0) 4 1 2)"
    "get_dis_by_level_q sg (build_compressed_query_rep sg [2, 2, 4, 4] (replicate (sg_data_rep_size sg) 0)) 0 1
      = Inr (fvec_L2sqr (compress_vector [2, 2, 4, 4] 4 1 2) (compress_vector (flat_vec f 0) 4 1 2))"
    unfolding sg(4,5) by blast+
  note r = this[unfolded sg(7) c]
  show ?thesis by (intro exI[of _ sg] exI[of _ f]) (use sg(1,7) r in simp)
qed

section \<open>The distance computer and the distance cache\<close>

text \<open>The four distances of a batch are those of the single calls.\<close>

lemma sdc_batch_4_single:
  assumes "shg_ok sg" "ih_storage (sg_base sg) = Some f" "length q = ih_d (sg_base sg)" "set is' \<subseteq> {..<ih_ntotal (sg_base sg)}"
    and "query_rep = dc_set_query sg q (replicate (sg_data_rep_size sg) 0)"
  shows "map Inr (sdc_batch_4 sg f q query_rep l is') = map (sdc_dis sg f q query_rep l) is'"
proof (cases "l = 0 \<or> sg_maxFixLevel sg = 0")
  case True
  then show ?thesis by (simp add: sdc_batch_4_def sdc_dis_def)
next
  case False
  let ?n = "ih_ntotal (sg_base sg)"
  from assms(1,2) have S: "index_hnsw_ok (sg_base sg)" "params_ok sg" "compressed_ok sg f ?n" by (simp_all add: shg_ok_def)
  have g: "length (fl_codes f) = ?n * ih_d (sg_base sg)" using shg_storage[OF S(1)] assms(2) by (metis option.inject)
  have rep: "query_rep = rep_of (sg_eta sg) q (sg_maxFixLevel sg)"
    using assms(5) query_rep_eq[OF S(2) assms(3) length_replicate] False by (simp add: dc_set_query_def)
  have "Inr (inline_dis sg query_rep (min l (sg_maxFixLevel sg)) v) = get_dis_by_level_q sg query_rep v l" if "v < ?n" for v
    using inline_dis_eq[OF S(2,3) g that _ _ assms(3), of "min l (sg_maxFixLevel sg)"]
      get_dis_by_level_q_eq[OF S(2,3) g that _ _ assms(3), of l] False unfolding rep by simp
  then show ?thesis using False assms(4) by (auto simp: sdc_batch_4_def sdc_dis_def)
qed

text \<open>The cache as a map that a new query empties; the stamps are never ahead of the counter.\<close>

definition dc_map :: "dis_cache \<Rightarrow> nat \<Rightarrow> float_t option" where
  "dc_map c idx = (if idx < length (dc_stamps c) \<and> dc_stamps c ! idx = dc_cur_stamp c then Some (dc_values c ! idx) else None)"

definition dc_inv :: "dis_cache \<Rightarrow> bool" where
  "dc_inv c \<longleftrightarrow> length (dc_values c) = length (dc_stamps c) \<and> (\<forall>s \<in> set (dc_stamps c). s \<le> dc_cur_stamp c)"

lemma dc_new_query_ok:
  assumes "dc_inv c"
  shows "dc_inv (dc_new_query c) \<and> dc_map (dc_new_query c) = Map.empty"
proof (cases "dc_cur_stamp c + 1 = 0")
  case True
  then show ?thesis using assms by (auto simp: dc_new_query_def dc_inv_def dc_map_def)
next
  case False
  then have less: "dc_cur_stamp c < dc_cur_stamp c + 1" by (simp add: word_less_nat_alt unatSuc add.commute)
  have "dc_stamps c ! i \<noteq> dc_cur_stamp c + 1" if "i < length (dc_stamps c)" for i
    using assms that less by (metis dc_inv_def leD nth_mem)
  then have "dc_map (dc_new_query c) i = None" for i using False by (auto simp: dc_new_query_def dc_map_def Let_def)
  moreover have "dc_inv (dc_new_query c)"
    using assms False less by (auto simp: dc_inv_def dc_new_query_def Let_def intro: order_trans[OF _ less_imp_le])
  ultimately show ?thesis by auto
qed

lemma dc_set_get:
  assumes "dc_inv c" "idx < length (dc_stamps c)"
  shows "dc_inv (dc_set idx v c) \<and> dc_map (dc_set idx v c) = (dc_map c)(idx \<mapsto> v) \<and>
    dc_get c idx = (case dc_map c idx of None \<Rightarrow> -1 | Some v \<Rightarrow> v)"
  using assms by (auto simp: dc_inv_def dc_set_def dc_map_def dc_get_def fun_eq_iff nth_list_update dest!: set_update_subset_insert[THEN subsetD])

section \<open>The learned shortcut\<close>

text \<open>After the samples of a training were recorded on a cleared map and \<open>finalize\<close> has sorted and
  merged them and built the PGM index, \<open>predict\<close> gives for every distance the skip of the smallest recorded
  distance that is not below it, of the last sample when this distance was recorded several times, and 1
  past the last one: the levels of the PGM index and its window of positions do not show, for any number of
  threads that built it.\<close>

theorem shortcut_predict_correct:
  assumes "\<forall>s \<in> set samples. fst s + 1 < FLT_MAX" "length samples + 16 < 2 ^ 31" "x < FLT_MAX"
    "1 \<le> parallelism" "parallelism \<le> 20"
  shows "predict (pgm_window parallelism)
      (finalize (fold (\<lambda>(dis, skip). insert_or_assign dis skip) samples (shortcut_clear m))) x
    = (if \<exists>k \<in> fst ` set samples. x \<le> k then the (map_of (rev samples) (Min {k \<in> fst ` set samples. x \<le> k})) else 1)"
proof -
  let ?m = "fold (\<lambda>(dis, skip). insert_or_assign dis skip) samples (shortcut_clear m)"
  have "sm_keys ?m = map fst samples" "sm_values ?m = map snd samples" by (simp_all add: inserted_samples shortcut_clear_def)
  then have f: "distinct_pairs samples (sm_keys (finalize ?m), sm_values (finalize ?m))" "sm_pgm (finalize ?m) = sm_keys (finalize ?m)"
    "sm_trained (finalize ?m) \<longleftrightarrow> samples \<noteq> []" using finalize_ok[of ?m] by (simp_all add: zip_map_fst_snd)
  have k: "set (sm_keys (finalize ?m)) = fst ` set samples" "sorted_wrt (<) (sm_keys (finalize ?m))"
    using f(1) by (simp_all add: distinct_pairs_def)
  then have "length (sm_keys (finalize ?m)) = card (fst ` set samples)"
    by (metis distinct_card strict_sorted_iff)
  also have "\<dots> \<le> length samples" by (meson card_image_le card_length finite_set order.trans)
  finally have "pgm_brackets (pgm_window parallelism) (sm_keys (finalize ?m)) x" if "samples \<noteq> []"
    using assms k that by (intro pgm_window_brackets) auto
  from predict_ok[OF this f] show ?thesis by (simp add: first_at_least_def)
qed

theorem shortcut_predict_correct_witness:
  "predict (pgm_window 4) (finalize (fold (\<lambda>(dis, skip). insert_or_assign dis skip) [(5, 2), (3, 1), (5, 3)] (shortcut_clear ShortcutMap))) 4 = 3"
proof -
  have "{k \<in> fst ` set [(5 :: float_t, 2 :: int), (3, 1), (5, 3)]. 4 \<le> k} = {5}" by auto
  then show ?thesis
    using shortcut_predict_correct[of "[(5, 2), (3, 1), (5, 3)]" 4 4 ShortcutMap] by (simp add: FLT_MAX_def)
qed

section \<open>Adding vectors\<close>

text \<open>C34. \<open>IndexSHG::add\<close> on a well-formed index, for any numbers of the generators: it ends without an
  exception, the storage gets the new vectors behind the old ones, the vertices get the drawn levels, the
  compressed row of every vertex is the concatenation of the compressions of its vector on all levels, and
  the graph, built with compressed distances on the upper levels, is well-formed with all vertices
  inserted.\<close>

theorem shg_add_correct:
  assumes "shg_ok sg" "n * ih_d (sg_base sg) \<le> length x"
  shows "\<exists>sg' f f'. shg_add sg n x draws rnd = Some (Inr sg') \<and> shg_ok sg' \<and>
    ih_ntotal (sg_base sg') = ih_ntotal (sg_base sg) + n \<and>
    ih_storage (sg_base sg) = Some f \<and> ih_storage (sg_base sg') = Some f' \<and>
    (\<forall>i < ih_ntotal (sg_base sg). flat_vec f' i = flat_vec f i) \<and>
    (\<forall>i < n. flat_vec f' (ih_ntotal (sg_base sg) + i) = row (ih_d (sg_base sg)) i x) \<and>
    hn_levels (ih_hnsw (sg_base sg')) = hn_levels (ih_hnsw (sg_base sg))
      @ map (\<lambda>i. nat (random_level (ih_hnsw (sg_base sg)) (draws ! i) + 1)) [0..<n] \<and>
    (\<forall>i < ih_ntotal (sg_base sg'). row (sg_data_rep_size sg') i (sg_compressed_vecs sg')
      = concat (map (\<lambda>l. compress_vector (flat_vec f' i) (ih_d (sg_base sg')) l (sg_eta sg')) [1..<sg_maxFixLevel sg' + 1])) \<and>
    graph_ok (ih_hnsw (sg_base sg')) \<and>
    (2 \<le> ih_ntotal (sg_base sg') \<longrightarrow> (\<forall>v < ih_ntotal (sg_base sg'). nbrs (ih_hnsw (sg_base sg')) v 0 \<noteq> []))"
proof -
  from shg_add_ok[OF assms, of draws rnd] obtain sg' f f' where
    a: "shg_add sg n x draws rnd = Some (Inr sg')" "shg_ok sg'" "ih_ntotal (sg_base sg') = ih_ntotal (sg_base sg) + n"
      "ih_storage (sg_base sg) = Some f" "ih_storage (sg_base sg') = Some f'"
      "\<forall>i < ih_ntotal (sg_base sg). flat_vec f' i = flat_vec f i"
      "\<forall>i < n. flat_vec f' (ih_ntotal (sg_base sg) + i) = row (ih_d (sg_base sg)) i x"
      "hn_levels (ih_hnsw (sg_base sg')) = hn_levels (ih_hnsw (sg_base sg))
        @ map (\<lambda>i. nat (random_level (ih_hnsw (sg_base sg)) (draws ! i) + 1)) [0..<n]" by blast
  let ?n = "ih_ntotal (sg_base sg')" and ?h = "ih_hnsw (sg_base sg')" and ?d = "ih_d (sg_base sg')"
  from a(2,5) have S: "index_hnsw_ok (sg_base sg')" "compressed_ok sg' f' ?n" "0 < sg_eta sg'" by (simp_all add: shg_ok_def)
  have g: "fl_d f' = ?d" "length (fl_codes f') = ?n * ?d" using shg_storage[OF S(1)] a(5) by (metis option.inject)+
  have rep: "row (sg_data_rep_size sg') i (sg_compressed_vecs sg')
      = concat (map (\<lambda>l. compress_vector (flat_vec f' i) ?d l (sg_eta sg')) [1..<sg_maxFixLevel sg' + 1])" if "i < ?n" for i
  proof -
    have len: "length (row ?d i (fl_codes f')) = ?d" using row_bound[OF that g(2)] by simp
    have "compress_vector (flat_vec f' i) ?d l (sg_eta sg') = levels (sg_eta sg') (row ?d i (fl_codes f')) l" for l
      using compress_vector_levels[OF S(3), of ?d "flat_vec f' i" l] len g(1) by (simp add: flat_vec_def)
    then show ?thesis using S(2) that by (simp add: compressed_ok_def rep_of_def del: upt_Suc)
  qed
  have b: "built ?h {..<?n}" using S(1) by (simp add: index_hnsw_ok_def)
  then have ne: "\<forall>v < ?n. nbrs ?h v 0 \<noteq> []" if "2 \<le> ?n" using that by (simp add: built_def)
  show ?thesis
    by (rule exI[of _ sg'], rule exI[of _ f], rule exI[of _ f']) (use a rep ne built_graph_ok[OF b] in \<open>simp del: upt_Suc\<close>)
qed

theorem shg_add_correct_witness:
  "\<exists>sg sg'. IndexSHG demo_proba 4 1 METRIC_L2 = Some sg \<and>
     shg_add sg 2 demo_vectors [0, 7 / 8] (\<lambda>c. 3) = Some (Inr sg') \<and> ih_ntotal (sg_base sg') = 2 \<and>
     nbrs (ih_hnsw (sg_base sg')) 0 0 \<noteq> [] \<and> nbrs (ih_hnsw (sg_base sg')) 1 0 \<noteq> []"
proof -
  from demo_new_shg obtain sg where sg: "IndexSHG demo_proba 4 1 METRIC_L2 = Some sg" "shg_ok sg" "ih_ntotal (sg_base sg) = 0"
    "ih_d (sg_base sg) = 4" by blast
  have "2 * ih_d (sg_base sg) \<le> length demo_vectors" using sg(4) by (simp add: demo_vectors_def)
  from shg_add_correct[OF sg(2) this, of "[0, 7 / 8]" "\<lambda>c. 3"] sg(3) obtain sg' where
    "shg_add sg 2 demo_vectors [0, 7 / 8] (\<lambda>c. 3) = Some (Inr sg')" "ih_ntotal (sg_base sg') = 2"
    "\<forall>v < 2. nbrs (ih_hnsw (sg_base sg')) v 0 \<noteq> []" by auto
  then show ?thesis using sg(1) by (intro exI[of _ sg] exI[of _ sg']) simp
qed

section \<open>Training\<close>

text \<open>C40. \<open>build_shortcut\<close> on a non-empty well-formed index that has compressed levels (\<open>maxFixLevel_ \<ge> 1\<close>) or
  no vertex above level 1, with \<open>lemma_2\<close> or any other comparison of densities: all its searches end and it
  returns, also when the compressed vectors have to be built; only the shortcut changes besides them, and
  every skip that it predicts is at least 1 and at most the highest level (or 1), so that the navigation
  never leaves the levels. Without compressed levels and with a vertex on level 2 the code may dereference
  the null pointer that \<open>get_compressed_data\<close> returns, so this case is excluded.\<close>

theorem build_shortcut_correct:
  assumes "shg_ok sg" "0 < ih_ntotal (sg_base sg)"
    and "1 \<le> sg_maxFixLevel sg \<or> (\<forall>i < ih_ntotal (sg_base sg). hn_levels (ih_hnsw (sg_base sg)) ! i \<le> 2)"
  shows "\<exists>sg'. build_shortcut dense sg = Some (Inr sg') \<and> shg_ok sg' \<and> sg_base sg' = sg_base sg \<and>
    (\<forall>pgm dis. 1 \<le> predict pgm (sg_shortcut sg') dis \<and>
       predict pgm (sg_shortcut sg') dis \<le> max 1 (hn_max_level (ih_hnsw (sg_base sg))))"
proof -
  from build_shortcut_ok[OF assms] obtain sg' where
    b: "build_shortcut dense sg = Some (Inr sg')" "shg_ok sg'" "sg_base sg' = sg_base sg"
      "\<forall>v \<in> set (sm_values (sg_shortcut sg')). 1 \<le> v \<and> v \<le> hn_max_level (ih_hnsw (sg_base sg))" by blast
  have "length (sm_values (sg_shortcut sg')) = length (sm_keys (sg_shortcut sg'))" using b(2) by (simp add: shg_ok_def shortcut_ok_def)
  then have val: "predict pgm (sg_shortcut sg') dis = 1 \<or> predict pgm (sg_shortcut sg') dis \<in> set (sm_values (sg_shortcut sg'))" for pgm dis
    by (auto simp: predict_def Let_def not_le split: prod.splits)
  have "1 \<le> predict pgm (sg_shortcut sg') dis \<and> predict pgm (sg_shortcut sg') dis \<le> max 1 (hn_max_level (ih_hnsw (sg_base sg)))"
    for pgm dis using val[of pgm dis] b(4) by (auto simp: le_max_iff_disj)
  with b(1-3) show ?thesis by blast
qed

theorem build_shortcut_correct_witness:
  "\<exists>sg sg'. ih_ntotal (sg_base sg) = 2 \<and> build_shortcut lemma_2 sg = Some (Inr sg') \<and> shg_ok sg'"
proof -
  from demo_shg obtain sg where "shg_ok sg" "ih_ntotal (sg_base sg) = 2" "sg_maxFixLevel sg = 1" by blast
  with build_shortcut_correct[of sg lemma_2] show ?thesis by auto
qed

section \<open>Saving and loading\<close>

text \<open>What \<open>write_index_shg_extra\<close> writes, \<open>read_index_shg_extra\<close> reads back into any index object
  with the same base index, for an index whose shortcut was finalized and whose fields fit their types: the
  parameters and tables of the compression, the compressed vectors and the samples of the shortcut, whose
  model is fitted again; the rest of the stream is left unread. The \<open>float\<close> layout is any lossless one.\<close>

theorem shg_io_roundtrip:
  assumes "shg_storable fc sg" "length (sg_dim_at_level sg) < 2 ^ 40"
    and "length (sm_values (sg_shortcut sg)) = length (sm_keys (sg_shortcut sg))" "build_model (sg_shortcut sg) = sg_shortcut sg"
    and "sg_base idx = sg_base sg" "unread r = write_index_shg_extra fc sg [] @ rest"
  shows "\<exists>r'. read_index_shg_extra fc idx r = Inr (sg, r') \<and> unread r' = rest"
proof -
  have "unread r = shg_extra_bytes fc sg @ rest" using assms(6) unfolding write_extra_bytes[OF assms(3)] by simp
  moreover have "idx\<lparr> sg_eta := sg_eta sg, sg_maxFixLevel := sg_maxFixLevel sg, sg_dim_at_level := sg_dim_at_level sg,
      sg_offset_at_level := sg_offset_at_level sg, sg_data_rep_size := sg_data_rep_size sg,
      sg_compressed_vecs := sg_compressed_vecs sg, sg_shortcut := \<lparr> sm_keys = sm_keys (sg_shortcut sg),
        sm_values = sm_values (sg_shortcut sg), sm_pgm = sm_keys (sg_shortcut sg), sm_trained = (sm_keys (sg_shortcut sg) \<noteq> []) \<rparr> \<rparr> = sg"
  proof -
    have "sm_pgm (sg_shortcut sg) = sm_keys (sg_shortcut sg)" "sm_trained (sg_shortcut sg) = (sm_keys (sg_shortcut sg) \<noteq> [])"
      using arg_cong[OF assms(4), of sm_pgm] arg_cong[OF assms(4), of sm_trained] by (simp_all add: build_model_def)
    then show ?thesis using assms(5) by simp
  qed
  ultimately show ?thesis using reads_extra[OF assms(1-3), of idx] by (simp add: reads_def)
qed

theorem shg_io_roundtrip_witness:
  "\<exists>sg idx r'. sg_compressed_vecs sg = [1/2, 3/4] \<and> sm_values (sg_shortcut sg) = [2] \<and> sg_dim_at_level sg = [4, 2] \<and>
     sg_compressed_vecs idx = [] \<and>
     read_index_shg_extra demo_codec idx (open_reader (write_index_shg_extra demo_codec sg [])) = Inr (sg, r') \<and> unread r' = []"
proof -
  from demo_new_shg obtain sg0 where "shg_ok sg0" by blast
  define sg where "sg = \<lparr> sg_base = sg_base sg0, sg_eta = 2, sg_maxFixLevel = 1, sg_compressed_vecs = [1/2, 3/4], sg_data_rep_size = 2,
    sg_dim_at_level = [4, 2], sg_offset_at_level = [0, 0],
    sg_shortcut = \<lparr> sm_keys = [1], sm_values = [2], sm_pgm = [1], sm_trained = True \<rparr> \<rparr>"
  define idx where "idx = sg\<lparr> sg_compressed_vecs := [], sg_shortcut := ShortcutMap, sg_eta := 5 \<rparr>"
  have "shg_storable demo_codec sg"
    by (auto simp: shg_storable_def sg_def fits_i32_def fits_u64_def codec_ok_def demo_codec_def)
  from shg_io_roundtrip[OF this, of idx "open_reader (write_index_shg_extra demo_codec sg [])" "[]"] show ?thesis
    by (intro exI[of _ sg] exI[of _ idx]) (simp add: sg_def idx_def build_model_def)
qed

end
