(* ===== verification/ShgSearchProps.thy ===== *)
theory ShgSearchProps
  imports ShgProps
begin

text \<open>
  The properties of the search of \<open>IndexSHG\<close>: the whole search, the search of level 0 with pruning, and an
  input on which the bound of the pruning is not a lower bound.
\<close>

section \<open>The whole search\<close>

lemma dims_pos: "0 < eta \<Longrightarrow> 0 < dm \<Longrightarrow> 0 < dims eta dm l"
  by (induction l) (simp_all add: ceil_div_eq div_greater_zero_iff)

text \<open>A non-empty index with compressed levels has compressed vectors.\<close>

lemma shg_ready:
  assumes "shg_ok sg" "0 < ih_ntotal (sg_base sg)" "1 \<le> sg_maxFixLevel sg"
  shows "sg_compressed_vecs sg \<noteq> []"
proof -
  let ?dims = "dims (sg_eta sg) (ih_d (sg_base sg))"
  from assms(1) have S: "params_ok sg" "compressed_ok sg (the (ih_storage (sg_base sg))) (ih_ntotal (sg_base sg))" "2 \<le> sg_eta sg"
    "last_level (sg_eta sg) (ih_d (sg_base sg)) (sg_maxFixLevel sg)" by (simp_all add: shg_ok_def)
  have "0 < sg_maxFixLevel sg" using assms(3) by simp
  with S(4) have "sg_eta sg \<le> ?dims 0 div sg_eta sg" unfolding last_level_def by blast
  then have "0 < ih_d (sg_base sg)" using S(3) by (cases "ih_d (sg_base sg) = 0") simp_all
  then have "0 < ?dims 1" using S(3) by (intro dims_pos) simp_all
  also have "?dims 1 \<le> sg_data_rep_size sg"
  proof -
    have "1 \<in> set [1..<sg_maxFixLevel sg + 1]" using assms(3) by (simp del: upt_Suc)
    then have "?dims 1 \<in> set (map ?dims [1..<sg_maxFixLevel sg + 1])" unfolding set_map by (rule imageI)
    then show ?thesis using S(1) member_le_sum_list[of "?dims 1" "map ?dims [1..<sg_maxFixLevel sg + 1]"] by (simp add: params_ok_def del: upt_Suc dims_simps)
  qed
  finally have "0 < ih_ntotal (sg_base sg) * sg_data_rep_size sg" using assms(2) by simp
  then show ?thesis using S(2) by (auto simp: compressed_ok_def)
qed

text \<open>C35. \<open>IndexSHG::search\<close> on a non-empty well-formed index for L2 with compressed levels
  (\<open>maxFixLevel_ \<ge> 1\<close>), for \<open>k \<ge> 1\<close> and parameters without a selector, for any PGM window and any schedule of
  the queries on threads: it returns; every row holds the \<open>k\<close> nearest of a non-empty set of the stored
  vectors with their exact L2 distances, in ascending order and padded with the label -1. Without pruning,
  with the relative-distance stop, room for all vertices in the queue and a strongly connected level 0, the
  set is that of all stored vectors. The inner product and selectors are excluded because the code treats
  them wrongly: it looks for the smallest inner products and ignores the selector.\<close>

theorem shg_search_correct:
  assumes "shg_ok sg" "ih_storage (sg_base sg) = Some f" "0 < ih_ntotal (sg_base sg)" "1 \<le> k" "1 \<le> sg_maxFixLevel sg"
    and "shg_extract_params k params = (use_shortcut, use_lb, ddc, ef)" "n * ih_d (sg_base sg) \<le> length x"
    and "\<forall>i < n. \<forall>v < ih_ntotal (sg_base sg). fvec_L2sqr (row (ih_d (sg_base sg)) i x) (flat_vec f v) < FLT_MAX"
    and "distinct (concat sched)" "set (concat sched) = {..<n}" "length outs = n" "\<forall>i < n. length (outs ! i) = k"
    and "fl_metric f = METRIC_L2" "shg_sel params = None"
  shows "\<exists>outs' stats'. shg_search pgm sg x (int k) params sched outs stats = Some (Inr (outs', stats')) \<and> length outs' = n \<and>
    (\<forall>i < n. \<exists>V S. V \<noteq> {} \<and> V \<subseteq> {..<ih_ntotal (sg_base sg)} \<and>
       topk k (pairs (\<lambda>v. fvec_L2sqr (row (ih_d (sg_base sg)) i x) (flat_vec f v)) None V) S \<and>
       outs' ! i = S @ replicate (k - length S) (FLT_MAX, -1) \<and>
       (\<not> use_lb \<and> ddc \<and> ih_ntotal (sg_base sg) \<le> ef \<and>
          (\<forall>v < ih_ntotal (sg_base sg). reach (ih_hnsw (sg_base sg)) 0 {v} = {..<ih_ntotal (sg_base sg)})
        \<longrightarrow> V = {..<ih_ntotal (sg_base sg)}))"
proof -
  have L2: "(\<lambda>v. fvec_L2sqr q (flat_vec f v)) = flat_dis f q" for q
    using assms(13) by (simp add: fun_eq_iff flat_dis_def flat_vec_def)
  have "Suc i * ih_d (sg_base sg) \<le> length x" if "i < n" for i
  proof -
    have "Suc i * ih_d (sg_base sg) \<le> n * ih_d (sg_base sg)" using that by (intro mult_le_mono1) simp
    then show ?thesis using assms(7) by simp
  qed
  then have pre: "\<forall>i \<in> set (concat sched). Suc i * ih_d (sg_base sg) \<le> length x"
    "\<forall>i \<in> set (concat sched). \<forall>v < ih_ntotal (sg_base sg). flat_dis f (row (ih_d (sg_base sg)) i x) v < FLT_MAX"
    "\<forall>i \<in> set (concat sched). i < length outs \<and> length (outs ! i) = k" using assms(8)[folded L2] assms(11,12) unfolding assms(10) L2[symmetric] by simp_all
  have "sg_compressed_vecs sg \<noteq> [] \<or> hn_max_level (ih_hnsw (sg_base sg)) = 0" using shg_ready[OF assms(1,3,5)] by simp
  from shg_search_ok[OF assms(1-5) this assms(6) pre(1,2) assms(9) pre(3), of pgm stats] obtain outs' st' where
    r: "shg_search pgm sg x (int k) params sched outs stats = Some (Inr (outs', st'))" "length outs' = length outs"
    and ok: "\<forall>i \<in> {..<n}. shg_row_ok sg k (flat_dis f (row (ih_d (sg_base sg)) i x)) (use_shortcut, use_lb, ddc, ef) (outs' ! i)"
    unfolding assms(10) by blast
  let ?n = "ih_ntotal (sg_base sg)" and ?qd = "\<lambda>i. flat_dis f (row (ih_d (sg_base sg)) i x)"
  let ?exact = "\<not> use_lb \<and> ddc \<and> ?n \<le> ef \<and> (\<forall>v < ?n. reach (ih_hnsw (sg_base sg)) 0 {v} = {..<?n})"
  have "\<exists>V S. V \<noteq> {} \<and> V \<subseteq> {..<?n} \<and> topk k (pairs (?qd i) None V) S \<and>
      outs' ! i = S @ replicate (k - length S) (FLT_MAX, -1) \<and> (?exact \<longrightarrow> V = {..<?n})" if "i < n" for i
  proof -
    have "shg_row_ok sg k (?qd i) (use_shortcut, use_lb, ddc, ef) (outs' ! i)" using ok that by simp
    then obtain V S where "V \<noteq> {}" "V \<subseteq> {..<?n}" "?exact \<longrightarrow> V = {..<?n}" "topk k (pairs (?qd i) None V) S"
      "outs' ! i = S @ replicate (k - length S) (FLT_MAX, -1)" unfolding shg_row_ok_def shg_exact_def case_prod_conv by (elim exE conjE)
    then show ?thesis by (intro exI conjI)
  qed
  moreover have "length outs' = n" using r(2) assms(11) by simp
  ultimately show ?thesis using r(1) unfolding L2 by (intro exI[of _ outs'] exI[of _ st'] conjI allI impI) assumption+
qed

theorem shg_search_correct_witness:
  "\<exists>sg f outs' stats'. shg_ok sg \<and> flat_vec f 0 = [1, 3, 5, 7] \<and> flat_vec f 1 = [2, 2, 4, 4] \<and>
     shg_search (\<lambda>keys x. (0, length keys)) sg [1, 3, 5, 8] 1
       (Some \<lparr> gp_params = Params None (Some \<lparr> sp_efSearch = 4, sp_check_relative_distance = True, sp_bounded_queue = True \<rparr>),
               gp_shg = Some (True, False) \<rparr>) [[0]] [[(0, 0)]] SHGStats = Some (Inr (outs', stats')) \<and> length outs' = 1"
proof -
  from demo_shg obtain sg f where sg: "shg_ok sg" "ih_ntotal (sg_base sg) = 2" "ih_storage (sg_base sg) = Some f" "ih_d (sg_base sg) = 4"
    "sg_maxFixLevel sg = 1" "flat_vec f 0 = [1, 3, 5, 7]" "flat_vec f 1 = [2, 2, 4, 4]" "fl_metric f = METRIC_L2" by blast
  let ?p = "Some \<lparr> gp_params = Params None (Some \<lparr> sp_efSearch = 4, sp_check_relative_distance = True, sp_bounded_queue = True \<rparr>),
               gp_shg = Some (True, False) \<rparr>"
  have near: "\<forall>i < 1. \<forall>v < ih_ntotal (sg_base sg). fvec_L2sqr (row (ih_d (sg_base sg)) i [1, 3, 5, 8]) (flat_vec f v) < FLT_MAX"
    using sg by (simp add: less_Suc_eq numeral_2_eq_2 slice_def FLT_MAX_def)
  have par: "shg_extract_params 1 ?p = (True, False, True, 4)" by (simp add: shg_extract_params_def)
  have sel: "shg_sel ?p = None" by (simp add: shg_sel_def)
  have pos: "0 < ih_ntotal (sg_base sg)" "1 \<le> sg_maxFixLevel sg" "1 * ih_d (sg_base sg) \<le> length [1, 3, 5, 8 :: float_t]"
    using sg(2,4,5) by simp_all
  from shg_search_correct[OF sg(1,3) pos(1) order_refl pos(2) par pos(3) near, of "[[0]]" "[[(0, 0)]]"] sg(1,6,7,8) sel show ?thesis
    by (simp add: lessThan_Suc) blast
qed

section \<open>Pruning\<close>

text \<open>C36. The search of level 0 with pruning on a well-formed index for L2 whose dimension is a multiple of
  \<open>eta ^ maxFixLevel_\<close>: no pruned vertex is missed, that is, the results are the \<open>k\<close> best of all visited
  vertices, the pruned ones included, although every visited vertex other than the entry was either pruned
  without its exact distance or evaluated once.\<close>

theorem shg_pruning_keeps_results:
  assumes "shg_ok sg" "ih_storage (sg_base sg) = Some f" "ih_metric (sg_base sg) = METRIC_L2" "1 \<le> sg_maxFixLevel sg"
    and "sg_eta sg ^ sg_maxFixLevel sg dvd ih_d (sg_base sg)" "length q = ih_d (sg_base sg)" "length query_rep = sg_data_rep_size sg"
    and "ep < ih_ntotal (sg_base sg)" "0 < ef" "vt_clear (ih_ntotal (sg_base sg)) vt" "1 \<le> k" "length out = k"
    and "\<forall>v < ih_ntotal (sg_base sg). flat_dis f q v < FLT_MAX"
  shows "\<exists>res' vt' stats' S. search_from_candidates_shg sg (flat_dis f q) (res_begin FLT_MAX k out)
        (mm_push (int ep) (flat_dis f q ep) (MinimaxHeap ef)) vt (build_compressed_query_rep sg q query_rep) True ddc ef stats
      = Some (Inr (res', vt', stats')) \<and>
    res_end FLT_MAX res' = S @ replicate (k - length S) (FLT_MAX, -1) \<and>
    topk k (pairs (flat_dis f q) None (visited (ih_ntotal (sg_base sg)) vt')) S \<and> ep \<in> visited (ih_ntotal (sg_base sg)) vt' \<and>
    n_dis_full stats' + n_lb_pruned stats' + 1 = n_dis_full stats + n_lb_pruned stats + card (visited (ih_ntotal (sg_base sg)) vt')"
proof -
  let ?n = "ih_ntotal (sg_base sg)" and ?rep = "build_compressed_query_rep sg q query_rep"
  from assms(1) have S: "index_hnsw_ok (sg_base sg)" "params_ok sg" by (simp_all add: shg_ok_def)
  then have b: "built (ih_hnsw (sg_base sg)) {..<?n}" "length (hn_levels (ih_hnsw (sg_base sg))) = ?n" by (simp_all add: index_hnsw_ok_def)
  have R: "\<forall>v < ?n. set (nbrs (ih_hnsw (sg_base sg)) v 0) \<subseteq> {..<?n}" using graph_level0[OF built_graph_ok[OF b(1)]] b(2) by simp
  have sound: "bound_sound sg (flat_dis f q) ?rep ?n True"
    unfolding query_rep_eq[OF S(2) assms(6,7)] by (rule lower_bound_sound[OF assms(1-3,6,4,5)])
  from search_from_candidates_shg_ok[OF assms(8-10) res_ok_begin[OF assms(11,12)] R sound] obtain res' vt' st' where
    r: "search_from_candidates_shg sg (flat_dis f q) (res_begin FLT_MAX k out) (mm_push (int ep) (flat_dis f q ep) (MinimaxHeap ef)) vt
      ?rep True ddc ef stats = Some (Inr (res', vt', st'))"
    and off: "offered (flat_dis f q) k FLT_MAX True {ep} (n_dis_full stats) (n_lb_pruned stats) (visited ?n vt') [] res' st'" by blast
  from off have O: "res_ok k FLT_MAX (pairs (flat_dis f q) None (visited ?n vt')) res'" "ep \<in> visited ?n vt'"
    "n_dis_full st' + n_lb_pruned st' + 1 = n_dis_full stats + n_lb_pruned stats + card (visited ?n vt')" by (auto simp: offered_def)
  have "visited ?n vt' \<subseteq> {..<?n}" by (auto simp: visited_def)
  from res_ok_end[OF O(1) pairs_below[OF assms(13) this]] r O show ?thesis by blast
qed

theorem shg_pruning_keeps_results_witness:
  "\<exists>sg f res' vt' stats' S. flat_vec f 0 = [1, 3, 5, 7] \<and> flat_vec f 1 = [2, 2, 4, 4] \<and>
     search_from_candidates_shg sg (flat_dis f [1, 3, 5, 8]) (res_begin FLT_MAX 1 [(0, 0)])
       (mm_push 0 (flat_dis f [1, 3, 5, 8] 0) (MinimaxHeap 4)) (VisitedTable 2 None)
       (build_compressed_query_rep sg [1, 3, 5, 8] (replicate (sg_data_rep_size sg) 0)) True True 4 SHGStats
     = Some (Inr (res', vt', stats')) \<and>
     res_end FLT_MAX res' = S @ replicate (1 - length S) (FLT_MAX, -1)"
proof -
  from demo_shg obtain sg f where sg: "shg_ok sg" "ih_ntotal (sg_base sg) = 2" "ih_storage (sg_base sg) = Some f" "ih_d (sg_base sg) = 4"
    "ih_metric (sg_base sg) = METRIC_L2" "sg_eta sg = 2" "sg_maxFixLevel sg = 1"
    "flat_vec f 0 = [1, 3, 5, 7]" "flat_vec f 1 = [2, 2, 4, 4]" "fl_metric f = METRIC_L2" by blast
  have near: "\<forall>v < ih_ntotal (sg_base sg). flat_dis f [1, 3, 5, 8] v < FLT_MAX"
    using sg by (simp add: less_Suc_eq numeral_2_eq_2 flat_dis_def FLT_MAX_def)
  have pre: "1 \<le> sg_maxFixLevel sg" "sg_eta sg ^ sg_maxFixLevel sg dvd ih_d (sg_base sg)" "length [1, 3, 5, 8 :: float_t] = ih_d (sg_base sg)"
    "0 < ih_ntotal (sg_base sg)" "0 < (4 :: nat)" "vt_clear (ih_ntotal (sg_base sg)) (VisitedTable 2 None)" "length [(0 :: float_t, 0 :: int)] = 1"
    using sg vt_clear_new[of 2 None] by simp_all
  from shg_pruning_keeps_results[OF sg(1,3,5) pre(1-3) length_replicate pre(4-6) order_refl pre(7) near, where ddc = True and stats = SHGStats] sg(2,8,9)
  show ?thesis by simp blast
qed

section \<open>Where the bound is not one\<close>

text \<open>With dimension 5 and one level of compression the last coordinate is alone in its group; the bound
  counts its square twice, so it is above the distance and a pruned vertex may be the nearest.\<close>

lemma lower_bound_exceeds_distance:
  "last_level 2 5 1 \<and>
   2 ^ 1 * fvec_L2sqr (compress_vector [0, 0, 0, 0, 0] 5 1 2) (compress_vector [0, 0, 0, 0, 1] 5 1 2)
     > fvec_L2sqr [0, 0, 0, 0, 0] [0, 0, 0, 0, 1 :: float_t]"
proof -
  have "strides 2 (Suc (Suc (Suc (Suc (Suc 0))))) = [0, 2, 4]" by (simp add: strides_def)
  then have "means 2 [a, b, c, d, e] = [(a + b) / 2, (c + d) / 2, e]" for a b c d e
    by (simp add: means_def mean_of_def slice_def numeral_2_eq_2)
  then have "compress_vector [0, 0, 0, 0, 0] 5 1 2 = [0, 0, 0]" "compress_vector [0, 0, 0, 0, 1] 5 1 2 = [0, 0, 1]"
    by (simp_all add: compress_vector_levels levels_def)
  moreover have "last_level 2 5 1" by (simp add: last_level_def ceil_div_eq)
  ultimately show ?thesis by simp
qed

end
