(* ===== verification/PgmProps.thy ===== *)
theory PgmProps
  imports PgmIndexOk
begin

text \<open>
  What the learned index promises: the cut into segments is greedy with the best possible decision at every
  point, and the window of \<open>search\<close> holds the sought position.
\<close>

text \<open>C39. \<open>make_segmentation\<close> on points with ascending keys and positions: it ends without an exception; the
  points, one for each key, are cut into consecutive blocks, one for each segment; every segment starts at
  the first key of its block and its line, rising, passes every point of the block within the error; and no
  line at all fits a block together with the next point, so every segment is as long as possible.\<close>

theorem make_segmentation_optimal:
  assumes "sorted (map (\<lambda>i. fst (inp i)) [0..<n])" "sorted_wrt (<) (map (\<lambda>i. snd (inp i)) [0..<n])"
    "\<forall>i < n. int (snd (inp i)) + int eps < 2 ^ 64 - 1" "0 < eps"
  shows "\<exists>css Bs. make_segmentation n eps inp = Inr (css, length css) \<and> length css = length Bs \<and>
    concat Bs = map to_point (distinct_keys (map inp [0..<n])) \<and> [] \<notin> set Bs \<and>
    (\<forall>i < length css. seg_fits eps (css ! i) (Bs ! i)) \<and>
    (\<forall>i. Suc i < length Bs \<longrightarrow> \<not> (\<exists>l. fits (int eps) l (Bs ! i @ [hd (Bs ! Suc i)])))"
proof -
  have "int (snd (inp i)) + int eps < size_max" if "i < n" for i
    using assms(3) that by (simp add: size_max_def)
  then have "points_ok eps (map inp [0..<n])" using assms(1,2) by (auto simp: points_ok_def comp_def)
  from make_segmentation_ok[OF this assms(4)] obtain css Bs where
    m: "make_segmentation n eps inp = Inr (css, length css)" "segmentation_of eps (map inp [0..<n]) css Bs" "greedy_blocks eps Bs" by blast
  then show ?thesis
    by (intro exI[of _ css] exI[of _ Bs]) (simp add: segmentation_of_def greedy_blocks_def list_all2_conv_all_nth)
qed

theorem make_segmentation_optimal_witness:
  "\<exists>css Bs. make_segmentation 3 1 (\<lambda>i. ([0, 1, 9] ! i, i)) = Inr (css, length css) \<and> length css = length Bs \<and>
    concat Bs = map to_point (distinct_keys (map (\<lambda>i. ([0, 1, 9] ! i, i)) [0..<3])) \<and> [] \<notin> set Bs \<and>
    (\<forall>i < length css. seg_fits 1 (css ! i) (Bs ! i)) \<and>
    (\<forall>i. Suc i < length Bs \<longrightarrow> \<not> (\<exists>l. fits (int 1) l (Bs ! i @ [hd (Bs ! Suc i)])))"
  by (rule make_segmentation_optimal) (auto simp: numeral_3_eq_3 less_Suc_eq)

text \<open>C38. \<open>PGMIndex\<close> on strictly ascending keys, with any number of threads: the levels are built without an
  exception and the loop over them ends; and for every sought key \<open>search\<close> returns, without leaving the array of
  segments, a window within the keys that holds the position of the first key that is not smaller (the end of
  the window included) and is no wider than twice the error plus two.\<close>

theorem pgm_search_brackets:
  assumes "data \<noteq> []" "sorted_wrt (<) data" "last data + 1 < FLT_MAX" "0 < eps" "0 < eps_rec"
    "length data + eps < 2 ^ 31" "length data + eps_rec < 2 ^ 31" "1 \<le> parallelism" "parallelism \<le> 20"
  shows "\<exists>ix. PGMIndex parallelism eps eps_rec data = Some (Inr ix) \<and>
    (\<forall>key < FLT_MAX. \<exists>pos lo hi. pgm_search_pos eps eps_rec ix key = Inr (pos, lo, hi) \<and>
       lo \<le> length (takeWhile (\<lambda>k. k < key) data) \<and> length (takeWhile (\<lambda>k. k < key) data) \<le> hi \<and>
       hi \<le> length data \<and> hi \<le> lo + 2 * eps + 2)"
  using pgm_search_ok[of eps eps_rec data parallelism] assms by (simp add: pgm_data_def count_less_def)

theorem pgm_search_brackets_witness:
  "\<exists>ix. PGMIndex 8 16 4 [1, 3, 4] = Some (Inr ix) \<and>
    (\<forall>key < FLT_MAX. \<exists>pos lo hi. pgm_search_pos 16 4 ix key = Inr (pos, lo, hi) \<and>
       lo \<le> length (takeWhile (\<lambda>k. k < key) [1, 3, 4]) \<and> length (takeWhile (\<lambda>k. k < key) [1, 3, 4]) \<le> hi \<and>
       hi \<le> length [1 :: float_t, 3, 4] \<and> hi \<le> lo + 2 * 16 + 2)"
  by (rule pgm_search_brackets) (simp_all add: FLT_MAX_def)

end
