(* ===== verification/HnswIO.thy ===== *)
theory HnswIO
  imports HnswInsert IoMacros
begin

text \<open>
  \<open>write_HNSW\<close>, \<open>read_HNSW\<close> and \<open>validate_HNSW\<close> of \<open>faiss/impl/index_write.cpp\<close> and
  \<open>faiss/impl/index_read.cpp\<close>: the link structure in a file. What is read stays in the types of the
  code, where numbers may be negative, until it has been validated. The layout of \<open>double\<close> is a
  parameter like that of \<open>float\<close>.
\<close>

section \<open>Writing\<close>

definition write_vector :: "('a \<Rightarrow> byte list) \<Rightarrow> 'a list \<Rightarrow> byte list \<Rightarrow> byte list" where
  "write_vector enc xs w = vwrite (concat (map enc xs)) (vwrite (enc_u64 (length xs)) w)"

definition write_HNSW :: "float_codec \<Rightarrow> hnsw \<Rightarrow> byte list \<Rightarrow> byte list" where
  "write_HNSW dc h w =
     (let w = write_vector (fst dc) (hn_assign_probas h) w;
          w = write_vector enc_i32 (hn_cum h) w;
          w = write_vector enc_i32 (hn_levels h) w;
          w = write_vector enc_u64 (hn_offsets h) w;
          w = write_vector (le_enc 4) (hn_neighbors h) w;
          w = vwrite (le_enc 4 (hn_entry_point h)) w;
          w = vwrite (le_enc 4 (hn_max_level h)) w;
          w = vwrite (enc_i32 (hn_efConstruction h)) w;
          w = vwrite (enc_i32 (hn_efSearch h)) w;
          tmp_upper_beam = 1
      in vwrite (enc_i32 tmp_upper_beam) w)"

section \<open>Validation\<close>

text \<open>The conversion of a size to \<open>int\<close>.\<close>

definition int32_of :: "nat \<Rightarrow> int" where
  "int32_of n = (int n + 2 ^ 31) mod 2 ^ 32 - 2 ^ 31"

text \<open>The loop over the offsets, with its two checks at every position.\<close>

fun validate_offsets :: "int list \<Rightarrow> int list \<Rightarrow> nat list \<Rightarrow> nat \<Rightarrow> nat list \<Rightarrow> unit result" where
  "validate_offsets cum levels offsets nb [] = Inr ()"
| "validate_offsets cum levels offsets nb (i # is) =
     throw_unless (offsets ! i \<le> nb) ''HNSW offsets[%zd] = %zd > neighbors.size() = %zd''
    (throw_unless (i > 0 \<longrightarrow> int (offsets ! i) = int (offsets ! (i - 1)) + cum ! nat (levels ! (i - 1)))
       ''HNSW offsets not increasing by cum_neighbor_per_level at %zd: %zd + %d != %zd''
       (validate_offsets cum levels offsets nb is))"

fun validate_ranges :: "int list \<Rightarrow> int list \<Rightarrow> nat list \<Rightarrow> nat \<Rightarrow> nat list \<Rightarrow> unit result" where
  "validate_ranges cum levels offsets nb [] = Inr ()"
| "validate_ranges cum levels offsets nb (i # is) =
     throw_unless (1 \<le> levels ! i \<and> levels ! i < int32_of (length cum) + 1) ''%s (= %PRId64) out of range [%PRId64, %PRId64)''
    (throw_unless (int (offsets ! i) + cum ! nat (levels ! i) \<le> int nb)
       ''HNSW neighbor range overflow for node %zd: offsets[%zd] (%zd) + cum_nneighbor_per_level[%d] (%d) = %zd > neighbors.size() (%zd)''
       (validate_ranges cum levels offsets nb is))"

definition validate_HNSW :: "int list \<Rightarrow> int list \<Rightarrow> nat list \<Rightarrow> int list \<Rightarrow> int \<Rightarrow> int \<Rightarrow> unit result" where
  "validate_HNSW cum levels offsets neighbors entry_point max_level =
     (let ntotal = length levels; nb_neighbors_size = length neighbors
      in throw_unless (cum \<noteq> [] \<longrightarrow> cum ! 0 = 0) ''HNSW cum_nneighbor_per_level[0] = %d, expected 0''
        (throw_unless (list_all (\<lambda>i. cum ! i \<ge> cum ! (i - 1)) [1..<length cum])
           ''HNSW cum_nneighbor_per_level not monotonic at %zd: %d < %d''
        (throw_unless (list_all (\<lambda>i. levels ! i \<ge> 0 \<and> nat (levels ! i) < length cum) [0..<ntotal])
           ''HNSW levels[%zd] = %d out of range [0, %zd)''
        (throw_unless (length offsets = ntotal + 1) ''HNSW offsets size %zd != levels size %zd + 1''
        (bind_result (validate_offsets cum levels offsets nb_neighbors_size [0..<length offsets]) (\<lambda>_.
         throw_unless (max_level < int32_of (length cum)) ''HNSW max_level %d >= cum_nneighbor_per_level size %zd''
        (throw_unless (entry_point \<ge> -1 \<and> entry_point < int32_of ntotal) ''HNSW entry_point %d out of range [-1, %zd)''
        (throw_unless (list_all (\<lambda>j. j \<ge> -1 \<and> j < int32_of ntotal) neighbors)
           ''HNSW neighbors[%zd] = %d out of range [-1, %zd)''
        (validate_ranges cum levels offsets nb_neighbors_size [0..<ntotal])))))))))"

section \<open>Reading\<close>

definition check_result :: "unit result \<Rightarrow> 'a parser \<Rightarrow> 'a parser" where
  "check_result c p = (\<lambda>r. bind_result c (\<lambda>_. p r))"

text \<open>\<open>h\<close> is the structure of the object that is filled; the fields that are not stored stay.\<close>

definition read_HNSW :: "float_codec \<Rightarrow> hnsw \<Rightarrow> hnsw parser" where
  "read_HNSW dc h =
    bind_parser (read_vector 8 (snd dc)) (\<lambda>assign_probas.
    bind_parser (read_vector 4 sle_dec) (\<lambda>cum.
    bind_parser (read_vector 4 sle_dec) (\<lambda>levels.
    bind_parser (read_vector 8 (\<lambda>b. nat (le_dec b))) (\<lambda>offsets.
    bind_parser (read_vector 4 sle_dec) (\<lambda>neighbors.
    bind_parser read_i32 (\<lambda>entry_point.
    bind_parser read_i32 (\<lambda>max_level.
    bind_parser read_i32 (\<lambda>efConstruction.
    bind_parser read_i32 (\<lambda>efSearch.
    bind_parser read_i32 (\<lambda>_.
    check_result (validate_HNSW cum levels offsets neighbors entry_point max_level)
      (nat_fields [efConstruction, efSearch]
        (return_parser (h\<lparr> hn_assign_probas := assign_probas, hn_cum := map nat cum, hn_levels := map nat levels,
          hn_offsets := offsets, hn_neighbors := neighbors, hn_entry_point := entry_point, hn_max_level := max_level,
          hn_efConstruction := nat efConstruction, hn_efSearch := nat efSearch \<rparr>)))))))))))))"

section \<open>What validation accepts\<close>

lemma int32_of_le: "int32_of n \<le> int n"
proof -
  have "(int n + 2 ^ 31) mod 2 ^ 32 \<le> int n + 2 ^ 31" by (intro zmod_le_nonneg_dividend) simp
  then show ?thesis by (simp add: int32_of_def)
qed

lemma int32_of_small: "int n < 2 ^ 31 \<Longrightarrow> int32_of n = int n"
  unfolding int32_of_def by (subst mod_pos_pos_trivial) simp_all

lemma validate_offsets_Inr:
  "validate_offsets cum levels offsets nb is = Inr () \<longleftrightarrow>
    (\<forall>i \<in> set is. offsets ! i \<le> nb \<and> (i > 0 \<longrightarrow> int (offsets ! i) = int (offsets ! (i - 1)) + cum ! nat (levels ! (i - 1))))"
  by (induction "is") (auto simp: throw_unless_Inr)

lemma validate_ranges_Inr:
  "validate_ranges cum levels offsets nb is = Inr () \<longleftrightarrow>
    (\<forall>i \<in> set is. 1 \<le> levels ! i \<and> levels ! i < int32_of (length cum) + 1 \<and> int (offsets ! i) + cum ! nat (levels ! i) \<le> int nb)"
  by (induction "is") (auto simp: throw_unless_Inr)

definition tables_valid :: "int list \<Rightarrow> int list \<Rightarrow> nat list \<Rightarrow> int list \<Rightarrow> int \<Rightarrow> int \<Rightarrow> bool" where
  "tables_valid cum levels offsets neighbors entry_point max_level \<longleftrightarrow>
     (cum \<noteq> [] \<longrightarrow> cum ! 0 = 0) \<and> (\<forall>i. 1 \<le> i \<and> i < length cum \<longrightarrow> cum ! (i - 1) \<le> cum ! i) \<and>
     (\<forall>i < length levels. 1 \<le> levels ! i \<and> nat (levels ! i) < length cum \<and> levels ! i < int32_of (length cum) + 1 \<and>
        int (offsets ! i) + cum ! nat (levels ! i) \<le> int (length neighbors) \<and>
        int (offsets ! Suc i) = int (offsets ! i) + cum ! nat (levels ! i)) \<and>
     length offsets = length levels + 1 \<and> (\<forall>i \<le> length levels. offsets ! i \<le> length neighbors) \<and>
     max_level < int32_of (length cum) \<and> -1 \<le> entry_point \<and> entry_point < int32_of (length levels) \<and>
     (\<forall>j \<in> set neighbors. -1 \<le> j \<and> j < int32_of (length levels))"

lemma list_all_upt: "list_all P [a..<b] \<longleftrightarrow> (\<forall>i. a \<le> i \<and> i < b \<longrightarrow> P i)"
  by (auto simp: list_all_iff)

lemma validate_HNSW_Inr:
  "validate_HNSW cum levels offsets neighbors entry_point max_level = Inr () \<longleftrightarrow>
    tables_valid cum levels offsets neighbors entry_point max_level"
proof -
  let ?n = "length levels" and ?nb = "length neighbors"
  have 1: "validate_offsets cum levels offsets ?nb [0..<?n + 1] = Inr () \<longleftrightarrow>
      (\<forall>i \<le> ?n. offsets ! i \<le> ?nb) \<and> (\<forall>i < ?n. int (offsets ! Suc i) = int (offsets ! i) + cum ! nat (levels ! i))"
    (is "?L \<longleftrightarrow> ?A \<and> ?B")
  proof
    assume ?L
    then have l: "offsets ! i \<le> ?nb \<and> (i > 0 \<longrightarrow> int (offsets ! i) = int (offsets ! (i - 1)) + cum ! nat (levels ! (i - 1)))"
      if "i < ?n + 1" for i using that unfolding validate_offsets_Inr set_upt by (meson atLeastLessThan_iff le0)
    have ?A using l by (meson le_imp_less_Suc less_add_one Suc_eq_plus1 order_le_less_trans)
    moreover have ?B
    proof (intro allI impI)
      fix i assume "i < ?n"
      with l[of "Suc i"] show "int (offsets ! Suc i) = int (offsets ! i) + cum ! nat (levels ! i)" by simp
    qed
    ultimately show "?A \<and> ?B" ..
  next
    assume R: "?A \<and> ?B"
    show ?L unfolding validate_offsets_Inr
    proof (intro ballI conjI impI)
      fix i assume i: "i \<in> set [0..<?n + 1]"
      then have n: "i \<le> ?n" unfolding set_upt by simp
      with R show "offsets ! i \<le> ?nb" by blast
      assume "i > 0"
      with n R show "int (offsets ! i) = int (offsets ! (i - 1)) + cum ! nat (levels ! (i - 1))"
        by (cases i) (simp_all add: Suc_le_eq)
    qed
  qed
  have 2: "validate_ranges cum levels offsets ?nb [0..<?n] = Inr () \<longleftrightarrow>
      (\<forall>i < ?n. 1 \<le> levels ! i \<and> levels ! i < int32_of (length cum) + 1 \<and> int (offsets ! i) + cum ! nat (levels ! i) \<le> int ?nb)"
    unfolding validate_ranges_Inr by (simp add: Ball_def)
  have 3: "list_all (\<lambda>i. cum ! (i - 1) \<le> cum ! i) [1..<length cum] \<longleftrightarrow> (\<forall>i. 1 \<le> i \<and> i < length cum \<longrightarrow> cum ! (i - 1) \<le> cum ! i)"
    by (rule list_all_upt)
  have 4: "list_all (\<lambda>i. levels ! i \<ge> 0 \<and> nat (levels ! i) < length cum) [0..<?n] \<longleftrightarrow> (\<forall>i < ?n. levels ! i \<ge> 0 \<and> nat (levels ! i) < length cum)"
    unfolding list_all_upt by simp
  have 5: "list_all (\<lambda>j. -1 \<le> j \<and> j < int32_of ?n) neighbors \<longleftrightarrow> (\<forall>j \<in> set neighbors. -1 \<le> j \<and> j < int32_of ?n)"
    by (simp add: list_all_iff)
  show ?thesis
    unfolding validate_HNSW_def Let_def throw_unless_Inr 3 4 5
  proof (cases "length offsets = ?n + 1")
    case True
    have "bind_result (validate_offsets cum levels offsets ?nb [0..<?n + 1]) (\<lambda>_. k) = Inr () \<longleftrightarrow>
        validate_offsets cum levels offsets ?nb [0..<?n + 1] = Inr () \<and> k = Inr ()" for k :: "unit result"
      by (auto simp: bind_result_eq_Inr)
    note B = this
    show "(cum \<noteq> [] \<longrightarrow> cum ! 0 = 0) \<and> (\<forall>i. 1 \<le> i \<and> i < length cum \<longrightarrow> cum ! (i - 1) \<le> cum ! i) \<and>
        (\<forall>i < ?n. levels ! i \<ge> 0 \<and> nat (levels ! i) < length cum) \<and> length offsets = ?n + 1 \<and>
        bind_result (validate_offsets cum levels offsets ?nb [0..<length offsets]) (\<lambda>_.
         throw_unless (max_level < int32_of (length cum)) ''HNSW max_level %d >= cum_nneighbor_per_level size %zd''
        (throw_unless (entry_point \<ge> -1 \<and> entry_point < int32_of ?n) ''HNSW entry_point %d out of range [-1, %zd)''
        (throw_unless (\<forall>j \<in> set neighbors. -1 \<le> j \<and> j < int32_of ?n)
           ''HNSW neighbors[%zd] = %d out of range [-1, %zd)''
        (validate_ranges cum levels offsets ?nb [0..<?n])))) = Inr () \<longleftrightarrow>
      tables_valid cum levels offsets neighbors entry_point max_level"
      unfolding True B 1 2 throw_unless_Inr tables_valid_def by (auto dest: order_trans[OF zero_le_one])
  qed (simp_all add: tables_valid_def)
qed

text \<open>A sequence of numbers from below to above a value steps over it.\<close>

lemma step_between:
  fixes f :: "nat \<Rightarrow> nat"
  shows "f 0 \<le> j \<Longrightarrow> j < f n \<Longrightarrow> \<exists>i < n. f i \<le> j \<and> j < f (Suc i)"
proof (induction n)
  case (Suc n)
  then show ?case by (cases "j < f n") (auto intro: less_SucI)
qed simp

lemma entry_in_slot:
  assumes "layout_ok h" "j < length (hn_neighbors h)"
  shows "\<exists>i l. on_level h l i \<and> hn_neighbors h ! j \<in> set (slot h i l)"
proof -
  from assms(1) have l: "hn_offsets h ! 0 = 0" "length (hn_neighbors h) = hn_offsets h ! length (hn_levels h)"
    "cum_ok (hn_cum h)" by (simp_all add: layout_ok_def)
  from step_between[of "(!) (hn_offsets h)" j "length (hn_levels h)"] l assms(2) obtain i where
    i: "i < length (hn_levels h)" "hn_offsets h ! i \<le> j" "j < hn_offsets h ! Suc i" by auto
  with assms(1) have e: "hn_offsets h ! Suc i = hn_offsets h ! i + hn_cum h ! (hn_levels h ! i)" by (simp add: layout_ok_def)
  have "hn_cum h ! 0 = 0" using l(3) by (cases "hn_cum h") (simp_all add: cum_ok_def)
  moreover have "j - hn_offsets h ! i < hn_cum h ! (hn_levels h ! i)" using i e by simp
  ultimately obtain k where
    k: "k < hn_levels h ! i" "hn_cum h ! k \<le> j - hn_offsets h ! i" "j - hn_offsets h ! i < hn_cum h ! Suc k"
    using step_between[of "(!) (hn_cum h)" "j - hn_offsets h ! i" "hn_levels h ! i"] by auto
  define b where "b = hn_offsets h ! i + hn_cum h ! k"
  define e where "e = hn_offsets h ! i + hn_cum h ! Suc k"
  have be: "b \<le> j" "j < e" using k i(2) by (simp_all add: b_def e_def)
  have "slot h i k = slice b (e - b) (hn_neighbors h)"
    by (simp add: slot_def neighbor_range_def cum_nb_neighbors_def b_def e_def Let_def)
  moreover have "hn_neighbors h ! j \<in> set (slice b (e - b) (hn_neighbors h))"
    unfolding slice_def in_set_conv_nth using be assms(2) by (intro exI[of _ "j - b"]) auto
  ultimately have "on_level h k i \<and> hn_neighbors h ! j \<in> set (slot h i k)" using k(1) i(1) by (simp add: on_level_def)
  then show ?thesis by blast
qed

lemma graph_entries:
  assumes "graph_ok h" "v \<in> set (hn_neighbors h)"
  shows "-1 \<le> v" "v < int (length (hn_levels h))"
proof -
  from assms(2) obtain j where "j < length (hn_neighbors h)" "v = hn_neighbors h ! j" by (auto simp: in_set_conv_nth)
  with entry_in_slot[of h j] assms(1) obtain i l where il: "on_level h l i" "v \<in> set (slot h i l)" by (auto simp: graph_ok_def)
  then have p: "packed (slot h i l)" "\<forall>v \<in> set (nbrs h i l). on_level h l v" using assms(1) by (simp_all add: graph_ok_def links_ok_def)
  from nbrs_slot[OF p(1)] il(2) have "v \<in> set (map int (nbrs h i l) @ replicate (length (slot h i l) - length (nbrs h i l)) (-1))" by simp
  with p(2) show "-1 \<le> v" "v < int (length (hn_levels h))" by (auto simp: on_level_def)
qed

section \<open>Round trip\<close>

definition codec8_ok :: "float_codec \<Rightarrow> float_t set \<Rightarrow> bool" where
  "codec8_ok dc S \<longleftrightarrow> (\<forall>x \<in> S. length (fst dc x) = 8 \<and> snd dc (fst dc x) = x)"

text \<open>The arrays and numbers fit the types in which they are stored.\<close>

definition hnsw_storable :: "float_codec \<Rightarrow> hnsw \<Rightarrow> bool" where
  "hnsw_storable dc h \<longleftrightarrow>
     codec8_ok dc (set (hn_assign_probas h)) \<and> length (hn_assign_probas h) < 2 ^ 31 \<and> length (hn_cum h) < 2 ^ 31 \<and>
     (\<forall>x \<in> set (hn_cum h). int x < 2 ^ 31) \<and> length (hn_levels h) < 2 ^ 31 \<and> length (hn_neighbors h) < 2 ^ 40 \<and>
     -1 \<le> hn_max_level h \<and> hn_max_level h < int (length (hn_cum h)) \<and>
     int (hn_efConstruction h) < 2 ^ 31 \<and> int (hn_efSearch h) < 2 ^ 31"

definition hnsw_bytes :: "float_codec \<Rightarrow> hnsw \<Rightarrow> byte list" where
  "hnsw_bytes dc h =
     (enc_u64 (length (hn_assign_probas h)) @ concat (map (fst dc) (hn_assign_probas h))) @
     (enc_u64 (length (hn_cum h)) @ concat (map enc_i32 (hn_cum h))) @
     (enc_u64 (length (hn_levels h)) @ concat (map enc_i32 (hn_levels h))) @
     (enc_u64 (length (hn_offsets h)) @ concat (map enc_u64 (hn_offsets h))) @
     (enc_u64 (length (hn_neighbors h)) @ concat (map (le_enc 4) (hn_neighbors h))) @
     le_enc 4 (hn_entry_point h) @ le_enc 4 (hn_max_level h) @ enc_i32 (hn_efConstruction h) @ enc_i32 (hn_efSearch h) @ enc_i32 1"

lemma write_HNSW_bytes: "write_HNSW dc h w = w @ hnsw_bytes dc h"
  by (simp add: write_HNSW_def write_vector_def vwrite_def hnsw_bytes_def)

text \<open>A \<open>vector\<close> of natural numbers that are read back as integers.\<close>

lemma reads_int_vector:
  assumes "\<forall>x \<in> set xs. int x < 2 ^ 31" "length xs < 2 ^ 40"
  shows "reads (read_vector 4 sle_dec) (enc_u64 (length xs) @ concat (map enc_i32 xs)) (map int xs)"
proof -
  have "reads (read_vector 4 sle_dec) (enc_u64 (length (map int xs)) @ concat (map (le_enc 4) (map int xs))) (map int xs)"
    using assms by (intro reads_vector) (auto simp: sle_dec_i32 fits_i32_def)
  moreover have "map (le_enc 4) (map int xs) = map enc_i32 xs" "length (map int xs) = length xs" by (simp_all add: enc_i32_def)
  ultimately show ?thesis by (simp only:)
qed

lemma reads_check_result: "c = Inr () \<Longrightarrow> reads p bs v \<Longrightarrow> reads (check_result c p) bs v"
  by (simp add: reads_def check_result_def)

lemma graph_tables_valid:
  assumes "graph_ok h" "length (hn_levels h) < 2 ^ 31" "length (hn_cum h) < 2 ^ 31" "hn_max_level h < int (length (hn_cum h))"
  shows "tables_valid (map int (hn_cum h)) (map int (hn_levels h)) (hn_offsets h) (hn_neighbors h) (hn_entry_point h) (hn_max_level h)"
proof -
  from assms(1) have L: "layout_ok h" and E: "entry_ok h" by (simp_all add: graph_ok_def)
  have i32: "int32_of (length (hn_levels h)) = int (length (hn_levels h))" "int32_of (length (hn_cum h)) = int (length (hn_cum h))"
    using assms(2,3) by (simp_all add: int32_of_small)
  have cum: "hn_cum h ! 0 = 0" "sorted (hn_cum h)" "hn_cum h \<noteq> []"
    using L by (cases "hn_cum h"; simp add: layout_ok_def cum_ok_def)+
  have mono: "hn_offsets h ! i \<le> hn_offsets h ! length (hn_levels h)" if "i \<le> length (hn_levels h)" for i
    using that
  proof (induction rule: inc_induct)
    case (step k)
    then have "hn_offsets h ! k \<le> hn_offsets h ! Suc k" using L by (simp add: layout_ok_def)
    with step.IH show ?case by simp
  qed simp
  have nbr: "\<forall>j \<in> set (hn_neighbors h). -1 \<le> j \<and> j < int (length (hn_levels h))" using graph_entries[OF assms(1)] by blast
  have ep: "-1 \<le> hn_entry_point h" "hn_entry_point h < int (length (hn_levels h))"
    using E by (auto simp: entry_ok_def on_level_def)
  have lev: "1 \<le> hn_levels h ! i" "hn_levels h ! i < length (hn_cum h)"
      "hn_offsets h ! Suc i = hn_offsets h ! i + hn_cum h ! (hn_levels h ! i)" if "i < length (hn_levels h)" for i
    using L that by (simp_all add: layout_ok_def)
  show ?thesis
    unfolding tables_valid_def
  proof (intro conjI allI impI)
    fix i assume i: "i < length (map int (hn_levels h))"
    then show "int (hn_offsets h ! i) + map int (hn_cum h) ! nat (map int (hn_levels h) ! i) \<le> int (length (hn_neighbors h))"
      using lev[of i] mono[of "Suc i"] L by (simp add: layout_ok_def)
  qed (use assms(4) L cum nbr ep lev i32 mono in \<open>auto simp: layout_ok_def nth_map sorted_nth_mono less_imp_le\<close>)
qed

abbreviation hnsw_valid :: "hnsw \<Rightarrow> bool" where
  "hnsw_valid h \<equiv> tables_valid (map int (hn_cum h)) (map int (hn_levels h)) (hn_offsets h) (hn_neighbors h) (hn_entry_point h) (hn_max_level h)"

lemma reads_HNSW_valid:
  assumes "hnsw_storable dc h" and valid: "hnsw_valid h"
  shows "reads (read_HNSW dc h0) (hnsw_bytes dc h)
    (h0\<lparr> hn_assign_probas := hn_assign_probas h, hn_cum := hn_cum h, hn_levels := hn_levels h, hn_offsets := hn_offsets h,
      hn_neighbors := hn_neighbors h, hn_entry_point := hn_entry_point h, hn_max_level := hn_max_level h,
      hn_efConstruction := hn_efConstruction h, hn_efSearch := hn_efSearch h \<rparr>)"
proof -
  note S = assms(1)[unfolded hnsw_storable_def]
  have lev: "\<forall>x \<in> set (hn_levels h). int x < 2 ^ 31"
  proof
    fix x assume "x \<in> set (hn_levels h)"
    then obtain i where "i < length (hn_levels h)" "x = hn_levels h ! i" by (auto simp: in_set_conv_nth)
    then have "x < length (hn_cum h)" using valid by (simp add: tables_valid_def)
    with S show "int x < 2 ^ 31" by simp
  qed
  have ofs: "\<forall>x \<in> set (hn_offsets h). fits_u64 x"
  proof
    fix x assume "x \<in> set (hn_offsets h)"
    then obtain i where "i < length (hn_offsets h)" "x = hn_offsets h ! i" by (auto simp: in_set_conv_nth)
    then have "x \<le> length (hn_neighbors h)" using valid by (simp add: tables_valid_def)
    with S show "fits_u64 x" by (simp add: fits_u64_def)
  qed
  have nb: "\<forall>v \<in> set (hn_neighbors h). fits_i32 v"
    using valid S by (fastforce simp: fits_i32_def tables_valid_def int32_of_small)
  have ep: "fits_i32 (hn_entry_point h)" "fits_i32 (hn_max_level h)"
    using valid S by (auto simp: tables_valid_def fits_i32_def int32_of_small)
  have r1: "reads (read_vector 8 (snd dc)) (enc_u64 (length (hn_assign_probas h)) @ concat (map (fst dc) (hn_assign_probas h))) (hn_assign_probas h)"
    using S by (intro reads_vector) (simp_all add: codec8_ok_def)
  have r2: "reads (read_vector 4 sle_dec) (enc_u64 (length (hn_cum h)) @ concat (map enc_i32 (hn_cum h))) (map int (hn_cum h))"
    using S by (intro reads_int_vector) simp_all
  have r3: "reads (read_vector 4 sle_dec) (enc_u64 (length (hn_levels h)) @ concat (map enc_i32 (hn_levels h))) (map int (hn_levels h))"
    using S lev by (intro reads_int_vector) simp_all
  have r4: "reads (read_vector 8 (\<lambda>b. nat (le_dec b))) (enc_u64 (length (hn_offsets h)) @ concat (map enc_u64 (hn_offsets h))) (hn_offsets h)"
    using S ofs valid by (intro reads_vector) (simp_all add: enc_u64_def le_dec_u64 tables_valid_def)
  have r5: "reads (read_vector 4 sle_dec) (enc_u64 (length (hn_neighbors h)) @ concat (map (le_enc 4) (hn_neighbors h))) (hn_neighbors h)"
    using S nb by (intro reads_vector) (simp_all add: sle_dec_i32)
  have r6: "reads read_i32 (enc_i32 (hn_efConstruction h)) (int (hn_efConstruction h))"
      "reads read_i32 (enc_i32 (hn_efSearch h)) (int (hn_efSearch h))" "reads read_i32 (enc_i32 1) (int 1)"
    using S by (intro reads_enc_i32, simp add: fits_i32_def)+
  have v: "validate_HNSW (map int (hn_cum h)) (map int (hn_levels h)) (hn_offsets h) (hn_neighbors h) (hn_entry_point h) (hn_max_level h) = Inr ()"
    using valid by (simp add: validate_HNSW_Inr)
  have mn: "map nat (map int xs) = xs" for xs by (simp add: map_idI)
  have ef: "nat_fields [int (hn_efConstruction h), int (hn_efSearch h)] p = p" for p :: "hnsw parser" by simp
  show ?thesis
    unfolding read_HNSW_def hnsw_bytes_def
    by (rule reads_bind[OF r1], rule reads_bind[OF r2], rule reads_bind[OF r3], rule reads_bind[OF r4], rule reads_bind[OF r5],
        rule reads_bind[OF reads_i32[OF ep(1)]], rule reads_bind[OF reads_i32[OF ep(2)]],
        rule reads_bind[OF r6(1)], rule reads_bind[OF r6(2)], subst append_Nil2[symmetric], rule reads_bind[OF r6(3)],
        rule reads_check_result[OF v]) (simp only: mn nat_int ef reads_return)
qed

lemma graph_valid: "hnsw_storable dc h \<Longrightarrow> graph_ok h \<Longrightarrow> hnsw_valid h"
  by (rule graph_tables_valid) (simp_all add: hnsw_storable_def)

lemmas reads_HNSW = reads_HNSW_valid[OF _ graph_valid]

section \<open>What a reader can rely on\<close>

lemma bind_parser_Inr: "bind_parser p k r = Inr y \<longleftrightarrow> (\<exists>x r'. p r = Inr (x, r') \<and> k x r' = Inr y)"
  by (auto simp: bind_parser_def bind_result_def split: sum.splits)

lemma check_result_Inr: "check_result c p r = Inr y \<longleftrightarrow> c = Inr () \<and> p r = Inr y"
  by (auto simp: check_result_def bind_result_def split: sum.splits)

lemma return_parser_Inr: "return_parser x r = Inr y \<longleftrightarrow> y = (x, r)"
  by (auto simp: return_parser_def)

text \<open>Every index that a search of a graph uses is inside its array, as long as it asks for the neighbors
  of a vertex on a level that the vertex has.\<close>

definition hnsw_in_bounds :: "hnsw \<Rightarrow> bool" where
  "hnsw_in_bounds h \<longleftrightarrow> length (hn_offsets h) = length (hn_levels h) + 1 \<and>
     (\<forall>v < length (hn_levels h). 1 \<le> hn_levels h ! v \<and> hn_levels h ! v < length (hn_cum h)) \<and>
     (\<forall>v < length (hn_levels h). \<forall>l < hn_levels h ! v.
        fst (neighbor_range h v l) \<le> snd (neighbor_range h v l) \<and> snd (neighbor_range h v l) \<le> length (hn_neighbors h)) \<and>
     (\<forall>j \<in> set (hn_neighbors h). -1 \<le> j \<and> j < int (length (hn_levels h))) \<and>
     -1 \<le> hn_entry_point h \<and> hn_entry_point h < int (length (hn_levels h)) \<and> hn_max_level h < int (length (hn_cum h))"

lemma valid_in_bounds:
  assumes "tables_valid cum levels offsets neighbors ep ml"
    and "hn_cum h = map nat cum" "hn_levels h = map nat levels" "hn_offsets h = offsets" "hn_neighbors h = neighbors"
      "hn_entry_point h = ep" "hn_max_level h = ml"
  shows "hnsw_in_bounds h"
proof -
  note V = assms(1)[unfolded tables_valid_def]
  have mono: "cum ! i \<le> cum ! j" if "i \<le> j" "j < length cum" for i j
    using that
  proof (induction j rule: dec_induct)
    case (step n)
    have "cum ! n \<le> cum ! Suc n" using V step.prems by (metis Suc_eq_plus1 diff_Suc_1 le_add2)
    with step show ?case by simp
  qed simp
  have lim: "int32_of (length levels) \<le> int (length levels)" "int32_of (length cum) \<le> int (length cum)" by (rule int32_of_le)+
  have pos: "0 \<le> cum ! i" if "i < length cum" for i using mono[of 0 i] V that by fastforce
  have rng: "nat (cum ! l) \<le> nat (cum ! Suc l)" "offsets ! v + nat (cum ! Suc l) \<le> length neighbors"
    if v: "v < length levels" "l < nat (levels ! v)" for v l
  proof -
    have k: "nat (levels ! v) < length cum" "int (offsets ! v) + cum ! nat (levels ! v) \<le> int (length neighbors)" using V v(1) by blast+
    show "nat (cum ! l) \<le> nat (cum ! Suc l)" using mono[of l "Suc l"] k(1) v(2) by simp
    have "cum ! Suc l \<le> cum ! nat (levels ! v)" using mono k(1) v(2) by simp
    with k pos[of "Suc l"] v(2) show "offsets ! v + nat (cum ! Suc l) \<le> length neighbors" by linarith
  qed
  have lev: "1 \<le> nat (levels ! v)" "nat (levels ! v) < length cum" if "v < length levels" for v
    using V that by (auto simp: le_nat_iff)
  have "\<forall>j \<in> set neighbors. -1 \<le> j \<and> j < int (length levels)" using V lim(1) by fastforce
  moreover have "ml < int (length cum)" "-1 \<le> ep" "ep < int (length levels)" "length offsets = length levels + 1" using V lim by linarith+
  moreover have "Suc l < length cum" if "v < length levels" "l < nat (levels ! v)" for v l using lev(2)[OF that(1)] that(2) by simp
  ultimately show ?thesis
    unfolding hnsw_in_bounds_def neighbor_range_def cum_nb_neighbors_def Let_def assms(2-7)
    using rng lev by (simp add: Suc_lessD)
qed

lemma read_HNSW_accepts:
  assumes "read_HNSW dc h0 r = Inr (h, r')"
  shows "hnsw_in_bounds h"
  using assms unfolding read_HNSW_def bind_parser_Inr check_result_Inr nat_fields_Inr return_parser_Inr validate_HNSW_Inr
  by (elim exE conjE) (erule valid_in_bounds; simp)

end
