(* ===== verification/IndexIO.thy ===== *)
theory IndexIO
  imports SuCoIO ShgIO HnswIO Cspg
begin

text \<open>
  The generic index files: \<open>write_index\<close> (\<open>faiss/impl/index_write.cpp\<close>) and \<open>read_index\<close>
  (\<open>faiss/impl/index_read.cpp\<close>) on the branches of \<open>IndexFlat\<close>, \<open>IndexSuCo\<close>, \<open>IndexHNSWFlat\<close>, \<open>IndexSHG\<close>
  and \<open>IndexCSPG\<close> (with \<open>faiss/IndexCSPG_io.h\<close>). A file starts with the four characters of its class, and an
  index that stands on others writes them behind its own data. \<open>fc\<close> and \<open>dc\<close> are the layouts of
  \<open>float\<close> and \<open>double\<close>. The index objects of the model have no place for another metric than the inner
  product and L2 and for a storage of another class: such files give \<open>NotModelled\<close>.
\<close>

section \<open>Tags and headers\<close>

definition fourcc :: "string \<Rightarrow> int" where
  "fourcc sx = (let x = (\<lambda>i. of_char (sx ! i)) in x 0 + x 1 * 2 ^ 8 + x 2 * 2 ^ 16 + x 3 * 2 ^ 24)"

text \<open>The tags of the other classes that \<open>read_index\<close> knows (without the optional SVS library).\<close>

definition other_tags :: "string list" where
  "other_tags =
     [''IHN2'', ''IHNc'', ''IHNp'', ''IHNs'', ''IHc2'', ''IHfP'', ''ILfs'', ''INNf'', ''INSf'', ''INSp'', ''INSs'', ''IPLf'',
      ''IPRf'', ''IPfs'', ''IRMf'', ''IRMh'', ''IRfs'', ''IVLf'', ''IVRf'', ''ImRQ'', ''Imiq'', ''Irfn'', ''Irfs'', ''IvFL'',
      ''IvFl'', ''IvPQ'', ''IvQR'', ''IvSQ'', ''IwFd'', ''IwFl'', ''IwIQ'', ''IwLS'', ''IwPL'', ''IwPQ'', ''IwPR'', ''IwPf'',
      ''IwPn'', ''IwQR'', ''IwRQ'', ''IwSQ'', ''IwSh'', ''IwSq'', ''Iwrf'', ''Iwrn'', ''Iwrq'', ''Iwrr'', ''Ix2L'', ''IxFP'',
      ''IxFp'', ''IxHE'', ''IxHe'', ''IxLS'', ''IxLa'', ''IxM2'', ''IxMp'', ''IxPL'', ''IxPQ'', ''IxPR'', ''IxPT'', ''IxPo'',
      ''IxPq'', ''IxRF'', ''IxRP'', ''IxRQ'', ''IxRq'', ''IxSQ'', ''Ixrq'', ''Ixrr'', ''NPLf'', ''NPRf'']"

fun metric_int :: "metric \<Rightarrow> int" where
  "metric_int METRIC_INNER_PRODUCT = 0"
| "metric_int METRIC_L2 = 1"

definition metric_type_from_int :: "int \<Rightarrow> metric result" where
  "metric_type_from_int x =
     throw_unless (x \<ge> 0 \<and> x \<le> 4 \<or> x \<ge> 20 \<and> x \<le> 25) ''invalid metric type %d''
       (if x = 0 then Inr METRIC_INNER_PRODUCT else if x = 1 then Inr METRIC_L2 else Inl NotModelled)"

text \<open>\<open>metric_arg\<close> is written and read only for other metrics.\<close>

definition write_index_header :: "nat \<Rightarrow> nat \<Rightarrow> bool \<Rightarrow> metric \<Rightarrow> byte list \<Rightarrow> byte list" where
  "write_index_header d ntotal is_trained m w =
     (let w = vwrite (enc_u64 ntotal) (vwrite (enc_i32 d) w);
          dummy = le_enc 8 (2 ^ 20);
          w = vwrite dummy (vwrite dummy w);
          w = vwrite (le_enc 1 (if is_trained then 1 else 0)) w
      in vwrite (le_enc 4 (metric_int m)) w)"

definition read_index_header :: "(nat \<times> nat \<times> bool \<times> metric) parser" where
  "read_index_header =
    bind_parser read_i32 (\<lambda>d.
    bind_parser (read1_macro 8 sle_dec) (\<lambda>ntotal.
    check_parser (0 \<le> d \<and> d < 2 ^ 20 + 1) ''%s (= %PRId64) out of range [%PRId64, %PRId64)''
   (check_parser (ntotal \<ge> 0) ''invalid ntotal %PRId64 read from index''
   (bind_parser (read1_macro 8 sle_dec) (\<lambda>_.
    bind_parser (read1_macro 8 sle_dec) (\<lambda>_.
    bind_parser (read1_macro 1 (\<lambda>b. le_dec b \<noteq> 0)) (\<lambda>is_trained.
    bind_parser read_i32 (\<lambda>metric_type_int.
      \<lambda>r. bind_result (metric_type_from_int metric_type_int) (\<lambda>m.
        return_parser (nat d, nat ntotal, is_trained, m) r)))))))))"

section \<open>IndexFlat\<close>

text \<open>The codes are bytes, four for each number of a vector; an \<open>IndexFlat\<close> is always trained.\<close>

definition write_index_flat :: "float_codec \<Rightarrow> flat \<Rightarrow> byte list \<Rightarrow> byte list" where
  "write_index_flat fc f w =
     (let h = fourcc (case fl_metric f of METRIC_INNER_PRODUCT \<Rightarrow> ''IxFI'' | METRIC_L2 \<Rightarrow> ''IxF2'');
          w = write_index_header (fl_d f) (fl_ntotal f) True (fl_metric f) (vwrite (le_enc 4 h) w);
          w = vwrite (enc_u64 (length (fl_codes f))) w
      in vwrite (concat (map (fst fc) (fl_codes f))) w)"

definition read_xb_vector :: "float_codec \<Rightarrow> float_t list parser" where
  "read_xb_vector fc =
    bind_parser read_u64 (\<lambda>size'.
    check_parser (size' < 2 ^ 40) ''Error: 'size >= 0 && size < (uint64_t{1} << 40)' failed''
   (bind_parser (read_array_checked ''read error in %s: %zd != %zd (%s)'' 1 hd (size' * 4)) (\<lambda>bytes.
      return_parser (map (snd fc) (split_items 4 size' bytes)))))"

text \<open>The sizes are compared as \<open>size_t\<close>: both are taken modulo \<open>2 ^ 64\<close>.\<close>

definition read_index_flat :: "float_codec \<Rightarrow> flat parser" where
  "read_index_flat fc =
    bind_parser read_index_header (\<lambda>(d, ntotal, _, m).
    bind_parser (read_xb_vector fc) (\<lambda>codes.
    check_parser (4 * length codes = ntotal * (d * 4) mod 2 ^ 64)
      ''Error: 'idxf->codes.size() == idxf->ntotal * idxf->code_size' failed''
      (return_parser \<lparr> fl_d = d, fl_metric = m, fl_ntotal = ntotal, fl_codes = codes \<rparr>)))"

section \<open>All indexes\<close>

datatype any_index =
    Null_index
  | Flat_index flat
  | SuCo_index suco
  | HNSW_index index_hnsw
  | SHG_index shg
  | CSPG_index cspg

definition write_null :: "byte list \<Rightarrow> byte list" where
  "write_null w = vwrite (le_enc 4 (fourcc ''null'')) w"

definition write_storage :: "float_codec \<Rightarrow> bool \<Rightarrow> flat option \<Rightarrow> byte list \<Rightarrow> byte list" where
  "write_storage fc skip_storage s w =
     (if skip_storage then write_null w
      else case s of None \<Rightarrow> write_null w | Some f \<Rightarrow> write_index_flat fc f w)"

definition write_index_hnsw :: "float_codec \<Rightarrow> float_codec \<Rightarrow> bool \<Rightarrow> index_hnsw \<Rightarrow> byte list \<Rightarrow> byte list" where
  "write_index_hnsw fc dc skip_storage ix w =
     (let w = vwrite (le_enc 4 (fourcc ''IHNf'')) w;
          w = write_index_header (ih_d ix) (ih_ntotal ix) (ih_is_trained ix) (ih_metric ix) w
      in write_storage fc skip_storage (ih_storage ix) (write_HNSW dc (ih_hnsw ix) w))"

definition write_index_shg :: "float_codec \<Rightarrow> float_codec \<Rightarrow> bool \<Rightarrow> shg \<Rightarrow> byte list \<Rightarrow> byte list" where
  "write_index_shg fc dc skip_storage sg w =
     (let ix = sg_base sg; w = vwrite (le_enc 4 (fourcc ''ISHG'')) w;
          w = write_index_header (ih_d ix) (ih_ntotal ix) (ih_is_trained ix) (ih_metric ix) w;
          w = write_index_shg_extra fc sg w
      in write_storage fc skip_storage (ih_storage ix) (write_HNSW dc (ih_hnsw ix) w))"

text \<open>The loop that writes the mapping of a partition leaves the array when there are fewer mappings than
  partitions.\<close>

fun write_refunction :: "nat list list \<Rightarrow> nat list \<Rightarrow> byte list \<Rightarrow> byte list result" where
  "write_refunction ref [] w = Inr w"
| "write_refunction ref (p # ps) w =
     (if p < length ref
      then let rs = length (ref ! p); w = vwrite (enc_u64 rs) w
           in write_refunction ref ps (if rs > 0 then vwrite (concat (map enc_u64 (ref ! p))) w else w)
      else Inl OutOfBounds)"

fun write_partitions :: "float_codec \<Rightarrow> float_codec \<Rightarrow> index_hnsw list \<Rightarrow> nat list \<Rightarrow> byte list \<Rightarrow> byte list result" where
  "write_partitions fc dc parts [] w = Inr w"
| "write_partitions fc dc parts (p # ps) w =
     (if p < length parts then write_partitions fc dc parts ps (write_index_hnsw fc dc False (parts ! p) w) else Inl OutOfBounds)"

definition write_index_cspg_extra :: "float_codec \<Rightarrow> float_codec \<Rightarrow> cspg \<Rightarrow> byte list \<Rightarrow> byte list result" where
  "write_index_cspg_extra fc dc cs w =
     (let np = cs_num_partitions cs; g2l = cs_global_to_local cs;
          w = vwrite (enc_i32 (cs_M cs)) w;
          w = vwrite (enc_i32 (cs_efConstruction cs)) w;
          w = vwrite (enc_i32 np) w;
          w = vwrite (fst fc (cs_lambda cs)) w;
          w = vwrite (le_enc 4 (cs_ef1 cs)) w;
          w = vwrite (le_enc 4 (cs_efSearch cs)) w;
          w = vwrite (enc_u64 (cs_num_routing cs)) w;
          w = vwrite (enc_i32 np) w
      in bind_result (write_refunction (cs_refunction cs) [0..<np] w) (\<lambda>w.
           let w = vwrite (enc_u64 (length g2l)) w;
               w = fold (\<lambda>i w. vwrite (le_enc 8 (snd (g2l ! i))) (vwrite (le_enc 4 (fst (g2l ! i))) w)) [0..<length g2l] w;
               w = write_storage fc False (cs_shared_flat cs) w
           in write_partitions fc dc (cs_partitions cs) [0..<np] w))"

definition write_index_cspg :: "float_codec \<Rightarrow> float_codec \<Rightarrow> cspg \<Rightarrow> byte list \<Rightarrow> byte list result" where
  "write_index_cspg fc dc cs w =
     (let w = vwrite (le_enc 4 (fourcc ''ICSP'')) w
      in write_index_cspg_extra fc dc cs (write_index_header (cs_d cs) (cs_ntotal cs) (cs_is_trained cs) (cs_metric cs) w))"

text \<open>\<open>skip_storage\<close> is the flag \<open>IO_FLAG_SKIP_STORAGE\<close>; it is not passed on to nested calls.\<close>

fun write_index :: "float_codec \<Rightarrow> float_codec \<Rightarrow> bool \<Rightarrow> any_index \<Rightarrow> byte list \<Rightarrow> byte list result" where
  "write_index fc dc skip_storage Null_index w = Inr (write_null w)"
| "write_index fc dc skip_storage (Flat_index f) w = Inr (write_index_flat fc f w)"
| "write_index fc dc skip_storage (SuCo_index ix) w = suco_write_index fc ix (vwrite (le_enc 4 (fourcc ''IxSC'')) w)"
| "write_index fc dc skip_storage (CSPG_index cs) w = write_index_cspg fc dc cs w"
| "write_index fc dc skip_storage (SHG_index sg) w = Inr (write_index_shg fc dc skip_storage sg w)"
| "write_index fc dc skip_storage (HNSW_index ix) w = Inr (write_index_hnsw fc dc skip_storage ix w)"

section \<open>Reading\<close>

text \<open>The objects of the default constructors, before they are filled; \<open>read_HNSW\<close> replaces the level
  tables, which are left empty here.\<close>

definition IndexHNSWFlat_default :: index_hnsw where
  "IndexHNSWFlat_default =
     \<lparr> ih_d = 0, ih_ntotal = 0, ih_metric = METRIC_L2, ih_is_trained = True, ih_hnsw = HNSW_empty, ih_storage = None,
       ih_init_level0 = True, ih_keep_max_size_level0 = False, ih_use_visited_hashset = None \<rparr>"

definition IndexSHG_default :: shg where
  "IndexSHG_default =
     \<lparr> sg_base = IndexHNSWFlat_default, sg_eta = 2, sg_maxFixLevel = 0, sg_compressed_vecs = [], sg_data_rep_size = 0,
       sg_dim_at_level = [], sg_offset_at_level = [], sg_shortcut = ShortcutMap \<rparr>"

definition IndexCSPG_default :: cspg where
  "IndexCSPG_default =
     \<lparr> cs_d = 0, cs_ntotal = 0, cs_is_trained = True, cs_metric = METRIC_L2, cs_M = 32, cs_efConstruction = 40, cs_num_partitions = 2,
       cs_lambda = 1 / 2, cs_ef1 = 1, cs_efSearch = 128, cs_shared_flat = None, cs_partitions = [], cs_refunction = [],
       cs_global_to_local = [], cs_num_routing = 0 \<rparr>"

fun storage_of :: "any_index \<Rightarrow> flat option result" where
  "storage_of Null_index = Inr None"
| "storage_of (Flat_index f) = Inr (Some f)"
| "storage_of _ = Inl NotModelled"

text \<open>The rest of an \<open>IndexHNSWFlat\<close> or \<open>IndexSHG\<close> behind the header; \<open>nested\<close> is the call of
  \<open>read_index\<close>.\<close>

definition read_graph_and_storage :: "float_codec \<Rightarrow> any_index parser \<Rightarrow> index_hnsw \<Rightarrow> index_hnsw parser" where
  "read_graph_and_storage dc nested ix =
    bind_parser (read_HNSW dc (ih_hnsw ix)) (\<lambda>h.
    bind_parser nested (\<lambda>a.
      \<lambda>r. bind_result (storage_of a) (\<lambda>s. return_parser (ix\<lparr> ih_hnsw := h, ih_storage := s \<rparr>) r)))"

definition set_header :: "nat \<times> nat \<times> bool \<times> metric \<Rightarrow> index_hnsw \<Rightarrow> index_hnsw" where
  "set_header hd' ix = (case hd' of (d, ntotal, tr, m) \<Rightarrow> ix\<lparr> ih_d := d, ih_ntotal := ntotal, ih_is_trained := tr, ih_metric := m \<rparr>)"

definition read_index_hnsw :: "float_codec \<Rightarrow> any_index parser \<Rightarrow> index_hnsw parser" where
  "read_index_hnsw dc nested =
    bind_parser read_index_header (\<lambda>hd'. read_graph_and_storage dc nested (set_header hd' IndexHNSWFlat_default))"

definition read_index_shg :: "float_codec \<Rightarrow> float_codec \<Rightarrow> any_index parser \<Rightarrow> shg parser" where
  "read_index_shg fc dc nested =
    bind_parser read_index_header (\<lambda>hd'.
    bind_parser (read_index_shg_extra fc (IndexSHG_default\<lparr> sg_base := set_header hd' IndexHNSWFlat_default \<rparr>)) (\<lambda>sg.
    bind_parser (read_graph_and_storage dc nested (sg_base sg)) (\<lambda>ix.
      return_parser (sg\<lparr> sg_base := ix \<rparr>))))"

text \<open>The mapping of a partition: the count of the items that are read is not checked; the items that the
  stream does not have stay 0. The vector is resized before, as for \<open>resized_parser\<close>.\<close>

definition read_refunction :: "nat list parser" where
  "read_refunction =
    bind_parser read_u64 (\<lambda>rs.
      if rs > 0
      then (\<lambda>r. case vread 8 rs r of (m, bs, r') \<Rightarrow>
              if m < rs \<and> exceeds_max_size 8 rs then Inl (StdException ''vector::_M_default_append'')
              else nat_ids (blit 0 (map sle_dec (split_items 8 m bs)) (replicate rs 0)) r')
      else return_parser [])"

definition read_g2l_entry :: "(int \<times> int) parser" where
  "read_g2l_entry = bind_parser read_i32 (\<lambda>gid. bind_parser (read1_macro 8 sle_dec) (\<lambda>lid. return_parser (gid, lid)))"

text \<open>\<open>dynamic_cast\<close> to \<open>IndexFlat\<close> and to \<open>IndexHNSWFlat\<close>; the second also takes an \<open>IndexSHG\<close>.\<close>

definition read_shared_flat :: "any_index parser \<Rightarrow> flat parser" where
  "read_shared_flat nested =
    bind_parser nested (\<lambda>a r. case a of Flat_index f \<Rightarrow> Inr (f, r)
      | _ \<Rightarrow> Inl (FaissException ''IndexCSPG I/O: shared_flat is not IndexFlat''))"

definition read_partition :: "any_index parser \<Rightarrow> index_hnsw parser" where
  "read_partition nested =
    bind_parser nested (\<lambda>a r. case a of HNSW_index ix \<Rightarrow> Inr (ix, r) | SHG_index sg \<Rightarrow> Inl NotModelled
      | _ \<Rightarrow> Inl (FaissException ''IndexCSPG I/O: partition is not IndexHNSWFlat''))"

definition read_index_cspg_extra :: "float_codec \<Rightarrow> any_index parser \<Rightarrow> cspg \<Rightarrow> cspg parser" where
  "read_index_cspg_extra fc nested cs =
    bind_parser read_i32 (\<lambda>M.
    bind_parser read_i32 (\<lambda>efConstruction.
    bind_parser read_i32 (\<lambda>num_partitions.
    bind_parser (read1_macro 4 (snd fc)) (\<lambda>lambda.
    bind_parser read_i32 (\<lambda>ef1.
    bind_parser read_i32 (\<lambda>efSearch.
    bind_parser (read1_macro 8 sle_dec) (\<lambda>nr.
    bind_parser read_i32 (\<lambda>np.
    check_parser (np = num_partitions) ''Error: 'np == idx->num_partitions' failed''
   (bind_parser (resize_parser np (parse_list (replicate (nat np) read_refunction))) (\<lambda>refunction.
    bind_parser read_u64 (\<lambda>gl_size.
    bind_parser (resized_parser 16 gl_size (parse_list (replicate gl_size read_g2l_entry))) (\<lambda>g2l.
    bind_parser (read_shared_flat nested) (\<lambda>flat.
    bind_parser (parse_list (replicate (nat np) (read_partition nested))) (\<lambda>parts.
      nat_fields [M, efConstruction, nr]
        (return_parser (cs\<lparr> cs_M := nat M, cs_efConstruction := nat efConstruction, cs_num_partitions := nat num_partitions,
          cs_lambda := lambda, cs_ef1 := ef1, cs_efSearch := efSearch, cs_num_routing := nat nr, cs_refunction := refunction,
          cs_global_to_local := g2l, cs_shared_flat := Some flat, cs_partitions := parts \<rparr>))))))))))))))))"

definition read_index_cspg :: "float_codec \<Rightarrow> any_index parser \<Rightarrow> cspg parser" where
  "read_index_cspg fc nested =
    bind_parser read_index_header (\<lambda>(d, ntotal, tr, m).
      read_index_cspg_extra fc nested (IndexCSPG_default\<lparr> cs_d := d, cs_ntotal := ntotal, cs_is_trained := tr, cs_metric := m \<rparr>))"

definition map_parser :: "('a \<Rightarrow> 'b) \<Rightarrow> 'a parser \<Rightarrow> 'b parser" where
  "map_parser f p = bind_parser p (\<lambda>x. return_parser (f x))"

text \<open>The dispatch. \<open>junk\<close> is the content of uninitialised variables in \<open>IndexSuCo::read_index\<close>.\<close>

definition read_index_body :: "float_codec \<Rightarrow> float_codec \<Rightarrow> int \<Rightarrow> any_index parser \<Rightarrow> int \<Rightarrow> any_index parser" where
  "read_index_body fc dc junk nested h =
     (if h = fourcc ''null'' then return_parser Null_index
      else if h = fourcc ''IxFI'' \<or> h = fourcc ''IxF2'' \<or> h = fourcc ''IxFl'' then map_parser Flat_index (read_index_flat fc)
      else if h = fourcc ''IxSC'' then map_parser SuCo_index (suco_read_index fc junk IndexSuCo_default)
      else if h = fourcc ''ICSP'' then map_parser CSPG_index (read_index_cspg fc nested)
      else if h = fourcc ''ISHG'' then map_parser SHG_index (read_index_shg fc dc nested)
      else if h = fourcc ''IHNf'' then map_parser HNSW_index (read_index_hnsw dc nested)
      else if h \<in> set (map fourcc other_tags) then (\<lambda>r. Inl NotModelled)
      else (\<lambda>r. Inl (FaissException ''Index type 0x%08x (\"%s\") not recognized'')))"

text \<open>The recursion of \<open>read_index\<close> with a bound for its depth. Every call first reads four bytes, so the
  number of unread bytes bounds the depth; a call at depth 0 finds the stream exhausted.\<close>

fun read_index_depth :: "float_codec \<Rightarrow> float_codec \<Rightarrow> int \<Rightarrow> nat \<Rightarrow> any_index parser" where
  "read_index_depth fc dc junk 0 = (\<lambda>r. Inl (FaissException ''read error in %s: %zd != %zd (%s)''))"
| "read_index_depth fc dc junk (Suc n) =
     bind_parser (read1_macro 4 le_dec) (read_index_body fc dc junk (read_index_depth fc dc junk n))"

declare read_index_depth.simps [simp del]

definition read_index :: "float_codec \<Rightarrow> float_codec \<Rightarrow> int \<Rightarrow> any_index parser" where
  "read_index fc dc junk = (\<lambda>r. read_index_depth fc dc junk (length (unread r)) r)"

end
