(* ===== verification/IndexIOOk.thy ===== *)
theory IndexIOOk
  imports IndexIO IndexHnswOk CspgOk
begin

text \<open>
  The generic index files are read back as they were written: the layouts of the classes in front of any
  rest of a stream, and the conditions under which every field fits its stored type.
\<close>

section \<open>Tags\<close>

lemma fourcc_values:
  "fourcc ''null'' = 1819047278" "fourcc ''IxFI'' = 1229355081" "fourcc ''IxF2'' = 843479113" "fourcc ''IxFl'' = 1816557641"
  "fourcc ''IxSC'' = 1129543753" "fourcc ''ICSP'' = 1347633993" "fourcc ''ISHG'' = 1195922249" "fourcc ''IHNf'' = 1716406345"
  by code_simp+

lemma reads_lift: "c = Inr v \<Longrightarrow> reads (k v) bs w \<Longrightarrow> reads (\<lambda>r. bind_result c (\<lambda>m. k m r)) bs w"
  by (simp add: reads_def)

lemma reads_map_parser: "reads p bs v \<Longrightarrow> reads (map_parser f p) bs (f v)"
  unfolding map_parser_def by (rule reads_bind_return)

lemma reads_tag:
  assumes "0 \<le> h" "h < 2 ^ 32" "reads (read_index_body fc dc junk (read_index_depth fc dc junk n) h) bs a"
  shows "reads (read_index_depth fc dc junk (Suc n)) (le_enc 4 h @ bs) a"
  unfolding read_index_depth.simps
proof (rule reads_bind)
  show "reads (read1_macro 4 le_dec) (le_enc 4 h) h"
    unfolding read1_macro_def using assms(1,2) by (intro reads_read1_checked) (simp_all add: le_dec_enc_unsigned)
qed (rule assms(3))

lemma reads_i64: "fits_i64 v \<Longrightarrow> reads (read1_macro 8 sle_dec) (le_enc 8 v) v"
  unfolding read1_macro_def by (rule reads_read1_checked) (simp_all add: sle_dec_i64)

section \<open>Header\<close>

definition header_bytes :: "nat \<Rightarrow> nat \<Rightarrow> bool \<Rightarrow> metric \<Rightarrow> byte list" where
  "header_bytes d ntotal is_trained m =
     enc_i32 d @ enc_u64 ntotal @ le_enc 8 (2 ^ 20) @ le_enc 8 (2 ^ 20) @ le_enc 1 (if is_trained then 1 else 0) @
     le_enc 4 (metric_int m)"

lemma write_header_bytes: "write_index_header d ntotal is_trained m w = w @ header_bytes d ntotal is_trained m"
  by (simp add: write_index_header_def header_bytes_def vwrite_def Let_def)

lemma reads_header:
  assumes "d \<le> 2 ^ 20" "int ntotal < 2 ^ 63"
  shows "reads read_index_header (header_bytes d ntotal is_trained m) (d, ntotal, is_trained, m)"
proof -
  have t: "reads (read1_macro 1 (\<lambda>b. le_dec b \<noteq> 0)) (le_enc 1 (if is_trained then 1 else 0)) is_trained"
    unfolding read1_macro_def by (rule reads_read1_checked) simp_all
  have d: "reads read_i32 (enc_i32 d) (int d)" using assms(1) by (intro reads_enc_i32) (simp add: fits_i32_def)
  have n: "reads (read1_macro 8 sle_dec) (enc_u64 ntotal) (int ntotal)"
    unfolding enc_u64_def using assms(2) by (intro reads_i64) (simp add: fits_i64_def)
  have u: "reads (read1_macro 8 sle_dec) (le_enc 8 (2 ^ 20)) (2 ^ 20)" by (intro reads_i64) (simp add: fits_i64_def)
  have m: "reads read_i32 (le_enc 4 (metric_int m)) (metric_int m)" "metric_type_from_int (metric_int m) = Inr m"
    by (cases m; simp add: reads_i32 fits_i32_def metric_type_from_int_def)+
  show ?thesis
    unfolding read_index_header_def header_bytes_def
    apply (rule reads_bind[OF d], rule reads_bind[OF n])
    apply (rule reads_check, use assms(1) in simp, rule reads_check, simp)
    apply (rule reads_bind[OF u], rule reads_bind[OF u], rule reads_bind[OF t], subst append_Nil2[symmetric], rule reads_bind[OF m(1)])
    apply (rule reads_lift[OF m(2)])
    by (simp add: reads_return)
qed

section \<open>IndexFlat\<close>

definition flat_storable :: "float_codec \<Rightarrow> flat \<Rightarrow> bool" where
  "flat_storable fc f \<longleftrightarrow> flat_ok f \<and> fl_d f \<le> 2 ^ 20 \<and> int (fl_ntotal f) < 2 ^ 63 \<and> length (fl_codes f) < 2 ^ 40 \<and>
     codec_ok fc (set (fl_codes f))"

definition flat_tag :: "flat \<Rightarrow> int" where
  "flat_tag f = fourcc (case fl_metric f of METRIC_INNER_PRODUCT \<Rightarrow> ''IxFI'' | METRIC_L2 \<Rightarrow> ''IxF2'')"

definition flat_bytes :: "float_codec \<Rightarrow> flat \<Rightarrow> byte list" where
  "flat_bytes fc f = le_enc 4 (flat_tag f) @ header_bytes (fl_d f) (fl_ntotal f) True (fl_metric f) @
     enc_u64 (length (fl_codes f)) @ concat (map (fst fc) (fl_codes f))"

lemma write_flat_bytes: "write_index_flat fc f w = w @ flat_bytes fc f"
  by (simp add: write_index_flat_def flat_bytes_def write_header_bytes vwrite_def flat_tag_def Let_def)

lemma reads_xb_vector:
  assumes "codec_ok fc (set xs)" "length xs < 2 ^ 40"
  shows "reads (read_xb_vector fc) (enc_u64 (length xs) @ concat (map (fst fc) xs)) xs"
proof -
  have c: "\<forall>x \<in> set xs. length (fst fc x) = 4" "\<forall>x \<in> set xs. snd fc (fst fc x) = x" using assms(1) by (auto simp: codec_ok_def)
  let ?bs = "concat (map (fst fc) xs)"
  have "reads (read_array_checked ''read error in %s: %zd != %zd (%s)'' 1 hd (length xs * 4)) (concat (map (\<lambda>b. [b]) ?bs)) ?bs"
    using length_concat_items[OF c(1)] by (intro reads_array) simp_all
  moreover have "concat (map (\<lambda>b. [b]) bs) = bs" for bs :: "byte list" by (induction bs) simp_all
  ultimately have a: "reads (read_array_checked ''read error in %s: %zd != %zd (%s)'' 1 hd (length xs * 4)) ?bs ?bs" by simp
  have v: "map (snd fc) (split_items 4 (length xs) ?bs) = xs"
    using split_items_concat[OF c(1)] c(2) by (simp add: map_idI)
  have "fits_u64 (length xs)" using assms(2) by (simp add: fits_u64_def)
  then show ?thesis unfolding read_xb_vector_def
    by (rule reads_bind[OF reads_u64])
       (rule reads_check[OF assms(2)], use reads_bind_return[OF a, of "\<lambda>bs. map (snd fc) (split_items 4 (length xs) bs)"] v in simp)
qed

lemma reads_flat:
  assumes "flat_storable fc f"
  shows "reads (read_index_flat fc) (header_bytes (fl_d f) (fl_ntotal f) True (fl_metric f) @
     enc_u64 (length (fl_codes f)) @ concat (map (fst fc) (fl_codes f))) f"
proof -
  note S = assms[unfolded flat_storable_def]
  have r: "reads read_index_header (header_bytes (fl_d f) (fl_ntotal f) True (fl_metric f)) (fl_d f, fl_ntotal f, True, fl_metric f)"
    using S by (intro reads_header) simp_all
  have x: "reads (read_xb_vector fc) (enc_u64 (length (fl_codes f)) @ concat (map (fst fc) (fl_codes f))) (fl_codes f)"
    using S by (intro reads_xb_vector) simp_all
  have "4 * length (fl_codes f) < 2 ^ 64" using S by simp
  then have "4 * length (fl_codes f) = fl_ntotal f * (fl_d f * 4) mod 2 ^ 64" using S by (simp add: flat_ok_def mult.commute)
  moreover have eq: "\<lparr> fl_d = fl_d f, fl_metric = fl_metric f, fl_ntotal = fl_ntotal f, fl_codes = fl_codes f \<rparr> = f" by (cases f) simp
  ultimately show ?thesis unfolding read_index_flat_def
    by (intro reads_bind[OF r]) (simp only: prod.case, subst append_Nil2[symmetric], rule reads_bind[OF x],
        rule reads_check, simp_all only: reads_return eq)
qed

lemma flat_tag_range: "0 \<le> flat_tag f" "flat_tag f < 2 ^ 32"
  by (cases "fl_metric f"; simp add: flat_tag_def fourcc_values)+

lemma reads_flat_index:
  assumes "flat_storable fc f"
  shows "reads (read_index_depth fc dc junk (Suc n)) (flat_bytes fc f) (Flat_index f)"
  unfolding flat_bytes_def
proof (rule reads_tag[OF flat_tag_range])
  have "read_index_body fc dc junk nested (flat_tag f) = map_parser Flat_index (read_index_flat fc)" for nested
    by (cases "fl_metric f") (simp_all add: read_index_body_def flat_tag_def fourcc_values)
  then show "reads (read_index_body fc dc junk (read_index_depth fc dc junk n) (flat_tag f))
    (header_bytes (fl_d f) (fl_ntotal f) True (fl_metric f) @ enc_u64 (length (fl_codes f)) @ concat (map (fst fc) (fl_codes f)))
    (Flat_index f)"
    using reads_map_parser[OF reads_flat[OF assms], of Flat_index] by simp
qed

section \<open>The storage of a graph\<close>

definition storage_bytes :: "float_codec \<Rightarrow> flat option \<Rightarrow> byte list" where
  "storage_bytes fc s = (case s of None \<Rightarrow> le_enc 4 (fourcc ''null'') | Some f \<Rightarrow> flat_bytes fc f)"

definition stored :: "bool \<Rightarrow> flat option \<Rightarrow> flat option" where
  "stored skip_storage s = (if skip_storage then None else s)"

lemma write_storage_bytes: "write_storage fc skip_storage s w = w @ storage_bytes fc (stored skip_storage s)"
  by (cases s) (simp_all add: write_storage_def storage_bytes_def stored_def write_null_def vwrite_def write_flat_bytes)

lemma reads_null: "reads (read_index_depth fc dc junk (Suc n)) (le_enc 4 (fourcc ''null'')) Null_index"
proof -
  have "reads (read_index_body fc dc junk (read_index_depth fc dc junk n) (fourcc ''null'')) [] Null_index"
    by (simp add: read_index_body_def reads_return)
  from reads_tag[OF _ _ this] show ?thesis by (simp add: fourcc_values)
qed

lemma reads_storage:
  assumes "\<forall>f. s = Some f \<longrightarrow> flat_storable fc f"
  obtains a where "reads (read_index_depth fc dc junk (Suc n)) (storage_bytes fc s) a" "storage_of a = Inr s"
proof (cases s)
  case None
  then show ?thesis using reads_null that[of Null_index] by (simp add: storage_bytes_def)
next
  case (Some f)
  then show ?thesis using reads_flat_index assms that[of "Flat_index f"] by (simp add: storage_bytes_def)
qed

section \<open>IndexHNSWFlat and IndexSHG\<close>

text \<open>The fields that a file does not keep have their initial values in the index that is read.\<close>

definition reloaded_hnsw :: "hnsw \<Rightarrow> hnsw" where
  "reloaded_hnsw h = h\<lparr> hn_check_relative_distance := True, hn_search_bounded_queue := True \<rparr>"

definition reloaded_index_hnsw :: "bool \<Rightarrow> index_hnsw \<Rightarrow> index_hnsw" where
  "reloaded_index_hnsw skip_storage ix =
     ix\<lparr> ih_hnsw := reloaded_hnsw (ih_hnsw ix), ih_storage := stored skip_storage (ih_storage ix), ih_init_level0 := True,
         ih_keep_max_size_level0 := False, ih_use_visited_hashset := None \<rparr>"

definition index_hnsw_storable :: "float_codec \<Rightarrow> float_codec \<Rightarrow> index_hnsw \<Rightarrow> bool" where
  "index_hnsw_storable fc dc ix \<longleftrightarrow> ih_d ix \<le> 2 ^ 20 \<and> int (ih_ntotal ix) < 2 ^ 63 \<and> graph_ok (ih_hnsw ix) \<and>
     hnsw_storable dc (ih_hnsw ix) \<and> (\<forall>f. ih_storage ix = Some f \<longrightarrow> flat_storable fc f)"

definition index_hnsw_bytes :: "float_codec \<Rightarrow> float_codec \<Rightarrow> bool \<Rightarrow> index_hnsw \<Rightarrow> byte list" where
  "index_hnsw_bytes fc dc skip_storage ix =
     le_enc 4 (fourcc ''IHNf'') @ header_bytes (ih_d ix) (ih_ntotal ix) (ih_is_trained ix) (ih_metric ix) @
     hnsw_bytes dc (ih_hnsw ix) @ storage_bytes fc (stored skip_storage (ih_storage ix))"

lemma write_index_hnsw_bytes: "write_index_hnsw fc dc skip_storage ix w = w @ index_hnsw_bytes fc dc skip_storage ix"
  by (simp add: write_index_hnsw_def write_storage_bytes write_HNSW_bytes write_header_bytes vwrite_def index_hnsw_bytes_def Let_def)

lemma reads_graph_and_storage:
  assumes "index_hnsw_storable fc dc ix" "ih_hnsw ix0 = HNSW_empty"
  shows "reads (read_graph_and_storage dc (read_index_depth fc dc junk (Suc n)) ix0)
    (hnsw_bytes dc (ih_hnsw ix) @ storage_bytes fc (stored skip_storage (ih_storage ix)))
    (ix0\<lparr> ih_hnsw := reloaded_hnsw (ih_hnsw ix), ih_storage := stored skip_storage (ih_storage ix) \<rparr>)"
proof -
  have h: "reads (read_HNSW dc (ih_hnsw ix0)) (hnsw_bytes dc (ih_hnsw ix)) (reloaded_hnsw (ih_hnsw ix))"
    using reads_HNSW[of dc "ih_hnsw ix" dc "ih_hnsw ix0"] assms unfolding index_hnsw_storable_def
    by (cases "ih_hnsw ix") (simp add: reloaded_hnsw_def HNSW_empty_def)
  have "\<forall>f. stored skip_storage (ih_storage ix) = Some f \<longrightarrow> flat_storable fc f"
    using assms(1) by (simp add: stored_def index_hnsw_storable_def)
  then obtain a where a: "reads (read_index_depth fc dc junk (Suc n)) (storage_bytes fc (stored skip_storage (ih_storage ix))) a"
    "storage_of a = Inr (stored skip_storage (ih_storage ix))" by (rule reads_storage)
  show ?thesis unfolding read_graph_and_storage_def
    by (rule reads_bind[OF h], subst append_Nil2[symmetric], rule reads_bind[OF a(1)], rule reads_lift[OF a(2)]) (rule reads_return)
qed

lemma reads_hnsw_index:
  assumes "index_hnsw_storable fc dc ix"
  shows "reads (read_index_depth fc dc junk (Suc (Suc n))) (index_hnsw_bytes fc dc skip_storage ix)
    (HNSW_index (reloaded_index_hnsw skip_storage ix))"
proof -
  define ix0 where "ix0 = set_header (ih_d ix, ih_ntotal ix, ih_is_trained ix, ih_metric ix) IndexHNSWFlat_default"
  have "ih_hnsw ix0 = HNSW_empty" by (simp add: ix0_def set_header_def IndexHNSWFlat_default_def)
  note G = reads_graph_and_storage[OF assms this, where junk = junk and n = n and skip_storage = skip_storage]
  have eq: "ix0\<lparr> ih_hnsw := reloaded_hnsw (ih_hnsw ix), ih_storage := stored skip_storage (ih_storage ix) \<rparr> = reloaded_index_hnsw skip_storage ix"
    by (cases ix) (simp add: ix0_def set_header_def IndexHNSWFlat_default_def reloaded_index_hnsw_def)
  have "reads read_index_header (header_bytes (ih_d ix) (ih_ntotal ix) (ih_is_trained ix) (ih_metric ix))
      (ih_d ix, ih_ntotal ix, ih_is_trained ix, ih_metric ix)"
    using assms by (intro reads_header) (simp_all add: index_hnsw_storable_def)
  then have "reads (read_index_hnsw dc (read_index_depth fc dc junk (Suc n)))
      (header_bytes (ih_d ix) (ih_ntotal ix) (ih_is_trained ix) (ih_metric ix) @ hnsw_bytes dc (ih_hnsw ix) @
       storage_bytes fc (stored skip_storage (ih_storage ix))) (reloaded_index_hnsw skip_storage ix)"
    unfolding read_index_hnsw_def by (rule reads_bind) (use G in \<open>simp add: eq ix0_def[symmetric]\<close>)
  then have "reads (map_parser HNSW_index (read_index_hnsw dc (read_index_depth fc dc junk (Suc n))))
      (header_bytes (ih_d ix) (ih_ntotal ix) (ih_is_trained ix) (ih_metric ix) @ hnsw_bytes dc (ih_hnsw ix) @
       storage_bytes fc (stored skip_storage (ih_storage ix))) (HNSW_index (reloaded_index_hnsw skip_storage ix))"
    by (rule reads_map_parser)
  then show ?thesis unfolding index_hnsw_bytes_def
    by (intro reads_tag) (simp_all add: fourcc_values read_index_body_def)
qed

definition shg_file_ok :: "float_codec \<Rightarrow> float_codec \<Rightarrow> shg \<Rightarrow> bool" where
  "shg_file_ok fc dc sg \<longleftrightarrow> index_hnsw_storable fc dc (sg_base sg) \<and> shg_storable fc sg \<and> length (sg_dim_at_level sg) < 2 ^ 40 \<and>
     length (sm_values (sg_shortcut sg)) = length (sm_keys (sg_shortcut sg)) \<and> build_model (sg_shortcut sg) = sg_shortcut sg"

definition reloaded_shg :: "bool \<Rightarrow> shg \<Rightarrow> shg" where
  "reloaded_shg skip_storage sg = sg\<lparr> sg_base := reloaded_index_hnsw skip_storage (sg_base sg) \<rparr>"

definition shg_bytes :: "float_codec \<Rightarrow> float_codec \<Rightarrow> bool \<Rightarrow> shg \<Rightarrow> byte list" where
  "shg_bytes fc dc skip_storage sg =
     (let ix = sg_base sg
      in le_enc 4 (fourcc ''ISHG'') @ header_bytes (ih_d ix) (ih_ntotal ix) (ih_is_trained ix) (ih_metric ix) @
         shg_extra_bytes fc sg @ hnsw_bytes dc (ih_hnsw ix) @ storage_bytes fc (stored skip_storage (ih_storage ix)))"

lemma write_index_shg_bytes:
  assumes "shg_file_ok fc dc sg"
  shows "write_index_shg fc dc skip_storage sg w = w @ shg_bytes fc dc skip_storage sg"
  using assms by (simp add: shg_file_ok_def write_index_shg_def write_storage_bytes write_HNSW_bytes write_header_bytes
      write_extra_bytes vwrite_def shg_bytes_def Let_def)

lemma reads_shg_index:
  assumes "shg_file_ok fc dc sg"
  shows "reads (read_index_depth fc dc junk (Suc (Suc n))) (shg_bytes fc dc skip_storage sg) (SHG_index (reloaded_shg skip_storage sg))"
proof -
  let ?ix = "sg_base sg"
  define ix0 where "ix0 = set_header (ih_d ?ix, ih_ntotal ?ix, ih_is_trained ?ix, ih_metric ?ix) IndexHNSWFlat_default"
  define sg0 where "sg0 = sg\<lparr> sg_base := ix0 \<rparr>"
  from assms have A: "index_hnsw_storable fc dc ?ix" "shg_storable fc sg" "length (sg_dim_at_level sg) < 2 ^ 40"
    "length (sm_values (sg_shortcut sg)) = length (sm_keys (sg_shortcut sg))" "build_model (sg_shortcut sg) = sg_shortcut sg"
    by (simp_all add: shg_file_ok_def)
  have "ih_hnsw ix0 = HNSW_empty" by (simp add: ix0_def set_header_def IndexHNSWFlat_default_def)
  note G = reads_graph_and_storage[OF A(1) this, where junk = junk and n = n and skip_storage = skip_storage]
  have eq: "sg0\<lparr> sg_base := ix0\<lparr> ih_hnsw := reloaded_hnsw (ih_hnsw ?ix), ih_storage := stored skip_storage (ih_storage ?ix) \<rparr> \<rparr> = reloaded_shg skip_storage sg"
    by (cases "sg_base sg") (simp add: sg0_def ix0_def set_header_def IndexHNSWFlat_default_def reloaded_index_hnsw_def reloaded_shg_def)
  have sc: "\<lparr> sm_keys = sm_keys (sg_shortcut sg), sm_values = sm_values (sg_shortcut sg), sm_pgm = sm_keys (sg_shortcut sg),
      sm_trained = (sm_keys (sg_shortcut sg) \<noteq> []) \<rparr> = sg_shortcut sg"
    using A(5) by (cases "sg_shortcut sg") (auto simp: build_model_def)
  have X: "reads (read_index_shg_extra fc (IndexSHG_default\<lparr> sg_base := ix0 \<rparr>)) (shg_extra_bytes fc sg) sg0"
    using reads_extra[OF A(2-4), of "IndexSHG_default\<lparr> sg_base := ix0 \<rparr>"] unfolding sc
    by (cases sg) (simp add: sg0_def IndexSHG_default_def)
  have H: "reads read_index_header (header_bytes (ih_d ?ix) (ih_ntotal ?ix) (ih_is_trained ?ix) (ih_metric ?ix))
      (ih_d ?ix, ih_ntotal ?ix, ih_is_trained ?ix, ih_metric ?ix)"
    using A(1) by (intro reads_header) (simp_all add: index_hnsw_storable_def)
  have b: "sg_base sg0 = ix0" by (simp add: sg0_def)
  have "reads (read_index_shg fc dc (read_index_depth fc dc junk (Suc n)))
      (header_bytes (ih_d ?ix) (ih_ntotal ?ix) (ih_is_trained ?ix) (ih_metric ?ix) @ shg_extra_bytes fc sg @
       hnsw_bytes dc (ih_hnsw ?ix) @ storage_bytes fc (stored skip_storage (ih_storage ?ix))) (reloaded_shg skip_storage sg)"
    unfolding read_index_shg_def
    by (rule reads_bind[OF H], unfold ix0_def[symmetric], rule reads_bind[OF X], unfold b eq[symmetric], rule reads_bind_return[OF G])
  from reads_map_parser[OF this, of SHG_index] show ?thesis unfolding shg_bytes_def Let_def
    by (intro reads_tag) (simp_all add: fourcc_values read_index_body_def)
qed

end
