(* ===== verification/IndexIOCspg.thy ===== *)
theory IndexIOCspg
  imports IndexIOOk
begin

text \<open>
  The file of an \<open>IndexCSPG\<close>: the mappings, the shared storage and the graphs of the partitions, which are
  read back by nested calls.
\<close>

definition cspg_file_ok :: "float_codec \<Rightarrow> float_codec \<Rightarrow> cspg \<Rightarrow> bool" where
  "cspg_file_ok fc dc cs \<longleftrightarrow>
     cs_d cs \<le> 2 ^ 20 \<and> int (cs_ntotal cs) < 2 ^ 63 \<and> int (cs_M cs) < 2 ^ 31 \<and> int (cs_efConstruction cs) < 2 ^ 31 \<and>
     int (cs_num_partitions cs) < 2 ^ 31 \<and> codec_ok fc {cs_lambda cs} \<and> fits_i32 (cs_ef1 cs) \<and> fits_i32 (cs_efSearch cs) \<and>
     int (cs_num_routing cs) < 2 ^ 63 \<and> length (cs_refunction cs) = cs_num_partitions cs \<and>
     (\<forall>ref \<in> set (cs_refunction cs). fits_u64 (length ref) \<and> (\<forall>i \<in> set ref. int i < 2 ^ 63)) \<and>
     fits_u64 (length (cs_global_to_local cs)) \<and>
     (\<forall>e \<in> set (cs_global_to_local cs). fits_i32 (fst e) \<and> fits_i64 (snd e)) \<and>
     (\<exists>f. cs_shared_flat cs = Some f \<and> flat_storable fc f) \<and>
     length (cs_partitions cs) = cs_num_partitions cs \<and> (\<forall>ix \<in> set (cs_partitions cs). index_hnsw_storable fc dc ix)"

definition reloaded_cspg :: "cspg \<Rightarrow> cspg" where
  "reloaded_cspg cs = cs\<lparr> cs_partitions := map (reloaded_index_hnsw False) (cs_partitions cs) \<rparr>"

definition ref_bytes :: "nat list \<Rightarrow> byte list" where
  "ref_bytes ref = enc_u64 (length ref) @ concat (map enc_u64 ref)"

definition g2l_bytes :: "int \<times> int \<Rightarrow> byte list" where
  "g2l_bytes e = le_enc 4 (fst e) @ le_enc 8 (snd e)"

definition cspg_extra_bytes :: "float_codec \<Rightarrow> float_codec \<Rightarrow> cspg \<Rightarrow> byte list" where
  "cspg_extra_bytes fc dc cs =
     enc_i32 (cs_M cs) @ enc_i32 (cs_efConstruction cs) @ enc_i32 (cs_num_partitions cs) @ fst fc (cs_lambda cs) @
     le_enc 4 (cs_ef1 cs) @ le_enc 4 (cs_efSearch cs) @ enc_u64 (cs_num_routing cs) @ enc_i32 (cs_num_partitions cs) @
     concat (map ref_bytes (cs_refunction cs)) @ enc_u64 (length (cs_global_to_local cs)) @
     concat (map g2l_bytes (cs_global_to_local cs)) @ storage_bytes fc (cs_shared_flat cs) @
     concat (map (index_hnsw_bytes fc dc False) (cs_partitions cs))"

definition cspg_bytes :: "float_codec \<Rightarrow> float_codec \<Rightarrow> cspg \<Rightarrow> byte list" where
  "cspg_bytes fc dc cs =
     le_enc 4 (fourcc ''ICSP'') @ header_bytes (cs_d cs) (cs_ntotal cs) (cs_is_trained cs) (cs_metric cs) @ cspg_extra_bytes fc dc cs"

section \<open>Writing\<close>

lemma write_refunction_bytes:
  "\<forall>p \<in> set ps. p < length ref \<Longrightarrow> write_refunction ref ps w = Inr (w @ concat (map (\<lambda>p. ref_bytes (ref ! p)) ps))"
  by (induction ps arbitrary: w) (simp_all add: vwrite_def ref_bytes_def Let_def)

lemma write_partitions_bytes:
  "\<forall>p \<in> set ps. p < length parts \<Longrightarrow>
    write_partitions fc dc parts ps w = Inr (w @ concat (map (\<lambda>p. index_hnsw_bytes fc dc False (parts ! p)) ps))"
  by (induction ps arbitrary: w) (simp_all add: write_index_hnsw_bytes)

lemma map_nth_upt: "n = length xs \<Longrightarrow> map (\<lambda>i. f (xs ! i)) [0..<n] = map f xs"
  by (intro nth_equalityI) simp_all

lemma write_cspg_bytes:
  assumes "cspg_file_ok fc dc cs"
  shows "write_index_cspg fc dc cs w = Inr (w @ cspg_bytes fc dc cs)"
proof -
  from assms have l: "length (cs_refunction cs) = cs_num_partitions cs" "length (cs_partitions cs) = cs_num_partitions cs"
    by (simp_all add: cspg_file_ok_def)
  have g: "fold (\<lambda>i w. vwrite (le_enc 8 (snd (xs ! i))) (vwrite (le_enc 4 (fst (xs ! i))) w)) is' w
      = w @ concat (map (\<lambda>i. g2l_bytes (xs ! i)) is')" for w is' and xs :: "(int \<times> int) list"
    by (induction is' arbitrary: w) (simp_all add: vwrite_def g2l_bytes_def)
  note P = write_partitions_bytes[of "[0..<cs_num_partitions cs]" "cs_partitions cs"]
  note R = write_refunction_bytes[of "[0..<cs_num_partitions cs]" "cs_refunction cs"]
  show ?thesis
    unfolding write_index_cspg_def write_index_cspg_extra_def Let_def g write_storage_bytes stored_def
    by (simp add: R P l map_nth_upt write_header_bytes cspg_bytes_def cspg_extra_bytes_def vwrite_def del: upt_Suc)
qed

section \<open>Reading back\<close>

lemma reads_refunction:
  assumes "fits_u64 (length ref)" "\<forall>i \<in> set ref. int i < 2 ^ 63"
  shows "reads read_refunction (ref_bytes ref) ref"
  unfolding read_refunction_def ref_bytes_def
proof (rule reads_bind[OF reads_u64[OF assms(1)]])
  have c: "\<forall>x \<in> set ref. length (enc_u64 x) = 8" by (simp add: enc_u64_def)
  have items: "map sle_dec (split_items 8 (length ref) (concat (map enc_u64 ref))) = map int ref"
    unfolding split_items_concat[OF c] map_map comp_def using assms(2) by (simp add: enc_u64_def sle_dec_i64 fits_i64_def)
  have n: "length (split_items 8 (length ref) (concat (map enc_u64 ref))) = length ref" using arg_cong[OF items, of length] by simp
  have len: "length (concat (map enc_u64 ref)) = 8 * length ref" by (rule length_concat_items[OF c])
  let ?read = "if 0 < length ref
        then (\<lambda>r. case vread 8 (length ref) r of (m, bs, r') \<Rightarrow>
                if m < length ref \<and> exceeds_max_size 8 (length ref) then Inl (StdException ''vector::_M_default_append'')
                else nat_ids (blit 0 (map sle_dec (split_items 8 m bs)) (replicate (length ref) 0)) r')
        else return_parser []"
  show "reads ?read (concat (map enc_u64 ref)) ref"
  proof (cases "ref = []")
    case False
    show ?thesis unfolding reads_def
    proof (intro allI impI)
      fix r rest assume "unread r = concat (map enc_u64 ref) @ rest"
      from vread_exact[OF this len] obtain r' where "vread 8 (length ref) r = (length ref, concat (map enc_u64 ref), r')" "unread r' = rest" by auto
      moreover have "blit 0 (map int ref) (replicate (length ref) 0) = map int ref" by (simp add: blit_def)
      ultimately show "\<exists>r'. ?read r = Inr (ref, r') \<and> unread r' = rest" using False by (simp add: items)
    qed
  qed (simp add: reads_return)
qed

lemma reads_g2l_entry:
  assumes "fits_i32 (fst e)" "fits_i64 (snd e)"
  shows "reads read_g2l_entry (g2l_bytes e) e"
  unfolding read_g2l_entry_def g2l_bytes_def
  by (rule reads_bind[OF reads_i32[OF assms(1)]]) (use reads_bind_return[OF reads_i64[OF assms(2)], of "Pair (fst e)"] in simp)

lemma reads_list:
  assumes "\<forall>v \<in> set vs. reads p (enc v) (f v)" "n = length vs"
  shows "reads (parse_list (replicate n p)) (concat (map enc vs)) (map f vs)"
  unfolding assms(2) using assms(1)
proof (induction vs)
  case (Cons v vs)
  have "reads p (enc v) (f v)" "reads (parse_list (replicate (length vs) p)) (concat (map enc vs)) (map f vs)" using Cons by simp_all
  then show ?case unfolding length_Cons replicate_Suc parse_list.simps list.map concat.simps
    by (intro reads_bind[of p _ "f v"] reads_bind_return[of _ _ _ "Cons (f v)"])
qed (simp add: reads_return)

lemma reads_cspg_index:
  assumes "cspg_file_ok fc dc cs"
  shows "reads (read_index_depth fc dc junk (Suc (Suc (Suc n)))) (cspg_bytes fc dc cs) (CSPG_index (reloaded_cspg cs))"
proof -
  let ?nested = "read_index_depth fc dc junk (Suc (Suc n))"
  note S = assms[unfolded cspg_file_ok_def]
  from S obtain f where f: "cs_shared_flat cs = Some f" "flat_storable fc f" by blast
  have H: "reads read_index_header (header_bytes (cs_d cs) (cs_ntotal cs) (cs_is_trained cs) (cs_metric cs))
      (cs_d cs, cs_ntotal cs, cs_is_trained cs, cs_metric cs)" using S by (intro reads_header) simp_all
  have I: "reads read_i32 (enc_i32 (cs_M cs)) (int (cs_M cs))" "reads read_i32 (enc_i32 (cs_efConstruction cs)) (int (cs_efConstruction cs))"
      "reads read_i32 (enc_i32 (cs_num_partitions cs)) (int (cs_num_partitions cs))"
    using S by (intro reads_enc_i32, simp add: fits_i32_def)+
  have J: "reads read_i32 (le_enc 4 (cs_ef1 cs)) (cs_ef1 cs)" "reads read_i32 (le_enc 4 (cs_efSearch cs)) (cs_efSearch cs)"
    using S by (simp_all add: reads_i32)
  have L: "reads (read1_macro 4 (snd fc)) (fst fc (cs_lambda cs)) (cs_lambda cs)"
    unfolding read1_macro_def using S by (intro reads_read1_checked) (simp_all add: codec_ok_def)
  have N: "reads (read1_macro 8 sle_dec) (enc_u64 (cs_num_routing cs)) (int (cs_num_routing cs))"
    unfolding enc_u64_def using S by (intro reads_i64) (simp add: fits_i64_def)
  have R: "reads (resize_parser (int (cs_num_partitions cs)) (parse_list (replicate (nat (int (cs_num_partitions cs))) read_refunction)))
      (concat (map ref_bytes (cs_refunction cs))) (map (\<lambda>x. x) (cs_refunction cs))"
    unfolding nat_int using S by (intro reads_resize reads_list ballI reads_refunction) simp_all
  have U: "reads read_u64 (enc_u64 (length (cs_global_to_local cs))) (length (cs_global_to_local cs))" using S by (simp add: reads_u64)
  have G: "reads (resized_parser 16 (length (cs_global_to_local cs)) (parse_list (replicate (length (cs_global_to_local cs)) read_g2l_entry))) (concat (map g2l_bytes (cs_global_to_local cs)))
      (map (\<lambda>x. x) (cs_global_to_local cs))"
    using S by (intro reads_resized reads_list ballI reads_g2l_entry) simp_all
  have Z: "nat_fields [int (cs_M cs), int (cs_efConstruction cs), int (cs_num_routing cs)] p = p" for p :: "cspg parser" by simp
  have F: "reads (read_shared_flat ?nested) (storage_bytes fc (cs_shared_flat cs)) f"
    using reads_flat_index[OF f(2), of dc junk "Suc n"] unfolding reads_def read_shared_flat_def storage_bytes_def f(1) bind_parser_def
    by fastforce
  have P: "reads (parse_list (replicate (nat (int (cs_num_partitions cs))) (read_partition ?nested)))
      (concat (map (index_hnsw_bytes fc dc False) (cs_partitions cs))) (map (reloaded_index_hnsw False) (cs_partitions cs))"
    unfolding nat_int
  proof (intro reads_list ballI)
    fix ix assume "ix \<in> set (cs_partitions cs)"
    then have "index_hnsw_storable fc dc ix" using S by simp
    from reads_hnsw_index[OF this, of junk n False]
    show "reads (read_partition ?nested) (index_hnsw_bytes fc dc False ix) (reloaded_index_hnsw False ix)"
      unfolding reads_def read_partition_def bind_parser_def by fastforce
  qed (use S in simp)
  have eq: "IndexCSPG_default\<lparr> cs_d := cs_d cs, cs_ntotal := cs_ntotal cs, cs_is_trained := cs_is_trained cs, cs_metric := cs_metric cs, cs_M := cs_M cs,
      cs_efConstruction := cs_efConstruction cs, cs_num_partitions := cs_num_partitions cs, cs_lambda := cs_lambda cs,
      cs_ef1 := cs_ef1 cs, cs_efSearch := cs_efSearch cs, cs_num_routing := cs_num_routing cs, cs_refunction := cs_refunction cs,
      cs_global_to_local := cs_global_to_local cs, cs_shared_flat := Some f,
      cs_partitions := map (reloaded_index_hnsw False) (cs_partitions cs) \<rparr> = reloaded_cspg cs"
    using f(1) by (cases cs) (simp add: IndexCSPG_default_def reloaded_cspg_def)
  have "reads (read_index_cspg_extra fc ?nested
        (IndexCSPG_default\<lparr> cs_d := cs_d cs, cs_ntotal := cs_ntotal cs, cs_is_trained := cs_is_trained cs, cs_metric := cs_metric cs \<rparr>))
      (cspg_extra_bytes fc dc cs) (reloaded_cspg cs)"
    unfolding read_index_cspg_extra_def cspg_extra_bytes_def
    by (rule reads_bind[OF I(1)], rule reads_bind[OF I(2)], rule reads_bind[OF I(3)], rule reads_bind[OF L], rule reads_bind[OF J(1)],
        rule reads_bind[OF J(2)], rule reads_bind[OF N], rule reads_bind[OF I(3)], rule reads_check, rule refl, rule reads_bind[OF R],
        rule reads_bind[OF U], rule reads_bind[OF G], rule reads_bind[OF F], subst append_Nil2[symmetric], rule reads_bind[OF P])
       (simp only: nat_int map_ident Z eq reads_return)
  then have "reads (read_index_cspg fc ?nested)
      (header_bytes (cs_d cs) (cs_ntotal cs) (cs_is_trained cs) (cs_metric cs) @ cspg_extra_bytes fc dc cs) (reloaded_cspg cs)"
    unfolding read_index_cspg_def by (intro reads_bind[OF H]) simp
  from reads_map_parser[OF this, of CSPG_index] show ?thesis unfolding cspg_bytes_def
    by (intro reads_tag) (simp_all add: fourcc_values read_index_body_def)
qed

end
