(* ===== verification/IndexIOProps.thy ===== *)
theory IndexIOProps
  imports IndexIOCspg IndexHnswProps
begin

text \<open>
  The properties of the generic index files: round trip for every modelled class, what a file that is
  accepted guarantees, and the files that cannot be written.
\<close>

section \<open>Round trip\<close>

fun any_file_ok :: "float_codec \<Rightarrow> float_codec \<Rightarrow> any_index \<Rightarrow> bool" where
  "any_file_ok fc dc Null_index \<longleftrightarrow> True"
| "any_file_ok fc dc (Flat_index f) \<longleftrightarrow> flat_storable fc f"
| "any_file_ok fc dc (SuCo_index ix) \<longleftrightarrow> suco_inv ix \<and> su_is_trained ix \<and> suco_storable fc ix"
| "any_file_ok fc dc (HNSW_index ix) \<longleftrightarrow> index_hnsw_storable fc dc ix"
| "any_file_ok fc dc (SHG_index sg) \<longleftrightarrow> shg_file_ok fc dc sg"
| "any_file_ok fc dc (CSPG_index cs) \<longleftrightarrow> cspg_file_ok fc dc cs"

fun reloaded :: "bool \<Rightarrow> any_index \<Rightarrow> any_index" where
  "reloaded skip_storage (HNSW_index ix) = HNSW_index (reloaded_index_hnsw skip_storage ix)"
| "reloaded skip_storage (SHG_index sg) = SHG_index (reloaded_shg skip_storage sg)"
| "reloaded skip_storage (CSPG_index cs) = CSPG_index (reloaded_cspg cs)"
| "reloaded skip_storage a = a"

fun any_bytes :: "float_codec \<Rightarrow> float_codec \<Rightarrow> bool \<Rightarrow> any_index \<Rightarrow> byte list" where
  "any_bytes fc dc skip_storage Null_index = le_enc 4 (fourcc ''null'')"
| "any_bytes fc dc skip_storage (Flat_index f) = flat_bytes fc f"
| "any_bytes fc dc skip_storage (SuCo_index ix) = le_enc 4 (fourcc ''IxSC'') @ suco_bytes fc ix"
| "any_bytes fc dc skip_storage (HNSW_index ix) = index_hnsw_bytes fc dc skip_storage ix"
| "any_bytes fc dc skip_storage (SHG_index sg) = shg_bytes fc dc skip_storage sg"
| "any_bytes fc dc skip_storage (CSPG_index cs) = cspg_bytes fc dc cs"

lemma write_index_bytes:
  "any_file_ok fc dc a \<Longrightarrow> write_index fc dc skip_storage a w = Inr (w @ any_bytes fc dc skip_storage a)"
  by (cases a) (simp_all add: write_null_def vwrite_def write_flat_bytes write_index_hnsw_bytes write_index_shg_bytes
      write_cspg_bytes suco_write_bytes)

lemma reads_index:
  assumes "any_file_ok fc dc a"
  shows "reads (read_index_depth fc dc junk (Suc (Suc (Suc n)))) (any_bytes fc dc skip_storage a) (reloaded skip_storage a)"
proof (cases a)
  case (SuCo_index ix)
  then have "reads (map_parser SuCo_index (suco_read_index fc junk IndexSuCo_default)) (suco_bytes fc ix) (SuCo_index ix)"
    using assms by (intro reads_map_parser reads_suco) simp_all
  then show ?thesis unfolding SuCo_index any_bytes.simps reloaded.simps
    by (intro reads_tag) (simp_all add: fourcc_values read_index_body_def)
qed (use assms reads_null reads_flat_index reads_hnsw_index reads_shg_index reads_cspg_index in simp_all)

lemma any_bytes_length: "4 \<le> length (any_bytes fc dc skip_storage a)"
  by (cases a) (simp_all add: flat_bytes_def index_hnsw_bytes_def shg_bytes_def cspg_bytes_def Let_def)

lemma read_index_back:
  assumes "any_file_ok fc dc a" "unread r = any_bytes fc dc skip_storage a @ rest"
  shows "\<exists>r'. read_index fc dc junk r = Inr (reloaded skip_storage a, r') \<and> unread r' = rest"
proof -
  have "3 \<le> length (unread r)" using assms(2) any_bytes_length[of fc dc skip_storage a] by simp
  then obtain n where "length (unread r) = 3 + n" by (auto dest: le_Suc_ex)
  then have n: "length (unread r) = Suc (Suc (Suc n))" by simp
  show ?thesis using reads_index[OF assms(1), of junk n skip_storage] assms(2) unfolding read_index_def n reads_def by blast
qed

text \<open>The fields that a file does not keep have their initial values.\<close>

definition hnsw_defaults :: "index_hnsw \<Rightarrow> bool" where
  "hnsw_defaults ix \<longleftrightarrow> hn_check_relative_distance (ih_hnsw ix) \<and> hn_search_bounded_queue (ih_hnsw ix) \<and> ih_init_level0 ix \<and>
     \<not> ih_keep_max_size_level0 ix \<and> ih_use_visited_hashset ix = None"

fun any_defaults :: "any_index \<Rightarrow> bool" where
  "any_defaults (HNSW_index ix) \<longleftrightarrow> hnsw_defaults ix"
| "any_defaults (SHG_index sg) \<longleftrightarrow> hnsw_defaults (sg_base sg)"
| "any_defaults (CSPG_index cs) \<longleftrightarrow> (\<forall>ix \<in> set (cs_partitions cs). hnsw_defaults ix)"
| "any_defaults a \<longleftrightarrow> True"

lemma reloaded_hnsw_defaults: "hnsw_defaults ix \<Longrightarrow> reloaded_index_hnsw False ix = ix"
  by (cases ix, cases "ih_hnsw ix") (simp add: hnsw_defaults_def reloaded_index_hnsw_def reloaded_hnsw_def stored_def)

lemma reloaded_defaults: "any_defaults a \<Longrightarrow> reloaded False a = a"
  by (cases a) (simp_all add: reloaded_hnsw_defaults reloaded_shg_def reloaded_cspg_def map_idI)

text \<open>The invariants of the indexes do not speak of those fields.\<close>

fun any_ok :: "any_index \<Rightarrow> bool" where
  "any_ok Null_index \<longleftrightarrow> True"
| "any_ok (Flat_index f) \<longleftrightarrow> flat_ok f"
| "any_ok (SuCo_index ix) \<longleftrightarrow> suco_inv ix"
| "any_ok (HNSW_index ix) \<longleftrightarrow> index_hnsw_ok ix"
| "any_ok (SHG_index sg) \<longleftrightarrow> shg_ok sg"
| "any_ok (CSPG_index cs) \<longleftrightarrow> cspg_ok cs"

lemma reloaded_built [simp]: "built (reloaded_hnsw h) I = built h I"
  by (simp add: reloaded_hnsw_def built_def linkable_def layout_ok_def cum_pos_def links_ok_def level_ok_def on_level_def
      nbrs_def slot_def neighbor_range_def cum_nb_neighbors_def)

lemma reloaded_fields [simp]:
  "hn_levels (reloaded_hnsw h) = hn_levels h" "probas_ok (reloaded_hnsw h) = probas_ok h" "seglen (reloaded_hnsw h) l = seglen h l"
  by (simp_all add: reloaded_hnsw_def probas_ok_def seglen_def)

lemma reloaded_index_fields [simp]:
  "ih_d (reloaded_index_hnsw s ix) = ih_d ix" "ih_ntotal (reloaded_index_hnsw s ix) = ih_ntotal ix"
  "ih_hnsw (reloaded_index_hnsw s ix) = reloaded_hnsw (ih_hnsw ix)" "ih_storage (reloaded_index_hnsw False ix) = ih_storage ix"
  "ih_metric (reloaded_index_hnsw s ix) = ih_metric ix" "ih_is_trained (reloaded_index_hnsw s ix) = ih_is_trained ix"
  "ih_init_level0 (reloaded_index_hnsw s ix)"
  by (simp_all add: reloaded_index_hnsw_def stored_def)

lemma reloaded_index_hnsw_ok: "index_hnsw_ok ix \<Longrightarrow> index_hnsw_ok (reloaded_index_hnsw False ix)"
  by (cases "ih_storage ix") (simp_all add: index_hnsw_ok_def)

lemma reloaded_shg_fields [simp]:
  "params_ok (reloaded_shg s sg) = params_ok sg" "compressed_ok (reloaded_shg s sg) = compressed_ok sg"
  "sg_base (reloaded_shg s sg) = reloaded_index_hnsw s (sg_base sg)" "sg_eta (reloaded_shg s sg) = sg_eta sg"
  "sg_maxFixLevel (reloaded_shg s sg) = sg_maxFixLevel sg" "sg_shortcut (reloaded_shg s sg) = sg_shortcut sg"
  unfolding params_ok_def compressed_ok_def fun_eq_iff by (simp_all add: reloaded_shg_def del: upt_Suc)

lemma reloaded_ok: "any_ok a \<Longrightarrow> any_ok (reloaded False a)"
proof (cases a)
  case (SHG_index sg)
  assume "any_ok a"
  with SHG_index show ?thesis
    by (simp add: shg_ok_def reloaded_index_hnsw_ok)
next
  case (CSPG_index cs)
  assume "any_ok a"
  with CSPG_index show ?thesis by (simp add: cspg_ok_def reloaded_cspg_def part_ok_def)
qed (simp_all add: reloaded_index_hnsw_ok)

text \<open>C7. The generic index files, for a null index, \<open>IndexFlat\<close>, \<open>IndexSuCo\<close>, \<open>IndexHNSWFlat\<close>, \<open>IndexSHG\<close> and
  \<open>IndexCSPG\<close> whose fields fit their stored types: \<open>write_index\<close> succeeds, and \<open>read_index\<close> reads exactly what
  it wrote, in front of any further content of the stream. The index that is read is the one that was
  written, except that the flags that are not stored have their default values and that a storage that was
  skipped is missing; it is well-formed when the first one was.\<close>

theorem index_io_roundtrip:
  assumes "any_file_ok fc dc a"
  shows "(\<exists>bytes. write_index fc dc skip_storage a [] = Inr bytes \<and>
      (\<forall>rest. \<exists>r'. read_index fc dc junk (open_reader (bytes @ rest)) = Inr (reloaded skip_storage a, r') \<and> unread r' = rest)) \<and>
    (any_defaults a \<longrightarrow> reloaded False a = a) \<and> (any_ok a \<longrightarrow> any_ok (reloaded False a))"
  using write_index_bytes[OF assms, of skip_storage "[]"] read_index_back[OF assms, of _ skip_storage _ junk] reloaded_defaults reloaded_ok
  by simp

section \<open>What an accepted file guarantees\<close>

text \<open>Every value that a parser returns has the property \<open>Q\<close>.\<close>

definition yields :: "'a parser \<Rightarrow> ('a \<Rightarrow> bool) \<Rightarrow> bool" where
  "yields p Q \<longleftrightarrow> (\<forall>r x r'. p r = Inr (x, r') \<longrightarrow> Q x)"

lemma yields_True [simp]: "yields p (\<lambda>x. True)"
  by (simp add: yields_def)

lemma yields_return: "Q x \<Longrightarrow> yields (return_parser x) Q"
  by (simp add: yields_def return_parser_def)

lemma yields_bind: "yields p P \<Longrightarrow> (\<And>x. P x \<Longrightarrow> yields (k x) Q) \<Longrightarrow> yields (bind_parser p k) Q"
  unfolding yields_def bind_parser_Inr by blast

lemma yields_bind_any: "(\<And>x. yields (k x) Q) \<Longrightarrow> yields (bind_parser p k) Q"
  by (rule yields_bind[of _ "\<lambda>_. True"]) simp_all

lemma yields_check: "(c \<Longrightarrow> yields p Q) \<Longrightarrow> yields (check_parser c msg p) Q"
  by (simp add: yields_def check_parser_def throw_unless_def)

lemma yields_resize: "yields p Q \<Longrightarrow> yields (resize_parser n p) Q"
  by (simp add: yields_def resize_parser_def)

lemma yields_lift: "(\<And>m. c = Inr m \<Longrightarrow> yields (k m) Q) \<Longrightarrow> yields (\<lambda>r. bind_result c (\<lambda>m. k m r)) Q"
  by (auto simp: yields_def bind_result_eq_Inr)

lemma yields_map: "yields p P \<Longrightarrow> (\<And>x. P x \<Longrightarrow> Q (f x)) \<Longrightarrow> yields (map_parser f p) Q"
  unfolding map_parser_def by (erule yields_bind) (simp add: yields_return)

lemma yields_list:
  assumes "yields p Q"
  shows "yields (parse_list (replicate n p)) (\<lambda>xs. length xs = n \<and> (\<forall>x \<in> set xs. Q x))"
proof (induction n)
  case (Suc n)
  show ?case unfolding replicate_Suc parse_list.simps
    by (rule yields_bind[OF assms], rule yields_bind[OF Suc], rule yields_return) simp
qed (simp add: yields_return)

lemma yields_array: "yields (read_array_checked msg sz dec n) (\<lambda>xs. length xs = n)"
proof -
  have "length (split_items sz m bs) = m" for m and bs :: "byte list" by (induction m arbitrary: bs) simp_all
  then show ?thesis by (auto simp: yields_def read_array_checked_def throw_unless_def split: prod.splits)
qed

lemma yields_resized: "yields p P \<Longrightarrow> yields (resized_parser sz n p) P"
  by (auto simp: yields_def resized_parser_def split: sum.splits)

lemma yields_nat_fields: "yields p P \<Longrightarrow> yields (nat_fields vs p) P"
  by (auto simp: yields_def nat_fields_Inr)

text \<open>What the checks of the readers establish.\<close>

definition accepted_flat :: "flat \<Rightarrow> bool" where
  "accepted_flat f \<longleftrightarrow> fl_d f \<le> 2 ^ 20 \<and> 4 * length (fl_codes f) = fl_ntotal f * (fl_d f * 4) mod 2 ^ 64"

definition accepted_hnsw :: "index_hnsw \<Rightarrow> bool" where
  "accepted_hnsw ix \<longleftrightarrow> ih_d ix \<le> 2 ^ 20 \<and> hnsw_in_bounds (ih_hnsw ix) \<and> (\<forall>f. ih_storage ix = Some f \<longrightarrow> accepted_flat f)"

definition accepted_suco :: "suco \<Rightarrow> bool" where
  "accepted_suco ix \<longleftrightarrow> 0 < su_d ix \<and> 0 < nsubspaces ix \<and> nsubspaces ix \<le> 255 \<and> 0 < ncentroids_half ix \<and>
     nsubspaces ix * subspace_dim ix = su_d ix \<and> 2 * half_dim ix = subspace_dim ix \<and> su_is_trained ix \<and>
     length (centroids ix) = nS ix * 2 * nC ix * halfd ix \<and>
     length (inv_lists ix) = nS ix \<and> (\<forall>t \<in> set (inv_lists ix). length t = nC ix * nC ix)"

definition accepted_cspg :: "cspg \<Rightarrow> bool" where
  "accepted_cspg cs \<longleftrightarrow> cs_d cs \<le> 2 ^ 20 \<and> (\<exists>f. cs_shared_flat cs = Some f \<and> accepted_flat f) \<and>
     length (cs_refunction cs) = cs_num_partitions cs \<and> length (cs_partitions cs) = cs_num_partitions cs \<and>
     (\<forall>ix \<in> set (cs_partitions cs). accepted_hnsw ix)"

fun accepted :: "any_index \<Rightarrow> bool" where
  "accepted Null_index \<longleftrightarrow> True"
| "accepted (Flat_index f) \<longleftrightarrow> accepted_flat f"
| "accepted (SuCo_index ix) \<longleftrightarrow> accepted_suco ix"
| "accepted (HNSW_index ix) \<longleftrightarrow> accepted_hnsw ix"
| "accepted (SHG_index sg) \<longleftrightarrow> accepted_hnsw (sg_base sg)"
| "accepted (CSPG_index cs) \<longleftrightarrow> accepted_cspg cs"

lemma yields_header: "yields read_index_header (\<lambda>(d, _). d \<le> 2 ^ 20)"
  unfolding read_index_header_def
  by (intro yields_bind_any yields_check yields_lift yields_return) (simp add: nat_le_iff)

lemma yields_flat: "yields (read_index_flat fc) accepted_flat"
  unfolding read_index_flat_def
proof (rule yields_bind[OF yields_header])
  fix hd' :: "nat \<times> nat \<times> bool \<times> metric" assume d: "case hd' of (d, _) \<Rightarrow> d \<le> 2 ^ 20"
  obtain d n t m where h: "hd' = (d, n, t, m)" by (cases hd')
  show "yields (case hd' of (d, ntotal, _, m) \<Rightarrow> bind_parser (read_xb_vector fc) (\<lambda>codes.
      check_parser (4 * length codes = ntotal * (d * 4) mod 2 ^ 64) ''Error: 'idxf->codes.size() == idxf->ntotal * idxf->code_size' failed''
        (return_parser \<lparr> fl_d = d, fl_metric = m, fl_ntotal = ntotal, fl_codes = codes \<rparr>))) accepted_flat"
    unfolding h prod.case using d
    by (intro yields_bind_any yields_check yields_return) (simp add: accepted_flat_def h)
qed

lemma yields_suco: "yields (suco_read_index fc junk old) accepted_suco"
proof -
  have body: "yields (suco_read_body fc ix)
      (\<lambda>y. \<exists>cents ils xb. y = ix\<lparr> centroids := cents, inv_lists := ils, su_xb := xb, su_is_trained := True \<rparr> \<and>
        length cents = nS ix * 2 * nC ix * halfd ix \<and> length ils = nS ix \<and> (\<forall>t \<in> set ils. length t = nC ix * nC ix))" for ix
    unfolding suco_read_body_def
  proof (rule yields_bind[OF yields_resized[OF yields_array]], rule yields_bind[OF yields_list[OF yields_list[OF yields_True]]],
      rule yields_bind_any, rule yields_bind_any, rule yields_return)
  qed blast
  have checks: "yields (suco_read_checks fc ix) accepted_suco" for ix
    unfolding suco_read_checks_def Let_def
  proof (intro yields_check)
    let ?ix = "ix\<lparr> subspace_dim := su_d ix div nsubspaces ix, half_dim := su_d ix div nsubspaces ix div 2 \<rparr>"
    assume c: "0 < su_d ix" "0 < nsubspaces ix" "nsubspaces ix \<le> 255" "0 < ncentroids_half ix" "su_d ix mod nsubspaces ix = 0"
      "subspace_dim ?ix mod 2 = 0"
    have "nsubspaces ix * (su_d ix div nsubspaces ix) = su_d ix" "2 * (su_d ix div nsubspaces ix div 2) = su_d ix div nsubspaces ix"
      using c(5,6) by (auto simp: mult_div_mod_eq minus_mod_eq_mult_div[symmetric])
    then show "yields (suco_read_body fc ?ix) accepted_suco"
      using body[of ?ix] c(1-4) unfolding yields_def accepted_suco_def by fastforce
  qed
  show ?thesis unfolding suco_read_index_def by (intro yields_bind_any yields_check checks)
qed

lemma yields_hnsw: "yields (read_HNSW dc h) hnsw_in_bounds"
  by (simp add: yields_def read_HNSW_accepts)

lemma yields_graph_and_storage:
  assumes "yields nested accepted" "ih_d ix0 \<le> 2 ^ 20"
  shows "yields (read_graph_and_storage dc nested ix0) accepted_hnsw"
  unfolding read_graph_and_storage_def
proof (rule yields_bind[OF yields_hnsw], rule yields_bind[OF assms(1)], rule yields_lift, rule yields_return)
  fix h a s assume "hnsw_in_bounds h" "accepted a" "storage_of a = Inr s"
  then show "accepted_hnsw (ix0\<lparr> ih_hnsw := h, ih_storage := s \<rparr>)"
    using assms(2) by (cases a) (auto simp: accepted_hnsw_def)
qed

lemma set_header_d: "(case hd' of (d, _) \<Rightarrow> d \<le> 2 ^ 20) \<Longrightarrow> ih_d (set_header hd' ix) \<le> 2 ^ 20"
  by (cases hd') (simp add: set_header_def)

lemma yields_index_hnsw: "yields nested accepted \<Longrightarrow> yields (read_index_hnsw dc nested) accepted_hnsw"
  unfolding read_index_hnsw_def
  by (rule yields_bind[OF yields_header]) (intro yields_graph_and_storage set_header_d)

lemma yields_shg_extra: "yields (read_index_shg_extra fc idx) (\<lambda>sg. sg_base sg = sg_base idx)"
  unfolding read_index_shg_extra_def read_shortcut_def by (intro yields_bind_any yields_nat_fields yields_check yields_return) simp

lemma yields_index_shg:
  assumes "yields nested accepted"
  shows "yields (read_index_shg fc dc nested) (\<lambda>sg. accepted_hnsw (sg_base sg))"
  unfolding read_index_shg_def
proof (rule yields_bind[OF yields_header], rule yields_bind[OF yields_shg_extra])
  fix hd' :: "nat \<times> nat \<times> bool \<times> metric" and sg
  assume "case hd' of (d, _) \<Rightarrow> d \<le> 2 ^ 20"
    "sg_base sg = sg_base (IndexSHG_default\<lparr> sg_base := set_header hd' IndexHNSWFlat_default \<rparr>)"
  then have "ih_d (sg_base sg) \<le> 2 ^ 20" using set_header_d[of hd' IndexHNSWFlat_default] by simp
  from yields_graph_and_storage[OF assms this]
  show "yields (bind_parser (read_graph_and_storage dc nested (sg_base sg)) (\<lambda>ix. return_parser (sg\<lparr> sg_base := ix \<rparr>)))
      (\<lambda>sg. accepted_hnsw (sg_base sg))"
    by (rule yields_bind) (simp add: yields_return)
qed

lemma yields_shared_flat: "yields nested accepted \<Longrightarrow> yields (read_shared_flat nested) accepted_flat"
  unfolding read_shared_flat_def by (erule yields_bind) (auto simp: yields_def split: any_index.splits)

lemma yields_partition: "yields nested accepted \<Longrightarrow> yields (read_partition nested) accepted_hnsw"
  unfolding read_partition_def by (erule yields_bind) (auto simp: yields_def split: any_index.splits)

lemma yields_index_cspg:
  assumes "yields nested accepted"
  shows "yields (read_index_cspg fc nested) accepted_cspg"
  unfolding read_index_cspg_def
proof (rule yields_bind[OF yields_header])
  fix hd' :: "nat \<times> nat \<times> bool \<times> metric" assume d: "case hd' of (d, _) \<Rightarrow> d \<le> 2 ^ 20"
  obtain d n t m where h: "hd' = (d, n, t, m)" by (cases hd')
  have "yields (read_index_cspg_extra fc nested cs) accepted_cspg" if "cs_d cs \<le> 2 ^ 20" for cs
    unfolding read_index_cspg_extra_def
    apply (rule yields_bind_any, rule yields_bind_any, rule yields_bind_any, rule yields_bind_any, rule yields_bind_any)
    apply (rule yields_bind_any, rule yields_bind_any, rule yields_bind_any, rule yields_check)
    apply (rule yields_bind[OF yields_resize[OF yields_list[OF yields_True]]], rule yields_bind_any, rule yields_bind_any)
    apply (rule yields_bind[OF yields_shared_flat[OF assms]], rule yields_bind[OF yields_list[OF yields_partition[OF assms]]])
    using that by (intro yields_nat_fields yields_return) (simp add: accepted_cspg_def)
  then show "yields (case hd' of (d, ntotal, tr, m) \<Rightarrow>
      read_index_cspg_extra fc nested (IndexCSPG_default\<lparr> cs_d := d, cs_ntotal := ntotal, cs_is_trained := tr, cs_metric := m \<rparr>)) accepted_cspg"
    using d by (simp add: h)
qed

lemma yields_body:
  assumes "yields nested accepted"
  shows "yields (read_index_body fc dc junk nested h) accepted"
proof -
  have e: "yields (\<lambda>r. Inl e) accepted" for e by (simp add: yields_def)
  have m: "yields (map_parser Flat_index (read_index_flat fc)) accepted"
    "yields (map_parser SuCo_index (suco_read_index fc junk IndexSuCo_default)) accepted"
    "yields (map_parser CSPG_index (read_index_cspg fc nested)) accepted"
    "yields (map_parser SHG_index (read_index_shg fc dc nested)) accepted"
    "yields (map_parser HNSW_index (read_index_hnsw dc nested)) accepted"
    by (rule yields_map[OF yields_flat] yields_map[OF yields_suco] yields_map[OF yields_index_cspg[OF assms]]
        yields_map[OF yields_index_shg[OF assms]] yields_map[OF yields_index_hnsw[OF assms]]; simp)+
  have n: "yields (return_parser Null_index) accepted" by (simp add: yields_return)
  have ite: "yields p accepted \<Longrightarrow> yields q accepted \<Longrightarrow> yields (if c then p else q) accepted" for c p q by simp
  show ?thesis unfolding read_index_body_def by (intro ite e m n)
qed

lemma yields_depth: "yields (read_index_depth fc dc junk n) accepted"
proof (induction n)
  case 0
  show ?case by (simp add: yields_def read_index_depth.simps)
next
  case (Suc n)
  show ?case unfolding read_index_depth.simps by (rule yields_bind_any) (rule yields_body[OF Suc])
qed

text \<open>C8. Every index that \<open>read_index\<close> returns, from any bytes, has passed the checks: the dimension is at
  most \<open>2 ^ 20\<close>; in every graph all levels, offsets, neighbors and the entry point stay inside the arrays for
  every vertex on each of its levels; the parameters of an \<open>IndexSuCo\<close> divide its dimension and its tables
  have the sizes that belong to them; an \<open>IndexCSPG\<close> has a shared storage and as many mappings and graphs as
  partitions; and the codes of a flat storage have the stated number of bytes up to a multiple of \<open>2 ^ 64\<close>.\<close>

theorem read_index_accepts:
  assumes "read_index fc dc junk r = Inr (a, r')"
  shows "accepted a"
  using yields_depth[of fc dc junk "length (unread r)"] assms unfolding read_index_def yields_def by blast

section \<open>Files that cannot be written or read\<close>

lemma write_refunction_out_of_bounds:
  "\<exists>p \<in> set ps. \<not> p < length ref \<Longrightarrow> write_refunction ref ps w = Inl OutOfBounds"
  by (induction ps arbitrary: w) (auto simp: Let_def)

lemma write_partitions_out_of_bounds:
  "\<exists>p \<in> set ps. \<not> p < length parts \<Longrightarrow> write_partitions fc dc parts ps w = Inl OutOfBounds"
  by (induction ps arbitrary: w) auto

lemma write_cspg_iff:
  "(\<exists>bytes. write_index_cspg fc dc cs w = Inr bytes) \<longleftrightarrow>
    cs_num_partitions cs \<le> length (cs_refunction cs) \<and> cs_num_partitions cs \<le> length (cs_partitions cs)"
  "write_index_cspg fc dc cs w \<noteq> Inl OutOfBounds \<Longrightarrow> \<exists>bytes. write_index_cspg fc dc cs w = Inr bytes"
proof -
  let ?np = "cs_num_partitions cs"
  have r: "write_refunction (cs_refunction cs) [0..<?np] w = (if ?np \<le> length (cs_refunction cs)
      then Inr (w @ concat (map (\<lambda>p. ref_bytes (cs_refunction cs ! p)) [0..<?np])) else Inl OutOfBounds)" for w
    by (cases "?np \<le> length (cs_refunction cs)")
      (auto intro!: write_refunction_bytes write_refunction_out_of_bounds bexI[of _ "?np - 1"])
  have p: "write_partitions fc dc (cs_partitions cs) [0..<?np] w = (if ?np \<le> length (cs_partitions cs)
      then Inr (w @ concat (map (\<lambda>p. index_hnsw_bytes fc dc False (cs_partitions cs ! p)) [0..<?np])) else Inl OutOfBounds)" for w
    by (cases "?np \<le> length (cs_partitions cs)")
      (auto intro!: write_partitions_bytes write_partitions_out_of_bounds bexI[of _ "?np - 1"])
  show "(\<exists>bytes. write_index_cspg fc dc cs w = Inr bytes) \<longleftrightarrow> ?np \<le> length (cs_refunction cs) \<and> ?np \<le> length (cs_partitions cs)"
    "write_index_cspg fc dc cs w \<noteq> Inl OutOfBounds \<Longrightarrow> \<exists>bytes. write_index_cspg fc dc cs w = Inr bytes"
    by (auto simp: write_index_cspg_def write_index_cspg_extra_def Let_def r p split: if_splits)
qed

text \<open>C9. Files that fail. An \<open>IndexCSPG\<close> can be written exactly when it has a mapping and a graph for every
  partition; otherwise \<open>write_index\<close> leaves the array of mappings or graphs, so in particular for a new index
  and after \<open>reset\<close>, before vectors were added. A stream shorter than a tag and a stream with a tag that belongs to no
  class are rejected with an exception.\<close>

theorem index_file_errors:
  assumes "IndexCSPG dm M np lam m = Inr cs0" "0 \<le> h" "h < 2 ^ 32"
    "h \<notin> fourcc ` set ([''null'', ''IxFI'', ''IxF2'', ''IxFl'', ''IxSC'', ''ICSP'', ''ISHG'', ''IHNf''] @ other_tags)" "length bs < 4"
  shows "((\<exists>bytes. write_index fc dc skip_storage (CSPG_index cs) w = Inr bytes) \<longleftrightarrow>
        cs_num_partitions cs \<le> length (cs_refunction cs) \<and> cs_num_partitions cs \<le> length (cs_partitions cs)) \<and>
    (write_index fc dc skip_storage (CSPG_index cs) w \<noteq> Inl OutOfBounds \<longrightarrow>
        (\<exists>bytes. write_index fc dc skip_storage (CSPG_index cs) w = Inr bytes)) \<and>
    write_index fc dc skip_storage (CSPG_index cs0) w = Inl OutOfBounds \<and>
    (0 < cs_num_partitions cs \<longrightarrow> write_index fc dc skip_storage (CSPG_index (cspg_reset cs)) w = Inl OutOfBounds) \<and>
    read_index fc dc junk (open_reader bs) = Inl (FaissException ''read error in %s: %zd != %zd (%s)'') \<and>
    read_index fc dc junk (open_reader (le_enc 4 h @ rest)) = Inl (FaissException ''Index type 0x%08x (\"%s\") not recognized'')"
proof -
  have none: "write_index_cspg fc dc cs' w = Inl OutOfBounds" if "cs_refunction cs' = []" "0 < cs_num_partitions cs'" for cs'
    using write_cspg_iff[of fc dc cs' w] that by auto
  have "cs_refunction cs0 = []" "0 < cs_num_partitions cs0"
    using assms(1) by (auto simp: IndexCSPG_def throw_unless_def split: if_splits)
  moreover have "cs_refunction (cspg_reset cs) = []" "cs_num_partitions (cspg_reset cs) = cs_num_partitions cs" by (simp_all add: cspg_reset_def)
  moreover have "read_index fc dc junk (open_reader bs) = Inl (FaissException ''read error in %s: %zd != %zd (%s)'')"
  proof (cases "length bs")
    case (Suc n)
    have "vread 4 1 (open_reader bs) = (fst (vread 4 1 (open_reader bs)), snd (vread 4 1 (open_reader bs)))" by simp
    moreover have "fst (vread 4 1 (open_reader bs)) \<noteq> 1" using assms(5) by (simp add: vread_def open_reader_def)
    ultimately obtain n' bs' r'' where "vread 4 1 (open_reader bs) = (n', bs', r'')" "n' \<noteq> 1" by (metis prod.collapse)
    then show ?thesis
      by (simp add: read_index_def Suc read_index_depth.simps read1_macro_def read1_checked_def bind_parser_def)
  qed (simp add: read_index_def read_index_depth.simps)
  moreover have "read_index fc dc junk (open_reader (le_enc 4 h @ rest)) = Inl (FaissException ''Index type 0x%08x (\"%s\") not recognized'')"
  proof -
    have u: "unread (open_reader (le_enc 4 h @ rest)) = le_enc 4 h @ rest" by simp
    obtain r' where v: "vread 4 1 (open_reader (le_enc 4 h @ rest)) = (1, le_enc 4 h, r')" using vread_exact[OF u, of 4 1] by auto
    have d: "le_dec (le_enc 4 h) = h" using assms(2,3) by (simp add: le_dec_enc_unsigned)
    have b: "read_index_body fc dc junk nested h r = Inl (FaissException ''Index type 0x%08x (\"%s\") not recognized'')" for nested r
      using assms(4) unfolding read_index_body_def by (auto simp: image_iff)
    have l: "length (unread (open_reader (le_enc 4 h @ rest))) = Suc (3 + length rest)" by simp
    show ?thesis
      unfolding read_index_def l read_index_depth.simps bind_parser_def read1_macro_def read1_checked_def v
      by (simp add: d b)
  qed
  ultimately show ?thesis using none write_cspg_iff[of fc dc cs w] by simp
qed

section \<open>Examples and limits of the checks\<close>

definition file_double :: float_codec where
  "file_double = (\<lambda>x. [0, 0, 0, 0, 0, 0, 240, 63], \<lambda>b. 1)"

text \<open>Two vectors, 1/2 and 1, linked to each other.\<close>

definition file_graph :: hnsw where
  "file_graph = HNSW_empty\<lparr> hn_assign_probas := [1], hn_cum := [0, 2], hn_levels := [1, 1], hn_offsets := [0, 2, 4],
     hn_neighbors := [1, -1, 0, -1], hn_entry_point := 0, hn_max_level := 0 \<rparr>"

definition file_hnsw :: index_hnsw where
  "file_hnsw = IndexHNSWFlat_default\<lparr> ih_d := 1, ih_ntotal := 2, ih_hnsw := file_graph,
     ih_storage := Some \<lparr> fl_d = 1, fl_metric = METRIC_L2, fl_ntotal = 2, fl_codes = [1 / 2, 1] \<rparr> \<rparr>"

definition file_cspg :: cspg where
  "file_cspg = IndexCSPG_default\<lparr> cs_d := 1, cs_ntotal := 2, cs_num_partitions := 1,
     cs_shared_flat := Some \<lparr> fl_d = 1, fl_metric = METRIC_L2, fl_ntotal = 2, fl_codes = [1 / 2, 1] \<rparr>,
     cs_refunction := [[0, 1]], cs_global_to_local := [(0, 0), (0, 1)], cs_num_routing := 1,
     cs_partitions := [file_hnsw\<lparr> ih_storage := Some (IndexFlat 1 METRIC_L2) \<rparr>] \<rparr>"

lemma file_graph_ok: "graph_ok file_graph"
proof -
  have on: "on_level file_graph l i \<longleftrightarrow> l = 0 \<and> i < 2" for l i
    by (cases "i = 0"; cases "i = 1") (auto simp: on_level_def file_graph_def)
  have s: "slot file_graph 0 0 = [1, -1]" "slot file_graph (Suc 0) 0 = [0, -1]"
    by (simp_all add: slot_def neighbor_range_def cum_nb_neighbors_def file_graph_def slice_def)
  have p: "packed [1, -1 :: int]" "packed [0, -1 :: int]"
    unfolding packed_def by (rule exI[of _ "[1]"], rule exI[of _ 1], simp) (rule exI[of _ "[0]"], rule exI[of _ 1], simp)
  have "links_ok file_graph" unfolding links_ok_def on using s p by (auto simp: less_2_cases_iff nbrs_def)
  moreover have "layout_ok file_graph"
    by (simp add: layout_ok_def cum_ok_def file_graph_def less_Suc_eq numeral_2_eq_2)
  moreover have "entry_ok file_graph" unfolding entry_ok_def on by (simp add: file_graph_def)
  ultimately show ?thesis by (simp add: graph_ok_def)
qed

lemma file_storable:
  "index_hnsw_storable demo_codec file_double file_hnsw" "cspg_file_ok demo_codec file_double file_cspg"
proof -
  have g: "hnsw_storable file_double file_graph"
    by (simp add: hnsw_storable_def codec8_ok_def file_double_def file_graph_def HNSW_empty_def)
  have f: "flat_storable demo_codec \<lparr> fl_d = 1, fl_metric = METRIC_L2, fl_ntotal = 2, fl_codes = [1 / 2, 1] \<rparr>"
    "flat_storable demo_codec (IndexFlat 1 METRIC_L2)"
    by (simp_all add: flat_storable_def flat_ok_def codec_ok_def demo_codec_def IndexFlat_def)
  show h: "index_hnsw_storable demo_codec file_double file_hnsw"
    using g f file_graph_ok by (simp add: index_hnsw_storable_def file_hnsw_def)
  with f show "cspg_file_ok demo_codec file_double file_cspg"
    by (simp add: cspg_file_ok_def file_cspg_def IndexCSPG_default_def index_hnsw_storable_def file_hnsw_def fits_i32_def
        fits_i64_def fits_u64_def codec_ok_def demo_codec_def)
qed

lemma file_defaults: "any_defaults (CSPG_index file_cspg)"
  by (simp add: hnsw_defaults_def file_cspg_def file_hnsw_def file_graph_def IndexHNSWFlat_default_def HNSW_empty_def)

theorem index_io_roundtrip_witness:
  "\<exists>bytes r'. write_index demo_codec file_double False (CSPG_index file_cspg) [] = Inr bytes \<and>
     read_index demo_codec file_double 0 (open_reader (bytes @ [1, 2, 3])) = Inr (CSPG_index file_cspg, r') \<and> unread r' = [1, 2, 3]"
  using index_io_roundtrip[of demo_codec file_double "CSPG_index file_cspg" False 0] file_storable(2) file_defaults
  by fastforce

theorem read_index_accepts_witness:
  "\<exists>r r'. read_index demo_codec file_double 0 r = Inr (HNSW_index (reloaded_index_hnsw True file_hnsw), r') \<and>
     accepted (HNSW_index (reloaded_index_hnsw True file_hnsw))"
proof -
  let ?r = "open_reader (any_bytes demo_codec file_double True (HNSW_index file_hnsw))"
  obtain r' where r: "read_index demo_codec file_double 0 ?r = Inr (HNSW_index (reloaded_index_hnsw True file_hnsw), r')"
    using read_index_back[of demo_codec file_double "HNSW_index file_hnsw" ?r True "[]" 0] file_storable(1) by auto
  with read_index_accepts[OF r] show ?thesis by blast
qed

theorem index_file_errors_witness:
  "\<exists>cs0. IndexCSPG 1 1 2 (1 / 2) METRIC_L2 = Inr cs0 \<and>
     write_index demo_codec file_double False (CSPG_index cs0) [] = Inl OutOfBounds \<and>
     read_index demo_codec file_double 0 (open_reader (le_enc 4 7 @ [1])) = Inl (FaissException ''Index type 0x%08x (\"%s\") not recognized'')"
proof -
  obtain cs0 where c: "IndexCSPG 1 1 2 (1 / 2) METRIC_L2 = Inr cs0" by (simp add: IndexCSPG_def)
  have "(7 :: int) \<notin> fourcc ` set ([''null'', ''IxFI'', ''IxF2'', ''IxFl'', ''IxSC'', ''ICSP'', ''ISHG'', ''IHNf''] @ other_tags)"
    by code_simp
  from index_file_errors[OF c _ _ this, of "[]" demo_codec file_double False cs0 "[]" 0 "[1]"] c show ?thesis by simp
qed

text \<open>The check of the sizes of a flat storage multiplies in 64 bits: this file claims \<open>2 ^ 62\<close> vectors of
  dimension 1 and holds none, and it is read.\<close>

lemma flat_size_check_wraps:
  "\<exists>f r'. read_index fc dc junk
      (open_reader (le_enc 4 (fourcc ''IxF2'') @ header_bytes 1 (2 ^ 62) True METRIC_L2 @ enc_u64 0)) = Inr (Flat_index f, r') \<and>
    fl_ntotal f = 2 ^ 62 \<and> fl_codes f = []"
proof -
  let ?f = "\<lparr> fl_d = 1, fl_metric = METRIC_L2, fl_ntotal = 2 ^ 62, fl_codes = [] \<rparr>"
  have h: "reads read_index_header (header_bytes 1 (2 ^ 62) True METRIC_L2) (1, 2 ^ 62, True, METRIC_L2)" by (rule reads_header) simp_all
  have x: "reads (read_xb_vector fc) (enc_u64 0) []" using reads_xb_vector[of fc "[]"] by (simp add: codec_ok_def)
  have "reads (read_index_flat fc) (header_bytes 1 (2 ^ 62) True METRIC_L2 @ enc_u64 0) ?f"
    unfolding read_index_flat_def
    by (rule reads_bind[OF h], unfold prod.case, subst append_Nil2[symmetric], rule reads_bind[OF x], rule reads_check)
       (simp_all add: reads_return)
  from reads_map_parser[OF this, of Flat_index]
  have "reads (read_index_depth fc dc junk (Suc n)) (le_enc 4 (fourcc ''IxF2'') @ header_bytes 1 (2 ^ 62) True METRIC_L2 @ enc_u64 0) (Flat_index ?f)" for n
    by (intro reads_tag) (simp_all add: fourcc_values read_index_body_def)
  from reads_open[OF this[of 44]] show ?thesis
    unfolding read_index_def by (intro exI[of _ ?f]) (auto simp: header_bytes_def enc_i32_def enc_u64_def)
qed

text \<open>\<open>validate_HNSW\<close> does not relate the entry point to \<open>max_level\<close>: it accepts an entry point that is not on
  the level where a search starts, and the range of its neighbors there ends outside the array.\<close>

lemma entry_level_not_validated:
  "\<exists>h. validate_HNSW (map int (hn_cum h)) (map int (hn_levels h)) (hn_offsets h) (hn_neighbors h) (hn_entry_point h) (hn_max_level h) = Inr () \<and>
     0 \<le> hn_entry_point h \<and>
     snd (neighbor_range h (nat (hn_entry_point h)) (nat (hn_max_level h))) > length (hn_neighbors h)"
proof -
  let ?h = "HNSW_empty\<lparr> hn_assign_probas := [1], hn_cum := [0, 2, 4], hn_levels := [1], hn_offsets := [0, 2],
    hn_neighbors := [-1, -1], hn_entry_point := 0, hn_max_level := 1 \<rparr>"
  show ?thesis
    by (rule exI[of _ ?h]) (simp add: validate_HNSW_def int32_of_def neighbor_range_def cum_nb_neighbors_def Let_def)
qed

end
