(* ===== verification/FlatSearchProps.thy ===== *)
theory FlatSearchProps
  imports FlatSearchOk
begin

text \<open>
  \<open>IndexFlat::search\<close> through the drivers, with every kind of selector: exactness, and the inputs on which
  it is not defined.
\<close>

section \<open>Vectors named by a list\<close>

lemma knn_by_idx_query_best:
  assumes "1 \<le> k" "length out = k" "n \<le> length ids" "set (take n ids) \<subseteq> {0..<int ny}"
    "\<forall>j < ny. \<bar>vec_dis m x_i (row d j y)\<bar> < FLT_MAX"
  shows "best_row m k (mset (map (\<lambda>j. (vec_dis m x_i (row d (nat j) y), j)) (take n ids)))
    (knn_by_idx_query m x_i y ids d ny n k out)"
proof -
  let ?ps = "map (\<lambda>j. (vec_dis m x_i (row d (nat j) y), j)) (take n ids)"
  let ?f = "\<lambda>j heap. let dis = vec_dis m x_i (row d (nat j) y)
              in if C_cmp m (fst (heap ! 0)) dis then heap_replace_top (C_cmp2 m) k heap (dis, j) else heap"
  have tw: "takeWhile (\<lambda>j. \<not> (j < 0 \<or> j \<ge> int ny)) (take n ids) = take n ids"
    using assms(4) by (auto simp: takeWhile_eq_all_conv)
  have fold: "fold ?f js h = fold (C.addn_step m k) (map (\<lambda>j. (vec_dis m x_i (row d (nat j) y), j)) js) h" for js h
    by (induction js arbitrary: h) (simp_all add: C.addn_step_def Let_def)
  have "C.kept m k (C_neutral m) (mset ?ps + {#}) (fold (C.addn_step m k) ?ps (replicate k (C_neutral m, -1)))"
    by (rule C.kept_fold[OF assms(1) C.kept_empty])
  moreover have "\<forall>p \<in># mset ?ps + {#}. C_cmp m (C_neutral m) (fst p) \<and> snd p \<noteq> -1"
  proof -
    have "C_cmp m (C_neutral m) (vec_dis m x_i (row d (nat j) y)) \<and> j \<noteq> -1" if "j \<in> set (take n ids)" for j
    proof -
      have "0 \<le> j" "j < int ny" using that assms(4) by auto
      then have "nat j < ny" by linarith
      then have "\<bar>vec_dis m x_i (row d (nat j) y)\<bar> < FLT_MAX" using assms(5) by blast
      then show ?thesis using \<open>0 \<le> j\<close> by (auto simp: C_cmp_def C_neutral_def CMin_cmp_def CMax_cmp_def)
    qed
    then show ?thesis by auto
  qed
  ultimately obtain S where
    "heap_reorder (C_cmp2 m) (C_neutral m) k (fold (C.addn_step m k) ?ps (replicate k (C_neutral m, -1)))
      = (length S, S @ replicate (k - length S) (C_neutral m, -1))" "C.best m k (mset ?ps) S"
    using C.kept_reorder[of m k "C_neutral m" "mset ?ps + {#}"] by auto
  then show ?thesis
    unfolding knn_by_idx_query_def Let_def tw fold[unfolded Let_def] heap_heapify_empty[OF assms(2)] best_row_def by auto
qed

lemma array_selection:
  assumes "n \<le> length ids" "distinct (take n ids)" "set (take n ids) \<subseteq> {0..<int ny}"
  shows "mset (map (\<lambda>j. (g (nat j), j)) (take n ids))
    = mset (map (\<lambda>j. (g j, int j)) (filter (is_in_selection (Some (IDSelectorArray n ids))) [0..<ny]))"
proof -
  let ?js = "filter (is_in_selection (Some (IDSelectorArray n ids))) [0..<ny]"
  have mem: "is_in_selection (Some (IDSelectorArray n ids)) j \<longleftrightarrow> int j \<in> set (take n ids)" for j
    using assms(1) by (auto simp: is_in_selection_def list_ex_iff in_set_conv_nth)
  have "set ?js = nat ` set (take n ids)"
    using assms(3) by (auto simp: mem image_iff subset_eq intro!: bexI[rotated])
  moreover have "distinct (map nat (take n ids))"
    using assms(2,3) by (auto simp: distinct_map inj_on_def subset_eq dest: eq_nat_nat_iff[THEN iffD1, rotated 2])
  ultimately have "mset ?js = mset (map nat (take n ids))"
    by (intro set_eq_iff_mset_eq_distinct[THEN iffD1]) auto
  then have "image_mset (\<lambda>j. (g j, int j)) (mset ?js) = image_mset (\<lambda>j. (g j, int j)) (mset (map nat (take n ids)))"
    by (rule arg_cong)
  then have "mset (map (\<lambda>j. (g j, int j)) ?js) = mset (map (\<lambda>j. (g (nat j), int (nat j))) (take n ids))"
    by (simp only: mset_map[symmetric] map_map comp_def)
  also have "map (\<lambda>j. (g (nat j), int (nat j))) (take n ids) = map (\<lambda>j. (g (nat j), j)) (take n ids)"
    using assms(3) by (auto simp: subset_eq)
  finally show ?thesis by simp
qed

section \<open>Ranges\<close>

text \<open>Shifting the ids of the results.\<close>

lemma best_row_shift:
  assumes "best_row m k (mset (map (\<lambda>j. (g j, int j)) js)) r"
  shows "best_row m k (mset (map (\<lambda>j. (g j, int j + int c)) js)) (map (\<lambda>(v, i). (v, if i \<ge> 0 then i + int c else i)) r)"
proof -
  let ?A = "mset (map (\<lambda>j. (g j, int j)) js)" and ?f = "\<lambda>(v, i). (v, if i \<ge> 0 then i + int c else i)"
  let ?g = "\<lambda>p :: float_t \<times> int. (fst p, snd p + int c)"
  from assms obtain S R where S: "r = S @ replicate (k - length S) (C_neutral m, -1)" "length S = min k (size ?A)"
    "sorted_wrt (\<lambda>a b. \<not> C_cmp2 m a b) S" "?A = mset S + R" "C.not_better m R S"
    by (auto simp: best_row_def C.best_def)
  have "?f p = ?g p" if "p \<in> set S" for p
  proof -
    have "p \<in># ?A" using that S(4) by simp
    then show ?thesis by auto
  qed
  then have m: "map ?f r = map ?g S @ replicate (k - length S) (C_neutral m, -1)" by (simp add: S(1))
  have "mset (map (\<lambda>j. (g j, int j + int c)) js) = image_mset ?g ?A" by (simp add: image_mset.compositionality comp_def)
  also have "\<dots> = mset (map ?g S) + image_mset ?g R" unfolding S(4) by simp
  finally have A: "mset (map (\<lambda>j. (g j, int j + int c)) js) = mset (map ?g S) + image_mset ?g R" .
  have "C_cmp2 m (?g a) (?g b) = C_cmp2 m a b" for a b
    by (simp add: C_cmp2_def CMin_cmp2_def CMax_cmp2_def)
  then have "sorted_wrt (\<lambda>a b. \<not> C_cmp2 m a b) (map ?g S)" using S(3) by (simp add: sorted_wrt_map)
  moreover have "C.not_better m (image_mset ?g R) (map ?g S)" using S(5) by (auto simp: C.not_better_def)
  moreover have "length (map ?g S) = min k (size (mset (map (\<lambda>j. (g j, int j + int c)) js)))" using S(2) by simp
  ultimately have "C.best m k (mset (map (\<lambda>j. (g j, int j + int c)) js)) (map ?g S)"
    unfolding C.best_def using A by blast
  then show ?thesis unfolding best_row_def m by (intro exI[of _ "map ?g S"]) simp
qed

lemma filter_range: "b \<le> n \<Longrightarrow> filter (\<lambda>j. a \<le> j \<and> j < b) [0..<n] = [a..<b]"
  by (rule sorted_distinct_set_unique) (auto intro: sorted_wrt_filter)

lemma range_selection:
  assumes "max lo 0 \<le> min hi (int ny)"
  defines "a \<equiv> nat (max lo 0)" and "b \<equiv> nat (min hi (int ny))"
  shows "map (\<lambda>j. (g j, int j)) (filter (is_in_selection (Some (IDSelectorRange lo hi s))) [0..<ny])
    = map (\<lambda>j. (g (a + j), int j + int a)) [0..<b - a]"
proof -
  have ab: "a \<le> b" "b \<le> ny" using assms(1) by (auto simp: a_def b_def)
  have "filter (is_in_selection (Some (IDSelectorRange lo hi s))) [0..<ny] = filter (\<lambda>j. a \<le> j \<and> j < b) [0..<ny]"
    using assms(1) by (intro filter_cong) (auto simp: is_in_selection_def a_def b_def)
  also have "\<dots> = [a..<b]" by (rule filter_range[OF ab(2)])
  also have "\<dots> = map (\<lambda>j. a + j) [0..<b - a]" using ab(1) by (simp add: map_add_upt add.commute[of a])
  finally show ?thesis by (simp add: comp_def add.commute)
qed

section \<open>The search\<close>

text \<open>The inputs on which the search is defined and writes its output: a range must not be inverted once
  it is cut to the stored vectors, and the path with BLAS writes nothing when there is no vector.\<close>

definition search_defined :: "nat \<Rightarrow> nat \<Rightarrow> id_selector option \<Rightarrow> bool" where
  "search_defined n ny sel \<longleftrightarrow>
     (case sel of None \<Rightarrow> n < distance_compute_blas_threshold \<or> 0 < ny
      | Some s \<Rightarrow> (case s of
          IDSelectorRange lo hi _ \<Rightarrow> max lo 0 \<le> min hi (int ny) \<and>
            (n < distance_compute_blas_threshold \<or> max lo 0 < min hi (int ny))
        | IDSelectorArray l ids \<Rightarrow> l \<le> length ids \<and> distinct (take l ids) \<and> set (take l ids) \<subseteq> {0..<int ny}
        | _ \<Rightarrow> True))"

lemma run_search_best:
  assumes "handler_sizes k" "gemm_ok sgemm" "nx * d \<le> length x" "ny * d \<le> length y"
    "sel = None \<longrightarrow> nx < distance_compute_blas_threshold \<or> 0 < ny" "nx \<le> length tab" "\<forall>r \<in> set tab. length r = k"
    "distances_fit m x y d nx ny"
  shows "\<exists>tab'. run_search m sgemm k sel x y d nx ny tab = Inr tab' \<and> length tab' = length tab \<and>
    (\<forall>i < nx. best_row m k (mset (offered_results m (row d i x) y d (filter (is_in_selection sel) [0..<ny]))) (tab' ! i))"
proof (cases "sel \<noteq> None \<or> nx < distance_compute_blas_threshold")
  case True
  with exhaustive_seq_best[OF assms(1,6,7,8)] show ?thesis by (simp add: run_search_def)
next
  case False
  then have "filter (is_in_selection sel) [0..<ny] = [0..<ny]" "0 < ny" using assms(5) by (auto simp: is_in_selection_def)
  with exhaustive_blas_best[OF assms(1-4) _ assms(6-8)] False show ?thesis by (simp add: run_search_def)
qed

lemma knn_driver_range:
  "knn_driver m sgemm x y d nx ny k (Some (IDSelectorRange lo hi s)) tab =
     (let imin = max lo 0; ny' = nat ((min hi (int ny) - imin) mod 2 ^ 64); y' = drop (d * nat imin) y
      in if 0 < nx \<and> length y' < ny' * d then Inl OutOfBounds
         else bind_result (run_search m sgemm k None x y' d nx ny' tab) (\<lambda>tab'.
           Inr (if imin \<noteq> 0 then each_row (\<lambda>_. map (\<lambda>(v, i). (v, if i \<ge> 0 then i + imin else i))) 0 nx tab' else tab')))"
  by (simp only: knn_driver_def option.case id_selector.case Let_def prod.case)

lemma knn_driver_best:
  assumes "handler_sizes k" "gemm_ok sgemm" "nx * d \<le> length x" "length y = ny * d" "ny < 2 ^ 63"
    "search_defined nx ny sel" "length tab = nx" "\<forall>r \<in> set tab. length r = k" "distances_fit m x y d nx ny"
  shows "\<exists>tab'. knn_driver m sgemm x y d nx ny k sel tab = Inr tab' \<and> length tab' = nx \<and>
    (\<forall>i < nx. best_row m k (mset (offered_results m (row d i x) y d (filter (is_in_selection sel) [0..<ny]))) (tab' ! i))"
proof -
  have k: "1 \<le> k" using assms(1) by (simp add: handler_sizes_def)
  consider (range) lo hi s where "sel = Some (IDSelectorRange lo hi s)" | (arr) l ids where "sel = Some (IDSelectorArray l ids)"
    | (other) "\<forall>lo hi s. sel \<noteq> Some (IDSelectorRange lo hi s)" "\<forall>l ids. sel \<noteq> Some (IDSelectorArray l ids)" by blast
  then show ?thesis
  proof cases
    case other
    have "knn_driver m sgemm x y d nx ny k sel tab = run_search m sgemm k sel x y d nx ny tab"
      using other assms(4)
      by (auto simp: knn_driver_def bind_result_def Let_def split: option.splits id_selector.splits sum.splits)
    moreover have "sel = None \<longrightarrow> nx < distance_compute_blas_threshold \<or> 0 < ny"
      using assms(6) by (auto simp: search_defined_def)
    ultimately show ?thesis using run_search_best[OF assms(1-3) _ _ _ assms(8,9), of sel] assms(4,7) by simp
  next
    case arr
    have a: "l \<le> length ids" "distinct (take l ids)" "set (take l ids) \<subseteq> {0..<int ny}"
      using assms(6) unfolding arr by (simp_all add: search_defined_def)
    let ?tab = "knn_by_idx m x y ids d nx ny l k 0 tab"
    have "best_row m k (mset (offered_results m (row d i x) y d (filter (is_in_selection sel) [0..<ny]))) (?tab ! i)" if "i < nx" for i
    proof -
      have "\<forall>j < ny. \<bar>vec_dis m (row d i x) (row d j y)\<bar> < FLT_MAX" "length (tab ! i) = k"
        using assms(7-9) that by (simp_all add: distances_fit_def)
      from knn_by_idx_query_best[OF k this(2) a(1,3) this(1)] show ?thesis
        using that assms(7) unfolding offered_results_def arr array_selection[OF a, symmetric]
        by (simp add: knn_by_idx_def nth_each_row)
    qed
    then show ?thesis using assms(7) by (simp add: knn_driver_def arr) (simp add: knn_by_idx_def)
  next
    case range
    let ?a = "nat (max lo 0)" and ?b = "nat (min hi (int ny))"
    have r: "max lo 0 \<le> min hi (int ny)" "nx < distance_compute_blas_threshold \<or> 0 < ?b - ?a"
      using assms(6) unfolding range by (auto simp: search_defined_def)
    have ab: "?a \<le> ?b" "?b \<le> ny" using r(1) by auto
    have ny': "nat ((min hi (int ny) - max lo 0) mod 2 ^ 64) = ?b - ?a"
    proof -
      have "min hi (int ny) - max lo 0 < 2 ^ 64" using assms(5) by (simp add: min_def max_def)
      then have "(min hi (int ny) - max lo 0) mod 2 ^ 64 = min hi (int ny) - max lo 0"
        using r(1) by (intro mod_pos_pos_trivial) simp_all
      then show ?thesis using r(1) by (simp add: nat_diff_distrib)
    qed
    let ?y = "drop (d * ?a) y"
    have y: "row d j ?y = row d (?a + j) y" for j using row_drop[where d = d and i = j and j = ?a and xs = y] by (simp only: mult.commute[of d])
    have len: "(?b - ?a) * d \<le> length ?y"
    proof -
      have "?b * d \<le> length y" using mult_le_mono1[OF ab(2), of d] assms(4) by simp
      then show ?thesis unfolding length_drop diff_mult_distrib mult.commute[of d] by (rule diff_le_mono)
    qed
    have "distances_fit m x ?y d nx (?b - ?a)" using assms(9) ab(2) by (simp add: distances_fit_def y)
    from run_search_best[OF assms(1-3) len _ _ assms(8) this, of None] r(2) assms(7) obtain tab' where
      t: "run_search m sgemm k None x ?y d nx (?b - ?a) tab = Inr tab'" "length tab' = nx"
        "\<forall>i < nx. best_row m k (mset (offered_results m (row d i x) ?y d [0..<?b - ?a])) (tab' ! i)"
      by (auto simp: is_in_selection_def)
    let ?shift = "map (\<lambda>(v, i). (v, if i \<ge> 0 then i + int ?a else i)) :: (float_t \<times> int) list \<Rightarrow> _"
    have best: "best_row m k (mset (offered_results m (row d i x) y d (filter (is_in_selection sel) [0..<ny]))) (?shift (tab' ! i))"
      if "i < nx" for i
      using best_row_shift[OF t(3)[rule_format, OF that, unfolded offered_results_def], of ?a]
      unfolding offered_results_def range range_selection[OF r(1)] by (simp add: y)
    let ?out = "if max lo 0 \<noteq> 0 then each_row (\<lambda>_. ?shift) 0 nx tab' else tab'"
    have "?out ! i = ?shift (tab' ! i)" if "i < nx" for i
      using t(2) that by (auto simp: nth_each_row max_def intro!: nth_equalityI split: prod.splits)
    moreover have "knn_driver m sgemm x y d nx ny k sel tab = Inr ?out"
    proof -
      have a: "int ?a = max lo 0" by simp
      have in_bounds: "\<not> (0 < nx \<and> length ?y < (?b - ?a) * d)" using len by simp
      show ?thesis
        unfolding range knn_driver_range Let_def ny' if_not_P[OF in_bounds] t(1) bind_result_Inr a by (rule refl)
    qed
    ultimately show ?thesis using best t(2) by (intro exI[of _ ?out]) simp
  qed
qed

text \<open>C26. \<open>IndexFlat::search\<close> is exact: whatever the number of queries, hence the path (one vector at a
  time, or blocks with the matrix product), and whatever \<open>k\<close> up to 256, hence the handler (single best,
  heap, reservoir), every row holds the best \<open>k\<close> of the selected vectors with their true distances, best
  first, padded with the neutral value and -1; for ranges, arrays, any other selector and none. For \<open>k\<close>
  above 256 the 200 rounds of the partition of a reservoir are not always enough.\<close>

theorem flat_search_exact:
  assumes "gemm_ok sgemm" "flat_ok f" "fl_ntotal f < 2 ^ 63" "0 < k" "k \<le> 256" "n * fl_d f \<le> length x"
    "length tab = n" "\<forall>r \<in> set tab. length r = nat k" "search_defined n (fl_ntotal f) sel"
    "distances_fit (fl_metric f) x (fl_codes f) (fl_d f) n (fl_ntotal f)"
  shows "\<exists>tab'. flat_search sgemm f n x k sel tab = Inr tab' \<and> length tab' = n \<and>
    (\<forall>i < n. best_row (fl_metric f) (nat k)
      (mset (map (\<lambda>j. (flat_dis f (row (fl_d f) i x) j, int j)) (filter (is_in_selection sel) [0..<fl_ntotal f]))) (tab' ! i))"
proof -
  have "handler_sizes (nat k)" using assms(4,5) by (auto simp: handler_sizes_def)
  from knn_driver_best[OF this assms(1,6) assms(2)[unfolded flat_ok_def] assms(3,9,7,8,10)] obtain tab' where
    "knn_driver (fl_metric f) sgemm x (fl_codes f) (fl_d f) n (fl_ntotal f) (nat k) sel tab = Inr tab'" "length tab' = n"
    "\<forall>i < n. best_row (fl_metric f) (nat k) (mset (offered_results (fl_metric f) (row (fl_d f) i x) (fl_codes f) (fl_d f)
        (filter (is_in_selection sel) [0..<fl_ntotal f]))) (tab' ! i)" by blast
  moreover have "vec_dis (fl_metric f) q (row (fl_d f) j (fl_codes f)) = flat_dis f q j" for q j
    by (cases "fl_metric f") (simp_all add: vec_dis_def flat_dis_def flat_vec_def)
  ultimately show ?thesis using assms(4) by (auto simp: flat_search_def offered_results_def)
qed

theorem flat_search_exact_witness:
  "\<exists>row. flat_search naive_gemm \<lparr> fl_d = 1, fl_metric = METRIC_L2, fl_ntotal = 3, fl_codes = [5, 1, 7] \<rparr> 1 [2] 1 None [[(0, 0)]]
    = Inr [row] \<and> best_row METRIC_L2 1 {#(9, 0), (1, 1), (25, 2)#} row"
proof -
  let ?f = "\<lparr> fl_d = 1, fl_metric = METRIC_L2, fl_ntotal = 3, fl_codes = [5, 1, 7] \<rparr>"
  have u: "[0..<3] = [0, 1, 2 :: nat]" by (simp add: upt_rec)
  have rows: "row 1 0 [2 :: float_t] = [2]" "row 1 0 [5, 1, 7 :: float_t] = [5]" "row 1 1 [5, 1, 7 :: float_t] = [1]"
    "row 1 2 [5, 1, 7 :: float_t] = [7]" by (simp_all add: slice_def eval_nat_numeral)
  have fit: "distances_fit METRIC_L2 [2] [5, 1, 7] 1 1 3"
    unfolding distances_fit_def
  proof (intro allI impI)
    fix i j :: nat assume "i < 1" "j < 3"
    then have "i = 0" "j = 0 \<or> j = 1 \<or> j = 2" by auto
    then show "\<bar>vec_dis METRIC_L2 (row 1 i [2]) (row 1 j [5, 1, 7])\<bar> < FLT_MAX"
      unfolding \<open>i = 0\<close> by (elim disjE) (simp_all only: rows, simp_all add: vec_dis_def FLT_MAX_def)
  qed
  have "\<exists>tab'. flat_search naive_gemm ?f 1 [2] 1 None [[(0, 0)]] = Inr tab' \<and> length tab' = 1 \<and>
    (\<forall>i < 1. best_row (fl_metric ?f) (nat 1)
      (mset (map (\<lambda>j. (flat_dis ?f (row (fl_d ?f) i [2]) j, int j)) (filter (is_in_selection None) [0..<fl_ntotal ?f]))) (tab' ! i))"
    by (rule flat_search_exact[OF naive_gemm_ok])
      (use fit in \<open>simp_all add: flat_ok_def search_defined_def distance_compute_blas_threshold_def\<close>)
  then obtain tab' where t: "flat_search naive_gemm ?f 1 [2] 1 None [[(0, 0)]] = Inr tab'" "length tab' = 1"
    "best_row METRIC_L2 1 (mset (map (\<lambda>j. (flat_dis ?f (row 1 0 [2]) j, int j)) (filter (is_in_selection None) [0..<3]))) (tab' ! 0)"
    by auto
  have "map (\<lambda>j. (flat_dis ?f (row 1 0 [2]) j, int j)) (filter (is_in_selection None) [0..<3]) = [(9, 0), (1, 1), (25, 2)]"
    unfolding u rows by (simp add: is_in_selection_def flat_dis_def flat_vec_def rows[simplified])
  then have "best_row METRIC_L2 1 {#(9, 0), (1, 1), (25, 2)#} (tab' ! 0)" using t(3) by simp
  moreover have "tab' = [tab' ! 0]" using t(2) by (cases tab') auto
  ultimately show ?thesis using t(1) by metis
qed

text \<open>C27. Where the search is not defined: it throws unless \<open>k\<close> is positive; a range that is inverted or
  begins behind the last vector makes \<open>ny\<close> wrap around, and the loops read outside the storage; with 20
  queries or more and no vector the caller's output stays as it was, while fewer queries give padded rows;
  an array whose first id is invalid finds nothing, whatever its other ids are.\<close>

theorem flat_search_undefined:
  shows "(k \<le> 0 \<longrightarrow> flat_search sgemm f n x k sel tab = Inl (FaissException ''k > 0'')) \<and>
    (0 < k \<and> 0 < n \<and> 0 < fl_d f \<and> length (fl_codes f) < 2 ^ 62 \<and> fl_ntotal f < 2 ^ 62 \<and>
      lo < 2 ^ 62 \<and> - (2 ^ 62) < hi \<and> min hi (int (fl_ntotal f)) < max lo 0 \<longrightarrow>
      flat_search sgemm f n x k (Some (IDSelectorRange lo hi s)) tab = Inl OutOfBounds) \<and>
    (0 < k \<and> distance_compute_blas_threshold \<le> n \<and> fl_ntotal f = 0 \<longrightarrow> flat_search sgemm f n x k None tab = Inr tab) \<and>
    (0 < k \<and> length tab = n \<and> (\<forall>r \<in> set tab. length r = nat k) \<and> \<not> (0 \<le> i \<and> i < int (fl_ntotal f)) \<longrightarrow>
      flat_search sgemm f n x k (Some (IDSelectorArray (Suc l) (i # ids))) tab
        = Inr (replicate n (replicate (nat k) (C_neutral (fl_metric f), -1))))"
proof (intro conjI impI; (elim conjE)?)
  assume r: "0 < k" "0 < n" "0 < fl_d f" "length (fl_codes f) < 2 ^ 62" "fl_ntotal f < 2 ^ 62" "lo < 2 ^ 62" "- (2 ^ 62) < hi"
    "min hi (int (fl_ntotal f)) < max lo 0"
  let ?df = "min hi (int (fl_ntotal f)) - max lo 0"
  have "?df mod 2 ^ 64 = (?df + 2 ^ 64) mod 2 ^ 64" by (simp only: mod_add_self2)
  also have "\<dots> = ?df + 2 ^ 64" using r by (intro mod_pos_pos_trivial) (simp_all add: min_def max_def)
  finally have ny: "?df mod 2 ^ 64 = ?df + 2 ^ 64" .
  have "int (2 ^ 62) \<le> ?df + 2 ^ 64" using r by (simp add: min_def max_def)
  then have "2 ^ 62 \<le> nat (?df mod 2 ^ 64)" unfolding ny by linarith
  also have "\<dots> \<le> nat (?df mod 2 ^ 64) * fl_d f" using r(3) by simp
  finally have "length (drop (fl_d f * nat (max lo 0)) (fl_codes f)) < nat (?df mod 2 ^ 64) * fl_d f"
    unfolding length_drop using r(4) by linarith
  then show "flat_search sgemm f n x k (Some (IDSelectorRange lo hi s)) tab = Inl OutOfBounds"
    using r(1,2) unfolding flat_search_def knn_driver_range Let_def by simp
next
  assume a: "0 < k" "length tab = n" "\<forall>r \<in> set tab. length r = nat k" "\<not> (0 \<le> i \<and> i < int (fl_ntotal f))"
  let ?m = "fl_metric f" and ?pad = "replicate (nat k) (C_neutral (fl_metric f), -1)"
  have "snd (heap_reorder (C_cmp2 ?m) (C_neutral ?m) (nat k) ?pad) = ?pad"
    using C.kept_reorder[OF C.kept_empty[of ?m "nat k" "C_neutral ?m"]] by (auto simp: C.best_def)
  moreover have "i < 0 \<or> int (fl_ntotal f) \<le> i" using a(4) by auto
  ultimately have "knn_by_idx_query ?m q (fl_codes f) (i # ids) (fl_d f) (fl_ntotal f) (Suc l) (nat k) out = ?pad"
    if "length out = nat k" for q out
    using that by (auto simp: knn_by_idx_query_def Let_def heap_heapify_empty)
  then have "knn_by_idx ?m x (fl_codes f) (i # ids) (fl_d f) n (fl_ntotal f) (Suc l) (nat k) 0 tab = replicate n ?pad"
    using a(2,3) by (intro nth_equalityI) (simp_all add: knn_by_idx_def nth_each_row)
  then show "flat_search sgemm f n x k (Some (IDSelectorArray (Suc l) (i # ids))) tab = Inr (replicate n ?pad)"
    using a(1) by (simp add: flat_search_def knn_driver_def)
qed (simp_all add: flat_search_def knn_driver_def run_search_def exhaustive_blas_def)

theorem flat_search_undefined_witness:
  "flat_search naive_gemm \<lparr> fl_d = 1, fl_metric = METRIC_L2, fl_ntotal = 2, fl_codes = [5, 1] \<rparr> 1 [2] 1
     (Some (IDSelectorRange 5 3 False)) [[(0, 0)]] = Inl OutOfBounds"
  using flat_search_undefined[of 1 naive_gemm "\<lparr> fl_d = 1, fl_metric = METRIC_L2, fl_ntotal = 2, fl_codes = [5, 1] \<rparr>" 1 "[2]"
      None "[[(0, 0)]]" 5 3 False] by simp

end
