(* ===== verification/Flat1D.thy ===== *)
theory Flat1D
  imports Flat HeapArrays
begin

text \<open>
  \<open>IndexFlat1D\<close> (\<open>faiss/IndexFlat.cpp\<close>): one-dimensional vectors with a permutation that sorts them; a
  search bisects to the query and grows from there to both sides. The distances are absolute differences.
  An output row is a list of pairs, with \<open>None\<close> for the infinity of a row that is not filled.
\<close>

section \<open>The index\<close>

record flat1d =
  f1_flat :: flat
  f1_continuous_update :: bool
  f1_perm :: "nat list"

definition IndexFlat1D :: "bool \<Rightarrow> flat1d" where
  "IndexFlat1D continuous_update =
     \<lparr> f1_flat = IndexFlat 1 METRIC_L2, f1_continuous_update = continuous_update, f1_perm = [] \<rparr>"

text \<open>\<open>fvec_argsort\<close> sorts the indices by \<open>std::sort\<close>; the parallel merge sort for a million vectors or
  more is not modelled.\<close>

definition update_permutation :: "flat1d \<Rightarrow> flat1d result" where
  "update_permutation f =
     (if fl_ntotal (f1_flat f) < 1000000
      then Inr (f\<lparr> f1_perm := sorted_order (take (fl_ntotal (f1_flat f)) (fl_codes (f1_flat f))) \<rparr>)
      else Inl NotModelled)"

definition flat1d_add :: "flat1d \<Rightarrow> nat \<Rightarrow> float_t list \<Rightarrow> flat1d result" where
  "flat1d_add f n x =
     (let f' = f\<lparr> f1_flat := flat_add (f1_flat f) n x \<rparr>
      in if f1_continuous_update f then update_permutation f' else Inr f')"

definition flat1d_reset :: "flat1d \<Rightarrow> flat1d" where
  "flat1d_reset f = f\<lparr> f1_flat := flat_reset (f1_flat f), f1_perm := [] \<rparr>"

section \<open>The search\<close>

type_synonym row1d = "(float_t option \<times> int) list"

text \<open>\<open>finish_right\<close> and \<open>finish_left\<close>: the next \<open>n\<close> entries from \<open>i1\<close> upwards, from \<open>i0\<close> downwards. \<open>xs\<close>
  are the vectors in the order of the permutation.\<close>

fun finish_right :: "float_t list \<Rightarrow> nat list \<Rightarrow> float_t \<Rightarrow> nat \<Rightarrow> nat \<Rightarrow> nat \<Rightarrow> row1d" where
  "finish_right xb perm q ntotal i1 0 = []"
| "finish_right xb perm q ntotal i1 (Suc n) =
     (if i1 < ntotal
      then (Some (xb ! (perm ! i1) - q), int (perm ! i1)) # finish_right xb perm q ntotal (i1 + 1) n
      else (None, -1) # finish_right xb perm q ntotal i1 n)"

fun finish_left :: "float_t list \<Rightarrow> nat list \<Rightarrow> float_t \<Rightarrow> int \<Rightarrow> nat \<Rightarrow> row1d" where
  "finish_left xb perm q i0 0 = []"
| "finish_left xb perm q i0 (Suc n) =
     (if i0 \<ge> 0
      then (Some (q - xb ! (perm ! nat i0)), int (perm ! nat i0)) # finish_left xb perm q (i0 - 1) n
      else (None, -1) # finish_left xb perm q i0 n)"

text \<open>The loop that takes the nearer of the two neighbors.\<close>

fun expand :: "float_t list \<Rightarrow> nat list \<Rightarrow> float_t \<Rightarrow> nat \<Rightarrow> int \<Rightarrow> nat \<Rightarrow> nat \<Rightarrow> row1d" where
  "expand xb perm q ntotal i0 i1 0 = []"
| "expand xb perm q ntotal i0 i1 (Suc n) =
     (let xleft = xb ! (perm ! nat i0); xright = xb ! (perm ! i1)
      in if q - xleft < xright - q
         then (Some (q - xleft), int (perm ! nat i0)) #
              (if i0 - 1 < 0 then finish_right xb perm q ntotal i1 n else expand xb perm q ntotal (i0 - 1) i1 n)
         else (Some (xright - q), int (perm ! i1)) #
              (if i1 + 1 \<ge> ntotal then finish_left xb perm q i0 n else expand xb perm q ntotal i0 (i1 + 1) n))"

function bisect1d :: "float_t list \<Rightarrow> nat list \<Rightarrow> float_t \<Rightarrow> nat \<Rightarrow> nat \<Rightarrow> nat \<times> nat" where
  "bisect1d xb perm q i0 i1 =
     (if i0 + 1 < i1
      then let imed = (i0 + i1) div 2
           in if xb ! (perm ! imed) \<le> q then bisect1d xb perm q imed i1 else bisect1d xb perm q i0 imed
      else (i0, i1))"
  by pat_completeness auto
termination by (relation "measure (\<lambda>(xb, perm, q, i0, i1). i1 - i0)") auto

declare bisect1d.simps [simp del]

definition search1d_query :: "float_t list \<Rightarrow> nat list \<Rightarrow> nat \<Rightarrow> float_t \<Rightarrow> nat \<Rightarrow> row1d" where
  "search1d_query xb perm ntotal q k =
     (if ntotal = 0 then replicate k (None, -1)
      else if xb ! (perm ! 0) > q then finish_right xb perm q ntotal 0 k
      else if xb ! (perm ! (ntotal - 1)) \<le> q then finish_left xb perm q (int ntotal - 1) k
      else let (i0, i1) = bisect1d xb perm q 0 ntotal in expand xb perm q ntotal (int i0) i1 k)"

definition flat1d_search :: "flat1d \<Rightarrow> nat \<Rightarrow> float_t list \<Rightarrow> int \<Rightarrow> bool \<Rightarrow> row1d list result" where
  "flat1d_search f n x k has_params =
     throw_unless (\<not> has_params) ''search params not supported for this index''
       (throw_unless (k > 0) ''k > 0''
         (throw_unless (length (f1_perm f) = fl_ntotal (f1_flat f)) ''Call update_permutation before search''
           (Inr (map (\<lambda>i. search1d_query (fl_codes (f1_flat f)) (f1_perm f) (fl_ntotal (f1_flat f)) (x ! i) (nat k)) [0..<n]))))"

section \<open>Two sorted sides\<close>

definition left_side :: "float_t list \<Rightarrow> nat list \<Rightarrow> float_t \<Rightarrow> nat \<Rightarrow> (float_t \<times> int) list" where
  "left_side xb perm q m = map (\<lambda>i. (q - xb ! (perm ! i), int (perm ! i))) (rev [0..<m])"

definition right_side :: "float_t list \<Rightarrow> nat list \<Rightarrow> float_t \<Rightarrow> nat \<Rightarrow> nat \<Rightarrow> (float_t \<times> int) list" where
  "right_side xb perm q i1 ntotal = map (\<lambda>i. (xb ! (perm ! i) - q, int (perm ! i))) [i1..<ntotal]"

definition padded :: "nat \<Rightarrow> (float_t \<times> int) list \<Rightarrow> row1d" where
  "padded k S = map (apfst Some) (take k S) @ replicate (k - length S) (None, -1)"

fun merge_sides :: "(float_t \<times> int) list \<Rightarrow> (float_t \<times> int) list \<Rightarrow> (float_t \<times> int) list" where
  "merge_sides [] R = R"
| "merge_sides L [] = L"
| "merge_sides (a # L) (b # R) = (if fst a < fst b then a # merge_sides L (b # R) else b # merge_sides (a # L) R)"

lemma mset_merge_sides: "mset (merge_sides L R) = mset L + mset R"
  by (induction L R rule: merge_sides.induct) auto

lemma merge_sides_Nil2 [simp]: "merge_sides L [] = L"
  by (cases L) auto

lemma sorted_merge_sides:
  "sorted (map fst L) \<Longrightarrow> sorted (map fst R) \<Longrightarrow> sorted (map fst (merge_sides L R))"
proof (induction L R rule: merge_sides.induct)
  case (3 a L b R)
  have "set (merge_sides xs ys) = set xs \<union> set ys" for xs ys
    using mset_merge_sides[of xs ys] by (metis set_mset_mset set_mset_union)
  with 3 show ?case by (auto intro: order_trans)
qed auto

lemma padded_Nil: "padded k [] = replicate k (None, -1)"
  by (simp add: padded_def)

lemma padded_Cons: "padded (Suc k) (p # S) = (Some (fst p), snd p) # padded k S"
  by (cases p) (simp add: padded_def)

lemma padded_0: "padded 0 S = []"
  by (simp add: padded_def)

lemma finish_right_padded: "finish_right xb perm q ntotal i1 n = padded n (right_side xb perm q i1 ntotal)"
proof (induction n arbitrary: i1)
  case (Suc n)
  then show ?case by (auto simp: right_side_def upt_conv_Cons padded_Cons padded_Nil)
qed (simp add: padded_0)

lemma finish_left_padded: "finish_left xb perm q (int m - 1) n = padded n (left_side xb perm q m)"
proof (induction n arbitrary: m)
  case (Suc n)
  show ?case
  proof (cases m)
    case 0
    have "finish_left xb perm q (-1) l = replicate l (None, -1)" for l by (induction l) simp_all
    from this[of "Suc n"] show ?thesis using 0 by (simp add: left_side_def padded_Nil del: finish_left.simps)
  next
    case (Suc m')
    with Suc.IH[of m'] show ?thesis by (simp add: left_side_def padded_Cons)
  qed
qed (simp add: padded_0)

lemma expand_padded:
  "i0 < i1 \<Longrightarrow> i1 < ntotal \<Longrightarrow>
    expand xb perm q ntotal (int i0) i1 n = padded n (merge_sides (left_side xb perm q (Suc i0)) (right_side xb perm q i1 ntotal))"
proof (induction n arbitrary: i0 i1)
  case (Suc n)
  let ?a = "(q - xb ! (perm ! i0), int (perm ! i0))" and ?b = "(xb ! (perm ! i1) - q, int (perm ! i1))"
  have l: "left_side xb perm q (Suc i0) = ?a # left_side xb perm q i0" by (simp add: left_side_def)
  have r: "right_side xb perm q i1 ntotal = ?b # right_side xb perm q (Suc i1) ntotal"
    using Suc.prems(2) by (simp add: right_side_def upt_conv_Cons)
  show ?case
  proof (cases "q - xb ! (perm ! i0) < xb ! (perm ! i1) - q")
    case True
    have "(if int i0 - 1 < 0 then finish_right xb perm q ntotal i1 n else expand xb perm q ntotal (int i0 - 1) i1 n)
        = padded n (merge_sides (left_side xb perm q i0) (right_side xb perm q i1 ntotal))"
    proof (cases i0)
      case 0
      then show ?thesis by (simp add: finish_right_padded left_side_def)
    next
      case (Suc j)
      with Suc.IH[of j i1] Suc.prems show ?thesis by simp
    qed
    with True show ?thesis by (simp add: Let_def l r padded_Cons)
  next
    case False
    have "(if i1 + 1 \<ge> ntotal then finish_left xb perm q (int i0) n else expand xb perm q ntotal (int i0) (i1 + 1) n)
        = padded n (merge_sides (left_side xb perm q (Suc i0)) (right_side xb perm q (Suc i1) ntotal))"
    proof (cases "i1 + 1 \<ge> ntotal")
      case True
      with finish_left_padded[of xb perm q "Suc i0" n] show ?thesis by (simp add: right_side_def)
    next
      case False
      with Suc.IH[of i0 "Suc i1"] Suc.prems show ?thesis by simp
    qed
    with False show ?thesis by (simp add: Let_def l r padded_Cons)
  qed
qed (simp add: padded_0)

lemma bisect1d_ok:
  "i0 < i1 \<Longrightarrow> i1 \<le> n \<Longrightarrow> xb ! (perm ! i0) \<le> q \<Longrightarrow> (i1 < n \<longrightarrow> q < xb ! (perm ! i1)) \<Longrightarrow> q < xb ! (perm ! (n - 1)) \<Longrightarrow>
    \<exists>j. bisect1d xb perm q i0 i1 = (j, j + 1) \<and> j + 1 < n \<and> xb ! (perm ! j) \<le> q \<and> q < xb ! (perm ! (j + 1))"
proof (induction xb perm q i0 i1 rule: bisect1d.induct)
  case (1 xb perm q i0 i1)
  show ?case
  proof (cases "i0 + 1 < i1")
    case True
    let ?m = "(i0 + i1) div 2"
    have m: "i0 < ?m" "?m < i1" using True by auto
    show ?thesis
    proof (cases "xb ! (perm ! ?m) \<le> q")
      case le: True
      have "bisect1d xb perm q i0 i1 = bisect1d xb perm q ?m i1" using True le by (subst bisect1d.simps) (simp add: Let_def)
      with "1.IH"(1)[OF True refl le m(2) "1.prems"(2) le "1.prems"(4,5)] show ?thesis by simp
    next
      case gt: False
      have "bisect1d xb perm q i0 i1 = bisect1d xb perm q i0 ?m" using True gt by (subst bisect1d.simps) (simp add: Let_def)
      with "1.IH"(2)[OF True refl gt m(1) _ "1.prems"(3) _ "1.prems"(5)] gt m "1.prems"(2) show ?thesis by simp
    qed
  next
    case False
    then have e: "i1 = i0 + 1" "bisect1d xb perm q i0 i1 = (i0, i1)" using "1.prems"(1) by (simp_all add: bisect1d.simps)
    have "i1 < n" using "1.prems"(2-5) e(1) by (cases "i1 = n") auto
    with e "1.prems"(3,4) show ?thesis by simp
  qed
qed

section \<open>The nearest ones\<close>

lemma padded_topk:
  assumes "sorted (map fst M)" "mset M = A"
  shows "\<exists>S. padded k M = map (apfst Some) S @ replicate (k - length S) (None, -1) \<and> topk k A S"
proof (intro exI conjI)
  show "padded k M = map (apfst Some) (take k M) @ replicate (k - length (take k M)) (None, -1)"
    by (simp add: padded_def min_def)
  have "A = mset (take k M) + mset (drop k M)" using assms(2) by (metis append_take_drop_id mset_append)
  moreover have "fst a \<le> fst r" if r: "r \<in> set (drop k M)" and a: "a \<in> set (take k M)" for r a
  proof -
    have "sorted (map fst (take k M) @ map fst (drop k M))" using assms(1) by (metis append_take_drop_id map_append)
    then show ?thesis using r a by (auto simp: sorted_append)
  qed
  moreover have "sorted (map fst (take k M))" using assms(1) by (metis sorted_wrt_take take_map)
  moreover have "size A = length M" using assms(2) by (metis size_mset)
  ultimately show "topk k A (take k M)" by (auto simp: topk_def min_def)
qed

definition perm_ok :: "float_t list \<Rightarrow> nat list \<Rightarrow> nat \<Rightarrow> bool" where
  "perm_ok xb perm n \<longleftrightarrow> mset perm = mset [0..<n] \<and> sorted (map (\<lambda>i. xb ! i) perm)"

text \<open>The two sides of a position that separates the vectors up to the query from the others.\<close>

lemma sides_merge:
  assumes "perm_ok xb perm n" "c \<le> n" "\<forall>i < c. xb ! (perm ! i) \<le> q" "\<forall>i. c \<le> i \<and> i < n \<longrightarrow> q < xb ! (perm ! i)"
  defines "M \<equiv> merge_sides (left_side xb perm q c) (right_side xb perm q c n)"
  shows "sorted (map fst M)" "mset M = mset (map (\<lambda>j. (\<bar>xb ! j - q\<bar>, int j)) [0..<n])"
proof -
  have len: "length perm = n" using assms(1) by (metis perm_ok_def size_mset length_upt minus_nat.diff_0)
  have mono: "xb ! (perm ! i) \<le> xb ! (perm ! j)" if "i \<le> j" "j < n" for i j
    using assms(1) sorted_nth_mono[of "map (\<lambda>i. xb ! i) perm" i j] that len by (simp add: perm_ok_def)
  have "map fst (left_side xb perm q c) = rev (map (\<lambda>i. q - xb ! (perm ! i)) [0..<c])"
    by (simp add: left_side_def rev_map comp_def)
  then have "sorted (map fst (left_side xb perm q c))"
    using assms(2) mono by (simp add: sorted_rev_iff_nth_mono)
  moreover have "sorted (map fst (right_side xb perm q c n))"
    unfolding right_side_def map_map
    by (auto simp: sorted_wrt_map sorted_wrt_iff_nth_less intro!: mono)
  ultimately show "sorted (map fst M)" unfolding M_def by (rule sorted_merge_sides)
  let ?f = "\<lambda>i. (\<bar>xb ! (perm ! i) - q\<bar>, int (perm ! i))"
  have "left_side xb perm q c = map ?f (rev [0..<c])"
    unfolding left_side_def using assms(3) by (intro map_cong) (auto simp: abs_if not_less)
  moreover have "right_side xb perm q c n = map ?f [c..<n]"
    unfolding right_side_def using assms(4) by (intro map_cong) (auto simp: abs_if dest!: spec)
  ultimately have "mset M = image_mset ?f (mset [0..<c] + mset [c..<n])"
    by (simp add: M_def mset_merge_sides)
  also have "mset [0..<c] + mset [c..<n] = mset [0..<n]"
    using assms(2) by (metis le_add_diff_inverse mset_append upt_add_eq_append zero_le)
  also have "image_mset ?f (mset [0..<n]) = image_mset (\<lambda>j. (\<bar>xb ! j - q\<bar>, int j)) (mset (map (\<lambda>i. perm ! i) [0..<n]))"
    by (simp add: image_mset.compositionality comp_def)
  also have "map (\<lambda>i. perm ! i) [0..<n] = perm" using len by (metis map_nth)
  finally show "mset M = mset (map (\<lambda>j. (\<bar>xb ! j - q\<bar>, int j)) [0..<n])"
    using assms(1) by (simp add: perm_ok_def)
qed

lemma search1d_query_nearest:
  assumes "perm_ok xb perm n"
  shows "\<exists>S. search1d_query xb perm n q k = map (apfst Some) S @ replicate (k - length S) (None, -1) \<and>
    topk k (mset (map (\<lambda>j. (\<bar>xb ! j - q\<bar>, int j)) [0..<n])) S"
proof -
  have len: "length perm = n" using assms by (metis perm_ok_def size_mset length_upt minus_nat.diff_0)
  have mono: "xb ! (perm ! i) \<le> xb ! (perm ! j)" if "i \<le> j" "j < n" for i j
    using assms sorted_nth_mono[of "map (\<lambda>i. xb ! i) perm" i j] that len by (simp add: perm_ok_def)
  have "\<exists>c \<le> n. (\<forall>i < c. xb ! (perm ! i) \<le> q) \<and> (\<forall>i. c \<le> i \<and> i < n \<longrightarrow> q < xb ! (perm ! i)) \<and>
    search1d_query xb perm n q k = padded k (merge_sides (left_side xb perm q c) (right_side xb perm q c n))"
  proof -
    consider (empty) "n = 0" | (before) "0 < n" "xb ! (perm ! 0) > q"
      | (after) "0 < n" "xb ! (perm ! 0) \<le> q" "xb ! (perm ! (n - 1)) \<le> q"
      | (inside) "0 < n" "xb ! (perm ! 0) \<le> q" "q < xb ! (perm ! (n - 1))" by (meson not_gr0 not_less)
    then show ?thesis
    proof cases
      case empty
      then show ?thesis by (simp add: search1d_query_def left_side_def right_side_def padded_Nil)
    next
      case before
      then have "\<forall>i. i < n \<longrightarrow> q < xb ! (perm ! i)" using mono[of 0] by (meson le0 less_le_trans)
      with before show ?thesis
        by (intro exI[of _ 0]) (simp add: search1d_query_def finish_right_padded left_side_def)
    next
      case after
      have "xb ! (perm ! i) \<le> q" if "i < n" for i
      proof -
        have "xb ! (perm ! i) \<le> xb ! (perm ! (n - 1))" using mono[of i "n - 1"] that by simp
        with after(3) show ?thesis by linarith
      qed
      moreover have "search1d_query xb perm n q k = padded k (merge_sides (left_side xb perm q n) (right_side xb perm q n n))"
        using after by (simp add: search1d_query_def not_less finish_left_padded right_side_def)
      ultimately show ?thesis by (intro exI[of _ n]) simp
    next
      case inside
      from bisect1d_ok[OF inside(1) order_refl inside(2) _ inside(3)] obtain j where
        j: "bisect1d xb perm q 0 n = (j, j + 1)" "j + 1 < n" "xb ! (perm ! j) \<le> q" "q < xb ! (perm ! (j + 1))" by auto
      have "xb ! (perm ! i) \<le> q" if "i < j + 1" for i
      proof -
        have "xb ! (perm ! i) \<le> xb ! (perm ! j)" using mono[of i j] that j(2) by simp
        with j(3) show ?thesis by linarith
      qed
      moreover have "\<forall>i. j + 1 \<le> i \<and> i < n \<longrightarrow> q < xb ! (perm ! i)" using mono[of "j + 1"] j(4) by (meson less_le_trans)
      moreover have "search1d_query xb perm n q k
          = padded k (merge_sides (left_side xb perm q (j + 1)) (right_side xb perm q (j + 1) n))"
        using inside j(1,2) expand_padded[of j "j + 1" n xb perm q k] by (simp add: search1d_query_def not_less)
      ultimately show ?thesis using j(2) by (intro exI[of _ "j + 1"]) simp
    qed
  qed
  then obtain c where c: "c \<le> n" "\<forall>i < c. xb ! (perm ! i) \<le> q" "\<forall>i. c \<le> i \<and> i < n \<longrightarrow> q < xb ! (perm ! i)"
    "search1d_query xb perm n q k = padded k (merge_sides (left_side xb perm q c) (right_side xb perm q c n))" by blast
  show ?thesis unfolding c(4) by (rule padded_topk[OF sides_merge[OF assms c(1-3)]])
qed

section \<open>The index and its search\<close>

definition flat1d_ok :: "flat1d \<Rightarrow> bool" where
  "flat1d_ok f \<longleftrightarrow> flat_ok (f1_flat f) \<and> fl_d (f1_flat f) = 1 \<and> perm_ok (fl_codes (f1_flat f)) (f1_perm f) (fl_ntotal (f1_flat f))"

lemma perm_ok_sorted_order: "perm_ok xb (sorted_order xb) (length xb)"
  by (simp add: perm_ok_def mset_sorted_order)

lemma flat1d_ok_new: "flat1d_ok (IndexFlat1D c)" "fl_d (f1_flat f) = 1 \<Longrightarrow> flat1d_ok (flat1d_reset f)"
  by (simp_all add: flat1d_ok_def perm_ok_def IndexFlat1D_def flat1d_reset_def IndexFlat_def flat_reset_def flat_ok_def)

lemma update_permutation_ok:
  assumes "flat_ok (f1_flat f)" "fl_d (f1_flat f) = 1" "update_permutation f = Inr f'"
  shows "flat1d_ok f' \<and> f1_flat f' = f1_flat f"
  using assms perm_ok_sorted_order[of "fl_codes (f1_flat f)"]
  by (auto simp: update_permutation_def flat1d_ok_def flat_ok_def split: if_splits)

text \<open>C29. \<open>IndexFlat1D\<close> with continuous update: after \<open>add\<close> to an index in order, below a million vectors, a
  search gives for every query the \<open>k\<close> vectors of smallest absolute difference, ascending, padded with
  infinity and -1, whether the query lies before, after or among the vectors.\<close>

theorem flat1d_add_search_nearest:
  assumes "flat1d_ok f" "f1_continuous_update f" "length y = m" "fl_ntotal (f1_flat f) + m < 1000000" "0 < k" "i < n"
  shows "\<exists>f' rows S. flat1d_add f m y = Inr f' \<and> flat1d_ok f' \<and> fl_codes (f1_flat f') = fl_codes (f1_flat f) @ y \<and>
    flat1d_search f' n x k False = Inr rows \<and> length rows = n \<and>
    rows ! i = map (apfst Some) S @ replicate (nat k - length S) (None, -1) \<and>
    topk (nat k) (mset (map (\<lambda>j. (\<bar>(fl_codes (f1_flat f) @ y) ! j - x ! i\<bar>, int j)) [0..<fl_ntotal (f1_flat f) + m])) S"
proof -
  let ?g = "flat_add (f1_flat f) m y"
  have f: "flat_ok (f1_flat f)" "fl_d (f1_flat f) = 1" using assms(1) by (simp_all add: flat1d_ok_def)
  have le: "m * fl_d (f1_flat f) \<le> length y" using f(2) assms(3) by simp
  note add = flat_add_ok[OF f(1) le] flat_add_codes[OF f(1) le]
  obtain f' where f': "flat1d_add f m y = Inr f'" "update_permutation (f\<lparr> f1_flat := ?g \<rparr>) = Inr f'"
    using assms(2,4) add(2) by (auto simp: flat1d_add_def update_permutation_def)
  have ok: "flat1d_ok f'" "f1_flat f' = ?g"
    using update_permutation_ok[OF _ _ f'(2)] add(1,3) f(2) by simp_all
  have g: "fl_codes ?g = fl_codes (f1_flat f) @ y" "fl_ntotal ?g = fl_ntotal (f1_flat f) + m"
    using add(7) f(2) assms(3) by simp_all
  have perm: "perm_ok (fl_codes (f1_flat f) @ y) (f1_perm f') (fl_ntotal (f1_flat f) + m)"
    using ok g by (simp add: flat1d_ok_def)
  then have "length (f1_perm f') = fl_ntotal (f1_flat f) + m"
    by (metis perm_ok_def size_mset length_upt minus_nat.diff_0)
  then have "flat1d_search f' n x k False = Inr (map (\<lambda>i. search1d_query (fl_codes (f1_flat f) @ y) (f1_perm f')
      (fl_ntotal (f1_flat f) + m) (x ! i) (nat k)) [0..<n])"
    using assms(5) ok(2) g by (simp add: flat1d_search_def)
  with search1d_query_nearest[OF perm, of "x ! i" "nat k"] f'(1) ok g assms(6) show ?thesis by auto
qed

theorem flat1d_add_search_nearest_witness:
  "\<exists>f' rows S. flat1d_add (IndexFlat1D True) 3 [5, 1, 4] = Inr f' \<and> flat1d_search f' 1 [3] 2 False = Inr rows \<and>
    rows ! 0 = map (apfst Some) S @ replicate (2 - length S) (None, -1) \<and> topk 2 {#(2, 0), (2, 1), (1, 2)#} S"
proof -
  have "flat1d_ok (IndexFlat1D True)" "f1_continuous_update (IndexFlat1D True)" "length [5, 1, 4 :: float_t] = 3"
    "fl_ntotal (f1_flat (IndexFlat1D True)) + 3 < 1000000"
    by (simp_all add: flat1d_ok_new) (simp_all add: IndexFlat1D_def IndexFlat_def)
  from flat1d_add_search_nearest[OF this, of 2 0 1 "[3]"] obtain f' rows S where
    w: "flat1d_add (IndexFlat1D True) 3 [5, 1, 4] = Inr f'" "flat1d_search f' 1 [3] 2 False = Inr rows"
      "rows ! 0 = map (apfst Some) S @ replicate (2 - length S) (None, -1)"
      "topk 2 (mset (map (\<lambda>j. (\<bar>(fl_codes (f1_flat (IndexFlat1D True)) @ [5, 1, 4]) ! j - [3] ! 0\<bar>, int j))
        [0..<fl_ntotal (f1_flat (IndexFlat1D True)) + 3])) S" by auto
  have e: "map (\<lambda>j. (\<bar>(fl_codes (f1_flat (IndexFlat1D True)) @ [5, 1, 4]) ! j - [3] ! 0\<bar>, int j)) [0..<fl_ntotal (f1_flat (IndexFlat1D True)) + 3]
      = [(2, 0), (2, 1), (1, 2)]"
    by (simp add: IndexFlat1D_def IndexFlat_def upt_rec)
  have "topk 2 {#(2, 0), (2, 1), (1, 2)#} S" using w(4) unfolding e by simp
  with w(1-3) show ?thesis by blast
qed

end
