(* ===== verification/Spec2Isabelle.thy ===== *)
theory Spec2Isabelle
  imports SuCoIO SuCoAssign VisitedTab Minimax HnswBuildProps IndexHnswProps CspgProps ShgSearchProps PgmProps IndexIOProps
    FlatSearchProps Flat1D
begin

text \<open>
  Verification of the three indexes that this fork adds to FAISS, and of the parts of FAISS they stand on.

  \<^bold>\<open>The program.\<close> \<open>IndexSuCo\<close> (\<open>faiss/IndexSuCo.cpp\<close>) splits the dimensions into subspaces and each of them
  into two halves with k-means centroids; an inverted multi-index per subspace lists the vectors by their
  pair of nearest centroids. A query visits the cells of every subspace nearest first, counts in how many
  subspaces a vector collides with it, and ranks the vectors of highest count by exact distance.
  \<open>IndexHNSWFlat\<close> (\<open>faiss/IndexHNSW.cpp\<close>, \<open>faiss/impl/HNSW.cpp\<close>) is a hierarchical graph over a flat storage.
  \<open>IndexCSPG\<close> (\<open>faiss/IndexCSPG.cpp\<close>) builds several such graphs on random partitions that share routing
  vectors and searches them together. \<open>IndexSHG\<close> (\<open>faiss/IndexSHG.cpp\<close>) is an \<open>IndexHNSWFlat\<close> whose upper
  levels compare compressed vectors, with a learned shortcut over levels (a PGM index,
  \<open>faiss/impl/pgm\<close>) and pruning by a lower bound. All of them are saved and loaded by \<open>write_index\<close> and
  \<open>read_index\<close> (\<open>faiss/impl/index_write.cpp\<close>, \<open>faiss/impl/index_read.cpp\<close>).
  Heaps (\<open>faiss/utils/Heap.h\<close>), result handlers (\<open>faiss/impl/ResultHandler.h\<close>) and visited tables
  (\<open>faiss/impl/VisitedTable.cpp\<close>) are shared by all.

  \<^bold>\<open>Conventions.\<close> A struct is a record, a method a function from the old object to the new one, an array a
  list. \<open>float\<close> is an exact rational, except that \<open>FLT_MAX\<close> is the number it is; code that only compares
  distances is polymorphic in a linear order. A \<open>DistanceComputer\<close> with its query is a function from
  vertices to distances. A call that may throw has a \<open>result\<close>, a \<open>fault\<close> or a value. A loop with \<open>break\<close>
  is \<open>run_loop\<close> of a step, with the value \<open>None\<close> when it never ends; \<open>run_loop_total\<close> proves by an invariant
  and a measure that it ends, so every theorem that a call gives \<open>Some\<close> includes termination, and no fuel
  is used. A parallel loop takes the schedule of its iterations on threads as an argument and the theorems
  hold for all schedules. Random numbers, k-means, the logarithm in the level probabilities and the layout of
  \<open>float\<close> and \<open>double\<close> in a file are arguments with their documented behaviour as hypotheses.

  \<^bold>\<open>Theories.\<close>
  \<^item> Shared ground: \<open>Prelude\<close> (faults, slices and rows of arrays, the scalar kernels, stable sorting),
    \<open>Io\<close> (bytes of integers, \<open>VectorIOWriter\<close>, \<open>VectorIOReader\<close>, parsers and what they read back),
    \<open>IoMacros\<close> (\<open>impl/io_macros.h\<close>), \<open>Loops\<close>
    (\<open>run_loop\<close>, priority queues, the loop over neighbors in batches of four).
  \<^item> \<open>HeapOps\<close>, \<open>HeapArrays\<close> (\<open>Heap.h\<close> for any comparator), \<open>ResHandler\<close>, \<open>VisitedTab\<close>, \<open>Minimax\<close>
    (\<open>HNSW::MinimaxHeap\<close> with the scalar and SIMD versions of \<open>pop_min\<close>).
  \<^item> \<open>IndexSuCo\<close>: \<open>SuCo\<close> (state, \<open>train\<close>, \<open>add\<close>), \<open>SuCoActivate\<close> (the two traversals), \<open>SuCoSearch\<close> (the
    searches), \<open>SuCoCorrect\<close>, \<open>SuCoProps\<close>, \<open>SuCoAssign\<close> (the BLAS path of the assignment to centroids gives
    the same labels), \<open>SuCoIO\<close> (\<open>write_index\<close>, \<open>read_index\<close>).
  \<^item> \<open>HNSW\<close>: \<open>HnswGraph\<close> (links, levels), \<open>HnswTab\<close> (growing and renumbering), \<open>HnswSearch\<close> and its lemmas
    \<open>HnswSearchOk\<close>, \<open>Beam\<close>, \<open>HnswUnbounded\<close>, \<open>HnswProps\<close>; \<open>HnswBuild\<close> (insertion) and \<open>HnswBuildOk\<close>,
    \<open>HnswInsert\<close>, \<open>HnswLife\<close>, \<open>HnswBuildProps\<close>.
  \<^item> Brute-force search: \<open>Selector\<close> (\<open>impl/IDSelector.cpp\<close>), \<open>Partition\<close> and \<open>PartitionOk\<close>
    (\<open>utils/partitioning.cpp\<close>), \<open>KnnHandler\<close> and \<open>KnnReservoir\<close> (the top-k handlers of
    \<open>ResultHandler.h\<close>), \<open>FlatSearch\<close>, \<open>FlatSearchOk\<close>, \<open>FlatSearchProps\<close> (\<open>utils/distances.cpp\<close>,
    \<open>IndexFlat::search\<close>), \<open>Flat1D\<close> (\<open>IndexFlat1D\<close>).
  \<^item> \<open>Flat\<close> (\<open>IndexFlat\<close> as storage), \<open>IndexHnsw\<close>, \<open>IndexHnswOk\<close>, \<open>IndexHnswProps\<close> (\<open>IndexHNSWFlat\<close>).
  \<^item> \<open>IndexCSPG\<close>: \<open>Cspg\<close>, \<open>CspgOk\<close> (construction), \<open>CspgSearch\<close>, \<open>CspgSearchOk\<close>, \<open>CspgStage2\<close>,
    \<open>CspgSearchRun\<close>, \<open>CspgSearchAll\<close>, \<open>CspgProps\<close>.
  \<^item> \<open>IndexSHG\<close>: \<open>Shg\<close> (shortcut map, compression, distances on a level), \<open>ShgOk\<close>, \<open>ShgShortcut\<close>, \<open>ShgBuild\<close>
    (\<open>add\<close>), \<open>ShgTrain\<close> (\<open>build_shortcut\<close>), \<open>ShgSearch\<close>, \<open>ShgSearchOk\<close>, \<open>ShgIO\<close> (\<open>IndexSHG_io.h\<close>),
    \<open>ShgProps\<close>, \<open>ShgSearchProps\<close>.
  \<^item> The PGM index of the shortcut: \<open>Pgm\<close> (the streaming piecewise linear model, \<open>make_segmentation\<close>,
    \<open>PGMIndex\<close>), \<open>PgmHull\<close> and \<open>PgmFit\<close> (lines, hulls and tangents), \<open>PgmModel\<close>, \<open>PgmSegment\<close> (\<open>add_point\<close>
    accepts a point exactly when a line fits), \<open>PgmSegmentation\<close>, \<open>PgmLevel\<close>, \<open>PgmIndexOk\<close> (the levels and the
    descent through them), \<open>PgmProps\<close>.
  \<^item> Index files: \<open>HnswIO\<close> (\<open>write_HNSW\<close>, \<open>read_HNSW\<close>, \<open>validate_HNSW\<close>), \<open>IndexIO\<close> (\<open>write_index\<close> and
    \<open>read_index\<close>), \<open>IndexIOOk\<close>, \<open>IndexIOCspg\<close>, \<open>IndexIOProps\<close>.

  \<^bold>\<open>Interfaces.\<close> \<open>heap_order\<close> and \<open>heap_topk\<close>: the comparator of a heap; interpreted on the max-heaps and
  min-heaps of the code and on \<open>MinimaxHeap\<close>. \<open>visited_set\<close>: mark, get and advance; interpreted on
  \<open>VisitedTable\<close>. \<open>priority\<close> and \<open>beam\<close>: the orders of the queues of the beam searches; interpreted on the
  lexicographic and the by-distance queues of \<open>HNSW.cpp\<close> and the results of \<open>IndexCSPG\<close>.
  \<open>vertex_insertion\<close>: what the bucket loop of \<open>add\<close> needs from the insertion of one vertex; interpreted on
  the insertion of \<open>IndexHNSWFlat\<close> and on that of \<open>IndexSHG\<close>. \<open>result_handler\<close>: begin, add and end of a
  top-k handler; interpreted on the single best result, the heap, the reservoir and the handler that the
  dispatch chooses, for queries one by one and in blocks.

  \<^bold>\<open>What the lemmas show.\<close>
  \<^item> \<open>IndexSuCo\<close>: \<open>suco_inv\<close> holds in every reachable index; both traversals visit the cells in ascending
    order of distance and count the same collisions (\<open>dynamic_activate_ascending\<close>); the searches give the
    exact ranking of the selected candidates; the uint8 counters do not wrap.
  \<^item> Heaps keep the \<open>k\<close> best (\<open>topk_smallest\<close>, \<open>block_handler_topk\<close>, \<open>kept_best\<close>); \<open>VisitedTable\<close> is a set,
    also across the wrap of its counter; \<open>MinimaxHeap\<close> is a bounded multiset.
  \<^item> \<open>HNSW\<close>: \<open>graph_ok\<close> and \<open>built\<close> are kept by every insertion, also in any interleaving of the locked link
    steps of several threads (\<open>concurrent_links_safe\<close>); every search ends, evaluates each vertex once and
    returns the best of the evaluated ones, all of them when the queue has room and the graph is connected.
  \<^item> \<open>IndexHNSWFlat\<close>, \<open>IndexCSPG\<close>, \<open>IndexSHG\<close>: \<open>add\<close> keeps the invariant of the index (\<open>index_hnsw_ok\<close>,
    \<open>cspg_ok\<close>, \<open>shg_ok\<close>) and \<open>search\<close> returns the \<open>k\<close> nearest of a non-empty set of stored vectors, of all
    of them under the conditions of \<open>hnsw_search_exact\<close>, \<open>cspg_search_exact\<close> (partition 0 not empty, \<open>M \<le> 64\<close>)
    and \<open>shg_search_correct\<close> (L2, compressed levels). \<open>IndexSuCo\<close>, \<open>IndexCSPG\<close>, \<open>IndexSHG\<close> and the unbounded
    queue of \<open>HNSW\<close> ignore the selector of the parameters; the exactness theorems exclude it there.
  \<^item> \<open>IndexSHG\<close> besides: the routines of the compression agree; the scaled compressed distance is a lower
    bound when \<open>eta ^ maxFixLevel_\<close> divides the dimension, so that pruning loses nothing, and is not one in
    general (\<open>lower_bound_exceeds_distance\<close>); \<open>compute_compression_params\<close> ends unless \<open>eta\<close> is 1; the
    training ends; the shortcut predicts what the map of the samples says.
  \<^item> The PGM index: \<open>make_segmentation\<close> makes every segment as long as a line within the error allows
    (\<open>make_segmentation_optimal\<close>); \<open>search\<close> gives a window that holds the lower bound of the key
    (\<open>pgm_search_brackets\<close>), which is all that the shortcut needs from it.
  \<^item> \<open>IndexFlat::search\<close> is exact on both of its paths and for every handler and selector
    (\<open>flat_search_exact\<close>); the partition of a reservoir finds a threshold within its 200 rounds for the sizes
    of \<open>k\<close> up to 256 (\<open>partition_fuzzy_ok\<close>).
  \<^item> Index files: writing and reading is the identity up to flags that are not stored
    (\<open>index_io_roundtrip\<close>); whatever \<open>read_index\<close> accepts keeps the accesses of the levels in bounds
    (\<open>read_index_accepts\<close>); what cannot be written or read (\<open>index_file_errors\<close>).

  \<^bold>\<open>Bounds.\<close> Words are used where the width matters (the uint8 counters of \<open>IndexSuCo\<close> and \<open>VisitedTable\<close>,
  the uint32 stamps of \<open>DisCache\<close>); the other integers are \<open>nat\<close> or \<open>int\<close>, and the theorems on
  files carry the ranges of the stored types. Overflow of 32-bit ids, of \<open>(int)k\<close> and of the encoded pairs
  of \<open>IndexCSPG\<close> is not modelled. Ceilings of quotients of floats are exact, as they are below \<open>2 ^ 24\<close>.
  A reservoir holds at most \<open>2 * k + 15\<close> entries, of which each round of the partition excludes two.
  The conversion of a product of floats to \<open>int64_t\<close> in the PGM index is taken to be in range. The
  recursion of \<open>read_index\<close> is bounded by the number of unread bytes, of which every call takes four.

  \<^bold>\<open>Not modelled.\<close> Rounding of floats, NaN and infinities; the SIMD kernels other than those of \<open>pop_min\<close>;
  \<open>HNSW::search\<close> with Panorama; \<open>fill_with_random_links\<close> and \<open>print_neighbor_stats\<close> (output only); the range search, import and Cagra variants of \<open>IndexHNSW\<close>;
  the loop of \<open>add\<close> over threads (one thread runs it; the interleaving of link steps is separate); interrupts
  and verbose output; the order of equal entries in \<open>std::priority_queue\<close> and \<open>std::sort\<close>, which the lists
  fix; k-means; the files of other index classes, memory-mapped files and \<open>FILE\<close>;
  files with negative numbers in fields that are natural numbers here (the readers give \<open>NotModelled\<close>); a lack
  of memory; range searches
  and their result handler; the extra metrics of \<open>IndexFlat\<close> and the
  parallel sort of \<open>IndexFlat1D\<close>; BLAS, which is a parameter; the other indexes of
  FAISS, its GPU code, bindings and benchmarks, which these three indexes do not use.
\<close>

end
